(* ===== verification/Prelude.thy ===== *)
theory Prelude
  imports Main "HOL-Library.Word"
begin

text \<open>
  The shared vocabulary of the development: the types of the C program's machine integers, the
  outcome monad in which every kernel routine is written, the weakest-precondition calculus that
  carries the proofs about it, and the byte-addressed physical memory with its 64-bit accesses.

  A kernel routine is a function from a state to an \<open>outcome\<close>:
  \<^item> \<open>Ok a s\<close>: it returned \<open>a\<close> in the state \<open>s\<close>;
  \<^item> \<open>Panic msg\<close>: it called \<open>panic(msg)\<close>, which never returns;
  \<^item> \<open>Spin\<close>: it loops without end on a lock that no running code will release;
  \<^item> \<open>Swtch s\<close>: it gave up the processor: control is in the scheduler, in the state \<open>s\<close>.
\<close>

unbundle bit_operations_syntax

section \<open>Machine integers\<close>

type_synonym byte = "8 word"
type_synonym uint16 = "16 word"
type_synonym uint = "32 word"
type_synonym uint64 = "64 word"
type_synonym addr = "64 word"
type_synonym mem = "addr \<Rightarrow> byte"

named_theorems wp_simps \<open>weakest preconditions of the monad's combinators and of the routines\<close>
named_theorems mem_simps \<open>reads after writes of the physical memory\<close>

section \<open>The outcome monad\<close>

datatype ('s, 'a) outcome = Ok 'a 's | Panic string | Spin | Swtch 's

type_synonym ('s, 'a) km = "'s \<Rightarrow> ('s, 'a) outcome"

definition ret :: "'a \<Rightarrow> ('s, 'a) km" where
  "ret a s = Ok a s"

definition bnd :: "('s, 'a) km \<Rightarrow> ('a \<Rightarrow> ('s, 'b) km) \<Rightarrow> ('s, 'b) km" where
  "bnd m f s = (case m s of Ok a t \<Rightarrow> f a t | Panic e \<Rightarrow> Panic e | Spin \<Rightarrow> Spin | Swtch t \<Rightarrow> Swtch t)"

definition seq :: "('s, 'a) km \<Rightarrow> ('s, 'b) km \<Rightarrow> ('s, 'b) km" where
  "seq m n = bnd m (\<lambda>_. n)"

definition panic :: "string \<Rightarrow> ('s, 'a) km" where
  "panic e s = Panic e"

definition spin :: "('s, 'a) km" where
  "spin s = Spin"

definition gets :: "('s \<Rightarrow> 'a) \<Rightarrow> ('s, 'a) km" where
  "gets f s = Ok (f s) s"

definition modify :: "('s \<Rightarrow> 's) \<Rightarrow> ('s, unit) km" where
  "modify f s = Ok () (f s)"

definition whenM :: "bool \<Rightarrow> ('s, unit) km \<Rightarrow> ('s, unit) km" where
  "whenM b m = (if b then m else ret ())"

text \<open>A straight sequence of statements, so that what holds between two of them can be stated.\<close>

primrec run_stmts :: "('s, unit) km list \<Rightarrow> ('s, unit) km" where
  "run_stmts [] = ret ()"
| "run_stmts (m # ms) = seq m (run_stmts ms)"

lemma bnd_Ok_iff: "bnd m f s = Ok b t \<longleftrightarrow> (\<exists>a u. m s = Ok a u \<and> f a u = Ok b t)"
  by (cases "m s") (auto simp: bnd_def)

lemma bnd_assoc: "bnd (bnd m f) g = bnd m (\<lambda>a. bnd (f a) g)"
  by (rule ext) (simp add: bnd_def split: outcome.split)

lemma ret_bnd [simp]: "bnd (ret a) f = f a"
  by (rule ext) (simp add: bnd_def ret_def)

lemma bnd_ret [simp]: "bnd m ret = m"
  by (rule ext) (simp add: bnd_def ret_def split: outcome.split)

text \<open>Loops over the state are recursive functions whose calls sit under \<open>bnd\<close>.\<close>

lemma bnd_cong [fundef_cong]:
  "m = m' \<Longrightarrow> s = s' \<Longrightarrow> (\<And>a t. m' s' = Ok a t \<Longrightarrow> f a t = f' a t) \<Longrightarrow> bnd m f s = bnd m' f' s'"
  by (auto simp: bnd_def split: outcome.split)

text \<open>Evaluation of one step, used to run a routine on a known state.\<close>

lemma run_simps [simp]:
  "ret a s = Ok a s"
  "panic e s = Panic e"
  "spin s = Spin"
  "gets f s = Ok (f s) s"
  "modify g s = Ok () (g s)"
  by (simp_all add: ret_def panic_def spin_def gets_def modify_def)

lemma bnd_run [simp]:
  "m s = Ok a t \<Longrightarrow> bnd m f s = f a t"
  "m s = Panic e \<Longrightarrow> bnd m f s = Panic e"
  "m s = Spin \<Longrightarrow> bnd m f s = Spin"
  "m s = Swtch t \<Longrightarrow> bnd m f s = Swtch t"
  by (simp_all add: bnd_def)

lemma seq_run [simp]:
  "m s = Ok a t \<Longrightarrow> seq m n s = n t"
  "m s = Panic e \<Longrightarrow> seq m n s = Panic e"
  "m s = Spin \<Longrightarrow> seq m n s = Spin"
  "m s = Swtch t \<Longrightarrow> seq m n s = Swtch t"
  by (simp_all add: seq_def)

lemma run_stmts_append: "run_stmts (ms @ ns) = seq (run_stmts ms) (run_stmts ns)"
  by (induction ms) (simp_all add: seq_def bnd_assoc)

lemma seq_unit [simp]: "seq m (ret ()) = m"
  by (rule ext) (simp add: seq_def bnd_def split: outcome.split)

lemma whenM_simps [simp]: "whenM True m = m" "whenM False m = ret ()"
  by (simp_all add: whenM_def)

section \<open>Weakest preconditions\<close>

text \<open>
  \<open>wp m Q s\<close>: started in \<open>s\<close>, the routine returns (it neither panics nor blocks) and its
  result and final state satisfy \<open>Q\<close>: total correctness.
\<close>

definition wp :: "('s, 'a) km \<Rightarrow> ('a \<Rightarrow> 's \<Rightarrow> bool) \<Rightarrow> 's \<Rightarrow> bool" where
  "wp m Q s = (case m s of Ok a t \<Rightarrow> Q a t | _ \<Rightarrow> False)"

lemma wp_ret [wp_simps]: "wp (ret a) Q s = Q a s"
  by (simp add: wp_def)

lemma wp_Ok [wp_simps]: "wp (Ok a) Q s = Q a s"
  by (simp add: wp_def)

lemma wp_bnd [wp_simps]: "wp (bnd m f) Q s = wp m (\<lambda>a. wp (f a) Q) s"
  by (simp add: wp_def bnd_def split: outcome.split)

lemma wp_seq [wp_simps]: "wp (seq m n) Q s = wp m (\<lambda>_. wp n Q) s"
  by (simp add: seq_def wp_bnd)

lemma wp_panic [wp_simps]: "wp (panic e) Q s = False"
  by (simp add: wp_def)

lemma wp_spin [wp_simps]: "wp spin Q s = False"
  by (simp add: wp_def)

lemma wp_gets [wp_simps]: "wp (gets f) Q s = Q (f s) s"
  by (simp add: wp_def)

lemma wp_modify [wp_simps]: "wp (modify g) Q s = Q () (g s)"
  by (simp add: wp_def)

lemma wp_whenM [wp_simps]: "wp (whenM b m) Q s = (if b then wp m Q s else Q () s)"
  by (simp add: whenM_def wp_ret)

lemma wp_if [wp_simps]: "wp (if b then m else n) Q s = (if b then wp m Q s else wp n Q s)"
  by simp

lemma wp_iff: "wp m Q s \<longleftrightarrow> (\<exists>a t. m s = Ok a t \<and> Q a t)"
  by (simp add: wp_def split: outcome.split)

lemma wp_eq_iff: "wp m (\<lambda>a t. a = x \<and> t = y) s \<longleftrightarrow> m s = Ok x y"
  by (auto simp: wp_def split: outcome.split)

lemma wp_mono: "wp m Q s \<Longrightarrow> (\<And>a t. Q a t \<Longrightarrow> R a t) \<Longrightarrow> wp m R s"
  by (auto simp: wp_def split: outcome.split)

lemma wp_strengthen:
  "wp m Q s \<Longrightarrow> (\<And>a t. m s = Ok a t \<Longrightarrow> Q a t \<Longrightarrow> R a t) \<Longrightarrow> wp m R s"
  by (auto simp: wp_def split: outcome.split)

lemma wp_run_cong: "m s = n s \<Longrightarrow> wp m Q s = wp n Q s"
  by (simp add: wp_def)

lemma wp_OkD: "wp m Q s \<Longrightarrow> m s = Ok a t \<Longrightarrow> Q a t"
  by (simp add: wp_def)

end
