(* ===== verification/Memory.thy ===== *)
theory Memory
  imports Prelude
begin

text \<open>
  Physical memory: a function from 64-bit addresses to bytes, as the RISC-V machine of
  \<^verbatim>\<open>kernel/\<close> has it (the kernel maps all of RAM one to one, so a kernel pointer is a physical
  address). This theory holds the little-endian 64-bit accesses the compiled C code makes for
  \<open>uint64\<close> and pointer objects, the block of addresses \<open>span a n\<close>, and the lemmas that say which
  accesses are independent.
\<close>

section \<open>Blocks of addresses\<close>

definition span :: "addr \<Rightarrow> nat \<Rightarrow> addr set" where
  "span a n = {x. unat (x - a) < n}"

lemma in_span_iff [code_unfold]: "x \<in> span a n \<longleftrightarrow> unat (x - a) < n"
  by (simp add: span_def)

lemma unat_diff_if:
  "unat (x - a) = (if unat a \<le> unat x then unat x - unat a else unat x + 2 ^ 64 - unat a)"
  for x a :: addr
  by (simp add: unat_sub_if_size word_le_nat_alt word_size)

lemma unat_lt_2p64 [simp]: "unat (x :: addr) < 18446744073709551616"
  using unsigned_less [of x, where ?'a = nat] by simp

lemma unat_minus_1_64 [simp]: "unat (- 1 :: addr) = 18446744073709551615"
  by (simp add: unsigned_minus_1_eq_mask mask_eq_exp_minus_1)

lemma span_add: "i < n \<Longrightarrow> n \<le> 2 ^ 64 \<Longrightarrow> a + of_nat i \<in> span a n"
  by (simp add: span_def unat_of_nat)

lemma span_iff_ex: "n \<le> 2 ^ 64 \<Longrightarrow> x \<in> span a n \<longleftrightarrow> (\<exists>i<n. x = a + of_nat i)"
proof
  assume "x \<in> span a n"
  then have "unat (x - a) < n \<and> x = a + of_nat (unat (x - a))"
    by (simp add: span_def)
  then show "\<exists>i<n. x = a + of_nat i" by blast
qed (auto intro: span_add)

text \<open>An aligned block is the set of addresses with the same quotient.\<close>

lemma span_aligned:
  assumes k: "k dvd 2 ^ 64" and a: "k dvd unat a"
  shows "x \<in> span a k \<longleftrightarrow> unat x div k = unat a div k"
proof -
  obtain r where r: "(2::nat) ^ 64 = k * r" using k by blast
  obtain q where q: "unat a = k * q" using a by blast
  have k0: "0 < k" using r by (cases k) auto
  have qr: "q < r"
  proof -
    have "k * q < k * r" using q r unat_lt_2p64 [of a] by simp
    then show ?thesis by simp
  qed
  then have top: "k * q + k \<le> 2 ^ 64"
    using r by (metis Suc_leI add.commute mult_Suc_right mult_le_mono2)
  show ?thesis
  proof (cases "unat a \<le> unat x")
    case True
    then have "x \<in> span a k \<longleftrightarrow> unat x - k * q < k"
      by (simp add: span_def unat_diff_if q)
    also have "\<dots> \<longleftrightarrow> unat x div k = q"
    proof
      assume "unat x - k * q < k"
      then have "k * q \<le> unat x" "unat x < k * Suc q" using True q by auto
      then show "unat x div k = q"
        by (metis div_nat_eqI mult.commute)
    next
      assume "unat x div k = q"
      then show "unat x - k * q < k"
        using k0 by (metis minus_mult_div_eq_mod mod_less_divisor)
    qed
    finally show ?thesis using q k0 by simp
  next
    case False
    then have "x \<notin> span a k"
      using top q by (simp add: span_def unat_diff_if)
    moreover have "unat x div k < q"
      using False q k0 by (simp add: less_mult_imp_div_less mult.commute)
    ultimately show ?thesis using q k0 by simp
  qed
qed

lemma span_aligned_disjoint:
  assumes "k dvd 2 ^ 64" "k dvd unat a" "k dvd unat b" "a \<noteq> b"
  shows "span a k \<inter> span b k = {}"
proof -
  have "unat a div k \<noteq> unat b div k"
    using assms(2-4) by (metis dvd_div_mult_self word_unat_eq_iff)
  then show ?thesis
    using assms(1-3) by (auto simp: span_aligned)
qed

section \<open>64-bit accesses\<close>

definition read64 :: "mem \<Rightarrow> addr \<Rightarrow> uint64" where
  "read64 m a =
     (ucast (m a) OR push_bit 8 (ucast (m (a + 1))) OR push_bit 16 (ucast (m (a + 2)))
      OR push_bit 24 (ucast (m (a + 3))) OR push_bit 32 (ucast (m (a + 4)))
      OR push_bit 40 (ucast (m (a + 5))) OR push_bit 48 (ucast (m (a + 6)))
      OR push_bit 56 (ucast (m (a + 7))))"

definition write64 :: "mem \<Rightarrow> addr \<Rightarrow> uint64 \<Rightarrow> mem" where
  "write64 m a v =
     m(a := ucast v, a + 1 := ucast (drop_bit 8 v), a + 2 := ucast (drop_bit 16 v),
       a + 3 := ucast (drop_bit 24 v), a + 4 := ucast (drop_bit 32 v),
       a + 5 := ucast (drop_bit 40 v), a + 6 := ucast (drop_bit 48 v),
       a + 7 := ucast (drop_bit 56 v))"

lemma word64_bytes:
  "(ucast (ucast v :: byte) OR push_bit 8 (ucast (ucast (drop_bit 8 v) :: byte))
    OR push_bit 16 (ucast (ucast (drop_bit 16 v) :: byte))
    OR push_bit 24 (ucast (ucast (drop_bit 24 v) :: byte))
    OR push_bit 32 (ucast (ucast (drop_bit 32 v) :: byte))
    OR push_bit 40 (ucast (ucast (drop_bit 40 v) :: byte))
    OR push_bit 48 (ucast (ucast (drop_bit 48 v) :: byte))
    OR push_bit 56 (ucast (ucast (drop_bit 56 v) :: byte))) = (v :: uint64)"
proof (rule bit_word_eqI)
  fix n assume "n < LENGTH(64)"
  then have "n < 64" by simp
  then consider "n < 8" | "8 \<le> n" "n < 16" | "16 \<le> n" "n < 24" | "24 \<le> n" "n < 32"
    | "32 \<le> n" "n < 40" | "40 \<le> n" "n < 48" | "48 \<le> n" "n < 56" | "56 \<le> n" "n < 64"
    by linarith
  then show "bit (ucast (ucast v :: byte) OR push_bit 8 (ucast (ucast (drop_bit 8 v) :: byte))
    OR push_bit 16 (ucast (ucast (drop_bit 16 v) :: byte))
    OR push_bit 24 (ucast (ucast (drop_bit 24 v) :: byte))
    OR push_bit 32 (ucast (ucast (drop_bit 32 v) :: byte))
    OR push_bit 40 (ucast (ucast (drop_bit 40 v) :: byte))
    OR push_bit 48 (ucast (ucast (drop_bit 48 v) :: byte))
    OR push_bit 56 (ucast (ucast (drop_bit 56 v) :: byte)) :: uint64) n = bit v n"
    by cases (auto simp: bit_simps)
qed

lemma read64_write64 [simp, mem_simps]: "read64 (write64 m a v) a = v"
  unfolding read64_def write64_def by (simp add: word64_bytes)

lemma span8: "span a 8 = {a, a + 1, a + 2, a + 3, a + 4, a + 5, a + 6, a + 7}"
proof -
  have *: "(\<exists>i<(8::nat). P i) \<longleftrightarrow> P 0 \<or> P 1 \<or> P 2 \<or> P 3 \<or> P 4 \<or> P 5 \<or> P 6 \<or> P 7" for P
    by (simp add: numeral_eq_Suc less_Suc_eq) blast
  show ?thesis
    by (auto simp: span_iff_ex *)
qed

lemma read64_cong: "(\<And>x. x \<in> span a 8 \<Longrightarrow> m x = m' x) \<Longrightarrow> read64 m a = read64 m' a"
  by (simp add: span8 read64_def)

lemma write64_outside [mem_simps]: "x \<notin> span a 8 \<Longrightarrow> write64 m a v x = m x"
  by (simp add: span8 write64_def)

lemma read64_write64_disjoint: "span a 8 \<inter> span b 8 = {} \<Longrightarrow> read64 (write64 m a v) b = read64 m b"
  by (rule read64_cong) (rule write64_outside, blast)

lemma read64_write64_other [mem_simps]:
  assumes "8 dvd unat a" "8 dvd unat b" "a \<noteq> b"
  shows "read64 (write64 m a v) b = read64 m b"
  using span_aligned_disjoint [OF _ assms] by (intro read64_write64_disjoint) simp

lemma read64_zero: "(\<And>x. x \<in> span a 8 \<Longrightarrow> m x = 0) \<Longrightarrow> read64 m a = 0"
  by (simp add: span8 read64_def)

end
