(* ===== verification/Riscv.thy ===== *)
theory Riscv
  imports Memory
begin

text \<open>
  The machine constants and macros of \<^verbatim>\<open>kernel/inc/riscv.h\<close> and \<^verbatim>\<open>kernel/inc/memlayout.h\<close>: the
  Sv39 page-table entry format and address split, the page rounding macros, the \<open>sstatus\<close> bits and
  the memory map. All are on 64-bit words, as the macros compute them; the lemmas give their value
  in natural numbers, which is what the proofs about page tables use.
\<close>

section \<open>Constants and macros\<close>

definition SSTATUS_SPP :: uint64 where "SSTATUS_SPP = push_bit 8 1"
definition SSTATUS_SPIE :: uint64 where "SSTATUS_SPIE = push_bit 5 1"
definition SSTATUS_SIE :: uint64 where "SSTATUS_SIE = push_bit 1 1"

definition SATP_SV39 :: uint64 where "SATP_SV39 = push_bit 60 8"

definition MAKE_SATP :: "addr \<Rightarrow> uint64" where
  "MAKE_SATP pagetable = SATP_SV39 OR drop_bit 12 pagetable"

definition PGSIZE :: uint64 where "PGSIZE = 4096"

definition PGROUNDUP :: "uint64 \<Rightarrow> uint64" where
  "PGROUNDUP sz = (sz + PGSIZE - 1) AND NOT (PGSIZE - 1)"

definition PGROUNDDOWN :: "uint64 \<Rightarrow> uint64" where
  "PGROUNDDOWN a = a AND NOT (PGSIZE - 1)"

definition PTE_V :: uint64 where "PTE_V = push_bit 0 1"
definition PTE_R :: uint64 where "PTE_R = push_bit 1 1"
definition PTE_W :: uint64 where "PTE_W = push_bit 2 1"
definition PTE_X :: uint64 where "PTE_X = push_bit 3 1"
definition PTE_U :: uint64 where "PTE_U = push_bit 4 1"
definition PTE_RW :: uint64 where "PTE_RW = PTE_R OR PTE_W"
definition PTE_RX :: uint64 where "PTE_RX = PTE_R OR PTE_X"
definition PTE_RWX :: uint64 where "PTE_RWX = PTE_R OR PTE_W OR PTE_X"

definition PA2PTE :: "addr \<Rightarrow> uint64" where
  "PA2PTE pa = push_bit 10 (drop_bit 12 pa)"

definition PTE2PA :: "uint64 \<Rightarrow> addr" where
  "PTE2PA pte = push_bit 12 (drop_bit 10 pte)"

definition PTE_FLAGS :: "uint64 \<Rightarrow> uint64" where
  "PTE_FLAGS pte = pte AND 0x3FF"

definition PXSHIFT :: "nat \<Rightarrow> nat" where
  "PXSHIFT level = 12 + 9 * level"

definition PX :: "nat \<Rightarrow> addr \<Rightarrow> uint64" where
  "PX level va = drop_bit (PXSHIFT level) va AND 0x1FF"

definition MAXVA :: uint64 where "MAXVA = push_bit (9 + 9 + 9 + 12 - 1) 1"

definition UART0 :: addr where "UART0 = 0x10000000"
definition VIRTIO0 :: addr where "VIRTIO0 = 0x10001000"
definition PLIC :: addr where "PLIC = 0x0c000000"
definition KERNBASE :: addr where "KERNBASE = 0x80000000"
definition PHYSTOP :: addr where "PHYSTOP = KERNBASE + 128 * 1024 * 1024"
definition TRAMPOLINE :: addr where "TRAMPOLINE = MAXVA - PGSIZE"
definition TRAPFRAME :: addr where "TRAPFRAME = TRAMPOLINE - PGSIZE"

definition KSTACK :: "nat \<Rightarrow> addr" where
  "KSTACK p = TRAMPOLINE - (of_nat p + 1) * 2 * PGSIZE"

lemmas const_defs = PGSIZE_def PTE_V_def PTE_R_def PTE_W_def PTE_X_def PTE_U_def PTE_RW_def PTE_RX_def
  PTE_RWX_def MAXVA_def UART0_def VIRTIO0_def PLIC_def KERNBASE_def PHYSTOP_def TRAMPOLINE_def
  TRAPFRAME_def

lemma const_vals:
  "PTE_V = 1" "PTE_R = 2" "PTE_W = 4" "PTE_X = 8" "PTE_U = 16" "PTE_RW = 6" "PTE_RX = 10"
  "PTE_RWX = 14" "MAXVA = 0x4000000000" "PHYSTOP = 0x88000000" "TRAMPOLINE = 0x3FFFFFF000"
  "TRAPFRAME = 0x3FFFFFE000"
  by (simp_all add: const_defs)

section \<open>Pages\<close>

definition page_aligned :: "addr \<Rightarrow> bool" where
  "page_aligned a \<longleftrightarrow> a mod PGSIZE = 0"

lemma page_aligned_iff: "page_aligned a \<longleftrightarrow> 4096 dvd unat a"
  by (simp add: page_aligned_def PGSIZE_def word_arith_nat_mod dvd_eq_mod_eq_0
      unat_eq_0 [symmetric] unat_of_nat)

lemma page_aligned_0 [simp]: "page_aligned 0"
  by (simp add: page_aligned_iff)

abbreviation page :: "addr \<Rightarrow> addr set" where
  "page p \<equiv> span p 4096"

lemma in_page_iff: "page_aligned p \<Longrightarrow> x \<in> page p \<longleftrightarrow> unat x div 4096 = unat p div 4096"
  by (rule span_aligned) (auto simp: page_aligned_iff)

lemma page_disjoint: "page_aligned p \<Longrightarrow> page_aligned q \<Longrightarrow> p \<noteq> q \<Longrightarrow> page p \<inter> page q = {}"
  by (rule span_aligned_disjoint) (auto simp: page_aligned_iff)

text \<open>A 64-bit slot at index \<open>i\<close> of the page \<open>p\<close>.\<close>

definition slot :: "addr \<Rightarrow> uint64 \<Rightarrow> addr" where
  "slot p i = p + 8 * i"

lemma page_aligned_room: "page_aligned p \<Longrightarrow> unat p + 4096 \<le> 2 ^ 64"
proof -
  assume "page_aligned p"
  then obtain q where q: "unat p = 4096 * q" by (auto simp: page_aligned_iff)
  then have "q < 4503599627370496" using unat_lt_2p64 [of p] by linarith
  then show ?thesis using q by simp
qed

lemma unat_slot:
  assumes "page_aligned p" "unat i < 512"
  shows "unat (slot p i) = unat p + 8 * unat i"
  using page_aligned_room [OF assms(1)] assms(2)
  by (simp add: slot_def unat_word_ariths)

lemma slot_aligned: "page_aligned p \<Longrightarrow> unat i < 512 \<Longrightarrow> 8 dvd unat (slot p i)"
proof -
  assume a: "page_aligned p" "unat i < 512"
  have "8 dvd unat p" using a(1) by (simp add: page_aligned_iff dvd_trans [of 8 4096])
  then show ?thesis by (simp add: unat_slot [OF a])
qed

lemma slot_in_page:
  assumes "page_aligned p" "unat i < 512" "x \<in> span (slot p i) 8"
  shows "x \<in> page p"
proof -
  obtain q where q: "unat p = 4096 * q" using assms(1) by (auto simp: page_aligned_iff)
  have "unat x div 8 = unat (slot p i) div 8"
    using assms(3) by (subst (asm) span_aligned) (auto simp: slot_aligned assms(1,2))
  also have "\<dots> = 512 * q + unat i"
    using q by (simp add: unat_slot assms(1,2))
  finally have "unat x div 8 div 512 = q" using assms(2) by simp
  then have "unat x div 4096 = q" by (simp add: div_mult2_eq [symmetric])
  then show ?thesis using q by (simp add: in_page_iff assms(1))
qed

lemma slot_inj:
  assumes "page_aligned p" "page_aligned q" "unat i < 512" "unat j < 512"
  shows "slot p i = slot q j \<longleftrightarrow> p = q \<and> i = j"
proof
  assume "slot p i = slot q j"
  then have e: "unat p + 8 * unat i = unat q + 8 * unat j"
    using unat_slot [of p i] unat_slot [of q j] assms by simp
  obtain a where a: "unat p = 4096 * a" using assms(1) by (auto simp: page_aligned_iff)
  obtain b where b: "unat q = 4096 * b" using assms(2) by (auto simp: page_aligned_iff)
  note ab = a b
  have "512 * a + unat i = 512 * b + unat j" using e ab by simp
  then have "(512 * a + unat i) div 512 = (512 * b + unat j) div 512" by simp
  then have "a = b" using assms(3,4) by simp
  then show "p = q \<and> i = j" using e ab by (simp add: word_unat_eq_iff)
qed simp

section \<open>Rounding\<close>

lemma and_not_mask12: "x AND NOT 4095 = push_bit 12 (drop_bit 12 x)" for x :: addr
proof -
  have m: "(4095 :: addr) = mask 12" by (simp add: mask_eq_exp_minus_1)
  show ?thesis unfolding m
    by (rule bit_word_eqI) (auto simp: bit_simps)
qed

lemma unat_push12_drop12: "unat (push_bit 12 (drop_bit 12 x)) = unat x div 4096 * 4096" for x :: addr
proof -
  have "unat x div 4096 * 4096 < 2 ^ 64"
    by (rule le_less_trans [OF div_times_less_eq_dividend]) simp
  then show ?thesis
    by (simp only: unsigned_push_bit_eq unat_drop_bit_eq)
      (simp add: push_bit_eq_mult drop_bit_eq_div take_bit_nat_eq_self)
qed

lemma unat_PGROUNDDOWN: "unat (PGROUNDDOWN a) = unat a div 4096 * 4096"
  by (simp add: PGROUNDDOWN_def PGSIZE_def and_not_mask12 [simplified] unat_push12_drop12)

lemma unat_PGROUNDUP:
  assumes "unat sz + 4095 < 2 ^ 64"
  shows "unat (PGROUNDUP sz) = (unat sz + 4095) div 4096 * 4096"
proof -
  have "unat (4095 + sz) = unat sz + 4095" using assms by (simp add: unat_word_ariths)
  then show ?thesis
    by (simp add: PGROUNDUP_def PGSIZE_def and_not_mask12 [simplified] unat_push12_drop12)
qed

lemma round_up_ge: "x \<le> (x + 4095) div 4096 * 4096" for x :: nat
proof -
  have "(x + 4095) div 4096 * 4096 + (x + 4095) mod 4096 = x + 4095" by (rule div_mult_mod_eq)
  moreover have "(x + 4095) mod 4096 < 4096" by simp
  ultimately show ?thesis by linarith
qed

lemma round_up_le: "x \<le> 4096 * c \<Longrightarrow> (x + 4095) div 4096 \<le> c" for x c :: nat
proof -
  assume "x \<le> 4096 * c"
  then have "x + 4095 < Suc c * 4096" by simp
  then have "(x + 4095) div 4096 < Suc c" by (rule less_mult_imp_div_less)
  then show ?thesis by simp
qed

lemma PGROUNDDOWN_aligned [simp]: "page_aligned (PGROUNDDOWN a)"
  by (simp add: page_aligned_iff unat_PGROUNDDOWN)

lemma PGROUNDUP_aligned: "unat sz + 4095 < 2 ^ 64 \<Longrightarrow> page_aligned (PGROUNDUP sz)"
  by (simp add: page_aligned_iff unat_PGROUNDUP)

lemma PGROUNDDOWN_offset: "unat (a - PGROUNDDOWN a) = unat a mod 4096"
  by (simp add: unat_diff_if unat_PGROUNDDOWN minus_div_mult_eq_mod)

lemma PGROUNDDOWN_eq: "page_aligned a \<Longrightarrow> PGROUNDDOWN a = a"
  by (auto simp: word_unat_eq_iff unat_PGROUNDDOWN page_aligned_iff)

section \<open>Page-table entries and indices\<close>

lemma unat_PX: "unat (PX level va) = unat va div 2 ^ (12 + 9 * level) mod 512"
proof -
  have m: "(511 :: addr) = mask 9" by (simp add: mask_eq_exp_minus_1)
  have "PX level va = take_bit 9 (drop_bit (12 + 9 * level) va)"
    unfolding PX_def PXSHIFT_def by (simp add: m take_bit_eq_mask del: mask_numeral)
  then have "unat (PX level va) = take_bit 9 (drop_bit (12 + 9 * level) (unat va))"
    by (simp only: unsigned_take_bit_eq unat_drop_bit_eq)
  then show ?thesis by (simp add: take_bit_eq_mod drop_bit_eq_div)
qed

lemma PX_less: "unat (PX level va) < 512"
  by (simp add: unat_PX)

lemma PX_pages:
  assumes "va < MAXVA" "wa < MAXVA"
  shows "PX 2 va = PX 2 wa \<and> PX 1 va = PX 1 wa \<and> PX 0 va = PX 0 wa \<longleftrightarrow>
    PGROUNDDOWN va = PGROUNDDOWN wa"
proof -
  have lt: "unat va div 4096 < 134217728" "unat wa div 4096 < 134217728"
    using assms by (auto simp: const_vals word_less_nat_alt)
  have split: "x = y \<longleftrightarrow> x div 262144 mod 512 = y div 262144 mod 512 \<and> x div 512 mod 512 = y div 512 mod 512
      \<and> x mod 512 = y mod 512" if "x < 134217728" "y < 134217728" for x y :: nat
  proof
    assume *: "x div 262144 mod 512 = y div 262144 mod 512 \<and> x div 512 mod 512 = y div 512 mod 512
      \<and> x mod 512 = y mod 512"
    have "x div 262144 mod 512 = x div 262144" "y div 262144 mod 512 = y div 262144"
      using that by simp_all
    moreover have "x div 262144 = x div 512 div 512" "y div 262144 = y div 512 div 512"
      by (simp_all add: div_mult2_eq [symmetric])
    ultimately have "x div 512 = y div 512"
      using * by (metis div_mult_mod_eq)
    then show "x = y" using * by (metis div_mult_mod_eq)
  qed simp
  have px: "PX 2 va = PX 2 wa \<longleftrightarrow> unat va div 4096 div 262144 mod 512 = unat wa div 4096 div 262144 mod 512"
    "PX 1 va = PX 1 wa \<longleftrightarrow> unat va div 4096 div 512 mod 512 = unat wa div 4096 div 512 mod 512"
    "PX 0 va = PX 0 wa \<longleftrightarrow> unat va div 4096 mod 512 = unat wa div 4096 mod 512"
    by (simp_all add: word_unat_eq_iff unat_PX div_mult2_eq [symmetric])
  have pg: "PGROUNDDOWN va = PGROUNDDOWN wa \<longleftrightarrow> unat va div 4096 = unat wa div 4096"
    by (simp add: word_unat_eq_iff unat_PGROUNDDOWN)
  show ?thesis
    unfolding px pg by (subst split [OF lt]) simp
qed

text \<open>
  The three 9-bit indices determine the page of a virtual address below \<open>MAXVA\<close>: two such
  addresses with the same indices lie in the same page, so Sv39 entries never alias two pages.
\<close>

theorem PX_inj:
  assumes "va < MAXVA" "wa < MAXVA"
  shows "PX 2 va = PX 2 wa \<and> PX 1 va = PX 1 wa \<and> PX 0 va = PX 0 wa \<longleftrightarrow>
    PGROUNDDOWN va = PGROUNDDOWN wa"
  by (rule PX_pages [OF assms])

theorem PX_inj_witness: "PX 2 0x3FFFFFF123 = PX 2 TRAMPOLINE \<and> PX 1 0x3FFFFFF123 = PX 1 TRAMPOLINE \<and>
    PX 0 0x3FFFFFF123 = PX 0 TRAMPOLINE"
proof -
  have "(0x3FFFFFF123 :: addr) < MAXVA" "TRAMPOLINE < MAXVA" by (simp_all add: const_vals)
  from PX_inj [OF this] show ?thesis by (simp add: PGROUNDDOWN_def const_vals PGSIZE_def)
qed

lemma PTE_pack:
  assumes "page_aligned pa" and "unat flags < 1024"
  shows "PTE2PA (PA2PTE pa OR flags) = pa \<and> PTE_FLAGS (PA2PTE pa OR flags) = flags"
proof -
  have fb: "\<not> bit flags n" if "10 \<le> n" for n
  proof -
    have "flags = take_bit 10 flags"
      using assms(2) by (simp add: word_unat_eq_iff unsigned_take_bit_eq take_bit_nat_eq_self)
    then show ?thesis using that by (metis bit_take_bit_iff not_less)
  qed
  have pb: "\<not> bit pa n" if "n < 12" for n
  proof -
    have "take_bit 12 (unat pa) = 0"
      using assms(1) by (simp add: take_bit_eq_mod page_aligned_iff dvd_eq_mod_eq_0)
    then have "take_bit 12 pa = 0"
      by (simp only: word_unat_eq_iff unsigned_take_bit_eq unsigned_0)
    then show ?thesis using that by (metis bit_take_bit_iff bit_0_eq bot_apply bot_bool_def)
  qed
  have m: "(0x3FF :: uint64) = mask 10" by (simp add: mask_eq_exp_minus_1)
  have "PTE2PA (PA2PTE pa OR flags) = pa"
    unfolding PTE2PA_def PA2PTE_def
  proof (rule bit_word_eqI)
    fix n assume "n < LENGTH(64)"
    then show "bit (push_bit 12 (drop_bit 10 (push_bit 10 (drop_bit 12 pa) OR flags))) n = bit pa n"
      by (cases "12 \<le> n") (auto simp: bit_simps fb pb)
  qed
  moreover have "PTE_FLAGS (PA2PTE pa OR flags) = flags"
    unfolding PTE_FLAGS_def PA2PTE_def m
    by (rule bit_word_eqI) (use fb not_less in \<open>auto simp: bit_simps pb\<close>)
  ultimately show ?thesis ..
qed

text \<open>
  Packing a page-aligned physical address and ten flag bits into a page-table entry and
  unpacking it gives the address and the flags back: no bit of either is lost.
\<close>

theorem PTE_roundtrip:
  assumes "page_aligned pa" and "unat flags < 1024"
  shows "PTE2PA (PA2PTE pa OR flags) = pa \<and> PTE_FLAGS (PA2PTE pa OR flags) = flags"
  by (rule PTE_pack [OF assms])

theorem PTE_roundtrip_witness:
  "page_aligned 0x87654000 \<and> unat (0x1F :: uint64) < 1024 \<and>
   PTE2PA (PA2PTE 0x87654000 OR 0x1F) = 0x87654000 \<and> PTE_FLAGS (PA2PTE 0x87654000 OR 0x1F) = 0x1F"
proof -
  have h: "page_aligned 0x87654000" "unat (0x1F :: uint64) < 1024"
    by (simp_all add: page_aligned_iff)
  from PTE_roundtrip [OF h] h show ?thesis by simp
qed

end
