(* ===== verification/Spinlock.thy ===== *)
theory Spinlock
  imports Riscv
begin

text \<open>
  Spin locks and interrupt nesting, \<^verbatim>\<open>kernel/src/spinlock.c\<close>, with \<open>struct cpu\<close>,
  \<open>struct spinlock\<close> and the interrupt-enable accessors of \<^verbatim>\<open>kernel/inc/riscv.h\<close>.

  The state of synchronisation is the record \<open>sync\<close>: the running hart (register \<open>tp\<close>), each
  hart's \<open>sstatus\<close>, the array \<open>cpus\<close>, and a store of all spin locks of the kernel, indexed by the
  object that embeds the lock (\<open>lock_id\<close>): the address of a lock in the C program is the index in
  the store. The record \<open>machine\<close> puts physical memory and the link-time symbols beside it; every
  component's state extends it.

  The routines run on one hart at a time. A lock held by another hart makes \<open>acquire\<close> spin
  (outcome \<open>Spin\<close>). What happens when several harts run \<open>acquire\<close> and \<open>release\<close> at once is the
  step relation \<open>lk_step\<close> at the end of the theory, whose atomic steps are the memory accesses of
  the two routines, the two reads of \<open>holding\<close> taken together.

  The client's view is two state transformers: \<open>lock_acq l\<close>, what \<open>acquire\<close> does to a free lock,
  and \<open>quiet\<close>, what a balanced critical section leaves behind (the interrupt flag recorded in the
  \<open>cpu\<close>). Lemmas in \<open>sync_simps\<close> compute with them.
\<close>

section \<open>State\<close>

datatype lock_id = Kmem_lock | Pid_lock | Wait_lock | Proc_lock nat | Bcache_lock | Log_lock
  | Itable_lock | Ftable_lock | Ticks_lock | Cons_lock | Uart_tx_lock | Pr_lock | Vdisk_lock
  | Pipe_lock addr | Buf_lk nat | Inode_lk nat

record spinlock =
  locked :: uint
  lname :: string
  lcpu :: "nat option"

record cpu =
  cproc :: "nat option"
  nesting :: int
  intr_is_enabled :: bool

record sync =
  tp :: nat
  sstatus :: "nat \<Rightarrow> uint64"
  cpus :: "nat \<Rightarrow> cpu"
  locks :: "lock_id \<Rightarrow> spinlock"

record machine =
  sync :: sync
  mem :: mem
  sym_end :: addr
  sym_etext :: addr
  sym_trampoline :: addr

named_theorems sync_simps \<open>computing with lock states\<close>

section \<open>Operations\<close>

definition cpuid :: "('z machine_scheme, nat) km" where
  "cpuid = gets (\<lambda>s. tp (sync s))"

definition mycpu :: "('z machine_scheme, cpu) km" where
  "mycpu = gets (\<lambda>s. cpus (sync s) (tp (sync s)))"

definition set_mycpu :: "(cpu \<Rightarrow> cpu) \<Rightarrow> ('z machine_scheme, unit) km" where
  "set_mycpu f = modify (\<lambda>s. s\<lparr>sync := (sync s)\<lparr>cpus :=
     (cpus (sync s))(tp (sync s) := f (cpus (sync s) (tp (sync s))))\<rparr>\<rparr>)"

definition r_sstatus :: "('z machine_scheme, uint64) km" where
  "r_sstatus = gets (\<lambda>s. sstatus (sync s) (tp (sync s)))"

definition w_sstatus :: "uint64 \<Rightarrow> ('z machine_scheme, unit) km" where
  "w_sstatus x = modify (\<lambda>s. s\<lparr>sync := (sync s)\<lparr>sstatus := (sstatus (sync s))(tp (sync s) := x)\<rparr>\<rparr>)"

definition intr_on :: "('z machine_scheme, unit) km" where
  "intr_on = bnd r_sstatus (\<lambda>x. w_sstatus (x OR SSTATUS_SIE))"

definition intr_off :: "('z machine_scheme, unit) km" where
  "intr_off = bnd r_sstatus (\<lambda>x. w_sstatus (x AND NOT SSTATUS_SIE))"

definition intr_get :: "('z machine_scheme, bool) km" where
  "intr_get = bnd r_sstatus (\<lambda>x. ret (x AND SSTATUS_SIE \<noteq> 0))"

definition set_lock :: "lock_id \<Rightarrow> (spinlock \<Rightarrow> spinlock) \<Rightarrow> ('z machine_scheme, unit) km" where
  "set_lock lk f = modify (\<lambda>s. s\<lparr>sync := (sync s)\<lparr>locks := (locks (sync s))(lk := f (locks (sync s) lk))\<rparr>\<rparr>)"

definition initlock :: "lock_id \<Rightarrow> string \<Rightarrow> ('z machine_scheme, unit) km" where
  "initlock lk nm = set_lock lk (\<lambda>k. k\<lparr>lname := nm, locked := 0, lcpu := None\<rparr>)"

definition critical_enter :: "('z machine_scheme, unit) km" where
  "critical_enter =
     bnd intr_get (\<lambda>enabled.
     seq intr_off (
     bnd mycpu (\<lambda>c.
     seq (whenM (nesting c = 0) (set_mycpu (\<lambda>c. c\<lparr>intr_is_enabled := enabled\<rparr>)))
         (set_mycpu (\<lambda>c. c\<lparr>nesting := nesting c + 1\<rparr>)))))"

definition critical_exit :: "('z machine_scheme, unit) km" where
  "critical_exit =
     bnd intr_get (\<lambda>on.
     if on then panic ''critical_exit - interruptible''
     else bnd mycpu (\<lambda>c.
       if nesting c < 1 then panic ''critical_exit''
       else seq (set_mycpu (\<lambda>c. c\<lparr>nesting := nesting c - 1\<rparr>)) (
            bnd mycpu (\<lambda>c. whenM (nesting c = 0 \<and> intr_is_enabled c) intr_on))))"

definition holding :: "lock_id \<Rightarrow> ('z machine_scheme, bool) km" where
  "holding lk = gets (\<lambda>s. locked (locks (sync s) lk) \<noteq> 0 \<and> lcpu (locks (sync s) lk) = Some (tp (sync s)))"

definition acquire :: "lock_id \<Rightarrow> ('z machine_scheme, unit) km" where
  "acquire lk =
     seq critical_enter (
     bnd (holding lk) (\<lambda>h.
     if h then panic ''re-acquire''
     else bnd (gets (\<lambda>s. locked (locks (sync s) lk))) (\<lambda>old.
       seq (set_lock lk (\<lambda>k. k\<lparr>locked := 1\<rparr>)) (
       if old \<noteq> 0 then spin
       else bnd cpuid (\<lambda>id. set_lock lk (\<lambda>k. k\<lparr>lcpu := Some id\<rparr>))))))"

definition release :: "lock_id \<Rightarrow> ('z machine_scheme, unit) km" where
  "release lk =
     bnd (holding lk) (\<lambda>h.
     if \<not> h then panic ''re-release''
     else seq (set_lock lk (\<lambda>k. k\<lparr>lcpu := None\<rparr>)) (
          seq (set_lock lk (\<lambda>k. k\<lparr>locked := 0\<rparr>))
              critical_exit))"

text \<open>\<open>myproc()\<close> of \<^verbatim>\<open>kernel/src/proc.c\<close>: the process of this hart, read with interrupts off.\<close>

definition myproc :: "('z machine_scheme, nat option) km" where
  "myproc = seq critical_enter (bnd mycpu (\<lambda>c. seq critical_exit (ret (cproc c))))"

section \<open>The client's view\<close>

definition sie :: "sync \<Rightarrow> bool" where
  "sie y \<longleftrightarrow> sstatus y (tp y) AND SSTATUS_SIE \<noteq> 0"

definition depth :: "sync \<Rightarrow> int" where
  "depth y = nesting (cpus y (tp y))"

definition sync_ok :: "sync \<Rightarrow> bool" where
  "sync_ok y \<longleftrightarrow> 0 \<le> depth y \<and> (0 < depth y \<longrightarrow> \<not> sie y)"

definition lock_free :: "lock_id \<Rightarrow> sync \<Rightarrow> bool" where
  "lock_free l y \<longleftrightarrow> locked (locks y l) = 0 \<and> lcpu (locks y l) = None"

definition lock_held :: "lock_id \<Rightarrow> sync \<Rightarrow> bool" where
  "lock_held l y \<longleftrightarrow> locked (locks y l) \<noteq> 0 \<and> lcpu (locks y l) = Some (tp y) \<and> 1 \<le> depth y"

definition quiet :: "sync \<Rightarrow> sync" where
  "quiet y = (if depth y = 0
     then y\<lparr>cpus := (cpus y)(tp y := (cpus y (tp y))\<lparr>intr_is_enabled := sie y\<rparr>)\<rparr> else y)"

definition enter :: "sync \<Rightarrow> sync" where
  "enter y = (quiet y)\<lparr>sstatus := (sstatus y)(tp y := sstatus y (tp y) AND NOT SSTATUS_SIE),
     cpus := (cpus (quiet y))(tp y := (cpus (quiet y) (tp y))\<lparr>nesting := depth y + 1\<rparr>)\<rparr>"

definition leave :: "sync \<Rightarrow> sync" where
  "leave y =
     (let c = (cpus y (tp y))\<lparr>nesting := depth y - 1\<rparr>
      in y\<lparr>sstatus := (sstatus y)(tp y := (if nesting c = 0 \<and> intr_is_enabled c
             then sstatus y (tp y) OR SSTATUS_SIE else sstatus y (tp y))),
           cpus := (cpus y)(tp y := c)\<rparr>)"

definition lock_acq :: "lock_id \<Rightarrow> sync \<Rightarrow> sync" where
  "lock_acq l y = (enter y)\<lparr>locks := (locks y)(l := (locks y l)\<lparr>locked := 1, lcpu := Some (tp y)\<rparr>)\<rparr>"

definition lock_rel :: "lock_id \<Rightarrow> sync \<Rightarrow> sync" where
  "lock_rel l y = leave (y\<lparr>locks := (locks y)(l := (locks y l)\<lparr>lcpu := None, locked := 0\<rparr>)\<rparr>)"

lemmas op_defs = cpuid_def mycpu_def set_mycpu_def r_sstatus_def w_sstatus_def intr_on_def intr_off_def
  intr_get_def set_lock_def holding_def

lemma SIE_val: "SSTATUS_SIE = 2"
  by (simp add: SSTATUS_SIE_def)

lemma and_not_SIE [simp]: "(x AND NOT SSTATUS_SIE) AND SSTATUS_SIE = 0"
  by (simp add: and.assoc)

lemma or_SIE [simp]: "(x OR SSTATUS_SIE) AND SSTATUS_SIE = SSTATUS_SIE"
  by (rule bit_word_eqI) (auto simp: bit_simps)

lemma SIE_neq_0 [simp]: "SSTATUS_SIE \<noteq> 0"
  by (simp add: SIE_val)

lemma restore_SIE:
  "x AND SSTATUS_SIE \<noteq> 0 \<Longrightarrow> x AND NOT SSTATUS_SIE OR SSTATUS_SIE = x"
  "x AND SSTATUS_SIE = 0 \<Longrightarrow> x AND NOT SSTATUS_SIE = x"
proof -
  have e: "SSTATUS_SIE = push_bit 1 (1 :: uint64)" by (simp add: SSTATUS_SIE_def)
  have b: "x AND SSTATUS_SIE \<noteq> 0 \<longleftrightarrow> bit x 1"
    by (metis SSTATUS_SIE_def and_exp_eq_0_iff_not_bit mult.right_neutral push_bit_eq_mult mult.commute)
  show "x AND SSTATUS_SIE \<noteq> 0 \<Longrightarrow> x AND NOT SSTATUS_SIE OR SSTATUS_SIE = x"
    unfolding b by (rule bit_word_eqI) (auto simp: bit_simps e)
  show "x AND SSTATUS_SIE = 0 \<Longrightarrow> x AND NOT SSTATUS_SIE = x"
    using b by (intro bit_word_eqI) (auto simp: bit_simps e)
qed

lemma critical_enter_run: "critical_enter s = Ok () (s\<lparr>sync := enter (sync s)\<rparr>)"
  by (simp add: critical_enter_def op_defs enter_def quiet_def depth_def sie_def bnd_def seq_def whenM_def)

lemma critical_exit_run:
  "\<not> sie (sync s) \<Longrightarrow> 1 \<le> depth (sync s) \<Longrightarrow> critical_exit s = Ok () (s\<lparr>sync := leave (sync s)\<rparr>)"
  by (simp add: critical_exit_def op_defs leave_def depth_def sie_def bnd_def seq_def whenM_def)

lemma enter_simps [sync_simps, simp]:
  "tp (enter y) = tp y" "locks (enter y) = locks y" "sie (enter y) = False" "depth (enter y) = depth y + 1"
  by (simp_all add: enter_def quiet_def sie_def depth_def)

lemma acquire_run:
  assumes "lock_free l (sync s)"
  shows "acquire l s = Ok () (s\<lparr>sync := lock_acq l (sync s)\<rparr>)"
  using assms
  by (simp add: acquire_def critical_enter_run op_defs bnd_def seq_def lock_acq_def lock_free_def)

lemma release_run:
  assumes "lock_held l (sync s)" "\<not> sie (sync s)"
  shows "release l s = Ok () (s\<lparr>sync := lock_rel l (sync s)\<rparr>)"
proof -
  let ?s = "s\<lparr>sync := (sync s)\<lparr>locks := (locks (sync s))(l := (locks (sync s) l)\<lparr>lcpu := None, locked := 0\<rparr>)\<rparr>\<rparr>"
  have "critical_exit ?s = Ok () (?s\<lparr>sync := leave (sync ?s)\<rparr>)"
    by (rule critical_exit_run) (use assms in \<open>simp_all add: sie_def depth_def lock_held_def\<close>)
  then show ?thesis
    using assms by (simp add: release_def op_defs bnd_def seq_def lock_rel_def lock_held_def)
qed

lemma lock_acq_simps [sync_simps, simp]:
  "tp (lock_acq l y) = tp y"
  "sie (lock_acq l y) = False"
  "depth (lock_acq l y) = depth y + 1"
  "cproc (cpus (lock_acq l y) h) = cproc (cpus y h)"
  by (simp_all add: lock_acq_def enter_def quiet_def sie_def depth_def)

lemma lock_free_acq [sync_simps, simp]: "lock_free l' (lock_acq l y) \<longleftrightarrow> l' \<noteq> l \<and> lock_free l' y"
  by (auto simp: lock_free_def lock_acq_def)

lemma lock_held_acq [sync_simps, simp]:
  "lock_held l (lock_acq l y) \<longleftrightarrow> 0 \<le> depth y"
  "l' \<noteq> l \<Longrightarrow> lock_held l' y \<Longrightarrow> lock_held l' (lock_acq l y)"
  by (auto simp: lock_held_def lock_acq_def depth_def enter_def quiet_def)

lemma sync_ok_acq [sync_simps, simp]: "sync_ok y \<Longrightarrow> sync_ok (lock_acq l y)"
  by (simp add: sync_ok_def)

lemma quiet_simps [sync_simps, simp]:
  "tp (quiet y) = tp y" "sie (quiet y) = sie y" "depth (quiet y) = depth y" "locks (quiet y) = locks y"
  "cproc (cpus (quiet y) h) = cproc (cpus y h)" "quiet (quiet y) = quiet y"
  by (auto simp: quiet_def sie_def depth_def)

lemma sync_ok_quiet [sync_simps, simp]: "sync_ok (quiet y) = sync_ok y"
  by (simp add: sync_ok_def)

lemma lock_free_quiet [sync_simps, simp]: "lock_free l (quiet y) = lock_free l y"
  by (simp add: lock_free_def)

lemma lock_held_quiet [sync_simps, simp]: "lock_held l (quiet y) = lock_held l y"
  by (simp add: lock_held_def)

lemma quiet_acq [sync_simps, simp]: "sync_ok y \<Longrightarrow> quiet (lock_acq l y) = lock_acq l y"
  by (simp add: quiet_def [of "lock_acq l y"] sync_ok_def)

lemma acq_quiet [sync_simps, simp]: "lock_acq l (quiet y) = lock_acq l y"
  by (simp add: lock_acq_def enter_def quiet_def sie_def depth_def)

lemma cpu_nesting_eta: "nesting c = 0 \<Longrightarrow> c\<lparr>intr_is_enabled := b, nesting := 0\<rparr> = c\<lparr>intr_is_enabled := b\<rparr>"
  by (cases c) simp

lemma leave_enter: "sync_ok y \<Longrightarrow> leave (enter y) = quiet y"
  by (auto simp: leave_def enter_def quiet_def sync_ok_def sie_def depth_def restore_SIE fun_upd_idem cpu_nesting_eta
      intro!: sync.equality cpu.equality)

lemma leave_locks: "leave (y\<lparr>locks := f\<rparr>) = (leave y)\<lparr>locks := f\<rparr>"
  by (simp add: leave_def Let_def depth_def)

lemma free_lock_eta: "lock_free l y \<Longrightarrow> (locks y)(l := (locks y l)\<lparr>lcpu := None, locked := 0\<rparr>) = locks y"
  by (auto simp: lock_free_def fun_eq_iff)

lemma rel_acq [sync_simps, simp]:
  assumes "sync_ok y" "lock_free l y"
  shows "lock_rel l (lock_acq l y) = quiet y"
proof -
  have "lock_rel l (lock_acq l y) = leave ((enter y)\<lparr>locks := locks y\<rparr>)"
    using free_lock_eta [OF assms(2)] by (simp add: lock_rel_def lock_acq_def)
  also have "\<dots> = quiet y"
    by (simp add: leave_locks leave_enter assms(1))
  finally show ?thesis .
qed

text \<open>Releasing the outer of two locks first, as \<open>sleep\<close> does.\<close>

lemma rel_outer [sync_simps, simp]:
  assumes "sync_ok y" "lock_free l y" "l' \<noteq> l"
  shows "lock_rel l (lock_acq l' (lock_acq l y)) = lock_acq l' y"
  using assms
  by (auto simp: lock_rel_def lock_acq_def leave_def enter_def quiet_def sync_ok_def sie_def depth_def
      lock_free_def fun_eq_iff Let_def intro!: sync.equality cpu.equality)

lemma wp_acquire [wp_simps]:
  "lock_free l (sync s) \<Longrightarrow> wp (acquire l) Q s = Q () (s\<lparr>sync := lock_acq l (sync s)\<rparr>)"
  by (simp add: wp_def acquire_run)

lemma wp_release [wp_simps]:
  "lock_held l (sync s) \<Longrightarrow> \<not> sie (sync s) \<Longrightarrow>
    wp (release l) Q s = Q () (s\<lparr>sync := lock_rel l (sync s)\<rparr>)"
  by (simp add: wp_def release_run)

lemma myproc_run:
  "sync_ok (sync s) \<Longrightarrow>
    myproc s = Ok (cproc (cpus (sync s) (tp (sync s)))) (s\<lparr>sync := quiet (sync s)\<rparr>)"
  by (simp add: myproc_def critical_enter_run mycpu_def critical_exit_run sync_ok_def leave_enter)
    (simp add: enter_def quiet_def)

section \<open>Properties of the routines on one hart\<close>

text \<open>
  A balanced critical section returns, gives the lock back free, and leaves the interrupt-enable
  bit and the nesting depth of the hart as they were, whether interrupts were on or off.
\<close>

theorem acquire_release_balanced:
  assumes "sync_ok (sync s)" and "lock_free l (sync s)"
  shows "\<exists>t. seq (acquire l) (release l) s = Ok () t \<and> lock_free l (sync t) \<and>
    sie (sync t) = sie (sync s) \<and> depth (sync t) = depth (sync s) \<and> mem t = mem s"
proof -
  have "wp (seq (acquire l) (release l)) (\<lambda>_ t. t = s\<lparr>sync := quiet (sync s)\<rparr>) s"
    using assms by (simp add: wp_simps sync_ok_def)
  then have "seq (acquire l) (release l) s = Ok () (s\<lparr>sync := quiet (sync s)\<rparr>)"
    by (auto simp: wp_iff)
  then show ?thesis using assms by simp
qed

text \<open>A machine for witnesses: hart 0 with interrupts on, no lock held, memory all zero.\<close>

definition idle_sync :: sync where
  "idle_sync = \<lparr>tp = 0, sstatus = (\<lambda>_. SSTATUS_SIE),
     cpus = (\<lambda>_. \<lparr>cproc = None, nesting = 0, intr_is_enabled = False\<rparr>),
     locks = (\<lambda>_. \<lparr>locked = 0, lname = [], lcpu = None\<rparr>)\<rparr>"

definition idle_machine :: machine where
  "idle_machine = \<lparr>sync = idle_sync, mem = (\<lambda>_. 0), sym_end = 0x80021000, sym_etext = 0x80008000,
     sym_trampoline = 0x80007000\<rparr>"

lemma idle_sync_simps [simp]: "sync_ok idle_sync" "lock_free l idle_sync" "sie idle_sync" "depth idle_sync = 0"
  "tp idle_sync = 0"
  by (simp_all add: idle_sync_def sync_ok_def sie_def depth_def lock_free_def)

lemma sync_idle_machine [simp]: "sync idle_machine = idle_sync"
  by (simp add: idle_machine_def)

theorem acquire_release_balanced_witness:
  "sync_ok (sync idle_machine) \<and> lock_free Kmem_lock (sync idle_machine) \<and>
   (\<exists>t. seq (acquire Kmem_lock) (release Kmem_lock) idle_machine = Ok () t \<and> sie (sync t))"
  using acquire_release_balanced [of idle_machine Kmem_lock] by auto

text \<open>
  The lock routines detect misuse on the running hart: acquiring a lock the hart already holds
  panics, acquiring one that another hart holds does not return, and releasing a lock the hart does
  not hold panics.
\<close>

theorem lock_misuse:
  assumes "locked (locks (sync s) l) \<noteq> 0"
  shows "if lcpu (locks (sync s) l) = Some (tp (sync s)) then acquire l s = Panic ''re-acquire''
    else acquire l s = Spin \<and> release l s = Panic ''re-release''"
  using assms
  by (simp add: acquire_def release_def critical_enter_run op_defs bnd_def seq_def)

theorem lock_misuse_witness:
  "acquire Kmem_lock (idle_machine\<lparr>sync := lock_acq Kmem_lock idle_sync\<rparr>) = Panic ''re-acquire'' \<and>
   acquire Kmem_lock (idle_machine\<lparr>sync := (lock_acq Kmem_lock idle_sync)\<lparr>tp := 1\<rparr>\<rparr>) = Spin"
  using lock_misuse [of "idle_machine\<lparr>sync := lock_acq Kmem_lock idle_sync\<rparr>" Kmem_lock]
    lock_misuse [of "idle_machine\<lparr>sync := (lock_acq Kmem_lock idle_sync)\<lparr>tp := 1\<rparr>\<rparr>" Kmem_lock]
  by (simp add: lock_acq_def)

text \<open>\<open>n\<close> calls in a row.\<close>

fun repeatM :: "nat \<Rightarrow> ('s, unit) km \<Rightarrow> ('s, unit) km" where
  "repeatM 0 m = ret ()"
| "repeatM (Suc n) m = seq m (repeatM n m)"

lemma seq_ret [simp]: "seq (ret x) n = n"
  by (simp add: seq_def)

lemma seq_assoc: "seq (seq a b) c = seq a (seq b c)"
  by (simp add: seq_def bnd_assoc)

lemma repeatM_Suc_right: "repeatM (Suc n) m = seq (repeatM n m) m"
proof (induction n)
  case 0
  have "seq m (ret ()) = m"
    by (rule ext) (simp add: seq_def bnd_def split: outcome.split)
  then show ?case by simp
next
  case (Suc n)
  then show ?case by (metis repeatM.simps(2) seq_assoc)
qed

lemma quiet_enter: "sync_ok y \<Longrightarrow> quiet (enter y) = enter y"
  by (simp add: quiet_def [of "enter y"] sync_ok_def)

lemma enter_ok: "sync_ok y \<Longrightarrow> sync_ok (enter y)"
  by (simp add: sync_ok_def)

text \<open>
  \<open>critical_enter\<close> and \<open>critical_exit\<close> match: \<open>n\<close> exits undo \<open>n\<close> enters, for every \<open>n\<close> and whatever
  the interrupt state at the start; with \<open>n > 0\<close> interrupts are off in between.
\<close>

theorem critical_nesting:
  assumes "sync_ok (sync s)"
  shows "\<exists>t. repeatM n critical_enter s = Ok () t \<and> (0 < n \<longrightarrow> \<not> sie (sync t)) \<and>
    (\<exists>u. repeatM n critical_exit t = Ok () u \<and> sie (sync u) = sie (sync s) \<and>
      depth (sync u) = depth (sync s))"
proof -
  have "repeatM n critical_enter s = Ok () (s\<lparr>sync := (enter ^^ n) (sync s)\<rparr>) \<and>
    sync_ok ((enter ^^ n) (sync s)) \<and> depth ((enter ^^ n) (sync s)) = depth (sync s) + int n" for n
    by (induction n) (use assms in \<open>auto simp: repeatM_Suc_right critical_enter_run enter_ok simp del: repeatM.simps(2)\<close>)
  note en = this
  have ex: "\<exists>u. repeatM n critical_exit (s\<lparr>sync := (enter ^^ n) (sync s)\<rparr>) = Ok () u \<and>
      quiet (sync u) = quiet (sync s)" for n
  proof (induction n)
    case (Suc n)
    let ?y = "(enter ^^ n) (sync s)"
    have "critical_exit (s\<lparr>sync := enter ?y\<rparr>) = Ok () (s\<lparr>sync := quiet ?y\<rparr>)"
      using en [of n] assms by (subst critical_exit_run) (auto simp: leave_enter sync_ok_def)
    moreover have "n > 0 \<Longrightarrow> quiet ?y = ?y"
      using en [of "n - 1"] by (cases n) (auto simp: quiet_enter)
    moreover have "s\<lparr>sync := sync s\<rparr> = s" by simp
    ultimately show ?case
      using Suc.IH by (cases n) auto
  qed (auto intro: exI [of _ s])
  have off: "\<not> sie ((enter ^^ n) (sync s))" if "0 < n"
    using that by (cases n) auto
  obtain u where u: "repeatM n critical_exit (s\<lparr>sync := (enter ^^ n) (sync s)\<rparr>) = Ok () u"
    "quiet (sync u) = quiet (sync s)" using ex by blast
  then have "sie (sync u) = sie (sync s)" "depth (sync u) = depth (sync s)"
    by (metis quiet_simps(2), metis quiet_simps(3))
  then show ?thesis using en [of n] off u by auto
qed

theorem critical_nesting_witness:
  "sync_ok (sync idle_machine) \<and> (\<exists>t u. repeatM 3 critical_enter idle_machine = Ok () t \<and>
     repeatM 3 critical_exit t = Ok () u \<and> sie (sync u))"
  using critical_nesting [of idle_machine 3] by auto

section \<open>Several harts: mutual exclusion\<close>

text \<open>
  One lock and any number of harts. \<open>pcs h\<close> is where hart \<open>h\<close> is in \<open>acquire\<close> or \<open>release\<close> of the
  lock: \<open>Out\<close>, in neither; \<open>Trying\<close>, past the \<open>holding\<close> check and about to swap; \<open>Won\<close>, its atomic
  swap returned 0; \<open>Inside\<close>, it has recorded itself in \<open>lk->cpu\<close> and \<open>acquire\<close> has returned;
  \<open>Leaving\<close>, in \<open>release\<close> with \<open>lk->cpu\<close> cleared. The steps are taken by any hart, in any order. \<open>swap_lost\<close>, \<open>swap_won\<close>,
  \<open>record_cpu\<close> and \<open>unlock\<close> are one access to the lock each; \<open>check\<close> is the whole call of \<open>holding\<close>, which reads \<open>lk->locked\<close>
  and \<open>lk->cpu\<close>, and \<open>clear_cpu\<close> the call of \<open>holding\<close> in \<open>release\<close> with the store to \<open>lk->cpu\<close> that follows it.
\<close>

datatype pc = Out | Trying | Won | Inside | Leaving

record lk_state =
  lk_word :: uint
  lk_cpu :: "nat option"
  pcs :: "nat \<Rightarrow> pc"

definition lk_holding :: "lk_state \<Rightarrow> nat \<Rightarrow> bool" where
  "lk_holding s h \<longleftrightarrow> lk_word s \<noteq> 0 \<and> lk_cpu s = Some h"

inductive lk_step :: "lk_state \<Rightarrow> lk_state \<Rightarrow> bool" where
  check: "pcs s h = Out \<Longrightarrow> \<not> lk_holding s h \<Longrightarrow> lk_step s (s\<lparr>pcs := (pcs s)(h := Trying)\<rparr>)"
| swap_lost: "pcs s h = Trying \<Longrightarrow> lk_word s \<noteq> 0 \<Longrightarrow> lk_step s (s\<lparr>lk_word := 1\<rparr>)"
| swap_won: "pcs s h = Trying \<Longrightarrow> lk_word s = 0 \<Longrightarrow>
    lk_step s (s\<lparr>lk_word := 1, pcs := (pcs s)(h := Won)\<rparr>)"
| record_cpu: "pcs s h = Won \<Longrightarrow> lk_step s (s\<lparr>lk_cpu := Some h, pcs := (pcs s)(h := Inside)\<rparr>)"
| clear_cpu: "pcs s h = Inside \<Longrightarrow> lk_holding s h \<Longrightarrow>
    lk_step s (s\<lparr>lk_cpu := None, pcs := (pcs s)(h := Leaving)\<rparr>)"
| unlock: "pcs s h = Leaving \<Longrightarrow> lk_step s (s\<lparr>lk_word := 0, pcs := (pcs s)(h := Out)\<rparr>)"

definition lk_init :: lk_state where
  "lk_init = \<lparr>lk_word = 0, lk_cpu = None, pcs = (\<lambda>_. Out)\<rparr>"

inductive lk_reachable :: "lk_state \<Rightarrow> bool" where
  start: "lk_reachable lk_init"
| step: "lk_reachable s \<Longrightarrow> lk_step s t \<Longrightarrow> lk_reachable t"

text \<open>The harts that own the lock word: at most one, and the recorded cpu is theirs.\<close>

definition owns :: "pc \<Rightarrow> bool" where
  "owns p \<longleftrightarrow> p = Won \<or> p = Inside \<or> p = Leaving"

definition lk_inv :: "lk_state \<Rightarrow> bool" where
  "lk_inv s \<longleftrightarrow> (lk_word s \<noteq> 0 \<longleftrightarrow> (\<exists>h. owns (pcs s h))) \<and>
     (\<forall>h k. owns (pcs s h) \<longrightarrow> owns (pcs s k) \<longrightarrow> h = k) \<and>
     (\<forall>h. lk_cpu s = Some h \<longleftrightarrow> pcs s h = Inside)"

lemma lk_inv_init: "lk_inv lk_init"
  by (simp add: lk_inv_def lk_init_def owns_def)

lemma lk_step_inv: "lk_step s t \<Longrightarrow> lk_inv s \<Longrightarrow> lk_inv t"
proof (induction rule: lk_step.induct)
  case (check s h)
  then show ?case unfolding lk_inv_def owns_def by (simp, metis pc.distinct)
next
  case (swap_lost s h)
  then show ?case by (simp add: lk_inv_def)
next
  case (swap_won s h)
  then show ?case unfolding lk_inv_def owns_def by simp
next
  case (record_cpu s h)
  then show ?case unfolding lk_inv_def owns_def by (simp, metis pc.distinct)
next
  case (clear_cpu s h)
  then show ?case unfolding lk_inv_def owns_def by (simp, metis pc.distinct option.inject)
next
  case (unlock s h)
  then show ?case unfolding lk_inv_def owns_def by (simp, metis pc.distinct)
qed

lemma reachable_lk_inv: "lk_reachable s \<Longrightarrow> lk_inv s"
  by (induction rule: lk_reachable.induct) (auto intro: lk_inv_init lk_step_inv)

text \<open>
  C31: Mutual exclusion: however the harts interleave their accesses, no two of them are ever between
  a won swap and the unlocking store; and a hart inside its critical section always passes the
  \<open>holding\<close> check of \<open>release\<close>, while a hart outside always passes the one of \<open>acquire\<close>, so neither
  routine panics when calls are paired.
\<close>

theorem lock_mutual_exclusion:
  assumes "lk_reachable s"
  shows "(owns (pcs s h) \<and> owns (pcs s k) \<longrightarrow> h = k) \<and>
    (pcs s h = Inside \<longrightarrow> lk_holding s h) \<and> (pcs s h = Out \<longrightarrow> \<not> lk_holding s h)"
  using reachable_lk_inv [OF assms] by (auto simp: lk_inv_def lk_holding_def owns_def)

theorem lock_mutual_exclusion_witness:
  "\<exists>s. lk_reachable s \<and> pcs s 0 = Inside \<and> pcs s 1 = Trying \<and> lk_holding s 0 \<and> \<not> owns (pcs s 1)"
proof -
  define s1 where "s1 = lk_init\<lparr>pcs := (pcs lk_init)(0 := Trying)\<rparr>"
  define s2 where "s2 = s1\<lparr>pcs := (pcs s1)(1 := Trying)\<rparr>"
  define s3 where "s3 = s2\<lparr>lk_word := 1, pcs := (pcs s2)(0 := Won)\<rparr>"
  define s4 where "s4 = s3\<lparr>lk_cpu := Some 0, pcs := (pcs s3)(0 := Inside)\<rparr>"
  note defs = s1_def s2_def s3_def s4_def lk_init_def lk_holding_def
  have "lk_reachable s1"
    unfolding s1_def by (rule lk_reachable.step [OF lk_reachable.start check]) (simp_all add: defs)
  then have "lk_reachable s2"
    by (rule lk_reachable.step) (unfold s2_def, rule check, simp_all add: defs)
  then have "lk_reachable s3"
    by (rule lk_reachable.step) (unfold s3_def, rule swap_won, simp_all add: defs)
  then have "lk_reachable s4"
    by (rule lk_reachable.step) (unfold s4_def, rule record_cpu, simp_all add: defs)
  with lock_mutual_exclusion [of s4 0 1] show ?thesis
    by (auto simp: defs owns_def intro!: exI [of _ s4])
qed

text \<open>
  C32: Progress: the lock is never lost. If some hart is trying and no hart owns the lock, the swap of
  the trying hart wins.
\<close>

theorem lock_available:
  assumes "lk_reachable s" and "pcs s h = Trying" and "\<forall>k. \<not> owns (pcs s k)"
  shows "\<exists>t. lk_step s t \<and> pcs t h = Won"
proof -
  have "lk_word s = 0" using reachable_lk_inv [OF assms(1)] assms(3) by (auto simp: lk_inv_def)
  then have "lk_step s (s\<lparr>lk_word := 1, pcs := (pcs s)(h := Won)\<rparr>)"
    using assms by (intro swap_won) auto
  then show ?thesis by auto
qed

theorem lock_available_witness:
  "\<exists>s t. lk_reachable s \<and> pcs s 0 = Trying \<and> lk_step s t \<and> pcs t 0 = Won"
proof -
  let ?s = "lk_init\<lparr>pcs := (pcs lk_init)(0 := Trying)\<rparr>"
  have "lk_reachable ?s"
    by (rule lk_reachable.step [OF lk_reachable.start check]) (simp_all add: lk_init_def lk_holding_def)
  then show ?thesis
    using lock_available [of ?s 0] by (auto simp: lk_init_def owns_def)
qed

end
