(* ===== verification/Cstring.thy ===== *)
theory Cstring
  imports Memory
begin

text \<open>
  The C runtime of the kernel, \<^verbatim>\<open>kernel/src/string.c\<close>: \<open>memset\<close>, \<open>memcmp\<close>, \<open>memmove\<close>,
  \<open>memcpy\<close>, \<open>strncmp\<close>, \<open>strncpy\<close>, \<open>safestrcpy\<close> and \<open>strlen\<close> on the byte memory. Every loop is
  the recursive function of the same shape, over the same pointers; the lemmas say what the loops
  compute. Counts are the C \<open>uint\<close> (\<open>32 word\<close>) or \<open>int\<close>; a \<open>char\<close> is a byte.
  An \<open>int\<close> loop index is taken to stay below \<open>INT_MAX\<close>, beyond which C leaves it undefined.
\<close>

section \<open>Bytes of memory as lists\<close>

definition bytes :: "mem \<Rightarrow> addr \<Rightarrow> nat \<Rightarrow> byte list" where
  "bytes m p n = map (\<lambda>i. m (p + of_nat i)) [0..<n]"

definition cstr :: "mem \<Rightarrow> addr \<Rightarrow> nat \<Rightarrow> byte list" where
  "cstr m p n = takeWhile (\<lambda>b. b \<noteq> 0) (bytes m p n)"

lemma length_bytes [simp]: "length (bytes m p n) = n"
  by (simp add: bytes_def)

lemma nth_bytes [simp]: "i < n \<Longrightarrow> bytes m p n ! i = m (p + of_nat i)"
  by (simp add: bytes_def)

lemma bytes_0 [simp]: "bytes m p 0 = []"
  by (simp add: bytes_def)

lemma bytes_Suc: "bytes m p (Suc n) = m p # bytes m (p + 1) n"
  unfolding bytes_def by (simp add: upt_conv_Cons map_Suc_upt [symmetric] add.assoc del: upt_Suc)

lemma bytes_eq_iff: "bytes m p n = bytes m' q n \<longleftrightarrow> (\<forall>i<n. m (p + of_nat i) = m' (q + of_nat i))"
  by (auto simp: list_eq_iff_nth_eq)

lemma cstr_0 [simp]: "cstr m p 0 = []"
  by (simp add: cstr_def)

lemma cstr_Suc: "cstr m p (Suc n) = (if m p = 0 then [] else m p # cstr m (p + 1) n)"
  by (simp add: cstr_def bytes_Suc)

lemma length_cstr: "length (cstr m p n) \<le> n"
  unfolding cstr_def by (metis length_bytes length_takeWhile_le)

lemma cstr_nonzero: "0 \<notin> set (cstr m p n)"
  unfolding cstr_def using set_takeWhileD by fastforce

section \<open>memset, memcmp, memmove, memcpy\<close>

function memset_loop :: "mem \<Rightarrow> addr \<Rightarrow> byte \<Rightarrow> nat \<Rightarrow> nat \<Rightarrow> mem" where
  "memset_loop m dst c i n =
     (if i < n then memset_loop (m(dst + of_nat i := c)) dst c (Suc i) n else m)"
  by pat_completeness auto
termination
  by (relation "measure (\<lambda>(m, dst, c, i, n). n - i)") auto

declare memset_loop.simps [simp del]

definition memset :: "mem \<Rightarrow> addr \<Rightarrow> int \<Rightarrow> uint \<Rightarrow> mem" where
  "memset m dst c n = memset_loop m dst (word_of_int c) 0 (unat n)"

fun memcmp_loop :: "mem \<Rightarrow> addr \<Rightarrow> addr \<Rightarrow> nat \<Rightarrow> int" where
  "memcmp_loop m s1 s2 0 = 0"
| "memcmp_loop m s1 s2 (Suc n) =
     (if m s1 \<noteq> m s2 then uint (m s1) - uint (m s2) else memcmp_loop m (s1 + 1) (s2 + 1) n)"

definition memcmp :: "mem \<Rightarrow> addr \<Rightarrow> addr \<Rightarrow> uint \<Rightarrow> int" where
  "memcmp m v1 v2 n = memcmp_loop m v1 v2 (unat n)"

fun move_up :: "mem \<Rightarrow> addr \<Rightarrow> addr \<Rightarrow> nat \<Rightarrow> mem" where
  "move_up m d s 0 = m"
| "move_up m d s (Suc n) = move_up (m(d := m s)) (d + 1) (s + 1) n"

fun move_down :: "mem \<Rightarrow> addr \<Rightarrow> addr \<Rightarrow> nat \<Rightarrow> mem" where
  "move_down m d s 0 = m"
| "move_down m d s (Suc n) = move_down (m(d - 1 := m (s - 1))) (d - 1) (s - 1) n"

definition memmove :: "mem \<Rightarrow> addr \<Rightarrow> addr \<Rightarrow> uint \<Rightarrow> mem" where
  "memmove m dst src n =
     (if n = 0 then m
      else if src < dst \<and> src + ucast n > dst
        then move_down m (dst + ucast n) (src + ucast n) (unat n)
        else move_up m dst src (unat n))"

definition memcpy :: "mem \<Rightarrow> addr \<Rightarrow> addr \<Rightarrow> uint \<Rightarrow> mem" where
  "memcpy m dst src n = memmove m dst src n"

section \<open>The string routines\<close>

fun strncmp_loop :: "mem \<Rightarrow> addr \<Rightarrow> addr \<Rightarrow> nat \<Rightarrow> int" where
  "strncmp_loop m p q 0 = 0"
| "strncmp_loop m p q (Suc n) =
     (if m p \<noteq> 0 \<and> m p = m q then strncmp_loop m (p + 1) (q + 1) n
      else uint (m p) - uint (m q))"

definition strncmp :: "mem \<Rightarrow> addr \<Rightarrow> addr \<Rightarrow> uint \<Rightarrow> int" where
  "strncmp m p q n = strncmp_loop m p q (unat n)"

fun zero_fill :: "mem \<Rightarrow> addr \<Rightarrow> nat \<Rightarrow> mem" where
  "zero_fill m s 0 = m"
| "zero_fill m s (Suc n) = zero_fill (m(s := 0)) (s + 1) n"

fun strncpy_loop :: "mem \<Rightarrow> addr \<Rightarrow> addr \<Rightarrow> nat \<Rightarrow> mem" where
  "strncpy_loop m s t 0 = m"
| "strncpy_loop m s t (Suc n) =
     (if m t \<noteq> 0 then strncpy_loop (m(s := m t)) (s + 1) (t + 1) n
      else zero_fill (m(s := m t)) (s + 1) n)"

definition strncpy :: "mem \<Rightarrow> addr \<Rightarrow> addr \<Rightarrow> int \<Rightarrow> mem" where
  "strncpy m s t n = strncpy_loop m s t (nat n)"

fun safestrcpy_loop :: "mem \<Rightarrow> addr \<Rightarrow> addr \<Rightarrow> nat \<Rightarrow> mem" where
  "safestrcpy_loop m s t 0 = m(s := 0)"
| "safestrcpy_loop m s t (Suc n) =
     (if m t \<noteq> 0 then safestrcpy_loop (m(s := m t)) (s + 1) (t + 1) n
      else (m(s := m t))(s + 1 := 0))"

definition safestrcpy :: "mem \<Rightarrow> addr \<Rightarrow> addr \<Rightarrow> int \<Rightarrow> mem" where
  "safestrcpy m s t n = (if n \<le> 0 then m else safestrcpy_loop m s t (nat (n - 1)))"

partial_function (option) strlen_loop :: "mem \<Rightarrow> addr \<Rightarrow> nat \<Rightarrow> nat option" where
  "strlen_loop m s n = (if m (s + of_nat n) = 0 then Some n else strlen_loop m s (Suc n))"

definition strlen :: "mem \<Rightarrow> addr \<Rightarrow> nat option" where
  "strlen m s = strlen_loop m s 0"

section \<open>What the loops compute\<close>

subsection \<open>memset\<close>

lemma eq_offset_iff: "i < 2 ^ 64 \<Longrightarrow> a = dst + of_nat i \<longleftrightarrow> unat (a - dst) = i" for a dst :: addr
proof
  assume "unat (a - dst) = i"
  then have "of_nat i = a - dst" by auto
  then show "a = dst + of_nat i" by simp
qed (simp add: unat_of_nat)

lemma memset_loop_apply:
  assumes "n < 2 ^ 64"
  shows "memset_loop m dst c i n a =
    (if i \<le> unat (a - dst) \<and> unat (a - dst) < n then c else m a)"
proof (induction "n - i" arbitrary: m i)
  case 0
  then show ?case by (auto simp: memset_loop.simps [of m])
next
  case (Suc k)
  then have i: "i < n" by simp
  from Suc.hyps have "memset_loop (m(dst + of_nat i := c)) dst c (Suc i) n a =
    (if Suc i \<le> unat (a - dst) \<and> unat (a - dst) < n then c else (m(dst + of_nat i := c)) a)"
    by simp
  then show ?case
    using i assms eq_offset_iff [of i a dst]
    by (auto simp: memset_loop.simps [of m] not_le less_Suc_eq_le)
qed

lemma memset_apply: "memset m dst c n a = (if a \<in> span dst (unat n) then word_of_int c else m a)"
proof -
  have "unat n < 2 ^ 64" using unsigned_less [of n, where ?'a = nat] by simp
  then show ?thesis by (simp add: memset_def memset_loop_apply in_span_iff)
qed

subsection \<open>memmove\<close>

lemma unat_pred: "unat (x - 1 :: addr) = (if x = 0 then 2 ^ 64 - 1 else unat x - 1)"
  by (simp add: unat_minus_one unsigned_minus_1_eq_mask mask_eq_exp_minus_1)

lemma unat_less_Suc_iff:
  fixes x :: addr
  assumes "Suc n < 2 ^ 64"
  shows "unat x < Suc n \<longleftrightarrow> x = 0 \<or> unat (x - 1) < n" and "x = 0 \<Longrightarrow> \<not> unat (x - 1) < n"
proof -
  have "unat x \<noteq> 0" if "x \<noteq> 0" using that by (simp add: unat_eq_0)
  then show "unat x < Suc n \<longleftrightarrow> x = 0 \<or> unat (x - 1) < n"
    using assms by (auto simp: unat_pred simp del: unsigned_minus_1_eq_mask)
  show "x = 0 \<Longrightarrow> \<not> unat (x - 1) < n"
    using assms unat_pred [of 0] by simp
qed

lemma move_up_apply:
  assumes "n < 2 ^ 64" and "d = s \<or> n \<le> unat (d - s)"
  shows "move_up m d s n a = (if unat (a - d) < n then m (s + (a - d)) else m a)"
  using assms
proof (induction n arbitrary: m d s)
  case (Suc n)
  define m' where "m' = m(d := m s)"
  define x where "x = a - d"
  have e: "a - (d + 1) = x - 1" "s + 1 + (a - (d + 1)) = s + x"
    by (simp_all add: x_def)
  have "move_up m' (d + 1) (s + 1) n a =
    (if unat (a - (d + 1)) < n then m' (s + 1 + (a - (d + 1))) else m' a)"
    by (rule Suc.IH) (use Suc.prems in auto)
  then have IH: "move_up m d s (Suc n) a = (if unat (x - 1) < n then m' (s + x) else m' a)"
    by (simp add: e m'_def [symmetric])
  have clash: "s + x \<noteq> d" if "unat (x - 1) < n" "x \<noteq> 0" "d \<noteq> s"
  proof
    assume "s + x = d"
    then have "x = d - s" by (simp add: algebra_simps)
    then show False
      using that Suc.prems by (simp add: unat_pred)
  qed
  have x0: "x = 0 \<longleftrightarrow> a = d" by (auto simp: x_def)
  note unat_less_Suc_iff [OF Suc.prems(1), of x]
  then show ?case
    unfolding IH x_def [symmetric] using clash x0 by (auto simp: m'_def)
qed simp

lemma move_down_apply:
  assumes "n < 2 ^ 64" and "d = s \<or> n \<le> unat (s - d)"
  shows "move_down m d s n a = (if unat (d - 1 - a) < n then m (s - (d - a)) else m a)"
  using assms
proof (induction n arbitrary: m d s)
  case (Suc n)
  define m' where "m' = m(d - 1 := m (s - 1))"
  define x where "x = d - 1 - a"
  have e: "d - 1 - 1 - a = x - 1" "s - 1 - (d - 1 - a) = s - 1 - x" "s - (d - a) = s - 1 - x"
    by (simp_all add: x_def)
  have "move_down m' (d - 1) (s - 1) n a =
    (if unat (d - 1 - 1 - a) < n then m' (s - 1 - (d - 1 - a)) else m' a)"
    by (rule Suc.IH) (use Suc.prems in auto)
  then have IH: "move_down m d s (Suc n) a = (if unat (x - 1) < n then m' (s - 1 - x) else m' a)"
    unfolding e by (simp add: m'_def [symmetric])
  have clash: "s - 1 - x \<noteq> d - 1" if "unat (x - 1) < n" "x \<noteq> 0" "d \<noteq> s"
  proof
    assume "s - 1 - x = d - 1"
    then have "x = s - d" by (simp add: algebra_simps)
    then show False
      using that Suc.prems by (simp add: unat_pred)
  qed
  have x0: "x = 0 \<longleftrightarrow> a = d - 1" by (auto simp: x_def)
  note unat_less_Suc_iff [OF Suc.prems(1), of x]
  then show ?case
    unfolding IH e x_def [symmetric] using clash x0 by (auto simp: m'_def)
qed simp

lemma mirror_less_iff: "w \<noteq> 0 \<Longrightarrow> unat (w - 1 - x) < unat w \<longleftrightarrow> unat x < unat w" for w x :: addr
proof -
  assume w: "w \<noteq> 0"
  define y where "y = w - 1"
  have "unat y = unat w - 1" "0 < unat w"
    using w by (auto simp: y_def unat_pred unat_gt_0)
  then show ?thesis
    using unat_lt_2p64 [of x] unfolding y_def [symmetric] unat_diff_if
    by (cases "unat x \<le> unat y") (simp_all del: unat_lt_2p64, linarith+)
qed

text \<open>
  C40: \<open>memmove\<close> (and so \<open>memcpy\<close>) copies the \<open>n\<close> bytes the source held on entry, whatever the
  overlap of source and destination, and changes nothing outside the destination, as long as
  neither block runs past the end of the address space.
\<close>

theorem memmove_correct:
  assumes "unat src + unat n < 2 ^ 64" and "unat dst + unat n < 2 ^ 64"
  shows "memmove m dst src n =
    (\<lambda>a. if a \<in> span dst (unat n) then m (src + (a - dst)) else m a)"
proof (rule ext)
  fix a
  let ?k = "unat n"
  have k: "?k < 2 ^ 64" using assms(1) by simp
  have un: "unat (ucast n :: addr) = ?k" using k by (simp add: unsigned_ucast_eq take_bit_nat_eq_self)
  have sn: "unat (src + ucast n) = unat src + ?k"
    using assms(1) un by (simp add: unat_word_ariths)
  show "memmove m dst src n a = (if a \<in> span dst ?k then m (src + (a - dst)) else m a)"
  proof (cases "src < dst \<and> src + ucast n > dst \<and> n \<noteq> 0")
    case True
    then have lt: "unat src < unat dst" by (simp add: word_less_nat_alt)
    then have "?k \<le> unat (src - dst)"
      using assms(2) by (simp add: unat_diff_if)
    then have "move_down m (dst + ucast n) (src + ucast n) ?k a =
      (if unat (dst + ucast n - 1 - a) < ?k then m (src + ucast n - (dst + ucast n - a)) else m a)"
      by (intro move_down_apply) (use k in auto)
    moreover have "src + ucast n - (dst + ucast n - a) = src + (a - dst)"
      by (simp add: algebra_simps)
    moreover have "unat (dst + ucast n - 1 - a) < ?k \<longleftrightarrow> unat (a - dst) < ?k"
    proof -
      have "(ucast n :: addr) \<noteq> 0" using True un by (auto simp: unat_eq_0 [symmetric])
      moreover have e: "dst + ucast n - 1 - a = ucast n - 1 - (a - dst)" by simp
      ultimately show ?thesis
        using mirror_less_iff [of "ucast n" "a - dst"] un unfolding e by simp
    qed
    ultimately show ?thesis
      using True by (simp add: memmove_def in_span_iff)
  next
    case up: False
    show ?thesis
    proof (cases "n = 0")
      case False
      with up have "dst \<le> src \<or> src + ucast n \<le> dst" by auto
      then have "dst = src \<or> ?k \<le> unat (dst - src)"
        using assms sn by (auto simp: unat_diff_if word_le_nat_alt word_unat_eq_iff)
      then have "move_up m dst src ?k a = (if unat (a - dst) < ?k then m (src + (a - dst)) else m a)"
        by (intro move_up_apply) (use k in auto)
      then show ?thesis
        using False up by (auto simp: memmove_def in_span_iff)
    qed (simp add: memmove_def in_span_iff)
  qed
qed

text \<open>The source and destination overlap here: four bytes moved up by one.\<close>

theorem memmove_correct_witness:
  "unat (16 :: addr) + unat (4 :: uint) < 2 ^ 64 \<and> unat (17 :: addr) + unat (4 :: uint) < 2 ^ 64 \<and>
   bytes (memmove (\<lambda>a. ucast a) 17 16 4) 16 6 = [16, 16, 17, 18, 19, 21]"
proof -
  have h: "unat (16 :: addr) + unat (4 :: uint) < 2 ^ 64" "unat (17 :: addr) + unat (4 :: uint) < 2 ^ 64"
    by simp_all
  show ?thesis
    using h by (simp add: memmove_correct [OF h, of "\<lambda>a. ucast a"] in_span_iff bytes_def upt_rec)
qed

subsection \<open>Comparison\<close>

lemma memcmp_loop_0_iff: "memcmp_loop m p q n = 0 \<longleftrightarrow> bytes m p n = bytes m q n"
  by (induction n arbitrary: p q) (auto simp: bytes_Suc dest: unsigned_word_eqI)

lemma memcmp_0_iff: "memcmp m p q n = 0 \<longleftrightarrow> bytes m p (unat n) = bytes m q (unat n)"
  by (simp add: memcmp_def memcmp_loop_0_iff)

lemma strncmp_loop_0_iff: "strncmp_loop m p q n = 0 \<longleftrightarrow> cstr m p n = cstr m q n"
  by (induction n arbitrary: p q) (auto simp: cstr_Suc uint_0_iff dest: unsigned_word_eqI)

text \<open>
  \<open>strncmp\<close> returns 0 exactly when the two strings agree up to their first NUL or up to
  \<open>n\<close> bytes, which is what \<open>namecmp\<close> relies on for directory names of at most \<open>DIRSIZ\<close> bytes.
\<close>

theorem strncmp_0_iff: "strncmp m p q n = 0 \<longleftrightarrow> cstr m p (unat n) = cstr m q (unat n)"
  by (simp add: strncmp_def strncmp_loop_0_iff)

subsection \<open>Copies of strings\<close>

lemma zero_fill_apply: "n < 2 ^ 64 \<Longrightarrow> zero_fill m s n a = (if unat (a - s) < n then 0 else m a)"
proof (induction n arbitrary: m s)
  case (Suc n)
  have "zero_fill (m(s := 0)) (s + 1) n a = (if unat (a - (s + 1)) < n then 0 else (m(s := 0)) a)"
    by (rule Suc.IH) (use Suc.prems in simp)
  then show ?case
    using unat_less_Suc_iff [OF Suc.prems, of "a - s"] by (simp add: diff_diff_eq)
qed simp

lemma strncpy_loop_frame:
  "n < 2 ^ 64 \<Longrightarrow> a \<notin> span s n \<Longrightarrow> strncpy_loop m s t n a = m a"
proof (induction n arbitrary: m s t)
  case (Suc n)
  have out: "a \<noteq> s" "a \<notin> span (s + 1) n"
    using Suc.prems unat_less_Suc_iff [OF Suc.prems(1), of "a - s"]
    by (auto simp: in_span_iff diff_diff_eq)
  define m' where "m' = m(s := m t)"
  have m': "m' a = m a" using out by (simp add: m'_def)
  then show ?case
    using Suc.IH [of "s + 1" m' "t + 1"] out Suc.prems(1)
    by (auto simp: zero_fill_apply in_span_iff m'_def [symmetric])
qed simp

lemma bytes_cong: "(\<And>i. i < n \<Longrightarrow> m (p + of_nat i) = m' (p + of_nat i)) \<Longrightarrow> bytes m p n = bytes m' p n"
  by (simp add: bytes_eq_iff)

lemma cstr_cong: "(\<And>i. i < n \<Longrightarrow> m (p + of_nat i) = m' (p + of_nat i)) \<Longrightarrow> cstr m p n = cstr m' p n"
  using bytes_cong [of n m p m'] by (simp add: cstr_def)

lemma bytes_zeros: "(\<And>i. i < n \<Longrightarrow> m (p + of_nat i) = 0) \<Longrightarrow> bytes m p n = replicate n 0"
  by (simp add: list_eq_iff_nth_eq)

lemma add_Suc_offset: "(s :: addr) + 1 + of_nat i = s + of_nat (Suc i)"
  by simp

lemma not_in_next_span: "n < 2 ^ 64 - 1 \<Longrightarrow> s \<notin> span (s + 1) n" for s :: addr
  using unat_pred [of 0] by (simp add: in_span_iff)

lemma strncpy_loop_bytes:
  assumes "n < 2 ^ 64" and "\<And>i j. i < n \<Longrightarrow> j < n \<Longrightarrow> s + of_nat i \<noteq> t + of_nat j"
  shows "bytes (strncpy_loop m s t n) s n =
    cstr m t n @ replicate (n - length (cstr m t n)) 0"
  using assms
proof (induction n arbitrary: m s t)
  case (Suc n)
  define m' where "m' = m(s := m t)"
  have m's: "m' s = m t" by (simp add: m'_def)
  have disj: "s + 1 + of_nat i \<noteq> t + 1 + of_nat j" if "i < n" "j < n" for i j
    using Suc.prems(2) [of "Suc i" "Suc j"] that by (simp only: add_Suc_offset) simp
  have src: "cstr m' (t + 1) n = cstr m (t + 1) n"
    by (rule cstr_cong) (use Suc.prems(2) [of 0 "Suc _"] in \<open>auto simp: add.assoc m'_def\<close>)
  have s: "s \<notin> span (s + 1) n"
    using Suc.prems(1) by (intro not_in_next_span) simp
  show ?case
  proof (cases "m t = 0")
    case True
    then show ?thesis
      using s Suc.prems(1) m's
      by (auto simp: bytes_Suc cstr_Suc zero_fill_apply in_span_iff unat_of_nat m'_def [symmetric]
          intro!: bytes_zeros)
  next
    case False
    have "strncpy_loop m' (s + 1) (t + 1) n s = m t"
      using s Suc.prems(1) m's by (simp add: strncpy_loop_frame)
    then show ?thesis
      using False Suc.IH [of "s + 1" "t + 1" m'] disj src Suc.prems(1)
      by (simp add: bytes_Suc cstr_Suc m'_def [symmetric])
  qed
qed simp

lemma safestrcpy_loop_frame:
  "Suc n < 2 ^ 64 \<Longrightarrow> a \<notin> span s (Suc n) \<Longrightarrow> safestrcpy_loop m s t n a = m a"
proof (induction n arbitrary: m s t)
  case 0
  then show ?case by (auto simp: in_span_iff)
next
  case (Suc n)
  have out: "a \<noteq> s" "a \<notin> span (s + 1) (Suc n)"
    using Suc.prems unat_less_Suc_iff [OF Suc.prems(1), of "a - s"]
    by (auto simp: in_span_iff diff_diff_eq)
  define m' where "m' = m(s := m t)"
  have m': "m' a = m a" using out by (simp add: m'_def)
  then show ?case
    using Suc.IH [of "s + 1" m' "t + 1"] out Suc.prems(1)
    by (auto simp: in_span_iff m'_def [symmetric])
qed

lemma safestrcpy_loop_cstr:
  assumes "Suc n < 2 ^ 64" and "\<And>i j. i < Suc n \<Longrightarrow> j < n \<Longrightarrow> s + of_nat i \<noteq> t + of_nat j"
  shows "cstr (safestrcpy_loop m s t n) s (Suc n) = cstr m t n"
  using assms
proof (induction n arbitrary: m s t)
  case 0
  then show ?case by (simp add: cstr_Suc)
next
  case (Suc n)
  define m' where "m' = m(s := m t)"
  have m's: "m' s = m t" by (simp add: m'_def)
  have disj: "s + 1 + of_nat i \<noteq> t + 1 + of_nat j" if "i < Suc n" "j < n" for i j
    using Suc.prems(2) [of "Suc i" "Suc j"] that by (simp only: add_Suc_offset) simp
  have src: "cstr m' (t + 1) n = cstr m (t + 1) n"
    by (rule cstr_cong) (use Suc.prems(2) [of 0 "Suc _"] in \<open>auto simp: add.assoc m'_def\<close>)
  have s: "s \<notin> span (s + 1) (Suc n)"
    using Suc.prems(1) by (intro not_in_next_span) simp
  show ?case
  proof (cases "m t = 0")
    case True
    then show ?thesis using m's by (simp add: cstr_Suc [of _ s] cstr_Suc [of _ t] m'_def [symmetric])
  next
    case False
    have "safestrcpy_loop m' (s + 1) (t + 1) n s = m t"
      using s Suc.prems(1) m's by (simp add: safestrcpy_loop_frame)
    then show ?thesis
      using False Suc.IH [of "s + 1" "t + 1" m'] disj src Suc.prems(1)
      by (simp add: cstr_Suc [of _ s] cstr_Suc [of _ t] m'_def [symmetric])
  qed
qed

text \<open>
  \<open>safestrcpy\<close> with \<open>n > 0\<close> always leaves a NUL-terminated string of fewer than \<open>n\<close> bytes in
  the destination, namely the source cut to \<open>n - 1\<close> bytes, and writes nothing beyond the \<open>n\<close>
  destination bytes (for blocks that do not overlap).
\<close>

theorem safestrcpy_correct:
  assumes "0 < n" and "n < 2 ^ 31"
    and "\<And>i j. i < nat n \<Longrightarrow> j < nat n \<Longrightarrow> s + of_nat i \<noteq> t + of_nat j"
  shows "cstr (safestrcpy m s t n) s (nat n) = cstr m t (nat (n - 1)) \<and>
    length (cstr (safestrcpy m s t n) s (nat n)) < nat n \<and>
    (\<forall>a. a \<notin> span s (nat n) \<longrightarrow> safestrcpy m s t n a = m a)"
proof -
  have n: "nat n = Suc (nat (n - 1))" using assms(1) by simp
  have "cstr (safestrcpy m s t n) s (nat n) = cstr m t (nat (n - 1))"
    unfolding n safestrcpy_def using assms
    by (simp, intro safestrcpy_loop_cstr) auto
  moreover have "length (cstr m t (nat (n - 1))) < nat n"
    using length_cstr [of m t "nat (n - 1)"] assms(1) by simp
  moreover have "safestrcpy m s t n a = m a" if "a \<notin> span s (nat n)" for a
    using that assms(1,2) unfolding n safestrcpy_def by (simp add: safestrcpy_loop_frame)
  ultimately show ?thesis by simp
qed

theorem safestrcpy_correct_witness:
  "cstr (safestrcpy (\<lambda>a. if a < 8 then 65 else 7) 32 0 16) 32 16 =
     [65, 65, 65, 65, 65, 65, 65, 65, 7, 7, 7, 7, 7, 7, 7]"
proof -
  have disj: "(32 :: addr) + of_nat i \<noteq> 0 + of_nat j" if "i < nat 16" "j < nat 16" for i j :: nat
  proof
    assume "(32 :: addr) + of_nat i = 0 + of_nat j"
    then have "unat (32 + of_nat i :: addr) = unat (of_nat j :: addr)" by simp
    then show False using that by (simp add: unat_word_ariths unat_of_nat)
  qed
  have "cstr (safestrcpy (\<lambda>a. if a < 8 then 65 else 7) 32 0 16) 32 (nat 16) =
      cstr (\<lambda>a. if a < 8 then 65 else 7) 0 (nat (16 - 1))"
    using safestrcpy_correct [of 16 32 0 "\<lambda>a. if a < 8 then 65 else 7"] disj by simp
  also have "\<dots> = [65, 65, 65, 65, 65, 65, 65, 65, 7, 7, 7, 7, 7, 7, 7]"
    by (simp add: cstr_def bytes_def upt_rec)
  finally show ?thesis by simp
qed

subsection \<open>strlen\<close>

lemma strlen_loop_Some:
  assumes "i \<le> k" "\<And>j. i \<le> j \<Longrightarrow> j < k \<Longrightarrow> m (s + of_nat j) \<noteq> 0" "m (s + of_nat k) = 0"
  shows "strlen_loop m s i = Some k"
  using assms
proof (induction "k - i" arbitrary: i)
  case 0
  then show ?case by (simp add: strlen_loop.simps)
next
  case (Suc d)
  then have "strlen_loop m s (Suc i) = Some k" by simp
  then show ?case using Suc.prems Suc.hyps(2) by (simp add: strlen_loop.simps [of m s i])
qed

text \<open>\<open>strlen\<close> returns, with the right count, on every terminated string.\<close>

lemma strlen_terminated:
  assumes "length (cstr m s n) < n"
  shows "strlen m s = Some (length (cstr m s n))"
proof -
  let ?k = "length (cstr m s n)"
  have "bytes m s n ! ?k = 0"
    using assms nth_length_takeWhile [of "\<lambda>b. b \<noteq> 0" "bytes m s n"] by (simp add: cstr_def)
  moreover have "bytes m s n ! j \<noteq> 0" if "j < ?k" for j
    using that nth_mem [of j "cstr m s n"] cstr_nonzero [of m s n]
    by (metis cstr_def takeWhile_nth)
  ultimately show ?thesis
    unfolding strlen_def using assms by (intro strlen_loop_Some) auto
qed

end
