(* ===== verification/Kalloc.thy ===== *)
theory Kalloc
  imports Spinlock Cstring
begin

text \<open>
  The physical page allocator, \<^verbatim>\<open>kernel/src/kalloc.c\<close>. The free list is threaded through the free
  pages themselves: \<open>struct run\<close> is the first eight bytes of a free page, so \<open>r->next\<close> is a 64-bit
  access to physical memory and \<open>kalloc\<close> and \<open>kfree\<close> overwrite the page with junk. The allocator
  refines an abstract stack of pages: \<open>kmem_inv s ps\<close> says that the list in memory is exactly the
  pages \<open>ps\<close>, without repetition, all page-aligned and between \<open>end\<close> and \<open>PHYSTOP\<close>.

  The locale \<open>page_allocator\<close> is the contract its clients rely on; \<open>kalloc\<close> and \<open>kfree\<close> are its
  interpretation \<open>kpages\<close>.
\<close>

section \<open>Memory accesses of the C code\<close>

definition load64 :: "addr \<Rightarrow> ('z machine_scheme, uint64) km" where
  "load64 a = gets (\<lambda>s. read64 (mem s) a)"

definition store64 :: "addr \<Rightarrow> uint64 \<Rightarrow> ('z machine_scheme, unit) km" where
  "store64 a v = modify (\<lambda>s. s\<lparr>mem := write64 (mem s) a v\<rparr>)"

definition memsetM :: "addr \<Rightarrow> int \<Rightarrow> uint \<Rightarrow> ('z machine_scheme, unit) km" where
  "memsetM dst c n = modify (\<lambda>s. s\<lparr>mem := memset (mem s) dst c n\<rparr>)"

definition memmoveM :: "addr \<Rightarrow> addr \<Rightarrow> uint \<Rightarrow> ('z machine_scheme, unit) km" where
  "memmoveM dst src n = modify (\<lambda>s. s\<lparr>mem := memmove (mem s) dst src n\<rparr>)"

lemma mem_ops_run [simp]:
  "load64 a s = Ok (read64 (mem s) a) s"
  "store64 a v s = Ok () (s\<lparr>mem := write64 (mem s) a v\<rparr>)"
  "memsetM a c n s = Ok () (s\<lparr>mem := memset (mem s) a c n\<rparr>)"
  "memmoveM a b n s = Ok () (s\<lparr>mem := memmove (mem s) a b n\<rparr>)"
  by (simp_all add: load64_def store64_def memsetM_def memmoveM_def)

lemma wp_load64 [wp_simps]: "wp (load64 a) Q s = Q (read64 (mem s) a) s"
  by (simp add: load64_def wp_gets)

lemma wp_store64 [wp_simps]: "wp (store64 a v) Q s = Q () (s\<lparr>mem := write64 (mem s) a v\<rparr>)"
  by (simp add: store64_def wp_modify)

lemma wp_memsetM [wp_simps]: "wp (memsetM a c n) Q s = Q () (s\<lparr>mem := memset (mem s) a c n\<rparr>)"
  by (simp add: memsetM_def wp_modify)

lemma wp_memmoveM [wp_simps]: "wp (memmoveM a b n) Q s = Q () (s\<lparr>mem := memmove (mem s) a b n\<rparr>)"
  by (simp add: memmoveM_def wp_modify)

section \<open>The allocator\<close>

record kmem = machine +
  freelist :: addr

definition kalloc :: "('z kmem_scheme, addr) km" where
  "kalloc =
     seq (acquire Kmem_lock) (
     bnd (gets freelist) (\<lambda>r.
     seq (whenM (r \<noteq> 0) (bnd (load64 r) (\<lambda>next. modify (\<lambda>s. s\<lparr>freelist := next\<rparr>)))) (
     seq (release Kmem_lock) (
     seq (whenM (r \<noteq> 0) (memsetM r 5 4096)) (
     ret r)))))"

definition kfree :: "addr \<Rightarrow> ('z kmem_scheme, unit) km" where
  "kfree pa =
     bnd (gets sym_end) (\<lambda>kend.
     if pa mod PGSIZE \<noteq> 0 \<or> pa < kend \<or> pa \<ge> PHYSTOP then panic ''kfree''
     else seq (memsetM pa 1 4096) (
          seq (acquire Kmem_lock) (
          bnd (gets freelist) (\<lambda>next.
          seq (store64 pa next) (
          seq (modify (\<lambda>s. s\<lparr>freelist := pa\<rparr>))
              (release Kmem_lock))))))"

lemma kfree_OkD: "kfree p s = Ok x t \<Longrightarrow> p < PHYSTOP"
  by (auto simp: kfree_def bnd_def split: if_splits)

function freerange_loop :: "addr \<Rightarrow> addr \<Rightarrow> ('z kmem_scheme, unit) km" where
  "freerange_loop p pa_end s =
     (if p + PGSIZE \<le> pa_end then bnd (kfree p) (\<lambda>_ t. freerange_loop (p + PGSIZE) pa_end t) s
      else ret () s)"
  by pat_completeness auto
termination
proof (relation "measure (\<lambda>(p, e, s). unat PHYSTOP - unat p)")
  fix p pa_end :: addr and s t :: "'z kmem_scheme" and x
  assume "kfree p s = Ok x t"
  then have "unat p < unat PHYSTOP" using kfree_OkD word_less_nat_alt by blast
  moreover from this have "unat (p + PGSIZE) = unat p + 4096"
    by (simp add: unat_word_ariths const_vals PGSIZE_def)
  ultimately show "((p + PGSIZE, pa_end, t), p, pa_end, s) \<in> measure (\<lambda>(p, e, s). unat PHYSTOP - unat p)"
    by simp
qed simp

declare freerange_loop.simps [simp del]

definition freerange :: "addr \<Rightarrow> addr \<Rightarrow> ('z kmem_scheme, unit) km" where
  "freerange pa_start pa_end = freerange_loop (PGROUNDUP pa_start) pa_end"

definition kinit :: "('z kmem_scheme, unit) km" where
  "kinit = seq (initlock Kmem_lock ''kmem'') (bnd (gets sym_end) (\<lambda>kend. freerange kend PHYSTOP))"

text \<open>The self test run at boot, \<open>kmemtest\<close>; its \<open>printf\<close> calls are left out.\<close>

definition kmemtest :: "('z kmem_scheme, unit) km" where
  "kmemtest =
     bnd kalloc (\<lambda>p1. seq (whenM (p1 \<noteq> 0) (store64 p1 6)) (
     bnd kalloc (\<lambda>p2. seq (whenM (p2 \<noteq> 0) (store64 p2 6)) (
     seq (kfree p1) (seq (kfree p2) (
     bnd kalloc (\<lambda>p3. seq (whenM (p3 \<noteq> 0) (store64 p3 6)) (
     seq (kfree p3) (
     bnd kalloc (\<lambda>p1. seq (whenM (p1 \<noteq> 0) (store64 p1 6)) (
     bnd kalloc (\<lambda>p2. seq (whenM (p2 \<noteq> 0) (store64 p2 6)) (
     seq (kfree p2) (seq (kfree p1) (
     bnd kalloc (\<lambda>p3. seq (whenM (p3 \<noteq> 0) (store64 p3 6)) (
     kfree p3)))))))))))))))))"

section \<open>The abstract view\<close>

fun flist :: "mem \<Rightarrow> addr \<Rightarrow> addr list \<Rightarrow> bool" where
  "flist m p [] \<longleftrightarrow> p = 0"
| "flist m p (q # qs) \<longleftrightarrow> p = q \<and> q \<noteq> 0 \<and> flist m (read64 m q) qs"

definition phys_page :: "'z machine_scheme \<Rightarrow> addr \<Rightarrow> bool" where
  "phys_page s p \<longleftrightarrow> page_aligned p \<and> sym_end s \<le> p \<and> p < PHYSTOP"

definition kmem_inv :: "'z kmem_scheme \<Rightarrow> addr list \<Rightarrow> bool" where
  "kmem_inv s ps \<longleftrightarrow> flist (mem s) (freelist s) ps \<and> distinct ps \<and>
     (\<forall>p\<in>set ps. phys_page s p) \<and> 0 < sym_end s"

definition kmem_ready :: "'z kmem_scheme \<Rightarrow> addr list \<Rightarrow> bool" where
  "kmem_ready s ps \<longleftrightarrow> kmem_inv s ps \<and> sync_ok (sync s) \<and> lock_free Kmem_lock (sync s)"

lemma phys_page_upd [simp]:
  "phys_page (s\<lparr>sync := y\<rparr>) p = phys_page s p" "phys_page (s\<lparr>mem := m\<rparr>) p = phys_page s p"
  by (simp_all add: phys_page_def)

lemma phys_page_kmem [simp]: "phys_page ((s :: 'z kmem_scheme)\<lparr>freelist := f\<rparr>) p = phys_page s p"
  by (simp add: phys_page_def)

lemma phys_pageD: "phys_page s p \<Longrightarrow> page_aligned p"
  by (simp add: phys_page_def)

lemma slot0_page: "page_aligned p \<Longrightarrow> x \<in> span p 8 \<Longrightarrow> x \<in> page p"
  by (simp add: span_def)

lemma flist_frame:
  "flist m p ps \<Longrightarrow> \<forall>q\<in>set ps. page_aligned q \<Longrightarrow> (\<And>q x. q \<in> set ps \<Longrightarrow> x \<in> page q \<Longrightarrow> m' x = m x)
    \<Longrightarrow> flist m' p ps"
proof (induction ps arbitrary: p)
  case (Cons q qs)
  have "read64 m' q = read64 m q"
    by (rule read64_cong) (use Cons.prems(3) [of q] in \<open>auto simp: span_def\<close>)
  with Cons show ?case by auto
qed simp

lemma memset_page_outside: "x \<notin> page p \<Longrightarrow> memset m p c 4096 x = m x"
  by (simp add: memset_apply)

lemma memset_other_page:
  assumes "page_aligned p" "page_aligned q" "p \<noteq> q" "x \<in> page q"
  shows "memset m p c 4096 x = m x"
  using page_disjoint [OF assms(1-3)] assms(4) by (intro memset_page_outside) blast

lemma memset_page_inside: "x \<in> page p \<Longrightarrow> memset m p c 4096 x = word_of_int c"
  by (simp add: memset_apply)

lemma kmem_inv_frame:
  assumes "kmem_inv s ps" "freelist t = freelist s" "sym_end t = sym_end s"
    "\<And>q x. q \<in> set ps \<Longrightarrow> x \<in> page q \<Longrightarrow> mem t x = mem s x"
  shows "kmem_inv t ps"
proof -
  have "flist (mem t) (freelist s) ps"
    by (rule flist_frame [of "mem s"]) (use assms in \<open>auto simp: kmem_inv_def phys_page_def\<close>)
  then show ?thesis using assms(1-3) by (simp add: kmem_inv_def phys_page_def)
qed

section \<open>The contract\<close>

locale page_allocator =
  fixes alloc :: "('s, addr) km"
    and free :: "addr \<Rightarrow> ('s, unit) km"
    and ready :: "'s \<Rightarrow> addr list \<Rightarrow> bool"
    and usable :: "'s \<Rightarrow> addr \<Rightarrow> bool"
  assumes alloc_none: "ready s [] \<Longrightarrow> wp alloc (\<lambda>r t. r = 0 \<and> ready t [] \<and> usable t = usable s) s"
    and alloc_some: "ready s (p # ps) \<Longrightarrow> wp alloc (\<lambda>r t. r = p \<and> ready t ps \<and> usable t = usable s) s"
    and free_page: "ready s ps \<Longrightarrow> usable s p \<Longrightarrow> p \<notin> set ps \<Longrightarrow>
      wp (free p) (\<lambda>_ t. ready t (p # ps) \<and> usable t = usable s) s"
    and ready_usable: "ready s ps \<Longrightarrow> p \<in> set ps \<Longrightarrow> usable s p"
    and ready_distinct: "ready s ps \<Longrightarrow> distinct ps"
    and usable_nonzero: "ready s ps \<Longrightarrow> usable s p \<Longrightarrow> p \<noteq> 0"
begin

text \<open>Allocating fails exactly when no page is free.\<close>

lemma alloc_total: "ready s ps \<Longrightarrow> wp alloc (\<lambda>r t. ready t (tl ps) \<and> (r = 0 \<longleftrightarrow> ps = []) \<and>
    (ps \<noteq> [] \<longrightarrow> r = hd ps)) s"
proof (cases ps)
  case Nil
  assume "ready s ps"
  with Nil show ?thesis by (auto intro: wp_mono [OF alloc_none])
next
  case (Cons p qs)
  assume r: "ready s ps"
  with Cons have "p \<noteq> 0" using ready_usable [of s ps p] usable_nonzero [of s ps p] by simp
  with r Cons show ?thesis by (auto intro: wp_mono [OF alloc_some])
qed

text \<open>A page that is freed is the next one allocated.\<close>

lemma free_alloc:
  "ready s ps \<Longrightarrow> usable s p \<Longrightarrow> p \<notin> set ps \<Longrightarrow>
    wp (seq (free p) alloc) (\<lambda>r t. r = p \<and> ready t ps \<and> usable t = usable s) s"
proof -
  assume "ready s ps" "usable s p" "p \<notin> set ps"
  then have "wp (free p) (\<lambda>_ t. ready t (p # ps) \<and> usable t = usable s) s" by (rule free_page)
  then show ?thesis
    unfolding wp_seq by (rule wp_mono) (auto intro: wp_mono [OF alloc_some])
qed

end

section \<open>The routines meet the contract\<close>

lemma kalloc_none_run:
  assumes "kmem_ready s []"
  shows "kalloc s = Ok 0 (s\<lparr>sync := quiet (sync s)\<rparr>)"
proof -
  have "freelist s = 0" using assms by (simp add: kmem_ready_def kmem_inv_def)
  then have "wp kalloc (\<lambda>r t. r = 0 \<and> t = s\<lparr>sync := quiet (sync s)\<rparr>) s"
    using assms by (simp add: kalloc_def wp_simps kmem_ready_def sync_ok_def)
  then show ?thesis by (simp only: wp_eq_iff)
qed

lemma kalloc_some_run:
  assumes "kmem_ready s (p # ps)"
  shows "kalloc s = Ok p (s\<lparr>sync := quiet (sync s), mem := memset (mem s) p 5 4096,
    freelist := read64 (mem s) p\<rparr>)"
proof -
  have "freelist s = p" "p \<noteq> 0" using assms by (auto simp: kmem_ready_def kmem_inv_def)
  then have "wp kalloc (\<lambda>r t. r = p \<and> t = s\<lparr>sync := quiet (sync s), mem := memset (mem s) p 5 4096,
      freelist := read64 (mem s) p\<rparr>) s"
    using assms by (simp add: kalloc_def wp_simps kmem_ready_def sync_ok_def)
  then show ?thesis by (simp only: wp_eq_iff)
qed

lemma kfree_run:
  assumes "phys_page s p" "sync_ok (sync s)" "lock_free Kmem_lock (sync s)"
  shows "kfree p s = Ok () (s\<lparr>sync := quiet (sync s),
    mem := write64 (memset (mem s) p 1 4096) p (freelist s), freelist := p\<rparr>)"
proof -
  have "wp (kfree p) (\<lambda>r t. r = () \<and> t = s\<lparr>sync := quiet (sync s),
      mem := write64 (memset (mem s) p 1 4096) p (freelist s), freelist := p\<rparr>) s"
    using assms
    by (simp add: kfree_def wp_simps phys_page_def page_aligned_def sync_ok_def not_less not_le)
  then show ?thesis by (simp only: wp_eq_iff)
qed

lemma kmem_inv_tl:
  assumes "kmem_inv s (p # ps)"
  shows "kmem_inv (s\<lparr>sync := y, mem := memset (mem s) p 5 4096, freelist := read64 (mem s) p\<rparr>) ps"
proof -
  from assms have "flist (mem s) (read64 (mem s) p) ps" "\<forall>q\<in>set ps. phys_page s q" "p \<notin> set ps"
      "phys_page s p" "distinct ps" "0 < sym_end s"
    by (auto simp: kmem_inv_def)
  moreover from this have "flist (memset (mem s) p 5 4096) (read64 (mem s) p) ps"
    by - (rule flist_frame [of "mem s"], auto simp: phys_page_def intro: memset_other_page)
  ultimately show ?thesis by (simp add: kmem_inv_def)
qed

lemma kmem_inv_push:
  assumes "kmem_inv s ps" "phys_page s p" "p \<notin> set ps"
  shows "kmem_inv (s\<lparr>sync := y, mem := write64 (memset (mem s) p 1 4096) p (freelist s), freelist := p\<rparr>)
    (p # ps)"
proof -
  let ?m = "write64 (memset (mem s) p 1 4096) p (freelist s)"
  have p0: "p \<noteq> 0" using assms by (auto simp: phys_page_def kmem_inv_def)
  have "?m x = mem s x" if "q \<in> set ps" "x \<in> page q" for q x
  proof -
    have "page p \<inter> page q = {}"
      using that(1) assms by (intro page_disjoint) (auto simp: kmem_inv_def phys_page_def)
    then have "x \<notin> page p" using that(2) by blast
    moreover from this have "x \<notin> span p 8" using assms(2) slot0_page phys_pageD by blast
    ultimately show ?thesis by (simp add: write64_outside memset_page_outside)
  qed
  then have "flist ?m (freelist s) ps"
    using assms(1) by - (rule flist_frame [of "mem s"], auto simp: kmem_inv_def phys_page_def)
  then show ?thesis using assms p0 by (simp add: kmem_inv_def)
qed

interpretation kpages: page_allocator kalloc kfree kmem_ready phys_page
proof unfold_locales
  fix s :: "'z kmem_scheme" and p ps
  show "wp kalloc (\<lambda>r t. r = 0 \<and> kmem_ready t [] \<and> phys_page t = phys_page s) s" if "kmem_ready s []"
    using that by (auto simp: wp_iff kalloc_none_run kmem_ready_def kmem_inv_def phys_page_def fun_eq_iff)
  show "wp kalloc (\<lambda>r t. r = p \<and> kmem_ready t ps \<and> phys_page t = phys_page s) s" if "kmem_ready s (p # ps)"
    using that kmem_inv_tl [of s p ps "quiet (sync s)"]
    by (auto simp: wp_iff kalloc_some_run kmem_ready_def phys_page_def fun_eq_iff)
  show "wp (kfree p) (\<lambda>_ t. kmem_ready t (p # ps) \<and> phys_page t = phys_page s) s"
    if "kmem_ready s ps" "phys_page s p" "p \<notin> set ps"
    using that kmem_inv_push [of s ps p "quiet (sync s)"]
    by (auto simp: wp_iff kfree_run kmem_ready_def phys_page_def fun_eq_iff)
  show "phys_page s p" if "kmem_ready s ps" "p \<in> set ps"
    using that by (simp add: kmem_ready_def kmem_inv_def)
  show "distinct ps" if "kmem_ready s ps"
    using that by (simp add: kmem_ready_def kmem_inv_def)
  show "p \<noteq> 0" if "kmem_ready s ps" "phys_page s p"
    using that by (auto simp: kmem_ready_def kmem_inv_def phys_page_def)
qed

section \<open>Properties\<close>

text \<open>
  \<open>kalloc\<close> on a well-formed free list returns the first free page (filled with the junk byte 5) and
  takes it off the list, or returns 0 exactly when the list is empty; no byte outside the returned
  page changes, so pages already handed out keep their contents.
\<close>

theorem kalloc_correct:
  assumes "kmem_ready s ps"
  shows "\<exists>r t. kalloc s = Ok r t \<and> kmem_ready t (tl ps) \<and> (r = 0 \<longleftrightarrow> ps = []) \<and> (ps \<noteq> [] \<longrightarrow> r = hd ps) \<and>
    (\<forall>x. mem t x = (if ps \<noteq> [] \<and> x \<in> page r then 5 else mem s x))"
proof -
  obtain r t where k: "kalloc s = Ok r t" "kmem_ready t (tl ps)" "r = 0 \<longleftrightarrow> ps = []" "ps \<noteq> [] \<longrightarrow> r = hd ps"
    using kpages.alloc_total [OF assms] by (auto simp: wp_iff)
  have "mem t x = (if ps \<noteq> [] \<and> x \<in> page r then 5 else mem s x)" for x
    using k(1) assms by (cases ps) (auto simp: kalloc_none_run kalloc_some_run memset_apply)
  with k show ?thesis by blast
qed

text \<open>
  \<open>kfree\<close> panics exactly on an address that is not a page of allocatable RAM (misaligned, below
  \<open>end\<close> or not below \<open>PHYSTOP\<close>); any other page that is not already free is put at the front of the
  list, and no byte outside it changes.
\<close>

theorem kfree_correct:
  assumes "kmem_ready s ps" and "p \<notin> set ps"
  shows "if phys_page s p
    then \<exists>t. kfree p s = Ok () t \<and> kmem_ready t (p # ps) \<and> (\<forall>x. x \<notin> page p \<longrightarrow> mem t x = mem s x)
    else kfree p s = Panic ''kfree''"
proof (cases "phys_page s p")
  case True
  then obtain t where t: "kfree p s = Ok () t" "kmem_ready t (p # ps)"
    using kpages.free_page [OF assms(1) True assms(2)] by (auto simp: wp_iff)
  moreover have "mem t x = mem s x" if "x \<notin> page p" for x
  proof -
    have "x \<notin> span p 8" using that slot0_page phys_pageD [OF True] by blast
    then show ?thesis
      using t(1) that assms True by (auto simp: kfree_run kmem_ready_def write64_outside memset_page_outside)
  qed
  ultimately show ?thesis using True by auto
next
  case False
  then show ?thesis
    by (auto simp: kfree_def bnd_def phys_page_def page_aligned_def not_le not_less)
qed

text \<open>A state with two free pages, for the witnesses.\<close>

definition two_pages :: kmem where
  "two_pages = \<lparr>sync = idle_sync, mem = write64 (\<lambda>_. 0) 0x80030000 0x80031000, sym_end = 0x80021000,
     sym_etext = 0x80008000, sym_trampoline = 0x80007000, freelist = 0x80030000\<rparr>"

lemma two_pages_ready: "kmem_ready two_pages [0x80030000, 0x80031000]"
proof -
  have "read64 (write64 (\<lambda>_. 0) 0x80030000 0x80031000) 0x80031000 = 0"
    by (subst read64_write64_other) (auto simp: read64_def)
  then show ?thesis
    by (simp add: two_pages_def kmem_ready_def kmem_inv_def phys_page_def page_aligned_def PGSIZE_def
        const_vals)
qed

theorem kalloc_correct_witness:
  "kmem_ready two_pages [0x80030000, 0x80031000] \<and>
   (\<exists>t. kalloc two_pages = Ok 0x80030000 t \<and> kmem_ready t [0x80031000] \<and> mem t 0x80030000 = 5)"
proof -
  obtain r t where t: "kalloc two_pages = Ok r t" "kmem_ready t [0x80031000]" "r = 0x80030000"
    "\<forall>x. mem t x = (if x \<in> page r then 5 else mem two_pages x)"
    using kalloc_correct [OF two_pages_ready] by auto
  moreover have "mem t 0x80030000 = 5" using t by (simp add: in_span_iff)
  ultimately show ?thesis using two_pages_ready by blast
qed

theorem kfree_correct_witness:
  "kmem_ready two_pages [0x80030000, 0x80031000] \<and> phys_page two_pages 0x80032000 \<and>
   (\<exists>t. kfree 0x80032000 two_pages = Ok () t \<and> kmem_ready t [0x80032000, 0x80030000, 0x80031000]) \<and>
   kfree 0x80032008 two_pages = Panic ''kfree''"
proof -
  have p: "phys_page two_pages 0x80032000" "\<not> phys_page two_pages 0x80032008"
    by (simp_all add: two_pages_def phys_page_def page_aligned_def PGSIZE_def const_vals)
  show ?thesis
    using kfree_correct [OF two_pages_ready, of "0x80032000"]
      kfree_correct [OF two_pages_ready, of "0x80032008"]
      p two_pages_ready by auto
qed

subsection \<open>Initialisation\<close>

text \<open>The pages from \<open>p\<close> up to \<open>e\<close>, in the order \<open>freerange\<close> frees them.\<close>

definition pages_upto :: "addr \<Rightarrow> addr \<Rightarrow> addr list" where
  "pages_upto p e = map (\<lambda>i. p + of_nat i * 4096) [0..<(unat e - unat p) div 4096]"

lemma pages_upto_Cons:
  assumes "unat p + 4096 \<le> unat e"
  shows "pages_upto p e = p # pages_upto (p + 4096) e"
proof -
  have u: "unat (p + 4096) = unat p + 4096"
    using assms unat_lt_2p64 [of e] by (simp add: unat_word_ariths del: unat_lt_2p64)
  have "(unat e - unat p) div 4096 = Suc ((unat e - unat (p + 4096)) div 4096)"
    using assms u by (simp add: div_if [of "unat e - unat p"])
  then show ?thesis
    unfolding pages_upto_def
    by (simp add: upt_conv_Cons map_Suc_upt [symmetric] algebra_simps del: upt_Suc)
qed

lemma pages_upto_Nil: "unat e < unat p + 4096 \<Longrightarrow> pages_upto p e = []"
  by (simp add: pages_upto_def)

lemma freerange_loop_ready:
  assumes "kmem_ready s ps" "page_aligned p" "sym_end s \<le> p" "e \<le> PHYSTOP" "\<forall>q\<in>set ps. q < p"
    "unat p \<le> unat PHYSTOP"
  shows "wp (freerange_loop p e) (\<lambda>_ t. kmem_ready t (rev (pages_upto p e) @ ps) \<and> sym_end t = sym_end s) s"
  using assms
proof (induction p e s arbitrary: ps rule: freerange_loop.induct)
  case (1 p e s)
  have e: "unat e \<le> 0x88000000" using "1.prems"(4) by (simp add: const_vals word_le_nat_alt)
  have u: "unat (p + PGSIZE) = unat p + 4096"
    using "1.prems"(6) by (simp add: PGSIZE_def const_vals unat_word_ariths)
  show ?case
  proof (cases "p + PGSIZE \<le> e")
    case True
    then have le: "unat p + 4096 \<le> unat e" using u by (simp add: word_le_nat_alt)
    have pp: "phys_page s p"
      using "1.prems" le e by (simp add: phys_page_def word_less_nat_alt const_vals)
    have notin: "p \<notin> set ps" using "1.prems"(5) by auto
    obtain t where t: "kfree p s = Ok () t" "kmem_ready t (p # ps)" "phys_page t = phys_page s"
      using kpages.free_page [OF "1.prems"(1) pp notin] by (auto simp: wp_iff)
    have se: "sym_end t = sym_end s"
      using t(1) "1.prems"(1) by (auto simp: kfree_run [OF pp] kmem_ready_def)
    have "wp (freerange_loop (p + PGSIZE) e)
        (\<lambda>_ u. kmem_ready u (rev (pages_upto (p + PGSIZE) e) @ (p # ps)) \<and> sym_end u = sym_end t) t"
    proof (rule "1.IH" [OF True t(1)])
      show "page_aligned (p + PGSIZE)" using "1.prems"(2) u by (simp add: page_aligned_iff)
      show "sym_end t \<le> p + PGSIZE" using "1.prems"(3) u se by (simp add: word_le_nat_alt)
      show "\<forall>q\<in>set (p # ps). q < p + PGSIZE" using "1.prems"(5) u by (auto simp: word_less_nat_alt)
      show "unat (p + PGSIZE) \<le> unat PHYSTOP" using u le e by (simp add: const_vals)
    qed (use t "1.prems" in auto)
    then show ?thesis
      using True t(1) se pages_upto_Cons [OF le]
      by (simp add: wp_def freerange_loop.simps [of p e s] PGSIZE_def)
  next
    case False
    then have "unat e < unat p + 4096" using u by (simp add: word_le_nat_alt)
    then show ?thesis
      using False "1.prems"(1) by (simp add: wp_def freerange_loop.simps [of p e s] pages_upto_Nil)
  qed
qed

lemma mem_pages_upto:
  assumes "page_aligned p" "page_aligned e" "unat p \<le> unat e"
  shows "q \<in> set (pages_upto p e) \<longleftrightarrow> page_aligned q \<and> p \<le> q \<and> q < e"
proof -
  obtain a b where ab: "unat p = 4096 * a" "unat e = 4096 * b"
    using assms(1,2) by (auto simp: page_aligned_iff elim!: dvdE)
  have len: "(unat e - unat p) div 4096 = b - a" using ab by (simp flip: diff_mult_distrib2)
  have un: "unat (p + of_nat i * 4096) = 4096 * (a + i)" if "i < b - a" for i
  proof -
    have "4096 * (a + i) < 4096 * b" using that by simp
    then have "4096 * (a + i) < 2 ^ 64"
      by (rule less_trans) (use ab(2) unat_lt_2p64 [of e] in simp)
    moreover have "p = of_nat (4096 * a)" using ab(1) by (metis of_nat_unat ucast_id)
    then have "p + of_nat i * 4096 = of_nat (4096 * (a + i))" by (simp add: algebra_simps)
    ultimately show ?thesis by (simp only: unat_of_nat) simp
  qed
  show ?thesis
  proof
    assume "q \<in> set (pages_upto p e)"
    then obtain i where i: "i < b - a" "q = p + of_nat i * 4096" by (auto simp: pages_upto_def len)
    then show "page_aligned q \<and> p \<le> q \<and> q < e"
      using un [of i] ab by (auto simp: page_aligned_iff word_le_nat_alt word_less_nat_alt)
  next
    assume q: "page_aligned q \<and> p \<le> q \<and> q < e"
    then obtain c where c: "unat q = 4096 * c" by (auto simp: page_aligned_iff elim!: dvdE)
    then have "a \<le> c" "c < b" using q ab by (auto simp: word_le_nat_alt word_less_nat_alt)
    then have "q = p + of_nat (c - a) * 4096" "c - a < b - a"
      using un [of "c - a"] c by (auto simp: word_unat_eq_iff)
    then show "q \<in> set (pages_upto p e)" by (auto simp: pages_upto_def len)
  qed
qed

text \<open>
  C33: \<open>kinit\<close> returns, and after it the free list holds each page of RAM from \<open>end\<close> to \<open>PHYSTOP\<close> exactly
  once: nothing is lost and nothing outside is handed out.
\<close>

theorem kinit_correct:
  assumes "freelist s = 0" "sync_ok (sync s)" "KERNBASE \<le> sym_end s" "sym_end s \<le> PHYSTOP"
  shows "\<exists>t ps. kinit s = Ok () t \<and> kmem_ready t ps \<and> set ps = {p. phys_page s p}"
proof -
  let ?e = "sym_end s"
  define s1 where "s1 = s\<lparr>sync := (sync s)\<lparr>locks := (locks (sync s))(Kmem_lock :=
    (locks (sync s) Kmem_lock)\<lparr>lname := ''kmem'', locked := 0, lcpu := None\<rparr>)\<rparr>\<rparr>"
  have e: "unat ?e \<le> 0x88000000" "0x80000000 \<le> unat ?e"
    using assms(3,4) by (auto simp: const_vals KERNBASE_def word_le_nat_alt)
  have up: "unat (PGROUNDUP ?e) = (unat ?e + 4095) div 4096 * 4096"
    using e by (intro unat_PGROUNDUP) simp
  have al: "page_aligned (PGROUNDUP ?e)" using e by (intro PGROUNDUP_aligned) simp
  have le: "unat ?e \<le> unat (PGROUNDUP ?e)" "unat (PGROUNDUP ?e) \<le> 0x88000000"
    unfolding up using round_up_ge round_up_le [of "unat ?e" "0x88000"] e by auto
  have ready: "kmem_ready s1 []"
    using assms e by (simp add: s1_def kmem_ready_def kmem_inv_def lock_free_def sync_ok_def sie_def depth_def
        word_less_nat_alt)
  have "wp (freerange_loop (PGROUNDUP ?e) PHYSTOP)
      (\<lambda>_ t. kmem_ready t (rev (pages_upto (PGROUNDUP ?e) PHYSTOP) @ []) \<and> sym_end t = sym_end s1) s1"
    by (rule freerange_loop_ready [OF ready al]) (use le in \<open>auto simp: s1_def word_le_nat_alt const_vals\<close>)
  then obtain t where t: "freerange_loop (PGROUNDUP ?e) PHYSTOP s1 = Ok () t"
      "kmem_ready t (rev (pages_upto (PGROUNDUP ?e) PHYSTOP))" by (auto simp: wp_iff)
  have "kinit s = Ok () t"
    using t(1) by (simp add: kinit_def initlock_def set_lock_def freerange_def s1_def bnd_def)
  moreover have "set (rev (pages_upto (PGROUNDUP ?e) PHYSTOP)) = {p. phys_page s p}"
  proof -
    have "page_aligned PHYSTOP" "unat (PGROUNDUP ?e) \<le> unat PHYSTOP"
      using le by (simp_all add: page_aligned_iff const_vals)
    moreover have "PGROUNDUP ?e \<le> p \<longleftrightarrow> ?e \<le> p" if pa: "page_aligned p" for p
    proof
      obtain c where c: "unat p = 4096 * c" using pa by (auto simp: page_aligned_iff)
      assume "?e \<le> p"
      then have "unat ?e \<le> 4096 * c" using c by (simp add: word_le_nat_alt)
      then have "(unat ?e + 4095) div 4096 \<le> c" by (rule round_up_le)
      then show "PGROUNDUP ?e \<le> p" using c up by (simp add: word_le_nat_alt)
    qed (use le in \<open>simp add: word_le_nat_alt\<close>)
    ultimately show ?thesis
      using mem_pages_upto [OF al] by (auto simp: phys_page_def)
  qed
  ultimately show ?thesis using t(2) by blast
qed

definition boot_kmem :: kmem where
  "boot_kmem = \<lparr>sync = idle_sync, mem = (\<lambda>_. 0), sym_end = 0x80021004,
     sym_etext = 0x80008000, sym_trampoline = 0x80007000, freelist = 0\<rparr>"

theorem kinit_correct_witness:
  "\<exists>t ps. kinit boot_kmem = Ok () t \<and> kmem_ready t ps \<and> 0x80022000 \<in> set ps \<and> 0x80021000 \<notin> set ps"
proof -
  have "freelist boot_kmem = 0" "sync_ok (sync boot_kmem)" "KERNBASE \<le> sym_end boot_kmem"
    "sym_end boot_kmem \<le> PHYSTOP"
    by (simp_all add: boot_kmem_def const_vals KERNBASE_def)
  from kinit_correct [OF this] obtain t ps where
    "kinit boot_kmem = Ok () t" "kmem_ready t ps" "set ps = {p. phys_page boot_kmem p}" by blast
  moreover have "phys_page boot_kmem 0x80022000" "\<not> phys_page boot_kmem 0x80021000"
    by (simp_all add: boot_kmem_def phys_page_def page_aligned_def PGSIZE_def const_vals)
  ultimately show ?thesis by auto
qed

subsection \<open>The boot-time self test\<close>

lemma wp_kalloc_some:
  "kmem_ready s (p # ps) \<Longrightarrow> (\<And>t. kmem_ready t ps \<Longrightarrow> phys_page t = phys_page s \<Longrightarrow> Q p t) \<Longrightarrow> wp kalloc Q s"
  by (rule wp_mono [OF kpages.alloc_some]) auto

lemma wp_kfree_page:
  "kmem_ready s ps \<Longrightarrow> phys_page s p \<Longrightarrow> p \<notin> set ps \<Longrightarrow>
    (\<And>t. kmem_ready t (p # ps) \<Longrightarrow> phys_page t = phys_page s \<Longrightarrow> Q () t) \<Longrightarrow> wp (kfree p) Q s"
  by (rule wp_mono [OF kpages.free_page]) auto

text \<open>A store into a page that is not free keeps the free list.\<close>

lemma wp_store_page:
  assumes "kmem_ready s ps" "phys_page s p" "p \<notin> set ps"
    "\<And>t. kmem_ready t ps \<Longrightarrow> phys_page t = phys_page s \<Longrightarrow> Q () t"
  shows "wp (whenM (p \<noteq> 0) (store64 p v)) Q s"
proof -
  let ?t = "s\<lparr>mem := write64 (mem s) p v\<rparr>"
  have "kmem_inv ?t ps"
  proof (rule kmem_inv_frame [of s])
    fix q x assume q: "q \<in> set ps" "x \<in> page q"
    then have "page p \<inter> page q = {}"
      using assms(1-3) by (intro page_disjoint) (auto simp: kmem_ready_def kmem_inv_def phys_page_def)
    then have "x \<notin> span p 8" using q(2) slot0_page phys_pageD [OF assms(2)] by blast
    then show "mem ?t x = mem s x" by (simp add: write64_outside)
  qed (use assms(1) in \<open>auto simp: kmem_ready_def\<close>)
  then have "Q () ?t"
    using assms(1) by (intro assms(4)) (auto simp: kmem_ready_def fun_eq_iff)
  then show ?thesis
    using kpages.usable_nonzero [OF assms(1,2)] by (simp add: wp_simps)
qed

text \<open>
  \<open>kmemtest\<close>, run at boot with at least two free pages, does not panic and leaves every page free
  again, its two pages in exchanged order (the list is a stack).
\<close>

theorem kmemtest_correct:
  assumes "kmem_ready s (a # b # ps)"
  shows "\<exists>t. kmemtest s = Ok () t \<and> kmem_ready t (b # a # ps)"
proof -
  have ab: "phys_page s a" "phys_page s b" "a \<notin> set ps" "b \<notin> set ps" "a \<noteq> b"
    using kpages.ready_usable [OF assms] kpages.ready_distinct [OF assms] by auto
  note ops = wp_kalloc_some wp_kfree_page wp_store_page
  have "wp kmemtest (\<lambda>_ t. kmem_ready t (b # a # ps)) s"
    unfolding kmemtest_def wp_bnd wp_seq
    apply (rule ops, rule assms, rule ops, assumption, use ab in simp, use ab in simp)
    apply (rule ops, assumption, rule ops, assumption, use ab in simp, use ab in simp)
    apply (rule ops, assumption, use ab in simp, use ab in simp, rule ops, assumption, use ab in simp, use ab in simp)
    apply (rule ops, assumption, rule ops, assumption, use ab in simp, use ab in simp)
    apply (rule ops, assumption, use ab in simp, use ab in simp)
    apply (rule ops, assumption, rule ops, assumption, use ab in simp, use ab in simp)
    apply (rule ops, assumption, rule ops, assumption, use ab in simp, use ab in simp)
    apply (rule ops, assumption, use ab in simp, use ab in simp, rule ops, assumption, use ab in simp, use ab in simp)
    apply (rule ops, assumption, rule ops, assumption, use ab in simp, use ab in simp)
    apply (rule ops, assumption, use ab in simp, use ab in simp)
    apply simp
    done
  then show ?thesis by (auto simp: wp_iff)
qed

theorem kmemtest_correct_witness:
  "\<exists>t. kmemtest two_pages = Ok () t \<and> kmem_ready t [0x80031000, 0x80030000]"
  by (rule kmemtest_correct [OF two_pages_ready])

end
