(* ===== verification/Vm.thy ===== *)
theory Vm
  imports Kalloc
begin

text \<open>
  Virtual memory, \<^verbatim>\<open>kernel/src/vm.c\<close>: the Sv39 page tables in physical memory, the walk that finds
  or creates a page-table entry, the routines that map, unmap, copy, grow and shrink user memory, and
  the copies between kernel and user space. \<open>proc_mapstacks\<close> of \<^verbatim>\<open>kernel/src/proc.c\<close>, which the
  kernel page table needs, is here too.

  Page tables are the bytes of their pages: \<open>pagetable[i]\<close> is the 64-bit slot \<open>slot pagetable i\<close>. A
  kernel buffer that user memory is copied to or from is a byte list (it lives in a kernel object,
  never in a user page). The recursion of \<open>freewalk\<close> takes the remaining depth as fuel: on a table
  with a cycle the C function never returns, which is the outcome \<open>Spin\<close>; the tables the kernel builds
  have three levels.

  The abstract view of a page table is \<open>pte_of m root va\<close>, the leaf entry for an address (0 when the
  walk finds none); \<open>pt_inv\<close> says that the table pages form a tree and are not free.
\<close>

section \<open>State\<close>

record vm = kmem +
  kernel_page_table :: addr
  satp :: "nat \<Rightarrow> uint64"

section \<open>Walking and mapping\<close>

fun walk_loop :: "nat \<Rightarrow> addr \<Rightarrow> addr \<Rightarrow> bool \<Rightarrow> ('z kmem_scheme, addr) km" where
  "walk_loop 0 pagetable va alloc = ret (slot pagetable (PX 0 va))"
| "walk_loop (Suc l) pagetable va alloc =
     bnd (load64 (slot pagetable (PX (Suc l) va))) (\<lambda>pte.
     if pte AND PTE_V \<noteq> 0 then walk_loop l (PTE2PA pte) va alloc
     else if \<not> alloc then ret 0
     else bnd kalloc (\<lambda>p.
       if p = 0 then ret 0
       else seq (memsetM p 0 4096) (
            seq (store64 (slot pagetable (PX (Suc l) va)) (PA2PTE p OR PTE_V)) (
            walk_loop l p va alloc))))"

definition walk :: "addr \<Rightarrow> addr \<Rightarrow> bool \<Rightarrow> ('z kmem_scheme, addr) km" where
  "walk pagetable va alloc =
     (if va \<ge> MAXVA then panic ''walk to maxVA'' else walk_loop 2 pagetable va alloc)"

lemma walk_OkD: "walk pt va alloc s = Ok r t \<Longrightarrow> va < MAXVA"
  by (auto simp: walk_def split: if_splits)

lemma below_MAXVA_next: "va < MAXVA \<Longrightarrow> unat (va + PGSIZE) = unat va + 4096"
  by (simp add: const_vals PGSIZE_def unat_word_ariths word_less_nat_alt)

function mappages_loop :: "addr \<Rightarrow> addr \<Rightarrow> addr \<Rightarrow> addr \<Rightarrow> uint64 \<Rightarrow> ('z kmem_scheme, int) km" where
  "mappages_loop pagetable a lst pa perm s =
     bnd (walk pagetable a True) (\<lambda>pte t.
       if pte = 0 then ret (- 1) t
       else bnd (load64 pte) (\<lambda>v t.
         if v AND PTE_V \<noteq> 0 then panic ''mappages: remap'' t
         else bnd (store64 pte (PA2PTE pa OR perm OR PTE_V)) (\<lambda>_ t.
           if a = lst then ret 0 t
           else mappages_loop pagetable (a + PGSIZE) lst (pa + PGSIZE) perm t) t) t) s"
  by pat_completeness auto
termination
  by (relation "measure (\<lambda>(pagetable, a, lst, pa, perm, s). unat MAXVA - unat a)")
    (auto dest!: walk_OkD simp: below_MAXVA_next word_less_nat_alt [of _ MAXVA] intro: diff_less_mono2)

declare mappages_loop.simps [simp del]

definition mappages :: "addr \<Rightarrow> addr \<Rightarrow> addr \<Rightarrow> uint64 \<Rightarrow> uint64 \<Rightarrow> ('z kmem_scheme, int) km" where
  "mappages pagetable va pa sz perm =
     (if va mod PGSIZE \<noteq> 0 then panic ''mappages: va not aligned''
      else if sz mod PGSIZE \<noteq> 0 then panic ''mappages: size not aligned''
      else if sz = 0 then panic ''mappages: size''
      else mappages_loop pagetable va (va + sz - PGSIZE) pa perm)"

definition kvmmap :: "addr \<Rightarrow> addr \<Rightarrow> addr \<Rightarrow> uint64 \<Rightarrow> uint64 \<Rightarrow> ('z kmem_scheme, unit) km" where
  "kvmmap kpgtbl va pa sz perm =
     bnd (mappages kpgtbl va pa sz perm) (\<lambda>r. whenM (r \<noteq> 0) (panic ''no enough page''))"

section \<open>The kernel page table\<close>

fun mapstacks_loop :: "nat \<Rightarrow> nat \<Rightarrow> addr \<Rightarrow> ('z kmem_scheme, unit) km" where
  "mapstacks_loop 0 i kpgtbl = ret ()"
| "mapstacks_loop (Suc n) i kpgtbl =
     bnd kalloc (\<lambda>pa.
     if pa = 0 then panic ''kalloc''
     else seq (kvmmap kpgtbl (KSTACK i) pa PGSIZE PTE_RW) (mapstacks_loop n (Suc i) kpgtbl))"

definition proc_mapstacks :: "addr \<Rightarrow> ('z kmem_scheme, unit) km" where
  "proc_mapstacks kpgtbl = mapstacks_loop 64 0 kpgtbl"

definition kvmmake :: "('z kmem_scheme, addr) km" where
  "kvmmake =
     bnd kalloc (\<lambda>kpgtbl.
     if kpgtbl = 0 then panic ''kvmmake kalloc fiailed''
     else seq (memsetM kpgtbl 0 4096) (
       bnd (gets sym_etext) (\<lambda>etext. bnd (gets sym_trampoline) (\<lambda>trampoline.
       seq (kvmmap kpgtbl UART0 UART0 PGSIZE PTE_RW) (
       seq (kvmmap kpgtbl PLIC PLIC 0x4000000 PTE_RW) (
       seq (kvmmap kpgtbl VIRTIO0 VIRTIO0 PGSIZE PTE_RW) (
       seq (kvmmap kpgtbl KERNBASE KERNBASE (etext - KERNBASE) PTE_RX) (
       seq (kvmmap kpgtbl etext etext (PHYSTOP - etext) PTE_RW) (
       seq (kvmmap kpgtbl TRAMPOLINE trampoline PGSIZE PTE_RX) (
       seq (proc_mapstacks kpgtbl) (
       ret kpgtbl))))))))))) "

definition kvminit :: "('z vm_scheme, unit) km" where
  "kvminit = bnd kvmmake (\<lambda>pt. modify (\<lambda>s. s\<lparr>kernel_page_table := pt\<rparr>))"

definition kvminithart :: "('z vm_scheme, unit) km" where
  "kvminithart = modify (\<lambda>s. s\<lparr>satp := (satp s)(tp (sync s) := MAKE_SATP (kernel_page_table s))\<rparr>)"

section \<open>The tree in memory\<close>

text \<open>
  \<open>tab m p is\<close> follows the valid entries at the indices \<open>is\<close> from the table \<open>p\<close>; \<open>pte_of\<close> is the leaf
  entry of an address, 0 when a table on the way is missing.
\<close>

fun tab :: "mem \<Rightarrow> addr \<Rightarrow> uint64 list \<Rightarrow> addr option" where
  "tab m p [] = Some p"
| "tab m p (i # is) =
     (let pte = read64 m (slot p i) in if pte AND PTE_V \<noteq> 0 then tab m (PTE2PA pte) is else None)"

declare tab.simps(2) [simp del]

definition pte_of :: "mem \<Rightarrow> addr \<Rightarrow> addr \<Rightarrow> uint64" where
  "pte_of m root va =
     (case tab m root [PX 2 va, PX 1 va] of None \<Rightarrow> 0 | Some t \<Rightarrow> read64 m (slot t (PX 0 va)))"

definition idxs :: "uint64 list \<Rightarrow> bool" where
  "idxs is \<longleftrightarrow> (\<forall>i\<in>set is. unat i < 512)"

definition tables :: "mem \<Rightarrow> addr \<Rightarrow> addr set" where
  "tables m root = {p. \<exists>is. length is \<le> 2 \<and> idxs is \<and> tab m root is = Some p}"

definition pt_inv :: "'z kmem_scheme \<Rightarrow> addr \<Rightarrow> addr list \<Rightarrow> bool" where
  "pt_inv s root ps \<longleftrightarrow>
     (\<forall>p\<in>tables (mem s) root. phys_page s p \<and> p \<notin> set ps) \<and>
     (\<forall>is js p. length is \<le> 2 \<longrightarrow> length js \<le> 2 \<longrightarrow> idxs is \<longrightarrow> idxs js \<longrightarrow>
        tab (mem s) root is = Some p \<longrightarrow> tab (mem s) root js = Some p \<longrightarrow> is = js)"

lemma idxs_simps [simp]: "idxs []" "idxs (i # is) \<longleftrightarrow> unat i < 512 \<and> idxs is"
  "idxs (is @ js) \<longleftrightarrow> idxs is \<and> idxs js"
  by (auto simp: idxs_def)

lemma tab_append: "tab m p (is @ js) = Option.bind (tab m p is) (\<lambda>q. tab m q js)"
  by (induction "is" arbitrary: p) (auto simp: Let_def tab.simps)

lemma tab_snoc:
  "tab m p (is @ [i]) = (case tab m p is of None \<Rightarrow> None | Some q \<Rightarrow>
     if read64 m (slot q i) AND PTE_V \<noteq> 0 then Some (PTE2PA (read64 m (slot q i))) else None)"
  by (simp add: tab_append tab.simps Let_def split: option.split)

lemma tables_tab: "tab m root is = Some p \<Longrightarrow> length is \<le> 2 \<Longrightarrow> idxs is \<Longrightarrow> p \<in> tables m root"
  by (auto simp: tables_def)

lemma root_in_tables [simp]: "root \<in> tables m root"
  by (rule tables_tab [of _ _ "[]"]) auto

lemma pt_invD:
  assumes "pt_inv s root ps" "tab (mem s) root is = Some p" "length is \<le> 2" "idxs is"
  shows "page_aligned p" "phys_page s p" "p \<notin> set ps"
  using assms tables_tab [OF assms(2-4)] by (auto simp: pt_inv_def phys_page_def)

lemma pt_inv_inj:
  "pt_inv s root ps \<Longrightarrow> tab (mem s) root is = Some p \<Longrightarrow> tab (mem s) root js = Some p \<Longrightarrow>
    length is \<le> 2 \<Longrightarrow> length js \<le> 2 \<Longrightarrow> idxs is \<Longrightarrow> idxs js \<Longrightarrow> is = js"
  unfolding pt_inv_def by blast

text \<open>Tables up to the last level depend only on the entries of the upper two levels.\<close>

lemma tab_cong:
  assumes "\<And>is p i. length is \<le> 1 \<Longrightarrow> idxs is \<Longrightarrow> unat i < 512 \<Longrightarrow> tab m root is = Some p \<Longrightarrow>
      read64 m' (slot p i) = read64 m (slot p i)"
  shows "length js \<le> 2 \<Longrightarrow> idxs js \<Longrightarrow> tab m' root js = tab m root js"
proof (induction js rule: rev_induct)
  case (snoc j js)
  then have "tab m' root js = tab m root js" by simp
  with snoc.prems show ?case
    by (auto simp: tab_snoc assms split: option.split)
qed simp

lemma tables_cong:
  "(\<And>js. length js \<le> 2 \<Longrightarrow> idxs js \<Longrightarrow> tab m' root js = tab m root js) \<Longrightarrow> tables m' root = tables m root"
  by (auto simp: tables_def)

lemma PX_idx [simp]: "unat (PX l va) < 512"
  by (rule PX_less)

lemma read64_page_cong:
  assumes "page_aligned p" "unat i < 512" "\<And>x. x \<in> page p \<Longrightarrow> m' x = m x"
  shows "read64 m' (slot p i) = read64 m (slot p i)"
  by (rule read64_cong) (use slot_in_page [OF assms(1,2)] assms(3) in blast)

text \<open>Memory outside the table pages does not matter.\<close>

lemma tab_frame:
  assumes "pt_inv s root ps" "\<And>p x. p \<in> tables (mem s) root \<Longrightarrow> x \<in> page p \<Longrightarrow> m' x = mem s x"
    "length js \<le> 2" "idxs js"
  shows "tab m' root js = tab (mem s) root js"
proof (rule tab_cong [OF _ assms(3,4)])
  fix "is" p i assume a: "length is \<le> 1" "idxs is" "unat (i :: uint64) < 512" "tab (mem s) root is = Some p"
  then have "p \<in> tables (mem s) root" by (intro tables_tab) auto
  then show "read64 m' (slot p i) = read64 (mem s) (slot p i)"
    using a pt_invD [OF assms(1) a(4)] by (intro read64_page_cong assms(2)) auto
qed

lemma pte_of_frame:
  assumes "pt_inv s root ps" "\<And>p x. p \<in> tables (mem s) root \<Longrightarrow> x \<in> page p \<Longrightarrow> m' x = mem s x"
  shows "pte_of m' root va = pte_of (mem s) root va"
proof -
  have t: "tab m' root [PX 2 va, PX 1 va] = tab (mem s) root [PX 2 va, PX 1 va]"
    by (rule tab_frame [OF assms]) auto
  show ?thesis
  proof (cases "tab (mem s) root [PX 2 va, PX 1 va]")
    case (Some q)
    then have "q \<in> tables (mem s) root" "page_aligned q"
      using pt_invD [OF assms(1) Some] tables_tab [OF Some] by simp_all
    then have "read64 m' (slot q (PX 0 va)) = read64 (mem s) (slot q (PX 0 va))"
      by (intro read64_page_cong assms(2)) auto
    with t Some show ?thesis by (simp add: pte_of_def)
  qed (use t in \<open>simp add: pte_of_def\<close>)
qed

lemma pt_inv_frame:
  assumes "pt_inv s root ps" "\<And>p x. p \<in> tables (mem s) root \<Longrightarrow> x \<in> page p \<Longrightarrow> mem t x = mem s x"
    "sym_end t = sym_end s" "set qs \<inter> tables (mem s) root = {}"
  shows "pt_inv t root qs"
proof -
  have tab: "tab (mem t) root js = tab (mem s) root js" if "length js \<le> 2" "idxs js" for js
    by (rule tab_frame [OF assms(1,2) that])
  then have tt: "tables (mem t) root = tables (mem s) root" by (rule tables_cong)
  show ?thesis
    unfolding pt_inv_def tt
    using assms(1,3,4) tab pt_inv_inj [OF assms(1)] by (auto simp: pt_inv_def phys_page_def)
qed

text \<open>Storing a leaf entry changes no table, and the entry of one page only.\<close>

lemma slot_store_other:
  assumes "page_aligned p" "page_aligned q" "unat i < 512" "unat j < 512" "p \<noteq> q \<or> i \<noteq> j"
  shows "read64 (write64 m (slot p i) v) (slot q j) = read64 m (slot q j)"
  using assms by (intro read64_write64_other slot_aligned) (auto simp: slot_inj)

lemma tab_leaf_store:
  assumes "pt_inv s root ps" "tab (mem s) root [a, b] = Some t" "unat a < 512" "unat b < 512" "unat i < 512"
    "length js \<le> 2" "idxs js"
  shows "tab (write64 (mem s) (slot t i) v) root js = tab (mem s) root js"
proof (rule tab_cong [OF _ assms(6,7)])
  fix "is" p j assume a: "length is \<le> 1" "idxs is" "unat (j :: uint64) < 512" "tab (mem s) root is = Some p"
  have "p \<noteq> t"
    using pt_inv_inj [OF assms(1) a(4), of "[a, b]"] a(1,2) assms(2-4) by auto
  then show "read64 (write64 (mem s) (slot t i) v) (slot p j) = read64 (mem s) (slot p j)"
    using pt_invD(1) [OF assms(1,2)] pt_invD(1) [OF assms(1) a(4)] a assms(3-5)
    by (intro slot_store_other) auto
qed

lemma pte_of_leaf_store:
  assumes inv: "pt_inv s root ps" and t: "tab (mem s) root [PX 2 va, PX 1 va] = Some t"
    and "va < MAXVA" "wa < MAXVA"
  shows "pte_of (write64 (mem s) (slot t (PX 0 va)) v) root wa =
    (if PGROUNDDOWN wa = PGROUNDDOWN va then v else pte_of (mem s) root wa)"
proof -
  let ?m = "write64 (mem s) (slot t (PX 0 va)) v"
  have tw: "tab ?m root [PX 2 wa, PX 1 wa] = tab (mem s) root [PX 2 wa, PX 1 wa]"
    by (rule tab_leaf_store [OF inv t]) auto
  have same: "PGROUNDDOWN wa = PGROUNDDOWN va \<longleftrightarrow> PX 2 wa = PX 2 va \<and> PX 1 wa = PX 1 va \<and> PX 0 wa = PX 0 va"
    using PX_pages [OF assms(4,3)] by blast
  show ?thesis
  proof (cases "tab (mem s) root [PX 2 wa, PX 1 wa]")
    case None
    then have "PGROUNDDOWN wa \<noteq> PGROUNDDOWN va" using t same by auto
    then show ?thesis using tw None by (simp add: pte_of_def)
  next
    case (Some q)
    have al: "page_aligned t" "page_aligned q"
      using pt_invD(1) [OF inv t] pt_invD(1) [OF inv Some] by auto
    have "q = t \<longleftrightarrow> PX 2 wa = PX 2 va \<and> PX 1 wa = PX 1 va"
      using pt_inv_inj [OF inv Some, of "[PX 2 va, PX 1 va]"] t Some by auto
    then show ?thesis
      using tw Some same al by (auto simp: pte_of_def slot_store_other)
  qed
qed

text \<open>Linking a fresh zeroed page below an invalid entry adds exactly that table.\<close>

lemma pte_link: "page_aligned q \<Longrightarrow> (PA2PTE q OR PTE_V) AND PTE_V \<noteq> 0" "page_aligned q \<Longrightarrow> PTE2PA (PA2PTE q OR PTE_V) = q"
proof -
  show "(PA2PTE q OR PTE_V) AND PTE_V \<noteq> 0"
    by (simp add: const_vals bit.conj_disj_distrib2)
qed (simp add: PTE_pack const_vals)

lemma tab_link:
  assumes inv: "pt_inv s root ps" and t: "tab (mem s) root is = Some p" "length is \<le> 1" "idxs is" "unat i < 512"
    and e: "read64 (mem s) (slot p i) AND PTE_V = 0"
    and q: "page_aligned q" "q \<notin> tables (mem s) root" "\<forall>x\<in>page q. mem s x = 0"
    and js: "length js \<le> 2" "idxs js"
  shows "tab (write64 (mem s) (slot p i) (PA2PTE q OR PTE_V)) root js =
    (if js = is @ [i] then Some q else tab (mem s) root js)"
  using js
proof (induction js rule: rev_induct)
  case (snoc j js)
  let ?m = "write64 (mem s) (slot p i) (PA2PTE q OR PTE_V)"
  have al: "page_aligned p" using pt_invD(1) [OF inv t(1)] t by auto
  have pq: "p \<noteq> q" using tables_tab [OF t(1)] t q(2) by auto
  have IH: "tab ?m root js = (if js = is @ [i] then Some q else tab (mem s) root js)"
    using snoc by simp
  show ?case
  proof (cases "js = is @ [i]")
    case True
    have "read64 (mem s) (slot q j) = 0"
      using slot_in_page [OF q(1)] snoc.prems q(3) by (intro read64_zero) auto
    moreover have "read64 ?m (slot q j) = read64 (mem s) (slot q j)"
      using snoc.prems t(4) al q(1) pq by (intro slot_store_other) auto
    moreover have "tab (mem s) root js = None"
      using t(1) e True by (simp add: tab_snoc)
    moreover have "tab ?m root js = Some q" "js @ [j] \<noteq> is @ [i]" using IH True by simp_all
    ultimately show ?thesis by (simp add: tab_snoc)
  next
    case False
    show ?thesis
    proof (cases "tab (mem s) root js")
      case (Some r)
      have "page_aligned r" using pt_invD(1) [OF inv Some] snoc.prems by simp
      moreover have "r = p \<longleftrightarrow> js = is"
        using pt_inv_inj [OF inv Some, of "is"] t snoc.prems Some by auto
      ultimately show ?thesis
        using IH False Some al snoc.prems t(4) pte_link [OF q(1)]
        by (cases "js = is \<and> j = i") (auto simp: tab_snoc slot_store_other)
    qed (use IH False t in \<open>auto simp: tab_snoc\<close>)
  qed
qed auto

section \<open>Growing a page table\<close>

text \<open>
  \<open>kstep s t\<close>: only memory, the free list and the recorded interrupt flag of the hart may differ.
  \<open>pt_grow s root ps t qs\<close>: from free list \<open>ps\<close> to \<open>qs\<close>, every table of the tree is kept, new tables come
  from the free list, and bytes outside the tables and the free pages are untouched.
\<close>

definition kstep :: "'z kmem_scheme \<Rightarrow> 'z kmem_scheme \<Rightarrow> bool" where
  "kstep s t \<longleftrightarrow> (\<exists>y m f. (y = sync s \<or> y = quiet (sync s)) \<and> t = s\<lparr>sync := y, mem := m, freelist := f\<rparr>)"

definition pt_grow :: "'z kmem_scheme \<Rightarrow> addr \<Rightarrow> addr list \<Rightarrow> 'z kmem_scheme \<Rightarrow> addr list \<Rightarrow> bool" where
  "pt_grow s root ps t qs \<longleftrightarrow> kstep s t \<and> kmem_ready t qs \<and> pt_inv t root qs \<and> (\<exists>k. qs = drop k ps) \<and>
     (\<forall>js p. length js \<le> 2 \<longrightarrow> idxs js \<longrightarrow> tab (mem s) root js = Some p \<longrightarrow> tab (mem t) root js = Some p) \<and>
     tables (mem t) root \<subseteq> tables (mem s) root \<union> set ps \<and>
     (\<forall>x. (\<forall>p \<in> tables (mem s) root \<union> set ps. x \<notin> page p) \<longrightarrow> mem t x = mem s x)"

lemma kmem_upd_order [simp]: "(s :: 'z kmem_scheme)\<lparr>freelist := f, mem := m\<rparr> = s\<lparr>mem := m, freelist := f\<rparr>"
  by simp

lemma kstep_intro:
  "kstep s (s\<lparr>mem := m\<rparr>)" "kstep s (s\<lparr>sync := quiet (sync s), mem := m, freelist := f\<rparr>)"
  "kstep s (s\<lparr>sync := quiet (sync s)\<rparr>)" "kstep s s"
proof -
  have "s\<lparr>mem := m\<rparr> = s\<lparr>sync := sync s, mem := m, freelist := freelist s\<rparr>"
    "s\<lparr>sync := quiet (sync s)\<rparr> = s\<lparr>sync := quiet (sync s), mem := mem s, freelist := freelist s\<rparr>"
    "s = s\<lparr>sync := sync s, mem := mem s, freelist := freelist s\<rparr>" by simp_all
  then show "kstep s (s\<lparr>mem := m\<rparr>)" "kstep s (s\<lparr>sync := quiet (sync s), mem := m, freelist := f\<rparr>)"
    "kstep s (s\<lparr>sync := quiet (sync s)\<rparr>)" "kstep s s"
    unfolding kstep_def by blast+
qed

lemma kstep_trans: "kstep s t \<Longrightarrow> kstep t u \<Longrightarrow> kstep s u"
proof -
  assume "kstep s t" "kstep t u"
  then obtain y m f y' m' f' where a: "y = sync s \<or> y = quiet (sync s)" "t = s\<lparr>sync := y, mem := m, freelist := f\<rparr>"
    "y' = sync t \<or> y' = quiet (sync t)" "u = t\<lparr>sync := y', mem := m', freelist := f'\<rparr>"
    unfolding kstep_def by blast
  then have "y' = sync s \<or> y' = quiet (sync s)" "u = s\<lparr>sync := y', mem := m', freelist := f'\<rparr>" by auto
  then show ?thesis unfolding kstep_def by blast
qed

lemma kstepD:
  assumes "kstep s t"
  shows "sym_end t = sym_end s" "sym_etext t = sym_etext s" "sym_trampoline t = sym_trampoline s"
    "sync_ok (sync t) = sync_ok (sync s)" "lock_free l (sync t) = lock_free l (sync s)"
    "lock_held l (sync t) = lock_held l (sync s)" "quiet (sync t) = quiet (sync s)" "phys_page t = phys_page s"
    "kmem.more t = kmem.more s"
  using assms by (auto simp: kstep_def phys_page_def fun_eq_iff)

lemma pt_grow_refl: "kmem_ready s ps \<Longrightarrow> pt_inv s root ps \<Longrightarrow> pt_grow s root ps s ps"
  unfolding pt_grow_def using kstep_intro(4) [of s] drop_0 [of ps] by (metis Un_upper1)

lemma pt_grow_sub:
  "pt_grow s root ps t qs \<Longrightarrow> tables (mem t) root \<union> set qs \<subseteq> tables (mem s) root \<union> set ps"
  unfolding pt_grow_def using set_drop_subset by fastforce

lemma pt_grow_trans:
  assumes a: "pt_grow s root ps t qs" and b: "pt_grow t root qs u rs"
  shows "pt_grow s root ps u rs"
proof -
  have "kstep s u" using a b kstep_trans unfolding pt_grow_def by blast
  moreover have "\<exists>k. rs = drop k ps" using a b unfolding pt_grow_def by (metis drop_drop)
  moreover have "tables (mem u) root \<subseteq> tables (mem s) root \<union> set ps"
    using pt_grow_sub [OF a] b unfolding pt_grow_def by blast
  moreover have "mem u x = mem s x" if "\<forall>p \<in> tables (mem s) root \<union> set ps. x \<notin> page p" for x
  proof -
    have "\<forall>p \<in> tables (mem t) root \<union> set qs. x \<notin> page p" using that pt_grow_sub [OF a] by blast
    then show ?thesis using a b that unfolding pt_grow_def by metis
  qed
  ultimately show ?thesis using a b unfolding pt_grow_def by simp
qed

lemma kmem_ready_frame:
  assumes "kmem_ready s ps" "kstep s t" "freelist t = freelist s" "\<And>q x. q \<in> set ps \<Longrightarrow> x \<in> page q \<Longrightarrow> mem t x = mem s x"
  shows "kmem_ready t ps"
  using assms kmem_inv_frame [of s ps t] by (auto simp: kmem_ready_def kstepD)

text \<open>Taking the first free page and filling it in any way leaves a page table alone.\<close>

lemma free_page_apart:
  assumes "kmem_ready s (q # qs)" "pt_inv s root (q # qs)" "r \<in> tables (mem s) root \<or> r \<in> set qs"
  shows "page r \<inter> page q = {}"
proof (rule page_disjoint)
  show "page_aligned r" "page_aligned q" "r \<noteq> q"
    using assms by (auto simp: pt_inv_def kmem_ready_def kmem_inv_def phys_page_def)
qed

lemma take_page:
  assumes ready: "kmem_ready s (q # qs)" and inv: "pt_inv s root (q # qs)"
    and out: "\<forall>x. x \<notin> page q \<longrightarrow> m' x = mem s x"
  defines "t \<equiv> s\<lparr>sync := quiet (sync s), mem := m', freelist := read64 (mem s) q\<rparr>"
  shows "kmem_ready t qs" "pt_inv t root (q # qs)" "tables (mem t) root = tables (mem s) root"
    "\<And>js. length js \<le> 2 \<Longrightarrow> idxs js \<Longrightarrow> tab (mem t) root js = tab (mem s) root js"
    "\<And>va. pte_of (mem t) root va = pte_of (mem s) root va"
proof -
  have apart: "mem t x = mem s x" if "r \<in> tables (mem s) root \<or> r \<in> set qs" "x \<in> page r" for r x
    using free_page_apart [OF ready inv that(1)] that(2) out by (auto simp: t_def)
  let ?k = "s\<lparr>sync := quiet (sync s), mem := memset (mem s) q 5 4096, freelist := read64 (mem s) q\<rparr>"
  have "kmem_inv ?k qs" using ready kmem_inv_tl by (auto simp: kmem_ready_def)
  then have "kmem_inv t qs"
  proof (rule kmem_inv_frame)
    fix r x assume "r \<in> set qs" "x \<in> page r"
    moreover from this have "x \<notin> page q" using free_page_apart [OF ready inv, of r] by blast
    ultimately show "mem t x = mem ?k x" using apart [of r x] by (simp add: memset_page_outside)
  qed (simp_all add: t_def)
  then show "kmem_ready t qs" using ready by (simp add: kmem_ready_def t_def)
  show "pt_inv t root (q # qs)"
    by (rule pt_inv_frame [OF inv]) (use apart inv in \<open>auto simp: t_def pt_inv_def\<close>)
  show tab: "tab (mem t) root js = tab (mem s) root js" if "length js \<le> 2" "idxs js" for js
    by (rule tab_frame [OF inv _ that]) (use apart in auto)
  show "tables (mem t) root = tables (mem s) root" by (rule tables_cong [OF tab])
  show "pte_of (mem t) root va = pte_of (mem s) root va" for va
    by (rule pte_of_frame [OF inv]) (use apart in auto)
qed

text \<open>Storing in a table page keeps the free list.\<close>

lemma kmem_ready_store:
  assumes "kmem_ready s ps" "page_aligned p" "p \<notin> set ps" "unat i < 512"
  shows "kmem_ready (s\<lparr>mem := write64 (mem s) (slot p i) v\<rparr>) ps"
proof (rule kmem_ready_frame [OF assms(1) kstep_intro(1)])
  fix r x assume r: "r \<in> set ps" "x \<in> page r"
  then have "page r \<inter> page p = {}"
    using assms(1-3) by (intro page_disjoint) (auto simp: kmem_ready_def kmem_inv_def phys_page_def)
  then have "x \<notin> span (slot p i) 8" using r(2) slot_in_page [OF assms(2,4)] by blast
  then show "mem (s\<lparr>mem := write64 (mem s) (slot p i) v\<rparr>) x = mem s x" by (simp add: write64_outside)
qed simp

text \<open>Linking the page \<open>q\<close>, zeroed and no longer free, below the table \<open>p\<close>.\<close>

lemma link_tables:
  assumes inv: "pt_inv s root (q # qs)" and dist: "q \<notin> set qs" "phys_page s q"
    and t: "tab (mem s) root is = Some p" "length is \<le> 1" "idxs is" "unat i < 512"
    and e: "read64 (mem s) (slot p i) AND PTE_V = 0" and zero: "\<forall>x\<in>page q. mem s x = 0"
  defines "u \<equiv> s\<lparr>mem := write64 (mem s) (slot p i) (PA2PTE q OR PTE_V)\<rparr>"
  shows "pt_inv u root qs"
    and "\<And>js. length js \<le> 2 \<Longrightarrow> idxs js \<Longrightarrow> tab (mem u) root js = (if js = is @ [i] then Some q else tab (mem s) root js)"
proof -
  have qt: "q \<notin> tables (mem s) root" and qal: "page_aligned q" using inv dist(2) by (auto simp: pt_inv_def phys_page_def)
  show link: "tab (mem u) root js = (if js = is @ [i] then Some q else tab (mem s) root js)"
    if "length js \<le> 2" "idxs js" for js
    using tab_link [OF inv t e qal qt zero that] by (simp add: u_def)
  have sub: "tables (mem u) root \<subseteq> insert q (tables (mem s) root)"
    by (auto simp: tables_def link split: if_splits)
  show "pt_inv u root qs"
    unfolding pt_inv_def
  proof (intro conjI ballI allI impI)
    fix r assume "r \<in> tables (mem u) root"
    then have "r = q \<or> r \<in> tables (mem s) root" using sub by blast
    then show "phys_page u r" "r \<notin> set qs"
      using inv dist by (auto simp: pt_inv_def phys_page_def u_def)
  next
    fix js ks r assume a: "length js \<le> 2" "length ks \<le> 2" "idxs js" "idxs ks"
      "tab (mem u) root js = Some r" "tab (mem u) root ks = Some r"
    have "r \<noteq> q" if "tab (mem s) root ls = Some r" "length ls \<le> 2" "idxs ls" for ls
      using tables_tab [OF that] qt by blast
    then show "js = ks"
      using a link pt_inv_inj [OF inv, of js r ks] by (auto split: if_splits)
  qed
qed

lemma link_pte_of:
  assumes inv: "pt_inv s root (q # qs)" and q: "phys_page s q" "q \<notin> set qs"
    and t: "tab (mem s) root is = Some p" "length is \<le> 1" "idxs is" "unat i < 512"
    and e: "read64 (mem s) (slot p i) AND PTE_V = 0" and zero: "\<forall>x\<in>page q. mem s x = 0"
  defines "m' \<equiv> write64 (mem s) (slot p i) (PA2PTE q OR PTE_V)"
  shows "pte_of m' root wa = pte_of (mem s) root wa"
proof -
  have link: "tab m' root [PX 2 wa, PX 1 wa] =
      (if [PX 2 wa, PX 1 wa] = is @ [i] then Some q else tab (mem s) root [PX 2 wa, PX 1 wa])"
    using link_tables(2) [OF inv q(2,1) t e zero, of "[PX 2 wa, PX 1 wa]"] by (simp add: m'_def)
  have p: "page_aligned p" "p \<noteq> q" using pt_invD [OF inv t(1)] t by auto
  have qal: "page_aligned q" using q(1) by (simp add: phys_page_def)
  have rd: "read64 m' (slot r (PX 0 wa)) = read64 (mem s) (slot r (PX 0 wa))" if "page_aligned r" "r \<noteq> p" for r
    unfolding m'_def using p that t(4) by (intro slot_store_other) auto
  show ?thesis
  proof (cases "[PX 2 wa, PX 1 wa] = is @ [i]")
    case True
    have none: "tab (mem s) root [PX 2 wa, PX 1 wa] = None" using t(1) e by (simp only: True) (simp add: tab_snoc)
    have "read64 (mem s) (slot q (PX 0 wa)) = 0"
      using slot_in_page [OF qal PX_idx] zero by (intro read64_zero) blast
    then have "read64 m' (slot q (PX 0 wa)) = 0" using rd [OF qal] p(2) by simp
    then show ?thesis using link True none by (simp add: pte_of_def)
  next
    case False
    have "page_aligned r \<and> r \<noteq> p" if "tab (mem s) root [PX 2 wa, PX 1 wa] = Some r" for r
      using pt_invD(1) [OF inv that] pt_inv_inj [OF inv that, of "is"] t by auto
    then show ?thesis using link False rd by (auto simp: pte_of_def split: option.split)
  qed
qed

text \<open>One step of the allocating walk.\<close>

lemma link_page:
  assumes ready: "kmem_ready s (q # qs)" and inv: "pt_inv s root (q # qs)"
    and t: "tab (mem s) root is = Some p" "length is \<le> 1" "idxs is" "unat i < 512"
    and e: "read64 (mem s) (slot p i) AND PTE_V = 0"
  defines "m2 \<equiv> memset (memset (mem s) q 5 4096) q 0 4096"
  defines "u \<equiv> s\<lparr>sync := quiet (sync s), mem := write64 m2 (slot p i) (PA2PTE q OR PTE_V), freelist := read64 (mem s) q\<rparr>"
  shows "pt_grow s root (q # qs) u qs" "tab (mem u) root (is @ [i]) = Some q"
    "\<And>wa. pte_of (mem u) root wa = pte_of (mem s) root wa"
proof -
  define s2 where "s2 = s\<lparr>sync := quiet (sync s), mem := m2, freelist := read64 (mem s) q\<rparr>"
  have q: "q \<notin> set qs" "phys_page s2 q"
    using ready by (auto simp: kmem_ready_def kmem_inv_def s2_def phys_page_def)
  have out: "\<forall>x. x \<notin> page q \<longrightarrow> m2 x = mem s x" by (simp add: m2_def memset_page_outside)
  have zero: "\<forall>x\<in>page q. mem s2 x = 0" by (simp add: s2_def m2_def memset_page_inside)
  note tk = take_page [OF ready inv out, folded s2_def]
  have pt: "page_aligned p" "p \<notin> set (q # qs)" "p \<in> tables (mem s) root"
    using pt_invD [OF inv t(1)] t tables_tab [OF t(1)] by auto
  have tp: "tab (mem s2) root is = Some p" using tk(4) [of "is"] t by simp
  have "x \<notin> page q" if "x \<in> page p" for x using free_page_apart [OF ready inv, of p] pt that by blast
  then have e2: "read64 (mem s2) (slot p i) AND PTE_V = 0"
    using e pt t(4) out by (subst read64_page_cong [of _ _ _ "mem s"]) (auto simp: s2_def)
  have u: "u = s2\<lparr>mem := write64 (mem s2) (slot p i) (PA2PTE q OR PTE_V)\<rparr>" by (simp add: u_def s2_def)
  note link = link_tables [OF tk(2) q tp t(2-4) e2 zero, folded u]
  have sub: "tables (mem u) root \<subseteq> tables (mem s) root \<union> set (q # qs)"
    using tk(3) by (auto simp: tables_def link(2) split: if_splits)
  have frame: "mem u x = mem s x" if "\<forall>p \<in> tables (mem s) root \<union> set (q # qs). x \<notin> page p" for x
  proof -
    have "x \<notin> span (slot p i) 8" using that pt slot_in_page [OF pt(1) t(4)] by blast
    then show ?thesis using that out by (simp add: u s2_def write64_outside)
  qed
  have keep: "tab (mem u) root js = Some r" if "length js \<le> 2" "idxs js" "tab (mem s) root js = Some r" for js r
    using link(2) [OF that(1,2)] tk(4) [OF that(1,2)] that(3) t(1) e by (auto simp: tab_snoc split: if_splits)
  have "kmem_ready u qs" unfolding u using kmem_ready_store [OF tk(1)] pt t(4) by simp
  moreover have "kstep s u" unfolding u_def by (rule kstep_intro)
  moreover have "\<exists>k. qs = drop k (q # qs)" by (rule exI [of _ 1]) simp
  ultimately show "pt_grow s root (q # qs) u qs"
    unfolding pt_grow_def using link(1) sub frame keep by blast
  show "tab (mem u) root (is @ [i]) = Some q" using link(2) t by simp
  show "pte_of (mem u) root wa = pte_of (mem s) root wa" for wa
    using link_pte_of [OF tk(2) q(2,1) tp t(2-4) e2 zero] tk(5) by (simp add: u)
qed

section \<open>What the walk returns\<close>

definition pte_addr :: "mem \<Rightarrow> addr \<Rightarrow> addr \<Rightarrow> addr" where
  "pte_addr m root va =
     (case tab m root [PX 2 va, PX 1 va] of None \<Rightarrow> 0 | Some t \<Rightarrow> slot t (PX 0 va))"

text \<open>Without allocation the walk is a pure lookup.\<close>

lemma walk_lookup: "va < MAXVA \<Longrightarrow> walk root va False s = Ok (pte_addr (mem s) root va) s"
  by (simp add: walk_def numeral_2_eq_2 pte_addr_def tab.simps Let_def not_le bnd_def)

lemma slot_nonzero: "phys_page s p \<Longrightarrow> 0 < sym_end s \<Longrightarrow> unat i < 512 \<Longrightarrow> slot p i \<noteq> 0"
  by (auto simp: phys_page_def word_unat_eq_iff unat_slot word_le_nat_alt word_less_nat_alt)

lemma pte_addr_tab:
  assumes "pt_inv s root ps" "0 < sym_end s"
  shows "pte_addr (mem s) root va \<noteq> 0 \<longleftrightarrow> (\<exists>t. tab (mem s) root [PX 2 va, PX 1 va] = Some t)"
proof (cases "tab (mem s) root [PX 2 va, PX 1 va]")
  case (Some t)
  then show ?thesis using pt_invD(2) [OF assms(1) Some] slot_nonzero [OF _ assms(2)] by (simp add: pte_addr_def)
qed (simp add: pte_addr_def)

lemma read_pte_addr:
  "pt_inv s root ps \<Longrightarrow> 0 < sym_end s \<Longrightarrow> pte_addr (mem s) root va \<noteq> 0 \<Longrightarrow>
    read64 (mem s) (pte_addr (mem s) root va) = pte_of (mem s) root va"
  using pte_addr_tab [of s root ps va] by (auto simp: pte_addr_def pte_of_def)

lemma kmem_ready_end: "kmem_ready s ps \<Longrightarrow> 0 < sym_end s"
  by (simp add: kmem_ready_def kmem_inv_def)

fun px_path :: "nat \<Rightarrow> addr \<Rightarrow> uint64 list" where
  "px_path 0 va = []"
| "px_path (Suc l) va = PX (Suc l) va # px_path l va"

lemma wp_link_page:
  assumes "kmem_ready s ps" "pt_inv s root ps" "tab (mem s) root is = Some p" "length is \<le> 1" "idxs is"
    "unat i < 512" "read64 (mem s) (slot p i) AND PTE_V = 0"
    and none: "\<And>t. ps = [] \<Longrightarrow> pt_grow s root [] t [] \<Longrightarrow> (\<And>wa. pte_of (mem t) root wa = pte_of (mem s) root wa) \<Longrightarrow> Q 0 t"
    and some: "\<And>q qs t. ps = q # qs \<Longrightarrow> q \<noteq> 0 \<Longrightarrow> pt_grow s root ps t qs \<Longrightarrow> tab (mem t) root (is @ [i]) = Some q \<Longrightarrow>
      (\<And>wa. pte_of (mem t) root wa = pte_of (mem s) root wa) \<Longrightarrow> wp (f q) Q t"
  shows "wp (bnd kalloc (\<lambda>q. if q = 0 then ret 0 else seq (memsetM q 0 4096) (
    seq (store64 (slot p i) (PA2PTE q OR PTE_V)) (f q)))) Q s"
proof (cases ps)
  case Nil
  have "Q 0 (s\<lparr>sync := quiet (sync s)\<rparr>)"
  proof (rule none [OF Nil])
    have "kmem_ready (s\<lparr>sync := quiet (sync s)\<rparr>) []"
      using assms(1) Nil by (simp add: kmem_ready_def kmem_inv_def)
    then show "pt_grow s root [] (s\<lparr>sync := quiet (sync s)\<rparr>) []"
      using assms(2) Nil kstep_intro(3) [of s] by (auto simp: pt_grow_def pt_inv_def)
  qed simp
  then show ?thesis using assms(1) Nil by (simp add: wp_def kalloc_none_run bnd_def)
next
  case (Cons q qs)
  let ?t = "s\<lparr>sync := quiet (sync s), mem := write64 (memset (memset (mem s) q 5 4096) q 0 4096) (slot p i)
    (PA2PTE q OR PTE_V), freelist := read64 (mem s) q\<rparr>"
  have q0: "q \<noteq> 0" using assms(1) Cons by (auto simp: kmem_ready_def kmem_inv_def)
  have "wp (f q) Q ?t"
    by (rule some [OF Cons q0]) (use link_page [of s q qs root "is" p i] assms(1-7) Cons in auto)
  then show ?thesis using assms(1) Cons q0 by (simp add: wp_def kalloc_some_run bnd_def seq_def)
qed

lemma wp_walk_absent:
  "read64 (mem s) (slot p (PX (Suc l) va)) AND PTE_V = 0 \<Longrightarrow>
    wp (walk_loop (Suc l) p va True) Q s = wp (bnd kalloc (\<lambda>q. if q = 0 then ret 0 else seq (memsetM q 0 4096) (
      seq (store64 (slot p (PX (Suc l) va)) (PA2PTE q OR PTE_V)) (walk_loop l q va True)))) Q s"
  by (rule wp_run_cong) simp

lemma wp_walk_present:
  "read64 (mem s) (slot p (PX (Suc l) va)) AND PTE_V \<noteq> 0 \<Longrightarrow>
    wp (walk_loop (Suc l) p va alloc) Q s = wp (walk_loop l (PTE2PA (read64 (mem s) (slot p (PX (Suc l) va)))) va alloc) Q s"
  by (rule wp_run_cong) simp

lemma walk_loop_grow:
  assumes "kmem_ready s ps" "pt_inv s root ps" "tab (mem s) root is = Some p" "length is + l = 2" "idxs is"
  shows "wp (walk_loop l p va True) (\<lambda>r t. \<exists>qs. pt_grow s root ps t qs \<and>
    (\<forall>wa. pte_of (mem t) root wa = pte_of (mem s) root wa) \<and>
    (if r = 0 then qs = [] else \<exists>q. tab (mem t) root (is @ px_path l va) = Some q \<and> r = slot q (PX 0 va))) s"
  using assms
proof (induction l arbitrary: s ps p "is")
  case 0
  then have "slot p (PX 0 va) \<noteq> 0"
    using pt_invD(2) [OF "0.prems"(2,3)] kmem_ready_end by (intro slot_nonzero [of s]) auto
  then show ?case using 0 pt_grow_refl [of s ps root] by (auto simp: wp_simps)
next
  case (Suc l)
  let ?i = "PX (Suc l) va" and ?Q = "\<lambda>s ps is l r t. \<exists>qs. pt_grow s root ps t qs \<and>
    (\<forall>wa. pte_of (mem t) root wa = pte_of (mem s) root wa) \<and>
    (if r = 0 then qs = [] else \<exists>q. tab (mem t) root (is @ px_path l va) = Some q \<and> r = slot q (PX 0 va))"
  have len: "length is \<le> 1" "length (is @ [?i]) + l = 2" "idxs (is @ [?i])" using Suc.prems by auto
  show ?case
  proof (cases "read64 (mem s) (slot p ?i) AND PTE_V = 0")
    case True
    show ?thesis
      unfolding wp_walk_absent [OF True]
    proof (rule wp_link_page [OF Suc.prems(1-3) len(1) Suc.prems(5) PX_idx True])
      fix t assume "ps = []" "pt_grow s root [] t []" "\<And>wa. pte_of (mem t) root wa = pte_of (mem s) root wa"
      then show "?Q s ps is (Suc l) 0 t" by auto
    next
      fix q qs t assume g: "pt_grow s root ps t qs" "tab (mem t) root (is @ [?i]) = Some q"
        "\<And>wa. pte_of (mem t) root wa = pte_of (mem s) root wa"
      have "wp (walk_loop l q va True) (?Q t qs (is @ [?i]) l) t"
        using g len by (intro Suc.IH) (auto simp: pt_grow_def)
      then show "wp (walk_loop l q va True) (?Q s ps is (Suc l)) t"
        by (rule wp_mono) (use g pt_grow_trans [OF g(1)] in \<open>auto split: if_splits\<close>)
    qed
  next
    case False
    then have "tab (mem s) root (is @ [?i]) = Some (PTE2PA (read64 (mem s) (slot p ?i)))"
      using Suc.prems(3) by (simp add: tab_snoc)
    from Suc.IH [OF Suc.prems(1,2) this len(2,3)] show ?thesis
      unfolding wp_walk_present [OF False] by (simp only: px_path.simps append_assoc append_Cons append_Nil)
  qed
qed

lemma wp_walk_alloc:
  assumes "kmem_ready s ps" "pt_inv s root ps" "va < MAXVA"
    and "\<And>r t qs. pt_grow s root ps t qs \<Longrightarrow> (\<And>wa. pte_of (mem t) root wa = pte_of (mem s) root wa) \<Longrightarrow>
      r = pte_addr (mem t) root va \<or> r = 0 \<and> qs = [] \<Longrightarrow> r = 0 \<or> (\<exists>q. tab (mem t) root [PX 2 va, PX 1 va] = Some q) \<Longrightarrow>
      (r = 0 \<Longrightarrow> qs = []) \<Longrightarrow> Q r t"
  shows "wp (walk root va True) Q s"
proof -
  have "wp (walk_loop 2 root va True) Q s"
    by (rule wp_mono [OF walk_loop_grow [OF assms(1,2), of "[]"]])
      (auto simp: numeral_2_eq_2 pte_addr_def split: if_splits intro!: assms(4))
  then show ?thesis using assms(3) by (simp add: walk_def not_le [symmetric])
qed

section \<open>What mappages does\<close>

definition in_pages :: "addr \<Rightarrow> nat \<Rightarrow> addr \<Rightarrow> bool" where
  "in_pages va k wa \<longleftrightarrow> unat va \<le> unat wa \<and> unat wa < unat va + k * 4096"

text \<open>The leaf entries after mapping \<open>k\<close> pages at \<open>va\<close> to the physical range at \<open>pa\<close>.\<close>

definition mapped :: "addr \<Rightarrow> nat \<Rightarrow> addr \<Rightarrow> uint64 \<Rightarrow> (addr \<Rightarrow> uint64) \<Rightarrow> addr \<Rightarrow> uint64" where
  "mapped va k pa perm f wa =
     (if in_pages va k wa then PA2PTE (pa + (PGROUNDDOWN wa - va)) OR perm OR PTE_V else f wa)"

lemma same_page_iff: "page_aligned va \<Longrightarrow> PGROUNDDOWN wa = va \<longleftrightarrow> in_pages va 1 wa"
proof -
  assume "page_aligned va"
  then obtain q where q: "unat va = q * 4096" by (auto simp: page_aligned_iff)
  have "PGROUNDDOWN wa = va \<longleftrightarrow> unat wa div 4096 = q" using q by (simp add: word_unat_eq_iff unat_PGROUNDDOWN)
  also have "\<dots> \<longleftrightarrow> q * 4096 \<le> unat wa \<and> unat wa < q * 4096 + 4096"
    by (metis add.commute div_nat_eqI dividend_less_div_times div_times_less_eq_dividend mult.commute mult_Suc zero_less_numeral)
  finally show ?thesis using q by (simp add: in_pages_def)
qed

lemma in_pages_Suc:
  assumes "page_aligned va" "unat (va + 4096) = unat va + 4096"
  shows "in_pages va (Suc k) wa \<longleftrightarrow> PGROUNDDOWN wa = va \<or> in_pages (va + 4096) k wa"
  unfolding same_page_iff [OF assms(1)] using assms(2) by (auto simp: in_pages_def)

lemma in_pages_Suc_apart:
  assumes "page_aligned va" "unat (va + 4096) = unat va + 4096" "PGROUNDDOWN wa = va"
  shows "\<not> in_pages (va + 4096) k wa"
  using assms(2) assms(3) [unfolded same_page_iff [OF assms(1)]] by (simp add: in_pages_def)

lemma in_pages_0 [simp]: "\<not> in_pages va 0 wa"
  by (simp add: in_pages_def)

lemma mapped_Suc:
  assumes "page_aligned va" "unat (va + 4096) = unat va + 4096"
    "g wa = (if PGROUNDDOWN wa = va then PA2PTE pa OR perm OR PTE_V else f wa)"
  shows "mapped (va + 4096) k (pa + 4096) perm g wa = mapped va (Suc k) pa perm f wa"
  using in_pages_Suc_apart [OF assms(1,2)] assms(3)
  by (auto simp: mapped_def in_pages_Suc [OF assms(1,2)] algebra_simps)

lemma leaf_store_grow:
  assumes "kmem_ready s ps" "pt_inv s root ps" "tab (mem s) root [PX 2 va, PX 1 va] = Some q"
  shows "pt_grow s root ps (s\<lparr>mem := write64 (mem s) (slot q (PX 0 va)) v\<rparr>) ps" (is "pt_grow _ _ _ ?t _")
proof -
  have q: "page_aligned q" "q \<notin> set ps" "q \<in> tables (mem s) root"
    using pt_invD [OF assms(2,3)] tables_tab [OF assms(3)] by auto
  have tab: "tab (mem ?t) root js = tab (mem s) root js" if "length js \<le> 2" "idxs js" for js
    using tab_leaf_store [OF assms(2,3) _ _ _ that] by simp
  then have tt: "tables (mem ?t) root = tables (mem s) root" by (rule tables_cong)
  have "pt_inv ?t root ps"
    unfolding pt_inv_def tt using assms(2) tab pt_inv_inj [OF assms(2)] by (auto simp: pt_inv_def phys_page_def)
  moreover have "mem ?t x = mem s x" if "\<forall>p \<in> tables (mem s) root \<union> set ps. x \<notin> page p" for x
    using that q slot_in_page [OF q(1) PX_idx] by (auto intro!: write64_outside)
  moreover have "kmem_ready ?t ps" using assms(1) q by (intro kmem_ready_store) auto
  ultimately show ?thesis
    unfolding pt_grow_def using kstep_intro(1) tt tab drop_0 [of ps] by (metis Un_upper1)
qed

lemma wp_mappages_loop:
  "wp (mappages_loop pt a lst pa perm) Q s =
    wp (bnd (walk pt a True) (\<lambda>pte. if pte = 0 then ret (- 1) else bnd (load64 pte) (\<lambda>v.
      if v AND PTE_V \<noteq> 0 then panic ''mappages: remap''
      else seq (store64 pte (PA2PTE pa OR perm OR PTE_V)) (
        if a = lst then ret 0 else mappages_loop pt (a + PGSIZE) lst (pa + PGSIZE) perm)))) Q s"
  by (rule wp_run_cong, subst mappages_loop.simps)
    (auto simp: bnd_def seq_def intro!: ext split: outcome.split)

lemma wp_map_page:
  assumes "kmem_ready s ps" "pt_inv s root ps" "va < MAXVA" "pte_of (mem s) root va AND PTE_V = 0"
    and none: "\<And>t. pt_grow s root ps t [] \<Longrightarrow> (\<And>wa. pte_of (mem t) root wa = pte_of (mem s) root wa) \<Longrightarrow> Q (- 1) t"
    and some: "\<And>t qs. pt_grow s root ps t qs \<Longrightarrow>
      (\<And>wa. wa < MAXVA \<Longrightarrow> pte_of (mem t) root wa = (if PGROUNDDOWN wa = PGROUNDDOWN va then v else pte_of (mem s) root wa)) \<Longrightarrow>
      wp f Q t"
  shows "wp (bnd (walk root va True) (\<lambda>pte. if pte = 0 then ret (- 1) else bnd (load64 pte) (\<lambda>w.
      if w AND PTE_V \<noteq> 0 then panic e else seq (store64 pte v) f))) Q s"
  unfolding wp_bnd [of "walk _ _ _"]
proof (rule wp_walk_alloc [OF assms(1-3)])
  fix r t qs
  assume g: "pt_grow s root ps t qs" "\<And>wa. pte_of (mem t) root wa = pte_of (mem s) root wa"
    and r: "r = pte_addr (mem t) root va \<or> r = 0 \<and> qs = []"
      "r = 0 \<or> (\<exists>q. tab (mem t) root [PX 2 va, PX 1 va] = Some q)" "r = 0 \<Longrightarrow> qs = []"
  have t: "kmem_ready t qs" "pt_inv t root qs" using g(1) by (simp_all add: pt_grow_def)
  show "wp (if r = 0 then ret (- 1) else bnd (load64 r) (\<lambda>w.
      if w AND PTE_V \<noteq> 0 then panic e else seq (store64 r v) f)) Q t"
  proof (cases "r = 0")
    case True
    then show ?thesis using none [of t] g r(3) by (simp add: wp_simps)
  next
    case False
    then obtain q where q: "tab (mem t) root [PX 2 va, PX 1 va] = Some q" "r = slot q (PX 0 va)"
      using r by (auto simp: pte_addr_def)
    then have rd: "read64 (mem t) r AND PTE_V = 0"
      using assms(4) g(2) [of va] by (simp add: pte_of_def)
    have "wp f Q (t\<lparr>mem := write64 (mem t) r v\<rparr>)"
    proof (rule some)
      show "pt_grow s root ps (t\<lparr>mem := write64 (mem t) r v\<rparr>) qs"
        using pt_grow_trans [OF g(1) leaf_store_grow [OF t q(1)]] q(2) by simp
      show "pte_of (mem (t\<lparr>mem := write64 (mem t) r v\<rparr>)) root wa =
          (if PGROUNDDOWN wa = PGROUNDDOWN va then v else pte_of (mem s) root wa)" if "wa < MAXVA" for wa
        using pte_of_leaf_store [OF t(2) q(1) assms(3) that] g(2) q(2) by simp
    qed
    then have "wp (bnd (load64 r) (\<lambda>w. if w AND PTE_V \<noteq> 0 then panic e else seq (store64 r v) f)) Q t"
      unfolding wp_bnd wp_load64 using rd by (simp only: simp_thms if_False wp_seq wp_store64)
    with False show ?thesis by simp
  qed
qed

lemma mapped_1:
  "page_aligned va \<Longrightarrow> mapped va 1 pa perm f wa = (if PGROUNDDOWN wa = va then PA2PTE pa OR perm OR PTE_V else f wa)"
  using same_page_iff [of va wa] by (auto simp: mapped_def)

lemma mapped_0 [simp]: "mapped va 0 pa perm f wa = f wa"
  by (simp add: mapped_def)

lemma mappages_loop_maps:
  assumes "kmem_ready s ps" "pt_inv s root ps" "page_aligned va" "unat va + Suc n * 4096 \<le> unat MAXVA"
    "lst = va + of_nat n * 4096" "\<And>wa. in_pages va (Suc n) wa \<Longrightarrow> pte_of (mem s) root wa AND PTE_V = 0"
  shows "wp (mappages_loop root va lst pa perm) (\<lambda>r t. \<exists>k qs. pt_grow s root ps t qs \<and>
    (r = 0 \<and> k = Suc n \<or> r = - 1 \<and> k \<le> n \<and> qs = []) \<and>
    (\<forall>wa. wa < MAXVA \<longrightarrow> pte_of (mem t) root wa = mapped va k pa perm (pte_of (mem s) root) wa)) s"
  using assms
proof (induction n arbitrary: s ps va pa)
  case (0 s ps va pa)
  have va: "va < MAXVA" using "0.prems"(4) by (simp add: word_less_nat_alt)
  have lst: "va = lst" "PGROUNDDOWN va = va" using "0.prems"(3,5) by (simp_all add: PGROUNDDOWN_eq)
  show ?case unfolding wp_mappages_loop
  proof (rule wp_map_page [OF "0.prems"(1,2) va], goal_cases)
    case 1 show ?case by (rule "0.prems"(6)) (simp add: in_pages_def)
  next
    case (2 t) then show ?case by (intro exI [of _ "0::nat"] exI [of _ "[]"]) simp
  next
    case (3 t qs) then show ?case
      using lst mapped_1 [OF "0.prems"(3)] by (auto simp: wp_simps intro!: exI [of _ "Suc 0"] exI [of _ qs])
  qed
next
  case (Suc n s ps va pa)
  have va: "va < MAXVA" using Suc.prems(4) by (simp add: word_less_nat_alt)
  have al: "PGROUNDDOWN va = va" using Suc.prems(3) by (simp add: PGROUNDDOWN_eq)
  have next1: "unat (va + 4096) = unat va + 4096"
    using below_MAXVA_next [OF va] by (simp add: PGSIZE_def)
  have ne: "va \<noteq> lst"
  proof
    assume "va = lst"
    then have "of_nat (Suc n) * 4096 = (0 :: addr)" using Suc.prems(5) by simp
    then have "unat (of_nat (Suc n * 4096) :: addr) = 0" by simp
    moreover have "Suc n * 4096 < 2 ^ 64" using Suc.prems(4) by (simp add: const_vals)
    ultimately show False by (simp only: unat_of_nat) simp
  qed
  show ?case unfolding wp_mappages_loop
  proof (rule wp_map_page [OF Suc.prems(1,2) va], goal_cases)
    case 1 show ?case by (rule Suc.prems(6)) (simp add: in_pages_def)
  next
    case (2 t) then show ?case by (intro exI [of _ "0::nat"] exI [of _ "[]"]) simp
  next
    case (3 t qs)
    have "wp (mappages_loop root (va + 4096) lst (pa + 4096) perm) (\<lambda>r u. \<exists>k rs. pt_grow t root qs u rs \<and>
      (r = 0 \<and> k = Suc n \<or> r = - 1 \<and> k \<le> n \<and> rs = []) \<and>
      (\<forall>wa. wa < MAXVA \<longrightarrow> pte_of (mem u) root wa = mapped (va + 4096) k (pa + 4096) perm (pte_of (mem t) root) wa)) t"
    proof (rule Suc.IH)
      show "page_aligned (va + 4096)" using Suc.prems(3) next1 by (simp add: page_aligned_iff)
      show "unat (va + 4096) + Suc n * 4096 \<le> unat MAXVA" using Suc.prems(4) next1 by simp
      show "lst = va + 4096 + of_nat n * 4096" using Suc.prems(5) by (simp add: algebra_simps)
      fix wa assume w: "in_pages (va + 4096) (Suc n) wa"
      then have "wa < MAXVA" using Suc.prems(4) next1 by (simp add: in_pages_def word_less_nat_alt)
      moreover have "PGROUNDDOWN wa \<noteq> va" using in_pages_Suc_apart [OF Suc.prems(3) next1] w by blast
      moreover have "in_pages va (Suc (Suc n)) wa" using w in_pages_Suc [OF Suc.prems(3) next1] by blast
      ultimately show "pte_of (mem t) root wa AND PTE_V = 0" using 3(2) Suc.prems(6) al by simp
    qed (use 3(1) in \<open>auto simp: pt_grow_def\<close>)
    moreover have "mapped (va + 4096) k (pa + 4096) perm (pte_of (mem t) root) wa =
        mapped va (Suc k) pa perm (pte_of (mem s) root) wa" if "wa < MAXVA" for k wa
      using 3(2) [OF that] al by (intro mapped_Suc [OF Suc.prems(3) next1]) simp
    ultimately show ?case
      using ne pt_grow_trans [OF 3(1)] by (auto simp: PGSIZE_def elim!: wp_mono) (metis Suc_le_mono)+
  qed
qed

lemma mappages_maps:
  assumes "kmem_ready s ps" "pt_inv s root ps" "page_aligned va" "page_aligned sz" "sz \<noteq> 0"
    "unat va + unat sz \<le> unat MAXVA" "\<And>wa. in_pages va (unat sz div 4096) wa \<Longrightarrow> pte_of (mem s) root wa AND PTE_V = 0"
  shows "wp (mappages root va pa sz perm) (\<lambda>r t. \<exists>k qs. pt_grow s root ps t qs \<and>
    (r = 0 \<and> k * 4096 = unat sz \<or> r = - 1 \<and> k * 4096 < unat sz \<and> qs = []) \<and>
    (\<forall>wa. wa < MAXVA \<longrightarrow> pte_of (mem t) root wa = mapped va k pa perm (pte_of (mem s) root) wa)) s"
proof -
  obtain c where c: "unat sz = 4096 * c" using assms(4) by (auto simp: page_aligned_iff)
  with assms(5) obtain n where n: "unat sz = 4096 * Suc n" by (cases c) (auto simp: unat_eq_0)
  have "sz = of_nat (4096 * Suc n)" using n by (metis of_nat_unat ucast_id)
  then have lst: "va + sz - PGSIZE = va + of_nat n * 4096" by (simp add: PGSIZE_def algebra_simps)
  have "wp (mappages_loop root va (va + sz - PGSIZE) pa perm) (\<lambda>r t. \<exists>k qs. pt_grow s root ps t qs \<and>
    (r = 0 \<and> k = Suc n \<or> r = - 1 \<and> k \<le> n \<and> qs = []) \<and>
    (\<forall>wa. wa < MAXVA \<longrightarrow> pte_of (mem t) root wa = mapped va k pa perm (pte_of (mem s) root) wa)) s"
    using assms(6,7) n by (intro mappages_loop_maps [OF assms(1-3) _ lst]) auto
  moreover have "wp (mappages root va pa sz perm) Q s = wp (mappages_loop root va (va + sz - PGSIZE) pa perm) Q s" for Q
    using assms(3-5) by (simp add: mappages_def page_aligned_def)
  ultimately have "wp (mappages root va pa sz perm) (\<lambda>r t. \<exists>k qs. pt_grow s root ps t qs \<and>
    (r = 0 \<and> k = Suc n \<or> r = - 1 \<and> k \<le> n \<and> qs = []) \<and>
    (\<forall>wa. wa < MAXVA \<longrightarrow> pte_of (mem t) root wa = mapped va k pa perm (pte_of (mem s) root) wa)) s" by simp
  moreover have "k * 4096 = unat sz \<longleftrightarrow> k = Suc n" "k * 4096 < unat sz \<longleftrightarrow> k \<le> n" for k using n by auto
  ultimately show ?thesis by simp
qed

text \<open>A zeroed page is an empty page table.\<close>

lemma empty_table:
  assumes "phys_page s root" "root \<notin> set ps" "\<forall>x\<in>page root. mem s x = 0"
  shows "pt_inv s root ps" "tables (mem s) root = {root}" "pte_of (mem s) root va = 0"
proof -
  have z: "read64 (mem s) (slot root i) = 0" if "unat i < 512" for i
    using slot_in_page [OF phys_pageD [OF assms(1)] that] assms(3) by (intro read64_zero) blast
  have tab: "idxs is \<Longrightarrow> tab (mem s) root is = Some p \<longleftrightarrow> is = [] \<and> p = root" for "is" p
    by (cases "is") (auto simp: tab.simps z)
  then show "tables (mem s) root = {root}" using root_in_tables [of root "mem s"] by (auto simp: tables_def)
  then show "pt_inv s root ps" using assms tab by (auto simp: pt_inv_def)
  show "pte_of (mem s) root va = 0" by (simp add: pte_of_def tab.simps z)
qed

section \<open>Properties\<close>

text \<open>
  \<open>walk\<close> without \<open>alloc\<close> is a lookup: it changes nothing, panics exactly for addresses from \<open>MAXVA\<close> on,
  and otherwise returns 0 when a table on the path is missing and else the address of the leaf entry,
  whose contents are the entry the Sv39 translation of the address uses.
\<close>

theorem walk_lookup_correct:
  assumes "kmem_ready s ps" "pt_inv s root ps"
  shows "walk root va False s =
      (if va < MAXVA then Ok (pte_addr (mem s) root va) s else Panic ''walk to maxVA'') \<and>
    (pte_addr (mem s) root va = 0 \<longrightarrow> pte_of (mem s) root va = 0) \<and>
    (pte_addr (mem s) root va \<noteq> 0 \<longrightarrow> read64 (mem s) (pte_addr (mem s) root va) = pte_of (mem s) root va)"
proof (intro conjI impI)
  show "walk root va False s = (if va < MAXVA then Ok (pte_addr (mem s) root va) s else Panic ''walk to maxVA'')"
    by (simp add: walk_lookup) (simp add: walk_def not_le)
  show "read64 (mem s) (pte_addr (mem s) root va) = pte_of (mem s) root va" if "pte_addr (mem s) root va \<noteq> 0"
    using read_pte_addr [OF assms(2) kmem_ready_end [OF assms(1)] that] .
  show "pte_of (mem s) root va = 0" if "pte_addr (mem s) root va = 0"
    using that pte_addr_tab [OF assms(2) kmem_ready_end [OF assms(1)], of va]
    by (auto simp: pte_of_def split: option.split)
qed

text \<open>
  \<open>walk\<close> with \<open>alloc\<close> returns 0 only when no page is left; otherwise the entry of the address exists
  afterwards. In both cases the tree stays a tree of pages that are not free, its new tables come from
  the free list, every other byte of memory is kept, and no address changes its translation.
\<close>

theorem walk_alloc_correct:
  assumes "kmem_ready s ps" "pt_inv s root ps" "va < MAXVA"
  shows "\<exists>r t qs. walk root va True s = Ok r t \<and> pt_grow s root ps t qs \<and>
    (r = 0 \<longrightarrow> qs = []) \<and> (r \<noteq> 0 \<longrightarrow> r = pte_addr (mem t) root va) \<and>
    (\<forall>wa. pte_of (mem t) root wa = pte_of (mem s) root wa)"
proof -
  have "wp (walk root va True) (\<lambda>r t. \<exists>qs. pt_grow s root ps t qs \<and> (r = 0 \<longrightarrow> qs = []) \<and>
    (r \<noteq> 0 \<longrightarrow> r = pte_addr (mem t) root va) \<and> (\<forall>wa. pte_of (mem t) root wa = pte_of (mem s) root wa)) s"
    by (rule wp_walk_alloc [OF assms]) blast
  then show ?thesis unfolding wp_iff by blast
qed

text \<open>
  C34: \<open>mappages\<close> on an unmapped page-aligned range below \<open>MAXVA\<close> returns. With result 0 every page of the
  range translates to the corresponding page of the physical range with the given permissions; with
  result -1 memory ran out and a prefix of the range is mapped. No address outside the range changes
  its translation, and the page table and free list stay well formed.
\<close>

theorem mappages_correct:
  assumes "kmem_ready s ps" "pt_inv s root ps" "page_aligned va" "page_aligned sz" "sz \<noteq> 0"
    "unat va + unat sz \<le> unat MAXVA"
    "\<forall>wa. in_pages va (unat sz div 4096) wa \<longrightarrow> pte_of (mem s) root wa AND PTE_V = 0"
  shows "\<exists>r t k qs. mappages root va pa sz perm s = Ok r t \<and> pt_grow s root ps t qs \<and>
    (r = 0 \<and> k * 4096 = unat sz \<or> r = - 1 \<and> k * 4096 < unat sz \<and> qs = []) \<and>
    (\<forall>wa. wa < MAXVA \<longrightarrow> pte_of (mem t) root wa =
      (if in_pages va k wa then PA2PTE (pa + (PGROUNDDOWN wa - va)) OR perm OR PTE_V else pte_of (mem s) root wa))"
proof -
  have "wp (mappages root va pa sz perm) (\<lambda>r t. \<exists>k qs. pt_grow s root ps t qs \<and>
    (r = 0 \<and> k * 4096 = unat sz \<or> r = - 1 \<and> k * 4096 < unat sz \<and> qs = []) \<and>
    (\<forall>wa. wa < MAXVA \<longrightarrow> pte_of (mem t) root wa = mapped va k pa perm (pte_of (mem s) root) wa)) s"
    using assms(7) by (intro mappages_maps [OF assms(1-6)]) blast
  then show ?thesis unfolding wp_iff mapped_def by blast
qed

text \<open>For the witnesses: the zero page \<open>0x80032000\<close> as an empty table beside two free pages.\<close>

lemma empty_demo:
  "phys_page two_pages 0x80032000" "pt_inv two_pages 0x80032000 [0x80030000, 0x80031000]"
  "tables (mem two_pages) 0x80032000 = {0x80032000}" "pte_of (mem two_pages) 0x80032000 va = 0"
proof -
  show p: "phys_page two_pages 0x80032000"
    by (simp add: two_pages_def phys_page_def page_aligned_def PGSIZE_def const_vals)
  have "mem two_pages x = 0" if "x \<in> page 0x80032000" for x
  proof -
    have "page 0x80032000 \<inter> page 0x80030000 = {}"
      by (rule page_disjoint) (auto simp: page_aligned_def PGSIZE_def)
    then have "x \<notin> span 0x80030000 8" using that slot0_page [of "0x80030000" x]
      by (auto simp: page_aligned_def PGSIZE_def)
    then show ?thesis by (simp add: two_pages_def write64_outside)
  qed
  then have z: "\<forall>x\<in>page 0x80032000. mem two_pages x = 0" by blast
  show "pt_inv two_pages 0x80032000 [0x80030000, 0x80031000]"
    "tables (mem two_pages) 0x80032000 = {0x80032000}" "pte_of (mem two_pages) 0x80032000 va = 0"
    using empty_table [OF p _ z, of "[0x80030000, 0x80031000]"] by auto
qed

theorem walk_lookup_correct_witness:
  "kmem_ready two_pages [0x80030000, 0x80031000] \<and> pt_inv two_pages 0x80032000 [0x80030000, 0x80031000] \<and>
   walk 0x80032000 0x1000 False two_pages = Ok (pte_addr (mem two_pages) 0x80032000 0x1000) two_pages"
  using walk_lookup_correct [OF two_pages_ready empty_demo(2), of "0x1000"] two_pages_ready empty_demo(2)
  by (simp add: const_vals)

theorem walk_alloc_correct_witness:
  "(0x1000 :: addr) < MAXVA \<and> (\<exists>r t qs. walk 0x80032000 0x1000 True two_pages = Ok r t \<and>
     pt_grow two_pages 0x80032000 [0x80030000, 0x80031000] t qs)"
proof -
  have v: "(0x1000 :: addr) < MAXVA" by (simp add: const_vals)
  from walk_alloc_correct [OF two_pages_ready empty_demo(2) v] v show ?thesis by blast
qed

theorem mappages_correct_witness:
  "\<exists>r t k qs. mappages 0x80032000 0x1000 0x80050000 PGSIZE PTE_RW two_pages = Ok r t \<and>
     pt_grow two_pages 0x80032000 [0x80030000, 0x80031000] t qs \<and> (r = 0 \<or> r = - 1 \<and> qs = [])"
proof -
  have h: "page_aligned 0x1000" "page_aligned PGSIZE" "PGSIZE \<noteq> 0"
    "unat (0x1000 :: addr) + unat PGSIZE \<le> unat MAXVA"
    "\<forall>wa. in_pages 0x1000 (unat PGSIZE div 4096) wa \<longrightarrow> pte_of (mem two_pages) 0x80032000 wa AND PTE_V = 0"
    by (simp_all add: page_aligned_def PGSIZE_def const_vals empty_demo)
  show ?thesis
    using mappages_correct [OF two_pages_ready empty_demo(2) h] by blast
qed

end
