(* ===== verification/Uvm.thy ===== *)
theory Uvm
  imports Vm
begin

text \<open>
  User address spaces, the second half of \<^verbatim>\<open>kernel/src/vm.c\<close>: creating, growing, copying, shrinking and
  freeing user memory, and the copies between kernel buffers and user memory.

  A kernel buffer is a byte list: it lies in a kernel object, never in a user page. \<open>copyin\<close> and
  \<open>copyinstr\<close> return the bytes they have stored at \<open>dst\<close> beside their C result, also on failure.
  \<open>freewalk\<close> recurses as deep as the table goes; its first argument bounds the depth by the number of
  pages of RAM, which only a table with a cycle can exceed (the C code then never returns: \<open>Spin\<close>).

  The user's view of memory is \<open>ubyte m root va\<close>, the byte at a virtual address.
\<close>

section \<open>Operations\<close>

definition uvmcreate :: "('z kmem_scheme, addr) km" where
  "uvmcreate =
     bnd kalloc (\<lambda>pagetable.
     if pagetable = 0 then ret 0 else seq (memsetM pagetable 0 4096) (ret pagetable))"

function uvmunmap_loop :: "addr \<Rightarrow> addr \<Rightarrow> addr \<Rightarrow> bool \<Rightarrow> ('z kmem_scheme, unit) km" where
  "uvmunmap_loop pagetable a aend do_free s =
     (if a < aend
      then bnd (walk pagetable a False) (\<lambda>pte t.
        if pte = 0 then panic ''uvmunmap: walk'' t
        else bnd (load64 pte) (\<lambda>v t.
          if v AND PTE_V = 0 then panic ''uvmunmap: not mapped'' t
          else if PTE_FLAGS v = PTE_V then panic ''uvmunmap: not a leaf'' t
          else bnd (whenM do_free (kfree (PTE2PA v))) (\<lambda>_ t.
            bnd (store64 pte 0) (\<lambda>_ t. uvmunmap_loop pagetable (a + PGSIZE) aend do_free t) t) t) t) s
      else ret () s)"
  by pat_completeness auto
termination
  by (relation "measure (\<lambda>(pagetable, a, aend, do_free, s). unat MAXVA - unat a)")
    (auto dest!: walk_OkD simp: below_MAXVA_next word_less_nat_alt [of _ MAXVA] intro: diff_less_mono2)

declare uvmunmap_loop.simps [simp del]

definition uvmunmap :: "addr \<Rightarrow> addr \<Rightarrow> uint64 \<Rightarrow> bool \<Rightarrow> ('z kmem_scheme, unit) km" where
  "uvmunmap pagetable va npages do_free =
     (if va mod PGSIZE \<noteq> 0 then panic ''uvmunmap: not aligned''
      else uvmunmap_loop pagetable va (va + npages * PGSIZE) do_free)"

fun freewalk_loop :: "(addr \<Rightarrow> ('z kmem_scheme, unit) km) \<Rightarrow> addr \<Rightarrow> nat \<Rightarrow> nat \<Rightarrow> ('z kmem_scheme, unit) km" where
  "freewalk_loop rec pagetable i 0 = ret ()"
| "freewalk_loop rec pagetable i (Suc n) =
     bnd (load64 (slot pagetable (of_nat i))) (\<lambda>pte.
     seq (whenM (pte AND PTE_V \<noteq> 0)
           (if pte AND PTE_RWX \<noteq> 0 then panic ''freewalk: leaf''
            else seq (rec (PTE2PA pte)) (store64 (slot pagetable (of_nat i)) 0)))
         (freewalk_loop rec pagetable (Suc i) n))"

fun freewalk_rec :: "nat \<Rightarrow> addr \<Rightarrow> ('z kmem_scheme, unit) km" where
  "freewalk_rec 0 pagetable = spin"
| "freewalk_rec (Suc d) pagetable =
     seq (freewalk_loop (freewalk_rec d) pagetable 0 512) (kfree pagetable)"

definition freewalk :: "addr \<Rightarrow> ('z kmem_scheme, unit) km" where
  "freewalk pagetable = freewalk_rec 32768 pagetable"

definition uvmfree :: "addr \<Rightarrow> uint64 \<Rightarrow> ('z kmem_scheme, unit) km" where
  "uvmfree pagetable sz =
     seq (whenM (sz > 0) (uvmunmap pagetable 0 (PGROUNDUP sz div PGSIZE) True)) (freewalk pagetable)"

text \<open>Copying a kernel buffer to memory; \<open>src\<close> is disjoint from the destination.\<close>

fun write_bytes :: "mem \<Rightarrow> addr \<Rightarrow> byte list \<Rightarrow> mem" where
  "write_bytes m a [] = m"
| "write_bytes m a (b # bs) = write_bytes (m(a := b)) (a + 1) bs"

definition store_bytes :: "addr \<Rightarrow> byte list \<Rightarrow> ('z machine_scheme, unit) km" where
  "store_bytes a bs = modify (\<lambda>s. s\<lparr>mem := write_bytes (mem s) a bs\<rparr>)"

definition load_bytes :: "addr \<Rightarrow> nat \<Rightarrow> ('z machine_scheme, byte list) km" where
  "load_bytes a n = gets (\<lambda>s. bytes (mem s) a n)"

text \<open>The result of \<open>mappages\<close> and a failing \<open>kalloc\<close> are not checked, as in the source.\<close>

definition uvmfirst :: "addr \<Rightarrow> byte list \<Rightarrow> ('z kmem_scheme, unit) km" where
  "uvmfirst pagetable src =
     (if 4096 \<le> length src then panic ''uvmfirst: more than a page''
      else bnd kalloc (\<lambda>p.
        seq (memsetM p 0 4096) (
        seq (mappages pagetable 0 p PGSIZE (PTE_RWX OR PTE_U)) (
        store_bytes p src))))"

definition walkaddr :: "addr \<Rightarrow> addr \<Rightarrow> ('z kmem_scheme, addr) km" where
  "walkaddr pagetable va =
     (if va \<ge> MAXVA then ret 0
      else bnd (walk pagetable va False) (\<lambda>pte.
        if pte = 0 then ret 0
        else bnd (load64 pte) (\<lambda>v.
          if v AND PTE_V = 0 then ret 0
          else if v AND PTE_U = 0 then ret 0
          else ret (PTE2PA v))))"

text \<open>The bytes of one round: up to the end of the page, at most \<open>len\<close>.\<close>

definition chunk :: "addr \<Rightarrow> uint64 \<Rightarrow> uint64" where
  "chunk va len = (let n = PGSIZE - (va - PGROUNDDOWN va) in if n > len then len else n)"

lemma unat_chunk: "unat (chunk va len) = min (4096 - unat va mod 4096) (unat len)"
proof -
  have o: "unat (va - PGROUNDDOWN va) = unat va mod 4096" by (rule PGROUNDDOWN_offset)
  have "unat va mod 4096 < 4096" by simp
  then have "unat (va - PGROUNDDOWN va) \<le> unat PGSIZE" unfolding o by (simp add: PGSIZE_def)
  then have "unat (PGSIZE - (va - PGROUNDDOWN va)) = 4096 - unat va mod 4096"
    using o by (simp add: unat_diff_if PGSIZE_def)
  then show ?thesis by (auto simp: chunk_def Let_def word_less_nat_alt)
qed

lemma chunk_pos: "0 < len \<Longrightarrow> 0 < unat (chunk va len)"
  by (simp add: unat_chunk unat_gt_0 word_neq_0_conv)

lemma chunk_le: "chunk va len \<le> len"
  by (simp add: word_le_nat_alt unat_chunk)

lemma unat_chunk_rest: "unat (len - chunk va len) = unat len - unat (chunk va len)"
  using chunk_le [of va len] by (simp add: unat_diff_if word_le_nat_alt)

function copyout :: "addr \<Rightarrow> addr \<Rightarrow> byte list \<Rightarrow> uint64 \<Rightarrow> ('z kmem_scheme, int) km" where
  "copyout pagetable dstva src len s =
     (if len > 0
      then bnd (walkaddr pagetable (PGROUNDDOWN dstva)) (\<lambda>pa0 t.
        if pa0 = 0 then ret (- 1) t
        else bnd (store_bytes (pa0 + (dstva - PGROUNDDOWN dstva)) (take (unat (chunk dstva len)) src)) (\<lambda>_ t.
          copyout pagetable (PGROUNDDOWN dstva + PGSIZE) (drop (unat (chunk dstva len)) src)
            (len - chunk dstva len) t) t) s
      else ret 0 s)"
  by pat_completeness auto
termination
  by (relation "measure (\<lambda>(pagetable, dstva, src, len, s). unat len)")
    (auto simp: unat_chunk_rest chunk_pos intro!: diff_less, metis unat_gt_0 word_neq_0_conv)

function copyin :: "addr \<Rightarrow> addr \<Rightarrow> uint64 \<Rightarrow> byte list \<Rightarrow> ('z kmem_scheme, int \<times> byte list) km" where
  "copyin pagetable srcva len dst s =
     (if len > 0
      then bnd (walkaddr pagetable (PGROUNDDOWN srcva)) (\<lambda>pa0 t.
        if pa0 = 0 then ret (- 1, dst) t
        else bnd (load_bytes (pa0 + (srcva - PGROUNDDOWN srcva)) (unat (chunk srcva len))) (\<lambda>bs t.
          copyin pagetable (PGROUNDDOWN srcva + PGSIZE) (len - chunk srcva len) (dst @ bs) t) t) s
      else ret (0, dst) s)"
  by pat_completeness auto
termination
  by (relation "measure (\<lambda>(pagetable, srcva, len, dst, s). unat len)")
    (auto simp: unat_chunk_rest chunk_pos intro!: diff_less, metis unat_gt_0 word_neq_0_conv)

declare copyout.simps [simp del] copyin.simps [simp del]

lemma copy_0 [simp]: "copyout pagetable dstva src 0 s = Ok 0 s" "copyin pagetable srcva 0 dst s = Ok (0, dst) s"
  by (subst copyout.simps, simp) (subst copyin.simps, simp)

fun copystr_page :: "mem \<Rightarrow> addr \<Rightarrow> nat \<Rightarrow> byte list \<Rightarrow> bool \<times> byte list" where
  "copystr_page m p 0 dst = (False, dst)"
| "copystr_page m p (Suc n) dst =
     (if m p = 0 then (True, dst @ [0]) else copystr_page m (p + 1) n (dst @ [m p]))"

function copyinstr :: "addr \<Rightarrow> addr \<Rightarrow> uint64 \<Rightarrow> byte list \<Rightarrow> ('z kmem_scheme, int \<times> byte list) km" where
  "copyinstr pagetable srcva mx dst s =
     (if mx > 0
      then bnd (walkaddr pagetable (PGROUNDDOWN srcva)) (\<lambda>pa0 t.
        if pa0 = 0 then ret (- 1, dst) t
        else bnd (gets (\<lambda>s. copystr_page (mem s) (pa0 + (srcva - PGROUNDDOWN srcva)) (unat (chunk srcva mx)) dst)) (\<lambda>r t.
          if fst r then ret (0, snd r) t
          else copyinstr pagetable (PGROUNDDOWN srcva + PGSIZE) (mx - chunk srcva mx) (snd r) t) t) s
      else ret (- 1, dst) s)"
  by pat_completeness auto
termination
  by (relation "measure (\<lambda>(pagetable, srcva, mx, dst, s). unat mx)")
    (auto simp: unat_chunk_rest chunk_pos intro!: diff_less, metis unat_gt_0 word_neq_0_conv)

declare copyinstr.simps [simp del]

text \<open>The \<open>goto err\<close> of \<open>uvmcopy\<close>.\<close>

definition uvmcopy_err :: "addr \<Rightarrow> uint64 \<Rightarrow> ('z kmem_scheme, int) km" where
  "uvmcopy_err new i = seq (uvmunmap new 0 (i div PGSIZE) True) (ret (- 1))"

function uvmcopy_loop :: "addr \<Rightarrow> addr \<Rightarrow> uint64 \<Rightarrow> uint64 \<Rightarrow> ('z kmem_scheme, int) km" where
  "uvmcopy_loop old new sz i s =
     (if i < sz
      then bnd (walk old i False) (\<lambda>pte t.
        if pte = 0 then panic ''uvmcopy: pte should exist'' t
        else bnd (load64 pte) (\<lambda>v t.
          if v AND PTE_V = 0 then panic ''uvmcopy: page not present'' t
          else bnd kalloc (\<lambda>p t.
            if p = 0 then uvmcopy_err new i t
            else bnd (memmoveM p (PTE2PA v) 4096) (\<lambda>_ t.
              bnd (mappages new i p PGSIZE (PTE_FLAGS v)) (\<lambda>r t.
                if r \<noteq> 0 then seq (kfree p) (uvmcopy_err new i) t
                else uvmcopy_loop old new sz (i + PGSIZE) t) t) t) t) t) s
      else ret 0 s)"
  by pat_completeness auto
termination
  by (relation "measure (\<lambda>(old, new, sz, i, s). unat MAXVA - unat i)")
    (auto dest!: walk_OkD simp: below_MAXVA_next word_less_nat_alt [of _ MAXVA] intro: diff_less_mono2)

declare uvmcopy_loop.simps [simp del]

definition uvmcopy :: "addr \<Rightarrow> addr \<Rightarrow> uint64 \<Rightarrow> ('z kmem_scheme, int) km" where
  "uvmcopy old new sz = uvmcopy_loop old new sz 0"

text \<open>
  \<open>npages\<close> is the \<open>int\<close> the source computes: the difference of the two rounded sizes, in bytes,
  truncated to 32 bits and sign-extended to the \<open>uint64\<close> parameter of \<open>uvmunmap\<close>.
\<close>

definition uvmdealloc :: "addr \<Rightarrow> uint64 \<Rightarrow> uint64 \<Rightarrow> ('z kmem_scheme, uint64) km" where
  "uvmdealloc pagetable oldsz newsz =
     (if newsz \<ge> oldsz \<or> PGROUNDUP newsz \<ge> PGROUNDUP oldsz then ret oldsz
      else let npages = (ucast (PGROUNDUP oldsz - PGROUNDUP newsz) :: uint)
           in seq (uvmunmap pagetable (PGROUNDUP newsz) (scast npages) True) (ret newsz))"

lemma mappages_OkD: "mappages pt va pa sz perm s = Ok r t \<Longrightarrow> va < MAXVA"
  by (auto simp: mappages_def mappages_loop.simps [of pt va] bnd_Ok_iff dest: walk_OkD split: if_splits)

function uvmalloc_loop :: "addr \<Rightarrow> uint64 \<Rightarrow> uint64 \<Rightarrow> uint64 \<Rightarrow> uint64 \<Rightarrow> ('z kmem_scheme, uint64) km" where
  "uvmalloc_loop pagetable oldsz newsz xperm a s =
     (if a < newsz
      then bnd kalloc (\<lambda>p t.
        if p = 0 then seq (uvmdealloc pagetable a oldsz) (ret 0) t
        else bnd (memsetM p 0 4096) (\<lambda>_ t.
          bnd (mappages pagetable a p PGSIZE (PTE_R OR PTE_U OR xperm)) (\<lambda>r t.
            if r \<noteq> 0 then seq (kfree p) (seq (uvmdealloc pagetable a oldsz) (ret 0)) t
            else uvmalloc_loop pagetable oldsz newsz xperm (a + PGSIZE) t) t) t) s
      else ret newsz s)"
  by pat_completeness auto
termination
  by (relation "measure (\<lambda>(pagetable, oldsz, newsz, xperm, a, s). unat MAXVA - unat a)")
    (auto dest!: mappages_OkD simp: below_MAXVA_next word_less_nat_alt [of _ MAXVA] intro: diff_less_mono2)

declare uvmalloc_loop.simps [simp del]

definition uvmalloc :: "addr \<Rightarrow> uint64 \<Rightarrow> uint64 \<Rightarrow> uint64 \<Rightarrow> ('z kmem_scheme, uint64) km" where
  "uvmalloc pagetable oldsz newsz xperm =
     (if newsz < oldsz then ret oldsz
      else uvmalloc_loop pagetable (PGROUNDUP oldsz) newsz xperm (PGROUNDUP oldsz))"

definition uvmclear :: "addr \<Rightarrow> addr \<Rightarrow> ('z kmem_scheme, unit) km" where
  "uvmclear pagetable va =
     bnd (walk pagetable va False) (\<lambda>pte.
     if pte = 0 then panic ''uvmclear''
     else bnd (load64 pte) (\<lambda>v. store64 pte (v AND NOT PTE_U)))"

section \<open>The user's view of memory\<close>

definition upage :: "mem \<Rightarrow> addr \<Rightarrow> addr \<Rightarrow> addr" where
  "upage m root va = PTE2PA (pte_of m root va)"

definition uvalid :: "mem \<Rightarrow> addr \<Rightarrow> addr \<Rightarrow> bool" where
  "uvalid m root va \<longleftrightarrow> va < MAXVA \<and> pte_of m root va AND PTE_V \<noteq> 0 \<and> pte_of m root va AND PTE_U \<noteq> 0"

definition ubyte :: "mem \<Rightarrow> addr \<Rightarrow> addr \<Rightarrow> byte" where
  "ubyte m root va = m (upage m root va + (va - PGROUNDDOWN va))"

text \<open>User pages are RAM pages that are neither free nor tables, and no two addresses share one.\<close>

definition us_inv :: "'z kmem_scheme \<Rightarrow> addr \<Rightarrow> addr list \<Rightarrow> bool" where
  "us_inv s root ps \<longleftrightarrow>
     (\<forall>va. uvalid (mem s) root va \<longrightarrow> phys_page s (upage (mem s) root va) \<and>
        upage (mem s) root va \<notin> tables (mem s) root \<and> upage (mem s) root va \<notin> set ps) \<and>
     (\<forall>va wa. uvalid (mem s) root va \<longrightarrow> uvalid (mem s) root wa \<longrightarrow>
        upage (mem s) root va = upage (mem s) root wa \<longrightarrow> PGROUNDDOWN va = PGROUNDDOWN wa)"

definition uspace :: "'z kmem_scheme \<Rightarrow> addr \<Rightarrow> addr list \<Rightarrow> bool" where
  "uspace s root ps \<longleftrightarrow> kmem_ready s ps \<and> pt_inv s root ps \<and> us_inv s root ps"

lemma PX_PGROUNDDOWN: "PX l (PGROUNDDOWN va) = PX l va"
  by (simp add: word_unat_eq_iff unat_PX unat_PGROUNDDOWN power_add div_mult2_eq)

lemma pte_of_PGROUNDDOWN [simp]: "pte_of m root (PGROUNDDOWN va) = pte_of m root va"
  unfolding pte_of_def PX_PGROUNDDOWN ..

lemma PGROUNDDOWN_less: "PGROUNDDOWN va < MAXVA \<longleftrightarrow> va < MAXVA"
  by (auto simp: word_less_nat_alt unat_PGROUNDDOWN const_vals div_less_iff_less_mult)

lemma same_page_upage: "PGROUNDDOWN va = PGROUNDDOWN wa \<Longrightarrow> upage m root va = upage m root wa \<and> uvalid m root va = uvalid m root wa"
  unfolding upage_def uvalid_def by (metis pte_of_PGROUNDDOWN PGROUNDDOWN_less)

lemma walkaddr_run:
  assumes "uspace s root ps"
  shows "walkaddr root va s = Ok (if uvalid (mem s) root va then upage (mem s) root va else 0) s"
proof (cases "va < MAXVA")
  case True
  have i: "pt_inv s root ps" "0 < sym_end s" using assms by (auto simp: uspace_def kmem_ready_end)
  have z: "pte_addr (mem s) root va = 0 \<Longrightarrow> pte_of (mem s) root va = 0"
    using pte_addr_tab [OF i, of va] by (auto simp: pte_of_def split: option.split)
  show ?thesis
    using True read_pte_addr [OF i, of va] z
    by (auto simp: walkaddr_def walk_lookup [OF True] bnd_def uvalid_def upage_def not_le)
next
  case False
  then show ?thesis by (simp add: walkaddr_def uvalid_def not_less [symmetric])
qed

lemma uspace_page:
  assumes "uspace s root ps" "uvalid (mem s) root va"
  shows "phys_page s (upage (mem s) root va)" "upage (mem s) root va \<noteq> 0"
    "upage (mem s) root va \<notin> tables (mem s) root" "upage (mem s) root va \<notin> set ps"
  using assms kmem_ready_end [of s ps] by (auto simp: uspace_def us_inv_def phys_page_def)

lemma uspace_inj:
  "uspace s root ps \<Longrightarrow> uvalid (mem s) root va \<Longrightarrow> uvalid (mem s) root wa \<Longrightarrow>
    upage (mem s) root va = upage (mem s) root wa \<Longrightarrow> PGROUNDDOWN va = PGROUNDDOWN wa"
  unfolding uspace_def us_inv_def by blast

lemma in_upage: "page_aligned p \<Longrightarrow> p + (va - PGROUNDDOWN va) \<in> page p"
  by (simp add: in_span_iff PGROUNDDOWN_offset)

text \<open>Writing inside user pages changes neither the tables nor the free list.\<close>

lemma uspace_write:
  assumes u: "uspace s root ps" and out: "\<forall>x. (\<forall>va. uvalid (mem s) root va \<longrightarrow> x \<notin> page (upage (mem s) root va)) \<longrightarrow> m' x = mem s x"
  shows "uspace (s\<lparr>mem := m'\<rparr>) root ps" "pte_of m' root va = pte_of (mem s) root va"
proof -
  have keep: "m' x = mem s x" if "p \<in> tables (mem s) root \<or> p \<in> set ps" "x \<in> page p" for p x
  proof -
    have "x \<notin> page (upage (mem s) root wa)" if v: "uvalid (mem s) root wa" for wa
    proof -
      have "page_aligned p" "page_aligned (upage (mem s) root wa)" "p \<noteq> upage (mem s) root wa"
        using \<open>p \<in> _ \<or> p \<in> _\<close> uspace_page [OF u v] u
        by (auto simp: uspace_def pt_inv_def kmem_ready_def kmem_inv_def phys_page_def)
      then show ?thesis using page_disjoint \<open>x \<in> page p\<close> by blast
    qed
    then show ?thesis using out by blast
  qed
  have i: "pt_inv s root ps" "kmem_ready s ps" using u by (simp_all add: uspace_def)
  show pte: "pte_of m' root va = pte_of (mem s) root va" for va
    by (rule pte_of_frame [OF i(1)]) (use keep in auto)
  have tab: "tables m' root = tables (mem s) root"
    by (rule tables_cong, rule tab_frame [OF i(1)]) (use keep in auto)
  have "kmem_ready (s\<lparr>mem := m'\<rparr>) ps"
    by (rule kmem_ready_frame [OF i(2) kstep_intro(1)]) (use keep in auto)
  moreover have "pt_inv (s\<lparr>mem := m'\<rparr>) root ps"
    by (rule pt_inv_frame [OF i(1)]) (use keep i(1) in \<open>auto simp: pt_inv_def\<close>)
  moreover have "us_inv (s\<lparr>mem := m'\<rparr>) root ps"
  proof -
    have "uvalid m' root = uvalid (mem s) root" "upage m' root = upage (mem s) root"
      by (simp_all add: fun_eq_iff uvalid_def upage_def pte)
    then have "us_inv (s\<lparr>mem := m'\<rparr>) root ps = us_inv s root ps" using tab by (simp add: us_inv_def)
    then show ?thesis using u by (simp add: uspace_def)
  qed
  ultimately show "uspace (s\<lparr>mem := m'\<rparr>) root ps" by (simp add: uspace_def)
qed

lemma write_bytes_apply:
  "length bs \<le> 2 ^ 64 \<Longrightarrow> write_bytes m a bs x = (if x \<in> span a (length bs) then bs ! unat (x - a) else m x)"
proof (induction bs arbitrary: m a)
  case (Cons b bs)
  have u: "unat (x - a) = Suc (unat (x - (a + 1)))" if "x \<noteq> a"
  proof -
    have e: "x - (a + 1) = x - a - 1" by simp
    have "0 < unat (x - a)" using that by (simp add: unat_gt_0)
    then show ?thesis unfolding e using unat_diff_if [of "x - a" 1] by simp
  qed
  show ?case
  proof (cases "x = a")
    case True
    then have "x \<notin> span (a + 1) (length bs)"
      using Cons.prems by (auto simp: span_def)
    then show ?thesis using Cons True by (simp add: in_span_iff)
  next
    case False
    then show ?thesis using Cons u by (simp add: in_span_iff)
  qed
qed (simp add: in_span_iff)

section \<open>copyout and copyin\<close>

lemma span_split:
  assumes "n + k < 2 ^ 64"
  shows "x \<in> span a (n + k) \<longleftrightarrow> x \<in> span a n \<or> x \<in> span (a + of_nat n) k"
    and "x \<in> span (a + of_nat n) k \<Longrightarrow> unat (x - a) = n + unat (x - (a + of_nat n))"
proof -
  have e: "x - (a + of_nat n) = x - a - of_nat n" by simp
  have n: "unat (of_nat n :: addr) = n" using assms by (simp add: unat_of_nat)
  note d = unat_diff_if [of "x - a" "of_nat n", unfolded n]
  show "x \<in> span a (n + k) \<longleftrightarrow> x \<in> span a n \<or> x \<in> span (a + of_nat n) k"
    unfolding in_span_iff e d using assms by auto
  show "unat (x - a) = n + unat (x - (a + of_nat n))" if "x \<in> span (a + of_nat n) k"
    using that unfolding in_span_iff e d using assms by (auto split: if_splits)
qed

lemma page_chunk:
  assumes "va \<in> span dst (unat (chunk dst len))"
  shows "PGROUNDDOWN va = PGROUNDDOWN dst"
proof -
  have u: "unat (va - dst) < 4096 - unat dst mod 4096" using assms by (simp add: in_span_iff unat_chunk)
  define d r where "d = unat dst div 4096" and "r = unat dst mod 4096"
  have dst: "unat dst = 4096 * d + r" by (simp add: d_def r_def)
  have top: "4096 * d + 4096 \<le> 2 ^ 64"
    using page_aligned_room [OF PGROUNDDOWN_aligned, of dst] by (simp add: unat_PGROUNDDOWN mult.commute d_def)
  note u = u [folded r_def]
  have "unat va = unat (dst + (va - dst))" by simp
  also have "\<dots> = (unat dst + unat (va - dst)) mod 2 ^ 64" by (simp only: unat_word_ariths) simp
  also have "\<dots> = unat dst + unat (va - dst)" using u dst top by (intro mod_less) linarith
  finally have "unat va = 4096 * d + (r + unat (va - dst))" using dst by simp
  then have "unat va div 4096 = d" using u by simp
  then show ?thesis by (simp add: word_unat_eq_iff unat_PGROUNDDOWN d_def)
qed

text \<open>A chunk lies in the page of its first address.\<close>

lemma chunk_in_page:
  assumes "length bs = unat (chunk dst len)" "x \<in> span (p + (dst - PGROUNDDOWN dst)) (length bs)"
  shows "x \<in> page p"
proof -
  let ?o = "dst - PGROUNDDOWN dst"
  have n: "unat dst mod 4096 + length bs \<le> 4096" using assms(1) by (simp add: unat_chunk)
  have "unat (x - p) = unat ((x - (p + ?o)) + ?o)" by simp
  also have "\<dots> \<le> unat (x - (p + ?o)) + unat ?o"
    by (simp only: unat_word_ariths) (rule mod_less_eq_dividend)
  finally show ?thesis using assms(2) n by (simp add: in_span_iff PGROUNDDOWN_offset)
qed

text \<open>One round of \<open>copyout\<close>, seen by the user.\<close>

lemma ubyte_store_chunk:
  assumes u: "uspace s root ps" and v: "uvalid (mem s) root dst" and len: "length bs = unat (chunk dst len)"
  defines "m' \<equiv> write_bytes (mem s) (upage (mem s) root dst + (dst - PGROUNDDOWN dst)) bs"
  shows "uspace (s\<lparr>mem := m'\<rparr>) root ps" "\<And>va. pte_of m' root va = pte_of (mem s) root va"
    "\<And>va. uvalid (mem s) root va \<Longrightarrow> ubyte m' root va =
      (if va \<in> span dst (length bs) then bs ! unat (va - dst) else ubyte (mem s) root va)"
proof -
  let ?p = "upage (mem s) root dst" and ?o = "dst - PGROUNDDOWN dst"
  have al: "page_aligned ?p" using uspace_page(1) [OF u v] phys_pageD by blast
  have n64: "length bs \<le> 2 ^ 64" using len by (simp add: unat_chunk)
  note inp = chunk_in_page [OF len, of _ ?p]
  have out: "\<forall>x. (\<forall>va. uvalid (mem s) root va \<longrightarrow> x \<notin> page (upage (mem s) root va)) \<longrightarrow> m' x = mem s x"
    using inp v by (auto simp: m'_def write_bytes_apply [OF n64])
  show "uspace (s\<lparr>mem := m'\<rparr>) root ps" "pte_of m' root va = pte_of (mem s) root va" for va
    by (rule uspace_write [OF u out])+
  then have up: "upage m' root va = upage (mem s) root va" for va by (simp add: upage_def)
  fix va assume va: "uvalid (mem s) root va"
  let ?x = "upage (mem s) root va + (va - PGROUNDDOWN va)"
  have k: "?x \<in> span (?p + ?o) (length bs) \<longleftrightarrow> va \<in> span dst (length bs)"
    "va \<in> span dst (length bs) \<Longrightarrow> ?x - (?p + ?o) = va - dst"
  proof -
    have same: "?x - (?p + ?o) = va - dst" if "PGROUNDDOWN va = PGROUNDDOWN dst"
      using that same_page_upage [OF that, of "mem s" root] by simp
    have "PGROUNDDOWN va = PGROUNDDOWN dst" if "?x \<in> span (?p + ?o) (length bs)"
    proof -
      have "page_aligned (upage (mem s) root va)" using uspace_page(1) [OF u va] phys_pageD by blast
      then have "upage (mem s) root va = ?p"
        using inp [OF that] in_upage page_disjoint [OF _ al] by blast
      then show ?thesis using uspace_inj [OF u va v] by blast
    qed
    moreover have "PGROUNDDOWN va = PGROUNDDOWN dst" if "va \<in> span dst (length bs)"
      using page_chunk [of va dst len] that len by simp
    ultimately show "?x \<in> span (?p + ?o) (length bs) \<longleftrightarrow> va \<in> span dst (length bs)"
      "va \<in> span dst (length bs) \<Longrightarrow> ?x - (?p + ?o) = va - dst"
      using same by (auto simp: in_span_iff)
  qed
  show "ubyte m' root va = (if va \<in> span dst (length bs) then bs ! unat (va - dst) else ubyte (mem s) root va)"
    unfolding ubyte_def up unfolding m'_def write_bytes_apply [OF n64] k(1) using k(2) by presburger
qed

text \<open>What a copy of \<open>k\<close> bytes \<open>src\<close> to \<open>dst\<close> does to a user address space.\<close>

definition copied :: "'z kmem_scheme \<Rightarrow> addr \<Rightarrow> addr list \<Rightarrow> addr \<Rightarrow> byte list \<Rightarrow> nat \<Rightarrow> 'z kmem_scheme \<Rightarrow> bool" where
  "copied s root ps dst src k t \<longleftrightarrow> uspace t root ps \<and> (\<exists>m'. t = s\<lparr>mem := m'\<rparr>) \<and>
     (\<forall>va. pte_of (mem t) root va = pte_of (mem s) root va) \<and>
     (\<forall>va. uvalid (mem s) root va \<longrightarrow> ubyte (mem t) root va =
        (if va \<in> span dst k then src ! unat (va - dst) else ubyte (mem s) root va))"

lemma copied_0: "uspace s root ps \<Longrightarrow> copied s root ps dst src 0 s"
proof -
  assume "uspace s root ps"
  moreover have "s = s\<lparr>mem := mem s\<rparr>" by simp
  ultimately show ?thesis unfolding copied_def in_span_iff by (metis not_less_zero)
qed

lemma pte_uvalid: "(\<And>va. pte_of m' root va = pte_of m root va) \<Longrightarrow> uvalid m' root va = uvalid m root va"
  by (simp add: uvalid_def)

lemma copied_append:
  assumes "copied s root ps dst src n t" "copied t root ps (dst + of_nat n) (drop n src) k u" "n + k \<le> length src" "length src < 2 ^ 64"
  shows "copied s root ps dst src (n + k) u"
proof -
  have nk: "n + k < 2 ^ 64" using assms(3,4) by simp
  have "ubyte (mem u) root va = (if va \<in> span dst (n + k) then src ! unat (va - dst) else ubyte (mem s) root va)"
    if v: "uvalid (mem s) root va" for va
  proof -
    have "uvalid (mem t) root va" using v assms(1) pte_uvalid unfolding copied_def by blast
    then have u: "ubyte (mem u) root va = (if va \<in> span (dst + of_nat n) k
        then drop n src ! unat (va - (dst + of_nat n)) else ubyte (mem t) root va)"
      using assms(2) by (simp add: copied_def)
    have t: "ubyte (mem t) root va = (if va \<in> span dst n then src ! unat (va - dst) else ubyte (mem s) root va)"
      using assms(1) v by (simp add: copied_def)
    have "drop n src ! unat (va - (dst + of_nat n)) = src ! unat (va - dst)" if "va \<in> span (dst + of_nat n) k"
      using span_split(2) [OF nk that] assms(3) by simp
    then show ?thesis unfolding u t span_split(1) [OF nk] by auto
  qed
  then show ?thesis using assms(1,2) unfolding copied_def by auto
qed

lemma chunk_rest:
  assumes "len - chunk dst len \<noteq> 0"
  shows "unat (chunk dst len) = 4096 - unat dst mod 4096" "PGROUNDDOWN dst + PGSIZE = dst + of_nat (unat (chunk dst len))"
proof -
  have "chunk dst len \<noteq> len" using assms by auto
  then show u: "unat (chunk dst len) = 4096 - unat dst mod 4096"
    using chunk_le [of dst len] by (auto simp: unat_chunk word_unat_eq_iff)
  have "chunk dst len = PGSIZE - (dst - PGROUNDDOWN dst)"
    using \<open>chunk dst len \<noteq> len\<close> by (auto simp: chunk_def Let_def split: if_splits)
  then show "PGROUNDDOWN dst + PGSIZE = dst + of_nat (unat (chunk dst len))" by simp
qed

text \<open>One unfolding of the two loops on a valid page, and what happens on an invalid one.\<close>

lemma copyout_step:
  assumes "uspace s root ps" "0 < len"
  shows "copyout root dst src len s =
    (if uvalid (mem s) root dst
     then copyout root (PGROUNDDOWN dst + PGSIZE) (drop (unat (chunk dst len)) src) (len - chunk dst len)
       (s\<lparr>mem := write_bytes (mem s) (upage (mem s) root dst + (dst - PGROUNDDOWN dst)) (take (unat (chunk dst len)) src)\<rparr>)
     else Ok (- 1) s)"
proof -
  have v: "uvalid (mem s) root (PGROUNDDOWN dst) = uvalid (mem s) root dst" "upage (mem s) root (PGROUNDDOWN dst) = upage (mem s) root dst"
    using same_page_upage [of "PGROUNDDOWN dst" dst] by (simp_all add: PGROUNDDOWN_eq)
  show ?thesis
    using assms(2) uspace_page(2) [OF assms(1), of dst]
    by (subst copyout.simps) (simp add: walkaddr_run [OF assms(1)] v bnd_def store_bytes_def)
qed

lemma copyin_step:
  assumes "uspace s root ps" "0 < len"
  shows "copyin root src len dst s =
    (if uvalid (mem s) root src
     then copyin root (PGROUNDDOWN src + PGSIZE) (len - chunk src len)
       (dst @ bytes (mem s) (upage (mem s) root src + (src - PGROUNDDOWN src)) (unat (chunk src len))) s
     else Ok (- 1, dst) s)"
proof -
  have v: "uvalid (mem s) root (PGROUNDDOWN src) = uvalid (mem s) root src" "upage (mem s) root (PGROUNDDOWN src) = upage (mem s) root src"
    using same_page_upage [of "PGROUNDDOWN src" src] by (simp_all add: PGROUNDDOWN_eq)
  show ?thesis
    using assms(2) uspace_page(2) [OF assms(1), of src]
    by (subst copyin.simps) (simp add: walkaddr_run [OF assms(1)] v bnd_def load_bytes_def)
qed

lemma chunk_valid:
  assumes "uvalid m root dst" "i < unat (chunk dst len)"
  shows "uvalid m root (dst + of_nat i)" "upage m root (dst + of_nat i) = upage m root dst"
proof -
  have "unat (chunk dst len) \<le> 2 ^ 64" by (simp add: less_imp_le)
  then have "dst + of_nat i \<in> span dst (unat (chunk dst len))" using assms(2) span_add by blast
  from page_chunk [OF this] show "uvalid m root (dst + of_nat i)" "upage m root (dst + of_nat i) = upage m root dst"
    using same_page_upage assms(1) by blast+
qed

text \<open>The number of bytes copied: up to the first address the user cannot access.\<close>

definition copy_stop :: "mem \<Rightarrow> addr \<Rightarrow> addr \<Rightarrow> nat \<Rightarrow> nat \<Rightarrow> int \<Rightarrow> bool" where
  "copy_stop m root va len k r \<longleftrightarrow> (\<forall>i<k. uvalid m root (va + of_nat i)) \<and>
     (r = 0 \<and> k = len \<or> r = - 1 \<and> k < len \<and> \<not> uvalid m root (va + of_nat k))"

lemma copy_stop_add:
  assumes "copy_stop m root (va + of_nat n) len k r" "\<And>i. i < n \<Longrightarrow> uvalid m root (va + of_nat i)"
  shows "copy_stop m root va (n + len) (n + k) r"
proof -
  have "uvalid m root (va + of_nat i)" if "i < n + k" for i
  proof (cases "i < n")
    case False
    then have "i - n < k" using that by simp
    then have "uvalid m root (va + of_nat n + of_nat (i - n))" using assms(1) unfolding copy_stop_def by blast
    moreover have "va + of_nat n + of_nat (i - n) = va + of_nat i" using False by (simp add: of_nat_diff)
    ultimately show ?thesis by simp
  qed (use assms(2) in blast)
  then show ?thesis using assms(1) by (auto simp: copy_stop_def add.assoc)
qed

lemma chunk_total: "unat (chunk va len) + unat (len - chunk va len) = unat len"
  using chunk_le [of va len] by (simp add: unat_chunk_rest word_le_nat_alt)

lemma copyout_copies:
  assumes "uspace s root ps" "length src = unat len"
  shows "\<exists>r t k. copyout root dst src len s = Ok r t \<and> copied s root ps dst src k t \<and>
    copy_stop (mem s) root dst (unat len) k r"
  using assms
proof (induction "unat len" arbitrary: s dst src len rule: less_induct)
  case less
  show ?case
  proof (cases "0 < len \<and> uvalid (mem s) root dst")
    case False
    then have "copyout root dst src len s = Ok (if len = 0 then 0 else - 1) s"
      using copyout_step [OF less.prems(1)] by (auto simp: word_neq_0_conv [symmetric])
    moreover have "copy_stop (mem s) root dst (unat len) 0 (if len = 0 then 0 else - 1)"
      using False by (auto simp: copy_stop_def word_neq_0_conv [symmetric] unat_gt_0)
    ultimately show ?thesis using copied_0 [OF less.prems(1)] by blast
  next
    case True
    let ?n = "unat (chunk dst len)" and ?l = "len - chunk dst len"
    define t where "t = s\<lparr>mem := write_bytes (mem s) (upage (mem s) root dst + (dst - PGROUNDDOWN dst)) (take ?n src)\<rparr>"
    have n: "0 < ?n" "?n \<le> unat len" using True chunk_pos chunk_le [of dst len] by (auto simp: word_le_nat_alt)
    have tk: "length (take ?n src) = ?n" using n less.prems(2) by simp
    note st = ubyte_store_chunk [OF less.prems(1) conjunct2 [OF True] tk]
    have ct: "copied s root ps dst src ?n t"
      using st tk unfolding copied_def t_def by (auto simp: in_span_iff)
    have run: "copyout root dst src len s = copyout root (PGROUNDDOWN dst + PGSIZE) (drop ?n src) ?l t"
      using copyout_step [OF less.prems(1), of len dst src] True by (simp add: t_def)
    have v: "\<And>i. i < ?n \<Longrightarrow> uvalid (mem s) root (dst + of_nat i)"
      using chunk_valid(1) True by blast
    show ?thesis
    proof (cases "?l = 0")
      case True
      then have "?n = unat len" using chunk_total [of dst len] by simp
      moreover have "copyout root dst src len s = Ok 0 t" using run True by simp
      ultimately show ?thesis using ct v by (auto simp: copy_stop_def)
    next
      case False
      have ut: "uspace t root ps" using ct by (simp add: copied_def)
      obtain r u k where u: "copyout root (dst + of_nat ?n) (drop ?n src) ?l t = Ok r u"
        "copied t root ps (dst + of_nat ?n) (drop ?n src) k u" "copy_stop (mem t) root (dst + of_nat ?n) (unat ?l) k r"
      proof -
        have "unat ?l < unat len" "length (drop ?n src) = unat ?l"
          using n less.prems(2) chunk_total [of dst len] by simp_all
        from less.hyps [OF this(1) ut this(2)] show ?thesis using that by blast
      qed
      have "uvalid (mem t) root va = uvalid (mem s) root va" for va
        using ct by (intro pte_uvalid) (simp add: copied_def)
      then have "copy_stop (mem s) root dst (?n + unat ?l) (?n + k) r"
        using u(3) v by (intro copy_stop_add) (simp_all add: copy_stop_def)
      moreover have "copied s root ps dst src (?n + k) u"
        using u(3) less.prems(2) chunk_total [of dst len] unat_lt_2p64 [of len]
        by (intro copied_append [OF ct u(2)]) (auto simp: copy_stop_def)
      ultimately show ?thesis
        using run u(1) chunk_rest(2) [OF False] chunk_total [of dst len] by auto
    qed
  qed
qed

text \<open>Kernel memory outside the user's pages stays as it was.\<close>

lemma copyout_outside:
  assumes "uspace s root ps" "length src = unat len" "copyout root dst src len s = Ok r t" "\<forall>va. uvalid (mem s) root va \<longrightarrow> x \<notin> page (upage (mem s) root va)"
  shows "mem t x = mem s x"
  using assms
proof (induction "unat len" arbitrary: s dst src len rule: less_induct)
  case less
  show ?case
  proof (cases "0 < len \<and> uvalid (mem s) root dst")
    case False
    then have "copyout root dst src len s = Ok (if len = 0 then 0 else - 1) s"
      using copyout_step [OF less.prems(1)] by (auto simp: word_neq_0_conv [symmetric])
    then show ?thesis using less.prems(3) by simp
  next
    case True
    let ?n = "unat (chunk dst len)" and ?l = "len - chunk dst len"
    define u where "u = s\<lparr>mem := write_bytes (mem s) (upage (mem s) root dst + (dst - PGROUNDDOWN dst)) (take ?n src)\<rparr>"
    have n: "0 < ?n" "?n \<le> unat len" using True chunk_pos chunk_le [of dst len] by (auto simp: word_le_nat_alt)
    have tk: "length (take ?n src) = ?n" using n less.prems(2) by simp
    note st = ubyte_store_chunk [OF less.prems(1) conjunct2 [OF True] tk]
    have run: "copyout root (PGROUNDDOWN dst + PGSIZE) (drop ?n src) ?l u = Ok r t"
      using copyout_step [OF less.prems(1), of len dst src] True less.prems(3) by (simp add: u_def)
    have uv: "uvalid (mem u) root va = uvalid (mem s) root va" "upage (mem u) root va = upage (mem s) root va" for va
      using st(2) by (simp_all add: u_def uvalid_def upage_def)
    have "mem u x = mem s x"
      using less.prems(4) True chunk_in_page [OF tk] tk by (auto simp: u_def write_bytes_apply less_imp_le)
    moreover have "mem t x = mem u x"
      by (rule less.hyps [OF _ _ _ run]) (use n st(1) less.prems(2,4) chunk_total [of dst len] uv in \<open>simp_all add: u_def\<close>)
    ultimately show ?thesis by simp
  qed
qed

lemma bytes_append: "bytes m a n @ bytes m (a + of_nat n) k = bytes m a (n + k)"
  by (rule nth_equalityI) (auto simp: nth_append bytes_def of_nat_diff)

definition ubytes :: "mem \<Rightarrow> addr \<Rightarrow> addr \<Rightarrow> nat \<Rightarrow> byte list" where
  "ubytes m root va n = map (\<lambda>i. ubyte m root (va + of_nat i)) [0..<n]"

lemma ubytes_append: "ubytes m root a n @ ubytes m root (a + of_nat n) k = ubytes m root a (n + k)"
  by (rule nth_equalityI) (auto simp: nth_append ubytes_def of_nat_diff)

lemma ubytes_chunk:
  assumes "uvalid m root va"
  shows "bytes m (upage m root va + (va - PGROUNDDOWN va)) (unat (chunk va len)) = ubytes m root va (unat (chunk va len))"
proof (rule nth_equalityI)
  fix i assume "i < length (bytes m (upage m root va + (va - PGROUNDDOWN va)) (unat (chunk va len)))"
  then have i: "i < unat (chunk va len)" by simp
  have "unat (chunk va len) \<le> 2 ^ 64" by (simp add: less_imp_le)
  then have "PGROUNDDOWN (va + of_nat i) = PGROUNDDOWN va" using page_chunk span_add [OF i] by blast
  then show "bytes m (upage m root va + (va - PGROUNDDOWN va)) (unat (chunk va len)) ! i = ubytes m root va (unat (chunk va len)) ! i"
    using i chunk_valid(2) [OF assms i] by (simp add: ubytes_def ubyte_def algebra_simps)
qed (simp add: ubytes_def)

lemma copyin_copies:
  assumes "uspace s root ps"
  shows "\<exists>r k. copyin root src len dst s = Ok (r, dst @ ubytes (mem s) root src k) s \<and>
    copy_stop (mem s) root src (unat len) k r"
proof (induction "unat len" arbitrary: src len dst rule: less_induct)
  case less
  show ?case
  proof (cases "0 < len \<and> uvalid (mem s) root src")
    case False
    then have "copyin root src len dst s = Ok (if len = 0 then 0 else - 1, dst) s"
      using copyin_step [OF assms] by (auto simp: word_neq_0_conv [symmetric])
    moreover have "copy_stop (mem s) root src (unat len) 0 (if len = 0 then 0 else - 1)"
      using False by (auto simp: copy_stop_def word_neq_0_conv [symmetric] unat_gt_0)
    ultimately show ?thesis by (intro exI [of _ "if len = 0 then 0 else - 1"] exI [of _ 0]) (simp add: ubytes_def)
  next
    case True
    let ?n = "unat (chunk src len)" and ?l = "len - chunk src len"
    have n: "0 < ?n" using True chunk_pos by blast
    have run: "copyin root src len dst s = copyin root (PGROUNDDOWN src + PGSIZE) ?l (dst @ ubytes (mem s) root src ?n) s"
      using copyin_step [OF assms, of len src dst] True by (simp add: ubytes_chunk)
    have v: "\<And>i. i < ?n \<Longrightarrow> uvalid (mem s) root (src + of_nat i)" using chunk_valid(1) True by blast
    show ?thesis
    proof (cases "?l = 0")
      case True
      then have "?n = unat len" using chunk_total [of src len] by simp
      moreover have "copyin root src len dst s = Ok (0, dst @ ubytes (mem s) root src ?n) s"
        using run True by simp
      ultimately show ?thesis using v by (auto simp: copy_stop_def)
    next
      case False
      obtain r k where u: "copyin root (src + of_nat ?n) ?l (dst @ ubytes (mem s) root src ?n) s =
          Ok (r, (dst @ ubytes (mem s) root src ?n) @ ubytes (mem s) root (src + of_nat ?n) k) s"
        "copy_stop (mem s) root (src + of_nat ?n) (unat ?l) k r"
      proof -
        have "unat ?l < unat len" using n chunk_total [of src len] by simp
        from less [OF this] show ?thesis using that by blast
      qed
      have "copy_stop (mem s) root src (?n + unat ?l) (?n + k) r" by (rule copy_stop_add [OF u(2) v])
      moreover have "copyin root src len dst s = Ok (r, dst @ ubytes (mem s) root src (?n + k)) s"
        using trans [OF run [unfolded chunk_rest(2) [OF False]] u(1)] by (simp only: append_assoc ubytes_append)
      ultimately show ?thesis unfolding chunk_total by blast
    qed
  qed
qed

section \<open>copyinstr\<close>

lemma copystr_page_eq:
  "copystr_page m p n dst = (length (cstr m p n) < n, dst @ cstr m p n @ (if length (cstr m p n) < n then [0] else []))"
  by (induction n arbitrary: p dst) (auto simp: cstr_Suc)

lemma cstr_chunk:
  assumes "uvalid m root va"
  shows "cstr m (upage m root va + (va - PGROUNDDOWN va)) (unat (chunk va len)) =
    takeWhile (\<lambda>b. b \<noteq> 0) (ubytes m root va (unat (chunk va len)))"
  unfolding cstr_def ubytes_chunk [OF assms] ..

lemma length_ubytes [simp]: "length (ubytes m root va n) = n"
  by (simp add: ubytes_def)

lemma nth_ubytes [simp]: "i < n \<Longrightarrow> ubytes m root va n ! i = ubyte m root (va + of_nat i)"
  by (simp add: ubytes_def)

lemma takeWhile_ubytes:
  assumes "k = length (takeWhile (\<lambda>b. b \<noteq> 0) (ubytes m root va n))"
  shows "takeWhile (\<lambda>b. b \<noteq> 0) (ubytes m root va n) = ubytes m root va k" "k \<le> n"
    "\<forall>i<k. ubyte m root (va + of_nat i) \<noteq> 0" "k < n \<Longrightarrow> ubyte m root (va + of_nat k) = 0"
proof -
  let ?P = "\<lambda>b :: byte. b \<noteq> 0"
  show kn: "k \<le> n" using assms length_takeWhile_le [of ?P "ubytes m root va n"] by simp
  have "takeWhile ?P (ubytes m root va n) = take k (ubytes m root va n)"
    using takeWhile_eq_take [of ?P "ubytes m root va n"] assms by simp
  also have "\<dots> = ubytes m root va k" using kn by (simp add: ubytes_def take_map)
  finally show "takeWhile ?P (ubytes m root va n) = ubytes m root va k" .
  show "\<forall>i<k. ubyte m root (va + of_nat i) \<noteq> 0"
  proof (intro allI impI)
    fix i assume i: "i < k"
    have "takeWhile ?P (ubytes m root va n) ! i \<in> set (takeWhile ?P (ubytes m root va n))" using i assms by simp
    then have "?P (takeWhile ?P (ubytes m root va n) ! i)" by (auto dest: set_takeWhileD)
    moreover have "takeWhile ?P (ubytes m root va n) ! i = ubytes m root va n ! i" using i assms by (intro takeWhile_nth) simp
    ultimately show "ubyte m root (va + of_nat i) \<noteq> 0" using i kn by simp
  qed
  show "ubyte m root (va + of_nat k) = 0" if "k < n"
    using nth_length_takeWhile [of ?P "ubytes m root va n"] assms that by simp
qed

text \<open>How \<open>copyinstr\<close> stops after \<open>k\<close> bytes: at a NUL, at an inaccessible address, or at the limit.\<close>

definition str_stop :: "mem \<Rightarrow> addr \<Rightarrow> addr \<Rightarrow> nat \<Rightarrow> nat \<Rightarrow> int \<Rightarrow> bool" where
  "str_stop m root va mx k r \<longleftrightarrow>
     (\<forall>i<k. uvalid m root (va + of_nat i) \<and> ubyte m root (va + of_nat i) \<noteq> 0) \<and>
     (r = 0 \<and> k < mx \<and> uvalid m root (va + of_nat k) \<and> ubyte m root (va + of_nat k) = 0 \<or>
      r = - 1 \<and> (k = mx \<or> k < mx \<and> \<not> uvalid m root (va + of_nat k)))"

lemma str_stop_add:
  assumes "str_stop m root (va + of_nat n) mx k r"
    "\<And>i. i < n \<Longrightarrow> uvalid m root (va + of_nat i) \<and> ubyte m root (va + of_nat i) \<noteq> 0"
  shows "str_stop m root va (n + mx) (n + k) r"
proof -
  have "uvalid m root (va + of_nat i) \<and> ubyte m root (va + of_nat i) \<noteq> 0" if "i < n + k" for i
  proof (cases "i < n")
    case False
    then have "i - n < k" using that by simp
    then have "uvalid m root (va + of_nat n + of_nat (i - n)) \<and> ubyte m root (va + of_nat n + of_nat (i - n)) \<noteq> 0"
      using assms(1) unfolding str_stop_def by blast
    moreover have "va + of_nat n + of_nat (i - n) = va + of_nat i" using False by (simp add: of_nat_diff)
    ultimately show ?thesis by simp
  qed (use assms(2) in blast)
  then show ?thesis using assms(1) by (auto simp: str_stop_def add.assoc)
qed

lemma copyinstr_step:
  assumes "uspace s root ps" "0 < mx" "uvalid (mem s) root src"
  defines "n \<equiv> unat (chunk src mx)"
  defines "c \<equiv> takeWhile (\<lambda>b. b \<noteq> 0) (ubytes (mem s) root src n)"
  shows "copyinstr root src mx dst s = (if length c < n then Ok (0, dst @ c @ [0]) s
     else copyinstr root (PGROUNDDOWN src + PGSIZE) (mx - chunk src mx) (dst @ c) s)"
proof -
  have v: "uvalid (mem s) root (PGROUNDDOWN src)" "upage (mem s) root (PGROUNDDOWN src) = upage (mem s) root src"
    using same_page_upage [of "PGROUNDDOWN src" src] assms(3) by (simp_all add: PGROUNDDOWN_eq)
  show ?thesis
    using assms(2) uspace_page(2) [OF assms(1,3)] v
    by (subst copyinstr.simps) (simp add: walkaddr_run [OF assms(1)] bnd_def copystr_page_eq cstr_chunk [OF assms(3)] c_def n_def)
qed

lemma copyinstr_stops:
  assumes "uspace s root ps"
  shows "\<exists>r k. copyinstr root src mx dst s = Ok (r, dst @ ubytes (mem s) root src k @ (if r = 0 then [0] else [])) s \<and>
    str_stop (mem s) root src (unat mx) k r"
proof (induction "unat mx" arbitrary: src mx dst rule: less_induct)
  case less
  show ?case
  proof (cases "0 < mx \<and> uvalid (mem s) root src")
    case False
    have v: "uvalid (mem s) root (PGROUNDDOWN src) = uvalid (mem s) root src"
      using same_page_upage [of "PGROUNDDOWN src" src] by (simp add: PGROUNDDOWN_eq)
    have "copyinstr root src mx dst s = Ok (- 1, dst) s"
      using False v by (subst copyinstr.simps) (auto simp: walkaddr_run [OF assms] bnd_def)
    moreover have "str_stop (mem s) root src (unat mx) 0 (- 1)"
      using False by (auto simp: str_stop_def word_neq_0_conv [symmetric] unat_gt_0)
    ultimately show ?thesis by (intro exI [of _ "- 1"] exI [of _ 0]) (simp add: ubytes_def)
  next
    case True
    let ?n = "unat (chunk src mx)" and ?l = "mx - chunk src mx"
    define k where "k = length (takeWhile (\<lambda>b. b \<noteq> 0) (ubytes (mem s) root src ?n))"
    note tw = takeWhile_ubytes [OF k_def]
    have n: "0 < ?n" "?n \<le> unat mx" using True chunk_pos chunk_le [of src mx] by (auto simp: word_le_nat_alt)
    have v: "\<And>i. i < ?n \<Longrightarrow> uvalid (mem s) root (src + of_nat i)" using chunk_valid(1) True by blast
    have run: "copyinstr root src mx dst s = (if k < ?n then Ok (0, dst @ ubytes (mem s) root src k @ [0]) s
        else copyinstr root (PGROUNDDOWN src + PGSIZE) ?l (dst @ ubytes (mem s) root src k) s)"
      using copyinstr_step [OF assms, of mx src dst] True by (simp add: tw(1))
    show ?thesis
    proof (cases "k < ?n")
      case True
      then have "str_stop (mem s) root src (unat mx) k 0" using tw v n by (auto simp: str_stop_def)
      then show ?thesis using run True by (intro exI [of _ 0] exI [of _ k]) simp
    next
      case False
      then have kn: "k = ?n" using tw(2) by simp
      show ?thesis
      proof (cases "?l = 0")
        case True
        then have "?n = unat mx" using chunk_total [of src mx] by simp
        moreover have "copyinstr root src mx dst s = Ok (- 1, dst @ ubytes (mem s) root src k) s"
          unfolding run using False True by (simp add: copyinstr.simps [of _ _ 0])
        ultimately show ?thesis using tw(3) v kn by (intro exI [of _ "- 1"] exI [of _ k]) (auto simp: str_stop_def)
      next
        case l: False
        have "unat ?l < unat mx" using n chunk_total [of src mx] by simp
        then obtain r j where u: "copyinstr root (src + of_nat ?n) ?l (dst @ ubytes (mem s) root src ?n) s =
            Ok (r, (dst @ ubytes (mem s) root src ?n) @ ubytes (mem s) root (src + of_nat ?n) j @ (if r = 0 then [0] else [])) s"
          "str_stop (mem s) root (src + of_nat ?n) (unat ?l) j r"
          using less by blast
        have "str_stop (mem s) root src (?n + unat ?l) (?n + j) r"
          using tw(3) v kn by (intro str_stop_add [OF u(2)]) simp
        moreover have "copyinstr root src mx dst s = Ok (r, dst @ ubytes (mem s) root src (?n + j) @ (if r = 0 then [0] else [])) s"
          using u(1) unfolding run kn chunk_rest(2) [OF l] ubytes_append [symmetric] by (simp only: less_irrefl if_False append_assoc)
        ultimately show ?thesis unfolding chunk_total by blast
      qed
    qed
  qed
qed

section \<open>uvmunmap\<close>

lemma us_inv_sub:
  assumes "us_inv s root ps" "tables (mem t) root = tables (mem s) root" "phys_page t = phys_page s"
    "\<And>wa. uvalid (mem t) root wa \<Longrightarrow> uvalid (mem s) root wa \<and> upage (mem t) root wa = upage (mem s) root wa \<and>
      upage (mem s) root wa \<notin> set qs"
  shows "us_inv t root qs"
proof -
  have "phys_page t (upage (mem t) root va) \<and> upage (mem t) root va \<notin> tables (mem t) root \<and> upage (mem t) root va \<notin> set qs"
    if "uvalid (mem t) root va" for va
    using assms(4) [OF that] assms(1-3) unfolding us_inv_def by metis
  moreover have "PGROUNDDOWN va = PGROUNDDOWN wa"
    if "uvalid (mem t) root va" "uvalid (mem t) root wa" "upage (mem t) root va = upage (mem t) root wa" for va wa
    using assms(4) [OF that(1)] assms(4) [OF that(2)] that(3) assms(1) unfolding us_inv_def by metis
  ultimately show ?thesis unfolding us_inv_def by blast
qed

lemma pt_grow_same_tables:
  assumes "kmem_ready s ps" "pt_inv s root ps" "tab (mem s) root [PX 2 va, PX 1 va] = Some q"
  shows "tables (write64 (mem s) (slot q (PX 0 va)) v) root = tables (mem s) root"
  using tab_leaf_store [OF assms(2,3)] by (intro tables_cong) simp

text \<open>Freeing a user page.\<close>

lemma kfree_user_page:
  assumes u: "uspace s root ps" and v: "uvalid (mem s) root va"
  obtains t where "kfree (upage (mem s) root va) s = Ok () t" "kstep s t" "kmem_ready t (upage (mem s) root va # ps)"
    "pt_inv t root (upage (mem s) root va # ps)" "tables (mem t) root = tables (mem s) root"
    "\<And>wa. pte_of (mem t) root wa = pte_of (mem s) root wa" "pte_addr (mem t) root va = pte_addr (mem s) root va"
proof -
  let ?p = "upage (mem s) root va"
  define m' where "m' = write64 (memset (mem s) ?p 1 4096) ?p (freelist s)"
  define t where "t = s\<lparr>sync := quiet (sync s), mem := m', freelist := ?p\<rparr>"
  note up = uspace_page [OF u v]
  have i: "kmem_ready s ps" "pt_inv s root ps" using u by (simp_all add: uspace_def)
  have run: "kfree ?p s = Ok () t"
    using kfree_run [OF up(1)] i(1) by (simp add: t_def m'_def kmem_ready_def)
  have ready: "kmem_ready t (?p # ps)"
    using kpages.free_page [OF i(1) up(1,4)] run by (simp add: wp_def)
  have out: "m' x = mem s x" if "x \<notin> page ?p" for x
  proof -
    have "x \<notin> span ?p 8" using that slot0_page [OF phys_pageD [OF up(1)]] by blast
    then show ?thesis using that by (simp add: m'_def write64_outside memset_page_outside)
  qed
  have keep: "m' x = mem s x" if "r \<in> tables (mem s) root" "x \<in> page r" for r x
  proof -
    have "page r \<inter> page ?p = {}"
      using that(1) i(2) up by (intro page_disjoint) (auto simp: pt_inv_def phys_page_def)
    then show ?thesis using that(2) out by blast
  qed
  have tab: "tab m' root js = tab (mem s) root js" if "length js \<le> 2" "idxs js" for js
    by (rule tab_frame [OF i(2) _ that]) (use keep in auto)
  have "pte_of m' root wa = pte_of (mem s) root wa" for wa
    by (rule pte_of_frame [OF i(2)]) (use keep in auto)
  moreover have "pt_inv t root (?p # ps)"
    by (rule pt_inv_frame [OF i(2)]) (use keep i(2) up(3) in \<open>auto simp: t_def pt_inv_def\<close>)
  ultimately show ?thesis
    using that [OF run _ ready] tables_cong [OF tab] tab [of "[PX 2 va, PX 1 va]"]
    by (simp add: t_def pte_addr_def kstep_intro)
qed

lemma PTE_FLAGS_user: "v AND PTE_U \<noteq> 0 \<Longrightarrow> PTE_FLAGS v \<noteq> PTE_V"
proof
  assume u: "v AND PTE_U \<noteq> 0" and f: "PTE_FLAGS v = PTE_V"
  have "v AND PTE_U = PTE_FLAGS v AND PTE_U" by (simp add: PTE_FLAGS_def const_vals and.assoc)
  then show False using u f by (simp add: const_vals)
qed

lemma unmap_user_page:
  assumes u: "uspace s root ps" and v: "uvalid (mem s) root a" and a: "a < aend"
  shows "\<exists>t. uvmunmap_loop root a aend True s = uvmunmap_loop root (a + PGSIZE) aend True t \<and>
    uspace t root (upage (mem s) root a # ps) \<and> kstep s t \<and>
    (\<forall>wa. wa < MAXVA \<longrightarrow> pte_of (mem t) root wa = (if PGROUNDDOWN wa = PGROUNDDOWN a then 0 else pte_of (mem s) root wa))"
proof -
  let ?p = "upage (mem s) root a"
  obtain t where t: "kfree ?p s = Ok () t" "kstep s t" "kmem_ready t (?p # ps)" "pt_inv t root (?p # ps)"
    "tables (mem t) root = tables (mem s) root" "\<And>wa. pte_of (mem t) root wa = pte_of (mem s) root wa"
    "pte_addr (mem t) root a = pte_addr (mem s) root a" using kfree_user_page [OF u v] by blast
  have va: "a < MAXVA" and pv: "pte_of (mem s) root a AND PTE_V \<noteq> 0" "pte_of (mem s) root a AND PTE_U \<noteq> 0"
    using v by (auto simp: uvalid_def)
  have i: "pt_inv s root ps" "0 < sym_end s" using u by (auto simp: uspace_def kmem_ready_end)
  have "pte_of (mem t) root a \<noteq> 0" using pv t(6) by auto
  then obtain q where q: "tab (mem t) root [PX 2 a, PX 1 a] = Some q" by (auto simp: pte_of_def split: option.splits)
  then have pa: "pte_addr (mem s) root a = slot q (PX 0 a)" using t(7) by (simp add: pte_addr_def)
  have nz: "slot q (PX 0 a) \<noteq> 0"
    using pt_invD(2) [OF t(4) q] kmem_ready_end [OF t(3)] by (intro slot_nonzero) auto
  then have rd: "read64 (mem s) (slot q (PX 0 a)) = pte_of (mem s) root a"
    using read_pte_addr [OF i, of a] pa by simp
  define w where "w = t\<lparr>mem := write64 (mem t) (slot q (PX 0 a)) 0\<rparr>"
  have run: "uvmunmap_loop root a aend True s = uvmunmap_loop root (a + PGSIZE) aend True w"
    using a pv PTE_FLAGS_user t(1) nz rd unfolding upage_def
    by (subst uvmunmap_loop.simps) (simp add: walk_lookup [OF va] pa bnd_def w_def)
  have pte: "pte_of (mem w) root wa = (if PGROUNDDOWN wa = PGROUNDDOWN a then 0 else pte_of (mem s) root wa)"
    if "wa < MAXVA" for wa
    using pte_of_leaf_store [OF t(4) q va that] t(6) by (simp add: w_def)
  note g = leaf_store_grow [OF t(3,4) q, of 0, folded w_def]
  have kw: "kstep s w" using kstep_trans [OF t(2)] kstep_intro(1) by (auto simp: w_def)
  have "us_inv w root (?p # ps)"
  proof (rule us_inv_sub [of s _ ps])
    show "tables (mem w) root = tables (mem s) root"
      using pt_grow_same_tables [OF t(3,4) q] t(5) by (simp add: w_def)
    fix wa assume w: "uvalid (mem w) root wa"
    then have p: "pte_of (mem w) root wa = pte_of (mem s) root wa" "PGROUNDDOWN wa \<noteq> PGROUNDDOWN a"
      using pte [of wa] by (auto simp: uvalid_def)
    then have vs: "uvalid (mem s) root wa" using w by (simp add: uvalid_def)
    then show "uvalid (mem s) root wa \<and> upage (mem w) root wa = upage (mem s) root wa \<and> upage (mem s) root wa \<notin> set (?p # ps)"
      using p uspace_inj [OF u vs v] uspace_page(4) [OF u vs] by (auto simp: upage_def)
  qed (use u kstepD(8) [OF kw] in \<open>auto simp: uspace_def\<close>)
  then have "uspace w root (?p # ps)" using g by (simp add: uspace_def pt_grow_def)
  then show ?thesis using run pte kw by blast
qed

text \<open>The pages behind \<open>n\<close> pages of addresses, in the order \<open>uvmunmap\<close> frees them.\<close>

definition upages :: "mem \<Rightarrow> addr \<Rightarrow> addr \<Rightarrow> nat \<Rightarrow> addr list" where
  "upages m root va n = map (\<lambda>i. upage m root (va + of_nat i * 4096)) [0..<n]"

lemma upages_Suc: "upages m root va (Suc n) = upage m root va # upages m root (va + 4096) n"
  unfolding upages_def
  by (simp add: upt_conv_Cons map_Suc_upt [symmetric] algebra_simps del: upt_Suc)

lemma next_page:
  assumes "page_aligned va" "unat va + 4096 * Suc n \<le> unat MAXVA"
  shows "va < MAXVA" "unat (va + 4096) = unat va + 4096" "page_aligned (va + 4096)"
proof -
  show v: "va < MAXVA" using assms(2) by (simp add: word_less_nat_alt)
  show u: "unat (va + 4096) = unat va + 4096" using below_MAXVA_next [OF v] by (simp add: PGSIZE_def)
  show "page_aligned (va + 4096)" using assms(1) u by (simp add: page_aligned_iff)
qed

lemma unmap_user_pages:
  assumes "uspace s root ps" "page_aligned va" "unat va + 4096 * n \<le> unat aend" "unat va + 4096 * n \<le> unat MAXVA"
    "\<forall>i<n. uvalid (mem s) root (va + of_nat i * 4096)"
  shows "\<exists>t. uvmunmap_loop root va aend True s = uvmunmap_loop root (va + of_nat n * 4096) aend True t \<and>
    uspace t root (rev (upages (mem s) root va n) @ ps) \<and> kstep s t \<and>
    (\<forall>wa. wa < MAXVA \<longrightarrow> pte_of (mem t) root wa = (if in_pages va n wa then 0 else pte_of (mem s) root wa))"
  using assms
proof (induction n arbitrary: s ps va)
  case 0
  then show ?case using kstep_intro(4) [of s] by (auto simp: upages_def)
next
  case (Suc n)
  note nx = next_page [OF Suc.prems(2,4)]
  have "uvalid (mem s) root va" "va < aend" using Suc.prems(3,5) by (auto simp: word_less_nat_alt dest: spec [of _ 0])
  from unmap_user_page [OF Suc.prems(1) this] obtain t where
    t: "uvmunmap_loop root va aend True s = uvmunmap_loop root (va + 4096) aend True t"
      "uspace t root (upage (mem s) root va # ps)" "kstep s t"
      "\<And>wa. wa < MAXVA \<Longrightarrow> pte_of (mem t) root wa = (if PGROUNDDOWN wa = va then 0 else pte_of (mem s) root wa)"
    by (auto simp: PGSIZE_def PGROUNDDOWN_eq [OF Suc.prems(2)])
  have pg: "unat (va + 4096 + of_nat i * 4096) = unat va + 4096 + i * 4096" if "i < n" for i
  proof -
    have "unat va + 4096 + i * 4096 < 2 ^ 64" using that Suc.prems(4) by (simp add: const_vals)
    moreover have "va + 4096 + of_nat i * 4096 = of_nat (unat va + 4096 + i * 4096)" by simp
    ultimately show ?thesis by (simp only: unat_of_nat) simp
  qed
  have keep: "uvalid (mem t) root wa = uvalid (mem s) root wa \<and> upage (mem t) root wa = upage (mem s) root wa"
    if "i < n" "wa = va + 4096 + of_nat i * 4096" for wa i
  proof -
    have "wa < MAXVA" using that pg [OF that(1)] Suc.prems(4) by (simp add: word_less_nat_alt)
    moreover have "\<not> in_pages va 1 wa" using that pg [OF that(1)] by (simp add: in_pages_def)
    ultimately show ?thesis
      using t(4) same_page_iff [OF Suc.prems(2), of wa] by (simp add: uvalid_def upage_def)
  qed
  have "\<forall>i<n. uvalid (mem t) root (va + 4096 + of_nat i * 4096)"
  proof (intro allI impI)
    fix i assume "i < n"
    moreover from this have "uvalid (mem s) root (va + of_nat (Suc i) * 4096)" using Suc.prems(5) by (metis Suc_less_eq)
    ultimately show "uvalid (mem t) root (va + 4096 + of_nat i * 4096)"
      using keep [of i] by (simp add: algebra_simps)
  qed
  then obtain w where w: "uvmunmap_loop root (va + 4096) aend True t = uvmunmap_loop root (va + 4096 + of_nat n * 4096) aend True w"
    "uspace w root (rev (upages (mem t) root (va + 4096) n) @ upage (mem s) root va # ps)" "kstep t w"
    "\<forall>wa. wa < MAXVA \<longrightarrow> pte_of (mem w) root wa = (if in_pages (va + 4096) n wa then 0 else pte_of (mem t) root wa)"
    using Suc.IH [OF t(2) nx(3)] Suc.prems(3,4) nx(2) by auto
  have "upages (mem t) root (va + 4096) n = upages (mem s) root (va + 4096) n"
    using keep by (auto simp: upages_def)
  then show ?case
    using t w kstep_trans [OF t(3) w(3)] in_pages_Suc [OF Suc.prems(2) nx(2)]
    by (auto simp: upages_Suc algebra_simps intro!: exI [of _ w])
qed

text \<open>
  \<open>uvmunmap\<close> with \<open>do_free\<close> on \<open>npages\<close> mapped user pages returns, puts each of their physical pages
  back on the free list once, and clears exactly the entries of the range: every other address keeps its
  translation, and the address space and the allocator stay well formed.
\<close>

theorem uvmunmap_correct:
  assumes "uspace s root ps" "page_aligned va" "unat va + 4096 * unat npages \<le> unat MAXVA"
    "\<forall>i<unat npages. uvalid (mem s) root (va + of_nat i * 4096)"
  shows "\<exists>t. uvmunmap root va npages True s = Ok () t \<and>
    uspace t root (rev (upages (mem s) root va (unat npages)) @ ps) \<and>
    (\<forall>wa. wa < MAXVA \<longrightarrow> pte_of (mem t) root wa = (if in_pages va (unat npages) wa then 0 else pte_of (mem s) root wa))"
proof -
  let ?e = "va + npages * PGSIZE"
  have e: "?e = va + of_nat (unat npages) * 4096" by (simp add: PGSIZE_def)
  have "?e = of_nat (unat va + 4096 * unat npages)" by (simp add: PGSIZE_def)
  then have ue: "unat ?e = unat va + 4096 * unat npages"
    using assms(3) by (simp only: unat_of_nat) (simp add: const_vals)
  obtain t where t: "uvmunmap_loop root va ?e True s = uvmunmap_loop root ?e ?e True t"
    "uspace t root (rev (upages (mem s) root va (unat npages)) @ ps)"
    "\<forall>wa. wa < MAXVA \<longrightarrow> pte_of (mem t) root wa = (if in_pages va (unat npages) wa then 0 else pte_of (mem s) root wa)"
    using unmap_user_pages [OF assms(1,2) _ assms(3,4), of ?e] ue e by auto
  have "uvmunmap root va npages True s = Ok () t"
    using t(1) assms(2) by (simp add: uvmunmap_def page_aligned_def uvmunmap_loop.simps [of root ?e])
  then show ?thesis using t by blast
qed

section \<open>A user address space for the witnesses\<close>

text \<open>
  The root table at \<open>0x80032000\<close>, one table below it on each level, and two user pages at the virtual
  addresses 0 and \<open>0x1000\<close>; one page is free.
\<close>

definition demo_mem :: mem where
  "demo_mem = write64 (write64 (write64 (write64 (\<lambda>_. 0)
     (slot 0x80032000 0) (PA2PTE 0x80033000 OR PTE_V))
     (slot 0x80033000 0) (PA2PTE 0x80034000 OR PTE_V))
     (slot 0x80034000 0) (PA2PTE 0x80035000 OR 0x1F))
     (slot 0x80034000 1) (PA2PTE 0x80036000 OR 0x17)"

definition demo_user :: kmem where
  "demo_user = \<lparr>sync = idle_sync, mem = demo_mem, sym_end = 0x80021000, sym_etext = 0x80008000,
     sym_trampoline = 0x80007000, freelist = 0x80030000\<rparr>"

lemma PTE_V_neq_0 [simp]: "PTE_V \<noteq> 0"
  by (simp add: const_vals)

lemma demo_read:
  assumes "page_aligned p" "unat i < 512"
  shows "read64 demo_mem (slot p i) =
    (if p = 0x80034000 \<and> i = 1 then PA2PTE 0x80036000 OR 0x17
     else if p = 0x80034000 \<and> i = 0 then PA2PTE 0x80035000 OR 0x1F
     else if p = 0x80033000 \<and> i = 0 then PA2PTE 0x80034000 OR PTE_V
     else if p = 0x80032000 \<and> i = 0 then PA2PTE 0x80033000 OR PTE_V else 0)"
proof -
  have al: "page_aligned 0x80032000" "page_aligned 0x80033000" "page_aligned 0x80034000"
    by (simp_all add: page_aligned_def PGSIZE_def)
  have z: "read64 (\<lambda>_. 0) a = 0" for a by (simp add: read64_def)
  consider "p = 0x80034000 \<and> i = 1" | "p = 0x80034000 \<and> i = 0" | "p = 0x80033000 \<and> i = 0" | "p = 0x80032000 \<and> i = 0"
    | "\<not> (p = 0x80034000 \<and> i = 1)" "\<not> (p = 0x80034000 \<and> i = 0)" "\<not> (p = 0x80033000 \<and> i = 0)" "\<not> (p = 0x80032000 \<and> i = 0)"
    by blast
  then show ?thesis
    unfolding demo_mem_def using assms by cases (auto simp: slot_store_other al z)
qed

lemma demo_tab:
  assumes "idxs is" "length is \<le> 2"
  shows "tab demo_mem 0x80032000 is = (case is of [] \<Rightarrow> Some 0x80032000
    | [i] \<Rightarrow> (if i = 0 then Some 0x80033000 else None)
    | i # j # _ \<Rightarrow> (if i = 0 \<and> j = 0 then Some 0x80034000 else None))"
proof -
  have al: "page_aligned 0x80032000" "page_aligned 0x80033000" "page_aligned 0x80034000"
    by (simp_all add: page_aligned_def PGSIZE_def)
  obtain i j where "is = [] \<or> is = [i] \<or> is = [i, j]"
    using assms(2) by (cases "is"; cases "tl is") (auto simp: length_Suc_conv le_Suc_eq)
  then show ?thesis
    using assms(1) al by (auto simp: tab.simps Let_def demo_read pte_link)
qed

lemma demo_pte_of:
  "pte_of demo_mem 0x80032000 va = (if PX 2 va = 0 \<and> PX 1 va = 0
     then (if PX 0 va = 0 then PA2PTE 0x80035000 OR 0x1F else if PX 0 va = 1 then PA2PTE 0x80036000 OR 0x17 else 0) else 0)"
proof -
  have "page_aligned 0x80034000" by (simp add: page_aligned_def PGSIZE_def)
  then show ?thesis by (simp add: pte_of_def demo_tab demo_read)
qed

lemma demo_pte_cases:
  assumes "va < MAXVA"
  shows "pte_of demo_mem 0x80032000 va = (if PGROUNDDOWN va = 0 then PA2PTE 0x80035000 OR 0x1F
    else if PGROUNDDOWN va = 0x1000 then PA2PTE 0x80036000 OR 0x17 else 0)"
proof -
  have v: "(0 :: addr) < MAXVA" "(0x1000 :: addr) < MAXVA" by (simp_all add: const_vals)
  have px: "PX 2 0 = 0" "PX 1 0 = 0" "PX 0 0 = 0" "PX 2 0x1000 = 0" "PX 1 0x1000 = 0" "PX 0 0x1000 = 1"
    by (simp_all add: PX_def PXSHIFT_def drop_bit_eq_div)
  have "PGROUNDDOWN 0 = 0" "PGROUNDDOWN 0x1000 = 0x1000" by (simp_all add: PGROUNDDOWN_def PGSIZE_def)
  then show ?thesis
    using PX_pages [OF assms v(1)] PX_pages [OF assms v(2)] px by (auto simp: demo_pte_of)
qed

lemma demo_flags:
  "(PA2PTE 0x80035000 OR 0x1F) AND PTE_V \<noteq> 0" "(PA2PTE 0x80035000 OR 0x1F) AND PTE_U \<noteq> 0"
  "(PA2PTE 0x80036000 OR 0x17) AND PTE_V \<noteq> 0" "(PA2PTE 0x80036000 OR 0x17) AND PTE_U \<noteq> 0"
  "PTE2PA (PA2PTE 0x80035000 OR 0x1F) = 0x80035000" "PTE2PA (PA2PTE 0x80036000 OR 0x17) = 0x80036000"
proof -
  have "page_aligned 0x80035000" "page_aligned 0x80036000" by (simp_all add: page_aligned_def PGSIZE_def)
  then show "PTE2PA (PA2PTE 0x80035000 OR 0x1F) = 0x80035000" "PTE2PA (PA2PTE 0x80036000 OR 0x17) = 0x80036000"
    by (simp_all add: PTE_pack)
qed (simp_all add: PA2PTE_def const_vals)

lemma demo_uvalid:
  "uvalid demo_mem 0x80032000 va \<longleftrightarrow> va < MAXVA \<and> (PGROUNDDOWN va = 0 \<or> PGROUNDDOWN va = 0x1000)"
  "va < MAXVA \<Longrightarrow> PGROUNDDOWN va = 0 \<Longrightarrow> upage demo_mem 0x80032000 va = 0x80035000"
  "va < MAXVA \<Longrightarrow> PGROUNDDOWN va = 0x1000 \<Longrightarrow> upage demo_mem 0x80032000 va = 0x80036000"
  by (auto simp: uvalid_def upage_def demo_pte_cases demo_flags split: if_splits)

lemma demo_uspace: "uspace demo_user 0x80032000 [0x80030000]"
proof -
  have al: "page_aligned 0x80030000" by (simp add: page_aligned_def PGSIZE_def)
  have ready: "kmem_ready demo_user [0x80030000]"
    using demo_read [OF al, of 0] by (simp add: demo_user_def kmem_ready_def kmem_inv_def phys_page_def al const_vals slot_def)
  have tabs: "tables demo_mem 0x80032000 \<subseteq> {0x80032000, 0x80033000, 0x80034000}"
    by (auto simp: tables_def demo_tab split: list.splits if_splits)
  have "pt_inv demo_user 0x80032000 [0x80030000]"
    unfolding pt_inv_def
  proof (intro conjI ballI allI impI)
    fix p assume "p \<in> tables (mem demo_user) 0x80032000"
    then have "p = 0x80032000 \<or> p = 0x80033000 \<or> p = 0x80034000" using tabs by (auto simp: demo_user_def)
    then show "phys_page demo_user p" "p \<notin> set [0x80030000]"
      by (auto simp: phys_page_def demo_user_def page_aligned_def PGSIZE_def const_vals)
  next
    fix "is" js p assume "length is \<le> 2" "length js \<le> 2" "idxs is" "idxs js"
      "tab (mem demo_user) 0x80032000 is = Some p" "tab (mem demo_user) 0x80032000 js = Some p"
    then show "is = js" by (auto simp: demo_user_def demo_tab split: list.splits if_splits)
  qed
  moreover have "us_inv demo_user 0x80032000 [0x80030000]"
    unfolding us_inv_def using tabs
    by (auto simp: demo_user_def demo_uvalid phys_page_def page_aligned_def PGSIZE_def const_vals)
  ultimately show ?thesis using ready by (simp add: uspace_def)
qed

theorem uvmunmap_correct_witness:
  "uspace demo_user 0x80032000 [0x80030000] \<and>
   (\<exists>t. uvmunmap 0x80032000 0 2 True demo_user = Ok () t \<and> uspace t 0x80032000 [0x80036000, 0x80035000, 0x80030000])"
proof -
  have pg: "PGROUNDDOWN 0 = 0" "PGROUNDDOWN 0x1000 = 0x1000" by (simp_all add: PGROUNDDOWN_def PGSIZE_def)
  have m: "mem demo_user = demo_mem" by (simp add: demo_user_def)
  have v: "(0 :: addr) < MAXVA" "(0x1000 :: addr) < MAXVA" by (simp_all add: const_vals)
  have "\<forall>i<2. uvalid (mem demo_user) 0x80032000 (0 + of_nat i * 4096)"
    using v pg by (auto simp: m demo_uvalid less_2_cases_iff)
  then have "\<forall>i<unat (2 :: uint64). uvalid (mem demo_user) 0x80032000 (0 + of_nat i * 4096)" by simp
  moreover have "unat (0 :: addr) + 4096 * unat (2 :: uint64) \<le> unat MAXVA" by (simp add: const_vals)
  moreover have "upages demo_mem 0x80032000 0 2 = [0x80035000, 0x80036000]"
    using v pg by (simp add: upages_def numeral_2_eq_2 demo_uvalid)
  ultimately show ?thesis
    using uvmunmap_correct [OF demo_uspace page_aligned_0, of 2] demo_uspace by (auto simp: m)
qed

section \<open>Properties of the copies\<close>

text \<open>
  C35: \<open>copyout\<close> returns; the user sees exactly the first \<open>k\<close> bytes of the buffer at the destination and
  every other accessible byte unchanged, across page boundaries. It returns 0 when all \<open>len\<close> bytes were
  copied and -1 when it stopped at the first address the user cannot access. Translations, page tables
  and the free list are kept.
\<close>

theorem copyout_correct:
  assumes "uspace s root ps" "length src = unat len"
  shows "\<exists>r t k. copyout root dst src len s = Ok r t \<and> uspace t root ps \<and>
    (\<forall>va. pte_of (mem t) root va = pte_of (mem s) root va) \<and>
    (\<forall>va. uvalid (mem s) root va \<longrightarrow> ubyte (mem t) root va =
       (if va \<in> span dst k then src ! unat (va - dst) else ubyte (mem s) root va)) \<and>
    copy_stop (mem s) root dst (unat len) k r"
  using copyout_copies [OF assms] unfolding copied_def by blast

text \<open>
  \<open>copyin\<close> changes nothing and returns in the kernel buffer the bytes the user sees from the source
  address on: all of them with result 0, or those before the first inaccessible address with -1.
\<close>

theorem copyin_correct:
  assumes "uspace s root ps"
  shows "\<exists>r k. copyin root src len [] s = Ok (r, ubytes (mem s) root src k) s \<and>
    copy_stop (mem s) root src (unat len) k r"
  using copyin_copies [OF assms, of src len "[]"] by simp

text \<open>
  Round trip: what \<open>copyout\<close> wrote to user memory with result 0, \<open>copyin\<close> of the same range reads
  back.
\<close>

theorem copy_roundtrip:
  assumes "uspace s root ps" "length src = unat len" "copyout root dst src len s = Ok 0 t"
  shows "copyin root dst len [] t = Ok (0, src) t"
proof -
  obtain r k where c: "copied s root ps dst src k t" "copy_stop (mem s) root dst (unat len) k 0"
    using copyout_copies [OF assms(1,2), of dst] assms(3) by auto
  then have k: "k = unat len" "\<forall>i<k. uvalid (mem s) root (dst + of_nat i)" by (auto simp: copy_stop_def)
  have vt: "uvalid (mem t) root va = uvalid (mem s) root va" for va
    using c(1) by (intro pte_uvalid) (simp add: copied_def)
  have ut: "uspace t root ps" using c(1) by (simp add: copied_def)
  obtain r j where j: "copyin root dst len [] t = Ok (r, ubytes (mem t) root dst j) t" "copy_stop (mem t) root dst (unat len) j r"
    using copyin_copies [OF ut, of dst len "[]"] by auto
  then have rj: "r = 0" "j = unat len" using k vt by (auto simp: copy_stop_def)
  have "ubytes (mem t) root dst (unat len) = src"
  proof (rule nth_equalityI)
    fix i assume "i < length (ubytes (mem t) root dst (unat len))"
    then have i: "i < unat len" by simp
    then have "dst + of_nat i \<in> span dst (unat len)" by (intro span_add) (auto simp: less_imp_le)
    then have "ubyte (mem t) root (dst + of_nat i) = src ! unat (dst + of_nat i - dst)"
      using c(1) k i by (simp add: copied_def)
    moreover have "unat (of_nat i :: addr) = i"
      using less_trans [OF i unat_lt_2p64] by (simp add: unat_of_nat)
    ultimately show "ubytes (mem t) root dst (unat len) ! i = src ! i" using i by simp
  qed (simp add: assms(2))
  then show ?thesis using j rj by simp
qed

text \<open>
  \<open>copyinstr\<close> changes nothing and stores the string the user sees at the address with its NUL,
  with result 0, exactly when a NUL comes within \<open>max\<close> accessible bytes; otherwise it returns -1, with the
  bytes before the first inaccessible address or the limit.
\<close>

theorem copyinstr_correct:
  assumes "uspace s root ps"
  shows "\<exists>r k. copyinstr root src mx [] s = Ok (r, ubytes (mem s) root src k @ (if r = 0 then [0] else [])) s \<and>
    str_stop (mem s) root src (unat mx) k r"
  using copyinstr_stops [OF assms, of src mx "[]"] by simp

theorem copyout_correct_witness:
  "uspace demo_user 0x80032000 [0x80030000] \<and> length [1, 2, 3 :: byte] = unat (3 :: uint64) \<and>
   (\<exists>r t k. copyout 0x80032000 0xFFF [1, 2, 3] 3 demo_user = Ok r t \<and> uspace t 0x80032000 [0x80030000] \<and>
     copy_stop demo_mem 0x80032000 0xFFF 3 k r)"
  using copyout_correct [OF demo_uspace, of "[1, 2, 3]" 3 "0xFFF"] demo_uspace by (auto simp: demo_user_def)

theorem copyin_correct_witness:
  "\<exists>r k. copyin 0x80032000 0x1FFE 4 [] demo_user = Ok (r, ubytes demo_mem 0x80032000 0x1FFE k) demo_user \<and>
     copy_stop demo_mem 0x80032000 0x1FFE 4 k r"
  using copyin_correct [OF demo_uspace, of "0x1FFE" 4] by (simp add: demo_user_def)

theorem copy_roundtrip_witness:
  "\<exists>t. copyout 0x80032000 0xFFF [1, 2, 3] 3 demo_user = Ok 0 t \<and> copyin 0x80032000 0xFFF 3 [] t = Ok (0, [1, 2, 3]) t"
proof -
  have len: "length [1, 2, 3 :: byte] = unat (3 :: uint64)" by simp
  obtain r t k where t: "copyout 0x80032000 0xFFF [1, 2, 3] 3 demo_user = Ok r t"
    "copy_stop (mem demo_user) 0x80032000 0xFFF (unat (3 :: uint64)) k r"
    using copyout_copies [OF demo_uspace len] by blast
  have "uvalid demo_mem 0x80032000 (0xFFF + of_nat i)" if "i < 3" for i
  proof -
    have "i = 0 \<or> i = 1 \<or> i = 2" using that by auto
    then show ?thesis by (auto simp: demo_uvalid PGROUNDDOWN_def PGSIZE_def const_vals)
  qed
  then have "r = 0" using t(2) by (auto simp: copy_stop_def demo_user_def)
  then show ?thesis using copy_roundtrip [OF demo_uspace len, of "0xFFF" t] t(1) by auto
qed

theorem copyinstr_correct_witness:
  "\<exists>r k. copyinstr 0x80032000 0x1FFE 4 [] demo_user =
       Ok (r, ubytes demo_mem 0x80032000 0x1FFE k @ (if r = 0 then [0] else [])) demo_user \<and>
     str_stop demo_mem 0x80032000 0x1FFE 4 k r"
  using copyinstr_correct [OF demo_uspace, of "0x1FFE" 4] by (simp add: demo_user_def)

section \<open>Shrinking\<close>

lemma PGROUNDUP_small:
  "unat x \<le> 0x7FFFF000 \<Longrightarrow> unat (PGROUNDUP x) = (unat x + 4095) div 4096 * 4096 \<and> unat (PGROUNDUP x) \<le> 0x7FFFF000"
proof -
  assume x: "unat x \<le> 0x7FFFF000"
  have u: "unat (PGROUNDUP x) = (unat x + 4095) div 4096 * 4096" using x by (intro unat_PGROUNDUP) simp
  moreover have "(unat x + 4095) div 4096 \<le> 0x7FFFF" using x by (intro round_up_le) simp
  ultimately show ?thesis by simp
qed

lemma unmap_unmapped_panics:
  assumes "uspace s root ps" "a < aend" "a < MAXVA" "pte_of (mem s) root a AND PTE_V = 0"
  shows "uvmunmap_loop root a aend f s = Panic ''uvmunmap: walk'' \<or> uvmunmap_loop root a aend f s = Panic ''uvmunmap: not mapped''"
proof -
  have i: "pt_inv s root ps" "0 < sym_end s" using assms(1) by (auto simp: uspace_def kmem_ready_end)
  show ?thesis
    using assms(2,4) read_pte_addr [OF i, of a]
    by (subst (1 2) uvmunmap_loop.simps) (auto simp: walk_lookup [OF assms(3)] bnd_def)
qed

lemma scast_small: "unat (d :: uint64) < 2 ^ 31 \<Longrightarrow> scast (ucast d :: uint) = d"
proof -
  assume d: "unat d < 2 ^ 31"
  have n: "\<not> bit d k" if "31 \<le> k" for k
  proof -
    have "d = take_bit 31 d" using d by (simp add: word_unat_eq_iff unsigned_take_bit_eq take_bit_nat_eq_self)
    then show ?thesis using that by (metis bit_take_bit_iff not_less)
  qed
  show ?thesis by (rule bit_word_eqI) (use n in \<open>auto simp: bit_simps min_def not_less\<close>)
qed

text \<open>
  C37: \<open>uvmdealloc\<close> passes the difference of the sizes in bytes where \<open>uvmunmap\<close> expects pages, so shrinking an
  address space by a page or more runs past its end: whenever the pages to remove are mapped and the
  page after the old end is not, the kernel panics instead of returning the new size.
\<close>

theorem uvmdealloc_panics:
  assumes u: "uspace s root ps" and sz: "unat oldsz \<le> 0x7FFFF000" "newsz < oldsz" "PGROUNDUP newsz < PGROUNDUP oldsz"
    and v: "\<forall>i. i * 4096 < unat (PGROUNDUP oldsz) - unat (PGROUNDUP newsz) \<longrightarrow>
      uvalid (mem s) root (PGROUNDUP newsz + of_nat i * 4096)"
    and e: "pte_of (mem s) root (PGROUNDUP oldsz) AND PTE_V = 0"
  shows "uvmdealloc root oldsz newsz s \<in> {Panic ''uvmunmap: walk'', Panic ''uvmunmap: not mapped''}"
proof -
  let ?N = "PGROUNDUP newsz" and ?O = "PGROUNDUP oldsz"
  have sn: "unat newsz \<le> 0x7FFFF000" using sz(1,2) by (simp add: word_less_nat_alt)
  note O = PGROUNDUP_small [OF sz(1)] note N = PGROUNDUP_small [OF sn]
  define n where "n = (unat oldsz + 4095) div 4096 - (unat newsz + 4095) div 4096"
  have lt: "unat ?N < unat ?O" using sz(3) by (simp add: word_less_nat_alt)
  have n: "unat ?O - unat ?N = n * 4096" using O N by (simp add: n_def diff_mult_distrib)
  then have n': "unat ?O = unat ?N + n * 4096" "0 < n" using lt by auto
  have Oeq: "?O = ?N + of_nat n * 4096"
  proof -
    have "?O = of_nat (unat ?N + n * 4096)" using n'(1) by (metis of_nat_unat ucast_id)
    then show ?thesis by simp
  qed
  have D: "unat (?O - ?N) = n * 4096" using n lt by (simp add: unat_diff_if)
  let ?e = "?N + (?O - ?N) * PGSIZE"
  have "?O - ?N = of_nat (n * 4096)" using D by (metis of_nat_unat ucast_id)
  then have "?e = of_nat (unat ?N + n * 4096 * 4096)" by (simp add: PGSIZE_def)
  moreover have "unat ?N + n * 4096 * 4096 < 2 ^ 64" using O N n' by simp
  ultimately have ue: "unat ?e = unat ?N + n * 4096 * 4096" by (simp only: unat_of_nat) simp
  have al: "page_aligned ?N" using sn by (intro PGROUNDUP_aligned) simp
  have mx: "unat ?N + 4096 * n \<le> unat MAXVA" "?O < MAXVA"
    using O n' by (auto simp: const_vals word_less_nat_alt)
  obtain t where t: "uvmunmap_loop root ?N ?e True s = uvmunmap_loop root ?O ?e True t"
    "uspace t root (rev (upages (mem s) root ?N n) @ ps)"
    "pte_of (mem t) root ?O = (if in_pages ?N n ?O then 0 else pte_of (mem s) root ?O)"
    using unmap_user_pages [OF u al _ mx(1), of ?e] v n ue mx(2) n'(2) Oeq by auto
  have "?O < ?e" using n' ue by (simp add: word_less_nat_alt)
  moreover have "pte_of (mem t) root ?O AND PTE_V = 0" using t(3) e by simp
  ultimately have "uvmunmap_loop root ?O ?e True t = Panic ''uvmunmap: walk'' \<or>
      uvmunmap_loop root ?O ?e True t = Panic ''uvmunmap: not mapped''"
    by (intro unmap_unmapped_panics [OF t(2) _ mx(2)])
  moreover have "scast (ucast (?O - ?N) :: uint) = ?O - ?N"
    by (rule scast_small) (use O N n' D in simp)
  ultimately show ?thesis
    using sz(2,3) t(1) al by (auto simp: uvmdealloc_def uvmunmap_def page_aligned_def not_le [symmetric])
qed

theorem uvmdealloc_panics_witness:
  "uvmdealloc 0x80032000 0x2000 0x1000 demo_user \<in> {Panic ''uvmunmap: walk'', Panic ''uvmunmap: not mapped''}"
proof (rule uvmdealloc_panics [OF demo_uspace])
  have up: "PGROUNDUP 0x2000 = 0x2000" "PGROUNDUP 0x1000 = 0x1000" by (simp_all add: PGROUNDUP_def PGSIZE_def)
  have dn: "PGROUNDDOWN 0x2000 = 0x2000" "PGROUNDDOWN 0x1000 = 0x1000" by (simp_all add: PGROUNDDOWN_def PGSIZE_def)
  have v: "(0x2000 :: addr) < MAXVA" "(0x1000 :: addr) < MAXVA" by (simp_all add: const_vals)
  show "PGROUNDUP 0x1000 < PGROUNDUP 0x2000" by (simp add: up)
  show "\<forall>i. i * 4096 < unat (PGROUNDUP 0x2000) - unat (PGROUNDUP 0x1000) \<longrightarrow>
      uvalid (mem demo_user) 0x80032000 (PGROUNDUP 0x1000 + of_nat i * 4096)"
    using dn v by (simp add: up demo_user_def demo_uvalid)
  show "pte_of (mem demo_user) 0x80032000 (PGROUNDUP 0x2000) AND PTE_V = 0"
    using dn v by (simp add: up demo_user_def demo_pte_cases)
qed simp_all

end
