(* ===== verification/Proc.thy ===== *)
theory Proc
  imports Uvm
begin

text \<open>
  Processes, \<^verbatim>\<open>kernel/src/proc.c\<close> and \<^verbatim>\<open>kernel/inc/proc.h\<close>: the process table, allocation and release of
  a process, the switch to and from the scheduler, \<open>sleep\<close> and \<open>wakeup\<close>, \<open>kill\<close>, \<open>wait\<close> and \<open>growproc\<close>.
  A \<open>struct process *\<close> is the index of its slot in \<open>proc[]\<close>; a wait channel is the object whose address the
  C code passes.

  Control leaves a kernel thread only in \<open>sched\<close>: the outcome is \<open>Swtch s\<close>, the state in which the
  scheduler continues. What the thread does when it is scheduled again is \<open>sched_resume\<close> (with the
  interrupt flag it had kept on its stack) and, for \<open>sleep\<close>, \<open>sleep_resume\<close>; a caller that sleeps in a loop
  then runs the loop again. Registers saved by \<open>swtch\<close> and console output are not modelled. A null
  process pointer that the C code would follow traps in the kernel: \<open>Panic ''kerneltrap''\<close>.
\<close>

section \<open>State\<close>

datatype procstate = UNUSED | USED | SLEEPING | RUNNABLE | RUNNING | ZOMBIE

datatype chan = No_chan | Proc_chan nat | Sleeplock_chan lock_id | Log_chan | Pipe_nread addr
  | Pipe_nwrite addr | Ticks_chan | Disk_free_chan | Buf_chan nat | Cons_r_chan | Uart_tx_chan

record kcontext =
  ctx_ra :: addr
  ctx_sp :: addr
  ctx_s :: "nat \<Rightarrow> uint64"

record process =
  pstate :: procstate
  pchan :: chan
  pkilled :: bool
  xstate :: int
  pid :: int
  parent :: "nat option"
  kstack :: addr
  sz :: uint64
  pagetable :: addr
  trapframe :: addr
  pcontext :: kcontext
  ofile :: "nat \<Rightarrow> nat option"
  cwd :: "nat option"
  pname :: "byte list"

record ptable = vm +
  procs :: "nat \<Rightarrow> process"
  nextpid :: int
  initproc :: "nat option"
  sym_forkret :: addr

section \<open>Operations\<close>

definition NPROC :: nat where "NPROC = 64"

definition get_proc :: "nat \<Rightarrow> ('z ptable_scheme, process) km" where
  "get_proc i = gets (\<lambda>s. procs s i)"

definition set_proc :: "nat \<Rightarrow> (process \<Rightarrow> process) \<Rightarrow> ('z ptable_scheme, unit) km" where
  "set_proc i f = modify (\<lambda>s. s\<lparr>procs := (procs s)(i := f (procs s i))\<rparr>)"

definition this_proc :: "('z ptable_scheme, nat) km" where
  "this_proc = bnd myproc (\<lambda>p. case p of None \<Rightarrow> panic ''kerneltrap'' | Some i \<Rightarrow> ret i)"

fun next_runnable_loop :: "(nat \<Rightarrow> process) \<Rightarrow> nat \<Rightarrow> nat \<Rightarrow> nat \<Rightarrow> int" where
  "next_runnable_loop ps start off 0 = - 1"
| "next_runnable_loop ps start off (Suc n) =
     (let c = ps ((start + off) mod NPROC)
      in if pstate c = RUNNABLE then pid c else next_runnable_loop ps start (Suc off) n)"

definition next_runnable_pid :: "(nat \<Rightarrow> process) \<Rightarrow> nat option \<Rightarrow> int" where
  "next_runnable_pid ps current =
     next_runnable_loop ps (case current of None \<Rightarrow> 0 | Some i \<Rightarrow> i + 1) 0 NPROC"

fun procinit_loop :: "nat \<Rightarrow> nat \<Rightarrow> ('z ptable_scheme, unit) km" where
  "procinit_loop i 0 = ret ()"
| "procinit_loop i (Suc n) =
     seq (initlock (Proc_lock i) ''proc'') (
     seq (set_proc i (\<lambda>p. p\<lparr>pstate := UNUSED, kstack := KSTACK i\<rparr>)) (
     procinit_loop (Suc i) n))"

definition procinit :: "('z ptable_scheme, unit) km" where
  "procinit =
     seq (initlock Pid_lock ''nextpid'') (
     seq (initlock Wait_lock ''waitlock'') (
     procinit_loop 0 NPROC))"

definition allocpid :: "('z ptable_scheme, int) km" where
  "allocpid =
     seq (acquire Pid_lock) (
     bnd (gets nextpid) (\<lambda>p.
     seq (modify (\<lambda>s. s\<lparr>nextpid := nextpid s + 1\<rparr>)) (
     seq (release Pid_lock) (
     ret p))))"

definition proc_pagetable :: "nat \<Rightarrow> ('z ptable_scheme, addr) km" where
  "proc_pagetable i =
     bnd uvmcreate (\<lambda>pt.
     if pt = 0 then ret 0
     else bnd (gets sym_trampoline) (\<lambda>trampoline.
       bnd (mappages pt TRAMPOLINE trampoline PGSIZE PTE_RX) (\<lambda>r.
       if r < 0 then seq (uvmfree pt 0) (ret 0)
       else bnd (get_proc i) (\<lambda>p.
         bnd (mappages pt TRAPFRAME (trapframe p) PGSIZE PTE_RW) (\<lambda>r.
         if r < 0 then seq (uvmunmap pt TRAMPOLINE 1 False) (seq (uvmfree pt 0) (ret 0))
         else ret pt)))))"

definition proc_freepagetable :: "addr \<Rightarrow> uint64 \<Rightarrow> ('z ptable_scheme, unit) km" where
  "proc_freepagetable pt n =
     seq (uvmunmap pt TRAMPOLINE 1 False) (
     seq (uvmunmap pt TRAPFRAME 1 False) (
     uvmfree pt n))"

definition freeproc :: "nat \<Rightarrow> ('z ptable_scheme, unit) km" where
  "freeproc i =
     bnd (get_proc i) (\<lambda>p.
     seq (whenM (trapframe p \<noteq> 0) (kfree (trapframe p))) (
     seq (set_proc i (\<lambda>p. p\<lparr>trapframe := 0\<rparr>)) (
     seq (whenM (pagetable p \<noteq> 0) (proc_freepagetable (pagetable p) (sz p))) (
     set_proc i (\<lambda>p. p\<lparr>pagetable := 0, pid := 0, parent := None, pname := (pname p)[0 := 0], pchan := No_chan,
       pkilled := False, xstate := 0, pstate := UNUSED\<rparr>)))))"

text \<open>The scan of \<open>allocproc\<close>: the first UNUSED slot, whose lock stays held.\<close>

fun find_unused :: "nat \<Rightarrow> nat \<Rightarrow> ('z ptable_scheme, nat option) km" where
  "find_unused i 0 = ret None"
| "find_unused i (Suc n) =
     seq (acquire (Proc_lock i)) (
     bnd (get_proc i) (\<lambda>p.
     if pstate p = UNUSED then ret (Some i)
     else seq (release (Proc_lock i)) (find_unused (Suc i) n)))"

definition allocproc :: "('z ptable_scheme, nat option) km" where
  "allocproc =
     bnd (find_unused 0 NPROC) (\<lambda>found.
     case found of None \<Rightarrow> ret None
     | Some i \<Rightarrow>
       bnd allocpid (\<lambda>n.
       seq (set_proc i (\<lambda>p. p\<lparr>pid := n, pstate := USED\<rparr>)) (
       bnd kalloc (\<lambda>tf.
       seq (set_proc i (\<lambda>p. p\<lparr>trapframe := tf\<rparr>)) (
       if tf = 0 then seq (freeproc i) (seq (release (Proc_lock i)) (ret None))
       else bnd (proc_pagetable i) (\<lambda>pt.
         seq (set_proc i (\<lambda>p. p\<lparr>pagetable := pt\<rparr>)) (
         if pt = 0 then seq (freeproc i) (seq (release (Proc_lock i)) (ret None))
         else bnd (gets sym_forkret) (\<lambda>fr.
           seq (set_proc i (\<lambda>p. p\<lparr>pcontext := \<lparr>ctx_ra = fr, ctx_sp = kstack p + PGSIZE, ctx_s = (\<lambda>_. 0)\<rparr>\<rparr>)) (
           ret (Some i))))))))))"

definition sched :: "('z ptable_scheme, unit) km" where
  "sched =
     bnd this_proc (\<lambda>i.
     bnd (holding (Proc_lock i)) (\<lambda>h.
     if \<not> h then panic ''sched p->lock''
     else bnd (get_proc i) (\<lambda>p.
       if pstate p = RUNNING then panic ''sched running''
       else bnd intr_get (\<lambda>on.
         if on then panic ''sched interruptible'' else Swtch))))"

text \<open>Back in the thread, on the hart that now runs it.\<close>

definition sched_resume :: "bool \<Rightarrow> ('z ptable_scheme, unit) km" where
  "sched_resume intr_enabled = set_mycpu (\<lambda>c. c\<lparr>intr_is_enabled := intr_enabled\<rparr>)"

definition yield :: "('z ptable_scheme, unit) km" where
  "yield =
     bnd this_proc (\<lambda>i.
     seq (acquire (Proc_lock i)) (
     seq (set_proc i (\<lambda>p. p\<lparr>pstate := RUNNABLE\<rparr>)) (
     seq sched (
     release (Proc_lock i)))))"

definition yield_resume :: "nat \<Rightarrow> bool \<Rightarrow> ('z ptable_scheme, unit) km" where
  "yield_resume i intr_enabled = seq (sched_resume intr_enabled) (release (Proc_lock i))"

text \<open>
  One pass of the scheduler over the table: it stops at the first RUNNABLE process, which is then
  RUNNING on this hart with its lock held (the \<open>swtch\<close> to it), or finds none.
\<close>

fun scheduler_scan :: "nat \<Rightarrow> nat \<Rightarrow> ('z ptable_scheme, nat option) km" where
  "scheduler_scan i 0 = ret None"
| "scheduler_scan i (Suc n) =
     seq (acquire (Proc_lock i)) (
     bnd (get_proc i) (\<lambda>p.
     if pstate p = RUNNABLE
     then seq (set_proc i (\<lambda>p. p\<lparr>pstate := RUNNING\<rparr>)) (
          seq (set_mycpu (\<lambda>c. c\<lparr>cproc := Some i\<rparr>)) (ret (Some i)))
     else seq (release (Proc_lock i)) (scheduler_scan (Suc i) n)))"

definition scheduler :: "('z ptable_scheme, nat option) km" where
  "scheduler = seq (set_mycpu (\<lambda>c. c\<lparr>cproc := None\<rparr>)) (seq intr_on (scheduler_scan 0 NPROC))"

text \<open>Process \<open>i\<close> has switched back: the rest of the loop body, then the rest of the pass.\<close>

definition scheduler_back :: "nat \<Rightarrow> ('z ptable_scheme, nat option) km" where
  "scheduler_back i =
     seq (set_mycpu (\<lambda>c. c\<lparr>cproc := None\<rparr>)) (
     seq (release (Proc_lock i)) (
     scheduler_scan (Suc i) (NPROC - Suc i)))"

text \<open>The statements of \<open>sleep\<close> after \<open>myproc\<close>, one by one.\<close>

definition sleep_stmts :: "nat \<Rightarrow> chan \<Rightarrow> lock_id \<Rightarrow> ('z ptable_scheme, unit) km list" where
  "sleep_stmts i ch lk =
     [acquire (Proc_lock i),
      release lk,
      set_proc i (\<lambda>p. p\<lparr>pchan := ch\<rparr>),
      set_proc i (\<lambda>p. p\<lparr>pstate := SLEEPING\<rparr>),
      sched,
      set_proc i (\<lambda>p. p\<lparr>pchan := No_chan\<rparr>),
      release (Proc_lock i),
      acquire lk]"

definition sleep :: "chan \<Rightarrow> lock_id \<Rightarrow> ('z ptable_scheme, unit) km" where
  "sleep ch lk = bnd this_proc (\<lambda>i. run_stmts (sleep_stmts i ch lk))"

definition sleep_resume :: "nat \<Rightarrow> bool \<Rightarrow> lock_id \<Rightarrow> ('z ptable_scheme, unit) km" where
  "sleep_resume i intr_enabled lk =
     seq (sched_resume intr_enabled) (
     seq (set_proc i (\<lambda>p. p\<lparr>pchan := No_chan\<rparr>)) (
     seq (release (Proc_lock i)) (
     acquire lk)))"

fun wakeup_loop :: "chan \<Rightarrow> nat \<Rightarrow> nat \<Rightarrow> ('z ptable_scheme, unit) km" where
  "wakeup_loop ch i 0 = ret ()"
| "wakeup_loop ch i (Suc n) =
     bnd myproc (\<lambda>me.
     seq (whenM (me \<noteq> Some i)
           (seq (acquire (Proc_lock i)) (
            bnd (get_proc i) (\<lambda>p.
            seq (whenM (pstate p = SLEEPING \<and> pchan p = ch) (set_proc i (\<lambda>p. p\<lparr>pstate := RUNNABLE\<rparr>)))
                (release (Proc_lock i))))))
         (wakeup_loop ch (Suc i) n))"

definition wakeup :: "chan \<Rightarrow> ('z ptable_scheme, unit) km" where
  "wakeup ch = wakeup_loop ch 0 NPROC"

text \<open>\<open>memmove\<close> takes the length as a 32-bit \<open>uint\<close>.\<close>

definition either_copyout :: "bool \<Rightarrow> addr \<Rightarrow> byte list \<Rightarrow> uint64 \<Rightarrow> ('z ptable_scheme, int) km" where
  "either_copyout is_user_dst dst src len =
     bnd myproc (\<lambda>me.
     if is_user_dst
     then case me of None \<Rightarrow> panic ''kerneltrap''
          | Some i \<Rightarrow> bnd (get_proc i) (\<lambda>p. copyout (pagetable p) dst src len)
     else seq (store_bytes dst (take (unat (ucast len :: uint)) src)) (ret 0))"

definition either_copyin :: "bool \<Rightarrow> addr \<Rightarrow> uint64 \<Rightarrow> ('z ptable_scheme, int \<times> byte list) km" where
  "either_copyin is_user_src src len =
     bnd myproc (\<lambda>me.
     if is_user_src
     then case me of None \<Rightarrow> panic ''kerneltrap''
          | Some i \<Rightarrow> bnd (get_proc i) (\<lambda>p. copyin (pagetable p) src len [])
     else bnd (load_bytes src (unat (ucast len :: uint))) (\<lambda>bs. ret (0, bs)))"

definition killed :: "nat \<Rightarrow> ('z ptable_scheme, bool) km" where
  "killed i =
     seq (acquire (Proc_lock i)) (
     bnd (get_proc i) (\<lambda>p.
     seq (release (Proc_lock i)) (
     ret (pkilled p))))"

definition setkilled :: "nat \<Rightarrow> ('z ptable_scheme, unit) km" where
  "setkilled i =
     seq (acquire (Proc_lock i)) (
     seq (set_proc i (\<lambda>p. p\<lparr>pkilled := True\<rparr>)) (
     release (Proc_lock i)))"

fun kill_loop :: "int \<Rightarrow> nat \<Rightarrow> nat \<Rightarrow> ('z ptable_scheme, int) km" where
  "kill_loop target i 0 = ret (- 1)"
| "kill_loop target i (Suc n) =
     seq (acquire (Proc_lock i)) (
     bnd (get_proc i) (\<lambda>p.
     if pid p = target
     then seq (set_proc i (\<lambda>p. p\<lparr>pkilled := True\<rparr>)) (
          seq (whenM (pstate p = SLEEPING) (set_proc i (\<lambda>p. p\<lparr>pstate := RUNNABLE\<rparr>))) (
          seq (release (Proc_lock i)) (
          ret 0)))
     else seq (release (Proc_lock i)) (kill_loop target (Suc i) n)))"

definition kill :: "int \<Rightarrow> ('z ptable_scheme, int) km" where
  "kill target = kill_loop target 0 NPROC"

definition chan_of_proc :: "nat option \<Rightarrow> chan" where
  "chan_of_proc p = (case p of None \<Rightarrow> No_chan | Some i \<Rightarrow> Proc_chan i)"

fun reparent_loop :: "nat \<Rightarrow> nat \<Rightarrow> nat \<Rightarrow> ('z ptable_scheme, unit) km" where
  "reparent_loop p i 0 = ret ()"
| "reparent_loop p i (Suc n) =
     bnd (get_proc i) (\<lambda>child.
     seq (whenM (parent child = Some p)
           (bnd (gets initproc) (\<lambda>ip.
            seq (set_proc i (\<lambda>c. c\<lparr>parent := ip\<rparr>)) (wakeup (chan_of_proc ip)))))
         (reparent_loop p (Suc i) n))"

definition reparent :: "nat \<Rightarrow> ('z ptable_scheme, unit) km" where
  "reparent p = reparent_loop p 0 NPROC"

text \<open>The bytes of an \<open>int\<close>, as \<open>copyout\<close> reads them at \<open>&child->xstate\<close>.\<close>

definition int_bytes :: "int \<Rightarrow> byte list" where
  "int_bytes x = map (\<lambda>k. ucast (drop_bit (8 * k) (word_of_int x :: uint))) [0, 1, 2, 3]"

text \<open>The scan of \<open>wait\<close>: \<open>Some pid\<close> when it returns from inside the loop, else whether there are children.\<close>

fun wait_scan :: "nat \<Rightarrow> addr \<Rightarrow> nat \<Rightarrow> nat \<Rightarrow> bool \<Rightarrow> ('z ptable_scheme, int option \<times> bool) km" where
  "wait_scan par uaddr i 0 havekids = ret (None, havekids)"
| "wait_scan par uaddr i (Suc n) havekids =
     bnd (get_proc i) (\<lambda>child.
     if parent child = Some par
     then seq (acquire (Proc_lock i)) (
       bnd (get_proc i) (\<lambda>child.
       if pstate child = ZOMBIE
       then bnd (get_proc par) (\<lambda>pp.
         bnd (if uaddr = 0 then ret 0 else copyout (pagetable pp) uaddr (int_bytes (xstate child)) 4) (\<lambda>r.
         bnd (if r = 0 then seq (freeproc i) (ret (pid child)) else ret (- 1)) (\<lambda>p.
         seq (release (Proc_lock i)) (
         seq (release Wait_lock) (
         ret (Some p, True))))))
       else seq (release (Proc_lock i)) (wait_scan par uaddr (Suc i) n True)))
     else wait_scan par uaddr (Suc i) n havekids)"

definition wait_loop :: "nat \<Rightarrow> addr \<Rightarrow> ('z ptable_scheme, int) km" where
  "wait_loop par uaddr =
     bnd (wait_scan par uaddr 0 NPROC False) (\<lambda>r.
     case r of (Some p, _) \<Rightarrow> ret p
     | (None, havekids) \<Rightarrow>
       bnd (if \<not> havekids then ret True else killed par) (\<lambda>stop.
       if stop then seq (release Wait_lock) (ret (- 1))
       else seq (sleep (Proc_chan par) Wait_lock) (ret 0)))"

definition wait :: "addr \<Rightarrow> ('z ptable_scheme, int) km" where
  "wait uaddr =
     bnd this_proc (\<lambda>par.
     seq (acquire Wait_lock) (
     wait_loop par uaddr))"

definition growproc :: "int \<Rightarrow> ('z ptable_scheme, int) km" where
  "growproc n =
     bnd this_proc (\<lambda>i.
     bnd (get_proc i) (\<lambda>p.
     let old_sz = sz p; new_sz = old_sz + word_of_int n
     in if n > 0
        then bnd (uvmalloc (pagetable p) old_sz new_sz PTE_W) (\<lambda>r.
          if r = 0 then ret (- 1) else seq (set_proc i (\<lambda>p. p\<lparr>sz := r\<rparr>)) (ret 0))
        else if n < 0
        then bnd (uvmdealloc (pagetable p) old_sz new_sz) (\<lambda>r.
          seq (set_proc i (\<lambda>p. p\<lparr>sz := r\<rparr>)) (ret 0))
        else seq (set_proc i (\<lambda>p. p\<lparr>sz := new_sz\<rparr>)) (ret 0)))"

section \<open>Running the routines\<close>

lemma proc_ops_run [simp]:
  "get_proc i s = Ok (procs s i) s"
  "set_proc i f s = Ok () (s\<lparr>procs := (procs s)(i := f (procs s i))\<rparr>)"
  by (simp_all add: get_proc_def set_proc_def)

lemma wp_proc_ops [wp_simps]:
  "wp (get_proc i) Q s = Q (procs s i) s"
  "wp (set_proc i f) R s = R () (s\<lparr>procs := (procs s)(i := f (procs s i))\<rparr>)"
  by (simp_all add: wp_def)

lemma ptable_upd_order [simp]:
  "(s :: 'z ptable_scheme)\<lparr>procs := f, sync := y\<rparr> = s\<lparr>sync := y, procs := f\<rparr>"
  "(s :: 'z ptable_scheme)\<lparr>nextpid := n, sync := y\<rparr> = s\<lparr>sync := y, nextpid := n\<rparr>"
  by simp_all

text \<open>The current process of the hart, and the state in which a routine that takes process locks may run.\<close>

definition cur :: "'z machine_scheme \<Rightarrow> nat option" where
  "cur s = cproc (cpus (sync s) (tp (sync s)))"

definition procs_free :: "sync \<Rightarrow> bool" where
  "procs_free y \<longleftrightarrow> sync_ok y \<and> (\<forall>i. lock_free (Proc_lock i) y)"

lemma procs_freeD: "procs_free y \<Longrightarrow> sync_ok y" "procs_free y \<Longrightarrow> lock_free (Proc_lock i) y"
  by (simp_all add: procs_free_def)

lemma procs_free_quiet [simp]: "procs_free (quiet y) = procs_free y"
  by (simp add: procs_free_def)

lemma procs_free_acq: "procs_free y \<Longrightarrow> \<forall>i. l \<noteq> Proc_lock i \<Longrightarrow> procs_free (lock_acq l y)"
  by (auto simp: procs_free_def)

lemma cur_upd [simp]: "cur (s\<lparr>sync := quiet y\<rparr>) = cur (s\<lparr>sync := y\<rparr>)" "cur (s\<lparr>sync := lock_acq l y\<rparr>) = cur (s\<lparr>sync := y\<rparr>)"
  "cur ((s' :: 'z ptable_scheme)\<lparr>procs := f\<rparr>) = cur s'"
  by (simp_all add: cur_def)

lemma myproc_cur: "sync_ok (sync s) \<Longrightarrow> myproc s = Ok (cur s) (s\<lparr>sync := quiet (sync s)\<rparr>)"
  by (simp add: myproc_run cur_def)

definition awaken :: "nat option \<Rightarrow> chan \<Rightarrow> nat \<Rightarrow> nat \<Rightarrow> (nat \<Rightarrow> process) \<Rightarrow> nat \<Rightarrow> process" where
  "awaken me ch lo hi ps j =
     (if lo \<le> j \<and> j < hi \<and> me \<noteq> Some j \<and> pstate (ps j) = SLEEPING \<and> pchan (ps j) = ch
      then (ps j)\<lparr>pstate := RUNNABLE\<rparr> else ps j)"

lemma awaken_one:
  "awaken me ch i (Suc i) ps = (if me \<noteq> Some i \<and> pstate (ps i) = SLEEPING \<and> pchan (ps i) = ch
     then ps(i := (ps i)\<lparr>pstate := RUNNABLE\<rparr>) else ps)"
proof -
  have "i \<le> j \<and> j < Suc i \<longleftrightarrow> j = i" for j by auto
  then show ?thesis by (simp add: awaken_def fun_eq_iff) metis
qed

lemma awaken_step:
  "awaken me ch (Suc i) (Suc i + n) (awaken me ch i (Suc i) ps) = awaken me ch i (i + Suc n) ps"
proof
  fix j
  show "awaken me ch (Suc i) (Suc i + n) (awaken me ch i (Suc i) ps) j = awaken me ch i (i + Suc n) ps j"
  proof (cases "j = i")
    case False
    then have "awaken me ch i (Suc i) ps j = ps j" "Suc i \<le> j \<longleftrightarrow> i \<le> j" by (auto simp: awaken_one)
    then show ?thesis by (simp add: awaken_def [of me ch "Suc i"] awaken_def [of me ch i "Suc (i + n)"])
  qed (simp add: awaken_def)
qed

lemma wakeup_body:
  assumes "procs_free (sync s)"
  shows "seq (acquire (Proc_lock i)) (bnd (get_proc i) (\<lambda>p.
      seq (whenM (pstate p = SLEEPING \<and> pchan p = ch) (set_proc i (\<lambda>p. p\<lparr>pstate := RUNNABLE\<rparr>)))
          (release (Proc_lock i)))) s =
    Ok () (s\<lparr>sync := quiet (sync s), procs := awaken None ch i (Suc i) (procs s)\<rparr>)"
proof -
  let ?y = "lock_acq (Proc_lock i) (sync s)"
  let ?t = "s\<lparr>sync := ?y, procs := awaken None ch i (Suc i) (procs s)\<rparr>"
  note y = procs_freeD [OF assms]
  have "release (Proc_lock i) ?t = Ok () (?t\<lparr>sync := lock_rel (Proc_lock i) (sync ?t)\<rparr>)"
    using y(1) by (intro release_run) (simp_all add: sync_ok_def)
  then show ?thesis using y by (auto simp: acquire_run awaken_one)
qed

lemma wakeup_loop_run:
  assumes "procs_free (sync s)"
  shows "wakeup_loop ch i n s = Ok () (s\<lparr>sync := (if n = 0 then sync s else quiet (sync s)),
    procs := awaken (cur s) ch i (i + n) (procs s)\<rparr>)"
  using assms
proof (induction n arbitrary: i s)
  case 0
  have "awaken (cur s) ch i (i + 0) (procs s) = procs s" by (auto simp: awaken_def)
  then show ?case by simp
next
  case (Suc n)
  define t where "t = s\<lparr>sync := quiet (sync s), procs := awaken (cur s) ch i (Suc i) (procs s)\<rparr>"
  have "wakeup_loop ch i (Suc n) s = wakeup_loop ch (Suc i) n t"
  proof (cases "cur s = Some i")
    case True
    then have "awaken (cur s) ch i (Suc i) (procs s) = procs s" by (simp add: awaken_one)
    then show ?thesis using Suc.prems True by (simp add: t_def myproc_cur procs_freeD)
  next
    case False
    then have "awaken (cur s) ch i (Suc i) (procs s) = awaken None ch i (Suc i) (procs s)" by (simp add: awaken_one)
    then show ?thesis
      using Suc.prems False wakeup_body [of "s\<lparr>sync := quiet (sync s)\<rparr>" i ch] by (simp add: t_def myproc_cur procs_freeD)
  qed
  moreover have "wakeup_loop ch (Suc i) n t = Ok () (t\<lparr>sync := (if n = 0 then sync t else quiet (sync t)),
      procs := awaken (cur t) ch (Suc i) (Suc i + n) (procs t)\<rparr>)"
    by (rule Suc.IH) (use Suc.prems in \<open>simp add: t_def\<close>)
  ultimately show ?case using awaken_step [of "cur s" ch i n "procs s"] by (simp add: t_def)
qed

lemma wakeup_run:
  "procs_free (sync s) \<Longrightarrow>
    wakeup ch s = Ok () (s\<lparr>sync := quiet (sync s), procs := awaken (cur s) ch 0 NPROC (procs s)\<rparr>)"
  using wakeup_loop_run [of s ch 0 NPROC] by (simp add: wakeup_def NPROC_def)

lemma release_acq:
  "sync u = lock_acq l y \<Longrightarrow> sync_ok y \<Longrightarrow> lock_free l y \<Longrightarrow> release l u = Ok () (u\<lparr>sync := quiet y\<rparr>)"
  by (subst release_run) (simp_all add: sync_ok_def)

lemma kill_loop_run:
  assumes "procs_free (sync s)"
  shows "kill_loop target i n s =
    (case find (\<lambda>j. pid (procs s j) = target) [i..<i + n] of
       None \<Rightarrow> Ok (- 1) (s\<lparr>sync := (if n = 0 then sync s else quiet (sync s))\<rparr>)
     | Some j \<Rightarrow> Ok 0 (s\<lparr>sync := quiet (sync s), procs := (procs s)(j := (procs s j)\<lparr>pkilled := True,
         pstate := (if pstate (procs s j) = SLEEPING then RUNNABLE else pstate (procs s j))\<rparr>)\<rparr>))"
  using assms
proof (induction n arbitrary: i s)
  case (Suc n)
  note y = procs_freeD [OF Suc.prems]
  have upt: "[i..<Suc (i + n)] = i # [Suc i..<Suc (i + n)]" by (simp add: upt_conv_Cons)
  show ?case
  proof (cases "pid (procs s i) = target")
    case True
    then show ?thesis
      using y by (cases "pstate (procs s i) = SLEEPING") (simp_all add: upt acquire_run release_acq del: upt_Suc)
  next
    case False
    let ?t = "s\<lparr>sync := quiet (sync s)\<rparr>"
    have "kill_loop target i (Suc n) s = kill_loop target (Suc i) n ?t"
      using y False by (simp add: acquire_run release_acq)
    then show ?thesis using Suc.IH [of ?t "Suc i"] Suc.prems False by (auto simp: upt simp del: upt_Suc split: option.split)
  qed
qed simp

lemma killed_run:
  "procs_free (sync s) \<Longrightarrow> killed i s = Ok (pkilled (procs s i)) (s\<lparr>sync := quiet (sync s)\<rparr>)"
  by (simp add: killed_def acquire_run release_acq procs_freeD)

lemma setkilled_run:
  "procs_free (sync s) \<Longrightarrow>
    setkilled i s = Ok () (s\<lparr>sync := quiet (sync s), procs := (procs s)(i := (procs s i)\<lparr>pkilled := True\<rparr>)\<rparr>)"
  by (simp add: setkilled_def acquire_run release_acq procs_freeD)

lemma scheduler_scan_run:
  assumes "procs_free (sync s)"
  shows "scheduler_scan i n s =
    (case find (\<lambda>j. pstate (procs s j) = RUNNABLE) [i..<i + n] of
       None \<Rightarrow> Ok None (s\<lparr>sync := (if n = 0 then sync s else quiet (sync s))\<rparr>)
     | Some j \<Rightarrow> bnd (set_mycpu (\<lambda>c. c\<lparr>cproc := Some j\<rparr>)) (\<lambda>_. ret (Some j))
         (s\<lparr>sync := lock_acq (Proc_lock j) (sync s), procs := (procs s)(j := (procs s j)\<lparr>pstate := RUNNING\<rparr>)\<rparr>))"
  using assms
proof (induction n arbitrary: i s)
  case (Suc n)
  note y = procs_freeD [OF Suc.prems]
  have upt: "[i..<Suc (i + n)] = i # [Suc i..<Suc (i + n)]" by (simp add: upt_conv_Cons)
  show ?case
  proof (cases "pstate (procs s i) = RUNNABLE")
    case True
    then show ?thesis using y by (simp add: upt acquire_run seq_def del: upt_Suc)
  next
    case False
    let ?t = "s\<lparr>sync := quiet (sync s)\<rparr>"
    have "scheduler_scan i (Suc n) s = scheduler_scan (Suc i) n ?t"
      using y False by (simp add: acquire_run release_acq)
    then show ?thesis using Suc.IH [of ?t "Suc i"] Suc.prems False y by (auto simp: upt simp del: upt_Suc split: option.split)
  qed
qed simp

lemma this_proc_run: "sync_ok (sync s) \<Longrightarrow> cur s = Some i \<Longrightarrow> this_proc s = Ok i (s\<lparr>sync := quiet (sync s)\<rparr>)"
  by (simp add: this_proc_def myproc_cur)

lemma holding_acq: "sync s = lock_acq l y \<Longrightarrow> holding l s = Ok True s"
  by (simp add: holding_def lock_acq_def enter_def)

lemma intr_get_run [simp]: "intr_get s = Ok (sie (sync s)) s"
  by (simp add: intr_get_def r_sstatus_def sie_def bnd_def)

lemma sched_run:
  assumes "sync_ok y" "sync s = lock_acq (Proc_lock i) y" "cur s = Some i" "pstate (procs s i) \<noteq> RUNNING"
  shows "sched s = Swtch s"
proof -
  have ok: "sync_ok (sync s)" "quiet (sync s) = sync s" using assms(1,2) by simp_all
  then have "this_proc s = Ok i s" using this_proc_run [OF ok(1) assms(3)] by simp
  moreover have "holding (Proc_lock i) s = Ok True s" by (rule holding_acq [OF assms(2)])
  ultimately show ?thesis using assms(2,4) by (simp add: sched_def)
qed

section \<open>Properties\<close>

text \<open>A process table for the witnesses: process 0 runs on hart 0, process 1 sleeps on the log.\<close>

definition idle_process :: process where
  "idle_process = \<lparr>pstate = UNUSED, pchan = No_chan, pkilled = False, xstate = 0, pid = 0, parent = None, kstack = 0,
     sz = 0, pagetable = 0, trapframe = 0, pcontext = \<lparr>ctx_ra = 0, ctx_sp = 0, ctx_s = (\<lambda>_. 0)\<rparr>,
     ofile = (\<lambda>_. None), cwd = None, pname = replicate 16 0\<rparr>"

definition demo_sync :: sync where
  "demo_sync = idle_sync\<lparr>cpus := (\<lambda>_. \<lparr>cproc = Some 0, nesting = 0, intr_is_enabled = False\<rparr>)\<rparr>"

definition demo_ptable :: ptable where
  "demo_ptable = \<lparr>sync = demo_sync, mem = (\<lambda>_. 0), sym_end = 0x80021000, sym_etext = 0x80008000,
     sym_trampoline = 0x80007000, freelist = 0, kernel_page_table = 0, satp = (\<lambda>_. 0),
     procs = (\<lambda>_. idle_process)
       (0 := idle_process\<lparr>pstate := RUNNING, pid := 1\<rparr>,
        1 := idle_process\<lparr>pstate := SLEEPING, pchan := Log_chan, pid := 2, parent := Some 0\<rparr>,
        2 := idle_process\<lparr>pstate := RUNNABLE, pid := 3\<rparr>),
     nextpid = 4, initproc = Some 0, sym_forkret = 0x80001000\<rparr>"

lemma demo_sync_free: "procs_free demo_sync" "lock_free l demo_sync" "sync_ok demo_sync" "depth demo_sync = 0" "tp demo_sync = 0"
  by (simp_all add: demo_sync_def procs_free_def sync_ok_def depth_def idle_sync_def lock_free_def sie_def)

lemma demo_ptable_sync: "sync demo_ptable = demo_sync" "cur demo_ptable = Some 0"
  by (simp_all add: demo_ptable_def cur_def demo_sync_def idle_sync_def)

text \<open>
  \<open>wakeup\<close> makes RUNNABLE exactly the processes of the table, other than the caller, that are SLEEPING on
  the channel; no other process, no memory and no lock changes.
\<close>

theorem wakeup_correct:
  assumes "procs_free (sync s)"
  shows "\<exists>t. wakeup ch s = Ok () t \<and> mem t = mem s \<and> procs_free (sync t) \<and>
    (\<forall>j. procs t j = (if j < 64 \<and> cur s \<noteq> Some j \<and> pstate (procs s j) = SLEEPING \<and> pchan (procs s j) = ch
       then (procs s j)\<lparr>pstate := RUNNABLE\<rparr> else procs s j))"
  using assms by (auto simp: wakeup_run awaken_def NPROC_def)

theorem wakeup_correct_witness:
  "procs_free (sync demo_ptable) \<and>
   (\<exists>t. wakeup Log_chan demo_ptable = Ok () t \<and> pstate (procs t 1) = RUNNABLE \<and> pstate (procs t 0) = RUNNING)"
proof -
  have f: "procs_free (sync demo_ptable)" by (simp add: demo_ptable_sync demo_sync_free)
  from wakeup_correct [OF f, of Log_chan] obtain t where "wakeup Log_chan demo_ptable = Ok () t"
    "\<forall>j. procs t j = (if j < 64 \<and> cur demo_ptable \<noteq> Some j \<and> pstate (procs demo_ptable j) = SLEEPING \<and>
       pchan (procs demo_ptable j) = Log_chan then (procs demo_ptable j)\<lparr>pstate := RUNNABLE\<rparr> else procs demo_ptable j)"
    by blast
  then show ?thesis using f by (simp add: demo_ptable_sync) (simp add: demo_ptable_def)
qed

text \<open>
  \<open>kill\<close> marks the first process with the given pid as killed and wakes it if it sleeps, with result 0;
  with no such process it changes nothing and returns -1.
\<close>

theorem kill_correct:
  assumes "procs_free (sync s)"
  shows "\<exists>r t. kill target s = Ok r t \<and> mem t = mem s \<and> procs_free (sync t) \<and>
    (case find (\<lambda>j. pid (procs s j) = target) [0..<64] of
       None \<Rightarrow> r = - 1 \<and> procs t = procs s
     | Some j \<Rightarrow> r = 0 \<and> pkilled (procs t j) \<and> pstate (procs t j) \<noteq> SLEEPING \<and>
         (pstate (procs s j) \<noteq> SLEEPING \<longrightarrow> pstate (procs t j) = pstate (procs s j)) \<and>
         (\<forall>k. k \<noteq> j \<longrightarrow> procs t k = procs s k))"
  using assms kill_loop_run [OF assms, of target 0 64]
  by (auto simp: kill_def NPROC_def split: option.split)

theorem kill_correct_witness:
  "procs_free (sync demo_ptable) \<and>
   (\<exists>t. kill 2 demo_ptable = Ok 0 t \<and> pkilled (procs t 1) \<and> pstate (procs t 1) \<noteq> SLEEPING)"
proof -
  have f: "procs_free (sync demo_ptable)" by (simp add: demo_ptable_sync demo_sync_free)
  have "[0..<64] = 0 # 1 # [2..<64::nat]" by (simp add: upt_conv_Cons)
  then have "find (\<lambda>j. pid (procs demo_ptable j) = 2) [0..<64] = Some 1"
    by (simp add: demo_ptable_def del: upt_Suc)
  with kill_correct [OF f, of 2] f show ?thesis by auto
qed

text \<open>
  One pass of the scheduler, started with no lock held: interrupts are enabled first; if some process is
  RUNNABLE the one with the lowest slot becomes RUNNING on this hart, with exactly its lock held and
  interrupts off; otherwise no process changes and interrupts stay on.
\<close>

theorem scheduler_correct:
  assumes "procs_free (sync s)" "depth (sync s) = 0"
  shows "\<exists>r t. scheduler s = Ok r t \<and>
    (case find (\<lambda>j. pstate (procs s j) = RUNNABLE) [0..<64] of
       None \<Rightarrow> r = None \<and> procs t = procs s \<and> cur t = None \<and> sie (sync t) \<and> procs_free (sync t)
     | Some j \<Rightarrow> r = Some j \<and> cur t = Some j \<and> procs t = (procs s)(j := (procs s j)\<lparr>pstate := RUNNING\<rparr>) \<and>
         \<not> sie (sync t) \<and> lock_held (Proc_lock j) (sync t) \<and> (\<forall>l. l \<noteq> Proc_lock j \<longrightarrow> lock_free l (sync t) = lock_free l (sync s)))"
proof -
  let ?y = "sync s"
  define y where "y = ?y\<lparr>cpus := (cpus ?y)(tp ?y := (cpus ?y (tp ?y))\<lparr>cproc := None\<rparr>),
    sstatus := (sstatus ?y)(tp ?y := sstatus ?y (tp ?y) OR SSTATUS_SIE)\<rparr>"
  have y: "procs_free y" "depth y = 0" "sie y" "tp y = tp ?y" "cproc (cpus y (tp y)) = None" "lock_free l y = lock_free l ?y" for l
    using assms by (auto simp: y_def procs_free_def sync_ok_def depth_def sie_def lock_free_def)
  have run: "scheduler s = scheduler_scan 0 64 (s\<lparr>sync := y\<rparr>)"
    by (simp add: scheduler_def NPROC_def set_mycpu_def intr_on_def r_sstatus_def w_sstatus_def y_def bnd_def seq_def)
  have scan: "scheduler_scan 0 64 (s\<lparr>sync := y\<rparr>) =
    (case find (\<lambda>j. pstate (procs s j) = RUNNABLE) [0..<64] of
       None \<Rightarrow> Ok None (s\<lparr>sync := quiet y\<rparr>)
     | Some j \<Rightarrow> bnd (set_mycpu (\<lambda>c. c\<lparr>cproc := Some j\<rparr>)) (\<lambda>_. ret (Some j))
         (s\<lparr>sync := lock_acq (Proc_lock j) y, procs := (procs s)(j := (procs s j)\<lparr>pstate := RUNNING\<rparr>)\<rparr>))"
    using scheduler_scan_run [of "s\<lparr>sync := y\<rparr>" 0 64] y(1) by (auto simp del: upt_Suc upt_rec_numeral split: option.split)
  show ?thesis
  proof (cases "find (\<lambda>j. pstate (procs s j) = RUNNABLE) [0..<64]")
    case None
    then show ?thesis using run scan y by (simp add: cur_def del: upt_Suc upt_rec_numeral)
  next
    case (Some j)
    define t where "t = (s\<lparr>sync := (lock_acq (Proc_lock j) y)\<lparr>cpus := (cpus (lock_acq (Proc_lock j) y))(tp y :=
      (cpus (lock_acq (Proc_lock j) y) (tp y))\<lparr>cproc := Some j\<rparr>)\<rparr>, procs := (procs s)(j := (procs s j)\<lparr>pstate := RUNNING\<rparr>)\<rparr>)"
    have "scheduler s = Ok (Some j) t"
      using run scan Some by (simp add: set_mycpu_def t_def del: upt_Suc upt_rec_numeral)
    moreover have "cur t = Some j" "\<not> sie (sync t)" "procs t = (procs s)(j := (procs s j)\<lparr>pstate := RUNNING\<rparr>)"
      "lock_held (Proc_lock j) (sync t)" "l \<noteq> Proc_lock j \<Longrightarrow> lock_free l (sync t) = lock_free l ?y" for l
      using y(2) y(6) [of l] lock_acq_simps(2) [of "Proc_lock j" y] lock_held_acq(1) [of "Proc_lock j" y]
      by (auto simp: t_def cur_def sie_def lock_held_def lock_free_def depth_def lock_acq_def)
    ultimately show ?thesis using Some by (simp del: upt_Suc upt_rec_numeral)
  qed
qed

theorem scheduler_correct_witness:
  "\<exists>t. scheduler demo_ptable = Ok (Some 2) t \<and> pstate (procs t 2) = RUNNING \<and> cur t = Some 2"
proof -
  have f: "procs_free (sync demo_ptable)" "depth (sync demo_ptable) = 0" by (simp_all add: demo_ptable_sync demo_sync_free)
  have "[0..<64] = 0 # 1 # 2 # [3..<64::nat]" by (simp add: upt_conv_Cons)
  then have "find (\<lambda>j. pstate (procs demo_ptable j) = RUNNABLE) [0..<64] = Some 2"
    by (simp add: demo_ptable_def del: upt_Suc)
  with scheduler_correct [OF f] show ?thesis by auto
qed

text \<open>The statements of \<open>sleep\<close> up to the call of \<open>sched\<close>: the state after the first \<open>k\<close> of them.\<close>

definition sleep_sync :: "nat \<Rightarrow> lock_id \<Rightarrow> nat \<Rightarrow> sync \<Rightarrow> sync" where
  "sleep_sync i lk k y = (if k = 0 then lock_acq lk y else if k = 1 then lock_acq (Proc_lock i) (lock_acq lk y) else lock_acq (Proc_lock i) y)"

definition sleep_entry :: "chan \<Rightarrow> nat \<Rightarrow> process \<Rightarrow> process" where
  "sleep_entry ch k p = (if k < 3 then p else if k = 3 then p\<lparr>pchan := ch\<rparr> else p\<lparr>pchan := ch, pstate := SLEEPING\<rparr>)"

lemma sleep_prefix:
  assumes y: "procs_free y" "lock_free lk y" "\<forall>j. lk \<noteq> Proc_lock j" and s: "sync s = lock_acq lk y" and k: "k \<le> 4"
  shows "run_stmts (take k (sleep_stmts i ch lk)) s =
    Ok () (s\<lparr>sync := sleep_sync i lk k y, procs := (procs s)(i := sleep_entry ch k (procs s i))\<rparr>)"
proof -
  have ok: "sync_ok y" "lock_free (Proc_lock i) y" "0 \<le> depth y" using y(1) by (auto simp: procs_free_def sync_ok_def)
  have ne: "Proc_lock i \<noteq> lk" "lk \<noteq> Proc_lock i" using y(3) by auto
  have a: "acquire (Proc_lock i) s = Ok () (s\<lparr>sync := lock_acq (Proc_lock i) (lock_acq lk y)\<rparr>)"
    using s ok y(3) by (subst acquire_run) auto
  have r: "release lk (s\<lparr>sync := lock_acq (Proc_lock i) (lock_acq lk y)\<rparr>) = Ok () (s\<lparr>sync := lock_acq (Proc_lock i) y\<rparr>)"
    using ok y(2) ne by (subst release_run) simp_all
  have e: "s\<lparr>sync := lock_acq lk y\<rparr> = s" using s [symmetric] by simp
  consider "k = 0" | "k = 1" | "k = 2" | "k = 3" | "k = 4" using k by linarith
  then show ?thesis
    by cases (use a r e in \<open>simp_all add: sleep_stmts_def sleep_sync_def sleep_entry_def numeral_2_eq_2 numeral_3_eq_3 numeral_Bit0\<close>)
qed

lemma sleep_run:
  assumes y: "procs_free y" "lock_free lk y" "\<forall>j. lk \<noteq> Proc_lock j" and s: "sync s = lock_acq lk y" "cur s = Some i"
  shows "sleep ch lk s = Swtch (s\<lparr>sync := lock_acq (Proc_lock i) y,
    procs := (procs s)(i := (procs s i)\<lparr>pchan := ch, pstate := SLEEPING\<rparr>)\<rparr>)" (is "_ = Swtch ?t")
proof -
  have ok: "sync_ok y" "lock_free (Proc_lock i) y" "0 \<le> depth y" using y(1) by (auto simp: procs_free_def sync_ok_def)
  have "this_proc s = Ok i s" using this_proc_run [of s i] s ok by simp
  moreover have "run_stmts (take 4 (sleep_stmts i ch lk)) s = Ok () ?t"
    using sleep_prefix [OF y s(1), of 4] by (simp add: sleep_sync_def sleep_entry_def)
  moreover have "sched ?t = Swtch ?t"
    using ok s(2) by (intro sched_run [of y]) (auto simp: cur_def s(1))
  then have "run_stmts (drop 4 (sleep_stmts i ch lk)) ?t = Swtch ?t" by (simp add: sleep_stmts_def)
  moreover have "run_stmts (sleep_stmts i ch lk) s = seq (run_stmts (take 4 (sleep_stmts i ch lk))) (run_stmts (drop 4 (sleep_stmts i ch lk))) s"
    by (simp flip: run_stmts_append)
  ultimately show ?thesis by (simp add: sleep_def)
qed

text \<open>The machine as another hart sees it; there, a lock held by this hart cannot be taken.\<close>

definition on_hart :: "nat \<Rightarrow> 'z ptable_scheme \<Rightarrow> 'z ptable_scheme" where
  "on_hart h s = s\<lparr>sync := (sync s)\<lparr>tp := h\<rparr>\<rparr>"

lemma acquire_elsewhere:
  assumes "locked (locks (sync s) l) \<noteq> 0" "lcpu (locks (sync s) l) = Some g" "g \<noteq> tp (sync s)"
  shows "acquire l s = Spin"
  using assms by (simp add: acquire_def critical_enter_run op_defs bnd_def seq_def)

lemma sleep_sync_locks:
  assumes "procs_free y" "lock_free lk y" "\<forall>j. lk \<noteq> Proc_lock j" "sync t = sleep_sync i lk k y"
  shows "if k < 2 then lock_held lk (sync t) else lock_free lk (sync t)"
    "if k = 0 then lock_free (Proc_lock i) (sync t) else lock_held (Proc_lock i) (sync t)"
    "h \<noteq> tp y \<Longrightarrow> seq (acquire lk) (acquire (Proc_lock i)) (on_hart h t) = Spin"
proof -
  have ok: "0 \<le> depth y" "lock_free (Proc_lock i) y" "lk \<noteq> Proc_lock i" "Proc_lock i \<noteq> lk" "0 \<le> depth y + 1"
    using assms(1,3) by (auto simp: procs_free_def sync_ok_def)
  show lk: "if k < 2 then lock_held lk (sync t) else lock_free lk (sync t)"
    using ok assms(2,4) by (simp add: sleep_sync_def)
  show pl: "if k = 0 then lock_free (Proc_lock i) (sync t) else lock_held (Proc_lock i) (sync t)"
    using ok assms(4) by (simp add: sleep_sync_def)
  have tp: "tp (sync t) = tp y" using assms(4) by (simp add: sleep_sync_def)
  show "seq (acquire lk) (acquire (Proc_lock i)) (on_hart h t) = Spin" if h: "h \<noteq> tp y"
  proof (cases "k < 2")
    case True
    then have "acquire lk (on_hart h t) = Spin"
      using lk h tp by (intro acquire_elsewhere [where g = "tp y"]) (simp_all add: on_hart_def lock_held_def)
    then show ?thesis by simp
  next
    case False
    then have "acquire lk (on_hart h t) = Ok () ((on_hart h t)\<lparr>sync := lock_acq lk (sync (on_hart h t))\<rparr>)"
      using lk by (intro acquire_run) (simp add: on_hart_def lock_free_def)
    moreover have "acquire (Proc_lock i) ((on_hart h t)\<lparr>sync := lock_acq lk (sync (on_hart h t))\<rparr>) = Spin"
      using False pl h tp ok by (intro acquire_elsewhere [where g = "tp y"]) (simp_all add: on_hart_def lock_held_def lock_acq_def enter_def)
    ultimately show ?thesis by simp
  qed
qed

lemma lock_rel_simps:
  "tp (lock_rel l y) = tp y" "depth (lock_rel l y) = depth y - 1" "lock_free l (lock_rel l y)"
  "l' \<noteq> l \<Longrightarrow> lock_free l' (lock_rel l y) = lock_free l' y"
  by (simp_all add: lock_rel_def leave_def Let_def depth_def lock_free_def)

lemma sleep_resume_run:
  assumes y: "procs_free y" "lock_free lk y" "\<forall>j. lk \<noteq> Proc_lock j" and s: "sync s = lock_acq (Proc_lock i) y"
  obtains z where "sleep_resume i b lk s = Ok () (s\<lparr>sync := lock_acq lk z,
      procs := (procs s)(i := (procs s i)\<lparr>pchan := No_chan\<rparr>)\<rparr>)"
    "\<forall>l. lock_free l z = lock_free l y" "depth z = depth y"
proof -
  define w where "w = (lock_acq (Proc_lock i) y)\<lparr>cpus := (cpus (lock_acq (Proc_lock i) y))(tp y :=
    (cpus (lock_acq (Proc_lock i) y) (tp y))\<lparr>intr_is_enabled := b\<rparr>)\<rparr>"
  have ok: "0 \<le> depth y" "lock_free (Proc_lock i) y" using y(1) by (auto simp: procs_free_def sync_ok_def)
  have w: "tp w = tp y" "\<not> sie w" "depth w = depth y + 1" "lock_held (Proc_lock i) w"
    "lock_free l w = lock_free l (lock_acq (Proc_lock i) y)" for l
    using ok lock_acq_simps [of "Proc_lock i" y] lock_held_acq(1) [of "Proc_lock i" y]
    by (auto simp: w_def sie_def depth_def lock_held_def lock_free_def)
  let ?p = "(procs s)(i := (procs s i)\<lparr>pchan := No_chan\<rparr>)" and ?z = "lock_rel (Proc_lock i) w"
  have "sched_resume b s = Ok () (s\<lparr>sync := w\<rparr>)" using s by (simp add: sched_resume_def set_mycpu_def w_def)
  moreover have "release (Proc_lock i) (s\<lparr>sync := w, procs := ?p\<rparr>) = Ok () (s\<lparr>sync := ?z, procs := ?p\<rparr>)"
    using w by (subst release_run) auto
  moreover have free: "lock_free l ?z = lock_free l y" for l
    using w(5) ok by (cases "l = Proc_lock i") (auto simp: lock_rel_simps)
  then have "acquire lk (s\<lparr>sync := ?z, procs := ?p\<rparr>) = Ok () (s\<lparr>sync := lock_acq lk ?z, procs := ?p\<rparr>)"
    using y(2) by (subst acquire_run) auto
  ultimately have "sleep_resume i b lk s = Ok () (s\<lparr>sync := lock_acq lk ?z, procs := ?p\<rparr>)"
    by (simp add: sleep_resume_def)
  moreover have "depth ?z = depth y" using w lock_rel_simps(2) [of "Proc_lock i" w] by simp
  ultimately show ?thesis using that [of ?z] free by blast
qed

text \<open>
  C39: \<open>sleep\<close>, called with its lock held and no process lock held. It goes to sleep atomically with respect to its lock: the four
  statements before \<open>sched\<close> all complete, and at every point before, between and after them this hart holds the lock or its process
  lock (the lock before the second statement, the process lock from the first one on), so that another hart that has to take
  the lock and then the process lock, as one that makes the condition true and calls \<open>wakeup\<close> does, spins at every such point, up to
  and including the one where the process is SLEEPING on the channel. Then \<open>sleep\<close> gives up the processor in that state, with the lock free and its
  process lock held for the scheduler; memory and the other processes are unchanged. When the process is scheduled again,
  with its process lock held, it returns holding the lock, its process lock free and its channel cleared.
\<close>

theorem sleep_correct:
  assumes "procs_free y" "lock_free lk y" "\<forall>j. lk \<noteq> Proc_lock j" "sync s = lock_acq lk y" "cur s = Some i"
    "sync u = lock_acq (Proc_lock i) y"
  shows "(\<forall>k\<le>4. \<exists>t. run_stmts (take k (sleep_stmts i ch lk)) s = Ok () t \<and>
      (if k < 2 then lock_held lk (sync t) else lock_free lk (sync t)) \<and>
      (if k = 0 then lock_free (Proc_lock i) (sync t) else lock_held (Proc_lock i) (sync t)) \<and>
      (\<forall>h. h \<noteq> tp y \<longrightarrow> seq (acquire lk) (acquire (Proc_lock i)) (on_hart h t) = Spin) \<and>
      (k = 4 \<longrightarrow> pchan (procs t i) = ch \<and> pstate (procs t i) = SLEEPING \<and> sleep ch lk s = Swtch t)) \<and>
    (\<exists>t. sleep ch lk s = Swtch t \<and> lock_free lk (sync t) \<and> lock_held (Proc_lock i) (sync t) \<and>
      procs t = (procs s)(i := (procs s i)\<lparr>pchan := ch, pstate := SLEEPING\<rparr>) \<and> mem t = mem s) \<and>
    (\<exists>t. sleep_resume i b lk u = Ok () t \<and> lock_held lk (sync t) \<and> lock_free (Proc_lock i) (sync t) \<and>
      procs t = (procs u)(i := (procs u i)\<lparr>pchan := No_chan\<rparr>) \<and> mem t = mem u)"
proof (intro conjI allI impI)
  have ok: "0 \<le> depth y" "lock_free (Proc_lock i) y" "lk \<noteq> Proc_lock i" using assms(1,3) by (auto simp: procs_free_def sync_ok_def)
  note run = sleep_run [OF assms(1-5), of ch]
  show "\<exists>t. run_stmts (take k (sleep_stmts i ch lk)) s = Ok () t \<and>
      (if k < 2 then lock_held lk (sync t) else lock_free lk (sync t)) \<and>
      (if k = 0 then lock_free (Proc_lock i) (sync t) else lock_held (Proc_lock i) (sync t)) \<and>
      (\<forall>h. h \<noteq> tp y \<longrightarrow> seq (acquire lk) (acquire (Proc_lock i)) (on_hart h t) = Spin) \<and>
      (k = 4 \<longrightarrow> pchan (procs t i) = ch \<and> pstate (procs t i) = SLEEPING \<and> sleep ch lk s = Swtch t)" if "k \<le> 4" for k
  proof -
    define t where "t = s\<lparr>sync := sleep_sync i lk k y, procs := (procs s)(i := sleep_entry ch k (procs s i))\<rparr>"
    have "run_stmts (take k (sleep_stmts i ch lk)) s = Ok () t" using sleep_prefix [OF assms(1-4) that] by (simp add: t_def)
    moreover have "sync t = sleep_sync i lk k y" by (simp add: t_def)
    moreover have "pchan (procs t i) = ch \<and> pstate (procs t i) = SLEEPING \<and> sleep ch lk s = Swtch t" if "k = 4"
      using run that by (simp add: t_def sleep_entry_def sleep_sync_def)
    ultimately show ?thesis using sleep_sync_locks [OF assms(1-3)] by blast
  qed
  show "\<exists>t. sleep ch lk s = Swtch t \<and> lock_free lk (sync t) \<and> lock_held (Proc_lock i) (sync t) \<and>
      procs t = (procs s)(i := (procs s i)\<lparr>pchan := ch, pstate := SLEEPING\<rparr>) \<and> mem t = mem s"
    using run ok assms(2) by simp
  obtain z where "sleep_resume i b lk u = Ok () (u\<lparr>sync := lock_acq lk z,
      procs := (procs u)(i := (procs u i)\<lparr>pchan := No_chan\<rparr>)\<rparr>)" "\<forall>l. lock_free l z = lock_free l y" "depth z = depth y"
    using sleep_resume_run [OF assms(1-3,6)] by blast
  then show "\<exists>t. sleep_resume i b lk u = Ok () t \<and> lock_held lk (sync t) \<and> lock_free (Proc_lock i) (sync t) \<and>
      procs t = (procs u)(i := (procs u i)\<lparr>pchan := No_chan\<rparr>) \<and> mem t = mem u"
    using ok by auto
qed

theorem sleep_correct_witness:
  "\<exists>s t u. s = demo_ptable\<lparr>sync := lock_acq Log_lock demo_sync\<rparr> \<and> sleep Log_chan Log_lock s = Swtch t \<and>
     pstate (procs t 0) = SLEEPING \<and> pchan (procs t 0) = Log_chan \<and> lock_free Log_lock (sync t) \<and>
     run_stmts (take 1 (sleep_stmts 0 Log_chan Log_lock)) s = Ok () u \<and> lock_held Log_lock (sync u) \<and>
     seq (acquire Log_lock) (acquire (Proc_lock 0)) (on_hart 1 u) = Spin"
proof -
  let ?s = "demo_ptable\<lparr>sync := lock_acq Log_lock demo_sync\<rparr>" and ?u = "demo_ptable\<lparr>sync := lock_acq (Proc_lock 0) demo_sync\<rparr>"
  have "cur ?s = Some 0" using demo_ptable_sync by (simp add: cur_def)
  note c = sleep_correct [OF demo_sync_free(1,2) _ _ this, of Log_lock ?u Log_chan True, simplified]
  have "tp demo_sync = 0" by (simp add: demo_sync_def idle_sync_def)
  then obtain u where "run_stmts (take 1 (sleep_stmts 0 Log_chan Log_lock)) ?s = Ok () u" "lock_held Log_lock (sync u)"
    "seq (acquire Log_lock) (acquire (Proc_lock 0)) (on_hart 1 u) = Spin"
    using c by (auto dest!: spec [of _ 1])
  moreover obtain t where "sleep Log_chan Log_lock ?s = Swtch t" "pstate (procs t 0) = SLEEPING" "pchan (procs t 0) = Log_chan"
    "lock_free Log_lock (sync t)" using c by auto
  ultimately show ?thesis by blast
qed

lemma wait_scan_run:
  assumes "procs_free y" "sync s = lock_acq Wait_lock y" "\<forall>j. parent (procs s j) = Some par \<longrightarrow> i \<le> j \<longrightarrow> j < i + n \<longrightarrow> pstate (procs s j) \<noteq> ZOMBIE"
  shows "wait_scan par u i n hk s = Ok (None, hk \<or> (\<exists>j\<in>{i..<i + n}. parent (procs s j) = Some par)) s"
  using assms(3)
proof (induction n arbitrary: i hk)
  case (Suc n)
  have y: "sync_ok y" "\<And>j. lock_free (Proc_lock j) y" using assms(1) by (auto simp: procs_free_def)
  have ok: "sync_ok (sync s)" "lock_free (Proc_lock i) (sync s)" "quiet (sync s) = sync s" using assms(2) y by auto
  have IH: "wait_scan par u (Suc i) n hk' s = Ok (None, hk' \<or> (\<exists>j\<in>{Suc i..<Suc i + n}. parent (procs s j) = Some par)) s" for hk'
    using Suc.prems by (intro Suc.IH) auto
  have ex: "(\<exists>j\<in>{i..<i + Suc n}. parent (procs s j) = Some par) \<longleftrightarrow>
      parent (procs s i) = Some par \<or> (\<exists>j\<in>{Suc i..<Suc i + n}. parent (procs s j) = Some par)"
  proof -
    have "{i..<i + Suc n} = insert i {Suc i..<Suc i + n}" by auto
    then show ?thesis by simp
  qed
  show ?case
  proof (cases "parent (procs s i) = Some par")
    case True
    then have z: "pstate (procs s i) \<noteq> ZOMBIE" using Suc.prems by simp
    have "s\<lparr>sync := lock_acq (Proc_lock i) (sync s), sync := quiet (sync s)\<rparr> = s" using ok(3) by simp
    then have "wait_scan par u i (Suc n) hk s = wait_scan par u (Suc i) n True s"
      using True z ok by (simp add: acquire_run release_acq)
    then show ?thesis using IH [of True] True ex by simp
  next
    case False
    then show ?thesis using IH [of hk] ex by simp
  qed
qed simp

text \<open>
  \<open>wait\<close> while no child is a ZOMBIE: with a child, and not killed, the caller sleeps on itself with
  \<open>wait_lock\<close> free, so that an exiting child can take it; without children, or when killed, it returns -1 with the
  lock released and the table unchanged.
\<close>

theorem wait_blocks_or_fails:
  assumes "procs_free (sync s)" "lock_free Wait_lock (sync s)" "cur s = Some par"
    "\<forall>j<64. parent (procs s j) = Some par \<longrightarrow> pstate (procs s j) \<noteq> ZOMBIE"
  shows "if (\<exists>j<64. parent (procs s j) = Some par) \<and> \<not> pkilled (procs s par)
    then \<exists>t. wait u s = Swtch t \<and> lock_free Wait_lock (sync t) \<and>
      procs t = (procs s)(par := (procs s par)\<lparr>pchan := Proc_chan par, pstate := SLEEPING\<rparr>)
    else \<exists>t. wait u s = Ok (- 1) t \<and> lock_free Wait_lock (sync t) \<and> procs t = procs s \<and> depth (sync t) = depth (sync s)"
proof -
  let ?y = "quiet (sync s)"
  define v where "v = s\<lparr>sync := lock_acq Wait_lock ?y\<rparr>"
  have y: "procs_free ?y" "sync_ok ?y" "lock_free Wait_lock ?y" using assms by (auto simp: procs_free_def)
  have v: "sync v = lock_acq Wait_lock ?y" "cur v = Some par" "procs v = procs s"
    using assms(3) by (simp_all add: v_def cur_def)
  have run: "wait u s = wait_loop par u v"
    using y assms(3) by (simp add: wait_def this_proc_run procs_freeD [OF assms(1)] acquire_run v_def)
  have scan: "wait_scan par u 0 64 False v = Ok (None, \<exists>j<64. parent (procs s j) = Some par) v"
    using wait_scan_run [OF y(1) v(1), of par 0 64 u False] assms(4) v(3) by (simp add: atLeast0LessThan Bex_def lessThan_def)
  have k: "killed par v = Ok (pkilled (procs s par)) v"
    using killed_run [of v par] procs_free_acq [OF y(1), of Wait_lock] v y by (simp add: v_def)
  have rel: "release Wait_lock v = Ok () (v\<lparr>sync := ?y\<rparr>)"
    using release_acq [OF v(1) y(2,3)] by simp
  have slp: "sleep (Proc_chan par) Wait_lock v = Swtch (v\<lparr>sync := lock_acq (Proc_lock par) ?y,
      procs := (procs v)(par := (procs v par)\<lparr>pchan := Proc_chan par, pstate := SLEEPING\<rparr>)\<rparr>)"
    by (rule sleep_run [OF y(1,3) _ v(1,2)]) simp
  show ?thesis
    using scan k rel slp y v assms(2) by (auto simp: run wait_loop_def NPROC_def)
qed

theorem wait_blocks_or_fails_witness:
  "\<exists>t. wait 0 demo_ptable = Swtch t \<and> pstate (procs t 0) = SLEEPING \<and> lock_free Wait_lock (sync t)"
proof -
  have h: "procs_free (sync demo_ptable)" "lock_free Wait_lock (sync demo_ptable)" "cur demo_ptable = Some 0"
    "\<forall>j<64. parent (procs demo_ptable j) = Some 0 \<longrightarrow> pstate (procs demo_ptable j) \<noteq> ZOMBIE"
    by (simp_all add: demo_ptable_sync demo_sync_free) (simp add: demo_ptable_def idle_process_def)
  have c: "\<exists>j<64. parent (procs demo_ptable j) = Some 0" "\<not> pkilled (procs demo_ptable 0)"
    by (rule exI [of _ 1]) (simp_all add: demo_ptable_def idle_process_def)
  show ?thesis using wait_blocks_or_fails [OF h, of 0] c by auto
qed

section \<open>Interleaving: no wakeup is lost\<close>

text \<open>
  \<open>sleep\<close> and \<open>wakeup\<close> on different harts, interleaved at the granularity of their lock operations and stores, in the setting they are
  made for: one process that waits for a condition (\<open>acquire(lk); while (!cond) sleep(chan, lk); release(lk)\<close>), one that
  establishes it (\<open>acquire(lk); cond = 1; wakeup(chan); release(lk)\<close>), and the scheduler; no process is killed. The steps
  \<open>s_plock\<close> to \<open>s_switch\<close>, \<open>s_back\<close> and \<open>s_relock\<close> are those of \<open>sleep\<close>, \<open>w_plock\<close>, \<open>w_wake\<close> and \<open>w_skip\<close> the visit of \<open>wakeup\<close> to the
  waiting process. The others are the setting: \<open>s_acquire\<close>, \<open>s_leave\<close>, \<open>s_sleep\<close>, \<open>w_acquire\<close>, \<open>w_store\<close> and \<open>w_unlock\<close> are the two callers,
  \<open>c_release\<close> and \<open>c_run\<close> the scheduler, which releases the process lock after a switch and takes it to run a RUNNABLE process.
  \<open>lk_own\<close> and \<open>pl_own\<close> are the owners of the lock \<open>lk\<close> and of the waiting process's \<open>p->lock\<close>, which \<open>sched\<close>
  hands to the scheduler and the scheduler to the process it switches to.
\<close>

datatype agent = Sleeper | Waker | Scheduler

datatype sleeper_pc = S_start | S_check | S_plock | S_unlock | S_store | S_switch | S_off | S_back | S_relock | S_done

datatype waker_pc = W_start | W_store | W_plock | W_test | W_unlock | W_done

record sw_state =
  lk_own :: "agent option"
  pl_own :: "agent option"
  cond :: bool
  sw_pstate :: procstate
  on_chan :: bool
  spc :: sleeper_pc
  wpc :: waker_pc

definition sw_init :: sw_state where
  "sw_init = \<lparr>lk_own = None, pl_own = None, cond = False, sw_pstate = RUNNING, on_chan = False, spc = S_start, wpc = W_start\<rparr>"

inductive sw_step :: "sw_state \<Rightarrow> sw_state \<Rightarrow> bool" where
  s_acquire: "spc s = S_start \<Longrightarrow> lk_own s = None \<Longrightarrow> sw_step s (s\<lparr>lk_own := Some Sleeper, spc := S_check\<rparr>)"
| s_leave: "spc s = S_check \<Longrightarrow> cond s \<Longrightarrow> sw_step s (s\<lparr>lk_own := None, spc := S_done\<rparr>)"
| s_sleep: "spc s = S_check \<Longrightarrow> \<not> cond s \<Longrightarrow> sw_step s (s\<lparr>spc := S_plock\<rparr>)"
| s_plock: "spc s = S_plock \<Longrightarrow> pl_own s = None \<Longrightarrow> sw_step s (s\<lparr>pl_own := Some Sleeper, spc := S_unlock\<rparr>)"
| s_unlock: "spc s = S_unlock \<Longrightarrow> sw_step s (s\<lparr>lk_own := None, spc := S_store\<rparr>)"
| s_store: "spc s = S_store \<Longrightarrow> sw_step s (s\<lparr>on_chan := True, sw_pstate := SLEEPING, spc := S_switch\<rparr>)"
| s_switch: "spc s = S_switch \<Longrightarrow> sw_step s (s\<lparr>pl_own := Some Scheduler, spc := S_off\<rparr>)"
| c_release: "pl_own s = Some Scheduler \<Longrightarrow> sw_step s (s\<lparr>pl_own := None\<rparr>)"
| c_run: "spc s = S_off \<Longrightarrow> pl_own s = None \<Longrightarrow> sw_pstate s = RUNNABLE \<Longrightarrow>
    sw_step s (s\<lparr>pl_own := Some Sleeper, sw_pstate := RUNNING, spc := S_back\<rparr>)"
| s_back: "spc s = S_back \<Longrightarrow> sw_step s (s\<lparr>on_chan := False, pl_own := None, spc := S_relock\<rparr>)"
| s_relock: "spc s = S_relock \<Longrightarrow> lk_own s = None \<Longrightarrow> sw_step s (s\<lparr>lk_own := Some Sleeper, spc := S_check\<rparr>)"
| w_acquire: "wpc s = W_start \<Longrightarrow> lk_own s = None \<Longrightarrow> sw_step s (s\<lparr>lk_own := Some Waker, wpc := W_store\<rparr>)"
| w_store: "wpc s = W_store \<Longrightarrow> sw_step s (s\<lparr>cond := True, wpc := W_plock\<rparr>)"
| w_plock: "wpc s = W_plock \<Longrightarrow> pl_own s = None \<Longrightarrow> sw_step s (s\<lparr>pl_own := Some Waker, wpc := W_test\<rparr>)"
| w_wake: "wpc s = W_test \<Longrightarrow> sw_pstate s = SLEEPING \<and> on_chan s \<Longrightarrow>
    sw_step s (s\<lparr>sw_pstate := RUNNABLE, pl_own := None, wpc := W_unlock\<rparr>)"
| w_skip: "wpc s = W_test \<Longrightarrow> \<not> (sw_pstate s = SLEEPING \<and> on_chan s) \<Longrightarrow> sw_step s (s\<lparr>pl_own := None, wpc := W_unlock\<rparr>)"
| w_unlock: "wpc s = W_unlock \<Longrightarrow> sw_step s (s\<lparr>lk_own := None, wpc := W_done\<rparr>)"

inductive sw_reachable :: "sw_state \<Rightarrow> bool" where
  sw_start: "sw_reachable sw_init"
| sw_next: "sw_reachable s \<Longrightarrow> sw_step s t \<Longrightarrow> sw_reachable t"

inductive_cases sw_stepE: "sw_step s t"

definition sw_inv :: "sw_state \<Rightarrow> bool" where
  "sw_inv s \<longleftrightarrow>
     (lk_own s = Some Sleeper \<longleftrightarrow> spc s \<in> {S_check, S_plock, S_unlock}) \<and>
     (lk_own s = Some Waker \<longleftrightarrow> wpc s \<in> {W_store, W_plock, W_test, W_unlock}) \<and>
     (pl_own s = Some Sleeper \<longleftrightarrow> spc s \<in> {S_unlock, S_store, S_switch, S_back}) \<and>
     (pl_own s = Some Waker \<longleftrightarrow> wpc s = W_test) \<and>
     (pl_own s = Some Scheduler \<longrightarrow> spc s = S_off) \<and>
     (cond s \<longleftrightarrow> wpc s \<in> {W_plock, W_test, W_unlock, W_done}) \<and>
     (on_chan s \<longleftrightarrow> spc s \<in> {S_switch, S_off, S_back}) \<and>
     (sw_pstate s = SLEEPING \<longrightarrow> spc s \<in> {S_switch, S_off}) \<and>
     (spc s \<in> {S_switch, S_off} \<longrightarrow> sw_pstate s \<in> {SLEEPING, RUNNABLE}) \<and>
     (wpc s \<in> {W_unlock, W_done} \<longrightarrow> spc s \<notin> {S_plock, S_unlock, S_store, S_switch} \<and> sw_pstate s \<noteq> SLEEPING)"

lemma sw_step_inv: "sw_step s t \<Longrightarrow> sw_inv s \<Longrightarrow> sw_inv t"
  by (induction rule: sw_step.induct; rename_tac s; case_tac "wpc s"; case_tac "spc s";
      (clarsimp simp: sw_inv_def | simp add: sw_inv_def))

lemma sw_reachable_inv: "sw_reachable s \<Longrightarrow> sw_inv s"
proof (induction rule: sw_reachable.induct)
  case sw_start
  then show ?case by (simp add: sw_inv_def sw_init_def)
next
  case (sw_next s t)
  then show ?case using sw_step_inv by blast
qed

text \<open>
  C38: No wakeup is lost between one process that waits and one that wakes it: however the steps interleave, once the waking process has returned from \<open>wakeup\<close> and
  released the lock, the waiting process is not SLEEPING; if it is switched out it is RUNNABLE and, with
  its lock free, the scheduler can run it. While it is between its test of the condition and its switch,
  the waker cannot be past its own test of the process.
\<close>

theorem sleep_no_lost_wakeup:
  assumes "sw_reachable s" "wpc s = W_done"
  shows "cond s \<and> sw_pstate s \<noteq> SLEEPING \<and> spc s \<notin> {S_plock, S_unlock, S_store, S_switch} \<and>
    (spc s = S_off \<longrightarrow> sw_pstate s = RUNNABLE \<and> (pl_own s = None \<longrightarrow> (\<exists>t. sw_step s t \<and> spc t = S_back)))"
proof -
  have i: "sw_inv s" by (rule sw_reachable_inv [OF assms(1)])
  have "\<exists>t. sw_step s t \<and> spc t = S_back" if "spc s = S_off" "sw_pstate s = RUNNABLE" "pl_own s = None"
    using c_run [OF that(1,3,2)] by auto
  then show ?thesis using i assms(2) by (auto simp: sw_inv_def)
qed

text \<open>The waker takes its turn while the other is on its way to sleep, and finds it SLEEPING.\<close>

theorem sleep_no_lost_wakeup_witness:
  "\<exists>s t. sw_reachable s \<and> wpc s = W_done \<and> spc s = S_off \<and> sw_pstate s = RUNNABLE \<and> sw_step s t \<and> spc t = S_back"
proof -
  define st where "st l p c ps oc sp wp = \<lparr>lk_own = l, pl_own = p, cond = c, sw_pstate = ps, on_chan = oc, spc = sp, wpc = wp\<rparr>" for l p c ps oc sp wp
  have "sw_reachable (st None None False RUNNING False S_start W_start)" using sw_start by (simp add: sw_init_def st_def)
  then have "sw_reachable (st (Some Sleeper) None False RUNNING False S_check W_start)"
    by (rule sw_next) (use s_acquire [of "st None None False RUNNING False S_start W_start"] in \<open>simp add: st_def\<close>)
  then have "sw_reachable (st (Some Sleeper) None False RUNNING False S_plock W_start)"
    by (rule sw_next) (use s_sleep [of "st (Some Sleeper) None False RUNNING False S_check W_start"] in \<open>simp add: st_def\<close>)
  then have "sw_reachable (st (Some Sleeper) (Some Sleeper) False RUNNING False S_unlock W_start)"
    by (rule sw_next) (use s_plock [of "st (Some Sleeper) None False RUNNING False S_plock W_start"] in \<open>simp add: st_def\<close>)
  then have "sw_reachable (st None (Some Sleeper) False RUNNING False S_store W_start)"
    by (rule sw_next) (use s_unlock [of "st (Some Sleeper) (Some Sleeper) False RUNNING False S_unlock W_start"] in \<open>simp add: st_def\<close>)
  then have "sw_reachable (st None (Some Sleeper) False SLEEPING True S_switch W_start)"
    by (rule sw_next) (use s_store [of "st None (Some Sleeper) False RUNNING False S_store W_start"] in \<open>simp add: st_def\<close>)
  then have "sw_reachable (st (Some Waker) (Some Sleeper) False SLEEPING True S_switch W_store)"
    by (rule sw_next) (use w_acquire [of "st None (Some Sleeper) False SLEEPING True S_switch W_start"] in \<open>simp add: st_def\<close>)
  then have "sw_reachable (st (Some Waker) (Some Sleeper) True SLEEPING True S_switch W_plock)"
    by (rule sw_next) (use w_store [of "st (Some Waker) (Some Sleeper) False SLEEPING True S_switch W_store"] in \<open>simp add: st_def\<close>)
  then have "sw_reachable (st (Some Waker) (Some Scheduler) True SLEEPING True S_off W_plock)"
    by (rule sw_next) (use s_switch [of "st (Some Waker) (Some Sleeper) True SLEEPING True S_switch W_plock"] in \<open>simp add: st_def\<close>)
  then have "sw_reachable (st (Some Waker) None True SLEEPING True S_off W_plock)"
    by (rule sw_next) (use c_release [of "st (Some Waker) (Some Scheduler) True SLEEPING True S_off W_plock"] in \<open>simp add: st_def\<close>)
  then have "sw_reachable (st (Some Waker) (Some Waker) True SLEEPING True S_off W_test)"
    by (rule sw_next) (use w_plock [of "st (Some Waker) None True SLEEPING True S_off W_plock"] in \<open>simp add: st_def\<close>)
  then have "sw_reachable (st (Some Waker) None True RUNNABLE True S_off W_unlock)"
    by (rule sw_next) (use w_wake [of "st (Some Waker) (Some Waker) True SLEEPING True S_off W_test"] in \<open>simp add: st_def\<close>)
  then have "sw_reachable (st None None True RUNNABLE True S_off W_done)"
    by (rule sw_next) (use w_unlock [of "st (Some Waker) None True RUNNABLE True S_off W_unlock"] in \<open>simp add: st_def\<close>)
  then show ?thesis using sleep_no_lost_wakeup [of "st None None True RUNNABLE True S_off W_done"] by (auto simp: st_def intro: exI [of _ "st None None True RUNNABLE True S_off W_done"])
qed

end
