(* ===== verification/Sleeplock.thy ===== *)
theory Sleeplock
  imports Proc
begin

text \<open>
  Sleep locks, \<^verbatim>\<open>kernel/src/sleeplock.c\<close>: a lock that a process may hold across disk operations. A sleep
  lock is named by its inner spin lock \<open>lk->lk\<close>; its address is also the channel its waiters sleep on.
  \<open>acquiresleep\<close> of a lock that is taken gives up the processor in \<open>sleep\<close>; when the process runs again it
  continues with \<open>sleep_resume\<close> and \<open>acquiresleep_loop\<close>.

  The locale \<open>sleep_mutex\<close> is the contract of the buffer cache and the inode layer; its interpretation is
  \<open>slk\<close>.
\<close>

section \<open>State and operations\<close>

record sleeplock =
  sl_locked :: uint
  sl_name :: string
  sl_pid :: int

record slocks = ptable +
  sleeplocks :: "lock_id \<Rightarrow> sleeplock"

definition set_sleeplock :: "lock_id \<Rightarrow> (sleeplock \<Rightarrow> sleeplock) \<Rightarrow> ('z slocks_scheme, unit) km" where
  "set_sleeplock lk f = modify (\<lambda>s. s\<lparr>sleeplocks := (sleeplocks s)(lk := f (sleeplocks s lk))\<rparr>)"

definition initsleeplock :: "lock_id \<Rightarrow> string \<Rightarrow> ('z slocks_scheme, unit) km" where
  "initsleeplock lk nm =
     seq (initlock lk nm) (
     set_sleeplock lk (\<lambda>k. k\<lparr>sl_name := nm, sl_locked := 0, sl_pid := 0\<rparr>))"

definition acquiresleep_loop :: "lock_id \<Rightarrow> ('z slocks_scheme, unit) km" where
  "acquiresleep_loop lk =
     bnd (gets (\<lambda>s. sleeplocks s lk)) (\<lambda>k.
     if sl_locked k \<noteq> 0 then sleep (Sleeplock_chan lk) lk
     else seq (set_sleeplock lk (\<lambda>k. k\<lparr>sl_locked := 1\<rparr>)) (
          bnd this_proc (\<lambda>i. bnd (get_proc i) (\<lambda>p.
          seq (set_sleeplock lk (\<lambda>k. k\<lparr>sl_pid := pid p\<rparr>)) (
          release lk)))))"

definition acquiresleep :: "lock_id \<Rightarrow> ('z slocks_scheme, unit) km" where
  "acquiresleep lk = seq (acquire lk) (acquiresleep_loop lk)"

definition releasesleep :: "lock_id \<Rightarrow> ('z slocks_scheme, unit) km" where
  "releasesleep lk =
     seq (acquire lk) (
     seq (set_sleeplock lk (\<lambda>k. k\<lparr>sl_locked := 0, sl_pid := 0\<rparr>)) (
     seq (wakeup (Sleeplock_chan lk)) (
     release lk)))"

text \<open>\<open>myproc()\<close> is only called, and its result only followed, when the lock is taken.\<close>

definition is_holdingsleep :: "lock_id \<Rightarrow> ('z slocks_scheme, bool) km" where
  "is_holdingsleep lk =
     seq (acquire lk) (
     bnd (gets (\<lambda>s. sleeplocks s lk)) (\<lambda>k.
     bnd (if sl_locked k \<noteq> 0 then bnd this_proc (\<lambda>i. bnd (get_proc i) (\<lambda>p. ret (sl_pid k = pid p))) else ret False) (\<lambda>r.
     seq (release lk) (
     ret r))))"

section \<open>Running the routines\<close>

lemma set_sleeplock_run [simp]:
  "set_sleeplock lk f s = Ok () (s\<lparr>sleeplocks := (sleeplocks s)(lk := f (sleeplocks s lk))\<rparr>)"
  by (simp add: set_sleeplock_def)

lemma slocks_upd_order [simp]:
  "(s :: 'z slocks_scheme)\<lparr>sleeplocks := f, sync := y\<rparr> = s\<lparr>sync := y, sleeplocks := f\<rparr>"
  "(s :: 'z slocks_scheme)\<lparr>sleeplocks := f, procs := g\<rparr> = s\<lparr>procs := g, sleeplocks := f\<rparr>"
  by simp_all

text \<open>
  The state in which process \<open>i\<close> runs kernel code with no process lock held: what every routine of the
  upper layers may assume.
\<close>

definition running :: "'z ptable_scheme \<Rightarrow> nat \<Rightarrow> bool" where
  "running s i \<longleftrightarrow> procs_free (sync s) \<and> cur s = Some i"

lemma cur_slocks [simp]: "cur ((s :: 'z slocks_scheme)\<lparr>sleeplocks := f\<rparr>) = cur s"
  by (simp add: cur_def)

lemma cur_quiet [simp]: "cur (s\<lparr>sync := quiet (sync s)\<rparr>) = cur s"
  by (simp add: cur_def)

lemma running_upd [simp]:
  "running ((s :: 'z slocks_scheme)\<lparr>sleeplocks := f\<rparr>) i = running s i"
  "running (s'\<lparr>sync := quiet (sync s')\<rparr>) i = running s' i"
  "running (s'\<lparr>procs := p\<rparr>) i = running s' i"
  by (simp_all add: running_def)

definition proc_free_lock :: "lock_id \<Rightarrow> bool" where
  "proc_free_lock l \<longleftrightarrow> (\<forall>i. l \<noteq> Proc_lock i)"

lemma acquiresleep_free_run:
  assumes "running s i" "lock_free lk (sync s)" "proc_free_lock lk" "sl_locked (sleeplocks s lk) = 0"
  shows "acquiresleep lk s = Ok () (s\<lparr>sync := quiet (sync s), sleeplocks := (sleeplocks s)(lk :=
    (sleeplocks s lk)\<lparr>sl_locked := 1, sl_pid := pid (procs s i)\<rparr>)\<rparr>)"
proof -
  have y: "sync_ok (sync s)" "cur s = Some i" using assms(1) by (auto simp: running_def procs_free_def)
  define t where "t = s\<lparr>sync := lock_acq lk (sync s), sleeplocks := (sleeplocks s)(lk := (sleeplocks s lk)\<lparr>sl_locked := 1\<rparr>)\<rparr>"
  have "this_proc t = Ok i t"
    using this_proc_run [of t i] y by (simp add: t_def cur_def)
  then show ?thesis
    using assms y by (simp add: acquiresleep_def acquiresleep_loop_def acquire_run t_def release_acq)
qed

lemma acquiresleep_busy_run:
  assumes "running s i" "lock_free lk (sync s)" "proc_free_lock lk" "sl_locked (sleeplocks s lk) \<noteq> 0"
  shows "acquiresleep lk s = Swtch (s\<lparr>sync := lock_acq (Proc_lock i) (sync s),
    procs := (procs s)(i := (procs s i)\<lparr>pchan := Sleeplock_chan lk, pstate := SLEEPING\<rparr>)\<rparr>)"
proof -
  let ?t = "s\<lparr>sync := lock_acq lk (sync s)\<rparr>"
  have "sleep (Sleeplock_chan lk) lk ?t = Swtch (?t\<lparr>sync := lock_acq (Proc_lock i) (sync s),
    procs := (procs ?t)(i := (procs ?t i)\<lparr>pchan := Sleeplock_chan lk, pstate := SLEEPING\<rparr>)\<rparr>)"
    by (rule sleep_run) (use assms in \<open>auto simp: running_def proc_free_lock_def cur_def\<close>)
  then show ?thesis
    using assms by (simp add: acquiresleep_def acquiresleep_loop_def acquire_run)
qed

lemma releasesleep_run:
  assumes "running s i" "lock_free lk (sync s)" "proc_free_lock lk"
  shows "releasesleep lk s = Ok () (s\<lparr>sync := quiet (sync s),
    procs := awaken (Some i) (Sleeplock_chan lk) 0 NPROC (procs s),
    sleeplocks := (sleeplocks s)(lk := (sleeplocks s lk)\<lparr>sl_locked := 0, sl_pid := 0\<rparr>)\<rparr>)"
proof -
  have y: "procs_free (sync s)" "sync_ok (sync s)" "cur s = Some i" using assms(1) by (auto simp: running_def procs_free_def)
  let ?t = "s\<lparr>sync := lock_acq lk (sync s), sleeplocks := (sleeplocks s)(lk := (sleeplocks s lk)\<lparr>sl_locked := 0, sl_pid := 0\<rparr>)\<rparr>"
  have "procs_free (sync ?t)" using procs_free_acq [OF y(1), of lk] assms(3) by (simp add: proc_free_lock_def)
  then have "wakeup (Sleeplock_chan lk) ?t = Ok () (?t\<lparr>sync := quiet (sync ?t),
      procs := awaken (cur ?t) (Sleeplock_chan lk) 0 NPROC (procs ?t)\<rparr>)" by (rule wakeup_run)
  moreover have "cur ?t = Some i" "quiet (sync ?t) = sync ?t" using y by (simp_all add: cur_def)
  ultimately show ?thesis
    using assms y by (simp add: releasesleep_def acquire_run release_acq)
qed

lemma is_holdingsleep_run:
  assumes "running s i" "lock_free lk (sync s)"
  shows "is_holdingsleep lk s =
    Ok (sl_locked (sleeplocks s lk) \<noteq> 0 \<and> sl_pid (sleeplocks s lk) = pid (procs s i)) (s\<lparr>sync := quiet (sync s)\<rparr>)"
proof -
  have y: "sync_ok (sync s)" "cur s = Some i" using assms(1) by (auto simp: running_def procs_free_def)
  let ?t = "s\<lparr>sync := lock_acq lk (sync s)\<rparr>"
  have "this_proc ?t = Ok i ?t" using this_proc_run [of ?t i] y by (simp add: cur_def)
  then show ?thesis
    using assms y by (simp add: is_holdingsleep_def acquire_run release_acq)
qed

section \<open>The contract\<close>

locale sleep_mutex =
  fixes acq :: "lock_id \<Rightarrow> ('s, unit) km"
    and rel :: "lock_id \<Rightarrow> ('s, unit) km"
    and held_by_me :: "lock_id \<Rightarrow> ('s, bool) km"
    and ready :: "'s \<Rightarrow> lock_id \<Rightarrow> bool"
    and free :: "'s \<Rightarrow> lock_id \<Rightarrow> bool"
    and mine :: "'s \<Rightarrow> lock_id \<Rightarrow> bool"
  assumes acq_free: "ready s l \<Longrightarrow> free s l \<Longrightarrow> wp (acq l) (\<lambda>_ t. ready t l \<and> mine t l) s"
    and acq_busy: "ready s l \<Longrightarrow> \<not> free s l \<Longrightarrow> \<exists>t. acq l s = Swtch t"
    and rel_mine: "ready s l \<Longrightarrow> wp (rel l) (\<lambda>_ t. ready t l \<and> free t l) s"
    and query: "ready s l \<Longrightarrow> wp (held_by_me l) (\<lambda>r t. r = mine s l \<and> ready t l \<and> free t l = free s l \<and> mine t l = mine s l) s"
    and mine_not_free: "mine s l \<Longrightarrow> \<not> free s l"
begin

text \<open>A locked section: the holder sees itself as holder, and the lock is free afterwards.\<close>

lemma locked_section:
  assumes "ready s l" "free s l"
  shows "wp (seq (acq l) (bnd (held_by_me l) (\<lambda>h. seq (rel l) (ret h)))) (\<lambda>h t. h \<and> free t l) s"
  unfolding wp_seq wp_bnd
proof (rule wp_mono [OF acq_free [OF assms]])
  fix a t assume t: "ready t l \<and> mine t l"
  show "wp (held_by_me l) (\<lambda>h. wp (rel l) (\<lambda>_. wp (ret h) (\<lambda>h t. h \<and> free t l))) t"
  proof (rule wp_mono [OF query], goal_cases)
    case (2 h u)
    then show ?case using t by (auto simp: wp_ret intro: wp_mono [OF rel_mine])
  qed (use t in blast)
qed

end

definition sl_ready :: "'z slocks_scheme \<Rightarrow> lock_id \<Rightarrow> bool" where
  "sl_ready s l \<longleftrightarrow> (\<exists>i. running s i) \<and> lock_free l (sync s) \<and> proc_free_lock l"

definition sl_free :: "'z slocks_scheme \<Rightarrow> lock_id \<Rightarrow> bool" where
  "sl_free s l \<longleftrightarrow> sl_locked (sleeplocks s l) = 0"

definition sl_mine :: "'z slocks_scheme \<Rightarrow> lock_id \<Rightarrow> bool" where
  "sl_mine s l \<longleftrightarrow> sl_locked (sleeplocks s l) \<noteq> 0 \<and> (\<exists>i. cur s = Some i \<and> sl_pid (sleeplocks s l) = pid (procs s i))"

interpretation slk: sleep_mutex acquiresleep releasesleep is_holdingsleep sl_ready sl_free sl_mine
proof unfold_locales
  fix s :: "'z slocks_scheme" and l
  show "wp (acquiresleep l) (\<lambda>_ t. sl_ready t l \<and> sl_mine t l) s" if "sl_ready s l" "sl_free s l"
  proof -
    from that obtain i where i: "running s i" "lock_free l (sync s)" "proc_free_lock l" "sl_locked (sleeplocks s l) = 0"
      by (auto simp: sl_ready_def sl_free_def)
    then show ?thesis
      by (simp add: wp_iff acquiresleep_free_run) (auto simp: sl_ready_def sl_mine_def running_def cur_def)
  qed
  show "\<exists>t. acquiresleep l s = Swtch t" if "sl_ready s l" "\<not> sl_free s l"
    using that acquiresleep_busy_run by (auto simp: sl_ready_def sl_free_def)
  show "wp (releasesleep l) (\<lambda>_ t. sl_ready t l \<and> sl_free t l) s" if "sl_ready s l"
  proof -
    from that obtain i where i: "running s i" "lock_free l (sync s)" "proc_free_lock l" by (auto simp: sl_ready_def)
    then show ?thesis
      by (simp add: wp_iff releasesleep_run) (auto simp: sl_ready_def sl_free_def running_def cur_def)
  qed
  show "wp (is_holdingsleep l) (\<lambda>r t. r = sl_mine s l \<and> sl_ready t l \<and> sl_free t l = sl_free s l \<and> sl_mine t l = sl_mine s l) s"
    if "sl_ready s l"
  proof -
    from that obtain i where i: "running s i" "lock_free l (sync s)" "proc_free_lock l" by (auto simp: sl_ready_def)
    then show ?thesis
      by (simp add: wp_iff is_holdingsleep_run) (auto simp: sl_ready_def sl_free_def sl_mine_def running_def cur_def)
  qed
  show "\<not> sl_free s l" if "sl_mine s l" using that by (simp add: sl_mine_def sl_free_def)
qed

section \<open>Properties\<close>

text \<open>
  A sleep lock is mutual exclusion for processes. A free lock is taken by the caller, who then is the one
  \<open>is_holdingsleep\<close> reports, and is free again after \<open>releasesleep\<close>. A taken lock makes the caller SLEEP on it,
  with no spin lock but its own process lock held, and the release makes every process that sleeps on the
  lock RUNNABLE.
\<close>

theorem sleeplock_correct:
  assumes "running s i" "lock_free lk (sync s)" "proc_free_lock lk"
  shows "if sl_locked (sleeplocks s lk) = 0
    then \<exists>t. seq (acquiresleep lk) (bnd (is_holdingsleep lk) (\<lambda>h. seq (releasesleep lk) (ret h))) s = Ok True t \<and>
      sl_locked (sleeplocks t lk) = 0
    else (\<exists>t. acquiresleep lk s = Swtch t \<and> sleeplocks t = sleeplocks s \<and> lock_free lk (sync t) \<and>
        pstate (procs t i) = SLEEPING \<and> pchan (procs t i) = Sleeplock_chan lk) \<and>
      (\<exists>t. releasesleep lk s = Ok () t \<and> sl_locked (sleeplocks t lk) = 0 \<and>
        (\<forall>j<64. j \<noteq> i \<longrightarrow> pstate (procs s j) = SLEEPING \<longrightarrow> pchan (procs s j) = Sleeplock_chan lk \<longrightarrow>
          pstate (procs t j) = RUNNABLE))"
proof (cases "sl_locked (sleeplocks s lk) = 0")
  case True
  have "sl_ready s lk" "sl_free s lk" using assms True by (auto simp: sl_ready_def sl_free_def)
  from slk.locked_section [OF this] show ?thesis using True by (auto simp: wp_iff sl_free_def)
next
  case False
  have "lk \<noteq> Proc_lock i" using assms(3) by (simp add: proc_free_lock_def)
  then show ?thesis
    using False assms acquiresleep_busy_run [OF assms False] releasesleep_run [OF assms]
    by (auto simp: awaken_def NPROC_def)
qed

definition demo_slocks :: slocks where
  "demo_slocks = ptable.extend demo_ptable \<lparr>sleeplocks = (\<lambda>_. \<lparr>sl_locked = 0, sl_name = [], sl_pid = 0\<rparr>)\<rparr>"

lemma demo_slocks_simps [simp]:
  "sync demo_slocks = demo_sync" "procs demo_slocks = procs demo_ptable"
  "sleeplocks demo_slocks lk = \<lparr>sl_locked = 0, sl_name = [], sl_pid = 0\<rparr>"
  by (simp_all add: demo_slocks_def ptable.defs demo_ptable_def)

lemma demo_slocks_running: "running demo_slocks 0"
  by (simp add: running_def cur_def demo_sync_free) (simp add: demo_sync_def idle_sync_def)

theorem sleeplock_correct_witness:
  "running demo_slocks 0 \<and> (\<exists>t. seq (acquiresleep (Buf_lk 0)) (bnd (is_holdingsleep (Buf_lk 0)) (\<lambda>h.
     seq (releasesleep (Buf_lk 0)) (ret h))) demo_slocks = Ok True t)"
proof -
  have "lock_free (Buf_lk 0) (sync demo_slocks)" "proc_free_lock (Buf_lk 0)"
    by (simp_all add: demo_sync_free proc_free_lock_def)
  from sleeplock_correct [OF demo_slocks_running this] show ?thesis using demo_slocks_running by auto
qed

end
