(* ===== verification/Virtio.thy ===== *)
theory Virtio
  imports Sleeplock
begin

text \<open>
  The disk driver, \<^verbatim>\<open>kernel/src/virtio_disk.c\<close>, with \<open>struct buf\<close> and the queue structures of
  \<^verbatim>\<open>kernel/inc/virtio.h\<close>. A \<open>struct buf *\<close> is an index; the buffers themselves are the field \<open>bufs\<close>. The three
  queue pages hold only the structures the driver keeps there, so they are typed arrays of the record
  \<open>memdisk\<close> and not bytes; a DMA address is the object whose address the driver stores.

  The device is a parameter. \<open>Reg\<close> reads are answered by \<open>reg\<close>, a function of the register writes so far
  (kept in \<open>mmio\<close>); the work the device does on the queue after a notification is \<open>device\<close>, a function on
  the state of queue, buffers and disk medium, with the named hypothesis \<open>serves\<close>: a request chain of three
  descriptors is carried out and put on the used ring. The medium is the field \<open>medium\<close>, and
  \<open>dwrites\<close> records the block writes in their order.

  \<open>virtio_disk_rw\<close> always sleeps once. \<open>disk_rw\<close> puts the pieces of one call together: the request, the switch to the
  scheduler, the device, the interrupt, and the process when the scheduler has picked it again. It is the
  block driver that the buffer cache is proved over: the locale \<open>block_driver\<close>.
\<close>

section \<open>State\<close>

definition NUM :: nat where "NUM = 8"
definition BSIZE :: nat where "BSIZE = 1024"
definition NBUF :: nat where "NBUF = 30"

definition VRING_DESC_F_NEXT :: uint16 where "VRING_DESC_F_NEXT = 1"
definition VRING_DESC_F_WRITE :: uint16 where "VRING_DESC_F_WRITE = 2"
definition VIRTIO_BLK_T_IN :: uint where "VIRTIO_BLK_T_IN = 0"
definition VIRTIO_BLK_T_OUT :: uint where "VIRTIO_BLK_T_OUT = 1"

record buf =
  valid :: bool
  bdisk :: bool
  bdev :: uint
  blockno :: uint
  refcnt :: uint
  bprev :: nat
  bnext :: nat
  bdata :: "byte list"

datatype dma = Dma_null | Dma_op nat | Dma_data nat | Dma_status nat

record virtq_desc =
  d_addr :: dma
  d_len :: uint
  d_flags :: uint16
  d_next :: uint16

record virtio_blk_req =
  req_type :: uint
  req_reserved :: uint
  req_sector :: uint64

record desc_info =
  info_b :: "nat option"
  info_status :: byte

record memdisk =
  desc :: "nat \<Rightarrow> virtq_desc"
  avail_idx :: uint16
  avail_ring :: "nat \<Rightarrow> uint16"
  dev_used_idx :: uint16
  used_ring :: "nat \<Rightarrow> uint \<times> uint"
  is_free :: "nat \<Rightarrow> bool"
  used_idx :: uint16
  dinfo :: "nat \<Rightarrow> desc_info"
  ops :: "nat \<Rightarrow> virtio_blk_req"
  desc_page :: addr
  avail_page :: addr
  used_page :: addr
  mmio :: "(uint \<times> uint) list"

record kdisk = slocks +
  bufs :: "nat \<Rightarrow> buf"
  md :: memdisk
  medium :: "uint \<Rightarrow> byte list"
  dwrites :: "(uint \<times> byte list) list"

section \<open>Operations\<close>

definition get_buf :: "nat \<Rightarrow> ('z kdisk_scheme, buf) km" where
  "get_buf b = gets (\<lambda>s. bufs s b)"

definition set_buf :: "nat \<Rightarrow> (buf \<Rightarrow> buf) \<Rightarrow> ('z kdisk_scheme, unit) km" where
  "set_buf b f = modify (\<lambda>s. s\<lparr>bufs := (bufs s)(b := f (bufs s b))\<rparr>)"

definition get_md :: "('z kdisk_scheme, memdisk) km" where
  "get_md = gets md"

definition set_md :: "(memdisk \<Rightarrow> memdisk) \<Rightarrow> ('z kdisk_scheme, unit) km" where
  "set_md f = modify (\<lambda>s. s\<lparr>md := f (md s)\<rparr>)"

definition set_desc :: "nat \<Rightarrow> virtq_desc \<Rightarrow> memdisk \<Rightarrow> memdisk" where
  "set_desc i d m = m\<lparr>desc := (desc m)(i := d)\<rparr>"

fun alloc_desc_loop :: "nat \<Rightarrow> nat \<Rightarrow> ('z kdisk_scheme, int) km" where
  "alloc_desc_loop i 0 = ret (- 1)"
| "alloc_desc_loop i (Suc n) =
     bnd get_md (\<lambda>m.
     if is_free m i then seq (set_md (\<lambda>m. m\<lparr>is_free := (is_free m)(i := False)\<rparr>)) (ret (int i))
     else alloc_desc_loop (Suc i) n)"

definition alloc_desc :: "('z kdisk_scheme, int) km" where
  "alloc_desc = alloc_desc_loop 0 NUM"

definition free_desc :: "int \<Rightarrow> ('z kdisk_scheme, unit) km" where
  "free_desc i =
     (if i \<ge> int NUM \<or> i < 0 then panic ''invlid desc index''
      else bnd get_md (\<lambda>m.
        if is_free m (nat i) then panic ''not free''
        else seq (set_md (set_desc (nat i) \<lparr>d_addr = Dma_null, d_len = 0, d_flags = 0, d_next = 0\<rparr>)) (
             seq (set_md (\<lambda>m. m\<lparr>is_free := (is_free m)(nat i := True)\<rparr>)) (
             wakeup Disk_free_chan))))"

fun free_descs :: "int list \<Rightarrow> ('z kdisk_scheme, unit) km" where
  "free_descs [] = ret ()"
| "free_descs (i # is) = seq (free_desc i) (free_descs is)"

text \<open>The loop of \<open>alloc3_desc\<close>, with the indices allocated so far; \<open>None\<close> is the result -1.\<close>

fun alloc3_loop :: "nat \<Rightarrow> int list \<Rightarrow> ('z kdisk_scheme, int list option) km" where
  "alloc3_loop 0 idx = ret (Some idx)"
| "alloc3_loop (Suc n) idx =
     bnd alloc_desc (\<lambda>i.
     if i < 0 then seq (free_descs idx) (ret None)
     else alloc3_loop n (idx @ [i]))"

definition alloc3_desc :: "('z kdisk_scheme, int list option) km" where
  "alloc3_desc = alloc3_loop 3 []"

text \<open>A chain longer than \<open>NUM\<close> visits a descriptor it has freed, and \<open>free_desc\<close> panics: \<open>NUM + 1\<close> rounds are enough.\<close>

fun free_chain_loop :: "nat \<Rightarrow> int \<Rightarrow> ('z kdisk_scheme, unit) km" where
  "free_chain_loop 0 i = spin"
| "free_chain_loop (Suc n) i =
     bnd get_md (\<lambda>m.
     let flag = d_flags (desc m (nat i)); nx = d_next (desc m (nat i))
     in seq (free_desc i) (
        if flag AND VRING_DESC_F_NEXT \<noteq> 0 then free_chain_loop n (uint nx) else ret ()))"

definition free_chain :: "int \<Rightarrow> ('z kdisk_scheme, unit) km" where
  "free_chain i = free_chain_loop (Suc NUM) i"

subsection \<open>Initialisation\<close>

definition VIRTIO_MMIO_MAGIC_VALUE :: uint where "VIRTIO_MMIO_MAGIC_VALUE = 0x000"
definition VIRTIO_MMIO_VERSION :: uint where "VIRTIO_MMIO_VERSION = 0x004"
definition VIRTIO_MMIO_DEVICE_ID :: uint where "VIRTIO_MMIO_DEVICE_ID = 0x008"
definition VIRTIO_MMIO_VENDOR_ID :: uint where "VIRTIO_MMIO_VENDOR_ID = 0x00c"
definition VIRTIO_MMIO_DRIVER_FEATURES :: uint where "VIRTIO_MMIO_DRIVER_FEATURES = 0x020"
definition VIRTIO_MMIO_QUEUE_NUM_MAX :: uint where "VIRTIO_MMIO_QUEUE_NUM_MAX = 0x034"
definition VIRTIO_MMIO_QUEUE_NUM :: uint where "VIRTIO_MMIO_QUEUE_NUM = 0x038"
definition VIRTIO_MMIO_QUEUE_READY :: uint where "VIRTIO_MMIO_QUEUE_READY = 0x044"
definition VIRTIO_MMIO_QUEUE_NOTIFY :: uint where "VIRTIO_MMIO_QUEUE_NOTIFY = 0x050"
definition VIRTIO_MMIO_INTERRUPT_STATUS :: uint where "VIRTIO_MMIO_INTERRUPT_STATUS = 0x060"
definition VIRTIO_MMIO_INTERRUPT_ACK :: uint where "VIRTIO_MMIO_INTERRUPT_ACK = 0x064"
definition VIRTIO_MMIO_STATUS :: uint where "VIRTIO_MMIO_STATUS = 0x070"
definition VIRTIO_MMIO_QUEUE_DESC_LOW :: uint where "VIRTIO_MMIO_QUEUE_DESC_LOW = 0x080"
definition VIRTIO_MMIO_QUEUE_DESC_HIGH :: uint where "VIRTIO_MMIO_QUEUE_DESC_HIGH = 0x084"
definition VIRTIO_MMIO_DRIVER_DESC_LOW :: uint where "VIRTIO_MMIO_DRIVER_DESC_LOW = 0x090"
definition VIRTIO_MMIO_DRIVER_DESC_HIGH :: uint where "VIRTIO_MMIO_DRIVER_DESC_HIGH = 0x094"
definition VIRTIO_MMIO_DEVICE_DESC_LOW :: uint where "VIRTIO_MMIO_DEVICE_DESC_LOW = 0x0a0"
definition VIRTIO_MMIO_DEVICE_DESC_HIGH :: uint where "VIRTIO_MMIO_DEVICE_DESC_HIGH = 0x0a4"

definition VIRTIO_CONFIG_S_ACKNOWLEDGE :: uint where "VIRTIO_CONFIG_S_ACKNOWLEDGE = 1"
definition VIRTIO_CONFIG_S_DRIVER :: uint where "VIRTIO_CONFIG_S_DRIVER = 2"
definition VIRTIO_CONFIG_S_DRIVER_OK :: uint where "VIRTIO_CONFIG_S_DRIVER_OK = 4"
definition VIRTIO_CONFIG_S_FEATURES_OK :: uint where "VIRTIO_CONFIG_S_FEATURES_OK = 8"

text \<open>The feature bits the driver refuses: RO, SCSI, CONFIG_WCE, MQ, ANY_LAYOUT, INDIRECT_DESC and EVENT_IDX.\<close>

definition refused_features :: uint64 where
  "refused_features = push_bit 5 1 OR push_bit 7 1 OR push_bit 11 1 OR push_bit 12 1 OR push_bit 27 1 OR push_bit 28 1 OR push_bit 29 1"

type_synonym reg_dev = "(uint \<times> uint) list \<Rightarrow> uint \<Rightarrow> uint"

definition r_reg :: "reg_dev \<Rightarrow> uint \<Rightarrow> ('z kdisk_scheme, uint) km" where
  "r_reg reg r = bnd get_md (\<lambda>m. ret (reg (mmio m) r))"

definition w_reg :: "uint \<Rightarrow> uint \<Rightarrow> ('z kdisk_scheme, unit) km" where
  "w_reg r v = set_md (\<lambda>m. m\<lparr>mmio := mmio m @ [(r, v)]\<rparr>)"

definition lo32 :: "uint64 \<Rightarrow> uint" where "lo32 x = ucast x"
definition hi32 :: "uint64 \<Rightarrow> uint" where "hi32 x = ucast (drop_bit 32 x)"

text \<open>
  The test of the four identification registers short-circuits in C; the registers are constants of the
  device, so the model reads all four. The three \<open>memset\<close> calls write the same zeros to the pages and to
  their typed view.
\<close>

definition virtio_disk_init :: "reg_dev \<Rightarrow> ('z kdisk_scheme, unit) km" where
  "virtio_disk_init reg =
     seq (initlock Vdisk_lock ''virtio_disk'') (
     bnd (r_reg reg VIRTIO_MMIO_MAGIC_VALUE) (\<lambda>magic.
     bnd (r_reg reg VIRTIO_MMIO_VERSION) (\<lambda>version.
     bnd (r_reg reg VIRTIO_MMIO_DEVICE_ID) (\<lambda>id.
     bnd (r_reg reg VIRTIO_MMIO_VENDOR_ID) (\<lambda>vendor.
     if magic \<noteq> 0x74726976 \<or> version \<noteq> 2 \<or> id \<noteq> 2 \<or> vendor \<noteq> 0x554d4551 then panic ''cannot find virtio disk''
     else
     seq (w_reg VIRTIO_MMIO_STATUS 0) (
     seq (w_reg VIRTIO_MMIO_STATUS VIRTIO_CONFIG_S_ACKNOWLEDGE) (
     seq (w_reg VIRTIO_MMIO_STATUS (VIRTIO_CONFIG_S_ACKNOWLEDGE OR VIRTIO_CONFIG_S_DRIVER)) (
     bnd (r_reg reg VIRTIO_MMIO_DRIVER_FEATURES) (\<lambda>f.
     seq (w_reg VIRTIO_MMIO_DRIVER_FEATURES (lo32 (ucast f AND NOT refused_features))) (
     seq (w_reg VIRTIO_MMIO_STATUS (VIRTIO_CONFIG_S_ACKNOWLEDGE OR VIRTIO_CONFIG_S_DRIVER OR VIRTIO_CONFIG_S_FEATURES_OK)) (
     bnd (r_reg reg VIRTIO_MMIO_STATUS) (\<lambda>status.
     if status AND VIRTIO_CONFIG_S_FEATURES_OK = 0 then panic ''Cannot negotiate feature''
     else bnd (r_reg reg VIRTIO_MMIO_QUEUE_NUM_MAX) (\<lambda>mx.
     if mx = 0 then panic ''virtio queue num max == 0''
     else if mx < of_nat NUM then panic ''virtio queue num max too short''
     else bnd kalloc (\<lambda>d. bnd kalloc (\<lambda>a. bnd kalloc (\<lambda>u.
     seq (set_md (\<lambda>m. m\<lparr>desc_page := d, avail_page := a, used_page := u\<rparr>)) (
     if d = 0 \<or> a = 0 \<or> u = 0 then panic ''failed to kaaloc virtio disk''
     else seq (store_bytes d (replicate 4096 0)) (
     seq (store_bytes a (replicate 4096 0)) (
     seq (store_bytes u (replicate 4096 0)) (
     seq (set_md (\<lambda>m. m\<lparr>desc := (\<lambda>_. \<lparr>d_addr = Dma_null, d_len = 0, d_flags = 0, d_next = 0\<rparr>), avail_idx := 0,
            avail_ring := (\<lambda>_. 0), dev_used_idx := 0, used_ring := (\<lambda>_. (0, 0))\<rparr>)) (
     seq (w_reg VIRTIO_MMIO_QUEUE_NUM (of_nat NUM)) (
     seq (w_reg VIRTIO_MMIO_QUEUE_DESC_LOW (lo32 d)) (
     seq (w_reg VIRTIO_MMIO_QUEUE_DESC_HIGH (hi32 d)) (
     seq (w_reg VIRTIO_MMIO_DRIVER_DESC_LOW (lo32 a)) (
     seq (w_reg VIRTIO_MMIO_DRIVER_DESC_HIGH (hi32 a)) (
     seq (w_reg VIRTIO_MMIO_DEVICE_DESC_LOW (lo32 u)) (
     seq (w_reg VIRTIO_MMIO_DEVICE_DESC_HIGH (hi32 u)) (
     seq (w_reg VIRTIO_MMIO_QUEUE_READY 1) (
     seq (set_md (\<lambda>m. m\<lparr>is_free := (\<lambda>i. i < NUM \<or> is_free m i)\<rparr>)) (
     w_reg VIRTIO_MMIO_STATUS (status OR VIRTIO_CONFIG_S_DRIVER_OK)))))))))))))))))))))))))))))))"

subsection \<open>Requests and interrupts\<close>

text \<open>Filling the three descriptors, the bookkeeping and the available ring, up to the notification.\<close>

definition fill_request :: "nat \<Rightarrow> bool \<Rightarrow> uint64 \<Rightarrow> nat \<Rightarrow> nat \<Rightarrow> nat \<Rightarrow> ('z kdisk_scheme, unit) km" where
  "fill_request b is_write sector i0 i1 i2 =
     seq (set_md (\<lambda>m. m\<lparr>ops := (ops m)(i0 := \<lparr>req_type = (if is_write then VIRTIO_BLK_T_OUT else VIRTIO_BLK_T_IN),
            req_reserved = 0, req_sector = sector\<rparr>)\<rparr>)) (
     seq (set_md (set_desc i0 \<lparr>d_addr = Dma_op i0, d_len = 16, d_flags = VRING_DESC_F_NEXT, d_next = of_nat i1\<rparr>)) (
     seq (set_md (set_desc i1 \<lparr>d_addr = Dma_data b, d_len = of_nat BSIZE,
            d_flags = VRING_DESC_F_NEXT OR (if is_write then 0 else VRING_DESC_F_WRITE), d_next = of_nat i2\<rparr>)) (
     seq (set_md (\<lambda>m. m\<lparr>dinfo := (dinfo m)(i0 := (dinfo m i0)\<lparr>info_status := 0xFF\<rparr>)\<rparr>)) (
     seq (set_md (set_desc i2 \<lparr>d_addr = Dma_status i0, d_len = 1, d_flags = VRING_DESC_F_WRITE, d_next = 0\<rparr>)) (
     seq (set_buf b (\<lambda>k. k\<lparr>bdisk := True\<rparr>)) (
     seq (set_md (\<lambda>m. m\<lparr>dinfo := (dinfo m)(i0 := (dinfo m i0)\<lparr>info_b := Some b\<rparr>)\<rparr>)) (
     seq (set_md (\<lambda>m. m\<lparr>avail_ring := (avail_ring m)(unat (avail_idx m) mod NUM := of_nat i0)\<rparr>)) (
     seq (set_md (\<lambda>m. m\<lparr>avail_idx := avail_idx m + 1\<rparr>)) (
     w_reg VIRTIO_MMIO_QUEUE_NOTIFY 0)))))))))"

text \<open>
  The first part of \<open>virtio_disk_rw\<close>, with the lock held. When fewer than three descriptors are free the process
  sleeps and, woken, tries again.
\<close>

definition virtio_submit :: "nat \<Rightarrow> bool \<Rightarrow> ('z kdisk_scheme, int) km" where
  "virtio_submit b is_write =
     bnd (get_buf b) (\<lambda>k.
     let sector = ucast (blockno k * 2) :: uint64
     in bnd alloc3_desc (\<lambda>r.
        case r of
          Some [i0, i1, i2] \<Rightarrow> seq (fill_request b is_write sector (nat i0) (nat i1) (nat i2)) (ret i0)
        | _ \<Rightarrow> seq (sleep Disk_free_chan Vdisk_lock) (ret 0)))"

text \<open>The second part: the wait for \<open>b->disk\<close>, and the end of the call.\<close>

definition virtio_finish :: "nat \<Rightarrow> int \<Rightarrow> ('z kdisk_scheme, unit) km" where
  "virtio_finish b i0 =
     bnd (get_buf b) (\<lambda>k.
     if bdisk k then sleep (Buf_chan b) Vdisk_lock
     else seq (set_md (\<lambda>m. m\<lparr>dinfo := (dinfo m)(nat i0 := (dinfo m (nat i0))\<lparr>info_b := None\<rparr>)\<rparr>)) (
          seq (free_chain i0) (
          release Vdisk_lock)))"

definition virtio_disk_rw :: "nat \<Rightarrow> bool \<Rightarrow> ('z kdisk_scheme, unit) km" where
  "virtio_disk_rw b is_write =
     seq (acquire Vdisk_lock) (
     bnd (virtio_submit b is_write) (\<lambda>i0.
     virtio_finish b i0))"

text \<open>
  The loop of the interrupt handler. The device adds at most \<open>NUM\<close> entries between two interrupts, because
  there are \<open>NUM\<close> descriptors; \<open>2 ^ 16\<close> rounds bound the loop for every value of the two indices.
\<close>

fun virtio_intr_loop :: "nat \<Rightarrow> ('z kdisk_scheme, unit) km" where
  "virtio_intr_loop 0 = spin"
| "virtio_intr_loop (Suc n) =
     bnd get_md (\<lambda>m.
     if used_idx m = dev_used_idx m then ret ()
     else let id = unat (ucast (fst (used_ring m (unat (used_idx m) mod NUM))) :: uint16)
       in if info_status (dinfo m id) \<noteq> 0 then panic ''virtio_disk_intr status''
          else case info_b (dinfo m id) of
            None \<Rightarrow> panic ''kerneltrap''
          | Some b \<Rightarrow>
              seq (set_buf b (\<lambda>k. k\<lparr>bdisk := False\<rparr>)) (
              seq (wakeup (Buf_chan b)) (
              seq (set_md (\<lambda>m. m\<lparr>used_idx := used_idx m + 1\<rparr>)) (
              virtio_intr_loop n))))"

definition virtio_disk_intr :: "reg_dev \<Rightarrow> ('z kdisk_scheme, unit) km" where
  "virtio_disk_intr reg =
     seq (acquire Vdisk_lock) (
     bnd (r_reg reg VIRTIO_MMIO_INTERRUPT_STATUS) (\<lambda>st.
     seq (w_reg VIRTIO_MMIO_INTERRUPT_ACK (st AND 0x3)) (
     seq (virtio_intr_loop (2 ^ 16)) (
     release Vdisk_lock))))"

section \<open>The device\<close>

text \<open>
  \<open>request s h b w\<close>: the driver has put exactly one chain on the available ring, with head \<open>h\<close>, asking to write
  (\<open>w\<close>) or read the block of buffer \<open>b\<close>.
\<close>

definition sector_block :: "uint64 \<Rightarrow> uint" where
  "sector_block sec = ucast (drop_bit 1 sec)"

definition request :: "'z kdisk_scheme \<Rightarrow> nat \<Rightarrow> nat \<Rightarrow> bool \<Rightarrow> bool" where
  "request s h b w \<longleftrightarrow>
     (let m = md s; i1 = unat (d_next (desc m h)); i2 = unat (d_next (desc m i1)) in
      avail_idx m = dev_used_idx m + 1 \<and> h < NUM \<and> avail_ring m (unat (dev_used_idx m) mod NUM) = of_nat h \<and>
      desc m h = \<lparr>d_addr = Dma_op h, d_len = 16, d_flags = VRING_DESC_F_NEXT, d_next = d_next (desc m h)\<rparr> \<and>
      desc m i1 = \<lparr>d_addr = Dma_data b, d_len = of_nat BSIZE,
        d_flags = VRING_DESC_F_NEXT OR (if w then 0 else VRING_DESC_F_WRITE), d_next = d_next (desc m i1)\<rparr> \<and>
      desc m i2 = \<lparr>d_addr = Dma_status h, d_len = 1, d_flags = VRING_DESC_F_WRITE, d_next = 0\<rparr> \<and>
      req_type (ops m h) = (if w then VIRTIO_BLK_T_OUT else VIRTIO_BLK_T_IN))"

text \<open>What the device does with it: the transfer, the status byte, and an entry on the used ring.\<close>

definition served :: "nat \<Rightarrow> nat \<Rightarrow> bool \<Rightarrow> uint \<Rightarrow> 'z kdisk_scheme \<Rightarrow> 'z kdisk_scheme" where
  "served h b w len s =
     (let m = md s; bn = sector_block (req_sector (ops m h)) in
      s\<lparr>bufs := (if w then bufs s else (bufs s)(b := (bufs s b)\<lparr>bdata := medium s bn\<rparr>)),
        md := m\<lparr>dinfo := (dinfo m)(h := (dinfo m h)\<lparr>info_status := 0\<rparr>),
                used_ring := (used_ring m)(unat (dev_used_idx m) mod NUM := (of_nat h, len)),
                dev_used_idx := dev_used_idx m + 1\<rparr>,
        medium := (if w then (medium s)(bn := bdata (bufs s b)) else medium s),
        dwrites := (if w then dwrites s @ [(bn, bdata (bufs s b))] else dwrites s)\<rparr>)"

definition serves :: "('z kdisk_scheme \<Rightarrow> 'z kdisk_scheme) \<Rightarrow> bool" where
  "serves device \<longleftrightarrow> (\<forall>s h b w. request s h b w \<longrightarrow> (\<exists>len. device s = served h b w len s))"

text \<open>A device that takes the chain at its index of the available ring and follows it.\<close>

definition blk_device :: "'z kdisk_scheme \<Rightarrow> 'z kdisk_scheme" where
  "blk_device s =
     (let m = md s; h = unat (avail_ring m (unat (dev_used_idx m) mod NUM))
      in case d_addr (desc m (unat (d_next (desc m h)))) of
           Dma_data b \<Rightarrow> served h b (req_type (ops m h) = VIRTIO_BLK_T_OUT) 1 s
         | _ \<Rightarrow> s)"

lemma blk_device_serves: "serves blk_device"
  unfolding serves_def
proof (intro allI impI)
  fix s :: "'z kdisk_scheme" and h b w
  assume r: "request s h b w"
  let ?m = "md s"
  have h: "h < 8" using r by (simp add: request_def Let_def NUM_def)
  then have "unat (of_nat h :: uint16) = h" by (simp add: unat_of_nat)
  then have "unat (avail_ring ?m (unat (dev_used_idx ?m) mod NUM)) = h"
    using r by (simp add: request_def Let_def)
  moreover have "d_addr (desc ?m (unat (d_next (desc ?m h)))) = Dma_data b"
    "(req_type (ops ?m h) = VIRTIO_BLK_T_OUT) = w"
    using r by (auto simp: request_def Let_def VIRTIO_BLK_T_OUT_def VIRTIO_BLK_T_IN_def dest: arg_cong [of _ _ d_addr])
  ultimately show "\<exists>len. blk_device s = served h b w len s" by (auto simp: blk_device_def Let_def)
qed

section \<open>One call, from entry to return\<close>

definition disk_rw :: "reg_dev \<Rightarrow> ('z kdisk_scheme \<Rightarrow> 'z kdisk_scheme) \<Rightarrow> nat \<Rightarrow> bool \<Rightarrow> ('z kdisk_scheme, unit) km" where
  "disk_rw reg device b w =
     bnd this_proc (\<lambda>i.
     seq (acquire Vdisk_lock) (
     bnd (virtio_submit b w) (\<lambda>i0.
     bnd mycpu (\<lambda>c. \<lambda>s.
       case virtio_finish b i0 s of
         Swtch t \<Rightarrow>
           seq (set_mycpu (\<lambda>c. c\<lparr>cproc := None\<rparr>)) (
           seq (release (Proc_lock i)) (
           seq (modify device) (
           seq (virtio_disk_intr reg) (
           seq (scheduler_scan i 1) (
           seq (sleep_resume i (intr_is_enabled c) Vdisk_lock) (
           virtio_finish b i0)))))) t
       | r \<Rightarrow> r))))"

subsection \<open>Computing with lock states across the switch\<close>

definition sc :: "nat option \<Rightarrow> sync \<Rightarrow> sync" where
  "sc p y = y\<lparr>cpus := (cpus y)(tp y := (cpus y (tp y))\<lparr>cproc := p\<rparr>)\<rparr>"

lemma sc_simps [simp]:
  "tp (sc p y) = tp y" "sie (sc p y) = sie y" "depth (sc p y) = depth y" "lock_free l (sc p y) = lock_free l y"
  "sync_ok (sc p y) = sync_ok y" "procs_free (sc p y) = procs_free y" "sc p (sc q y) = sc p y"
  "cproc (cpus (sc p y) (tp y)) = p"
  by (auto simp: sc_def sie_def depth_def lock_free_def sync_ok_def procs_free_def)

lemma sc_acq [simp]: "lock_acq l (sc p y) = sc p (lock_acq l y)"
  by (auto simp: sc_def lock_acq_def enter_def quiet_def sie_def depth_def fun_eq_iff intro!: sync.equality cpu.equality)

lemma sc_quiet [simp]: "quiet (sc p y) = sc p (quiet y)"
  by (auto simp: sc_def quiet_def sie_def depth_def fun_eq_iff intro!: sync.equality cpu.equality)

lemma sc_same: "cproc (cpus y (tp y)) = p \<Longrightarrow> sc p y = y"
  by (auto simp: sc_def intro!: sync.equality cpu.equality ext)

lemma set_cproc_run: "set_mycpu (\<lambda>c. c\<lparr>cproc := p\<rparr>) s = Ok () (s\<lparr>sync := sc p (sync s)\<rparr>)"
  by (simp add: set_mycpu_def sc_def)

text \<open>The flag that \<open>sched\<close> keeps across the switch is the one the hart has when the process comes back.\<close>

lemma sched_resume_same:
  "sync s = lock_acq l y \<Longrightarrow> b = intr_is_enabled (cpus (lock_acq l' y) (tp y)) \<Longrightarrow> sched_resume b s = Ok () s"
  by (auto simp: sched_resume_def set_mycpu_def lock_acq_def enter_def quiet_def sie_def depth_def fun_upd_def
      intro!: machine.equality sync.equality cpu.equality ext)

text \<open>Process tables that differ only in states and channels.\<close>

definition psame :: "(nat \<Rightarrow> process) \<Rightarrow> (nat \<Rightarrow> process) \<Rightarrow> bool" where
  "psame p q \<longleftrightarrow> (\<forall>j. (q j)\<lparr>pstate := UNUSED, pchan := No_chan\<rparr> = (p j)\<lparr>pstate := UNUSED, pchan := No_chan\<rparr>)"

lemma psame_refl [simp]: "psame p p"
  by (simp add: psame_def)

lemma psame_trans: "psame p q \<Longrightarrow> psame q r \<Longrightarrow> psame p r"
  by (simp add: psame_def)

lemma psame_pid: "psame p q \<Longrightarrow> pid (q j) = pid (p j)"
  unfolding psame_def by (drule spec [of _ j], drule arg_cong [of _ _ pid]) simp

lemma psame_upd:
  "psame p q \<Longrightarrow> psame p (q(i := (q i)\<lparr>pstate := st\<rparr>))"
  "psame p q \<Longrightarrow> psame p (q(i := (q i)\<lparr>pchan := ch\<rparr>))"
  "psame p q \<Longrightarrow> psame p (q(i := (q i)\<lparr>pchan := ch, pstate := st\<rparr>))"
  by (simp_all add: psame_def)

lemma psame_awaken: "psame p q \<Longrightarrow> psame p (awaken me ch lo hi q)"
  by (simp add: psame_def awaken_def)

lemmas psame_intros = psame_upd psame_awaken

subsection \<open>Running the driver\<close>

lemma disk_ops_run [simp]:
  "get_buf b s = Ok (bufs s b) s"
  "set_buf b f s = Ok () (s\<lparr>bufs := (bufs s)(b := f (bufs s b))\<rparr>)"
  "get_md s = Ok (md s) s"
  "set_md g s = Ok () (s\<lparr>md := g (md s)\<rparr>)"
  "w_reg r v s = Ok () (s\<lparr>md := (md s)\<lparr>mmio := mmio (md s) @ [(r, v)]\<rparr>\<rparr>)"
  "r_reg reg r s = Ok (reg (mmio (md s)) r) s"
  by (simp_all add: get_buf_def set_buf_def get_md_def set_md_def w_reg_def r_reg_def)

lemma kdisk_upd_order [simp]:
  "(s :: 'z kdisk_scheme)\<lparr>bufs := f, sync := y\<rparr> = s\<lparr>sync := y, bufs := f\<rparr>"
  "s\<lparr>md := m, sync := y\<rparr> = s\<lparr>sync := y, md := m\<rparr>"
  "s\<lparr>medium := d, sync := y\<rparr> = s\<lparr>sync := y, medium := d\<rparr>"
  "s\<lparr>dwrites := w, sync := y\<rparr> = s\<lparr>sync := y, dwrites := w\<rparr>"
  "s\<lparr>bufs := f, procs := p\<rparr> = s\<lparr>procs := p, bufs := f\<rparr>"
  "s\<lparr>md := m, procs := p\<rparr> = s\<lparr>procs := p, md := m\<rparr>"
  "s\<lparr>medium := d, procs := p\<rparr> = s\<lparr>procs := p, medium := d\<rparr>"
  "s\<lparr>dwrites := w, procs := p\<rparr> = s\<lparr>procs := p, dwrites := w\<rparr>"
  "s\<lparr>bufs := f, sleeplocks := g\<rparr> = s\<lparr>sleeplocks := g, bufs := f\<rparr>"
  "s\<lparr>md := m, bufs := f\<rparr> = s\<lparr>bufs := f, md := m\<rparr>"
  "s\<lparr>medium := d, bufs := f\<rparr> = s\<lparr>bufs := f, medium := d\<rparr>"
  "s\<lparr>medium := d, md := m\<rparr> = s\<lparr>md := m, medium := d\<rparr>"
  "s\<lparr>dwrites := w, bufs := f\<rparr> = s\<lparr>bufs := f, dwrites := w\<rparr>"
  "s\<lparr>dwrites := w, md := m\<rparr> = s\<lparr>md := m, dwrites := w\<rparr>"
  "s\<lparr>dwrites := w, medium := d\<rparr> = s\<lparr>medium := d, dwrites := w\<rparr>"
  by simp_all

lemma cur_kdisk [simp]:
  "cur ((s :: 'z kdisk_scheme)\<lparr>bufs := f\<rparr>) = cur s" "cur (s\<lparr>md := m\<rparr>) = cur s"
  "cur (s\<lparr>medium := d\<rparr>) = cur s" "cur (s\<lparr>dwrites := w\<rparr>) = cur s"
  by (simp_all add: cur_def)

text \<open>An idle queue: every descriptor is free and nothing is outstanding.\<close>

definition vd_idle :: "memdisk \<Rightarrow> bool" where
  "vd_idle m \<longleftrightarrow> (\<forall>j<NUM. is_free m j) \<and> used_idx m = dev_used_idx m \<and> avail_idx m = dev_used_idx m"

lemma alloc_desc_loop_run:
  "alloc_desc_loop i n s = (case find (is_free (md s)) [i..<i + n] of
     None \<Rightarrow> Ok (- 1) s
   | Some j \<Rightarrow> Ok (int j) (s\<lparr>md := (md s)\<lparr>is_free := (is_free (md s))(j := False)\<rparr>\<rparr>))"
proof (induction n arbitrary: i)
  case (Suc n)
  have "[i..<i + Suc n] = i # [Suc i..<Suc i + n]" by (simp add: upt_conv_Cons)
  then show ?case using Suc.IH [of "Suc i"] by (simp del: upt_Suc)
qed simp

lemma alloc_desc_run:
  "j < 8 \<Longrightarrow> is_free (md s) j \<Longrightarrow> \<forall>k<j. \<not> is_free (md s) k \<Longrightarrow>
    alloc_desc s = Ok (int j) (s\<lparr>md := (md s)\<lparr>is_free := (is_free (md s))(j := False)\<rparr>\<rparr>)"
proof -
  assume j: "j < 8" "is_free (md s) j" "\<forall>k<j. \<not> is_free (md s) k"
  have "find (is_free (md s)) [0..<8] = Some j"
    unfolding find_Some_iff using j by (intro exI [of _ j]) (simp del: upt_rec_numeral)
  then show ?thesis using alloc_desc_loop_run [of 0 8 s] by (simp add: alloc_desc_def NUM_def del: upt_Suc upt_rec_numeral)
qed

lemma alloc3_idle:
  assumes "vd_idle (md s)"
  shows "alloc3_desc s = Ok (Some [0, 1, 2]) (s\<lparr>md := (md s)\<lparr>is_free := (is_free (md s))(0 := False, 1 := False, 2 := False)\<rparr>\<rparr>)"
proof -
  have f: "is_free (md s) 0" "is_free (md s) 1" "is_free (md s) 2" using assms by (auto simp: vd_idle_def NUM_def)
  define s1 where "s1 = s\<lparr>md := (md s)\<lparr>is_free := (is_free (md s))(0 := False)\<rparr>\<rparr>"
  define s2 where "s2 = s1\<lparr>md := (md s1)\<lparr>is_free := (is_free (md s1))(1 := False)\<rparr>\<rparr>"
  have 0: "alloc_desc s = Ok 0 s1" using alloc_desc_run [of 0 s] f by (simp add: s1_def)
  have 1: "alloc_desc s1 = Ok 1 s2" using alloc_desc_run [of 1 s1] f by (simp add: s1_def s2_def)
  have "k = 0 \<or> k = 1" if "k < 2" for k :: nat using that by auto
  then have 2: "alloc_desc s2 = Ok 2 (s2\<lparr>md := (md s2)\<lparr>is_free := (is_free (md s2))(2 := False)\<rparr>\<rparr>)"
    using alloc_desc_run [of 2 s2] f by (auto simp: s1_def s2_def)
  have "alloc3_desc s = alloc3_loop 0 [0, 1, 2] (s2\<lparr>md := (md s2)\<lparr>is_free := (is_free (md s2))(2 := False)\<rparr>\<rparr>)"
    by (simp add: alloc3_desc_def numeral_3_eq_3 0 1 2)
  then show ?thesis by (simp add: s1_def s2_def)
qed

text \<open>The queue after \<open>virtio_submit\<close> on an idle queue, which takes the descriptors 0, 1 and 2.\<close>

definition chained :: "nat \<Rightarrow> bool \<Rightarrow> memdisk \<Rightarrow> bool" where
  "chained b w m \<longleftrightarrow>
     desc m 0 = \<lparr>d_addr = Dma_op 0, d_len = 16, d_flags = VRING_DESC_F_NEXT, d_next = 1\<rparr> \<and>
     desc m 1 = \<lparr>d_addr = Dma_data b, d_len = of_nat BSIZE,
       d_flags = VRING_DESC_F_NEXT OR (if w then 0 else VRING_DESC_F_WRITE), d_next = 2\<rparr> \<and>
     desc m 2 = \<lparr>d_addr = Dma_status 0, d_len = 1, d_flags = VRING_DESC_F_WRITE, d_next = 0\<rparr> \<and>
     \<not> is_free m 0 \<and> \<not> is_free m 1 \<and> \<not> is_free m 2 \<and> (\<forall>j<NUM. 2 < j \<longrightarrow> is_free m j)"

definition submitted :: "nat \<Rightarrow> bool \<Rightarrow> uint64 \<Rightarrow> memdisk \<Rightarrow> bool" where
  "submitted b w sec m \<longleftrightarrow> chained b w m \<and>
     ops m 0 = \<lparr>req_type = (if w then VIRTIO_BLK_T_OUT else VIRTIO_BLK_T_IN), req_reserved = 0, req_sector = sec\<rparr> \<and>
     info_b (dinfo m 0) = Some b \<and> avail_ring m (unat (used_idx m) mod NUM) = 0 \<and> avail_idx m = used_idx m + 1"

lemma virtio_submit_run:
  assumes "vd_idle (md s)"
  obtains m where "virtio_submit b w s = Ok 0 (s\<lparr>bufs := (bufs s)(b := (bufs s b)\<lparr>bdisk := True\<rparr>), md := m\<rparr>)"
    "submitted b w (ucast (blockno (bufs s b) * 2)) m" "dev_used_idx m = used_idx m"
proof -
  let ?sec = "ucast (blockno (bufs s b) * 2) :: uint64"
  define t where "t = s\<lparr>md := (md s)\<lparr>is_free := (is_free (md s))(0 := False, 1 := False, 2 := False)\<rparr>\<rparr>"
  obtain m where m: "fill_request b w ?sec 0 1 2 t = Ok () (t\<lparr>bufs := (bufs t)(b := (bufs t b)\<lparr>bdisk := True\<rparr>), md := m\<rparr>)"
    "submitted b w ?sec m" "dev_used_idx m = used_idx m"
    using assms by (auto simp: fill_request_def set_desc_def submitted_def chained_def t_def vd_idle_def)
  have "alloc3_desc s = Ok (Some [0, 1, 2]) t" using alloc3_idle [OF assms] by (simp add: t_def)
  then have "virtio_submit b w s = Ok 0 (s\<lparr>bufs := (bufs s)(b := (bufs s b)\<lparr>bdisk := True\<rparr>), md := m\<rparr>)"
    using m(1) by (simp add: virtio_submit_def t_def)
  then show ?thesis using that m by blast
qed

lemma submitted_request: "submitted b w sec (md s) \<Longrightarrow> dev_used_idx (md s) = used_idx (md s) \<Longrightarrow> request s 0 b w"
  by (simp add: request_def submitted_def chained_def Let_def NUM_def)

lemma free_desc_run:
  assumes "procs_free (sync s)" "quiet (sync s) = sync s" "i < 8" "\<not> is_free (md s) i"
  shows "free_desc (int i) s = Ok () (s\<lparr>procs := awaken (cur s) Disk_free_chan 0 NPROC (procs s),
    md := (md s)\<lparr>desc := (desc (md s))(i := \<lparr>d_addr = Dma_null, d_len = 0, d_flags = 0, d_next = 0\<rparr>),
                 is_free := (is_free (md s))(i := True)\<rparr>\<rparr>)"
  using assms by (simp add: free_desc_def NUM_def set_desc_def wakeup_run)

lemma flag_simps [simp]:
  "VRING_DESC_F_NEXT \<noteq> 0" "VRING_DESC_F_WRITE AND VRING_DESC_F_NEXT = 0"
  "(VRING_DESC_F_NEXT OR x) AND VRING_DESC_F_NEXT \<noteq> 0"
proof -
  show "(VRING_DESC_F_NEXT OR x) AND VRING_DESC_F_NEXT \<noteq> 0"
  proof
    assume "(VRING_DESC_F_NEXT OR x) AND VRING_DESC_F_NEXT = 0"
    then have "bit ((VRING_DESC_F_NEXT OR x) AND VRING_DESC_F_NEXT) 0 = bit (0 :: uint16) 0" by simp
    then show False by (simp add: VRING_DESC_F_NEXT_def bit_simps)
  qed
qed (simp_all add: VRING_DESC_F_NEXT_def VRING_DESC_F_WRITE_def)

lemma free_chain_run:
  assumes y: "procs_free (sync s)" "quiet (sync s) = sync s" and m: "chained b w (md s)"
  obtains p m where "free_chain 0 s = Ok () (s\<lparr>procs := p, md := m\<rparr>)" "psame (procs s) p" "\<forall>j<NUM. is_free m j"
    "used_idx m = used_idx (md s)" "dev_used_idx m = dev_used_idx (md s)" "avail_idx m = avail_idx (md s)"
proof -
  define fd where "fd = (\<lambda>i (m :: memdisk). m\<lparr>desc := (desc m)(i := \<lparr>d_addr = Dma_null, d_len = 0, d_flags = 0, d_next = 0\<rparr>),
                 is_free := (is_free m)(i := True)\<rparr>)"
  define aw where "aw = awaken (cur s) Disk_free_chan 0 NPROC"
  have run: "free_desc (int i) u = Ok () (u\<lparr>procs := aw (procs u), md := fd i (md u)\<rparr>)"
    if "sync u = sync s" "i < 8" "\<not> is_free (md u) i" for u :: "'a kdisk_scheme" and i
    using free_desc_run [of u i] that y by (simp add: aw_def fd_def cur_def)
  let ?s1 = "s\<lparr>procs := aw (procs s), md := fd 0 (md s)\<rparr>"
  let ?s2 = "s\<lparr>procs := aw (aw (procs s)), md := fd 1 (fd 0 (md s))\<rparr>"
  let ?s3 = "s\<lparr>procs := aw (aw (aw (procs s))), md := fd 2 (fd 1 (fd 0 (md s)))\<rparr>"
  have r: "free_desc 0 s = Ok () ?s1" "free_desc 1 ?s1 = Ok () ?s2" "free_desc 2 ?s2 = Ok () ?s3"
    using run [of s 0] run [of ?s1 1] run [of ?s2 2] m by (auto simp: chained_def fd_def)
  have f: "desc (fd 0 (md s)) 1 = desc (md s) 1" "desc (fd 1 (fd 0 (md s))) 2 = desc (md s) 2" by (simp_all add: fd_def)
  have "free_chain_loop (Suc (Suc (Suc n))) 0 s = Ok () ?s3" for n using r f m by (simp add: chained_def)
  from this [of 6] have chain: "free_chain 0 s = Ok () ?s3" by (simp add: free_chain_def NUM_def)
  have ps: "psame (procs s) (aw (aw (aw (procs s))))" by (simp add: aw_def psame_awaken)
  have fr: "is_free (fd 2 (fd 1 (fd 0 (md s)))) j" if "j < NUM" for j
  proof -
    have "j = 0 \<or> j = 1 \<or> j = 2 \<or> 2 < j" by linarith
    then show ?thesis using m that by (auto simp: fd_def chained_def)
  qed
  show ?thesis by (rule that [OF chain ps]) (use fr in blast, simp_all add: fd_def)
qed

lemma virtio_intr_run:
  assumes y: "procs_free (sync s)" "lock_free Vdisk_lock (sync s)" and c: "cur s = None"
    and m: "used_idx (md s) + 1 = dev_used_idx (md s)" "used_ring (md s) (unat (used_idx (md s)) mod NUM) = (0, len)"
      "info_status (dinfo (md s) 0) = 0" "info_b (dinfo (md s) 0) = Some b"
  obtains io where "virtio_disk_intr reg s = Ok () (s\<lparr>sync := quiet (sync s),
      procs := awaken None (Buf_chan b) 0 NPROC (procs s), bufs := (bufs s)(b := (bufs s b)\<lparr>bdisk := False\<rparr>),
      md := (md s)\<lparr>mmio := io, used_idx := dev_used_idx (md s)\<rparr>\<rparr>)"
proof -
  let ?io = "mmio (md s) @ [(VIRTIO_MMIO_INTERRUPT_ACK, reg (mmio (md s)) VIRTIO_MMIO_INTERRUPT_STATUS AND 3)]"
  define u where "u = s\<lparr>sync := lock_acq Vdisk_lock (sync s), md := (md s)\<lparr>mmio := ?io\<rparr>\<rparr>"
  define v where "v = u\<lparr>bufs := (bufs u)(b := (bufs u b)\<lparr>bdisk := False\<rparr>)\<rparr>"
  define w where "w = v\<lparr>procs := awaken None (Buf_chan b) 0 NPROC (procs v), md := (md v)\<lparr>used_idx := dev_used_idx (md s)\<rparr>\<rparr>"
  have ok: "sync_ok (sync s)" using y(1) by (simp add: procs_free_def)
  have "procs_free (sync v)" using procs_free_acq [OF y(1), of Vdisk_lock] by (simp add: v_def u_def)
  from wakeup_run [OF this, of "Buf_chan b"]
  have wk: "wakeup (Buf_chan b) v = Ok () (v\<lparr>procs := awaken None (Buf_chan b) 0 NPROC (procs v)\<rparr>)"
    using ok c by (simp add: v_def u_def cur_def)
  have ne: "used_idx (md s) \<noteq> dev_used_idx (md s)" using m(1) by (metis add_0 add_left_cancel one_neq_zero add.commute)
  have "virtio_intr_loop (Suc n) u = virtio_intr_loop n w" for n
    using m ne wk by (simp add: u_def v_def w_def)
  moreover have "virtio_intr_loop (Suc n) w = Ok () w" for n by (simp add: w_def v_def u_def)
  ultimately have "virtio_intr_loop (Suc (Suc n)) u = Ok () w" for n by simp
  from this [of 65534] have lp: "virtio_intr_loop (2 ^ 16) u = Ok () w" by simp
  have "acquire Vdisk_lock s = Ok () (s\<lparr>sync := lock_acq Vdisk_lock (sync s)\<rparr>)" using y(2) by (rule acquire_run)
  then have "virtio_disk_intr reg s = release Vdisk_lock w" using lp by (simp add: virtio_disk_intr_def u_def)
  also have "\<dots> = Ok () (w\<lparr>sync := quiet (sync s)\<rparr>)"
    by (rule release_acq) (use ok y in \<open>simp_all add: w_def v_def u_def\<close>)
  finally show ?thesis using that by (simp add: w_def v_def u_def)
qed

text \<open>
  The call on an idle queue transfers the block, leaves the queue idle and changes nothing else but the
  states and channels of processes.
\<close>

definition transferred :: "nat \<Rightarrow> bool \<Rightarrow> 'z kdisk_scheme \<Rightarrow> 'z kdisk_scheme" where
  "transferred b w s =
     (let bn = blockno (bufs s b) in
      s\<lparr>bufs := (bufs s)(b := (bufs s b)\<lparr>bdata := (if w then bdata (bufs s b) else medium s bn), bdisk := False\<rparr>),
        medium := (if w then (medium s)(bn := bdata (bufs s b)) else medium s),
        dwrites := (if w then dwrites s @ [(bn, bdata (bufs s b))] else dwrites s)\<rparr>)"

lemma sector_block_of: "bn < 2 ^ 31 \<Longrightarrow> sector_block (ucast (bn * 2 :: uint)) = bn"
proof -
  assume b: "bn < 2 ^ 31"
  have "unat bn < 2 ^ 31" using b by (simp add: word_less_nat_alt)
  then have "unat (bn * 2) = unat bn * 2" by (simp add: unat_word_ariths)
  then have "unat (ucast (bn * 2) :: uint64) = unat bn * 2"
    using \<open>unat bn < 2 ^ 31\<close> by (simp add: unsigned_ucast_eq take_bit_eq_mod)
  then have "unat (drop_bit 1 (ucast (bn * 2) :: uint64)) = unat bn"
    using \<open>unat bn < 2 ^ 31\<close> unfolding unsigned_drop_bit_eq by (simp add: drop_bit_Suc take_bit_eq_mod)
  then have "unat (sector_block (ucast (bn * 2))) = unat bn"
    using \<open>unat bn < 2 ^ 31\<close> unfolding sector_block_def unsigned_ucast_eq take_bit_eq_mod by simp
  then show ?thesis by (simp add: word_unat_eq_iff)
qed

lemma disk_rw_run:
  assumes dev: "serves device" and s: "running s i" "i < NPROC" "lock_free Vdisk_lock (sync s)" "vd_idle (md s)"
    and bn: "blockno (bufs s b) < 2 ^ 31"
  obtains p m where "disk_rw reg device b w s = Ok () ((transferred b w s)\<lparr>sync := quiet (sync s), procs := p, md := m\<rparr>)"
    "psame (procs s) p" "vd_idle m"
proof -
  let ?y = "sync s" and ?sec = "ucast (blockno (bufs s b) * 2) :: uint64" and ?bn = "blockno (bufs s b)"
  let ?P = "Proc_lock i"
  have y: "procs_free ?y" "sync_ok ?y" "cur s = Some i" using s(1) by (auto simp: running_def procs_free_def)
  have fr: "lock_free l (quiet ?y) = lock_free l ?y" for l by simp
  define s1 where "s1 = s\<lparr>sync := lock_acq Vdisk_lock ?y\<rparr>"
  obtain m1 where m1: "virtio_submit b w s1 = Ok 0 (s1\<lparr>bufs := (bufs s)(b := (bufs s b)\<lparr>bdisk := True\<rparr>), md := m1\<rparr>)"
    "submitted b w ?sec m1" "dev_used_idx m1 = used_idx m1"
    using virtio_submit_run [of s1 b w] s(4) by (auto simp: s1_def)
  define s2 where "s2 = s1\<lparr>bufs := (bufs s)(b := (bufs s b)\<lparr>bdisk := True\<rparr>), md := m1\<rparr>"
  define c where "c = cpus (sync s2) (tp (sync s2))"
  define s3 where "s3 = s2\<lparr>sync := lock_acq ?P ?y, procs := (procs s)(i := (procs s i)\<lparr>pchan := Buf_chan b, pstate := SLEEPING\<rparr>)\<rparr>"
  have "sleep (Buf_chan b) Vdisk_lock s2 = Swtch s3"
    using sleep_run [OF y(1) s(3), of s2 i "Buf_chan b"] y(3) by (simp add: s2_def s1_def s3_def cur_def)
  then have fin: "virtio_finish b 0 s2 = Swtch s3" by (simp add: virtio_finish_def s2_def)
  define s4 where "s4 = s3\<lparr>sync := sc None (quiet ?y)\<rparr>"
  have r4: "release ?P (s3\<lparr>sync := sc None (sync s3)\<rparr>) = Ok () s4"
    using release_acq [of "s3\<lparr>sync := sc None (sync s3)\<rparr>" ?P "sc None ?y"] y
    by (simp add: s3_def s4_def procs_freeD)
  have "request s4 0 b w" using m1(2,3) by (intro submitted_request) (simp_all add: s4_def s3_def s2_def)
  then obtain len where len: "device s4 = served 0 b w len s4" using dev unfolding serves_def by blast
  define s5 where "s5 = served 0 b w len s4"
  have m5: "md s5 = m1\<lparr>dinfo := (dinfo m1)(0 := (dinfo m1 0)\<lparr>info_status := 0\<rparr>),
      used_ring := (used_ring m1)(unat (used_idx m1) mod NUM := (0, len)), dev_used_idx := used_idx m1 + 1\<rparr>"
    using m1(3) by (simp add: s5_def served_def s4_def s3_def s2_def Let_def)
  have o5: "sync s5 = sc None (quiet ?y)" "procs s5 = procs s3" "cur s5 = None"
    using sc_simps(8) [of None "quiet ?y"] by (simp_all add: s5_def served_def s4_def Let_def cur_def del: sc_simps(8))
  obtain io where io: "virtio_disk_intr reg s5 = Ok () (s5\<lparr>sync := quiet (sync s5),
      procs := awaken None (Buf_chan b) 0 NPROC (procs s5), bufs := (bufs s5)(b := (bufs s5 b)\<lparr>bdisk := False\<rparr>),
      md := (md s5)\<lparr>mmio := io, used_idx := dev_used_idx (md s5)\<rparr>\<rparr>)"
    by (rule virtio_intr_run [of s5 len b reg]) (use y s(3) o5 m5 m1 in \<open>simp_all add: submitted_def\<close>)
  define p5 where "p5 = awaken None (Buf_chan b) 0 NPROC (procs s3)"
  define m6 where "m6 = (md s5)\<lparr>mmio := io, used_idx := dev_used_idx (md s5)\<rparr>"
  define s6 where "s6 = s5\<lparr>procs := p5, bufs := (bufs s5)(b := (bufs s5 b)\<lparr>bdisk := False\<rparr>), md := m6\<rparr>"
  have r6: "virtio_disk_intr reg s5 = Ok () s6" using io o5 by (simp add: s6_def m6_def p5_def)
  have p5i: "pstate (p5 i) = RUNNABLE" using s(2) by (simp add: p5_def awaken_def s3_def)
  define s7 where "s7 = s6\<lparr>sync := lock_acq ?P ?y, procs := p5(i := (p5 i)\<lparr>pstate := RUNNING\<rparr>)\<rparr>"
  have cy: "sc (Some i) (lock_acq ?P ?y) = lock_acq ?P ?y" using y(3) by (intro sc_same) (simp add: cur_def)
  have r7: "scheduler_scan i 1 s6 = Ok (Some i) s7"
    using scheduler_scan_run [of s6 i 1] y o5 p5i cy by (simp add: s6_def s7_def set_cproc_run)
  define s8 where "s8 = s7\<lparr>sync := lock_acq Vdisk_lock ?y, procs := p5(i := (p5 i)\<lparr>pstate := RUNNING, pchan := No_chan\<rparr>)\<rparr>"
  have "sched_resume (intr_is_enabled c) s7 = Ok () s7"
    by (rule sched_resume_same [of _ ?P ?y _ Vdisk_lock]) (simp_all add: s7_def c_def s2_def s1_def)
  then have r8: "sleep_resume i (intr_is_enabled c) Vdisk_lock s7 = Ok () s8"
    using y s(3) by (simp add: sleep_resume_def s7_def s8_def release_acq procs_freeD acquire_run)
  define s9 where "s9 = s8\<lparr>md := m6\<lparr>dinfo := (dinfo m6)(0 := (dinfo m6 0)\<lparr>info_b := None\<rparr>)\<rparr>\<rparr>"
  have vs: "virtio_finish b 0 s8 = seq (free_chain 0) (release Vdisk_lock) s9"
    by (simp add: virtio_finish_def s8_def s7_def s6_def s9_def)
  have all: "disk_rw reg device b w s = seq (free_chain 0) (release Vdisk_lock) s9"
    using y s(3) m1(1) fin r4 r6 r7 r8 vs len
    by (simp add: disk_rw_def this_proc_run acquire_run mycpu_def set_cproc_run s1_def [symmetric] s2_def [symmetric]
        c_def [symmetric] s5_def [symmetric])
  have q9: "procs_free (sync s9)" "quiet (sync s9) = sync s9" "sync s9 = lock_acq Vdisk_lock ?y"
    using y procs_free_acq [OF y(1), of Vdisk_lock] by (simp_all add: s9_def s8_def)
  have m9: "chained b w (md s9)" "used_idx (md s9) = dev_used_idx (md s9)" "avail_idx (md s9) = dev_used_idx (md s9)"
    using m1(2) by (simp_all add: submitted_def chained_def s9_def m6_def m5)
  obtain p m where pm: "free_chain 0 s9 = Ok () (s9\<lparr>procs := p, md := m\<rparr>)" "psame (procs s9) p" "\<forall>j<NUM. is_free m j"
    "used_idx m = used_idx (md s9)" "dev_used_idx m = dev_used_idx (md s9)" "avail_idx m = avail_idx (md s9)"
    by (rule free_chain_run [OF q9(1,2) m9(1)])
  have "release Vdisk_lock (s9\<lparr>procs := p, md := m\<rparr>) = Ok () (s9\<lparr>sync := quiet ?y, procs := p, md := m\<rparr>)"
    using release_acq [of "s9\<lparr>procs := p, md := m\<rparr>" Vdisk_lock ?y] q9 y s(3) by simp
  moreover have "s9\<lparr>sync := quiet ?y, procs := p, md := m\<rparr> = (transferred b w s)\<lparr>sync := quiet ?y, procs := p, md := m\<rparr>"
    using m1(2) sector_block_of [OF bn]
    by (simp add: transferred_def s9_def s8_def s7_def s6_def s5_def served_def s4_def s3_def s2_def s1_def submitted_def Let_def)
  ultimately have r: "disk_rw reg device b w s = Ok () ((transferred b w s)\<lparr>sync := quiet ?y, procs := p, md := m\<rparr>)"
    using all pm(1) by simp
  have "psame (procs s) (procs s9)"
    by (simp add: s9_def s8_def p5_def s3_def psame_def awaken_def)
  then have ps: "psame (procs s) p" using pm(2) by (rule psame_trans)
  show ?thesis by (rule that [OF r ps]) (use pm m9 in \<open>simp add: vd_idle_def\<close>)
qed

section \<open>The contract of the block layer\<close>

text \<open>
  What the buffer cache relies on: called by the running process with the queue idle, the driver returns with the
  block of \<open>b\<close> transferred, its own queue idle again, and nothing else changed but states and channels of
  processes.
\<close>

locale block_driver =
  fixes rw :: "nat \<Rightarrow> bool \<Rightarrow> ('z kdisk_scheme, unit) km"
  assumes transfer: "running s i \<Longrightarrow> i < NPROC \<Longrightarrow> lock_free Vdisk_lock (sync s) \<Longrightarrow> vd_idle (md s) \<Longrightarrow>
    blockno (bufs s b) < 2 ^ 31 \<Longrightarrow>
    \<exists>p m. rw b w s = Ok () ((transferred b w s)\<lparr>sync := quiet (sync s), procs := p, md := m\<rparr>) \<and> psame (procs s) p \<and> vd_idle m"
begin

text \<open>A block that is written can be read back into another buffer.\<close>

lemma write_read:
  assumes "running s i" "i < NPROC" "lock_free Vdisk_lock (sync s)" "vd_idle (md s)"
    "blockno (bufs s b) < 2 ^ 31" "blockno (bufs s c) = blockno (bufs s b)"
  shows "wp (seq (rw b True) (rw c False)) (\<lambda>_ t. bdata (bufs t c) = bdata (bufs s b)) s"
proof -
  let ?y = "quiet (sync s)"
  obtain p m where 1: "rw b True s = Ok () ((transferred b True s)\<lparr>sync := ?y, procs := p, md := m\<rparr>)" "vd_idle m"
    using transfer [OF assms(1-5), of True] by blast
  let ?t = "(transferred b True s)\<lparr>sync := ?y, procs := p, md := m\<rparr>"
  have "running ?t i" "lock_free Vdisk_lock (sync ?t)" "vd_idle (md ?t)" "blockno (bufs ?t c) < 2 ^ 31"
    using assms 1(2) by (auto simp: running_def cur_def)
      (simp_all add: transferred_def Let_def)
  from transfer [OF this(1) assms(2) this(2-4), of False]
  show ?thesis using 1(1) assms(6) by (auto simp: wp_iff transferred_def Let_def)
qed

end

locale disk_device =
  fixes reg :: reg_dev and device :: "'z kdisk_scheme \<Rightarrow> 'z kdisk_scheme"
  assumes device_serves: "serves device"

sublocale disk_device \<subseteq> vrw: block_driver "disk_rw reg device"
  by unfold_locales (metis disk_rw_run [OF device_serves])

interpretation vdisk: disk_device reg blk_device for reg
  by unfold_locales (rule blk_device_serves)

section \<open>Properties\<close>

definition idle_md :: memdisk where
  "idle_md = \<lparr>desc = (\<lambda>_. \<lparr>d_addr = Dma_null, d_len = 0, d_flags = 0, d_next = 0\<rparr>), avail_idx = 0, avail_ring = (\<lambda>_. 0),
     dev_used_idx = 0, used_ring = (\<lambda>_. (0, 0)), is_free = (\<lambda>_. True), used_idx = 0,
     dinfo = (\<lambda>_. \<lparr>info_b = None, info_status = 0\<rparr>), ops = (\<lambda>_. \<lparr>req_type = 0, req_reserved = 0, req_sector = 0\<rparr>),
     desc_page = 0, avail_page = 0, used_page = 0, mmio = []\<rparr>"

definition demo_disk :: kdisk where
  "demo_disk = slocks.extend demo_slocks \<lparr>bufs = (\<lambda>b. \<lparr>valid = False, bdisk = False, bdev = 1, blockno = of_nat b, refcnt = 0,
     bprev = 0, bnext = 0, bdata = replicate 1024 7\<rparr>), md = idle_md, medium = (\<lambda>_. replicate 1024 0), dwrites = []\<rparr>"

lemma demo_disk_simps [simp]:
  "sync demo_disk = demo_sync" "md demo_disk = idle_md" "medium demo_disk bn = replicate 1024 0" "dwrites demo_disk = []"
  "bdata (bufs demo_disk b) = replicate 1024 7" "blockno (bufs demo_disk b) = of_nat b" "procs demo_disk = procs demo_slocks"
  by (simp_all add: demo_disk_def slocks.defs demo_slocks_def ptable.defs demo_ptable_def)

lemma demo_disk_ready: "running demo_disk 0" "lock_free Vdisk_lock (sync demo_disk)" "vd_idle (md demo_disk)"
  by (simp_all add: running_def cur_def demo_sync_free vd_idle_def idle_md_def) (simp add: demo_sync_def idle_sync_def)

text \<open>
  C30: A disk request, from \<open>virtio_disk_rw\<close> over the device and \<open>virtio_disk_intr\<close> to the return of the process that the
  scheduler picked again: with a device that serves its queue, the call returns; a write puts the buffer's
  data on the medium at its block and a read fetches the block, no other block or buffer changes, and
  afterwards all eight descriptors are free, nothing is outstanding, the lock is free and the buffer
  belongs to the driver's caller again.
\<close>

theorem virtio_rw_correct:
  assumes "serves device" "running s i" "i < 64" "lock_free Vdisk_lock (sync s)" "vd_idle (md s)"
    "blockno (bufs s b) < 2 ^ 31"
  shows "\<exists>t. disk_rw reg device b w s = Ok () t \<and> \<not> bdisk (bufs t b) \<and>
    (if w then bdata (bufs t b) = bdata (bufs s b) \<and> medium t = (medium s)(blockno (bufs s b) := bdata (bufs s b))
     else bdata (bufs t b) = medium s (blockno (bufs s b)) \<and> medium t = medium s) \<and>
    (\<forall>c. c \<noteq> b \<longrightarrow> bufs t c = bufs s c) \<and> vd_idle (md t) \<and> lock_free Vdisk_lock (sync t) \<and> running t i"
proof -
  have "i < NPROC" using assms(3) by (simp add: NPROC_def)
  from disk_rw_run [OF assms(1,2) this assms(4-6), of reg w] obtain p m where
    "disk_rw reg device b w s = Ok () ((transferred b w s)\<lparr>sync := quiet (sync s), procs := p, md := m\<rparr>)" "vd_idle m" by metis
  then show ?thesis using assms(2,4)
    by (auto simp: running_def cur_def) (auto simp: transferred_def Let_def)
qed

theorem virtio_rw_correct_witness:
  "\<exists>t. disk_rw (\<lambda>_ _. 0) blk_device 3 True demo_disk = Ok () t \<and> medium t 3 = replicate 1024 7 \<and> vd_idle (md t)"
proof -
  have "blockno (bufs demo_disk 3) < 2 ^ 31" by simp
  from virtio_rw_correct [OF blk_device_serves demo_disk_ready(1) _ demo_disk_ready(2,3) this, of "\<lambda>_ _. 0" True]
  show ?thesis by auto
qed

end
