(* ===== verification/Bio.thy ===== *)
theory Bio
  imports Virtio
begin

text \<open>
  The buffer cache, \<^verbatim>\<open>kernel/src/bio.c\<close>: thirty block buffers on a doubly linked list in the order of
  their last use, with \<open>bcache.head\<close> as the sentinel. A \<open>struct buf *\<close> is an index into \<open>bcache.buf\<close>; the
  sentinel has the index \<open>NBUF\<close>. The links \<open>b->next\<close>, \<open>b->prev\<close> are fields of the model, updated by the
  same assignments as in the source.

  The routines that reach \<open>virtio_disk_rw\<close> take the driver as their parameter \<open>rw\<close>: \<open>rw b w\<close> stands for the call,
  from entry to return, on the buffer \<open>b\<close>. The theory Virtio provides it; the locale \<open>block_driver\<close> is what
  the proofs use of it.

  A search loop that has visited \<open>NBUF + 1\<close> nodes without reaching the sentinel is in a cycle that does not
  contain it and never ends (\<open>Spin\<close>); on a well-formed list it does not happen.

  \<open>lru bs xs\<close> relates the links to the list \<open>xs\<close> of the buffers in the order of their use. The specification of the
  cache is on that list: the first buffer with the wanted block, else the last unreferenced one; a
  release moves to the front. The cache invariant \<open>bc_inv\<close> and the view \<open>blk\<close> of the blocks through the cache
  are what the log and the file system see.
\<close>

section \<open>State and operations\<close>

abbreviation bhead :: nat where "bhead \<equiv> NBUF"

text \<open>The four assignments that put \<open>b\<close> behind the sentinel.\<close>

definition link_front :: "nat \<Rightarrow> (nat \<Rightarrow> buf) \<Rightarrow> nat \<Rightarrow> buf" where
  "link_front b bs =
     (let bs1 = bs(b := (bs b)\<lparr>bnext := bnext (bs bhead)\<rparr>);
          bs2 = bs1(b := (bs1 b)\<lparr>bprev := bhead\<rparr>);
          n = bnext (bs2 bhead);
          bs3 = bs2(n := (bs2 n)\<lparr>bprev := b\<rparr>)
      in bs3(bhead := (bs3 bhead)\<lparr>bnext := b\<rparr>))"

text \<open>The two assignments that take \<open>b\<close> out of the list.\<close>

definition unlink :: "nat \<Rightarrow> (nat \<Rightarrow> buf) \<Rightarrow> nat \<Rightarrow> buf" where
  "unlink b bs =
     (let n = bnext (bs b);
          bs1 = bs(n := (bs n)\<lparr>bprev := bprev (bs b)\<rparr>);
          p = bprev (bs1 b)
      in bs1(p := (bs1 p)\<lparr>bnext := bnext (bs1 b)\<rparr>))"

fun binit_loop :: "nat \<Rightarrow> nat \<Rightarrow> ('z kdisk_scheme, unit) km" where
  "binit_loop b 0 = ret ()"
| "binit_loop b (Suc n) =
     seq (initsleeplock (Buf_lk b) ''buffer'') (
     seq (modify (\<lambda>s. s\<lparr>bufs := link_front b (bufs s)\<rparr>)) (
     binit_loop (Suc b) n))"

definition binit :: "('z kdisk_scheme, unit) km" where
  "binit =
     seq (initlock Bcache_lock ''bcache'') (
     seq (set_buf bhead (\<lambda>h. h\<lparr>bprev := bhead, bnext := bhead\<rparr>)) (
     binit_loop 0 NBUF))"

datatype scan = Found nat | Absent | Endless

fun find_cached :: "nat \<Rightarrow> (nat \<Rightarrow> buf) \<Rightarrow> nat \<Rightarrow> uint \<Rightarrow> uint \<Rightarrow> scan" where
  "find_cached 0 bs b dev bn = Endless"
| "find_cached (Suc n) bs b dev bn =
     (if b = bhead then Absent
      else if bdev (bs b) = dev \<and> blockno (bs b) = bn then Found b
      else find_cached n bs (bnext (bs b)) dev bn)"

fun find_unref :: "nat \<Rightarrow> (nat \<Rightarrow> buf) \<Rightarrow> nat \<Rightarrow> scan" where
  "find_unref 0 bs b = Endless"
| "find_unref (Suc n) bs b =
     (if b = bhead then Absent
      else if refcnt (bs b) = 0 then Found b
      else find_unref n bs (bprev (bs b)))"

definition bget :: "uint \<Rightarrow> uint \<Rightarrow> ('z kdisk_scheme, nat) km" where
  "bget dev bn =
     seq (acquire Bcache_lock) (
     bnd (gets bufs) (\<lambda>bs.
     case find_cached (Suc NBUF) bs (bnext (bs bhead)) dev bn of
       Endless \<Rightarrow> spin
     | Found b \<Rightarrow>
         seq (set_buf b (\<lambda>k. k\<lparr>refcnt := refcnt k + 1\<rparr>)) (
         seq (release Bcache_lock) (
         seq (acquiresleep (Buf_lk b)) (
         ret b)))
     | Absent \<Rightarrow>
         (case find_unref (Suc NBUF) bs (bprev (bs bhead)) of
            Endless \<Rightarrow> spin
          | Absent \<Rightarrow> panic ''bget: no buffers''
          | Found b \<Rightarrow>
              seq (set_buf b (\<lambda>k. k\<lparr>bdev := dev, blockno := bn, valid := False, refcnt := 1\<rparr>)) (
              seq (release Bcache_lock) (
              seq (acquiresleep (Buf_lk b)) (
              ret b))))))"

definition bread :: "(nat \<Rightarrow> bool \<Rightarrow> ('z kdisk_scheme, unit) km) \<Rightarrow> uint \<Rightarrow> uint \<Rightarrow> ('z kdisk_scheme, nat) km" where
  "bread rw dev bn =
     bnd (bget dev bn) (\<lambda>b.
     bnd (get_buf b) (\<lambda>k.
     seq (whenM (\<not> valid k) (seq (rw b False) (set_buf b (\<lambda>k. k\<lparr>valid := True\<rparr>)))) (
     ret b)))"

definition bwrite :: "(nat \<Rightarrow> bool \<Rightarrow> ('z kdisk_scheme, unit) km) \<Rightarrow> nat \<Rightarrow> ('z kdisk_scheme, unit) km" where
  "bwrite rw b =
     bnd (is_holdingsleep (Buf_lk b)) (\<lambda>h.
     if \<not> h then panic ''bwrite'' else rw b True)"

definition bpin :: "nat \<Rightarrow> ('z kdisk_scheme, unit) km" where
  "bpin b =
     seq (acquire Bcache_lock) (
     seq (set_buf b (\<lambda>k. k\<lparr>refcnt := refcnt k + 1\<rparr>)) (
     release Bcache_lock))"

definition bunpin :: "nat \<Rightarrow> ('z kdisk_scheme, unit) km" where
  "bunpin b =
     seq (acquire Bcache_lock) (
     seq (set_buf b (\<lambda>k. k\<lparr>refcnt := refcnt k - 1\<rparr>)) (
     release Bcache_lock))"

definition brelse :: "nat \<Rightarrow> ('z kdisk_scheme, unit) km" where
  "brelse b =
     bnd (is_holdingsleep (Buf_lk b)) (\<lambda>h.
     if \<not> h then panic ''brelse''
     else seq (releasesleep (Buf_lk b)) (
          seq (acquire Bcache_lock) (
          seq (set_buf b (\<lambda>k. k\<lparr>refcnt := refcnt k - 1\<rparr>)) (
          bnd (get_buf b) (\<lambda>k.
          seq (whenM (refcnt k = 0) (modify (\<lambda>s. s\<lparr>bufs := link_front b (unlink b (bufs s))\<rparr>))) (
          release Bcache_lock))))))"

section \<open>The list\<close>

text \<open>\<open>linkp N P ys\<close>: consecutive elements of \<open>ys\<close> are linked by the successor \<open>N\<close> and the predecessor \<open>P\<close>.\<close>

fun linkp :: "(nat \<Rightarrow> nat) \<Rightarrow> (nat \<Rightarrow> nat) \<Rightarrow> nat list \<Rightarrow> bool" where
  "linkp N P (x # y # r) \<longleftrightarrow> N x = y \<and> P y = x \<and> linkp N P (y # r)"
| "linkp N P _ \<longleftrightarrow> True"

definition nxt :: "(nat \<Rightarrow> buf) \<Rightarrow> nat \<Rightarrow> nat" where "nxt bs b = bnext (bs b)"
definition prv :: "(nat \<Rightarrow> buf) \<Rightarrow> nat \<Rightarrow> nat" where "prv bs b = bprev (bs b)"

definition lru :: "(nat \<Rightarrow> buf) \<Rightarrow> nat list \<Rightarrow> bool" where
  "lru bs xs \<longleftrightarrow> linkp (nxt bs) (prv bs) (bhead # xs @ [bhead]) \<and> distinct xs \<and> set xs = {..<NBUF}"

lemma linkp_Cons: "linkp N P (x # ys) \<longleftrightarrow> (ys \<noteq> [] \<longrightarrow> N x = hd ys \<and> P (hd ys) = x) \<and> linkp N P ys"
  by (cases ys) auto

lemma linkp_append: "linkp N P (as @ x # cs) \<longleftrightarrow> linkp N P (as @ [x]) \<and> linkp N P (x # cs)"
proof (induction as)
  case (Cons a as)
  have "hd (as @ x # cs) = hd (as @ [x])" by (cases as) auto
  then show ?case using Cons.IH by (simp only: append_Cons linkp_Cons) auto
qed (simp add: linkp_Cons)

text \<open>Writing a link of a node that has none in the list changes nothing.\<close>

lemma linkp_upd_N [simp]: "u \<notin> set (butlast ys) \<Longrightarrow> linkp (N(u := v)) P ys = linkp N P ys"
proof (induction ys)
  case (Cons x ys)
  then show ?case by (cases ys) simp_all
qed simp

lemma linkp_upd_P: "v \<notin> set ys \<Longrightarrow> linkp N (P(v := u)) ys = linkp N P ys"
proof (induction ys)
  case (Cons x ys)
  then show ?case by (cases ys) simp_all
qed simp

lemma linkp_upd_P_hd [simp]:
  assumes "v \<notin> set (tl ys)"
  shows "linkp N (P(v := u)) ys = linkp N P ys"
proof (cases ys)
  case (Cons x zs)
  have "linkp N (P(v := u)) zs = linkp N P zs" using assms Cons by (intro linkp_upd_P) simp
  then show ?thesis using assms Cons by (cases zs) simp_all
qed simp

lemma linkp_unlink:
  assumes l: "linkp N P (as @ u # b # v # cs)" and d: "distinct (butlast (as @ u # b # v # cs))" "distinct (tl (as @ u # b # v # cs))"
  shows "linkp (N(u := v)) (P(v := u)) (as @ u # v # cs)"
proof -
  have u: "u \<notin> set (butlast (as @ [u]))" "u \<notin> set (butlast (v # cs))" using d(1) by (auto simp: butlast_append split: if_splits)
  have v: "v \<notin> set (tl (v # cs))" using d(2) by (cases as) auto
  have w: "v \<notin> set (tl (as @ [u]))" using d(2) by (cases as) auto
  have "linkp N P (as @ [u])" "linkp N P (u # b # v # cs)" using l linkp_append [of N P as u "b # v # cs"] by blast+
  then have "linkp (N(u := v)) (P(v := u)) (as @ [u])" "linkp (N(u := v)) (P(v := u)) (v # cs)" using u v w by simp_all
  then show ?thesis using linkp_append [of "N(u := v)" "P(v := u)" as u "v # cs"] by simp
qed

lemma linkp_front:
  assumes "linkp N P (h # v # cs)" "b \<noteq> h" "b \<noteq> v" "b \<notin> set cs" "h \<notin> set (butlast (v # cs))" "v \<notin> set cs"
  shows "linkp (N(b := v, h := b)) (P(b := h, v := b)) (h # b # v # cs)"
proof -
  have "b \<notin> set (butlast (v # cs))" using assms(3,4) by (auto dest: in_set_butlastD)
  then have "linkp (N(b := v, h := b)) (P(b := h, v := b)) (v # cs)" using assms by simp
  then show ?thesis using assms by simp
qed

lemma link_front_links:
  assumes "b \<noteq> bhead"
  shows "nxt (link_front b bs) = (nxt bs)(b := nxt bs bhead, bhead := b)"
    and "prv (link_front b bs) = (prv bs)(b := bhead, nxt bs bhead := b)"
  using assms by (auto simp: link_front_def Let_def nxt_def prv_def fun_eq_iff)

lemma unlink_links:
  assumes "nxt bs b \<noteq> b"
  shows "nxt (unlink b bs) = (nxt bs)(prv bs b := nxt bs b)"
    and "prv (unlink b bs) = (prv bs)(nxt bs b := prv bs b)"
  using assms by (auto simp: unlink_def Let_def nxt_def prv_def fun_eq_iff)

lemma link_data [simp]:
  "bdata (link_front b bs c) = bdata (bs c)" "bdata (unlink b bs c) = bdata (bs c)"
  "valid (link_front b bs c) = valid (bs c)" "valid (unlink b bs c) = valid (bs c)"
  "bdisk (link_front b bs c) = bdisk (bs c)" "bdisk (unlink b bs c) = bdisk (bs c)"
  "bdev (link_front b bs c) = bdev (bs c)" "bdev (unlink b bs c) = bdev (bs c)"
  "blockno (link_front b bs c) = blockno (bs c)" "blockno (unlink b bs c) = blockno (bs c)"
  "refcnt (link_front b bs c) = refcnt (bs c)" "refcnt (unlink b bs c) = refcnt (bs c)"
  by (simp_all add: link_front_def unlink_def Let_def)

lemma lru_front:
  assumes "linkp N P (bhead # xs @ [bhead])" "b \<noteq> bhead" "b \<notin> set xs" "bhead \<notin> set xs" "distinct xs"
  shows "linkp (N(b := N bhead, bhead := b)) (P(b := bhead, N bhead := b)) (bhead # b # xs @ [bhead])"
proof (cases xs)
  case Nil
  then show ?thesis using assms by auto
next
  case (Cons v cs)
  have "linkp (N(b := v, bhead := b)) (P(b := bhead, v := b)) (bhead # b # v # cs @ [bhead])"
    by (rule linkp_front) (use assms Cons in \<open>auto simp: butlast_append\<close>)
  moreover have "N bhead = v" using assms(1) Cons by simp
  ultimately show ?thesis using Cons by simp
qed

text \<open>A release moves the buffer to the front of the order.\<close>

lemma lru_move_front:
  assumes "lru bs (as @ b # cs)"
  shows "lru (link_front b (unlink b bs)) (b # as @ cs)"
proof -
  let ?N = "nxt bs" and ?P = "prv bs"
  have l: "linkp ?N ?P ((bhead # as) @ b # cs @ [bhead])" and d: "distinct (as @ b # cs)" "set (as @ b # cs) = {..<NBUF}"
    using assms by (auto simp: lru_def)
  have h: "bhead \<notin> set as" "bhead \<notin> set cs" "b \<noteq> bhead" using d(2) by auto
  obtain u as' where u: "bhead # as = as' @ [u]" by (metis list.distinct(1) rev_exhaust)
  obtain v cs' where v: "cs @ [bhead] = v # cs'" by (metis append_is_Nil_conv list.exhaust not_Cons_self2)
  have L: "linkp ?N ?P (as' @ u # b # v # cs')" using l u v by simp
  have D: "butlast (as' @ u # b # v # cs') = bhead # as @ b # cs" "tl (as' @ u # b # v # cs') = as @ b # cs @ [bhead]"
  proof -
    have e: "as' @ u # b # v # cs' = (bhead # as) @ b # cs @ [bhead]" using u v by simp
    show "butlast (as' @ u # b # v # cs') = bhead # as @ b # cs" "tl (as' @ u # b # v # cs') = as @ b # cs @ [bhead]"
      unfolding e by (simp_all add: butlast_append)
  qed
  have nb: "?N b = v" "?P b = u" using L linkp_append [of ?N ?P as' u "b # v # cs'"] by simp_all
  have "v \<noteq> b" using v d h by (cases cs) auto
  then have ul: "nxt (unlink b bs) = ?N(u := v)" "prv (unlink b bs) = ?P(v := u)" using unlink_links [of bs b] nb by simp_all
  have "linkp (?N(u := v)) (?P(v := u)) (as' @ u # v # cs')"
    by (rule linkp_unlink [OF L]) (use d h in \<open>simp_all add: D\<close>)
  moreover have "as' @ u # v # cs' = bhead # (as @ cs) @ [bhead]" using u v by simp
  ultimately have "linkp (nxt (unlink b bs)) (prv (unlink b bs)) (bhead # (as @ cs) @ [bhead])" using ul by simp
  from lru_front [OF this, of b] show ?thesis
    using d h link_front_links [of b "unlink b bs"] by (auto simp: lru_def)
qed

lemma find_cached_run:
  assumes "linkp (nxt bs) P (ys @ [bhead])" "bhead \<notin> set ys" "length ys < n"
  shows "find_cached n bs (hd (ys @ [bhead])) d bn =
    (case find (\<lambda>b. bdev (bs b) = d \<and> blockno (bs b) = bn) ys of Some b \<Rightarrow> Found b | None \<Rightarrow> Absent)"
  using assms
proof (induction ys arbitrary: n)
  case Nil
  then show ?case by (cases n) simp_all
next
  case (Cons y ys)
  obtain k where n: "n = Suc k" using Cons.prems(3) by (cases n) auto
  have "bnext (bs y) = hd (ys @ [bhead])" "linkp (nxt bs) P (ys @ [bhead])"
    using Cons.prems(1) linkp_Cons [of "nxt bs" P y "ys @ [bhead]"] by (simp_all add: nxt_def [of bs y])
  then show ?case using Cons.IH [of k] Cons.prems n by simp
qed

lemma find_unref_run:
  assumes "linkp N (prv bs) (bhead # ys)" "bhead \<notin> set ys" "length ys < n"
  shows "find_unref n bs (last (bhead # ys)) =
    (case find (\<lambda>b. refcnt (bs b) = 0) (rev ys) of Some b \<Rightarrow> Found b | None \<Rightarrow> Absent)"
  using assms
proof (induction ys arbitrary: n rule: rev_induct)
  case Nil
  then show ?case by (cases n) simp_all
next
  case (snoc y ys)
  obtain k where n: "n = Suc k" using snoc.prems(3) by (cases n) auto
  obtain u zs where u: "bhead # ys = zs @ [u]" by (metis list.distinct(1) rev_exhaust)
  have e: "bhead # ys @ [y] = zs @ u # [y]" using u by (metis append_Cons append_Nil append_assoc)
  have l: "linkp N (prv bs) (zs @ [u])" "prv bs y = u" using snoc.prems(1) linkp_append [of N "prv bs" zs u "[y]"] unfolding e by simp_all
  have "bprev (bs y) = last (bhead # ys)" using l(2) u by (simp add: prv_def)
  then show ?case using snoc.IH [of k] snoc.prems n l(1) u by simp
qed

section \<open>The cache invariant\<close>

text \<open>
  \<open>bst D s i H Q\<close>: the state in which process \<open>i\<close> runs, holds exactly the buffers \<open>H\<close>, and the blocks \<open>Q\<close> of device \<open>D\<close> are
  pinned. Every block has at most one buffer; a buffer is referenced by its holder and its pin; a buffer
  that is neither held nor pinned agrees with the medium, so that it can be recycled.
\<close>

definition binv :: "uint \<Rightarrow> 'z kdisk_scheme \<Rightarrow> nat set \<Rightarrow> uint set \<Rightarrow> bool" where
  "binv D s H Q \<longleftrightarrow>
     (\<exists>xs. lru (bufs s) xs) \<and> H \<subseteq> {..<NBUF} \<and> finite Q \<and>
     (\<forall>b<NBUF. \<forall>c<NBUF. bdev (bufs s b) = D \<longrightarrow> bdev (bufs s c) = D \<longrightarrow> blockno (bufs s b) = blockno (bufs s c) \<longrightarrow> b = c) \<and>
     (\<forall>b\<in>H. bdev (bufs s b) = D \<and> valid (bufs s b)) \<and>
     (\<forall>bn\<in>Q. \<exists>b<NBUF. bdev (bufs s b) = D \<and> valid (bufs s b) \<and> blockno (bufs s b) = bn) \<and>
     (\<forall>b<NBUF. refcnt (bufs s b) = (if b \<in> H then 1 else 0) + (if bdev (bufs s b) = D \<and> blockno (bufs s b) \<in> Q then 1 else 0)) \<and>
     (\<forall>b<NBUF. valid (bufs s b) \<longrightarrow> bdev (bufs s b) = D \<longrightarrow> b \<notin> H \<longrightarrow> blockno (bufs s b) \<notin> Q \<longrightarrow>
        bdata (bufs s b) = medium s (blockno (bufs s b))) \<and>
     (\<forall>b<NBUF. bdev (bufs s b) = D \<longrightarrow> blockno (bufs s b) < 2 ^ 31)"

definition bheld :: "'z kdisk_scheme \<Rightarrow> nat \<Rightarrow> nat set \<Rightarrow> bool" where
  "bheld s i H \<longleftrightarrow> running s i \<and> i < NPROC \<and> lock_free Vdisk_lock (sync s) \<and> lock_free Bcache_lock (sync s) \<and>
     (\<forall>b. lock_free (Buf_lk b) (sync s)) \<and> vd_idle (md s) \<and>
     (\<forall>b<NBUF. (sl_locked (sleeplocks s (Buf_lk b)) \<noteq> 0) = (b \<in> H)) \<and>
     (\<forall>b\<in>H. sl_pid (sleeplocks s (Buf_lk b)) = pid (procs s i))"

definition bst :: "uint \<Rightarrow> 'z kdisk_scheme \<Rightarrow> nat \<Rightarrow> nat set \<Rightarrow> uint set \<Rightarrow> bool" where
  "bst D s i H Q \<longleftrightarrow> binv D s H Q \<and> bheld s i H"

text \<open>The contents of a block as the kernel sees it, through the cache.\<close>

definition blk :: "uint \<Rightarrow> 'z kdisk_scheme \<Rightarrow> uint \<Rightarrow> byte list" where
  "blk D s bn = (case find (\<lambda>b. valid (bufs s b) \<and> bdev (bufs s b) = D \<and> blockno (bufs s b) = bn) [0..<NBUF] of
     Some b \<Rightarrow> bdata (bufs s b) | None \<Rightarrow> medium s bn)"

text \<open>What no operation of the cache changes.\<close>

definition bframe :: "'z kdisk_scheme \<Rightarrow> 'z kdisk_scheme \<Rightarrow> bool" where
  "bframe s t \<longleftrightarrow> quiet (sync t) = quiet (sync s) \<and> psame (procs s) (procs t) \<and>
     (\<forall>l. (\<forall>b. l \<noteq> Buf_lk b) \<longrightarrow> sleeplocks t l = sleeplocks s l) \<and>
     t\<lparr>sync := sync s, procs := procs s, sleeplocks := sleeplocks s, bufs := bufs s, md := md s, medium := medium s,
       dwrites := dwrites s\<rparr> = s"

lemma bframe_refl [simp]: "bframe s s"
  by (simp add: bframe_def)

lemma bframe_trans: "bframe s t \<Longrightarrow> bframe t u \<Longrightarrow> bframe s u"
proof -
  assume a: "bframe s t" "bframe t u"
  let ?undo = "\<lambda>v w :: 'a kdisk_scheme. w\<lparr>sync := sync v, procs := procs v, sleeplocks := sleeplocks v, bufs := bufs v, md := md v,
    medium := medium v, dwrites := dwrites v\<rparr>"
  have bs: "?undo t u = t" "?undo s t = s" and q: "quiet (sync t) = quiet (sync s)" "quiet (sync u) = quiet (sync t)"
    and p: "psame (procs s) (procs t)" "psame (procs t) (procs u)"
    and l: "\<forall>l. (\<forall>b. l \<noteq> Buf_lk b) \<longrightarrow> sleeplocks t l = sleeplocks s l" "\<forall>l. (\<forall>b. l \<noteq> Buf_lk b) \<longrightarrow> sleeplocks u l = sleeplocks t l"
    using a unfolding bframe_def by blast+
  have "?undo s u = ?undo s (?undo t u)" by simp
  then have "?undo s u = s" unfolding bs .
  moreover have "quiet (sync u) = quiet (sync s)" by (rule trans [OF q(2,1)])
  moreover have "\<forall>l. (\<forall>b. l \<noteq> Buf_lk b) \<longrightarrow> sleeplocks u l = sleeplocks s l" using l by metis
  ultimately show ?thesis using psame_trans [OF p] unfolding bframe_def by (intro conjI)
qed

lemma quiet_eqD:
  assumes "quiet y = quiet z"
  shows "lock_free l y = lock_free l z" "depth y = depth z" "sie y = sie z" "tp y = tp z" "cproc (cpus y h) = cproc (cpus z h)"
    "procs_free y = procs_free z" "sync_ok y = sync_ok z"
  using assms by (metis lock_free_quiet, metis quiet_simps, metis quiet_simps, metis quiet_simps, metis quiet_simps,
    metis procs_free_quiet, metis sync_ok_quiet)

lemma bframe_sync: "bframe s t \<Longrightarrow> quiet (sync t) = quiet (sync s)"
  by (simp add: bframe_def)

lemmas bframe_syncD = quiet_eqD [OF bframe_sync]

lemma bframe_running: "bframe s t \<Longrightarrow> running t i = running s i"
  using bframe_syncD [of s t] by (simp add: running_def cur_def)

lemma bframe_pid: "bframe s t \<Longrightarrow> pid (procs t j) = pid (procs s j)"
  by (simp add: bframe_def psame_pid)

lemma find_SomeD: "find P xs = Some x \<Longrightarrow> x \<in> set xs \<and> P x"
  by (auto simp: find_Some_iff)

lemma find_unique:
  assumes "j < n" "P j" "\<forall>k<n. P k \<longrightarrow> k = j"
  shows "find P [0..<n] = Some j"
proof -
  have "\<not> P k" if "k < j" for k using assms that by (metis less_trans less_irrefl)
  then show ?thesis unfolding find_Some_iff using assms(1,2) by (intro exI [of _ j]) simp
qed

lemma binvD:
  assumes "binv D s H Q"
  shows binv_lru: "\<exists>xs. lru (bufs s) xs" and binv_sub: "H \<subseteq> {..<NBUF}" and binv_fin: "finite Q"
    and binv_held: "\<forall>b\<in>H. bdev (bufs s b) = D \<and> valid (bufs s b)"
    and binv_pin: "\<forall>bn\<in>Q. \<exists>b<NBUF. bdev (bufs s b) = D \<and> valid (bufs s b) \<and> blockno (bufs s b) = bn"
    and binv_ref: "\<forall>b<NBUF. refcnt (bufs s b) = (if b \<in> H then 1 else 0) + (if bdev (bufs s b) = D \<and> blockno (bufs s b) \<in> Q then 1 else 0)"
    and binv_clean: "\<forall>b<NBUF. valid (bufs s b) \<longrightarrow> bdev (bufs s b) = D \<longrightarrow> b \<notin> H \<longrightarrow> blockno (bufs s b) \<notin> Q \<longrightarrow>
        bdata (bufs s b) = medium s (blockno (bufs s b))"
    and binv_bn: "\<forall>b<NBUF. bdev (bufs s b) = D \<longrightarrow> blockno (bufs s b) < 2 ^ 31"
    and binv_uq: "\<forall>b<NBUF. \<forall>c<NBUF. bdev (bufs s b) = D \<longrightarrow> bdev (bufs s c) = D \<longrightarrow> blockno (bufs s b) = blockno (bufs s c) \<longrightarrow> b = c"
  using assms unfolding binv_def by - (elim conjE, assumption)+

lemma binv_uniq:
  "binv D s H Q \<Longrightarrow> b < NBUF \<Longrightarrow> c < NBUF \<Longrightarrow> bdev (bufs s b) = D \<Longrightarrow> bdev (bufs s c) = D \<Longrightarrow>
    blockno (bufs s b) = blockno (bufs s c) \<Longrightarrow> b = c"
  unfolding binv_def by blast

lemma blk_cached:
  assumes "binv D s H Q" "b < NBUF" "valid (bufs s b)" "bdev (bufs s b) = D"
  shows "blk D s (blockno (bufs s b)) = bdata (bufs s b)"
proof -
  have "find (\<lambda>c. valid (bufs s c) \<and> bdev (bufs s c) = D \<and> blockno (bufs s c) = blockno (bufs s b)) [0..<NBUF] = Some b"
    by (rule find_unique) (use assms(2-4) binv_uniq [OF assms(1)] in blast)+
  then show ?thesis by (simp add: blk_def)
qed

lemma blk_uncached:
  assumes "\<forall>b<NBUF. \<not> (valid (bufs s b) \<and> bdev (bufs s b) = D \<and> blockno (bufs s b) = bn)"
  shows "blk D s bn = medium s bn"
proof -
  have "find (\<lambda>c. valid (bufs s c) \<and> bdev (bufs s c) = D \<and> blockno (bufs s c) = bn) [0..<NBUF] = None"
    unfolding find_None_iff using assms by auto
  then show ?thesis by (simp add: blk_def)
qed

text \<open>The view is determined by the contents of the valid buffers and the medium elsewhere.\<close>

lemma blk_eqI:
  assumes "binv D s H Q" "binv D t H' Q'"
    and "\<forall>b<NBUF. valid (bufs t b) \<longrightarrow> bdev (bufs t b) = D \<longrightarrow> bdata (bufs t b) = blk D s (blockno (bufs t b))"
    and "\<forall>bn. (\<forall>b<NBUF. \<not> (valid (bufs t b) \<and> bdev (bufs t b) = D \<and> blockno (bufs t b) = bn)) \<longrightarrow> medium t bn = blk D s bn"
  shows "blk D t = blk D s"
proof
  fix bn
  show "blk D t bn = blk D s bn"
  proof (cases "\<exists>b<NBUF. valid (bufs t b) \<and> bdev (bufs t b) = D \<and> blockno (bufs t b) = bn")
    case True
    then obtain b where b: "b < NBUF" "valid (bufs t b)" "bdev (bufs t b) = D" "blockno (bufs t b) = bn" by blast
    then show ?thesis using blk_cached [OF assms(2) b(1-3)] assms(3) by simp
  next
    case False
    then have "blk D t bn = medium t bn" by (intro blk_uncached) blast
    moreover have "medium t bn = blk D s bn" using assms(4) [rule_format, of bn] False by auto
    ultimately show ?thesis by simp
  qed
qed

lemma blk_same:
  assumes "\<And>c. valid (bufs t c) = valid (bufs s c)" "\<And>c. bdev (bufs t c) = bdev (bufs s c)"
    "\<And>c. blockno (bufs t c) = blockno (bufs s c)" "\<And>c. bdata (bufs t c) = bdata (bufs s c)" "medium t = medium s"
  shows "blk D t = blk D s"
  by (rule ext) (simp add: blk_def assms split: option.split)

lemma lru_links: "(\<And>b. bnext (bs' b) = bnext (bs b)) \<Longrightarrow> (\<And>b. bprev (bs' b) = bprev (bs b)) \<Longrightarrow> lru bs' xs = lru bs xs"
  by (simp add: lru_def nxt_def [abs_def] prv_def [abs_def])

section \<open>Running the routines\<close>

text \<open>The specification of the search on the order of use.\<close>

definition cached_in :: "(nat \<Rightarrow> buf) \<Rightarrow> nat list \<Rightarrow> uint \<Rightarrow> uint \<Rightarrow> nat option" where
  "cached_in bs xs d bn = find (\<lambda>b. bdev (bs b) = d \<and> blockno (bs b) = bn) xs"

definition oldest_unused :: "(nat \<Rightarrow> buf) \<Rightarrow> nat list \<Rightarrow> nat option" where
  "oldest_unused bs xs = find (\<lambda>b. refcnt (bs b) = 0) (rev xs)"

definition claimed :: "uint \<Rightarrow> uint \<Rightarrow> buf \<Rightarrow> buf" where
  "claimed d bn k = k\<lparr>bdev := d, blockno := bn, valid := False, refcnt := 1\<rparr>"

lemma claimed_simps [simp]:
  "bdev (claimed d bn k) = d" "blockno (claimed d bn k) = bn" "valid (claimed d bn k) = False" "refcnt (claimed d bn k) = 1"
  "bnext (claimed d bn k) = bnext k" "bprev (claimed d bn k) = bprev k" "bdata (claimed d bn k) = bdata k"
  by (simp_all add: claimed_def)

lemma lruD:
  assumes "lru bs xs"
  shows "bnext (bs bhead) = hd (xs @ [bhead])" "bprev (bs bhead) = last (bhead # xs)" "bhead \<notin> set xs" "length xs = NBUF"
    "linkp (nxt bs) (prv bs) (xs @ [bhead])" "linkp (nxt bs) (prv bs) (bhead # xs)" "distinct xs" "set xs = {..<NBUF}"
proof -
  have l: "linkp (nxt bs) (prv bs) (bhead # xs @ [bhead])" and d: "distinct xs" "set xs = {..<NBUF}"
    using assms by (simp_all add: lru_def)
  show "distinct xs" "set xs = {..<NBUF}" "bhead \<notin> set xs" using d by auto
  show "length xs = NBUF" using d distinct_card [of xs] by simp
  show "linkp (nxt bs) (prv bs) (xs @ [bhead])" "bnext (bs bhead) = hd (xs @ [bhead])"
    using l linkp_Cons [of "nxt bs" "prv bs" bhead "xs @ [bhead]"] by (simp_all add: nxt_def [of bs bhead])
  obtain u as where u: "bhead # xs = as @ [u]" by (metis list.distinct(1) rev_exhaust)
  then have e: "bhead # xs @ [bhead] = as @ u # [bhead]" by (metis append_Cons append_Nil append_assoc)
  have "linkp (nxt bs) (prv bs) (as @ [u])" "prv bs bhead = u"
    using l [unfolded e] linkp_append [of "nxt bs" "prv bs" as u "[bhead]"] by simp_all
  then show "linkp (nxt bs) (prv bs) (bhead # xs)" "bprev (bs bhead) = last (bhead # xs)"
    using u by (simp_all add: prv_def [of bs bhead])
qed

lemma bget_scan:
  assumes "lru bs xs"
  shows "find_cached (Suc NBUF) bs (bnext (bs bhead)) d bn = (case cached_in bs xs d bn of Some b \<Rightarrow> Found b | None \<Rightarrow> Absent)"
    and "find_unref (Suc NBUF) bs (bprev (bs bhead)) = (case oldest_unused bs xs of Some b \<Rightarrow> Found b | None \<Rightarrow> Absent)"
proof -
  note l = lruD [OF assms]
  show "find_cached (Suc NBUF) bs (bnext (bs bhead)) d bn = (case cached_in bs xs d bn of Some b \<Rightarrow> Found b | None \<Rightarrow> Absent)"
    unfolding l(1) cached_in_def by (rule find_cached_run [OF l(5,3)]) (simp add: l(4))
  show "find_unref (Suc NBUF) bs (bprev (bs bhead)) = (case oldest_unused bs xs of Some b \<Rightarrow> Found b | None \<Rightarrow> Absent)"
    unfolding l(2) oldest_unused_def by (rule find_unref_run [OF l(6,3)]) (simp add: l(4))
qed

lemma take_buf_run:
  assumes "bheld s i H" "sl_locked (sleeplocks s (Buf_lk b)) = 0"
  shows "seq (set_buf b f) (seq (release Bcache_lock) (seq (acquiresleep (Buf_lk b)) (ret b)))
      (s\<lparr>sync := lock_acq Bcache_lock (sync s)\<rparr>) =
    Ok b (s\<lparr>sync := quiet (sync s), sleeplocks := (sleeplocks s)(Buf_lk b := (sleeplocks s (Buf_lk b))\<lparr>sl_locked := 1, sl_pid := pid (procs s i)\<rparr>),
      bufs := (bufs s)(b := f (bufs s b))\<rparr>)"
proof -
  let ?t = "s\<lparr>sync := quiet (sync s), bufs := (bufs s)(b := f (bufs s b))\<rparr>"
  have y: "running s i" "sync_ok (sync s)" "lock_free Bcache_lock (sync s)" "lock_free (Buf_lk b) (sync s)"
    using assms(1) by (auto simp: bheld_def running_def procs_free_def)
  have "running ?t i" using y(1) by (simp add: running_def cur_def)
  then have "acquiresleep (Buf_lk b) ?t = Ok () (?t\<lparr>sync := quiet (sync ?t), sleeplocks := (sleeplocks ?t)(Buf_lk b :=
      (sleeplocks ?t (Buf_lk b))\<lparr>sl_locked := 1, sl_pid := pid (procs ?t i)\<rparr>)\<rparr>)"
    by (rule acquiresleep_free_run) (use y assms(2) in \<open>simp_all add: proc_free_lock_def\<close>)
  then show ?thesis using y by (simp add: release_acq)
qed

lemma bget_run:
  assumes "bheld s i H" "lru (bufs s) xs"
    and "b = (case cached_in (bufs s) xs d bn of Some c \<Rightarrow> Some c | None \<Rightarrow> oldest_unused (bufs s) xs)"
    and "\<forall>c. b = Some c \<longrightarrow> sl_locked (sleeplocks s (Buf_lk c)) = 0"
  shows "bget d bn s = (case b of None \<Rightarrow> Panic ''bget: no buffers''
    | Some c \<Rightarrow> Ok c (s\<lparr>sync := quiet (sync s),
          sleeplocks := (sleeplocks s)(Buf_lk c := (sleeplocks s (Buf_lk c))\<lparr>sl_locked := 1, sl_pid := pid (procs s i)\<rparr>),
          bufs := (bufs s)(c := (if cached_in (bufs s) xs d bn = None then claimed d bn (bufs s c)
                                 else (bufs s c)\<lparr>refcnt := refcnt (bufs s c) + 1\<rparr>))\<rparr>))"
proof -
  have lf: "lock_free Bcache_lock (sync s)" using assms(1) by (simp add: bheld_def)
  have run: "bget d bn s = (case find_cached (Suc NBUF) (bufs s) (bnext (bufs s bhead)) d bn of
       Endless \<Rightarrow> spin
     | Found b \<Rightarrow>
         seq (set_buf b (\<lambda>k. k\<lparr>refcnt := refcnt k + 1\<rparr>)) (seq (release Bcache_lock) (seq (acquiresleep (Buf_lk b)) (ret b)))
     | Absent \<Rightarrow>
         (case find_unref (Suc NBUF) (bufs s) (bprev (bufs s bhead)) of
            Endless \<Rightarrow> spin
          | Absent \<Rightarrow> panic ''bget: no buffers''
          | Found b \<Rightarrow>
              seq (set_buf b (\<lambda>k. k\<lparr>bdev := d, blockno := bn, valid := False, refcnt := 1\<rparr>)) (
              seq (release Bcache_lock) (seq (acquiresleep (Buf_lk b)) (ret b))))) (s\<lparr>sync := lock_acq Bcache_lock (sync s)\<rparr>)"
    using acquire_run [OF lf] by (simp add: bget_def)
  show ?thesis
    using take_buf_run [OF assms(1)] unfolding run bget_scan [OF assms(2)]
    using assms(4) by (auto simp: assms(3) claimed_def split: option.split)
qed

lemma binv_take:
  assumes inv: "binv D s H Q" and t: "bufs t = (bufs s)(b := k)" "medium t = medium s"
    and b: "b < NBUF" "b \<notin> H" and bn: "bn < 2 ^ 31"
    and k: "bdev k = D" "blockno k = bn" "valid k" "bdata k = blk D s bn" "refcnt k = (if bn \<in> Q then 2 else 1)"
      "bnext k = bnext (bufs s b)" "bprev k = bprev (bufs s b)"
    and new: "\<forall>c<NBUF. c \<noteq> b \<longrightarrow> bdev (bufs s c) = D \<longrightarrow> blockno (bufs s c) \<noteq> bn"
    and old: "bdev (bufs s b) = D \<longrightarrow> blockno (bufs s b) \<noteq> bn \<longrightarrow> blockno (bufs s b) \<notin> Q"
  shows "binv D t (insert b H) Q" "blk D t = blk D s"
proof -
  obtain xs where xs: "lru (bufs s) xs" using binv_lru [OF inv] by blast
  have "lru (bufs t) xs = lru (bufs s) xs" by (rule lru_links) (simp_all add: t k)
  then have l: "\<exists>xs. lru (bufs t) xs" using xs by blast
  show inv': "binv D t (insert b H) Q"
    unfolding binv_def
  proof (intro conjI)
    show "\<forall>bn'\<in>Q. \<exists>c<NBUF. bdev (bufs t c) = D \<and> valid (bufs t c) \<and> blockno (bufs t c) = bn'"
    proof
      fix bn' assume q: "bn' \<in> Q"
      then obtain c where c: "c < NBUF" "bdev (bufs s c) = D" "valid (bufs s c)" "blockno (bufs s c) = bn'"
        using binv_pin [OF inv] by blast
      show "\<exists>c<NBUF. bdev (bufs t c) = D \<and> valid (bufs t c) \<and> blockno (bufs t c) = bn'"
      proof (cases "c = b")
        case True
        then have "bn' = bn" using old c q by auto
        then show ?thesis using b k t by auto
      next
        case False
        then show ?thesis using c t by auto
      qed
    qed
    show "\<forall>c<NBUF. refcnt (bufs t c) = (if c \<in> insert b H then 1 else 0) + (if bdev (bufs t c) = D \<and> blockno (bufs t c) \<in> Q then 1 else 0)"
      using binv_ref [OF inv] k by (simp add: t)
    show "\<forall>c<NBUF. valid (bufs t c) \<longrightarrow> bdev (bufs t c) = D \<longrightarrow> c \<notin> insert b H \<longrightarrow> blockno (bufs t c) \<notin> Q \<longrightarrow>
        bdata (bufs t c) = medium t (blockno (bufs t c))"
      using binv_clean [OF inv] by (simp add: t)
    show "\<forall>a<NBUF. \<forall>c<NBUF. bdev (bufs t a) = D \<longrightarrow> bdev (bufs t c) = D \<longrightarrow> blockno (bufs t a) = blockno (bufs t c) \<longrightarrow> a = c"
      using new k binv_uniq [OF inv] by (auto simp: t)
  qed (use binv_sub [OF inv] binv_fin [OF inv] binv_held [OF inv] binv_bn [OF inv] b k bn l in \<open>auto simp: t\<close>)
  show "blk D t = blk D s"
  proof (rule blk_eqI [OF inv inv'], intro allI impI)
    fix c assume "c < NBUF" "valid (bufs t c)" "bdev (bufs t c) = D"
    then show "bdata (bufs t c) = blk D s (blockno (bufs t c))" using k blk_cached [OF inv, of c] by (auto simp: t)
  next
    show "\<forall>n. (\<forall>c<NBUF. \<not> (valid (bufs t c) \<and> bdev (bufs t c) = D \<and> blockno (bufs t c) = n)) \<longrightarrow> medium t n = blk D s n"
    proof (intro allI impI)
      fix n assume no: "\<forall>c<NBUF. \<not> (valid (bufs t c) \<and> bdev (bufs t c) = D \<and> blockno (bufs t c) = n)"
      then have nb: "n \<noteq> bn" using b k t by auto
      show "medium t n = blk D s n"
      proof (cases "valid (bufs s b) \<and> bdev (bufs s b) = D \<and> blockno (bufs s b) = n")
        case True
        then have "bdata (bufs s b) = medium s n" using binv_clean [OF inv] b nb old by auto
        then show ?thesis using blk_cached [OF inv b(1)] True t by auto
      next
        case False
        have "\<forall>c<NBUF. \<not> (valid (bufs s c) \<and> bdev (bufs s c) = D \<and> blockno (bufs s c) = n)"
        proof (intro allI impI)
          fix c assume "c < NBUF"
          then show "\<not> (valid (bufs s c) \<and> bdev (bufs s c) = D \<and> blockno (bufs s c) = n)"
            using no False by (cases "c = b") (auto simp: t)
        qed
        then show ?thesis using blk_uncached t by metis
      qed
    qed
  qed
qed

text \<open>With fewer buffers held and pinned than there are, one is unreferenced.\<close>

lemma binv_unused:
  assumes inv: "binv D s H Q" and c: "card H + card Q < NBUF" and "lru (bufs s) xs"
  obtains b where "oldest_unused (bufs s) xs = Some b" "b < NBUF" "refcnt (bufs s b) = 0"
proof -
  let ?R = "{b. b < NBUF \<and> refcnt (bufs s b) \<noteq> 0}" and ?B = "{b. b < NBUF \<and> bdev (bufs s b) = D \<and> blockno (bufs s b) \<in> Q}"
  have fin: "finite H" "finite Q" using binv_fin [OF inv] finite_subset [OF binv_sub [OF inv]] by simp_all
  have sub: "?R \<subseteq> H \<union> ?B" using binv_ref [OF inv] by (auto split: if_splits)
  have B: "card ?B \<le> card Q"
  proof (rule card_inj_on_le [of "\<lambda>b. blockno (bufs s b)"])
    show "inj_on (\<lambda>b. blockno (bufs s b)) ?B" using binv_uniq [OF inv] by (intro inj_onI) blast
  qed (use fin in auto)
  have "card ?R \<le> card (H \<union> ?B)" by (rule card_mono [OF _ sub]) (simp add: fin)
  also have "\<dots> \<le> card H + card ?B" by (rule card_Un_le)
  finally have R: "card ?R \<le> card H + card Q" using B by linarith
  have "\<exists>b<NBUF. refcnt (bufs s b) = 0"
  proof (rule ccontr)
    assume "\<not> (\<exists>b<NBUF. refcnt (bufs s b) = 0)"
    then have "?R = {..<NBUF}" by blast
    then have "card ?R = NBUF" by (metis card_lessThan)
    then show False using R c by linarith
  qed
  then obtain b where b: "oldest_unused (bufs s) xs = Some b"
    using lruD(8) [OF assms(3)] by (cases "oldest_unused (bufs s) xs") (auto simp: oldest_unused_def find_None_iff)
  then have "b \<in> set xs \<and> refcnt (bufs s b) = 0" using find_SomeD [OF b [unfolded oldest_unused_def]] by simp
  then show ?thesis using that b lruD(8) [OF assms(3)] by blast
qed

text \<open>The buffer that \<open>bget\<close> hands out, and what the invariant says of it.\<close>

lemma bget_ok:
  assumes st: "bst D s i H Q" and bn: "\<forall>b\<in>H. blockno (bufs s b) \<noteq> bn" "card H + card Q < NBUF"
  obtains b k sl where "bget D bn s = Ok b (s\<lparr>sync := quiet (sync s), sleeplocks := sl, bufs := (bufs s)(b := k)\<rparr>)"
    "b < NBUF" "b \<notin> H" "bdev k = D" "blockno k = bn" "refcnt k = (if bn \<in> Q then 2 else 1)"
    "bnext k = bnext (bufs s b)" "bprev k = bprev (bufs s b)" "valid k \<Longrightarrow> bdata k = blk D s bn" "\<not> valid k \<Longrightarrow> medium s bn = blk D s bn"
    "\<forall>c<NBUF. c \<noteq> b \<longrightarrow> bdev (bufs s c) = D \<longrightarrow> blockno (bufs s c) \<noteq> bn"
    "bdev (bufs s b) = D \<longrightarrow> blockno (bufs s b) \<noteq> bn \<longrightarrow> blockno (bufs s b) \<notin> Q"
    "sl = (sleeplocks s)(Buf_lk b := (sleeplocks s (Buf_lk b))\<lparr>sl_locked := 1, sl_pid := pid (procs s i)\<rparr>)"
proof -
  have inv: "binv D s H Q" and h: "bheld s i H" using st by (simp_all add: bst_def)
  have sl: "sl_locked (sleeplocks s (Buf_lk b)) = 0" if "b < NBUF" "b \<notin> H" for b using h that by (auto simp: bheld_def)
  obtain xs where xs: "lru (bufs s) xs" using binv_lru [OF inv] by blast
  note st' = lruD(8) [OF xs]
  show ?thesis
  proof (cases "cached_in (bufs s) xs D bn")
    case (Some b)
    then have b: "b < NBUF" "bdev (bufs s b) = D" "blockno (bufs s b) = bn"
      using find_SomeD [OF Some [unfolded cached_in_def]] st' by simp_all
    then have bH: "b \<notin> H" using bn(1) by blast
    let ?k = "(bufs s b)\<lparr>refcnt := refcnt (bufs s b) + 1\<rparr>"
    have run: "bget D bn s = Ok b (s\<lparr>sync := quiet (sync s), sleeplocks := (sleeplocks s)(Buf_lk b := (sleeplocks s (Buf_lk b))\<lparr>sl_locked := 1, sl_pid := pid (procs s i)\<rparr>), bufs := (bufs s)(b := ?k)\<rparr>)"
      using bget_run [OF h xs refl, of D bn] Some sl [OF b(1) bH] by simp
    have uq: "\<forall>c<NBUF. c \<noteq> b \<longrightarrow> bdev (bufs s c) = D \<longrightarrow> blockno (bufs s c) \<noteq> bn"
    proof (intro allI impI notI)
      fix c assume "c < NBUF" "c \<noteq> b" "bdev (bufs s c) = D" "blockno (bufs s c) = bn"
      then show False using binv_uniq [OF inv, of c b] b by simp
    qed
    have v: "blk D s bn = bdata (bufs s b)" if "valid (bufs s b)" using blk_cached [OF inv b(1) that b(2)] b(3) by simp
    have nv: "blk D s bn = medium s bn" if "\<not> valid (bufs s b)" 
    proof (rule blk_uncached, intro allI impI)
      fix c assume "c < NBUF"
      then show "\<not> (valid (bufs s c) \<and> bdev (bufs s c) = D \<and> blockno (bufs s c) = bn)" using uq that by (cases "c = b") auto
    qed
    show ?thesis
      by (rule that [OF run b(1) bH]) (use b uq v nv binv_ref [OF inv] bH in \<open>auto\<close>)
  next
    case None
    then have nc: "\<forall>c<NBUF. bdev (bufs s c) = D \<longrightarrow> blockno (bufs s c) \<noteq> bn"
      using st' unfolding cached_in_def find_None_iff by blast
    obtain b where b: "oldest_unused (bufs s) xs = Some b" "b < NBUF" "refcnt (bufs s b) = 0"
      by (rule binv_unused [OF inv bn(2) xs])
    have f: "b \<notin> H" "\<not> (bdev (bufs s b) = D \<and> blockno (bufs s b) \<in> Q)"
      using binv_ref [OF inv] b(2,3) by (auto split: if_splits)
    have q: "bn \<notin> Q" using binv_pin [OF inv] nc by blast
    have run: "bget D bn s = Ok b (s\<lparr>sync := quiet (sync s), sleeplocks := (sleeplocks s)(Buf_lk b := (sleeplocks s (Buf_lk b))\<lparr>sl_locked := 1, sl_pid := pid (procs s i)\<rparr>), bufs := (bufs s)(b := claimed D bn (bufs s b))\<rparr>)"
      using bget_run [OF h xs refl, of D bn] None b sl [OF b(2) f(1)] by simp
    have nv: "blk D s bn = medium s bn" using blk_uncached [of s D bn] nc by blast
    show ?thesis
      by (rule that [OF run b(2) f(1)]) (use f q nv nc in \<open>auto\<close>)
  qed
qed

lemma bheld_upd:
  assumes "bheld s i H" "b < NBUF" "bframe s t" "vd_idle (md t)"
    "sleeplocks t = (sleeplocks s)(Buf_lk b := (sleeplocks s (Buf_lk b))\<lparr>sl_locked := 1, sl_pid := pid (procs s i)\<rparr>)"
  shows "bheld t i (insert b H)"
  using assms bframe_syncD [OF assms(3)] bframe_running [OF assms(3), of i] bframe_pid [OF assms(3), of i]
  by (auto simp: bheld_def)

lemma bframeI:
  "psame (procs s) p \<Longrightarrow> \<forall>l. (\<forall>b. l \<noteq> Buf_lk b) \<longrightarrow> sl l = sleeplocks s l \<Longrightarrow> quiet y = quiet (sync s) \<Longrightarrow>
    bframe s (s\<lparr>sync := y, procs := p, sleeplocks := sl, bufs := bf, md := m, medium := d, dwrites := w\<rparr>)"
  by (simp add: bframe_def)

lemma running_frame: "running s i \<Longrightarrow> quiet (sync t) = quiet (sync s) \<Longrightarrow> running t i"
  using quiet_eqD [of "sync t" "sync s"] by (simp add: running_def cur_def)

context block_driver
begin

lemma bread_ok:
  assumes st: "bst D s i H Q" and bn: "\<forall>b\<in>H. blockno (bufs s b) \<noteq> bn" "card H + card Q < NBUF" "bn < 2 ^ 31"
  obtains b t where "bread rw D bn s = Ok b t" "bst D t i (insert b H) Q" "b \<notin> H" "b < NBUF" "blockno (bufs t b) = bn"
    "bdata (bufs t b) = blk D s bn" "blk D t = blk D s" "medium t = medium s" "dwrites t = dwrites s"
    "\<forall>c. c \<noteq> b \<longrightarrow> bufs t c = bufs s c" "bframe s t"
proof -
  obtain b k sl where g: "bget D bn s = Ok b (s\<lparr>sync := quiet (sync s), sleeplocks := sl, bufs := (bufs s)(b := k)\<rparr>)"
    "b < NBUF" "b \<notin> H" "bdev k = D" "blockno k = bn" "refcnt k = (if bn \<in> Q then 2 else 1)"
    "bnext k = bnext (bufs s b)" "bprev k = bprev (bufs s b)" "valid k \<Longrightarrow> bdata k = blk D s bn" "\<not> valid k \<Longrightarrow> medium s bn = blk D s bn"
    "\<forall>c<NBUF. c \<noteq> b \<longrightarrow> bdev (bufs s c) = D \<longrightarrow> blockno (bufs s c) \<noteq> bn"
    "bdev (bufs s b) = D \<longrightarrow> blockno (bufs s b) \<noteq> bn \<longrightarrow> blockno (bufs s b) \<notin> Q"
    "sl = (sleeplocks s)(Buf_lk b := (sleeplocks s (Buf_lk b))\<lparr>sl_locked := 1, sl_pid := pid (procs s i)\<rparr>)"
    by (rule bget_ok [OF st bn(1,2)]) blast
  have inv: "binv D s H Q" and h: "bheld s i H" using st by (simp_all add: bst_def)
  have r: "running s i" "i < NPROC" "lock_free Vdisk_lock (sync s)" "vd_idle (md s)" using h by (simp_all add: bheld_def)
  define t1 where "t1 = s\<lparr>sync := quiet (sync s), sleeplocks := sl, bufs := (bufs s)(b := k)\<rparr>"
  obtain t k2 where t: "bread rw D bn s = Ok b t" "bufs t = (bufs s)(b := k2)" "medium t = medium s" "dwrites t = dwrites s"
      "sleeplocks t = sl" "bframe s t" "vd_idle (md t)"
    and k2: "bdev k2 = D" "blockno k2 = bn" "valid k2" "bdata k2 = blk D s bn" "refcnt k2 = refcnt k" "bnext k2 = bnext k" "bprev k2 = bprev k"
  proof (cases "valid k")
    case True
    have "bread rw D bn s = Ok b t1" using g(1) True by (simp add: bread_def t1_def)
    moreover have "bframe s t1" by (simp add: t1_def bframe_def g(13))
    ultimately show ?thesis using g True r by (intro that [of t1 k]) (simp_all add: t1_def)
  next
    case False
    have "running t1 i" "lock_free Vdisk_lock (sync t1)" "vd_idle (md t1)" "blockno (bufs t1 b) < 2 ^ 31"
      using r bn(3) g(5) running_frame [OF r(1), of t1] by (simp_all add: t1_def)
    from transfer [OF this(1) r(2) this(2-4), of False] obtain p m where
      tr: "rw b False t1 = Ok () ((transferred b False t1)\<lparr>sync := quiet (sync t1), procs := p, md := m\<rparr>)"
        "psame (procs t1) p" "vd_idle m" by blast
    let ?k = "k\<lparr>bdata := medium s bn, bdisk := False, valid := True\<rparr>"
    let ?t = "s\<lparr>sync := quiet (sync s), procs := p, sleeplocks := sl, bufs := (bufs s)(b := ?k), md := m\<rparr>"
    have "bread rw D bn s = Ok b ?t"
      using g(1,5) False tr(1) by (simp add: bread_def t1_def transferred_def Let_def)
    moreover have "bframe s ?t" using tr(2) by (simp add: bframe_def t1_def g(13))
    ultimately show ?thesis
      using tr(3) g False by (intro that [of ?t ?k]) simp_all
  qed
  have "binv D t (insert b H) Q" "blk D t = blk D s"
    by (rule binv_take [OF inv t(2,3) g(2,3) bn(3)]; use k2 g in simp)+
  moreover have "bheld t i (insert b H)" by (rule bheld_upd [OF h g(2) t(6,7)]) (simp add: t g)
  ultimately show ?thesis using that t k2 g by (simp add: bst_def)
qed

text \<open>Writing a held buffer through to the disk.\<close>

lemma bwrite_ok:
  assumes st: "bst D s i H Q" and b: "b \<in> H"
  obtains t where "bwrite rw b s = Ok () t" "bst D t i H Q" "blk D t = blk D s"
    "medium t = (medium s)(blockno (bufs s b) := bdata (bufs s b))" "dwrites t = dwrites s @ [(blockno (bufs s b), bdata (bufs s b))]"
    "\<forall>c. blockno (bufs t c) = blockno (bufs s c) \<and> bdata (bufs t c) = bdata (bufs s c)" "bframe s t"
proof -
  have inv: "binv D s H Q" and h: "bheld s i H" using st by (simp_all add: bst_def)
  have bN: "b < NBUF" using binv_sub [OF inv] b by blast
  have bd: "bdev (bufs s b) = D" "valid (bufs s b)" using binv_held [OF inv] b by blast+
  have r: "running s i" "i < NPROC" "lock_free Vdisk_lock (sync s)" "vd_idle (md s)" "lock_free (Buf_lk b) (sync s)"
    and sl: "sl_locked (sleeplocks s (Buf_lk b)) \<noteq> 0" "sl_pid (sleeplocks s (Buf_lk b)) = pid (procs s i)"
    using h b bN by (simp_all add: bheld_def)
  let ?t = "s\<lparr>sync := quiet (sync s)\<rparr>"
  have hold: "is_holdingsleep (Buf_lk b) s = Ok True ?t" using is_holdingsleep_run [OF r(1,5)] sl by simp
  have "running ?t i" "lock_free Vdisk_lock (sync ?t)" "vd_idle (md ?t)" "blockno (bufs ?t b) < 2 ^ 31"
    using r bd binv_bn [OF inv] bN by simp_all
  from transfer [OF this(1) r(2) this(2-4), of True] obtain p m where
    tr: "rw b True ?t = Ok () ((transferred b True ?t)\<lparr>sync := quiet (sync ?t), procs := p, md := m\<rparr>)"
      "psame (procs ?t) p" "vd_idle m" by blast
  define t where "t = (transferred b True ?t)\<lparr>sync := quiet (sync ?t), procs := p, md := m\<rparr>"
  have run: "bwrite rw b s = Ok () t" using hold tr(1) by (simp add: bwrite_def t_def)
  have tf: "bufs t = (bufs s)(b := (bufs s b)\<lparr>bdisk := False\<rparr>)" "medium t = (medium s)(blockno (bufs s b) := bdata (bufs s b))"
    "dwrites t = dwrites s @ [(blockno (bufs s b), bdata (bufs s b))]" "sleeplocks t = sleeplocks s" "md t = m" "procs t = p" "sync t = quiet (sync s)"
    by (simp_all add: t_def transferred_def Let_def)
  have fr: "bframe s t" using tr(2) by (simp add: bframe_def t_def transferred_def Let_def)
  have same: "bdev (bufs t c) = bdev (bufs s c)" "valid (bufs t c) = valid (bufs s c)" "blockno (bufs t c) = blockno (bufs s c)"
    "bdata (bufs t c) = bdata (bufs s c)" "refcnt (bufs t c) = refcnt (bufs s c)" for c by (simp_all add: tf)
  have lr: "lru (bufs t) xs = lru (bufs s) xs" for xs by (rule lru_links) (simp_all add: tf)
  have uq: "\<forall>c<NBUF. bdev (bufs s c) = D \<longrightarrow> c \<notin> H \<longrightarrow> blockno (bufs s c) \<noteq> blockno (bufs s b)"
    using binv_uniq [OF inv _ bN _ bd(1)] b by blast
  have inv': "binv D t H Q"
    using inv uq unfolding binv_def same lr by (auto simp: tf(2))
  have "bheld t i H"
    using h tr(2,3) bframe_syncD [OF fr] bframe_running [OF fr, of i] psame_pid [OF tr(2)] by (simp add: bheld_def tf)
  moreover have "blk D t = blk D s"
  proof (rule blk_eqI [OF inv inv']; unfold same)
    show "\<forall>c<NBUF. valid (bufs s c) \<longrightarrow> bdev (bufs s c) = D \<longrightarrow> bdata (bufs s c) = blk D s (blockno (bufs s c))"
      using blk_cached [OF inv] by simp
    show "\<forall>n. (\<forall>c<NBUF. \<not> (valid (bufs s c) \<and> bdev (bufs s c) = D \<and> blockno (bufs s c) = n)) \<longrightarrow> medium t n = blk D s n"
      using blk_uncached [of s D] bd bN by (auto simp: tf(2))
  qed
  ultimately show ?thesis using that [OF run] inv' tf fr same by (simp add: bst_def)
qed

end

text \<open>Storing into a held buffer changes the view of its block, and of no other.\<close>

lemma bdata_ok:
  fixes s :: "'z kdisk_scheme" and d :: "byte list"
  assumes st: "bst D s i H Q" and b: "b \<in> H"
  defines "t \<equiv> s\<lparr>bufs := (bufs s)(b := (bufs s b)\<lparr>bdata := d\<rparr>)\<rparr>"
  shows "bst D t i H Q" "blk D t = (blk D s)(blockno (bufs s b) := d)" "bframe s t"
proof -
  have inv: "binv D s H Q" and h: "bheld s i H" using st by (simp_all add: bst_def)
  have bN: "b < NBUF" using binv_sub [OF inv] b by blast
  have bd: "bdev (bufs s b) = D" "valid (bufs s b)" using binv_held [OF inv] b by blast+
  have same: "bdev (bufs t c) = bdev (bufs s c)" "valid (bufs t c) = valid (bufs s c)" "blockno (bufs t c) = blockno (bufs s c)"
    "c \<noteq> b \<Longrightarrow> bdata (bufs t c) = bdata (bufs s c)" "refcnt (bufs t c) = refcnt (bufs s c)" "medium t = medium s" for c
    by (simp_all add: t_def)
  have lr: "lru (bufs t) xs = lru (bufs s) xs" for xs by (rule lru_links) (simp_all add: t_def)
  have cl: "\<forall>c<NBUF. valid (bufs s c) \<longrightarrow> bdev (bufs s c) = D \<longrightarrow> c \<notin> H \<longrightarrow> blockno (bufs s c) \<notin> Q \<longrightarrow>
        bdata (bufs t c) = medium s (blockno (bufs s c))"
    using binv_clean [OF inv] b same(4) by metis
  have inv': "binv D t H Q" unfolding binv_def same lr by (intro conjI; (rule cl | rule binvD [OF inv]))
  moreover have "bheld t i H" using h by (simp add: bheld_def t_def running_def)
  ultimately show "bst D t i H Q" by (simp add: bst_def)
  show "bframe s t" by (simp add: bframe_def t_def)
  show "blk D t = (blk D s)(blockno (bufs s b) := d)"
  proof
    fix n
    show "blk D t n = ((blk D s)(blockno (bufs s b) := d)) n"
    proof (cases "\<exists>c<NBUF. valid (bufs s c) \<and> bdev (bufs s c) = D \<and> blockno (bufs s c) = n")
      case True
      then obtain c where c: "c < NBUF" "valid (bufs s c)" "bdev (bufs s c) = D" "blockno (bufs s c) = n" by blast
      have "c = b \<longleftrightarrow> n = blockno (bufs s b)" using binv_uniq [OF inv c(1) bN c(3) bd(1)] c(4) by auto
      then show ?thesis using blk_cached [OF inv c(1-3)] blk_cached [OF inv' c(1)] c same by (auto simp: t_def)
    next
      case False
      then have "blk D t n = medium t n" "blk D s n = medium s n" by (intro blk_uncached; simp add: same; blast)+
      then show ?thesis using False bN bd by (auto simp: same)
    qed
  qed
qed

text \<open>Pinning and unpinning a held buffer.\<close>

lemma bpin_ok:
  assumes st: "bst D s i H Q" and b: "b \<in> H" and q: "blockno (bufs s b) \<notin> Q"
  obtains t where "bpin b s = Ok () t" "bst D t i H (insert (blockno (bufs s b)) Q)" "blk D t = blk D s" "medium t = medium s"
    "dwrites t = dwrites s" "\<forall>c. blockno (bufs t c) = blockno (bufs s c) \<and> bdata (bufs t c) = bdata (bufs s c)" "bframe s t"
proof -
  have inv: "binv D s H Q" and h: "bheld s i H" using st by (simp_all add: bst_def)
  have bN: "b < NBUF" using binv_sub [OF inv] b by blast
  have bd: "bdev (bufs s b) = D" "valid (bufs s b)" using binv_held [OF inv] b by blast+
  define t where "t = s\<lparr>sync := quiet (sync s), bufs := (bufs s)(b := (bufs s b)\<lparr>refcnt := refcnt (bufs s b) + 1\<rparr>)\<rparr>"
  have run: "bpin b s = Ok () t"
    using h by (simp add: bpin_def acquire_run release_acq bheld_def running_def procs_free_def t_def)
  have same: "bdev (bufs t c) = bdev (bufs s c)" "valid (bufs t c) = valid (bufs s c)" "blockno (bufs t c) = blockno (bufs s c)"
    "bdata (bufs t c) = bdata (bufs s c)" "medium t = medium s" for c by (simp_all add: t_def)
  have lr: "lru (bufs t) xs = lru (bufs s) xs" for xs by (rule lru_links) (simp_all add: t_def)
  let ?Q = "insert (blockno (bufs s b)) Q"
  have uq: "c = b \<longleftrightarrow> blockno (bufs s c) = blockno (bufs s b)" if "c < NBUF" "bdev (bufs s c) = D" for c
    using binv_uniq [OF inv that(1) bN that(2) bd(1)] by auto
  have inv': "binv D t H ?Q"
    unfolding binv_def same lr
  proof (intro conjI)
    show "\<forall>c<NBUF. refcnt (bufs t c) = (if c \<in> H then 1 else 0) + (if bdev (bufs s c) = D \<and> blockno (bufs s c) \<in> ?Q then 1 else 0)"
    proof (intro allI impI)
      fix c assume c: "c < NBUF"
      show "refcnt (bufs t c) = (if c \<in> H then 1 else 0) + (if bdev (bufs s c) = D \<and> blockno (bufs s c) \<in> ?Q then 1 else 0)"
        using binv_ref [OF inv] c q bd uq [OF c] by (cases "c = b") (auto simp: t_def)
    qed
    show "\<forall>n\<in>?Q. \<exists>c<NBUF. bdev (bufs s c) = D \<and> valid (bufs s c) \<and> blockno (bufs s c) = n"
      using binv_pin [OF inv] bN bd by blast
    show "\<forall>a<NBUF. \<forall>c<NBUF. bdev (bufs s a) = D \<longrightarrow> bdev (bufs s c) = D \<longrightarrow> blockno (bufs s a) = blockno (bufs s c) \<longrightarrow> a = c"
      using binv_uniq [OF inv] by simp
  qed (use binv_lru [OF inv] binv_sub [OF inv] binv_fin [OF inv] binv_held [OF inv] binv_clean [OF inv] binv_bn [OF inv] in auto)
  have fr: "bframe s t" by (simp add: bframe_def t_def)
  have h': "bheld t i H" using h by (simp add: bheld_def t_def running_def cur_def)
  have "blk D t = blk D s" by (rule blk_same) (simp_all add: same)
  then show ?thesis using that [OF run] inv' h' fr same by (simp add: bst_def t_def)
qed

lemma bunpin_ok:
  assumes st: "bst D s i H Q" and b: "b \<in> H" and q: "blockno (bufs s b) \<in> Q"
  obtains t where "bunpin b s = Ok () t" "bst D t i H (Q - {blockno (bufs s b)})" "blk D t = blk D s" "medium t = medium s"
    "dwrites t = dwrites s" "\<forall>c. blockno (bufs t c) = blockno (bufs s c) \<and> bdata (bufs t c) = bdata (bufs s c)" "bframe s t"
proof -
  have inv: "binv D s H Q" and h: "bheld s i H" using st by (simp_all add: bst_def)
  have bN: "b < NBUF" using binv_sub [OF inv] b by blast
  have bd: "bdev (bufs s b) = D" "valid (bufs s b)" using binv_held [OF inv] b by blast+
  define t where "t = s\<lparr>sync := quiet (sync s), bufs := (bufs s)(b := (bufs s b)\<lparr>refcnt := refcnt (bufs s b) - 1\<rparr>)\<rparr>"
  have run: "bunpin b s = Ok () t"
    using h by (simp add: bunpin_def acquire_run release_acq bheld_def running_def procs_free_def t_def)
  have same: "bdev (bufs t c) = bdev (bufs s c)" "valid (bufs t c) = valid (bufs s c)" "blockno (bufs t c) = blockno (bufs s c)"
    "bdata (bufs t c) = bdata (bufs s c)" "medium t = medium s" for c by (simp_all add: t_def)
  have lr: "lru (bufs t) xs = lru (bufs s) xs" for xs by (rule lru_links) (simp_all add: t_def)
  let ?Q = "Q - {blockno (bufs s b)}"
  have uq: "c = b \<longleftrightarrow> blockno (bufs s c) = blockno (bufs s b)" if "c < NBUF" "bdev (bufs s c) = D" for c
    using binv_uniq [OF inv that(1) bN that(2) bd(1)] by auto
  have inv': "binv D t H ?Q"
    unfolding binv_def same lr
  proof (intro conjI)
    show "\<forall>c<NBUF. refcnt (bufs t c) = (if c \<in> H then 1 else 0) + (if bdev (bufs s c) = D \<and> blockno (bufs s c) \<in> ?Q then 1 else 0)"
    proof (intro allI impI)
      fix c assume c: "c < NBUF"
      show "refcnt (bufs t c) = (if c \<in> H then 1 else 0) + (if bdev (bufs s c) = D \<and> blockno (bufs s c) \<in> ?Q then 1 else 0)"
        using binv_ref [OF inv] c q bd b uq [OF c] by (cases "c = b") (auto simp: t_def)
    qed
    show "\<forall>n\<in>?Q. \<exists>c<NBUF. bdev (bufs s c) = D \<and> valid (bufs s c) \<and> blockno (bufs s c) = n"
      using binv_pin [OF inv] by blast
    show "\<forall>c<NBUF. valid (bufs s c) \<longrightarrow> bdev (bufs s c) = D \<longrightarrow> c \<notin> H \<longrightarrow> blockno (bufs s c) \<notin> ?Q \<longrightarrow>
        bdata (bufs s c) = medium s (blockno (bufs s c))"
    proof (intro allI impI)
      fix c assume c: "c < NBUF" "valid (bufs s c)" "bdev (bufs s c) = D" "c \<notin> H" "blockno (bufs s c) \<notin> ?Q"
      then have "blockno (bufs s c) \<notin> Q" using uq [of c] b by auto
      then show "bdata (bufs s c) = medium s (blockno (bufs s c))" using binv_clean [OF inv] c by blast
    qed
    show "\<forall>a<NBUF. \<forall>c<NBUF. bdev (bufs s a) = D \<longrightarrow> bdev (bufs s c) = D \<longrightarrow> blockno (bufs s a) = blockno (bufs s c) \<longrightarrow> a = c"
      using binv_uniq [OF inv] by simp
  qed (use binv_lru [OF inv] binv_sub [OF inv] binv_fin [OF inv] binv_held [OF inv] binv_bn [OF inv] in auto)
  have fr: "bframe s t" by (simp add: bframe_def t_def)
  have h': "bheld t i H" using h by (simp add: bheld_def t_def running_def cur_def)
  have "blk D t = blk D s" by (rule blk_same) (simp_all add: same)
  then show ?thesis using that [OF run] inv' h' fr same by (simp add: bst_def t_def)
qed

text \<open>Releasing a held buffer: its reference goes, and the last one moves it to the front of the order.\<close>

definition released :: "nat \<Rightarrow> (nat \<Rightarrow> buf) \<Rightarrow> nat \<Rightarrow> buf" where
  "released b bs = (let bs1 = bs(b := (bs b)\<lparr>refcnt := refcnt (bs b) - 1\<rparr>)
     in if refcnt (bs b) = 1 then link_front b (unlink b bs1) else bs1)"

lemma released_data [simp]:
  "bdata (released b bs c) = bdata (bs c)" "valid (released b bs c) = valid (bs c)" "bdev (released b bs c) = bdev (bs c)"
  "blockno (released b bs c) = blockno (bs c)"
  "refcnt (released b bs c) = (if c = b then refcnt (bs c) - 1 else refcnt (bs c))"
  by (simp_all add: released_def Let_def)

lemma released_lru:
  assumes "lru bs (as @ b # cs)"
  shows "lru (released b bs) (if refcnt (bs b) = 1 then b # as @ cs else as @ b # cs)"
proof -
  have "lru (bs(b := (bs b)\<lparr>refcnt := refcnt (bs b) - 1\<rparr>)) (as @ b # cs)"
    using assms lru_links [of "bs(b := (bs b)\<lparr>refcnt := refcnt (bs b) - 1\<rparr>)" bs] by simp
  then show ?thesis using lru_move_front [of "bs(b := (bs b)\<lparr>refcnt := refcnt (bs b) - 1\<rparr>)" as b cs]
    by (cases "refcnt (bs b) = 1") (simp_all add: released_def Let_def)
qed

lemma brelse_run:
  assumes h: "bheld s i H" and b: "b \<in> H" "b < NBUF"
  shows "brelse b s = Ok () (s\<lparr>sync := quiet (sync s), procs := awaken (Some i) (Sleeplock_chan (Buf_lk b)) 0 NPROC (procs s),
    sleeplocks := (sleeplocks s)(Buf_lk b := (sleeplocks s (Buf_lk b))\<lparr>sl_locked := 0, sl_pid := 0\<rparr>), bufs := released b (bufs s)\<rparr>)"
proof -
  have r: "running s i" "lock_free (Buf_lk b) (sync s)" "lock_free Bcache_lock (sync s)" "sync_ok (sync s)"
    and sl: "sl_locked (sleeplocks s (Buf_lk b)) \<noteq> 0" "sl_pid (sleeplocks s (Buf_lk b)) = pid (procs s i)"
    using h b by (auto simp: bheld_def running_def procs_free_def)
  let ?t = "s\<lparr>sync := quiet (sync s)\<rparr>"
  have hold: "is_holdingsleep (Buf_lk b) s = Ok True ?t" using is_holdingsleep_run [OF r(1,2)] sl by simp
  have rel: "releasesleep (Buf_lk b) ?t = Ok () (?t\<lparr>sync := quiet (sync ?t),
    procs := awaken (Some i) (Sleeplock_chan (Buf_lk b)) 0 NPROC (procs ?t),
    sleeplocks := (sleeplocks ?t)(Buf_lk b := (sleeplocks ?t (Buf_lk b))\<lparr>sl_locked := 0, sl_pid := 0\<rparr>)\<rparr>)"
    by (rule releasesleep_run) (use r in \<open>simp_all add: proc_free_lock_def\<close>)
  have "refcnt (bufs s b) - 1 = 0 \<longleftrightarrow> refcnt (bufs s b) = 1" by simp
  then show ?thesis
    using hold rel r by (cases "refcnt (bufs s b) = 1") (simp_all add: brelse_def acquire_run release_acq released_def Let_def)
qed

lemma brelse_ok:
  assumes st: "bst D s i H Q" and b: "b \<in> H"
    and clean: "blockno (bufs s b) \<in> Q \<or> bdata (bufs s b) = medium s (blockno (bufs s b))"
  obtains t where "brelse b s = Ok () t" "bst D t i (H - {b}) Q" "blk D t = blk D s" "medium t = medium s" "dwrites t = dwrites s"
    "\<forall>c. blockno (bufs t c) = blockno (bufs s c) \<and> bdata (bufs t c) = bdata (bufs s c)" "bframe s t"
proof -
  have inv: "binv D s H Q" and h: "bheld s i H" using st by (simp_all add: bst_def)
  have bN: "b < NBUF" using binv_sub [OF inv] b by blast
  define t where "t = s\<lparr>sync := quiet (sync s), procs := awaken (Some i) (Sleeplock_chan (Buf_lk b)) 0 NPROC (procs s),
    sleeplocks := (sleeplocks s)(Buf_lk b := (sleeplocks s (Buf_lk b))\<lparr>sl_locked := 0, sl_pid := 0\<rparr>), bufs := released b (bufs s)\<rparr>"
  have run: "brelse b s = Ok () t" using brelse_run [OF h b bN] by (simp add: t_def)
  have same: "bdev (bufs t c) = bdev (bufs s c)" "valid (bufs t c) = valid (bufs s c)" "blockno (bufs t c) = blockno (bufs s c)"
    "bdata (bufs t c) = bdata (bufs s c)" "medium t = medium s"
    "refcnt (bufs t c) = (if c = b then refcnt (bufs s c) - 1 else refcnt (bufs s c))" for c by (simp_all add: t_def)
  obtain xs where xs: "lru (bufs s) xs" using binv_lru [OF inv] by blast
  have "b \<in> set xs" using lruD(8) [OF xs] bN by simp
  then obtain as cs where "xs = as @ b # cs" by (meson split_list)
  then have lr: "\<exists>ys. lru (bufs t) ys" using released_lru [of "bufs s" as b cs] xs by (auto simp: t_def)
  have inv': "binv D t (H - {b}) Q"
    unfolding binv_def same
  proof (intro conjI)
    show "\<forall>c<NBUF. (if c = b then refcnt (bufs s c) - 1 else refcnt (bufs s c)) =
        (if c \<in> H - {b} then 1 else 0) + (if bdev (bufs s c) = D \<and> blockno (bufs s c) \<in> Q then 1 else 0)"
      using binv_ref [OF inv] b by simp
    show "\<forall>c<NBUF. valid (bufs s c) \<longrightarrow> bdev (bufs s c) = D \<longrightarrow> c \<notin> H - {b} \<longrightarrow> blockno (bufs s c) \<notin> Q \<longrightarrow>
        bdata (bufs s c) = medium s (blockno (bufs s c))"
      using binv_clean [OF inv] clean by blast
    show "\<forall>a<NBUF. \<forall>c<NBUF. bdev (bufs s a) = D \<longrightarrow> bdev (bufs s c) = D \<longrightarrow> blockno (bufs s a) = blockno (bufs s c) \<longrightarrow> a = c"
      using binv_uniq [OF inv] by simp
  qed (use lr binv_sub [OF inv] binv_fin [OF inv] binv_held [OF inv] binv_bn [OF inv] binv_pin [OF inv] in auto)
  have ps: "psame (procs s) (procs t)" by (simp add: t_def psame_awaken)
  then have fr: "bframe s t" by (simp add: bframe_def t_def)
  have h': "bheld t i (H - {b})"
    using h bframe_syncD [OF fr] bframe_running [OF fr, of i] psame_pid [OF ps] by (auto simp: bheld_def t_def)
  have "blk D t = blk D s" by (rule blk_same) (simp_all add: same)
  then show ?thesis using that [OF run] inv' h' fr same by (simp add: bst_def t_def)
qed

section \<open>The contract of the cache\<close>

text \<open>Accesses of the clients to \<open>b->data\<close> of a buffer they hold.\<close>

definition bload :: "nat \<Rightarrow> ('z kdisk_scheme, byte list) km" where
  "bload b = bnd (get_buf b) (\<lambda>k. ret (bdata k))"

definition bstore :: "nat \<Rightarrow> byte list \<Rightarrow> ('z kdisk_scheme, unit) km" where
  "bstore b d = set_buf b (\<lambda>k. k\<lparr>bdata := d\<rparr>)"

lemma bload_run [simp]: "bload b s = Ok (bdata (bufs s b)) s"
  by (simp add: bload_def)

lemma bstore_run [simp]: "bstore b d s = Ok () (s\<lparr>bufs := (bufs s)(b := (bufs s b)\<lparr>bdata := d\<rparr>)\<rparr>)"
  by (simp add: bstore_def)

text \<open>
  The clients of the cache (log and file system) see blocks: \<open>st s H Q\<close> says which buffers the caller holds and which
  blocks are pinned; \<open>view\<close> is the contents of every block, \<open>med\<close> what is on the medium, \<open>trace\<close> the writes so far.
\<close>

locale block_cache =
  fixes rd :: "uint \<Rightarrow> ('s, nat) km" and wr rel pin unpin :: "nat \<Rightarrow> ('s, unit) km"
    and load :: "nat \<Rightarrow> ('s, byte list) km" and store :: "nat \<Rightarrow> byte list \<Rightarrow> ('s, unit) km"
    and st :: "'s \<Rightarrow> nat set \<Rightarrow> uint set \<Rightarrow> bool"
    and view med :: "'s \<Rightarrow> uint \<Rightarrow> byte list" and trace :: "'s \<Rightarrow> (uint \<times> byte list) list"
    and bno :: "'s \<Rightarrow> nat \<Rightarrow> uint" and dat :: "'s \<Rightarrow> nat \<Rightarrow> byte list" and fr :: "'s \<Rightarrow> 's \<Rightarrow> bool"
  assumes rd: "st s H Q \<Longrightarrow> \<forall>b\<in>H. bno s b \<noteq> n \<Longrightarrow> card H + card Q < NBUF \<Longrightarrow> n < 2 ^ 31 \<Longrightarrow>
      wp (rd n) (\<lambda>b t. st t (insert b H) Q \<and> b \<notin> H \<and> bno t b = n \<and> dat t b = view s n \<and> view t = view s \<and> med t = med s \<and>
        trace t = trace s \<and> (\<forall>c. c \<noteq> b \<longrightarrow> bno t c = bno s c \<and> dat t c = dat s c) \<and> fr s t) s"
    and load: "load b s = Ok (dat s b) s"
    and store: "st s H Q \<Longrightarrow> b \<in> H \<Longrightarrow>
      wp (store b d) (\<lambda>_ t. st t H Q \<and> view t = (view s)(bno s b := d) \<and> med t = med s \<and> trace t = trace s \<and> bno t = bno s \<and>
        dat t = (dat s)(b := d) \<and> fr s t) s"
    and wr: "st s H Q \<Longrightarrow> b \<in> H \<Longrightarrow>
      wp (wr b) (\<lambda>_ t. st t H Q \<and> view t = view s \<and> med t = (med s)(bno s b := dat s b) \<and>
        trace t = trace s @ [(bno s b, dat s b)] \<and> bno t = bno s \<and> dat t = dat s \<and> fr s t) s"
    and rel: "st s H Q \<Longrightarrow> b \<in> H \<Longrightarrow> bno s b \<in> Q \<or> dat s b = med s (bno s b) \<Longrightarrow>
      wp (rel b) (\<lambda>_ t. st t (H - {b}) Q \<and> view t = view s \<and> med t = med s \<and> trace t = trace s \<and> bno t = bno s \<and> dat t = dat s \<and> fr s t) s"
    and pin: "st s H Q \<Longrightarrow> b \<in> H \<Longrightarrow> bno s b \<notin> Q \<Longrightarrow>
      wp (pin b) (\<lambda>_ t. st t H (insert (bno s b) Q) \<and> view t = view s \<and> med t = med s \<and> trace t = trace s \<and> bno t = bno s \<and> dat t = dat s \<and> fr s t) s"
    and unpin: "st s H Q \<Longrightarrow> b \<in> H \<Longrightarrow> bno s b \<in> Q \<Longrightarrow>
      wp (unpin b) (\<lambda>_ t. st t H (Q - {bno s b}) \<and> view t = view s \<and> med t = med s \<and> trace t = trace s \<and> bno t = bno s \<and> dat t = dat s \<and> fr s t) s"
    and clean: "st s H Q \<Longrightarrow> n \<notin> Q \<Longrightarrow> \<forall>b\<in>H. bno s b \<noteq> n \<Longrightarrow> view s n = med s n"
    and fr_trans: "fr s t \<Longrightarrow> fr t u \<Longrightarrow> fr s u"
begin

lemma wp_load: "wp (load b) P s = P (dat s b) s"
  by (simp add: wp_def load)

text \<open>Reading a block and letting it go.\<close>

lemma read_release:
  assumes "st s {} Q" "card Q < NBUF" "n < 2 ^ 31"
  shows "wp (bnd (rd n) (\<lambda>b. bnd (load b) (\<lambda>x. seq (rel b) (ret (f x)))))
    (\<lambda>r t. r = f (view s n) \<and> st t {} Q \<and> view t = view s \<and> med t = med s \<and> trace t = trace s \<and> fr s t) s"
  unfolding wp_bnd
proof (rule wp_mono [OF rd [OF assms(1)]], goal_cases)
  case (4 b t)
  then have c: "bno t b \<in> Q \<or> dat t b = med t (bno t b)" using clean [OF assms(1), of n] by auto
  show ?case unfolding wp_load wp_seq
    by (rule wp_mono [OF rel [of t "insert b {}" Q b]]) (use 4 c fr_trans in \<open>auto simp: wp_ret\<close>)
qed (use assms in auto)

text \<open>Changing a block and writing it to the disk at once.\<close>

lemma update_write:
  assumes "st s {} Q" "card Q < NBUF" "n < 2 ^ 31"
  shows "wp (bnd (rd n) (\<lambda>b. bnd (load b) (\<lambda>x. seq (store b (f x)) (seq (wr b) (rel b)))))
    (\<lambda>_ t. st t {} Q \<and> view t = (view s)(n := f (view s n)) \<and> med t = (med s)(n := f (view s n)) \<and>
      trace t = trace s @ [(n, f (view s n))] \<and> fr s t) s"
  unfolding wp_bnd
proof (rule wp_mono [OF rd [OF assms(1)]], goal_cases)
  case (4 b t)
  show ?case unfolding wp_load wp_seq
  proof (rule wp_mono [OF store [of t "insert b {}" Q b]], goal_cases)
    case (3 _ u)
    show ?case
    proof (rule wp_mono [OF wr [of u "insert b {}" Q b]], goal_cases)
      case (3 _ v)
      then show ?case
        by (intro wp_mono [OF rel [of v "insert b {}" Q b]]) (use 4 \<open>st u _ _ \<and> _\<close> in \<open>auto dest: fr_trans\<close>)
    qed (use 3 in auto)
  qed (use 4 in auto)
qed (use assms in auto)

text \<open>
  Copying one block over another and writing it: the step of \<open>write_log\<close> (source read second) and of
  \<open>install_trans\<close> (source read first, target unpinned on a commit).
\<close>

lemma copy_write:
  assumes "st s {} Q" "card Q + 1 < NBUF" "m < 2 ^ 31" "n < 2 ^ 31" "m \<noteq> n"
  shows "wp (bnd (rd m) (\<lambda>a. bnd (rd n) (\<lambda>b. bnd (load b) (\<lambda>x. seq (store a x) (seq (wr a) (seq (rel b) (rel a)))))))
    (\<lambda>_ t. st t {} Q \<and> view t = (view s)(m := view s n) \<and> med t = (med s)(m := view s n) \<and>
      trace t = trace s @ [(m, view s n)] \<and> fr s t) s"
  unfolding wp_bnd
proof (rule wp_mono [OF rd [OF assms(1)]], goal_cases)
  case (4 a t)
  show ?case
  proof (rule wp_mono [OF rd [of t "{a}" Q]], goal_cases)
    case (5 b u)
    have fu: "fr s u" using fr_trans 4 5 by blast
    have cl: "n \<in> Q \<or> view s n = med s n" using clean [OF assms(1), of n] by auto
    show ?case unfolding wp_load wp_seq
    proof (rule wp_mono [OF store [of u "{b, a}" Q a]], goal_cases)
      case (3 _ v)
      have fv: "fr s v" using fr_trans fu 3 by blast
      show ?case
      proof (rule wp_mono [OF wr [of v "{b, a}" Q a]], goal_cases)
        case (3 _ w)
        have fw: "fr s w" using fr_trans fv 3 by blast
        show ?case
        proof (rule wp_mono [OF rel [of w "{b, a}" Q b]], goal_cases)
          case (4 _ x)
          have fx: "fr s x" using fr_trans fw 4 by blast
          have x: "{b, a} - {b} = {a}" "st x {a} Q" "dat x a = med x (bno x a)" using 3 4 5 \<open>st v _ _ \<and> _\<close> by auto
          have v: "view x = (view s)(m := view s n)" "med x = (med s)(m := view s n)" "trace x = trace s @ [(m, view s n)]"
            using 3 4 5 \<open>st v _ _ \<and> _\<close> \<open>st t _ _ \<and> _\<close> by auto
          show ?case
          proof (rule wp_mono [OF rel [OF x(2), of a]], goal_cases)
            case (3 _ y)
            then show ?case using v fr_trans [OF fx, of y] by simp
          qed (use x in simp_all)
        qed (use 3 5 cl \<open>st v _ _ \<and> _\<close> \<open>st t _ _ \<and> _\<close> assms(5) in auto)
      qed (use 3 in auto)
    qed (use 5 in auto)
  qed (use 4 assms in auto)
qed (use assms in auto)

lemma install_write:
  assumes "st s {} Q" "card Q + 1 < NBUF" "m < 2 ^ 31" "n < 2 ^ 31" "m \<noteq> n" "u \<longrightarrow> n \<in> Q"
  shows "wp (bnd (rd m) (\<lambda>a. bnd (rd n) (\<lambda>b. bnd (load a) (\<lambda>x. seq (store b x) (seq (wr b)
      (seq (whenM u (unpin b)) (seq (rel a) (rel b))))))))
    (\<lambda>_ t. st t {} (if u then Q - {n} else Q) \<and> view t = (view s)(n := view s m) \<and> med t = (med s)(n := view s m) \<and>
      trace t = trace s @ [(n, view s m)] \<and> fr s t) s"
  unfolding wp_bnd
proof (rule wp_mono [OF rd [OF assms(1)]], goal_cases)
  case (4 a t)
  show ?case
  proof (rule wp_mono [OF rd [of t "{a}" Q]], goal_cases)
    case (5 b v)
    have fv: "fr s v" using fr_trans 4 5 by blast
    define R where "R = (if u then Q - {n} else Q)"
    have cl: "m \<in> Q \<or> view s m = med s m" using clean [OF assms(1), of m] by auto
    show ?case unfolding wp_load wp_seq
    proof (rule wp_mono [OF store [of v "{b, a}" Q b]], goal_cases)
      case (3 _ w)
      have fw: "fr s w" using fr_trans fv 3 by blast
      show ?case
      proof (rule wp_mono [OF wr [of w "{b, a}" Q b]], goal_cases)
        case (3 _ x)
        have fx: "fr s x" using fr_trans fw 3 by blast
        have "wp (whenM u (unpin b)) (\<lambda>_ y. st y {b, a} R \<and> view y = view x \<and> med y = med x \<and> trace y = trace x \<and> bno y = bno x \<and>
            dat y = dat x \<and> (y = x \<or> fr x y)) x"
          using unpin [of x "{b, a}" Q b] 3 5 \<open>st w _ _ \<and> _\<close> assms(6) by (auto simp: wp_whenM R_def intro: wp_mono)
        then show ?case
        proof (rule wp_mono, goal_cases)
          case (1 _ y)
          have fy: "fr s y" using fr_trans [OF fx] fx 1 by blast
          show ?case
          proof (rule wp_mono [OF rel [of y "{b, a}" R a]], goal_cases)
            case (4 _ z)
            have fz: "fr s z" using fr_trans fy 4 by blast
            have z: "{b, a} - {a} = {b}" using 5 by auto
            have z: "st z {b} R" "dat z b = med z (bno z b)" using 1 3 4 z by simp_all
            have v: "view z = (view s)(n := view s m)" "med z = (med s)(n := view s m)" "trace z = trace s @ [(n, view s m)]"
              using 1 3 4 5 \<open>st w _ _ \<and> _\<close> \<open>st t _ _ \<and> _\<close> by simp_all
            show ?case
            proof (rule wp_mono [OF rel [OF z(1), of b]], goal_cases)
              case (3 _ r)
              then show ?case using v fr_trans [OF fz, of r] by (simp add: R_def)
            qed (use z in simp_all)
          qed (use 1 3 5 cl \<open>st w _ _ \<and> _\<close> \<open>st t _ _ \<and> _\<close> assms(5) in \<open>auto simp: R_def\<close>)
        qed
      qed (use 3 in auto)
    qed (use 5 in auto)
  qed (use 4 assms in auto)
qed (use assms in auto)

end

lemma binv_quiet_view:
  assumes "bst D s i H Q" "n \<notin> Q" "\<forall>b\<in>H. blockno (bufs s b) \<noteq> n"
  shows "blk D s n = medium s n"
proof (cases "\<exists>b<NBUF. valid (bufs s b) \<and> bdev (bufs s b) = D \<and> blockno (bufs s b) = n")
  case True
  then obtain b where b: "b < NBUF" "valid (bufs s b)" "bdev (bufs s b) = D" "blockno (bufs s b) = n" by blast
  have inv: "binv D s H Q" using assms(1) by (simp add: bst_def)
  have "b \<notin> H" using b(4) assms(3) by blast
  then have "bdata (bufs s b) = medium s n" using binv_clean [OF inv] b assms(2) by blast
  then show ?thesis using blk_cached [OF inv b(1-3)] b(4) by simp
next
  case False
  then show ?thesis by (intro blk_uncached) blast
qed

sublocale block_driver \<subseteq> bc: block_cache "bread rw D" "bwrite rw" brelse bpin bunpin bload bstore "\<lambda>s H Q. bst D s i H Q"
  "blk D" medium dwrites "\<lambda>s b. blockno (bufs s b)" "\<lambda>s b. bdata (bufs s b)" bframe for D i
proof unfold_locales
  fix s :: "'z kdisk_scheme" and H Q n
  assume "bst D s i H Q" "\<forall>b\<in>H. blockno (bufs s b) \<noteq> n" "card H + card Q < NBUF" "n < 2 ^ 31"
  then show "wp (bread rw D n) (\<lambda>b t. bst D t i (insert b H) Q \<and> b \<notin> H \<and> blockno (bufs t b) = n \<and>
      bdata (bufs t b) = blk D s n \<and> blk D t = blk D s \<and> medium t = medium s \<and> dwrites t = dwrites s \<and>
      (\<forall>c. c \<noteq> b \<longrightarrow> blockno (bufs t c) = blockno (bufs s c) \<and> bdata (bufs t c) = bdata (bufs s c)) \<and> bframe s t) s"
    by (rule bread_ok) (simp add: wp_def)
next
  fix s :: "'z kdisk_scheme" and H Q b d
  assume a: "bst D s i H Q" "b \<in> H"
  show "wp (bstore b d) (\<lambda>_ t. bst D t i H Q \<and> blk D t = (blk D s)(blockno (bufs s b) := d) \<and> medium t = medium s \<and>
      dwrites t = dwrites s \<and> (\<lambda>b. blockno (bufs t b)) = (\<lambda>b. blockno (bufs s b)) \<and>
      (\<lambda>b. bdata (bufs t b)) = (\<lambda>b. bdata (bufs s b))(b := d) \<and> bframe s t) s"
    using bdata_ok [OF a, of d] by (auto simp: wp_iff fun_eq_iff)
next
  fix s :: "'z kdisk_scheme" and H Q b
  assume "bst D s i H Q" "b \<in> H"
  then show "wp (bwrite rw b) (\<lambda>_ t. bst D t i H Q \<and> blk D t = blk D s \<and>
      medium t = (medium s)(blockno (bufs s b) := bdata (bufs s b)) \<and> dwrites t = dwrites s @ [(blockno (bufs s b), bdata (bufs s b))] \<and>
      (\<lambda>b. blockno (bufs t b)) = (\<lambda>b. blockno (bufs s b)) \<and> (\<lambda>b. bdata (bufs t b)) = (\<lambda>b. bdata (bufs s b)) \<and> bframe s t) s"
    by (rule bwrite_ok) (simp add: wp_def)
next
  fix s :: "'z kdisk_scheme" and H Q b
  assume "bst D s i H Q" "b \<in> H" "blockno (bufs s b) \<in> Q \<or> bdata (bufs s b) = medium s (blockno (bufs s b))"
  then show "wp (brelse b) (\<lambda>_ t. bst D t i (H - {b}) Q \<and> blk D t = blk D s \<and> medium t = medium s \<and>
      dwrites t = dwrites s \<and> (\<lambda>b. blockno (bufs t b)) = (\<lambda>b. blockno (bufs s b)) \<and> (\<lambda>b. bdata (bufs t b)) = (\<lambda>b. bdata (bufs s b)) \<and> bframe s t) s"
    by (rule brelse_ok) (simp add: wp_def)
next
  fix s :: "'z kdisk_scheme" and H Q b
  assume "bst D s i H Q" "b \<in> H" "blockno (bufs s b) \<notin> Q"
  then show "wp (bpin b) (\<lambda>_ t. bst D t i H (insert (blockno (bufs s b)) Q) \<and> blk D t = blk D s \<and> medium t = medium s \<and>
      dwrites t = dwrites s \<and> (\<lambda>b. blockno (bufs t b)) = (\<lambda>b. blockno (bufs s b)) \<and> (\<lambda>b. bdata (bufs t b)) = (\<lambda>b. bdata (bufs s b)) \<and> bframe s t) s"
    by (rule bpin_ok) (simp add: wp_def)
next
  fix s :: "'z kdisk_scheme" and H Q b
  assume "bst D s i H Q" "b \<in> H" "blockno (bufs s b) \<in> Q"
  then show "wp (bunpin b) (\<lambda>_ t. bst D t i H (Q - {blockno (bufs s b)}) \<and> blk D t = blk D s \<and> medium t = medium s \<and>
      dwrites t = dwrites s \<and> (\<lambda>b. blockno (bufs t b)) = (\<lambda>b. blockno (bufs s b)) \<and> (\<lambda>b. bdata (bufs t b)) = (\<lambda>b. bdata (bufs s b)) \<and> bframe s t) s"
    by (rule bunpin_ok) (simp add: wp_def)
qed (auto intro: binv_quiet_view bframe_trans)

section \<open>Initialisation\<close>

text \<open>The state of locks after \<open>initlock\<close>.\<close>

definition fresh_lock :: "lock_id \<Rightarrow> string \<Rightarrow> sync \<Rightarrow> sync" where
  "fresh_lock l nm y = y\<lparr>locks := (locks y)(l := (locks y l)\<lparr>lname := nm, locked := 0, lcpu := None\<rparr>)\<rparr>"

lemma fresh_lock_simps [simp]:
  "tp (fresh_lock l nm y) = tp y" "sie (fresh_lock l nm y) = sie y" "depth (fresh_lock l nm y) = depth y"
  "cpus (fresh_lock l nm y) = cpus y" "sync_ok (fresh_lock l nm y) = sync_ok y"
  "lock_free k (fresh_lock l nm y) = (k = l \<or> lock_free k y)"
  by (auto simp: fresh_lock_def sie_def depth_def sync_ok_def lock_free_def)

lemma procs_free_fresh: "procs_free y \<Longrightarrow> procs_free (fresh_lock l nm y)"
  by (simp add: procs_free_def)

lemma initlock_run: "initlock l nm s = Ok () (s\<lparr>sync := fresh_lock l nm (sync s)\<rparr>)"
  by (simp add: initlock_def set_lock_def fresh_lock_def)

lemma initsleeplock_run:
  "initsleeplock l nm s = Ok () (s\<lparr>sync := fresh_lock l nm (sync s),
     sleeplocks := (sleeplocks s)(l := (sleeplocks s l)\<lparr>sl_name := nm, sl_locked := 0, sl_pid := 0\<rparr>)\<rparr>)"
  by (simp add: initsleeplock_def initlock_run)

definition bfresh :: "(nat \<Rightarrow> buf) \<Rightarrow> bool" where
  "bfresh bs \<longleftrightarrow> (\<forall>b<NBUF. bdev (bs b) = 0 \<and> refcnt (bs b) = 0 \<and> \<not> valid (bs b))"

lemma binit_loop_run:
  assumes "running s i" "lock_free Vdisk_lock (sync s)" "lock_free Bcache_lock (sync s)" "vd_idle (md s)" "b + n \<le> NBUF"
    "linkp (nxt (bufs s)) (prv (bufs s)) (bhead # rev [0..<b] @ [bhead])" "bfresh (bufs s)"
    "\<forall>c<b. lock_free (Buf_lk c) (sync s) \<and> sl_locked (sleeplocks s (Buf_lk c)) = 0"
  obtains t where "binit_loop b n s = Ok () t" "running t i" "lock_free Vdisk_lock (sync t)" "lock_free Bcache_lock (sync t)" "vd_idle (md t)"
    "linkp (nxt (bufs t)) (prv (bufs t)) (bhead # rev [0..<b + n] @ [bhead])" "bfresh (bufs t)"
    "\<forall>c<b + n. lock_free (Buf_lk c) (sync t) \<and> sl_locked (sleeplocks t (Buf_lk c)) = 0" "medium t = medium s"
    "\<forall>l. lock_free l (sync s) \<longrightarrow> lock_free l (sync t)"
  using assms
proof (induction n arbitrary: b s thesis)
  case 0
  then show ?case by simp
next
  case (Suc n)
  define s1 where "s1 = s\<lparr>sync := fresh_lock (Buf_lk b) ''buffer'' (sync s),
    sleeplocks := (sleeplocks s)(Buf_lk b := (sleeplocks s (Buf_lk b))\<lparr>sl_name := ''buffer'', sl_locked := 0, sl_pid := 0\<rparr>),
    bufs := link_front b (bufs s)\<rparr>"
  have run: "binit_loop b (Suc n) s = binit_loop (Suc b) n s1" by (simp add: initsleeplock_run s1_def)
  have b: "b \<noteq> bhead" "b < NBUF" using Suc.prems(6) by simp_all
  have "running s1 i" using Suc.prems(2) by (simp add: running_def cur_def s1_def procs_free_fresh)
  moreover have "linkp (nxt (bufs s1)) (prv (bufs s1)) (bhead # rev [0..<Suc b] @ [bhead])"
    using lru_front [OF Suc.prems(7) b(1)] link_front_links [OF b(1), of "bufs s"] b by (simp add: s1_def)
  moreover have "bfresh (bufs s1)" using Suc.prems(8) by (simp add: bfresh_def s1_def)
  moreover have "\<forall>c<Suc b. lock_free (Buf_lk c) (sync s1) \<and> sl_locked (sleeplocks s1 (Buf_lk c)) = 0"
    using Suc.prems(9) by (auto simp: s1_def less_Suc_eq)
  moreover have "lock_free Vdisk_lock (sync s1)" "lock_free Bcache_lock (sync s1)" "vd_idle (md s1)" "Suc b + n \<le> NBUF"
    using Suc.prems by (simp_all add: s1_def)
  ultimately obtain t where t: "binit_loop (Suc b) n s1 = Ok () t" "running t i" "lock_free Vdisk_lock (sync t)" "lock_free Bcache_lock (sync t)" "vd_idle (md t)"
    "linkp (nxt (bufs t)) (prv (bufs t)) (bhead # rev [0..<Suc b + n] @ [bhead])" "bfresh (bufs t)"
    "\<forall>c<Suc b + n. lock_free (Buf_lk c) (sync t) \<and> sl_locked (sleeplocks t (Buf_lk c)) = 0" "medium t = medium s1"
    "\<forall>l. lock_free l (sync s1) \<longrightarrow> lock_free l (sync t)"
    using Suc.IH [of "Suc b" s1] by blast
  have e: "Suc b + n = b + Suc n" by simp
  show ?case
    by (rule Suc.prems(1) [of t]) (use t [unfolded e] run in \<open>simp_all add: s1_def\<close>)
qed

lemma binit_ok:
  assumes "running s i" "i < NPROC" "lock_free Vdisk_lock (sync s)" "vd_idle (md s)" "bfresh (bufs s)" "D \<noteq> 0"
    "\<forall>b\<ge>NBUF. lock_free (Buf_lk b) (sync s)"
  obtains t where "binit s = Ok () t" "bst D t i {} {}" "lru (bufs t) (rev [0..<NBUF])" "blk D t = medium s" "medium t = medium s"
    "\<forall>l. lock_free l (sync s) \<longrightarrow> lock_free l (sync t)"
proof -
  define u where "u = s\<lparr>sync := fresh_lock Bcache_lock ''bcache'' (sync s),
    bufs := (bufs s)(bhead := (bufs s bhead)\<lparr>bprev := bhead, bnext := bhead\<rparr>)\<rparr>"
  have run: "binit s = binit_loop 0 NBUF u" by (simp add: binit_def initlock_run u_def)
  obtain t where t: "binit_loop 0 NBUF u = Ok () t" "running t i" "lock_free Vdisk_lock (sync t)" "lock_free Bcache_lock (sync t)" "vd_idle (md t)"
    "linkp (nxt (bufs t)) (prv (bufs t)) (bhead # rev [0..<0 + NBUF] @ [bhead])" "bfresh (bufs t)"
    "\<forall>c<0 + NBUF. lock_free (Buf_lk c) (sync t) \<and> sl_locked (sleeplocks t (Buf_lk c)) = 0" "medium t = medium u"
    "\<forall>l. lock_free l (sync u) \<longrightarrow> lock_free l (sync t)"
  proof (rule binit_loop_run [of u i 0 NBUF])
    show "running u i" using assms(1) by (simp add: u_def running_def cur_def procs_free_fresh)
    show "linkp (nxt (bufs u)) (prv (bufs u)) (bhead # rev [0..<0] @ [bhead])" by (simp add: u_def nxt_def prv_def)
    show "bfresh (bufs u)" using assms(5) by (simp add: u_def bfresh_def)
  qed (use assms in \<open>auto simp: u_def\<close>)
  have l: "lru (bufs t) (rev [0..<NBUF])" using t(6) by (auto simp: lru_def)
  have f: "bdev (bufs t b) \<noteq> D" "refcnt (bufs t b) = 0" if "b < NBUF" for b using t(7) assms(6) that by (auto simp: bfresh_def)
  have lf: "lock_free (Buf_lk b) (sync t)" for b using t(8,10) assms(7) by (cases "b < NBUF") (auto simp: u_def)
  have "binv D t {} {}" using l f by (auto simp: binv_def)
  moreover have "bheld t i {}" using t lf assms(2) by (auto simp: bheld_def)
  moreover have "blk D t = medium s" by (rule ext, subst blk_uncached) (use f t(9) in \<open>auto simp: u_def\<close>)
  ultimately show ?thesis using that [of t] run t l by (simp add: bst_def u_def)
qed

section \<open>Properties\<close>

text \<open>The specification of the cache as a list of buffers, most recently used first.\<close>

definition lru_pick :: "(nat \<Rightarrow> buf) \<Rightarrow> nat list \<Rightarrow> uint \<Rightarrow> uint \<Rightarrow> nat option" where
  "lru_pick bs xs d bn = (case cached_in bs xs d bn of Some c \<Rightarrow> Some c | None \<Rightarrow> oldest_unused bs xs)"

definition lru_release :: "(nat \<Rightarrow> buf) \<Rightarrow> nat list \<Rightarrow> nat \<Rightarrow> nat list" where
  "lru_release bs xs b = (if refcnt (bs b) = 1 then b # remove1 b xs else xs)"

text \<open>
  C3: The pointer structure refines the list specification. On a well-formed doubly linked list that stands for
  \<open>xs\<close>, \<open>bget\<close> returns, locked, the buffer that has the block, else the least recently used unreferenced one, which
  it claims for the block, and keeps the order; it panics exactly when there is neither. \<open>brelse\<close> of a held buffer
  drops its reference and, with the last one, moves it to the front.
\<close>

theorem bcache_refines_lru:
  assumes "bheld s i H" "lru (bufs s) xs" "\<forall>c. lru_pick (bufs s) xs d bn = Some c \<longrightarrow> c \<notin> H" "b \<in> H" "b < NBUF"
  shows "(case lru_pick (bufs s) xs d bn of
      None \<Rightarrow> bget d bn s = Panic ''bget: no buffers''
    | Some c \<Rightarrow> \<exists>t. bget d bn s = Ok c t \<and> lru (bufs t) xs \<and> bdev (bufs t c) = d \<and> blockno (bufs t c) = bn \<and>
        (if cached_in (bufs s) xs d bn = None then refcnt (bufs s c) = 0 \<and> refcnt (bufs t c) = 1 \<and> \<not> valid (bufs t c)
         else bufs t c = (bufs s c)\<lparr>refcnt := refcnt (bufs s c) + 1\<rparr>) \<and>
        (\<forall>e. e \<noteq> c \<longrightarrow> bufs t e = bufs s e) \<and> sl_locked (sleeplocks t (Buf_lk c)) = 1) \<and>
    (\<exists>t. brelse b s = Ok () t \<and> lru (bufs t) (lru_release (bufs s) xs b) \<and> sl_locked (sleeplocks t (Buf_lk b)) = 0 \<and>
      refcnt (bufs t b) = refcnt (bufs s b) - 1 \<and> (\<forall>e. bdata (bufs t e) = bdata (bufs s e)))"
proof (intro conjI)
  note l = lruD [OF assms(2)]
  show "\<exists>t. brelse b s = Ok () t \<and> lru (bufs t) (lru_release (bufs s) xs b) \<and> sl_locked (sleeplocks t (Buf_lk b)) = 0 \<and>
      refcnt (bufs t b) = refcnt (bufs s b) - 1 \<and> (\<forall>e. bdata (bufs t e) = bdata (bufs s e))"
  proof -
    have "b \<in> set xs" using l(8) assms(5) by simp
    then obtain as cs where x: "xs = as @ b # cs" "b \<notin> set as" by (meson split_list_first)
    then have "remove1 b xs = as @ cs" by (simp add: remove1_append)
    then show ?thesis using brelse_run [OF assms(1,4,5)] released_lru [of "bufs s" as b cs] assms(2) x by (auto simp: lru_release_def split: if_splits)
  qed
  show "case lru_pick (bufs s) xs d bn of None \<Rightarrow> bget d bn s = Panic ''bget: no buffers''
    | Some c \<Rightarrow> \<exists>t. bget d bn s = Ok c t \<and> lru (bufs t) xs \<and> bdev (bufs t c) = d \<and> blockno (bufs t c) = bn \<and>
        (if cached_in (bufs s) xs d bn = None then refcnt (bufs s c) = 0 \<and> refcnt (bufs t c) = 1 \<and> \<not> valid (bufs t c)
         else bufs t c = (bufs s c)\<lparr>refcnt := refcnt (bufs s c) + 1\<rparr>) \<and>
        (\<forall>e. e \<noteq> c \<longrightarrow> bufs t e = bufs s e) \<and> sl_locked (sleeplocks t (Buf_lk c)) = 1"
  proof (cases "lru_pick (bufs s) xs d bn")
    case None
    then show ?thesis using bget_run [OF assms(1,2) refl, of d bn] unfolding lru_pick_def by simp
  next
    case (Some c)
    have c: "c \<in> set xs" "cached_in (bufs s) xs d bn = None \<Longrightarrow> refcnt (bufs s c) = 0"
      "cached_in (bufs s) xs d bn \<noteq> None \<Longrightarrow> bdev (bufs s c) = d \<and> blockno (bufs s c) = bn"
      using Some by (auto simp: lru_pick_def cached_in_def oldest_unused_def split: option.splits dest: find_SomeD)
    have "sl_locked (sleeplocks s (Buf_lk c)) = 0" using assms(1,3) Some c(1) l(8) by (auto simp: bheld_def)
    then have run: "bget d bn s = Ok c (s\<lparr>sync := quiet (sync s),
          sleeplocks := (sleeplocks s)(Buf_lk c := (sleeplocks s (Buf_lk c))\<lparr>sl_locked := 1, sl_pid := pid (procs s i)\<rparr>),
          bufs := (bufs s)(c := (if cached_in (bufs s) xs d bn = None then claimed d bn (bufs s c)
                                 else (bufs s c)\<lparr>refcnt := refcnt (bufs s c) + 1\<rparr>))\<rparr>)"
      using bget_run [OF assms(1,2) refl, of d bn] Some unfolding lru_pick_def by simp
    have lr: "lru ((bufs s)(c := (if cached_in (bufs s) xs d bn = None then claimed d bn (bufs s c)
        else (bufs s c)\<lparr>refcnt := refcnt (bufs s c) + 1\<rparr>))) xs = lru (bufs s) xs"
      by (rule lru_links) simp_all
    show ?thesis using run lr assms(2) c Some by simp
  qed
qed

text \<open>The machine of the witnesses: zeroed buffers, an idle queue, process 0 running.\<close>

definition demo_boot :: kdisk where
  "demo_boot = demo_disk\<lparr>bufs := (\<lambda>_. \<lparr>valid = False, bdisk = False, bdev = 0, blockno = 0, refcnt = 0, bprev = 0, bnext = 0,
     bdata = replicate 1024 0\<rparr>)\<rparr>"

lemma demo_boot_ready:
  "running demo_boot 0" "lock_free l (sync demo_boot)" "vd_idle (md demo_boot)" "bfresh (bufs demo_boot)" "medium demo_boot = (\<lambda>_. replicate 1024 0)"
proof -
  show "running demo_boot 0" using demo_disk_ready(1) by (simp add: demo_boot_def running_def)
  show "lock_free l (sync demo_boot)" "vd_idle (md demo_boot)" "bfresh (bufs demo_boot)"
    using demo_disk_ready(3) by (simp_all add: demo_boot_def demo_sync_free bfresh_def)
  show "medium demo_boot = (\<lambda>_. replicate 1024 0)" by (rule ext) (simp add: demo_boot_def)
qed

lemma demo_booted:
  obtains t where "binit demo_boot = Ok () t" "bst 1 t 0 {} {}" "lru (bufs t) (rev [0..<NBUF])" "blk 1 t = (\<lambda>_. replicate 1024 0)"
    "\<forall>l. lock_free l (sync t)"
  by (rule binit_ok [of demo_boot 0 1]) (use demo_boot_ready in \<open>auto simp: NPROC_def\<close>)

theorem bcache_refines_lru_witness:
  "\<exists>(s :: kdisk) b xs t. bheld s 0 {b} \<and> lru (bufs s) xs \<and> brelse b s = Ok () t \<and> lru (bufs t) (lru_release (bufs s) xs b) \<and>
     refcnt (bufs t b) = refcnt (bufs s b) - 1"
proof -
  obtain t :: kdisk where t: "bst 1 t 0 {} {}" by (rule demo_booted) blast
  obtain b and u :: kdisk where u: "bst 1 u 0 {b} {}" "b < NBUF" "blockno (bufs u b) = 3"
    by (rule vdisk.vrw.bread_ok [OF t, of 3 "\<lambda>_ _. 0"]) (auto simp: NBUF_def)
  have h: "bheld u 0 {b}" and inv: "binv 1 u {b} {}" using u(1) by (simp_all add: bst_def)
  obtain xs where xs: "lru (bufs u) xs" using binv_lru [OF inv] by blast
  have "\<forall>c. lru_pick (bufs u) xs 1 9 = Some c \<longrightarrow> c \<notin> {b}"
  proof (intro allI impI)
    fix c assume c: "lru_pick (bufs u) xs 1 9 = Some c"
    have "blockno (bufs u c) = 9 \<or> refcnt (bufs u c) = 0"
      using c by (auto simp: lru_pick_def cached_in_def oldest_unused_def split: option.splits dest: find_SomeD)
    moreover have "refcnt (bufs u b) = 1" using binv_ref [OF inv] u(2) by simp
    ultimately show "c \<notin> {b}" using u(3) by auto
  qed
  from bcache_refines_lru [OF h xs this, of b] u(2) h xs show ?thesis by blast
qed

text \<open>
  \<open>binit\<close> builds the cache: from zeroed buffers it returns with all thirty on the list, last initialised first,
  every lock free and the invariant established; reading a block through the cache is reading the disk.
\<close>

theorem binit_correct:
  assumes "running s i" "i < 64" "lock_free Vdisk_lock (sync s)" "vd_idle (md s)" "bfresh (bufs s)" "D \<noteq> 0"
    "\<forall>b\<ge>NBUF. lock_free (Buf_lk b) (sync s)"
  shows "\<exists>t. binit s = Ok () t \<and> bst D t i {} {} \<and> lru (bufs t) (rev [0..<NBUF]) \<and> blk D t = medium s \<and> medium t = medium s"
proof -
  have "i < NPROC" using assms(2) by (simp add: NPROC_def)
  from binit_ok [OF assms(1) this assms(3-7)] show ?thesis by metis
qed

theorem binit_correct_witness: "\<exists>t. binit demo_boot = Ok () t \<and> bst 1 t 0 {} {} \<and> lru (bufs t) (rev [0..<NBUF])"
proof -
  have "\<exists>t. binit demo_boot = Ok () t \<and> bst 1 t 0 {} {} \<and> lru (bufs t) (rev [0..<NBUF]) \<and> blk 1 t = medium demo_boot \<and> medium t = medium demo_boot"
    by (rule binit_correct) (use demo_boot_ready in simp_all)
  then show ?thesis by blast
qed

text \<open>
  C4: The cache is transparent. While a process holds the buffers \<open>H\<close> and the blocks \<open>Q\<close> are pinned, with a buffer to
  spare, \<open>bread\<close> of a block it does not hold returns a locked buffer with the current contents of that block (the
  cached copy, or the disk), and no block changes its contents, whichever buffer had to be recycled. A
  \<open>bwrite\<close> puts the held buffer's contents on the disk, and a \<open>brelse\<close> of a buffer that is pinned or written keeps every block.
\<close>

theorem bcache_transparent:
  assumes "block_driver rw" "bst D s i H Q" "\<forall>b\<in>H. blockno (bufs s b) \<noteq> bn" "card H + card Q < NBUF" "bn < 2 ^ 31"
  shows "\<exists>b t u v. bread rw D bn s = Ok b t \<and> bst D t i (insert b H) Q \<and> b \<notin> H \<and> blockno (bufs t b) = bn \<and>
      bdata (bufs t b) = blk D s bn \<and> blk D t = blk D s \<and> medium t = medium s \<and>
      bwrite rw b t = Ok () u \<and> blk D u = blk D s \<and> medium u = (medium s)(bn := blk D s bn) \<and>
      brelse b u = Ok () v \<and> bst D v i H Q \<and> blk D v = blk D s"
proof -
  obtain b t where t: "bread rw D bn s = Ok b t" "bst D t i (insert b H) Q" "b \<notin> H" "blockno (bufs t b) = bn"
    "bdata (bufs t b) = blk D s bn" "blk D t = blk D s" "medium t = medium s"
    using block_driver.bread_ok [OF assms] by metis
  obtain u where u: "bwrite rw b t = Ok () u" "bst D u i (insert b H) Q" "blk D u = blk D t"
    "medium u = (medium t)(blockno (bufs t b) := bdata (bufs t b))"
    "\<forall>c. blockno (bufs u c) = blockno (bufs t c) \<and> bdata (bufs u c) = bdata (bufs t c)"
    using block_driver.bwrite_ok [OF assms(1) t(2), of b] by (metis insertI1)
  have "bdata (bufs u b) = medium u (blockno (bufs u b))" using u(4,5) by simp
  then obtain v where v: "brelse b u = Ok () v" "bst D v i (insert b H - {b}) Q" "blk D v = blk D u"
    using brelse_ok [OF u(2), of b] by (metis insertI1)
  have "insert b H - {b} = H" using t(3) by simp
  then show ?thesis using t u v by (intro exI [of _ b] exI [of _ t] exI [of _ u] exI [of _ v]) simp
qed

theorem bcache_transparent_witness:
  "\<exists>(s :: kdisk) b t. bst 1 s 0 {} {} \<and> bread (disk_rw (\<lambda>_ _. 0) blk_device) 1 5 s = Ok b t \<and> bdata (bufs t b) = replicate 1024 0"
proof -
  obtain s :: kdisk where s: "bst 1 s 0 {} {}" "blk 1 s = (\<lambda>_. replicate 1024 0)" by (rule demo_booted) blast
  have "block_driver (disk_rw (\<lambda>_ _. 0) (blk_device :: kdisk \<Rightarrow> kdisk))" by (rule vdisk.vrw.block_driver_axioms)
  from bcache_transparent [OF this s(1), of 5] s show ?thesis by (auto simp: NBUF_def)
qed

end
