(* ===== verification/Bytes.thy ===== *)
theory Bytes
  imports Prelude
begin

text \<open>
  Little-endian 16-bit and 32-bit fields in the bytes of a block, as the kernel reads and writes them through a
  pointer to a structure that overlays \<open>b->data\<close>: the log header, the superblock, inodes, indirect blocks and directory
  entries. \<open>put32 k w bs\<close> leaves every byte outside \<open>k ..< k + 4\<close> alone.
\<close>

named_theorems byte_simps \<open>reading fields of a byte list after writing them\<close>

definition get16 :: "nat \<Rightarrow> byte list \<Rightarrow> uint16" where
  "get16 k bs = ucast (bs ! k) OR push_bit 8 (ucast (bs ! (k + 1)))"

definition get32 :: "nat \<Rightarrow> byte list \<Rightarrow> uint" where
  "get32 k bs = ucast (bs ! k) OR push_bit 8 (ucast (bs ! (k + 1))) OR push_bit 16 (ucast (bs ! (k + 2))) OR
     push_bit 24 (ucast (bs ! (k + 3)))"

definition put16 :: "nat \<Rightarrow> uint16 \<Rightarrow> byte list \<Rightarrow> byte list" where
  "put16 k w bs = bs[k := ucast w, k + 1 := ucast (drop_bit 8 w)]"

definition put32 :: "nat \<Rightarrow> uint \<Rightarrow> byte list \<Rightarrow> byte list" where
  "put32 k w bs = bs[k := ucast w, k + 1 := ucast (drop_bit 8 w), k + 2 := ucast (drop_bit 16 w), k + 3 := ucast (drop_bit 24 w)]"

lemma put_length [simp]: "length (put16 k v bs) = length bs" "length (put32 k w bs) = length bs"
  by (simp_all add: put16_def put32_def)

lemma get16_put16 [byte_simps]:
  assumes "k + 2 \<le> length bs"
  shows "get16 k (put16 k w bs) = w"
proof (rule bit_word_eqI)
  fix n assume n: "n < LENGTH(16)"
  then have "n < 8 \<or> 8 \<le> n \<and> n < 16" by auto
  then show "bit (get16 k (put16 k w bs)) n = bit w n"
    using assms by (auto simp: get16_def put16_def bit_simps)
qed

lemma get32_put32 [byte_simps]:
  assumes "k + 4 \<le> length bs"
  shows "get32 k (put32 k w bs) = w"
proof (rule bit_word_eqI)
  fix n assume n: "n < LENGTH(32)"
  then have "n < 8 \<or> 8 \<le> n \<and> n < 16 \<or> 16 \<le> n \<and> n < 24 \<or> 24 \<le> n \<and> n < 32" by auto
  then show "bit (get32 k (put32 k w bs)) n = bit w n"
    using assms by (auto simp: get32_def put32_def bit_simps)
qed

lemma put16_nth: "i < k \<or> k + 2 \<le> i \<Longrightarrow> put16 k w bs ! i = bs ! i"
  by (auto simp: put16_def)

lemma put32_nth: "i < k \<or> k + 4 \<le> i \<Longrightarrow> put32 k w bs ! i = bs ! i"
  by (auto simp: put32_def)

lemma get_put_other [byte_simps]:
  "j + 2 \<le> k \<or> k + 2 \<le> j \<Longrightarrow> get16 j (put16 k v bs) = get16 j bs"
  "j + 2 \<le> k \<or> k + 4 \<le> j \<Longrightarrow> get16 j (put32 k w bs) = get16 j bs"
  "j + 4 \<le> k \<or> k + 2 \<le> j \<Longrightarrow> get32 j (put16 k v bs) = get32 j bs"
  "j + 4 \<le> k \<or> k + 4 \<le> j \<Longrightarrow> get32 j (put32 k w bs) = get32 j bs"
  by (auto simp: get16_def get32_def put16_nth put32_nth)

text \<open>An array of 32-bit fields from offset \<open>k\<close>.\<close>

fun puts32 :: "nat \<Rightarrow> uint list \<Rightarrow> byte list \<Rightarrow> byte list" where
  "puts32 k [] bs = bs"
| "puts32 k (w # ws) bs = puts32 (k + 4) ws (put32 k w bs)"

lemma puts32_length [simp]: "length (puts32 k ws bs) = length bs"
  by (induction ws arbitrary: k bs) auto

lemma puts32_below [byte_simps]: "j + 4 \<le> k \<Longrightarrow> get32 j (puts32 k ws bs) = get32 j bs"
  by (induction ws arbitrary: k bs) (auto simp: byte_simps)

lemma puts32_at:
  "i < length ws \<Longrightarrow> k + 4 * length ws \<le> length bs \<Longrightarrow> get32 (k + 4 * i) (puts32 k ws bs) = ws ! i"
proof (induction ws arbitrary: k bs i)
  case (Cons w ws)
  show ?case
  proof (cases i)
    case 0
    then show ?thesis using Cons.prems by (simp add: byte_simps)
  next
    case (Suc j)
    have "get32 (k + 4 + 4 * j) (puts32 (k + 4) ws (put32 k w bs)) = ws ! j"
      by (rule Cons.IH) (use Cons.prems Suc in simp_all)
    then show ?thesis using Suc by (simp add: add.assoc)
  qed
qed simp

end
