(* ===== verification/Log.thy ===== *)
theory Log
  imports Bio Bytes
begin

text \<open>
  The log layer, \<^verbatim>\<open>kernel/src/log.c\<close>. The record \<open>log\<close> is \<open>struct log\<close> with its header \<open>loghead\<close>; block numbers are the
  32-bit patterns the code compares and passes on, counters are integers. The on-disk header is the structure
  overlaid on the header block: \<open>n\<close> at offset 0, \<open>block[k]\<close> at offset \<open>4 + 4 * k\<close>.

  Routines that reach the disk take the driver \<open>rw\<close> (theory Bio). \<open>begin_op\<close> that has to wait gives up the
  processor; the process continues with \<open>begin_op_resume\<close>.

  Results: the writes of \<open>commit\<close> in their order, what \<open>recover_from_log\<close> makes of a disk, and crash safety: recovery
  after any prefix of a commit's writes gives all of the transaction or nothing of it.
\<close>

section \<open>State and operations\<close>

definition MAXOPBLOCKS :: nat where "MAXOPBLOCKS = 10"
definition LOGBLOCKS :: nat where "LOGBLOCKS = 30"

record superblock =
  sb_magic :: uint
  sb_size :: uint
  sb_nblocks :: uint
  sb_ninodes :: uint
  sb_nlog :: uint
  sb_logstart :: uint
  sb_inodestart :: uint
  sb_bmapstart :: uint

record loghead =
  lh_n :: int
  lh_block :: "nat \<Rightarrow> uint"

record log =
  l_start :: uint
  l_size :: int
  outstanding :: int
  comitting :: bool
  l_dev :: uint
  lh :: loghead

record logst = kdisk +
  lg :: log

type_synonym 'z driver = "nat \<Rightarrow> bool \<Rightarrow> ('z logst_scheme, unit) km"

definition get_log :: "('z logst_scheme, log) km" where
  "get_log = gets lg"

definition set_log :: "(log \<Rightarrow> log) \<Rightarrow> ('z logst_scheme, unit) km" where
  "set_log f = modify (\<lambda>s. s\<lparr>lg := f (lg s)\<rparr>)"

definition set_lh_n :: "int \<Rightarrow> log \<Rightarrow> log" where
  "set_lh_n n L = L\<lparr>lh := (lh L)\<lparr>lh_n := n\<rparr>\<rparr>"

definition set_lh_block :: "nat \<Rightarrow> uint \<Rightarrow> log \<Rightarrow> log" where
  "set_lh_block i b L = L\<lparr>lh := (lh L)\<lparr>lh_block := (lh_block (lh L))(i := b)\<rparr>\<rparr>"

text \<open>The loop that copies the block numbers of the header block into \<open>log.lh\<close>.\<close>

fun read_blocks :: "byte list \<Rightarrow> nat \<Rightarrow> nat \<Rightarrow> log \<Rightarrow> log" where
  "read_blocks d i 0 L = L"
| "read_blocks d i (Suc k) L = read_blocks d (Suc i) k (set_lh_block i (get32 (4 + 4 * i) d) L)"

definition read_head :: "'z driver \<Rightarrow> ('z logst_scheme, unit) km" where
  "read_head rw =
     bnd get_log (\<lambda>L.
     bnd (bread rw (l_dev L) (l_start L)) (\<lambda>b.
     bnd (bload b) (\<lambda>d.
     seq (set_log (\<lambda>L. read_blocks d 0 (nat (sint (get32 0 d))) (set_lh_n (sint (get32 0 d)) L))) (
     brelse b))))"

definition put_head :: "loghead \<Rightarrow> byte list \<Rightarrow> byte list" where
  "put_head h d = puts32 4 (map (lh_block h) [0..<nat (lh_n h)]) (put32 0 (word_of_int (lh_n h)) d)"

definition write_head :: "'z driver \<Rightarrow> ('z logst_scheme, unit) km" where
  "write_head rw =
     bnd get_log (\<lambda>L.
     bnd (bread rw (l_dev L) (l_start L)) (\<lambda>b.
     bnd (bload b) (\<lambda>d.
     seq (bstore b (put_head (lh L) d)) (
     seq (bwrite rw b) (
     brelse b)))))"

fun install_loop :: "'z driver \<Rightarrow> bool \<Rightarrow> nat \<Rightarrow> nat \<Rightarrow> ('z logst_scheme, unit) km" where
  "install_loop rw is_recover tail 0 = ret ()"
| "install_loop rw is_recover tail (Suc k) =
     seq (bnd get_log (\<lambda>L.
       bnd (bread rw (l_dev L) (l_start L + of_nat tail + 1)) (\<lambda>lbuf.
       bnd (bread rw (l_dev L) (lh_block (lh L) tail)) (\<lambda>dbuf.
       bnd (bload lbuf) (\<lambda>x.
       seq (bstore dbuf x) (
       seq (bwrite rw dbuf) (
       seq (whenM (\<not> is_recover) (bunpin dbuf)) (
       seq (brelse lbuf) (
       brelse dbuf))))))))) (
     install_loop rw is_recover (Suc tail) k)"

definition install_trans :: "'z driver \<Rightarrow> bool \<Rightarrow> ('z logst_scheme, unit) km" where
  "install_trans rw is_recover = bnd get_log (\<lambda>L. install_loop rw is_recover 0 (nat (lh_n (lh L))))"

definition recover_from_log :: "'z driver \<Rightarrow> ('z logst_scheme, unit) km" where
  "recover_from_log rw =
     seq (read_head rw) (
     seq (install_trans rw True) (
     seq (set_log (set_lh_n 0)) (
     write_head rw)))"

definition initlog :: "'z driver \<Rightarrow> uint \<Rightarrow> superblock \<Rightarrow> ('z logst_scheme, unit) km" where
  "initlog rw dev sb =
     (if 4 + 4 * LOGBLOCKS \<ge> BSIZE then panic ''initlog error: too bog loghead''
      else seq (initlock Log_lock ''log'') (
           seq (set_log (\<lambda>L. L\<lparr>l_start := sb_logstart sb, l_size := sint (sb_nblocks sb), l_dev := dev\<rparr>)) (
           recover_from_log rw)))"

fun log_find :: "loghead \<Rightarrow> uint \<Rightarrow> nat \<Rightarrow> nat \<Rightarrow> nat" where
  "log_find h bn i 0 = i"
| "log_find h bn i (Suc k) = (if lh_block h i = bn then i else log_find h bn (Suc i) k)"

definition log_write :: "nat \<Rightarrow> ('z logst_scheme, unit) km" where
  "log_write b =
     seq (acquire Log_lock) (
     bnd get_log (\<lambda>L.
     if lh_n (lh L) \<ge> int LOGBLOCKS \<or> lh_n (lh L) \<ge> l_size L - 1 then panic ''too big to transact''
     else if outstanding L < 1 then panic ''log_write outside of trans''
     else bnd (get_buf b) (\<lambda>k.
       let i = log_find (lh L) (blockno k) 0 (nat (lh_n (lh L)))
       in seq (set_log (set_lh_block i (blockno k))) (
          seq (whenM (int i = lh_n (lh L)) (seq (bpin b) (set_log (\<lambda>L. set_lh_n (lh_n (lh L) + 1) L)))) (
          release Log_lock)))))"

definition begin_op_loop :: "('z logst_scheme, unit) km" where
  "begin_op_loop =
     bnd get_log (\<lambda>L.
     if comitting L then sleep Log_chan Log_lock
     else if lh_n (lh L) + (outstanding L + 1) * int MAXOPBLOCKS > int LOGBLOCKS then sleep Log_chan Log_lock
     else seq (set_log (\<lambda>L. L\<lparr>outstanding := outstanding L + 1\<rparr>)) (release Log_lock))"

definition begin_op :: "('z logst_scheme, unit) km" where
  "begin_op = seq (acquire Log_lock) begin_op_loop"

definition begin_op_resume :: "nat \<Rightarrow> bool \<Rightarrow> ('z logst_scheme, unit) km" where
  "begin_op_resume i intr_enabled = seq (sleep_resume i intr_enabled Log_lock) begin_op_loop"

fun write_log_loop :: "'z driver \<Rightarrow> nat \<Rightarrow> nat \<Rightarrow> ('z logst_scheme, unit) km" where
  "write_log_loop rw tail 0 = ret ()"
| "write_log_loop rw tail (Suc k) =
     seq (bnd get_log (\<lambda>L.
       bnd (bread rw (l_dev L) (l_start L + of_nat tail + 1)) (\<lambda>to.
       bnd (bread rw (l_dev L) (lh_block (lh L) tail)) (\<lambda>from.
       bnd (bload from) (\<lambda>x.
       seq (bstore to x) (
       seq (bwrite rw to) (
       seq (brelse from) (
       brelse to)))))))) (
     write_log_loop rw (Suc tail) k)"

definition write_log :: "'z driver \<Rightarrow> ('z logst_scheme, unit) km" where
  "write_log rw = bnd get_log (\<lambda>L. write_log_loop rw 0 (nat (lh_n (lh L))))"

definition commit :: "'z driver \<Rightarrow> ('z logst_scheme, unit) km" where
  "commit rw =
     bnd get_log (\<lambda>L.
     whenM (lh_n (lh L) > 0) (
       seq (write_log rw) (
       seq (write_head rw) (
       seq (install_trans rw False) (
       seq (set_log (set_lh_n 0)) (
       write_head rw))))))"

definition end_op :: "'z driver \<Rightarrow> ('z logst_scheme, unit) km" where
  "end_op rw =
     seq (acquire Log_lock) (
     seq (set_log (\<lambda>L. L\<lparr>outstanding := outstanding L - 1\<rparr>)) (
     bnd get_log (\<lambda>L.
     if comitting L then panic ''log.comitting''
     else bnd (if outstanding L = 0 then seq (set_log (\<lambda>L. L\<lparr>comitting := True\<rparr>)) (ret True)
               else seq (wakeup Log_chan) (ret False)) (\<lambda>do_commit.
       seq (release Log_lock) (
       whenM do_commit (
         seq (commit rw) (
         seq (acquire Log_lock) (
         seq (set_log (\<lambda>L. L\<lparr>comitting := False\<rparr>)) (
         seq (wakeup Log_chan) (
         release Log_lock))))))))))"

section \<open>Running the routines\<close>

lemma log_ops_run [simp]:
  "get_log s = Ok (lg s) s" "set_log f s = Ok () (s\<lparr>lg := f (lg s)\<rparr>)"
  by (simp_all add: get_log_def set_log_def)

lemma logst_upd_order [simp]:
  "(s :: 'z logst_scheme)\<lparr>lg := x, sync := y\<rparr> = s\<lparr>sync := y, lg := x\<rparr>" "s\<lparr>lg := x, procs := p\<rparr> = s\<lparr>procs := p, lg := x\<rparr>"
  "s\<lparr>lg := x, sleeplocks := sl\<rparr> = s\<lparr>sleeplocks := sl, lg := x\<rparr>" "s\<lparr>lg := x, bufs := bf\<rparr> = s\<lparr>bufs := bf, lg := x\<rparr>"
  "s\<lparr>lg := x, md := m\<rparr> = s\<lparr>md := m, lg := x\<rparr>" "s\<lparr>lg := x, medium := d\<rparr> = s\<lparr>medium := d, lg := x\<rparr>"
  "s\<lparr>lg := x, dwrites := w\<rparr> = s\<lparr>dwrites := w, lg := x\<rparr>"
  by simp_all

lemma wp_log:
  "wp (bnd get_log f) P s = wp (f (lg s)) P s"
  "wp (seq (bnd get_log f) n) R s = wp (f (lg s)) (\<lambda>_. wp n R) s"
  by (simp_all add: wp_bnd wp_seq) (simp_all add: wp_def)

lemma wp_set_log: "wp (set_log f) P s = P () (s\<lparr>lg := f (lg s)\<rparr>)"
  by (simp add: wp_def)

lemma lg_upd [simp]:
  "running ((s :: 'z logst_scheme)\<lparr>lg := x\<rparr>) i = running s i" "cur (s\<lparr>lg := x\<rparr>) = cur s"
  "blk D (s\<lparr>lg := x\<rparr>) = blk D s" "bst D (s\<lparr>lg := x\<rparr>) i H Q = bst D s i H Q"
proof -
  show "running (s\<lparr>lg := x\<rparr>) i = running s i" "cur (s\<lparr>lg := x\<rparr>) = cur s" "bst D (s\<lparr>lg := x\<rparr>) i H Q = bst D s i H Q"
    by (simp_all add: running_def cur_def bst_def binv_def bheld_def)
  show "blk D (s\<lparr>lg := x\<rparr>) = blk D s" by (rule blk_same) simp_all
qed

lemma bframe_lg: "bframe s t \<Longrightarrow> lg (t :: 'z logst_scheme) = lg s"
  unfolding bframe_def by (elim conjE, drule arg_cong [of _ _ lg]) simp

lemma bframe_lg_upd: "bframe s t \<Longrightarrow> bframe (s\<lparr>lg := a\<rparr>) ((t :: 'z logst_scheme)\<lparr>lg := a\<rparr>)"
  unfolding bframe_def by (elim conjE, drule arg_cong [of _ _ "\<lambda>x. x\<lparr>lg := a\<rparr>"]) simp

lemma set_lh_simps [simp]:
  "lh_n (lh (set_lh_n n L)) = n" "lh_block (lh (set_lh_n n L)) = lh_block (lh L)" "l_start (set_lh_n n L) = l_start L"
  "l_dev (set_lh_n n L) = l_dev L" "l_size (set_lh_n n L) = l_size L" "outstanding (set_lh_n n L) = outstanding L"
  "lh_n (lh (set_lh_block i b L)) = lh_n (lh L)" "l_start (set_lh_block i b L) = l_start L" "l_dev (set_lh_block i b L) = l_dev L"
  "l_size (set_lh_block i b L) = l_size L" "outstanding (set_lh_block i b L) = outstanding L"
  "comitting (set_lh_n n L) = comitting L" "comitting (set_lh_block i b L) = comitting L"
  "lh_block (lh (set_lh_block i b L)) = (lh_block (lh L))(i := b)"
  by (simp_all add: set_lh_n_def set_lh_block_def)

text \<open>The disk after a sequence of block writes.\<close>

definition writes :: "(uint \<times> byte list) list \<Rightarrow> (uint \<Rightarrow> byte list) \<Rightarrow> uint \<Rightarrow> byte list" where
  "writes ws d = foldl (\<lambda>d (n, x). d(n := x)) d ws"

lemma writes_simps [simp]:
  "writes [] d = d" "writes ((n, x) # ws) d = writes ws (d(n := x))" "writes (ws @ vs) d = writes vs (writes ws d)"
  by (simp_all add: writes_def)

lemma writes_other: "n \<notin> fst ` set ws \<Longrightarrow> writes ws d n = d n"
  by (induction ws arbitrary: d) (auto simp: writes_def)

lemma writes_at:
  assumes "distinct (map a ks)" "k \<in> set ks"
  shows "writes (map (\<lambda>j. (a j, f j)) ks) d (a k) = f k"
  using assms
proof (induction ks arbitrary: d)
  case (Cons j ks)
  show ?case
  proof (cases "k \<in> set ks")
    case False
    then have "k = j" "a j \<notin> fst ` set (map (\<lambda>j. (a j, f j)) ks)" using Cons.prems by (auto simp: image_image)
    then show ?thesis using writes_other [of "a j" "map (\<lambda>j. (a j, f j)) ks"] by simp
  qed (use Cons in simp)
qed simp

text \<open>The log region of the disk: the header block and its data blocks.\<close>

definition lblock :: "uint \<Rightarrow> nat \<Rightarrow> uint" where
  "lblock st k = st + of_nat k"

definition log_region :: "uint \<Rightarrow> uint set" where
  "log_region st = lblock st ` {..LOGBLOCKS}"

definition region_ok :: "uint \<Rightarrow> bool" where
  "region_ok st \<longleftrightarrow> unat st + LOGBLOCKS < 2 ^ 31"

lemma lblock_unat: "region_ok st \<Longrightarrow> k \<le> LOGBLOCKS \<Longrightarrow> unat (lblock st k) = unat st + k"
proof -
  assume a: "region_ok st" "k \<le> LOGBLOCKS"
  then have k: "unat (of_nat k :: uint) = k" "unat st + k < 2 ^ 32" by (simp_all add: region_ok_def LOGBLOCKS_def unat_of_nat)
  have "unat (st + of_nat k) = (unat st + k) mod 2 ^ 32" unfolding unat_word_ariths k(1) by simp
  then show ?thesis using k(2) by (simp add: lblock_def)
qed

lemma lblock_less: "region_ok st \<Longrightarrow> k \<le> LOGBLOCKS \<Longrightarrow> lblock st k < 2 ^ 31"
proof -
  assume a: "region_ok st" "k \<le> LOGBLOCKS"
  have "unat (lblock st k) \<le> unat st + LOGBLOCKS" unfolding lblock_unat [OF a] using a(2) by simp
  also have "\<dots> < 2 ^ 31" using a(1) unfolding region_ok_def .
  finally show ?thesis by (simp add: word_less_nat_alt)
qed

lemma lblock_inj: "region_ok st \<Longrightarrow> j \<le> LOGBLOCKS \<Longrightarrow> k \<le> LOGBLOCKS \<Longrightarrow> lblock st j = lblock st k \<Longrightarrow> j = k"
  by (metis add_left_cancel lblock_unat)

lemma lblock_0 [simp]: "lblock st 0 = st"
  by (simp add: lblock_def)

lemma lblock_Suc: "st + of_nat k + 1 = lblock st (Suc k)"
  by (simp add: lblock_def)

lemma lblock_in [simp, intro]: "k \<le> LOGBLOCKS \<Longrightarrow> lblock st k \<in> log_region st"
  by (simp add: log_region_def)

text \<open>A transaction: at most \<open>LOGBLOCKS\<close> distinct home blocks outside the log region.\<close>

definition trans_ok :: "log \<Rightarrow> nat \<Rightarrow> bool" where
  "trans_ok L n \<longleftrightarrow> lh_n (lh L) = int n \<and> n \<le> LOGBLOCKS \<and> region_ok (l_start L) \<and>
     (\<forall>j<n. lh_block (lh L) j < 2 ^ 31 \<and> lh_block (lh L) j \<notin> log_region (l_start L)) \<and> inj_on (lh_block (lh L)) {..<n}"

definition log_writes :: "log \<Rightarrow> (uint \<Rightarrow> byte list) \<Rightarrow> nat list \<Rightarrow> (uint \<times> byte list) list" where
  "log_writes L v ks = map (\<lambda>j. (lblock (l_start L) (Suc j), v (lh_block (lh L) j))) ks"

definition home_writes :: "log \<Rightarrow> (uint \<Rightarrow> byte list) \<Rightarrow> nat list \<Rightarrow> (uint \<times> byte list) list" where
  "home_writes L v ks = map (\<lambda>j. (lh_block (lh L) j, v (lblock (l_start L) (Suc j)))) ks"

locale log_disk = block_driver rw for rw :: "'z driver"
begin

lemma write_log_loop_ok:
  assumes "bst D s i {} Q" "card Q + 1 < NBUF" "trans_ok (lg s) n" "l_dev (lg s) = D" "tail + k \<le> n"
  shows "wp (write_log_loop rw tail k) (\<lambda>_ t. bst D t i {} Q \<and> bframe s t \<and>
    dwrites t = dwrites s @ log_writes (lg s) (blk D s) [tail..<tail + k] \<and>
    medium t = writes (log_writes (lg s) (blk D s) [tail..<tail + k]) (medium s) \<and>
    blk D t = writes (log_writes (lg s) (blk D s) [tail..<tail + k]) (blk D s)) s"
  using assms
proof (induction k arbitrary: tail s)
  case 0
  then show ?case by (simp add: wp_Ok log_writes_def)
next
  case (Suc k)
  let ?L = "lg s" let ?m = "lblock (l_start ?L) (Suc tail)" let ?h = "lh_block (lh ?L) tail"
  have n: "tail < n" "Suc tail \<le> LOGBLOCKS" "region_ok (l_start ?L)" "?h < 2 ^ 31" "?h \<notin> log_region (l_start ?L)"
    using Suc.prems(3,5) by (auto simp: trans_ok_def)
  have mh: "?m \<noteq> ?h" "?m < 2 ^ 31" using n(5) lblock_in [OF n(2), of "l_start ?L"] lblock_less [OF n(3,2)] by auto
  have body: "wp (bnd (bread rw D ?m) (\<lambda>to. bnd (bread rw D ?h) (\<lambda>from. bnd (bload from) (\<lambda>x. seq (bstore to x) (seq (bwrite rw to)
      (seq (brelse from) (brelse to)))))))
    (\<lambda>_ t. bst D t i {} Q \<and> blk D t = (blk D s)(?m := blk D s ?h) \<and> medium t = (medium s)(?m := blk D s ?h) \<and>
      dwrites t = dwrites s @ [(?m, blk D s ?h)] \<and> bframe s t) s"
    by (rule bc.copy_write) (use Suc.prems mh n in auto)
  show ?case
    unfolding write_log_loop.simps wp_log lblock_Suc Suc.prems(4)
  proof (rule wp_mono [OF body], goal_cases)
    case (1 a t)
    then have t: "lg t = ?L" "blk D t = (blk D s)(?m := blk D s ?h)" using bframe_lg by blast+
    have same: "log_writes ?L (blk D t) [Suc tail..<Suc tail + k] = log_writes ?L (blk D s) [Suc tail..<Suc tail + k]"
    proof -
      have "lh_block (lh ?L) j \<noteq> ?m" if "j < n" for j
        using Suc.prems(3) that lblock_in [OF n(2), of "l_start ?L"] by (metis trans_ok_def)
      then show ?thesis using Suc.prems(5) by (auto simp: log_writes_def t(2))
    qed
    have up: "[tail..<Suc (tail + k)] = tail # [Suc tail..<Suc (tail + k)]" by (simp add: upt_conv_Cons)
    have "wp (write_log_loop rw (Suc tail) k) (\<lambda>_ u. bst D u i {} Q \<and> bframe t u \<and>
      dwrites u = dwrites t @ log_writes (lg t) (blk D t) [Suc tail..<Suc tail + k] \<and>
      medium u = writes (log_writes (lg t) (blk D t) [Suc tail..<Suc tail + k]) (medium t) \<and>
      blk D u = writes (log_writes (lg t) (blk D t) [Suc tail..<Suc tail + k]) (blk D t)) t"
      by (rule Suc.IH) (use Suc.prems 1 t in auto)
    then show ?case unfolding t(1) same
      by (rule wp_mono) (use 1 t(2) bframe_trans in \<open>auto simp: up log_writes_def simp del: upt_Suc\<close>)
  qed
qed

end

context log_disk
begin

lemma install_loop_ok:
  assumes "bst D s i {} Q" "card Q + 1 < NBUF" "trans_ok (lg s) n" "l_dev (lg s) = D" "tail + k \<le> n"
    "\<not> r \<longrightarrow> lh_block (lh (lg s)) ` {tail..<tail + k} \<subseteq> Q"
  shows "wp (install_loop rw r tail k) (\<lambda>_ t. bst D t i {} (if r then Q else Q - lh_block (lh (lg s)) ` {tail..<tail + k}) \<and> bframe s t \<and>
    dwrites t = dwrites s @ home_writes (lg s) (blk D s) [tail..<tail + k] \<and>
    medium t = writes (home_writes (lg s) (blk D s) [tail..<tail + k]) (medium s) \<and>
    blk D t = writes (home_writes (lg s) (blk D s) [tail..<tail + k]) (blk D s)) s"
  using assms
proof (induction k arbitrary: tail s Q)
  case 0
  then show ?case by (cases r) (simp_all add: wp_Ok home_writes_def)
next
  case (Suc k)
  let ?L = "lg s" let ?m = "lblock (l_start ?L) (Suc tail)" let ?h = "lh_block (lh ?L) tail"
  let ?Q = "if \<not> r then Q - {?h} else Q"
  have n: "tail < n" "Suc tail \<le> LOGBLOCKS" "region_ok (l_start ?L)" "?h < 2 ^ 31" "?h \<notin> log_region (l_start ?L)"
    and inj: "inj_on (lh_block (lh ?L)) {..<n}"
    using Suc.prems(3,5) by (auto simp: trans_ok_def)
  have mh: "?m \<noteq> ?h" "?m < 2 ^ 31" using n(5) lblock_in [OF n(2), of "l_start ?L"] lblock_less [OF n(3,2)] by auto
  have body: "wp (bnd (bread rw D ?m) (\<lambda>lbuf. bnd (bread rw D ?h) (\<lambda>dbuf. bnd (bload lbuf) (\<lambda>x. seq (bstore dbuf x) (seq (bwrite rw dbuf)
      (seq (whenM (\<not> r) (bunpin dbuf)) (seq (brelse lbuf) (brelse dbuf))))))))
    (\<lambda>_ t. bst D t i {} ?Q \<and> blk D t = (blk D s)(?h := blk D s ?m) \<and> medium t = (medium s)(?h := blk D s ?m) \<and>
      dwrites t = dwrites s @ [(?h, blk D s ?m)] \<and> bframe s t) s"
    by (rule bc.install_write) (use Suc.prems mh n in auto)
  show ?case
    unfolding install_loop.simps wp_log lblock_Suc Suc.prems(4)
  proof (rule wp_mono [OF body], goal_cases)
    case (1 a t)
    then have t: "lg t = ?L" "blk D t = (blk D s)(?h := blk D s ?m)" using bframe_lg by blast+
    have same: "home_writes ?L (blk D t) [Suc tail..<Suc tail + k] = home_writes ?L (blk D s) [Suc tail..<Suc tail + k]"
    proof -
      have "lblock (l_start ?L) (Suc j) \<noteq> ?h" if "j < n" for j
      proof -
        have "lblock (l_start ?L) (Suc j) \<in> log_region (l_start ?L)" using Suc.prems(3) that by (intro lblock_in) (simp add: trans_ok_def)
        then show ?thesis using n(5) by metis
      qed
      then show ?thesis using Suc.prems(5) by (auto simp: home_writes_def t(2))
    qed
    have up: "[tail..<Suc (tail + k)] = tail # [Suc tail..<Suc (tail + k)]" by (simp add: upt_conv_Cons)
    have img: "{tail..<Suc (tail + k)} = insert tail {Suc tail..<Suc (tail + k)}" by auto
    have hn: "?h \<notin> lh_block (lh ?L) ` {Suc tail..<Suc (tail + k)}"
    proof
      assume "?h \<in> lh_block (lh ?L) ` {Suc tail..<Suc (tail + k)}"
      then obtain j where "?h = lh_block (lh ?L) j" "Suc tail \<le> j" "j < Suc (tail + k)" by auto
      then show False using inj_onD [OF inj, of tail j] n(1) Suc.prems(5) by auto
    qed
    have "finite Q" using binv_fin Suc.prems(1) bst_def by blast
    then have c: "card ?Q + 1 < NBUF" using card_mono [of Q "Q - {?h}"] Suc.prems(2) by auto
    have "wp (install_loop rw r (Suc tail) k) (\<lambda>_ u. bst D u i {} (if r then ?Q else ?Q - lh_block (lh (lg t)) ` {Suc tail..<Suc tail + k}) \<and> bframe t u \<and>
      dwrites u = dwrites t @ home_writes (lg t) (blk D t) [Suc tail..<Suc tail + k] \<and>
      medium u = writes (home_writes (lg t) (blk D t) [Suc tail..<Suc tail + k]) (medium t) \<and>
      blk D u = writes (home_writes (lg t) (blk D t) [Suc tail..<Suc tail + k]) (blk D t)) t"
    proof (rule Suc.IH)
      show "\<not> r \<longrightarrow> lh_block (lh (lg t)) ` {Suc tail..<Suc tail + k} \<subseteq> ?Q"
        using Suc.prems(6) hn by (simp add: img t(1) subset_Diff_insert)
    qed (use Suc.prems 1 t c in auto)
    then show ?case unfolding t(1) same
    proof (rule wp_mono, goal_cases)
      case (1 _ u)
      have "(if r then Q else Q - lh_block (lh ?L) ` {tail..<tail + Suc k}) = (if r then ?Q else ?Q - lh_block (lh ?L) ` {Suc tail..<Suc tail + k})"
        by (auto simp: img)
      then show ?case using 1 \<open>bst D t i {} ?Q \<and> _\<close> t(2) bframe_trans [of s t u]
        by (simp add: up home_writes_def del: upt_Suc)
    qed
  qed
qed

end

lemma read_blocks_simps [simp]:
  "lh_n (lh (read_blocks d i k L)) = lh_n (lh L)" "l_start (read_blocks d i k L) = l_start L" "l_dev (read_blocks d i k L) = l_dev L"
  "lh_block (lh (read_blocks d i k L)) j = (if i \<le> j \<and> j < i + k then get32 (4 + 4 * j) d else lh_block (lh L) j)"
  by (induction k arbitrary: i L) auto

lemma put_head_n:
  assumes "lh_n h = int n" "n \<le> LOGBLOCKS" "length d = BSIZE"
  shows "sint (get32 0 (put_head h d)) = int n" "j < n \<Longrightarrow> get32 (4 + 4 * j) (put_head h d) = lh_block h j"
    "length (put_head h d) = BSIZE"
proof -
  have "get32 0 (put_head h d) = word_of_int (int n)" using assms by (simp add: put_head_def byte_simps BSIZE_def)
  moreover have "sint (word_of_int (int n) :: uint) = int n"
    unfolding sint_sbintrunc' by (rule signed_take_bit_int_eq_self) (use assms(2) in \<open>simp_all add: LOGBLOCKS_def\<close>)
  ultimately show "sint (get32 0 (put_head h d)) = int n" by simp
  show "j < n \<Longrightarrow> get32 (4 + 4 * j) (put_head h d) = lh_block h j"
    using assms puts32_at [of j "map (lh_block h) [0..<n]" 4 "put32 0 (word_of_int (int n)) d"]
    by (simp add: put_head_def BSIZE_def LOGBLOCKS_def)
  show "length (put_head h d) = BSIZE" using assms by (simp add: put_head_def)
qed

text \<open>The writes of a commit, in their order.\<close>

definition empty_head :: "loghead \<Rightarrow> loghead" where
  "empty_head h = h\<lparr>lh_n := 0\<rparr>"

definition commit_trace :: "log \<Rightarrow> (uint \<Rightarrow> byte list) \<Rightarrow> nat \<Rightarrow> (uint \<times> byte list) list" where
  "commit_trace L v n =
     (let st = l_start L; h1 = put_head (lh L) (v st)
      in log_writes L v [0..<n] @ [(st, h1)] @ map (\<lambda>j. (lh_block (lh L) j, v (lh_block (lh L) j))) [0..<n] @
         [(st, put_head (empty_head (lh L)) h1)])"

lemma log_writes_facts:
  assumes "trans_ok L n"
  shows "writes (log_writes L v [0..<n]) d (l_start L) = d (l_start L)"
    "j < n \<Longrightarrow> writes (log_writes L v [0..<n]) d (lblock (l_start L) (Suc j)) = v (lh_block (lh L) j)"
    "m \<notin> log_region (l_start L) \<Longrightarrow> writes (log_writes L v [0..<n]) d m = d m"
proof -
  have r: "region_ok (l_start L)" "n \<le> LOGBLOCKS" using assms by (simp_all add: trans_ok_def)
  have f: "fst ` set (log_writes L v [0..<n]) = (\<lambda>j. lblock (l_start L) (Suc j)) ` {..<n}"
    by (auto simp: log_writes_def image_image)
  have "l_start L \<noteq> lblock (l_start L) (Suc j)" if "j < n" for j
    using lblock_inj [OF r(1), of 0 "Suc j"] that r(2) by auto
  then show "writes (log_writes L v [0..<n]) d (l_start L) = d (l_start L)"
    by (intro writes_other) (auto simp: f)
  have "\<forall>j<n. lblock (l_start L) (Suc j) \<in> log_region (l_start L)" using r(2) by simp
  then show "m \<notin> log_region (l_start L) \<Longrightarrow> writes (log_writes L v [0..<n]) d m = d m"
    by (intro writes_other) (auto simp: f)
  have "inj_on (\<lambda>j. lblock (l_start L) (Suc j)) (set [0..<n])"
  proof (rule inj_onI)
    fix a b assume "a \<in> set [0..<n]" "b \<in> set [0..<n]" "lblock (l_start L) (Suc a) = lblock (l_start L) (Suc b)"
    then show "a = b" using lblock_inj [OF r(1), of "Suc a" "Suc b"] r(2) by simp
  qed
  then have "distinct (map (\<lambda>j. lblock (l_start L) (Suc j)) [0..<n])" by (simp add: distinct_map)
  then show "j < n \<Longrightarrow> writes (log_writes L v [0..<n]) d (lblock (l_start L) (Suc j)) = v (lh_block (lh L) j)"
    unfolding log_writes_def by (intro writes_at) simp_all
qed

context log_disk
begin

lemma write_head_ok:
  assumes "bst D s i {} Q" "card Q < NBUF" "l_dev (lg s) = D" "l_start (lg s) < 2 ^ 31"
  shows "wp (write_head rw) (\<lambda>_ t. bst D t i {} Q \<and> bframe s t \<and>
    (let x = put_head (lh (lg s)) (blk D s (l_start (lg s))) in
      blk D t = (blk D s)(l_start (lg s) := x) \<and> medium t = (medium s)(l_start (lg s) := x) \<and>
      dwrites t = dwrites s @ [(l_start (lg s), x)])) s"
  unfolding write_head_def wp_log assms(3)
  by (rule wp_mono [OF bc.update_write [OF assms(1,2,4)]]) (simp add: Let_def)

lemma commit_ok:
  assumes "bst D s i {} Q" "card Q + 1 < NBUF" "trans_ok (lg s) n" "l_dev (lg s) = D" "0 < n"
    "lh_block (lh (lg s)) ` {..<n} = Q"
  shows "wp (commit rw) (\<lambda>_ t. bst D t i {} {} \<and> lg t = set_lh_n 0 (lg s) \<and> bframe s (t\<lparr>lg := lg s\<rparr>) \<and>
    dwrites t = dwrites s @ commit_trace (lg s) (blk D s) n \<and> medium t = writes (commit_trace (lg s) (blk D s) n) (medium s) \<and>
    blk D t = writes (commit_trace (lg s) (blk D s) n) (blk D s)) s"
proof -
  let ?L = "lg s" let ?st = "l_start ?L" let ?v = "blk D s"
  have L: "nat (lh_n (lh ?L)) = n" "lh_n (lh ?L) > 0" "region_ok ?st" using assms(3,5) by (simp_all add: trans_ok_def)
  have stl: "?st < 2 ^ 31" using lblock_less [OF L(3), of 0] by simp
  note lw = log_writes_facts [OF assms(3)]
  let ?h1 = "put_head (lh ?L) (?v ?st)"
  have hw: "home_writes ?L ((writes (log_writes ?L ?v [0..<n]) ?v)(?st := ?h1)) [0..<n] =
      map (\<lambda>j. (lh_block (lh ?L) j, ?v (lh_block (lh ?L) j))) [0..<n]"
  proof -
    have "lblock ?st (Suc j) \<noteq> ?st" if "j < n" for j
      using lblock_inj [OF L(3), of "Suc j" 0] that assms(3) by (auto simp: trans_ok_def)
    then show ?thesis using lw(2) by (simp add: home_writes_def)
  qed
  have hst: "writes (map (\<lambda>j. (lh_block (lh ?L) j, ?v (lh_block (lh ?L) j))) [0..<n]) d ?st = d ?st" for d
    by (rule writes_other) (use assms(3) lblock_in [of 0 ?st] in \<open>auto simp: trans_ok_def\<close>)
  have bQ: "card Q < NBUF" "card ({} :: uint set) < NBUF" using assms(2) by simp_all
  have "wp (write_log rw) (\<lambda>_ t. bst D t i {} Q \<and> bframe s t \<and> lg t = ?L \<and> dwrites t = dwrites s @ log_writes ?L ?v [0..<n] \<and>
      medium t = writes (log_writes ?L ?v [0..<n]) (medium s) \<and> blk D t = writes (log_writes ?L ?v [0..<n]) ?v) s"
    unfolding write_log_def wp_log L(1)
    by (rule wp_mono [OF write_log_loop_ok [OF assms(1-4), of 0 n]]) (use bframe_lg in auto)
  then show ?thesis
    unfolding commit_def wp_log wp_whenM wp_seq
  proof (simp only: L(2) if_True, elim wp_mono, goal_cases)
    case (1 _ t)
    show ?case
    proof (rule wp_mono [OF write_head_ok [of D t i Q]], goal_cases)
      case (5 _ u)
      then have u: "bst D u i {} Q" "lg u = ?L" "blk D u = (writes (log_writes ?L ?v [0..<n]) ?v)(?st := ?h1)"
        "medium u = (writes (log_writes ?L ?v [0..<n]) (medium s))(?st := ?h1)" "dwrites u = dwrites s @ log_writes ?L ?v [0..<n] @ [(?st, ?h1)]"
        using 1 bframe_lg [of t u] lw(1) by (simp_all add: Let_def)
      have su: "bframe s u" using 1 5 bframe_trans by blast
      have "wp (install_trans rw False) (\<lambda>_ w. bst D w i {} {} \<and> bframe u w \<and> lg w = ?L \<and>
          dwrites w = dwrites u @ map (\<lambda>j. (lh_block (lh ?L) j, ?v (lh_block (lh ?L) j))) [0..<n] \<and>
          medium w = writes (map (\<lambda>j. (lh_block (lh ?L) j, ?v (lh_block (lh ?L) j))) [0..<n]) (medium u) \<and>
          blk D w = writes (map (\<lambda>j. (lh_block (lh ?L) j, ?v (lh_block (lh ?L) j))) [0..<n]) (blk D u)) u"
        unfolding install_trans_def wp_log u(2) L(1)
      proof (rule wp_mono [OF install_loop_ok [OF u(1) assms(2), of n 0 n False]], goal_cases)
        case (5 _ w)
        have e: "Q - lh_block (lh (lg u)) ` {0..<0 + n} = {}" using assms(6) u(2) by (simp add: atLeast0LessThan)
        have "bst D w i {} {}" using 5 unfolding if_False e by blast
        then show ?case using 5 u bframe_lg [of u w] hw by simp
      qed (use u assms(3,4,6) in \<open>simp_all add: atLeast0LessThan\<close>)
      then show ?case
      proof (rule wp_mono, goal_cases)
        case (1 _ w)
        let ?w = "w\<lparr>lg := set_lh_n 0 (lg w)\<rparr>"
        have l: "lg ?w = set_lh_n 0 ?L" "lh (lg ?w) = empty_head (lh ?L)" using 1 by (simp_all add: empty_head_def set_lh_n_def)
        have hd: "blk D ?w ?st = ?h1" using 1 u hst by simp
        show ?case unfolding wp_set_log
        proof (rule wp_mono [OF write_head_ok [of D ?w i "{}"]], goal_cases)
          case (5 _ x)
          have x: "lg x = set_lh_n 0 ?L" using 5 bframe_lg [of ?w x] l(1) by simp
          have y: "blk D x = (blk D w)(?st := put_head (empty_head (lh ?L)) ?h1)"
            "medium x = (medium w)(?st := put_head (empty_head (lh ?L)) ?h1)"
            "dwrites x = dwrites w @ [(?st, put_head (empty_head (lh ?L)) ?h1)]"
            using 5 l hd by (simp_all add: Let_def)
          have "bframe s w" using su 1 bframe_trans by blast
          moreover have "w\<lparr>lg := ?L\<rparr> = w" using 1 by simp
          moreover have "bframe (w\<lparr>lg := ?L\<rparr>) (x\<lparr>lg := ?L\<rparr>)" using bframe_lg_upd [of ?w x ?L] 5 by simp
          ultimately have "bframe s (x\<lparr>lg := ?L\<rparr>)" using bframe_trans by metis
          then show ?case using 5 1 u x unfolding y by (simp add: commit_trace_def Let_def)
        qed (use 1 bQ stl assms(4) in simp_all)
      qed
    qed (use 1 bQ assms stl in auto)
  qed
qed

end

text \<open>The header that a disk block stands for.\<close>

definition disk_head :: "byte list \<Rightarrow> log \<Rightarrow> log" where
  "disk_head d L = read_blocks d 0 (nat (sint (get32 0 d))) (set_lh_n (sint (get32 0 d)) L)"

lemma disk_head_simps [simp]:
  "l_start (disk_head d L) = l_start L" "l_dev (disk_head d L) = l_dev L" "lh_n (lh (disk_head d L)) = sint (get32 0 d)"
  "j < nat (sint (get32 0 d)) \<Longrightarrow> lh_block (lh (disk_head d L)) j = get32 (4 + 4 * j) d"
  by (simp_all add: disk_head_def)

lemma blk_unpinned: "bst D s i {} {} \<Longrightarrow> blk D s = medium s"
  using binv_quiet_view [of D s i "{}" "{}"] by (intro ext) simp

context log_disk
begin

lemma read_head_ok:
  assumes "bst D s i {} {}" "l_dev (lg s) = D" "l_start (lg s) < 2 ^ 31"
  shows "wp (read_head rw) (\<lambda>_ t. bst D t i {} {} \<and> medium t = medium s \<and> lg t = disk_head (medium s (l_start (lg s))) (lg s)) s"
  unfolding read_head_def wp_log assms(2)
  unfolding wp_bnd
proof (rule wp_mono [OF bc.rd [OF assms(1) _ _ assms(3)]], goal_cases)
  case (3 b t)
  let ?d = "medium s (l_start (lg s))"
  let ?u = "t\<lparr>lg := disk_head ?d (lg s)\<rparr>"
  have d: "bdata (bufs t b) = ?d" "lg t = lg s" "medium t = medium s" "blockno (bufs t b) = l_start (lg s)" "bst D t i {b} {}"
    using 3 blk_unpinned [OF assms(1)] bframe_lg [of s t] by auto
  have "wp (brelse b) (\<lambda>_ w. bst D w i ({b} - {b}) {} \<and> blk D w = blk D ?u \<and> medium w = medium ?u \<and> dwrites w = dwrites ?u \<and>
      (\<lambda>b. blockno (bufs w b)) = (\<lambda>b. blockno (bufs ?u b)) \<and> (\<lambda>b. bdata (bufs w b)) = (\<lambda>b. bdata (bufs ?u b)) \<and> bframe ?u w) ?u"
    by (rule bc.rel [of D ?u i "{b}" "{}" b]) (use d in simp_all)
  then have "wp (brelse b) (\<lambda>_ w. bst D w i {} {} \<and> medium w = medium s \<and> lg w = disk_head ?d (lg s)) ?u"
  proof (rule wp_mono, goal_cases)
    case (1 _ w)
    then show ?case using d(3) bframe_lg [of ?u w] by simp
  qed
  then show ?case
    unfolding wp_seq wp_set_log by (simp add: wp_def d disk_head_def [symmetric])
qed (use assms in \<open>auto simp: NBUF_def\<close>)

lemma recover_ok:
  fixes s :: "'z logst_scheme"
  defines "d \<equiv> medium s"
  defines "st \<equiv> l_start (lg s)"
  defines "L \<equiv> disk_head (d st) (lg s)"
  assumes "bst D s i {} {}" "l_dev (lg s) = D" "trans_ok L n"
  shows "wp (recover_from_log rw) (\<lambda>_ t. bst D t i {} {} \<and> lh_n (lh (lg t)) = 0 \<and>
    medium t = writes (home_writes L d [0..<n] @ [(st, put_head (empty_head (lh L)) (d st))]) d) s"
proof -
  have r: "region_ok st" "nat (lh_n (lh L)) = n" "l_start L = st" "l_dev L = D" using assms(4-6) by (simp_all add: trans_ok_def L_def st_def)
  have stl: "st < 2 ^ 31" using lblock_less [OF r(1), of 0] by simp
  have N: "card ({} :: uint set) + 1 < NBUF" by (simp add: NBUF_def)
  have hst: "writes (home_writes L d [0..<n]) d st = d st"
    by (rule writes_other) (use assms(6) lblock_in [of 0 st] r(3) in \<open>auto simp: trans_ok_def home_writes_def\<close>)
  have "wp (read_head rw) (\<lambda>_ t. bst D t i {} {} \<and> medium t = d \<and> lg t = L) s"
    unfolding d_def L_def st_def by (rule read_head_ok) (use assms(4,5) stl in \<open>simp_all add: st_def\<close>)
  then show ?thesis
    unfolding recover_from_log_def wp_seq
  proof (rule wp_mono, goal_cases)
    case (1 _ t)
    then have bt: "blk D t = d" using blk_unpinned by blast
    have "wp (install_trans rw True) (\<lambda>_ w. bst D w i {} {} \<and> lg w = L \<and> medium w = writes (home_writes L d [0..<n]) d) t"
      unfolding install_trans_def wp_log
    proof (insert 1, simp only: r(2), rule wp_mono [OF install_loop_ok [of D t i "{}" n 0 n True]], goal_cases)
      case (7 _ w)
      then show ?case using 1 bt bframe_lg [of t w] by simp
    qed (use 1 N assms(6) r in simp_all)
    then show ?case
    proof (rule wp_mono, goal_cases)
      case (1 _ w)
      let ?w = "w\<lparr>lg := set_lh_n 0 (lg w)\<rparr>"
      have l: "lg ?w = set_lh_n 0 L" "lh (lg ?w) = empty_head (lh L)" using 1 by (simp_all add: empty_head_def set_lh_n_def)
      have hd: "blk D ?w st = d st" using 1 blk_unpinned [of D w i] hst by simp
      show ?case unfolding wp_set_log
      proof (rule wp_mono [OF write_head_ok [of D ?w i "{}"]], goal_cases)
        case (5 _ x)
        have x: "lg x = set_lh_n 0 L" using 5 bframe_lg [of ?w x] l(1) by simp
        have y: "medium x = (medium w)(st := put_head (empty_head (lh L)) (d st))" using 5 l hd r(3) by (simp add: Let_def)
        show ?case using 5 1 x unfolding y by simp
      qed (use 1 N stl r in simp_all)
    qed
  qed
qed

end

section \<open>Crash safety\<close>

lemma take_map_upt: "take k (map f [0..<n]) = map f [0..<min k n]"
  by (simp add: take_map min_def)

lemma trans_ok_take: "trans_ok L n \<Longrightarrow> m \<le> n \<Longrightarrow> trans_ok (set_lh_n (int m) L) m"
  by (auto simp: trans_ok_def intro: inj_on_subset)

lemma log_writes_prefix:
  assumes "trans_ok L n"
  shows "writes (take k (log_writes L v [0..<n])) d (l_start L) = d (l_start L)"
    "m \<notin> log_region (l_start L) \<Longrightarrow> writes (take k (log_writes L v [0..<n])) d m = d m"
proof -
  let ?M = "set_lh_n (int (min k n)) L"
  have t: "take k (log_writes L v [0..<n]) = log_writes ?M v [0..<min k n]" by (simp add: log_writes_def take_map_upt)
  have "trans_ok ?M (min k n)" using assms by (rule trans_ok_take) simp
  from log_writes_facts [OF this]
  show "writes (take k (log_writes L v [0..<n])) d (l_start L) = d (l_start L)"
    "m \<notin> log_region (l_start L) \<Longrightarrow> writes (take k (log_writes L v [0..<n])) d m = d m" unfolding t by simp_all
qed

lemma home_prefix:
  fixes v :: "uint \<Rightarrow> byte list"
  assumes "trans_ok L n"
  defines "W \<equiv> map (\<lambda>j. (lh_block (lh L) j, v (lh_block (lh L) j))) [0..<n]"
  shows "m \<in> log_region (l_start L) \<Longrightarrow> writes (take k W) d m = d m"
    "m \<notin> lh_block (lh L) ` {..<n} \<Longrightarrow> writes (take k W) d m = d m"
    "m \<in> lh_block (lh L) ` {..<n} \<Longrightarrow> writes W d m = v m"
proof -
  have f: "fst ` set (take k W) \<subseteq> lh_block (lh L) ` {..<n}" by (auto simp: W_def take_map_upt)
  show o: "m \<notin> lh_block (lh L) ` {..<n} \<Longrightarrow> writes (take k W) d m = d m"
    by (rule writes_other) (use f in blast)
  have "lh_block (lh L) ` {..<n} \<inter> log_region (l_start L) = {}" using assms(1) by (auto simp: trans_ok_def)
  then show "writes (take k W) d m = d m" if "m \<in> log_region (l_start L)" using o that by blast
  assume "m \<in> lh_block (lh L) ` {..<n}"
  then obtain j where j: "j < n" "m = lh_block (lh L) j" by auto
  have "inj_on (lh_block (lh L)) (set [0..<n])" using assms(1) by (auto simp: trans_ok_def inj_on_def)
  then have "distinct (map (lh_block (lh L)) [0..<n])" by (simp add: distinct_map)
  then show "writes W d m = v m" unfolding W_def j(2) by (rule writes_at) (simp add: j)
qed

text \<open>What a crash leaves on the disk after \<open>k\<close> writes of the commit.\<close>

lemma commit_prefix:
  fixes v m0 :: "uint \<Rightarrow> byte list" and k :: nat
  assumes L: "trans_ok L n" and len: "length (v (l_start L)) = BSIZE"
  defines "d \<equiv> writes (take k (commit_trace L v n)) m0"
  shows "k \<le> n \<Longrightarrow> d (l_start L) = m0 (l_start L) \<and> (\<forall>m. m \<notin> log_region (l_start L) \<longrightarrow> d m = m0 m)"
    and "n < k \<Longrightarrow> k \<le> 2 * n + 1 \<Longrightarrow> d (l_start L) = put_head (lh L) (v (l_start L)) \<and>
      (\<forall>j<n. d (lblock (l_start L) (Suc j)) = v (lh_block (lh L) j)) \<and>
      (\<forall>m. m \<notin> log_region (l_start L) \<longrightarrow> m \<notin> lh_block (lh L) ` {..<n} \<longrightarrow> d m = m0 m)"
    and "2 * n + 1 < k \<Longrightarrow> d (l_start L) = put_head (empty_head (lh L)) (put_head (lh L) (v (l_start L))) \<and>
      (\<forall>m. m \<notin> log_region (l_start L) \<longrightarrow> d m = (if m \<in> lh_block (lh L) ` {..<n} then v m else m0 m))"
proof -
  let ?st = "l_start L" let ?B = "lh_block (lh L)" let ?h1 = "put_head (lh L) (v ?st)"
  let ?h0 = "put_head (empty_head (lh L)) ?h1"
  let ?W1 = "log_writes L v [0..<n]" and ?W3 = "map (\<lambda>j. (?B j, v (?B j))) [0..<n]"
  have len1: "length ?W1 = n" "length ?W3 = n" by (simp_all add: log_writes_def)
  have reg: "?st \<in> log_region ?st" "\<And>j. j < n \<Longrightarrow> lblock ?st (Suc j) \<in> log_region ?st" "\<And>j. j < n \<Longrightarrow> lblock ?st (Suc j) \<noteq> ?st"
  proof -
    show "?st \<in> log_region ?st" using lblock_in [of 0 ?st] by simp
    fix j assume j: "j < n"
    then have "Suc j \<le> LOGBLOCKS" "region_ok ?st" using L by (simp_all add: trans_ok_def)
    then show "lblock ?st (Suc j) \<in> log_region ?st" "lblock ?st (Suc j) \<noteq> ?st" using lblock_inj [of ?st "Suc j" 0] by auto
  qed
  note lw = log_writes_facts [OF L] and hp = home_prefix [OF L]
  show "k \<le> n \<Longrightarrow> d ?st = m0 ?st \<and> (\<forall>m. m \<notin> log_region ?st \<longrightarrow> d m = m0 m)"
    using log_writes_prefix [OF L] by (simp add: d_def commit_trace_def Let_def len1)
  show "d ?st = ?h1 \<and> (\<forall>j<n. d (lblock ?st (Suc j)) = v (?B j)) \<and> (\<forall>m. m \<notin> log_region ?st \<longrightarrow> m \<notin> ?B ` {..<n} \<longrightarrow> d m = m0 m)"
    if k: "n < k" "k \<le> 2 * n + 1"
  proof -
    obtain i where i: "k = Suc (n + i)" "i \<le> n" using k by (auto dest!: less_imp_Suc_add)
    have "take k (commit_trace L v n) = ?W1 @ [(?st, ?h1)] @ take i ?W3" using i by (simp add: commit_trace_def Let_def len1)
    then have d: "d = writes (take i ?W3) ((writes ?W1 m0)(?st := ?h1))" by (simp add: d_def)
    have nst: "m \<noteq> ?st" if "m \<notin> log_region ?st" for m using reg(1) that by metis
    show ?thesis unfolding d using hp(1,2) reg lw nst by (auto simp del: One_nat_def)
  qed
  show "d ?st = ?h0 \<and> (\<forall>m. m \<notin> log_region ?st \<longrightarrow> d m = (if m \<in> ?B ` {..<n} then v m else m0 m))" if k: "2 * n + 1 < k"
  proof -
    have "take k (commit_trace L v n) = ?W1 @ [(?st, ?h1)] @ ?W3 @ [(?st, ?h0)]" using k by (simp add: commit_trace_def Let_def len1)
    then have d: "d = (writes ?W3 ((writes ?W1 m0)(?st := ?h1)))(?st := ?h0)" by (simp add: d_def)
    have nst: "m \<noteq> ?st" if "m \<notin> log_region ?st" for m using reg(1) that by metis
    have "writes ?W3 e m = e m" if "m \<notin> ?B ` {..<n}" for e m using hp(2) [OF that, where k = n] len1 by simp
    then show ?thesis unfolding d using hp(3) lw(3) nst by auto
  qed
qed

text \<open>Recovery from a disk whose header is empty, and from one whose header is that of a transaction.\<close>

lemma recover_home:
  assumes L: "trans_ok M n" and m: "m \<notin> log_region (l_start M)" and d: "\<forall>j<n. d (lblock (l_start M) (Suc j)) = v (lh_block (lh M) j)"
  shows "writes (home_writes M d [0..<n] @ [(l_start M, x)]) d m = (if m \<in> lh_block (lh M) ` {..<n} then v m else d m)"
proof -
  have "home_writes M d [0..<n] = map (\<lambda>j. (lh_block (lh M) j, v (lh_block (lh M) j))) [0..<n]" using d by (simp add: home_writes_def)
  moreover have "m \<noteq> l_start M" using m lblock_in [of 0 "l_start M"] by auto
  ultimately show ?thesis using home_prefix(2) [OF L, of m n v d] home_prefix(3) [OF L, of m v d] by auto
qed

lemma trans_ok_head:
  assumes L: "trans_ok L n" and M: "l_start M = l_start L" "lh_n (lh M) = int n" "\<forall>j<n. lh_block (lh M) j = lh_block (lh L) j"
  shows "trans_ok M n" "lh_block (lh M) ` {..<n} = lh_block (lh L) ` {..<n}"
proof -
  show "lh_block (lh M) ` {..<n} = lh_block (lh L) ` {..<n}" using M(3) by auto
  show "trans_ok M n" using L M inj_on_cong [of "{..<n}" "lh_block (lh M)" "lh_block (lh L)"] by (auto simp: trans_ok_def)
qed

lemma trans_ok_0: "region_ok (l_start M) \<Longrightarrow> lh_n (lh M) = 0 \<Longrightarrow> trans_ok M 0"
  by (simp add: trans_ok_def)

section \<open>Properties\<close>

text \<open>
  C1: Crash safety. \<open>commit\<close> of a transaction with \<open>n\<close> pinned blocks returns with the writes of
  \<open>commit_trace\<close>: the data blocks of the log, the header with the \<open>n\<close> home addresses, the home blocks, the cleared header.
  Stop the machine after any number \<open>k\<close> of those writes and run \<open>recover_from_log\<close> on what is on the disk: it
  returns with an empty log, and outside the log region the disk is exactly as before the transaction when
  the header had not been written (\<open>k \<le> n\<close>), and exactly as the cache had it, with all blocks of the
  transaction, when it had.
\<close>

theorem log_crash_safe:
  fixes s r :: "'z logst_scheme"
  assumes "block_driver rw" "bst D s i {} Q" "card Q + 1 < NBUF" "trans_ok (lg s) n" "l_dev (lg s) = D" "0 < n"
    "lh_block (lh (lg s)) ` {..<n} = Q" "get32 0 (medium s (l_start (lg s))) = 0" "length (medium s (l_start (lg s))) = BSIZE"
    and r: "bst D r j {} {}" "l_dev (lg r) = D" "l_start (lg r) = l_start (lg s)"
      "medium r = writes (take k (commit_trace (lg s) (blk D s) n)) (medium s)"
  shows "(\<exists>t. commit rw s = Ok () t \<and> dwrites t = dwrites s @ commit_trace (lg s) (blk D s) n) \<and>
    (\<exists>t. recover_from_log rw r = Ok () t \<and> lh_n (lh (lg t)) = 0 \<and>
      (\<forall>m. m \<notin> log_region (l_start (lg s)) \<longrightarrow> medium t m = (if k \<le> n then medium s m else blk D s m)))"
proof
  have ld: "log_disk rw" using assms(1) by (simp add: log_disk_def)
  let ?L = "lg s" let ?st = "l_start ?L" let ?v = "blk D s" let ?B = "lh_block (lh ?L)" let ?d = "medium r"
  show "\<exists>t. commit rw s = Ok () t \<and> dwrites t = dwrites s @ commit_trace ?L ?v n"
    using log_disk.commit_ok [OF ld assms(2-7)] by (auto simp: wp_iff)
  have reg: "region_ok ?st" "n \<le> LOGBLOCKS" "lh_n (lh ?L) = int n" using assms(4) by (simp_all add: trans_ok_def)
  have stQ: "?st \<notin> Q" using assms(4,7) lblock_in [of 0 ?st] by (auto simp: trans_ok_def)
  then have vst: "?v ?st = medium s ?st" using binv_quiet_view [OF assms(2)] by simp
  then have len: "length (?v ?st) = BSIZE" using assms(9) by simp
  have vout: "?v m = medium s m" if "m \<notin> ?B ` {..<n}" for m using binv_quiet_view [OF assms(2)] that assms(7) by simp
  note h1 = put_head_n [OF reg(3,2) len] and pre = commit_prefix [OF assms(4), of ?v k "medium s", OF len, folded r(4)]
  define M where "M = disk_head (?d ?st) (lg r)"
  have M: "l_start M = ?st" "lh_n (lh M) = sint (get32 0 (?d ?st))" by (simp_all add: M_def r(3))
  have go: "\<exists>t. recover_from_log rw r = Ok () t \<and> lh_n (lh (lg t)) = 0 \<and>
      medium t = writes (home_writes M ?d [0..<l] @ [(?st, put_head (empty_head (lh M)) (?d ?st))]) ?d" if "trans_ok M l" for l
    using log_disk.recover_ok [OF ld r(1,2), of l] that by (auto simp: wp_iff M_def r(3))
  show "\<exists>t. recover_from_log rw r = Ok () t \<and> lh_n (lh (lg t)) = 0 \<and>
      (\<forall>m. m \<notin> log_region ?st \<longrightarrow> medium t m = (if k \<le> n then medium s m else ?v m))"
  proof (cases "n < k \<and> k \<le> 2 * n + 1")
    case True
    note p = pre(2) [OF conjunct1 [OF True] conjunct2 [OF True]]
    have n: "lh_n (lh M) = int n" using M(2) p h1(1) by simp
    have b: "\<forall>j<n. lh_block (lh M) j = ?B j" using p h1(1,2) by (simp add: M_def)
    note tM = trans_ok_head [OF assms(4) M(1) n b]
    have "\<forall>j<n. ?d (lblock (l_start M) (Suc j)) = ?v (lh_block (lh M) j)" using p b M(1) by simp
    from recover_home [OF tM(1) _ this] go [OF tM(1)] show ?thesis
      using True p vout tM(2) M(1) by auto
  next
    case False
    have "sint (get32 0 (?d ?st)) = 0"
    proof (cases "k \<le> n")
      case True
      then show ?thesis using pre(1) assms(8) by simp
    next
      case nk: False
      then have "?d ?st = put_head (empty_head (lh ?L)) (put_head (lh ?L) (?v ?st))" using pre(3) False by simp
      moreover have "lh_n (empty_head (lh ?L)) = int 0" by (simp add: empty_head_def)
      ultimately show ?thesis using put_head_n(1) [of "empty_head (lh ?L)" 0 "put_head (lh ?L) (?v ?st)"] h1(3) by simp
    qed
    then have t0: "trans_ok M 0" using reg(1) M by (intro trans_ok_0) simp_all
    from go [OF t0] recover_home [OF t0, of _ ?d ?v] show ?thesis
      using pre(1,3) False vout M(1) by (auto simp: home_writes_def)
  qed
qed

text \<open>A booted machine with a given disk and log, for the witnesses.\<close>

lemma boot_log:
  obtains t :: logst where "bst 1 t 0 {} {}" "medium t = X" "lg t = L" "lock_free Log_lock (sync t)"
proof -
  define s :: logst where "s = kdisk.extend (demo_boot\<lparr>medium := X\<rparr>) \<lparr>lg = L\<rparr>"
  have f: "sync s = sync demo_boot" "md s = md demo_boot" "bufs s = bufs demo_boot" "medium s = X" "procs s = procs demo_boot"
    by (simp_all add: s_def kdisk.defs demo_boot_def)
  have "running s 0" using demo_boot_ready(1) by (simp add: running_def cur_def f)
  then obtain u :: logst where u: "bst 1 u 0 {} {}" "medium u = X" "\<forall>l. lock_free l (sync s) \<longrightarrow> lock_free l (sync u)"
    by (rule binit_ok [of s 0 1]) (use demo_boot_ready f in \<open>auto simp: NPROC_def\<close>)
  have "lock_free Log_lock (sync u)" using u(3) demo_boot_ready(2) f(1) by simp
  then show ?thesis using that [of "u\<lparr>lg := L\<rparr>"] u by simp
qed

lemma demo_region: "region_ok 2" "(100 :: uint) \<notin> log_region 2"
proof -
  show r: "region_ok 2" by (simp add: region_ok_def LOGBLOCKS_def)
  show "(100 :: uint) \<notin> log_region 2"
  proof
    assume "100 \<in> log_region (2 :: uint)"
    then obtain k where k: "k \<le> LOGBLOCKS" "(100 :: uint) = lblock 2 k" by (auto simp: log_region_def)
    from lblock_unat [OF r k(1)] k show False by (simp add: LOGBLOCKS_def)
  qed
qed

lemma demo_pinned:
  obtains s :: logst where "bst 1 s 0 {} {100}" "medium s = (\<lambda>_. replicate 1024 0)" "lg s = L" "lock_free Log_lock (sync s)"
proof -
  obtain t :: logst where t: "bst 1 t 0 {} {}" "medium t = (\<lambda>_. replicate 1024 0)" "lg t = L" "lock_free Log_lock (sync t)" by (rule boot_log)
  obtain b and u :: logst where u: "bst 1 u 0 {b} {}" "blockno (bufs u b) = 100" "medium u = medium t" "bframe t u"
    by (rule vdisk.vrw.bread_ok [OF t(1), of 100 "\<lambda>_ _. 0"]) (auto simp: NBUF_def)
  obtain v where v: "bst 1 v 0 {b} {100}" "medium v = medium u" "blockno (bufs v b) = 100" "bframe u v"
    by (rule bpin_ok [OF u(1), of b]) (use u in auto)
  obtain w where w: "bst 1 w 0 {} {100}" "medium w = medium v" "bframe v w"
    by (rule brelse_ok [OF v(1), of b]) (use v in auto)
  have "bframe t w" using bframe_trans u(4) v(4) w(3) by blast
  then show ?thesis using that [of w] w u v t bframe_lg [of t w] bframe_syncD(1) [of t w Log_lock] by simp
qed

theorem log_crash_safe_witness:
  "\<exists>(s :: logst) (r :: logst) t. bst 1 s 0 {} {100} \<and>
     medium r = writes (take 2 (commit_trace (lg s) (blk 1 s) 1)) (medium s) \<and>
     recover_from_log (disk_rw (\<lambda>_ _. 0) blk_device) r = Ok () t \<and> medium t 100 = blk 1 s 100"
proof -
  define L where "L = \<lparr>l_start = 2, l_size = 30, outstanding = 0, comitting = True, l_dev = 1, lh = \<lparr>lh_n = 1, lh_block = (\<lambda>_. 100)\<rparr>\<rparr>"
  obtain s :: logst where s: "bst 1 s 0 {} {100}" "medium s = (\<lambda>_. replicate 1024 0)" "lg s = L" by (rule demo_pinned) blast
  obtain r :: logst where r: "bst 1 r 0 {} {}" "medium r = writes (take 2 (commit_trace (lg s) (blk 1 s) 1)) (medium s)" "lg r = L"
    by (rule boot_log) blast
  note reg = demo_region(2)
  have drv: "block_driver (disk_rw (\<lambda>_ _. 0) (blk_device :: logst \<Rightarrow> logst))" by (rule vdisk.vrw.block_driver_axioms)
  have tr: "trans_ok (lg s) 1" using reg by (simp add: s(3) L_def trans_ok_def LOGBLOCKS_def region_ok_def inj_on_def)
  have h: "card {100 :: uint} + 1 < NBUF" "l_dev (lg s) = 1" "(0 :: nat) < 1" "lh_block (lh (lg s)) ` {..<1} = {100}"
    "get32 0 (medium s (l_start (lg s))) = 0" "length (medium s (l_start (lg s))) = BSIZE"
    by (simp_all add: s L_def NBUF_def BSIZE_def get32_def lessThan_Suc)
  have l: "l_dev (lg r) = 1" "l_start (lg r) = l_start (lg s)" by (simp_all add: r(3) s(3) L_def)
  have "\<exists>t. recover_from_log (disk_rw (\<lambda>_ _. 0) blk_device) r = Ok () t \<and> lh_n (lh (lg t)) = 0 \<and>
      (\<forall>m. m \<notin> log_region (l_start (lg s)) \<longrightarrow> medium t m = (if (2 :: nat) \<le> 1 then medium s m else blk 1 s m))"
    using log_crash_safe [OF drv s(1) h(1) tr h(2-6) r(1) l r(2)] by blast
  then obtain t where t: "recover_from_log (disk_rw (\<lambda>_ _. 0) blk_device) r = Ok () t"
    "\<forall>m. m \<notin> log_region (l_start (lg s)) \<longrightarrow> medium t m = blk 1 s m" by auto
  have "medium t 100 = blk 1 s 100" using t(2) reg by (simp add: s(3) L_def)
  then show ?thesis using s(1) r(2) t(1) by blast
qed

section \<open>Recording a block in the transaction\<close>

lemma log_find_run:
  "log_find h bn i k = (case find (\<lambda>j. lh_block h j = bn) [i..<i + k] of Some j \<Rightarrow> j | None \<Rightarrow> i + k)"
proof (induction k arbitrary: i)
  case (Suc k)
  have "[i..<i + Suc k] = i # [Suc i..<Suc i + k]" by (simp add: upt_conv_Cons)
  then show ?case using Suc.IH [of "Suc i"] by (simp del: upt_Suc split: option.split)
qed simp

lemma quiet_deep: "depth y \<noteq> 0 \<Longrightarrow> quiet y = y"
  by (simp add: quiet_def)

lemma bst_sync:
  "bst D t i H Q \<Longrightarrow> running (t\<lparr>sync := y\<rparr>) i \<Longrightarrow> lock_free Vdisk_lock y \<Longrightarrow> lock_free Bcache_lock y \<Longrightarrow> \<forall>b. lock_free (Buf_lk b) y \<Longrightarrow>
    bst D (t\<lparr>sync := y\<rparr>) i H Q"
  by (simp add: bst_def binv_def bheld_def)

text \<open>
  The state inside a transaction: the blocks recorded in the header are exactly the pinned ones, and the process holds
  the buffers \<open>H\<close>.
\<close>

definition tst :: "uint \<Rightarrow> 'z logst_scheme \<Rightarrow> nat \<Rightarrow> nat set \<Rightarrow> nat \<Rightarrow> bool" where
  "tst D s i H n \<longleftrightarrow> bst D s i H (lh_block (lh (lg s)) ` {..<n}) \<and> lock_free Log_lock (sync s) \<and> l_dev (lg s) = D \<and>
     trans_ok (lg s) n \<and> 1 \<le> outstanding (lg s) \<and> \<not> comitting (lg s)"

text \<open>
  \<open>logged\<close>: the block of buffer \<open>b\<close> is among the \<open>n'\<close> logged ones, and nothing else has changed.
\<close>

definition logged :: "uint \<Rightarrow> nat \<Rightarrow> nat set \<Rightarrow> nat \<Rightarrow> nat \<Rightarrow> 'z logst_scheme \<Rightarrow> 'z logst_scheme \<Rightarrow> nat \<Rightarrow> bool" where
  "logged D i H b n s t n' \<longleftrightarrow> tst D t i H n' \<and> n \<le> n' \<and> n' \<le> Suc n \<and>
     lh_block (lh (lg t)) ` {..<n'} = insert (blockno (bufs s b)) (lh_block (lh (lg s)) ` {..<n}) \<and>
     l_size (lg t) = l_size (lg s) \<and> l_start (lg t) = l_start (lg s) \<and> outstanding (lg t) = outstanding (lg s) \<and>
     blk D t = blk D s \<and> medium t = medium s \<and> dwrites t = dwrites s \<and>
     (\<forall>c. blockno (bufs t c) = blockno (bufs s c) \<and> bdata (bufs t c) = bdata (bufs s c)) \<and> bframe s (t\<lparr>lg := lg s\<rparr>)"

text \<open>Absorption: a block that is in the log already takes no new place.\<close>

lemma log_write_again:
  assumes T: "tst D s i H n" and n: "n < LOGBLOCKS" "int n < l_size (lg s) - 1"
    and B: "blockno (bufs s b) \<in> lh_block (lh (lg s)) ` {..<n}"
  shows "\<exists>t. log_write b s = Ok () t \<and> logged D i H b n s t n"
proof -
  let ?L = "lg s" let ?B = "lh_block (lh ?L)" let ?bn = "blockno (bufs s b)" let ?t = "s\<lparr>sync := quiet (sync s)\<rparr>"
  have st: "bst D s i H (?B ` {..<n})" and lf: "lock_free Log_lock (sync s)" and ln: "lh_n (lh ?L) = int n" and o: "1 \<le> outstanding ?L"
    using T by (simp_all add: tst_def trans_ok_def)
  have ok: "sync_ok (sync s)" using st by (simp add: bst_def bheld_def running_def procs_free_def)
  have "find (\<lambda>j. ?B j = ?bn) [0..<n] \<noteq> None" using B by (auto simp: find_None_iff)
  then obtain j where j: "find (\<lambda>j. ?B j = ?bn) [0..<n] = Some j" by blast
  then have jn: "j < n" "?B j = ?bn" using find_SomeD [OF j] by simp_all
  have ij: "log_find (lh ?L) ?bn 0 n = j" using j by (simp add: log_find_run)
  have e: "set_lh_block j ?bn ?L = ?L" using jn(2) by (simp add: set_lh_block_def fun_upd_idem)
  have "bst D ?t i H (?B ` {..<n})" using st by (simp add: bst_def binv_def bheld_def)
  then have "tst D ?t i H n" using T by (simp add: tst_def)
  moreover have "blk D ?t = blk D s" by (rule blk_same) simp_all
  ultimately have "logged D i H b n s ?t n" using B by (simp add: logged_def insert_absorb) (simp add: bframe_def)
  moreover have "log_write b s = Ok () ?t" using lf ln n o ij jn ok by (simp add: log_write_def acquire_run e release_acq)
  ultimately show ?thesis by blast
qed

text \<open>A new block takes the next place in the header.\<close>

definition log_append :: "nat \<Rightarrow> uint \<Rightarrow> log \<Rightarrow> log" where
  "log_append n bn L = set_lh_n (int n + 1) (set_lh_block n bn L)"

lemma log_append_ok:
  assumes "trans_ok L n" "n < LOGBLOCKS" "bn < 2 ^ 31" "bn \<notin> log_region (l_start L)" "bn \<notin> lh_block (lh L) ` {..<n}"
  shows "trans_ok (log_append n bn L) (Suc n)" "lh_block (lh (log_append n bn L)) ` {..<Suc n} = insert bn (lh_block (lh L) ` {..<n})"
proof -
  let ?M = "log_append n bn L"
  have im: "lh_block (lh ?M) ` {..<n} = lh_block (lh L) ` {..<n}" "lh_block (lh ?M) n = bn" by (auto simp: log_append_def)
  then show "lh_block (lh ?M) ` {..<Suc n} = insert bn (lh_block (lh L) ` {..<n})" by (simp add: lessThan_Suc)
  have "inj_on (lh_block (lh ?M)) {..<n}" using assms(1) by (simp add: trans_ok_def log_append_def inj_on_def)
  moreover have "{..<n} - {n} = {..<n}" by auto
  ultimately have "inj_on (lh_block (lh ?M)) {..<Suc n}" using im assms(5) by (simp add: lessThan_Suc)
  then show "trans_ok ?M (Suc n)" using assms by (auto simp: trans_ok_def log_append_def less_Suc_eq)
qed

text \<open>Pinning the buffer while the lock of the log is held; then the lock is released with the new log \<open>M\<close>.\<close>

lemma pin_under_log:
  assumes st: "bst D s i H Q" and lf: "lock_free Log_lock (sync s)" and b: "b \<in> H" "blockno (bufs s b) \<notin> Q"
  obtains t where "bpin b (s\<lparr>sync := lock_acq Log_lock (sync s), lg := L\<rparr>) = Ok () t" "lg t = L"
    "\<And>M. release Log_lock (t\<lparr>lg := M\<rparr>) = Ok () (t\<lparr>sync := quiet (sync s), lg := M\<rparr>)"
    "\<And>M. bst D (t\<lparr>sync := quiet (sync s), lg := M\<rparr>) i H (insert (blockno (bufs s b)) Q)"
    "\<And>M. blk D (t\<lparr>sync := quiet (sync s), lg := M\<rparr>) = blk D s" "medium t = medium s" "dwrites t = dwrites s"
    "\<forall>c. blockno (bufs t c) = blockno (bufs s c) \<and> bdata (bufs t c) = bdata (bufs s c)" "bframe s (t\<lparr>sync := quiet (sync s), lg := lg s\<rparr>)"
proof -
  let ?y = "lock_acq Log_lock (sync s)"
  have h: "bheld s i H" using st by (simp add: bst_def)
  have ok: "sync_ok (sync s)" using h by (simp add: bheld_def running_def procs_free_def)
  define s2 where "s2 = s\<lparr>sync := ?y, lg := L\<rparr>"
  have "running (s\<lparr>sync := ?y\<rparr>) i" using h procs_free_acq [of "sync s" Log_lock] by (simp add: bheld_def running_def cur_def)
  then have "bst D (s\<lparr>sync := ?y\<rparr>) i H Q" by (intro bst_sync [OF st]) (use h in \<open>simp_all add: bheld_def\<close>)
  then have st2: "bst D s2 i H Q" by (simp add: s2_def)
  obtain t where t: "bpin b s2 = Ok () t" "bst D t i H (insert (blockno (bufs s b)) Q)" "blk D t = blk D s2" "medium t = medium s2"
    "dwrites t = dwrites s2" "\<forall>c. blockno (bufs t c) = blockno (bufs s2 c) \<and> bdata (bufs t c) = bdata (bufs s2 c)" "bframe s2 t"
    by (rule bpin_ok [OF st2 b(1)]) (use b(2) in \<open>simp_all add: s2_def\<close>)
  have sy2: "sync s2 = ?y" by (simp add: s2_def)
  have dp: "depth (sync s2) \<noteq> 0" using ok by (simp add: sy2 sync_ok_def)
  have "depth (sync t) \<noteq> 0" using bframe_syncD(2) [OF t(7)] dp by simp
  then have sy: "sync t = ?y" using bframe_sync [OF t(7)] quiet_deep dp sy2 by metis
  have rel: "release Log_lock (t\<lparr>lg := M\<rparr>) = Ok () (t\<lparr>sync := quiet (sync s), lg := M\<rparr>)" for M
    using release_acq [of "t\<lparr>lg := M\<rparr>" Log_lock "sync s"] sy ok lf by simp
  have "running (t\<lparr>sync := quiet (sync s)\<rparr>) i" using h bframe_syncD [OF t(7)] by (simp add: bheld_def running_def cur_def)
  then have "bst D (t\<lparr>sync := quiet (sync s)\<rparr>) i H (insert (blockno (bufs s b)) Q)"
    by (intro bst_sync [OF t(2)]) (use h in \<open>simp_all add: bheld_def\<close>)
  then have stu: "bst D (t\<lparr>sync := quiet (sync s), lg := M\<rparr>) i H (insert (blockno (bufs s b)) Q)" for M by simp
  have "blk D s2 = blk D s" by (rule blk_same) (simp_all add: s2_def)
  moreover have "blk D (t\<lparr>sync := quiet (sync s), lg := M\<rparr>) = blk D t" for M by (rule blk_same) simp_all
  ultimately have bl: "blk D (t\<lparr>sync := quiet (sync s), lg := M\<rparr>) = blk D s" for M using t(3) by simp
  have "t\<lparr>sync := sync s2, procs := procs s2, sleeplocks := sleeplocks s2, bufs := bufs s2, md := md s2, medium := medium s2,
      dwrites := dwrites s2\<rparr> = s2" using t(7) unfolding bframe_def by blast
  from arg_cong [OF this, of "\<lambda>x. x\<lparr>sync := sync s, lg := lg s\<rparr>"]
  have fr: "bframe s (t\<lparr>sync := quiet (sync s), lg := lg s\<rparr>)" using t(7) by (simp add: bframe_def s2_def)
  show thesis using that [OF t(1) [unfolded s2_def] _ rel stu bl _ _ _ fr] bframe_lg [OF t(7)] t(4-6) by (simp add: s2_def)
qed

lemma log_write_new:
  assumes T: "tst D s i H n" and b: "b \<in> H" and n: "n < LOGBLOCKS" "int n < l_size (lg s) - 1"
    and home: "blockno (bufs s b) \<notin> log_region (l_start (lg s))" and B: "blockno (bufs s b) \<notin> lh_block (lh (lg s)) ` {..<n}"
  shows "\<exists>t. log_write b s = Ok () t \<and> logged D i H b n s t (Suc n)"
proof -
  let ?L = "lg s" let ?B = "lh_block (lh ?L)" let ?bn = "blockno (bufs s b)"
  have st: "bst D s i H (?B ` {..<n})" and lf: "lock_free Log_lock (sync s)" and tr: "trans_ok ?L n" and o: "1 \<le> outstanding ?L" and ln: "lh_n (lh ?L) = int n"
    using T by (simp_all add: tst_def trans_ok_def)
  have inv: "binv D s H (?B ` {..<n})" using st by (simp add: bst_def)
  have b31: "?bn < 2 ^ 31" using binv_bn [OF inv] binv_sub [OF inv] binv_held [OF inv] b by blast
  note M = log_append_ok [OF tr n(1) b31 home B]
  have "find (\<lambda>j. ?B j = ?bn) [0..<n] = None" using B unfolding find_None_iff by (metis atLeastLessThan_iff imageI lessThan_iff set_upt)
  then have ij: "log_find (lh ?L) ?bn 0 n = n" by (simp add: log_find_run)
  obtain t where t: "bpin b (s\<lparr>sync := lock_acq Log_lock (sync s), lg := set_lh_block n ?bn ?L\<rparr>) = Ok () t" "lg t = set_lh_block n ?bn ?L"
    "\<And>M. release Log_lock (t\<lparr>lg := M\<rparr>) = Ok () (t\<lparr>sync := quiet (sync s), lg := M\<rparr>)"
    "\<And>M. bst D (t\<lparr>sync := quiet (sync s), lg := M\<rparr>) i H (insert ?bn (?B ` {..<n}))"
    "\<And>M. blk D (t\<lparr>sync := quiet (sync s), lg := M\<rparr>) = blk D s" "medium t = medium s" "dwrites t = dwrites s"
    "\<forall>c. blockno (bufs t c) = blockno (bufs s c) \<and> bdata (bufs t c) = bdata (bufs s c)" "bframe s (t\<lparr>sync := quiet (sync s), lg := lg s\<rparr>)"
    using pin_under_log [OF st lf b B] by metis
  let ?u = "t\<lparr>sync := quiet (sync s), lg := log_append n ?bn ?L\<rparr>"
  have "log_write b s = Ok () ?u" using lf ln n o ij t(1,2,3) by (simp add: log_write_def acquire_run log_append_def)
  moreover have "tst D ?u i H (Suc n)" using t(4) M T by (simp add: tst_def) (simp add: log_append_def)
  then have "logged D i H b n s ?u (Suc n)" using t(5-9) M(2) by (simp add: logged_def) (simp add: log_append_def)
  ultimately show ?thesis by blast
qed

lemma log_write_ok:
  assumes T: "tst D s i H n" and b: "b \<in> H" and n: "n < LOGBLOCKS" "int n < l_size (lg s) - 1"
    and home: "blockno (bufs s b) \<notin> log_region (l_start (lg s))"
  obtains t n' where "log_write b s = Ok () t" "tst D t i H n'" "n \<le> n'" "n' \<le> Suc n"
    "lh_block (lh (lg t)) ` {..<n'} = insert (blockno (bufs s b)) (lh_block (lh (lg s)) ` {..<n})"
    "l_size (lg t) = l_size (lg s)" "l_start (lg t) = l_start (lg s)" "outstanding (lg t) = outstanding (lg s)"
    "blk D t = blk D s" "medium t = medium s" "dwrites t = dwrites s"
    "\<forall>c. blockno (bufs t c) = blockno (bufs s c) \<and> bdata (bufs t c) = bdata (bufs s c)" "bframe s (t\<lparr>lg := lg s\<rparr>)"
proof -
  have "\<exists>t n'. log_write b s = Ok () t \<and> logged D i H b n s t n'"
    using log_write_again [OF T n] log_write_new [OF T b n home] by blast
  then show thesis using that unfolding logged_def by blast
qed

section \<open>A whole operation\<close>

lemma begin_op_run:
  assumes "running s i" "lock_free Log_lock (sync s)"
  shows "begin_op s = (if comitting (lg s) \<or> lh_n (lh (lg s)) + (outstanding (lg s) + 1) * 10 > 30
    then Swtch (s\<lparr>sync := lock_acq (Proc_lock i) (sync s), procs := (procs s)(i := (procs s i)\<lparr>pchan := Log_chan, pstate := SLEEPING\<rparr>)\<rparr>)
    else Ok () (s\<lparr>sync := quiet (sync s), lg := (lg s)\<lparr>outstanding := outstanding (lg s) + 1\<rparr>\<rparr>))"
proof -
  let ?t = "s\<lparr>sync := lock_acq Log_lock (sync s)\<rparr>"
  have y: "procs_free (sync s)" "sync_ok (sync s)" "cur s = Some i" using assms(1) by (auto simp: running_def procs_free_def)
  have "sleep Log_chan Log_lock ?t = Swtch (?t\<lparr>sync := lock_acq (Proc_lock i) (sync s),
      procs := (procs ?t)(i := (procs ?t i)\<lparr>pchan := Log_chan, pstate := SLEEPING\<rparr>)\<rparr>)"
    by (rule sleep_run) (use y assms(2) in \<open>auto simp: cur_def\<close>)
  then show ?thesis
    using assms(2) y by (simp add: begin_op_def begin_op_loop_def acquire_run release_acq MAXOPBLOCKS_def LOGBLOCKS_def)
qed

lemma bst_quiet: "bst D s i H Q \<Longrightarrow> bst D (s\<lparr>sync := quiet (sync s)\<rparr>) i H Q"
  by (rule bst_sync) (simp_all add: bst_def bheld_def)

lemma bst_wake:
  assumes "bst D s i H Q" "psame (procs s) p"
  shows "bst D (s\<lparr>procs := p\<rparr>) i H Q"
  using assms psame_pid [OF assms(2)] by (simp add: bst_def binv_def bheld_def)

text \<open>The last \<open>end_op\<close> commits.\<close>

lemma end_op_commits:
  assumes ld: "block_driver rw" and st: "bst D s i {} Q" "lock_free Log_lock (sync s)" and L: "outstanding (lg s) = 1" "\<not> comitting (lg s)"
    and c: "card Q + 1 < NBUF" "trans_ok (lg s) n" "l_dev (lg s) = D" "0 < n" "lh_block (lh (lg s)) ` {..<n} = Q"
  shows "\<exists>t. end_op rw s = Ok () t \<and> bst D t i {} {} \<and> lock_free Log_lock (sync t) \<and> outstanding (lg t) = 0 \<and> \<not> comitting (lg t) \<and>
    lh_n (lh (lg t)) = 0 \<and> dwrites t = dwrites s @ commit_trace (lg s) (blk D s) n \<and>
    medium t = writes (commit_trace (lg s) (blk D s) n) (medium s) \<and> blk D t = medium t"
proof -
  have ldd: "log_disk rw" using ld by (simp add: log_disk_def)
  have y: "running s i" "sync_ok (sync s)" using st(1) by (auto simp: bst_def bheld_def running_def procs_free_def)
  define M where "M = (lg s)\<lparr>outstanding := 0, comitting := True\<rparr>"
  define s1 where "s1 = s\<lparr>sync := quiet (sync s), lg := M\<rparr>"
  have st1: "bst D s1 i {} Q" using bst_quiet [OF st(1)] by (simp add: s1_def)
  have b1: "blk D s1 = blk D s" by (rule blk_same) (simp_all add: s1_def)
  have tr: "trans_ok (lg s1) n" "l_dev (lg s1) = D" "lh_block (lh (lg s1)) ` {..<n} = Q" using c by (simp_all add: s1_def M_def trans_ok_def)
  have ct: "commit_trace (lg s1) (blk D s1) n = commit_trace (lg s) (blk D s) n"
    by (simp add: commit_trace_def b1) (simp add: s1_def M_def log_writes_def)
  obtain t where t: "commit rw s1 = Ok () t" "bst D t i {} {}" "lg t = set_lh_n 0 (lg s1)" "bframe s1 (t\<lparr>lg := lg s1\<rparr>)"
    "dwrites t = dwrites s1 @ commit_trace (lg s) (blk D s) n" "medium t = writes (commit_trace (lg s) (blk D s) n) (medium s1)"
    using log_disk.commit_ok [OF ldd st1 c(1) tr(1,2) c(4) tr(3)] ct by (auto simp: wp_iff)
  have lf: "lock_free l (sync t) = lock_free l (sync s)" "procs_free (sync t) = procs_free (sync s)" "cur t = cur s" "sync_ok (sync t) = sync_ok (sync s)" for l
    using bframe_syncD [OF t(4)] by (simp_all add: s1_def cur_def)
  have pf: "procs_free (sync t)" "sync_ok (sync t)" "lock_free Log_lock (sync t)" using y st(2) by (simp_all add: lf running_def procs_free_def)
  define p where "p = awaken (cur t) Log_chan 0 NPROC (procs t)"
  define v where "v = t\<lparr>sync := quiet (sync t), procs := p, lg := (lg t)\<lparr>comitting := False\<rparr>\<rparr>"
  have wk: "wakeup Log_chan (t\<lparr>sync := lock_acq Log_lock (sync t), lg := (lg t)\<lparr>comitting := False\<rparr>\<rparr>) =
      Ok () (t\<lparr>sync := lock_acq Log_lock (sync t), procs := p, lg := (lg t)\<lparr>comitting := False\<rparr>\<rparr>)"
    using wakeup_run [of "t\<lparr>sync := lock_acq Log_lock (sync t), lg := (lg t)\<lparr>comitting := False\<rparr>\<rparr>" Log_chan]
      procs_free_acq [OF pf(1), of Log_lock] pf(2) by (simp add: p_def cur_def)
  have e1: "lg s\<lparr>outstanding := 0, comitting := True\<rparr> = M" by (simp add: M_def)
  have run: "end_op rw s = Ok () v"
    using st(2) y L t(1) pf wk by (simp add: end_op_def acquire_run release_acq e1 s1_def v_def)
  have "bst D (t\<lparr>procs := p\<rparr>) i {} {}" by (rule bst_wake [OF t(2)]) (simp add: p_def psame_awaken)
  from bst_quiet [OF this] have stv: "bst D v i {} {}" by (simp add: v_def)
  have "blk D v = medium v" by (rule blk_unpinned [OF stv])
  then show ?thesis
    using run stv pf t by (simp add: v_def s1_def M_def)
qed

text \<open>
  C2: An operation is durable when \<open>end_op\<close> returns. On an idle log, the sequence every file system call follows
  (\<open>begin_op\<close>; \<open>bread\<close> a block; store into it; \<open>log_write\<close>; \<open>brelse\<close>; \<open>end_op\<close>) returns; the disk then has the new contents in the
  block and every other block outside the log unchanged, the log is empty, nothing is pinned, and the
  cache agrees with the disk.
\<close>

theorem transaction_durable:
  fixes s :: "'z logst_scheme"
  assumes "block_driver rw" "bst D s i {} {}" "lock_free Log_lock (sync s)" "l_dev (lg s) = D" "lh_n (lh (lg s)) = 0"
    "outstanding (lg s) = 0" "\<not> comitting (lg s)" "region_ok (l_start (lg s))" "2 \<le> l_size (lg s)"
    "m < 2 ^ 31" "m \<notin> log_region (l_start (lg s))"
  shows "\<exists>t. seq begin_op (bnd (bread rw D m) (\<lambda>b. bnd (bload b) (\<lambda>x. seq (bstore b (f x)) (seq (log_write b) (seq (brelse b) (end_op rw)))))) s =
      Ok () t \<and> medium t m = f (medium s m) \<and> (\<forall>k. k \<notin> log_region (l_start (lg s)) \<longrightarrow> k \<noteq> m \<longrightarrow> medium t k = medium s k) \<and>
      lh_n (lh (lg t)) = 0 \<and> outstanding (lg t) = 0 \<and> bst D t i {} {} \<and> blk D t = medium t"
proof -
  let ?st = "l_start (lg s)"
  have run0: "running s i" using assms(2) by (simp add: bst_def bheld_def)
  define s1 where "s1 = s\<lparr>sync := quiet (sync s), lg := (lg s)\<lparr>outstanding := 1\<rparr>\<rparr>"
  have b: "begin_op s = Ok () s1" using begin_op_run [OF run0 assms(3)] assms(5-7) by (simp add: s1_def)
  have st1: "bst D s1 i {} {}" using bst_quiet [OF assms(2)] by (simp add: s1_def)
  obtain c t where t: "bread rw D m s1 = Ok c t" "bst D t i {c} {}" "blockno (bufs t c) = m" "bdata (bufs t c) = blk D s1 m"
    "blk D t = blk D s1" "medium t = medium s1" "bframe s1 t"
    using block_driver.bread_ok [OF assms(1) st1, of m] assms(10) by (metis NBUF_def add_0 card.empty empty_iff zero_less_numeral)
  define x where "x = f (blk D s1 m)"
  define u where "u = t\<lparr>bufs := (bufs t)(c := (bufs t c)\<lparr>bdata := x\<rparr>)\<rparr>"
  have u: "bst D u i {c} {}" "blk D u = (blk D t)(m := x)" "bframe t u" using bdata_ok [OF t(2), of c x] t(3) by (simp_all add: u_def)
  have lgu: "lg u = lg s1" using bframe_lg t(7) u(3) by metis
  have Tu: "tst D u i {c} 0"
    using u(1) assms lgu bframe_syncD(1) [OF t(7), of Log_lock] by (simp add: tst_def trans_ok_def s1_def) (simp add: u_def)
  obtain v n where v: "log_write c u = Ok () v" "tst D v i {c} n" "n \<le> 1" "lh_block (lh (lg v)) ` {..<n} = {m}"
    "l_start (lg v) = ?st" "outstanding (lg v) = 1" "blk D v = blk D u" "medium v = medium u"
    "\<forall>e. blockno (bufs v e) = blockno (bufs u e)"
  proof (rule log_write_ok [OF Tu])
    show "int 0 < l_size (lg u) - 1" "blockno (bufs u c) \<notin> log_region (l_start (lg u))" "c \<in> {c}" "0 < LOGBLOCKS"
      using assms(9,11) lgu t(3) by (simp_all add: s1_def u_def LOGBLOCKS_def)
  qed (use lgu t(3) in \<open>simp add: s1_def u_def\<close>)
  have n1: "n = 1" using v(3,4) by (cases n) auto
  then have tv: "bst D v i {c} {m}" "lock_free Log_lock (sync v)" "l_dev (lg v) = D" "trans_ok (lg v) 1" "\<not> comitting (lg v)"
    using v(2,4) by (simp_all add: tst_def)
  obtain w where w: "brelse c v = Ok () w" "bst D w i {} {m}" "blk D w = blk D v" "medium w = medium v" "bframe v w"
    by (rule brelse_ok [OF tv(1), of c]) (use v(9) t(3) in \<open>auto simp: u_def\<close>)
  have lgw: "lg w = lg v" "lock_free Log_lock (sync w)" using bframe_lg [OF w(5)] bframe_syncD(1) [OF w(5)] tv(2) by simp_all
  have vw: "blk D w = (medium s)(m := f (medium s m))" "medium w = medium s"
    using w v u t blk_unpinned [OF st1] by (simp_all add: x_def u_def s1_def)
  have "\<exists>t. end_op rw w = Ok () t \<and> bst D t i {} {} \<and> lock_free Log_lock (sync t) \<and> outstanding (lg t) = 0 \<and> \<not> comitting (lg t) \<and>
    lh_n (lh (lg t)) = 0 \<and> dwrites t = dwrites w @ commit_trace (lg w) (blk D w) 1 \<and>
    medium t = writes (commit_trace (lg w) (blk D w) 1) (medium w) \<and> blk D t = medium t"
    by (rule end_op_commits [OF assms(1) w(2) lgw(2)]) (use lgw v tv n1 in \<open>simp_all add: NBUF_def\<close>)
  then obtain z where z: "end_op rw w = Ok () z" "bst D z i {} {}" "outstanding (lg z) = 0" "lh_n (lh (lg z)) = 0"
    "medium z = writes (commit_trace (lg w) (blk D w) 1) (medium w)" "blk D z = medium z" by blast
  have tw: "trans_ok (lg w) 1" using tv(4) lgw by simp
  have mz: "medium z k = (if k = m then f (medium s m) else medium s k)" if "k \<notin> log_region ?st" for k
  proof -
    have "k \<noteq> ?st" using that lblock_in [of 0 ?st] by auto
    moreover have "lh_block (lh (lg w)) 0 = m" using v(4) n1 lgw by (simp add: lessThan_Suc)
    ultimately show ?thesis
      using log_writes_facts(3) [OF tw, of k] that v(5) lgw
      by (simp add: z(5) commit_trace_def Let_def vw)
  qed
  have "seq begin_op (bnd (bread rw D m) (\<lambda>b. bnd (bload b) (\<lambda>x. seq (bstore b (f x)) (seq (log_write b) (seq (brelse b) (end_op rw)))))) s = Ok () z"
    using b t(1,4) v(1) w(1) z(1) by (simp add: u_def x_def)
  then show ?thesis using z mz assms(11) by auto
qed

theorem transaction_durable_witness:
  "\<exists>(s :: logst) t. seq begin_op (bnd (bread (disk_rw (\<lambda>_ _. 0) blk_device) 1 100) (\<lambda>b. bnd (bload b) (\<lambda>x. seq (bstore b (x[0 := 5]))
     (seq (log_write b) (seq (brelse b) (end_op (disk_rw (\<lambda>_ _. 0) blk_device))))))) s = Ok () t \<and> medium t 100 ! 0 = 5"
proof -
  define L where "L = \<lparr>l_start = 2, l_size = 30, outstanding = 0, comitting = False, l_dev = 1, lh = \<lparr>lh_n = 0, lh_block = (\<lambda>_. 0)\<rparr>\<rparr>"
  obtain s :: logst where s: "bst 1 s 0 {} {}" "medium s = (\<lambda>_. replicate 1024 0)" "lg s = L" "lock_free Log_lock (sync s)" by (rule boot_log)
  have drv: "block_driver (disk_rw (\<lambda>_ _. 0) (blk_device :: logst \<Rightarrow> logst))" by (rule vdisk.vrw.block_driver_axioms)
  have l: "l_dev (lg s) = 1" "lh_n (lh (lg s)) = 0" "outstanding (lg s) = 0" "\<not> comitting (lg s)" "region_ok (l_start (lg s))" "2 \<le> l_size (lg s)"
    "(100 :: uint) < 2 ^ 31" "100 \<notin> log_region (l_start (lg s))"
    using demo_region by (simp_all add: s(3) L_def)
  obtain t where t: "seq begin_op (bnd (bread (disk_rw (\<lambda>_ _. 0) blk_device) 1 100) (\<lambda>b. bnd (bload b) (\<lambda>x. seq (bstore b (x[0 := 5]))
     (seq (log_write b) (seq (brelse b) (end_op (disk_rw (\<lambda>_ _. 0) blk_device))))))) s = Ok () t" "medium t 100 = (medium s 100)[0 := 5]"
    using transaction_durable [OF drv s(1,4) l, of "\<lambda>x. x[0 := 5]"] by blast
  have "medium t 100 ! 0 = 5" by (simp add: t(2) s(2))
  then show ?thesis using t(1) by blast
qed

end
