(* ===== verification/Fsblock.thy ===== *)
theory Fsblock
  imports Log
begin

text \<open>
  The block layer of the file system, the first part of \<^verbatim>\<open>kernel/src/fs.c\<close>: the superblock, the bitmap of
  free blocks and its operations \<open>balloc\<close>, \<open>bfree\<close> and \<open>bzero\<close>. The variable \<open>sb\<close> is a field of the state; block numbers
  are 32-bit, the loop counters of \<open>balloc\<close> are natural numbers (they stay below \<open>sb.size\<close>).

  \<open>balloc\<close> does not release a bitmap block in which it found no free bit: such a block stays locked (and referenced).

  The locale \<open>transaction\<close> is what the layers above use of the log and the buffer cache between \<open>begin_op\<close> and \<open>end_op\<close>; its
  lemmas are the two idioms of \<^verbatim>\<open>fs.c\<close>: read a block, and change a block through the log. The interpretation on the model's
  routines is the sublocale \<open>tx\<close> of \<open>log_disk\<close>.
\<close>

section \<open>State and operations\<close>

definition BPB :: nat where "BPB = 8192"
definition FSMAGIC :: uint where "FSMAGIC = 0x10203040"

record fsblk = logst +
  sb :: superblock

type_synonym 'z bdriver = "nat \<Rightarrow> bool \<Rightarrow> ('z fsblk_scheme, unit) km"

definition BBLOCK :: "uint \<Rightarrow> superblock \<Rightarrow> uint" where
  "BBLOCK b s = b div 8192 + sb_bmapstart s"

definition bitmask :: "nat \<Rightarrow> byte" where
  "bitmask bi = push_bit (bi mod 8) 1"

definition bzero :: "'z bdriver \<Rightarrow> uint \<Rightarrow> uint \<Rightarrow> ('z fsblk_scheme, unit) km" where
  "bzero rw dev bno =
     bnd (bread rw dev bno) (\<lambda>bp.
     seq (bstore bp (replicate BSIZE 0)) (
     seq (log_write bp) (
     brelse bp)))"

text \<open>The inner loop of \<open>balloc\<close>: the first clear bit among \<open>n\<close> bits from \<open>bi\<close>.\<close>

fun balloc_scan :: "byte list \<Rightarrow> nat \<Rightarrow> nat \<Rightarrow> nat option" where
  "balloc_scan d bi 0 = None"
| "balloc_scan d bi (Suc n) = (if d ! (bi div 8) AND bitmask bi = 0 then Some bi else balloc_scan d (Suc bi) n)"

fun balloc_loop :: "'z bdriver \<Rightarrow> uint \<Rightarrow> nat \<Rightarrow> nat \<Rightarrow> ('z fsblk_scheme, uint) km" where
  "balloc_loop rw dev b 0 = panic ''balloc: out of blocks''"
| "balloc_loop rw dev b (Suc k) =
     bnd (gets sb) (\<lambda>S.
     bnd (bread rw dev (BBLOCK (of_nat b) S)) (\<lambda>bp.
     bnd (bload bp) (\<lambda>d.
     case balloc_scan d 0 (min BPB (unat (sb_size S) - b)) of
       Some bi \<Rightarrow>
         seq (bstore bp (d[bi div 8 := d ! (bi div 8) OR bitmask bi])) (
         seq (log_write bp) (
         seq (brelse bp) (
         seq (bzero rw dev (of_nat (b + bi))) (
         ret (of_nat (b + bi))))))
     | None \<Rightarrow> balloc_loop rw dev (b + BPB) k)))"

definition balloc :: "'z bdriver \<Rightarrow> uint \<Rightarrow> ('z fsblk_scheme, uint) km" where
  "balloc rw dev = bnd (gets sb) (\<lambda>S. balloc_loop rw dev 0 ((unat (sb_size S) + BPB - 1) div BPB))"

definition bfree :: "'z bdriver \<Rightarrow> uint \<Rightarrow> uint \<Rightarrow> ('z fsblk_scheme, unit) km" where
  "bfree rw dev b =
     bnd (gets sb) (\<lambda>S.
     bnd (bread rw dev (BBLOCK b S)) (\<lambda>bp.
     bnd (bload bp) (\<lambda>d.
     let bi = unat b mod BPB
     in if d ! (bi div 8) AND bitmask bi = 0 then panic ''freeing free block''
        else seq (bstore bp (d[bi div 8 := d ! (bi div 8) AND NOT (bitmask bi)])) (
             seq (log_write bp) (
             brelse bp)))))"

text \<open>The superblock as it lies in block 1.\<close>

definition get_sb :: "byte list \<Rightarrow> superblock" where
  "get_sb d = \<lparr>sb_magic = get32 0 d, sb_size = get32 4 d, sb_nblocks = get32 8 d, sb_ninodes = get32 12 d,
     sb_nlog = get32 16 d, sb_logstart = get32 20 d, sb_inodestart = get32 24 d, sb_bmapstart = get32 28 d\<rparr>"

definition readsb :: "'z bdriver \<Rightarrow> uint \<Rightarrow> ('z fsblk_scheme, unit) km" where
  "readsb rw dev =
     bnd (bread rw dev 1) (\<lambda>bp.
     bnd (bload bp) (\<lambda>d.
     seq (modify (\<lambda>s. s\<lparr>sb := get_sb d\<rparr>)) (
     brelse bp)))"

definition fsinit :: "'z bdriver \<Rightarrow> uint \<Rightarrow> ('z fsblk_scheme, unit) km" where
  "fsinit rw dev =
     seq (readsb rw dev) (
     bnd (gets sb) (\<lambda>S.
     if sb_magic S \<noteq> FSMAGIC then panic ''invalid fs''
     else initlog rw dev S))"

section \<open>Blocks inside a transaction\<close>

text \<open>
  \<open>tx s H W\<close>: the process is inside an operation, holds the buffers \<open>H\<close> and has recorded the blocks \<open>W\<close>. \<open>view\<close> is the
  contents of the blocks as the kernel sees them, \<open>med\<close> the contents on the medium; \<open>home\<close> are the blocks outside the log.
\<close>

locale transaction =
  fixes rd :: "uint \<Rightarrow> ('s, nat) km" and lw rel :: "nat \<Rightarrow> ('s, unit) km"
    and load :: "nat \<Rightarrow> ('s, byte list) km" and store :: "nat \<Rightarrow> byte list \<Rightarrow> ('s, unit) km"
    and tx :: "'s \<Rightarrow> nat set \<Rightarrow> uint set \<Rightarrow> bool" and view med :: "'s \<Rightarrow> uint \<Rightarrow> byte list"
    and bno :: "'s \<Rightarrow> nat \<Rightarrow> uint" and dat :: "'s \<Rightarrow> nat \<Rightarrow> byte list" and fr :: "'s \<Rightarrow> 's \<Rightarrow> bool" and home :: "uint \<Rightarrow> bool"
  assumes rd: "tx s H W \<Longrightarrow> \<forall>b\<in>H. bno s b \<noteq> n \<Longrightarrow> card H + card W < NBUF \<Longrightarrow> home n \<Longrightarrow>
      wp (rd n) (\<lambda>b t. tx t (insert b H) W \<and> b \<notin> H \<and> bno t b = n \<and> dat t b = view s n \<and> view t = view s \<and> med t = med s \<and>
        (\<forall>c\<in>H. bno t c = bno s c \<and> dat t c = dat s c) \<and> fr s t) s"
    and load: "load b s = Ok (dat s b) s"
    and store: "tx s H W \<Longrightarrow> b \<in> H \<Longrightarrow>
      wp (store b d) (\<lambda>_ t. tx t H W \<and> view t = (view s)(bno s b := d) \<and> med t = med s \<and> bno t = bno s \<and> dat t = (dat s)(b := d) \<and> fr s t) s"
    and lw: "tx s H W \<Longrightarrow> b \<in> H \<Longrightarrow> card W < LOGBLOCKS \<Longrightarrow> home (bno s b) \<Longrightarrow>
      wp (lw b) (\<lambda>_ t. tx t H (insert (bno s b) W) \<and> view t = view s \<and> med t = med s \<and> bno t = bno s \<and> dat t = dat s \<and> fr s t) s"
    and rel: "tx s H W \<Longrightarrow> b \<in> H \<Longrightarrow> bno s b \<in> W \<or> dat s b = med s (bno s b) \<Longrightarrow>
      wp (rel b) (\<lambda>_ t. tx t (H - {b}) W \<and> view t = view s \<and> med t = med s \<and> bno t = bno s \<and> dat t = dat s \<and> fr s t) s"
    and clean: "tx s H W \<Longrightarrow> n \<notin> W \<Longrightarrow> \<forall>b\<in>H. bno s b \<noteq> n \<Longrightarrow> view s n = med s n"
    and fr_trans: "fr s t \<Longrightarrow> fr t u \<Longrightarrow> fr s u"
begin

text \<open>The held buffers are as they were.\<close>

definition held :: "nat set \<Rightarrow> 's \<Rightarrow> 's \<Rightarrow> bool" where
  "held H s t \<longleftrightarrow> (\<forall>c\<in>H. bno t c = bno s c \<and> dat t c = dat s c)"

lemma held_trans: "held H s t \<Longrightarrow> held H t u \<Longrightarrow> held H s u"
  by (simp add: held_def)

lemma wp_load: "wp (bnd (load b) k) P s = wp (k (dat s b)) P s"
  by (simp add: wp_bnd) (simp add: wp_def load)

text \<open>What is loaded from a block just read is its contents.\<close>

lemma known_block:
  assumes "tx s H W" "\<forall>b\<in>H. bno s b \<noteq> n" "card H + card W < NBUF" "home n"
    and "wp (bnd (rd n) (\<lambda>b. bnd (load b) (\<lambda>_. g b (view s n)))) P s"
  shows "wp (bnd (rd n) (\<lambda>b. bnd (load b) (g b))) P s"
proof -
  obtain b t where "rd n s = Ok b t" "dat t b = view s n" using rd [OF assms(1-4)] by (auto simp: wp_iff)
  then show ?thesis using assms(5) by (simp add: wp_def load)
qed

text \<open>A block is read and released.\<close>

lemma read_block:
  assumes "tx s H W" "\<forall>b\<in>H. bno s b \<noteq> n" "card H + card W < NBUF" "home n"
    and k: "\<And>t. tx t H W \<Longrightarrow> view t = view s \<Longrightarrow> held H s t \<Longrightarrow> fr s t \<Longrightarrow> wp (k (view s n)) P t"
  shows "wp (bnd (rd n) (\<lambda>b. bnd (load b) (\<lambda>d. seq (rel b) (k d)))) P s"
  unfolding wp_bnd [of "rd n"]
proof (rule wp_mono [OF rd [OF assms(1-4)]], unfold wp_load wp_seq)
  fix b t
  assume b: "tx t (insert b H) W \<and> b \<notin> H \<and> bno t b = n \<and> dat t b = view s n \<and> view t = view s \<and> med t = med s \<and>
    (\<forall>c\<in>H. bno t c = bno s c \<and> dat t c = dat s c) \<and> fr s t"
  then have c: "bno t b \<in> W \<or> dat t b = med t (bno t b)" using clean [OF assms(1), of n] assms(2) by auto
  show "wp (rel b) (\<lambda>_. wp (k (dat t b)) P) t"
  proof (rule wp_mono [OF rel [of t "insert b H" W b]])
    fix u
    assume u: "tx u (insert b H - {b}) W \<and> view u = view t \<and> med u = med t \<and> bno u = bno t \<and> dat u = dat t \<and> fr t u"
    moreover have "insert b H - {b} = H" using b by simp
    ultimately show "wp (k (dat t b)) P u" using b k [of u] fr_trans [of s t u] by (simp add: held_def)
  qed (use b c in auto)
qed

text \<open>A block is changed through the log and released.\<close>

lemma update_block:
  assumes "tx s H W" "\<forall>b\<in>H. bno s b \<noteq> n" "card H + card W < NBUF" "card W < LOGBLOCKS" "home n"
    and k: "\<And>t. tx t H (insert n W) \<Longrightarrow> view t = (view s)(n := f (view s n)) \<Longrightarrow> held H s t \<Longrightarrow> fr s t \<Longrightarrow> wp k P t"
  shows "wp (bnd (rd n) (\<lambda>b. bnd (load b) (\<lambda>d. seq (store b (f d)) (seq (lw b) (seq (rel b) k))))) P s"
  unfolding wp_bnd [of "rd n"]
proof (rule wp_mono [OF rd [OF assms(1-3,5)]], unfold wp_load wp_seq)
  fix b t
  assume b: "tx t (insert b H) W \<and> b \<notin> H \<and> bno t b = n \<and> dat t b = view s n \<and> view t = view s \<and> med t = med s \<and>
    (\<forall>c\<in>H. bno t c = bno s c \<and> dat t c = dat s c) \<and> fr s t"
  show "wp (store b (f (dat t b))) (\<lambda>_. wp (lw b) (\<lambda>_. wp (rel b) (\<lambda>_. wp k P))) t"
  proof (rule wp_mono [OF store [of t "insert b H" W b]])
    fix u
    assume u: "tx u (insert b H) W \<and> view u = (view t)(bno t b := f (dat t b)) \<and> med u = med t \<and> bno u = bno t \<and>
      dat u = (dat t)(b := f (dat t b)) \<and> fr t u"
    show "wp (lw b) (\<lambda>_. wp (rel b) (\<lambda>_. wp k P)) u"
    proof (rule wp_mono [OF lw [of u "insert b H" W b]])
      fix v
      assume v: "tx v (insert b H) (insert (bno u b) W) \<and> view v = view u \<and> med v = med u \<and> bno v = bno u \<and> dat v = dat u \<and> fr u v"
      show "wp (rel b) (\<lambda>_. wp k P) v"
      proof (rule wp_mono [OF rel [of v "insert b H" "insert (bno u b) W" b]])
        fix x
        assume x: "tx x (insert b H - {b}) (insert (bno u b) W) \<and> view x = view v \<and> med x = med v \<and> bno x = bno v \<and> dat x = dat v \<and> fr v x"
        have "fr s x" using b u v x fr_trans by blast
        moreover have "insert b H - {b} = H" using b by simp
        moreover have "held H s x" using b u v x by (auto simp: held_def)
        ultimately show "wp k P x" using b u v x k [of x] by simp
      qed (use u v in auto)
    qed (use u b assms in auto)
  qed (use b in auto)
qed

lemma update_block_end:
  assumes "tx s H W" "\<forall>b\<in>H. bno s b \<noteq> n" "card H + card W < NBUF" "card W < LOGBLOCKS" "home n"
    and k: "\<And>t. tx t H (insert n W) \<Longrightarrow> view t = (view s)(n := f (view s n)) \<Longrightarrow> held H s t \<Longrightarrow> fr s t \<Longrightarrow> P () t"
  shows "wp (bnd (rd n) (\<lambda>b. bnd (load b) (\<lambda>d. seq (store b (f d)) (seq (lw b) (rel b))))) P s"
proof -
  have "seq (rel b) (ret ()) = rel b" for b unfolding seq_def by (rule ext) (simp add: bnd_def split: outcome.split)
  then show ?thesis
    using update_block [OF assms(1-5), of f "ret ()" P] k by (simp add: wp_ret)
qed

end

text \<open>The log and the buffer cache provide it.\<close>

definition tst_frame :: "'z logst_scheme \<Rightarrow> 'z logst_scheme \<Rightarrow> bool" where
  "tst_frame s t \<longleftrightarrow> bframe s (t\<lparr>lg := lg s\<rparr>) \<and> dwrites t = dwrites s \<and> outstanding (lg t) = outstanding (lg s)"

definition txs :: "uint \<Rightarrow> uint \<Rightarrow> 'z logst_scheme \<Rightarrow> nat \<Rightarrow> nat set \<Rightarrow> uint set \<Rightarrow> bool" where
  "txs D st s i H W \<longleftrightarrow> (\<exists>n. tst D s i H n \<and> W = lh_block (lh (lg s)) ` {..<n}) \<and> l_start (lg s) = st \<and> int LOGBLOCKS < l_size (lg s)"

definition home_block :: "uint \<Rightarrow> uint \<Rightarrow> bool" where
  "home_block st n \<longleftrightarrow> n < 2 ^ 31 \<and> n \<notin> log_region st"

lemma txsD:
  assumes "txs D st s i H W"
  obtains n where "tst D s i H n" "W = lh_block (lh (lg s)) ` {..<n}" "card W = n" "bst D s i H W"
    "l_start (lg s) = st" "int LOGBLOCKS < l_size (lg s)"
proof -
  obtain n where n: "tst D s i H n" "W = lh_block (lh (lg s)) ` {..<n}" using assms by (auto simp: txs_def)
  then have "inj_on (lh_block (lh (lg s))) {..<n}" by (simp add: tst_def trans_ok_def)
  then have "card W = n" using n(2) by (simp add: card_image)
  moreover have "bst D s i H W" using n by (simp add: tst_def)
  moreover have "l_start (lg s) = st" "int LOGBLOCKS < l_size (lg s)" using assms by (simp_all add: txs_def)
  ultimately show ?thesis using that [OF n] by blast
qed

lemma tst_frame_trans: "tst_frame s t \<Longrightarrow> tst_frame t u \<Longrightarrow> tst_frame s u"
proof -
  assume a: "tst_frame s t" "tst_frame t u"
  have "bframe t (u\<lparr>lg := lg t\<rparr>)" using a(2) by (simp add: tst_frame_def)
  from bframe_lg_upd [OF this, of "lg s"] have "bframe (t\<lparr>lg := lg s\<rparr>) (u\<lparr>lg := lg s\<rparr>)" by simp
  then show ?thesis using a bframe_trans by (auto simp: tst_frame_def)
qed

lemma tst_frameI: "bframe s t \<Longrightarrow> dwrites t = dwrites s \<Longrightarrow> tst_frame s t"
proof -
  assume a: "bframe s t" "dwrites t = dwrites s"
  have l: "lg t = lg s" by (rule bframe_lg [OF a(1)])
  have e: "t\<lparr>lg := lg s\<rparr> = t" unfolding l [symmetric] by simp
  show ?thesis unfolding tst_frame_def e using a l by simp
qed

text \<open>An operation of the cache keeps the transaction.\<close>

lemma txs_bst:
  assumes "txs D st s i H W" "bst D t i H' W" "bframe s t"
  shows "txs D st t i H' W"
proof -
  obtain n where n: "tst D s i H n" "W = lh_block (lh (lg s)) ` {..<n}" "l_start (lg s) = st" "int LOGBLOCKS < l_size (lg s)"
    by (rule txsD [OF assms(1)])
  have "tst D t i H' n" using n(1,2) assms(2) bframe_lg [OF assms(3)] bframe_syncD(1) [OF assms(3), of Log_lock] by (simp add: tst_def)
  then show ?thesis using n bframe_lg [OF assms(3)] by (auto simp: txs_def)
qed

text \<open>Any block can be read inside a transaction, also one of the log.\<close>

context log_disk
begin

lemma bread_tx:
  fixes s :: "'z logst_scheme"
  assumes "txs D st s i H W" "\<forall>b\<in>H. blockno (bufs s b) \<noteq> n" "card H + card W < NBUF" "n < 2 ^ 31"
  shows "wp (bread rw D n) (\<lambda>b t. txs D st t i (insert b H) W \<and> b \<notin> H \<and> blockno (bufs t b) = n \<and> bdata (bufs t b) = blk D s n \<and>
      blk D t = blk D s \<and> medium t = medium s \<and> (\<forall>c\<in>H. blockno (bufs t c) = blockno (bufs s c) \<and> bdata (bufs t c) = bdata (bufs s c)) \<and> tst_frame s t) s"
proof -
  have "bst D s i H W" by (rule txsD [OF assms(1)])
  then have r: "wp (bread rw D n) (\<lambda>b t. bst D t i (insert b H) W \<and> b \<notin> H \<and> blockno (bufs t b) = n \<and> bdata (bufs t b) = blk D s n \<and>
      blk D t = blk D s \<and> medium t = medium s \<and> dwrites t = dwrites s \<and>
      (\<forall>c. c \<noteq> b \<longrightarrow> blockno (bufs t c) = blockno (bufs s c) \<and> bdata (bufs t c) = bdata (bufs s c)) \<and> bframe s t) s"
    using assms(2-4) by (intro bc.rd)
  show ?thesis
    by (rule wp_mono [OF r], elim conjE, intro conjI ballI) (assumption | metis txs_bst [OF assms(1)] tst_frameI)+
qed

end

sublocale log_disk \<subseteq> tx: transaction "bread rw D" log_write brelse bload bstore "\<lambda>s H W. txs D st s i H W"
  "blk D" medium "\<lambda>s b. blockno (bufs s b)" "\<lambda>s b. bdata (bufs s b)" tst_frame "home_block st" for D st i
proof unfold_locales
  fix s :: "'z logst_scheme" and H W n
  assume a: "txs D st s i H W" "\<forall>b\<in>H. blockno (bufs s b) \<noteq> n" "card H + card W < NBUF" "home_block st n"
  from a(4) have "n < 2 ^ 31" by (simp add: home_block_def)
  from bread_tx [OF a(1-3) this]
  show "wp (bread rw D n) (\<lambda>b t. txs D st t i (insert b H) W \<and> b \<notin> H \<and> blockno (bufs t b) = n \<and> bdata (bufs t b) = blk D s n \<and>
      blk D t = blk D s \<and> medium t = medium s \<and> (\<forall>c\<in>H. blockno (bufs t c) = blockno (bufs s c) \<and> bdata (bufs t c) = bdata (bufs s c)) \<and> tst_frame s t) s" .
next
  fix s :: "'z logst_scheme" and H W b d
  assume a: "txs D st s i H W" "b \<in> H"
  have "bst D s i H W" by (rule txsD [OF a(1)])
  from bc.store [OF this a(2)]
  show "wp (bstore b d) (\<lambda>_ t. txs D st t i H W \<and> blk D t = (blk D s)(blockno (bufs s b) := d) \<and> medium t = medium s \<and>
      (\<lambda>b. blockno (bufs t b)) = (\<lambda>b. blockno (bufs s b)) \<and> (\<lambda>b. bdata (bufs t b)) = (\<lambda>b. bdata (bufs s b))(b := d) \<and> tst_frame s t) s"
    by (rule wp_mono) (use txs_bst [OF a(1)] tst_frameI in blast)
next
  fix s :: "'z logst_scheme" and H W b
  assume a: "txs D st s i H W" "b \<in> H" "card W < LOGBLOCKS" "home_block st (blockno (bufs s b))"
  obtain n where n: "tst D s i H n" "W = lh_block (lh (lg s)) ` {..<n}" "card W = n" "l_start (lg s) = st" "int LOGBLOCKS < l_size (lg s)"
    by (rule txsD [OF a(1)])
  obtain t n' where t: "log_write b s = Ok () t" "tst D t i H n'" "lh_block (lh (lg t)) ` {..<n'} = insert (blockno (bufs s b)) W"
    "l_size (lg t) = l_size (lg s)" "l_start (lg t) = l_start (lg s)" "outstanding (lg t) = outstanding (lg s)"
    "blk D t = blk D s" "medium t = medium s" "dwrites t = dwrites s"
    "\<forall>c. blockno (bufs t c) = blockno (bufs s c) \<and> bdata (bufs t c) = bdata (bufs s c)" "bframe s (t\<lparr>lg := lg s\<rparr>)"
    by (rule log_write_ok [OF n(1) a(2)]) (use a n in \<open>auto simp: home_block_def\<close>)
  have "txs D st t i H (insert (blockno (bufs s b)) W)"
    unfolding txs_def using t(2) t(3) [symmetric] t(4,5) n(4,5) by auto
  then show "wp (log_write b) (\<lambda>_ t. txs D st t i H (insert (blockno (bufs s b)) W) \<and> blk D t = blk D s \<and> medium t = medium s \<and>
      (\<lambda>b. blockno (bufs t b)) = (\<lambda>b. blockno (bufs s b)) \<and> (\<lambda>b. bdata (bufs t b)) = (\<lambda>b. bdata (bufs s b)) \<and> tst_frame s t) s"
    using t by (simp add: wp_def tst_frame_def)
next
  fix s :: "'z logst_scheme" and H W b
  assume a: "txs D st s i H W" "b \<in> H" "blockno (bufs s b) \<in> W \<or> bdata (bufs s b) = medium s (blockno (bufs s b))"
  have "bst D s i H W" by (rule txsD [OF a(1)])
  from bc.rel [OF this a(2,3)]
  show "wp (brelse b) (\<lambda>_ t. txs D st t i (H - {b}) W \<and> blk D t = blk D s \<and> medium t = medium s \<and>
      (\<lambda>b. blockno (bufs t b)) = (\<lambda>b. blockno (bufs s b)) \<and> (\<lambda>b. bdata (bufs t b)) = (\<lambda>b. bdata (bufs s b)) \<and> tst_frame s t) s"
    by (rule wp_mono) (use txs_bst [OF a(1)] tst_frameI in blast)
next
  fix s :: "'z logst_scheme" and H W n
  assume a: "txs D st s i H W" "n \<notin> W" "\<forall>b\<in>H. blockno (bufs s b) \<noteq> n"
  have "bst D s i H W" by (rule txsD [OF a(1)])
  then show "blk D s n = medium s n" using a(2,3) by (rule binv_quiet_view)
qed (auto intro: tst_frame_trans)

section \<open>The bitmap of free blocks\<close>

lemma tst_frame_sb: "tst_frame s t \<Longrightarrow> sb (t :: 'z fsblk_scheme) = sb s"
  unfolding tst_frame_def bframe_def by (elim conjE, drule arg_cong [of _ _ sb]) simp

definition used :: "(uint \<Rightarrow> byte list) \<Rightarrow> superblock \<Rightarrow> nat \<Rightarrow> bool" where
  "used v S b \<longleftrightarrow> bit (v (BBLOCK (of_nat b) S) ! (b mod BPB div 8)) (b mod 8)"

definition mark :: "nat \<Rightarrow> byte list \<Rightarrow> byte list" where
  "mark bi d = d[bi div 8 := d ! (bi div 8) OR bitmask bi]"

definition unmark :: "nat \<Rightarrow> byte list \<Rightarrow> byte list" where
  "unmark bi d = d[bi div 8 := d ! (bi div 8) AND NOT (bitmask bi)]"

lemma bitmask_test: "x AND bitmask k = 0 \<longleftrightarrow> \<not> bit x (k mod 8)"
  by (simp add: bitmask_def push_bit_of_1 and_exp_eq_0_iff_not_bit)

lemma bit_bitmask: "n < 8 \<Longrightarrow> bit (bitmask k) n \<longleftrightarrow> n = k mod 8"
  by (auto simp: bitmask_def bit_simps)

lemma same_bit: "(j :: nat) div 8 = k div 8 \<Longrightarrow> j mod 8 = k mod 8 \<Longrightarrow> j = k"
  by (metis div_mult_mod_eq)

lemma mark_bits:
  assumes "length d = BSIZE" "bi < BPB" "k < BPB"
  shows "bit (mark bi d ! (k div 8)) (k mod 8) \<longleftrightarrow> k = bi \<or> bit (d ! (k div 8)) (k mod 8)"
    "bit (unmark bi d ! (k div 8)) (k mod 8) \<longleftrightarrow> k \<noteq> bi \<and> bit (d ! (k div 8)) (k mod 8)"
proof -
  have l: "bi div 8 < length d" using assms by (simp add: BSIZE_def BPB_def)
  have m: "k mod 8 < 8" by simp
  show "bit (mark bi d ! (k div 8)) (k mod 8) \<longleftrightarrow> k = bi \<or> bit (d ! (k div 8)) (k mod 8)"
    using l same_bit [of k bi] by (cases "k div 8 = bi div 8") (auto simp: mark_def bit_or_iff bit_bitmask [OF m])
  show "bit (unmark bi d ! (k div 8)) (k mod 8) \<longleftrightarrow> k \<noteq> bi \<and> bit (d ! (k div 8)) (k mod 8)"
    using l same_bit [of k bi] m by (cases "k div 8 = bi div 8") (auto simp: unmark_def bit_and_iff bit_not_iff bit_bitmask [OF m])
qed

lemma mark_length [simp]: "length (mark bi d) = length d" "length (unmark bi d) = length d"
  by (simp_all add: mark_def unmark_def)

lemma balloc_scan_run: "balloc_scan d bi n = find (\<lambda>j. \<not> bit (d ! (j div 8)) (j mod 8)) [bi..<bi + n]"
proof (induction n arbitrary: bi)
  case (Suc n)
  have "[bi..<bi + Suc n] = bi # [Suc bi..<Suc bi + n]" by (simp add: upt_conv_Cons)
  then show ?case using Suc.IH [of "Suc bi"] by (simp add: bitmask_test del: upt_Suc)
qed simp

lemma BBLOCK_first: "b < BPB \<Longrightarrow> BBLOCK (of_nat b) S = sb_bmapstart S"
proof -
  assume b: "b < BPB"
  then have "unat (of_nat b :: uint) = b" by (simp add: unat_of_nat BPB_def)
  then have "unat ((of_nat b :: uint) div 8192) = 0" using b by (simp add: unat_div BPB_def)
  then have "(of_nat b :: uint) div 8192 = 0" by (simp add: unat_eq_zero)
  then show ?thesis by (simp add: BBLOCK_def)
qed

lemma used_first: "b < BPB \<Longrightarrow> used v S b \<longleftrightarrow> bit (v (sb_bmapstart S) ! (b div 8)) (b mod 8)"
  by (simp add: used_def BBLOCK_first)

text \<open>
  The bitmap is one block outside the log and marks the blocks of the log and itself as used. (The image that \<open>mkfs\<close> builds
  has 2000 blocks and one bitmap block.)
\<close>

definition bitmap_ok :: "uint \<Rightarrow> (uint \<Rightarrow> byte list) \<Rightarrow> superblock \<Rightarrow> bool" where
  "bitmap_ok st v S \<longleftrightarrow> sb_size S \<le> 8192 \<and> length (v (sb_bmapstart S)) = BSIZE \<and> home_block st (sb_bmapstart S) \<and>
     (\<forall>b<unat (sb_size S). \<not> used v S b \<longrightarrow> home_block st (of_nat b) \<and> of_nat b \<noteq> sb_bmapstart S)"

locale fs_disk = log_disk rw for rw :: "'z bdriver"
begin

lemma bread_known:
  assumes "txs D st s i H W" "\<forall>b\<in>H. blockno (bufs s b) \<noteq> n" "card H + card W < NBUF" "home_block st n"
  shows "\<exists>c t. bread rw D n s = Ok c t \<and> bdata (bufs t c) = blk D s n"
  using tx.rd [OF assms] by (auto simp: wp_iff)

lemma bzero_ok:
  assumes "txs D st s i H W" "\<forall>b\<in>H. blockno (bufs s b) \<noteq> n" "card H + card W < NBUF" "card W < LOGBLOCKS" "home_block st n"
    and k: "\<And>t. txs D st t i H (insert n W) \<Longrightarrow> blk D t = (blk D s)(n := replicate BSIZE 0) \<Longrightarrow> tx.held H s t \<Longrightarrow> tst_frame s t \<Longrightarrow> P () t"
  shows "wp (bzero rw D n) P s"
proof -
  have "bzero rw D n = bnd (bread rw D n) (\<lambda>b. bnd (bload b) (\<lambda>d. seq (bstore b ((\<lambda>_. replicate BSIZE 0) d)) (seq (log_write b) (brelse b))))"
    unfolding bzero_def by (rule arg_cong2 [of _ _ _ _ bnd]) (auto simp: fun_eq_iff)
  then show ?thesis using tx.update_block_end [OF assms(1-5), of "\<lambda>_. replicate BSIZE 0" P] k by simp
qed

end

lemma find_first:
  fixes P :: "nat \<Rightarrow> bool"
  shows "b < n \<Longrightarrow> P b \<Longrightarrow> \<forall>j<b. \<not> P j \<Longrightarrow> find P [0..<n] = Some b"
  by (auto simp: find_Some_iff nth_append intro!: exI [of _ b])

context fs_disk
begin

text \<open>The loop of \<open>balloc\<close> ends in its first round when the first bitmap block has a free bit.\<close>

lemma balloc_ok:
  assumes "txs D st s i H W" "bitmap_ok st (blk D s) (sb s)" "card H + card W + 1 < NBUF"
    and H: "\<forall>c\<in>H. blockno (bufs s c) \<noteq> sb_bmapstart (sb s) \<and> blockno (bufs s c) \<noteq> of_nat b"
    and b: "b < unat (sb_size (sb s))" "\<not> used (blk D s) (sb s) b" "\<forall>j<b. used (blk D s) (sb s) j"
    and k: "\<And>t. txs D st t i H (insert (of_nat b) (insert (sb_bmapstart (sb s)) W)) \<Longrightarrow>
      blk D t = (blk D s)(sb_bmapstart (sb s) := mark b (blk D s (sb_bmapstart (sb s))), of_nat b := replicate BSIZE 0) \<Longrightarrow>
      tx.held H s t \<Longrightarrow> tst_frame s t \<Longrightarrow> P (of_nat b) t"
  shows "wp (balloc rw D) P s"
proof -
  let ?S = "sb s" let ?bm = "sb_bmapstart ?S" let ?d = "blk D s ?bm" let ?n = "unat (sb_size ?S)"
  have ok: "?n \<le> 8192" "length ?d = BSIZE" "home_block st ?bm" "home_block st (of_nat b)" "of_nat b \<noteq> ?bm"
    using assms(2) b(1,2) by (auto simp: bitmap_ok_def word_le_nat_alt)
  have bB: "b < BPB" using b(1) ok(1) by (simp add: BPB_def)
  have scan: "balloc_scan ?d 0 (min BPB (?n - 0)) = Some b"
  proof -
    have "\<forall>j<b. bit (?d ! (j div 8)) (j mod 8)" using b(3) bB used_first by auto
    then show ?thesis
      unfolding balloc_scan_run using b(1,2) bB used_first [OF bB] by (auto intro!: find_first)
  qed
  have "?n + BPB - 1 = (?n - 1) + BPB" using b(1) by simp
  then have m: "(?n + BPB - 1) div BPB = Suc ((?n - 1) div BPB)" by (simp add: BPB_def)
  have mb: "mark b x = x[b div 8 := x ! (b div 8) OR bitmask b]" for x by (simp add: mark_def)
  have card: "card H + card W < NBUF" "card W < LOGBLOCKS" using assms(3) by (simp_all add: NBUF_def LOGBLOCKS_def)
  have nobm: "\<forall>c\<in>H. blockno (bufs s c) \<noteq> ?bm" using H by blast
  have fin: "card H + card (insert ?bm W) < NBUF" "card (insert ?bm W) < LOGBLOCKS"
    using assms(3) card_insert_le_m1 [of "card W + 1" W ?bm] by (simp_all add: NBUF_def LOGBLOCKS_def)
  have run: "wp (bnd (bread rw D ?bm) (\<lambda>bp. bnd (bload bp) (\<lambda>d. case balloc_scan d 0 (min BPB (?n - 0)) of
       Some bi \<Rightarrow> seq (bstore bp (d[bi div 8 := d ! (bi div 8) OR bitmask bi])) (seq (log_write bp) (seq (brelse bp) (
         seq (bzero rw D (of_nat (0 + bi))) (ret (of_nat (0 + bi))))))
     | None \<Rightarrow> balloc_loop rw D (0 + BPB) ((?n - 1) div BPB)))) P s"
  proof (rule tx.known_block [OF assms(1) nobm card(1) ok(3)], unfold scan option.case)
    show "wp (bnd (bread rw D ?bm) (\<lambda>bp. bnd (bload bp) (\<lambda>_. seq (bstore bp (?d[b div 8 := ?d ! (b div 8) OR bitmask b]))
        (seq (log_write bp) (seq (brelse bp) (seq (bzero rw D (of_nat (0 + b))) (ret (of_nat (0 + b))))))))) P s"
    proof (rule tx.update_block [OF assms(1) nobm card ok(3), of "\<lambda>_. mark b ?d", unfolded mark_def], fold mark_def)
      fix t
      assume t: "txs D st t i H (insert ?bm W)" "blk D t = (blk D s)(?bm := mark b ?d)" "tx.held H s t" "tst_frame s t"
      have nob: "\<forall>c\<in>H. blockno (bufs t c) \<noteq> of_nat (0 + b)" using H t(3) by (simp add: tx.held_def)
      show "wp (seq (bzero rw D (of_nat (0 + b))) (ret (of_nat (0 + b)))) P t"
        unfolding wp_seq
      proof (rule bzero_ok [OF t(1) nob fin], unfold wp_ret)
        fix u
        assume u: "txs D st u i H (insert (of_nat (0 + b)) (insert ?bm W))" "blk D u = (blk D t)(of_nat (0 + b) := replicate BSIZE 0)"
          "tx.held H t u" "tst_frame t u"
        then show "P (of_nat (0 + b)) u"
          using k [of u] t tx.held_trans [OF t(3) u(3)] tst_frame_trans [OF t(4) u(4)] by simp
      qed (use ok in simp)
    qed
  qed
  have B0: "BBLOCK (of_nat 0) ?S = ?bm" by (rule BBLOCK_first) (simp add: BPB_def)
  show ?thesis
    unfolding balloc_def wp_bnd wp_gets m balloc_loop.simps B0 using run unfolding wp_bnd .
qed

lemma bfree_ok:
  assumes "txs D st s i H W" "bitmap_ok st (blk D s) (sb s)" "card H + card W < NBUF" "card W < LOGBLOCKS"
    and H: "\<forall>c\<in>H. blockno (bufs s c) \<noteq> sb_bmapstart (sb s)"
    and b: "b < sb_size (sb s)" "used (blk D s) (sb s) (unat b)"
    and k: "\<And>t. txs D st t i H (insert (sb_bmapstart (sb s)) W) \<Longrightarrow>
      blk D t = (blk D s)(sb_bmapstart (sb s) := unmark (unat b) (blk D s (sb_bmapstart (sb s)))) \<Longrightarrow>
      tx.held H s t \<Longrightarrow> tst_frame s t \<Longrightarrow> P () t"
  shows "wp (bfree rw D b) P s"
proof -
  let ?S = "sb s" let ?bm = "sb_bmapstart ?S" let ?d = "blk D s ?bm"
  have ok: "unat (sb_size ?S) \<le> 8192" "home_block st ?bm" using assms(2) by (auto simp: bitmap_ok_def word_le_nat_alt)
  have bB: "unat b < BPB" using b(1) ok(1) by (simp add: BPB_def word_less_nat_alt)
  have B: "BBLOCK b ?S = ?bm" using BBLOCK_first [OF bB, of ?S] by simp
  have bit: "?d ! (unat b mod BPB div 8) AND bitmask (unat b mod BPB) \<noteq> 0"
    using b(2) bB by (simp add: bitmask_test used_first [OF bB])
  show ?thesis
    unfolding bfree_def wp_bnd [of "gets sb"] wp_gets B
  proof (rule tx.known_block [OF assms(1) H assms(3) ok(2)], unfold Let_def if_not_P [OF bit])
    show "wp (bnd (bread rw D ?bm) (\<lambda>bp. bnd (bload bp) (\<lambda>_. seq (bstore bp (?d[unat b mod BPB div 8 := ?d ! (unat b mod BPB div 8) AND NOT
        (bitmask (unat b mod BPB))])) (seq (log_write bp) (brelse bp))))) P s"
      using tx.update_block_end [OF assms(1) H assms(3,4) ok(2), of "\<lambda>_. unmark (unat b) ?d" P] k bB by (simp add: unmark_def)
  qed
qed

end

lemma bitmap_update:
  assumes "bitmap_ok st v S" "b < unat (sb_size S)" "j < unat (sb_size S)" "x \<noteq> sb_bmapstart S"
  shows "used (v(sb_bmapstart S := mark b (v (sb_bmapstart S)), x := y)) S j \<longleftrightarrow> j = b \<or> used v S j"
    "used (v(sb_bmapstart S := unmark b (v (sb_bmapstart S)))) S j \<longleftrightarrow> j \<noteq> b \<and> used v S j"
proof -
  have B: "b < BPB" "j < BPB" "length (v (sb_bmapstart S)) = BSIZE"
    using assms by (auto simp: bitmap_ok_def word_le_nat_alt BPB_def)
  show "used (v(sb_bmapstart S := mark b (v (sb_bmapstart S)), x := y)) S j \<longleftrightarrow> j = b \<or> used v S j"
    "used (v(sb_bmapstart S := unmark b (v (sb_bmapstart S)))) S j \<longleftrightarrow> j \<noteq> b \<and> used v S j"
    using mark_bits [OF B(3,1,2)] assms(4) by (auto simp: used_first [OF B(2)])
qed

lemma bitmap_ok_mark:
  assumes "bitmap_ok st v S" "b < unat (sb_size S)" "\<not> used v S b"
  shows "bitmap_ok st (v(sb_bmapstart S := mark b (v (sb_bmapstart S)), of_nat b := y)) S"
proof -
  have x: "of_nat b \<noteq> sb_bmapstart S" using assms by (simp add: bitmap_ok_def)
  show ?thesis using assms(1) x bitmap_update(1) [OF assms(1,2) _ x, of _ y] by (auto simp: bitmap_ok_def)
qed

text \<open>
  C7: \<open>balloc\<close> inside a transaction, on a bitmap with a free block: it returns the lowest free block \<open>b\<close>; afterwards exactly \<open>b\<close> is
  marked in addition, its contents are zero, no block but \<open>b\<close> and the bitmap has changed, both are recorded in the log, no
  buffer is held, and nothing has been written to the disk itself.
\<close>

theorem balloc_correct:
  fixes s :: "'z fsblk_scheme"
  assumes "block_driver rw" "txs D st s i {} W" "bitmap_ok st (blk D s) (sb s)" "card W + 1 < NBUF"
    "b < unat (sb_size (sb s))" "\<not> used (blk D s) (sb s) b" "\<forall>j<b. used (blk D s) (sb s) j"
  shows "\<exists>t. balloc rw D s = Ok (of_nat b) t \<and> txs D st t i {} (insert (of_nat b) (insert (sb_bmapstart (sb s)) W)) \<and>
    (\<forall>j<unat (sb_size (sb s)). used (blk D t) (sb t) j \<longleftrightarrow> j = b \<or> used (blk D s) (sb s) j) \<and>
    blk D t (of_nat b) = replicate BSIZE 0 \<and> (\<forall>n. n \<noteq> of_nat b \<longrightarrow> n \<noteq> sb_bmapstart (sb s) \<longrightarrow> blk D t n = blk D s n) \<and>
    bitmap_ok st (blk D t) (sb t) \<and> dwrites t = dwrites s"
proof -
  let ?bm = "sb_bmapstart (sb s)"
  have fd: "fs_disk rw" using assms(1) by (simp add: fs_disk_def log_disk_def)
  have x: "of_nat b \<noteq> ?bm" using assms(3,5,6) by (simp add: bitmap_ok_def)
  have "wp (balloc rw D) (\<lambda>r t. r = of_nat b \<and> txs D st t i {} (insert (of_nat b) (insert ?bm W)) \<and>
      blk D t = (blk D s)(?bm := mark b (blk D s ?bm), of_nat b := replicate BSIZE 0) \<and> tst_frame s t) s"
    by (rule fs_disk.balloc_ok [OF fd assms(2,3) _ _ assms(5-7)]) (use assms(4) in simp_all)
  then obtain t where t: "balloc rw D s = Ok (of_nat b) t" "txs D st t i {} (insert (of_nat b) (insert ?bm W))"
    "blk D t = (blk D s)(?bm := mark b (blk D s ?bm), of_nat b := replicate BSIZE 0)" "tst_frame s t" by (auto simp: wp_iff)
  have "sb t = sb s" "dwrites t = dwrites s" using t(4) tst_frame_sb by (auto simp: tst_frame_def)
  then show ?thesis
    using t bitmap_update(1) [OF assms(3,5) _ x, of _ "replicate BSIZE 0"] bitmap_ok_mark [OF assms(3,5,6), of "replicate BSIZE 0"] by auto
qed

lemma unmark_mark: "length d = BSIZE \<Longrightarrow> b < BPB \<Longrightarrow> \<not> bit (d ! (b div 8)) (b mod 8) \<Longrightarrow> unmark b (mark b d) = d"
proof -
  assume a: "length d = BSIZE" "b < BPB" "\<not> bit (d ! (b div 8)) (b mod 8)"
  then have l: "b div 8 < length d" by (simp add: BSIZE_def BPB_def)
  have "(d ! (b div 8) OR bitmask b) AND NOT (bitmask b) = d ! (b div 8)"
  proof (rule bit_word_eqI)
    fix n assume "n < LENGTH(8)"
    then have n: "n < 8" by simp
    show "bit ((d ! (b div 8) OR bitmask b) AND NOT (bitmask b)) n = bit (d ! (b div 8)) n"
      using a(3) n by (auto simp: bit_and_iff bit_or_iff bit_not_iff bit_bitmask [OF n])
  qed
  then show ?thesis using l by (simp add: mark_def unmark_def)
qed

text \<open>
  \<open>bfree\<close> undoes \<open>balloc\<close>: freeing the block just allocated leaves the bitmap, hence the set of free blocks, as before
  both calls. Freeing it a second time, or any block that is free, is the panic ``freeing free block''.
\<close>

theorem balloc_bfree:
  fixes s :: "'z fsblk_scheme"
  assumes "block_driver rw" "txs D st s i {} W" "bitmap_ok st (blk D s) (sb s)" "card W + 2 < NBUF"
    "b < unat (sb_size (sb s))" "\<not> used (blk D s) (sb s) b" "\<forall>j<b. used (blk D s) (sb s) j"
  shows "\<exists>t. bnd (balloc rw D) (bfree rw D) s = Ok () t \<and> blk D t = (blk D s)(of_nat b := replicate BSIZE 0) \<and>
    (\<forall>j<unat (sb_size (sb s)). used (blk D t) (sb t) j \<longleftrightarrow> used (blk D s) (sb s) j) \<and>
    bnd (balloc rw D) (\<lambda>r. seq (bfree rw D r) (bfree rw D r)) s = Panic ''freeing free block''"
proof -
  let ?bm = "sb_bmapstart (sb s)" let ?d = "blk D s ?bm" let ?W = "insert (of_nat b) (insert ?bm W)" let ?b = "of_nat b :: uint"
  have fd: "fs_disk rw" and ld: "log_disk rw" using assms(1) by (simp_all add: fs_disk_def log_disk_def)
  have x: "?b \<noteq> ?bm" "home_block st ?bm" "length ?d = BSIZE" "unat (sb_size (sb s)) \<le> 8192"
    using assms(3,5,6) by (auto simp: bitmap_ok_def word_le_nat_alt)
  have bB: "b < BPB" and ub: "unat ?b = b" using assms(5) x(4) by (simp_all add: BPB_def unat_of_nat)
  have "wp (balloc rw D) (\<lambda>r t. r = ?b \<and> txs D st t i {} ?W \<and>
      blk D t = (blk D s)(?bm := mark b ?d, ?b := replicate BSIZE 0) \<and> tst_frame s t) s"
    by (rule fs_disk.balloc_ok [OF fd assms(2,3) _ _ assms(5-7)]) (use assms(4) in simp_all)
  then obtain t where t: "balloc rw D s = Ok ?b t" "txs D st t i {} ?W"
    "blk D t = (blk D s)(?bm := mark b ?d, ?b := replicate BSIZE 0)" "tst_frame s t" by (auto simp: wp_iff)
  have ok: "bitmap_ok st (blk D t) (sb t)" "sb t = sb s"
    using t(3) tst_frame_sb [OF t(4)] bitmap_ok_mark [OF assms(3,5,6), of "replicate BSIZE 0"] by simp_all
  have cW: "card ?W < NBUF"
  proof -
    have "card (insert ?bm W) \<le> card W + 1" "card ?W \<le> card (insert ?bm W) + 1" by (simp_all add: card_insert_le_m1)
    then show ?thesis using assms(4) by linarith
  qed
  have "wp (bfree rw D ?b) (\<lambda>_ u. txs D st u i {} (insert ?bm ?W) \<and> blk D u = (blk D t)(?bm := unmark b (blk D t ?bm)) \<and> tst_frame t u) t"
    by (rule fs_disk.bfree_ok [OF fd t(2) ok(1)])
      (use cW assms(5) ok(2) ub t(3) bitmap_update(1) [OF assms(3,5,5) x(1), of "replicate BSIZE 0"]
        in \<open>simp_all add: NBUF_def LOGBLOCKS_def word_less_nat_alt\<close>)
  then obtain u where u: "bfree rw D ?b t = Ok () u" "txs D st u i {} (insert ?bm ?W)" "blk D u = (blk D t)(?bm := unmark b (blk D t ?bm))" "tst_frame t u"
    by (auto simp: wp_iff)
  have "unmark b (mark b ?d) = ?d" by (rule unmark_mark [OF x(3) bB]) (use assms(6) used_first [OF bB] in simp)
  then have bu: "blk D u = (blk D s)(?b := replicate BSIZE 0)" using u(3) t(3) x(1) by (auto simp: fun_eq_iff)
  have su: "sb u = sb s" using tst_frame_sb [OF u(4)] ok(2) by simp
  have us: "used (blk D u) (sb s) j = used (blk D s) (sb s) j" if "j < unat (sb_size (sb s))" for j
  proof -
    have "j < BPB" using that x(4) by (simp add: BPB_def)
    then show ?thesis using bu x(1) by (simp add: used_first)
  qed
  have bb: "insert ?bm ?W = ?W" by auto
  obtain c v where v: "bread rw D ?bm u = Ok c v" "bdata (bufs v c) = ?d"
    using fs_disk.bread_known [OF fd u(2) [unfolded bb], of ?bm] cW x(1,2) bu by auto
  have "BBLOCK ?b (sb s) = ?bm" by (rule BBLOCK_first [OF bB])
  then have "bfree rw D ?b u = Panic ''freeing free block''"
    using v su bB ub assms(6) used_first [OF bB] by (simp add: bfree_def Let_def bitmask_test)
  then show ?thesis using t(1) u(1) bu us su by simp
qed

text \<open>A booted machine in a transaction, for the witnesses.\<close>

lemma boot_any:
  fixes m :: 'z
  obtains t :: "'z logst_scheme" where "bst 1 t 0 {} {}" "medium t = X" "lg t = L" "logst.more t = m" "\<forall>l. lock_free l (sync t)"
    "\<forall>k. sl_locked (sleeplocks t (Inode_lk k)) = 0"
proof -
  define s :: "'z logst_scheme" where "s = kdisk.extend (demo_boot\<lparr>medium := X\<rparr>) \<lparr>lg = L, \<dots> = m\<rparr>"
  have f: "sync s = sync demo_boot" "md s = md demo_boot" "bufs s = bufs demo_boot" "medium s = X" "procs s = procs demo_boot"
    by (simp_all add: s_def kdisk.defs demo_boot_def)
  have "running s 0" using demo_boot_ready(1) by (simp add: running_def cur_def f)
  then obtain u :: "'z logst_scheme" where u: "bst 1 u 0 {} {}" "medium u = X" "\<forall>l. lock_free l (sync s) \<longrightarrow> lock_free l (sync u)"
    by (rule binit_ok [of s 0 1]) (use demo_boot_ready f in \<open>auto simp: NPROC_def\<close>)
  define t :: "'z logst_scheme" where "t = logst.more_update (\<lambda>_. m) (u\<lparr>lg := L,
    sleeplocks := (\<lambda>l. case l of Inode_lk k \<Rightarrow> \<lparr>sl_locked = 0, sl_name = [], sl_pid = 0\<rparr> | _ \<Rightarrow> sleeplocks u l)\<rparr>)"
  have "bst 1 t 0 {} {}" using u(1) by (simp add: t_def bst_def binv_def bheld_def running_def cur_def)
  then show ?thesis using that [of t] u demo_boot_ready(2) f(1) by (simp add: t_def)
qed

definition demo_log :: log where
  "demo_log = \<lparr>l_start = 2, l_size = 1900, outstanding = 1, comitting = False, l_dev = 1, lh = \<lparr>lh_n = 0, lh_block = (\<lambda>_. 0)\<rparr>\<rparr>"

definition demo_sb :: superblock where
  "demo_sb = \<lparr>sb_magic = FSMAGIC, sb_size = 2000, sb_nblocks = 1900, sb_ninodes = 200, sb_nlog = 30, sb_logstart = 2,
     sb_inodestart = 33, sb_bmapstart = 46\<rparr>"

text \<open>The bitmap of a disk whose blocks below 48 are in use.\<close>

definition demo_bitmap :: "byte list" where
  "demo_bitmap = replicate 6 255 @ replicate 1018 0"

lemma txs_boot:
  fixes m :: 'z
  obtains t :: "'z logst_scheme" where "txs 1 2 t 0 {} {}" "medium t = X" "blk 1 t = X" "lg t = demo_log" "logst.more t = m"
    "\<forall>l. lock_free l (sync t)" "\<forall>k. sl_locked (sleeplocks t (Inode_lk k)) = 0"
proof -
  obtain t :: "'z logst_scheme" where t: "bst 1 t 0 {} {}" "medium t = X" "lg t = demo_log" "logst.more t = m" "\<forall>l. lock_free l (sync t)"
    "\<forall>k. sl_locked (sleeplocks t (Inode_lk k)) = 0" by (rule boot_any)
  have "tst 1 t 0 {} 0" using t demo_region(1) by (simp add: tst_def trans_ok_def demo_log_def)
  then have "txs 1 2 t 0 {} {}" unfolding txs_def using t(3) by (auto simp: demo_log_def LOGBLOCKS_def intro: exI [of _ 0])
  then show ?thesis using that [of t] t blk_unpinned [OF t(1)] by simp
qed

lemma demo_home: "33 \<le> n \<Longrightarrow> n < 2 ^ 31 \<Longrightarrow> home_block 2 (of_nat n)"
proof -
  assume n: "33 \<le> n" "n < 2 ^ 31"
  have "(of_nat n :: uint) \<notin> log_region 2"
  proof
    assume "(of_nat n :: uint) \<in> log_region 2"
    then obtain k where k: "k \<le> LOGBLOCKS" "(of_nat n :: uint) = lblock 2 k" by (auto simp: log_region_def)
    have "unat (of_nat n :: uint) = n" using n(2) by (simp add: unat_of_nat)
    then show False using lblock_unat [OF demo_region(1) k(1)] k n(1) by (simp add: LOGBLOCKS_def)
  qed
  then show ?thesis using n by (simp add: home_block_def word_less_nat_alt unat_of_nat)
qed

lemma demo_bitmap_used: "v 46 = demo_bitmap \<Longrightarrow> b < 2000 \<Longrightarrow> used v demo_sb b \<longleftrightarrow> b < 48"
proof -
  assume v: "v 46 = demo_bitmap" and b: "b < 2000"
  have B: "b < BPB" "b div 8 < 1024" using b by (simp_all add: BPB_def)
  have ff: "bit (255 :: byte) k \<longleftrightarrow> k < 8" for k
  proof -
    have "(255 :: byte) = - 1" by simp
    then show ?thesis by (simp only: bit_minus_1_iff) simp
  qed
  show ?thesis
  proof (cases "b div 8 < 6")
    case True
    then have "b < 48" by linarith
    moreover have "demo_bitmap ! (b div 8) = 255" using True by (simp add: demo_bitmap_def nth_append)
    ultimately show ?thesis using v B ff [of "b mod 8"] by (simp add: used_first demo_sb_def)
  next
    case False
    then have "\<not> b < 48" by linarith
    moreover have "demo_bitmap ! (b div 8) = 0" using False B by (simp add: demo_bitmap_def nth_append)
    ultimately show ?thesis using v B by (simp add: used_first demo_sb_def)
  qed
qed

lemma demo_bitmap_ok: "v 46 = demo_bitmap \<Longrightarrow> bitmap_ok 2 v demo_sb"
proof -
  assume v: "v 46 = demo_bitmap"
  have "home_block 2 (of_nat 46)" by (rule demo_home) simp_all
  moreover have "home_block 2 (of_nat b) \<and> of_nat b \<noteq> (46 :: uint)" if "b < 2000" "48 \<le> b" for b
  proof -
    have "unat (of_nat b :: uint) = b" using that by (simp add: unat_of_nat)
    then have "of_nat b \<noteq> (46 :: uint)" using that by auto
    then show ?thesis using that demo_home [of b] by simp
  qed
  ultimately show ?thesis
    using v demo_bitmap_used [of v, OF v] by (simp add: bitmap_ok_def) (simp add: demo_sb_def demo_bitmap_def BSIZE_def)
qed

lemma demo_fsblk:
  fixes X :: "uint \<Rightarrow> byte list"
  assumes "X 46 = demo_bitmap"
  obtains t :: fsblk where "txs 1 2 t 0 {} {}" "blk 1 t = X" "sb t = demo_sb" "bitmap_ok 2 (blk 1 t) (sb t)"
    "\<not> used (blk 1 t) (sb t) 48" "\<forall>j<48. used (blk 1 t) (sb t) j" "48 < unat (sb_size (sb t))"
proof -
  obtain t :: fsblk where t: "txs 1 2 t 0 {} {}" "blk 1 t = X" "logst.more t = \<lparr>sb = demo_sb\<rparr>" by (rule txs_boot)
  have "sb t = demo_sb" using t(3) by (cases t) simp
  then show ?thesis using that [of t] t(1,2) demo_bitmap_ok [of X, OF assms] demo_bitmap_used [of X, OF assms] by (simp add: demo_sb_def)
qed

theorem balloc_correct_witness:
  "\<exists>(s :: fsblk) t. balloc (disk_rw (\<lambda>_ _. 0) blk_device) 1 s = Ok 48 t \<and> blk 1 t 48 = replicate BSIZE 0 \<and> used (blk 1 t) (sb t) 48"
proof -
  obtain s :: fsblk where s: "txs 1 2 s 0 {} {}" "blk 1 s = (\<lambda>_. demo_bitmap)" "bitmap_ok 2 (blk 1 s) (sb s)"
    "\<not> used (blk 1 s) (sb s) 48" "\<forall>j<48. used (blk 1 s) (sb s) j" "48 < unat (sb_size (sb s))"
    by (rule demo_fsblk [of "\<lambda>_. demo_bitmap"]) simp
  have drv: "block_driver (disk_rw (\<lambda>_ _. 0) (blk_device :: fsblk \<Rightarrow> fsblk))" by (rule vdisk.vrw.block_driver_axioms)
  from balloc_correct [OF drv s(1,3) _ s(6,4,5)] s(6) show ?thesis by (auto simp: NBUF_def)
qed

theorem balloc_bfree_witness:
  "\<exists>s :: fsblk. bnd (balloc (disk_rw (\<lambda>_ _. 0) blk_device) 1) (\<lambda>r. seq (bfree (disk_rw (\<lambda>_ _. 0) blk_device) 1 r)
     (bfree (disk_rw (\<lambda>_ _. 0) blk_device) 1 r)) s = Panic ''freeing free block''"
proof -
  obtain s :: fsblk where s: "txs 1 2 s 0 {} {}" "blk 1 s = (\<lambda>_. demo_bitmap)" "bitmap_ok 2 (blk 1 s) (sb s)"
    "\<not> used (blk 1 s) (sb s) 48" "\<forall>j<48. used (blk 1 s) (sb s) j" "48 < unat (sb_size (sb s))"
    by (rule demo_fsblk [of "\<lambda>_. demo_bitmap"]) simp
  have drv: "block_driver (disk_rw (\<lambda>_ _. 0) (blk_device :: fsblk \<Rightarrow> fsblk))" by (rule vdisk.vrw.block_driver_axioms)
  from balloc_bfree [OF drv s(1,3) _ s(6,4,5)] show ?thesis by (auto simp: NBUF_def)
qed

end
