(* ===== verification/Inode.thy ===== *)
theory Inode
  imports Fsblock
begin

text \<open>
  The inode layer of \<^verbatim>\<open>kernel/src/fs.c\<close>: the table of inodes in memory, the inodes on disk, the map from the blocks of a
  file to disk blocks, and reading and writing the contents of a file. \<open>struct inode\<close> is the record \<open>inode\<close>; its sleep
  lock is \<open>Inode_lk k\<close> for the entry \<open>k\<close> of \<open>itable.inode\<close>, and a \<open>struct inode *\<close> is such an index or \<open>None\<close> (null) where the
  code tests for it. \<open>short\<close> fields are 16-bit patterns; the enumeration \<open>type\<close> is 32 bits wide in memory and a \<open>short\<close> on disk.

  A \<open>struct dinode\<close> is 64 bytes: type, major, minor and nlink at 0, 2, 4, 6, size at 8, the thirteen addresses from 12.

  A call that blocks on a sleep lock gives up the processor (outcome \<open>Swtch\<close>); the theorems describe calls that do not.
\<close>

section \<open>State\<close>

definition NINODE :: nat where "NINODE = 50"
definition ROOTDEV :: uint where "ROOTDEV = 1"
definition ROOTINO :: uint where "ROOTINO = 1"
definition NDIRECT :: nat where "NDIRECT = 12"
definition NINDIRECT :: nat where "NINDIRECT = 256"
definition MAXFILE :: nat where "MAXFILE = NDIRECT + NINDIRECT"
definition IPB :: nat where "IPB = 16"

definition I_NONE :: uint where "I_NONE = 0"
definition I_DIR :: uint where "I_DIR = 1"
definition I_FILE :: uint where "I_FILE = 2"
definition I_DEVICE :: uint where "I_DEVICE = 3"

record inode =
  idev :: uint
  inum :: uint
  iref :: int
  is_valid :: bool
  itype :: uint
  imajor :: uint16
  iminor :: uint16
  inlink :: uint16
  isize :: uint
  addrs :: "nat \<Rightarrow> uint"

record fsst = fsblk +
  inodes :: "nat \<Rightarrow> inode"

record stat =
  st_dev :: uint
  st_ino :: uint
  st_type :: uint
  st_nlink :: uint16
  st_size :: uint64

type_synonym 'z fdriver = "nat \<Rightarrow> bool \<Rightarrow> ('z fsst_scheme, unit) km"

definition get_inode :: "nat \<Rightarrow> ('z fsst_scheme, inode) km" where
  "get_inode k = gets (\<lambda>s. inodes s k)"

definition set_inode :: "nat \<Rightarrow> (inode \<Rightarrow> inode) \<Rightarrow> ('z fsst_scheme, unit) km" where
  "set_inode k f = modify (\<lambda>s. s\<lparr>inodes := (inodes s)(k := f (inodes s k))\<rparr>)"

definition IBLOCK :: "uint \<Rightarrow> superblock \<Rightarrow> uint" where
  "IBLOCK i S = i div 16 + sb_inodestart S"

text \<open>The offset of an inode in its block, and the fields of a \<open>struct dinode\<close> there.\<close>

definition doff :: "uint \<Rightarrow> nat" where
  "doff i = 64 * (unat i mod IPB)"

definition put_dinode :: "nat \<Rightarrow> inode \<Rightarrow> byte list \<Rightarrow> byte list" where
  "put_dinode p I d =
     puts32 (p + 12) (map (addrs I) [0..<NDIRECT + 1]) (put32 (p + 8) (isize I) (put16 (p + 6) (inlink I) (
     put16 (p + 4) (iminor I) (put16 (p + 2) (imajor I) (put16 p (ucast (itype I)) d)))))"

definition get_dinode :: "nat \<Rightarrow> byte list \<Rightarrow> inode \<Rightarrow> inode" where
  "get_dinode p d I =
     I\<lparr>itype := scast (get16 p d), imajor := get16 (p + 2) d, iminor := get16 (p + 4) d, inlink := get16 (p + 6) d,
       isize := get32 (p + 8) d, addrs := (\<lambda>k. if k \<le> NDIRECT then get32 (p + 12 + 4 * k) d else addrs I k)\<rparr>"

section \<open>The inode table\<close>

fun iinit_loop :: "nat \<Rightarrow> nat \<Rightarrow> ('z fsst_scheme, unit) km" where
  "iinit_loop k 0 = ret ()"
| "iinit_loop k (Suc n) = seq (initsleeplock (Inode_lk k) ''inode'') (iinit_loop (Suc k) n)"

definition iinit :: "('z fsst_scheme, unit) km" where
  "iinit = seq (initlock Itable_lock ''itable'') (iinit_loop 0 NINODE)"

text \<open>The search of \<open>iget\<close>: a referenced entry for the inode (\<open>Inl\<close>), else the first free entry (\<open>Inr\<close>).\<close>

fun iget_scan :: "(nat \<Rightarrow> inode) \<Rightarrow> uint \<Rightarrow> uint \<Rightarrow> nat \<Rightarrow> nat \<Rightarrow> nat option \<Rightarrow> nat + nat option" where
  "iget_scan T dev i k 0 free = Inr free"
| "iget_scan T dev i k (Suc n) free =
     (if iref (T k) > 0 \<and> idev (T k) = dev \<and> inum (T k) = i then Inl k
      else iget_scan T dev i (Suc k) n (if free = None \<and> iref (T k) = 0 then Some k else free))"

definition iget :: "uint \<Rightarrow> uint \<Rightarrow> ('z fsst_scheme, nat) km" where
  "iget dev i =
     seq (acquire Itable_lock) (
     bnd (gets inodes) (\<lambda>T.
     case iget_scan T dev i 0 NINODE None of
       Inl k \<Rightarrow> seq (set_inode k (\<lambda>I. I\<lparr>iref := iref I + 1\<rparr>)) (seq (release Itable_lock) (ret k))
     | Inr None \<Rightarrow> panic ''iget: no inodes''
     | Inr (Some k) \<Rightarrow>
         seq (set_inode k (\<lambda>I. I\<lparr>idev := dev, inum := i, iref := 1, is_valid := False\<rparr>)) (
         seq (release Itable_lock) (
         ret k))))"

definition idup :: "nat \<Rightarrow> ('z fsst_scheme, nat) km" where
  "idup k =
     seq (acquire Itable_lock) (
     seq (set_inode k (\<lambda>I. I\<lparr>iref := iref I + 1\<rparr>)) (
     seq (release Itable_lock) (
     ret k)))"

text \<open>\<open>ialloc\<close>; the message it prints when there is no free inode is left out.\<close>

fun ialloc_loop :: "'z fdriver \<Rightarrow> uint \<Rightarrow> uint \<Rightarrow> nat \<Rightarrow> nat \<Rightarrow> ('z fsst_scheme, nat option) km" where
  "ialloc_loop rw dev type i 0 = ret None"
| "ialloc_loop rw dev type i (Suc n) =
     bnd (gets sb) (\<lambda>S.
     bnd (bread rw dev (IBLOCK (of_nat i) S)) (\<lambda>bp.
     bnd (bload bp) (\<lambda>d.
     let p = doff (of_nat i)
     in if get16 p d = 0
        then seq (bstore bp (put16 p (ucast type) (take p d @ replicate 64 0 @ drop (p + 64) d))) (
             seq (log_write bp) (
             seq (brelse bp) (
             bnd (iget dev (of_nat i)) (\<lambda>k. ret (Some k)))))
        else seq (brelse bp) (ialloc_loop rw dev type (Suc i) n))))"

definition ialloc :: "'z fdriver \<Rightarrow> uint \<Rightarrow> uint \<Rightarrow> ('z fsst_scheme, nat option) km" where
  "ialloc rw dev type = bnd (gets sb) (\<lambda>S. ialloc_loop rw dev type 1 (unat (sb_ninodes S) - 1))"

definition iupdate :: "'z fdriver \<Rightarrow> nat \<Rightarrow> ('z fsst_scheme, unit) km" where
  "iupdate rw k =
     bnd (get_inode k) (\<lambda>I.
     bnd (gets sb) (\<lambda>S.
     bnd (bread rw (idev I) (IBLOCK (inum I) S)) (\<lambda>bp.
     bnd (bload bp) (\<lambda>d.
     seq (bstore bp (put_dinode (doff (inum I)) I d)) (
     seq (log_write bp) (
     brelse bp))))))"

definition ilock :: "'z fdriver \<Rightarrow> nat option \<Rightarrow> ('z fsst_scheme, unit) km" where
  "ilock rw ip =
     (case ip of None \<Rightarrow> panic ''ilock''
      | Some k \<Rightarrow>
          bnd (get_inode k) (\<lambda>I.
          if iref I < 1 then panic ''ilock''
          else seq (acquiresleep (Inode_lk k)) (
               bnd (get_inode k) (\<lambda>I.
               whenM (\<not> is_valid I) (
                 bnd (gets sb) (\<lambda>S.
                 bnd (bread rw (idev I) (IBLOCK (inum I) S)) (\<lambda>bp.
                 bnd (bload bp) (\<lambda>d.
                 seq (set_inode k (get_dinode (doff (inum I)) d)) (
                 seq (brelse bp) (
                 seq (set_inode k (\<lambda>I. I\<lparr>is_valid := True\<rparr>)) (
                 bnd (get_inode k) (\<lambda>I.
                 whenM (itype I = 0) (panic ''ilock: no type'')))))))))))))"

definition iunlock :: "nat option \<Rightarrow> ('z fsst_scheme, unit) km" where
  "iunlock ip =
     (case ip of None \<Rightarrow> panic ''iunlock''
      | Some k \<Rightarrow>
          bnd (is_holdingsleep (Inode_lk k)) (\<lambda>h.
          bnd (get_inode k) (\<lambda>I.
          if \<not> h \<or> iref I < 1 then panic ''iunlock''
          else releasesleep (Inode_lk k))))"

section \<open>The contents of a file\<close>

text \<open>\<open>bmap\<close>, from the point where the indirect block \<open>a\<close> is known.\<close>

definition bmap_indirect :: "'z fdriver \<Rightarrow> nat \<Rightarrow> uint \<Rightarrow> nat \<Rightarrow> ('z fsst_scheme, uint) km" where
  "bmap_indirect rw k a bn =
     bnd (get_inode k) (\<lambda>I.
     bnd (bread rw (idev I) a) (\<lambda>bp.
     bnd (bload bp) (\<lambda>d.
     bnd (if get32 (4 * bn) d = 0
          then bnd (balloc rw (idev I)) (\<lambda>addr.
               if addr \<noteq> 0 then bnd (bload bp) (\<lambda>d. seq (bstore bp (put32 (4 * bn) addr d)) (seq (log_write bp) (ret addr)))
               else ret addr)
          else ret (get32 (4 * bn) d)) (\<lambda>addr.
     seq (brelse bp) (
     ret addr)))))"

definition set_addr :: "nat \<Rightarrow> nat \<Rightarrow> uint \<Rightarrow> ('z fsst_scheme, unit) km" where
  "set_addr k j a = set_inode k (\<lambda>I. I\<lparr>addrs := (addrs I)(j := a)\<rparr>)"

definition bmap :: "'z fdriver \<Rightarrow> nat \<Rightarrow> uint \<Rightarrow> ('z fsst_scheme, uint) km" where
  "bmap rw k bn =
     bnd (get_inode k) (\<lambda>I.
     if unat bn < NDIRECT
     then if addrs I (unat bn) = 0
          then bnd (balloc rw (idev I)) (\<lambda>addr.
               if addr = 0 then ret 0 else seq (set_addr k (unat bn) addr) (ret addr))
          else ret (addrs I (unat bn))
     else let bn' = unat bn - NDIRECT
          in if bn' < NINDIRECT
             then if addrs I NDIRECT = 0
                  then bnd (balloc rw (idev I)) (\<lambda>addr.
                       if addr = 0 then ret 0
                       else seq (set_addr k NDIRECT addr) (bmap_indirect rw k addr bn'))
                  else bmap_indirect rw k (addrs I NDIRECT) bn'
             else panic ''bmap: out of range'')"

fun itrunc_direct :: "'z fdriver \<Rightarrow> nat \<Rightarrow> nat \<Rightarrow> nat \<Rightarrow> ('z fsst_scheme, unit) km" where
  "itrunc_direct rw k j 0 = ret ()"
| "itrunc_direct rw k j (Suc n) =
     seq (bnd (get_inode k) (\<lambda>I.
       whenM (addrs I j \<noteq> 0) (seq (bfree rw (idev I) (addrs I j)) (set_addr k j 0)))) (
     itrunc_direct rw k (Suc j) n)"

fun itrunc_indirect :: "'z fdriver \<Rightarrow> uint \<Rightarrow> nat \<Rightarrow> nat \<Rightarrow> nat \<Rightarrow> ('z fsst_scheme, unit) km" where
  "itrunc_indirect rw dev bp j 0 = ret ()"
| "itrunc_indirect rw dev bp j (Suc n) =
     seq (bnd (bload bp) (\<lambda>d. whenM (get32 (4 * j) d \<noteq> 0) (bfree rw dev (get32 (4 * j) d)))) (
     itrunc_indirect rw dev bp (Suc j) n)"

definition itrunc :: "'z fdriver \<Rightarrow> nat \<Rightarrow> ('z fsst_scheme, unit) km" where
  "itrunc rw k =
     seq (itrunc_direct rw k 0 NDIRECT) (
     seq (bnd (get_inode k) (\<lambda>I.
       whenM (addrs I NDIRECT \<noteq> 0) (
         bnd (bread rw (idev I) (addrs I NDIRECT)) (\<lambda>bp.
         seq (itrunc_indirect rw (idev I) bp 0 NINDIRECT) (
         seq (brelse bp) (
         seq (bfree rw (idev I) (addrs I NDIRECT)) (
         set_addr k NDIRECT 0))))))) (
     seq (set_inode k (\<lambda>I. I\<lparr>isize := 0\<rparr>)) (
     iupdate rw k)))"

definition iput :: "'z fdriver \<Rightarrow> nat \<Rightarrow> ('z fsst_scheme, unit) km" where
  "iput rw k =
     seq (acquire Itable_lock) (
     bnd (get_inode k) (\<lambda>I.
     seq (whenM (iref I = 1 \<and> is_valid I \<and> inlink I = 0) (
       seq (acquiresleep (Inode_lk k)) (
       seq (release Itable_lock) (
       seq (itrunc rw k) (
       seq (set_inode k (\<lambda>I. I\<lparr>itype := 0\<rparr>)) (
       seq (iupdate rw k) (
       seq (set_inode k (\<lambda>I. I\<lparr>is_valid := False\<rparr>)) (
       seq (releasesleep (Inode_lk k)) (
       acquire Itable_lock))))))))) (
     seq (set_inode k (\<lambda>I. I\<lparr>iref := iref I - 1\<rparr>)) (
     release Itable_lock))))"

definition iunlockput :: "'z fdriver \<Rightarrow> nat \<Rightarrow> ('z fsst_scheme, unit) km" where
  "iunlockput rw k = seq (iunlock (Some k)) (iput rw k)"

definition stati :: "nat \<Rightarrow> ('z fsst_scheme, stat) km" where
  "stati k = bnd (get_inode k) (\<lambda>I.
     ret \<lparr>st_dev = idev I, st_ino = inum I, st_type = itype I, st_nlink = inlink I, st_size = ucast (isize I)\<rparr>)"

text \<open>
  Where \<open>readi\<close> copies to: a user address, a kernel address, or a variable of the caller, whose bytes are then part of the
  result; and where \<open>writei\<close> copies from.
\<close>

datatype copy_dst = To_user addr | To_mem addr | To_local
datatype copy_src = From_user addr | From_mem addr | From_local "byte list"

definition copy_to :: "copy_dst \<Rightarrow> uint \<Rightarrow> byte list \<Rightarrow> ('z fsst_scheme, int) km" where
  "copy_to dst tot bs =
     (case dst of To_user a \<Rightarrow> either_copyout True (a + ucast tot) bs (of_nat (length bs))
      | To_mem a \<Rightarrow> either_copyout False (a + ucast tot) bs (of_nat (length bs))
      | To_local \<Rightarrow> ret 0)"

definition copy_from :: "copy_src \<Rightarrow> uint \<Rightarrow> uint \<Rightarrow> ('z fsst_scheme, int \<times> byte list) km" where
  "copy_from src tot m =
     (case src of From_user a \<Rightarrow> either_copyin True (a + ucast tot) (ucast m)
      | From_mem a \<Rightarrow> either_copyin False (a + ucast tot) (ucast m)
      | From_local bs \<Rightarrow> ret (0, take (unat m) (drop (unat tot) bs)))"

text \<open>The bytes of one round: the rest of the block, at most what is left.\<close>

definition blk_chunk :: "uint \<Rightarrow> uint \<Rightarrow> uint" where
  "blk_chunk off left = min left (1024 - off mod 1024)"

definition patch :: "nat \<Rightarrow> byte list \<Rightarrow> byte list \<Rightarrow> byte list" where
  "patch k bs d = take k d @ bs @ drop (k + length bs) d"

lemma unat_blk_chunk: "unat (blk_chunk off left) = min (unat left) (1024 - unat off mod 1024)"
proof -
  have m: "unat (off mod 1024) = unat off mod 1024" by (simp add: unat_mod)
  have "off mod 1024 \<le> 1024" using m by (simp add: word_le_nat_alt)
  then have "unat (1024 - off mod 1024) = 1024 - unat off mod 1024" using m by (simp add: unat_sub)
  then show ?thesis by (simp add: blk_chunk_def min_def word_le_nat_alt)
qed

lemma blk_chunk_rest: "unat (left - blk_chunk off left) = unat left - unat (blk_chunk off left)"
  by (rule unat_sub) (simp add: word_le_nat_alt unat_blk_chunk)

lemma blk_chunk_pos: "0 < unat left \<Longrightarrow> 0 < unat (blk_chunk off left)"
  by (simp add: unat_blk_chunk)

text \<open>The loop of \<open>readi\<close>: \<open>left\<close> is \<open>n - tot\<close>; the result is the final \<open>tot\<close> and the bytes read.\<close>

function readi_loop :: "'z fdriver \<Rightarrow> nat \<Rightarrow> copy_dst \<Rightarrow> uint \<Rightarrow> uint \<Rightarrow> uint \<Rightarrow> byte list \<Rightarrow> ('z fsst_scheme, uint \<times> byte list) km" where
  "readi_loop rw k dst off left tot acc s =
     (if left = 0 then ret (tot, acc) s
      else bnd (bmap rw k (off div 1024)) (\<lambda>addr s.
        if addr = 0 then ret (tot, acc) s
        else bnd (get_inode k) (\<lambda>I s.
          bnd (bread rw (idev I) addr) (\<lambda>bp s.
          bnd (bload bp) (\<lambda>d s.
          bnd (copy_to dst tot (take (unat (blk_chunk off left)) (drop (unat (off mod 1024)) d))) (\<lambda>r s.
          bnd (brelse bp) (\<lambda>_ s.
          if r = - 1 then ret (- 1, acc) s
          else readi_loop rw k dst (off + blk_chunk off left) (left - blk_chunk off left) (tot + blk_chunk off left)
            (acc @ take (unat (blk_chunk off left)) (drop (unat (off mod 1024)) d)) s) s) s) s) s) s) s)"
  by pat_completeness auto
termination
  by (relation "measure (\<lambda>(rw, k, dst, off, left, tot, acc, s). unat left)")
    (auto simp: blk_chunk_rest unat_gt_0 intro!: diff_less blk_chunk_pos)

declare readi_loop.simps [simp del]

definition readi :: "'z fdriver \<Rightarrow> nat \<Rightarrow> copy_dst \<Rightarrow> uint \<Rightarrow> uint \<Rightarrow> ('z fsst_scheme, int \<times> byte list) km" where
  "readi rw k dst off n =
     bnd (get_inode k) (\<lambda>I.
     if off > isize I \<or> off + n < off then ret (0, [])
     else bnd (readi_loop rw k dst off (if off + n > isize I then isize I - off else n) 0 []) (\<lambda>r.
       ret (sint (fst r), snd r)))"

text \<open>
  The loop of \<open>writei\<close>; the result is the final \<open>tot\<close> and \<open>off\<close>. A copy that fails may have changed the first bytes of its part
  of the buffer, which is then released without being logged.
\<close>

function writei_loop :: "'z fdriver \<Rightarrow> nat \<Rightarrow> copy_src \<Rightarrow> uint \<Rightarrow> uint \<Rightarrow> uint \<Rightarrow> ('z fsst_scheme, uint \<times> uint) km" where
  "writei_loop rw k src off left tot s =
     (if left = 0 then ret (tot, off) s
      else bnd (bmap rw k (off div 1024)) (\<lambda>addr s.
        if addr = 0 then ret (tot, off) s
        else bnd (get_inode k) (\<lambda>I s.
          bnd (bread rw (idev I) addr) (\<lambda>bp s.
          bnd (copy_from src tot (blk_chunk off left)) (\<lambda>r s.
          bnd (bload bp) (\<lambda>d s.
          bnd (bstore bp (patch (unat (off mod 1024)) (snd r) d)) (\<lambda>_ s.
          if fst r = - 1 then bnd (brelse bp) (\<lambda>_ s. ret (tot, off) s) s
          else bnd (log_write bp) (\<lambda>_ s.
            bnd (brelse bp) (\<lambda>_ s.
            writei_loop rw k src (off + blk_chunk off left) (left - blk_chunk off left) (tot + blk_chunk off left) s) s) s) s) s) s) s) s) s)"
  by pat_completeness auto
termination
  by (relation "measure (\<lambda>(rw, k, src, off, left, tot, s). unat left)")
    (auto simp: blk_chunk_rest unat_gt_0 intro!: diff_less blk_chunk_pos)

declare writei_loop.simps [simp del]

definition writei :: "'z fdriver \<Rightarrow> nat \<Rightarrow> copy_src \<Rightarrow> uint \<Rightarrow> uint \<Rightarrow> ('z fsst_scheme, int) km" where
  "writei rw k src off n =
     bnd (get_inode k) (\<lambda>I.
     if off > isize I \<or> off + n < off then ret (- 1)
     else if unat (off + n) > MAXFILE * BSIZE then ret (- 1)
     else bnd (writei_loop rw k src off n 0) (\<lambda>r.
       seq (bnd (get_inode k) (\<lambda>I. whenM (snd r > isize I) (set_inode k (\<lambda>I. I\<lparr>isize := snd r\<rparr>)))) (
       seq (iupdate rw k) (
       ret (sint (fst r))))))"

section \<open>Inodes on disk\<close>

lemma puts32_nth: "i < k \<or> k + 4 * length ws \<le> i \<Longrightarrow> puts32 k ws bs ! i = bs ! i"
  by (induction ws arbitrary: k bs) (auto simp: put32_nth)

lemma puts32_other [byte_simps]:
  "j + 2 \<le> k \<or> k + 4 * length ws \<le> j \<Longrightarrow> get16 j (puts32 k ws bs) = get16 j bs"
  "j + 4 \<le> k \<or> k + 4 * length ws \<le> j \<Longrightarrow> get32 j (puts32 k ws bs) = get32 j bs"
  by (auto simp: get16_def get32_def puts32_nth)

lemma put_dinode_length [simp]: "length (put_dinode p I d) = length d"
  by (simp add: put_dinode_def)

text \<open>The fields of an inode that live on disk.\<close>

definition on_disk :: "inode \<Rightarrow> inode \<Rightarrow> inode" where
  "on_disk I J = J\<lparr>itype := scast (ucast (itype I) :: uint16), imajor := imajor I, iminor := iminor I, inlink := inlink I, isize := isize I,
     addrs := (\<lambda>k. if k \<le> NDIRECT then addrs I k else addrs J k)\<rparr>"

lemma get_put_dinode:
  assumes "p + 64 \<le> length d"
  shows "get_dinode p (put_dinode p I d) J = on_disk I J"
proof -
  have "get32 (p + 12 + 4 * k) (put_dinode p I d) = addrs I k" if "k \<le> NDIRECT" for k
    using puts32_at [of k "map (addrs I) [0..<NDIRECT + 1]" "p + 12"] that assms
    by (simp add: put_dinode_def NDIRECT_def del: upt_Suc)
  then have a: "(\<lambda>k. if k \<le> NDIRECT then get32 (p + 12 + 4 * k) (put_dinode p I d) else addrs J k) =
      (\<lambda>k. if k \<le> NDIRECT then addrs I k else addrs J k)" by auto
  have "get16 p (put_dinode p I d) = ucast (itype I)" "get16 (p + 2) (put_dinode p I d) = imajor I" "get16 (p + 4) (put_dinode p I d) = iminor I"
    "get16 (p + 6) (put_dinode p I d) = inlink I" "get32 (p + 8) (put_dinode p I d) = isize I"
    using assms by (simp_all add: put_dinode_def byte_simps)
  then show ?thesis unfolding get_dinode_def on_disk_def a by simp
qed

lemma get_put_dinode_other:
  assumes "q + 64 \<le> p \<or> p + 64 \<le> q"
  shows "get_dinode q (put_dinode p I d) J = get_dinode q d J"
proof -
  have "get32 (q + 12 + 4 * k) (put_dinode p I d) = get32 (q + 12 + 4 * k) d" if "k \<le> NDIRECT" for k
    using assms that by (elim disjE) (simp_all add: put_dinode_def byte_simps NDIRECT_def del: upt_Suc)
  then have a: "(\<lambda>k. if k \<le> NDIRECT then get32 (q + 12 + 4 * k) (put_dinode p I d) else addrs J k) =
      (\<lambda>k. if k \<le> NDIRECT then get32 (q + 12 + 4 * k) d else addrs J k)" by auto
  show ?thesis
    using assms unfolding get_dinode_def a by (elim disjE) (simp_all add: put_dinode_def byte_simps NDIRECT_def del: upt_Suc)
qed

lemma scast_bits: "n < 16 \<Longrightarrow> bit (scast (x :: uint16) :: uint) n = bit x n"
  by (simp add: bit_simps)

lemma scast_0_iff: "(scast (x :: uint16) :: uint) = 0 \<longleftrightarrow> x = 0"
proof
  assume z: "(scast x :: uint) = 0"
  show "x = 0"
  proof (rule bit_word_eqI)
    fix n assume "n < LENGTH(16)"
    then have "bit x n = bit (scast x :: uint) n" using scast_bits [of n x] by simp
    then show "bit x n = bit (0 :: uint16) n" unfolding z by simp
  qed
qed simp

lemma doff_bound: "doff i + 64 \<le> BSIZE"
proof -
  have "unat i mod 16 < 16" by simp
  then show ?thesis by (simp add: doff_def IPB_def BSIZE_def)
qed

lemma doff_apart: "IBLOCK i S = IBLOCK j S \<Longrightarrow> i \<noteq> j \<Longrightarrow> doff i + 64 \<le> doff j \<or> doff j + 64 \<le> doff i"
proof -
  assume a: "IBLOCK i S = IBLOCK j S" "i \<noteq> j"
  have "unat (i div 16) = unat (j div 16)" using a(1) by (simp add: IBLOCK_def)
  then have "unat i div 16 = unat j div 16" by (simp add: unat_div)
  then have "unat i mod 16 \<noteq> unat j mod 16" using a(2) by (metis div_mult_mod_eq word_unat_eq_iff)
  then have "unat i mod 16 < unat j mod 16 \<or> unat j mod 16 < unat i mod 16" by linarith
  then show ?thesis by (auto simp: doff_def IPB_def)
qed

section \<open>The table as reference counts\<close>

lemma inode_ops_run [simp]:
  "get_inode k s = Ok (inodes s k) s" "set_inode k f s = Ok () (s\<lparr>inodes := (inodes s)(k := f (inodes s k))\<rparr>)"
  "set_addr k j a s = Ok () (s\<lparr>inodes := (inodes s)(k := (inodes s k)\<lparr>addrs := (addrs (inodes s k))(j := a)\<rparr>)\<rparr>)"
  by (simp_all add: get_inode_def set_inode_def set_addr_def)

lemma wp_inode: "wp (bnd (get_inode k) f) P s = wp (f (inodes s k)) P s" "wp (bnd (gets sb) g) P s = wp (g (sb s)) P s"
  by (simp_all add: wp_def bnd_def)

lemma fsst_upd_order [simp]:
  "(s :: 'z fsst_scheme)\<lparr>inodes := x, sync := y\<rparr> = s\<lparr>sync := y, inodes := x\<rparr>" "s\<lparr>inodes := x, procs := p\<rparr> = s\<lparr>procs := p, inodes := x\<rparr>"
  "s\<lparr>inodes := x, sleeplocks := sl\<rparr> = s\<lparr>sleeplocks := sl, inodes := x\<rparr>" "s\<lparr>inodes := x, bufs := bf\<rparr> = s\<lparr>bufs := bf, inodes := x\<rparr>"
  "s\<lparr>inodes := x, md := m\<rparr> = s\<lparr>md := m, inodes := x\<rparr>" "s\<lparr>inodes := x, medium := d\<rparr> = s\<lparr>medium := d, inodes := x\<rparr>"
  "s\<lparr>inodes := x, dwrites := w\<rparr> = s\<lparr>dwrites := w, inodes := x\<rparr>" "s\<lparr>inodes := x, lg := l\<rparr> = s\<lparr>lg := l, inodes := x\<rparr>"
  by simp_all

lemma iget_scan_run:
  "iget_scan T dev i k n free =
     (case find (\<lambda>j. iref (T j) > 0 \<and> idev (T j) = dev \<and> inum (T j) = i) [k..<k + n] of
        Some j \<Rightarrow> Inl j
      | None \<Rightarrow> Inr (if free = None then find (\<lambda>j. iref (T j) = 0) [k..<k + n] else free))"
proof (induction n arbitrary: k free)
  case (Suc n)
  have u: "[k..<k + Suc n] = k # [Suc k..<Suc k + n]" by (simp add: upt_conv_Cons)
  show ?case unfolding u iget_scan.simps Suc.IH by (auto split: option.split)
qed simp

text \<open>
  No two entries in use stand for the same inode. The abstract table is the number of references to each inode.
\<close>

definition names :: "inode \<Rightarrow> uint \<Rightarrow> uint \<Rightarrow> bool" where
  "names I dev i \<longleftrightarrow> iref I > 0 \<and> idev I = dev \<and> inum I = i"

definition it_ok :: "(nat \<Rightarrow> inode) \<Rightarrow> bool" where
  "it_ok T \<longleftrightarrow> (\<forall>j<NINODE. 0 \<le> iref (T j)) \<and>
     (\<forall>j<NINODE. \<forall>k<NINODE. iref (T j) > 0 \<longrightarrow> names (T k) (idev (T j)) (inum (T j)) \<longrightarrow> j = k)"

definition irefs :: "(nat \<Rightarrow> inode) \<Rightarrow> uint \<Rightarrow> uint \<Rightarrow> int" where
  "irefs T dev i = (\<Sum>j<NINODE. if names (T j) dev i then iref (T j) else 0)"

lemma irefs_upd:
  assumes "k < NINODE"
  shows "irefs (T(k := J)) dev i = irefs T dev i - (if names (T k) dev i then iref (T k) else 0) + (if names J dev i then iref J else 0)"
proof -
  have s: "{..<NINODE} = insert k ({..<NINODE} - {k})" using assms by auto
  have "(\<Sum>j\<in>{..<NINODE} - {k}. if names ((T(k := J)) j) dev i then iref ((T(k := J)) j) else 0) =
      (\<Sum>j\<in>{..<NINODE} - {k}. if names (T j) dev i then iref (T j) else 0)" by (rule sum.cong) auto
  then show ?thesis
    unfolding irefs_def by (subst (1 2) s) (simp add: sum.insert_remove)
qed

text \<open>A step of the abstract table.\<close>

definition add_refs :: "uint \<Rightarrow> uint \<Rightarrow> int \<Rightarrow> (uint \<Rightarrow> uint \<Rightarrow> int) \<Rightarrow> uint \<Rightarrow> uint \<Rightarrow> int" where
  "add_refs dev i m R = R(dev := (R dev)(i := R dev i + m))"

lemma it_ok_count:
  assumes "it_ok T" "k < NINODE" "names (T k) dev i" "0 \<le> iref (T k) + m"
  shows "it_ok (T(k := (T k)\<lparr>iref := iref (T k) + m\<rparr>))" "irefs (T(k := (T k)\<lparr>iref := iref (T k) + m\<rparr>)) = add_refs dev i m (irefs T)"
proof -
  let ?J = "(T k)\<lparr>iref := iref (T k) + m\<rparr>"
  have n: "names ?J d n \<Longrightarrow> names (T k) d n" for d n using assms(3) by (auto simp: names_def)
  show "it_ok (T(k := ?J))"
    using assms(1,2,4) assms(3) by (auto simp: it_ok_def names_def)
  show "irefs (T(k := ?J)) = add_refs dev i m (irefs T)"
  proof (intro ext)
    fix d n
    show "irefs (T(k := ?J)) d n = add_refs dev i m (irefs T) d n"
      unfolding irefs_upd [OF assms(2)] add_refs_def using assms(3,4) by (auto simp: names_def)
  qed
qed

lemma it_ok_claim:
  assumes "it_ok T" "k < NINODE" "iref (T k) = 0" "\<forall>j<NINODE. \<not> names (T j) dev i" "idev J = dev" "inum J = i" "iref J = 1"
  shows "it_ok (T(k := J))" "irefs (T(k := J)) = add_refs dev i 1 (irefs T)"
proof -
  show "it_ok (T(k := J))" using assms by (auto simp: it_ok_def names_def)
  show "irefs (T(k := J)) = add_refs dev i 1 (irefs T)"
  proof (intro ext)
    fix d n
    show "irefs (T(k := J)) d n = add_refs dev i 1 (irefs T) d n"
      unfolding irefs_upd [OF assms(2)] add_refs_def using assms(3,5-7) by (auto simp: names_def)
  qed
qed

lemma iget_run:
  assumes "lock_free Itable_lock (sync s)" "sync_ok (sync s)"
  shows "iget dev i s =
    (case iget_scan (inodes s) dev i 0 NINODE None of
       Inl k \<Rightarrow> Ok k (s\<lparr>sync := quiet (sync s), inodes := (inodes s)(k := (inodes s k)\<lparr>iref := iref (inodes s k) + 1\<rparr>)\<rparr>)
     | Inr None \<Rightarrow> Panic ''iget: no inodes''
     | Inr (Some k) \<Rightarrow> Ok k (s\<lparr>sync := quiet (sync s),
         inodes := (inodes s)(k := (inodes s k)\<lparr>idev := dev, inum := i, iref := 1, is_valid := False\<rparr>)\<rparr>))"
  using assms by (simp add: iget_def acquire_run release_acq split: sum.split option.split)

lemma idup_run:
  assumes "lock_free Itable_lock (sync s)" "sync_ok (sync s)"
  shows "idup k s = Ok k (s\<lparr>sync := quiet (sync s), inodes := (inodes s)(k := (inodes s k)\<lparr>iref := iref (inodes s k) + 1\<rparr>)\<rparr>)"
  using assms by (simp add: idup_def acquire_run release_acq)

lemma iput_run:
  assumes "lock_free Itable_lock (sync s)" "sync_ok (sync s)"
    "\<not> (iref (inodes s k) = 1 \<and> is_valid (inodes s k) \<and> inlink (inodes s k) = 0)"
  shows "iput rw k s = Ok () (s\<lparr>sync := quiet (sync s), inodes := (inodes s)(k := (inodes s k)\<lparr>iref := iref (inodes s k) - 1\<rparr>)\<rparr>)"
proof -
  have w: "whenM (iref (inodes s k) = 1 \<and> is_valid (inodes s k) \<and> inlink (inodes s k) = 0) m = ret ()" for m :: "('z fsst_scheme, unit) km"
    unfolding whenM_def by (rule if_not_P [OF assms(3)])
  show ?thesis using assms(1,2) by (simp add: iput_def acquire_run release_acq w)
qed

lemma iget_ok:
  assumes "lock_free Itable_lock (sync s)" "sync_ok (sync s)" "it_ok (inodes s)"
  shows "if \<exists>j<NINODE. names (inodes s j) dev i \<or> iref (inodes s j) = 0
      then \<exists>j t. iget dev i s = Ok j t \<and> j < NINODE \<and> names (inodes t j) dev i \<and> it_ok (inodes t) \<and>
        irefs (inodes t) = add_refs dev i 1 (irefs (inodes s)) \<and>
        (\<forall>l. iref (inodes s l) > 0 \<longrightarrow> inodes t l = (inodes s l)\<lparr>iref := iref (inodes t l)\<rparr>) \<and>
        t = s\<lparr>sync := quiet (sync s), inodes := inodes t\<rparr>
      else iget dev i s = Panic ''iget: no inodes''"
proof -
  let ?T = "inodes s"
  note run = iget_run [OF assms(1,2), of dev i, unfolded iget_scan_run, folded names_def, simplified]
  show ?thesis
  proof (cases "find (\<lambda>j. names (?T j) dev i) [0..<NINODE]")
    case (Some j)
    then have j: "j < NINODE" "names (?T j) dev i" using find_SomeD [OF Some] by simp_all
    then have "0 \<le> iref (?T j) + 1" by (simp add: names_def)
    from it_ok_count [OF assms(3) j this] show ?thesis
      using run Some j by (auto simp: names_def)
  next
    case None
    then have no: "\<forall>j<NINODE. \<not> names (?T j) dev i" by (auto simp: find_None_iff)
    show ?thesis
    proof (cases "find (\<lambda>j. iref (?T j) = 0) [0..<NINODE]")
      case (Some j)
      then have j: "j < NINODE" "iref (?T j) = 0" using find_SomeD [OF Some] by simp_all
      let ?J = "(?T j)\<lparr>idev := dev, inum := i, iref := 1, is_valid := False\<rparr>"
      have "it_ok (?T(j := ?J))" "irefs (?T(j := ?J)) = add_refs dev i 1 (irefs ?T)"
        using it_ok_claim [OF assms(3) j no, of ?J] by simp_all
      then show ?thesis using run None Some j by (auto simp: names_def)
    next
      case None': None
      then have "\<forall>j<NINODE. iref (?T j) \<noteq> 0" by (auto simp: find_None_iff)
      then show ?thesis using run None None' no by auto
    qed
  qed
qed

text \<open>
  C8: The inode table implements a table of reference counts. On a well-formed table (counts not negative, one entry per
  inode in use), \<open>iget\<close> returns an entry for the inode with its count increased by one, or panics, exactly when the inode has no entry
  and no entry is free; it never recycles an entry in use: those keep all their fields but the count. \<open>idup\<close> adds one, \<open>iput\<close> takes
  one off (when it is not the last reference to an unlinked inode), and all three keep the table well-formed.
\<close>

theorem itable_refines:
  assumes "lock_free Itable_lock (sync s)" "sync_ok (sync s)" "it_ok (inodes s)" "k < NINODE" "names (inodes s k) dev' i'"
    "\<not> (iref (inodes s k) = 1 \<and> is_valid (inodes s k) \<and> inlink (inodes s k) = 0)"
  shows "(if \<exists>j<NINODE. names (inodes s j) dev i \<or> iref (inodes s j) = 0
      then \<exists>j t. iget dev i s = Ok j t \<and> j < NINODE \<and> names (inodes t j) dev i \<and> it_ok (inodes t) \<and>
        irefs (inodes t) = add_refs dev i 1 (irefs (inodes s)) \<and>
        (\<forall>l. iref (inodes s l) > 0 \<longrightarrow> inodes t l = (inodes s l)\<lparr>iref := iref (inodes t l)\<rparr>)
      else iget dev i s = Panic ''iget: no inodes'') \<and>
    (\<exists>t. idup k s = Ok k t \<and> it_ok (inodes t) \<and> irefs (inodes t) = add_refs dev' i' 1 (irefs (inodes s))) \<and>
    (\<exists>t. iput rw k s = Ok () t \<and> it_ok (inodes t) \<and> irefs (inodes t) = add_refs dev' i' (- 1) (irefs (inodes s)))"
proof (intro conjI)
  let ?T = "inodes s"
  show "if \<exists>j<NINODE. names (?T j) dev i \<or> iref (?T j) = 0
      then \<exists>j t. iget dev i s = Ok j t \<and> j < NINODE \<and> names (inodes t j) dev i \<and> it_ok (inodes t) \<and>
        irefs (inodes t) = add_refs dev i 1 (irefs ?T) \<and>
        (\<forall>l. iref (?T l) > 0 \<longrightarrow> inodes t l = (?T l)\<lparr>iref := iref (inodes t l)\<rparr>)
      else iget dev i s = Panic ''iget: no inodes''"
    using iget_ok [OF assms(1-3), of dev i] by (auto split: if_splits)
  have p: "0 \<le> iref (?T k) + 1" "0 \<le> iref (?T k) + - 1" using assms(5) by (simp_all add: names_def)
  show "\<exists>t. idup k s = Ok k t \<and> it_ok (inodes t) \<and> irefs (inodes t) = add_refs dev' i' 1 (irefs ?T)"
    using it_ok_count [OF assms(3-5) p(1)] by (simp add: idup_run [OF assms(1,2)])
  show "\<exists>t. iput rw k s = Ok () t \<and> it_ok (inodes t) \<and> irefs (inodes t) = add_refs dev' i' (- 1) (irefs ?T)"
    using it_ok_count [OF assms(3-5) p(2)] by (simp add: iput_run [OF assms(1,2,6)])
qed

section \<open>Inodes inside a transaction\<close>

lemma tst_frame_fs:
  assumes "tst_frame s t"
  shows "inodes (t :: 'z fsst_scheme) = inodes s" "sb t = sb s" "sleeplocks t (Inode_lk j) = sleeplocks s (Inode_lk j)"
    "pid (procs t i) = pid (procs s i)" "lock_free l (sync t) = lock_free l (sync s)" "dwrites t = dwrites s" "cwd (procs t i) = cwd (procs s i)"
proof -
  have b: "bframe s (t\<lparr>lg := lg s\<rparr>)" and d: "dwrites t = dwrites s" using assms by (simp_all add: tst_frame_def)
  have e: "t\<lparr>lg := lg s, sync := sync s, procs := procs s, sleeplocks := sleeplocks s, bufs := bufs s, md := md s, medium := medium s,
       dwrites := dwrites s\<rparr> = s" using b by (simp add: bframe_def)
  show "inodes t = inodes s" using arg_cong [OF e, of inodes] by simp
  show "sb t = sb s" using arg_cong [OF e, of sb] by simp
  show "sleeplocks t (Inode_lk j) = sleeplocks s (Inode_lk j)" using b by (simp add: bframe_def)
  show "pid (procs t i) = pid (procs s i)" using bframe_pid [OF b, of i] by simp
  show "lock_free l (sync t) = lock_free l (sync s)" using bframe_syncD(1) [OF b, of l] by simp
  show "dwrites t = dwrites s" by (rule d)
  have "(procs t i)\<lparr>pstate := UNUSED, pchan := No_chan\<rparr> = (procs s i)\<lparr>pstate := UNUSED, pchan := No_chan\<rparr>"
    using b by (simp add: bframe_def psame_def)
  from arg_cong [OF this, of cwd] show "cwd (procs t i) = cwd (procs s i)" by simp
qed

lemma blk_fs [simp]: "blk D ((s :: 'z fsst_scheme)\<lparr>inodes := x\<rparr>) = blk D s"
  "blk D (s\<lparr>sleeplocks := f\<rparr>) = blk D s" "blk D (s\<lparr>sync := y\<rparr>) = blk D s" "blk D (s\<lparr>procs := p\<rparr>) = blk D s"
  by (rule blk_same; simp)+

text \<open>The state between two calls of this layer: no buffer held, the locks of the table and of the inodes free.\<close>

definition itx :: "uint \<Rightarrow> uint \<Rightarrow> 'z fsst_scheme \<Rightarrow> nat \<Rightarrow> uint set \<Rightarrow> bool" where
  "itx D st s i W \<longleftrightarrow> txs D st s i {} W \<and> (\<forall>k. lock_free (Inode_lk k) (sync s)) \<and> lock_free Itable_lock (sync s)"

definition imine :: "'z fsst_scheme \<Rightarrow> nat \<Rightarrow> nat \<Rightarrow> bool" where
  "imine s i k \<longleftrightarrow> sl_locked (sleeplocks s (Inode_lk k)) \<noteq> 0 \<and> sl_pid (sleeplocks s (Inode_lk k)) = pid (procs s i)"

lemma txs_running: "txs D st s i H W \<Longrightarrow> running s i"
  by (auto simp: txs_def tst_def bst_def bheld_def)

lemma txs_inodes [simp]: "txs D st ((s :: 'z fsst_scheme)\<lparr>inodes := x\<rparr>) i H W = txs D st s i H W"
  by (simp add: txs_def tst_def bst_def binv_def bheld_def running_def cur_def)

lemma itx_inodes [simp]: "itx D st (s\<lparr>inodes := x\<rparr>) i W = itx D st s i W"
  by (simp add: itx_def)

lemma txs_move:
  assumes "txs D st s i H W" "bst D s i H W \<Longrightarrow> bst D t i H' W" "lg t = lg s" "lock_free Log_lock (sync s) \<Longrightarrow> lock_free Log_lock (sync t)"
  shows "txs D st t i H' W"
proof -
  obtain n where n: "tst D s i H n" "W = lh_block (lh (lg s)) ` {..<n}" "bst D s i H W" using txsD [OF assms(1)] by blast
  have "tst D t i H' n" using n assms(2-4) by (simp add: tst_def)
  then show ?thesis using n(2) assms(1,3) by (auto simp: txs_def)
qed

lemma txs_quiet: "txs D st s i H W \<Longrightarrow> txs D st (s\<lparr>sync := quiet (sync s)\<rparr>) i H W"
  by (erule txs_move) (simp_all add: bst_quiet)

lemma itx_frame: "itx D st s i W \<Longrightarrow> tst_frame s t \<Longrightarrow> txs D st t i {} W' \<Longrightarrow> itx D st t i W'"
  using tst_frame_fs(5) by (auto simp: itx_def)

lemma itx_quiet: "itx D st s i W \<Longrightarrow> itx D st (s\<lparr>sync := quiet (sync s)\<rparr>) i W"
  by (simp add: itx_def txs_quiet)

lemma itx_sleep:
  assumes "itx D st s i W"
  shows "itx D st (s\<lparr>sleeplocks := (sleeplocks s)(Inode_lk k := x)\<rparr>) i W"
  using assms by (simp add: itx_def txs_def tst_def bst_def binv_def bheld_def)

lemma itx_procs:
  assumes "itx D st s i W" "psame (procs s) p"
  shows "itx D st (s\<lparr>procs := p\<rparr>) i W"
  using assms txs_move [of D st s i "{}" W "s\<lparr>procs := p\<rparr>" "{}"] bst_wake [OF _ assms(2)] by (simp add: itx_def)

locale inode_disk = fs_disk rw for rw :: "'z fdriver"
begin

lemma iupdate_ok:
  assumes "txs D st s i H W" "idev (inodes s k) = D" "\<forall>b\<in>H. blockno (bufs s b) \<noteq> IBLOCK (inum (inodes s k)) (sb s)"
    "card H + card W < NBUF" "card W < LOGBLOCKS" "home_block st (IBLOCK (inum (inodes s k)) (sb s))"
    and k: "\<And>t. txs D st t i H (insert (IBLOCK (inum (inodes s k)) (sb s)) W) \<Longrightarrow>
      blk D t = (blk D s)(IBLOCK (inum (inodes s k)) (sb s) := put_dinode (doff (inum (inodes s k))) (inodes s k) (blk D s (IBLOCK (inum (inodes s k)) (sb s)))) \<Longrightarrow>
      tx.held H s t \<Longrightarrow> tst_frame s t \<Longrightarrow> P () t"
  shows "wp (iupdate rw k) P s"
  unfolding iupdate_def wp_inode assms(2)
  by (rule tx.update_block_end [OF assms(1,3,4,5,6)]) (use k in simp)

lemma ilock_ok:
  assumes "itx D st s i W" "1 \<le> iref (inodes s k)" "sl_locked (sleeplocks s (Inode_lk k)) = 0" "\<not> is_valid (inodes s k)"
    "idev (inodes s k) = D" "card W < NBUF" "IBLOCK (inum (inodes s k)) (sb s) < 2 ^ 31"
    "get16 (doff (inum (inodes s k))) (blk D s (IBLOCK (inum (inodes s k)) (sb s))) \<noteq> 0"
  shows "wp (ilock rw (Some k)) (\<lambda>_ t. itx D st t i W \<and> blk D t = blk D s \<and> sb t = sb s \<and> dwrites t = dwrites s \<and> imine t i k \<and>
    inodes t = (inodes s)(k := (get_dinode (doff (inum (inodes s k))) (blk D s (IBLOCK (inum (inodes s k)) (sb s))) (inodes s k))\<lparr>is_valid := True\<rparr>) \<and>
    (\<forall>j. j \<noteq> k \<longrightarrow> sleeplocks t (Inode_lk j) = sleeplocks s (Inode_lk j)) \<and> pid (procs t i) = pid (procs s i)) s"
proof -
  let ?I = "inodes s k" let ?n = "IBLOCK (inum ?I) (sb s)" let ?d = "blk D s ?n"
  have tx: "txs D st s i {} W" "lock_free (Inode_lk k) (sync s)" using assms(1) by (simp_all add: itx_def)
  have run: "running s i" by (rule txs_running [OF tx(1)])
  define s1 where "s1 = s\<lparr>sync := quiet (sync s), sleeplocks := (sleeplocks s)(Inode_lk k := (sleeplocks s (Inode_lk k))\<lparr>sl_locked := 1, sl_pid := pid (procs s i)\<rparr>)\<rparr>"
  have a: "acquiresleep (Inode_lk k) s = Ok () s1"
    using acquiresleep_free_run [OF run tx(2) _ assms(3)] by (simp add: s1_def proc_free_lock_def)
  have i1: "itx D st s1 i W" using itx_sleep [OF itx_quiet [OF assms(1)]] by (simp add: s1_def)
  have f1: "inodes s1 = inodes s" "sb s1 = sb s" "blk D s1 = blk D s" "dwrites s1 = dwrites s" "procs s1 = procs s" by (simp_all add: s1_def)
  have t1: "txs D st s1 i {} W" using i1 by (simp add: itx_def)
  obtain bp t where t: "bread rw D ?n s1 = Ok bp t" "txs D st t i {bp} W" "blockno (bufs t bp) = ?n" "bdata (bufs t bp) = ?d" "blk D t = blk D s"
    "medium t = medium s1" "tst_frame s1 t"
    using bread_tx [OF t1 _ _ assms(7)] assms(6) f1 by (auto simp: wp_iff)
  define J where "J = get_dinode (doff (inum ?I)) ?d ?I"
  define u where "u = t\<lparr>inodes := (inodes t)(k := J)\<rparr>"
  have tu: "txs D st u i {bp} W" using t(2) by (simp add: u_def)
  have cl: "blockno (bufs u bp) \<in> W \<or> bdata (bufs u bp) = medium u (blockno (bufs u bp))"
    using tx.clean [OF t1, of ?n] t f1 by (auto simp: u_def)
  obtain v where v: "brelse bp u = Ok () v" "txs D st v i {} W" "blk D v = blk D u" "tst_frame u v"
    using tx.rel [OF tu _ cl] by (auto simp: wp_iff)
  note F = tst_frame_fs [OF v(4)] and G = tst_frame_fs [OF t(7)]
  have inv: "inodes v = (inodes s)(k := J)" using F(1) G(1) f1 by (simp add: u_def)
  have J: "itype J \<noteq> 0"
  proof -
    have "(scast (get16 (doff (inum ?I)) ?d) :: uint) \<noteq> 0" using assms(8) by (simp add: scast_0_iff)
    then show ?thesis by (simp add: J_def get_dinode_def)
  qed
  have e: "ilock rw (Some k) s = Ok () (v\<lparr>inodes := (inodes s)(k := J\<lparr>is_valid := True\<rparr>)\<rparr>)"
    using a t(1,4) v(1) assms(2,4,5) f1 G(1) inv J by (simp add: ilock_def u_def [symmetric] J_def [symmetric]) (simp add: u_def)
  have iv: "itx D st v i W"
    using i1 v(2) F(5) G(5) by (simp add: itx_def u_def)
  have ds: "dwrites v = dwrites s" "sb v = sb s" "pid (procs v i) = pid (procs s i)"
    using F(2,4,6) G(2,4,6) f1 by (simp_all add: u_def)
  have sl: "sleeplocks v (Inode_lk j) = sleeplocks s1 (Inode_lk j)" for j using F(3) G(3) by (simp add: u_def)
  have "imine v i k" using sl [of k] ds by (simp add: imine_def s1_def)
  moreover have "\<forall>j. j \<noteq> k \<longrightarrow> sleeplocks v (Inode_lk j) = sleeplocks s (Inode_lk j)" using sl by (simp add: s1_def)
  ultimately show ?thesis
    unfolding wp_iff using e iv v(3) t(5) ds by (simp add: J_def imine_def) (simp add: u_def)
qed

end

definition iunlocked :: "nat \<Rightarrow> nat \<Rightarrow> 'z fsst_scheme \<Rightarrow> 'z fsst_scheme" where
  "iunlocked i k s = s\<lparr>sync := quiet (sync s), procs := awaken (Some i) (Sleeplock_chan (Inode_lk k)) 0 NPROC (procs s),
     sleeplocks := (sleeplocks s)(Inode_lk k := (sleeplocks s (Inode_lk k))\<lparr>sl_locked := 0, sl_pid := 0\<rparr>)\<rparr>"

lemma iunlock_run:
  assumes "itx D st s i W" "imine s i k" "1 \<le> iref (inodes s k)"
  shows "iunlock (Some k) s = Ok () (iunlocked i k s)"
proof -
  have r: "running s i" "lock_free (Inode_lk k) (sync s)" using assms(1) txs_running by (auto simp: itx_def)
  let ?t = "s\<lparr>sync := quiet (sync s)\<rparr>"
  have "releasesleep (Inode_lk k) ?t = Ok () (iunlocked i k s)"
    using releasesleep_run [of ?t i "Inode_lk k"] r by (simp add: iunlocked_def proc_free_lock_def)
  then show ?thesis
    using is_holdingsleep_run [OF r] assms(2,3) by (simp add: iunlock_def imine_def)
qed

lemma iunlocked_simps [simp]:
  "inodes (iunlocked i k s) = inodes s" "sb (iunlocked i k s) = sb s" "blk D (iunlocked i k s) = blk D s" "dwrites (iunlocked i k s) = dwrites s"
  "sl_locked (sleeplocks (iunlocked i k s) (Inode_lk j)) = (if j = k then 0 else sl_locked (sleeplocks s (Inode_lk j)))"
  by (simp_all add: iunlocked_def)

lemma itx_unlocked: "itx D st s i W \<Longrightarrow> itx D st (iunlocked i k s) i W"
  using itx_sleep [OF itx_procs [OF itx_quiet, of D st s i W], of "awaken (Some i) (Sleeplock_chan (Inode_lk k)) 0 NPROC (procs s)"]
  by (simp add: iunlocked_def psame_awaken)

lemma on_disk_again: "on_disk ((on_disk I J)\<lparr>is_valid := v\<rparr>) X = on_disk I X"
proof -
  have sc: "(ucast (scast (x :: uint16) :: uint) :: uint16) = x" for x by (rule bit_word_eqI) (simp add: bit_simps)
  define Y where "Y = (on_disk I J)\<lparr>is_valid := v\<rparr>"
  have f: "itype Y = scast (ucast (itype I) :: uint16)" "imajor Y = imajor I" "iminor Y = iminor I" "inlink Y = inlink I" "isize Y = isize I"
    by (simp_all add: Y_def on_disk_def)
  have a: "addrs Y = (\<lambda>k. if k \<le> NDIRECT then addrs I k else addrs J k)" by (simp add: Y_def on_disk_def)
  have "(\<lambda>k. if k \<le> NDIRECT then addrs Y k else addrs X k) = (\<lambda>k. if k \<le> NDIRECT then addrs I k else addrs X k)" unfolding a by auto
  then have "on_disk Y X = on_disk I X" unfolding on_disk_def f sc by simp
  then show ?thesis by (simp add: Y_def)
qed

lemma on_disk_keeps: "idev (on_disk I J) = idev J" "inum (on_disk I J) = inum J" "iref (on_disk I J) = iref J"
  by (simp_all add: on_disk_def)

text \<open>
  C10: An inode outlives its place in the table. The holder of an inode that writes it back with \<open>iupdate\<close>, gives up the lock and
  the last reference, and then gets the inode again and locks it, finds in the entry (a new one, read from disk) exactly the
  type, device numbers, link count, size and addresses that were written.
\<close>

theorem inode_survives:
  fixes s :: "'z fsst_scheme"
  assumes "block_driver rw" "itx D st s i W" "imine s i k" "k < NINODE" "names (inodes s k) D n" "iref (inodes s k) = 1" "inlink (inodes s k) \<noteq> 0"
    "(ucast (itype (inodes s k)) :: uint16) \<noteq> 0" "it_ok (inodes s)" "\<forall>j. iref (inodes s j) = 0 \<longrightarrow> sl_locked (sleeplocks s (Inode_lk j)) = 0"
    "home_block st (IBLOCK n (sb s))" "length (blk D s (IBLOCK n (sb s))) = BSIZE" "card W + 1 < NBUF"
  shows "\<exists>j t. seq (iupdate rw k) (seq (iunlockput rw k) (bnd (iget D n) (\<lambda>j. seq (ilock rw (Some j)) (ret j)))) s = Ok j t \<and>
    names (inodes t j) D n \<and> is_valid (inodes t j) \<and> imine t i j \<and> on_disk (inodes t j) X = on_disk (inodes s k) X"
proof -
  have ld: "inode_disk rw" using assms(1) by (simp add: inode_disk_def fs_disk_def log_disk_def)
  let ?I = "inodes s k" let ?b = "IBLOCK n (sb s)" let ?d = "put_dinode (doff n) ?I (blk D s ?b)"
  have I: "idev ?I = D" "inum ?I = n" using assms(5) by (simp_all add: names_def)
  have card: "card ({} :: nat set) + card W < NBUF" "card W < LOGBLOCKS" "card (insert ?b W) < NBUF"
    using assms(13) card_insert_le_m1 [of "card W + 1" W ?b] by (simp_all add: NBUF_def LOGBLOCKS_def)
  have "wp (iupdate rw k) (\<lambda>_ t. txs D st t i {} (insert ?b W) \<and> blk D t = (blk D s)(?b := ?d) \<and> tst_frame s t) s"
    by (rule inode_disk.iupdate_ok [OF ld, of D st s i "{}" W]) (use assms(2,11) I card in \<open>simp_all add: itx_def\<close>)
  then obtain t1 where t1: "iupdate rw k s = Ok () t1" "txs D st t1 i {} (insert ?b W)" "blk D t1 = (blk D s)(?b := ?d)" "tst_frame s t1" by (auto simp: wp_iff)
  note F = tst_frame_fs [OF t1(4)]
  have i1: "itx D st t1 i (insert ?b W)" by (rule itx_frame [OF assms(2) t1(4,2)])
  have m1: "imine t1 i k" using assms(3) F by (simp add: imine_def)
  let ?t2 = "iunlocked i k t1"
  have t2: "iunlock (Some k) t1 = Ok () ?t2" by (rule iunlock_run [OF i1 m1]) (simp add: F assms(6))
  have i2: "itx D st ?t2 i (insert ?b W)" by (rule itx_unlocked [OF i1])
  have y: "lock_free Itable_lock (sync u)" "sync_ok (sync u)" if "itx D st u i V" for u V
    using that txs_running [of D st u i "{}" V] by (auto simp: itx_def running_def procs_free_def)
  let ?T = "(inodes s)(k := ?I\<lparr>iref := 0\<rparr>)"
  define t3 where "t3 = ?t2\<lparr>sync := quiet (sync ?t2), inodes := ?T\<rparr>"
  have t3: "iput rw k ?t2 = Ok () t3" using iput_run [OF y [OF i2], of k rw] assms(6,7) F by (simp add: t3_def)
  have i3: "itx D st t3 i (insert ?b W)" using itx_quiet [OF i2] by (simp add: t3_def)
  have none: "find (\<lambda>j. names (?T j) D n) [0..<NINODE] = None"
  proof -
    have "\<not> names (?T j) D n" if "j < NINODE" for j
      using assms(4,5,6,9) that by (auto simp: it_ok_def names_def)
    then show ?thesis by (simp add: find_None_iff)
  qed
  have "find (\<lambda>j. iref (?T j) = 0) [0..<NINODE] \<noteq> None" using assms(4) by (auto simp: find_None_iff intro!: exI [of _ k])
  then obtain j where f: "find (\<lambda>j. iref (?T j) = 0) [0..<NINODE] = Some j" by blast
  then have j: "iref (?T j) = 0" using find_SomeD [OF f] by simp
  define J where "J = (?T j)\<lparr>idev := D, inum := n, iref := 1, is_valid := False\<rparr>"
  define t4 where "t4 = t3\<lparr>sync := quiet (sync t3), inodes := ?T(j := J)\<rparr>"
  have t4: "iget D n t3 = Ok j t4"
    using iget_run [OF y [OF i3], of D n, unfolded iget_scan_run, folded names_def] none f by (simp add: t3_def t4_def J_def)
  have i4: "itx D st t4 i (insert ?b W)" using itx_quiet [OF i3] by (simp add: t4_def)
  have f4: "inodes t4 j = J" "sb t4 = sb s" "blk D t4 = (blk D s)(?b := ?d)" "sl_locked (sleeplocks t4 (Inode_lk j)) = 0"
    using F t1(3) assms(10) j by (auto simp: t4_def t3_def split: if_splits)
  have gp: "get_dinode (doff n) ?d Z = on_disk ?I Z" for Z by (rule get_put_dinode) (use doff_bound assms(12) in simp)
  have d0: "get16 (doff n) ?d \<noteq> 0"
    using arg_cong [OF gp [of J], of itype] assms(8) by (simp add: get_dinode_def on_disk_def scast_0_iff) (metis scast_0_iff)
  have "wp (ilock rw (Some j)) (\<lambda>_ t. imine t i j \<and> inodes t j = (on_disk ?I J)\<lparr>is_valid := True\<rparr>) t4"
    using inode_disk.ilock_ok [OF ld i4, of j] card(3) assms(11) [unfolded home_block_def] d0 gp [of J] f4 by (auto simp: J_def elim: wp_mono)
  then obtain t where t: "ilock rw (Some j) t4 = Ok () t" "imine t i j" "inodes t j = (on_disk ?I J)\<lparr>is_valid := True\<rparr>" by (auto simp: wp_iff)
  have "seq (iupdate rw k) (seq (iunlockput rw k) (bnd (iget D n) (\<lambda>j. seq (ilock rw (Some j)) (ret j)))) s = Ok j t"
    using t1(1) t2 t3 t4 t(1) by (simp add: iunlockput_def)
  moreover have "names (inodes t j) D n" "is_valid (inodes t j)" "on_disk (inodes t j) X = on_disk ?I X"
    unfolding t(3) by (simp_all add: on_disk_keeps on_disk_again names_def) (simp_all add: J_def)
  ultimately show ?thesis using t(2) by blast
qed

text \<open>A file system with one file in use, for the witnesses: inode 5 in entry 3, one block, 100 bytes.\<close>

definition demo_inode :: inode where
  "demo_inode = \<lparr>idev = 1, inum = 5, iref = 1, is_valid = True, itype = 2, imajor = 0, iminor = 0, inlink = 1, isize = 100,
     addrs = (\<lambda>_. 0)(0 := 50)\<rparr>"

definition demo_table :: "nat \<Rightarrow> inode" where
  "demo_table = (\<lambda>_. demo_inode\<lparr>iref := 0, is_valid := False\<rparr>)(3 := demo_inode)"

lemma demo_fsst:
  obtains s :: fsst where "itx 1 2 s 0 {}" "blk 1 s = X" "sb s = demo_sb" "inodes s = T"
    "\<forall>k. sl_locked (sleeplocks s (Inode_lk k)) = 0"
proof -
  obtain s :: fsst where s: "txs 1 2 s 0 {} {}" "blk 1 s = X" "logst.more s = \<lparr>sb = demo_sb, inodes = T\<rparr>" "\<forall>l. lock_free l (sync s)"
    "\<forall>k. sl_locked (sleeplocks s (Inode_lk k)) = 0" by (rule txs_boot)
  have "sb s = demo_sb" "inodes s = T" using s(3) by (cases s; simp)+
  then show ?thesis using that [of s] s by (simp add: itx_def)
qed

lemma demo_table_ok: "it_ok demo_table" "names (demo_table 3) 1 5"
  by (auto simp: it_ok_def demo_table_def names_def demo_inode_def)

lemma demo_iblock: "IBLOCK 5 demo_sb = 33" "home_block 2 33"
  using demo_home [of 33] by (simp_all add: IBLOCK_def demo_sb_def)

theorem itable_refines_witness:
  "\<exists>(s :: fsst) j t u. iget 1 5 s = Ok j t \<and> irefs (inodes t) 1 5 = irefs (inodes s) 1 5 + 1 \<and>
     iput (disk_rw (\<lambda>_ _. 0) blk_device) 3 s = Ok () u \<and> irefs (inodes u) 1 5 = irefs (inodes s) 1 5 - 1"
proof -
  obtain s :: fsst where s: "itx 1 2 s 0 {}" "inodes s = demo_table" by (rule demo_fsst)
  have y: "lock_free Itable_lock (sync s)" "sync_ok (sync s)"
    using s(1) txs_running [of 1 2 s 0 "{}" "{}"] by (auto simp: itx_def running_def procs_free_def)
  have ok: "it_ok (inodes s)" "(3 :: nat) < NINODE" "names (inodes s 3) 1 5" using demo_table_ok s(2) by (simp_all add: NINODE_def)
  have "\<not> (iref (inodes s 3) = 1 \<and> is_valid (inodes s 3) \<and> inlink (inodes s 3) = 0)" by (simp add: s(2) demo_table_def demo_inode_def)
  note r = itable_refines [OF y ok this, of 1 5 "disk_rw (\<lambda>_ _. 0) blk_device"]
  have "\<exists>j<NINODE. names (inodes s j) 1 5 \<or> iref (inodes s j) = 0" using ok(2,3) by blast
  then obtain j t where t: "iget 1 5 s = Ok j t" "irefs (inodes t) = add_refs 1 5 1 (irefs (inodes s))"
    using r [THEN conjunct1] by (simp only: if_True) blast
  obtain u where u: "iput (disk_rw (\<lambda>_ _. 0) blk_device) 3 s = Ok () u" "irefs (inodes u) = add_refs 1 5 (- 1) (irefs (inodes s))"
    using r by blast
  have "irefs (inodes t) 1 5 = irefs (inodes s) 1 5 + 1" "irefs (inodes u) 1 5 = irefs (inodes s) 1 5 - 1"
    unfolding t(2) u(2) by (simp_all add: add_refs_def)
  then show ?thesis using t(1) u(1) by blast
qed

theorem inode_survives_witness:
  "\<exists>(s :: fsst) j t. seq (iupdate (disk_rw (\<lambda>_ _. 0) blk_device) 3) (seq (iunlockput (disk_rw (\<lambda>_ _. 0) blk_device) 3)
     (bnd (iget 1 5) (\<lambda>j. seq (ilock (disk_rw (\<lambda>_ _. 0) blk_device) (Some j)) (ret j)))) s = Ok j t \<and> isize (inodes t j) = 100"
proof -
  obtain s0 :: fsst where s0: "itx 1 2 s0 0 {}" "blk 1 s0 = (\<lambda>_. replicate 1024 0)" "sb s0 = demo_sb" "inodes s0 = demo_table"
    "\<forall>k. sl_locked (sleeplocks s0 (Inode_lk k)) = 0" by (rule demo_fsst)
  define s where "s = s0\<lparr>sleeplocks := (sleeplocks s0)(Inode_lk 3 := \<lparr>sl_locked = 1, sl_name = [], sl_pid = pid (procs s0 0)\<rparr>)\<rparr>"
  have s: "itx 1 2 s 0 {}" using itx_sleep [OF s0(1)] by (simp add: s_def)
  have f: "blk 1 s = (\<lambda>_. replicate 1024 0)" "sb s = demo_sb" "inodes s = demo_table" using s0 by (simp_all add: s_def)
  have drv: "block_driver (disk_rw (\<lambda>_ _. 0) (blk_device :: fsst \<Rightarrow> fsst))" by (rule vdisk.vrw.block_driver_axioms)
  have m: "imine s 0 3" by (simp add: imine_def s_def)
  have p: "(3 :: nat) < NINODE" "names (inodes s 3) 1 5" "iref (inodes s 3) = 1" "inlink (inodes s 3) \<noteq> 0" "(ucast (itype (inodes s 3)) :: uint16) \<noteq> 0"
    "it_ok (inodes s)" using demo_table_ok f(3) by (simp_all add: NINODE_def) (simp_all add: demo_table_def demo_inode_def)
  have q: "\<forall>j. iref (inodes s j) = 0 \<longrightarrow> sl_locked (sleeplocks s (Inode_lk j)) = 0"
    unfolding f(3) using s0(5) by (simp add: s_def demo_table_def demo_inode_def)
  have r: "home_block 2 (IBLOCK 5 (sb s))" "length (blk 1 s (IBLOCK 5 (sb s))) = BSIZE" "card ({} :: uint set) + 1 < NBUF"
    using demo_iblock f by (simp_all add: BSIZE_def NBUF_def)
  obtain j t where t: "seq (iupdate (disk_rw (\<lambda>_ _. 0) blk_device) 3) (seq (iunlockput (disk_rw (\<lambda>_ _. 0) blk_device) 3)
     (bnd (iget 1 5) (\<lambda>j. seq (ilock (disk_rw (\<lambda>_ _. 0) blk_device) (Some j)) (ret j)))) s = Ok j t"
     "on_disk (inodes t j) demo_inode = on_disk (inodes s 3) demo_inode"
    using inode_survives [OF drv s m p q r, of demo_inode] by blast
  have "isize (inodes t j) = isize (inodes s 3)" using arg_cong [OF t(2), of isize] by (simp add: on_disk_def)
  then show ?thesis using t(1) f(3) by (auto simp: demo_table_def demo_inode_def)
qed

end
