(* ===== verification/Pipe.thy ===== *)
theory Pipe
  imports Inode
begin

text \<open>
  Pipes, \<^verbatim>\<open>kernel/src/pipe.c\<close>. A \<open>struct pipe\<close> occupies a page from \<open>kalloc\<close>; the field \<open>pipes\<close> of the state holds its
  contents, by the address of the page (the bytes of the page itself are not mirrored in \<open>mem\<close>). The two counters are
  32-bit and wrap; the ring index is the counter modulo 512.

  A call that has to wait gives up the processor in \<open>sleep\<close>; the process goes on with the \<open>_resume\<close> function, at the point
  of the loop where it slept. \<open>pipeclose\<close> is three parts, the marking under the pipe's lock, the test after the
  lock is released, and \<open>kfree\<close>: another hart may run between them.

  The abstract pipe is the queue \<open>pq\<close> of the bytes written and not yet read. \<open>pipealloc\<close> is in the theory File.
\<close>

section \<open>State and operations\<close>

definition PIPESIZE :: nat where "PIPESIZE = 512"

record pipe =
  pdata :: "nat \<Rightarrow> byte"
  nread :: uint
  nwrite :: uint
  is_readopen :: bool
  is_writeopen :: bool

record pipest = fsst +
  pipes :: "addr \<Rightarrow> pipe"

definition get_pipe :: "addr \<Rightarrow> ('z pipest_scheme, pipe) km" where
  "get_pipe pi = gets (\<lambda>s. pipes s pi)"

definition set_pipe :: "addr \<Rightarrow> (pipe \<Rightarrow> pipe) \<Rightarrow> ('z pipest_scheme, unit) km" where
  "set_pipe pi f = modify (\<lambda>s. s\<lparr>pipes := (pipes s)(pi := f (pipes s pi))\<rparr>)"

definition pipeclose_mark :: "addr \<Rightarrow> bool \<Rightarrow> ('z pipest_scheme, unit) km" where
  "pipeclose_mark pi is_writeable =
     seq (acquire (Pipe_lock pi)) (
     seq (if is_writeable
          then seq (set_pipe pi (\<lambda>p. p\<lparr>is_writeopen := False\<rparr>)) (wakeup (Pipe_nread pi))
          else seq (set_pipe pi (\<lambda>p. p\<lparr>is_readopen := False\<rparr>)) (wakeup (Pipe_nwrite pi))) (
     release (Pipe_lock pi)))"

definition pipeclose_unused :: "addr \<Rightarrow> ('z pipest_scheme, bool) km" where
  "pipeclose_unused pi = bnd (get_pipe pi) (\<lambda>p. ret (\<not> is_readopen p \<and> \<not> is_writeopen p))"

definition pipeclose :: "addr \<Rightarrow> bool \<Rightarrow> ('z pipest_scheme, unit) km" where
  "pipeclose pi is_writeable =
     seq (pipeclose_mark pi is_writeable) (
     bnd (pipeclose_unused pi) (\<lambda>unused.
     whenM unused (kfree pi)))"

text \<open>The end of \<open>pipewrite\<close>, after its loop.\<close>

definition pipewrite_end :: "addr \<Rightarrow> int \<Rightarrow> ('z pipest_scheme, int) km" where
  "pipewrite_end pi i =
     seq (wakeup (Pipe_nread pi)) (
     seq (release (Pipe_lock pi)) (
     ret i))"

definition put_byte :: "byte \<Rightarrow> pipe \<Rightarrow> pipe" where
  "put_byte c p = p\<lparr>pdata := (pdata p)(unat (nwrite p) mod PIPESIZE := c), nwrite := nwrite p + 1\<rparr>"

fun pipewrite_loop :: "addr \<Rightarrow> nat \<Rightarrow> addr \<Rightarrow> int \<Rightarrow> nat \<Rightarrow> ('z pipest_scheme, int) km" where
  "pipewrite_loop pi pr a i 0 = pipewrite_end pi i"
| "pipewrite_loop pi pr a i (Suc k) =
     bnd (get_pipe pi) (\<lambda>p.
     bnd (if \<not> is_readopen p then ret True else killed pr) (\<lambda>stop.
     if stop then seq (release (Pipe_lock pi)) (ret (- 1))
     else if nwrite p = nread p + of_nat PIPESIZE
     then seq (wakeup (Pipe_nread pi)) (seq (sleep (Pipe_nwrite pi) (Pipe_lock pi)) (ret i))
     else bnd (get_proc pr) (\<lambda>q.
       bnd (copyin (pagetable q) (a + word_of_int i) 1 []) (\<lambda>r.
       if fst r = - 1 then pipewrite_end pi i
       else seq (set_pipe pi (put_byte (hd (snd r)))) (
            pipewrite_loop pi pr a (i + 1) k)))))"

definition pipewrite :: "addr \<Rightarrow> addr \<Rightarrow> int \<Rightarrow> ('z pipest_scheme, int) km" where
  "pipewrite pi a n =
     bnd this_proc (\<lambda>pr.
     seq (acquire (Pipe_lock pi)) (
     pipewrite_loop pi pr a 0 (nat n)))"

definition pipewrite_resume :: "bool \<Rightarrow> addr \<Rightarrow> nat \<Rightarrow> addr \<Rightarrow> int \<Rightarrow> int \<Rightarrow> ('z pipest_scheme, int) km" where
  "pipewrite_resume intr_enabled pi pr a i n =
     seq (sleep_resume pr intr_enabled (Pipe_lock pi)) (
     pipewrite_loop pi pr a i (nat (n - i)))"

definition piperead_end :: "addr \<Rightarrow> int \<Rightarrow> ('z pipest_scheme, int) km" where
  "piperead_end pi i =
     seq (wakeup (Pipe_nwrite pi)) (
     seq (release (Pipe_lock pi)) (
     ret i))"

fun piperead_loop :: "addr \<Rightarrow> nat \<Rightarrow> addr \<Rightarrow> int \<Rightarrow> nat \<Rightarrow> ('z pipest_scheme, int) km" where
  "piperead_loop pi pr a i 0 = piperead_end pi i"
| "piperead_loop pi pr a i (Suc k) =
     bnd (get_pipe pi) (\<lambda>p.
     if nread p = nwrite p then piperead_end pi i
     else seq (set_pipe pi (\<lambda>p. p\<lparr>nread := nread p + 1\<rparr>)) (
       bnd (get_proc pr) (\<lambda>q.
       bnd (copyout (pagetable q) (a + word_of_int i) [pdata p (unat (nread p) mod PIPESIZE)] 1) (\<lambda>r.
       if r = - 1 then piperead_end pi i
       else piperead_loop pi pr a (i + 1) k))))"

text \<open>The wait for data, and the rest of \<open>piperead\<close>.\<close>

definition piperead_wait :: "addr \<Rightarrow> nat \<Rightarrow> addr \<Rightarrow> int \<Rightarrow> ('z pipest_scheme, int) km" where
  "piperead_wait pi pr a n =
     bnd (get_pipe pi) (\<lambda>p.
     if nread p = nwrite p \<and> is_writeopen p
     then bnd (killed pr) (\<lambda>k.
       if k then seq (release (Pipe_lock pi)) (ret (- 1))
       else seq (sleep (Pipe_nread pi) (Pipe_lock pi)) (ret 0))
     else piperead_loop pi pr a 0 (nat n))"

definition piperead :: "addr \<Rightarrow> addr \<Rightarrow> int \<Rightarrow> ('z pipest_scheme, int) km" where
  "piperead pi a n =
     bnd this_proc (\<lambda>pr.
     seq (acquire (Pipe_lock pi)) (
     piperead_wait pi pr a n))"

definition piperead_resume :: "bool \<Rightarrow> addr \<Rightarrow> nat \<Rightarrow> addr \<Rightarrow> int \<Rightarrow> ('z pipest_scheme, int) km" where
  "piperead_resume intr_enabled pi pr a n =
     seq (sleep_resume pr intr_enabled (Pipe_lock pi)) (
     piperead_wait pi pr a n)"

section \<open>The queue\<close>

definition pcount :: "pipe \<Rightarrow> nat" where
  "pcount p = unat (nwrite p - nread p)"

definition pq :: "pipe \<Rightarrow> byte list" where
  "pq p = map (\<lambda>k. pdata p ((unat (nread p) + k) mod PIPESIZE)) [0..<pcount p]"

definition pipe_ok :: "pipe \<Rightarrow> bool" where
  "pipe_ok p \<longleftrightarrow> pcount p \<le> PIPESIZE"

lemma ring_index: "unat (x + of_nat k :: uint) mod PIPESIZE = (unat x + k) mod PIPESIZE"
proof -
  have "unat (x + of_nat k) mod 512 = ((unat x + unat (of_nat k :: uint)) mod 2 ^ 32) mod 512" by (simp add: unat_word_ariths)
  also have "\<dots> = (unat x + k mod 2 ^ 32) mod 512" by (simp add: unat_of_nat mod_mod_cancel)
  also have "\<dots> = (unat x + k mod 2 ^ 32 mod 512) mod 512" by (rule mod_add_right_eq [symmetric])
  also have "k mod 2 ^ 32 mod 512 = k mod 512" by (rule mod_mod_cancel) simp
  finally show ?thesis by (simp add: PIPESIZE_def mod_add_right_eq)
qed

lemma length_pq [simp]: "length (pq p) = pcount p"
  by (simp add: pq_def)

lemma put_byte_simps [simp]:
  "nread (put_byte c p) = nread p" "is_readopen (put_byte c p) = is_readopen p" "is_writeopen (put_byte c p) = is_writeopen p"
  by (simp_all add: put_byte_def)

lemma pcount_put: "pcount p < PIPESIZE \<Longrightarrow> pcount (put_byte c p) = Suc (pcount p)"
proof -
  assume a: "pcount p < PIPESIZE"
  let ?d = "nwrite p - nread p"
  have "unat (?d + 1) = unat ?d + 1"
    using a by (simp add: pcount_def PIPESIZE_def unat_word_ariths)
  then show ?thesis by (simp add: pcount_def put_byte_def diff_add_eq)
qed

lemma pipe_full_iff: "nwrite p = nread p + of_nat PIPESIZE \<longleftrightarrow> pcount p = PIPESIZE"
proof -
  have "pcount p = PIPESIZE \<longleftrightarrow> nwrite p - nread p = 512" unfolding pcount_def PIPESIZE_def
    by (simp add: word_unat_eq_iff)
  then show ?thesis by (simp add: PIPESIZE_def diff_eq_eq add.commute)
qed

lemma pipe_empty_iff: "nread p = nwrite p \<longleftrightarrow> pcount p = 0"
  unfolding pcount_def unat_eq_zero by auto

lemma pq_put:
  assumes "pcount p < PIPESIZE"
  shows "pq (put_byte c p) = pq p @ [c]"
proof -
  have w: "unat (nwrite p) mod PIPESIZE = (unat (nread p) + pcount p) mod PIPESIZE"
    using ring_index [of "nread p" "pcount p"] by (simp add: pcount_def)
  have "(unat (nread p) + k) mod PIPESIZE \<noteq> (unat (nread p) + pcount p) mod PIPESIZE" if "k < pcount p" for k
  proof
    assume "(unat (nread p) + k) mod PIPESIZE = (unat (nread p) + pcount p) mod PIPESIZE"
    then have "k mod PIPESIZE = pcount p mod PIPESIZE" unfolding nat_mod_eq_iff by auto
    then show False using that assms by simp
  qed
  then show ?thesis
    unfolding pq_def pcount_put [OF assms] by (simp add: put_byte_def w)
qed

lemma pipe_put_all:
  "pcount p + length bs \<le> PIPESIZE \<Longrightarrow>
     pq (fold put_byte bs p) = pq p @ bs \<and> pcount (fold put_byte bs p) = pcount p + length bs \<and>
     nread (fold put_byte bs p) = nread p \<and> is_readopen (fold put_byte bs p) = is_readopen p \<and>
     is_writeopen (fold put_byte bs p) = is_writeopen p"
  by (induction bs arbitrary: p) (simp_all add: pq_put pcount_put)

lemma pipe_take_one:
  assumes "pcount p \<noteq> 0"
  defines "p' \<equiv> p\<lparr>nread := nread p + 1\<rparr>"
  shows "pcount p' = pcount p - 1" "pq p = pdata p (unat (nread p) mod PIPESIZE) # pq p'"
proof -
  have n: "nwrite p - nread p \<noteq> 0" using assms by (auto simp: pcount_def)
  show c: "pcount p' = pcount p - 1"
    using unat_minus_one [OF n] by (simp add: p'_def pcount_def diff_diff_eq)
  have i: "(unat (nread p + 1) + k) mod PIPESIZE = (unat (nread p) + Suc k) mod PIPESIZE" for k
    using ring_index [of "nread p" "Suc k"] ring_index [of "nread p + 1" k] by (simp add: add.assoc)
  have f: "pdata p' = pdata p" "nread p' = nread p + 1" by (simp_all add: p'_def)
  have u: "[0..<pcount p] = 0 # map Suc [0..<pcount p - 1]"
    using assms by (simp add: map_Suc_upt upt_conv_Cons)
  have "pq p' = map (\<lambda>k. pdata p ((unat (nread p) + Suc k) mod PIPESIZE)) [0..<pcount p - 1]"
    unfolding pq_def c f i ..
  then show "pq p = pdata p (unat (nread p) mod PIPESIZE) # pq p'"
    by (simp add: pq_def [of p] u comp_def)
qed

section \<open>Running the routines\<close>

lemma pipe_ops_run [simp]:
  "get_pipe pi s = Ok (pipes s pi) s"
  "set_pipe pi f s = Ok () (s\<lparr>pipes := (pipes s)(pi := f (pipes s pi))\<rparr>)"
  by (simp_all add: get_pipe_def set_pipe_def)

lemma pipest_upd_order [simp]:
  "(s :: 'z pipest_scheme)\<lparr>pipes := f, sync := y\<rparr> = s\<lparr>sync := y, pipes := f\<rparr>"
  "(s :: 'z pipest_scheme)\<lparr>pipes := f, procs := q\<rparr> = s\<lparr>procs := q, pipes := f\<rparr>"
  "(s :: 'z pipest_scheme)\<lparr>pipes := f, mem := m\<rparr> = s\<lparr>mem := m, pipes := f\<rparr>"
  "(s :: 'z pipest_scheme)\<lparr>procs := q, mem := m\<rparr> = s\<lparr>mem := m, procs := q\<rparr>"
  by simp_all

lemma cur_pipes [simp]: "cur ((s :: 'z pipest_scheme)\<lparr>pipes := f\<rparr>) = cur s" "cur (s'\<lparr>mem := m\<rparr>) = cur s'"
  by (simp_all add: cur_def)

lemma uspace_same:
  assumes "uspace s root ps" "mem t = mem s" "sym_end t = sym_end s" "freelist t = freelist s"
    "sync_ok (sync t)" "lock_free Kmem_lock (sync t)"
  shows "uspace t root ps"
proof -
  have p: "phys_page t = phys_page s" using assms(3) by (simp add: phys_page_def fun_eq_iff)
  have "kmem_inv t ps = kmem_inv s ps" unfolding kmem_inv_def p assms(2-4) ..
  moreover have "pt_inv t root ps = pt_inv s root ps" unfolding pt_inv_def p assms(2-4) ..
  moreover have "us_inv t root ps = us_inv s root ps" unfolding us_inv_def p assms(2-4) ..
  ultimately show ?thesis using assms(1,5,6) by (simp only: uspace_def kmem_ready_def)
qed

lemma uspaceD: "uspace s root ps \<Longrightarrow> sync_ok (sync s)" "uspace s root ps \<Longrightarrow> lock_free Kmem_lock (sync s)"
  by (simp_all add: uspace_def kmem_ready_def)

lemma copyin_one:
  assumes "uspace s root ps"
  shows "copyin root va 1 [] s =
    Ok (if uvalid (mem s) root va then (0, [ubyte (mem s) root va]) else (- 1, [])) s"
proof -
  obtain r k where "copyin root va 1 [] s = Ok (r, ubytes (mem s) root va k) s" "copy_stop (mem s) root va 1 k r"
    using copyin_copies [OF assms, of va 1 "[]"] by auto
  then show ?thesis by (auto simp: copy_stop_def ubytes_def)
qed

lemma copyout_one:
  assumes "uspace s root ps"
  shows "if uvalid (mem s) root va then \<exists>m'. copyout root va [c] 1 s = Ok 0 (s\<lparr>mem := m'\<rparr>) \<and> copied s root ps va [c] 1 (s\<lparr>mem := m'\<rparr>)
    else copyout root va [c] 1 s = Ok (- 1) s"
proof -
  obtain r t k where c: "copyout root va [c] 1 s = Ok r t" "copied s root ps va [c] k t" "copy_stop (mem s) root va 1 k r"
    using copyout_copies [OF assms, of "[c]" 1 va] by auto
  show ?thesis
  proof (cases "uvalid (mem s) root va")
    case True
    then show ?thesis using c by (auto simp: copy_stop_def copied_def)
  next
    case False
    then have "\<not> (0 < (1 :: uint64) \<and> uvalid (mem s) root va)" by simp
    then show ?thesis using False copyout_step [OF assms, of 1 va "[c]"] by auto
  qed
qed

text \<open>
  How many of \<open>n\<close> bytes at \<open>va\<close> go into a pipe that holds \<open>c\<close>: until the pipe is full or an address is not
  accessible to the user.
\<close>

definition write_stop :: "mem \<Rightarrow> addr \<Rightarrow> addr \<Rightarrow> nat \<Rightarrow> nat \<Rightarrow> nat \<Rightarrow> bool" where
  "write_stop m root va c n k \<longleftrightarrow> k \<le> n \<and> c + k \<le> PIPESIZE \<and> (\<forall>l<k. uvalid m root (va + of_nat l)) \<and>
     (k = n \<or> c + k = PIPESIZE \<or> \<not> uvalid m root (va + of_nat k))"

lemma write_stop_Suc:
  assumes "write_stop m root (va + 1) (Suc c) n k" "uvalid m root va"
  shows "write_stop m root va c (Suc n) (Suc k)"
proof -
  have "uvalid m root (va + of_nat l)" if "l < Suc k" for l
    using assms that by (cases l) (auto simp: write_stop_def add.assoc)
  then show ?thesis using assms by (auto simp: write_stop_def add.assoc)
qed

definition write_out ::
  "'z pipest_scheme \<Rightarrow> sync \<Rightarrow> addr \<Rightarrow> nat \<Rightarrow> int \<Rightarrow> bool \<Rightarrow> byte list \<Rightarrow> ('z pipest_scheme, int) outcome" where
  "write_out s y pi i j full bs =
     (let w = s\<lparr>procs := awaken (Some i) (Pipe_nread pi) 0 NPROC (procs s), pipes := (pipes s)(pi := fold put_byte bs (pipes s pi))\<rparr>
      in if full then Swtch (w\<lparr>sync := lock_acq (Proc_lock i) y,
                procs := (procs w)(i := (procs w i)\<lparr>pchan := Pipe_nwrite pi, pstate := SLEEPING\<rparr>)\<rparr>)
         else Ok (j + int (length bs)) (w\<lparr>sync := quiet y\<rparr>))"

lemma write_out_Cons:
  "write_out (s\<lparr>pipes := (pipes s)(pi := put_byte c (pipes s pi))\<rparr>) y pi i (j + 1) full bs = write_out s y pi i j full (c # bs)"
  by (simp add: write_out_def Let_def)

lemma locked_wakeup:
  assumes "procs_free y" "proc_free_lock l" "sync s = lock_acq l y" "cur s = Some i"
  shows "wakeup ch s = Ok () (s\<lparr>procs := awaken (Some i) ch 0 NPROC (procs s)\<rparr>)"
proof -
  have f: "procs_free (sync s)" using procs_free_acq [OF assms(1), of l] assms(2,3) by (simp add: proc_free_lock_def)
  have q: "s\<lparr>sync := quiet (sync s)\<rparr> = s" using assms(1,3) by (simp add: procs_freeD)
  show ?thesis using wakeup_run [OF f, of ch] assms(4) by (simp add: q)
qed

lemma locked_killed:
  assumes "procs_free y" "proc_free_lock l" "sync s = lock_acq l y"
  shows "killed i s = Ok (pkilled (procs s i)) s"
proof -
  have f: "procs_free (sync s)" using procs_free_acq [OF assms(1), of l] assms(2,3) by (simp add: proc_free_lock_def)
  have q: "s\<lparr>sync := quiet (sync s)\<rparr> = s" using assms(1,3) by (simp add: procs_freeD)
  show ?thesis using killed_run [OF f, of i] by (simp add: q)
qed

lemma pipe_lock_free [simp]: "proc_free_lock (Pipe_lock pi)"
  by (simp add: proc_free_lock_def)

text \<open>The state in which process \<open>i\<close> holds the lock of pipe \<open>pi\<close>, on entering from \<open>y\<close>.\<close>

definition in_pipe :: "'z pipest_scheme \<Rightarrow> sync \<Rightarrow> addr \<Rightarrow> nat \<Rightarrow> addr \<Rightarrow> addr list \<Rightarrow> bool" where
  "in_pipe s y pi i root ps \<longleftrightarrow> procs_free y \<and> lock_free (Pipe_lock pi) y \<and> sync s = lock_acq (Pipe_lock pi) y \<and>
     cur s = Some i \<and> uspace s root ps \<and> pagetable (procs s i) = root"

lemma in_pipeD:
  assumes "in_pipe s y pi i root ps"
  shows "procs_free y" "lock_free (Pipe_lock pi) y" "sync s = lock_acq (Pipe_lock pi) y" "cur s = Some i"
    "uspace s root ps" "pagetable (procs s i) = root" "sync_ok y"
    "wakeup ch s = Ok () (s\<lparr>procs := awaken (Some i) ch 0 NPROC (procs s)\<rparr>)"
    "killed i s = Ok (pkilled (procs s i)) s"
    "release (Pipe_lock pi) s = Ok () (s\<lparr>sync := quiet y\<rparr>)"
proof -
  show a: "procs_free y" "lock_free (Pipe_lock pi) y" "sync s = lock_acq (Pipe_lock pi) y" "cur s = Some i"
    "uspace s root ps" "pagetable (procs s i) = root" and y: "sync_ok y"
    using assms by (auto simp: in_pipe_def procs_freeD)
  show "wakeup ch s = Ok () (s\<lparr>procs := awaken (Some i) ch 0 NPROC (procs s)\<rparr>)"
    by (rule locked_wakeup [OF a(1) _ a(3,4)]) simp
  show "killed i s = Ok (pkilled (procs s i)) s" by (rule locked_killed [OF a(1) _ a(3)]) simp
  show "release (Pipe_lock pi) s = Ok () (s\<lparr>sync := quiet y\<rparr>)" by (rule release_acq [OF a(3) y a(2)])
qed

lemma in_pipe_upd [simp]: "in_pipe (s\<lparr>pipes := f\<rparr>) y pi i root ps = in_pipe s y pi i root ps"
proof -
  have "uspace (s\<lparr>pipes := f\<rparr>) root ps = uspace s root ps"
    by (rule iffI; rule uspace_same, assumption) (auto dest: uspaceD)
  then show ?thesis by (simp add: in_pipe_def)
qed

lemma in_pipe_awake:
  fixes ch :: chan
  assumes "in_pipe s y pi i root ps"
  defines "t \<equiv> s\<lparr>procs := awaken (Some i) ch 0 NPROC (procs s)\<rparr>"
  shows "release (Pipe_lock pi) t = Ok () (t\<lparr>sync := quiet y\<rparr>)"
    "sleep c (Pipe_lock pi) t = Swtch (t\<lparr>sync := lock_acq (Proc_lock i) y, procs := (procs t)(i := (procs t i)\<lparr>pchan := c, pstate := SLEEPING\<rparr>)\<rparr>)"
proof -
  have t: "sync t = lock_acq (Pipe_lock pi) y" "cur t = Some i" using in_pipeD [OF assms(1)] by (simp_all add: t_def)
  show "release (Pipe_lock pi) t = Ok () (t\<lparr>sync := quiet y\<rparr>)"
    using in_pipeD [OF assms(1)] t by (simp add: release_acq)
  show "sleep c (Pipe_lock pi) t = Swtch (t\<lparr>sync := lock_acq (Proc_lock i) y, procs := (procs t)(i := (procs t i)\<lparr>pchan := c, pstate := SLEEPING\<rparr>)\<rparr>)"
    by (rule sleep_run) (use in_pipeD [OF assms(1)] t in auto)
qed

lemma pipewrite_end_run:
  assumes "in_pipe s y pi i root ps"
  shows "pipewrite_end pi j s = write_out s y pi i j False []"
  using in_pipeD(8) [OF assms, of "Pipe_nread pi"] in_pipe_awake(1) [OF assms, of "Pipe_nread pi"]
  by (simp add: pipewrite_end_def write_out_def Let_def)

lemma pipewrite_loop_run:
  assumes "in_pipe s y pi i root ps" "is_readopen (pipes s pi)" "\<not> pkilled (procs s i)" "pipe_ok (pipes s pi)"
  shows "\<exists>k. write_stop (mem s) root (a + word_of_int j) (pcount (pipes s pi)) n k \<and>
    pipewrite_loop pi i a j n s = write_out s y pi i j (k < n \<and> pcount (pipes s pi) + k = PIPESIZE)
      (ubytes (mem s) root (a + word_of_int j) k)"
  using assms
proof (induction n arbitrary: s j)
  case 0
  then show ?case
    by (intro exI [of _ 0]) (simp add: write_stop_def pipewrite_end_run ubytes_def pipe_ok_def)
next
  case (Suc n)
  let ?p = "pipes s pi" and ?va = "a + word_of_int j"
  note d = in_pipeD [OF Suc.prems(1)]
  show ?case
  proof (cases "pcount ?p = PIPESIZE")
    case True
    then show ?thesis
      using Suc.prems d(8) [of "Pipe_nread pi"] d(9) in_pipe_awake(2) [OF Suc.prems(1), of "Pipe_nwrite pi" "Pipe_nread pi"]
      by (intro exI [of _ 0]) (simp add: write_stop_def write_out_def Let_def ubytes_def pipe_full_iff)
  next
    case nf: False
    then have lt: "pcount ?p < PIPESIZE" using Suc.prems(4) by (simp add: pipe_ok_def)
    show ?thesis
    proof (cases "uvalid (mem s) root ?va")
      case False
      then show ?thesis
        using Suc.prems nf lt d(6) d(9) copyin_one [OF d(5), of ?va]
        by (intro exI [of _ 0]) (simp add: write_stop_def pipewrite_end_run ubytes_def pipe_full_iff)
    next
      case True
      let ?c = "ubyte (mem s) root ?va"
      let ?t = "s\<lparr>pipes := (pipes s)(pi := put_byte ?c ?p)\<rparr>"
      have run: "pipewrite_loop pi i a j (Suc n) s = pipewrite_loop pi i a (j + 1) n ?t"
        using Suc.prems nf True d(6) d(9) copyin_one [OF d(5), of ?va] by (simp add: pipe_full_iff)
      have va: "a + word_of_int (j + 1) = ?va + 1" by simp
      obtain k where k: "write_stop (mem s) root (?va + 1) (Suc (pcount ?p)) n k"
        "pipewrite_loop pi i a (j + 1) n ?t = write_out ?t y pi i (j + 1) (k < n \<and> Suc (pcount ?p) + k = PIPESIZE)
          (ubytes (mem s) root (?va + 1) k)"
        using Suc.IH [of ?t "j + 1"] Suc.prems lt unfolding va by (auto simp: pcount_put pipe_ok_def)
      have "?c # ubytes (mem s) root (?va + 1) k = ubytes (mem s) root ?va (Suc k)"
        using ubytes_append [of "mem s" root ?va 1 k] by (simp add: ubytes_def)
      then show ?thesis
        using write_stop_Suc [OF k(1) True] k(2) run write_out_Cons [of s pi ?c y i j]
        by (intro exI [of _ "Suc k"]) simp
    qed
  qed
qed

lemma pq_take:
  "l \<le> pcount p \<Longrightarrow> pq (p\<lparr>nread := nread p + of_nat l\<rparr>) = drop l (pq p) \<and> pcount (p\<lparr>nread := nread p + of_nat l\<rparr>) = pcount p - l"
proof (induction l arbitrary: p)
  case (Suc l)
  let ?q = "p\<lparr>nread := nread p + 1\<rparr>"
  have q: "pcount ?q = pcount p - 1" "pq p = pdata p (unat (nread p) mod PIPESIZE) # pq ?q"
    using pipe_take_one [of p] Suc.prems by auto
  have "p\<lparr>nread := nread p + of_nat (Suc l)\<rparr> = ?q\<lparr>nread := nread ?q + of_nat l\<rparr>" by (simp add: add.assoc)
  then show ?case using Suc.IH [of ?q] Suc.prems q by (simp add: add.assoc)
qed simp

lemma uspace_pipes: "uspace ((s :: 'z pipest_scheme)\<lparr>pipes := f\<rparr>) root ps = uspace s root ps"
  by (rule iffI; rule uspace_same, assumption) (auto dest: uspaceD)

lemma copied_pipes:
  "copied ((s :: 'z pipest_scheme)\<lparr>pipes := f\<rparr>) root ps va bs k (s\<lparr>mem := m, pipes := f\<rparr>) = copied s root ps va bs k (s\<lparr>mem := m\<rparr>)"
  unfolding copied_def using uspace_pipes [of f "s\<lparr>mem := m\<rparr>" root ps]
  by (auto simp: exI [of _ m])

lemma copied_one: "copied s root ps va [c] 1 t \<Longrightarrow> copied s root ps va (c # bs) 1 t"
  unfolding copied_def by (auto simp: in_span_iff)

lemma copied_Cons:
  assumes "copied s root ps va [c] 1 t" "copied t root ps (va + 1) bs k u" "k \<le> length bs" "length bs < 2 ^ 63"
  shows "copied s root ps va (c # bs) (Suc k) u"
  using copied_append [OF copied_one [OF assms(1), of bs], of k u] assms(2-4) by simp

text \<open>
  How many bytes a read takes to the user (\<open>k\<close>) and out of the pipe (\<open>l\<close>): one more when the copy of the last
  one failed.
\<close>

definition read_stop :: "mem \<Rightarrow> addr \<Rightarrow> addr \<Rightarrow> nat \<Rightarrow> nat \<Rightarrow> nat \<Rightarrow> nat \<Rightarrow> bool" where
  "read_stop m root va c n k l \<longleftrightarrow>
     k = min n c \<and> l = k \<or> k < min n c \<and> \<not> uvalid m root (va + of_nat k) \<and> l = Suc k"

definition read_out :: "'z pipest_scheme \<Rightarrow> sync \<Rightarrow> addr \<Rightarrow> nat \<Rightarrow> mem \<Rightarrow> nat \<Rightarrow> 'z pipest_scheme" where
  "read_out s y pi i m l = s\<lparr>sync := quiet y, mem := m, procs := awaken (Some i) (Pipe_nwrite pi) 0 NPROC (procs s),
     pipes := (pipes s)(pi := (pipes s pi)\<lparr>nread := nread (pipes s pi) + of_nat l\<rparr>)\<rparr>"

lemma piperead_end_run:
  assumes "in_pipe s y pi i root ps"
  shows "piperead_end pi j s = Ok j (read_out s y pi i (mem s) 0)"
  using in_pipeD(8) [OF assms, of "Pipe_nwrite pi"] in_pipe_awake(1) [OF assms, of "Pipe_nwrite pi"]
  by (simp add: piperead_end_def read_out_def)

lemma in_pipe_mem: "in_pipe s y pi i root ps \<Longrightarrow> uspace (s\<lparr>mem := m\<rparr>) root ps \<Longrightarrow> in_pipe (s\<lparr>mem := m\<rparr>) y pi i root ps"
  by (simp add: in_pipe_def)

lemma piperead_loop_run:
  assumes "in_pipe s y pi i root ps" "pipe_ok (pipes s pi)"
  shows "\<exists>k l m. read_stop (mem s) root (a + word_of_int j) (pcount (pipes s pi)) n k l \<and>
    copied s root ps (a + word_of_int j) (pq (pipes s pi)) k (s\<lparr>mem := m\<rparr>) \<and>
    piperead_loop pi i a j n s = Ok (j + int k) (read_out s y pi i m l)"
  using assms
proof (induction n arbitrary: s j)
  case 0
  then show ?case using copied_0 [OF in_pipeD(5) [OF 0(1)]]
    by (intro exI [of _ 0] exI [of _ "mem s"]) (simp add: read_stop_def piperead_end_run)
next
  case (Suc n)
  let ?p = "pipes s pi" and ?va = "a + word_of_int j"
  note d = in_pipeD [OF Suc.prems(1)]
  show ?case
  proof (cases "pcount ?p = 0")
    case True
    then show ?thesis using Suc.prems copied_0 [OF d(5)]
      by (intro exI [of _ 0] exI [of _ "mem s"]) (simp add: read_stop_def piperead_end_run pipe_empty_iff)
  next
    case ne: False
    let ?q = "?p\<lparr>nread := nread ?p + 1\<rparr>"
    let ?c = "pdata ?p (unat (nread ?p) mod PIPESIZE)"
    let ?f = "(pipes s)(pi := ?q)"
    let ?t = "s\<lparr>pipes := ?f\<rparr>"
    note q = pipe_take_one [OF ne]
    have t: "in_pipe ?t y pi i root ps" using Suc.prems by simp
    note o = copyout_one [OF in_pipeD(5) [OF t], of ?va ?c]
    show ?thesis
    proof (cases "uvalid (mem s) root ?va")
      case False
      then have "piperead_loop pi i a j (Suc n) s = piperead_end pi j ?t"
        using ne o d(6) by (simp add: pipe_empty_iff)
      then show ?thesis using False ne copied_0 [OF d(5)] piperead_end_run [OF t, of j]
        by (intro exI [of _ 0] exI [of _ 1] exI [of _ "mem s"]) (simp add: read_stop_def read_out_def)
    next
      case True
      then obtain m1 where m1: "copyout root ?va [?c] 1 ?t = Ok 0 (s\<lparr>mem := m1, pipes := ?f\<rparr>)"
        "copied ?t root ps ?va [?c] 1 (s\<lparr>mem := m1, pipes := ?f\<rparr>)"
        using o by auto
      let ?u = "s\<lparr>mem := m1, pipes := ?f\<rparr>"
      have u: "in_pipe ?u y pi i root ps" using in_pipe_mem [OF t, of m1] m1(2) by (simp add: copied_def)
      have run: "piperead_loop pi i a j (Suc n) s = piperead_loop pi i a (j + 1) n ?u"
        using ne m1(1) d(6) by (simp add: pipe_empty_iff)
      have va: "a + word_of_int (j + 1) = ?va + 1" by simp
      have v: "uvalid m1 root x = uvalid (mem s) root x" for x
        using m1(2) by (intro pte_uvalid) (simp add: copied_def)
      have ok: "pipe_ok (pipes ?u pi)" using Suc.prems(2) q(1) by (simp add: pipe_ok_def)
      obtain k l m where k: "read_stop m1 root (?va + 1) (pcount ?q) n k l"
        "copied ?u root ps (?va + 1) (pq ?q) k (?u\<lparr>mem := m\<rparr>)"
        "piperead_loop pi i a (j + 1) n ?u = Ok (j + 1 + int k) (read_out ?u y pi i m l)"
        using Suc.IH [OF u ok, of "j + 1"] unfolding va by auto
      have kl: "k \<le> length (pq ?q)" using k(1) by (auto simp: read_stop_def)
      have "length (pq ?q) < 2 ^ 63" using Suc.prems(2) q(1) by (simp add: pipe_ok_def PIPESIZE_def)
      then have "copied ?t root ps ?va (pq ?p) (Suc k) (?u\<lparr>mem := m\<rparr>)"
        using copied_Cons [OF m1(2) k(2) kl] q(2) by simp
      then have "copied s root ps ?va (pq ?p) (Suc k) (s\<lparr>mem := m\<rparr>)" using copied_pipes [of ?f s] by simp
      moreover have "read_stop (mem s) root ?va (pcount ?p) (Suc n) (Suc k) (Suc l)"
        using k(1) ne q(1) v by (auto simp: read_stop_def add.assoc)
      moreover have "read_out ?u y pi i m l = read_out s y pi i m (Suc l)" by (simp add: read_out_def add.assoc)
      ultimately show ?thesis using run k(3)
        by (intro exI [of _ "Suc k"] exI [of _ "Suc l"] exI [of _ m]) simp
    qed
  qed
qed

section \<open>Properties\<close>

lemma pipe_enter:
  assumes "running s i" "lock_free (Pipe_lock pi) (sync s)" "uspace s (pagetable (procs s i)) ps"
  shows "bnd this_proc (\<lambda>pr. seq (acquire (Pipe_lock pi)) (f pr)) s = f i (s\<lparr>sync := lock_acq (Pipe_lock pi) (sync s)\<rparr>)"
    "in_pipe (s\<lparr>sync := lock_acq (Pipe_lock pi) (sync s)\<rparr>) (sync s) pi i (pagetable (procs s i)) ps"
proof -
  have y: "sync_ok (sync s)" "procs_free (sync s)" "cur s = Some i" using assms(1) by (auto simp: running_def procs_free_def)
  show "bnd this_proc (\<lambda>pr. seq (acquire (Pipe_lock pi)) (f pr)) s = f i (s\<lparr>sync := lock_acq (Pipe_lock pi) (sync s)\<rparr>)"
    using y assms(2) by (simp add: this_proc_run acquire_run)
  have "uspace (s\<lparr>sync := lock_acq (Pipe_lock pi) (sync s)\<rparr>) (pagetable (procs s i)) ps"
    by (rule uspace_same [OF assms(3)]) (use y uspaceD(2) [OF assms(3)] in auto)
  then show "in_pipe (s\<lparr>sync := lock_acq (Pipe_lock pi) (sync s)\<rparr>) (sync s) pi i (pagetable (procs s i)) ps"
    using y assms(2) by (simp add: in_pipe_def cur_def)
qed

text \<open>
  C18: \<open>pipewrite\<close> refines appending to a queue of at most 512 bytes. It takes bytes from the user in order until all
  are written, an address is not accessible, or the pipe is full; the queue is then the old one followed by these
  bytes and still fits. With all written or after a bad address it returns their number with the lock released and the
  readers made runnable; when the pipe is full first, the process sleeps on the write channel, having given up the
  pipe's lock. With the read end closed or the process killed it returns -1 and changes nothing.
\<close>

theorem pipewrite_correct:
  fixes s :: "'z pipest_scheme"
  assumes "running s i" "lock_free (Pipe_lock pi) (sync s)" "uspace s (pagetable (procs s i)) ps" "pipe_ok (pipes s pi)" "0 \<le> n"
  shows "if 0 < n \<and> (\<not> is_readopen (pipes s pi) \<or> pkilled (procs s i))
    then pipewrite pi a n s = Ok (- 1) (s\<lparr>sync := quiet (sync s)\<rparr>)
    else \<exists>k p. write_stop (mem s) (pagetable (procs s i)) a (length (pq (pipes s pi))) (nat n) k \<and>
      pq p = pq (pipes s pi) @ ubytes (mem s) (pagetable (procs s i)) a k \<and> pipe_ok p \<and>
      is_readopen p = is_readopen (pipes s pi) \<and> is_writeopen p = is_writeopen (pipes s pi) \<and>
      (let ps = awaken (Some i) (Pipe_nread pi) 0 NPROC (procs s); f = (pipes s)(pi := p) in
       pipewrite pi a n s =
         (if k < nat n \<and> length (pq p) = PIPESIZE
          then Swtch (s\<lparr>sync := lock_acq (Proc_lock i) (sync s), procs := ps(i := (ps i)\<lparr>pchan := Pipe_nwrite pi, pstate := SLEEPING\<rparr>), pipes := f\<rparr>)
          else Ok (int k) (s\<lparr>sync := quiet (sync s), procs := ps, pipes := f\<rparr>)))"
proof -
  let ?t = "s\<lparr>sync := lock_acq (Pipe_lock pi) (sync s)\<rparr>" and ?p = "pipes s pi" and ?root = "pagetable (procs s i)"
  note e = pipe_enter [OF assms(1-3)]
  note d = in_pipeD [OF e(2)]
  have run: "pipewrite pi a n s = pipewrite_loop pi i a 0 (nat n) ?t" by (simp add: pipewrite_def e(1))
  show ?thesis
  proof (cases "0 < n \<and> (\<not> is_readopen ?p \<or> pkilled (procs s i))")
    case True
    then obtain k where "nat n = Suc k" by (metis Suc_pred nat_0_iff not_le zero_less_nat_eq)
    then show ?thesis using True run d(9,10) by simp
  next
    case False
    have "\<exists>k. write_stop (mem s) ?root a (pcount ?p) (nat n) k \<and>
      pipewrite pi a n s = write_out ?t (sync s) pi i 0 (k < nat n \<and> pcount ?p + k = PIPESIZE) (ubytes (mem s) ?root a k)"
    proof (cases "n = 0")
      case True
      then show ?thesis using run pipewrite_end_run [OF e(2), of 0] assms(4)
        by (intro exI [of _ 0]) (simp add: write_stop_def pipe_ok_def ubytes_def)
    next
      case nz: False
      then show ?thesis using run pipewrite_loop_run [OF e(2), of a 0 "nat n"] False assms(4,5) by auto
    qed
    then obtain k where k: "write_stop (mem s) ?root a (pcount ?p) (nat n) k"
      "pipewrite pi a n s = write_out ?t (sync s) pi i 0 (k < nat n \<and> pcount ?p + k = PIPESIZE) (ubytes (mem s) ?root a k)"
      by blast
    have "pcount ?p + length (ubytes (mem s) ?root a k) \<le> PIPESIZE" using k(1) by (simp add: write_stop_def)
    note p = pipe_put_all [OF this]
    show ?thesis unfolding if_not_P [OF False]
      by (rule exI [of _ k], rule exI [of _ "fold put_byte (ubytes (mem s) ?root a k) ?p"])
        (use k p in \<open>simp add: write_out_def Let_def pipe_ok_def write_stop_def\<close>)
  qed
qed

text \<open>
  C19: \<open>piperead\<close> refines taking from the front of the queue. On an empty pipe whose write end is open it sleeps on the
  read channel, or returns -1 when the process has been killed. Otherwise it delivers the first \<open>k\<close> bytes of the queue
  to consecutive user addresses, \<open>k\<close> the smaller of \<open>n\<close> and the length of the queue, makes the writers runnable and
  returns \<open>k\<close>; at an address the user cannot access it stops before, and the byte it could not deliver is gone from
  the queue too. In particular it returns 0, end of file, when the pipe is empty and the write end closed.
\<close>

theorem piperead_correct:
  fixes s :: "'z pipest_scheme"
  assumes "running s i" "lock_free (Pipe_lock pi) (sync s)" "uspace s (pagetable (procs s i)) ps" "pipe_ok (pipes s pi)"
  shows "if pq (pipes s pi) = [] \<and> is_writeopen (pipes s pi)
    then piperead pi a n s =
      (if pkilled (procs s i) then Ok (- 1) (s\<lparr>sync := quiet (sync s)\<rparr>)
       else Swtch (s\<lparr>sync := lock_acq (Proc_lock i) (sync s), procs := (procs s)(i := (procs s i)\<lparr>pchan := Pipe_nread pi, pstate := SLEEPING\<rparr>)\<rparr>))
    else \<exists>k l m p. read_stop (mem s) (pagetable (procs s i)) a (length (pq (pipes s pi))) (nat n) k l \<and>
      pq p = drop l (pq (pipes s pi)) \<and> pipe_ok p \<and>
      copied s (pagetable (procs s i)) ps a (pq (pipes s pi)) k (s\<lparr>mem := m\<rparr>) \<and>
      piperead pi a n s = Ok (int k) (s\<lparr>sync := quiet (sync s), mem := m,
        procs := awaken (Some i) (Pipe_nwrite pi) 0 NPROC (procs s), pipes := (pipes s)(pi := p)\<rparr>)"
proof -
  let ?t = "s\<lparr>sync := lock_acq (Pipe_lock pi) (sync s)\<rparr>" and ?p = "pipes s pi" and ?root = "pagetable (procs s i)"
  note e = pipe_enter [OF assms(1-3)]
  note d = in_pipeD [OF e(2)]
  have run: "piperead pi a n s = piperead_wait pi i a n ?t" by (simp add: piperead_def e(1))
  have empty: "pq ?p = [] \<longleftrightarrow> pcount ?p = 0" using length_pq [of ?p] by (metis length_0_conv)
  show ?thesis
  proof (cases "pq ?p = [] \<and> is_writeopen ?p")
    case True
    have "sleep (Pipe_nread pi) (Pipe_lock pi) ?t = Swtch (?t\<lparr>sync := lock_acq (Proc_lock i) (sync s),
        procs := (procs ?t)(i := (procs ?t i)\<lparr>pchan := Pipe_nread pi, pstate := SLEEPING\<rparr>)\<rparr>)"
      by (rule sleep_run) (use d(1-4) in auto)
    then show ?thesis using True run d(9,10) empty by (simp add: piperead_wait_def pipe_empty_iff)
  next
    case False
    then have "piperead pi a n s = piperead_loop pi i a 0 (nat n) ?t"
      using run empty by (auto simp: piperead_wait_def pipe_empty_iff)
    then obtain k l m where k: "read_stop (mem s) ?root a (pcount ?p) (nat n) k l"
      "copied ?t ?root ps a (pq ?p) k (?t\<lparr>mem := m\<rparr>)" "piperead pi a n s = Ok (int k) (read_out ?t (sync s) pi i m l)"
      using piperead_loop_run [OF e(2), of a 0 "nat n"] assms(4) by auto
    have u: "uspace (s\<lparr>mem := m\<rparr>) ?root ps"
      by (rule uspace_same [of "?t\<lparr>mem := m\<rparr>"]) (use k(2) uspaceD [OF assms(3)] in \<open>auto simp: copied_def\<close>)
    have c: "copied s ?root ps a (pq ?p) k (s\<lparr>mem := m\<rparr>)"
      using k(2) u unfolding copied_def by auto
    have "l \<le> pcount ?p" using k(1) by (auto simp: read_stop_def)
    then show ?thesis unfolding if_not_P [OF False]
      by (intro exI [of _ k] exI [of _ l] exI [of _ m] exI [of _ "?p\<lparr>nread := nread ?p + of_nat l\<rparr>"])
        (use k c pq_take [of l ?p] assms(4) in \<open>simp add: read_out_def pipe_ok_def\<close>)
  qed
qed

subsection \<open>Closing\<close>

definition close_end :: "bool \<Rightarrow> pipe \<Rightarrow> pipe" where
  "close_end w p = (if w then p\<lparr>is_writeopen := False\<rparr> else p\<lparr>is_readopen := False\<rparr>)"

lemma pipeclose_mark_run:
  assumes "procs_free (sync s)" "lock_free (Pipe_lock pi) (sync s)"
  shows "pipeclose_mark pi w s = Ok () (s\<lparr>sync := quiet (sync s),
    procs := awaken (cur s) (if w then Pipe_nread pi else Pipe_nwrite pi) 0 NPROC (procs s),
    pipes := (pipes s)(pi := close_end w (pipes s pi))\<rparr>)"
proof -
  let ?t = "s\<lparr>sync := lock_acq (Pipe_lock pi) (sync s), pipes := (pipes s)(pi := close_end w (pipes s pi))\<rparr>"
  let ?ch = "if w then Pipe_nread pi else Pipe_nwrite pi"
  have y: "sync_ok (sync s)" using assms(1) by (rule procs_freeD)
  have "procs_free (sync ?t)" using procs_free_acq [OF assms(1), of "Pipe_lock pi"] by simp
  moreover have "quiet (sync ?t) = sync ?t" "cur ?t = cur s" using y by (simp_all add: cur_def)
  ultimately have "wakeup ?ch ?t = Ok () (?t\<lparr>procs := awaken (cur s) ?ch 0 NPROC (procs s)\<rparr>)"
    using wakeup_run [of ?t ?ch] by simp
  then show ?thesis using assms y
    by (cases w) (simp_all add: pipeclose_mark_def acquire_run release_acq close_end_def)
qed

lemma freed_outside: "phys_page s p \<Longrightarrow> x \<notin> page p \<Longrightarrow> write64 (memset m p 1 4096) p v x = m x"
  using slot0_page phys_pageD by (subst write64_outside) (auto simp: memset_page_outside)

text \<open>
  \<open>pipeclose\<close> marks its end closed and makes the processes waiting on the other end runnable. When the other end is
  still open the page stays allocated and memory is as before; when it was already closed the page of the pipe goes
  back to the allocator.
\<close>

theorem pipeclose_correct:
  assumes "procs_free (sync s)" "lock_free (Pipe_lock pi) (sync s)" "kmem_ready s ps" "phys_page s pi" "pi \<notin> set ps"
  defines "p \<equiv> pipes s pi"
  shows "\<exists>t. pipeclose pi w s = Ok () t \<and> pipes t = (pipes s)(pi := close_end w p) \<and>
    procs t = awaken (cur s) (if w then Pipe_nread pi else Pipe_nwrite pi) 0 NPROC (procs s) \<and>
    (if (if w then is_readopen p else is_writeopen p) then mem t = mem s \<and> kmem_ready t ps
     else kmem_ready t (pi # ps) \<and> (\<forall>x. x \<notin> page pi \<longrightarrow> mem t x = mem s x))"
proof -
  let ?t = "s\<lparr>sync := quiet (sync s), procs := awaken (cur s) (if w then Pipe_nread pi else Pipe_nwrite pi) 0 NPROC (procs s),
    pipes := (pipes s)(pi := close_end w p)\<rparr>"
  have run: "pipeclose pi w s = (bnd (pipeclose_unused pi) (\<lambda>unused. whenM unused (kfree pi))) ?t"
    by (simp add: pipeclose_def pipeclose_mark_run [OF assms(1,2)] p_def)
  have ready: "kmem_ready ?t ps" using assms(3) by (simp add: kmem_ready_def kmem_inv_def phys_page_def)
  show ?thesis
  proof (cases "if w then is_readopen p else is_writeopen p")
    case True
    then have "pipeclose pi w s = Ok () ?t" using run by (auto simp: pipeclose_unused_def close_end_def split: if_splits)
    then show ?thesis using True ready by simp
  next
    case False
    then have k: "pipeclose pi w s = kfree pi ?t" using run by (auto simp: pipeclose_unused_def close_end_def split: if_splits)
    have pp: "phys_page ?t pi" using assms(4) by (simp add: phys_page_def)
    have sk: "sync_ok (sync ?t)" "lock_free Kmem_lock (sync ?t)" using ready by (auto simp: kmem_ready_def)
    have "kmem_ready ?t ps" using ready .
    then have "wp (kfree pi) (\<lambda>_ t. kmem_ready t (pi # ps)) ?t"
      by (rule wp_kfree_page) (use pp assms(5) in auto)
    then obtain t where t: "kfree pi ?t = Ok () t" "kmem_ready t (pi # ps)" by (auto simp: wp_iff)
    moreover have "t = ?t\<lparr>sync := quiet (sync ?t), mem := write64 (memset (mem ?t) pi 1 4096) pi (freelist ?t), freelist := pi\<rparr>"
      using t(1) kfree_run [OF pp sk] by simp
    ultimately show ?thesis unfolding if_not_P [OF False]
      using k by (intro exI [of _ t]) (auto simp: freed_outside [OF pp])
  qed
qed

text \<open>A free list that runs into a page pointing at itself is not a list.\<close>

lemma flist_cycle: "read64 m p = p \<Longrightarrow> p \<noteq> 0 \<Longrightarrow> \<not> flist m p qs"
  by (induction qs) auto

lemma double_kfree:
  assumes "phys_page s p" "0 < sym_end s" "sync_ok (sync s)" "lock_free Kmem_lock (sync s)"
  shows "\<exists>u. seq (kfree p) (kfree p) s = Ok () u \<and> (\<forall>qs. \<not> kmem_inv u qs)"
proof -
  have p: "p \<noteq> 0" using assms(1,2) by (auto simp: phys_page_def)
  let ?t = "s\<lparr>sync := quiet (sync s), mem := write64 (memset (mem s) p 1 4096) p (freelist s), freelist := p\<rparr>"
  have "kfree p ?t = Ok () (?t\<lparr>mem := write64 (memset (mem ?t) p 1 4096) p p\<rparr>)"
    using kfree_run [of ?t p] assms by (simp add: phys_page_def)
  moreover have "kfree p s = Ok () ?t" using assms by (simp add: kfree_run)
  moreover have "\<not> flist (write64 m p p) p qs" for m qs using flist_cycle [of "write64 m p p" p] p by simp
  ultimately show ?thesis by (simp add: kmem_inv_def)
qed

text \<open>
  C29: \<open>pipeclose\<close> tests the two flags after it has released the pipe's lock. When both ends are closed at the same
  time, and both callers have marked their end before either tests, the test tells each of them to free the page; the
  second \<open>kfree\<close> links the page to itself, and no free list is left.
\<close>

theorem pipeclose_race:
  assumes "procs_free (sync s)" "lock_free (Pipe_lock pi) (sync s)" "kmem_ready s ps" "phys_page s pi"
  shows "\<exists>t u. seq (pipeclose_mark pi True) (pipeclose_mark pi False) s = Ok () t \<and>
    pipeclose_unused pi t = Ok True t \<and> seq (kfree pi) (kfree pi) t = Ok () u \<and> (\<forall>qs. \<not> kmem_inv u qs)"
proof -
  let ?a = "s\<lparr>sync := quiet (sync s), procs := awaken (cur s) (Pipe_nread pi) 0 NPROC (procs s),
    pipes := (pipes s)(pi := close_end True (pipes s pi))\<rparr>"
  have a: "pipeclose_mark pi True s = Ok () ?a" using pipeclose_mark_run [OF assms(1,2), of True] by simp
  obtain t where t: "pipeclose_mark pi False ?a = Ok () t" "sync t = quiet (sync s)" "sym_end t = sym_end s"
    "\<not> is_readopen (pipes t pi)" "\<not> is_writeopen (pipes t pi)"
    using pipeclose_mark_run [of ?a pi False] assms(1,2) by (simp add: close_end_def)
  have "\<exists>u. seq (kfree pi) (kfree pi) t = Ok () u \<and> (\<forall>qs. \<not> kmem_inv u qs)"
    by (rule double_kfree) (use assms t in \<open>auto simp: phys_page_def kmem_ready_def kmem_inv_def\<close>)
  then show ?thesis using a t by (auto simp: pipeclose_unused_def)
qed

section \<open>Witnesses\<close>

lemma demo_pipest:
  obtains s :: pipest where "running s 0" "\<forall>l. lock_free l (sync s)" "uspace s 0x80032000 [0x80030000]"
    "pagetable (procs s 0) = 0x80032000" "\<not> pkilled (procs s 0)" "mem s = demo_mem" "pipes s = (\<lambda>_. p)" "phys_page s 0x80040000"
proof -
  define s :: pipest where "s = (undefined :: pipest)\<lparr>sync := demo_sync, mem := demo_mem, sym_end := 0x80021000, freelist := 0x80030000,
    procs := (\<lambda>_. idle_process\<lparr>pagetable := 0x80032000\<rparr>), pipes := (\<lambda>_. p)\<rparr>"
  have f: "sync s = demo_sync" "mem s = demo_mem" "sym_end s = 0x80021000" "freelist s = 0x80030000"
    "procs s = (\<lambda>_. idle_process\<lparr>pagetable := 0x80032000\<rparr>)" "pipes s = (\<lambda>_. p)" by (simp_all add: s_def)
  have "running s 0" using demo_sync_free by (simp add: running_def cur_def f) (simp add: demo_sync_def idle_sync_def)
  moreover have "uspace s 0x80032000 [0x80030000]"
    by (rule uspace_same [OF demo_uspace]) (simp_all add: f demo_user_def demo_sync_free)
  moreover have "phys_page s 0x80040000" by (simp add: phys_page_def f page_aligned_def PGSIZE_def const_vals)
  ultimately show ?thesis using that [of s] by (simp add: f demo_sync_free idle_process_def)
qed

definition demo_pipe :: pipe where
  "demo_pipe = \<lparr>pdata = (\<lambda>k. of_nat k), nread = - 511, nwrite = 0, is_readopen = True, is_writeopen = True\<rparr>"

lemma demo_pipe_count [simp]: "pcount demo_pipe = 511" "pipe_ok demo_pipe" "is_readopen demo_pipe" "is_writeopen demo_pipe"
  by (simp_all add: demo_pipe_def pcount_def pipe_ok_def PIPESIZE_def)

text \<open>A pipe with one place left and counters about to wrap: of two bytes one is written, and the writer sleeps.\<close>

theorem pipewrite_correct_witness:
  "\<exists>(s :: pipest) t. length (pq (pipes s 0x80040000)) = 511 \<and> pipewrite 0x80040000 0 2 s = Swtch t \<and>
     length (pq (pipes t 0x80040000)) = 512 \<and> pstate (procs t 0) = SLEEPING"
proof -
  obtain s :: pipest where s: "running s 0" "\<forall>l. lock_free l (sync s)" "uspace s 0x80032000 [0x80030000]"
    "pagetable (procs s 0) = 0x80032000" "\<not> pkilled (procs s 0)" "mem s = demo_mem" "pipes s = (\<lambda>_. demo_pipe)" by (rule demo_pipest)
  have v: "uvalid demo_mem 0x80032000 0" by (simp add: demo_uvalid PGROUNDDOWN_def PGSIZE_def const_vals)
  obtain k p where k: "write_stop demo_mem 0x80032000 0 511 2 k" "pq p = pq demo_pipe @ ubytes demo_mem 0x80032000 0 k"
    "k < 2 \<Longrightarrow> pcount p = PIPESIZE \<Longrightarrow>
       \<exists>t. pipewrite 0x80040000 0 2 s = Swtch t \<and> pipes t 0x80040000 = p \<and> pstate (procs t 0) = SLEEPING"
    using pipewrite_correct [of s 0 "0x80040000" "[0x80030000]" 2 0] s by (auto simp: Let_def)
  have "k = 1"
  proof (cases k)
    case 0
    then show ?thesis using k(1) v by (simp add: write_stop_def PIPESIZE_def)
  next
    case (Suc j)
    then show ?thesis using k(1) by (simp add: write_stop_def PIPESIZE_def)
  qed
  moreover have "pcount p = 511 + k" using k(2) by (metis demo_pipe_count(1) length_append length_pq length_ubytes)
  ultimately obtain t where "pipewrite 0x80040000 0 2 s = Swtch t" "pipes t 0x80040000 = p" "pstate (procs t 0) = SLEEPING" "pcount p = 512"
    using k(3) by (auto simp: PIPESIZE_def)
  then show ?thesis using s(7) by (intro exI [of _ s] exI [of _ t]) simp
qed

text \<open>Three bytes in the pipe: a read of two returns 2 and leaves the third.\<close>

theorem piperead_correct_witness:
  "\<exists>(s :: pipest) t. pq (pipes s 0x80040000) = [7, 8, 9] \<and> piperead 0x80040000 0 2 s = Ok 2 t \<and> pq (pipes t 0x80040000) = [9]"
proof -
  define p where "p = \<lparr>pdata = (\<lambda>k. of_nat k + 7), nread = 0, nwrite = 3, is_readopen = True, is_writeopen = True\<rparr>"
  have q: "pq p = [7, 8, 9]" "pipe_ok p"
    by (simp_all add: p_def pq_def pcount_def pipe_ok_def PIPESIZE_def upt_rec)
  obtain s :: pipest where s: "running s 0" "\<forall>l. lock_free l (sync s)" "uspace s 0x80032000 [0x80030000]"
    "pagetable (procs s 0) = 0x80032000" "\<not> pkilled (procs s 0)" "mem s = demo_mem" "pipes s = (\<lambda>_. p)" by (rule demo_pipest)
  have v: "uvalid demo_mem 0x80032000 0" "uvalid demo_mem 0x80032000 1"
    by (simp_all add: demo_uvalid PGROUNDDOWN_def PGSIZE_def const_vals)
  obtain k l t where k: "read_stop demo_mem 0x80032000 0 3 2 k l" "pq (pipes t 0x80040000) = drop l (pq p)" "piperead 0x80040000 0 2 s = Ok (int k) t"
    using piperead_correct [of s 0 "0x80040000" "[0x80030000]" 0 2] s q by (auto simp: eval_nat_numeral)
  have "k = 2 \<and> l = 2" using k(1) v by (auto simp: read_stop_def less_Suc_eq numeral_2_eq_2)
  then show ?thesis using k q s(7) by (intro exI [of _ s] exI [of _ t]) simp
qed

theorem pipeclose_correct_witness:
  "\<exists>(s :: pipest) t. kmem_ready s [0x80030000] \<and> pipeclose 0x80040000 True s = Ok () t \<and> kmem_ready t [0x80040000, 0x80030000]"
proof -
  obtain s :: pipest where s: "running s 0" "\<forall>l. lock_free l (sync s)" "uspace s 0x80032000 [0x80030000]"
    "pipes s = (\<lambda>_. demo_pipe\<lparr>is_readopen := False\<rparr>)" "phys_page s 0x80040000" by (rule demo_pipest)
  have r: "kmem_ready s [0x80030000]" "procs_free (sync s)" using s(1,3) by (auto simp: uspace_def running_def)
  then show ?thesis using pipeclose_correct [OF r(2) _ r(1) s(5), of True] s(2,4) by auto
qed

theorem pipeclose_race_witness:
  "\<exists>(s :: pipest) t u. kmem_ready s [0x80030000] \<and> seq (pipeclose_mark 0x80040000 True) (pipeclose_mark 0x80040000 False) s = Ok () t \<and>
     pipeclose_unused 0x80040000 t = Ok True t \<and> seq (kfree 0x80040000) (kfree 0x80040000) t = Ok () u \<and> (\<forall>qs. \<not> kmem_inv u qs)"
proof -
  obtain s :: pipest where s: "running s 0" "\<forall>l. lock_free l (sync s)" "uspace s 0x80032000 [0x80030000]"
    "pipes s = (\<lambda>_. demo_pipe)" "phys_page s 0x80040000" by (rule demo_pipest)
  have r: "kmem_ready s [0x80030000]" "procs_free (sync s)" using s(1,3) by (auto simp: uspace_def running_def)
  then show ?thesis using pipeclose_race [OF r(2) _ r(1) s(5)] s(2) by blast
qed

end
