(* ===== verification/Fcontent.thy ===== *)
theory Fcontent
  imports Inode
begin

text \<open>
  The contents of a file. The specification of an inode with its blocks is one byte list: the concatenation of the blocks
  that its addresses name, cut at its size. \<open>readi\<close> returns a slice of it and \<open>writei\<close> replaces one; both theorems are for files whose
  blocks are allocated.
\<close>

section \<open>Lists of blocks\<close>

lemma length_blocks: "\<forall>j<m. length (f j) = B \<Longrightarrow> b \<le> m \<Longrightarrow> length (concat (map f [a..<b])) = B * (b - a)"
proof (induction b)
  case (Suc b)
  then show ?case by (cases "a \<le> b") (simp_all add: Suc_diff_le algebra_simps)
qed simp

lemma split_blocks:
  assumes "q < m"
  shows "concat (map f [0..<m]) = concat (map f [0..<q]) @ f q @ concat (map f [Suc q..<m])"
proof -
  have "[0..<m] = [0..<q] @ q # [Suc q..<m]"
    using assms upt_add_eq_append [of 0 q "m - q"] by (simp add: upt_conv_Cons)
  then show ?thesis by simp
qed

lemma slice_blocks:
  assumes "\<forall>j<m. length (f j) = B" "q < m" "r + c \<le> B"
  shows "take c (drop (B * q + r) (concat (map f [0..<m]))) = take c (drop r (f q))"
proof -
  have l: "length (concat (map f [0..<q])) = B * q" using length_blocks [OF assms(1), of q 0] assms(2) by simp
  have "drop (B * q + r) (concat (map f [0..<m])) = drop r (f q @ concat (map f [Suc q..<m]))"
    unfolding split_blocks [OF assms(2)] by (simp add: l)
  moreover have "r \<le> length (f q)" "c \<le> length (drop r (f q))" using assms by simp_all
  ultimately show ?thesis by simp
qed

lemma patch_length: "k + length bs \<le> length d \<Longrightarrow> length (patch k bs d) = length d"
  by (simp add: patch_def)

lemma patch_append: "patch (length xs + r) bs (xs @ ys) = xs @ patch r bs ys"
  by (simp add: patch_def)

lemma patch_front: "r + length bs \<le> length ys \<Longrightarrow> patch r bs (ys @ zs) = patch r bs ys @ zs"
  by (simp add: patch_def)

lemma patch_patch: "k + length as \<le> length d \<Longrightarrow> patch (k + length as) bs (patch k as d) = patch k (as @ bs) d"
  by (simp add: patch_def ac_simps)

lemma patch_Nil [simp]: "patch k [] d = d"
  by (simp add: patch_def)

lemma slice_patch: "k + length bs \<le> length d \<Longrightarrow> take (length bs) (drop k (patch k bs d)) = bs"
  by (simp add: patch_def)

lemma patch_blocks:
  assumes "\<forall>j<m. length (f j) = B" "q < m" "r + length bs \<le> B"
  shows "concat (map (f(q := patch r bs (f q))) [0..<m]) = patch (B * q + r) bs (concat (map f [0..<m]))"
proof -
  have l: "length (concat (map f [0..<q])) = B * q" using length_blocks [OF assms(1), of q 0] assms(2) by simp
  have m: "map (f(q := x)) [0..<q] = map f [0..<q]" "map (f(q := x)) [Suc q..<m] = map f [Suc q..<m]" for x by simp_all
  have e: "patch (B * q + r) bs (concat (map f [0..<m])) = concat (map f [0..<q]) @ patch r bs (f q @ concat (map f [Suc q..<m]))"
    unfolding split_blocks [OF assms(2)] l [symmetric] by (rule patch_append)
  have p: "patch r bs (f q @ concat (map f [Suc q..<m])) = patch r bs (f q) @ concat (map f [Suc q..<m])"
    by (rule patch_front) (use assms in simp)
  show ?thesis unfolding e p split_blocks [OF assms(2), of "f(q := patch r bs (f q))"] m by simp
qed

section \<open>The map of a file\<close>

definition fblock :: "(uint \<Rightarrow> byte list) \<Rightarrow> inode \<Rightarrow> nat \<Rightarrow> uint" where
  "fblock v I bn = (if bn < NDIRECT then addrs I bn else get32 (4 * (bn - NDIRECT)) (v (addrs I NDIRECT)))"

definition content :: "(uint \<Rightarrow> byte list) \<Rightarrow> inode \<Rightarrow> nat \<Rightarrow> byte list" where
  "content v I m = concat (map (\<lambda>bn. v (fblock v I bn)) [0..<m])"

text \<open>The first \<open>m\<close> blocks of the file are allocated, outside the log, and of the size of a block.\<close>

definition mapped :: "uint \<Rightarrow> (uint \<Rightarrow> byte list) \<Rightarrow> inode \<Rightarrow> nat \<Rightarrow> bool" where
  "mapped st v I m \<longleftrightarrow> m \<le> MAXFILE \<and>
     (\<forall>bn<m. fblock v I bn \<noteq> 0 \<and> home_block st (fblock v I bn) \<and> length (v (fblock v I bn)) = BSIZE) \<and>
     (NDIRECT < m \<longrightarrow> addrs I NDIRECT \<noteq> 0 \<and> home_block st (addrs I NDIRECT))"

lemma mapped_lengths: "mapped st v I m \<Longrightarrow> \<forall>bn<m. length (v (fblock v I bn)) = BSIZE"
  by (simp add: mapped_def)

lemma length_content: "mapped st v I m \<Longrightarrow> length (content v I m) = BSIZE * m"
  unfolding content_def using length_blocks [OF mapped_lengths, of st v I m m 0] by simp

context inode_disk
begin

lemma bmap_mapped:
  assumes "txs D st s i {} W" "idev (inodes s k) = D" "mapped st (blk D s) (inodes s k) m" "unat bn < m" "card W < NBUF"
    and k: "\<And>t. txs D st t i {} W \<Longrightarrow> blk D t = blk D s \<Longrightarrow> tst_frame s t \<Longrightarrow> P (fblock (blk D s) (inodes s k) (unat bn)) t"
  shows "wp (bmap rw k bn) P s"
proof (cases "unat bn < NDIRECT")
  case True
  then have "addrs (inodes s k) (unat bn) \<noteq> 0" using assms(3,4) by (auto simp: mapped_def fblock_def)
  then show ?thesis
    unfolding bmap_def wp_inode using True assms(1) k [of s] by (simp add: wp_ret fblock_def tst_frameI)
next
  case False
  let ?I = "inodes s k" let ?n = "unat bn - NDIRECT" let ?a = "addrs ?I NDIRECT"
  have a: "?a \<noteq> 0" "home_block st ?a" "?n < NINDIRECT" "get32 (4 * ?n) (blk D s ?a) \<noteq> 0"
    using assms(3,4) False by (auto simp: mapped_def fblock_def MAXFILE_def)
  have "wp (bmap_indirect rw k ?a ?n) P s"
    unfolding bmap_indirect_def wp_inode assms(2)
  proof (rule tx.known_block [OF assms(1)])
    show "wp (bnd (bread rw D ?a) (\<lambda>bp. bnd (bload bp) (\<lambda>_. bnd (if get32 (4 * ?n) (blk D s ?a) = 0
        then bnd (balloc rw D) (\<lambda>addr. if addr \<noteq> 0 then bnd (bload bp) (\<lambda>d. seq (bstore bp (put32 (4 * ?n) addr d)) (seq (log_write bp) (ret addr))) else ret addr)
        else ret (get32 (4 * ?n) (blk D s ?a))) (\<lambda>addr. seq (brelse bp) (ret addr))))) P s"
      unfolding if_not_P [OF a(4)] ret_bnd
      by (rule tx.read_block [OF assms(1)]) (use a assms(5) k False in \<open>simp_all add: wp_ret fblock_def\<close>)
  qed (use a assms(5) in simp_all)
  then show ?thesis unfolding bmap_def wp_inode using False a by (simp add: Let_def)
qed

end

section \<open>Reading\<close>

lemma off_div: "unat (off div 1024 :: uint) = unat off div BSIZE" "unat (off mod 1024 :: uint) = unat off mod BSIZE"
  by (simp_all add: unat_div unat_mod BSIZE_def)

lemma content_slice:
  fixes off :: uint
  assumes "mapped st v I m" "unat off < BSIZE * m" "c \<le> BSIZE - unat off mod BSIZE"
  shows "take c (drop (unat (off mod 1024)) (v (fblock v I (unat (off div 1024))))) = take c (drop (unat off) (content v I m))"
proof -
  have q: "unat off div BSIZE < m" using assms(2) by (simp add: BSIZE_def less_mult_imp_div_less mult.commute)
  have "unat off mod BSIZE + c \<le> BSIZE" using assms(3) by (simp add: BSIZE_def)
  from slice_blocks [OF mapped_lengths [OF assms(1)] q this] show ?thesis by (simp add: content_def off_div)
qed

context inode_disk
begin

lemma readi_loop_ok:
  assumes "txs D st s i {} W" "idev (inodes s k) = D" "mapped st (blk D s) (inodes s k) m" "card W < NBUF" "unat off + unat left \<le> BSIZE * m"
  shows "wp (readi_loop rw k To_local off left tot acc)
    (\<lambda>r t. r = (tot + left, acc @ take (unat left) (drop (unat off) (content (blk D s) (inodes s k) m))) \<and>
      txs D st t i {} W \<and> blk D t = blk D s \<and> tst_frame s t) s"
  using assms
proof (induction "unat left" arbitrary: s off left tot acc rule: less_induct)
  case less
  show ?case
  proof (cases "left = 0")
    case True
    then show ?thesis using less.prems by (simp add: wp_def readi_loop.simps tst_frameI)
  next
    case False
    let ?I = "inodes s k" let ?v = "blk D s" let ?c = "blk_chunk off left" let ?b = "fblock ?v ?I (unat (off div 1024))"
    have l0: "0 < unat left" using False by (simp add: unat_gt_0)
    have offm: "unat off < BSIZE * m" using less.prems(5) l0 by simp
    then have q: "unat (off div 1024) < m" by (simp add: off_div BSIZE_def less_mult_imp_div_less mult.commute)
    have b: "?b \<noteq> 0" "home_block st ?b" using less.prems(3) q by (simp_all add: mapped_def)
    have c: "unat ?c = min (unat left) (BSIZE - unat off mod BSIZE)" using unat_blk_chunk [of off left] by (simp add: BSIZE_def)
    have ml: "BSIZE * m \<le> 274432" using less.prems(3) by (simp add: mapped_def MAXFILE_def NDIRECT_def NINDIRECT_def BSIZE_def)
    have oc: "unat (off + ?c) = unat off + unat ?c"
      using less.prems(5) c ml by (subst unat_add_lem [symmetric]) simp
    let ?bs = "take (unat ?c) (drop (unat (off mod 1024)) (?v ?b))"
    have bs: "?bs = take (unat ?c) (drop (unat off) (content ?v ?I m))"
      by (rule content_slice [OF less.prems(3) offm]) (simp add: c)
    have lt: "unat (left - ?c) < unat left" using blk_chunk_rest blk_chunk_pos [OF l0] l0 by simp
    have step: "wp (readi_loop rw k To_local (off + ?c) (left - ?c) (tot + ?c) (acc @ ?bs))
        (\<lambda>r t. r = (tot + left, acc @ take (unat left) (drop (unat off) (content ?v ?I m))) \<and> txs D st t i {} W \<and> blk D t = ?v \<and> tst_frame s t) u"
      if u: "txs D st u i {} W" "blk D u = ?v" "tst_frame s u" for u
    proof -
      have iu: "inodes u = inodes s" using tst_frame_fs(1) [OF u(3)] .
      have "unat (off + ?c) + unat (left - ?c) \<le> BSIZE * m" using less.prems(5) oc c blk_chunk_rest [of left off] by simp
      then have "wp (readi_loop rw k To_local (off + ?c) (left - ?c) (tot + ?c) (acc @ ?bs))
        (\<lambda>r t. r = (tot + ?c + (left - ?c), (acc @ ?bs) @ take (unat (left - ?c)) (drop (unat (off + ?c)) (content (blk D u) (inodes u k) m))) \<and>
          txs D st t i {} W \<and> blk D t = blk D u \<and> tst_frame u t) u"
        using less.prems iu u by (intro less.hyps [OF lt]) simp_all
      then show ?thesis
      proof (rule wp_mono, goal_cases)
        case (1 r t)
        have "take (unat left) xs = take (unat ?c) xs @ take (unat (left - ?c)) (drop (unat ?c) xs)" for xs :: "byte list"
          using take_add [of "unat ?c" "unat left - unat ?c" xs] c blk_chunk_rest [of left off] by simp
        then show ?case using 1 u iu bs oc tst_frame_trans [OF u(3)] by (simp add: add.commute)
      qed
    qed
    have rd: "wp (bnd (bread rw D ?b) (\<lambda>bp. bnd (bload bp) (\<lambda>d. seq (brelse bp)
        (readi_loop rw k To_local (off + ?c) (left - ?c) (tot + ?c) (acc @ take (unat ?c) (drop (unat (off mod 1024)) d))))))
        (\<lambda>r t. r = (tot + left, acc @ take (unat left) (drop (unat off) (content ?v ?I m))) \<and> txs D st t i {} W \<and> blk D t = ?v \<and> tst_frame s t) t"
      if t: "txs D st t i {} W" "blk D t = ?v" "tst_frame s t" for t
      by (rule tx.read_block [OF t(1)]) (use t b(2) less.prems(4) step tst_frame_trans [OF t(3)] in auto)
    have "wp (bmap rw k (off div 1024)) (\<lambda>addr t. addr = ?b \<and> txs D st t i {} W \<and> blk D t = ?v \<and> tst_frame s t) s"
      by (rule bmap_mapped [OF less.prems(1-3) q less.prems(4)]) simp
    then obtain t where t: "bmap rw k (off div 1024) s = Ok ?b t" "txs D st t i {} W" "blk D t = ?v" "tst_frame s t" by (auto simp: wp_iff)
    have dv: "idev (inodes t k) = D" using tst_frame_fs(1) [OF t(4)] less.prems(2) by simp
    have "readi_loop rw k To_local off left tot acc s = bnd (bread rw D ?b) (\<lambda>bp. bnd (bload bp) (\<lambda>d. seq (brelse bp)
        (readi_loop rw k To_local (off + ?c) (left - ?c) (tot + ?c) (acc @ take (unat ?c) (drop (unat (off mod 1024)) d))))) t"
      using False t(1) b(1) dv by (subst readi_loop.simps) (simp add: copy_to_def bnd_def seq_def fun_eq_iff split: outcome.split)
    then show ?thesis using rd [OF t(2-4)] by (simp add: wp_def)
  qed
qed

end

definition fdata :: "(uint \<Rightarrow> byte list) \<Rightarrow> inode \<Rightarrow> nat \<Rightarrow> byte list" where
  "fdata v I m = take (unat (isize I)) (content v I m)"

lemma sint_small: "unat (x :: uint) < 2 ^ 31 \<Longrightarrow> sint x = int (unat x)"
proof -
  assume a: "unat x < 2 ^ 31"
  have n: "int (unat x) = uint x" by simp
  have "int (unat x) < int (2 ^ 31)" using a by (rule of_nat_less_iff [THEN iffD2])
  then have "int (unat x) < 2 ^ 31" by (simp only: of_nat_power of_nat_numeral)
  then have "uint x < 2 ^ 31" unfolding n .
  moreover have "- (2 ^ 31) \<le> uint x" using uint_ge_0 [of x] by (rule order_trans [rotated]) simp
  ultimately have "signed_take_bit 31 (uint x) = uint x" by (intro signed_take_bit_int_eq_self)
  then show ?thesis unfolding n by (subst sint_uint) simp
qed

lemma readi_ok:
  fixes s :: "'z fsst_scheme"
  assumes "block_driver rw" "txs D st s i {} W" "idev (inodes s k) = D" "mapped st (blk D s) (inodes s k) m"
    "unat (isize (inodes s k)) \<le> BSIZE * m" "card W < NBUF"
  shows "\<exists>t bs. readi rw k To_local off n s = Ok (int (length bs), bs) t \<and>
    bs = (if off + n < off then [] else take (unat n) (drop (unat off) (fdata (blk D s) (inodes s k) m))) \<and>
    txs D st t i {} W \<and> blk D t = blk D s \<and> inodes t = inodes s \<and> dwrites t = dwrites s \<and> tst_frame s t"
proof -
  have ld: "inode_disk rw" using assms(1) by (simp add: inode_disk_def fs_disk_def log_disk_def)
  let ?I = "inodes s k" let ?v = "blk D s" let ?z = "isize ?I"
  show ?thesis
  proof (cases "off > ?z \<or> off + n < off")
    case True
    moreover have "drop (unat off) (fdata ?v ?I m) = []" if "off > ?z" using that by (simp add: fdata_def word_less_nat_alt)
    ultimately have "readi rw k To_local off n s = Ok (0, []) s" "(if off + n < off then [] else take (unat n) (drop (unat off) (fdata ?v ?I m))) = []"
      by (auto simp: readi_def)
    then show ?thesis using assms(2) by (simp add: tst_frameI)
  next
    case False
    define left where "left = (if off + n > ?z then ?z - off else n)"
    have oz: "unat off \<le> unat ?z" using False by (simp add: word_le_nat_alt not_less)
    have no: "unat (off + n) = unat off + unat n"
    proof -
      have "off \<le> off + n" using False by (simp add: not_less)
      then show ?thesis by (rule unat_plus_simple [THEN iffD1])
    qed
    have left: "unat left = min (unat n) (unat ?z - unat off)"
      using oz no by (auto simp: left_def unat_sub word_le_nat_alt word_less_nat_alt)
    have fits: "unat off + unat left \<le> BSIZE * m" using left oz assms(5) by simp
    obtain t where t: "readi_loop rw k To_local off left 0 [] s = Ok (left, take (unat left) (drop (unat off) (content ?v ?I m))) t"
      "txs D st t i {} W" "blk D t = ?v" "tst_frame s t"
      using inode_disk.readi_loop_ok [OF ld assms(2-4,6) fits, of 0 "[]"] by (auto simp: wp_iff)
    let ?bs = "take (unat left) (drop (unat off) (content ?v ?I m))"
    have lc: "length (content ?v ?I m) = BSIZE * m" by (rule length_content [OF assms(4)])
    then have lb: "length ?bs = unat left" using fits by simp
    have "BSIZE * m \<le> 274432" using assms(4) by (simp add: mapped_def MAXFILE_def NDIRECT_def NINDIRECT_def BSIZE_def)
    then have si: "sint left = int (length ?bs)" unfolding lb using fits by (intro sint_small) simp
    have "?bs = take (unat n) (drop (unat off) (fdata ?v ?I m))" by (simp add: fdata_def drop_take left min.commute)
    moreover have "readi rw k To_local off n s = Ok (int (length ?bs), ?bs) t"
      using t(1) False si by (simp add: readi_def left_def)
    ultimately show ?thesis using t tst_frame_fs(1,6) [OF t(4)] False by auto
  qed
qed

section \<open>Writing\<close>

text \<open>The blocks of the file are distinct, and distinct from the indirect block.\<close>

definition separate :: "(uint \<Rightarrow> byte list) \<Rightarrow> inode \<Rightarrow> nat \<Rightarrow> bool" where
  "separate v I m \<longleftrightarrow> inj_on (fblock v I) {..<m} \<and> (NDIRECT < m \<longrightarrow> addrs I NDIRECT \<notin> fblock v I ` {..<m})"

text \<open>The number of blocks that a range of the file touches.\<close>

definition touched :: "nat \<Rightarrow> nat \<Rightarrow> nat" where
  "touched off n = (if n = 0 then 0 else (off + n - 1) div BSIZE - off div BSIZE + 1)"

lemma fblock_same:
  assumes "\<forall>n. n \<notin> fblock v I ` {..<m} \<longrightarrow> w n = v n" "separate v I m" "bn < m"
  shows "fblock w I bn = fblock v I bn"
  using assms by (auto simp: fblock_def separate_def)

lemma content_agree:
  assumes "\<forall>bn<m. fblock w I bn = fblock v I bn \<and> w (fblock v I bn) = v (fblock v I bn)"
  shows "content w I m = content v I m" "mapped st w I m = mapped st v I m" "separate w I m = separate v I m"
    "fblock w I ` {..<m} = fblock v I ` {..<m}"
proof -
  show i: "fblock w I ` {..<m} = fblock v I ` {..<m}" by (rule image_cong) (use assms in auto)
  show "content w I m = content v I m" unfolding content_def by (intro arg_cong [of _ _ concat] map_cong) (use assms in auto)
  show "mapped st w I m = mapped st v I m" using assms by (simp add: mapped_def)
  have "inj_on (fblock w I) {..<m} = inj_on (fblock v I) {..<m}" by (rule inj_on_cong) (use assms in auto)
  then show "separate w I m = separate v I m" by (simp add: separate_def i)
qed

lemma content_store:
  assumes "mapped st v I m" "separate v I m" "q < m" "r + length bs \<le> BSIZE"
    and w: "w = v(fblock v I q := patch r bs (v (fblock v I q)))"
  shows "content w I m = patch (BSIZE * q + r) bs (content v I m)" "mapped st w I m" "separate w I m" "\<forall>bn<m. fblock w I bn = fblock v I bn"
proof -
  let ?f = "\<lambda>bn. v (fblock v I bn)"
  have l: "\<forall>bn<m. length (?f bn) = BSIZE" by (rule mapped_lengths [OF assms(1)])
  have fb: "\<forall>bn<m. fblock w I bn = fblock v I bn"
    using fblock_same [of v I m w] assms(2,3) w by auto
  have "w (fblock w I bn) = (?f(q := patch r bs (?f q))) bn" if "bn < m" for bn
    using that fb assms(2,3) by (auto simp: w separate_def inj_on_def)
  then have "content w I m = concat (map (?f(q := patch r bs (?f q))) [0..<m])"
    unfolding content_def by (intro arg_cong [of _ _ concat] map_cong) auto
  then show "content w I m = patch (BSIZE * q + r) bs (content v I m)"
    unfolding content_def using patch_blocks [OF l assms(3,4)] by simp
  show "\<forall>bn<m. fblock w I bn = fblock v I bn" by (rule fb)
  have "length (w n) = length (v n)" for n using assms(3,4) l by (simp add: w patch_length)
  then show "mapped st w I m" using assms(1) fb by (simp add: mapped_def)
  show "separate w I m" using assms(2) fb by (auto simp: separate_def inj_on_def)
qed

lemma touched_step:
  assumes "0 < n" "c = min n (BSIZE - off mod BSIZE)"
  shows "touched (off + c) (n - c) + 1 = touched off n"
proof (cases "c = n")
  case True
  have "off mod BSIZE + n \<le> BSIZE" using assms True by (simp add: BSIZE_def)
  then have "(off mod BSIZE + n - 1) div BSIZE = 0" using assms(1) by (simp add: BSIZE_def)
  moreover have "off + n - 1 = (off mod BSIZE + n - 1) + BSIZE * (off div BSIZE)" using assms(1) by simp
  ultimately have "(off + n - 1) div BSIZE = off div BSIZE" by (simp add: BSIZE_def)
  then show ?thesis using True assms(1) by (simp add: touched_def)
next
  case False
  then have c: "c = BSIZE - off mod BSIZE" "c < n" using assms by auto
  have "off mod BSIZE < BSIZE" by (simp add: BSIZE_def)
  then have "off + c = BSIZE * (off div BSIZE) + BSIZE" unfolding c(1) using mult_div_mod_eq [of BSIZE off] by linarith
  then have d: "(off + c) div BSIZE = off div BSIZE + 1" by (simp add: BSIZE_def)
  have "off + c \<le> off + n - 1" using c(2) by simp
  then have "off div BSIZE + 1 \<le> (off + n - 1) div BSIZE" unfolding d [symmetric] by (rule div_le_mono)
  moreover have "off + c + (n - c) - 1 = off + n - 1" using c(2) by simp
  ultimately show ?thesis using c(2) assms(1) d by (simp add: touched_def)
qed

text \<open>The arithmetic of one round: \<open>c\<close> bytes go into one block, at \<open>off mod BSIZE\<close>.\<close>

lemma write_chunk:
  assumes "0 < unat left" "unat off + unat left \<le> BSIZE * m" "BSIZE * m \<le> 274432" "unat tot + unat left = length bs" "length bs < 2 ^ 32"
  defines "c \<equiv> blk_chunk off left"
  shows "unat (off div 1024) < m" "unat (off + c) = unat off + unat c" "unat (tot + c) = unat tot + unat c" "unat c \<le> unat left"
    "length (take (unat c) (drop (unat tot) bs)) = unat c" "unat (off mod 1024) + unat c \<le> BSIZE"
    "unat (left - c) < unat left" "unat (left - c) = unat left - unat c" "touched (unat (off + c)) (unat (left - c)) + 1 = touched (unat off) (unat left)"
proof -
  have c: "unat c = min (unat left) (BSIZE - unat off mod BSIZE)" using unat_blk_chunk [of off left] by (simp add: BSIZE_def c_def)
  show oc: "unat (off + c) = unat off + unat c" using assms(2,3) c by (subst unat_add_lem [symmetric]) simp
  show "unat (tot + c) = unat tot + unat c" using assms(4,5) c by (subst unat_add_lem [symmetric]) simp
  have "unat off < BSIZE * m" using assms(1,2) by simp
  then show "unat (off div 1024) < m" by (simp add: off_div BSIZE_def less_mult_imp_div_less mult.commute)
  show "unat c \<le> unat left" "length (take (unat c) (drop (unat tot) bs)) = unat c" using assms(4) c by simp_all
  show "unat (off mod 1024) + unat c \<le> BSIZE" unfolding c by (simp add: off_div) (simp add: BSIZE_def)
  show lr: "unat (left - c) = unat left - unat c" unfolding c_def by (rule blk_chunk_rest)
  show "unat (left - c) < unat left" using lr blk_chunk_pos [OF assms(1), of off] assms(1) by (simp add: c_def)
  show "touched (unat (off + c)) (unat (left - c)) + 1 = touched (unat off) (unat left)" unfolding oc lr by (rule touched_step [OF assms(1) c])
qed

text \<open>What the loop of \<open>writei\<close> does from \<open>s\<close> to \<open>t\<close>: the rest of \<open>bs\<close> from \<open>tot\<close> on is in the file at \<open>off\<close>.\<close>

definition wrote :: "uint \<Rightarrow> uint \<Rightarrow> nat \<Rightarrow> nat \<Rightarrow> nat \<Rightarrow> byte list \<Rightarrow> uint \<Rightarrow> uint \<Rightarrow> uint \<Rightarrow> uint set \<Rightarrow> 'z fsst_scheme \<Rightarrow> uint \<times> uint \<Rightarrow> 'z fsst_scheme \<Rightarrow> bool" where
  "wrote D st i k m bs off left tot W s r t \<longleftrightarrow> r = (tot + left, off + left) \<and>
     (\<exists>V. txs D st t i {} V \<and> card V \<le> card W + touched (unat off) (unat left)) \<and>
     content (blk D t) (inodes s k) m = patch (unat off) (drop (unat tot) bs) (content (blk D s) (inodes s k) m) \<and>
     (\<forall>n. n \<notin> fblock (blk D s) (inodes s k) ` {..<m} \<longrightarrow> blk D t n = blk D s n) \<and>
     mapped st (blk D t) (inodes s k) m \<and> separate (blk D t) (inodes s k) m \<and> tst_frame s t"

text \<open>Two consecutive writes are one.\<close>

lemma patch_rest:
  assumes "unat (off + c) = unat off + unat c" "unat (tot + c) = unat tot + unat c" "unat off + unat c \<le> length X"
    "length (take (unat c) (drop (unat tot) bs)) = unat c"
  shows "patch (unat (off + c)) (drop (unat (tot + c)) bs) (patch (unat off) (take (unat c) (drop (unat tot) bs)) X) = patch (unat off) (drop (unat tot) bs) X"
proof -
  let ?ch = "take (unat c) (drop (unat tot) bs)"
  have "?ch @ drop (unat (tot + c)) bs = drop (unat tot) bs"
    unfolding assms(2) using append_take_drop_id [of "unat c" "drop (unat tot) bs"] by (simp add: add.commute)
  then show ?thesis using patch_patch [of "unat off" ?ch X "drop (unat (tot + c)) bs"] assms(1,3,4) by simp
qed

lemma wrote_step:
  assumes "0 < unat left" "unat off + unat left \<le> BSIZE * m" "unat tot + unat left = length bs" "length bs < 2 ^ 32"
    "mapped st (blk D s) (inodes s k) m" "separate (blk D s) (inodes s k) m"
  defines "c \<equiv> blk_chunk off left" and "b \<equiv> fblock (blk D s) (inodes s k) (unat (off div 1024))"
  assumes u: "blk D u = (blk D s)(b := patch (unat (off mod 1024)) (take (unat c) (drop (unat tot) bs)) (blk D s b))" "tst_frame s u"
    and t: "wrote D st i k m bs (off + c) (left - c) (tot + c) (insert b W) u r t"
  shows "wrote D st i k m bs off left tot W s r t"
proof -
  let ?I = "inodes s k" let ?v = "blk D s" let ?ch = "take (unat c) (drop (unat tot) bs)"
  have ml: "BSIZE * m \<le> 274432" using assms(5) by (simp add: mapped_def MAXFILE_def NDIRECT_def NINDIRECT_def BSIZE_def)
  note w = write_chunk [OF assms(1,2) ml assms(3,4), folded c_def]
  have iu: "inodes u = inodes s" by (rule tst_frame_fs(1) [OF u(2)])
  have rc: "unat (off mod 1024) + length ?ch \<le> BSIZE" using w(5,6) by simp
  note st = content_store [OF assms(5,6) w(1) rc refl, folded b_def]
  have img: "fblock (blk D u) ?I ` {..<m} = fblock ?v ?I ` {..<m}" unfolding u(1) using st(4) by auto
  have out: "blk D u n = ?v n" if "n \<notin> fblock ?v ?I ` {..<m}" for n using that w(1) unfolding u(1) b_def by auto
  note h = t [unfolded wrote_def iu]
  have "card (insert b W) \<le> card W + 1" by (simp add: card_insert_le_m1)
  then have "\<exists>V. txs D st t i {} V \<and> card V \<le> card W + touched (unat off) (unat left)"
    using h w(9) by (elim conjE exE) (intro exI conjI, assumption, linarith)
  moreover have "content (blk D t) ?I m = patch (unat off) (drop (unat tot) bs) (content ?v ?I m)"
  proof -
    have "BSIZE * unat (off div 1024) + unat (off mod 1024) = unat off" by (simp add: off_div)
    then have "content (blk D u) ?I m = patch (unat off) ?ch (content ?v ?I m)" unfolding u(1) using st(1) by simp
    moreover have "unat off + unat c \<le> length (content ?v ?I m)" using w(4) assms(2) by (simp add: length_content [OF assms(5)])
    ultimately show ?thesis using h patch_rest [OF w(2,3) _ w(5)] by simp
  qed
  moreover have "\<forall>n. n \<notin> fblock ?v ?I ` {..<m} \<longrightarrow> blk D t n = ?v n" using h out img by simp
  moreover have "r = (tot + left, off + left)" "mapped st (blk D t) ?I m" "separate (blk D t) ?I m" "tst_frame s t"
    using h tst_frame_trans [OF u(2)] by auto
  ultimately show ?thesis unfolding wrote_def by blast
qed

context inode_disk
begin

lemma writei_loop_ok:
  assumes "txs D st s i {} W" "idev (inodes s k) = D" "mapped st (blk D s) (inodes s k) m" "separate (blk D s) (inodes s k) m"
    "card W + touched (unat off) (unat left) < NBUF" "unat off + unat left \<le> BSIZE * m" "unat tot + unat left = length bs" "length bs < 2 ^ 32"
  shows "wp (writei_loop rw k (From_local bs) off left tot) (wrote D st i k m bs off left tot W s) s"
  using assms
proof (induction "unat left" arbitrary: s off left tot W rule: less_induct)
  case less
  show ?case
  proof (cases "left = 0")
    case True
    then have "drop (unat tot) bs = []" using less.prems(7) by simp
    then show ?thesis using True less.prems by (auto simp: wp_def writei_loop.simps tst_frameI wrote_def)
  next
    case False
    let ?I = "inodes s k" let ?v = "blk D s" let ?c = "blk_chunk off left" let ?q = "unat (off div 1024)" let ?b = "fblock ?v ?I ?q"
    let ?r = "unat (off mod 1024)" let ?ch = "take (unat ?c) (drop (unat tot) bs)"
    let ?go = "writei_loop rw k (From_local bs) (off + ?c) (left - ?c) (tot + ?c)"
    have l0: "0 < unat left" using False by (simp add: unat_gt_0)
    have ml: "BSIZE * m \<le> 274432" using less.prems(3) by (simp add: mapped_def MAXFILE_def NDIRECT_def NINDIRECT_def BSIZE_def)
    note w = write_chunk [OF l0 less.prems(6) ml less.prems(7,8)]
    have b: "?b \<noteq> 0" "home_block st ?b" using less.prems(3) w(1) by (simp_all add: mapped_def)
    have rc: "?r + length ?ch \<le> BSIZE" using w(5,6) by simp
    note cs = content_store [OF less.prems(3,4) w(1) rc refl]
    have step: "wp ?go (wrote D st i k m bs off left tot W s) u"
      if u: "txs D st u i {} (insert ?b W)" "blk D u = ?v(?b := patch ?r ?ch (?v ?b))" "tst_frame s u" for u
    proof (rule wp_mono)
      have iu: "inodes u = inodes s" by (rule tst_frame_fs(1) [OF u(3)])
      have "card (insert ?b W) \<le> card W + 1" by (simp add: card_insert_le_m1)
      then have "card (insert ?b W) + touched (unat (off + ?c)) (unat (left - ?c)) < NBUF" using less.prems(5) w(9) by linarith
      then show "wp ?go (wrote D st i k m bs (off + ?c) (left - ?c) (tot + ?c) (insert ?b W) u) u"
        by (intro less.hyps [OF w(7) u(1)]) (use less.prems(2,6,7,8) iu u(2) cs(2,3) w in simp_all)
    qed (rule wrote_step [OF l0 less.prems(6-8,3,4) u(2,3)])
    have "wp (bmap rw k (off div 1024)) (\<lambda>addr t. addr = ?b \<and> txs D st t i {} W \<and> blk D t = ?v \<and> tst_frame s t) s"
      by (rule bmap_mapped [OF less.prems(1-3) w(1)]) (use less.prems(5) in simp_all)
    then obtain t where t: "bmap rw k (off div 1024) s = Ok ?b t" "txs D st t i {} W" "blk D t = ?v" "tst_frame s t" by (auto simp: wp_iff)
    have dv: "idev (inodes t k) = D" using tst_frame_fs(1) [OF t(4)] less.prems(2) by simp
    have run: "writei_loop rw k (From_local bs) off left tot s =
        bnd (bread rw D ?b) (\<lambda>bp. bnd (bload bp) (\<lambda>d. seq (bstore bp (patch ?r ?ch d)) (seq (log_write bp) (seq (brelse bp) ?go)))) t"
      using False t(1) b(1) dv by (subst writei_loop.simps) (simp add: copy_from_def bnd_def seq_def fun_eq_iff split: outcome.split)
    have "wp (bnd (bread rw D ?b) (\<lambda>bp. bnd (bload bp) (\<lambda>d. seq (bstore bp (patch ?r ?ch d)) (seq (log_write bp) (seq (brelse bp) ?go)))))
      (wrote D st i k m bs off left tot W s) t"
    proof (rule tx.update_block [OF t(2), of ?b])
      show "card W < LOGBLOCKS" "card ({} :: nat set) + card W < NBUF" using less.prems(5) by (simp_all add: LOGBLOCKS_def NBUF_def)
    qed (use b step t tst_frame_trans [OF t(4)] in simp_all)
    then show ?thesis using run by (simp add: wp_def)
  qed
qed

end

text \<open>The whole of \<open>writei\<close>: \<open>grown\<close> is the inode with its new size.\<close>

lemma tst_frame_inodes: "tst_frame s t \<Longrightarrow> tst_frame (s\<lparr>inodes := a\<rparr>) ((t :: 'z fsst_scheme)\<lparr>inodes := a\<rparr>)"
  unfolding tst_frame_def bframe_def by (elim conjE, drule arg_cong [of _ _ "\<lambda>x. x\<lparr>inodes := a\<rparr>"]) simp

definition grown :: "uint \<Rightarrow> inode \<Rightarrow> inode" where
  "grown e I = (if e > isize I then I\<lparr>isize := e\<rparr> else I)"

lemma grown_simps [simp]: "addrs (grown e I) = addrs I" "idev (grown e I) = idev I" "inum (grown e I) = inum I"
  "isize (grown e I) = max (isize I) e" "fblock v (grown e I) = fblock v I" "content v (grown e I) m = content v I m"
  "mapped st v (grown e I) m = mapped st v I m" "separate v (grown e I) m = separate v I m"
proof -
  show a: "addrs (grown e I) = addrs I" "idev (grown e I) = idev I" "inum (grown e I) = inum I" "isize (grown e I) = max (isize I) e"
    by (simp_all add: grown_def)
  show b: "fblock v (grown e I) = fblock v I" by (rule ext) (simp add: fblock_def a)
  show "content v (grown e I) m = content v I m" "mapped st v (grown e I) m = mapped st v I m" "separate v (grown e I) m = separate v I m"
    by (simp_all add: content_def mapped_def separate_def a b)
qed

definition writable :: "uint \<Rightarrow> (uint \<Rightarrow> byte list) \<Rightarrow> superblock \<Rightarrow> inode \<Rightarrow> nat \<Rightarrow> bool" where
  "writable st v S I m \<longleftrightarrow> mapped st v I m \<and> separate v I m \<and> home_block st (IBLOCK (inum I) S) \<and>
     length (v (IBLOCK (inum I) S)) = BSIZE \<and> IBLOCK (inum I) S \<notin> fblock v I ` {..<m} \<and> (NDIRECT < m \<longrightarrow> IBLOCK (inum I) S \<noteq> addrs I NDIRECT)"

context inode_disk
begin

lemma writei_ok:
  assumes "txs D st s i {} W" "idev (inodes s k) = D" "writable st (blk D s) (sb s) (inodes s k) m"
    "card W + touched (unat off) (length bs) + 1 < NBUF" "unat off + length bs \<le> BSIZE * m" "off \<le> isize (inodes s k)"
  shows "\<exists>t V. writei rw k (From_local bs) off (of_nat (length bs)) s = Ok (int (length bs)) t \<and>
    txs D st t i {} V \<and> card V \<le> card W + touched (unat off) (length bs) + 1 \<and>
    inodes t = (inodes s)(k := grown (off + of_nat (length bs)) (inodes s k)) \<and>
    content (blk D t) (inodes t k) m = patch (unat off) bs (content (blk D s) (inodes s k) m) \<and>
    blk D t (IBLOCK (inum (inodes s k)) (sb s)) = put_dinode (doff (inum (inodes s k))) (inodes t k) (blk D s (IBLOCK (inum (inodes s k)) (sb s))) \<and>
    (\<forall>n. n \<notin> fblock (blk D s) (inodes s k) ` {..<m} \<longrightarrow> n \<noteq> IBLOCK (inum (inodes s k)) (sb s) \<longrightarrow> blk D t n = blk D s n) \<and>
    writable st (blk D t) (sb t) (inodes t k) m \<and> tst_frame s (t\<lparr>inodes := inodes s\<rparr>)"
proof -
  let ?I = "inodes s k" let ?v = "blk D s" let ?n = "of_nat (length bs) :: uint" let ?b = "IBLOCK (inum ?I) (sb s)"
  have W: "mapped st ?v ?I m" "separate ?v ?I m" "home_block st ?b" "length (?v ?b) = BSIZE" "?b \<notin> fblock ?v ?I ` {..<m}" "NDIRECT < m \<longrightarrow> ?b \<noteq> addrs ?I NDIRECT"
    using assms(3) by (simp_all add: writable_def)
  have ml: "BSIZE * m \<le> 274432" "MAXFILE * BSIZE = 274432" using W(1) by (simp_all add: mapped_def MAXFILE_def NDIRECT_def NINDIRECT_def BSIZE_def)
  have n: "unat ?n = length bs" "length bs < 2 ^ 32" using assms(5) ml by (simp_all add: unat_of_nat)
  have on: "unat (off + ?n) = unat off + length bs" using assms(5) ml n by (subst n(1) [symmetric], subst unat_add_lem [symmetric]) simp
  have g: "\<not> (off > isize ?I \<or> off + ?n < off)" using assms(6) on by (auto simp: word_less_nat_alt word_le_nat_alt)
  have g2: "\<not> unat (off + ?n) > MAXFILE * BSIZE" using on assms(5) ml by simp
  have "wp (writei_loop rw k (From_local bs) off ?n 0) (wrote D st i k m bs off ?n 0 W s) s"
    by (rule writei_loop_ok [OF assms(1,2) W(1,2)]) (use assms(4,5) n in simp_all)
  then obtain t V where t: "writei_loop rw k (From_local bs) off ?n 0 s = Ok (?n, off + ?n) t" "txs D st t i {} V"
    "card V \<le> card W + touched (unat off) (length bs)" "content (blk D t) ?I m = patch (unat off) bs (content ?v ?I m)"
    "\<forall>n. n \<notin> fblock ?v ?I ` {..<m} \<longrightarrow> blk D t n = ?v n" "mapped st (blk D t) ?I m" "separate (blk D t) ?I m" "tst_frame s t"
    using n(1) by (auto simp: wp_iff wrote_def)
  let ?J = "grown (off + ?n) ?I"
  have f: "inodes t = inodes s" "sb t = sb s" using tst_frame_fs(1,2) [OF t(8)] by simp_all
  define u where "u = t\<lparr>inodes := (inodes s)(k := ?J)\<rparr>"
  have u: "txs D st u i {} V" "blk D u = blk D t" "inodes u k = ?J" "sb u = sb s" using t(2) f by (simp_all add: u_def)
  have tb: "blk D t ?b = ?v ?b" using t(5) W(5) by blast
  have "wp (iupdate rw k) (\<lambda>_ w. txs D st w i {} (insert ?b V) \<and> blk D w = (blk D t)(?b := put_dinode (doff (inum ?I)) ?J (?v ?b)) \<and> tst_frame u w) u"
    by (rule iupdate_ok [OF u(1)]) (use assms(2,4) W(3) t(3) u tb in \<open>simp_all add: LOGBLOCKS_def NBUF_def\<close>)
  then obtain w where w: "iupdate rw k u = Ok () w" "txs D st w i {} (insert ?b V)"
    "blk D w = (blk D t)(?b := put_dinode (doff (inum ?I)) ?J (?v ?b))" "tst_frame u w" by (auto simp: wp_iff)
  have fw: "inodes w = (inodes s)(k := ?J)" "sb w = sb s" using tst_frame_fs(1,2) [OF w(4)] u(4) by (simp_all add: u_def)
  have sz: "whenM (off + ?n > isize (inodes t k)) (set_inode k (\<lambda>I. I\<lparr>isize := off + ?n\<rparr>)) t = Ok () u"
  proof (cases "off + ?n > isize ?I")
    case False
    then have "(inodes s)(k := ?J) = inodes t" using f(1) by (simp add: grown_def fun_upd_idem)
    then have "u = t" by (simp add: u_def)
    then show ?thesis using False f(1) by simp
  qed (simp add: f(1) grown_def u_def)
  have si: "sint ?n = int (length bs)" using sint_small [of ?n] n(1) assms(5) ml by simp
  have run: "writei rw k (From_local bs) off ?n s = Ok (int (length bs)) w"
    using g g2 t(1) w(1) sz si by (simp add: writei_def)
  have out: "blk D w n = ?v n" if "n \<notin> fblock ?v ?I ` {..<m}" "n \<noteq> ?b" for n using that t(5) w(3) by simp
  have fb: "fblock (blk D w) ?I bn = fblock (blk D t) ?I bn" if "bn < m" for bn
    using W(6) that w(3) by (auto simp: fblock_def)
  have ft: "fblock (blk D t) ?I bn = fblock ?v ?I bn" if "bn < m" for bn by (rule fblock_same [OF t(5) W(2) that])
  have nb: "fblock (blk D t) ?I bn \<noteq> ?b" if "bn < m" for bn using ft [OF that] W(5) that by (metis imageI lessThan_iff)
  have "\<forall>bn<m. fblock (blk D w) ?I bn = fblock (blk D t) ?I bn \<and> blk D w (fblock (blk D t) ?I bn) = blk D t (fblock (blk D t) ?I bn)"
    using fb nb w(3) by simp
  note ct = content_agree [OF this]
  have "?b \<notin> fblock (blk D t) ?I ` {..<m}" using nb by (metis imageE lessThan_iff)
  then have "mapped st (blk D w) ?I m" "separate (blk D w) ?I m" "?b \<notin> fblock (blk D w) ?I ` {..<m}" using t(6,7) ct by simp_all
  then have wr: "writable st (blk D w) (sb w) (inodes w k) m"
    using W(3,4,6) w(3) fw by (simp add: writable_def)
  have "tst_frame s (w\<lparr>inodes := inodes s\<rparr>)"
  proof -
    have "u\<lparr>inodes := inodes s\<rparr> = t" by (simp add: u_def f(1) [symmetric])
    then have "tst_frame t (w\<lparr>inodes := inodes s\<rparr>)" using tst_frame_inodes [OF w(4), of "inodes s"] by simp
    then show ?thesis by (rule tst_frame_trans [OF t(8)])
  qed
  then show ?thesis
    using run w(2,3) fw ct(1) t(3,4) wr out card_insert_le_m1 [of "card V + 1" V ?b] by (intro exI [of _ w] exI [of _ "insert ?b V"]) auto
qed

end

lemma patch_take:
  assumes "k \<le> z" "k + length bs \<le> length d" "z \<le> length d"
  shows "take (max z (k + length bs)) (patch k bs d) = patch k bs (take z d)"
proof (cases "z \<le> k + length bs")
  case True
  then show ?thesis using assms by (cases bs) (simp_all add: patch_def max_def min_def)
next
  case False
  then show ?thesis using assms by (simp add: patch_def max_def min_def drop_take)
qed

text \<open>
  C6: \<open>readi\<close> reads the file. With the file's blocks allocated, a read of \<open>n\<close> bytes at \<open>off\<close> returns the slice of the file's
  contents that lies below its size, and its length as the result: short or empty at the end of the file, empty when \<open>off + n\<close>
  wraps around. Nothing changes: no block, no inode, nothing on the disk.
\<close>

theorem readi_correct:
  fixes s :: "'z fsst_scheme"
  assumes "block_driver rw" "txs D st s i {} W" "idev (inodes s k) = D" "mapped st (blk D s) (inodes s k) m"
    "unat (isize (inodes s k)) \<le> BSIZE * m" "card W < NBUF"
  shows "\<exists>t bs. readi rw k To_local off n s = Ok (int (length bs), bs) t \<and>
    bs = (if off + n < off then [] else take (unat n) (drop (unat off) (fdata (blk D s) (inodes s k) m))) \<and>
    txs D st t i {} W \<and> blk D t = blk D s \<and> inodes t = inodes s \<and> dwrites t = dwrites s"
  using readi_ok [OF assms, of off n] by blast

text \<open>
  C5: \<open>writei\<close> writes the file. On a file with enough blocks, a write of \<open>bs\<close> at an offset not beyond the end returns the number
  of bytes, replaces exactly that range of the contents (the file grows when the range ends beyond its size), keeps
  the inode on disk equal to the one in memory, and changes no block but the file's and the inode's. Reading the range back
  returns \<open>bs\<close>.
\<close>

theorem writei_correct:
  fixes s :: "'z fsst_scheme"
  assumes "block_driver rw" "txs D st s i {} W" "idev (inodes s k) = D" "writable st (blk D s) (sb s) (inodes s k) m"
    "card W + touched (unat off) (length bs) + 1 < NBUF" "unat off + length bs \<le> BSIZE * m" "off \<le> isize (inodes s k)"
    "unat (isize (inodes s k)) \<le> BSIZE * m"
  shows "\<exists>t u. writei rw k (From_local bs) off (of_nat (length bs)) s = Ok (int (length bs)) t \<and>
    fdata (blk D t) (inodes t k) m = patch (unat off) bs (fdata (blk D s) (inodes s k) m) \<and>
    get_dinode (doff (inum (inodes t k))) (blk D t (IBLOCK (inum (inodes t k)) (sb t))) X = on_disk (inodes t k) X \<and>
    (\<forall>n. n \<notin> fblock (blk D s) (inodes s k) ` {..<m} \<longrightarrow> n \<noteq> IBLOCK (inum (inodes s k)) (sb s) \<longrightarrow> blk D t n = blk D s n) \<and>
    readi rw k To_local off (of_nat (length bs)) t = Ok (int (length bs), bs) u"
proof -
  have ld: "inode_disk rw" using assms(1) by (simp add: inode_disk_def fs_disk_def log_disk_def)
  let ?I = "inodes s k" let ?v = "blk D s" let ?n = "of_nat (length bs) :: uint" let ?b = "IBLOCK (inum ?I) (sb s)"
  obtain t V where t: "writei rw k (From_local bs) off ?n s = Ok (int (length bs)) t" "txs D st t i {} V"
    "card V \<le> card W + touched (unat off) (length bs) + 1" "inodes t = (inodes s)(k := grown (off + ?n) ?I)"
    "content (blk D t) (inodes t k) m = patch (unat off) bs (content ?v ?I m)"
    "blk D t ?b = put_dinode (doff (inum ?I)) (inodes t k) (?v ?b)"
    "\<forall>n. n \<notin> fblock ?v ?I ` {..<m} \<longrightarrow> n \<noteq> ?b \<longrightarrow> blk D t n = ?v n" "writable st (blk D t) (sb t) (inodes t k) m" "tst_frame s (t\<lparr>inodes := inodes s\<rparr>)"
    using inode_disk.writei_ok [OF ld assms(2-7)] by blast
  have sbt: "sb t = sb s" using tst_frame_fs(2) [OF t(9)] by simp
  have mp: "mapped st ?v ?I m" "mapped st (blk D t) (inodes t k) m" "length (?v ?b) = BSIZE" using assms(4) t(8) by (simp_all add: writable_def)
  have ml: "BSIZE * m \<le> 274432" using mp(1) by (simp add: mapped_def MAXFILE_def NDIRECT_def NINDIRECT_def BSIZE_def)
  have n: "unat ?n = length bs" using assms(6) ml by (simp add: unat_of_nat)
  have on: "unat (off + ?n) = unat off + length bs" using assms(6) ml n by (subst n [symmetric], subst unat_add_lem [symmetric]) simp
  have lc: "length (content ?v ?I m) = BSIZE * m" by (rule length_content [OF mp(1)])
  have It: "inodes t k = grown (off + ?n) ?I" using t(4) by simp
  have um: "unat (max a b) = max (unat a) (unat b)" for a b :: uint by (simp add: max_def word_le_nat_alt)
  have oz: "unat off \<le> unat (isize ?I)" using assms(7) by (simp add: word_le_nat_alt)
  have sz: "unat (isize (inodes t k)) = max (unat (isize ?I)) (unat off + length bs)" unfolding It grown_simps um on ..
  have fd: "fdata (blk D t) (inodes t k) m = patch (unat off) bs (fdata ?v ?I m)"
    unfolding fdata_def sz t(5) by (rule patch_take) (use oz assms(6,8) lc in simp_all)
  have gd: "get_dinode (doff (inum ?I)) (blk D t ?b) X = on_disk (inodes t k) X"
    unfolding t(6) by (rule get_put_dinode) (use doff_bound mp(3) in simp)
  have "\<not> off + ?n < off" using on by (simp add: word_less_nat_alt)
  moreover have "take (unat ?n) (drop (unat off) (fdata (blk D t) (inodes t k) m)) = bs"
    unfolding fd n using oz assms(8) lc by (simp add: patch_def fdata_def)
  moreover have "unat (isize (inodes t k)) \<le> BSIZE * m" "idev (inodes t k) = D" "card V < NBUF"
    using sz assms(3,5,6,8) It t(3) by simp_all
  ultimately obtain u where "readi rw k To_local off ?n t = Ok (int (length bs), bs) u"
    using readi_ok [OF assms(1) t(2) _ mp(2), of off ?n] by auto
  then show ?thesis using t(1,7) fd gd It sbt by auto
qed

lemma demo_file:
  assumes "length (v 50) = BSIZE" "length (v 33) = BSIZE"
  shows "writable 2 v demo_sb (demo_table 3) 1"
  using assms demo_home [of 50] demo_iblock
  by (simp add: writable_def mapped_def separate_def fblock_def demo_table_def MAXFILE_def NDIRECT_def)
    (auto simp: demo_inode_def fblock_def NDIRECT_def inj_on_def)

theorem readi_correct_witness:
  "\<exists>(s :: fsst) t bs. readi (disk_rw (\<lambda>_ _. 0) blk_device) 3 To_local 90 20 s = Ok (10, bs) t \<and> bs = replicate 10 0"
proof -
  obtain s :: fsst where s: "itx 1 2 s 0 {}" "blk 1 s = (\<lambda>_. replicate 1024 0)" "sb s = demo_sb" "inodes s = demo_table" by (rule demo_fsst)
  have drv: "block_driver (disk_rw (\<lambda>_ _. 0) (blk_device :: fsst \<Rightarrow> fsst))" by (rule vdisk.vrw.block_driver_axioms)
  have tx: "txs 1 2 s 0 {} {}" using s(1) by (simp add: itx_def)
  have p: "idev (inodes s 3) = 1" "mapped 2 (blk 1 s) (inodes s 3) 1" "unat (isize (inodes s 3)) \<le> BSIZE * 1" "card ({} :: uint set) < NBUF"
    using demo_file [of "blk 1 s"] s by (simp_all add: writable_def BSIZE_def NBUF_def) (simp_all add: demo_table_def demo_inode_def)
  have "take 20 (drop 90 (fdata (blk 1 s) (inodes s 3) 1)) = replicate 10 0"
    by (simp add: s(2,4) fdata_def content_def demo_table_def demo_inode_def)
  then show ?thesis using readi_correct [OF drv tx p, of 90 20] by auto
qed

theorem writei_correct_witness:
  "\<exists>(s :: fsst) t u. writei (disk_rw (\<lambda>_ _. 0) blk_device) 3 (From_local [1, 2, 3]) 99 3 s = Ok 3 t \<and>
     length (fdata (blk 1 t) (inodes t 3) 1) = 102 \<and> readi (disk_rw (\<lambda>_ _. 0) blk_device) 3 To_local 99 3 t = Ok (3, [1, 2, 3]) u"
proof -
  obtain s :: fsst where s: "itx 1 2 s 0 {}" "blk 1 s = (\<lambda>_. replicate 1024 0)" "sb s = demo_sb" "inodes s = demo_table" by (rule demo_fsst)
  have drv: "block_driver (disk_rw (\<lambda>_ _. 0) (blk_device :: fsst \<Rightarrow> fsst))" by (rule vdisk.vrw.block_driver_axioms)
  have tx: "txs 1 2 s 0 {} {}" using s(1) by (simp add: itx_def)
  let ?bs = "[1, 2, 3] :: byte list"
  have p: "idev (inodes s 3) = 1" "writable 2 (blk 1 s) (sb s) (inodes s 3) 1" "card ({} :: uint set) + touched (unat (99 :: uint)) (length ?bs) + 1 < NBUF"
    "unat (99 :: uint) + length ?bs \<le> BSIZE * 1" "99 \<le> isize (inodes s 3)" "unat (isize (inodes s 3)) \<le> BSIZE * 1"
    using demo_file [of "blk 1 s"] s by (simp_all add: BSIZE_def NBUF_def touched_def) (simp_all add: demo_table_def demo_inode_def)
  obtain t u where t: "writei (disk_rw (\<lambda>_ _. 0) blk_device) 3 (From_local ?bs) 99 (of_nat (length ?bs)) s = Ok (int (length ?bs)) t"
    "fdata (blk 1 t) (inodes t 3) 1 = patch (unat (99 :: uint)) ?bs (fdata (blk 1 s) (inodes s 3) 1)"
    "readi (disk_rw (\<lambda>_ _. 0) blk_device) 3 To_local 99 (of_nat (length ?bs)) t = Ok (int (length ?bs), ?bs) u"
    using writei_correct [OF drv tx p] by blast
  have "length (fdata (blk 1 t) (inodes t 3) 1) = 102"
    unfolding t(2) by (simp add: s(2,4) fdata_def content_def patch_def demo_table_def demo_inode_def)
  then show ?thesis using t(1,3) by auto
qed

end
