(* ===== verification/File.thy ===== *)
theory File
  imports Pipe Fcontent
begin

text \<open>
  Open files, \<^verbatim>\<open>kernel/src/file.c\<close> with \<open>struct file\<close> of \<^verbatim>\<open>kernel/inc/file.h\<close>, and \<open>pipealloc\<close> of
  \<^verbatim>\<open>kernel/src/pipe.c\<close>. A \<open>struct file *\<close> is the index of the entry in \<open>ftable.file\<close>. The table \<open>devsw\<close> of device functions
  is the pair of parameters \<open>dread\<close>, \<open>dwrite\<close>, by major number.

  The code is modelled as it runs: \<open>fileclose\<close> clears the type of the entry before it tests it, the branches for inodes in
  \<open>fileread\<close> and \<open>filewrite\<close> fall through into the panic of the default branch, and the loop of \<open>filewrite\<close> neither advances
  nor closes its transaction.
\<close>

section \<open>State and operations\<close>

definition NFILE :: nat where "NFILE = 100"
definition NDEV :: int where "NDEV = 10"
definition NOFILE :: nat where "NOFILE = 16"

datatype filetype = F_NONE | F_PIPE | F_INODE | F_DEVICE

record openfile =
  ftype :: filetype
  fref :: int
  is_readable :: bool
  is_writable :: bool
  fpipe :: addr
  fip :: "nat option"
  foff :: uint
  fmajor :: int

record ftab = pipest +
  files :: "nat \<Rightarrow> openfile"

type_synonym 'z odriver = "nat \<Rightarrow> bool \<Rightarrow> ('z ftab_scheme, unit) km"
type_synonym 'z devop = "bool \<Rightarrow> addr \<Rightarrow> int \<Rightarrow> ('z ftab_scheme, int) km"

definition get_file :: "nat \<Rightarrow> ('z ftab_scheme, openfile) km" where
  "get_file f = gets (\<lambda>s. files s f)"

definition set_file :: "nat \<Rightarrow> (openfile \<Rightarrow> openfile) \<Rightarrow> ('z ftab_scheme, unit) km" where
  "set_file f g = modify (\<lambda>s. s\<lparr>files := (files s)(f := g (files s f))\<rparr>)"

definition fileinit :: "('z ftab_scheme, unit) km" where
  "fileinit = initlock Ftable_lock ''ftable''"

fun filealloc_scan :: "(nat \<Rightarrow> openfile) \<Rightarrow> nat \<Rightarrow> nat \<Rightarrow> nat option" where
  "filealloc_scan T f 0 = None"
| "filealloc_scan T f (Suc n) = (if fref (T f) = 0 then Some f else filealloc_scan T (Suc f) n)"

definition filealloc :: "('z ftab_scheme, nat option) km" where
  "filealloc =
     seq (acquire Ftable_lock) (
     bnd (gets files) (\<lambda>T.
     case filealloc_scan T 0 NFILE of
       Some f \<Rightarrow> seq (set_file f (\<lambda>F. F\<lparr>fref := 1\<rparr>)) (seq (release Ftable_lock) (ret (Some f)))
     | None \<Rightarrow> seq (release Ftable_lock) (ret None)))"

definition fileup :: "nat \<Rightarrow> ('z ftab_scheme, nat) km" where
  "fileup f =
     seq (acquire Ftable_lock) (
     bnd (get_file f) (\<lambda>F.
     if fref F < 1 then panic ''fileup''
     else seq (set_file f (\<lambda>F. F\<lparr>fref := fref F + 1\<rparr>)) (
          seq (release Ftable_lock) (
          ret f))))"

definition fileclose :: "'z odriver \<Rightarrow> nat \<Rightarrow> ('z ftab_scheme, unit) km" where
  "fileclose rw f =
     seq (acquire Ftable_lock) (
     bnd (get_file f) (\<lambda>F.
     if fref F < 1 then panic ''fileclose''
     else seq (set_file f (\<lambda>F. F\<lparr>fref := fref F - 1\<rparr>)) (
       bnd (get_file f) (\<lambda>F.
       if fref F > 0 then release Ftable_lock
       else bnd (get_file f) (\<lambda>ff.
         seq (set_file f (\<lambda>F. F\<lparr>ftype := F_NONE\<rparr>)) (
         bnd (get_file f) (\<lambda>F.
         seq (if ftype F = F_PIPE then pipeclose (fpipe ff) (is_writable ff)
              else if ftype F = F_INODE \<or> ftype F = F_DEVICE
              then seq begin_op (seq (case fip ff of None \<Rightarrow> panic ''kerneltrap'' | Some k \<Rightarrow> iput rw k) (end_op rw))
              else ret ()) (
         release Ftable_lock)))))))) "

text \<open>The 24 bytes of a \<open>struct stat\<close>; bytes 14 and 15 are padding, left as they were in the local variable (\<open>junk\<close>).\<close>

definition stat_bytes :: "stat \<Rightarrow> byte list \<Rightarrow> byte list" where
  "stat_bytes st junk =
     put32 20 (ucast (drop_bit 32 (st_size st))) (put32 16 (ucast (st_size st)) (put16 12 (st_nlink st) (
     put32 8 (st_type st) (put32 4 (st_ino st) (put32 0 (st_dev st) junk)))))"

definition filestat :: "'z odriver \<Rightarrow> byte list \<Rightarrow> nat \<Rightarrow> addr \<Rightarrow> ('z ftab_scheme, int) km" where
  "filestat rw junk f a =
     bnd this_proc (\<lambda>i.
     bnd (get_file f) (\<lambda>F.
     if ftype F = F_INODE \<or> ftype F = F_DEVICE
     then case fip F of None \<Rightarrow> panic ''ilock''
       | Some k \<Rightarrow>
         seq (ilock rw (Some k)) (
         bnd (stati k) (\<lambda>st.
         seq (iunlock (Some k)) (
         bnd (get_proc i) (\<lambda>p.
         bnd (copyout (pagetable p) a (stat_bytes st junk) 24) (\<lambda>r.
         ret (if r < 0 then - 1 else 0))))))
     else ret (- 1)))"

definition fileread :: "'z odriver \<Rightarrow> (int \<Rightarrow> 'z devop option) \<Rightarrow> nat \<Rightarrow> addr \<Rightarrow> int \<Rightarrow> ('z ftab_scheme, int) km" where
  "fileread rw dread f a n =
     bnd (get_file f) (\<lambda>F.
     if \<not> is_readable F then ret (- 1)
     else case ftype F of
       F_PIPE \<Rightarrow> piperead (fpipe F) a n
     | F_DEVICE \<Rightarrow>
         (if fmajor F < 0 \<or> fmajor F \<ge> NDEV then ret (- 1)
          else case dread (fmajor F) of None \<Rightarrow> ret (- 1) | Some dev \<Rightarrow> dev True a n)
     | F_INODE \<Rightarrow>
         (case fip F of None \<Rightarrow> panic ''ilock''
          | Some k \<Rightarrow>
            seq (ilock rw (Some k)) (
            bnd (get_file f) (\<lambda>F.
            bnd (readi rw k (To_user a) (foff F) (word_of_int n)) (\<lambda>r.
            seq (whenM (fst r > 0) (set_file f (\<lambda>F. F\<lparr>foff := foff F + word_of_int (fst r)\<rparr>))) (
            seq (iunlock (Some k)) (
            panic ''fileread UNDEFINED device''))))))
     | F_NONE \<Rightarrow> panic ''fileread UNDEFINED device'')"

text \<open>
  The loop of \<open>filewrite\<close>: \<open>i\<close> stays 0, so it goes round as long as \<open>writei\<close> writes exactly \<open>MIN(n, max)\<close> bytes. The bound
  counts the rounds that are followed: \<open>Some ()\<close> says that the loop was left, \<open>None\<close> that the bound was used up with another round to
  follow, so that neither is taken for a routine that spins. Every round opens a transaction and none closes one, and
  \<open>begin_op\<close> admits three: with four rounds \<open>None\<close> does not occur, as theory \<open>Balance\<close> proves.
\<close>

fun filewrite_loop :: "'z odriver \<Rightarrow> nat \<Rightarrow> nat \<Rightarrow> addr \<Rightarrow> int \<Rightarrow> nat \<Rightarrow> ('z ftab_scheme, unit option) km" where
  "filewrite_loop rw f k a n 0 = ret None"
| "filewrite_loop rw f k a n (Suc fuel) =
     (if n \<le> 0 then ret (Some ())
      else seq begin_op (
        seq (ilock rw (Some k)) (
        bnd (get_file f) (\<lambda>F.
        bnd (writei rw k (From_user a) (foff F) (word_of_int n)) (\<lambda>r.
        seq (whenM (r > 0) (set_file f (\<lambda>F. F\<lparr>foff := foff F + word_of_int r\<rparr>))) (
        seq (iunlock (Some k)) (
        if r \<noteq> min n (((int MAXOPBLOCKS - 1 - 1 - 2) div 2) * int BSIZE) then ret (Some ())
        else filewrite_loop rw f k a n fuel)))))))"

definition filewrite :: "'z odriver \<Rightarrow> (int \<Rightarrow> 'z devop option) \<Rightarrow> nat \<Rightarrow> addr \<Rightarrow> int \<Rightarrow> ('z ftab_scheme, int) km" where
  "filewrite rw dwrite f a n =
     bnd (get_file f) (\<lambda>F.
     if \<not> is_writable F then ret (- 1)
     else case ftype F of
       F_PIPE \<Rightarrow> pipewrite (fpipe F) a n
     | F_DEVICE \<Rightarrow>
         (if fmajor F < 0 \<or> fmajor F \<ge> NDEV then ret (- 1)
          else case dwrite (fmajor F) of None \<Rightarrow> ret (- 1) | Some dev \<Rightarrow> dev True a n)
     | F_INODE \<Rightarrow>
         (case fip F of None \<Rightarrow> panic ''ilock''
          | Some k \<Rightarrow> bnd (filewrite_loop rw f k a n 4) (\<lambda>left. case left of
              None \<Rightarrow> spin
            | Some _ \<Rightarrow> panic ''filewrite UNDEFINED device''))
     | F_NONE \<Rightarrow> panic ''filewrite UNDEFINED device'')"

definition pipealloc_bad :: "'z odriver \<Rightarrow> addr \<Rightarrow> nat option \<Rightarrow> nat option \<Rightarrow> ('z ftab_scheme, (nat \<times> nat) option) km" where
  "pipealloc_bad rw pi f0 f1 =
     seq (whenM (pi \<noteq> 0) (kfree pi)) (
     seq (case f0 of None \<Rightarrow> ret () | Some f \<Rightarrow> fileclose rw f) (
     seq (case f1 of None \<Rightarrow> ret () | Some f \<Rightarrow> fileclose rw f) (
     ret None)))"

text \<open>\<open>pipealloc\<close> from the point where it has the two files.\<close>

definition pipealloc_make :: "'z odriver \<Rightarrow> nat \<Rightarrow> nat \<Rightarrow> ('z ftab_scheme, (nat \<times> nat) option) km" where
  "pipealloc_make rw f0 f1 =
     bnd kalloc (\<lambda>pi.
     if pi = 0 then pipealloc_bad rw 0 (Some f0) (Some f1)
     else seq (set_pipe pi (\<lambda>p. p\<lparr>is_readopen := True, is_writeopen := True, nwrite := 0, nread := 0\<rparr>)) (
          seq (initlock (Pipe_lock pi) ''pipe'') (
          seq (set_file f0 (\<lambda>F. F\<lparr>ftype := F_PIPE, is_readable := True, is_writable := False, fpipe := pi\<rparr>)) (
          seq (set_file f1 (\<lambda>F. F\<lparr>ftype := F_PIPE, is_readable := False, is_writable := True, fpipe := pi\<rparr>)) (
          ret (Some (f0, f1)))))))"

definition pipealloc :: "'z odriver \<Rightarrow> ('z ftab_scheme, (nat \<times> nat) option) km" where
  "pipealloc rw =
     bnd filealloc (\<lambda>r0. case r0 of None \<Rightarrow> pipealloc_bad rw 0 None None
     | Some f0 \<Rightarrow>
       bnd filealloc (\<lambda>r1. case r1 of None \<Rightarrow> pipealloc_bad rw 0 (Some f0) None
       | Some f1 \<Rightarrow> pipealloc_make rw f0 f1))"

section \<open>Running the routines\<close>

lemma file_ops_run [simp]:
  "get_file f s = Ok (files s f) s"
  "set_file f g s = Ok () (s\<lparr>files := (files s)(f := g (files s f))\<rparr>)"
  by (simp_all add: get_file_def set_file_def)

lemma ftab_upd_order [simp]:
  "(s :: 'z ftab_scheme)\<lparr>files := f, sync := y\<rparr> = s\<lparr>sync := y, files := f\<rparr>"
  "(s :: 'z ftab_scheme)\<lparr>files := f, procs := p\<rparr> = s\<lparr>procs := p, files := f\<rparr>"
  "(s :: 'z ftab_scheme)\<lparr>files := f, mem := m\<rparr> = s\<lparr>mem := m, files := f\<rparr>"
  "(s :: 'z ftab_scheme)\<lparr>files := f, freelist := l\<rparr> = s\<lparr>freelist := l, files := f\<rparr>"
  "(s :: 'z ftab_scheme)\<lparr>files := f, pipes := q\<rparr> = s\<lparr>pipes := q, files := f\<rparr>"
  by simp_all

lemma cur_files [simp]: "cur ((s :: 'z ftab_scheme)\<lparr>files := f\<rparr>) = cur s"
  by (simp add: cur_def)

lemma filealloc_run:
  assumes "sync_ok (sync s)" "lock_free Ftable_lock (sync s)"
  shows "filealloc s = (case filealloc_scan (files s) 0 NFILE of
      None \<Rightarrow> Ok None (s\<lparr>sync := quiet (sync s)\<rparr>)
    | Some f \<Rightarrow> Ok (Some f) (s\<lparr>sync := quiet (sync s), files := (files s)(f := (files s f)\<lparr>fref := 1\<rparr>)\<rparr>))"
  using assms by (simp add: filealloc_def acquire_run release_acq split: option.split)

lemma fileup_run:
  assumes "sync_ok (sync s)" "lock_free Ftable_lock (sync s)" "1 \<le> fref (files s f)"
  shows "fileup f s = Ok f (s\<lparr>sync := quiet (sync s), files := (files s)(f := (files s f)\<lparr>fref := fref (files s f) + 1\<rparr>)\<rparr>)"
  using assms by (simp add: fileup_def acquire_run release_acq)

text \<open>The effect of \<open>fileclose\<close> on the entry: one reference less; the last one frees it.\<close>

definition drop_ref :: "openfile \<Rightarrow> openfile" where
  "drop_ref F = (if fref F > 1 then F\<lparr>fref := fref F - 1\<rparr> else F\<lparr>fref := 0, ftype := F_NONE\<rparr>)"

lemma fileclose_run:
  assumes "sync_ok (sync s)" "lock_free Ftable_lock (sync s)" "1 \<le> fref (files s f)"
  shows "fileclose rw f s = Ok () (s\<lparr>sync := quiet (sync s), files := (files s)(f := drop_ref (files s f))\<rparr>)"
proof (cases "fref (files s f) = 1")
  case True
  then show ?thesis using assms by (simp add: fileclose_def acquire_run release_acq drop_ref_def)
next
  case False
  then show ?thesis using assms by (simp add: fileclose_def acquire_run release_acq drop_ref_def)
qed

lemma filealloc_scan_find: "filealloc_scan T k n = find (\<lambda>f. fref (T f) = 0) [k..<k + n]"
  by (induction n arbitrary: k) (simp_all add: upt_conv_Cons del: upt_Suc)

lemma filealloc_scanD:
  assumes "filealloc_scan T 0 NFILE = Some f"
  shows "f < NFILE" "fref (T f) = 0" "\<forall>g<f. fref (T g) \<noteq> 0"
  using assms by (auto simp: filealloc_scan_find find_Some_iff)

section \<open>Well-typed open files\<close>

text \<open>
  The type of an entry says which of its fields are in use: a free entry has no type, a pipe end is for reading or for
  writing, an inode or a device has its inode, and a device a major number in range.
\<close>

definition wt_file :: "openfile \<Rightarrow> bool" where
  "wt_file F \<longleftrightarrow> 0 \<le> fref F \<and> (fref F = 0 \<longrightarrow> ftype F = F_NONE) \<and>
     (case ftype F of F_NONE \<Rightarrow> True | F_PIPE \<Rightarrow> is_readable F \<noteq> is_writable F | F_INODE \<Rightarrow> fip F \<noteq> None
      | F_DEVICE \<Rightarrow> fip F \<noteq> None \<and> 0 \<le> fmajor F \<and> fmajor F < NDEV)"

definition ft_ok :: "'z ftab_scheme \<Rightarrow> bool" where
  "ft_ok s \<longleftrightarrow> (\<forall>f<NFILE. wt_file (files s f))"

lemma wt_drop_ref: "wt_file F \<Longrightarrow> wt_file (drop_ref F)"
  by (auto simp: wt_file_def drop_ref_def split: filetype.splits)

lemma wt_up: "wt_file F \<Longrightarrow> 1 \<le> fref F \<Longrightarrow> wt_file (F\<lparr>fref := fref F + 1\<rparr>)"
  by (auto simp: wt_file_def split: filetype.splits)

lemma wt_new: "wt_file F \<Longrightarrow> fref F = 0 \<Longrightarrow> wt_file (F\<lparr>fref := 1\<rparr>)"
  by (auto simp: wt_file_def)

lemma restore_entry: "wt_file F \<Longrightarrow> fref F = 0 \<Longrightarrow> drop_ref (F\<lparr>fref := 1\<rparr>) = F"
  by (cases F) (simp add: drop_ref_def wt_file_def)

lemma kmem_ready_same:
  assumes "kmem_ready s ps" "mem t = mem s" "sym_end t = sym_end s" "freelist t = freelist s" "sync_ok (sync t)" "lock_free Kmem_lock (sync t)"
  shows "kmem_ready t ps"
  using assms by (simp add: kmem_ready_def kmem_inv_def phys_page_def)

text \<open>The two entries that \<open>pipealloc\<close> takes, and the state it leaves when it has them.\<close>

definition two_free :: "(nat \<Rightarrow> openfile) \<Rightarrow> nat \<Rightarrow> nat \<Rightarrow> bool" where
  "two_free T f0 f1 \<longleftrightarrow> f0 < f1 \<and> f1 < NFILE \<and> fref (T f0) = 0 \<and> fref (T f1) = 0"

definition pipe_end :: "bool \<Rightarrow> addr \<Rightarrow> openfile \<Rightarrow> openfile" where
  "pipe_end w pi F = F\<lparr>fref := 1, ftype := F_PIPE, is_readable := \<not> w, is_writable := w, fpipe := pi\<rparr>"

lemma wt_pipe_end: "wt_file (pipe_end w pi F)"
  by (simp add: wt_file_def pipe_end_def)

text \<open>The last step, from the state in which both entries have been taken.\<close>

definition taken :: "'z ftab_scheme \<Rightarrow> nat \<Rightarrow> nat \<Rightarrow> 'z ftab_scheme" where
  "taken s f0 f1 = s\<lparr>sync := quiet (sync s), files := (files s)(f0 := (files s f0)\<lparr>fref := 1\<rparr>, f1 := (files s f1)\<lparr>fref := 1\<rparr>)\<rparr>"

lemma pipealloc_make_none:
  assumes "kmem_ready s []" "lock_free Ftable_lock (sync s)" "ft_ok s" "two_free (files s) f0 f1"
  shows "pipealloc_make rw f0 f1 (taken s f0 f1) = Ok None (s\<lparr>sync := quiet (sync s)\<rparr>)"
proof -
  let ?b = "taken s f0 f1"
  have y: "sync_ok (sync s)" "lock_free Kmem_lock (sync s)" using assms(1) by (auto simp: kmem_ready_def)
  have w: "wt_file (files s f0)" "fref (files s f0) = 0" "wt_file (files s f1)" "fref (files s f1) = 0" "f1 \<noteq> f0" "f0 \<noteq> f1"
    using assms(3,4) by (auto simp: two_free_def ft_ok_def)
  have rb: "kmem_ready ?b []" by (rule kmem_ready_same [OF assms(1)]) (use y in \<open>simp_all add: taken_def\<close>)
  have k: "kalloc ?b = Ok 0 ?b" using kalloc_none_run [OF rb] by (simp add: taken_def)
  have c0: "fileclose rw f0 ?b = Ok () (s\<lparr>sync := quiet (sync s), files := (files s)(f1 := (files s f1)\<lparr>fref := 1\<rparr>)\<rparr>)"
    using fileclose_run [of ?b f0 rw] y assms(2) w restore_entry [OF w(1,2)]
    by (simp add: taken_def fun_upd_twist [OF w(5)])
  have c1: "fileclose rw f1 (s\<lparr>sync := quiet (sync s), files := (files s)(f1 := (files s f1)\<lparr>fref := 1\<rparr>)\<rparr>) = Ok () (s\<lparr>sync := quiet (sync s)\<rparr>)"
    using fileclose_run [of "s\<lparr>sync := quiet (sync s), files := (files s)(f1 := (files s f1)\<lparr>fref := 1\<rparr>)\<rparr>" f1 rw] y assms(2) w restore_entry [OF w(3,4)]
    by simp
  show ?thesis using k c0 c1 by (simp add: pipealloc_make_def pipealloc_bad_def)
qed

lemma pipealloc_make_some:
  assumes "kmem_ready s (pi # ps)" "lock_free Ftable_lock (sync s)" "ft_ok s" "two_free (files s) f0 f1"
  shows "\<exists>t. pipealloc_make rw f0 f1 (taken s f0 f1) = Ok (Some (f0, f1)) t \<and> kmem_ready t ps \<and> ft_ok t \<and> pq (pipes t pi) = [] \<and>
    is_readopen (pipes t pi) \<and> is_writeopen (pipes t pi) \<and>
    files t = (files s)(f0 := pipe_end False pi (files s f0), f1 := pipe_end True pi (files s f1))"
proof -
  let ?b = "taken s f0 f1"
  have y: "sync_ok (sync s)" "lock_free Kmem_lock (sync s)" "kmem_inv s (pi # ps)" using assms(1) by (auto simp: kmem_ready_def)
  have w: "f1 \<noteq> f0" using assms(4) by (auto simp: two_free_def)
  have p0: "pi \<noteq> 0" using y(3) by (auto simp: kmem_inv_def)
  let ?F = "(files s)(f0 := pipe_end False pi (files s f0), f1 := pipe_end True pi (files s f1))"
  let ?P = "(pipes s)(pi := (pipes s pi)\<lparr>is_readopen := True, is_writeopen := True, nwrite := 0, nread := 0\<rparr>)"
  let ?c = "s\<lparr>sync := fresh_lock (Pipe_lock pi) ''pipe'' (quiet (sync s)), mem := memset (mem s) pi 5 4096, freelist := read64 (mem s) pi,
    pipes := ?P, files := ?F\<rparr>"
  have rb: "kmem_ready ?b (pi # ps)" by (rule kmem_ready_same [OF assms(1)]) (use y in \<open>simp_all add: taken_def\<close>)
  have "pipealloc_make rw f0 f1 ?b = Ok (Some (f0, f1)) ?c"
    using kalloc_some_run [OF rb] w p0 by (simp add: pipealloc_make_def taken_def initlock_run pipe_end_def fun_upd_twist)
  moreover have "kmem_ready ?c ps"
    using kmem_inv_tl [OF y(3), of "sync s"] y by (simp add: kmem_ready_def kmem_inv_def phys_page_def)
  moreover have "ft_ok ?c" using assms(3) by (simp add: ft_ok_def wt_pipe_end)
  moreover have "pq (pipes ?c pi) = []" by (simp add: pq_def pcount_def)
  ultimately show ?thesis by (intro exI [of _ ?c]) simp
qed

text \<open>The two searches find the first two free entries, or there are not two.\<close>

lemma two_free_scan:
  assumes "filealloc_scan T 0 NFILE = Some f0"
  shows "case filealloc_scan (T(f0 := (T f0)\<lparr>fref := 1\<rparr>)) 0 NFILE of
    None \<Rightarrow> \<forall>g0 g1. \<not> two_free T g0 g1 | Some f1 \<Rightarrow> two_free T f0 f1"
proof (cases "filealloc_scan (T(f0 := (T f0)\<lparr>fref := 1\<rparr>)) 0 NFILE")
  case None
  note d0 = filealloc_scanD [OF assms]
  have "False" if g: "two_free T g0 g1" for g0 g1
  proof -
    have "\<not> g0 < f0" using d0(3) g by (auto simp: two_free_def)
    then have "g1 \<noteq> f0" using g by (auto simp: two_free_def)
    then show False using None g by (auto simp: two_free_def filealloc_scan_find find_None_iff)
  qed
  then show ?thesis using None by auto
next
  case (Some f1)
  note d0 = filealloc_scanD [OF assms] and d1 = filealloc_scanD [OF Some]
  have ne: "f1 \<noteq> f0" and z1: "fref (T f1) = 0" using d1(2) by (auto split: if_splits)
  then have "two_free T f0 f1" using d0 d1(1) by (metis linorder_neqE_nat two_free_def)
  then show ?thesis using Some by simp
qed

text \<open>
  C24: \<open>pipealloc\<close> either makes a pipe or changes nothing. With two free entries and a free page it returns two distinct
  entries, the first for reading and the second for writing, both referring to that page, on which an empty pipe with
  both ends open lies; all other entries are as before. Otherwise the table of files, the pipes and the free pages are as
  before. Either way every entry of the table is well typed.
\<close>

theorem pipealloc_correct:
  assumes "kmem_ready s ps" "lock_free Ftable_lock (sync s)" "ft_ok s"
  shows "\<exists>r t. pipealloc rw s = Ok r t \<and> ft_ok t \<and>
    (case r of None \<Rightarrow> files t = files s \<and> pipes t = pipes s \<and> kmem_ready t ps \<and> (ps = [] \<or> (\<forall>f0 f1. \<not> two_free (files s) f0 f1))
     | Some (f0, f1) \<Rightarrow> two_free (files s) f0 f1 \<and>
       (\<exists>pi ps'. ps = pi # ps' \<and> kmem_ready t ps' \<and> pq (pipes t pi) = [] \<and> is_readopen (pipes t pi) \<and> is_writeopen (pipes t pi) \<and>
          files t = (files s)(f0 := pipe_end False pi (files s f0), f1 := pipe_end True pi (files s f1))))"
proof -
  have y: "sync_ok (sync s)" "lock_free Kmem_lock (sync s)" using assms(1) by (auto simp: kmem_ready_def)
  let ?q = "s\<lparr>sync := quiet (sync s)\<rparr>"
  have same: "kmem_ready ?q ps" "ft_ok ?q" "files ?q = files s" "pipes ?q = pipes s"
    using kmem_ready_same [OF assms(1), of ?q] assms(3) y by (simp_all add: ft_ok_def)
  show ?thesis
  proof (cases "filealloc_scan (files s) 0 NFILE")
    case None
    then have "\<not> two_free (files s) f0 f1" for f0 f1
      by (auto simp: two_free_def filealloc_scan_find find_None_iff)
    moreover have "pipealloc rw s = Ok None ?q"
      using y assms(2) None by (simp add: pipealloc_def pipealloc_bad_def filealloc_run)
    ultimately show ?thesis using same by (intro exI [of _ None] exI [of _ ?q]) simp
  next
    case (Some f0)
    note d0 = filealloc_scanD [OF Some] and scan = two_free_scan [OF Some]
    let ?T = "(files s)(f0 := (files s f0)\<lparr>fref := 1\<rparr>)"
    let ?a = "s\<lparr>sync := quiet (sync s), files := ?T\<rparr>"
    have a: "filealloc s = Ok (Some f0) ?a" using y assms(2) Some by (simp add: filealloc_run)
    show ?thesis
    proof (cases "filealloc_scan ?T 0 NFILE")
      case None
      have "wt_file (files s f0)" using assms(3) d0(1) by (simp add: ft_ok_def)
      then have "?T(f0 := drop_ref (?T f0)) = files s" using restore_entry d0(2) by simp
      then have "pipealloc rw s = Ok None ?q"
        using a y assms(2) None fileclose_run [of ?a f0 rw] by (simp add: pipealloc_def pipealloc_bad_def filealloc_run)
      then show ?thesis using same scan None by (intro exI [of _ None] exI [of _ ?q]) simp
    next
      case (Some f1)
      then have tf: "two_free (files s) f0 f1" using scan by simp
      then have ne: "f1 \<noteq> f0" by (auto simp: two_free_def)
      have run: "pipealloc rw s = pipealloc_make rw f0 f1 (taken s f0 f1)"
        using a y assms(2) Some ne by (simp add: pipealloc_def filealloc_run taken_def)
      show ?thesis
      proof (cases ps)
        case Nil
        then have "pipealloc rw s = Ok None ?q" using pipealloc_make_none [OF _ assms(2,3) tf, of rw] assms(1) run by simp
        then show ?thesis using same Nil by (intro exI [of _ None] exI [of _ ?q]) simp
      next
        case (Cons pi ps')
        then show ?thesis using pipealloc_make_some [OF _ assms(2,3) tf, of pi ps' rw] assms(1) run tf by fastforce
      qed
    qed
  qed
qed

text \<open>
  C25: \<open>fileclose\<close> on an unreferenced entry panics. Otherwise it takes one reference away and, with the last one, marks the
  entry free. Nothing else changes, also for the last reference: the pipe end is not closed and the inode is not put,
  because the type of the entry is cleared before it is tested.
\<close>

theorem fileclose_correct:
  assumes "sync_ok (sync s)" "lock_free Ftable_lock (sync s)"
  shows "fileclose rw f s =
    (if fref (files s f) < 1 then Panic ''fileclose''
     else Ok () (s\<lparr>sync := quiet (sync s), files := (files s)(f :=
       (if fref (files s f) = 1 then (files s f)\<lparr>fref := 0, ftype := F_NONE\<rparr> else (files s f)\<lparr>fref := fref (files s f) - 1\<rparr>))\<rparr>))"
proof (cases "fref (files s f) < 1")
  case True
  then show ?thesis using assms by (simp add: fileclose_def acquire_run)
next
  case False
  then show ?thesis using fileclose_run [OF assms, of f rw] by (simp add: drop_ref_def)
qed

section \<open>Witnesses\<close>

lemma demo_ftab:
  obtains s :: ftab where "running s 0" "\<forall>l. lock_free l (sync s)" "kmem_ready s [0x80030000]" "procs s = P" "files s = T" "mem s = demo_mem"
    "lg s = demo_log"
proof -
  define s :: ftab where "s = (undefined :: ftab)\<lparr>sync := demo_sync, mem := demo_mem, sym_end := 0x80021000, freelist := 0x80030000,
    procs := P, files := T, lg := demo_log\<rparr>"
  have f: "sync s = demo_sync" "mem s = demo_mem" "sym_end s = 0x80021000" "freelist s = 0x80030000" "procs s = P" "files s = T" "lg s = demo_log"
    by (simp_all add: s_def)
  have "running s 0" using demo_sync_free by (simp add: running_def cur_def f) (simp add: demo_sync_def idle_sync_def)
  moreover have "kmem_ready s [0x80030000]"
    using uspace_same [OF demo_uspace, of s] by (simp add: f demo_user_def demo_sync_free uspace_def)
  ultimately show ?thesis using that [of s] by (simp add: f demo_sync_free)
qed

definition free_file :: openfile where
  "free_file = \<lparr>ftype = F_NONE, fref = 0, is_readable = False, is_writable = False, fpipe = 0, fip = None, foff = 0, fmajor = 0\<rparr>"

theorem pipealloc_correct_witness:
  "\<exists>(s :: ftab) t f0 f1. (\<forall>f. fref (files s f) = 0) \<and> pipealloc virtio_disk_rw s = Ok (Some (f0, f1)) t \<and> f0 \<noteq> f1 \<and>
     ftype (files t f0) = F_PIPE \<and> pq (pipes t 0x80030000) = [] \<and> kmem_ready t []"
proof -
  obtain s :: ftab where s: "\<forall>l. lock_free l (sync s)" "kmem_ready s [0x80030000]" "files s = (\<lambda>_. free_file)" by (rule demo_ftab)
  have "ft_ok s" by (simp add: s(3) ft_ok_def wt_file_def free_file_def)
  then obtain r t where r: "pipealloc virtio_disk_rw s = Ok r t"
    "case r of None \<Rightarrow> (\<forall>f0 f1. \<not> two_free (files s) f0 f1)
     | Some (f0, f1) \<Rightarrow> two_free (files s) f0 f1 \<and> kmem_ready t [] \<and> pq (pipes t 0x80030000) = [] \<and>
       files t = (files s)(f0 := pipe_end False 0x80030000 (files s f0), f1 := pipe_end True 0x80030000 (files s f1))"
    using pipealloc_correct [of s "[0x80030000]" virtio_disk_rw] s(1,2) by (fastforce split: option.splits)
  have "two_free (files s) 0 1" by (simp add: s(3) two_free_def free_file_def NFILE_def)
  then obtain f0 f1 where "r = Some (f0, f1)" using r(2) by (auto split: option.splits)
  then show ?thesis using r s(3) by (intro exI [of _ s] exI [of _ t] exI [of _ f0] exI [of _ f1]) (auto simp: two_free_def free_file_def pipe_end_def)
qed

theorem fileclose_correct_witness:
  "\<exists>(s :: ftab) t. ftype (files s 4) = F_PIPE \<and> fileclose virtio_disk_rw 4 s = Ok () t \<and> fref (files t 4) = 0 \<and> pipes t = pipes s"
proof -
  obtain s :: ftab where s: "running s 0" "\<forall>l. lock_free l (sync s)" "files s = (\<lambda>_. pipe_end True 0x80030000 free_file)" by (rule demo_ftab)
  then have "sync_ok (sync s)" by (auto simp: running_def procs_free_def)
  then obtain t where "fileclose virtio_disk_rw 4 s = Ok () t" "fref (files t 4) = 0" "pipes t = pipes s"
    using fileclose_correct [of s virtio_disk_rw 4] s by (auto simp: pipe_end_def)
  then show ?thesis using s(3) by (intro exI [of _ s] exI [of _ t]) (simp add: pipe_end_def)
qed

end
