(* ===== verification/Path.thy ===== *)
theory Path
  imports Prelude
begin

text \<open>
  Names and paths of the file system, the pure part of \<^verbatim>\<open>kernel/src/fs.c\<close>: \<open>skipelem\<close>, \<open>namecmp\<close> and the copying of a
  name into a directory entry. A C string is the list of its bytes before the NUL; a \<open>name\<close> is the array of
  \<open>DIRSIZ\<close> bytes, with whatever follows its NUL.

  \<open>elements\<close> is the specification of a path: the non-empty pieces between slashes. Iterating \<open>skipelem\<close> yields exactly
  them, each cut to \<open>DIRSIZ\<close> bytes.
\<close>

definition DIRSIZ :: nat where "DIRSIZ = 14"

definition slash :: byte where "slash = 47"

text \<open>The two skipping loops.\<close>

fun skip_slashes :: "byte list \<Rightarrow> byte list" where
  "skip_slashes [] = []"
| "skip_slashes (c # p) = (if c = slash then skip_slashes p else c # p)"

fun skip_elem :: "byte list \<Rightarrow> nat" where
  "skip_elem [] = 0"
| "skip_elem (c # p) = (if c = slash then 0 else Suc (skip_elem p))"

text \<open>
  \<open>None\<close> is the null pointer (no element left); otherwise the rest of the path and the array \<open>name\<close> after the copy. An
  element of \<open>DIRSIZ\<close> bytes or more fills the array and leaves no NUL.
\<close>

definition skipelem :: "byte list \<Rightarrow> byte list \<Rightarrow> (byte list \<times> byte list) option" where
  "skipelem path name =
     (let s = skip_slashes path
      in if s = [] then None
         else let len = skip_elem s;
                  name' = (if len \<ge> DIRSIZ then take DIRSIZ s else take len s @ 0 # drop (len + 1) name)
              in Some (skip_slashes (drop len s), name'))"

text \<open>\<open>strncmp(s, t, DIRSIZ)\<close> on two name arrays; an array that ends early stands for a string with its NUL.\<close>

definition at :: "byte list \<Rightarrow> nat \<Rightarrow> byte" where
  "at bs i = (if i < length bs then bs ! i else 0)"

fun namecmp_loop :: "byte list \<Rightarrow> byte list \<Rightarrow> nat \<Rightarrow> nat \<Rightarrow> int" where
  "namecmp_loop p q i 0 = 0"
| "namecmp_loop p q i (Suc n) =
     (if at p i \<noteq> 0 \<and> at p i = at q i then namecmp_loop p q (Suc i) n else uint (at p i) - uint (at q i))"

definition namecmp :: "byte list \<Rightarrow> byte list \<Rightarrow> int" where
  "namecmp s t = namecmp_loop s t 0 DIRSIZ"

text \<open>\<open>strncpy(de.name, name, DIRSIZ)\<close>: up to the NUL, then zeros.\<close>

definition cname :: "byte list \<Rightarrow> byte list" where
  "cname bs = takeWhile (\<lambda>c. c \<noteq> 0) (take DIRSIZ bs)"

definition strncpy_name :: "byte list \<Rightarrow> byte list" where
  "strncpy_name name = cname name @ replicate (DIRSIZ - length (cname name)) 0"

section \<open>Comparison\<close>

lemma at_simps [simp]: "at (c # p) 0 = c" "at (c # p) (Suc i) = at p i" "at [] i = 0"
  by (simp_all add: at_def)

lemma namecmp_loop_eq:
  "namecmp_loop p q i n = 0 \<longleftrightarrow> takeWhile (\<lambda>c. c \<noteq> 0) (map (at p) [i..<i + n]) = takeWhile (\<lambda>c. c \<noteq> 0) (map (at q) [i..<i + n])"
proof (induction n arbitrary: i)
  case (Suc n)
  have up: "[i..<Suc (i + n)] = i # [Suc i..<Suc (i + n)]" by (simp add: upt_conv_Cons)
  have ne: "uint (at p i) - uint (at q i) = 0 \<longleftrightarrow> at p i = at q i" by (simp add: word_uint_eq_iff)
  show ?case using Suc.IH [of "Suc i"] ne by (auto simp: up simp del: upt_Suc)
qed simp

lemma takeWhile_pad:
  assumes "n \<ge> length bs"
  shows "takeWhile (\<lambda>c. c \<noteq> 0) (map (at bs) [0..<n]) = takeWhile (\<lambda>c. c \<noteq> 0) bs"
proof -
  have "[0..<n] = [0..<length bs] @ [length bs..<n]" using assms upt_add_eq_append [of 0 "length bs" "n - length bs"] by simp
  moreover have "map (at bs) [0..<length bs] = bs" by (rule nth_equalityI) (simp_all add: at_def)
  moreover have z: "takeWhile (\<lambda>c. c \<noteq> 0) (map (at bs) [length bs..<n]) = []"
    by (cases "length bs < n") (simp_all add: upt_conv_Cons at_def)
  moreover have "takeWhile (\<lambda>c. c \<noteq> 0) (bs @ zs) = takeWhile (\<lambda>c. c \<noteq> 0) bs" if "takeWhile (\<lambda>c. c \<noteq> 0) zs = []" for zs
    using that by (induction bs) auto
  ultimately show ?thesis by (simp only: map_append)
qed

lemma cname_at: "takeWhile (\<lambda>c. c \<noteq> 0) (map (at bs) [0..<DIRSIZ]) = cname bs"
proof -
  have e: "map (at bs) [0..<DIRSIZ] = map (at (take DIRSIZ bs)) [0..<DIRSIZ]" by (simp add: at_def)
  show ?thesis unfolding e cname_def by (rule takeWhile_pad) simp
qed

lemma namecmp_0_iff: "namecmp s t = 0 \<longleftrightarrow> cname s = cname t"
  unfolding namecmp_def using namecmp_loop_eq [of s t 0 DIRSIZ] by (simp add: cname_at)

lemma length_cname: "length (cname bs) \<le> DIRSIZ"
  by (metis cname_def length_take length_takeWhile_le min.bounded_iff)

lemma strncpy_name_length [simp]: "length (strncpy_name name) = DIRSIZ"
  using length_cname [of name] by (simp add: strncpy_name_def)

lemma cname_strncpy [simp]: "cname (strncpy_name name) = cname name"
proof -
  have "takeWhile (\<lambda>c. c \<noteq> 0) (cname name @ replicate k 0) = cname name" for k
    by (simp add: cname_def takeWhile_append takeWhile_replicate)
  then show ?thesis using length_cname [of name] by (simp add: strncpy_name_def cname_def [of "_ @ _"])
qed

section \<open>Elements of a path\<close>

fun elements_acc :: "byte list \<Rightarrow> byte list \<Rightarrow> byte list list" where
  "elements_acc e [] = (if e = [] then [] else [e])"
| "elements_acc e (c # p) = (if c = slash then (if e = [] then [] else [e]) @ elements_acc [] p else elements_acc (e @ [c]) p)"

definition elements :: "byte list \<Rightarrow> byte list list" where
  "elements p = elements_acc [] p"

lemma elements_skip: "elements (skip_slashes p) = elements p"
  by (induction p) (auto simp: elements_def)

lemma elements_acc_elem:
  assumes "e \<noteq> [] \<or> skip_elem p \<noteq> 0"
  shows "elements_acc e p = (e @ take (skip_elem p) p) # elements (drop (skip_elem p) p)"
  using assms
proof (induction p arbitrary: e)
  case (Cons c p)
  show ?case
  proof (cases "c = slash")
    case False
    then show ?thesis using Cons.IH [of "e @ [c]"] by simp
  qed (use Cons.prems in \<open>simp add: elements_def\<close>)
qed (simp add: elements_def)

lemma skip_slashes_length: "length (skip_slashes p) \<le> length p"
  by (induction p) auto

lemma skip_slashes_hd: "skip_slashes p = c # q \<Longrightarrow> c \<noteq> slash"
  by (induction p) (auto split: if_splits)

lemma skipelem_None_iff: "skipelem path name = None \<longleftrightarrow> elements path = []"
proof (cases "skip_slashes path")
  case Nil
  then show ?thesis using elements_skip [of path] by (simp add: skipelem_def elements_def)
next
  case (Cons c q)
  then have "skip_elem (skip_slashes path) \<noteq> 0" using skip_slashes_hd [OF Cons] by simp
  then have "elements (skip_slashes path) \<noteq> []"
    using elements_acc_elem [of "[]" "skip_slashes path"] unfolding elements_def by simp
  then have "elements path \<noteq> []" unfolding elements_skip .
  moreover have "skipelem path name \<noteq> None" using Cons by (simp add: skipelem_def Let_def)
  ultimately show ?thesis by simp
qed

lemma skipelem_Some:
  assumes "skipelem path name = Some (rest, name')" "length name = DIRSIZ"
  shows "elements path = hd (elements path) # elements rest" "length rest < length path" "length name' = DIRSIZ"
    "0 \<notin> set path \<Longrightarrow> cname name' = take DIRSIZ (hd (elements path))" "set rest \<subseteq> set path"
proof -
  define s where "s = skip_slashes path"
  let ?k = "skip_elem s"
  have s: "s \<noteq> []" and r: "rest = skip_slashes (drop ?k s)"
    and n: "name' = (if ?k \<ge> DIRSIZ then take DIRSIZ s else take ?k s @ 0 # drop (?k + 1) name)"
    using assms(1) by (auto simp: skipelem_def s_def Let_def split: if_splits)
  obtain c q where cq: "s = c # q" using s by (cases s) auto
  have k: "?k \<noteq> 0" using skip_slashes_hd [of path c q] cq by (simp add: s_def)
  have kl: "skip_elem p \<le> length p" for p by (induction p) auto
  have e: "elements path = take ?k s # elements rest"
    using elements_acc_elem [of "[]" s] k elements_skip [of path] elements_skip [of "drop ?k s"] by (simp add: elements_def s_def r)
  then show "elements path = hd (elements path) # elements rest" by simp
  have "length rest \<le> length (drop ?k s)" unfolding r by (rule skip_slashes_length)
  also have "\<dots> < length s" using k s by simp
  also have "\<dots> \<le> length path" unfolding s_def by (rule skip_slashes_length)
  finally show "length rest < length path" .
  show "length name' = DIRSIZ" using n assms(2) kl [of s] by (auto split: if_splits)
  have ss: "set (skip_slashes p) \<subseteq> set p" for p by (induction p) auto
  have sub: "set s \<subseteq> set path" using ss [of path] by (simp add: s_def)
  then show "set rest \<subseteq> set path" unfolding r using ss [of "drop ?k s"] set_drop_subset [of ?k s] by blast
  assume z: "0 \<notin> set path"
  have z': "0 \<notin> set (take m s)" for m using z sub set_take_subset [of m s] by blast
  show "cname name' = take DIRSIZ (hd (elements path))"
  proof (cases "?k \<ge> DIRSIZ")
    case True
    have "takeWhile (\<lambda>c. c \<noteq> 0) (take DIRSIZ s) = take DIRSIZ s" using z' [of DIRSIZ] by (simp add: takeWhile_eq_all_conv) metis
    then show ?thesis using True n e by (simp add: cname_def min_def)
  next
    case False
    have "takeWhile (\<lambda>c. c \<noteq> 0) (take ?k s @ 0 # xs) = take ?k s" for xs
      using z' [of ?k] by (subst takeWhile_append) auto
    moreover have "take DIRSIZ name' = take ?k s @ 0 # drop (?k + 1) name"
      using False n kl [of s] assms(2) by (simp add: min_def)
    moreover have "take DIRSIZ (take ?k s) = take ?k s" using False by simp
    ultimately show ?thesis using e by (simp add: cname_def)
  qed
qed

text \<open>
  \<open>skipelem\<close> takes the path apart. It returns null exactly when the path has no element left; otherwise \<open>name\<close> holds the next
  element, cut to 14 bytes, the rest of the path has exactly the elements after it, and is shorter: the loop of \<open>namex\<close>
  ends after as many rounds as the path has elements.
\<close>

theorem skipelem_correct:
  assumes "0 \<notin> set path" "length name = DIRSIZ"
  shows "case skipelem path name of
      None \<Rightarrow> elements path = []
    | Some (rest, name') \<Rightarrow> elements path = hd (elements path) # elements rest \<and> cname name' = take DIRSIZ (hd (elements path)) \<and>
        length rest < length path \<and> length (elements rest) < length (elements path) \<and> length name' = DIRSIZ \<and> 0 \<notin> set rest"
proof (cases "skipelem path name")
  case None
  then show ?thesis using skipelem_None_iff [of path name] by simp
next
  case (Some p)
  obtain rest name' where p: "p = (rest, name')" by (cases p)
  note k = skipelem_Some [OF Some [unfolded p] assms(2)]
  have "length (elements rest) < length (elements path)" by (subst k(1)) simp
  then show ?thesis using Some p k(2,3,5) k(4) [OF assms(1)] assms(1) k(1) by auto
qed

theorem skipelem_correct_witness:
  "case skipelem [47, 47, 97, 47, 98] (replicate 14 7) of None \<Rightarrow> False | Some (rest, name') \<Rightarrow> rest = [98] \<and> cname name' = [97]"
proof -
  have "(0 :: byte) \<notin> set [47, 47, 97, 47, 98]" "length (replicate 14 (7 :: byte)) = DIRSIZ" by (simp_all add: DIRSIZ_def)
  note t = skipelem_correct [OF this]
  have "skipelem [47, 47, 97, 47, 98] (replicate 14 7) \<noteq> None" "elements [47, 47, 97, 47, 98] = [[97], [98]]"
    "fst (the (skipelem [47, 47, 97, 47, 98] (replicate 14 7))) = [98]" by code_simp+
  then show ?thesis using t by (auto simp: DIRSIZ_def split: option.splits)
qed

end
