(* ===== verification/Dir.thy ===== *)
theory Dir
  imports Fcontent Path
begin

text \<open>
  The directory and path layers of \<^verbatim>\<open>kernel/src/fs.c\<close>. A directory is a file of 16-byte entries: the inode number (16
  bits) and the name (14 bytes). The entry that \<open>dirlookup\<close> and \<open>dirlink\<close> read into a local variable is the byte list \<open>de\<close>;
  \<open>dirlookup\<close> returns the table entry of the inode with the offset it stores through \<open>poff\<close>.

  The loops over a directory run once per entry: with \<open>dp->size\<close> fixed, \<open>off\<close> takes the values 0, 16, ... below it.
\<close>

section \<open>Directories\<close>

definition dirent_size :: nat where "dirent_size = 16"

fun dirlookup_loop :: "'z fdriver \<Rightarrow> nat \<Rightarrow> byte list \<Rightarrow> uint \<Rightarrow> nat \<Rightarrow> ('z fsst_scheme, (nat \<times> uint) option) km" where
  "dirlookup_loop rw dp name off 0 = ret None"
| "dirlookup_loop rw dp name off (Suc n) =
     bnd (readi rw dp To_local off 16) (\<lambda>r.
     if fst r \<noteq> 16 then panic ''dead dirlookup''
     else let de = snd r
          in if get16 0 de = 0 then dirlookup_loop rw dp name (off + 16) n
             else if namecmp name (drop 2 de) = 0
             then bnd (get_inode dp) (\<lambda>I. bnd (iget (idev I) (ucast (get16 0 de))) (\<lambda>ip. ret (Some (ip, off))))
             else dirlookup_loop rw dp name (off + 16) n)"

definition dirlookup :: "'z fdriver \<Rightarrow> nat \<Rightarrow> byte list \<Rightarrow> ('z fsst_scheme, (nat \<times> uint) option) km" where
  "dirlookup rw dp name =
     bnd (get_inode dp) (\<lambda>I.
     if itype I \<noteq> I_DIR then panic ''dirlookup: not a DIR''
     else dirlookup_loop rw dp name 0 ((unat (isize I) + 15) div dirent_size))"

fun dirlink_scan :: "'z fdriver \<Rightarrow> nat \<Rightarrow> uint \<Rightarrow> nat \<Rightarrow> ('z fsst_scheme, uint) km" where
  "dirlink_scan rw dp off 0 = ret off"
| "dirlink_scan rw dp off (Suc n) =
     bnd (readi rw dp To_local off 16) (\<lambda>r.
     if fst r \<noteq> 16 then panic ''dirlink read''
     else if get16 0 (snd r) = 0 then ret off
     else dirlink_scan rw dp (off + 16) n)"

definition mk_dirent :: "byte list \<Rightarrow> uint \<Rightarrow> byte list" where
  "mk_dirent name i = put16 0 (ucast i) (replicate 2 0) @ strncpy_name name"

definition dirlink :: "'z fdriver \<Rightarrow> nat \<Rightarrow> byte list \<Rightarrow> uint \<Rightarrow> ('z fsst_scheme, int) km" where
  "dirlink rw dp name i =
     bnd (dirlookup rw dp name) (\<lambda>r.
     case r of
       Some (ip, _) \<Rightarrow> seq (iput rw ip) (ret (- 1))
     | None \<Rightarrow>
         bnd (get_inode dp) (\<lambda>I.
         bnd (dirlink_scan rw dp 0 ((unat (isize I) + 15) div dirent_size)) (\<lambda>off.
         bnd (writei rw dp (From_local (mk_dirent name i)) off 16) (\<lambda>w.
         ret (if w \<noteq> 16 then - 1 else 0)))))"

section \<open>Paths\<close>

lemma skipelem_shorter: "skipelem path name = Some (path', name') \<Longrightarrow> length path' < length path"
proof -
  assume a: "skipelem path name = Some (path', name')"
  define s where "s = skip_slashes path"
  have s: "s \<noteq> []" and r: "path' = skip_slashes (drop (skip_elem s) s)"
    using a by (auto simp: skipelem_def s_def Let_def split: if_splits)
  obtain c q where cq: "s = c # q" using s by (cases s) auto
  have "skip_elem s \<noteq> 0" using skip_slashes_hd [of path c q] cq by (simp add: s_def)
  then have "length (drop (skip_elem s) s) < length s" using s by simp
  then show ?thesis using skip_slashes_length [of "drop (skip_elem s) s"] skip_slashes_length [of path] by (simp add: r s_def)
qed

text \<open>The loop of \<open>namex\<close>; the result is the inode (\<open>None\<close> for null) and the array \<open>name\<close>.\<close>

function namex_loop :: "'z fdriver \<Rightarrow> nat \<Rightarrow> byte list \<Rightarrow> bool \<Rightarrow> byte list \<Rightarrow> ('z fsst_scheme, nat option \<times> byte list) km" where
  "namex_loop rw ip path nameiparent name s =
     (case skipelem path name of
        None \<Rightarrow> (if nameiparent then seq (iput rw ip) (ret (None, name)) else ret (Some ip, name)) s
      | Some (path', name') \<Rightarrow>
          bnd (ilock rw (Some ip)) (\<lambda>_ s.
          bnd (get_inode ip) (\<lambda>I s.
          if itype I \<noteq> I_DIR then seq (iunlockput rw ip) (ret (None, name')) s
          else if nameiparent \<and> path' = [] then seq (iunlock (Some ip)) (ret (Some ip, name')) s
          else bnd (dirlookup rw ip name') (\<lambda>r s.
            case r of
              None \<Rightarrow> seq (iunlock (Some ip)) (ret (None, name')) s
            | Some (jp, _) \<Rightarrow> bnd (iunlockput rw ip) (\<lambda>_ s. namex_loop rw jp path' nameiparent name' s) s) s) s) s)"
  by pat_completeness auto
termination
  by (relation "measure (\<lambda>(rw, ip, path, np, name, s). length path)") (auto intro: skipelem_shorter)

declare namex_loop.simps [simp del]

definition namex :: "'z fdriver \<Rightarrow> byte list \<Rightarrow> bool \<Rightarrow> byte list \<Rightarrow> ('z fsst_scheme, nat option \<times> byte list) km" where
  "namex rw path nameiparent name =
     bnd (if path \<noteq> [] \<and> hd path = slash then iget ROOTDEV ROOTINO
          else bnd this_proc (\<lambda>i. bnd (get_proc i) (\<lambda>p. case cwd p of None \<Rightarrow> panic ''kerneltrap'' | Some k \<Rightarrow> idup k))) (\<lambda>ip.
     namex_loop rw ip path nameiparent name)"

text \<open>The array \<open>name\<close> of \<open>namei\<close> is an uninitialised local; its contents are the parameter \<open>junk\<close>.\<close>

definition namei :: "'z fdriver \<Rightarrow> byte list \<Rightarrow> byte list \<Rightarrow> ('z fsst_scheme, nat option) km" where
  "namei rw junk path = bnd (namex rw path False junk) (\<lambda>r. ret (fst r))"

definition nameiparent :: "'z fdriver \<Rightarrow> byte list \<Rightarrow> byte list \<Rightarrow> ('z fsst_scheme, nat option \<times> byte list) km" where
  "nameiparent rw path name = namex rw path True name"

section \<open>Directories as lists of entries\<close>

definition entry :: "byte list \<Rightarrow> nat \<Rightarrow> byte list" where
  "entry d j = take 16 (drop (16 * j) d)"

definition matches :: "byte list \<Rightarrow> byte list \<Rightarrow> nat \<Rightarrow> bool" where
  "matches d name j \<longleftrightarrow> get16 0 (entry d j) \<noteq> 0 \<and> cname name = cname (drop 2 (entry d j))"

text \<open>The specification of a directory: the first entry in use with the name.\<close>

definition dir_find :: "byte list \<Rightarrow> byte list \<Rightarrow> nat option" where
  "dir_find d name = find (matches d name) [0..<length d div 16]"

text \<open>A file that can be read, in the state between two calls.\<close>

definition readable :: "uint \<Rightarrow> uint \<Rightarrow> 'z fsst_scheme \<Rightarrow> nat \<Rightarrow> uint set \<Rightarrow> nat \<Rightarrow> nat \<Rightarrow> bool" where
  "readable D st s i W k m \<longleftrightarrow> itx D st s i W \<and> idev (inodes s k) = D \<and> mapped st (blk D s) (inodes s k) m \<and>
     unat (isize (inodes s k)) \<le> BSIZE * m \<and> card W < NBUF"

lemma readable_step:
  assumes "readable D st s i W k m" "itx D st t i W" "inodes t = inodes s" "blk D t = blk D s"
  shows "readable D st t i W k m"
  using assms by (simp add: readable_def)

text \<open>Reading the entry \<open>j\<close> of a directory.\<close>

lemma read_entry:
  fixes s :: "'z fsst_scheme"
  assumes "block_driver rw" "readable D st s i W k m" "16 * j + 16 \<le> unat (isize (inodes s k))"
  shows "\<exists>t. readi rw k To_local (of_nat (16 * j)) 16 s = Ok (16, entry (fdata (blk D s) (inodes s k) m) j) t \<and>
    readable D st t i W k m \<and> inodes t = inodes s \<and> blk D t = blk D s \<and> tst_frame s t"
proof -
  let ?d = "fdata (blk D s) (inodes s k) m" let ?o = "of_nat (16 * j) :: uint"
  have h: "itx D st s i W" "idev (inodes s k) = D" "mapped st (blk D s) (inodes s k) m" "unat (isize (inodes s k)) \<le> BSIZE * m" "card W < NBUF"
    using assms(2) by (simp_all add: readable_def)
  have tx: "txs D st s i {} W" using h(1) by (simp add: itx_def)
  have "BSIZE * m \<le> 274432" using h(3) by (simp add: mapped_def MAXFILE_def NDIRECT_def NINDIRECT_def BSIZE_def)
  then have l32: "16 * j + 16 < 2 ^ 32" using assms(3) h(4) by simp
  then have o: "unat ?o = 16 * j" "16 * j + 16 < 2 ^ 32" unfolding unat_of_nat by simp_all
  have "unat (?o + 16) = 16 * j + 16" using o by (subst unat_add_lem [THEN iffD1]) simp_all
  then have nw: "\<not> ?o + 16 < ?o" using o by (simp add: word_less_nat_alt)
  have ld: "length ?d = unat (isize (inodes s k))" using length_content [OF h(3)] h(4) by (simp add: fdata_def)
  obtain t where t: "readi rw k To_local ?o 16 s = Ok (int (length (entry ?d j)), entry ?d j) t" "txs D st t i {} W" "blk D t = blk D s"
    "inodes t = inodes s" "tst_frame s t"
    using readi_ok [OF assms(1) tx h(2-5), of ?o 16] nw o by (auto simp: entry_def)
  have "length (entry ?d j) = 16" using ld assms(3) by (simp add: entry_def)
  moreover have "readable D st t i W k m" using readable_step [OF assms(2) itx_frame [OF h(1) t(5,2)]] t by simp
  ultimately show ?thesis using t by simp
qed

lemma dirlookup_loop_run:
  fixes s :: "'z fsst_scheme"
  assumes "block_driver rw" "readable D st s i W k m" "16 * (j + n) \<le> unat (isize (inodes s k))"
  shows "\<exists>t. readable D st t i W k m \<and> inodes t = inodes s \<and> blk D t = blk D s \<and> tst_frame s t \<and>
    dirlookup_loop rw k name (of_nat (16 * j)) n s =
      (case find (matches (fdata (blk D s) (inodes s k) m) name) [j..<j + n] of
         None \<Rightarrow> Ok None t
       | Some l \<Rightarrow> bnd (iget D (ucast (get16 0 (entry (fdata (blk D s) (inodes s k) m) l)))) (\<lambda>ip. ret (Some (ip, of_nat (16 * l)))) t)"
  using assms
proof (induction n arbitrary: j s)
  case 0
  then show ?case by (auto simp: tst_frameI)
next
  case (Suc n)
  let ?d = "fdata (blk D s) (inodes s k) m"
  obtain u where u: "readi rw k To_local (of_nat (16 * j)) 16 s = Ok (16, entry ?d j) u" "readable D st u i W k m" "inodes u = inodes s"
    "blk D u = blk D s" "tst_frame s u"
    using read_entry [OF Suc.prems(1,2), of j] Suc.prems(3) by auto
  have up: "[j..<j + Suc n] = j # [Suc j..<Suc j + n]" by (simp add: upt_conv_Cons)
  have nx: "of_nat (16 * j) + 16 = (of_nat (16 * Suc j) :: uint)" by simp
  show ?case
  proof (cases "matches ?d name j")
    case True
    then have m: "get16 0 (entry ?d j) \<noteq> 0" "namecmp name (drop 2 (entry ?d j)) = 0" by (simp_all add: matches_def namecmp_0_iff)
    have "idev (inodes u k) = D" using u(2) by (simp add: readable_def)
    then have "dirlookup_loop rw k name (of_nat (16 * j)) (Suc n) s =
        bnd (iget D (ucast (get16 0 (entry ?d j)))) (\<lambda>ip. ret (Some (ip, of_nat (16 * j)))) u"
      using u(1) m by (simp add: Let_def)
    then show ?thesis using u(2-5) True unfolding up by (intro exI [of _ u]) simp
  next
    case False
    then have m: "get16 0 (entry ?d j) = 0 \<or> namecmp name (drop 2 (entry ?d j)) \<noteq> 0" by (auto simp: matches_def namecmp_0_iff)
    have run: "dirlookup_loop rw k name (of_nat (16 * j)) (Suc n) s = dirlookup_loop rw k name (of_nat (16 * Suc j)) n u"
      using u(1) m unfolding nx [symmetric] by (auto simp: Let_def)
    have lt: "16 * (Suc j + n) \<le> unat (isize (inodes s k))" using Suc.prems(3) by simp
    obtain t where t: "readable D st t i W k m" "inodes t = inodes u" "blk D t = blk D u" "tst_frame u t"
      "dirlookup_loop rw k name (of_nat (16 * Suc j)) n u = (case find (matches ?d name) [Suc j..<Suc j + n] of
         None \<Rightarrow> Ok None t | Some l \<Rightarrow> bnd (iget D (ucast (get16 0 (entry ?d l)))) (\<lambda>ip. ret (Some (ip, of_nat (16 * l)))) t)"
      using Suc.IH [OF Suc.prems(1) u(2), of "Suc j", unfolded u(3,4)] lt unfolding u(3,4) by blast
    show ?thesis
      using t(1-3) u(3,4) tst_frame_trans [OF u(5) t(4)] False unfolding run up t(5) by (intro exI [of _ t]) simp
  qed
qed

text \<open>
  C9: \<open>dirlookup\<close> implements a search in the list of entries. On a directory whose blocks are allocated it returns the
  offset of the first entry in use whose name equals the given one up to 14 bytes, with a reference to the inode
  of that entry (its count goes up by one); without such an entry it returns null and changes nothing. On any
  other file it panics.
\<close>

theorem dirlookup_correct:
  fixes s :: "'z fsst_scheme"
  assumes "block_driver rw" "readable D st s i W k m" "16 dvd unat (isize (inodes s k))" "it_ok (inodes s)" "\<exists>j<NINODE. iref (inodes s j) = 0"
  shows "if itype (inodes s k) \<noteq> I_DIR then dirlookup rw k name s = Panic ''dirlookup: not a DIR''
    else case dir_find (fdata (blk D s) (inodes s k) m) name of
      None \<Rightarrow> \<exists>t. dirlookup rw k name s = Ok None t \<and> inodes t = inodes s \<and> blk D t = blk D s
    | Some l \<Rightarrow> \<exists>ip t. dirlookup rw k name s = Ok (Some (ip, of_nat (16 * l))) t \<and> blk D t = blk D s \<and> it_ok (inodes t) \<and>
        names (inodes t ip) D (ucast (get16 0 (entry (fdata (blk D s) (inodes s k) m) l))) \<and>
        irefs (inodes t) = add_refs D (ucast (get16 0 (entry (fdata (blk D s) (inodes s k) m) l))) 1 (irefs (inodes s))"
proof (cases "itype (inodes s k) = I_DIR")
  case True
  let ?d = "fdata (blk D s) (inodes s k) m" let ?z = "unat (isize (inodes s k))"
  have h: "mapped st (blk D s) (inodes s k) m" "?z \<le> BSIZE * m" using assms(2) by (simp_all add: readable_def)
  have ld: "length ?d = ?z" using length_content [OF h(1)] h(2) by (simp add: fdata_def)
  obtain q where q: "?z = 16 * q" using assms(3) by (elim dvdE)
  then have n: "(?z + 15) div dirent_size = q" "length ?d div 16 = q" by (simp_all add: ld dirent_size_def)
  obtain t where t: "readable D st t i W k m" "inodes t = inodes s" "blk D t = blk D s" "tst_frame s t"
    "dirlookup_loop rw k name (of_nat (16 * 0)) q s = (case find (matches ?d name) [0..<0 + q] of
       None \<Rightarrow> Ok None t | Some l \<Rightarrow> bnd (iget D (ucast (get16 0 (entry ?d l)))) (\<lambda>ip. ret (Some (ip, of_nat (16 * l)))) t)"
    using dirlookup_loop_run [OF assms(1,2), of 0 q name] q by auto
  have run: "dirlookup rw k name s = (case dir_find ?d name of
       None \<Rightarrow> Ok None t | Some l \<Rightarrow> bnd (iget D (ucast (get16 0 (entry ?d l)))) (\<lambda>ip. ret (Some (ip, of_nat (16 * l)))) t)"
    using t(5) True by (simp add: dirlookup_def n dir_find_def)
  have y: "lock_free Itable_lock (sync t)" "sync_ok (sync t)"
    using t(1) txs_running [of D st t i "{}" W] by (auto simp: readable_def itx_def running_def procs_free_def)
  show ?thesis
  proof (cases "dir_find ?d name")
    case None
    then show ?thesis using run True t by auto
  next
    case (Some l)
    let ?i = "ucast (get16 0 (entry ?d l)) :: uint"
    have "it_ok (inodes t)" "\<exists>j<NINODE. names (inodes t j) D ?i \<or> iref (inodes t j) = 0" using assms(4,5) t(2) by auto
    then obtain ip u where u: "iget D ?i t = Ok ip u" "names (inodes u ip) D ?i" "it_ok (inodes u)" "irefs (inodes u) = add_refs D ?i 1 (irefs (inodes t))"
      "u = t\<lparr>sync := quiet (sync t), inodes := inodes u\<rparr>"
      using iget_ok [OF y, of D ?i] by (auto split: if_splits)
    have "blk D u = blk D t" by (subst u(5)) simp
    then show ?thesis using run True Some u(1-4) t(2,3) by auto
  qed
qed (simp add: dirlookup_def)

text \<open>A directory of four entries: dot, an empty one, and two files with one name, for the witness.\<close>

definition demo_dir :: "byte list" where
  "demo_dir = mk_dirent [46] 1 @ replicate 16 0 @ mk_dirent [97, 98] 7 @ mk_dirent [97, 98] 9"

definition demo_dinode :: inode where
  "demo_dinode = demo_inode\<lparr>itype := I_DIR, isize := 64\<rparr>"

lemma demo_dir_find: "dir_find demo_dir [97, 98] = Some 2"
  by code_simp

theorem dirlookup_correct_witness:
  "\<exists>(s :: fsst) ip t. dirlookup (disk_rw (\<lambda>_ _. 0) blk_device) 3 [97, 98] s = Ok (Some (ip, 32)) t \<and> names (inodes t ip) 1 7"
proof -
  let ?X = "\<lambda>n :: uint. if n = 50 then demo_dir @ replicate 960 0 else replicate 1024 0 :: byte list"
  obtain s :: fsst where s: "itx 1 2 s 0 {}" "blk 1 s = ?X" "sb s = demo_sb" "inodes s = demo_table(3 := demo_dinode)" by (rule demo_fsst)
  have drv: "block_driver (disk_rw (\<lambda>_ _. 0) (blk_device :: fsst \<Rightarrow> fsst))" by (rule vdisk.vrw.block_driver_axioms)
  have ld: "length demo_dir = 64" by code_simp
  have mp: "mapped 2 (blk 1 s) (inodes s 3) 1"
    using demo_home [of 50] ld by (simp add: s(2,4) mapped_def fblock_def demo_dinode_def demo_inode_def NDIRECT_def MAXFILE_def BSIZE_def)
  then have r: "readable 1 2 s 0 {} 3 1"
    using s(1) by (simp add: readable_def s(4)) (simp add: demo_dinode_def demo_inode_def BSIZE_def NBUF_def)
  have z: "16 dvd unat (isize (inodes s 3))" by (simp add: s(4) demo_dinode_def)
  have f: "it_ok (inodes s)" "\<exists>j<NINODE. iref (inodes s j) = 0"
    by (auto simp: s(4) it_ok_def names_def demo_table_def demo_dinode_def demo_inode_def NINODE_def intro!: exI [of _ 0])
  have d: "fdata (blk 1 s) (inodes s 3) 1 = demo_dir"
    using ld by (simp add: fdata_def content_def fblock_def s(2,4) demo_dinode_def demo_inode_def NDIRECT_def)
  have e: "get16 0 (entry demo_dir 2) = 7" by code_simp
  have "itype (inodes s 3) = I_DIR" by (simp add: s(4) demo_dinode_def)
  then show ?thesis
    using dirlookup_correct [OF drv r z f, of "[97, 98]", unfolded d demo_dir_find option.case e] by auto
qed

end
