(* ===== verification/Fork.thy ===== *)
theory Fork
  imports File Dir
begin

text \<open>
  The operations of \<^verbatim>\<open>kernel/src/proc.c\<close> that create and end processes and therefore reach the file system: \<open>userinit\<close>,
  \<open>userinit1\<close>, \<open>fork\<close> and \<open>exit\<close>.

  A trap frame lives in physical memory at the address \<open>p->trapframe\<close>; the fields of \<open>struct trapframe\<close> are 64-bit words at
  the offsets given in \<^verbatim>\<open>kernel/inc/proc.h\<close>. The array \<open>p->name\<close> of 16 bytes is the list \<open>pname\<close>.
\<close>

section \<open>Trap frames and names\<close>

definition TF_kernel_satp :: addr where "TF_kernel_satp = 0"
definition TF_kernel_sp :: addr where "TF_kernel_sp = 8"
definition TF_kernel_trap :: addr where "TF_kernel_trap = 16"
definition TF_epc :: addr where "TF_epc = 24"
definition TF_kernel_hartid :: addr where "TF_kernel_hartid = 32"
definition TF_sp :: addr where "TF_sp = 48"
definition TF_a0 :: addr where "TF_a0 = 112"
definition TF_a1 :: addr where "TF_a1 = 120"
definition TF_a7 :: addr where "TF_a7 = 168"
definition sizeof_trapframe :: nat where "sizeof_trapframe = 288"

text \<open>\<open>safestrcpy\<close> into an array \<open>d\<close>, from index \<open>k\<close> on, of at most \<open>n\<close> characters of \<open>t\<close>.\<close>

fun safestrcpy_array :: "byte list \<Rightarrow> nat \<Rightarrow> byte list \<Rightarrow> nat \<Rightarrow> byte list" where
  "safestrcpy_array d k t 0 = d[k := 0]"
| "safestrcpy_array d k [] (Suc n) = d[k := 0, k + 1 := 0]"
| "safestrcpy_array d k (c # t) (Suc n) =
     (if c \<noteq> 0 then safestrcpy_array (d[k := c]) (k + 1) t n else d[k := 0, k + 1 := 0])"

definition set_name :: "nat \<Rightarrow> byte list \<Rightarrow> ('z ptable_scheme, unit) km" where
  "set_name i t = set_proc i (\<lambda>p. p\<lparr>pname := safestrcpy_array (pname p) 0 t 15\<rparr>)"

section \<open>The first processes\<close>

definition initcode :: "byte list" where
  "initcode = [
     0x17, 0x05, 0x00, 0x00, 0x13, 0x05, 0x45, 0x02, 0x97, 0x05, 0x00, 0x00, 0x93,
     0x85, 0x35, 0x02, 0x93, 0x08, 0x70, 0x00, 0x73, 0x00, 0x00, 0x00, 0x93, 0x08,
     0x20, 0x00, 0x73, 0x00, 0x00, 0x00, 0xef, 0xf0, 0x9f, 0xff, 0x2f, 0x69, 0x6e,
     0x69, 0x74, 0x00, 0x00, 0x24, 0x00, 0x00, 0x00, 0x00, 0x00, 0x00, 0x00, 0x00]"

definition initcode1 :: "byte list" where
  "initcode1 = [
     0x1b, 0x05, 0x20, 0x00, 0x9b, 0x05, 0x30, 0x00, 0x1b, 0x06, 0x00, 0x00, 0x33, 0x06,
     0xb5, 0x00, 0x6f, 0xf0, 0x1f, 0xff, 0x2f, 0x69, 0x6e, 0x69, 0x74, 0x31, 0x00, 0x00]"

definition name_initcode :: "byte list" where
  "name_initcode = [0x69, 0x6e, 0x69, 0x74, 0x63, 0x6f, 0x64, 0x65]"

definition userinit :: "'z odriver \<Rightarrow> byte list \<Rightarrow> ('z ftab_scheme, unit) km" where
  "userinit rw junk =
     bnd allocproc (\<lambda>r.
     seq (modify (\<lambda>s. s\<lparr>initproc := r\<rparr>)) (
     case r of None \<Rightarrow> panic ''kerneltrap''
     | Some p \<Rightarrow>
       bnd (get_proc p) (\<lambda>P.
       seq (uvmfirst (pagetable P) initcode) (
       seq (set_proc p (\<lambda>P. P\<lparr>sz := PGSIZE\<rparr>)) (
       seq (store64 (trapframe P + TF_epc) 0) (
       seq (store64 (trapframe P + TF_sp) PGSIZE) (
       seq (set_name p name_initcode) (
       bnd (namei rw junk [slash]) (\<lambda>d.
       seq (set_proc p (\<lambda>P. P\<lparr>cwd := d, pstate := RUNNABLE\<rparr>)) (
       release (Proc_lock p)))))))))))"

definition userinit1 :: "('z ftab_scheme, unit) km" where
  "userinit1 =
     bnd allocproc (\<lambda>r.
     case r of None \<Rightarrow> panic ''kerneltrap''
     | Some p \<Rightarrow>
       bnd (get_proc p) (\<lambda>P.
       seq (uvmfirst (pagetable P) initcode1) (
       seq (set_proc p (\<lambda>P. P\<lparr>sz := PGSIZE\<rparr>)) (
       seq (store64 (trapframe P + TF_epc) 0) (
       seq (store64 (trapframe P + TF_sp) PGSIZE) (
       seq (set_name p (name_initcode @ [0x31])) (
       seq (set_proc p (\<lambda>P. P\<lparr>pstate := RUNNABLE\<rparr>)) (
       release (Proc_lock p)))))))))"

section \<open>fork and exit\<close>

fun fork_files :: "nat \<Rightarrow> nat \<Rightarrow> nat \<Rightarrow> nat \<Rightarrow> ('z ftab_scheme, unit) km" where
  "fork_files p np i 0 = ret ()"
| "fork_files p np i (Suc n) =
     seq (bnd (get_proc p) (\<lambda>P.
       case ofile P i of None \<Rightarrow> ret ()
       | Some f \<Rightarrow> bnd (fileup f) (\<lambda>f. set_proc np (\<lambda>N. N\<lparr>ofile := (ofile N)(i := Some f)\<rparr>)))) (
     fork_files p np (Suc i) n)"

definition fork :: "('z ftab_scheme, int) km" where
  "fork =
     bnd this_proc (\<lambda>p.
     bnd allocproc (\<lambda>r.
     case r of None \<Rightarrow> ret (- 1)
     | Some np \<Rightarrow>
       bnd (get_proc p) (\<lambda>P.
       bnd (get_proc np) (\<lambda>N.
       bnd (uvmcopy (pagetable P) (pagetable N) (sz P)) (\<lambda>c.
       if c < 0 then seq (freeproc np) (seq (release (Proc_lock np)) (ret (- 1)))
       else
         seq (set_proc np (\<lambda>N. N\<lparr>sz := sz P\<rparr>)) (
         bnd (load_bytes (trapframe P) sizeof_trapframe) (\<lambda>tf.
         seq (store_bytes (trapframe N) tf) (
         seq (store64 (trapframe N + TF_a0) 0) (
         seq (fork_files p np 0 NOFILE) (
         bnd (case cwd P of None \<Rightarrow> panic ''kerneltrap'' | Some k \<Rightarrow> idup k) (\<lambda>k.
         seq (set_proc np (\<lambda>N. N\<lparr>cwd := Some k\<rparr>)) (
         seq (set_name np (pname P)) (
         seq (release (Proc_lock np)) (
         seq (acquire Wait_lock) (
         seq (set_proc np (\<lambda>N. N\<lparr>parent := Some p\<rparr>)) (
         seq (release Wait_lock) (
         seq (acquire (Proc_lock np)) (
         seq (set_proc np (\<lambda>N. N\<lparr>pstate := RUNNABLE\<rparr>)) (
         seq (release (Proc_lock np)) (
         ret (pid N)))))))))))))))))))))"

fun exit_files :: "'z odriver \<Rightarrow> nat \<Rightarrow> nat \<Rightarrow> nat \<Rightarrow> ('z ftab_scheme, unit) km" where
  "exit_files rw p fd 0 = ret ()"
| "exit_files rw p fd (Suc n) =
     seq (bnd (get_proc p) (\<lambda>P.
       case ofile P fd of None \<Rightarrow> ret ()
       | Some f \<Rightarrow> seq (fileclose rw f) (set_proc p (\<lambda>P. P\<lparr>ofile := (ofile P)(fd := None)\<rparr>)))) (
     exit_files rw p (Suc fd) n)"

definition exit :: "'z odriver \<Rightarrow> int \<Rightarrow> ('z ftab_scheme, unit) km" where
  "exit rw status =
     bnd myproc (\<lambda>me.
     bnd (gets initproc) (\<lambda>ip.
     if me = ip then panic ''init exiting''
     else case me of None \<Rightarrow> panic ''kerneltrap''
     | Some p \<Rightarrow>
       seq (exit_files rw p 0 NOFILE) (
       seq begin_op (
       bnd (get_proc p) (\<lambda>P.
       seq (case cwd P of None \<Rightarrow> panic ''kerneltrap'' | Some k \<Rightarrow> iput rw k) (
       seq (end_op rw) (
       seq (set_proc p (\<lambda>P. P\<lparr>cwd := None\<rparr>)) (
       seq (acquire Wait_lock) (
       seq (reparent p) (
       bnd (get_proc p) (\<lambda>P.
       seq (wakeup (chan_of_proc (parent P))) (
       seq (acquire (Proc_lock p)) (
       seq (set_proc p (\<lambda>P. P\<lparr>xstate := status, pstate := ZOMBIE\<rparr>)) (
       seq (release Wait_lock) (
       seq sched (
       panic ''zombie exit''))))))))))))))))"

end
