(* ===== verification/Exec.thy ===== *)
theory Exec
  imports Fork
begin

text \<open>
  \<^verbatim>\<open>kernel/src/exec.c\<close> with the ELF structures of \<^verbatim>\<open>kernel/inc/elf.h\<close>. The headers are read into local variables, here
  byte lists whose fields are read at their offsets. \<open>argv\<close> is an array of kernel addresses of strings ended by a null
  pointer; \<open>path\<close> is the characters of the path.

  The jumps to \<open>bad\<close> are calls of \<open>exec_bad\<close> with the page table, the size and the inode that the local variables hold there.
\<close>

section \<open>Headers\<close>

definition MAXARG :: nat where "MAXARG = 32"
definition ELF_MAGIC :: uint where "ELF_MAGIC = 0x464C457F"
definition ELF_PROG_LOAD :: uint where "ELF_PROG_LOAD = 1"

definition get64 :: "nat \<Rightarrow> byte list \<Rightarrow> uint64" where
  "get64 k bs = ucast (get32 k bs) OR push_bit 32 (ucast (get32 (k + 4) bs))"

definition elf_magic :: "byte list \<Rightarrow> uint" where "elf_magic h = get32 0 h"
definition elf_entry :: "byte list \<Rightarrow> uint64" where "elf_entry h = get64 24 h"
definition elf_phoff :: "byte list \<Rightarrow> uint64" where "elf_phoff h = get64 32 h"
definition elf_phnum :: "byte list \<Rightarrow> uint16" where "elf_phnum h = get16 56 h"

definition ph_type :: "byte list \<Rightarrow> uint" where "ph_type h = get32 0 h"
definition ph_flags :: "byte list \<Rightarrow> uint" where "ph_flags h = get32 4 h"
definition ph_off :: "byte list \<Rightarrow> uint64" where "ph_off h = get64 8 h"
definition ph_vaddr :: "byte list \<Rightarrow> uint64" where "ph_vaddr h = get64 16 h"
definition ph_filesz :: "byte list \<Rightarrow> uint64" where "ph_filesz h = get64 32 h"
definition ph_memsz :: "byte list \<Rightarrow> uint64" where "ph_memsz h = get64 40 h"

section \<open>Loading\<close>

definition flags2perm :: "uint \<Rightarrow> uint64" where
  "flags2perm flags =
     (let perm = (if flags AND 1 \<noteq> 0 then PTE_X else 0)
      in if flags AND 2 \<noteq> 0 then perm OR PTE_W else perm)"

text \<open>
  The loop of \<open>loadseg\<close>, which goes up in pages. \<open>fuel\<close> counts the rounds: the segment has \<open>sz div PGSIZE + 1\<close> pages at most, and
  the index wraps only for the last page below 4 GB, where no file reaches.
\<close>

fun loadseg_loop :: "'z odriver \<Rightarrow> addr \<Rightarrow> addr \<Rightarrow> nat \<Rightarrow> uint \<Rightarrow> uint \<Rightarrow> uint \<Rightarrow> nat \<Rightarrow> ('z ftab_scheme, int) km" where
  "loadseg_loop rw pt va k offset segsz i 0 = spin"
| "loadseg_loop rw pt va k offset segsz i (Suc fuel) =
     (if i < segsz
      then bnd (walkaddr pt (va + ucast i)) (\<lambda>pa.
        if pa = 0 then panic ''loadseg: address should exist''
        else let n = min (segsz - i) 4096
             in bnd (readi rw k (To_mem pa) (offset + i) n) (\<lambda>r.
                if word_of_int (fst r) \<noteq> n then ret (- 1)
                else loadseg_loop rw pt va k offset segsz (i + 4096) fuel))
      else ret 0)"

definition loadseg :: "'z odriver \<Rightarrow> addr \<Rightarrow> addr \<Rightarrow> nat \<Rightarrow> uint \<Rightarrow> uint \<Rightarrow> ('z ftab_scheme, int) km" where
  "loadseg rw pt va k offset segsz = loadseg_loop rw pt va k offset segsz 0 (unat segsz div 4096 + 2)"

text \<open>The loop over the program headers; the result says whether it ended, with the size reached.\<close>

fun exec_load :: "'z odriver \<Rightarrow> nat \<Rightarrow> addr \<Rightarrow> uint \<Rightarrow> nat \<Rightarrow> uint64 \<Rightarrow> ('z ftab_scheme, bool \<times> uint64) km" where
  "exec_load rw k pt off 0 n = ret (True, n)"
| "exec_load rw k pt off (Suc m) n =
     bnd (readi rw k To_local off 56) (\<lambda>r.
     if fst r \<noteq> 56 then ret (False, n)
     else let ph = snd r in
       if ph_type ph \<noteq> ELF_PROG_LOAD then exec_load rw k pt (off + 56) m n
       else if ph_memsz ph < ph_filesz ph then ret (False, n)
       else if ph_vaddr ph + ph_memsz ph < ph_vaddr ph then ret (False, n)
       else if ph_vaddr ph mod PGSIZE \<noteq> 0 then ret (False, n)
       else bnd (uvmalloc pt n (ph_vaddr ph + ph_memsz ph) (flags2perm (ph_flags ph))) (\<lambda>n1.
         if n1 = 0 then ret (False, n)
         else bnd (loadseg rw pt (ph_vaddr ph) k (ucast (ph_off ph)) (ucast (ph_filesz ph))) (\<lambda>l.
           if l < 0 then ret (False, n1) else exec_load rw k pt (off + 56) m n1)))"

section \<open>The argument stack\<close>

definition strlenM :: "addr \<Rightarrow> ('z machine_scheme, nat) km" where
  "strlenM a = bnd (gets (\<lambda>s. strlen (mem s) a)) (\<lambda>n. case n of None \<Rightarrow> spin | Some n \<Rightarrow> ret n)"

text \<open>Where a string of \<open>len\<close> bytes goes below \<open>sp\<close>.\<close>

definition push_sp :: "uint64 \<Rightarrow> uint64 \<Rightarrow> uint64" where
  "push_sp sp len = (let sp' = sp - len in sp' - sp' mod 16)"

text \<open>The loop over the arguments: whether it ended, the stack pointer and the entries of \<open>ustack\<close> so far.\<close>

fun exec_args :: "addr \<Rightarrow> (nat \<Rightarrow> addr) \<Rightarrow> uint64 \<Rightarrow> nat \<Rightarrow> nat \<Rightarrow> uint64 \<Rightarrow> uint64 list \<Rightarrow> ('z ftab_scheme, bool \<times> uint64 \<times> uint64 list) km" where
  "exec_args pt argv stackbase argc 0 sp us = ret (argv argc = 0, sp, us)"
| "exec_args pt argv stackbase argc (Suc n) sp us =
     (if argv argc = 0 then ret (True, sp, us)
      else bnd (strlenM (argv argc)) (\<lambda>len.
        let sp' = push_sp sp (of_nat (len + 1)) in
        if sp' < stackbase then ret (False, sp', us)
        else bnd (load_bytes (argv argc) (len + 1)) (\<lambda>str.
          bnd (copyout pt sp' str (of_nat (len + 1))) (\<lambda>r.
          if r < 0 then ret (False, sp', us)
          else exec_args pt argv stackbase (Suc argc) n sp' (us @ [sp'])))))"

definition bytes64 :: "uint64 \<Rightarrow> byte list" where
  "bytes64 x = map (\<lambda>k. ucast (drop_bit (8 * k) x)) [0, 1, 2, 3, 4, 5, 6, 7]"

fun path_last :: "byte list \<Rightarrow> byte list \<Rightarrow> byte list" where
  "path_last l [] = l"
| "path_last l (c # cs) = path_last (if c = slash then cs else l) cs"

definition exec_bad :: "'z odriver \<Rightarrow> addr \<Rightarrow> uint64 \<Rightarrow> nat option \<Rightarrow> ('z ftab_scheme, int) km" where
  "exec_bad rw pt n ip =
     seq (whenM (pt \<noteq> 0) (proc_freepagetable pt n)) (
     seq (case ip of None \<Rightarrow> ret () | Some k \<Rightarrow> seq (iunlockput rw k) (end_op rw)) (
     ret (- 1)))"

text \<open>From the point where the file is closed: the stack, and the change to the new image.\<close>

definition exec_stack :: "'z odriver \<Rightarrow> nat \<Rightarrow> byte list \<Rightarrow> (nat \<Rightarrow> addr) \<Rightarrow> addr \<Rightarrow> uint64 \<Rightarrow> uint64 \<Rightarrow> ('z ftab_scheme, int) km" where
  "exec_stack rw p path argv pt pc0 n =
     bnd (get_proc p) (\<lambda>P.
     let n0 = PGROUNDUP n in
     bnd (uvmalloc pt n0 (n0 + 2 * PGSIZE) PTE_W) (\<lambda>n1.
     if n1 = 0 then exec_bad rw pt n0 None
     else
       seq (uvmclear pt (n1 - 2 * PGSIZE)) (
       let stackbase = n1 - PGSIZE in
       bnd (exec_args pt argv stackbase 0 MAXARG n1 []) (\<lambda>(ok, sp, us).
       if \<not> ok then exec_bad rw pt n1 None
       else let sp' = push_sp sp (of_nat (8 * (length us + 1))) in
         if sp' < stackbase then exec_bad rw pt n1 None
         else bnd (copyout pt sp' (concat (map bytes64 (us @ [0]))) (of_nat (8 * (length us + 1)))) (\<lambda>r.
           if r < 0 then exec_bad rw pt n1 None
           else
             seq (store64 (trapframe P + TF_a1) sp') (
             seq (set_name p (path_last path path)) (
             seq (set_proc p (\<lambda>P. P\<lparr>pagetable := pt, sz := n1\<rparr>)) (
             seq (store64 (trapframe P + TF_epc) pc0) (
             seq (store64 (trapframe P + TF_sp) sp') (
             seq (proc_freepagetable (pagetable P) (sz P)) (
             ret (int (length us)))))))))))))"

definition exec :: "'z odriver \<Rightarrow> byte list \<Rightarrow> byte list \<Rightarrow> (nat \<Rightarrow> addr) \<Rightarrow> ('z ftab_scheme, int) km" where
  "exec rw junk path argv =
     bnd this_proc (\<lambda>p.
     seq begin_op (
     bnd (namei rw junk path) (\<lambda>r.
     case r of None \<Rightarrow> seq (end_op rw) (ret (- 1))
     | Some k \<Rightarrow>
       seq (ilock rw (Some k)) (
       bnd (readi rw k To_local 0 64) (\<lambda>h.
       if fst h \<noteq> 64 then exec_bad rw 0 0 (Some k)
       else let elf = snd h in
         if elf_magic elf \<noteq> ELF_MAGIC then exec_bad rw 0 0 (Some k)
         else bnd (proc_pagetable p) (\<lambda>pt.
           if pt = 0 then exec_bad rw 0 0 (Some k)
           else bnd (exec_load rw k pt (ucast (elf_phoff elf)) (unat (elf_phnum elf)) 0) (\<lambda>(ok, n).
             if \<not> ok then exec_bad rw pt n (Some k)
             else
               seq (iunlockput rw k) (
               seq (end_op rw) (
               exec_stack rw p path argv pt (elf_entry elf) n)))))))))"

end
