(* ===== verification/Sysproc.thy ===== *)
theory Sysproc
  imports Exec
begin

text \<open>
  The arguments of system calls, \<^verbatim>\<open>kernel/src/syscall.c\<close>, and the system calls on processes,
  \<^verbatim>\<open>kernel/src/sysproc.c\<close>. The arguments are the registers \<open>a0\<close> to \<open>a5\<close> of the trap frame. \<open>fetchaddr\<close>, \<open>fetchstr\<close> and \<open>argstr\<close>
  return what they store through their pointer beside their result; the value is meaningless when the result is negative.
  A system call returns the 64-bit value that \<open>syscall\<close> puts into \<open>a0\<close>.

  The counter \<open>ticks\<close> of \<^verbatim>\<open>kernel/src/trap.c\<close> is part of the state here. \<open>sys_pause\<close> that has to wait gives up the processor and
  goes on with \<open>sys_pause_resume\<close>.
\<close>

section \<open>Arguments\<close>

record sysst = ftab +
  ticks :: uint

definition argraw :: "nat \<Rightarrow> ('z ftab_scheme, uint64) km" where
  "argraw n =
     bnd this_proc (\<lambda>i.
     bnd (get_proc i) (\<lambda>p.
     if n < 6 then load64 (trapframe p + TF_a0 + 8 * of_nat n) else panic ''argraw''))"

definition argint :: "nat \<Rightarrow> ('z ftab_scheme, int) km" where
  "argint n = bnd (argraw n) (\<lambda>w. ret (sint (ucast w :: uint)))"

definition argaddr :: "nat \<Rightarrow> ('z ftab_scheme, uint64) km" where
  "argaddr n = argraw n"

definition fetchaddr :: "addr \<Rightarrow> ('z ftab_scheme, int \<times> uint64) km" where
  "fetchaddr a =
     bnd this_proc (\<lambda>i.
     bnd (get_proc i) (\<lambda>p.
     if a \<ge> sz p \<or> a + 8 > sz p then ret (- 1, 0)
     else bnd (copyin (pagetable p) a 8 []) (\<lambda>(r, bs).
       ret (r, if r = 0 then get64 0 bs else 0))))"

text \<open>The bytes that \<open>copyinstr\<close> stores into \<open>buf\<close>, with the result.\<close>

definition fetchstr :: "addr \<Rightarrow> int \<Rightarrow> ('z ftab_scheme, int \<times> byte list) km" where
  "fetchstr a mx =
     bnd this_proc (\<lambda>i.
     bnd (get_proc i) (\<lambda>p.
     bnd (copyinstr (pagetable p) a (word_of_int mx) []) (\<lambda>(r, bs).
     if r < 0 then ret (- 1, bs)
     else ret (int (length (takeWhile (\<lambda>b. b \<noteq> 0) bs)), bs))))"

definition argstr :: "nat \<Rightarrow> int \<Rightarrow> ('z ftab_scheme, int \<times> byte list) km" where
  "argstr n mx = bnd (argaddr n) (\<lambda>a. fetchstr a mx)"

text \<open>The string in a buffer, without its terminator.\<close>

definition str_of :: "byte list \<Rightarrow> byte list" where
  "str_of bs = takeWhile (\<lambda>b. b \<noteq> 0) bs"

section \<open>System calls on processes\<close>

definition SBRK_EAGER :: int where "SBRK_EAGER = 1"

definition sys_exit :: "'z odriver \<Rightarrow> ('z ftab_scheme, uint64) km" where
  "sys_exit rw = bnd (argint 0) (\<lambda>n. seq (exit rw n) (ret 0))"

definition sys_getpid :: "('z ftab_scheme, uint64) km" where
  "sys_getpid = bnd this_proc (\<lambda>i. bnd (get_proc i) (\<lambda>p. ret (word_of_int (pid p))))"

definition sys_fork :: "('z ftab_scheme, uint64) km" where
  "sys_fork = bnd fork (\<lambda>r. ret (word_of_int r))"

definition sys_wait :: "('z ftab_scheme, uint64) km" where
  "sys_wait = bnd (argaddr 0) (\<lambda>p. bnd (wait p) (\<lambda>r. ret (word_of_int r)))"

definition sys_sbrk :: "('z ftab_scheme, uint64) km" where
  "sys_sbrk =
     bnd (argint 0) (\<lambda>n.
     bnd (argint 1) (\<lambda>t.
     bnd this_proc (\<lambda>i.
     bnd (get_proc i) (\<lambda>p.
     let a = sz p in
     if t = SBRK_EAGER \<or> n < 0
     then bnd (growproc n) (\<lambda>r. ret (if r < 0 then - 1 else a))
     else if a + word_of_int n < a then ret (- 1)
     else if a + word_of_int n > TRAPFRAME then ret (- 1)
     else bnd this_proc (\<lambda>i. seq (set_proc i (\<lambda>p. p\<lparr>sz := sz p + word_of_int n\<rparr>)) (ret a))))))"

definition sys_pause_loop :: "uint \<Rightarrow> int \<Rightarrow> ('z sysst_scheme, uint64) km" where
  "sys_pause_loop ticks0 n =
     bnd (gets ticks) (\<lambda>t.
     if t - ticks0 < word_of_int n
     then bnd this_proc (\<lambda>i.
       bnd (killed i) (\<lambda>k.
       if k then seq (release Ticks_lock) (ret (- 1))
       else seq (sleep Ticks_chan Ticks_lock) (ret 0)))
     else seq (release Ticks_lock) (ret 0))"

definition sys_pause :: "('z sysst_scheme, uint64) km" where
  "sys_pause =
     bnd (argint 0) (\<lambda>n.
     seq (acquire Ticks_lock) (
     bnd (gets ticks) (\<lambda>ticks0.
     sys_pause_loop ticks0 (if n < 0 then 0 else n))))"

definition sys_pause_resume :: "nat \<Rightarrow> bool \<Rightarrow> uint \<Rightarrow> int \<Rightarrow> ('z sysst_scheme, uint64) km" where
  "sys_pause_resume i intr_enabled ticks0 n =
     seq (sleep_resume i intr_enabled Ticks_lock) (sys_pause_loop ticks0 n)"

definition sys_kill :: "('z ftab_scheme, uint64) km" where
  "sys_kill = bnd (argint 0) (\<lambda>p. bnd (kill p) (\<lambda>r. ret (word_of_int r)))"

definition sys_uptime :: "('z sysst_scheme, uint64) km" where
  "sys_uptime =
     seq (acquire Ticks_lock) (
     bnd (gets ticks) (\<lambda>x.
     seq (release Ticks_lock) (
     ret (ucast x))))"

end
