(* ===== verification/Sysfile.thy ===== *)
theory Sysfile
  imports Sysproc
begin

text \<open>
  The system calls on files, \<^verbatim>\<open>kernel/src/sysfile.c\<close>. What they print is left out. The arrays \<open>name\<close> that the calls leave
  uninitialised are the parameters \<open>junk\<close>. The flag words of \<open>open\<close> are those of \<^verbatim>\<open>kernel/inc/fcntl.h\<close>.
\<close>

section \<open>Descriptors\<close>

definition MAXPATH :: int where "MAXPATH = 128"
definition O_RDONLY :: uint where "O_RDONLY = 0x000"
definition O_WRONLY :: uint where "O_WRONLY = 0x001"
definition O_RDWR :: uint where "O_RDWR = 0x002"
definition O_CREATE :: uint where "O_CREATE = 0x200"
definition O_TRUNC :: uint where "O_TRUNC = 0x400"

text \<open>The descriptor and the file, or \<open>None\<close> for the result -1.\<close>

definition argfd :: "nat \<Rightarrow> ('z ftab_scheme, (nat \<times> nat) option) km" where
  "argfd n =
     bnd (argint n) (\<lambda>fd.
     if fd < 0 \<or> fd \<ge> int NOFILE then ret None
     else bnd this_proc (\<lambda>i.
       bnd (get_proc i) (\<lambda>p.
       case ofile p (nat fd) of None \<Rightarrow> ret None | Some f \<Rightarrow> ret (Some (nat fd, f)))))"

fun fdalloc_scan :: "(nat \<Rightarrow> nat option) \<Rightarrow> nat \<Rightarrow> nat \<Rightarrow> nat option" where
  "fdalloc_scan T fd 0 = None"
| "fdalloc_scan T fd (Suc n) = (if T fd = None then Some fd else fdalloc_scan T (Suc fd) n)"

definition fdalloc :: "nat \<Rightarrow> ('z ftab_scheme, nat option) km" where
  "fdalloc f =
     bnd this_proc (\<lambda>i.
     bnd (get_proc i) (\<lambda>p.
     case fdalloc_scan (ofile p) 0 NOFILE of
       None \<Rightarrow> ret None
     | Some fd \<Rightarrow> seq (set_proc i (\<lambda>p. p\<lparr>ofile := (ofile p)(fd := Some f)\<rparr>)) (ret (Some fd))))"

definition clear_fd :: "nat \<Rightarrow> ('z ftab_scheme, unit) km" where
  "clear_fd fd = bnd this_proc (\<lambda>i. set_proc i (\<lambda>p. p\<lparr>ofile := (ofile p)(fd := None)\<rparr>))"

definition sys_dup :: "('z ftab_scheme, uint64) km" where
  "sys_dup =
     bnd (argfd 0) (\<lambda>r. case r of None \<Rightarrow> ret (- 1)
     | Some (_, f) \<Rightarrow>
       bnd (fdalloc f) (\<lambda>d. case d of None \<Rightarrow> ret (- 1)
       | Some fd \<Rightarrow> seq (fileup f) (ret 0)))"

definition sys_read :: "'z odriver \<Rightarrow> (int \<Rightarrow> 'z devop option) \<Rightarrow> ('z ftab_scheme, uint64) km" where
  "sys_read rw dread =
     bnd (argaddr 1) (\<lambda>p.
     bnd (argint 2) (\<lambda>n.
     bnd (argfd 0) (\<lambda>r. case r of None \<Rightarrow> ret (- 1)
     | Some (_, f) \<Rightarrow> bnd (fileread rw dread f p n) (\<lambda>x. ret (word_of_int x)))))"

definition sys_write :: "'z odriver \<Rightarrow> (int \<Rightarrow> 'z devop option) \<Rightarrow> ('z ftab_scheme, uint64) km" where
  "sys_write rw dwrite =
     bnd (argaddr 1) (\<lambda>p.
     bnd (argint 2) (\<lambda>n.
     bnd (argfd 0) (\<lambda>r. case r of None \<Rightarrow> ret (- 1)
     | Some (_, f) \<Rightarrow> bnd (filewrite rw dwrite f p n) (\<lambda>x. ret (word_of_int x)))))"

definition sys_close :: "'z odriver \<Rightarrow> ('z ftab_scheme, uint64) km" where
  "sys_close rw =
     bnd (argfd 0) (\<lambda>r. case r of None \<Rightarrow> ret (- 1)
     | Some (fd, f) \<Rightarrow> seq (clear_fd fd) (seq (fileclose rw f) (ret 0)))"

definition sys_fstat :: "'z odriver \<Rightarrow> byte list \<Rightarrow> ('z ftab_scheme, uint64) km" where
  "sys_fstat rw junk =
     bnd (argaddr 1) (\<lambda>st.
     bnd (argfd 0) (\<lambda>r. case r of None \<Rightarrow> ret (- 1)
     | Some (_, f) \<Rightarrow> bnd (filestat rw junk f st) (\<lambda>x. ret (word_of_int x))))"

section \<open>Directory entries\<close>

definition sys_link_bad :: "'z odriver \<Rightarrow> nat \<Rightarrow> ('z ftab_scheme, uint64) km" where
  "sys_link_bad rw ip =
     seq (ilock rw (Some ip)) (
     seq (set_inode ip (\<lambda>I. I\<lparr>inlink := inlink I - 1\<rparr>)) (
     seq (iupdate rw ip) (
     seq (iunlockput rw ip) (
     seq (end_op rw) (
     ret (- 1))))))"

definition sys_link :: "'z odriver \<Rightarrow> byte list \<Rightarrow> byte list \<Rightarrow> ('z ftab_scheme, uint64) km" where
  "sys_link rw junk junk' =
     bnd (argstr 0 MAXPATH) (\<lambda>old.
     if fst old < 0 then ret (- 1)
     else bnd (argstr 1 MAXPATH) (\<lambda>new.
       if fst new < 0 then ret (- 1)
       else seq begin_op (
         bnd (namei rw junk (str_of (snd old))) (\<lambda>r. case r of
           None \<Rightarrow> seq (end_op rw) (ret (- 1))
         | Some ip \<Rightarrow>
           seq (ilock rw (Some ip)) (
           bnd (get_inode ip) (\<lambda>I.
           if itype I = I_DIR then seq (iunlockput rw ip) (seq (end_op rw) (ret (- 1)))
           else
             seq (set_inode ip (\<lambda>I. I\<lparr>inlink := inlink I + 1\<rparr>)) (
             seq (iupdate rw ip) (
             seq (iunlock (Some ip)) (
             bnd (nameiparent rw (str_of (snd new)) junk') (\<lambda>(d, name). case d of
               None \<Rightarrow> sys_link_bad rw ip
             | Some dp \<Rightarrow>
               seq (ilock rw (Some dp)) (
               bnd (get_inode dp) (\<lambda>D.
               bnd (get_inode ip) (\<lambda>I.
               bnd (if idev D \<noteq> idev I then ret (- 1) else dirlink rw dp name (inum I)) (\<lambda>l.
               if l < 0 then seq (iunlockput rw dp) (sys_link_bad rw ip)
               else
                 seq (iunlockput rw dp) (
                 seq (iput rw ip) (
                 seq (end_op rw) (
                 ret 0)))))))))))))))))"

text \<open>\<open>isdirempty\<close>: the loop over the entries after the first two.\<close>

fun isdirempty_loop :: "'z odriver \<Rightarrow> nat \<Rightarrow> uint \<Rightarrow> nat \<Rightarrow> ('z ftab_scheme, bool) km" where
  "isdirempty_loop rw dp off 0 = ret True"
| "isdirempty_loop rw dp off (Suc n) =
     bnd (readi rw dp To_local off 16) (\<lambda>r.
     if fst r \<noteq> 16 then panic ''isdirempty: readi''
     else if get16 0 (snd r) \<noteq> 0 then ret False
     else isdirempty_loop rw dp (off + 16) n)"

definition isdirempty :: "'z odriver \<Rightarrow> nat \<Rightarrow> ('z ftab_scheme, bool) km" where
  "isdirempty rw dp = bnd (get_inode dp) (\<lambda>D. isdirempty_loop rw dp 32 ((unat (isize D) + 15) div 16 - 2))"

definition dot :: "byte list" where "dot = [0x2e, 0]"
definition dotdot :: "byte list" where "dotdot = [0x2e, 0x2e, 0]"

definition sys_unlink_bad :: "'z odriver \<Rightarrow> nat \<Rightarrow> ('z ftab_scheme, uint64) km" where
  "sys_unlink_bad rw dp = seq (iunlockput rw dp) (seq (end_op rw) (ret (- 1)))"

definition sys_unlink :: "'z odriver \<Rightarrow> byte list \<Rightarrow> ('z ftab_scheme, uint64) km" where
  "sys_unlink rw junk =
     bnd (argstr 0 MAXPATH) (\<lambda>path.
     if fst path < 0 then ret (- 1)
     else seq begin_op (
       bnd (nameiparent rw (str_of (snd path)) junk) (\<lambda>(d, name). case d of
         None \<Rightarrow> seq (end_op rw) (ret (- 1))
       | Some dp \<Rightarrow>
         seq (ilock rw (Some dp)) (
         if namecmp name dot = 0 \<or> namecmp name dotdot = 0 then sys_unlink_bad rw dp
         else bnd (dirlookup rw dp name) (\<lambda>r. case r of
           None \<Rightarrow> sys_unlink_bad rw dp
         | Some (ip, off) \<Rightarrow>
           seq (ilock rw (Some ip)) (
           bnd (get_inode ip) (\<lambda>I.
           if sint (inlink I) < 1 then panic ''unlink: nlink < 1''
           else bnd (if itype I = I_DIR then isdirempty rw ip else ret True) (\<lambda>empty.
             if \<not> empty then seq (iunlockput rw ip) (sys_unlink_bad rw dp)
             else bnd (writei rw dp (From_local (replicate 16 0)) off 16) (\<lambda>w.
               if w \<noteq> 16 then panic ''unlink: writei''
               else
                 bnd (get_inode ip) (\<lambda>I.
                 seq (whenM (itype I = I_DIR) (seq (set_inode dp (\<lambda>D. D\<lparr>inlink := inlink D - 1\<rparr>)) (iupdate rw dp))) (
                 seq (iunlockput rw dp) (
                 seq (set_inode ip (\<lambda>I. I\<lparr>inlink := inlink I - 1\<rparr>)) (
                 seq (iupdate rw ip) (
                 seq (iunlockput rw ip) (
                 seq (end_op rw) (
                 ret 0))))))))))))))))"

definition create_fail :: "'z odriver \<Rightarrow> nat \<Rightarrow> nat \<Rightarrow> ('z ftab_scheme, nat option) km" where
  "create_fail rw ip dp =
     seq (set_inode ip (\<lambda>I. I\<lparr>inlink := 0\<rparr>)) (
     seq (iupdate rw ip) (
     seq (iunlockput rw ip) (
     seq (iunlockput rw dp) (
     ret None))))"

text \<open>The entries \<^verbatim>\<open>.\<close> and \<^verbatim>\<open>..\<close> of a new directory; whether both were made.\<close>

definition link_dots :: "'z odriver \<Rightarrow> nat \<Rightarrow> nat \<Rightarrow> ('z ftab_scheme, bool) km" where
  "link_dots rw ip dp =
     bnd (get_inode ip) (\<lambda>I.
     bnd (dirlink rw ip dot (inum I)) (\<lambda>a.
     if a < 0 then ret False
     else bnd (get_inode dp) (\<lambda>D. bnd (dirlink rw ip dotdot (inum D)) (\<lambda>b. ret (\<not> b < 0)))))"

definition create :: "'z odriver \<Rightarrow> byte list \<Rightarrow> byte list \<Rightarrow> uint \<Rightarrow> uint16 \<Rightarrow> uint16 \<Rightarrow> ('z ftab_scheme, nat option) km" where
  "create rw junk path type major minor =
     bnd (nameiparent rw path junk) (\<lambda>(d, name). case d of None \<Rightarrow> ret None
     | Some dp \<Rightarrow>
       seq (ilock rw (Some dp)) (
       bnd (dirlookup rw dp name) (\<lambda>r. case r of
         Some (ip, _) \<Rightarrow>
           seq (iunlockput rw dp) (
           seq (ilock rw (Some ip)) (
           bnd (get_inode ip) (\<lambda>I.
           if type = I_FILE \<and> (itype I = I_FILE \<or> itype I = I_DEVICE) then ret (Some ip)
           else seq (iunlockput rw ip) (ret None))))
       | None \<Rightarrow>
           bnd (get_inode dp) (\<lambda>D.
           bnd (ialloc rw (idev D) type) (\<lambda>a. case a of
             None \<Rightarrow> seq (iunlockput rw dp) (ret None)
           | Some ip \<Rightarrow>
             seq (ilock rw (Some ip)) (
             seq (set_inode ip (\<lambda>I. I\<lparr>imajor := major, iminor := minor, inlink := 1\<rparr>)) (
             seq (iupdate rw ip) (
             bnd (if type = I_DIR then link_dots rw ip dp else ret True) (\<lambda>dots.
             if \<not> dots then create_fail rw ip dp
             else
               bnd (get_inode ip) (\<lambda>I.
               bnd (dirlink rw dp name (inum I)) (\<lambda>l.
               if l < 0 then create_fail rw ip dp
               else
                 seq (whenM (type = I_DIR) (seq (set_inode dp (\<lambda>D. D\<lparr>inlink := inlink D + 1\<rparr>)) (iupdate rw dp))) (
                 seq (iunlockput rw dp) (
                 ret (Some ip))))))))))))))"

section \<open>Opening\<close>

text \<open>\<open>sys_open\<close> after the inode \<open>ip\<close> has been found and locked.\<close>

definition sys_open_fail :: "'z odriver \<Rightarrow> nat \<Rightarrow> ('z ftab_scheme, uint64) km" where
  "sys_open_fail rw ip = seq (iunlockput rw ip) (seq (end_op rw) (ret (- 1)))"

definition sys_open_file :: "'z odriver \<Rightarrow> uint \<Rightarrow> nat \<Rightarrow> ('z ftab_scheme, uint64) km" where
  "sys_open_file rw omode ip =
     bnd (get_inode ip) (\<lambda>I.
     if itype I = I_DEVICE \<and> (sint (imajor I) < 0 \<or> sint (imajor I) \<ge> NDEV) then sys_open_fail rw ip
     else bnd filealloc (\<lambda>a. case a of None \<Rightarrow> sys_open_fail rw ip
     | Some f \<Rightarrow>
       bnd (fdalloc f) (\<lambda>d. case d of None \<Rightarrow> seq (fileclose rw f) (sys_open_fail rw ip)
       | Some fd \<Rightarrow>
         bnd (get_inode ip) (\<lambda>I.
         seq (if itype I = I_DEVICE then set_file f (\<lambda>F. F\<lparr>ftype := F_DEVICE, fmajor := sint (imajor I)\<rparr>)
              else set_file f (\<lambda>F. F\<lparr>ftype := F_INODE, foff := 0\<rparr>)) (
         seq (set_file f (\<lambda>F. F\<lparr>fip := Some ip, is_readable := (omode AND O_WRONLY = 0),
           is_writable := (omode AND O_WRONLY \<noteq> 0 \<or> omode AND O_RDWR \<noteq> 0)\<rparr>)) (
         seq (whenM (omode AND O_TRUNC \<noteq> 0 \<and> itype I = I_FILE) (itrunc rw ip)) (
         seq (iunlock (Some ip)) (
         seq (end_op rw) (
         ret (of_nat fd)))))))))) "

definition sys_open :: "'z odriver \<Rightarrow> byte list \<Rightarrow> ('z ftab_scheme, uint64) km" where
  "sys_open rw junk =
     bnd (argint 1) (\<lambda>om.
     let omode = word_of_int om :: uint in
     bnd (argstr 0 MAXPATH) (\<lambda>path.
     if fst path < 0 then ret (- 1)
     else seq begin_op (
       if omode AND O_CREATE \<noteq> 0
       then bnd (create rw junk (str_of (snd path)) I_FILE 0 0) (\<lambda>r. case r of
           None \<Rightarrow> seq (end_op rw) (ret (- 1))
         | Some ip \<Rightarrow> sys_open_file rw omode ip)
       else bnd (namei rw junk (str_of (snd path))) (\<lambda>r. case r of
           None \<Rightarrow> seq (end_op rw) (ret (- 1))
         | Some ip \<Rightarrow>
           seq (ilock rw (Some ip)) (
           bnd (get_inode ip) (\<lambda>I.
           if itype I = I_DIR \<and> omode \<noteq> O_RDONLY then sys_open_fail rw ip
           else sys_open_file rw omode ip))))))"

text \<open>\<open>sys_mkdir\<close> and \<open>sys_mknod\<close> once the path is known.\<close>

definition sys_make :: "'z odriver \<Rightarrow> byte list \<Rightarrow> int \<times> byte list \<Rightarrow> uint \<Rightarrow> uint16 \<Rightarrow> uint16 \<Rightarrow> ('z ftab_scheme, uint64) km" where
  "sys_make rw junk path type major minor =
     bnd (if fst path < 0 then ret None else create rw junk (str_of (snd path)) type major minor) (\<lambda>r. case r of
       None \<Rightarrow> seq (end_op rw) (ret (- 1))
     | Some ip \<Rightarrow> seq (iunlockput rw ip) (seq (end_op rw) (ret 0)))"

definition sys_mkdir :: "'z odriver \<Rightarrow> byte list \<Rightarrow> ('z ftab_scheme, uint64) km" where
  "sys_mkdir rw junk =
     seq begin_op (
     bnd (argstr 0 MAXPATH) (\<lambda>path.
     sys_make rw junk path I_DIR 0 0))"

definition sys_mknod :: "'z odriver \<Rightarrow> byte list \<Rightarrow> ('z ftab_scheme, uint64) km" where
  "sys_mknod rw junk =
     seq begin_op (
     bnd (argint 1) (\<lambda>major.
     bnd (argint 2) (\<lambda>minor.
     bnd (argstr 0 MAXPATH) (\<lambda>path.
     sys_make rw junk path I_DEVICE (word_of_int major) (word_of_int minor)))))"

definition sys_chdir :: "'z odriver \<Rightarrow> byte list \<Rightarrow> ('z ftab_scheme, uint64) km" where
  "sys_chdir rw junk =
     bnd this_proc (\<lambda>i.
     seq begin_op (
     bnd (argstr 0 MAXPATH) (\<lambda>path.
     bnd (if fst path < 0 then ret None else namei rw junk (str_of (snd path))) (\<lambda>r. case r of
       None \<Rightarrow> seq (end_op rw) (ret (- 1))
     | Some ip \<Rightarrow>
       seq (ilock rw (Some ip)) (
       bnd (get_inode ip) (\<lambda>I.
       if itype I \<noteq> I_DIR then seq (iunlockput rw ip) (seq (end_op rw) (ret (- 1)))
       else
         seq (iunlock (Some ip)) (
         bnd (get_proc i) (\<lambda>p.
         seq (case cwd p of None \<Rightarrow> panic ''kerneltrap'' | Some k \<Rightarrow> iput rw k) (
         seq (end_op rw) (
         seq (set_proc i (\<lambda>p. p\<lparr>cwd := Some ip\<rparr>)) (
         ret 0)))))))))))"

section \<open>exec and pipe\<close>

fun free_args :: "(nat \<Rightarrow> addr) \<Rightarrow> nat \<Rightarrow> nat \<Rightarrow> ('z ftab_scheme, unit) km" where
  "free_args argv i 0 = ret ()"
| "free_args argv i (Suc n) =
     (if argv i \<noteq> 0 then seq (kfree (argv i)) (free_args argv (Suc i) n) else ret ())"

text \<open>
  The loop of \<open>sys_exec\<close>, which fetches the same word of the user's array in every round. The array \<open>argv\<close> is not initialised:
  its entries are arbitrary until the loop sets them. The result says whether the loop ended at a null pointer.
\<close>

fun exec_argv :: "uint64 \<Rightarrow> (nat \<Rightarrow> addr) \<Rightarrow> nat \<Rightarrow> nat \<Rightarrow> ('z ftab_scheme, bool \<times> (nat \<Rightarrow> addr)) km" where
  "exec_argv uargv argv i 0 = ret (False, argv)"
| "exec_argv uargv argv i (Suc n) =
     bnd (fetchaddr (uargv + 8 * 1)) (\<lambda>(r, uarg).
     if r < 0 then ret (False, argv)
     else if uarg = 0 then ret (True, argv(i := 0))
     else bnd kalloc (\<lambda>pg.
       if pg = 0 then ret (False, argv(i := 0))
       else bnd (fetchstr uarg 4096) (\<lambda>(l, bs).
         seq (store_bytes pg bs) (
         if l < 0 then ret (False, argv(i := pg))
         else exec_argv uargv (argv(i := pg)) (Suc i) n))))"

definition sys_exec :: "'z odriver \<Rightarrow> byte list \<Rightarrow> (nat \<Rightarrow> addr) \<Rightarrow> ('z ftab_scheme, uint64) km" where
  "sys_exec rw junk argv0 =
     bnd (argaddr 1) (\<lambda>uargv.
     bnd (argstr 0 MAXPATH) (\<lambda>path.
     if fst path < 0 then ret (- 1)
     else bnd (exec_argv uargv argv0 0 MAXARG) (\<lambda>(ok, argv).
       if \<not> ok then seq (free_args argv 0 MAXARG) (ret (- 1))
       else bnd (exec rw junk (str_of (snd path)) argv) (\<lambda>r.
         seq (free_args argv 0 MAXARG) (
         ret (word_of_int r))))))"

definition sys_pipe :: "'z odriver \<Rightarrow> ('z ftab_scheme, uint64) km" where
  "sys_pipe rw =
     bnd this_proc (\<lambda>i.
     bnd (argaddr 0) (\<lambda>fdarray.
     bnd (pipealloc rw) (\<lambda>r. case r of None \<Rightarrow> ret (- 1)
     | Some (f0, f1) \<Rightarrow>
       bnd (fdalloc f0) (\<lambda>d0. case d0 of
         None \<Rightarrow> seq (fileclose rw f0) (seq (fileclose rw f1) (ret (- 1)))
       | Some fd0 \<Rightarrow>
         bnd (fdalloc f1) (\<lambda>d1. case d1 of
           None \<Rightarrow> seq (clear_fd fd0) (seq (fileclose rw f0) (seq (fileclose rw f1) (ret (- 1))))
         | Some fd1 \<Rightarrow>
           bnd (get_proc i) (\<lambda>p.
           bnd (copyout (pagetable p) fdarray (int_bytes (int fd0)) 4) (\<lambda>a.
           bnd (if a < 0 then ret a else copyout (pagetable p) (fdarray + 4) (int_bytes (int fd1)) 4) (\<lambda>b.
           if b < 0 then seq (clear_fd fd0) (seq (clear_fd fd1) (seq (fileclose rw f0) (seq (fileclose rw f1) (ret (- 1)))))
           else ret 0))))))))"

end
