(* ===== verification/Frame.thy ===== *)
theory Frame
  imports File Dir
begin

text \<open>
  What the routines below the system calls leave alone, whatever path they return on: the table of open files, the
  descriptors and working directories of the processes, and the number of transactions that are open. \<open>fr s t\<close> relates
  the states before and after; \<open>kept m\<close> says that every return of \<open>m\<close> is so related. The rules in \<open>kept\<close> follow the
  structure of the code; a loop is one induction. No assumption on the state is needed: a call that panics, spins or
  gives up the processor does not return.
\<close>

named_theorems kept_rules \<open>routines that keep the file table and the transactions\<close>

definition fr :: "'z ftab_scheme \<Rightarrow> 'z ftab_scheme \<Rightarrow> bool" where
  "fr s t \<longleftrightarrow> files t = files s \<and> (\<forall>i. ofile (procs t i) = ofile (procs s i) \<and> cwd (procs t i) = cwd (procs s i)) \<and>
     outstanding (lg t) = outstanding (lg s) \<and> (0 \<le> lh_n (lh (lg s)) \<longrightarrow> 0 \<le> lh_n (lh (lg t)))"

definition kept :: "('z ftab_scheme, 'a) km \<Rightarrow> bool" where
  "kept m \<longleftrightarrow> (\<forall>s a t. m s = Ok a t \<longrightarrow> fr s t)"

lemma fr_refl [simp, intro!]: "fr s s"
  by (simp add: fr_def)

lemma fr_trans: "fr s t \<Longrightarrow> fr t u \<Longrightarrow> fr s u"
  by (simp add: fr_def)

lemma fr_upd [simp]:
  "fr s (s\<lparr>sync := y\<rparr>)" "fr s (s\<lparr>mem := m\<rparr>)" "fr s (s\<lparr>freelist := a\<rparr>)" "fr s (s\<lparr>nextpid := n\<rparr>)" "fr s (s\<lparr>initproc := ip\<rparr>)"
  "fr s (s\<lparr>sleeplocks := sl\<rparr>)" "fr s (s\<lparr>bufs := bf\<rparr>)" "fr s (s\<lparr>md := d\<rparr>)" "fr s (s\<lparr>sb := S\<rparr>)" "fr s (s\<lparr>inodes := T\<rparr>)" "fr s (s\<lparr>pipes := q\<rparr>)"
  by (simp_all add: fr_def)

lemma keptD: "kept m \<Longrightarrow> m s = Ok a t \<Longrightarrow> fr s t"
  by (simp add: kept_def)

lemma kept_bnd [kept_rules]: "kept m \<Longrightarrow> (\<And>a. kept (f a)) \<Longrightarrow> kept (bnd m f)"
  unfolding kept_def bnd_Ok_iff by (blast intro: fr_trans)

lemma kept_seq [kept_rules]: "kept m \<Longrightarrow> kept n \<Longrightarrow> kept (seq m n)"
  unfolding seq_def by (rule kept_bnd)

lemma kept_basic [kept_rules]:
  "kept (ret a)" "kept (Ok a)" "kept (panic e)" "kept spin" "kept (gets g)" "kept Swtch"
  by (simp_all add: kept_def)

lemma kept_modify: "(\<And>s. fr s (f s)) \<Longrightarrow> kept (modify f)"
  by (auto simp: kept_def)

lemma kept_if [kept_rules]: "(c \<Longrightarrow> kept m) \<Longrightarrow> (\<not> c \<Longrightarrow> kept n) \<Longrightarrow> kept (if c then m else n)"
  by simp

lemma kept_whenM [kept_rules]: "kept m \<Longrightarrow> kept (whenM c m)"
  by (simp add: whenM_def kept_basic)

lemma kept_option [kept_rules]: "kept m \<Longrightarrow> (\<And>x. kept (f x)) \<Longrightarrow> kept (case o' of None \<Rightarrow> m | Some x \<Rightarrow> f x)"
  by (cases o') simp_all

lemma kept_prod [kept_rules]: "(\<And>x y. kept (f x y)) \<Longrightarrow> kept (case p of (x, y) \<Rightarrow> f x y)"
  by (cases p) simp

lemma kept_sum [kept_rules]: "(\<And>x. kept (f x)) \<Longrightarrow> (\<And>y. kept (g y)) \<Longrightarrow> kept (case p of Inl x \<Rightarrow> f x | Inr y \<Rightarrow> g y)"
  by (cases p) simp_all

lemma kept_Let [kept_rules]: "kept (f x) \<Longrightarrow> kept (Let x f)"
  by simp

section \<open>Locks, memory, page tables\<close>

lemma kept_locks [kept_rules]:
  "kept cpuid" "kept mycpu" "kept (set_mycpu f)" "kept r_sstatus" "kept (w_sstatus x)" "kept (holding l)" "kept (set_lock l g)"
  by (auto simp: cpuid_def mycpu_def set_mycpu_def r_sstatus_def w_sstatus_def holding_def set_lock_def intro!: kept_basic kept_modify)

lemma kept_sync [kept_rules]:
  "kept intr_on" "kept intr_off" "kept intr_get" "kept (initlock l nm)" "kept critical_enter" "kept critical_exit" "kept (acquire l)" "kept (release l)"
  "kept myproc"
  unfolding intr_on_def intr_off_def intr_get_def initlock_def critical_enter_def critical_exit_def acquire_def release_def myproc_def
  by (intro kept_rules)+

lemma kept_memory [kept_rules]:
  "kept (load64 a)" "kept (store64 a v)" "kept (memsetM a c n)" "kept (memmoveM a b n)" "kept (store_bytes a bs)" "kept (load_bytes a k)"
  by (auto simp: load64_def store64_def memsetM_def memmoveM_def store_bytes_def load_bytes_def intro!: kept_basic kept_modify)

lemma kept_kalloc [kept_rules]: "kept kalloc" "kept (kfree p)"
  unfolding kalloc_def kfree_def by (intro kept_rules kept_modify fr_upd)+

lemma kept_walk [kept_rules]: "kept (walk pt va al)"
proof -
  have "kept (walk_loop l pt va al)" for l pt
    by (induction l arbitrary: pt) (auto intro!: kept_rules)
  then show ?thesis unfolding walk_def by (intro kept_rules)
qed

text \<open>For the loops that are recursive in the state: the same, for the outcome of one run.\<close>

definition okf :: "'z ftab_scheme \<Rightarrow> ('z ftab_scheme, 'a) outcome \<Rightarrow> bool" where
  "okf s out \<longleftrightarrow> (\<forall>a t. out = Ok a t \<longrightarrow> fr s t)"

lemma okf_kept: "kept m \<Longrightarrow> fr s u \<Longrightarrow> okf s (m u)"
  unfolding okf_def kept_def by (blast intro: fr_trans)

lemma okf_bnd: "kept m \<Longrightarrow> fr s u \<Longrightarrow> (\<And>a t. m u = Ok a t \<Longrightarrow> fr s t \<Longrightarrow> okf s (f a t)) \<Longrightarrow> okf s (bnd m f u)"
  unfolding okf_def kept_def bnd_Ok_iff by (metis fr_trans)

lemma okf_if: "(c \<Longrightarrow> okf s m) \<Longrightarrow> (\<not> c \<Longrightarrow> okf s n) \<Longrightarrow> okf s (if c then m else n)"
  by simp

lemma okf_trans: "fr s t \<Longrightarrow> okf t out \<Longrightarrow> okf s out"
  unfolding okf_def by (blast intro: fr_trans)

lemma kept_okf: "(\<And>s. okf s (m s)) \<Longrightarrow> kept m"
  by (simp add: okf_def kept_def)

lemmas okf_rules = okf_if okf_bnd

lemma okf_mappages: "okf s (mappages_loop pt a l pa perm s)"
proof (induction pt a l pa perm s rule: mappages_loop.induct)
  case (1 pt a l pa perm s)
  show ?case
    by (subst mappages_loop.simps)
      (rule okf_rules kept_rules fr_refl | assumption | (rule okf_trans, assumption, rule "1"; assumption) | rule okf_kept)+
qed

lemma kept_mappages [kept_rules]: "kept (mappages pt va pa n perm)"
  unfolding mappages_def by (intro kept_rules kept_okf okf_mappages)

lemma okf_uvmunmap: "okf s (uvmunmap_loop pt a e f s)"
proof (induction pt a e f s rule: uvmunmap_loop.induct)
  case (1 pt a e f s)
  show ?case
    by (subst uvmunmap_loop.simps)
      (rule okf_rules kept_rules fr_refl | assumption | (rule okf_trans, assumption, rule "1"; assumption) | rule okf_kept)+
qed

lemma kept_uvmunmap [kept_rules]: "kept (uvmunmap pt va n f)"
  unfolding uvmunmap_def by (intro kept_rules kept_okf okf_uvmunmap)

lemma kept_walkaddr [kept_rules]: "kept (walkaddr pt va)"
  unfolding walkaddr_def by (intro kept_rules)

lemma okf_copyout: "okf s (copyout pt d src n s)"
proof (induction pt d src n s rule: copyout.induct)
  case (1 pt d src n s)
  show ?case
    by (subst copyout.simps)
      (rule okf_rules kept_rules fr_refl | assumption | (rule okf_trans, assumption, rule "1"; assumption) | rule okf_kept)+
qed

lemma okf_copyin: "okf s (copyin pt d n dst s)"
proof (induction pt d n dst s rule: copyin.induct)
  case (1 pt d n dst s)
  show ?case
    by (subst copyin.simps)
      (rule okf_rules kept_rules fr_refl | assumption | (rule okf_trans, assumption, rule "1"; assumption) | rule okf_kept)+
qed

lemma okf_copyinstr: "okf s (copyinstr pt d n dst s)"
proof (induction pt d n dst s rule: copyinstr.induct)
  case (1 pt d n dst s)
  show ?case
    by (subst copyinstr.simps)
      (rule okf_rules kept_rules fr_refl | assumption | (rule okf_trans, assumption, rule "1"; assumption) | rule okf_kept)+
qed

lemma kept_copy [kept_rules]: "kept (copyout pt d src n)" "kept (copyin pt d n dst)" "kept (copyinstr pt d n dst)"
  by (intro kept_okf okf_copyout okf_copyin okf_copyinstr)+

lemma kept_freewalk [kept_rules]: "kept (freewalk pt)"
proof -
  have l: "kept (freewalk_loop rec pt i n)" if "\<And>p. kept (rec p)" for rec pt i n
    by (induction n arbitrary: i) (auto intro!: kept_rules that)
  have "kept (freewalk_rec d pt)" for d pt
    by (induction d arbitrary: pt) (auto intro!: kept_rules l)
  then show ?thesis by (simp add: freewalk_def)
qed

lemma kept_uvm [kept_rules]:
  "kept uvmcreate" "kept (uvmfree pt n)" "kept (uvmdealloc pt a b)" "kept (uvmclear pt va)" "kept (uvmcopy_err pt i)" "kept (uvmfirst pt src)"
  unfolding uvmcreate_def uvmfree_def uvmdealloc_def uvmclear_def uvmcopy_err_def uvmfirst_def by (intro kept_rules)+

lemma okf_uvmcopy: "okf s (uvmcopy_loop old new n i s)"
proof (induction old new n i s rule: uvmcopy_loop.induct)
  case (1 old new n i s)
  show ?case
    by (subst uvmcopy_loop.simps)
      (rule okf_rules kept_rules fr_refl | assumption | (rule okf_trans, assumption, rule "1"; assumption) | rule okf_kept)+
qed

lemma okf_uvmalloc: "okf s (uvmalloc_loop pt a n x b s)"
proof (induction pt a n x b s rule: uvmalloc_loop.induct)
  case (1 pt a n x b s)
  show ?case
    by (subst uvmalloc_loop.simps)
      (rule okf_rules kept_rules fr_refl | assumption | (rule okf_trans, assumption, rule "1"; assumption) | rule okf_kept)+
qed

lemma kept_uvmcopy [kept_rules]: "kept (uvmcopy old new n)" "kept (uvmalloc pt a n x)"
  unfolding uvmcopy_def uvmalloc_def by (intro kept_rules kept_okf okf_uvmcopy okf_uvmalloc)+

section \<open>Processes and sleep locks\<close>

lemma kept_get [kept_rules]: "kept (get_proc i)" "kept (get_buf b)" "kept get_log" "kept (get_inode k)" "kept (get_pipe a)" "kept (get_file f)" "kept (bload b)"
  by (auto simp: get_proc_def get_buf_def get_log_def get_inode_def get_pipe_def get_file_def bload_def intro!: kept_rules)

lemma kept_set [kept_rules]:
  "kept (set_sleeplock l g)" "kept (set_buf b h)" "kept (set_inode k h')" "kept (set_pipe p q)" "kept (bstore b d)"
  by (auto simp: set_sleeplock_def set_buf_def set_inode_def set_pipe_def bstore_def intro!: kept_modify)

lemma kept_set_proc [kept_rules]: "(\<And>p. ofile (f p) = ofile p) \<Longrightarrow> (\<And>p. cwd (f p) = cwd p) \<Longrightarrow> kept (set_proc i f)"
  unfolding set_proc_def by (rule kept_modify) (simp add: fr_def)

lemma kept_this_proc [kept_rules]: "kept this_proc"
  unfolding this_proc_def by (intro kept_rules)

lemma kept_wakeup [kept_rules]: "kept (wakeup ch)"
proof -
  have "kept (wakeup_loop ch i n)" for i n
    by (induction n arbitrary: i) (auto intro!: kept_rules)
  then show ?thesis by (simp add: wakeup_def)
qed

lemma kept_proc [kept_rules]:
  "kept sched" "kept (sleep ch l)" "kept (killed i)" "kept (setkilled i)" "kept (either_copyout u d src n)" "kept (either_copyin u d n)"
  unfolding sched_def sleep_def sleep_stmts_def run_stmts.simps killed_def setkilled_def either_copyout_def either_copyin_def
  by (intro kept_rules; simp)+

lemma kept_sleeplock [kept_rules]: "kept (acquiresleep l)" "kept (releasesleep l)" "kept (is_holdingsleep l)"
  unfolding acquiresleep_def acquiresleep_loop_def releasesleep_def is_holdingsleep_def by (intro kept_rules)+

section \<open>Disk blocks and the log\<close>

lemma kept_walk_result [kept_rules]:
  "kept m \<Longrightarrow> (\<And>b. kept (f b)) \<Longrightarrow> kept n \<Longrightarrow> kept (case r of Absent \<Rightarrow> m | Found b \<Rightarrow> f b | Endless \<Rightarrow> n)"
  by (cases r) simp_all

lemma kept_buffers [kept_rules]: "kept (bget dev n)" "kept (bpin b)" "kept (bunpin b)" "kept (brelse b)"
  unfolding bget_def bpin_def bunpin_def brelse_def by (intro kept_rules kept_modify fr_upd)+

lemma kept_set_log:
  "(\<And>L. outstanding (g L) = outstanding L) \<Longrightarrow> (\<And>L. 0 \<le> lh_n (lh L) \<Longrightarrow> 0 \<le> lh_n (lh (g L))) \<Longrightarrow> kept (set_log g)"
  unfolding set_log_def by (rule kept_modify) (simp add: fr_def)

lemma log_fields [simp]:
  "outstanding (set_lh_n n L) = outstanding L" "lh_n (lh (set_lh_n n L)) = n"
  "outstanding (set_lh_block i b L) = outstanding L" "lh_n (lh (set_lh_block i b L)) = lh_n (lh L)"
  by (simp_all add: set_lh_n_def set_lh_block_def)

lemma kept_log_write [kept_rules]: "kept (log_write b)"
  unfolding log_write_def by (intro kept_rules kept_set_log; simp)

text \<open>The contract of the disk driver: it keeps what the file table and the log count.\<close>

locale kept_driver =
  fixes rw :: "'z odriver"
  assumes rw_kept [kept_rules]: "kept (rw b w)"
begin

lemma kept_bio [kept_rules]: "kept (bread rw dev n)" "kept (bwrite rw b)"
  unfolding bread_def bwrite_def by (intro kept_rules)+

lemma kept_head [kept_rules]: "kept (write_head rw)"
  unfolding write_head_def by (intro kept_rules)

lemma kept_install [kept_rules]: "kept (install_trans rw r)"
proof -
  have "kept (install_loop rw r k n)" for k n
    by (induction n arbitrary: k) (auto intro!: kept_rules)
  then show ?thesis unfolding install_trans_def by (intro kept_rules)
qed

lemma kept_write_log [kept_rules]: "kept (write_log rw)"
proof -
  have "kept (write_log_loop rw k n)" for k n
    by (induction n arbitrary: k) (auto intro!: kept_rules)
  then show ?thesis unfolding write_log_def by (intro kept_rules)
qed

lemma kept_commit [kept_rules]: "kept (commit rw)"
  unfolding commit_def by (intro kept_rules kept_set_log; simp)

lemma kept_blocks [kept_rules]: "kept (bzero rw dev n)" "kept (bfree rw dev n)" "kept (balloc rw dev)"
proof -
  show z: "kept (bzero rw dev n)" for n unfolding bzero_def by (intro kept_rules)
  show "kept (bfree rw dev n)" unfolding bfree_def by (intro kept_rules)
  have "kept (balloc_loop rw dev b k)" for b k
    by (induction k arbitrary: b) (auto intro!: kept_rules z split: option.split)
  then show "kept (balloc rw dev)" unfolding balloc_def by (intro kept_rules)
qed

lemma kept_inode_table [kept_rules]: "kept (iget dev i)" "kept (idup k)" "kept (iunlock ip)" "kept (set_addr k j a)" "kept (stati k)"
  unfolding iget_def idup_def iunlock_def set_addr_def stati_def by (intro kept_rules)+

lemma kept_inode_disk [kept_rules]: "kept (iupdate rw k)" "kept (ilock rw ip)"
  unfolding iupdate_def ilock_def by (intro kept_rules)+

lemma kept_ialloc [kept_rules]: "kept (ialloc rw dev ty)"
proof -
  have "kept (ialloc_loop rw dev ty i n)" for i n
    by (induction n arbitrary: i) (auto intro!: kept_rules simp: Let_def)
  then show ?thesis unfolding ialloc_def by (intro kept_rules)
qed

lemma kept_bmap [kept_rules]: "kept (bmap rw k bn)"
  unfolding bmap_def bmap_indirect_def by (intro kept_rules)

lemma kept_itrunc [kept_rules]: "kept (itrunc rw k)"
proof -
  have d: "kept (itrunc_direct rw k j n)" for j n
    by (induction n arbitrary: j) (auto intro!: kept_rules)
  have i: "kept (itrunc_indirect rw dev bp j n)" for dev bp j n
    by (induction n arbitrary: j) (auto intro!: kept_rules)
  show ?thesis unfolding itrunc_def by (intro kept_rules d i)
qed

lemma kept_iput [kept_rules]: "kept (iput rw k)" "kept (iunlockput rw k)"
  unfolding iput_def iunlockput_def by (intro kept_rules)+

lemma kept_copy_ends [kept_rules]: "kept (copy_to dst tot bs)" "kept (copy_from src tot m)"
  unfolding copy_to_def copy_from_def by (cases dst; auto intro!: kept_rules) (cases src; auto intro!: kept_rules)

lemma okf_readi: "drv = rw \<Longrightarrow> okf s (readi_loop drv k dst off left tot acc s)"
proof (induction drv k dst off left tot acc s rule: readi_loop.induct)
  case (1 drv k dst off left tot acc s)
  note IH = "1.IH" [unfolded "1.prems"]
  show ?case unfolding "1.prems"
    by (subst readi_loop.simps)
      (rule okf_rules kept_rules fr_refl | assumption | (rule okf_trans, assumption, rule IH; (assumption | rule refl)) | rule okf_kept)+
qed

lemma okf_writei: "drv = rw \<Longrightarrow> okf s (writei_loop drv k src off left tot s)"
proof (induction drv k src off left tot s rule: writei_loop.induct)
  case (1 drv k src off left tot s)
  note IH = "1.IH" [unfolded "1.prems"]
  show ?case unfolding "1.prems"
    by (subst writei_loop.simps)
      (rule okf_rules kept_rules fr_refl | assumption | (rule okf_trans, assumption, rule IH; (assumption | rule refl)) | rule okf_kept)+
qed

lemma kept_file_io [kept_rules]: "kept (readi rw k dst off n)" "kept (writei rw k src off n)"
  unfolding readi_def writei_def by (intro kept_rules kept_okf okf_readi okf_writei refl)+

lemma kept_dirlookup [kept_rules]: "kept (dirlookup rw dp name)"
proof -
  have "kept (dirlookup_loop rw dp name off n)" for off n
    by (induction n arbitrary: off) (auto intro!: kept_rules simp: Let_def)
  then show ?thesis unfolding dirlookup_def by (intro kept_rules)
qed

lemma kept_dirlink [kept_rules]: "kept (dirlink rw dp name i)"
proof -
  have "kept (dirlink_scan rw dp off n)" for off n
    by (induction n arbitrary: off) (auto intro!: kept_rules)
  then show ?thesis unfolding dirlink_def by (intro kept_rules)
qed

lemma okf_option: "(x = None \<Longrightarrow> okf s m) \<Longrightarrow> (\<And>y. x = Some y \<Longrightarrow> okf s (f y)) \<Longrightarrow> okf s (case x of None \<Rightarrow> m | Some y \<Rightarrow> f y)"
  by (cases x) simp_all

lemma okf_pair: "(\<And>y z. x = (y, z) \<Longrightarrow> okf s (f y z)) \<Longrightarrow> okf s (case x of (y, z) \<Rightarrow> f y z)"
  by (cases x) simp

lemma okf_namex: "drv = rw \<Longrightarrow> okf s (namex_loop drv ip path np name s)"
proof (induction drv ip path np name s rule: namex_loop.induct)
  case (1 drv ip path np name s)
  note IH = "1.IH" [unfolded "1.prems"]
  show ?case unfolding "1.prems"
    by (subst namex_loop.simps)
      (rule okf_rules okf_option okf_pair kept_rules fr_refl | assumption
        | (rule okf_trans, assumption, rule IH; (assumption | rule refl | simp)) | rule okf_kept)+
qed

lemma kept_names [kept_rules]: "kept (namei rw junk path)" "kept (nameiparent rw path name)"
  unfolding namei_def nameiparent_def namex_def by (intro kept_rules kept_okf okf_namex refl)+

end

section \<open>The disk driver\<close>

lemma kept_md [kept_rules]: "kept get_md" "kept (set_md f)" "kept (w_reg r v)"
  by (auto simp: get_md_def set_md_def w_reg_def intro!: kept_rules kept_modify)

lemma kept_desc [kept_rules]: "kept alloc3_desc" "kept (free_chain i)"
proof -
  have a: "kept alloc_desc"
  proof -
    have "kept (alloc_desc_loop i n)" for i n
      by (induction n arbitrary: i) (auto intro!: kept_rules)
    then show ?thesis by (simp add: alloc_desc_def)
  qed
  have f: "kept (free_desc i)" for i unfolding free_desc_def by (intro kept_rules)
  have fs: "kept (free_descs is)" for "is" by (induction "is") (auto intro!: kept_rules f)
  have "kept (alloc3_loop n is)" for n "is"
    by (induction n arbitrary: "is") (auto intro!: kept_rules a fs)
  then show "kept alloc3_desc" by (simp add: alloc3_desc_def)
  have "kept (free_chain_loop n i)" for n i
    by (induction n arbitrary: i) (auto intro!: kept_rules f simp: Let_def)
  then show "kept (free_chain i)" unfolding free_chain_def .
qed

lemma kept_virtio: "kept (virtio_disk_rw b w)"
proof -
  have r: "kept (fill_request b w sec i0 i1 i2)" for sec i0 i1 i2 unfolding fill_request_def by (intro kept_rules)
  have "kept (virtio_submit b w)" unfolding virtio_submit_def Let_def
    by (intro kept_rules) (auto intro!: kept_rules r split: list.split)
  then show ?thesis unfolding virtio_disk_rw_def virtio_finish_def by (intro kept_rules)
qed

interpretation virtio: kept_driver virtio_disk_rw
  by unfold_locales (rule kept_virtio)

end
