(* ===== verification/Balance.thy ===== *)
theory Balance
  imports Sysfile Frame
begin

text \<open>
  Transactions are balanced: on every path on which a system call of \<^verbatim>\<open>kernel/src/sysfile.c\<close>, \<open>exec\<close> or \<open>fork\<close>
  returns, error paths included, it has closed the transaction it opened. \<open>opens d m\<close> says that every return of \<open>m\<close>
  leaves \<open>d\<close> more transactions open than before. The exception is \<open>filewrite\<close> on an inode, whose loop opens one in every
  round; \<open>fuel\<close> 4 is shown to be enough for it.
\<close>

section \<open>Counting transactions\<close>

named_theorems opens_rules \<open>transactions opened by a routine\<close>

definition opens :: "int \<Rightarrow> ('z ftab_scheme, 'a) km \<Rightarrow> bool" where
  "opens d m \<longleftrightarrow> (\<forall>s a t. m s = Ok a t \<longrightarrow>
     outstanding (lg t) = outstanding (lg s) + d \<and> (0 \<le> lh_n (lh (lg s)) \<longrightarrow> 0 \<le> lh_n (lh (lg t))))"

lemma opens_kept: "kept m \<Longrightarrow> opens 0 m"
  unfolding opens_def kept_def fr_def by fastforce

lemma opens_bnd: "opens c m \<Longrightarrow> (\<And>a. opens d (f a)) \<Longrightarrow> opens (c + d) (bnd m f)"
  unfolding opens_def bnd_Ok_iff by (metis add.assoc)

text \<open>A first step that opens nothing, that opens a transaction, or that closes one.\<close>

lemma opens_bnd0: "opens 0 m \<Longrightarrow> (\<And>a. opens d (f a)) \<Longrightarrow> opens d (bnd m f)"
  using opens_bnd [of 0 m d f] by simp

lemma opens_seq0: "opens 0 m \<Longrightarrow> opens d n \<Longrightarrow> opens d (seq m n)"
  unfolding seq_def by (rule opens_bnd0)

lemma opens_seq: "opens c m \<Longrightarrow> opens (d - c) n \<Longrightarrow> opens d (seq m n)"
  unfolding seq_def using opens_bnd [of c m "d - c" "\<lambda>_. n"] by simp

lemma opens_never [opens_rules]: "opens d (panic e)" "opens d spin" "opens d Swtch"
  by (simp_all add: opens_def)

lemma opens_if [opens_rules]: "(c \<Longrightarrow> opens d m) \<Longrightarrow> (\<not> c \<Longrightarrow> opens d n) \<Longrightarrow> opens d (if c then m else n)"
  by simp

lemma opens_option [opens_rules]: "opens d m \<Longrightarrow> (\<And>x. opens d (f x)) \<Longrightarrow> opens d (case p of None \<Rightarrow> m | Some x \<Rightarrow> f x)"
  by (cases p) simp_all

lemma opens_prod [opens_rules]: "(\<And>x y. opens d (f x y)) \<Longrightarrow> opens d (case p of (x, y) \<Rightarrow> f x y)"
  by (cases p) simp

lemma opens_Let [opens_rules]: "opens d (f x) \<Longrightarrow> opens d (Let x f)"
  by simp

lemma sched_never: "sched s \<noteq> Ok a t"
  by (auto simp: sched_def bnd_Ok_iff split: if_splits)

lemma opens_sleep [opens_rules]: "opens d (sleep ch l)"
  by (auto simp: opens_def sleep_def sleep_stmts_def seq_def bnd_Ok_iff sched_never)

lemma opens_set_log: "(\<And>L. outstanding (g L) = outstanding L + d) \<Longrightarrow> (\<And>L. lh (g L) = lh L) \<Longrightarrow> opens d (set_log g)"
  by (auto simp: opens_def set_log_def)

lemma opens_begin_op: "opens 1 begin_op"
  unfolding begin_op_def begin_op_loop_def
  by (rule opens_seq0 [OF opens_kept [OF kept_sync(7)]], rule opens_bnd0 [OF opens_kept [OF kept_get(3)]])
    (intro opens_rules opens_seq [of 1] opens_set_log opens_kept, simp_all add: opens_kept kept_sync)

context kept_driver
begin

lemma opens_end_op: "opens (- 1) (end_op rw)"
  unfolding end_op_def
  apply (rule opens_seq0 [OF opens_kept [OF kept_sync(7)]])
  apply (rule opens_seq [of "- 1"])
   apply (rule opens_set_log; simp)
  apply simp
  apply (intro opens_kept kept_rules kept_set_log; simp)
  done

lemmas opens_step = opens_bnd0 [OF opens_kept] opens_seq0 [OF opens_kept]

text \<open>The transaction is opened first, and its end is one of the last steps.\<close>

lemma opens_enclosed: "opens (- 1) n \<Longrightarrow> opens 0 (seq begin_op n)"
  by (rule opens_seq [OF opens_begin_op]) simp

lemma opens_closed: "opens 0 n \<Longrightarrow> opens (- 1) (seq (end_op rw) n)"
  by (rule opens_seq [OF opens_end_op]) simp

lemma opens_set_proc [opens_rules]: "opens 0 (set_proc i g)"
  by (auto simp: opens_def set_proc_def)

lemma opens_set_file [opens_rules]: "opens 0 (set_file f g)"
  by (auto simp: opens_def set_file_def)

lemma opens_files [opens_rules]: "opens 0 filealloc" "opens 0 (fileup f)" "opens 0 (fileclose rw f)"
proof -
  show "opens 0 filealloc" unfolding filealloc_def by (rule opens_rules opens_enclosed opens_closed opens_bnd0 opens_seq0 kept_rules | rule opens_kept)+
  show "opens 0 (fileup f)" unfolding fileup_def by (rule opens_rules opens_enclosed opens_closed opens_bnd0 opens_seq0 kept_rules | rule opens_kept)+
  have p: "kept (pipeclose a w)" for a w unfolding pipeclose_def pipeclose_mark_def pipeclose_unused_def by (intro kept_rules)
  have i: "opens 0 (seq begin_op (seq (case k of None \<Rightarrow> panic ''kerneltrap'' | Some k \<Rightarrow> iput rw k) (end_op rw)))" for k
    by (rule opens_enclosed, rule opens_seq0 [OF _ opens_end_op]) (rule opens_rules opens_enclosed opens_closed opens_bnd0 opens_seq0 kept_rules | rule opens_kept)+
  show "opens 0 (fileclose rw f)" unfolding fileclose_def
    by (rule i opens_kept [OF p] opens_rules opens_bnd0 opens_seq0 kept_rules | rule opens_kept)+
qed

lemma kept_args [kept_rules]: "kept (argint n)" "kept (argaddr n)" "kept (fetchaddr a)" "kept (fetchstr a m)" "kept (argstr n m)" "kept (argfd n)"
  unfolding argint_def argaddr_def argraw_def fetchaddr_def fetchstr_def argstr_def argfd_def by (intro kept_rules)+

lemma opens_fds [opens_rules]: "opens 0 (fdalloc f)" "opens 0 (clear_fd fd)"
  unfolding fdalloc_def clear_fd_def by (rule opens_rules opens_enclosed opens_closed opens_bnd0 opens_seq0 kept_rules | rule opens_kept)+

lemma opens_dup [opens_rules]: "opens 0 sys_dup" "opens 0 (sys_close rw)" "opens 0 (sys_fstat rw junk)"
proof -
  show "opens 0 sys_dup" unfolding sys_dup_def by (rule opens_rules opens_enclosed opens_closed opens_bnd0 opens_seq0 kept_rules | rule opens_kept)+
  show "opens 0 (sys_close rw)" unfolding sys_close_def by (rule opens_rules opens_enclosed opens_closed opens_bnd0 opens_seq0 kept_rules | rule opens_kept)+
  show "opens 0 (sys_fstat rw junk)" unfolding sys_fstat_def filestat_def by (rule opens_rules opens_enclosed opens_closed opens_bnd0 opens_seq0 kept_rules | rule opens_kept)+
qed

lemma opens_link: "opens 0 (sys_link rw junk junk')"
  unfolding sys_link_def sys_link_bad_def by (rule opens_rules opens_enclosed opens_closed opens_bnd0 opens_seq0 kept_rules | rule opens_kept)+

lemma kept_isdirempty [kept_rules]: "kept (isdirempty rw dp)"
proof -
  have "kept (isdirempty_loop rw dp off n)" for off n
    by (induction n arbitrary: off) (auto intro!: kept_rules)
  then show ?thesis unfolding isdirempty_def by (intro kept_rules)
qed

lemma opens_unlink: "opens 0 (sys_unlink rw junk)"
  unfolding sys_unlink_def sys_unlink_bad_def by (rule opens_rules opens_enclosed opens_closed opens_bnd0 opens_seq0 kept_rules | rule opens_kept)+

lemma kept_create [kept_rules]: "kept (create rw junk path ty ma mi)"
  unfolding create_def create_fail_def link_dots_def by (intro kept_rules)

lemma opens_open: "opens 0 (sys_open rw junk)"
  unfolding sys_open_def sys_open_file_def sys_open_fail_def by (rule opens_rules opens_enclosed opens_closed opens_bnd0 opens_seq0 kept_rules | rule opens_kept)+

lemma opens_make: "opens 0 (sys_mkdir rw junk)" "opens 0 (sys_mknod rw junk)" "opens 0 (sys_chdir rw junk)"
proof -
  show "opens 0 (sys_mkdir rw junk)" unfolding sys_mkdir_def sys_make_def by (rule opens_rules opens_enclosed opens_closed opens_bnd0 opens_seq0 kept_rules | rule opens_kept)+
  show "opens 0 (sys_mknod rw junk)" unfolding sys_mknod_def sys_make_def by (rule opens_rules opens_enclosed opens_closed opens_bnd0 opens_seq0 kept_rules | rule opens_kept)+
  show "opens 0 (sys_chdir rw junk)" unfolding sys_chdir_def by (rule opens_rules opens_enclosed opens_closed opens_bnd0 opens_seq0 kept_rules | rule opens_kept)+
qed

lemma kept_exec_parts [kept_rules]: "kept (proc_pagetable p)" "kept (proc_freepagetable pt n)" "kept (loadseg rw pt va k off m)" "kept (strlenM a)"
proof -
  show "kept (proc_pagetable p)" "kept (proc_freepagetable pt n)" "kept (strlenM a)"
    unfolding proc_pagetable_def proc_freepagetable_def strlenM_def by (intro kept_rules)+
  have "kept (loadseg_loop rw pt va k off m i fuel)" for i fuel
    by (induction fuel arbitrary: i) (auto intro!: kept_rules simp: Let_def)
  then show "kept (loadseg rw pt va k off m)" unfolding loadseg_def .
qed

lemma kept_exec_loops [kept_rules]: "kept (exec_load rw k pt off m n)" "kept (exec_args pt argv base i j sp us)"
proof -
  show "kept (exec_load rw k pt off m n)"
    by (induction m arbitrary: off n) (simp_all only: exec_load.simps, (intro kept_rules | assumption)+)
  show "kept (exec_args pt argv base i j sp us)"
    by (induction j arbitrary: i sp us) (simp_all only: exec_args.simps, (intro kept_rules | assumption)+)
qed

lemma opens_exec_bad: "opens (- 1) (exec_bad rw pt n (Some k))" "opens 0 (exec_bad rw pt n None)"
proof -
  have "opens (- 1) (seq (iunlockput rw k) (end_op rw))"
    by (rule opens_seq0 [OF opens_kept opens_end_op]) (intro kept_rules)
  then have "opens (- 1) (seq (seq (iunlockput rw k) (end_op rw)) (ret (- 1 :: int)))"
    by (rule opens_seq) (simp add: opens_kept kept_basic)
  then show "opens (- 1) (exec_bad rw pt n (Some k))" unfolding exec_bad_def option.case
    by - (rule opens_seq0 [OF opens_kept], intro kept_rules)
  show "opens 0 (exec_bad rw pt n None)" unfolding exec_bad_def option.case by (intro opens_kept kept_rules)
qed

lemma opens_exec [opens_rules]: "opens 0 (exec rw junk path argv)"
proof -
  have s: "opens 0 (exec_stack rw p path argv pt e n)" for p pt e n
    unfolding exec_stack_def set_name_def
    by (rule opens_exec_bad opens_rules opens_bnd0 opens_seq0 kept_rules | rule opens_kept)+
  show ?thesis unfolding exec_def
    by (rule s opens_exec_bad opens_rules opens_enclosed opens_closed opens_bnd0 opens_seq0 kept_rules | rule opens_kept)+
qed

lemma opens_sys_exec: "opens 0 (sys_exec rw junk argv0)"
proof -
  have f: "kept (free_args argv i n)" for argv i n
    by (induction n arbitrary: i) (auto intro!: kept_rules)
  have a: "kept (exec_argv u argv i n)" for u argv i n
    by (induction n arbitrary: argv i) (simp_all only: exec_argv.simps, (intro kept_rules | assumption)+)
  show ?thesis unfolding sys_exec_def
    by (rule opens_kept [OF f] opens_kept [OF a] opens_rules opens_bnd0 opens_seq0 kept_rules | rule opens_kept)+
qed

lemma opens_pipe: "opens 0 (sys_pipe rw)"
proof -
  have p: "opens 0 (pipealloc rw)" unfolding pipealloc_def pipealloc_make_def pipealloc_bad_def by (rule opens_rules opens_enclosed opens_closed opens_bnd0 opens_seq0 kept_rules | rule opens_kept)+
  show ?thesis unfolding sys_pipe_def
    by (rule p opens_rules opens_bnd0 opens_seq0 kept_rules | rule opens_kept)+
qed

lemma opens_fork: "opens 0 fork"
proof -
  have f: "kept (freeproc i)" for i unfolding freeproc_def by (intro kept_rules; simp)
  have u: "kept (find_unused i n)" for i n
    by (induction n arbitrary: i) (auto intro!: kept_rules)
  have p: "kept allocpid" unfolding allocpid_def by (intro kept_rules kept_modify fr_upd)
  have a: "kept allocproc" unfolding allocproc_def by (rule kept_rules f u p | simp)+
  have o: "opens 0 (fork_files i j k n)" for i j k n
    by (induction n arbitrary: k) (simp_all only: fork_files.simps, (rule opens_rules opens_bnd0 opens_seq0 kept_rules | assumption | rule opens_kept)+)
  show ?thesis unfolding fork_def set_name_def
    by (rule o opens_kept [OF f] opens_kept [OF a] opens_rules opens_bnd0 opens_seq0 kept_rules | rule opens_kept)+
qed

end

section \<open>The loop of filewrite\<close>

lemma begin_op_limit:
  fixes s :: "'z ftab_scheme"
  assumes "begin_op s = Ok a t" "0 \<le> lh_n (lh (lg s))"
  shows "outstanding (lg s) \<le> 2"
proof -
  have never: "sleep ch l u \<noteq> Ok b v" for ch l b and u v :: "'z ftab_scheme"
    by (simp add: sleep_def sleep_stmts_def seq_def bnd_Ok_iff sched_never)
  obtain u where "acquire Log_lock s = Ok () u" "begin_op_loop u = Ok a t"
    using assms(1) by (auto simp: begin_op_def seq_def bnd_Ok_iff)
  moreover have "fr s u" using keptD [OF kept_sync(7)] calculation(1) by blast
  ultimately show ?thesis using assms(2) never
    by (auto simp: begin_op_loop_def fr_def LOGBLOCKS_def MAXOPBLOCKS_def split: if_splits)
qed

lemma bnd_same:
  assumes "opens d m" "0 \<le> lh_n (lh (lg s))"
    "\<And>a t. m s = Ok a t \<Longrightarrow> 0 \<le> lh_n (lh (lg t)) \<Longrightarrow> outstanding (lg t) = outstanding (lg s) + d \<Longrightarrow> f a t = g a t"
  shows "bnd m f s = bnd m g s"
proof (cases "m s")
  case (Ok a t)
  then show ?thesis using assms by (simp add: opens_def)
qed simp_all

text \<open>The routines of one round, with what they do to the count of transactions.\<close>

lemma filewrite_round:
  assumes "kept_driver rw"
  shows "opens 1 begin_op" "opens 0 (ilock rw ip)" "opens 0 (get_file f)" "opens 0 (writei rw k src off c)" "opens 0 (iunlock (Some k))"
    "opens 0 (whenM b (set_file f g))"
proof -
  note kd = kept_driver.kept_inode_disk(2) [OF assms] kept_driver.kept_file_io(2) [OF assms]
  show "opens 0 (ilock rw ip)" "opens 0 (get_file f)" "opens 0 (writei rw k src off c)" "opens 0 (iunlock (Some k))"
    using kd kept_driver.kept_inode_table(3) [OF assms] by (auto intro!: opens_kept kept_rules)
  show "opens 0 (whenM b (set_file f g))"
    using kept_driver.opens_set_file [OF assms] by (cases b) (simp_all add: opens_kept kept_basic)
qed (rule opens_begin_op)

lemma filewrite_fuel:
  fixes s :: "'z ftab_scheme"
  assumes "kept_driver rw" "0 \<le> lh_n (lh (lg s))" "4 \<le> outstanding (lg s) + int (Suc fuel)"
  shows "filewrite_loop rw f k a n (Suc fuel + m) s = filewrite_loop rw f k a n (Suc fuel) s"
  using assms(2,3)
proof (induction fuel arbitrary: s)
  case 0
  have "begin_op s \<noteq> Ok x t" for x t using begin_op_limit [of s x t] 0 by auto
  then have "seq begin_op N s = seq begin_op N' s" for N N' :: "('z ftab_scheme, unit option) km"
    by (cases "begin_op s") (auto simp: seq_def bnd_def)
  then show ?case by simp
next
  case (Suc fuel)
  have IH: "filewrite_loop rw f k a n (Suc (fuel + m)) t = filewrite_loop rw f k a n (Suc fuel) t"
    if "0 \<le> lh_n (lh (lg t))" "outstanding (lg t) = outstanding (lg s) + 1" for t
    using Suc.IH [of t] Suc.prems that by simp
  show ?case
  proof (cases "n \<le> 0")
    case False
    show ?thesis
      unfolding filewrite_loop.simps(2) [of _ _ _ _ _ "Suc fuel"] add_Suc filewrite_loop.simps(2) [of _ _ _ _ _ "Suc (fuel + m)"] seq_def
        if_not_P [OF False]
      by (rule filewrite_round [OF assms(1), THEN bnd_same] Suc.prems(1) | assumption)+
        (simp add: IH del: filewrite_loop.simps)
  qed simp
qed

lemma opens_Ok:
  assumes "bnd m f s = Ok b t" "opens d m" "0 \<le> lh_n (lh (lg s))"
  obtains a u where "m s = Ok a u" "f a u = Ok b t" "0 \<le> lh_n (lh (lg u))" "outstanding (lg u) = outstanding (lg s) + d"
  using assms by (auto simp: bnd_Ok_iff opens_def)

text \<open>A loop with rounds enough is left, not cut off, and every round has left its transaction open.\<close>

lemma filewrite_left:
  fixes s :: "'z ftab_scheme"
  assumes "kept_driver rw" "0 \<le> lh_n (lh (lg s))" "4 \<le> outstanding (lg s) + int (Suc fuel)"
    "filewrite_loop rw f k a n (Suc fuel) s = Ok r t"
  shows "r = Some () \<and> outstanding (lg s) \<le> outstanding (lg t) \<and>
    (0 < n \<longrightarrow> outstanding (lg s) < outstanding (lg t) \<and> outstanding (lg t) \<le> 3)"
  using assms(2-4)
proof (induction fuel arbitrary: s)
  case (0 s)
  have "begin_op s \<noteq> Ok x u" for x u using begin_op_limit [of s x u] 0 by auto
  then show ?case using 0(3) by (auto simp: seq_def bnd_Ok_iff split: if_splits)
next
  case (Suc fuel)
  note round = filewrite_round [OF assms(1)]
  show ?case
  proof (cases "n \<le> 0")
    case False
    define N where "N = seq (ilock rw (Some k)) (bnd (get_file f) (\<lambda>F. bnd (writei rw k (From_user a) (foff F) (word_of_int n)) (\<lambda>r.
      seq (whenM (r > 0) (set_file f (\<lambda>F. F\<lparr>foff := foff F + word_of_int r\<rparr>))) (seq (iunlock (Some k)) (
      if r \<noteq> min n (((int MAXOPBLOCKS - 1 - 1 - 2) div 2) * int BSIZE) then ret (Some ()) else filewrite_loop rw f k a n (Suc fuel))))))"
    have "bnd begin_op (\<lambda>_. N) s = Ok r t"
      using Suc.prems(3) unfolding filewrite_loop.simps(2) [of _ _ _ _ _ "Suc fuel"] if_not_P [OF False] N_def seq_def .
    then obtain x u where u: "begin_op s = Ok x u" "0 \<le> lh_n (lh (lg u))" "outstanding (lg u) = outstanding (lg s) + 1" and rest: "N u = Ok r t"
      by (rule opens_Ok [OF _ round(1) Suc.prems(1)])
    have 3: "outstanding (lg u) \<le> 3" using begin_op_limit [OF u(1) Suc.prems(1)] u(3) by simp
    from rest obtain w c where w: "0 \<le> lh_n (lh (lg w))" "outstanding (lg w) = outstanding (lg u)" and
      last: "(if c then ret (Some ()) else filewrite_loop rw f k a n (Suc fuel)) w = Ok r t"
      unfolding N_def seq_def using u(2)
      by - (erule opens_Ok [OF _ round(2)], assumption, erule opens_Ok [OF _ round(3)], assumption, erule opens_Ok [OF _ round(4)], assumption,
          erule opens_Ok [OF _ round(6)], assumption, erule opens_Ok [OF _ round(5)], assumption, simp del: filewrite_loop.simps)
    show ?thesis
    proof (cases c)
      case True
      then show ?thesis using last w u(3) 3 by auto
    next
      case False
      then show ?thesis using last w u(3) Suc.IH [of w] Suc.prems(2) \<open>\<not> n \<le> 0\<close> by auto
    qed
  qed (use Suc.prems(3) in auto)
qed

section \<open>Properties\<close>

text \<open>
  C16: Transactions are balanced over all paths. For every disk driver that leaves the file table and the log's counters
  alone, each of the system calls \<open>dup\<close>, \<open>close\<close>, \<open>fstat\<close>, \<open>link\<close>, \<open>unlink\<close>, \<open>open\<close>, \<open>mkdir\<close>, \<open>mknod\<close>, \<open>chdir\<close>, \<open>exec\<close>,
  \<open>pipe\<close> and \<open>fork\<close>, on whatever path it returns, successful or not, leaves as many transactions open as it found: every
  \<open>begin_op\<close> has been followed by one \<open>end_op\<close>.
\<close>

theorem file_calls_balanced:
  assumes "kept_driver rw"
  shows "opens 0 sys_dup \<and> opens 0 (sys_close rw) \<and> opens 0 (sys_fstat rw junk) \<and> opens 0 (sys_link rw junk junk') \<and>
    opens 0 (sys_unlink rw junk) \<and> opens 0 (sys_open rw junk) \<and> opens 0 (sys_mkdir rw junk) \<and> opens 0 (sys_mknod rw junk) \<and>
    opens 0 (sys_chdir rw junk) \<and> opens 0 (sys_exec rw junk argv) \<and> opens 0 (sys_pipe rw) \<and> opens 0 fork"
  by (intro conjI kept_driver.opens_dup [OF assms] kept_driver.opens_link [OF assms] kept_driver.opens_unlink [OF assms]
      kept_driver.opens_open [OF assms] kept_driver.opens_make [OF assms] kept_driver.opens_sys_exec [OF assms]
      kept_driver.opens_pipe [OF assms] kept_driver.opens_fork [OF assms])

text \<open>The driver of the virtio disk is such a driver.\<close>

theorem file_calls_balanced_witness:
  "opens 0 (sys_link (virtio_disk_rw :: unit odriver) [] []) \<and> opens 0 (sys_open (virtio_disk_rw :: unit odriver) [])"
  using file_calls_balanced [OF virtio.kept_driver_axioms] by blast

text \<open>
  C27: The loop of \<open>filewrite\<close> takes at most four rounds, although its index never advances. From a state with a non-negative number of open
  transactions and of logged blocks, the loop followed for four rounds is never cut off by that bound (the result is not \<open>None\<close>), and a
  larger bound changes nothing. When the loop is left, all its rounds have left their transactions open: with bytes to
  write there is at least one more than before, and at most three. That is what bounds it: with three transactions open,
  \<open>begin_op\<close> does not return.
\<close>

theorem filewrite_ends:
  assumes "kept_driver rw" "0 \<le> outstanding (lg s)" "0 \<le> lh_n (lh (lg s))"
  shows "filewrite_loop rw f k a n (4 + m) s \<noteq> Ok None t \<and> filewrite_loop rw f k a n (4 + m) s = filewrite_loop rw f k a n 4 s \<and>
    (filewrite_loop rw f k a n (4 + m) s = Ok r t \<longrightarrow> r = Some () \<and> outstanding (lg s) \<le> outstanding (lg t) \<and>
      (0 < n \<longrightarrow> outstanding (lg s) < outstanding (lg t) \<and> outstanding (lg t) \<le> 3)) \<and>
    (3 \<le> outstanding (lg s) \<longrightarrow> begin_op s \<noteq> Ok () u)"
proof -
  have e: "filewrite_loop rw f k a n (4 + m) s = filewrite_loop rw f k a n 4 s"
    using filewrite_fuel [of rw s 3 f k a n m] assms by (simp add: eval_nat_numeral)
  have "4 = Suc 3" by simp
  then have l: "r = Some () \<and> outstanding (lg s) \<le> outstanding (lg t) \<and>
      (0 < n \<longrightarrow> outstanding (lg s) < outstanding (lg t) \<and> outstanding (lg t) \<le> 3)" if "filewrite_loop rw f k a n 4 s = Ok r t" for r t
    using filewrite_left [OF assms(1,3), of 3 f k a n r t] assms(2) that by (simp only:) simp
  show ?thesis using e l begin_op_limit [of s "()" u] assms(3) by auto
qed

text \<open>
  C28: Reading or writing a regular file through a descriptor never returns to the caller: the branch for inodes of
  \<open>fileread\<close> and of \<open>filewrite\<close> runs into the panic of the default branch.
\<close>

theorem inode_io_never_returns:
  assumes "ftype (files s f) = F_INODE"
  shows "(is_readable (files s f) \<longrightarrow> fileread rw dread f a n s \<noteq> Ok r t) \<and>
    (is_writable (files s f) \<longrightarrow> filewrite rw dwrite f a n s \<noteq> Ok r t)"
  using assms by (auto simp: fileread_def filewrite_def get_file_def seq_def bnd_Ok_iff split: option.splits)

section \<open>Witnesses\<close>

theorem filewrite_ends_witness:
  "\<exists>s :: ftab. outstanding (lg s) = 1 \<and> (\<forall>t. filewrite_loop virtio_disk_rw 0 0 0 5 (4 + 7) s \<noteq> Ok None t \<and>
     (filewrite_loop virtio_disk_rw 0 0 0 5 (4 + 7) s = Ok (Some ()) t \<longrightarrow> outstanding (lg t) \<in> {2, 3}))"
proof -
  obtain s :: ftab where s: "lg s = demo_log" by (rule demo_ftab)
  show ?thesis
    using filewrite_ends [OF virtio.kept_driver_axioms, of s 0 0 0 5 7 _ "Some ()"] s
    by (intro exI [of _ s]) (force simp: demo_log_def)
qed

theorem inode_io_never_returns_witness:
  "\<exists>s :: ftab. ftype (files s 3) = F_INODE \<and> is_readable (files s 3) \<and> (\<forall>r t. fileread virtio_disk_rw (\<lambda>_. None) 3 0 10 s \<noteq> Ok r t)"
proof -
  obtain s :: ftab where "files s = (\<lambda>_. \<lparr>ftype = F_INODE, fref = 1, is_readable = True, is_writable = True, fpipe = 0, fip = Some 3, foff = 0, fmajor = 0\<rparr>)"
    by (rule demo_ftab)
  then show ?thesis using inode_io_never_returns [of s 3] by (intro exI [of _ s]) simp
qed

end
