(* ===== verification/Fd.thy ===== *)
theory Fd
  imports Sysfile
begin

text \<open>
  File descriptors. The invariant \<open>fd_inv\<close> ties the descriptor tables of all processes to the table of open files: a
  descriptor in use refers to an entry of the table, the reference count of an entry is the number of descriptors that
  refer to it, and every entry is well typed. \<open>dup\<close>, \<open>close\<close>, the copying of descriptors in \<open>fork\<close> and the closing of all
  descriptors in \<open>exit\<close> keep it.
\<close>

section \<open>The invariant\<close>

definition fds :: "(nat \<Rightarrow> process) \<Rightarrow> nat \<Rightarrow> (nat \<times> nat) set" where
  "fds P f = {(i, d). i < NPROC \<and> d < NOFILE \<and> ofile (P i) d = Some f}"

definition fd_inv :: "'z ftab_scheme \<Rightarrow> bool" where
  "fd_inv s \<longleftrightarrow> ft_ok s \<and>
     (\<forall>i<NPROC. \<forall>d<NOFILE. \<forall>f. ofile (procs s i) d = Some f \<longrightarrow> f < NFILE) \<and>
     (\<forall>f<NFILE. fref (files s f) = int (card (fds (procs s) f)))"

lemma finite_fds [simp]: "finite (fds P f)"
  by (rule finite_subset [of _ "{..<NPROC} \<times> {..<NOFILE}"]) (auto simp: fds_def)

definition set_fd :: "nat \<Rightarrow> nat \<Rightarrow> nat option \<Rightarrow> (nat \<Rightarrow> process) \<Rightarrow> nat \<Rightarrow> process" where
  "set_fd i d x P = P(i := (P i)\<lparr>ofile := (ofile (P i))(d := x)\<rparr>)"

lemma fds_set:
  assumes "i < NPROC" "d < NOFILE" "ofile (P i) d = None"
  shows "fds (set_fd i d (Some f) P) g = (if g = f then insert (i, d) (fds P g) else fds P g)" "(i, d) \<notin> fds P g"
  using assms by (auto simp: fds_def set_fd_def split: if_splits)

lemma fds_clear:
  assumes "i < NPROC" "d < NOFILE" "ofile (P i) d = Some f"
  shows "fds (set_fd i d None P) g = (if g = f then fds P g - {(i, d)} else fds P g)" "(i, d) \<in> fds P f"
  using assms by (auto simp: fds_def set_fd_def split: if_splits)

lemma fd_inv_upd [simp]: "fd_inv ((s :: 'z ftab_scheme)\<lparr>sync := y\<rparr>) = fd_inv s"
  by (simp add: fd_inv_def ft_ok_def)

lemma fd_invD:
  assumes "fd_inv s" "i < NPROC" "d < NOFILE" "ofile (procs s i) d = Some f"
  shows "f < NFILE" "1 \<le> fref (files s f)" "wt_file (files s f)"
proof -
  show f: "f < NFILE" and "wt_file (files s f)" using assms by (auto simp: fd_inv_def ft_ok_def)
  have "card (fds (procs s) f) \<noteq> 0" using fds_clear(2) [where P = "procs s", OF assms(2-4)] by (auto simp: card_eq_0_iff)
  then have "1 \<le> card (fds (procs s) f)" by linarith
  then show "1 \<le> fref (files s f)" using assms(1) f by (simp add: fd_inv_def)
qed

text \<open>Another descriptor for an open file, with the count taken; and one less.\<close>

lemma fd_inv_add:
  assumes "fd_inv s" "i < NPROC" "d < NOFILE" "ofile (procs s i) d = None" "f < NFILE" "1 \<le> fref (files s f)"
  shows "fd_inv (s\<lparr>sync := y, procs := set_fd i d (Some f) (procs s), files := (files s)(f := (files s f)\<lparr>fref := fref (files s f) + 1\<rparr>)\<rparr>)"
proof -
  have "wt_file (files s f)" using assms(1,5) by (simp add: fd_inv_def ft_ok_def)
  then have w: "wt_file ((files s f)\<lparr>fref := fref (files s f) + 1\<rparr>)" using assms(6) by (rule wt_up)
  have "ft_ok s" using assms(1) by (simp add: fd_inv_def)
  then have "ft_ok (s\<lparr>sync := y, procs := set_fd i d (Some f) (procs s), files := (files s)(f := (files s f)\<lparr>fref := fref (files s f) + 1\<rparr>)\<rparr>)"
    using w by (simp add: ft_ok_def)
  moreover have "ofile (set_fd i d (Some f) (procs s) j) e = Some g \<Longrightarrow> j < NPROC \<Longrightarrow> e < NOFILE \<Longrightarrow> g < NFILE" for j e g
    using assms(1,5) by (auto simp: fd_inv_def set_fd_def split: if_splits)
  ultimately show ?thesis using assms(1) fds_set [where P = "procs s", OF assms(2-4)]
    by (simp add: fd_inv_def)
qed

lemma fd_inv_remove:
  assumes "fd_inv s" "i < NPROC" "d < NOFILE" "ofile (procs s i) d = Some f"
  shows "fd_inv (s\<lparr>sync := y, procs := set_fd i d None (procs s), files := (files s)(f := drop_ref (files s f))\<rparr>)"
proof -
  note d = fd_invD [OF assms]
  have "ft_ok (s\<lparr>sync := y, procs := set_fd i d None (procs s), files := (files s)(f := drop_ref (files s f))\<rparr>)"
    using assms(1) d(3) by (simp add: fd_inv_def ft_ok_def wt_drop_ref)
  moreover have "ofile (set_fd i d None (procs s) j) e = Some g \<Longrightarrow> j < NPROC \<Longrightarrow> e < NOFILE \<Longrightarrow> g < NFILE" for j e g
    using assms(1) by (auto simp: fd_inv_def set_fd_def split: if_splits)
  moreover have "fref (drop_ref (files s f)) = fref (files s f) - 1" using d(2) by (simp add: drop_ref_def)
  moreover have "fref (files s f) - 1 = int (card (fds (procs s) f - {(i, d)}))"
    using assms(1) d(1) card_Suc_Diff1 [OF finite_fds fds_clear(2) [where P = "procs s", OF assms(2-4)]] by (simp add: fd_inv_def)
  ultimately show ?thesis using assms(1) fds_clear(1) [where P = "procs s", OF assms(2-4)] by (simp add: fd_inv_def)
qed

section \<open>Running the calls\<close>

text \<open>The argument \<open>n\<close> of the running process as an \<open>int\<close>, and as a descriptor with its file.\<close>

definition int_arg :: "'z ftab_scheme \<Rightarrow> nat \<Rightarrow> nat \<Rightarrow> int" where
  "int_arg s i n = sint (ucast (read64 (mem s) (trapframe (procs s i) + TF_a0 + 8 * of_nat n)) :: uint)"

definition fd_arg :: "'z ftab_scheme \<Rightarrow> nat \<Rightarrow> nat \<Rightarrow> (nat \<times> nat) option" where
  "fd_arg s i n = (let fd = int_arg s i n in
     if fd < 0 \<or> fd \<ge> int NOFILE then None else map_option (\<lambda>f. (nat fd, f)) (ofile (procs s i) (nat fd)))"

lemma argfd_run:
  assumes "running s i" "n < 6"
  shows "argfd n s = Ok (fd_arg s i n) (s\<lparr>sync := quiet (sync s)\<rparr>)"
proof -
  let ?q = "s\<lparr>sync := quiet (sync s)\<rparr>"
  have r: "sync_ok (sync s)" "cur s = Some i" "sync_ok (sync ?q)" "cur ?q = Some i" using assms(1) by (auto simp: running_def procs_free_def)
  have p: "this_proc s = Ok i ?q" "this_proc ?q = Ok i ?q" using this_proc_run [OF r(1,2)] this_proc_run [OF r(3,4)] by simp_all
  have "argint n s = Ok (int_arg s i n) ?q" using p assms(2) by (simp add: argint_def argraw_def int_arg_def)
  then show ?thesis using p by (auto simp: argfd_def fd_arg_def Let_def split: option.split)
qed

lemma fd_arg_Some: "fd_arg s i n = Some (d, f) \<Longrightarrow> d < NOFILE \<and> ofile (procs s i) d = Some f"
  by (auto simp: fd_arg_def Let_def split: if_splits)

lemma fdalloc_run:
  assumes "running s i"
  shows "fdalloc f s = (case fdalloc_scan (ofile (procs s i)) 0 NOFILE of
      None \<Rightarrow> Ok None (s\<lparr>sync := quiet (sync s)\<rparr>)
    | Some d \<Rightarrow> Ok (Some d) (s\<lparr>sync := quiet (sync s), procs := set_fd i d (Some f) (procs s)\<rparr>))"
proof -
  have "sync_ok (sync s)" "cur s = Some i" using assms by (auto simp: running_def procs_free_def)
  then show ?thesis by (simp add: fdalloc_def this_proc_run set_fd_def split: option.split)
qed

lemma fdalloc_scan_find: "fdalloc_scan T k n = find (\<lambda>d. T d = None) [k..<k + n]"
  by (induction n arbitrary: k) (simp_all add: upt_conv_Cons del: upt_Suc)

lemma fdalloc_scanD:
  assumes "fdalloc_scan T 0 NOFILE = Some d"
  shows "d < NOFILE" "T d = None" "\<forall>e<d. T e \<noteq> None"
  using assms by (auto simp: fdalloc_scan_find find_Some_iff)

lemma clear_fd_run:
  assumes "running s i"
  shows "clear_fd d s = Ok () (s\<lparr>sync := quiet (sync s), procs := set_fd i d None (procs s)\<rparr>)"
proof -
  have "sync_ok (sync s)" "cur s = Some i" using assms by (auto simp: running_def procs_free_def)
  then show ?thesis by (simp add: clear_fd_def this_proc_run set_fd_def)
qed

section \<open>Properties\<close>

text \<open>
  C26: \<open>dup\<close> of a valid descriptor, when a descriptor is free, makes the lowest free descriptor refer to the same file, whose
  count goes up by one; the call returns 0. With a bad descriptor, or none free, it returns -1 and changes nothing. The
  invariant of the descriptor tables is kept.
\<close>

theorem sys_dup_correct:
  assumes "running s i" "i < NPROC" "lock_free Ftable_lock (sync s)" "fd_inv s"
  shows "case (fd_arg s i 0, fdalloc_scan (ofile (procs s i)) 0 NOFILE) of
      (Some (_, f), Some d) \<Rightarrow> \<exists>t. sys_dup s = Ok 0 t \<and> procs t = set_fd i d (Some f) (procs s) \<and>
        fref (files t f) = fref (files s f) + 1 \<and> (\<forall>e<d. ofile (procs s i) e \<noteq> None) \<and> fd_inv t
    | _ \<Rightarrow> sys_dup s = Ok (- 1) (s\<lparr>sync := quiet (sync s)\<rparr>)"
proof -
  let ?q = "s\<lparr>sync := quiet (sync s)\<rparr>"
  have q: "running ?q i" "sync_ok (sync s)" using assms(1) by (auto simp: running_def procs_free_def)
  show ?thesis
  proof (cases "fd_arg s i 0")
    case None
    then show ?thesis using argfd_run [OF assms(1), of 0] by (simp add: sys_dup_def)
  next
    case (Some x)
    obtain d0 f where x: "x = (d0, f)" by (cases x)
    note d0 = fd_arg_Some [of s i 0 d0 f] fd_invD [OF assms(4,2), of d0 f]
    have run: "sys_dup s = bnd (fdalloc f) (\<lambda>d. case d of None \<Rightarrow> ret (- 1) | Some fd \<Rightarrow> seq (fileup f) (ret 0)) ?q"
      using argfd_run [OF assms(1), of 0] Some x by (simp add: sys_dup_def)
    show ?thesis
    proof (cases "fdalloc_scan (ofile (procs s i)) 0 NOFILE")
      case None
      then show ?thesis using run fdalloc_run [OF q(1), of f] Some x by simp
    next
      case new: (Some d)
      note n = fdalloc_scanD [OF new]
      let ?t = "s\<lparr>sync := quiet (sync s), procs := set_fd i d (Some f) (procs s), files := (files s)(f := (files s f)\<lparr>fref := fref (files s f) + 1\<rparr>)\<rparr>"
      have "sys_dup s = Ok 0 ?t"
        using run fdalloc_run [OF q(1), of f] new fileup_run [of "s\<lparr>sync := quiet (sync s), procs := set_fd i d (Some f) (procs s)\<rparr>" f] q(2) assms(3) d0 Some x
        by simp
      moreover have "fd_inv ?t" by (rule fd_inv_add) (use assms n d0 Some x in auto)
      ultimately show ?thesis using Some x new n(3) by simp
    qed
  qed
qed

text \<open>
  \<open>close\<close> of a valid descriptor returns 0, frees the descriptor and takes one reference from its file, which with the
  last one becomes a free entry; no pipe and no inode changes. A bad descriptor gives -1 and no change. The invariant of
  the descriptor tables is kept.
\<close>

theorem sys_close_correct:
  assumes "running s i" "i < NPROC" "lock_free Ftable_lock (sync s)" "fd_inv s"
  shows "case fd_arg s i 0 of
      None \<Rightarrow> sys_close rw s = Ok (- 1) (s\<lparr>sync := quiet (sync s)\<rparr>)
    | Some (d, f) \<Rightarrow> \<exists>t. sys_close rw s = Ok 0 t \<and> procs t = set_fd i d None (procs s) \<and> files t = (files s)(f := drop_ref (files s f)) \<and>
        pipes t = pipes s \<and> inodes t = inodes s \<and> fd_inv t"
proof -
  let ?q = "s\<lparr>sync := quiet (sync s)\<rparr>"
  have q: "running ?q i" "sync_ok (sync s)" using assms(1) by (auto simp: running_def procs_free_def)
  show ?thesis
  proof (cases "fd_arg s i 0")
    case None
    then show ?thesis using argfd_run [OF assms(1), of 0] by (simp add: sys_close_def)
  next
    case (Some x)
    obtain d f where x: "x = (d, f)" by (cases x)
    note d = fd_arg_Some [of s i 0 d f] fd_invD [OF assms(4,2), of d f]
    let ?t = "s\<lparr>sync := quiet (sync s), procs := set_fd i d None (procs s), files := (files s)(f := drop_ref (files s f))\<rparr>"
    have "sys_close rw s = Ok 0 ?t"
      using argfd_run [OF assms(1), of 0] Some x clear_fd_run [OF q(1), of d] q(2) assms(3) d
        fileclose_run [of "s\<lparr>sync := quiet (sync s), procs := set_fd i d None (procs s)\<rparr>" f rw]
      by (simp add: sys_close_def)
    moreover have "fd_inv ?t" by (rule fd_inv_remove) (use assms d Some x in auto)
    ultimately show ?thesis using Some x by simp
  qed
qed

section \<open>fork and exit\<close>

text \<open>What the two loops over the descriptors need of the state, and keep; and a state that differs in one descriptor table.\<close>

definition fd_ready :: "'z ftab_scheme \<Rightarrow> bool" where
  "fd_ready s \<longleftrightarrow> sync_ok (sync s) \<and> lock_free Ftable_lock (sync s) \<and> fd_inv s"

definition with_fds :: "nat \<Rightarrow> (nat \<Rightarrow> nat option) \<Rightarrow> sync \<Rightarrow> (nat \<Rightarrow> openfile) \<Rightarrow> 'z ftab_scheme \<Rightarrow> 'z ftab_scheme" where
  "with_fds i T y F s = s\<lparr>sync := y, procs := (procs s)(i := (procs s i)\<lparr>ofile := T\<rparr>), files := F\<rparr>"

lemma with_fds_simps [simp]:
  "ofile (procs (with_fds i T y F s) i) = T" "j \<noteq> i \<Longrightarrow> procs (with_fds i T y F s) j = procs s j"
  "with_fds i T' y' F' (with_fds i T y F s) = with_fds i T' y' F' s" "with_fds i (ofile (procs s i)) (sync s) (files s) s = s"
  "files (with_fds i T y F s) = F" "sync (with_fds i T y F s) = y"
  by (simp_all add: with_fds_def)

lemma fork_files_run:
  assumes "fd_ready s" "p < NPROC" "np < NPROC" "p \<noteq> np" "k + n \<le> NOFILE" "\<forall>d. k \<le> d \<and> d < k + n \<longrightarrow> ofile (procs s np) d = None"
  shows "\<exists>y F. fork_files p np k n s =
    Ok () (with_fds np (\<lambda>d. if k \<le> d \<and> d < k + n then ofile (procs s p) d else ofile (procs s np) d) y F s) \<and>
    fd_ready (with_fds np (\<lambda>d. if k \<le> d \<and> d < k + n then ofile (procs s p) d else ofile (procs s np) d) y F s)"
  using assms
proof (induction n arbitrary: s k)
  case 0
  have e: "(\<lambda>d. if k \<le> d \<and> d < k + 0 then ofile (procs s p) d else ofile (procs s np) d) = ofile (procs s np)" by (auto simp: fun_eq_iff)
  show ?case unfolding e using 0 by (intro exI [of _ "sync s"] exI [of _ "files s"]) simp
next
  case (Suc n)
  let ?T = "\<lambda>d. if k \<le> d \<and> d < k + Suc n then ofile (procs s p) d else ofile (procs s np) d"
  have free: "ofile (procs s np) k = None" and k: "k < NOFILE" using Suc.prems(5,6) by auto
  show ?case
  proof (cases "ofile (procs s p) k")
    case None
    have "(\<lambda>d. if Suc k \<le> d \<and> d < Suc k + n then ofile (procs s p) d else ofile (procs s np) d) = ?T"
      using None free by (auto simp: fun_eq_iff) (metis Suc_leI le_neq_implies_less)
    then show ?thesis using None Suc.IH [of s "Suc k"] Suc.prems by auto
  next
    case (Some f)
    let ?F = "(files s)(f := (files s f)\<lparr>fref := fref (files s f) + 1\<rparr>)"
    let ?t = "with_fds np ((ofile (procs s np))(k := Some f)) (quiet (sync s)) ?F s"
    have r: "sync_ok (sync s)" "lock_free Ftable_lock (sync s)" "fd_inv s" using Suc.prems(1) by (auto simp: fd_ready_def)
    note d = fd_invD [OF r(3) Suc.prems(2) k Some]
    have run: "fork_files p np k (Suc n) s = fork_files p np (Suc k) n ?t"
      using Some fileup_run [OF r(1,2) d(2)] by (simp add: with_fds_def)
    have "fd_ready ?t"
      using fd_inv_add [OF r(3) Suc.prems(3) k free d(1,2), of "quiet (sync s)"] r by (simp add: fd_ready_def with_fds_def set_fd_def)
    then obtain y F where t: "fork_files p np (Suc k) n ?t = Ok () (with_fds np (\<lambda>d. if Suc k \<le> d \<and> d < Suc k + n then ofile (procs ?t p) d else ofile (procs ?t np) d) y F ?t)"
      "fd_ready (with_fds np (\<lambda>d. if Suc k \<le> d \<and> d < Suc k + n then ofile (procs ?t p) d else ofile (procs ?t np) d) y F ?t)"
      using Suc.IH [of ?t "Suc k"] Suc.prems by auto
    have "(\<lambda>d. if Suc k \<le> d \<and> d < Suc k + n then ofile (procs ?t p) d else ofile (procs ?t np) d) = ?T"
      using Some Suc.prems(4) by (auto simp: fun_eq_iff)
    then show ?thesis using run t by auto
  qed
qed

lemma exit_files_run:
  assumes "fd_ready s" "p < NPROC" "k + n \<le> NOFILE"
  shows "\<exists>y F. exit_files rw p k n s = Ok () (with_fds p (\<lambda>d. if k \<le> d \<and> d < k + n then None else ofile (procs s p) d) y F s) \<and>
    fd_ready (with_fds p (\<lambda>d. if k \<le> d \<and> d < k + n then None else ofile (procs s p) d) y F s)"
  using assms
proof (induction n arbitrary: s k)
  case 0
  have e: "(\<lambda>d. if k \<le> d \<and> d < k + 0 then None else ofile (procs s p) d) = ofile (procs s p)" by (auto simp: fun_eq_iff)
  show ?case unfolding e using 0 by (intro exI [of _ "sync s"] exI [of _ "files s"]) simp
next
  case (Suc n)
  let ?T = "\<lambda>d. if k \<le> d \<and> d < k + Suc n then None else ofile (procs s p) d"
  have k: "k < NOFILE" using Suc.prems(3) by auto
  show ?case
  proof (cases "ofile (procs s p) k")
    case None
    have "(\<lambda>d. if Suc k \<le> d \<and> d < Suc k + n then None else ofile (procs s p) d) = ?T"
      using None by (auto simp: fun_eq_iff) (metis Suc_leI le_neq_implies_less)
    then show ?thesis using None Suc.IH [of s "Suc k"] Suc.prems by auto
  next
    case (Some f)
    let ?t = "with_fds p ((ofile (procs s p))(k := None)) (quiet (sync s)) ((files s)(f := drop_ref (files s f))) s"
    have r: "sync_ok (sync s)" "lock_free Ftable_lock (sync s)" "fd_inv s" using Suc.prems(1) by (auto simp: fd_ready_def)
    note d = fd_invD [OF r(3) Suc.prems(2) k Some]
    have run: "exit_files rw p k (Suc n) s = exit_files rw p (Suc k) n ?t"
      using Some fileclose_run [OF r(1,2) d(2)] by (simp add: with_fds_def)
    have "fd_ready ?t"
      using fd_inv_remove [OF r(3) Suc.prems(2) k Some, of "quiet (sync s)"] r by (simp add: fd_ready_def with_fds_def set_fd_def)
    then obtain y F where t: "exit_files rw p (Suc k) n ?t = Ok () (with_fds p (\<lambda>d. if Suc k \<le> d \<and> d < Suc k + n then None else ofile (procs ?t p) d) y F ?t)"
      "fd_ready (with_fds p (\<lambda>d. if Suc k \<le> d \<and> d < Suc k + n then None else ofile (procs ?t p) d) y F ?t)"
      using Suc.IH [of ?t "Suc k"] Suc.prems by auto
    have "(\<lambda>d. if Suc k \<le> d \<and> d < Suc k + n then None else ofile (procs ?t p) d) = ?T" by (auto simp: fun_eq_iff)
    then show ?thesis using run t by auto
  qed
qed

text \<open>
  C17: \<open>fork\<close> shares the descriptors: from a child that has none, the loop of \<open>fork\<close> gives it every descriptor of the
  parent with the same number, raises the reference counts accordingly and changes nothing else but lock state; \<open>exit\<close>
  closes all descriptors of the process. Both keep the invariant of the descriptor tables.
\<close>

theorem descriptors_fork_exit:
  assumes "fd_ready s" "p < NPROC" "np < NPROC" "p \<noteq> np" "\<forall>d<NOFILE. ofile (procs s np) d = None"
  shows "(\<exists>y F. let t = with_fds np (\<lambda>d. if d < NOFILE then ofile (procs s p) d else ofile (procs s np) d) y F s
      in fork_files p np 0 NOFILE s = Ok () t \<and> fd_ready t) \<and>
    (\<exists>y F. let t = with_fds p (\<lambda>d. if d < NOFILE then None else ofile (procs s p) d) y F s
      in exit_files rw p 0 NOFILE s = Ok () t \<and> fd_ready t)"
  using fork_files_run [OF assms(1-4), of 0 NOFILE] exit_files_run [OF assms(1,2), of 0 NOFILE rw] assms(5) by (simp add: Let_def)

section \<open>Witnesses\<close>

text \<open>Process 0 has the pipe end 4 open as descriptor 0.\<close>

definition demo_fds :: "nat \<Rightarrow> process" where
  "demo_fds = (\<lambda>_. idle_process)(0 := idle_process\<lparr>ofile := Map.empty(0 \<mapsto> 4), trapframe := 0x80050000\<rparr>)"

definition demo_files :: "nat \<Rightarrow> openfile" where
  "demo_files = (\<lambda>_. free_file)(4 := pipe_end True 0x80030000 free_file)"

lemma demo_fd_state:
  obtains s :: ftab where "running s 0" "\<forall>l. lock_free l (sync s)" "procs s = demo_fds" "files s = demo_files" "fd_inv s" "fd_arg s 0 0 = Some (0, 4)"
proof -
  obtain s :: ftab where s: "running s 0" "\<forall>l. lock_free l (sync s)" "procs s = demo_fds" "files s = demo_files" "mem s = demo_mem" by (rule demo_ftab)
  have "ft_ok s" by (auto simp: s(4) demo_files_def ft_ok_def wt_pipe_end) (simp add: wt_file_def free_file_def)
  moreover have "fds demo_fds f = (if f = 4 then {(0, 0)} else {})" for f
    by (auto simp: fds_def demo_fds_def idle_process_def NPROC_def NOFILE_def split: if_splits)
  ultimately have "fd_inv s"
    by (auto simp: fd_inv_def s(3,4) demo_fds_def demo_files_def idle_process_def pipe_end_def free_file_def NFILE_def split: if_splits)
  moreover have "int_arg s 0 0 = 0"
    using demo_read [of "0x80050000" 14] s(3,5) by (simp add: int_arg_def demo_fds_def slot_def page_aligned_def PGSIZE_def TF_a0_def)
  ultimately show ?thesis using that [of s] s by (simp add: fd_arg_def demo_fds_def NOFILE_def)
qed

theorem sys_dup_correct_witness:
  "\<exists>(s :: ftab) t. fref (files s 4) = 1 \<and> sys_dup s = Ok 0 t \<and> ofile (procs t 0) 1 = Some 4 \<and> fref (files t 4) = 2 \<and> fd_inv t"
proof -
  obtain s :: ftab where s: "running s 0" "\<forall>l. lock_free l (sync s)" "procs s = demo_fds" "files s = demo_files" "fd_inv s" "fd_arg s 0 0 = Some (0, 4)"
    by (rule demo_fd_state)
  have "fdalloc_scan (ofile (procs s 0)) 0 NOFILE = Some 1"
    by (simp add: s(3) demo_fds_def NOFILE_def eval_nat_numeral idle_process_def)
  then obtain t where "sys_dup s = Ok 0 t" "procs t = set_fd 0 1 (Some 4) demo_fds" "fref (files t 4) = 2" "fd_inv t"
    using sys_dup_correct [of s 0] s by (auto simp: NPROC_def demo_files_def pipe_end_def)
  then show ?thesis using s(4) by (intro exI [of _ s] exI [of _ t]) (simp add: set_fd_def demo_files_def pipe_end_def)
qed

theorem sys_close_correct_witness:
  "\<exists>(s :: ftab) t. fref (files s 4) = 1 \<and> sys_close virtio_disk_rw s = Ok 0 t \<and> ofile (procs t 0) 0 = None \<and> fref (files t 4) = 0 \<and> fd_inv t"
proof -
  obtain s :: ftab where s: "running s 0" "\<forall>l. lock_free l (sync s)" "procs s = demo_fds" "files s = demo_files" "fd_inv s" "fd_arg s 0 0 = Some (0, 4)"
    by (rule demo_fd_state)
  then obtain t where "sys_close virtio_disk_rw s = Ok 0 t" "procs t = set_fd 0 0 None demo_fds" "files t = demo_files(4 := drop_ref (demo_files 4))" "fd_inv t"
    using sys_close_correct [of s 0 virtio_disk_rw] by (auto simp: NPROC_def)
  then show ?thesis using s(4) by (intro exI [of _ s] exI [of _ t]) (simp add: set_fd_def demo_files_def pipe_end_def drop_ref_def)
qed

theorem descriptors_fork_exit_witness:
  "\<exists>(s :: ftab) t u. fork_files 0 1 0 NOFILE s = Ok () t \<and> ofile (procs t 1) 0 = Some 4 \<and> fd_ready t \<and>
     exit_files virtio_disk_rw 0 0 NOFILE s = Ok () u \<and> ofile (procs u 0) 0 = None"
proof -
  obtain s :: ftab where s: "running s 0" "\<forall>l. lock_free l (sync s)" "procs s = demo_fds" "files s = demo_files" "fd_inv s" by (rule demo_fd_state)
  have "fd_ready s" using s by (auto simp: fd_ready_def running_def procs_free_def)
  moreover have "\<forall>d<NOFILE. ofile (procs s 1) d = None" by (simp add: s(3) demo_fds_def idle_process_def)
  ultimately obtain y F y' F' where
    "fork_files 0 1 0 NOFILE s = Ok () (with_fds 1 (\<lambda>d. if d < NOFILE then ofile (procs s 0) d else ofile (procs s 1) d) y F s)"
    "fd_ready (with_fds 1 (\<lambda>d. if d < NOFILE then ofile (procs s 0) d else ofile (procs s 1) d) y F s)"
    "exit_files virtio_disk_rw 0 0 NOFILE s = Ok () (with_fds 0 (\<lambda>d. if d < NOFILE then None else ofile (procs s 0) d) y' F' s)"
    using descriptors_fork_exit [of s 0 1 virtio_disk_rw] by (auto simp: NPROC_def Let_def)
  then show ?thesis by (intro exI [of _ s] exI conjI) (assumption | simp add: s(3) demo_fds_def NOFILE_def)+
qed

end
