(* ===== verification/Args.thy ===== *)
theory Args
  imports Exec
begin

text \<open>
  The argument stack that \<open>exec\<close> of \<^verbatim>\<open>kernel/src/exec.c\<close> builds in the new address space. The specification \<open>layout\<close> gives the address of each string: from the
  top of the stack page downwards, each at a multiple of 16, or nothing when the page is too small.
\<close>

fun layout :: "nat \<Rightarrow> nat \<Rightarrow> byte list list \<Rightarrow> nat list option" where
  "layout base sp [] = Some []"
| "layout base sp (a # as) =
     (let p = 16 * ((sp - (length a + 1)) div 16)
      in if p < base then None else map_option (\<lambda>ps. p # ps) (layout base p as))"

text \<open>
  \<open>argv_ok\<close>: the array \<open>argv\<close> in the kernel points to the strings \<open>args\<close>, each ended by a NUL, shorter than a page and outside the user's pages, and ends with a
  null pointer.
\<close>

definition argv_ok :: "mem \<Rightarrow> addr \<Rightarrow> (nat \<Rightarrow> addr) \<Rightarrow> byte list list \<Rightarrow> bool" where
  "argv_ok m root argv args \<longleftrightarrow> argv (length args) = 0 \<and>
     (\<forall>k<length args. argv k \<noteq> 0 \<and> length (args ! k) < 4096 \<and> 0 \<notin> set (args ! k) \<and> bytes m (argv k) (length (args ! k) + 1) = args ! k @ [0] \<and>
       (\<forall>i\<le>length (args ! k). \<forall>va. uvalid m root va \<longrightarrow> argv k + of_nat i \<notin> page (upage m root va)))"

text \<open>The addresses from \<open>lo\<close> to below \<open>hi\<close> can be written by the user.\<close>

definition stack_ok :: "mem \<Rightarrow> addr \<Rightarrow> addr \<Rightarrow> addr \<Rightarrow> bool" where
  "stack_ok m root lo hi \<longleftrightarrow> (\<forall>va. unat lo \<le> unat va \<and> unat va < unat hi \<longrightarrow> uvalid m root va)"

lemma unat_push:
  assumes "unat len \<le> unat sp"
  shows "unat (push_sp sp len) = 16 * ((unat sp - unat len) div 16)"
proof -
  have d: "unat (sp - len) = unat sp - unat len" using assms by (simp add: unat_diff_if)
  have m: "unat ((sp - len) mod 16) = (unat sp - unat len) mod 16" by (simp add: unat_mod d)
  have "unat (sp - len - (sp - len) mod 16) = unat (sp - len) - unat ((sp - len) mod 16)"
    using m d by (simp add: unat_diff_if)
  then show ?thesis unfolding push_sp_def Let_def m d by (simp add: minus_mod_eq_mult_div)
qed

lemma argv_strlen:
  assumes "argv_ok m root argv args" "k < length args"
  shows "strlen m (argv k) = Some (length (args ! k))"
proof -
  let ?a = "args ! k"
  have b: "bytes m (argv k) (length ?a + 1) = ?a @ [0]" "0 \<notin> set ?a" using assms by (simp_all add: argv_ok_def)
  have at: "m (argv k + of_nat i) = (?a @ [0]) ! i" if "i \<le> length ?a" for i
    using arg_cong [OF b(1), of "\<lambda>l. l ! i"] that by (simp add: bytes_def del: upt_Suc)
  have nz: "m (argv k + of_nat j) \<noteq> 0" if "j < length ?a" for j
  proof -
    have "?a ! j \<in> set ?a" using that by simp
    then have "?a ! j \<noteq> 0" using b(2) by metis
    then show ?thesis using at [of j] that by (simp add: nth_append)
  qed
  have z: "m (argv k + of_nat (length ?a)) = 0" using at [of "length ?a"] by simp
  show ?thesis unfolding strlen_def by (rule strlen_loop_Some) (use nz z in simp_all)
qed

text \<open>A copy to the user leaves the strings in the kernel alone.\<close>

lemma argv_ok_copied:
  assumes "argv_ok (mem s) root argv args" "uspace s root ps" "length src = unat len" "copyout root dst src len s = Ok r t"
    "\<forall>va. pte_of (mem t) root va = pte_of (mem s) root va"
  shows "argv_ok (mem t) root argv args"
proof -
  have u: "uvalid (mem t) root va = uvalid (mem s) root va" "upage (mem t) root va = upage (mem s) root va" for va
    using assms(5) by (simp_all add: uvalid_def upage_def)
  have m: "mem t (argv k + of_nat i) = mem s (argv k + of_nat i)" if "k < length args" "i \<le> length (args ! k)" for k i
    by (rule copyout_outside [OF assms(2-4)]) (use assms(1) that in \<open>auto simp: argv_ok_def\<close>)
  have "bytes (mem t) (argv k) (length (args ! k) + 1) = bytes (mem s) (argv k) (length (args ! k) + 1)" if "k < length args" for k
    unfolding bytes_def using m [OF that] by (intro map_cong) auto
  then show ?thesis using assms(1) by (simp add: argv_ok_def u)
qed

text \<open>One string: it is copied whole to the stack, and nothing else that the user sees changes.\<close>

lemma push_arg:
  assumes "uspace s root ps" "argv_ok (mem s) root argv args" "k < length args" "stack_ok (mem s) root base hi"
    "unat base \<le> unat p" "unat p + length (args ! k) < unat hi"
  defines "n \<equiv> length (args ! k) + 1"
  shows "\<exists>t. copyout root p (args ! k @ [0]) (of_nat n) s = Ok 0 t \<and> uspace t root ps \<and> (\<forall>va. pte_of (mem t) root va = pte_of (mem s) root va) \<and>
    argv_ok (mem t) root argv args \<and> ubytes (mem t) root p n = args ! k @ [0] \<and>
    (\<forall>va. uvalid (mem s) root va \<and> \<not> (unat p \<le> unat va \<and> unat va < unat p + n) \<longrightarrow> ubyte (mem t) root va = ubyte (mem s) root va)"
proof -
  let ?src = "args ! k @ [0]"
  have n64: "n < 18446744073709551616" using assms(6) unat_lt_2p64 [of hi] unfolding n_def by linarith
  then have "unat (of_nat n :: uint64) = n" by (simp add: unat_of_nat)
  then have l: "length ?src = unat (of_nat n :: uint64)" by (simp only:) (simp add: n_def)
  obtain r t j where t: "copyout root p ?src (of_nat n) s = Ok r t" "copied s root ps p ?src j t" "copy_stop (mem s) root p (unat (of_nat n :: uint64)) j r"
    using copyout_copies [OF assms(1) l] by blast
  have up: "unat (p + of_nat i) = unat p + i" if "i < n" for i
  proof -
    have "unat p + i < 18446744073709551616" using that assms(6) unat_lt_2p64 [of hi] unfolding n_def by linarith
    then show ?thesis using n64 that by (simp add: unat_word_ariths unat_of_nat)
  qed
  have v: "uvalid (mem s) root (p + of_nat i)" if "i < n" for i
    using assms(4,5,6) up [OF that] that by (simp add: stack_ok_def n_def)
  have rj: "r = 0" "j = n" using t(3) v n64 by (auto simp: copy_stop_def unat_of_nat)
  have c: "uspace t root ps" "\<forall>va. pte_of (mem t) root va = pte_of (mem s) root va"
    "\<And>va. uvalid (mem s) root va \<Longrightarrow> ubyte (mem t) root va = (if va \<in> span p n then ?src ! unat (va - p) else ubyte (mem s) root va)"
    using t(2) rj(2) by (simp_all add: copied_def)
  have sp: "va \<in> span p n \<longleftrightarrow> unat p \<le> unat va \<and> unat va < unat p + n" for va
  proof (cases "unat p \<le> unat va")
    case True
    then have "unat (va - p) = unat va - unat p" by (simp add: unat_diff_if)
    then show ?thesis using True n64 by (auto simp: in_span_iff)
  next
    case False
    then have "unat (va - p) = 18446744073709551616 + unat va - unat p" by (simp add: unat_diff_if)
    then have "\<not> unat (va - p) < n" using assms(6) unat_lt_2p64 [of hi] unfolding n_def by linarith
    then show ?thesis using False n64 by (simp add: in_span_iff)
  qed
  have "ubyte (mem t) root (p + of_nat i) = ?src ! i" if "i < n" for i
    using c(3) [OF v [OF that]] sp [of "p + of_nat i"] up [OF that] that n64 by (simp add: unat_of_nat)
  then have "ubytes (mem t) root p n = ?src" by (intro nth_equalityI) (simp_all add: ubytes_def n_def del: upt_Suc)
  then show ?thesis
    using t(1) rj(1) c sp argv_ok_copied [OF assms(2,1) l t(1) c(2)] by (intro exI [of _ t]) simp
qed


text \<open>The addresses are in the stack, aligned, and the strings do not overlap.\<close>

lemma layout_length: "layout base sp as = Some ls \<Longrightarrow> length ls = length as"
  by (induction as arbitrary: sp ls) (auto simp: Let_def split: if_splits)

lemma layout_place:
  assumes "layout base sp as = Some ls" "0 < base" "j < length ls"
  shows "base \<le> ls ! j \<and> 16 dvd ls ! j \<and> ls ! j + length (as ! j) < (if j = 0 then sp else ls ! (j - 1))"
  using assms
proof (induction as arbitrary: sp ls j)
  case (Cons a as)
  let ?p = "16 * ((sp - (length a + 1)) div 16)"
  obtain ms where ms: "base \<le> ?p" "layout base ?p as = Some ms" "ls = ?p # ms" using Cons.prems(1) by (auto simp: Let_def split: if_splits)
  have "?p \<le> sp - (length a + 1)" by simp
  then have pa: "?p + length a < sp" using ms(1) Cons.prems(2) by linarith
  show ?case
  proof (cases j)
    case 0
    then show ?thesis using ms pa by simp
  next
    case (Suc i)
    then have "i < length ms" using Cons.prems(3) ms(3) by simp
    from Cons.IH [OF ms(2) Cons.prems(2) this] show ?thesis using Suc ms(3) by (cases i) simp_all
  qed
qed simp

lemma layout_below: "layout base sp as = Some ls \<Longrightarrow> 0 < base \<Longrightarrow> j < length ls \<Longrightarrow> ls ! j < sp"
proof (induction j)
  case 0
  then show ?case using layout_place [of base sp as ls 0] by simp
next
  case (Suc j)
  then show ?case using layout_place [of base sp as ls "Suc j"] by simp
qed

text \<open>The loop, from the argument \<open>k\<close> on: what it leaves on the stack below \<open>sp\<close>.\<close>

definition pushed :: "'z ftab_scheme \<Rightarrow> addr \<Rightarrow> byte list list \<Rightarrow> addr \<Rightarrow> nat list \<Rightarrow> 'z ftab_scheme \<Rightarrow> bool" where
  "pushed s root as sp ls t \<longleftrightarrow>
     (\<forall>j<length ls. ubytes (mem t) root (of_nat (ls ! j)) (length (as ! j) + 1) = as ! j @ [0]) \<and>
     (\<forall>va. uvalid (mem s) root va \<and> (unat sp \<le> unat va \<or> (\<forall>p \<in> set ls. unat va < p)) \<longrightarrow> ubyte (mem t) root va = ubyte (mem s) root va)"

lemma pushed_Cons:
  assumes "\<forall>va. pte_of (mem u) root va = pte_of (mem s) root va" "unat p + length a < unat sp" "ubytes (mem u) root p (length a + 1) = a @ [0]"
    "\<forall>va. uvalid (mem s) root va \<and> \<not> (unat p \<le> unat va \<and> unat va < unat p + (length a + 1)) \<longrightarrow> ubyte (mem u) root va = ubyte (mem s) root va"
    "pushed u root as p ls t" "stack_ok (mem s) root base sp" "unat base \<le> unat p"
  shows "pushed s root (a # as) sp (unat p # ls) t"
proof -
  have v: "uvalid (mem u) root va = uvalid (mem s) root va" for va using assms(1) by (simp add: uvalid_def)
  have f: "uvalid (mem s) root va \<Longrightarrow> unat p \<le> unat va \<or> (\<forall>q \<in> set ls. unat va < q) \<Longrightarrow> ubyte (mem t) root va = ubyte (mem u) root va" for va
    using assms(5) v by (simp add: pushed_def)
  have "ubyte (mem t) root (p + of_nat i) = ubyte (mem u) root (p + of_nat i)" if "i < length a + 1" for i
  proof (rule f)
    have "unat p + i < 18446744073709551616" "i < 18446744073709551616" using that assms(2) unat_lt_2p64 [of sp] by linarith+
    then have "unat (p + of_nat i) = unat p + i" by (simp add: unat_word_ariths unat_of_nat)
    then show "uvalid (mem s) root (p + of_nat i)" "unat p \<le> unat (p + of_nat i) \<or> (\<forall>q \<in> set ls. unat (p + of_nat i) < q)"
      using assms(2,6,7) that by (simp_all add: stack_ok_def)
  qed
  then have "ubytes (mem t) root p (length a + 1) = ubytes (mem u) root p (length a + 1)" unfolding ubytes_def by (intro map_cong) auto
  then have "ubytes (mem t) root p (length a + 1) = a @ [0]" using assms(3) by simp
  moreover have "ubyte (mem t) root va = ubyte (mem s) root va"
    if "uvalid (mem s) root va" "unat sp \<le> unat va \<or> unat va < unat p \<and> (\<forall>q \<in> set ls. unat va < q)" for va
    using f [OF that(1)] assms(2,4) that by auto
  moreover have "\<forall>j<length ls. ubytes (mem t) root (of_nat (ls ! j)) (length (as ! j) + 1) = as ! j @ [0]" using assms(5) by (simp add: pushed_def)
  ultimately show ?thesis by (auto simp: pushed_def less_Suc_eq_0_disj)
qed

text \<open>
  The result of the loop on the strings \<open>as\<close>: a failure, or the addresses \<open>ls\<close> in \<open>ustack\<close> and the strings on the stack.
\<close>

definition args_done :: "'z ftab_scheme \<Rightarrow> addr \<Rightarrow> addr list \<Rightarrow> byte list list \<Rightarrow> addr \<Rightarrow> uint64 list \<Rightarrow> nat list option \<Rightarrow>
    ('z ftab_scheme, bool \<times> uint64 \<times> uint64 list) outcome \<Rightarrow> bool" where
  "args_done s root ps as sp us lo out \<longleftrightarrow> (case lo of
     None \<Rightarrow> \<exists>sp' us' t. out = Ok (False, sp', us') t
   | Some ls \<Rightarrow> \<exists>sp' t. out = Ok (True, sp', us @ map of_nat ls) t \<and> unat sp' = last (unat sp # ls) \<and>
       uspace t root ps \<and> (\<forall>va. pte_of (mem t) root va = pte_of (mem s) root va) \<and> pushed s root as sp ls t)"

lemma args_done_Nil: "uspace s root ps \<Longrightarrow> args_done s root ps [] sp us (Some []) (Ok (True, sp, us) s)"
  by (simp add: args_done_def pushed_def)

lemma args_done_Cons:
  assumes "args_done t root ps as p (us @ [p]) lo out" "\<forall>va. pte_of (mem t) root va = pte_of (mem s) root va"
    "\<And>ls w. pushed t root as p ls w \<Longrightarrow> pushed s root (a # as) sp (unat p # ls) w"
  shows "args_done s root ps (a # as) sp us (map_option (\<lambda>ls. unat p # ls) lo) out"
proof (cases lo)
  case (Some ls)
  obtain sp' w where w: "out = Ok (True, sp', (us @ [p]) @ map of_nat ls) w" "unat sp' = last (unat p # ls)" "uspace w root ps"
    "\<forall>va. pte_of (mem w) root va = pte_of (mem t) root va" "pushed t root as p ls w"
    using assms(1) unfolding args_done_def Some option.case by blast
  then show ?thesis using assms(2,3) by (simp add: args_done_def Some)
qed (use assms(1) in \<open>simp add: args_done_def\<close>)

text \<open>One round of the loop.\<close>

lemma exec_args_step:
  fixes s :: "'z ftab_scheme" and sp :: uint64
  assumes "argv_ok (mem s) root argv args" "k < length args"
  defines "p \<equiv> push_sp sp (of_nat (length (args ! k) + 1))"
  shows "exec_args root argv base k (Suc n) sp us s =
    (if p < base then Ok (False, p, us) s
     else bnd (copyout root p (args ! k @ [0]) (of_nat (length (args ! k) + 1))) (\<lambda>r. if r < 0 then ret (False, p, us)
       else exec_args root argv base (Suc k) n p (us @ [p])) s)"
proof -
  have "argv k \<noteq> 0" "bytes (mem s) (argv k) (length (args ! k) + 1) = args ! k @ [0]" using assms(1,2) by (simp_all add: argv_ok_def)
  then show ?thesis unfolding p_def
    by (simp add: strlenM_def argv_strlen [OF assms(1,2)] load_bytes_def bnd_def Let_def cong: outcome.case_cong if_cong)
qed

lemma push_room:
  assumes "length a < 4096" "4096 \<le> unat sp"
  shows "unat (push_sp sp (of_nat (length a + 1))) = 16 * ((unat sp - (length a + 1)) div 16)"
proof -
  have "unat (of_nat (length a + 1) :: uint64) = length a + 1" using assms(1) by (subst unat_of_nat) (simp add: take_bit_eq_mod)
  then show ?thesis using assms unat_push [of "of_nat (length a + 1)" sp] by simp
qed

text \<open>The loop from the argument \<open>k\<close> on does what \<open>layout\<close> says.\<close>

lemma exec_args_run:
  fixes s :: "'z ftab_scheme"
  assumes "uspace s root ps" "argv_ok (mem s) root argv args" "k + n = MAXARG" "k \<le> length args" "stack_ok (mem s) root base sp"
    "4096 \<le> unat base" "unat base \<le> unat sp"
  shows "args_done s root ps (drop k args) sp us (if length args \<le> MAXARG then layout (unat base) (unat sp) (drop k args) else None)
    (exec_args root argv base k n sp us s)"
  using assms
proof (induction n arbitrary: k sp us s)
  case 0
  then show ?case by (cases "k = length args") (auto simp: argv_ok_def args_done_def pushed_def)
next
  case (Suc n)
  show ?case
  proof (cases "k = length args")
    case True
    then show ?thesis using Suc.prems args_done_Nil [of s root ps sp us] by (simp add: argv_ok_def)
  next
    case False
    then have k: "k < length args" using Suc.prems(4) by simp
    let ?a = "args ! k"
    define p where "p = push_sp sp (of_nat (length ?a + 1))"
    have d: "drop k args = ?a # drop (Suc k) args" using k by (simp add: Cons_nth_drop_Suc)
    have "length ?a < 4096" using Suc.prems(2) k by (simp add: argv_ok_def)
    then have up: "unat p = 16 * ((unat sp - (length ?a + 1)) div 16)" and pa: "unat p + length ?a < unat sp"
      unfolding p_def using push_room [of ?a sp] Suc.prems(6,7) by linarith+
    note run = exec_args_step [OF Suc.prems(2) k, of base n sp us, folded p_def]
    show ?thesis
    proof (cases "p < base")
      case True
      then have "16 * ((unat sp - (length ?a + 1)) div 16) < unat base" by (simp only: word_less_nat_alt up)
      then have "layout (unat base) (unat sp) (drop k args) = None" by (simp add: d)
      then show ?thesis unfolding run using True by (simp add: args_done_def)
    next
      case False
      then have b: "unat base \<le> unat p" by (simp add: word_less_nat_alt)
      obtain t where t: "copyout root p (?a @ [0]) (of_nat (length ?a + 1)) s = Ok 0 t" "uspace t root ps"
        "\<forall>va. pte_of (mem t) root va = pte_of (mem s) root va" "argv_ok (mem t) root argv args" "ubytes (mem t) root p (length ?a + 1) = ?a @ [0]"
        "\<forall>va. uvalid (mem s) root va \<and> \<not> (unat p \<le> unat va \<and> unat va < unat p + (length ?a + 1)) \<longrightarrow> ubyte (mem t) root va = ubyte (mem s) root va"
        using push_arg [OF Suc.prems(1,2) k Suc.prems(5) b pa] by blast
      have st: "stack_ok (mem t) root base p" using Suc.prems(5) pa t(3) by (auto simp: stack_ok_def uvalid_def)
      have go: "exec_args root argv base k (Suc n) sp us s = exec_args root argv base (Suc k) n p (us @ [p]) t"
        unfolding run bnd_def t(1) using False by simp
      let ?l = "if length args \<le> MAXARG then layout (unat base) (unat p) (drop (Suc k) args) else None"
      have ll: "(if length args \<le> MAXARG then layout (unat base) (unat sp) (drop k args) else None) = map_option (\<lambda>ps. unat p # ps) ?l"
        using b unfolding d up by (simp add: Let_def)
      have ih: "args_done t root ps (drop (Suc k) args) p (us @ [p]) ?l (exec_args root argv base (Suc k) n p (us @ [p]) t)"
        by (rule Suc.IH [OF t(2,4) _ _ st Suc.prems(6) b]) (use k Suc.prems(3) in simp_all)
      show ?thesis unfolding ll go unfolding d
        by (rule args_done_Cons [OF ih t(3)]) (rule pushed_Cons [OF t(3) pa t(5,6) _ Suc.prems(5) b])
    qed
  qed
qed

lemma layout_last: "layout base sp as = Some ls \<Longrightarrow> 0 < base \<Longrightarrow> p \<in> set ls \<Longrightarrow> last (sp # ls) \<le> p"
proof (induction as arbitrary: sp ls)
  case (Cons a as)
  let ?p = "16 * ((sp - (length a + 1)) div 16)"
  obtain ms where ms: "layout base ?p as = Some ms" "ls = ?p # ms" using Cons.prems(1) by (auto simp: Let_def split: if_splits)
  have "last (?p # ms) \<le> ?p" using layout_below [OF ms(1) Cons.prems(2), of "length ms - 1"] by (auto simp: last_conv_nth)
  then show ?case using Cons.IH [OF ms(1) Cons.prems(2)] Cons.prems(3) ms(2) by auto
qed simp

section \<open>The argument strings\<close>

text \<open>
  C36: The loop of \<open>exec\<close> over the arguments, for an array \<open>argv\<close> of NUL-terminated strings shorter than a page and a user stack page
  from \<open>base\<close> to \<open>sp\<close>. It always returns; it fails exactly when there are more than \<open>MAXARG\<close> strings or they do not fit between \<open>base\<close>
  and \<open>sp\<close>. When it succeeds, the user sees each string, with its NUL, at a 16-byte aligned address that is the corresponding entry of
  \<open>ustack\<close>; the strings lie in the stack page one below the other without overlap; the stack pointer is the last of the addresses; and
  outside the used part of the stack no accessible byte and no translation changes.
\<close>

theorem exec_args_correct:
  fixes s :: "'z ftab_scheme"
  assumes "uspace s root ps" "argv_ok (mem s) root argv args" "stack_ok (mem s) root base sp" "4096 \<le> unat base" "unat base \<le> unat sp"
  shows "case (if length args \<le> MAXARG then layout (unat base) (unat sp) args else None) of
      None \<Rightarrow> \<exists>sp' us t. exec_args root argv base 0 MAXARG sp [] s = Ok (False, sp', us) t
    | Some ls \<Rightarrow> \<exists>sp' t. exec_args root argv base 0 MAXARG sp [] s = Ok (True, sp', map of_nat ls) t \<and> length ls = length args \<and>
        unat sp' = last (unat sp # ls) \<and> uspace t root ps \<and> (\<forall>va. pte_of (mem t) root va = pte_of (mem s) root va) \<and>
        (\<forall>j<length args. unat base \<le> ls ! j \<and> 16 dvd ls ! j \<and> ls ! j + length (args ! j) < (if j = 0 then unat sp else ls ! (j - 1)) \<and>
           ubytes (mem t) root (of_nat (ls ! j)) (length (args ! j) + 1) = args ! j @ [0]) \<and>
        (\<forall>va. uvalid (mem s) root va \<and> \<not> (unat sp' \<le> unat va \<and> unat va < unat sp) \<longrightarrow> ubyte (mem t) root va = ubyte (mem s) root va)"
proof (cases "if length args \<le> MAXARG then layout (unat base) (unat sp) args else None")
  case None
  then show ?thesis using exec_args_run [OF assms(1,2), of 0 MAXARG base sp "[]"] assms(3-5) by (auto simp: args_done_def split: if_splits)
next
  case (Some ls)
  obtain sp' t where t: "exec_args root argv base 0 MAXARG sp [] s = Ok (True, sp', map of_nat ls) t" "unat sp' = last (unat sp # ls)"
    "uspace t root ps" "\<forall>va. pte_of (mem t) root va = pte_of (mem s) root va" "pushed s root args sp ls t"
    using exec_args_run [OF assms(1,2), of 0 MAXARG base sp "[]"] assms(3-5) Some by (auto simp: args_done_def split: if_splits)
  have lay: "layout (unat base) (unat sp) args = Some ls" using Some by (simp split: if_splits)
  have pos: "0 < unat base" using assms(4) by simp
  have len: "length ls = length args" by (rule layout_length [OF lay])
  have low: "unat va < p" if "unat va < unat sp'" "p \<in> set ls" for va :: addr and p
    using layout_last [OF lay pos that(2)] that(1) t(2) by simp
  have "ubyte (mem t) root va = ubyte (mem s) root va" if "uvalid (mem s) root va" "\<not> (unat sp' \<le> unat va \<and> unat va < unat sp)" for va
    using t(5) that low [of va] by (auto simp: pushed_def)
  then show ?thesis using t len layout_place [OF lay pos] by (auto simp: Some pushed_def)
qed

section \<open>Witness\<close>

text \<open>
  Two strings in the address space \<open>demo_user\<close>, whose stack page is at \<open>0x1000\<close>: the bytes \<open>0x1F 0xD4\<close>, found in the kernel at
  \<open>0x80034000\<close>, and the empty string.
\<close>

definition demo_argv :: "nat \<Rightarrow> addr" where
  "demo_argv k = (if k = 0 then 0x80034000 else if k = 1 then 0x80050000 else 0)"

lemma demo_argv_ok: "argv_ok demo_mem 0x80032000 demo_argv [[0x1F, 0xD4], []]"
proof -
  have m: "demo_mem 0x80034000 = 0x1F" "demo_mem 0x80034001 = 0xD4" "demo_mem 0x80034002 = 0" "demo_mem 0x80050000 = 0"
    by (simp_all add: demo_mem_def write64_def slot_def PA2PTE_def)
  have pg: "page_aligned 0x80035000" "page_aligned 0x80036000" by (simp_all add: page_aligned_def PGSIZE_def)
  have "x \<notin> page (upage demo_mem 0x80032000 va)"
    if "uvalid demo_mem 0x80032000 va" "x \<in> {0x80034000, 0x80034001, 0x80034002, 0x80050000}" for x va
    using that pg by (auto simp: demo_uvalid in_page_iff)
  then have o: "0x80034000 + of_nat i \<notin> page (upage demo_mem 0x80032000 va)" "i = 0 \<Longrightarrow> 0x80050000 + of_nat i \<notin> page (upage demo_mem 0x80032000 va)"
    if "uvalid demo_mem 0x80032000 va" "i \<le> 2" for i va
    using that by (auto simp: numeral_2_eq_2 le_Suc_eq)
  have b: "bytes demo_mem 0x80034000 3 = [0x1F, 0xD4, 0]" "bytes demo_mem 0x80050000 1 = [0]"
    by (simp_all add: bytes_def upt_rec m)
  show ?thesis unfolding argv_ok_def
  proof (intro conjI allI impI)
    fix k assume "k < length [[0x1F, 0xD4 :: byte], []]"
    then have k: "k = 0 \<or> k = 1" by auto
    then show "demo_argv k \<noteq> 0" "length ([[0x1F, 0xD4 :: byte], []] ! k) < 4096" "0 \<notin> set ([[0x1F, 0xD4 :: byte], []] ! k)"
      by (auto simp: demo_argv_def)
    show "bytes demo_mem (demo_argv k) (length ([[0x1F, 0xD4], []] ! k) + 1) = [[0x1F, 0xD4], []] ! k @ [0]"
      using k b by (auto simp: demo_argv_def numeral_3_eq_3)
    fix i va assume "i \<le> length ([[0x1F, 0xD4 :: byte], []] ! k)" "uvalid demo_mem 0x80032000 va"
    then show "demo_argv k + of_nat i \<notin> page (upage demo_mem 0x80032000 va)"
      using k o [of va i] by (auto simp: demo_argv_def numeral_2_eq_2)
  qed (simp add: demo_argv_def)
qed

lemma demo_stack_ok: "stack_ok demo_mem 0x80032000 0x1000 0x2000"
proof -
  have "uvalid demo_mem 0x80032000 va" if "4096 \<le> unat va" "unat va < 8192" for va
  proof -
    have "unat va div 4096 = 1" using that by (intro div_nat_eqI) simp_all
    then show ?thesis using that by (simp add: demo_uvalid word_unat_eq_iff unat_PGROUNDDOWN word_less_nat_alt const_vals)
  qed
  then show ?thesis by (simp add: stack_ok_def)
qed

theorem exec_args_correct_witness:
  "\<exists>(s :: ftab) t. argv_ok (mem s) 0x80032000 demo_argv [[0x1F, 0xD4], []] \<and>
     exec_args 0x80032000 demo_argv 0x1000 0 MAXARG 0x2000 [] s = Ok (True, 8160, [8176, 8160]) t \<and>
     ubytes (mem t) 0x80032000 8176 3 = [0x1F, 0xD4, 0] \<and> ubytes (mem t) 0x80032000 8160 1 = [0]"
proof -
  define s :: ftab where "s = (undefined :: ftab)\<lparr>sync := demo_sync, mem := demo_mem, sym_end := 0x80021000, freelist := 0x80030000\<rparr>"
  have m: "mem s = demo_mem" by (simp add: s_def)
  have u: "uspace s 0x80032000 [0x80030000]"
    by (rule uspace_same [OF demo_uspace]) (simp_all add: s_def demo_user_def demo_sync_free)
  have l: "(if length [[0x1F, 0xD4], []] \<le> MAXARG then layout (unat (0x1000 :: addr)) (unat (0x2000 :: addr)) [[0x1F, 0xD4 :: byte], []] else None) = Some [8176, 8160]"
    by (simp add: Let_def MAXARG_def)
  obtain sp' t where t: "exec_args 0x80032000 demo_argv 0x1000 0 MAXARG 0x2000 [] s = Ok (True, sp', map of_nat [8176, 8160]) t" "unat sp' = 8160"
    "\<forall>j<Suc (Suc 0). ubytes (mem t) 0x80032000 (of_nat ([8176, 8160] ! j)) (length ([[0x1F, 0xD4 :: byte], []] ! j) + 1) = [[0x1F, 0xD4], []] ! j @ [0]"
    using exec_args_correct [OF u, of demo_argv "[[0x1F, 0xD4], []]" "0x1000" "0x2000", unfolded m l option.case] demo_argv_ok demo_stack_ok by auto
  have "sp' = 8160" using t(2) by (simp add: word_unat_eq_iff)
  then show ?thesis using t(1) t(3) [rule_format, of 0] t(3) [rule_format, of 1] demo_argv_ok
    by (intro exI [of _ s] exI [of _ t]) (auto simp: m numeral_3_eq_3)
qed

end
