(* ===== verification/Ring.thy ===== *)
theory Ring
  imports Prelude
begin

text \<open>
  Byte queues in a ring. The kernel keeps several (a pipe, the input of the console, the output of the serial port) as an
  array of \<open>n\<close> bytes and word counters that are never reduced: the byte at count \<open>i\<close> is in slot \<open>i mod n\<close>. \<open>ring b n i k\<close> is
  the queue of \<open>k\<close> bytes that starts at count \<open>i\<close>. The size divides the range of the counters, so their wrap-around is harmless.
\<close>

definition ring :: "(nat \<Rightarrow> byte) \<Rightarrow> nat \<Rightarrow> nat \<Rightarrow> nat \<Rightarrow> byte list" where
  "ring b n i k = map (\<lambda>j. b ((i + j) mod n)) [0..<k]"

lemma length_ring [simp]: "length (ring b n i k) = k"
  by (simp add: ring_def)

lemma ring_0 [simp]: "ring b n i 0 = []"
  by (simp add: ring_def)

lemma ring_Suc: "ring b n i (Suc k) = ring b n i k @ [b ((i + k) mod n)]"
  by (simp add: ring_def)

lemma ring_add: "ring b n i (k + l) = ring b n i k @ ring b n (i + k) l"
  by (induction l) (simp_all add: ring_Suc add.assoc)

lemma ring_pop: "ring b n i (Suc k) = b (i mod n) # ring b n (Suc i) k"
  using ring_add [of b n i 1 k] by (simp add: ring_def)

lemma ring_cong: "i mod n = j mod n \<Longrightarrow> ring b n i k = ring b n j k"
proof -
  assume "i mod n = j mod n"
  then have "(i + l) mod n = (j + l) mod n" for l by (rule mod_add_cong) simp
  then show ?thesis by (simp add: ring_def)
qed

lemma ring_slot_inj: "(i + k) mod n = (i + l) mod n \<Longrightarrow> k < n \<Longrightarrow> l < n \<Longrightarrow> k = (l :: nat)"
proof -
  assume "(i + k) mod n = (i + l) mod n" "k < n" "l < n"
  then have "k mod n = l mod n" unfolding nat_mod_eq_iff by auto
  then show ?thesis using \<open>k < n\<close> \<open>l < n\<close> by simp
qed

lemma ring_keep: "k \<le> l \<Longrightarrow> l < n \<Longrightarrow> ring (b((i + l) mod n := c)) n i k = ring b n i k"
  by (auto simp: ring_def dest: ring_slot_inj)

lemma ring_push: "k < n \<Longrightarrow> ring (b((i + k) mod n := c)) n i (Suc k) = ring b n i k @ [c]"
  by (simp add: ring_Suc ring_keep)

section \<open>Word counters\<close>

lemma unat_mod_add:
  fixes x y :: "'a :: len word"
  assumes "n dvd 2 ^ LENGTH('a)"
  shows "unat (x + y) mod n = (unat x + unat y) mod n"
  using assms by (simp add: unat_word_ariths mod_mod_cancel)

lemma unat_mod_diff:
  fixes x y :: "'a :: len word"
  assumes "n dvd 2 ^ LENGTH('a)"
  shows "(unat x + unat (y - x)) mod n = unat y mod n"
  using unat_mod_add [OF assms, of x "y - x"] by simp

lemma unat_diff_split:
  fixes x y z :: "'a :: len word"
  assumes "unat (y - x) + unat (z - y) < 2 ^ LENGTH('a)"
  shows "unat (z - x) = unat (y - x) + unat (z - y)"
proof -
  have "z - x = (y - x) + (z - y)" by simp
  then show ?thesis using assms by (metis unat_add_lem)
qed

lemma unat_diff_Suc:
  fixes x y :: "'a :: len word"
  assumes "Suc (unat (y - x)) < 2 ^ LENGTH('a)"
  shows "unat (y + 1 - x) = Suc (unat (y - x))"
proof -
  have "unat ((y - x) + 1) = unat (y - x) + unat (1 :: 'a word)" using assms by (subst unat_add_lem [symmetric]) simp
  then show ?thesis by (simp add: diff_add_eq)
qed

lemma unat_diff_pred:
  fixes x y :: "'a :: len word"
  assumes "x \<noteq> y"
  shows "unat (y - (x + 1)) = unat (y - x) - 1" "unat (y - 1 - x) = unat (y - x) - 1" "unat (y - x) \<noteq> 0"
proof -
  have n: "y - x \<noteq> 0" using assms by simp
  have e: "y - (x + 1) = (y - x) - 1" "y - 1 - x = (y - x) - 1" by simp_all
  show "unat (y - (x + 1)) = unat (y - x) - 1" "unat (y - 1 - x) = unat (y - x) - 1" "unat (y - x) \<noteq> 0"
    unfolding e using n by (simp_all only: unat_minus_one unat_eq_zero not_False_eq_True)
qed

end
