(* ===== verification/Uart.thy ===== *)
theory Uart
  imports Sysproc Ring
begin

text \<open>
  The serial port, \<^verbatim>\<open>kernel/src/uart.c\<close>, with the state of the console and \<open>consputc\<close> of \<^verbatim>\<open>kernel/src/console.c\<close>.

  The UART is a device with eight byte registers: \<open>uart_io\<close> is the history of accesses to them, and the parameter \<open>uart\<close> gives
  the value of a read from the history before it. The routine \<open>uartputc_sync\<close> that \<open>consputc\<close> calls is declared but not
  defined in the repository; it is the parameter \<open>sync_putc\<close>. The output of the UART is a ring of 32 bytes between \<open>tx_r\<close> and \<open>tx_w\<close>.
\<close>

section \<open>State\<close>

definition UART_TX_BUF_SIZE :: nat where "UART_TX_BUF_SIZE = 32"
definition BACKSPACE :: int where "BACKSPACE = 0x100"

definition RHR :: nat where "RHR = 0"
definition THR :: nat where "THR = 0"
definition IER :: nat where "IER = 1"
definition FCR :: nat where "FCR = 2"
definition LCR :: nat where "LCR = 3"
definition LSR :: nat where "LSR = 5"
definition IER_RX_ENABLE :: byte where "IER_RX_ENABLE = 1"
definition IER_TX_ENABLE :: byte where "IER_TX_ENABLE = 2"
definition FCR_FIFO_ENABLE :: byte where "FCR_FIFO_ENABLE = 1"
definition FCR_FIFO_CLEAR :: byte where "FCR_FIFO_CLEAR = 6"
definition LCR_EIGHT_BITS :: byte where "LCR_EIGHT_BITS = 3"
definition LCR_BAUD_LATCH :: byte where "LCR_BAUD_LATCH = 128"
definition LSR_TX_IDLE :: byte where "LSR_TX_IDLE = 32"

datatype uart_access = URead nat | UWrite nat byte

record consbuf =
  c_buf :: "nat \<Rightarrow> byte"
  c_r :: uint
  c_w :: uint
  c_e :: uint

text \<open>\<open>panicked\<close> and \<open>pr_locking\<close> belong to \<^verbatim>\<open>kernel/src/printf.c\<close>, \<open>consbuf\<close> to \<^verbatim>\<open>kernel/src/console.c\<close>.\<close>

record consst = sysst +
  cons :: consbuf
  uart_tx_buf :: "nat \<Rightarrow> byte"
  uart_tx_w :: uint64
  uart_tx_r :: uint64
  panicked :: bool
  pr_locking :: bool
  uart_io :: "uart_access list"

type_synonym uart_dev = "uart_access list \<Rightarrow> nat \<Rightarrow> byte"
type_synonym 'z putc = "byte \<Rightarrow> ('z consst_scheme, unit) km"

definition ReadReg :: "uart_dev \<Rightarrow> nat \<Rightarrow> ('z consst_scheme, byte) km" where
  "ReadReg uart r =
     bnd (gets uart_io) (\<lambda>h.
     seq (modify (\<lambda>s. s\<lparr>uart_io := h @ [URead r]\<rparr>)) (
     ret (uart h r)))"

definition WriteReg :: "nat \<Rightarrow> byte \<Rightarrow> ('z consst_scheme, unit) km" where
  "WriteReg r v = modify (\<lambda>s. s\<lparr>uart_io := uart_io s @ [UWrite r v]\<rparr>)"

section \<open>The serial port\<close>

definition uartinit :: "('z consst_scheme, unit) km" where
  "uartinit =
     seq (WriteReg IER 0) (
     seq (WriteReg LCR LCR_BAUD_LATCH) (
     seq (WriteReg 0 3) (
     seq (WriteReg 1 0) (
     seq (WriteReg LCR LCR_EIGHT_BITS) (
     seq (WriteReg FCR (FCR_FIFO_ENABLE OR FCR_FIFO_CLEAR)) (
     seq (WriteReg IER (IER_RX_ENABLE OR IER_TX_ENABLE)) (
     initlock Uart_tx_lock ''uart'')))))))"

definition uartgetc :: "uart_dev \<Rightarrow> ('z consst_scheme, int) km" where
  "uartgetc uart =
     bnd (ReadReg uart LSR) (\<lambda>l.
     if l AND 1 \<noteq> 0 then bnd (ReadReg uart RHR) (\<lambda>c. ret (uint c)) else ret (- 1))"

text \<open>
  The loop of \<open>uartstart\<close>. It takes a byte out of the ring in every round, so the number of bytes in the ring bounds the
  rounds; with none left, the two counters are equal.
\<close>

fun uartstart_loop :: "uart_dev \<Rightarrow> nat \<Rightarrow> ('z consst_scheme, unit) km" where
  "uartstart_loop uart 0 = ret ()"
| "uartstart_loop uart (Suc n) =
     bnd (gets (\<lambda>s. uart_tx_w s = uart_tx_r s)) (\<lambda>empty.
     if empty then ret ()
     else bnd (ReadReg uart LSR) (\<lambda>l.
       if l AND LSR_TX_IDLE = 0 then ret ()
       else bnd (gets (\<lambda>s. uart_tx_buf s (unat (uart_tx_r s) mod UART_TX_BUF_SIZE))) (\<lambda>c.
         seq (modify (\<lambda>s. s\<lparr>uart_tx_r := uart_tx_r s + 1\<rparr>)) (
         seq (wakeup Uart_tx_chan) (
         seq (WriteReg THR c) (
         uartstart_loop uart n))))))"

definition uartstart :: "uart_dev \<Rightarrow> ('z consst_scheme, unit) km" where
  "uartstart uart = bnd (gets (\<lambda>s. unat (uart_tx_w s - uart_tx_r s))) (\<lambda>n. uartstart_loop uart n)"

definition uartputc_loop :: "uart_dev \<Rightarrow> byte \<Rightarrow> ('z consst_scheme, unit) km" where
  "uartputc_loop uart c =
     bnd (gets (\<lambda>s. uart_tx_w s = uart_tx_r s + of_nat UART_TX_BUF_SIZE)) (\<lambda>full.
     if full then sleep Uart_tx_chan Uart_tx_lock
     else
       seq (modify (\<lambda>s. s\<lparr>uart_tx_buf := (uart_tx_buf s)(unat (uart_tx_w s) mod UART_TX_BUF_SIZE := c), uart_tx_w := uart_tx_w s + 1\<rparr>)) (
       seq (uartstart uart) (
       release Uart_tx_lock)))"

definition uartputc :: "uart_dev \<Rightarrow> byte \<Rightarrow> ('z consst_scheme, unit) km" where
  "uartputc uart c =
     seq (acquire Uart_tx_lock) (
     bnd (gets panicked) (\<lambda>p.
     if p then spin else uartputc_loop uart c))"

definition uartputc_resume :: "nat \<Rightarrow> bool \<Rightarrow> uart_dev \<Rightarrow> byte \<Rightarrow> ('z consst_scheme, unit) km" where
  "uartputc_resume i intr_enabled uart c = seq (sleep_resume i intr_enabled Uart_tx_lock) (uartputc_loop uart c)"

fun uartputs :: "uart_dev \<Rightarrow> byte list \<Rightarrow> ('z consst_scheme, unit) km" where
  "uartputs uart [] = ret ()"
| "uartputs uart (c # cs) =
     (if c = 0 then ret ()
      else seq (whenM (c = 10) (uartputc uart 13)) (seq (uartputc uart c) (uartputs uart cs)))"

section \<open>Characters to the console\<close>

definition consputc :: "'z putc \<Rightarrow> int \<Rightarrow> ('z consst_scheme, unit) km" where
  "consputc sync_putc c =
     (if c = BACKSPACE then seq (sync_putc 8) (seq (sync_putc 0x20) (sync_putc 8)) else sync_putc (word_of_int c))"

text \<open>What is relied on of \<open>uartputc_sync\<close>: it returns, and it touches nothing but the device.\<close>

definition putc_ok :: "'z putc \<Rightarrow> bool" where
  "putc_ok f \<longleftrightarrow> (\<forall>d u. \<exists>io. f d u = Ok () (u\<lparr>uart_io := io\<rparr>))"

lemma consst_upd_order [simp]:
  "(s :: 'z consst_scheme)\<lparr>uart_io := i, cons := b\<rparr> = s\<lparr>cons := b, uart_io := i\<rparr>"
  "(s :: 'z consst_scheme)\<lparr>uart_io := i, sync := y\<rparr> = s\<lparr>sync := y, uart_io := i\<rparr>"
  "(s :: 'z consst_scheme)\<lparr>uart_io := i, procs := p\<rparr> = s\<lparr>procs := p, uart_io := i\<rparr>"
  "(s :: 'z consst_scheme)\<lparr>cons := b, sync := y\<rparr> = s\<lparr>sync := y, cons := b\<rparr>"
  "(s :: 'z consst_scheme)\<lparr>cons := b, procs := p\<rparr> = s\<lparr>procs := p, cons := b\<rparr>"
  by simp_all

lemma cur_cons [simp]: "cur ((s :: 'z consst_scheme)\<lparr>cons := b\<rparr>) = cur s" "cur (s\<lparr>uart_io := i\<rparr>) = cur s"
  by (simp_all add: cur_def)

lemma consputc_run:
  assumes "putc_ok f"
  obtains io where "consputc f c u = Ok () (u\<lparr>uart_io := io\<rparr>)"
proof -
  have o: "\<exists>io. f d v = Ok () (v\<lparr>uart_io := io\<rparr>)" for d v using assms by (simp add: putc_ok_def)
  obtain i1 where 1: "f 8 u = Ok () (u\<lparr>uart_io := i1\<rparr>)" using o by blast
  obtain i2 where 2: "f 0x20 (u\<lparr>uart_io := i1\<rparr>) = Ok () (u\<lparr>uart_io := i2\<rparr>)" using o [of "0x20" "u\<lparr>uart_io := i1\<rparr>"] by auto
  obtain i3 where 3: "f 8 (u\<lparr>uart_io := i2\<rparr>) = Ok () (u\<lparr>uart_io := i3\<rparr>)" using o [of 8 "u\<lparr>uart_io := i2\<rparr>"] by auto
  obtain i4 where 4: "f (word_of_int c) u = Ok () (u\<lparr>uart_io := i4\<rparr>)" using o by blast
  show thesis using that 1 2 3 4 by (cases "c = BACKSPACE") (auto simp: consputc_def)
qed

lemma held_wakeup:
  assumes "procs_free y" "proc_free_lock l" "sync s = lock_acq l y"
  shows "wakeup ch s = Ok () (s\<lparr>procs := awaken (cur s) ch 0 NPROC (procs s)\<rparr>)"
proof -
  have f: "procs_free (sync s)" using procs_free_acq [OF assms(1), of l] assms(2,3) by (simp add: proc_free_lock_def)
  have q: "s\<lparr>sync := quiet (sync s)\<rparr> = s" using assms(1,3) by (simp add: procs_freeD)
  show ?thesis using wakeup_run [OF f, of ch] by (simp add: q)
qed

lemma cons_lock_free [simp]: "proc_free_lock Cons_lock" "proc_free_lock Uart_tx_lock"
  by (simp_all add: proc_free_lock_def)

section \<open>Output to the serial port\<close>

text \<open>The bytes that went to the transmit register, and the bytes that wait in the ring.\<close>

fun sent :: "uart_access list \<Rightarrow> byte list" where
  "sent [] = []"
| "sent (URead r # h) = sent h"
| "sent (UWrite r v # h) = (if r = THR then v # sent h else sent h)"

definition tx_queue :: "'z consst_scheme \<Rightarrow> byte list" where
  "tx_queue s = ring (uart_tx_buf s) UART_TX_BUF_SIZE (unat (uart_tx_r s)) (unat (uart_tx_w s - uart_tx_r s))"

lemma sent_append [simp]: "sent (h @ h') = sent h @ sent h'"
  by (induction h rule: sent.induct) auto

lemma uart_ring_size: "UART_TX_BUF_SIZE dvd 2 ^ LENGTH(64)"
  by (simp add: UART_TX_BUF_SIZE_def)

lemma tx_pop:
  assumes "uart_tx_w s \<noteq> uart_tx_r s"
  shows "tx_queue s = uart_tx_buf s (unat (uart_tx_r s) mod UART_TX_BUF_SIZE) # tx_queue (s\<lparr>uart_tx_r := uart_tx_r s + 1\<rparr>)"
proof -
  let ?n = "unat (uart_tx_w s - (uart_tx_r s + 1))"
  have n: "unat (uart_tx_w s - uart_tx_r s) = Suc ?n" using assms unat_diff_pred [of "uart_tx_r s" "uart_tx_w s"] by simp
  have "ring (uart_tx_buf s) UART_TX_BUF_SIZE (Suc (unat (uart_tx_r s))) ?n = ring (uart_tx_buf s) UART_TX_BUF_SIZE (unat (uart_tx_r s + 1)) ?n"
    by (rule ring_cong) (simp add: unat_mod_add [OF uart_ring_size])
  then show ?thesis by (simp add: tx_queue_def n ring_pop)
qed

lemma tx_push:
  assumes "length (tx_queue s) < UART_TX_BUF_SIZE"
  shows "tx_queue (s\<lparr>uart_tx_buf := (uart_tx_buf s)(unat (uart_tx_w s) mod UART_TX_BUF_SIZE := c), uart_tx_w := uart_tx_w s + 1\<rparr>) = tx_queue s @ [c]"
proof -
  let ?n = "unat (uart_tx_w s - uart_tx_r s)"
  have n: "?n < UART_TX_BUF_SIZE" using assms by (simp add: tx_queue_def)
  then have "unat (uart_tx_w s + 1 - uart_tx_r s) = Suc ?n" by (subst unat_diff_Suc) (simp_all add: UART_TX_BUF_SIZE_def)
  then show ?thesis using n by (simp add: tx_queue_def unat_mod_diff [OF uart_ring_size, of "uart_tx_r s", symmetric] ring_push)
qed

lemma tx_full_iff: "uart_tx_w s = uart_tx_r s + of_nat UART_TX_BUF_SIZE \<longleftrightarrow> length (tx_queue s) = UART_TX_BUF_SIZE"
proof -
  have "length (tx_queue s) = UART_TX_BUF_SIZE \<longleftrightarrow> uart_tx_w s - uart_tx_r s = 32"
    by (simp add: tx_queue_def UART_TX_BUF_SIZE_def word_unat_eq_iff)
  then show ?thesis by (simp add: UART_TX_BUF_SIZE_def diff_eq_eq add.commute)
qed

lemma awaken_idem [simp]: "awaken me ch lo hi (awaken me ch lo hi ps) = awaken me ch lo hi ps"
  by (auto simp: awaken_def fun_eq_iff)

lemma tx_upd_order [simp]:
  "(s :: 'z consst_scheme)\<lparr>uart_io := i, uart_tx_r := r\<rparr> = s\<lparr>uart_tx_r := r, uart_io := i\<rparr>"
  "(s :: 'z consst_scheme)\<lparr>uart_tx_r := r, procs := p\<rparr> = s\<lparr>procs := p, uart_tx_r := r\<rparr>"
  "(s :: 'z consst_scheme)\<lparr>uart_tx_r := r, sync := y\<rparr> = s\<lparr>sync := y, uart_tx_r := r\<rparr>"
  "cur (s\<lparr>uart_tx_r := r\<rparr>) = cur s"
  by (simp_all add: cur_def)

text \<open>
  What \<open>uartstart\<close> does: it moves a prefix of the queue to the device, and stops at the end of the queue or when the device, asked
  after the last byte, is not idle. If it sent a byte it made the processes waiting for room runnable.
\<close>

definition started :: "uart_dev \<Rightarrow> 'z consst_scheme \<Rightarrow> 'z consst_scheme \<Rightarrow> bool" where
  "started uart s t \<longleftrightarrow> (\<exists>r h. t = s\<lparr>procs := (if sent h = [] then procs s else awaken (cur s) Uart_tx_chan 0 NPROC (procs s)),
       uart_tx_r := r, uart_io := uart_io s @ h\<rparr> \<and>
     sent h @ tx_queue t = tx_queue s \<and>
     (tx_queue t = [] \<or> (\<exists>g. h = g @ [URead LSR] \<and> uart (uart_io s @ g) LSR AND LSR_TX_IDLE = 0)))"

lemma tx_queue_upd [simp]:
  "tx_queue (s\<lparr>uart_io := h\<rparr>) = tx_queue s" "tx_queue (s\<lparr>procs := p\<rparr>) = tx_queue s" "tx_queue (s\<lparr>sync := y\<rparr>) = tx_queue s"
  "tx_queue (s\<lparr>procs := p, uart_tx_r := r\<rparr>) = tx_queue (s\<lparr>uart_tx_r := r\<rparr>)"
  "tx_queue (s\<lparr>uart_tx_r := r, uart_io := h\<rparr>) = tx_queue (s\<lparr>uart_tx_r := r\<rparr>)"
  by (simp_all add: tx_queue_def)

lemma started_step:
  fixes s :: "'z consst_scheme"
  defines "p \<equiv> awaken (cur s) Uart_tx_chan 0 NPROC (procs s)"
  assumes "started uart (s\<lparr>procs := p, uart_tx_r := r, uart_io := uart_io s @ [URead LSR, UWrite THR c]\<rparr>) t" (is "started uart ?w t")
    "tx_queue s = c # tx_queue (s\<lparr>uart_tx_r := r\<rparr>)"
  shows "started uart s t"
proof -
  obtain r' h where t: "t = ?w\<lparr>procs := (if sent h = [] then procs ?w else awaken (cur ?w) Uart_tx_chan 0 NPROC (procs ?w)), uart_tx_r := r', uart_io := uart_io ?w @ h\<rparr>"
    and q: "sent h @ tx_queue t = tx_queue ?w"
    and e: "tx_queue t = [] \<or> (\<exists>g. h = g @ [URead LSR] \<and> uart (uart_io ?w @ g) LSR AND LSR_TX_IDLE = 0)"
    using assms(2) unfolding started_def by blast
  have c: "cur ?w = cur s" by (simp add: cur_def)
  have "(if sent h = [] then procs ?w else awaken (cur ?w) Uart_tx_chan 0 NPROC (procs ?w)) = p" unfolding c by (simp add: p_def)
  then have "t = s\<lparr>procs := p, uart_tx_r := r', uart_io := uart_io s @ ([URead LSR, UWrite THR c] @ h)\<rparr>" using t by simp
  moreover have "sent ([URead LSR, UWrite THR c] @ h) @ tx_queue t = tx_queue s" using q assms(3) by simp
  moreover have "tx_queue t = [] \<or> (\<exists>g. [URead LSR, UWrite THR c] @ h = g @ [URead LSR] \<and> uart (uart_io s @ g) LSR AND LSR_TX_IDLE = 0)"
    using e
  proof
    assume "\<exists>g. h = g @ [URead LSR] \<and> uart (uart_io ?w @ g) LSR AND LSR_TX_IDLE = 0"
    then obtain g where "h = g @ [URead LSR]" "uart (uart_io ?w @ g) LSR AND LSR_TX_IDLE = 0" by blast
    then show ?thesis by (intro disjI2 exI [of _ "[URead LSR, UWrite THR c] @ g"]) simp
  qed simp
  ultimately show ?thesis unfolding started_def by (intro exI [of _ r'] exI [of _ "[URead LSR, UWrite THR c] @ h"]) (simp add: p_def)
qed

lemma uartstart_loop_run:
  assumes "procs_free y" "sync s = lock_acq Uart_tx_lock y" "n = unat (uart_tx_w s - uart_tx_r s)"
  shows "\<exists>t. uartstart_loop uart n s = Ok () t \<and> started uart s t"
  using assms(2,3)
proof (induction n arbitrary: s)
  case 0
  then have "tx_queue s = []" by (simp add: tx_queue_def)
  then have "started uart s s" unfolding started_def by (intro exI [of _ "uart_tx_r s"] exI [of _ "[]"]) simp
  then show ?case by simp
next
  case (Suc n)
  have ne: "uart_tx_w s \<noteq> uart_tx_r s" using Suc.prems(2) by auto
  let ?busy = "uart (uart_io s) LSR AND LSR_TX_IDLE = 0"
  show ?case
  proof (cases ?busy)
    case True
    then have "uartstart_loop uart (Suc n) s = Ok () (s\<lparr>uart_io := uart_io s @ [URead LSR]\<rparr>)" using ne by (simp add: ReadReg_def)
    moreover have "started uart s (s\<lparr>uart_io := uart_io s @ [URead LSR]\<rparr>)"
      unfolding started_def using True by (intro exI [of _ "uart_tx_r s"] exI [of _ "[URead LSR]"]) simp
    ultimately show ?thesis by blast
  next
    case False
    let ?c = "uart_tx_buf s (unat (uart_tx_r s) mod UART_TX_BUF_SIZE)"
    let ?v = "s\<lparr>uart_tx_r := uart_tx_r s + 1, uart_io := uart_io s @ [URead LSR]\<rparr>"
    let ?w = "s\<lparr>procs := awaken (cur s) Uart_tx_chan 0 NPROC (procs s), uart_tx_r := uart_tx_r s + 1, uart_io := uart_io s @ [URead LSR, UWrite THR ?c]\<rparr>"
    have "wakeup Uart_tx_chan ?v = Ok () (?v\<lparr>procs := awaken (cur s) Uart_tx_chan 0 NPROC (procs s)\<rparr>)"
      using held_wakeup [OF assms(1), of Uart_tx_lock ?v] Suc.prems(1) by simp
    then have run: "uartstart_loop uart (Suc n) s = uartstart_loop uart n ?w"
      using ne False by (simp add: ReadReg_def WriteReg_def)
    have n: "n = unat (uart_tx_w ?w - uart_tx_r ?w)" using Suc.prems(2) unat_diff_pred(1) [of "uart_tx_r s" "uart_tx_w s"] ne by simp
    obtain t where "uartstart_loop uart n ?w = Ok () t" "started uart ?w t" using Suc.IH [of ?w] Suc.prems(1) n by auto
    then show ?thesis using run started_step [where r = "uart_tx_r s + 1" and c = ?c] tx_pop [OF ne] by auto
  qed
qed

text \<open>
  C22: Output is a queue: when \<open>uartputc\<close> returns, the bytes given to the device followed by those in the ring are the ones before,
  then \<open>c\<close>, none lost, doubled or out of order, also when the counters wrap; bytes stay in the ring only because the device said
  after the last one that it was busy. With 32 bytes in the ring the caller sleeps until \<open>uartstart\<close> makes room, with the lock
  free and the queue as it was; after a panic it spins.
\<close>

theorem uartputc_correct:
  assumes "running s i" "lock_free Uart_tx_lock (sync s)" "length (tx_queue s) \<le> UART_TX_BUF_SIZE"
  shows "if panicked s then uartputc uart c s = Spin
    else if length (tx_queue s) = UART_TX_BUF_SIZE
    then \<exists>t. uartputc uart c s = Swtch t \<and> pstate (procs t i) = SLEEPING \<and> pchan (procs t i) = Uart_tx_chan \<and>
      lock_free Uart_tx_lock (sync t) \<and> uart_io t = uart_io s \<and> tx_queue t = tx_queue s
    else \<exists>t. uartputc uart c s = Ok () t \<and> sent (uart_io t) @ tx_queue t = sent (uart_io s) @ tx_queue s @ [c] \<and>
      length (tx_queue t) \<le> UART_TX_BUF_SIZE \<and> sync t = quiet (sync s) \<and>
      (tx_queue t = [] \<or> (\<exists>g. uart_io t = g @ [URead LSR] \<and> uart g LSR AND LSR_TX_IDLE = 0))"
proof -
  let ?l = Uart_tx_lock
  have y: "procs_free (sync s)" "sync_ok (sync s)" "cur s = Some i" using assms(1) by (auto simp: running_def procs_freeD)
  define u where "u = s\<lparr>sync := lock_acq ?l (sync s)\<rparr>"
  have u: "sync u = lock_acq ?l (sync s)" "cur u = Some i" "tx_queue u = tx_queue s" "uart_io u = uart_io s"
    using y(3) by (simp_all add: u_def)
  have acq: "uartputc uart c s = (if panicked s then Spin else uartputc_loop uart c u)"
    using y assms(2) by (simp add: uartputc_def acquire_run u_def)
  show ?thesis
  proof (cases "panicked s")
    case False
    show ?thesis
    proof (cases "length (tx_queue s) = UART_TX_BUF_SIZE")
      case True
      have "sleep Uart_tx_chan ?l u = Swtch (u\<lparr>sync := lock_acq (Proc_lock i) (sync s), procs := (procs u)(i := (procs u i)\<lparr>pchan := Uart_tx_chan, pstate := SLEEPING\<rparr>)\<rparr>)"
        by (rule sleep_run) (use y assms(2) u in auto)
      moreover have "uart_tx_w u = uart_tx_r u + of_nat UART_TX_BUF_SIZE" using True u(3) tx_full_iff [of u] by simp
      ultimately show ?thesis using False True acq u assms(2) by (auto simp: uartputc_loop_def)
    next
      case nf: False
      let ?v = "u\<lparr>uart_tx_buf := (uart_tx_buf u)(unat (uart_tx_w u) mod UART_TX_BUF_SIZE := c), uart_tx_w := uart_tx_w u + 1\<rparr>"
      have lt: "length (tx_queue u) < UART_TX_BUF_SIZE" using nf assms(3) u(3) by simp
      have q: "tx_queue ?v = tx_queue s @ [c]" using tx_push [OF lt, of c] u(3) by simp
      obtain t where t: "uartstart uart ?v = Ok () t" "started uart ?v t"
        using uartstart_loop_run [OF y(1), of ?v "unat (uart_tx_w ?v - uart_tx_r ?v)" uart] u(1) by (auto simp: uartstart_def)
      have "sync t = lock_acq ?l (sync s)" using t(2) u(1) by (auto simp: started_def)
      then have "release ?l t = Ok () (t\<lparr>sync := quiet (sync s)\<rparr>)" using y(2) assms(2) by (simp add: release_acq)
      moreover have "uart_tx_w u \<noteq> uart_tx_r u + of_nat UART_TX_BUF_SIZE" using lt tx_full_iff [of u] by auto
      ultimately have run: "uartputc uart c s = Ok () (t\<lparr>sync := quiet (sync s)\<rparr>)"
        using False acq t(1) by (simp add: uartputc_loop_def)
      obtain h where h: "uart_io t = uart_io s @ h" "sent h @ tx_queue t = tx_queue s @ [c]"
        "tx_queue t = [] \<or> (\<exists>g. h = g @ [URead LSR] \<and> uart (uart_io s @ g) LSR AND LSR_TX_IDLE = 0)"
        using t(2) q u(4) unfolding started_def by auto
      have "length (tx_queue t) \<le> Suc (length (tx_queue s))" using arg_cong [OF h(2), of length] by simp
      then show ?thesis using False nf run h assms(3) by (auto intro!: exI [of _ "t\<lparr>sync := quiet (sync s)\<rparr>"])
    qed
  qed (simp add: acq)
qed


section \<open>Witness\<close>

text \<open>Two bytes in the ring and a device that is busy after the first one.\<close>

theorem uartputc_correct_witness:
  "\<exists>(s :: consst) t. tx_queue s = [1, 2] \<and> uartputc (\<lambda>h r. if length h < 2 then LSR_TX_IDLE else 0) 3 s = Ok () t \<and>
     sent (uart_io t) @ tx_queue t = [1, 2, 3]"
proof -
  define s :: consst where "s = (undefined :: consst)\<lparr>sync := demo_sync, panicked := False, uart_io := [],
    uart_tx_buf := (\<lambda>k. if k = 31 then 1 else 2), uart_tx_r := - 1, uart_tx_w := 1\<rparr>"
  have s: "running s 0" "sync s = demo_sync" "\<not> panicked s" "uart_io s = []" "tx_queue s = [1, 2]"
    using demo_sync_free by (simp_all add: s_def running_def cur_def tx_queue_def ring_def UART_TX_BUF_SIZE_def upt_rec)
      (simp add: demo_sync_def idle_sync_def)
  then show ?thesis using uartputc_correct [OF s(1), of "\<lambda>h r. if length h < 2 then LSR_TX_IDLE else 0" 3]
    by (auto simp: demo_sync_free UART_TX_BUF_SIZE_def)
qed

end
