(* ===== verification/Printf.thy ===== *)
theory Printf
  imports Uart
begin

text \<open>
  Formatted output, \<^verbatim>\<open>kernel/src/printf.c\<close>.

  The variable arguments are a list: a machine word for a number or pointer, a string (or NULL) for \<open>%s\<close>. Reading an
  argument that was not passed, and writing past the 16 characters of the buffer in \<open>printint\<close>, have no defined behaviour in C; the
  first is the panic \<open>''va_arg''\<close> of the model, the second \<open>''printint''\<close>. The kernel's own \<open>panic\<close> is \<open>kpanic\<close> here: it prints, sets
  \<open>panicked\<close> and loops; everywhere else the outcome \<open>Panic\<close> stands for it.
\<close>

section \<open>Numbers\<close>

definition digits :: "byte list" where
  "digits = [0x30, 0x31, 0x32, 0x33, 0x34, 0x35, 0x36, 0x37, 0x38, 0x39, 0x61, 0x62, 0x63, 0x64, 0x65, 0x66]"

text \<open>The loop of \<open>printint\<close>, low digit first. A base below 2, for which the C loop would not end, is never passed.\<close>

function digit_loop :: "nat \<Rightarrow> nat \<Rightarrow> nat list" where
  "digit_loop base x = (x mod base) # (if base < 2 \<or> x div base = 0 then [] else digit_loop base (x div base))"
  by auto
termination
proof (relation "measure snd")
  fix base x :: nat
  assume "\<not> (base < 2 \<or> x div base = 0)"
  then show "((base, x div base), base, x) \<in> measure snd" by (cases "x = 0") auto
qed auto

declare digit_loop.simps [simp del]

definition printint_buf :: "uint64 \<Rightarrow> nat \<Rightarrow> bool \<Rightarrow> byte list" where
  "printint_buf xx base sign =
     (let neg = (sign \<and> sint xx < 0);
          x = (if neg then - xx else xx)
      in map (\<lambda>d. digits ! d) (digit_loop base (unat x)) @ (if neg then [0x2d] else []))"

fun put_all :: "'z putc \<Rightarrow> byte list \<Rightarrow> ('z consst_scheme, unit) km" where
  "put_all sync_putc [] = ret ()"
| "put_all sync_putc (c # cs) = seq (consputc sync_putc (uint c)) (put_all sync_putc cs)"

definition printint :: "'z putc \<Rightarrow> uint64 \<Rightarrow> nat \<Rightarrow> bool \<Rightarrow> ('z consst_scheme, unit) km" where
  "printint sync_putc xx base sign =
     (let buf = printint_buf xx base sign
      in if length buf > 16 then panic ''printint'' else put_all sync_putc (rev buf))"

fun printptr_loop :: "'z putc \<Rightarrow> uint64 \<Rightarrow> nat \<Rightarrow> ('z consst_scheme, unit) km" where
  "printptr_loop sync_putc x 0 = ret ()"
| "printptr_loop sync_putc x (Suc n) =
     seq (consputc sync_putc (uint (digits ! unat (drop_bit 60 x)))) (printptr_loop sync_putc (push_bit 4 x) n)"

definition printptr :: "'z putc \<Rightarrow> uint64 \<Rightarrow> ('z consst_scheme, unit) km" where
  "printptr sync_putc x = seq (consputc sync_putc 0x30) (seq (consputc sync_putc 0x78) (printptr_loop sync_putc x 16))"

section \<open>printf\<close>

datatype varg = VNum uint64 | VStr "byte list option"

text \<open>\<open>va_arg\<close> for an \<open>int\<close> (widened to \<open>long long\<close>), for a \<open>uint64\<close> and for a string.\<close>

definition arg_int :: "varg list \<Rightarrow> (uint64 \<Rightarrow> ('s, 'a) km) \<Rightarrow> ('s, 'a) km" where
  "arg_int ap f = (case ap of VNum w # _ \<Rightarrow> f (scast (ucast w :: uint)) | _ \<Rightarrow> panic ''va_arg'')"

definition arg_long :: "varg list \<Rightarrow> (uint64 \<Rightarrow> ('s, 'a) km) \<Rightarrow> ('s, 'a) km" where
  "arg_long ap f = (case ap of VNum w # _ \<Rightarrow> f w | _ \<Rightarrow> panic ''va_arg'')"

definition arg_str :: "varg list \<Rightarrow> (byte list \<Rightarrow> ('s, 'a) km) \<Rightarrow> ('s, 'a) km" where
  "arg_str ap f =
     (case ap of VStr None # _ \<Rightarrow> f [0x28, 0x6e, 0x75, 0x6c, 0x6c, 0x29] | VStr (Some s) # _ \<Rightarrow> f (takeWhile (\<lambda>c. c \<noteq> 0) s) | _ \<Rightarrow> panic ''va_arg'')"

text \<open>
  The conversion after a percent sign: what is printed with the arguments \<open>ap\<close>, how many further characters of the format and how many
  arguments it takes, or \<open>None\<close> at the end of the format.
\<close>

definition conv :: "'z putc \<Rightarrow> varg list \<Rightarrow> byte \<Rightarrow> byte \<Rightarrow> byte \<Rightarrow> (('z consst_scheme, unit) km \<times> nat \<times> nat) option" where
  "conv f ap c0 c1 c2 =
     (if c0 = 0x64 then Some (arg_int ap (\<lambda>w. printint f w 10 True), 0, 1)
      else if c0 = 0x6c \<and> c1 = 0x64 then Some (arg_long ap (\<lambda>w. printint f w 10 True), 1, 1)
      else if c0 = 0x6c \<and> c1 = 0x6c \<and> c2 = 0x64 then Some (arg_long ap (\<lambda>w. printint f w 10 True), 2, 1)
      else if c0 = 0x75 then Some (arg_int ap (\<lambda>w. printint f w 10 False), 0, 1)
      else if c0 = 0x6c \<and> c1 = 0x75 then Some (arg_long ap (\<lambda>w. printint f w 10 False), 1, 1)
      else if c0 = 0x6c \<and> c1 = 0x6c \<and> c2 = 0x75 then Some (arg_long ap (\<lambda>w. printint f w 10 False), 2, 1)
      else if c0 = 0x78 then Some (arg_int ap (\<lambda>w. printint f w 16 False), 0, 1)
      else if c0 = 0x6c \<and> c1 = 0x78 then Some (arg_long ap (\<lambda>w. printint f w 16 False), 1, 1)
      else if c0 = 0x6c \<and> c1 = 0x6c \<and> c2 = 0x78 then Some (arg_long ap (\<lambda>w. printint f w 16 False), 2, 1)
      else if c0 = 0x70 then Some (arg_long ap (\<lambda>w. printptr f w), 0, 1)
      else if c0 = 0x73 then Some (arg_str ap (\<lambda>s. put_all f s), 0, 1)
      else if c0 = 0x25 then Some (consputc f 0x25, 0, 0)
      else if c0 = 0 then None
      else Some (seq (consputc f 0x25) (consputc f (uint c0)), 0, 0))"

text \<open>The characters at the front of the rest of the format; it ends with a NUL, and nothing behind it is looked at.\<close>

definition fmt_at :: "byte list \<Rightarrow> nat \<Rightarrow> byte" where
  "fmt_at fmt i = (if i < length fmt then fmt ! i else 0)"

function printf_loop :: "'z putc \<Rightarrow> byte list \<Rightarrow> varg list \<Rightarrow> ('z consst_scheme, unit) km" where
  "printf_loop f fmt ap =
     (if fmt_at fmt 0 = 0 then ret ()
      else if fmt_at fmt 0 \<noteq> 0x25 then seq (consputc f (uint (fmt_at fmt 0))) (printf_loop f (drop 1 fmt) ap)
      else
        let c0 = fmt_at fmt 1;
            c1 = (if c0 \<noteq> 0 then fmt_at fmt 2 else 0);
            c2 = (if c1 \<noteq> 0 then fmt_at fmt 3 else 0)
        in case conv f ap c0 c1 c2 of
             None \<Rightarrow> ret ()
           | Some (m, k, l) \<Rightarrow> seq m (printf_loop f (drop (2 + k) fmt) (drop l ap)))"
  by auto
termination
  by (relation "measure (\<lambda>(f, fmt, ap). length fmt)") (auto simp: fmt_at_def split: if_splits)

declare printf_loop.simps [simp del]

definition printf :: "'z putc \<Rightarrow> byte list \<Rightarrow> varg list \<Rightarrow> ('z consst_scheme, int) km" where
  "printf f fmt ap =
     bnd (gets pr_locking) (\<lambda>locking.
     seq (whenM locking (acquire Pr_lock)) (
     seq (printf_loop f fmt ap) (
     seq (whenM locking (release Pr_lock)) (
     ret 0))))"

text \<open>The bytes of a string literal; \<open>[10]\<close> is a newline.\<close>

definition ascii :: "string \<Rightarrow> byte list" where
  "ascii cs = map of_char cs"

definition kpanic :: "'z putc \<Rightarrow> byte list \<Rightarrow> ('z consst_scheme, unit) km" where
  "kpanic f s =
     seq (modify (\<lambda>s. s\<lparr>pr_locking := False\<rparr>)) (
     seq (printf f (ascii ''panic: '') []) (
     seq (printf f (ascii ''%s'' @ [10]) [VStr (Some s)]) (
     seq (modify (\<lambda>s. s\<lparr>panicked := True\<rparr>)) (
     spin))))"

definition printfinit :: "('z consst_scheme, unit) km" where
  "printfinit = seq (initlock Pr_lock ''print'') (modify (\<lambda>s. s\<lparr>pr_locking := True\<rparr>))"


section \<open>What printint prints\<close>

text \<open>The number that a list of digits, low digit first, stands for.\<close>

definition num_of :: "nat \<Rightarrow> nat list \<Rightarrow> nat" where
  "num_of b ds = foldr (\<lambda>d n. d + b * n) ds 0"

lemma digit_loop_small: "2 \<le> b \<Longrightarrow> x < b \<Longrightarrow> digit_loop b x = [x]"
  by (subst digit_loop.simps) simp

lemma digit_loop_step: "2 \<le> b \<Longrightarrow> b \<le> x \<Longrightarrow> digit_loop b x = (x mod b) # digit_loop b (x div b)"
  by (subst digit_loop.simps) (simp add: div_eq_0_iff)

lemma digit_induct [consumes 1, case_names small step]:
  fixes x :: nat
  assumes "2 \<le> b" "\<And>x. 2 \<le> b \<Longrightarrow> x < b \<Longrightarrow> P x" "\<And>x. 2 \<le> b \<Longrightarrow> b \<le> x \<Longrightarrow> P (x div b) \<Longrightarrow> P x"
  shows "P x"
proof (induction x rule: less_induct)
  case (less x)
  show ?case
  proof (cases "x < b")
    case False
    then have "x div b < x" using assms(1) by (intro div_less_dividend) auto
    then show ?thesis using less False assms(1,3) by simp
  qed (use assms(1,2) in simp)
qed

lemma num_of_digits: "2 \<le> b \<Longrightarrow> num_of b (digit_loop b x) = x"
proof (induction x rule: digit_induct)
  case (step x)
  then show ?case by (subst digit_loop_step) (simp_all add: num_of_def)
qed (simp add: digit_loop_small num_of_def)

lemma digits_below: "2 \<le> b \<Longrightarrow> \<forall>d \<in> set (digit_loop b x). d < b"
proof (induction x rule: digit_induct)
  case (step x)
  then show ?case by (subst digit_loop_step) simp_all
qed (simp add: digit_loop_small)

lemma digit_loop_ne [simp]: "digit_loop b x \<noteq> []"
  by (subst digit_loop.simps) simp

lemma digits_canonical: "2 \<le> b \<Longrightarrow> x \<noteq> 0 \<Longrightarrow> last (digit_loop b x) \<noteq> 0"
proof (induction x rule: digit_induct)
  case (step x)
  then have "x div b \<noteq> 0" by (simp add: div_eq_0_iff)
  then show ?case using step by (subst digit_loop_step) simp_all
qed (simp add: digit_loop_small)

lemma digits_length: "2 \<le> b \<Longrightarrow> 0 < k \<Longrightarrow> length (digit_loop b x) \<le> k \<longleftrightarrow> x < b ^ k"
proof (induction x arbitrary: k rule: digit_induct)
  case (small x)
  then have "b \<le> b ^ k" by (simp add: self_le_power)
  then show ?case using small by (simp add: digit_loop_small)
next
  case (step x)
  obtain j where k: "k = Suc j" using step.prems by (cases k) auto
  have "length (digit_loop b (x div b)) \<le> j \<longleftrightarrow> x div b < b ^ j"
    using step by (cases "j = 0") (auto simp: div_eq_0_iff)
  also have "x div b < b ^ j \<longleftrightarrow> x < b ^ k" using step by (simp add: div_less_iff_less_mult k mult.commute)
  finally show ?case using step k by (subst digit_loop_step) simp_all
qed


text \<open>What is relied on of \<open>uartputc_sync\<close> here: it returns, and of all accesses it makes exactly one sends a byte, the one it was given.\<close>

definition putc_sends :: "'z putc \<Rightarrow> bool" where
  "putc_sends f \<longleftrightarrow> (\<forall>d u. \<exists>h. f d u = Ok () (u\<lparr>uart_io := uart_io u @ h\<rparr>) \<and> sent h = [d])"

lemma putc_sends_ok: "putc_sends f \<Longrightarrow> putc_ok f"
  unfolding putc_sends_def putc_ok_def by metis

lemma consputc_sends:
  assumes "putc_sends f"
  obtains h where "consputc f (uint c) u = Ok () (u\<lparr>uart_io := uart_io u @ h\<rparr>)" "sent h = [c]"
proof -
  have "uint c \<noteq> BACKSPACE" using uint_lt2p [of c] by (simp add: BACKSPACE_def)
  then show thesis using that assms by (auto simp: consputc_def putc_sends_def)
qed

lemma put_all_run:
  assumes "putc_sends f"
  shows "\<exists>h. put_all f cs u = Ok () (u\<lparr>uart_io := uart_io u @ h\<rparr>) \<and> sent h = cs"
proof (induction cs arbitrary: u)
  case (Cons c cs)
  obtain h where h: "consputc f (uint c) u = Ok () (u\<lparr>uart_io := uart_io u @ h\<rparr>)" "sent h = [c]" by (rule consputc_sends [OF assms])
  obtain g where "put_all f cs (u\<lparr>uart_io := uart_io u @ h\<rparr>) = Ok () (u\<lparr>uart_io := uart_io u @ (h @ g)\<rparr>)" "sent g = cs"
    using Cons [of "u\<lparr>uart_io := uart_io u @ h\<rparr>"] by auto
  then show ?case using h by (intro exI [of _ "h @ g"]) simp
qed (auto intro!: exI [of _ "[]"])

lemma unat_negated: "sint x < 0 \<Longrightarrow> unat (- x) = nat (- sint x)" for x :: uint64
proof -
  assume "sint x < 0"
  moreover have "- (2 ^ 63) \<le> sint x" using sint_ge [of x] by simp
  ultimately have "uint (word_of_int (- sint x) :: uint64) = - sint x" unfolding uint_word_of_int by simp
  moreover have "word_of_int (- sint x) = - x" by simp
  ultimately have "uint (- x) = - sint x" by metis
  then show ?thesis by (metis unat_eq_nat_uint)
qed

text \<open>The number that is printed, its sign apart, and the number that a text of digits reads as, high digit first.\<close>

definition magnitude :: "uint64 \<Rightarrow> bool \<Rightarrow> nat" where
  "magnitude xx sign = (if sign \<and> sint xx < 0 then nat (- sint xx) else unat xx)"

definition reads_as :: "nat \<Rightarrow> byte list \<Rightarrow> nat \<Rightarrow> bool" where
  "reads_as base cs n \<longleftrightarrow> (\<exists>ds. cs = map (\<lambda>d. digits ! d) ds \<and> foldl (\<lambda>m d. base * m + d) 0 ds = n \<and> (\<forall>d \<in> set ds. d < base) \<and>
     ds \<noteq> [] \<and> (hd ds = 0 \<longrightarrow> ds = [0]))"

lemma digits_read_as:
  assumes "2 \<le> b"
  shows "reads_as b (map (\<lambda>d. digits ! d) (rev (digit_loop b x))) x"
proof -
  have "foldl (\<lambda>m d. b * m + d) 0 (rev (digit_loop b x)) = x"
    using num_of_digits [OF assms, of x] by (simp add: num_of_def foldl_conv_foldr add.commute)
  moreover have "hd (rev (digit_loop b x)) = 0 \<Longrightarrow> rev (digit_loop b x) = [0]"
    using digits_canonical [OF assms, of x] assms by (cases "x = 0") (auto simp: hd_rev digit_loop_small)
  ultimately show ?thesis unfolding reads_as_def
    using digits_below [OF assms] by (intro exI [of _ "rev (digit_loop b x)"]) auto
qed

section \<open>Printing to a quiet state\<close>

text \<open>
  \<open>says s m t\<close>: started in \<open>s\<close> with any history of the device, \<open>m\<close> returns, sends the text \<open>t\<close> and changes nothing but the history.
\<close>

definition says :: "'z consst_scheme \<Rightarrow> ('z consst_scheme, 'a) km \<Rightarrow> byte list \<Rightarrow> bool" where
  "says s m t \<longleftrightarrow> (\<forall>io. \<exists>h r. m (s\<lparr>uart_io := io\<rparr>) = Ok r (s\<lparr>uart_io := io @ h\<rparr>) \<and> sent h = t)"

lemma says_Ok [simp]: "says s (Ok x) []"
  by (auto simp: says_def intro!: exI [of _ "[]"])

lemma says_ret [simp]: "says s (ret x) []"
  by (auto simp: says_def intro!: exI [of _ "[]"])

lemma says_seq: "says s m t \<Longrightarrow> says s n u \<Longrightarrow> says s (seq m n) (t @ u)"
  unfolding says_def
proof (intro allI)
  fix io assume a: "\<forall>io. \<exists>h r. m (s\<lparr>uart_io := io\<rparr>) = Ok r (s\<lparr>uart_io := io @ h\<rparr>) \<and> sent h = t"
    "\<forall>io. \<exists>h r. n (s\<lparr>uart_io := io\<rparr>) = Ok r (s\<lparr>uart_io := io @ h\<rparr>) \<and> sent h = u"
  obtain h r where h: "m (s\<lparr>uart_io := io\<rparr>) = Ok r (s\<lparr>uart_io := io @ h\<rparr>)" "sent h = t" using a(1) by blast
  obtain g q where "n (s\<lparr>uart_io := io @ h\<rparr>) = Ok q (s\<lparr>uart_io := (io @ h) @ g\<rparr>)" "sent g = u" using a(2) by blast
  then show "\<exists>h r. seq m n (s\<lparr>uart_io := io\<rparr>) = Ok r (s\<lparr>uart_io := io @ h\<rparr>) \<and> sent h = t @ u"
    using h by (intro exI [of _ "h @ g"] exI [of _ q]) simp
qed

lemma says_gets: "(\<And>io. g (s\<lparr>uart_io := io\<rparr>) = g s) \<Longrightarrow> says s (f (g s)) t \<Longrightarrow> says s (bnd (gets g) f) t"
  by (simp add: says_def)

lemma says_when: "(b \<Longrightarrow> says s m t) \<Longrightarrow> says s (whenM b m) (if b then t else [])"
  by (simp add: says_ret)

lemma saysD: "says s m t \<Longrightarrow> \<exists>h r. m s = Ok r (s\<lparr>uart_io := uart_io s @ h\<rparr>) \<and> sent h = t"
  unfolding says_def by (drule spec [of _ "uart_io s"]) simp

lemma says_consputc:
  assumes "putc_sends f"
  shows "says s (consputc f (uint c)) [c]"
  unfolding says_def
proof
  fix io
  obtain h where "consputc f (uint c) (s\<lparr>uart_io := io\<rparr>) = Ok () ((s\<lparr>uart_io := io\<rparr>)\<lparr>uart_io := uart_io (s\<lparr>uart_io := io\<rparr>) @ h\<rparr>)" "sent h = [c]"
    by (rule consputc_sends [OF assms])
  then show "\<exists>h r. consputc f (uint c) (s\<lparr>uart_io := io\<rparr>) = Ok r (s\<lparr>uart_io := io @ h\<rparr>) \<and> sent h = [c]" by auto
qed

lemma says_put_all:
  assumes "putc_sends f"
  shows "says s (put_all f cs) cs"
proof (induction cs)
  case Nil
  show ?case unfolding put_all.simps by (rule says_ret)
next
  case (Cons c cs)
  then show ?case using says_seq [OF says_consputc [OF assms, of s c] Cons] by simp
qed

text \<open>The texts of a signed \<open>int\<close>, of a \<open>long\<close> in hexadecimal and of a pointer.\<close>

definition text_d :: "uint64 \<Rightarrow> byte list" where
  "text_d w = rev (printint_buf (scast (ucast w :: uint)) 10 True)"

definition text_lx :: "uint64 \<Rightarrow> byte list" where
  "text_lx w = rev (printint_buf w 16 False)"

definition text_p :: "uint64 \<Rightarrow> byte list" where
  "text_p w = [0x30, 0x78] @ map (\<lambda>k. digits ! unat (drop_bit 60 (push_bit (4 * k) w))) [0..<16]"

lemma text_d_fits: "length (printint_buf (scast (ucast w :: uint)) 10 True) \<le> 16"
proof -
  let ?x = "scast (ucast w :: uint) :: uint64"
  have r: "- (2 ^ 31) \<le> sint (ucast w :: uint)" "sint (ucast w :: uint) < 2 ^ 31" using sint_ge [of "ucast w :: uint"] sint_lt [of "ucast w :: uint"] by simp_all
  then have "signed_take_bit 63 (sint (ucast w :: uint)) = sint (ucast w :: uint)" by (intro signed_take_bit_int_eq_self) simp_all
  then have s: "sint ?x = sint (ucast w :: uint)" by (simp add: signed_scast_eq)
  have m: "length (digit_loop 10 n) \<le> 15" if "n \<le> 2 ^ 31" for n using that digits_length [of 10 15 n] by simp
  show ?thesis
  proof (cases "sint ?x < 0")
    case True
    then have "unat (- ?x) \<le> 2 ^ 31" using s r(1) by (simp add: unat_negated)
    then show ?thesis using True m by (simp add: printint_buf_def)
  next
    case False
    then have "uint (word_of_int (sint ?x) :: uint64) = sint ?x" unfolding uint_word_of_int using s r(2) by simp
    then have "uint ?x = sint ?x" by simp
    then have "uint ?x < 2 ^ 31" using s r(2) by simp
    then have "nat (uint ?x) < 2 ^ 31" by (subst nat_less_iff) simp_all
    then have "unat ?x \<le> 2 ^ 31" by (simp only: unat_eq_nat_uint)
    then show ?thesis using False m [of "unat ?x"] by (simp add: printint_buf_def)
  qed
qed

lemma text_lx_fits: "length (printint_buf w 16 False) \<le> 16"
  using digits_length [of 16 16 "unat w"] unat_lt_2p64 [of w] by (simp add: printint_buf_def)

lemma says_printptr_loop:
  assumes "putc_sends f"
  shows "says s (printptr_loop f w n) (map (\<lambda>k. digits ! unat (drop_bit 60 (push_bit (4 * k) w))) [0..<n])"
proof (induction n arbitrary: w)
  case 0
  show ?case unfolding printptr_loop.simps by simp
next
  case (Suc n)
  let ?d = "\<lambda>w k. digits ! unat (drop_bit 60 (push_bit (4 * k) w))"
  have "map (?d (push_bit 4 w)) [0..<n] = map (?d w) (map Suc [0..<n])" by (simp add: push_bit_push_bit ac_simps)
  then have e: "map (?d w) [0..<Suc n] = [?d w 0] @ map (?d (push_bit 4 w)) [0..<n]"
    by (simp only: map_Suc_upt upt_conv_Cons [of 0 "Suc n"] zero_less_Suc list.map append.simps)
  show ?case unfolding printptr_loop.simps e using says_seq [OF says_consputc [OF assms] Suc, of "?d w 0" "push_bit 4 w"] by simp
qed

text \<open>The rules for a format, one conversion at a time.\<close>

lemma says_printf_nil: "says s (printf_loop f [] ap) []"
  by (subst printf_loop.simps) (simp add: fmt_at_def)

lemma says_printf_char:
  assumes "putc_sends f" "c \<noteq> 0" "c \<noteq> 0x25" "says s (printf_loop f cs ap) t"
  shows "says s (printf_loop f (c # cs) ap) (c # t)"
  using says_seq [OF says_consputc [OF assms(1)] assms(4), of c] assms(2,3) by (subst printf_loop.simps) (simp add: fmt_at_def)

lemma says_printf_d:
  assumes "putc_sends f" "says s (printf_loop f cs ap) t"
  shows "says s (printf_loop f (0x25 # 0x64 # cs) (VNum w # ap)) (text_d w @ t)"
proof -
  have "says s (arg_int (VNum w # ap) (\<lambda>w. printint f w 10 True)) (text_d w)"
    using says_put_all [OF assms(1), of s "text_d w"] text_d_fits [of w] by (simp add: arg_int_def printint_def text_d_def)
  from says_seq [OF this assms(2)] show ?thesis by (subst printf_loop.simps) (simp add: fmt_at_def conv_def)
qed

lemma says_printf_s:
  assumes "putc_sends f" "says s (printf_loop f cs ap) t"
  shows "says s (printf_loop f (0x25 # 0x73 # cs) (VStr (Some n) # ap)) (takeWhile (\<lambda>c. c \<noteq> 0) n @ t)"
  using says_seq [OF says_put_all [OF assms(1)] assms(2), of "takeWhile (\<lambda>c. c \<noteq> 0) n"]
  by (subst printf_loop.simps) (simp add: fmt_at_def conv_def arg_str_def)

lemma says_printf_p:
  assumes "putc_sends f" "says s (printf_loop f cs ap) t"
  shows "says s (printf_loop f (0x25 # 0x70 # cs) (VNum w # ap)) (text_p w @ t)"
proof -
  have "says s (printptr f w) ([0x30] @ [0x78] @ map (\<lambda>k. digits ! unat (drop_bit 60 (push_bit (4 * k) w))) [0..<16])"
    unfolding printptr_def
    using says_seq [OF says_consputc [OF assms(1)] says_seq [OF says_consputc [OF assms(1)] says_printptr_loop [OF assms(1)]], of s "0x30" "0x78" w 16] by simp
  then have "says s (printptr f w) (text_p w)" by (simp add: text_p_def del: upt_Suc)
  from says_seq [OF this assms(2)] show ?thesis by (subst printf_loop.simps) (simp add: fmt_at_def conv_def arg_long_def)
qed

lemma says_printf_lx:
  assumes "putc_sends f" "says s (printf_loop f cs ap) t"
  shows "says s (printf_loop f (0x25 # 0x6c # 0x78 # cs) (VNum w # ap)) (text_lx w @ t)"
proof -
  have "says s (arg_long (VNum w # ap) (\<lambda>w. printint f w 16 False)) (text_lx w)"
    using says_put_all [OF assms(1), of s "text_lx w"] text_lx_fits [of w] by (simp add: arg_long_def printint_def text_lx_def)
  from says_seq [OF this assms(2)] show ?thesis by (subst printf_loop.simps) (simp add: fmt_at_def conv_def)
qed

text \<open>
  \<open>can_print\<close>: the lock of the printer can be taken. In a quiet state, where the interrupt flag of a critical section is already recorded,
  \<open>printf\<close> changes nothing but the device's history; from any other state it leaves the quiet one.
\<close>

definition can_print :: "'z consst_scheme \<Rightarrow> bool" where
  "can_print s \<longleftrightarrow> sync_ok (sync s) \<and> (pr_locking s \<longrightarrow> lock_free Pr_lock (sync s))"

lemma printf_run:
  assumes "can_print s" "\<And>y. says (s\<lparr>sync := y\<rparr>) (printf_loop f fmt ap) t"
  shows "\<exists>h. printf f fmt ap s = Ok 0 (s\<lparr>sync := (if pr_locking s then quiet (sync s) else sync s), uart_io := uart_io s @ h\<rparr>) \<and> sent h = t"
proof (cases "pr_locking s")
  case True
  then have l: "lock_free Pr_lock (sync s)" "sync_ok (sync s)" using assms(1) by (simp_all add: can_print_def)
  let ?u = "s\<lparr>sync := lock_acq Pr_lock (sync s)\<rparr>"
  obtain h r where h: "printf_loop f fmt ap ?u = Ok r (?u\<lparr>uart_io := uart_io ?u @ h\<rparr>)" "sent h = t" using saysD [OF assms(2)] by blast
  have "release Pr_lock (?u\<lparr>uart_io := uart_io ?u @ h\<rparr>) = Ok () ((?u\<lparr>uart_io := uart_io ?u @ h\<rparr>)\<lparr>sync := quiet (sync s)\<rparr>)"
    by (rule release_acq) (use l in simp_all)
  then show ?thesis using True l h by (auto simp: printf_def acquire_run)
next
  case False
  obtain h r where "printf_loop f fmt ap s = Ok r (s\<lparr>uart_io := uart_io s @ h\<rparr>)" "sent h = t"
    using saysD [OF assms(2), of "sync s"] by auto
  then show ?thesis using False by (auto simp: printf_def)
qed

lemma says_printf:
  assumes "can_print s" "quiet (sync s) = sync s" "\<And>y. says (s\<lparr>sync := y\<rparr>) (printf_loop f fmt ap) t"
  shows "says s (printf f fmt ap) t"
  unfolding says_def
proof
  fix io
  have "can_print (s\<lparr>uart_io := io\<rparr>)" using assms(1) by (simp add: can_print_def)
  moreover have "says (s\<lparr>uart_io := io, sync := y\<rparr>) (printf_loop f fmt ap) t" for y using assms(3) [of y] by (simp add: says_def)
  ultimately obtain h where "printf f fmt ap (s\<lparr>uart_io := io\<rparr>) = Ok 0 (s\<lparr>uart_io := io, sync := sync s, uart_io := io @ h\<rparr>)" "sent h = t"
    using printf_run [of "s\<lparr>uart_io := io\<rparr>" f fmt ap t] assms(2) by (auto split: if_splits)
  then show "\<exists>h r. printf f fmt ap (s\<lparr>uart_io := io\<rparr>) = Ok r (s\<lparr>uart_io := io @ h\<rparr>) \<and> sent h = t" by auto
qed

lemma says_printf_s_end: "putc_sends f \<Longrightarrow> says s (printf_loop f [0x25, 0x73] [VStr (Some n)]) (takeWhile (\<lambda>c. c \<noteq> 0) n)"
  using says_printf_s [OF _ says_printf_nil] by (metis append_Nil2)

lemma says_plain:
  assumes "putc_sends f" "\<forall>c \<in> set fmt. c \<noteq> 0 \<and> c \<noteq> 0x25"
  shows "says s (printf_loop f fmt ap) fmt"
  using assms(2) by (induction fmt) (auto intro: says_printf_nil says_printf_char [OF assms(1)])

lemmas printf_rules = says_printf_nil says_printf_s_end says_printf_char says_printf_d says_printf_s says_printf_p says_printf_lx

text \<open>
  C23: \<open>printint\<close> sends the number in the given base, without leading zeros and with a minus sign exactly for a negative number printed as signed; reading
  the text back gives the number. It does so exactly when the text fits the buffer of 16 characters: for an unsigned number below
  \<open>base\<close> to the 16th, for a negative one whose magnitude is below \<open>base\<close> to the 15th. Beyond that it writes past the buffer: every decimal
  of 17 digits, and a negative \<open>int\<close> printed with \<open>%u\<close>, which is widened to 64 bits first.
\<close>

theorem printint_correct:
  fixes xx :: uint64 and sign :: bool
  assumes "putc_sends f" "base = 10 \<or> base = 16"
  defines "neg \<equiv> sign \<and> sint xx < 0"
  shows "if magnitude xx sign < base ^ (if neg then 15 else 16)
    then \<exists>h cs. printint f xx base sign s = Ok () (s\<lparr>uart_io := uart_io s @ h\<rparr>) \<and> sent h = (if neg then [0x2d] else []) @ cs \<and>
      reads_as base cs (magnitude xx sign)
    else printint f xx base sign s = Panic ''printint''"
proof -
  have b: "2 \<le> base" using assms(2) by auto
  let ?ds = "digit_loop base (magnitude xx sign)"
  have buf: "printint_buf xx base sign = map (\<lambda>d. digits ! d) ?ds @ (if neg then [0x2d] else [])"
    by (simp add: printint_buf_def magnitude_def neg_def unat_negated Let_def)
  then have len: "length (printint_buf xx base sign) \<le> 16 \<longleftrightarrow> magnitude xx sign < base ^ (if neg then 15 else 16)"
    using digits_length [OF b, of 15 "magnitude xx sign"] digits_length [OF b, of 16 "magnitude xx sign"] by auto
  show ?thesis
  proof (cases "magnitude xx sign < base ^ (if neg then 15 else 16)")
    case True
    obtain h where "put_all f (rev (printint_buf xx base sign)) s = Ok () (s\<lparr>uart_io := uart_io s @ h\<rparr>)" "sent h = rev (printint_buf xx base sign)"
      using put_all_run [OF assms(1)] by blast
    moreover have "rev (printint_buf xx base sign) = (if neg then [0x2d] else []) @ map (\<lambda>d. digits ! d) (rev ?ds)"
      by (simp add: buf rev_map)
    ultimately show ?thesis using True len digits_read_as [OF b, of "magnitude xx sign"] by (auto simp: printint_def Let_def)
  next
    case False
    then show ?thesis using len by (simp add: printint_def Let_def)
  qed
qed

theorem printint_correct_witness:
  "\<exists>(s :: consst) h. printint (WriteReg THR) (- 120) 10 True s = Ok () (s\<lparr>uart_io := uart_io s @ h\<rparr>) \<and>
     hd (sent h) = 0x2d \<and> reads_as 10 (tl (sent h)) 120 \<and> printint (WriteReg THR) (10 ^ 16) 10 False s = Panic ''printint''"
proof -
  have p: "putc_sends (WriteReg THR :: unit putc)" by (auto simp: putc_sends_def WriteReg_def)
  have m: "magnitude (- 120) True = 120" "magnitude (10 ^ 16) False = 10 ^ 16" by (simp_all add: magnitude_def)
  show ?thesis
    using printint_correct [OF p, of 10 "- 120" True] printint_correct [OF p, of 10 "10 ^ 16" False] m by (fastforce simp: m)
qed

end
