(* ===== verification/Debug.thy ===== *)
theory Debug
  imports Printf
begin

text \<open>
  The routines that print the state of the kernel: \<open>procdump\<close> and \<open>trace_next_pid\<close> of \<^verbatim>\<open>kernel/src/proc.c\<close> and \<open>vmprint\<close> of
  \<^verbatim>\<open>kernel/src/vm.c\<close>. They change nothing but the history of the device; the properties say what text they send.
\<close>

section \<open>Processes\<close>

text \<open>The table \<open>states\<close>; every value of the enumeration has an entry, so \<open>???\<close> is never printed.\<close>

definition state_name :: "procstate \<Rightarrow> byte list" where
  "state_name st = ascii (case st of UNUSED \<Rightarrow> ''UNUSED'' | USED \<Rightarrow> ''USED'' | SLEEPING \<Rightarrow> ''SLEEPING'' | RUNNABLE \<Rightarrow> ''RUNNABLE''
     | RUNNING \<Rightarrow> ''RUNNING'' | ZOMBIE \<Rightarrow> ''ZOMBIE'')"

fun procdump_loop :: "'z putc \<Rightarrow> nat \<Rightarrow> nat \<Rightarrow> ('z consst_scheme, unit) km" where
  "procdump_loop f i 0 = ret ()"
| "procdump_loop f i (Suc n) =
     bnd (gets (\<lambda>s. procs s i)) (\<lambda>p.
     if pstate p = UNUSED then procdump_loop f (Suc i) n
     else
       seq (printf f (ascii ''%d %s %s'') [VNum (word_of_int (pid p)), VStr (Some (state_name (pstate p))), VStr (Some (pname p))]) (
       seq (printf f [10] []) (
       procdump_loop f (Suc i) n)))"

definition procdump :: "'z putc \<Rightarrow> ('z consst_scheme, unit) km" where
  "procdump f = seq (printf f [10] []) (procdump_loop f 0 NPROC)"

definition trace_next_pid :: "'z putc \<Rightarrow> byte list \<Rightarrow> ('z consst_scheme, unit) km" where
  "trace_next_pid f from =
     bnd myproc (\<lambda>current.
     bnd (gets (\<lambda>s. (next_runnable_pid (procs s) current, procs s))) (\<lambda>(nextpid, ps).
     seq (case current of
       Some i \<Rightarrow> printf f (ascii ''[%s] current pid = %d, next pid = %d'' @ [10]) [VStr (Some from), VNum (word_of_int (pid (ps i))), VNum (word_of_int nextpid)]
     | None \<Rightarrow> printf f (ascii ''[%s] current pid = -1, next pid = %d'' @ [10]) [VStr (Some from), VNum (word_of_int nextpid)]) (
     ret ())))"

section \<open>Page tables\<close>

text \<open>
  \<open>_pteprint\<close> follows every valid entry without access bits, however deep; \<open>fuel\<close> bounds the depth, and \<open>vmprint_ends\<close> says that
  three levels are enough for a page table of the kernel.
\<close>

fun dots :: "'z putc \<Rightarrow> nat \<Rightarrow> ('z consst_scheme, unit) km" where
  "dots f 0 = ret ()"
| "dots f (Suc n) = seq (printf f (ascii ''.. '') []) (dots f n)"

fun pteprint_loop :: "'z putc \<Rightarrow> (addr \<Rightarrow> ('z consst_scheme, unit) km) \<Rightarrow> nat \<Rightarrow> addr \<Rightarrow> nat \<Rightarrow> nat \<Rightarrow> ('z consst_scheme, unit) km" where
  "pteprint_loop f child level pt i 0 = ret ()"
| "pteprint_loop f child level pt i (Suc n) =
     bnd (load64 (slot pt (of_nat i))) (\<lambda>pte.
     seq (whenM (pte AND PTE_V \<noteq> 0) (
       seq (dots f level) (
       seq (printf f (ascii ''%d: pte, %p pa %p'' @ [10]) [VNum (of_nat i), VNum pte, VNum (PTE2PA pte)]) (
       whenM (pte AND PTE_RWX = 0) (child (PTE2PA pte)))))) (
     pteprint_loop f child level pt (Suc i) n))"

fun pteprint :: "'z putc \<Rightarrow> nat \<Rightarrow> nat \<Rightarrow> addr \<Rightarrow> ('z consst_scheme, unit) km" where
  "pteprint f 0 level pt = spin"
| "pteprint f (Suc fuel) level pt = pteprint_loop f (pteprint f fuel (Suc level)) level pt 0 512"

definition vmprint :: "'z putc \<Rightarrow> nat \<Rightarrow> addr \<Rightarrow> ('z consst_scheme, unit) km" where
  "vmprint f fuel pt =
     seq (printf f (ascii ''page table %p'' @ [10]) [VNum pt]) (pteprint f fuel 0 pt)"

definition vmprint_kernel :: "'z putc \<Rightarrow> nat \<Rightarrow> ('z consst_scheme, unit) km" where
  "vmprint_kernel f fuel = bnd (gets kernel_page_table) (\<lambda>pt. vmprint f fuel pt)"

section \<open>What procdump prints\<close>

definition proc_line :: "process \<Rightarrow> byte list" where
  "proc_line p = (if pstate p = UNUSED then []
     else text_d (word_of_int (pid p)) @ [0x20] @ state_name (pstate p) @ [0x20] @ takeWhile (\<lambda>c. c \<noteq> 0) (pname p) @ [10])"

lemma state_name_text: "takeWhile (\<lambda>c. c \<noteq> 0) (state_name st) = state_name st"
  by (cases st) (simp_all add: state_name_def ascii_def)

lemma says_newline:
  assumes "putc_sends f" "can_print s" "quiet (sync s) = sync s"
  shows "says s (printf f [10] []) [10]"
  by (rule says_printf [OF assms(2,3)]) (intro printf_rules assms; simp)

lemma procdump_loop_says:
  assumes "putc_sends f" "can_print s" "quiet (sync s) = sync s"
  shows "says s (procdump_loop f i n) (concat (map (\<lambda>k. proc_line (procs s k)) [i..<i + n]))"
proof (induction n arbitrary: i)
  case (Suc n)
  let ?p = "procs s i"
  define rest where "rest = concat (map (\<lambda>k. proc_line (procs s k)) [Suc i..<Suc i + n])"
  have ih: "says s (procdump_loop f (Suc i) n) rest" unfolding rest_def by (rule Suc)
  have e: "concat (map (\<lambda>k. proc_line (procs s k)) [i..<i + Suc n]) = proc_line ?p @ rest" by (simp add: upt_conv_Cons rest_def del: upt_Suc)
  have "says s (if pstate ?p = UNUSED then procdump_loop f (Suc i) n
     else seq (printf f (ascii ''%d %s %s'') [VNum (word_of_int (pid ?p)), VStr (Some (state_name (pstate ?p))), VStr (Some (pname ?p))]) (
       seq (printf f [10] []) (procdump_loop f (Suc i) n))) (proc_line ?p @ rest)"
  proof (cases "pstate ?p = UNUSED")
    case True
    then show ?thesis using ih by (simp add: proc_line_def)
  next
    case False
    have "says s (printf f (ascii ''%d %s %s'') [VNum (word_of_int (pid ?p)), VStr (Some (state_name (pstate ?p))), VStr (Some (pname ?p))])
        (text_d (word_of_int (pid ?p)) @ 0x20 # takeWhile (\<lambda>c. c \<noteq> 0) (state_name (pstate ?p)) @ 0x20 # takeWhile (\<lambda>c. c \<noteq> 0) (pname ?p) @ [])"
      by (rule says_printf [OF assms(2,3)]) (simp add: ascii_def, intro printf_rules assms, simp_all)
    from says_seq [OF this says_seq [OF says_newline [OF assms] ih]] False show ?thesis by (simp add: proc_line_def state_name_text)
  qed
  then show ?case unfolding e procdump_loop.simps by (intro says_gets) simp_all
qed simp

lemma procdump_says:
  assumes "putc_sends f" "can_print s" "quiet (sync s) = sync s"
  shows "says s (procdump f) (10 # concat (map (\<lambda>k. proc_line (procs s k)) [0..<NPROC]))"
  unfolding procdump_def using says_seq [OF says_newline [OF assms] procdump_loop_says [OF assms, of 0 NPROC]] by simp

text \<open>\<open>trace_next_pid\<close> names the process that the scheduler would run after this one.\<close>

lemma trace_next_pid_run:
  assumes "putc_sends f" "can_print s"
  shows "\<exists>h. trace_next_pid f from s = Ok () (s\<lparr>sync := quiet (sync s), uart_io := uart_io s @ h\<rparr>) \<and>
    sent h = 0x5b # takeWhile (\<lambda>c. c \<noteq> 0) from @ ascii ''] current pid = '' @
      (case cur s of Some i \<Rightarrow> text_d (word_of_int (pid (procs s i))) | None \<Rightarrow> ascii ''-1'') @ ascii '', next pid = '' @
      text_d (word_of_int (next_runnable_pid (procs s) (cur s))) @ [10]" (is "\<exists>h. _ \<and> sent h = ?t")
proof -
  let ?u = "s\<lparr>sync := quiet (sync s)\<rparr>" and ?n = "next_runnable_pid (procs s) (cur s)"
  have my: "myproc s = Ok (cur s) ?u" using assms(2) by (simp add: myproc_run can_print_def cur_def)
  have u: "can_print ?u" "quiet (sync ?u) = sync ?u" using assms(2) by (simp_all add: can_print_def)
  have "says ?u (case cur s of
       Some i \<Rightarrow> printf f (ascii ''[%s] current pid = %d, next pid = %d'' @ [10]) [VStr (Some from), VNum (word_of_int (pid (procs s i))), VNum (word_of_int ?n)]
     | None \<Rightarrow> printf f (ascii ''[%s] current pid = -1, next pid = %d'' @ [10]) [VStr (Some from), VNum (word_of_int ?n)]) ?t"
  proof (cases "cur s")
    case None
    show ?thesis unfolding None option.case by (rule says_printf [OF u]) (simp add: ascii_def, intro printf_rules assms, simp_all)
  next
    case (Some i)
    show ?thesis unfolding Some option.case by (rule says_printf [OF u]) (simp add: ascii_def, intro printf_rules assms, simp_all)
  qed
  then obtain h r where "(case cur s of
       Some i \<Rightarrow> printf f (ascii ''[%s] current pid = %d, next pid = %d'' @ [10]) [VStr (Some from), VNum (word_of_int (pid (procs s i))), VNum (word_of_int ?n)]
     | None \<Rightarrow> printf f (ascii ''[%s] current pid = -1, next pid = %d'' @ [10]) [VStr (Some from), VNum (word_of_int ?n)]) ?u
     = Ok r (?u\<lparr>uart_io := uart_io ?u @ h\<rparr>)" "sent h = ?t" using saysD by blast
  then show ?thesis by (intro exI [of _ h]) (simp add: trace_next_pid_def my)
qed

section \<open>What vmprint prints\<close>

definition pte_line :: "nat \<Rightarrow> nat \<Rightarrow> uint64 \<Rightarrow> byte list" where
  "pte_line level i pte = concat (replicate level (ascii ''.. '')) @ text_d (of_nat i) @ ascii '': pte, '' @ text_p pte @ ascii '' pa '' @ text_p (PTE2PA pte) @ [10]"

text \<open>
  The listing of a table, \<open>d\<close> levels deep: a line for each valid entry, with the listing of the table it leads to when it has no access
  bits. \<open>pt_ends\<close>: no chain of such entries is longer.
\<close>

fun pt_text :: "mem \<Rightarrow> nat \<Rightarrow> nat \<Rightarrow> addr \<Rightarrow> byte list" where
  "pt_text m 0 level p = []"
| "pt_text m (Suc d) level p = concat (map (\<lambda>i. let pte = read64 m (slot p (of_nat i)) in
     if pte AND PTE_V = 0 then []
     else pte_line level i pte @ (if pte AND PTE_RWX = 0 then pt_text m d (Suc level) (PTE2PA pte) else [])) [0..<512])"

fun pt_ends :: "mem \<Rightarrow> nat \<Rightarrow> addr \<Rightarrow> bool" where
  "pt_ends m 0 p = False"
| "pt_ends m (Suc d) p = (\<forall>i<512. let pte = read64 m (slot p (of_nat i)) in
     pte AND PTE_V \<noteq> 0 \<longrightarrow> pte AND PTE_RWX = 0 \<longrightarrow> pt_ends m d (PTE2PA pte))"

lemma dots_says:
  assumes "putc_sends f" "can_print s" "quiet (sync s) = sync s"
  shows "says s (dots f n) (concat (replicate n (ascii ''.. '')))"
proof (induction n)
  case (Suc n)
  have "says s (printf f (ascii ''.. '') []) (ascii ''.. '')"
    by (rule says_printf [OF assms(2,3)]) (simp add: ascii_def, intro printf_rules assms, simp_all)
  from says_seq [OF this Suc] show ?case by simp
qed simp

lemma pte_line_says:
  assumes "putc_sends f" "can_print s" "quiet (sync s) = sync s" "says s m t"
  shows "says s (seq (dots f level) (seq (printf f (ascii ''%d: pte, %p pa %p'' @ [10]) [VNum (of_nat i), VNum pte, VNum (PTE2PA pte)]) m)) (pte_line level i pte @ t)"
proof -
  have "says s (printf f (ascii ''%d: pte, %p pa %p'' @ [10]) [VNum (of_nat i), VNum pte, VNum (PTE2PA pte)])
      (text_d (of_nat i) @ ascii '': pte, '' @ text_p pte @ ascii '' pa '' @ text_p (PTE2PA pte) @ [10])"
    by (rule says_printf [OF assms(2,3)]) (simp add: ascii_def, intro printf_rules assms, simp_all)
  from says_seq [OF dots_says [OF assms(1-3)] says_seq [OF this assms(4)]] show ?thesis by (simp add: pte_line_def)
qed

lemma says_load64: "says s (f (read64 (mem s) a)) t \<Longrightarrow> says s (bnd (load64 a) f) t"
  unfolding load64_def by (rule says_gets) simp_all

lemma pteprint_loop_says:
  assumes "putc_sends f" "can_print s" "quiet (sync s) = sync s"
    "\<And>k. i \<le> k \<Longrightarrow> k < i + n \<Longrightarrow> read64 (mem s) (slot p (of_nat k)) AND PTE_V \<noteq> 0 \<Longrightarrow> read64 (mem s) (slot p (of_nat k)) AND PTE_RWX = 0 \<Longrightarrow>
      says s (child (PTE2PA (read64 (mem s) (slot p (of_nat k))))) (txt (PTE2PA (read64 (mem s) (slot p (of_nat k)))))"
  shows "says s (pteprint_loop f child level p i n) (concat (map (\<lambda>i. let pte = read64 (mem s) (slot p (of_nat i)) in
     if pte AND PTE_V = 0 then [] else pte_line level i pte @ (if pte AND PTE_RWX = 0 then txt (PTE2PA pte) else [])) [i..<i + n]))"
  using assms(4)
proof (induction n arbitrary: i)
  case (Suc n)
  let ?e = "read64 (mem s) (slot p (of_nat i))"
  let ?l = "\<lambda>i. let pte = read64 (mem s) (slot p (of_nat i)) in
     if pte AND PTE_V = 0 then [] else pte_line level i pte @ (if pte AND PTE_RWX = 0 then txt (PTE2PA pte) else [])"
  have e: "[i..<i + Suc n] = i # [Suc i..<Suc i + n]" by (simp add: upt_conv_Cons del: upt_Suc)
  have ih: "says s (pteprint_loop f child level p (Suc i) n) (concat (map ?l [Suc i..<Suc i + n]))" by (rule Suc.IH) (use Suc.prems in auto)
  have c: "says s (whenM (?e AND PTE_RWX = 0) (child (PTE2PA ?e))) (if ?e AND PTE_RWX = 0 then txt (PTE2PA ?e) else [])" if "?e AND PTE_V \<noteq> 0"
    by (rule says_when) (use Suc.prems [of i] that in simp)
  have l: "?l i = (if ?e AND PTE_V \<noteq> 0 then pte_line level i ?e @ (if ?e AND PTE_RWX = 0 then txt (PTE2PA ?e) else []) else [])"
    by (simp add: Let_def)
  have "says s (whenM (?e AND PTE_V \<noteq> 0) (seq (dots f level) (seq (printf f (ascii ''%d: pte, %p pa %p'' @ [10]) [VNum (of_nat i), VNum ?e, VNum (PTE2PA ?e)])
       (whenM (?e AND PTE_RWX = 0) (child (PTE2PA ?e)))))) (?l i)"
    unfolding l by (rule says_when, rule pte_line_says [OF assms(1-3)], rule c)
  from says_seq [OF this ih] show ?case unfolding e pteprint_loop.simps by (intro says_load64) simp
qed simp

lemma pteprint_says:
  assumes "putc_sends f" "can_print s" "quiet (sync s) = sync s"
  shows "pt_ends (mem s) d p \<Longrightarrow> says s (pteprint f d level p) (pt_text (mem s) d level p)"
proof (induction d arbitrary: level p)
  case (Suc d)
  have "says s (pteprint_loop f (pteprint f d (Suc level)) level p 0 512) (pt_text (mem s) (Suc d) level p)"
    unfolding pt_text.simps
    using pteprint_loop_says [OF assms, of 0 512 p "pteprint f d (Suc level)" "pt_text (mem s) d (Suc level)" level] Suc by (simp add: Let_def)
  then show ?case by simp
qed simp

lemma pt_mono: "pt_ends m d p \<Longrightarrow> pt_ends m (d + k) p \<and> pt_text m (d + k) level p = pt_text m d level p"
proof (induction d arbitrary: p level)
  case (Suc d)
  have ih: "pt_ends m (d + k) (PTE2PA (read64 m (slot p (of_nat i)))) \<and>
      (\<forall>l. pt_text m (d + k) l (PTE2PA (read64 m (slot p (of_nat i)))) = pt_text m d l (PTE2PA (read64 m (slot p (of_nat i)))))"
    if "i < 512" "read64 m (slot p (of_nat i)) AND PTE_V \<noteq> 0" "read64 m (slot p (of_nat i)) AND PTE_RWX = 0" for i
    using Suc.IH Suc.prems that by (simp add: Let_def)
  have "pt_text m (Suc d + k) level p = pt_text m (Suc d) level p"
    unfolding add_Suc pt_text.simps by (rule arg_cong [of _ _ concat], rule map_cong) (use ih in \<open>auto simp: Let_def\<close>)
  then show ?case using ih by (simp add: Let_def)
qed simp

text \<open>
  \<open>pt_leaves\<close>: in a table of the third level, a valid entry has an access bit. Every entry that the kernel installs there has one.
\<close>

definition pt_leaves :: "mem \<Rightarrow> addr \<Rightarrow> bool" where
  "pt_leaves m root \<longleftrightarrow> (\<forall>is p. length is = 2 \<longrightarrow> idxs is \<longrightarrow> tab m root is = Some p \<longrightarrow>
     (\<forall>i<512. read64 m (slot p (of_nat i)) AND PTE_V \<noteq> 0 \<longrightarrow> read64 m (slot p (of_nat i)) AND PTE_RWX \<noteq> 0))"

lemma pt_leaves_ends:
  assumes "pt_leaves m root"
  shows "pt_ends m 3 root"
proof -
  have u: "unat (of_nat i :: uint64) < 512" if "i < 512" for i using that by (simp add: unat_of_nat)
  have "read64 m (slot (PTE2PA (read64 m (slot (PTE2PA (read64 m (slot root (of_nat i)))) (of_nat j)))) (of_nat k)) AND PTE_RWX \<noteq> 0"
    if "i < 512" "j < 512" "k < 512" "read64 m (slot root (of_nat i)) AND PTE_V \<noteq> 0"
      "read64 m (slot (PTE2PA (read64 m (slot root (of_nat i)))) (of_nat j)) AND PTE_V \<noteq> 0"
      "read64 m (slot (PTE2PA (read64 m (slot (PTE2PA (read64 m (slot root (of_nat i)))) (of_nat j)))) (of_nat k)) AND PTE_V \<noteq> 0" for i j k
    using assms [unfolded pt_leaves_def, rule_format, of "[of_nat i, of_nat j]"] that u by (simp add: tab.simps idxs_def)
  then show ?thesis by (simp add: numeral_3_eq_3 Let_def)
qed

text \<open>
  \<open>vmprint\<close> ends on every page table of three levels whose last level has only entries with access bits, and sends the listing of
  it: the address of the table, then a line for each valid entry in the order of the indices, an entry that leads to a table followed by the listing of
  that table, indented by its level. A recursion of depth three is enough; the kernel's state does not change.
\<close>

theorem vmprint_correct:
  assumes "putc_sends f" "can_print s" "quiet (sync s) = sync s" "pt_leaves (mem s) root" "3 \<le> fuel"
  shows "\<exists>h. vmprint f fuel root s = Ok () (s\<lparr>uart_io := uart_io s @ h\<rparr>) \<and>
    sent h = ascii ''page table '' @ text_p root @ 10 # pt_text (mem s) 3 0 root"
proof -
  obtain k where k: "fuel = 3 + k" using assms(5) le_Suc_ex by blast
  have m: "pt_ends (mem s) fuel root" "pt_text (mem s) fuel 0 root = pt_text (mem s) 3 0 root"
    using pt_mono [OF pt_leaves_ends [OF assms(4)], of k 0] by (simp_all add: k)
  have "says s (printf f (ascii ''page table %p'' @ [10]) [VNum root]) (ascii ''page table '' @ text_p root @ [10])"
    by (rule says_printf [OF assms(2,3)]) (simp add: ascii_def, intro printf_rules assms, simp_all)
  from saysD [OF says_seq [OF this pteprint_says [OF assms(1-3) m(1), of 0]]] show ?thesis by (simp add: vmprint_def m(2))
qed

theorem vmprint_correct_witness:
  "\<exists>(s :: consst) h. vmprint (WriteReg THR) 5 0x80032000 s = Ok () (s\<lparr>uart_io := uart_io s @ h\<rparr>) \<and>
     sent h = ascii ''page table 0x0000000080032000'' @ 10 # pt_text (mem s) 3 0 0x80032000"
proof -
  define s :: consst where "s = (undefined :: consst)\<lparr>sync := quiet demo_sync, mem := demo_mem, pr_locking := True\<rparr>"
  have m: "mem s = demo_mem" by (simp add: s_def)
  have p: "can_print s" "quiet (sync s) = sync s" by (simp_all add: s_def can_print_def demo_sync_free)
  have f: "putc_sends (WriteReg THR :: unit putc)" by (auto simp: putc_sends_def WriteReg_def)
  have al: "page_aligned 0x80032000" "page_aligned 0x80033000" "page_aligned 0x80034000" by (simp_all add: page_aligned_def PGSIZE_def)
  have u: "unat (of_nat i :: uint64) < 512" "of_nat i = (0 :: uint64) \<longleftrightarrow> i = 0" "of_nat i = (1 :: uint64) \<longleftrightarrow> i = 1" if "i < 512" for i
    using that by (simp_all add: word_unat_eq_iff unat_of_nat)
  have l: "pt_leaves demo_mem 0x80032000" unfolding pt_leaves_def
  proof (intro allI impI)
    fix "is" :: "uint64 list" and q :: addr and i :: nat assume a: "length is = 2" "idxs is" "tab demo_mem 0x80032000 is = Some q" "i < 512" "read64 demo_mem (slot q (of_nat i)) AND PTE_V \<noteq> 0"
    have "q = 0x80034000" using a(1-3) by (auto simp: demo_tab split: list.splits if_splits)
    then show "read64 demo_mem (slot q (of_nat i)) AND PTE_RWX \<noteq> 0"
      using a(4,5) u [OF a(4)] by (auto simp: demo_read al PA2PTE_def const_vals PTE_RWX_def split: if_splits)
  qed
  obtain h where h: "vmprint (WriteReg THR) 5 0x80032000 s = Ok () (s\<lparr>uart_io := uart_io s @ h\<rparr>)"
    "sent h = ascii ''page table '' @ text_p 0x80032000 @ 10 # pt_text (mem s) 3 0 0x80032000"
    using vmprint_correct [OF f p, of "0x80032000" 5] l by (auto simp: m)
  moreover have "text_p 0x80032000 = ascii ''0x0000000080032000''" by (simp add: text_p_def ascii_def digits_def upt_rec drop_bit_push_bit)
  ultimately show ?thesis by (intro exI [of _ s] exI [of _ h]) (simp add: ascii_def)
qed

end
