(* ===== verification/Console.thy ===== *)
theory Console
  imports Debug
begin

text \<open>
  The console, \<^verbatim>\<open>kernel/src/console.c\<close>, and the interrupt handler of the serial port in \<^verbatim>\<open>kernel/src/uart.c\<close>.

  The input of the console is a ring of 128 bytes with three counters: lines from \<open>r\<close> to \<open>w\<close> can be read, from \<open>w\<close> to \<open>e\<close> the
  line can still be edited.
\<close>

section \<open>The console\<close>

definition INPUT_BUF_SIZE :: nat where "INPUT_BUF_SIZE = 128"

text \<open>\<open>C(x)\<close>, the control character of a letter.\<close>

definition ctrl :: "int \<Rightarrow> int" where "ctrl x = x - 0x40"

definition set_cons :: "(consbuf \<Rightarrow> consbuf) \<Rightarrow> ('z consst_scheme, unit) km" where
  "set_cons f = modify (\<lambda>s. s\<lparr>cons := f (cons s)\<rparr>)"

text \<open>The loop of \<open>consoleread\<close> with \<open>n\<close> bytes to go; \<open>consoleread_end\<close> is what follows it.\<close>

definition consoleread_end :: "int \<Rightarrow> int \<Rightarrow> ('z consst_scheme, int) km" where
  "consoleread_end target n = seq (release Cons_lock) (ret (target - n))"

fun consoleread_loop :: "bool \<Rightarrow> addr \<Rightarrow> int \<Rightarrow> nat \<Rightarrow> ('z consst_scheme, int) km" where
  "consoleread_loop is_user_dst dst target 0 = consoleread_end target 0"
| "consoleread_loop is_user_dst dst target (Suc n) =
     bnd (gets cons) (\<lambda>b.
     if c_r b = c_w b
     then bnd this_proc (\<lambda>i.
       bnd (killed i) (\<lambda>k.
       if k then seq (release Cons_lock) (ret (- 1))
       else seq (sleep Cons_r_chan Cons_lock) (ret 0)))
     else
       seq (set_cons (\<lambda>b. b\<lparr>c_r := c_r b + 1\<rparr>)) (
       let c = c_buf b (unat (c_r b) mod INPUT_BUF_SIZE) in
       if c = word_of_int (ctrl 0x44)
       then seq (whenM (int (Suc n) < target) (set_cons (\<lambda>b. b\<lparr>c_r := c_r b - 1\<rparr>))) (consoleread_end target (int (Suc n)))
       else bnd (either_copyout is_user_dst dst [c] 1) (\<lambda>r.
         if r = - 1 then consoleread_end target (int (Suc n))
         else if c = 10 then consoleread_end target (int n)
         else consoleread_loop is_user_dst (dst + 1) target n)))"

definition consoleread :: "bool \<Rightarrow> addr \<Rightarrow> int \<Rightarrow> ('z consst_scheme, int) km" where
  "consoleread is_user_dst dst n =
     seq (acquire Cons_lock) (
     if n > 0 then consoleread_loop is_user_dst dst n (nat n) else consoleread_end n n)"

definition consoleread_resume :: "nat \<Rightarrow> bool \<Rightarrow> bool \<Rightarrow> addr \<Rightarrow> int \<Rightarrow> nat \<Rightarrow> ('z consst_scheme, int) km" where
  "consoleread_resume i intr_enabled is_user_dst dst target n =
     seq (sleep_resume i intr_enabled Cons_lock) (consoleread_loop is_user_dst dst target n)"

fun consolewrite_loop :: "uart_dev \<Rightarrow> bool \<Rightarrow> addr \<Rightarrow> int \<Rightarrow> nat \<Rightarrow> ('z consst_scheme, int) km" where
  "consolewrite_loop uart is_user_src src i 0 = ret i"
| "consolewrite_loop uart is_user_src src i (Suc n) =
     bnd (either_copyin is_user_src (src + word_of_int i) 1) (\<lambda>r.
     if fst r = - 1 then ret i
     else seq (uartputc uart (hd (snd r))) (consolewrite_loop uart is_user_src src (i + 1) n))"

definition consolewrite :: "uart_dev \<Rightarrow> bool \<Rightarrow> addr \<Rightarrow> int \<Rightarrow> ('z consst_scheme, int) km" where
  "consolewrite uart is_user_src src n = consolewrite_loop uart is_user_src src 0 (nat n)"

text \<open>The loop of control-U, at most once per byte of the line being edited.\<close>

fun kill_line :: "'z putc \<Rightarrow> nat \<Rightarrow> ('z consst_scheme, unit) km" where
  "kill_line sync_putc 0 = ret ()"
| "kill_line sync_putc (Suc n) =
     bnd (gets cons) (\<lambda>b.
     if c_e b \<noteq> c_w b \<and> c_buf b (unat (c_e b - 1) mod INPUT_BUF_SIZE) \<noteq> 10
     then seq (set_cons (\<lambda>b. b\<lparr>c_e := c_e b - 1\<rparr>)) (seq (consputc sync_putc BACKSPACE) (kill_line sync_putc n))
     else ret ())"

text \<open>The default case: a byte for the line; then the whole switch.\<close>

definition cons_default :: "'z putc \<Rightarrow> int \<Rightarrow> ('z consst_scheme, unit) km" where
  "cons_default sync_putc c =
     bnd (gets cons) (\<lambda>b.
     whenM (c \<noteq> 0 \<and> c_e b - c_r b < of_nat INPUT_BUF_SIZE) (
       let c = (if c = 13 then 10 else c) in
       seq (consputc sync_putc c) (
       seq (set_cons (\<lambda>b. b\<lparr>c_buf := (c_buf b)(unat (c_e b) mod INPUT_BUF_SIZE := word_of_int c), c_e := c_e b + 1\<rparr>)) (
       bnd (gets cons) (\<lambda>b.
       whenM (c = 10 \<or> c = ctrl 0x44 \<or> c_e b - c_r b = of_nat INPUT_BUF_SIZE) (
         seq (set_cons (\<lambda>b. b\<lparr>c_w := c_e b\<rparr>)) (wakeup Cons_r_chan)))))))"

definition cons_switch :: "'z putc \<Rightarrow> int \<Rightarrow> ('z consst_scheme, unit) km" where
  "cons_switch sync_putc c =
     (if c = ctrl 0x50 then procdump sync_putc
      else if c = ctrl 0x55 then bnd (gets cons) (\<lambda>b. kill_line sync_putc (unat (c_e b - c_w b)))
      else if c = ctrl 0x48 \<or> c = 0x7f
      then bnd (gets cons) (\<lambda>b.
        whenM (c_e b \<noteq> c_w b) (seq (set_cons (\<lambda>b. b\<lparr>c_e := c_e b - 1\<rparr>)) (consputc sync_putc BACKSPACE)))
      else cons_default sync_putc c)"

definition consoleintr :: "'z putc \<Rightarrow> int \<Rightarrow> ('z consst_scheme, unit) km" where
  "consoleintr sync_putc c = seq (acquire Cons_lock) (seq (cons_switch sync_putc c) (release Cons_lock))"

text \<open>
  The handler of the UART's interrupts takes bytes as long as the device offers one; \<open>fuel\<close> bounds how many it offers.
\<close>

fun uartintr_loop :: "uart_dev \<Rightarrow> 'z putc \<Rightarrow> nat \<Rightarrow> ('z consst_scheme, unit) km" where
  "uartintr_loop uart sync_putc 0 = spin"
| "uartintr_loop uart sync_putc (Suc fuel) =
     bnd (uartgetc uart) (\<lambda>c.
     if c = - 1 then ret () else seq (consoleintr sync_putc c) (uartintr_loop uart sync_putc fuel))"

definition uartintr :: "uart_dev \<Rightarrow> 'z putc \<Rightarrow> nat \<Rightarrow> ('z consst_scheme, unit) km" where
  "uartintr uart sync_putc fuel =
     seq (uartintr_loop uart sync_putc fuel) (
     seq (acquire Uart_tx_lock) (
     seq (uartstart uart) (
     release Uart_tx_lock)))"

definition CONSOLE :: int where "CONSOLE = 1"

text \<open>\<open>consoleinit\<close> and the entries it makes in \<open>devsw\<close>.\<close>

definition consoleinit :: "('z consst_scheme, unit) km" where
  "consoleinit = seq (initlock Cons_lock ''cons'') uartinit"

definition console_read :: "int \<Rightarrow> (bool \<Rightarrow> addr \<Rightarrow> int \<Rightarrow> ('z consst_scheme, int) km) option" where
  "console_read major = (if major = CONSOLE then Some consoleread else None)"

definition console_write :: "uart_dev \<Rightarrow> int \<Rightarrow> (bool \<Rightarrow> addr \<Rightarrow> int \<Rightarrow> ('z consst_scheme, int) km) option" where
  "console_write uart major = (if major = CONSOLE then Some (consolewrite uart) else None)"


section \<open>The line discipline\<close>

text \<open>
  What the two halves of the ring hold: the bytes that can be read, and the line being edited.
\<close>

definition cons_lines :: "consbuf \<Rightarrow> byte list \<times> byte list" where
  "cons_lines b = (ring (c_buf b) INPUT_BUF_SIZE (unat (c_r b)) (unat (c_w b - c_r b)),
     ring (c_buf b) INPUT_BUF_SIZE (unat (c_w b)) (unat (c_e b - c_w b)))"

definition cons_ok :: "consbuf \<Rightarrow> bool" where
  "cons_ok b \<longleftrightarrow> unat (c_w b - c_r b) + unat (c_e b - c_w b) \<le> INPUT_BUF_SIZE \<and> 10 \<notin> set (snd (cons_lines b))"

text \<open>
  The specification. Control-U empties the line, backspace and delete take its last byte, and any other byte but NUL is added
  while there is room; a newline, control-D or a full buffer ends the line.
\<close>

definition line_input :: "int \<Rightarrow> byte list \<times> byte list \<Rightarrow> byte list \<times> byte list" where
  "line_input c le =
     (if c = ctrl 0x50 then le
      else if c = ctrl 0x55 then (fst le, [])
      else if c = ctrl 0x48 \<or> c = 0x7f then (fst le, butlast (snd le))
      else if c = 0 \<or> length (fst le) + length (snd le) = INPUT_BUF_SIZE then le
      else let d = (if c = 13 then 10 else word_of_int c) in
        if d = 10 \<or> d = 4 \<or> Suc (length (fst le) + length (snd le)) = INPUT_BUF_SIZE then (fst le @ snd le @ [d], [])
        else (fst le, snd le @ [d]))"

definition add_char :: "byte \<Rightarrow> consbuf \<Rightarrow> consbuf" where
  "add_char d b = b\<lparr>c_buf := (c_buf b)(unat (c_e b) mod INPUT_BUF_SIZE := d), c_e := c_e b + 1\<rparr>"

lemma consbuf_size: "INPUT_BUF_SIZE dvd 2 ^ LENGTH(32)"
  by (simp add: INPUT_BUF_SIZE_def)

lemma cons_okD:
  assumes "cons_ok b"
  shows "unat (c_e b - c_r b) = unat (c_w b - c_r b) + unat (c_e b - c_w b)"
  by (rule unat_diff_split) (use assms in \<open>simp add: cons_ok_def INPUT_BUF_SIZE_def\<close>)

lemma cons_room:
  assumes "cons_ok b"
  shows "c_e b - c_r b < of_nat INPUT_BUF_SIZE \<longleftrightarrow> length (fst (cons_lines b)) + length (snd (cons_lines b)) \<noteq> INPUT_BUF_SIZE"
  using assms cons_okD [OF assms] by (auto simp: cons_lines_def cons_ok_def INPUT_BUF_SIZE_def word_less_nat_alt)

lemma add_char_lines:
  assumes "cons_ok b" "length (fst (cons_lines b)) + length (snd (cons_lines b)) < INPUT_BUF_SIZE"
  shows "cons_lines (add_char d b) = (fst (cons_lines b), snd (cons_lines b) @ [d])"
    "unat (c_e (add_char d b) - c_w b) = Suc (unat (c_e b - c_w b))"
proof -
  let ?k = "unat (c_w b - c_r b)" and ?l = "unat (c_e b - c_w b)"
  have n: "?k + ?l < INPUT_BUF_SIZE" using assms by (simp add: cons_lines_def)
  show s: "unat (c_e (add_char d b) - c_w b) = Suc ?l"
    using n by (subst unat_diff_Suc [symmetric]) (simp_all add: add_char_def INPUT_BUF_SIZE_def)
  have w: "unat (c_e b) mod INPUT_BUF_SIZE = (unat (c_w b) + ?l) mod INPUT_BUF_SIZE"
    by (rule unat_mod_diff [OF consbuf_size, symmetric])
  have r: "unat (c_e b) mod INPUT_BUF_SIZE = (unat (c_r b) + (?k + ?l)) mod INPUT_BUF_SIZE"
    using unat_mod_diff [OF consbuf_size, of "c_r b" "c_e b"] cons_okD [OF assms(1)] by simp
  have "ring (c_buf (add_char d b)) INPUT_BUF_SIZE (unat (c_r b)) ?k = ring (c_buf b) INPUT_BUF_SIZE (unat (c_r b)) ?k"
    using n by (simp add: add_char_def r ring_keep)
  moreover have "ring (c_buf (add_char d b)) INPUT_BUF_SIZE (unat (c_w b)) (Suc ?l) =
      ring (c_buf b) INPUT_BUF_SIZE (unat (c_w b)) ?l @ [d]"
    using n by (simp add: add_char_def w ring_push)
  ultimately show "cons_lines (add_char d b) = (fst (cons_lines b), snd (cons_lines b) @ [d])"
    using s by (simp add: cons_lines_def) (simp add: add_char_def)
qed

lemma end_line:
  assumes "unat (c_w b - c_r b) + unat (c_e b - c_w b) \<le> INPUT_BUF_SIZE"
  shows "cons_lines (b\<lparr>c_w := c_e b\<rparr>) = (fst (cons_lines b) @ snd (cons_lines b), [])" "cons_ok (b\<lparr>c_w := c_e b\<rparr>)"
proof -
  have u: "unat (c_e b - c_r b) = unat (c_w b - c_r b) + unat (c_e b - c_w b)"
    by (rule unat_diff_split) (use assms in \<open>simp add: INPUT_BUF_SIZE_def\<close>)
  have "ring (c_buf b) INPUT_BUF_SIZE (unat (c_r b) + unat (c_w b - c_r b)) n = ring (c_buf b) INPUT_BUF_SIZE (unat (c_w b)) n" for n
    by (rule ring_cong) (rule unat_mod_diff [OF consbuf_size])
  then show "cons_lines (b\<lparr>c_w := c_e b\<rparr>) = (fst (cons_lines b) @ snd (cons_lines b), [])"
    by (simp add: cons_lines_def u ring_add)
  then show "cons_ok (b\<lparr>c_w := c_e b\<rparr>)" using assms u by (simp add: cons_ok_def)
qed

lemma erase_char:
  assumes "cons_ok b" "c_e b \<noteq> c_w b"
  shows "cons_lines (b\<lparr>c_e := c_e b - 1\<rparr>) = (fst (cons_lines b), butlast (snd (cons_lines b)))" "cons_ok (b\<lparr>c_e := c_e b - 1\<rparr>)"
    "c_buf b (unat (c_e b - 1) mod INPUT_BUF_SIZE) \<noteq> 10"
    "unat (c_e b - 1 - c_w b) = unat (c_e b - c_w b) - 1" "unat (c_e b - c_w b) \<noteq> 0"
proof -
  let ?l = "unat (c_e b - c_w b)"
  note p = unat_diff_pred [of "c_w b" "c_e b"]
  have l: "?l = Suc (?l - 1)" using p assms(2) by simp
  have s: "snd (cons_lines b) = ring (c_buf b) INPUT_BUF_SIZE (unat (c_w b)) (?l - 1) @ [c_buf b ((unat (c_w b) + (?l - 1)) mod INPUT_BUF_SIZE)]"
    by (subst ring_Suc [symmetric], subst l [symmetric]) (simp add: cons_lines_def)
  have i: "(unat (c_w b) + (?l - 1)) mod INPUT_BUF_SIZE = unat (c_e b - 1) mod INPUT_BUF_SIZE"
    using unat_mod_diff [OF consbuf_size, of "c_w b" "c_e b - 1"] p assms(2) by simp
  show "cons_lines (b\<lparr>c_e := c_e b - 1\<rparr>) = (fst (cons_lines b), butlast (snd (cons_lines b)))"
    using p assms(2) s by (simp add: cons_lines_def)
  then show "cons_ok (b\<lparr>c_e := c_e b - 1\<rparr>)"
    using assms p(2) by (auto simp: cons_ok_def dest: in_set_butlastD)
  show "c_buf b (unat (c_e b - 1) mod INPUT_BUF_SIZE) \<noteq> 10"
    using assms(1) s i by (auto simp: cons_ok_def)
  show "unat (c_e b - 1 - c_w b) = unat (c_e b - c_w b) - 1" "unat (c_e b - c_w b) \<noteq> 0" using p assms(2) by simp_all
qed


section \<open>Characters from the keyboard\<close>

lemma set_cons_run [simp]: "set_cons f s = Ok () (s\<lparr>cons := f (cons s)\<rparr>)"
  by (simp add: set_cons_def)

lemma kill_line_run:
  assumes "putc_ok f" "cons_ok (cons u)" "n = unat (c_e (cons u) - c_w (cons u))"
  shows "\<exists>io b. kill_line f n u = Ok () (u\<lparr>cons := b, uart_io := io\<rparr>) \<and> cons_ok b \<and> cons_lines b = (fst (cons_lines (cons u)), [])"
  using assms(2,3)
proof (induction n arbitrary: u)
  case 0
  then have "snd (cons_lines (cons u)) = []" by (simp add: cons_lines_def)
  then have "cons_lines (cons u) = (fst (cons_lines (cons u)), [])" by (simp add: prod_eq_iff)
  moreover have "u = u\<lparr>cons := cons u, uart_io := uart_io u\<rparr>" by simp
  ultimately show ?case using 0 by (metis kill_line.simps(1) run_simps(1))
next
  case (Suc n)
  let ?b = "cons u"
  have d: "c_e ?b \<noteq> c_w ?b" using Suc.prems(2) by auto
  note e = erase_char [OF Suc.prems(1) d]
  let ?v = "u\<lparr>cons := ?b\<lparr>c_e := c_e ?b - 1\<rparr>\<rparr>"
  obtain io where p: "consputc f BACKSPACE ?v = Ok () (?v\<lparr>uart_io := io\<rparr>)" by (rule consputc_run [OF assms(1)])
  have n: "n = unat (c_e (cons ?v) - c_w (cons ?v))" using e(4) Suc.prems(2) by simp
  obtain io' b where "kill_line f n (?v\<lparr>uart_io := io\<rparr>) = Ok () (?v\<lparr>uart_io := io, cons := b, uart_io := io'\<rparr>)" "cons_ok b"
    "cons_lines b = (fst (cons_lines (cons ?v)), [])"
    using Suc.IH [of "?v\<lparr>uart_io := io\<rparr>"] e(2) n by auto
  moreover have "kill_line f (Suc n) u = kill_line f n (?v\<lparr>uart_io := io\<rparr>)" using p d e by simp
  ultimately show ?case using e by auto
qed


lemma word_of_char: "0 \<le> c \<Longrightarrow> c < 256 \<Longrightarrow> uint (word_of_int c :: byte) = c"
  by (simp add: uint_word_of_int)

text \<open>A byte for the line: \<open>d\<close> is the byte after the translation of carriage return.\<close>

lemma add_char_ok:
  fixes d :: byte
  assumes "cons_ok b" "length (fst (cons_lines b)) + length (snd (cons_lines b)) < INPUT_BUF_SIZE"
  defines "e \<equiv> add_char d b"
  shows "c_e e - c_r e = of_nat INPUT_BUF_SIZE \<longleftrightarrow> Suc (length (fst (cons_lines b)) + length (snd (cons_lines b))) = INPUT_BUF_SIZE"
    "unat (c_w e - c_r e) + unat (c_e e - c_w e) \<le> INPUT_BUF_SIZE"
    "d \<noteq> 10 \<Longrightarrow> cons_ok e"
proof -
  note a = add_char_lines [OF assms(1,2), of d]
  have f: "c_w e = c_w b" "c_r e = c_r b" by (simp_all add: e_def add_char_def)
  show le: "unat (c_w e - c_r e) + unat (c_e e - c_w e) \<le> INPUT_BUF_SIZE"
    using assms(2) a(2) by (simp add: f) (simp add: e_def cons_lines_def)
  have "unat (c_e e - c_r e) = unat (c_w e - c_r e) + unat (c_e e - c_w e)"
    by (rule unat_diff_split) (use le in \<open>simp add: INPUT_BUF_SIZE_def\<close>)
  also have "\<dots> = Suc (length (fst (cons_lines b)) + length (snd (cons_lines b)))"
    using a(2) by (simp add: f) (simp add: e_def cons_lines_def)
  finally show "c_e e - c_r e = of_nat INPUT_BUF_SIZE \<longleftrightarrow> Suc (length (fst (cons_lines b)) + length (snd (cons_lines b))) = INPUT_BUF_SIZE"
    by (simp add: INPUT_BUF_SIZE_def word_unat_eq_iff)
  show "cons_ok e" if "d \<noteq> 10" using le a(1) that assms(1) by (auto simp: cons_ok_def e_def)
qed

text \<open>The outcome of the switch for the input \<open>c\<close>, started in \<open>u\<close> with the lock held.\<close>

definition line_out :: "int \<Rightarrow> 'z consst_scheme \<Rightarrow> ('z consst_scheme, unit) outcome \<Rightarrow> bool" where
  "line_out c u r \<longleftrightarrow> (\<exists>io b p. r = Ok () (u\<lparr>procs := p, cons := b, uart_io := io\<rparr>) \<and> cons_ok b \<and> cons_lines b = line_input c (cons_lines (cons u)) \<and>
     p = (if fst (cons_lines b) = fst (cons_lines (cons u)) then procs u else awaken (cur u) Cons_r_chan 0 NPROC (procs u)))"

lemma line_out_ends:
  "r = Ok () (u\<lparr>procs := awaken (cur u) Cons_r_chan 0 NPROC (procs u), cons := b, uart_io := io\<rparr>) \<Longrightarrow> cons_ok b \<Longrightarrow>
   cons_lines b = line_input c (cons_lines (cons u)) \<Longrightarrow> fst (cons_lines b) \<noteq> fst (cons_lines (cons u)) \<Longrightarrow> line_out c u r"
  unfolding line_out_def by (intro exI [of _ io] exI [of _ b] exI [of _ "awaken (cur u) Cons_r_chan 0 NPROC (procs u)"]) simp

lemma line_out_edits:
  "r = Ok () (u\<lparr>cons := b, uart_io := io\<rparr>) \<Longrightarrow> cons_ok b \<Longrightarrow>
   cons_lines b = line_input c (cons_lines (cons u)) \<Longrightarrow> fst (cons_lines b) = fst (cons_lines (cons u)) \<Longrightarrow> line_out c u r"
  unfolding line_out_def by (intro exI [of _ io] exI [of _ b] exI [of _ "procs u"]) simp

lemma line_out_id: "cons_ok (cons u) \<Longrightarrow> line_input c (cons_lines (cons u)) = cons_lines (cons u) \<Longrightarrow> line_out c u (Ok () u)"
  by (rule line_out_edits [where b = "cons u" and io = "uart_io u"]) simp_all

lemma cons_default_run:
  assumes "procs_free y" "sync u = lock_acq Cons_lock y" "cons_ok (cons u)" "0 \<le> c" "c < 256" "putc_ok f"
    "c \<noteq> ctrl 0x50" "c \<noteq> ctrl 0x55" "c \<noteq> ctrl 0x48" "c \<noteq> 0x7f"
  shows "line_out c u (cons_default f c u)"
proof -
  let ?b = "cons u" and ?L = "fst (cons_lines (cons u))" and ?E = "snd (cons_lines (cons u))"
  have le: "length ?L + length ?E \<le> INPUT_BUF_SIZE" using assms(3) by (simp add: cons_ok_def cons_lines_def)
  show ?thesis
  proof (cases "c = 0 \<or> length ?L + length ?E = INPUT_BUF_SIZE")
    case True
    then have "cons_default f c u = Ok () u" using cons_room [OF assms(3)] by (auto simp: cons_default_def)
    then show ?thesis using True assms(3,7-) by (auto intro!: line_out_id simp: line_input_def)
  next
    case False
    then have room: "length ?L + length ?E < INPUT_BUF_SIZE" using le by simp
    define c' where "c' = (if c = 13 then 10 else c)"
    define d :: byte where "d = word_of_int c'"
    have d: "d = (if c = 13 then 10 else word_of_int c)" "c' = 10 \<longleftrightarrow> d = 10" "c' = ctrl 0x44 \<longleftrightarrow> d = 4"
      using word_of_char [OF assms(4,5)] by (auto simp: d_def c'_def ctrl_def)
    obtain io where p: "consputc f c' u = Ok () (u\<lparr>uart_io := io\<rparr>)" by (rule consputc_run [OF assms(6)])
    let ?e = "add_char d ?b"
    note a = add_char_lines [OF assms(3) room, of d] and o = add_char_ok [OF assms(3) room, of d]
    define ends where "ends \<longleftrightarrow> d = 10 \<or> d = 4 \<or> Suc (length ?L + length ?E) = INPUT_BUF_SIZE"
    have run: "cons_default f c u = (whenM ends (seq (set_cons (\<lambda>b. b\<lparr>c_w := c_e b\<rparr>)) (wakeup Cons_r_chan))) (u\<lparr>cons := ?e, uart_io := io\<rparr>)"
      using False cons_room [OF assms(3)] p o(1) d(2,3)
      by (simp add: cons_default_def Let_def c'_def [symmetric] add_char_def d_def [symmetric] ends_def)
    have spec: "line_input c (cons_lines ?b) = (if ends then (?L @ ?E @ [d], []) else (?L, ?E @ [d]))"
      using False assms(7-) by (simp add: line_input_def ends_def d(1) Let_def)
    show ?thesis
    proof (cases ends)
      case True
      have "cons_default f c u = Ok () (u\<lparr>procs := awaken (cur u) Cons_r_chan 0 NPROC (procs u), cons := ?e\<lparr>c_w := c_e ?e\<rparr>, uart_io := io\<rparr>)"
        using run True held_wakeup [OF assms(1), of Cons_lock "u\<lparr>cons := ?e\<lparr>c_w := c_e ?e\<rparr>, uart_io := io\<rparr>"] assms(2) by simp
      then show ?thesis by (rule line_out_ends) (use True spec end_line [OF o(2)] a(1) in auto)
    next
      case False
      then have "cons_default f c u = Ok () (u\<lparr>cons := ?e, uart_io := io\<rparr>)" using run by simp
      then show ?thesis by (rule line_out_edits) (use False spec o(3) a(1) ends_def in auto)
    qed
  qed
qed

text \<open>Control-P prints the list of processes and changes nothing else.\<close>

lemma cons_dump:
  assumes "procs_free y" "sync u = lock_acq Cons_lock y" "putc_sends f" "pr_locking u \<longrightarrow> lock_free Pr_lock y"
  shows "\<exists>h. cons_switch f (ctrl 0x50) u = Ok () (u\<lparr>uart_io := uart_io u @ h\<rparr>) \<and>
    sent h = 10 # concat (map (\<lambda>k. proc_line (procs u k)) [0..<NPROC])"
proof -
  have ok: "sync_ok y" using assms(1) by (rule procs_freeD)
  have "can_print u" "quiet (sync u) = sync u" using ok assms(2,4) by (auto simp: can_print_def)
  from saysD [OF procdump_says [OF assms(3) this]] show ?thesis by (auto simp: cons_switch_def)
qed

lemma cons_switch_run:
  assumes "procs_free y" "sync u = lock_acq Cons_lock y" "cons_ok (cons u)" "0 \<le> c" "c < 256" "putc_sends f"
    "pr_locking u \<longrightarrow> lock_free Pr_lock y"
  shows "line_out c u (cons_switch f c u)"
proof -
  let ?b = "cons u"
  have f: "putc_ok f" using assms(6) by (rule putc_sends_ok)
  consider "c = ctrl 0x50" | "c = ctrl 0x55" | "c = ctrl 0x48 \<or> c = 0x7f" | "c \<noteq> ctrl 0x50" "c \<noteq> ctrl 0x55" "c \<noteq> ctrl 0x48" "c \<noteq> 0x7f"
    by blast
  then show ?thesis
  proof cases
    case 1
    obtain h where "cons_switch f c u = Ok () (u\<lparr>cons := ?b, uart_io := uart_io u @ h\<rparr>)" using cons_dump [OF assms(1,2,6,7)] 1 by auto
    then show ?thesis by (rule line_out_edits) (use assms(3) 1 in \<open>simp_all add: line_input_def\<close>)
  next
    case 2
    then have spec: "line_input c (cons_lines ?b) = (fst (cons_lines ?b), [])" by (simp add: line_input_def ctrl_def)
    have run: "cons_switch f c u = kill_line f (unat (c_e ?b - c_w ?b)) u" using 2 by (simp add: cons_switch_def ctrl_def)
    obtain io b where "kill_line f (unat (c_e ?b - c_w ?b)) u = Ok () (u\<lparr>cons := b, uart_io := io\<rparr>)"
      "cons_ok b" "cons_lines b = (fst (cons_lines ?b), [])"
      using kill_line_run [OF f assms(3) refl] by auto
    then show ?thesis using run spec by (intro line_out_edits [where b = b and io = io]) simp_all
  next
    case 3
    then have spec: "line_input c (cons_lines ?b) = (fst (cons_lines ?b), butlast (snd (cons_lines ?b)))"
      by (auto simp: line_input_def ctrl_def)
    have run: "cons_switch f c u =
        (whenM (c_e ?b \<noteq> c_w ?b) (seq (set_cons (\<lambda>b. b\<lparr>c_e := c_e b - 1\<rparr>)) (consputc f BACKSPACE))) u"
      using 3 by (auto simp: cons_switch_def ctrl_def)
    show ?thesis
    proof (cases "c_e ?b = c_w ?b")
      case True
      then have "snd (cons_lines ?b) = []" by (simp add: cons_lines_def)
      then have "line_input c (cons_lines ?b) = cons_lines ?b" by (simp add: spec prod_eq_iff)
      then show ?thesis using True run assms(3) by (simp add: line_out_id)
    next
      case False
      obtain io where "consputc f BACKSPACE (u\<lparr>cons := ?b\<lparr>c_e := c_e ?b - 1\<rparr>\<rparr>) =
          Ok () (u\<lparr>cons := ?b\<lparr>c_e := c_e ?b - 1\<rparr>, uart_io := io\<rparr>)" by (rule consputc_run [OF f])
      then have "cons_switch f c u = Ok () (u\<lparr>cons := ?b\<lparr>c_e := c_e ?b - 1\<rparr>, uart_io := io\<rparr>)" using False run by simp
      then show ?thesis by (rule line_out_edits) (use spec erase_char [OF assms(3) False] in simp_all)
    qed
  next
    case 4
    then show ?thesis using cons_default_run [OF assms(1-5) f] by (simp add: cons_switch_def)
  qed
qed

text \<open>
  C20: An input byte does to the console's buffer what the line discipline says, from any position of the ring and across the
  wrap-around of its counters: control-U and backspace edit only the line not yet ended, a byte is dropped when the
  buffer holds 128, carriage return counts as newline, and the line goes to the readers at a newline, at control-D or when the buffer
  is full. Processes waiting for input become runnable exactly then, and the lock and interrupt state are as before. Control-P leaves the
  buffer alone and prints a line for every process in use.
\<close>

theorem consoleintr_correct:
  assumes "procs_free (sync s)" "lock_free Cons_lock (sync s)" "cons_ok (cons s)" "0 \<le> c" "c < 256" "putc_sends sync_putc"
    "pr_locking s \<longrightarrow> lock_free Pr_lock (sync s)"
  shows "\<exists>t. consoleintr sync_putc c s = Ok () t \<and> cons_ok (cons t) \<and> cons_lines (cons t) = line_input c (cons_lines (cons s)) \<and>
    procs t = (if fst (cons_lines (cons t)) = fst (cons_lines (cons s)) then procs s else awaken (cur s) Cons_r_chan 0 NPROC (procs s)) \<and>
    sync t = quiet (sync s) \<and>
    (c = ctrl 0x50 \<longrightarrow> sent (uart_io t) = sent (uart_io s) @ 10 # concat (map (\<lambda>k. proc_line (procs s k)) [0..<NPROC]))"
proof -
  define u where "u = s\<lparr>sync := lock_acq Cons_lock (sync s)\<rparr>"
  have y: "sync_ok (sync s)" using assms(1) by (rule procs_freeD)
  have acq: "acquire Cons_lock s = Ok () u" using y assms(2) by (simp add: acquire_run u_def)
  have "line_out c u (cons_switch sync_putc c u)"
    by (rule cons_switch_run [OF assms(1)]) (use assms in \<open>simp_all add: u_def\<close>)
  moreover have "cons u = cons s" "procs u = procs s" "cur u = cur s" by (simp_all add: u_def)
  ultimately obtain io b p where sw: "cons_switch sync_putc c u = Ok () (u\<lparr>procs := p, cons := b, uart_io := io\<rparr>)" (is "_ = Ok () ?v")
    "cons_ok b" "cons_lines b = line_input c (cons_lines (cons s))"
    "p = (if fst (cons_lines b) = fst (cons_lines (cons s)) then procs s else awaken (cur s) Cons_r_chan 0 NPROC (procs s))"
    unfolding line_out_def by metis
  have "release Cons_lock ?v = Ok () (?v\<lparr>sync := quiet (sync s)\<rparr>)"
    by (rule release_acq [OF _ y assms(2)]) (simp add: u_def)
  then have "consoleintr sync_putc c s = Ok () (?v\<lparr>sync := quiet (sync s)\<rparr>)" using acq sw(1) by (simp add: consoleintr_def)
  moreover have "sent io = sent (uart_io s) @ 10 # concat (map (\<lambda>k. proc_line (procs s k)) [0..<NPROC])" if c: "c = ctrl 0x50"
  proof -
    obtain h where "cons_switch sync_putc c u = Ok () (u\<lparr>uart_io := uart_io u @ h\<rparr>)" "sent h = 10 # concat (map (\<lambda>k. proc_line (procs u k)) [0..<NPROC])"
      using cons_dump [OF assms(1) _ assms(6), of u] assms(7) unfolding c by (auto simp: u_def)
    moreover from this(1) sw(1) have "uart_io (u\<lparr>uart_io := uart_io u @ h\<rparr>) = uart_io ?v" by (metis outcome.inject(1))
    then have "io = uart_io s @ h" by (simp add: u_def)
    ultimately show ?thesis by (simp add: u_def)
  qed
  ultimately show ?thesis using sw by simp
qed


section \<open>Witnesses\<close>

definition demo_cons :: consbuf where
  "demo_cons = \<lparr>c_buf = (\<lambda>k. if k = 126 then 0x61 else 0), c_r = - 2, c_w = - 2, c_e = - 1\<rparr>"

lemma demo_cons_lines: "cons_lines demo_cons = ([], [0x61])" "cons_ok demo_cons"
  by (simp_all add: cons_lines_def cons_ok_def demo_cons_def INPUT_BUF_SIZE_def ring_def)

text \<open>The counters are about to wrap and the line holds one letter: carriage return ends it and wakes the reader.\<close>

theorem consoleintr_correct_witness:
  "\<exists>(s :: consst) t. cons_lines (cons s) = ([], [0x61]) \<and> consoleintr (WriteReg THR) 13 s = Ok () t \<and>
     cons_lines (cons t) = ([0x61, 10], []) \<and> pstate (procs s 3) = SLEEPING \<and> pstate (procs t 3) = RUNNABLE"
proof -
  define s :: consst where "s = (undefined :: consst)\<lparr>sync := demo_sync, cons := demo_cons,
    procs := (\<lambda>_. idle_process\<lparr>pstate := SLEEPING, pchan := Cons_r_chan\<rparr>)\<rparr>"
  have s: "sync s = demo_sync" "cons s = demo_cons" "procs s = (\<lambda>_. idle_process\<lparr>pstate := SLEEPING, pchan := Cons_r_chan\<rparr>)" "cur s = Some 0"
    by (simp_all add: s_def cur_def demo_sync_def idle_sync_def)
  have "putc_sends (WriteReg THR :: unit putc)" by (auto simp: putc_sends_def WriteReg_def)
  moreover have "line_input 13 ([], [0x61]) = ([0x61, 10], [])" by (simp add: line_input_def ctrl_def INPUT_BUF_SIZE_def)
  ultimately obtain t where "consoleintr (WriteReg THR) 13 s = Ok () t" "cons_lines (cons t) = ([0x61, 10], [])"
    "procs t = awaken (Some 0) Cons_r_chan 0 NPROC (procs s)"
    using consoleintr_correct [of s 13 "WriteReg THR"] s by (auto simp: demo_cons_lines demo_sync_free)
  then show ?thesis using s by (intro exI [of _ s] exI [of _ t]) (simp add: demo_cons_lines awaken_def NPROC_def)
qed


end
