(* ===== verification/Conread.thy ===== *)
theory Conread
  imports Console
begin

text \<open>
  Reading a line from the console: \<open>consoleread\<close> of \<^verbatim>\<open>kernel/src/console.c\<close> against the lines that \<open>consoleintr\<close> has put into the buffer.
\<close>

text \<open>
  The specification: how many bytes go to the user and how many leave the buffer, and whether the reader waits for more. \<open>ok j\<close>: the user can
  write the \<open>j\<close>th byte of his buffer; \<open>k\<close> bytes are there already and \<open>n\<close> more were asked for. A read ends after a newline; it ends before a
  control-D, which is taken out only by a read that has delivered nothing yet.
\<close>

fun line_take :: "(nat \<Rightarrow> bool) \<Rightarrow> nat \<Rightarrow> nat \<Rightarrow> byte list \<Rightarrow> nat \<times> nat \<times> bool" where
  "line_take ok k 0 L = (0, 0, False)"
| "line_take ok k (Suc n) [] = (0, 0, True)"
| "line_take ok k (Suc n) (c # L) =
     (if c = 4 then (0, if k = 0 then 1 else 0, False)
      else if \<not> ok k then (0, 1, False)
      else if c = 10 then (1, 1, False)
      else let (a, l, w) = line_take ok (Suc k) n L in (Suc a, Suc l, w))"

lemma line_take_le: "line_take ok k n L = (a, l, w) \<Longrightarrow> a \<le> length L \<and> l \<le> length L \<and> a \<le> n"
  by (induction ok k n L arbitrary: a l w rule: line_take.induct) (auto split: if_splits prod.splits)

section \<open>Taking a byte out of the buffer\<close>

definition next_char :: "consbuf \<Rightarrow> byte" where
  "next_char b = c_buf b (unat (c_r b) mod INPUT_BUF_SIZE)"

lemma cons_empty_iff: "fst (cons_lines b) = [] \<longleftrightarrow> c_r b = c_w b"
proof -
  have "fst (cons_lines b) = [] \<longleftrightarrow> unat (c_w b - c_r b) = 0" by (simp add: cons_lines_def flip: length_0_conv)
  then show ?thesis by (auto simp: unat_eq_0)
qed

lemma cons_take:
  assumes "cons_ok b" "c_r b \<noteq> c_w b"
  shows "cons_lines b = (next_char b # fst (cons_lines (b\<lparr>c_r := c_r b + 1\<rparr>)), snd (cons_lines (b\<lparr>c_r := c_r b + 1\<rparr>)))"
    "cons_ok (b\<lparr>c_r := c_r b + 1\<rparr>)"
proof -
  let ?n = "unat (c_w b - (c_r b + 1))"
  have n: "unat (c_w b - c_r b) = Suc ?n" using unat_diff_pred [OF assms(2)] by simp
  have "ring (c_buf b) INPUT_BUF_SIZE (Suc (unat (c_r b))) ?n = ring (c_buf b) INPUT_BUF_SIZE (unat (c_r b + 1)) ?n"
    by (rule ring_cong) (simp add: unat_mod_add [OF consbuf_size])
  then show "cons_lines b = (next_char b # fst (cons_lines (b\<lparr>c_r := c_r b + 1\<rparr>)), snd (cons_lines (b\<lparr>c_r := c_r b + 1\<rparr>)))"
    by (simp add: cons_lines_def n ring_pop next_char_def)
  then show "cons_ok (b\<lparr>c_r := c_r b + 1\<rparr>)" using assms(1) n by (simp add: cons_ok_def)
qed

section \<open>The reader\<close>

text \<open>\<open>reading\<close>: process \<open>i\<close> holds the lock of the console, \<open>y\<close> is the lock state without it, and \<open>root\<close> is its page table.\<close>

definition reading :: "'z consst_scheme \<Rightarrow> sync \<Rightarrow> nat \<Rightarrow> addr \<Rightarrow> addr list \<Rightarrow> bool" where
  "reading s y i root ps \<longleftrightarrow> procs_free y \<and> lock_free Cons_lock y \<and> sync s = lock_acq Cons_lock y \<and> cur s = Some i \<and>
     pagetable (procs s i) = root \<and> uspace s root ps"

lemma uspace_cons: "uspace ((s :: 'z consst_scheme)\<lparr>cons := b\<rparr>) root ps = uspace s root ps"
  by (rule iffI; rule uspace_same, assumption) (auto dest: uspaceD)

lemma cons_mem_order [simp]: "(s :: 'z consst_scheme)\<lparr>cons := b, mem := m\<rparr> = s\<lparr>mem := m, cons := b\<rparr>"
  by simp

lemma copied_cons:
  "copied ((s :: 'z consst_scheme)\<lparr>cons := b\<rparr>) root ps va bs k (s\<lparr>mem := m, cons := b\<rparr>) = copied s root ps va bs k (s\<lparr>mem := m\<rparr>)"
  unfolding copied_def using uspace_cons [of b "s\<lparr>mem := m\<rparr>" root ps] by (auto simp: exI [of _ m])

lemma reading_cons [simp]: "reading (s\<lparr>cons := b\<rparr>) y i root ps = reading s y i root ps"
  by (simp add: reading_def uspace_cons)

lemma reading_mem: "reading s y i root ps \<Longrightarrow> uspace (s\<lparr>mem := m\<rparr>) root ps \<Longrightarrow> reading (s\<lparr>mem := m\<rparr>) y i root ps"
  by (simp add: reading_def)

lemma reading_run:
  assumes "reading s y i root ps"
  shows "this_proc s = Ok i s" "killed i s = Ok (pkilled (procs s i)) s" "release Cons_lock s = Ok () (s\<lparr>sync := quiet y\<rparr>)"
    "sleep Cons_r_chan Cons_lock s = Swtch (s\<lparr>sync := lock_acq (Proc_lock i) y, procs := (procs s)(i := (procs s i)\<lparr>pchan := Cons_r_chan, pstate := SLEEPING\<rparr>)\<rparr>)"
    "either_copyout True dst bs n s = copyout root dst bs n s"
proof -
  have y: "procs_free y" "sync_ok y" "lock_free Cons_lock y" "sync s = lock_acq Cons_lock y" "cur s = Some i" "pagetable (procs s i) = root"
    using assms by (auto simp: reading_def procs_freeD)
  have f: "procs_free (sync s)" using procs_free_acq [OF y(1), of Cons_lock] y(4) by (simp add: proc_free_lock_def)
  have q: "s\<lparr>sync := quiet (sync s)\<rparr> = s" "sync_ok (sync s)" using y by simp_all
  show "this_proc s = Ok i s" using this_proc_run [of s i] q y(5) by simp
  show "killed i s = Ok (pkilled (procs s i)) s" using killed_run [OF f, of i] q by simp
  show "release Cons_lock s = Ok () (s\<lparr>sync := quiet y\<rparr>)" by (rule release_acq) (use y in auto)
  show "sleep Cons_r_chan Cons_lock s = Swtch (s\<lparr>sync := lock_acq (Proc_lock i) y, procs := (procs s)(i := (procs s i)\<lparr>pchan := Cons_r_chan, pstate := SLEEPING\<rparr>)\<rparr>)"
    by (rule sleep_run) (use y in auto)
  show "either_copyout True dst bs n s = copyout root dst bs n s"
    using myproc_run [of s] q y(5,6) by (simp add: either_copyout_def cur_def)
qed

text \<open>The end of a read: \<open>a\<close> bytes in the user's buffer, the buffer of the console as \<open>b\<close>, and \<open>w\<close> when the reader waits.\<close>

definition read_end :: "'z consst_scheme \<Rightarrow> sync \<Rightarrow> nat \<Rightarrow> mem \<Rightarrow> consbuf \<Rightarrow> int \<Rightarrow> bool \<Rightarrow> ('z consst_scheme, int) outcome" where
  "read_end s y i m b r w =
     (if \<not> w then Ok r (s\<lparr>sync := quiet y, mem := m, cons := b\<rparr>)
      else if pkilled (procs s i) then Ok (- 1) (s\<lparr>sync := quiet y, mem := m, cons := b\<rparr>)
      else Swtch (s\<lparr>sync := lock_acq (Proc_lock i) y, mem := m,
        procs := (procs s)(i := (procs s i)\<lparr>pchan := Cons_r_chan, pstate := SLEEPING\<rparr>), cons := b\<rparr>))"

lemma consoleread_char:
  assumes "reading s y i root ps" "c_r (cons s) \<noteq> c_w (cons s)" "next_char (cons s) \<noteq> 4"
  shows "consoleread_loop True dst target (Suc n) s =
    bnd (copyout root dst [next_char (cons s)] 1) (\<lambda>r.
      if r = - 1 then consoleread_end target (int (Suc n))
      else if next_char (cons s) = 10 then consoleread_end target (int n)
      else consoleread_loop True (dst + 1) target n) (s\<lparr>cons := (cons s)\<lparr>c_r := c_r (cons s) + 1\<rparr>\<rparr>)"
proof -
  have D: "word_of_int (ctrl 0x44) = (4 :: byte)" by (simp add: ctrl_def)
  have "either_copyout True dst [next_char (cons s)] 1 (s\<lparr>cons := (cons s)\<lparr>c_r := c_r (cons s) + 1\<rparr>\<rparr>) =
      copyout root dst [next_char (cons s)] 1 (s\<lparr>cons := (cons s)\<lparr>c_r := c_r (cons s) + 1\<rparr>\<rparr>)"
    by (rule reading_run(5) [of _ y i root ps]) (use assms(1) in simp)
  then show ?thesis using assms(2,3) D by (simp add: bnd_def Let_def next_char_def [symmetric])
qed

text \<open>What a read from \<open>va\<close> on does, with \<open>k\<close> bytes delivered before: \<open>a\<close>, \<open>l\<close> and \<open>w\<close> as in \<open>line_take\<close>.\<close>

definition reads_line :: "'z consst_scheme \<Rightarrow> sync \<Rightarrow> nat \<Rightarrow> addr \<Rightarrow> addr list \<Rightarrow> addr \<Rightarrow> nat \<Rightarrow> nat \<times> nat \<times> bool \<Rightarrow> ('z consst_scheme, int) outcome \<Rightarrow> bool" where
  "reads_line s y i root ps va k alw out \<longleftrightarrow> (case alw of (a, l, w) \<Rightarrow> \<exists>m b.
     copied s root ps va (fst (cons_lines (cons s))) a (s\<lparr>mem := m\<rparr>) \<and> cons_ok b \<and>
     cons_lines b = (drop l (fst (cons_lines (cons s))), snd (cons_lines (cons s))) \<and> out = read_end s y i m b (int (k + a)) w)"

lemma reads_lineI:
  assumes "copied s root ps va (fst (cons_lines (cons s))) a (s\<lparr>mem := m\<rparr>)" "cons_ok b"
    "cons_lines b = (drop l (fst (cons_lines (cons s))), snd (cons_lines (cons s)))" "out = read_end s y i m b (int (k + a)) w"
  shows "reads_line s y i root ps va k (a, l, w) out"
  unfolding reads_line_def using assms by blast

lemma reads_nothing:
  assumes "uspace s root ps" "cons_ok b" "cons_lines b = (drop l (fst (cons_lines (cons s))), snd (cons_lines (cons s)))"
    "out = read_end s y i (mem s) b (int k) w"
  shows "reads_line s y i root ps va k (0, l, w) out"
  by (rule reads_lineI [of _ _ _ _ _ "mem s" b]) (use assms copied_0 [OF assms(1)] in simp_all)

lemma consoleread_end_run:
  assumes "reading s y i root ps" "uspace (s\<lparr>mem := x\<rparr>) root ps"
  shows "consoleread_end t m (s\<lparr>mem := x, cons := z\<rparr>) = read_end s y i x z (t - m) False"
  using reading_run(3) [of "s\<lparr>mem := x, cons := z\<rparr>" y i root ps] reading_mem [OF assms] by (simp add: consoleread_end_def read_end_def)

lemma read_empty:
  assumes "reading s y i root ps" "cons_ok (cons s)" "c_r (cons s) = c_w (cons s)"
  shows "reads_line s y i root ps va k (line_take ok k (Suc n) (fst (cons_lines (cons s)))) (consoleread_loop True va t (Suc n) s)"
proof -
  have "fst (cons_lines (cons s)) = []" using assms(3) by (simp add: cons_empty_iff)
  moreover have "uspace s root ps" using assms(1) by (simp add: reading_def)
  ultimately show ?thesis using reading_run [OF assms(1)] assms(2,3)
    by (simp add: reads_nothing [where b = "cons s"] read_end_def prod_eq_iff)
qed

text \<open>The three ends of a read: at a control-D, at an address that cannot be written, and after a newline.\<close>

lemma read_eof:
  assumes "reading s y i root ps" "cons_ok (cons s)" "c_r (cons s) \<noteq> c_w (cons s)" "next_char (cons s) = 4"
  shows "reads_line s y i root ps va k (line_take ok k (Suc n) (fst (cons_lines (cons s)))) (consoleread_loop True va (int (k + Suc n)) (Suc n) s)"
proof -
  let ?b = "cons s"
  let ?q = "?b\<lparr>c_r := c_r ?b + 1\<rparr>"
  note q = cons_take [OF assms(2,3)]
  have u: "uspace s root ps" using assms(1) by (simp add: reading_def)
  have D: "word_of_int (ctrl 0x44) = (4 :: byte)" by (simp add: ctrl_def)
  have "consoleread_loop True va (int (k + Suc n)) (Suc n) s = consoleread_end (int (k + Suc n)) (int (Suc n)) (s\<lparr>mem := mem s, cons := (if k = 0 then ?q else ?b)\<rparr>)"
    using assms(3,4) D by (simp add: next_char_def Let_def)
  also have "\<dots> = read_end s y i (mem s) (if k = 0 then ?q else ?b) (int k) False"
    by (subst consoleread_end_run [OF assms(1)]) (use u in simp_all)
  finally show ?thesis using q assms(2,4) u
    by (auto intro!: reads_nothing [where b = "if k = 0 then ?q else ?b"] simp: prod_eq_iff)
qed

lemma read_fault:
  assumes "reading s y i root ps" "cons_ok (cons s)" "c_r (cons s) \<noteq> c_w (cons s)" "next_char (cons s) \<noteq> 4"
    "\<not> uvalid (mem s) root va" "\<not> ok k"
  shows "reads_line s y i root ps va k (line_take ok k (Suc n) (fst (cons_lines (cons s)))) (consoleread_loop True va (int (k + Suc n)) (Suc n) s)"
proof -
  let ?b = "cons s"
  let ?q = "?b\<lparr>c_r := c_r ?b + 1\<rparr>"
  note q = cons_take [OF assms(2,3)]
  have u: "uspace s root ps" using assms(1) by (simp add: reading_def)
  have "copyout root va [next_char ?b] 1 (s\<lparr>cons := ?q\<rparr>) = Ok (- 1) (s\<lparr>cons := ?q\<rparr>)"
    using copyout_one [of "s\<lparr>cons := ?q\<rparr>" root ps va "next_char ?b"] u assms(5) by (simp add: uspace_cons)
  then have "consoleread_loop True va (int (k + Suc n)) (Suc n) s = consoleread_end (int (k + Suc n)) (int (Suc n)) (s\<lparr>mem := mem s, cons := ?q\<rparr>)"
    unfolding consoleread_char [OF assms(1,3,4)] by simp
  also have "\<dots> = read_end s y i (mem s) ?q (int k) False" by (subst consoleread_end_run [OF assms(1)]) (use u in simp_all)
  finally show ?thesis using q assms(4,6) u by (auto intro!: reads_nothing [where b = ?q] simp: prod_eq_iff)
qed

text \<open>A byte is delivered; then the read ends with a newline, or goes on with the next byte.\<close>

lemma read_put:
  assumes "reading s y i root ps" "uvalid (mem s) root va"
  obtains m where "copyout root va [c] 1 (s\<lparr>cons := q\<rparr>) = Ok 0 (s\<lparr>mem := m, cons := q\<rparr>)" "copied s root ps va [c] 1 (s\<lparr>mem := m\<rparr>)"
    "reading (s\<lparr>mem := m, cons := q\<rparr>) y i root ps" "\<And>x. uvalid m root x = uvalid (mem s) root x"
proof -
  have u: "uspace s root ps" using assms(1) by (simp add: reading_def)
  then obtain m where m: "copyout root va [c] 1 (s\<lparr>cons := q\<rparr>) = Ok 0 (s\<lparr>mem := m, cons := q\<rparr>)"
    "copied (s\<lparr>cons := q\<rparr>) root ps va [c] 1 (s\<lparr>mem := m, cons := q\<rparr>)"
    using copyout_one [of "s\<lparr>cons := q\<rparr>" root ps va c] assms(2) by (auto simp: uspace_cons)
  then have c: "copied s root ps va [c] 1 (s\<lparr>mem := m\<rparr>)" by (simp only: copied_cons)
  then have "uspace (s\<lparr>mem := m\<rparr>) root ps" by (simp add: copied_def)
  then have "reading (s\<lparr>mem := m, cons := q\<rparr>) y i root ps" using reading_mem [OF assms(1)] by simp
  moreover have "uvalid m root x = uvalid (mem s) root x" for x using c by (intro pte_uvalid) (simp add: copied_def)
  ultimately show thesis using that m(1) c by blast
qed

lemma read_newline:
  assumes "reading s y i root ps" "cons_ok (cons s)" "c_r (cons s) \<noteq> c_w (cons s)" "next_char (cons s) = 10" "uvalid (mem s) root va" "ok k"
  shows "reads_line s y i root ps va k (line_take ok k (Suc n) (fst (cons_lines (cons s)))) (consoleread_loop True va (int (k + Suc n)) (Suc n) s)"
proof -
  let ?b = "cons s"
  let ?q = "?b\<lparr>c_r := c_r ?b + 1\<rparr>"
  note q = cons_take [OF assms(2,3)]
  have c: "next_char ?b \<noteq> 4" using assms(4) by simp
  obtain m where m: "copyout root va [next_char ?b] 1 (s\<lparr>cons := ?q\<rparr>) = Ok 0 (s\<lparr>mem := m, cons := ?q\<rparr>)"
    "copied s root ps va [next_char ?b] 1 (s\<lparr>mem := m\<rparr>)" using read_put [OF assms(1,5)] by metis
  have "consoleread_loop True va (int (k + Suc n)) (Suc n) s = consoleread_end (int (k + Suc n)) (int n) (s\<lparr>mem := m, cons := ?q\<rparr>)"
    unfolding consoleread_char [OF assms(1,3) c] bnd_run(1) [where m = "copyout root va [next_char ?b] 1", OF m(1)] using assms(4) by simp
  also have "\<dots> = read_end s y i m ?q (int (k + 1)) False"
    by (subst consoleread_end_run [OF assms(1)]) (use m(2) in \<open>simp_all add: copied_def\<close>)
  finally have run: "consoleread_loop True va (int (k + Suc n)) (Suc n) s = read_end s y i m ?q (int (k + 1)) False" .
  have L: "fst (cons_lines ?b) = next_char ?b # fst (cons_lines ?q)" "snd (cons_lines ?b) = snd (cons_lines ?q)" using q(1) by (simp_all add: prod_eq_iff)
  have lt: "line_take ok k (Suc n) (fst (cons_lines ?b)) = (1, 1, False)" unfolding L(1) using assms(4,6) by simp
  have "copied s root ps va (fst (cons_lines ?b)) 1 (s\<lparr>mem := m\<rparr>)" unfolding L(1) by (rule copied_one [OF m(2)])
  then show ?thesis unfolding lt by (rule reads_lineI [OF _ q(2) _ run]) (use L in \<open>simp add: prod_eq_iff\<close>)
qed

lemma read_more:
  fixes s :: "'z consst_scheme"
  assumes "reading s y i root ps" "cons_ok (cons s)" "c_r (cons s) \<noteq> c_w (cons s)" "next_char (cons s) \<noteq> 4" "next_char (cons s) \<noteq> 10"
    "uvalid (mem s) root va" "ok k"
    "\<And>u :: 'z consst_scheme. reading u y i root ps \<Longrightarrow> cons_ok (cons u) \<Longrightarrow> (\<forall>x. uvalid (mem u) root x = uvalid (mem s) root x) \<Longrightarrow>
      reads_line u y i root ps (va + 1) (Suc k) (line_take ok (Suc k) n (fst (cons_lines (cons u)))) (consoleread_loop True (va + 1) (int (Suc k + n)) n u)"
  shows "reads_line s y i root ps va k (line_take ok k (Suc n) (fst (cons_lines (cons s)))) (consoleread_loop True va (int (k + Suc n)) (Suc n) s)"
proof -
  let ?b = "cons s"
  let ?q = "?b\<lparr>c_r := c_r ?b + 1\<rparr>"
  note q = cons_take [OF assms(2,3)]
  obtain m where m: "copyout root va [next_char ?b] 1 (s\<lparr>cons := ?q\<rparr>) = Ok 0 (s\<lparr>mem := m, cons := ?q\<rparr>)"
    "copied s root ps va [next_char ?b] 1 (s\<lparr>mem := m\<rparr>)" "reading (s\<lparr>mem := m, cons := ?q\<rparr>) y i root ps" "\<And>x. uvalid m root x = uvalid (mem s) root x"
    using read_put [OF assms(1,6)] by metis
  let ?u = "s\<lparr>mem := m, cons := ?q\<rparr>"
  obtain a l w where al: "line_take ok (Suc k) n (fst (cons_lines ?q)) = (a, l, w)" by (metis prod_cases3)
  have L: "fst (cons_lines ?b) = next_char ?b # fst (cons_lines ?q)" "snd (cons_lines ?b) = snd (cons_lines ?q)" using q(1) by (simp_all add: prod_eq_iff)
  have lt: "line_take ok k (Suc n) (fst (cons_lines ?b)) = (Suc a, Suc l, w)" unfolding L(1) using assms(4,5,7) al by simp
  have "reads_line ?u y i root ps (va + 1) (Suc k) (a, l, w) (consoleread_loop True (va + 1) (int (Suc k + n)) n ?u)"
    using assms(8) [OF m(3)] q(2) m(4) al by simp
  then obtain m' b where mb: "copied ?u root ps (va + 1) (fst (cons_lines ?q)) a (?u\<lparr>mem := m'\<rparr>)" "cons_ok b"
    "cons_lines b = (drop l (fst (cons_lines ?q)), snd (cons_lines ?q))"
    "consoleread_loop True (va + 1) (int (Suc k + n)) n ?u = read_end ?u y i m' b (int (Suc k + a)) w" by (auto simp: reads_line_def)
  have "consoleread_loop True va (int (k + Suc n)) (Suc n) s = consoleread_loop True (va + 1) (int (Suc k + n)) n ?u"
    unfolding consoleread_char [OF assms(1,3,4)] bnd_run(1) [where m = "copyout root va [next_char ?b] 1", OF m(1)] using assms(5) by simp
  then have run: "consoleread_loop True va (int (k + Suc n)) (Suc n) s = read_end s y i m' b (int (k + Suc a)) w" using mb(4) by (simp add: read_end_def)
  have "copied (s\<lparr>mem := m\<rparr>) root ps (va + 1) (fst (cons_lines ?q)) a (s\<lparr>mem := m'\<rparr>)" using mb(1) copied_cons [of ?q "s\<lparr>mem := m\<rparr>"] by simp
  moreover have "length (fst (cons_lines ?q)) < 2 ^ 63" using q(2) by (simp add: cons_ok_def cons_lines_def INPUT_BUF_SIZE_def)
  ultimately have "copied s root ps va (fst (cons_lines ?b)) (Suc a) (s\<lparr>mem := m'\<rparr>)"
    unfolding L(1) using copied_Cons [OF m(2)] line_take_le [OF al] by blast
  then show ?thesis unfolding lt by (rule reads_lineI [OF _ mb(2) _ run]) (use L mb(3) in simp)
qed

lemma consoleread_loop_run:
  fixes s :: "'z consst_scheme"
  assumes "reading s y i root ps" "cons_ok (cons s)"
  shows "reads_line s y i root ps (d + of_nat k) k (line_take (\<lambda>j. uvalid (mem s) root (d + of_nat j)) k n (fst (cons_lines (cons s))))
    (consoleread_loop True (d + of_nat k) (int (k + n)) n s)"
  using assms
proof (induction n arbitrary: s k)
  case 0
  have "uspace s root ps" using 0(1) by (simp add: reading_def)
  then show ?case using 0 reading_run(3) [OF 0(1)]
    by (simp add: consoleread_end_def read_end_def prod_eq_iff reads_nothing [where b = "cons s"])
next
  case (Suc n)
  have more: "reads_line u y i root ps (d + of_nat k + 1) (Suc k) (line_take (\<lambda>j. uvalid (mem s) root (d + of_nat j)) (Suc k) n (fst (cons_lines (cons u))))
      (consoleread_loop True (d + of_nat k + 1) (int (Suc k + n)) n u)"
    if "reading u y i root ps" "cons_ok (cons u)" "\<forall>x. uvalid (mem u) root x = uvalid (mem s) root x" for u :: "'z consst_scheme"
    using Suc.IH [OF that(1,2), of "Suc k"] that(3) by (simp add: ac_simps)
  consider "c_r (cons s) = c_w (cons s)" | "c_r (cons s) \<noteq> c_w (cons s)" "next_char (cons s) = 4"
    | "c_r (cons s) \<noteq> c_w (cons s)" "next_char (cons s) \<noteq> 4" "\<not> uvalid (mem s) root (d + of_nat k)"
    | "c_r (cons s) \<noteq> c_w (cons s)" "next_char (cons s) = 10" "uvalid (mem s) root (d + of_nat k)"
    | "c_r (cons s) \<noteq> c_w (cons s)" "next_char (cons s) \<noteq> 4" "next_char (cons s) \<noteq> 10" "uvalid (mem s) root (d + of_nat k)" by blast
  then show ?case
  proof cases
    case 1
    then show ?thesis by (rule read_empty [OF Suc.prems])
  next
    case 2
    then show ?thesis by (rule read_eof [OF Suc.prems])
  next
    case 3
    then show ?thesis by (intro read_fault [OF Suc.prems])
  next
    case 4
    then show ?thesis by (intro read_newline [OF Suc.prems])
  next
    case 5
    then show ?thesis by (intro read_more [OF Suc.prems]) (use more in simp_all)
  qed
qed

section \<open>Reading a line\<close>

text \<open>
  C21: \<open>consoleread\<close> delivers lines. Of the bytes that were typed and ended it copies, in order, to consecutive addresses of the user, up to and with
  the next newline and not more than \<open>n\<close>; a control-D ends the read before it and is used up only when nothing was delivered, so that one read
  returns 0 for it. What was delivered leaves the buffer and the rest, with the line still being edited, stays. With nothing left and no end reached
  the reader sleeps with the lock free, or returns -1 when it has been killed. At an address the user cannot write the read ends, and the byte that could not be
  delivered is lost.
\<close>

theorem consoleread_correct:
  fixes s :: "'z consst_scheme"
  assumes "running s i" "lock_free Cons_lock (sync s)" "uspace s (pagetable (procs s i)) ps" "cons_ok (cons s)"
    "line_take (\<lambda>j. uvalid (mem s) (pagetable (procs s i)) (dst + of_nat j)) 0 (nat n) (fst (cons_lines (cons s))) = (a, l, w)"
  shows "\<exists>m b. copied s (pagetable (procs s i)) ps dst (fst (cons_lines (cons s))) a (s\<lparr>mem := m\<rparr>) \<and> cons_ok b \<and>
    cons_lines b = (drop l (fst (cons_lines (cons s))), snd (cons_lines (cons s))) \<and>
    consoleread True dst n s =
      (if \<not> w then Ok (int a) (s\<lparr>sync := quiet (sync s), mem := m, cons := b\<rparr>)
       else if pkilled (procs s i) then Ok (- 1) (s\<lparr>sync := quiet (sync s), mem := m, cons := b\<rparr>)
       else Swtch (s\<lparr>sync := lock_acq (Proc_lock i) (sync s), mem := m,
         procs := (procs s)(i := (procs s i)\<lparr>pchan := Cons_r_chan, pstate := SLEEPING\<rparr>), cons := b\<rparr>))"
proof -
  let ?u = "s\<lparr>sync := lock_acq Cons_lock (sync s)\<rparr>" and ?root = "pagetable (procs s i)"
  have y: "procs_free (sync s)" "sync_ok (sync s)" "cur s = Some i" using assms(1) by (auto simp: running_def procs_freeD)
  have acq: "acquire Cons_lock s = Ok () ?u" using assms(2) by (simp add: acquire_run)
  have "uspace ?u ?root ps" by (rule uspace_same [OF assms(3)]) (use y(2) uspaceD [OF assms(3)] in simp_all)
  then have u: "reading ?u (sync s) i ?root ps" using y assms(2) by (simp add: reading_def)
  have run: "consoleread True dst n s = consoleread_loop True dst (int (nat n)) (nat n) ?u \<or> n \<le> 0 \<and> consoleread True dst n s = consoleread_end n n ?u"
    using acq by (auto simp: consoleread_def)
  obtain m b where mb: "copied ?u ?root ps dst (fst (cons_lines (cons s))) a (?u\<lparr>mem := m\<rparr>)" "cons_ok b"
    "cons_lines b = (drop l (fst (cons_lines (cons s))), snd (cons_lines (cons s)))"
    "consoleread_loop True dst (int (nat n)) (nat n) ?u = read_end ?u (sync s) i m b (int a) w"
    using consoleread_loop_run [OF u, of dst 0 "nat n"] assms(4,5) by (auto simp: reads_line_def)
  have "consoleread True dst n s = consoleread_loop True dst (int (nat n)) (nat n) ?u"
    using run reading_run(3) [OF u] by (auto simp: consoleread_end_def)
  then have e: "consoleread True dst n s = read_end s (sync s) i m b (int a) w" using mb(4) by (simp add: read_end_def)
  have um: "uspace (s\<lparr>mem := m\<rparr>) ?root ps"
    by (rule uspace_same [of "?u\<lparr>mem := m\<rparr>"]) (use mb(1) y(2) uspaceD [OF assms(3)] in \<open>simp_all add: copied_def\<close>)
  have "copied s ?root ps dst (fst (cons_lines (cons s))) a (s\<lparr>mem := m\<rparr>)" using mb(1) um unfolding copied_def by auto
  then show ?thesis using mb(2,3) e by (intro exI [of _ m] exI [of _ b]) (simp add: read_end_def)
qed

text \<open>A line of two bytes, read across a page boundary with the counters about to wrap; a second line stays.\<close>

theorem consoleread_correct_witness:
  "\<exists>(s :: consst) t. cons_lines (cons s) = ([0x61, 10, 0x62, 10], []) \<and> consoleread True 0xFFF 20 s = Ok 2 t \<and>
     cons_lines (cons t) = ([0x62, 10], []) \<and> ubyte (mem t) 0x80032000 0xFFF = 0x61 \<and> ubyte (mem t) 0x80032000 0x1000 = 10"
proof -
  define s :: consst where "s = (undefined :: consst)\<lparr>sync := demo_sync, mem := demo_mem, sym_end := 0x80021000, freelist := 0x80030000,
    cons := \<lparr>c_buf = (\<lambda>k. if k = 126 then 0x61 else if k = 0 then 0x62 else 10), c_r = - 2, c_w = 2, c_e = 2\<rparr>,
    procs := (\<lambda>_. idle_process\<lparr>pagetable := 0x80032000\<rparr>)\<rparr>"
  have f: "sync s = demo_sync" "mem s = demo_mem" "pagetable (procs s 0) = 0x80032000" by (simp_all add: s_def)
  have run: "running s 0" using demo_sync_free by (simp add: running_def cur_def f) (simp add: demo_sync_def idle_sync_def)
  have u: "uspace s 0x80032000 [0x80030000]" by (rule uspace_same [OF demo_uspace]) (simp_all add: s_def demo_user_def demo_sync_free)
  have c: "cons_lines (cons s) = ([0x61, 10, 0x62, 10], [])" "cons_ok (cons s)"
    by (simp_all add: s_def cons_lines_def cons_ok_def INPUT_BUF_SIZE_def ring_def upt_rec)
  have v: "uvalid demo_mem 0x80032000 0xFFF" "uvalid demo_mem 0x80032000 0x1000"
    by (simp_all add: demo_uvalid PGROUNDDOWN_def PGSIZE_def const_vals)
  have n: "nat 20 = Suc (Suc 18)" by simp
  have "line_take (\<lambda>j. uvalid demo_mem 0x80032000 (0xFFF + of_nat j)) 0 (nat 20) [0x61, 10, 0x62, 10] = (2, 2, False)"
    unfolding n line_take.simps using v by simp
  then obtain m b where mb: "copied s 0x80032000 [0x80030000] 0xFFF [0x61, 10, 0x62, 10] 2 (s\<lparr>mem := m\<rparr>)" "cons_lines b = ([0x62, 10], [])"
    "consoleread True 0xFFF 20 s = Ok 2 (s\<lparr>sync := quiet (sync s), mem := m, cons := b\<rparr>)"
    using consoleread_correct [OF run _ _ c(2), of "[0x80030000]" "0xFFF" 20 2 2 False] u c(1) by (auto simp: f demo_sync_free)
  have "ubyte m 0x80032000 0xFFF = 0x61" "ubyte m 0x80032000 0x1000 = 10"
    using mb(1) v by (simp_all add: copied_def f in_span_iff)
  then show ?thesis using mb c(1) by (intro exI [of _ s] exI [of _ "s\<lparr>sync := quiet (sync s), mem := m, cons := b\<rparr>"]) simp
qed

end
