(* ===== verification/Csr.thy ===== *)
theory Csr
  imports Console
begin

text \<open>
  Control and status registers, \<^verbatim>\<open>kernel/inc/riscv.h\<close>, and the interrupt controller, \<^verbatim>\<open>kernel/src/plic.c\<close>.

  Every hart has its own registers; an accessor works on those of the hart that runs. \<open>sstatus\<close> and \<open>satp\<close> are part of the
  state of the lower layers. The interrupt controller is a device: \<open>plic_io\<close> is the history of accesses to it and the
  parameter \<open>plic\<close> gives the value of a read from the history before it. The core-local timer has one 64-bit counter and one
  comparator per hart.
\<close>

record csrs =
  mhartid :: uint64
  mstatus :: uint64
  mepc :: uint64
  sip :: uint64
  sie_reg :: uint64
  mie :: uint64
  sepc :: uint64
  sscratch :: uint64
  medeleg :: uint64
  mideleg :: uint64
  stvec :: uint64
  stimecmp :: uint64
  mtvec :: uint64
  pmpcfg0 :: uint64
  pmpaddr0 :: uint64
  mscratch :: uint64
  scause :: uint64
  stval :: uint64
  mcounteren :: uint64
  time_csr :: uint64

datatype plic_access = PRead addr | PWrite addr uint

record trapst = consst +
  csr :: "nat \<Rightarrow> csrs"
  plic_io :: "plic_access list"
  clint :: "addr \<Rightarrow> uint64"
  timer_scratch :: "nat \<Rightarrow> nat \<Rightarrow> uint64"
  first_fork :: bool

type_synonym plic_dev = "plic_access list \<Rightarrow> addr \<Rightarrow> uint"

section \<open>Registers\<close>

definition get_csr :: "(csrs \<Rightarrow> uint64) \<Rightarrow> ('z trapst_scheme, uint64) km" where
  "get_csr f = gets (\<lambda>s. f (csr s (tp (sync s))))"

definition set_csr :: "(csrs \<Rightarrow> csrs) \<Rightarrow> ('z trapst_scheme, unit) km" where
  "set_csr f = modify (\<lambda>s. s\<lparr>csr := (csr s)(tp (sync s) := f (csr s (tp (sync s))))\<rparr>)"

definition MSTATUS_MPP_MASK :: uint64 where "MSTATUS_MPP_MASK = push_bit 11 3"
definition MSTATUS_MPP_S :: uint64 where "MSTATUS_MPP_S = push_bit 11 1"
definition MSTATUS_MIE :: uint64 where "MSTATUS_MIE = push_bit 3 1"
definition SIE_SEIE :: uint64 where "SIE_SEIE = push_bit 9 1"
definition SIE_STIE :: uint64 where "SIE_STIE = push_bit 5 1"
definition SIE_SSIE :: uint64 where "SIE_SSIE = push_bit 1 1"
definition MIE_MTIE :: uint64 where "MIE_MTIE = push_bit 7 1"

definition r_mhartid :: "('z trapst_scheme, uint64) km" where "r_mhartid = get_csr mhartid"
definition r_mstatus :: "('z trapst_scheme, uint64) km" where "r_mstatus = get_csr mstatus"
definition w_mstatus :: "uint64 \<Rightarrow> ('z trapst_scheme, unit) km" where "w_mstatus x = set_csr (\<lambda>c. c\<lparr>mstatus := x\<rparr>)"
definition w_mepc :: "uint64 \<Rightarrow> ('z trapst_scheme, unit) km" where "w_mepc x = set_csr (\<lambda>c. c\<lparr>mepc := x\<rparr>)"
definition r_sip :: "('z trapst_scheme, uint64) km" where "r_sip = get_csr sip"
definition w_sip :: "uint64 \<Rightarrow> ('z trapst_scheme, unit) km" where "w_sip x = set_csr (\<lambda>c. c\<lparr>sip := x\<rparr>)"
definition r_sie :: "('z trapst_scheme, uint64) km" where "r_sie = get_csr sie_reg"
definition w_sie :: "uint64 \<Rightarrow> ('z trapst_scheme, unit) km" where "w_sie x = set_csr (\<lambda>c. c\<lparr>sie_reg := x\<rparr>)"
definition r_mie :: "('z trapst_scheme, uint64) km" where "r_mie = get_csr mie"
definition w_mie :: "uint64 \<Rightarrow> ('z trapst_scheme, unit) km" where "w_mie x = set_csr (\<lambda>c. c\<lparr>mie := x\<rparr>)"
definition w_sepc :: "uint64 \<Rightarrow> ('z trapst_scheme, unit) km" where "w_sepc x = set_csr (\<lambda>c. c\<lparr>sepc := x\<rparr>)"
definition r_sepc :: "('z trapst_scheme, uint64) km" where "r_sepc = get_csr sepc"
definition w_sscratch :: "uint64 \<Rightarrow> ('z trapst_scheme, unit) km" where "w_sscratch x = set_csr (\<lambda>c. c\<lparr>sscratch := x\<rparr>)"
definition r_sscratch :: "('z trapst_scheme, uint64) km" where "r_sscratch = get_csr sscratch"
definition r_medeleg :: "('z trapst_scheme, uint64) km" where "r_medeleg = get_csr medeleg"
definition w_medeleg :: "uint64 \<Rightarrow> ('z trapst_scheme, unit) km" where "w_medeleg x = set_csr (\<lambda>c. c\<lparr>medeleg := x\<rparr>)"
definition r_mideleg :: "('z trapst_scheme, uint64) km" where "r_mideleg = get_csr mideleg"
definition w_mideleg :: "uint64 \<Rightarrow> ('z trapst_scheme, unit) km" where "w_mideleg x = set_csr (\<lambda>c. c\<lparr>mideleg := x\<rparr>)"
definition w_stvec :: "uint64 \<Rightarrow> ('z trapst_scheme, unit) km" where "w_stvec x = set_csr (\<lambda>c. c\<lparr>stvec := x\<rparr>)"
definition r_stvec :: "('z trapst_scheme, uint64) km" where "r_stvec = get_csr stvec"
definition r_stimecmp :: "('z trapst_scheme, uint64) km" where "r_stimecmp = get_csr stimecmp"
definition w_stimecmp :: "uint64 \<Rightarrow> ('z trapst_scheme, unit) km" where "w_stimecmp x = set_csr (\<lambda>c. c\<lparr>stimecmp := x\<rparr>)"
definition w_mtvec :: "uint64 \<Rightarrow> ('z trapst_scheme, unit) km" where "w_mtvec x = set_csr (\<lambda>c. c\<lparr>mtvec := x\<rparr>)"
definition w_pmpcfg0 :: "uint64 \<Rightarrow> ('z trapst_scheme, unit) km" where "w_pmpcfg0 x = set_csr (\<lambda>c. c\<lparr>pmpcfg0 := x\<rparr>)"
definition w_pmpaddr0 :: "uint64 \<Rightarrow> ('z trapst_scheme, unit) km" where "w_pmpaddr0 x = set_csr (\<lambda>c. c\<lparr>pmpaddr0 := x\<rparr>)"
definition w_satp :: "uint64 \<Rightarrow> ('z vm_scheme, unit) km" where
  "w_satp x = modify (\<lambda>s. s\<lparr>satp := (satp s)(tp (sync s) := x)\<rparr>)"
definition r_satp :: "('z vm_scheme, uint64) km" where "r_satp = gets (\<lambda>s. satp s (tp (sync s)))"
definition w_mscratch :: "uint64 \<Rightarrow> ('z trapst_scheme, unit) km" where "w_mscratch x = set_csr (\<lambda>c. c\<lparr>mscratch := x\<rparr>)"
definition r_scause :: "('z trapst_scheme, uint64) km" where "r_scause = get_csr scause"
definition r_stval :: "('z trapst_scheme, uint64) km" where "r_stval = get_csr stval"
definition w_mcounteren :: "uint64 \<Rightarrow> ('z trapst_scheme, unit) km" where "w_mcounteren x = set_csr (\<lambda>c. c\<lparr>mcounteren := x\<rparr>)"
definition r_mcounteren :: "('z trapst_scheme, uint64) km" where "r_mcounteren = get_csr mcounteren"
definition r_time :: "('z trapst_scheme, uint64) km" where "r_time = get_csr time_csr"
definition r_tp :: "('z machine_scheme, uint64) km" where "r_tp = gets (\<lambda>s. of_nat (tp (sync s)))"
definition w_tp :: "uint64 \<Rightarrow> ('z machine_scheme, unit) km" where
  "w_tp x = modify (\<lambda>s. s\<lparr>sync := (sync s)\<lparr>tp := unat x\<rparr>\<rparr>)"

lemmas csr_defs = get_csr_def set_csr_def r_mhartid_def r_mstatus_def w_mstatus_def w_mepc_def r_sie_def w_sie_def r_mie_def w_mie_def
  w_sepc_def r_sepc_def w_medeleg_def w_mideleg_def w_stvec_def w_stimecmp_def w_mtvec_def w_pmpcfg0_def w_pmpaddr0_def
  w_satp_def r_satp_def w_mscratch_def r_scause_def r_stval_def r_time_def r_tp_def w_tp_def

section \<open>The interrupt controller\<close>

definition UART0_IRQ :: int where "UART0_IRQ = 10"
definition VIRTIO0_IRQ :: int where "VIRTIO0_IRQ = 1"
definition PLIC_SENABLE :: "nat \<Rightarrow> addr" where "PLIC_SENABLE hart = PLIC + 0x2080 + of_nat hart * 0x100"
definition PLIC_SPRIORITY :: "nat \<Rightarrow> addr" where "PLIC_SPRIORITY hart = PLIC + 0x201000 + of_nat hart * 0x2000"
definition PLIC_SCLAIM :: "nat \<Rightarrow> addr" where "PLIC_SCLAIM hart = PLIC + 0x201004 + of_nat hart * 0x2000"

definition plic_read :: "plic_dev \<Rightarrow> addr \<Rightarrow> ('z trapst_scheme, uint) km" where
  "plic_read plic a =
     bnd (gets plic_io) (\<lambda>h.
     seq (modify (\<lambda>s. s\<lparr>plic_io := h @ [PRead a]\<rparr>)) (
     ret (plic h a)))"

definition plic_write :: "addr \<Rightarrow> uint \<Rightarrow> ('z trapst_scheme, unit) km" where
  "plic_write a v = modify (\<lambda>s. s\<lparr>plic_io := plic_io s @ [PWrite a v]\<rparr>)"

definition plicinit :: "('z trapst_scheme, unit) km" where
  "plicinit =
     seq (plic_write (PLIC + word_of_int (UART0_IRQ * 4)) 1) (
     plic_write (PLIC + word_of_int (VIRTIO0_IRQ * 4)) 1)"

definition plicinithart :: "('z trapst_scheme, unit) km" where
  "plicinithart =
     bnd cpuid (\<lambda>hart.
     seq (plic_write (PLIC_SENABLE hart) (push_bit (nat UART0_IRQ) 1 OR push_bit (nat VIRTIO0_IRQ) 1)) (
     plic_write (PLIC_SPRIORITY hart) 0))"

definition plic_claim :: "plic_dev \<Rightarrow> ('z trapst_scheme, int) km" where
  "plic_claim plic =
     bnd cpuid (\<lambda>hart.
     bnd (plic_read plic (PLIC_SCLAIM hart)) (\<lambda>irq.
     ret (sint irq)))"

definition plic_complete :: "int \<Rightarrow> ('z trapst_scheme, unit) km" where
  "plic_complete irq = bnd cpuid (\<lambda>hart. plic_write (PLIC_SCLAIM hart) (word_of_int irq))"

end
