(* ===== verification/Syscall.thy ===== *)
theory Syscall
  imports Sysfile Printf
begin

text \<open>
  The dispatch of system calls, \<^verbatim>\<open>kernel/src/syscall.c\<close>. What the routines of the table need from outside the kernel's own
  code is one record, \<open>kenv\<close>: the routine \<open>uartputc_sync\<close>, the disk driver, the devices, the former contents of stack arrays, and the routine \<open>sys_sleep\<close>, which the
  table names and the repository does not define.
\<close>

record 'z kenv =
  k_putc :: "'z putc"
  k_rw :: "'z consst_ext sysst_ext odriver"
  k_read :: "int \<Rightarrow> 'z consst_ext sysst_ext devop option"
  k_write :: "int \<Rightarrow> 'z consst_ext sysst_ext devop option"
  k_stack :: "byte list"
  k_argv :: "nat \<Rightarrow> addr"
  k_sleep :: "('z consst_scheme, uint64) km"

definition SYS_fork :: int where "SYS_fork = 1"
definition SYS_exit :: int where "SYS_exit = 2"
definition SYS_wait :: int where "SYS_wait = 3"
definition SYS_pipe :: int where "SYS_pipe = 4"
definition SYS_read :: int where "SYS_read = 5"
definition SYS_kill :: int where "SYS_kill = 6"
definition SYS_exec :: int where "SYS_exec = 7"
definition SYS_fstat :: int where "SYS_fstat = 8"
definition SYS_chdir :: int where "SYS_chdir = 9"
definition SYS_dup :: int where "SYS_dup = 10"
definition SYS_getpid :: int where "SYS_getpid = 11"
definition SYS_sbrk :: int where "SYS_sbrk = 12"
definition SYS_sleep :: int where "SYS_sleep = 13"
definition SYS_uptime :: int where "SYS_uptime = 14"
definition SYS_open :: int where "SYS_open = 15"
definition SYS_write :: int where "SYS_write = 16"
definition SYS_mknod :: int where "SYS_mknod = 17"
definition SYS_unlink :: int where "SYS_unlink = 18"
definition SYS_link :: int where "SYS_link = 19"
definition SYS_mkdir :: int where "SYS_mkdir = 20"
definition SYS_close :: int where "SYS_close = 21"
definition SYS_test :: int where "SYS_test = 22"

definition systest :: "'z putc \<Rightarrow> ('z consst_scheme, uint64) km" where
  "systest f = seq (printf f (ascii ''This is systest'' @ [10]) []) (ret (word_of_int SYS_test))"

definition syscalls :: "'z kenv \<Rightarrow> (int \<times> ('z consst_scheme, uint64) km) list" where
  "syscalls e =
     [(SYS_fork, sys_fork),
      (SYS_exit, sys_exit (k_rw e)),
      (SYS_wait, sys_wait),
      (SYS_pipe, sys_pipe (k_rw e)),
      (SYS_read, sys_read (k_rw e) (k_read e)),
      (SYS_kill, sys_kill),
      (SYS_exec, sys_exec (k_rw e) (k_stack e) (k_argv e)),
      (SYS_fstat, sys_fstat (k_rw e) (k_stack e)),
      (SYS_chdir, sys_chdir (k_rw e) (k_stack e)),
      (SYS_dup, sys_dup),
      (SYS_getpid, sys_getpid),
      (SYS_sbrk, sys_sbrk),
      (SYS_sleep, k_sleep e),
      (SYS_uptime, sys_uptime),
      (SYS_open, sys_open (k_rw e) (k_stack e)),
      (SYS_write, sys_write (k_rw e) (k_write e)),
      (SYS_mknod, sys_mknod (k_rw e) (k_stack e)),
      (SYS_unlink, sys_unlink (k_rw e) (k_stack e)),
      (SYS_link, sys_link (k_rw e) (k_stack e) (k_stack e)),
      (SYS_mkdir, sys_mkdir (k_rw e) (k_stack e)),
      (SYS_close, sys_close (k_rw e)),
      (SYS_test, systest (k_putc e))]"

text \<open>The busy loop that follows each call; its counter stays below \<open>2 ^ 31\<close> for the 20 that \<open>syscall\<close> passes.\<close>

function uartsleep_loop :: "int \<Rightarrow> int \<Rightarrow> ('s, unit) km" where
  "uartsleep_loop count interval = (if count < interval then uartsleep_loop (count + 1) interval else ret ())"
  by auto
termination by (relation "measure (\<lambda>(count, interval). nat (interval - count))") auto

declare uartsleep_loop.simps [simp del]

definition uartsleep :: "int \<Rightarrow> ('s, unit) km" where
  "uartsleep sec = uartsleep_loop 0 (1000000 * 10 * sec)"

definition NELEM_syscalls :: int where "NELEM_syscalls = 23"

definition syscall :: "'z kenv \<Rightarrow> ('z consst_scheme, unit) km" where
  "syscall e =
     bnd this_proc (\<lambda>i.
     bnd (get_proc i) (\<lambda>p.
     bnd (load64 (trapframe p + TF_a7)) (\<lambda>w.
     let num = sint (ucast w :: uint) in
     seq (case (if 0 < num \<and> num < NELEM_syscalls then map_of (syscalls e) num else None) of
            Some f \<Rightarrow> bnd f (\<lambda>v. bnd (get_proc i) (\<lambda>p. store64 (trapframe p + TF_a0) v))
          | None \<Rightarrow>
              seq (printf (k_putc e) (ascii ''[%d]%s: unknwon syscall %d'' @ [10]) [VNum (word_of_int (pid p)), VStr (Some (pname p)), VNum (word_of_int num)]) (
              store64 (trapframe p + TF_a0) (- 1))) (
     uartsleep 20))))"

end
