(* ===== verification/Trap.thy ===== *)
theory Trap
  imports Csr Syscall
begin

text \<open>
  Traps, \<^verbatim>\<open>kernel/src/trap.c\<close>, with \<open>forkret\<close> of \<^verbatim>\<open>kernel/src/proc.c\<close>.

  \<open>tenv\<close> holds what lies outside the C code: the devices, the addresses of the assembly entry points, the environment of the
  system calls, and a bound for the bytes the serial port offers in one interrupt. \<open>usertrapret\<close> ends in a jump to the trampoline with the
  user page table; it returns that argument. Messages go out as in the code, with \<open>printf\<close> to the device and with
  \<open>uartputs\<close> through the transmit ring. A trap that yields continues with \<open>usertrap_resume\<close>.
\<close>

section \<open>Device interrupts\<close>

record 'z tenv =
  t_uart :: uart_dev
  t_fuel :: nat
  t_plic :: plic_dev
  t_virtio :: reg_dev
  t_kernelvec :: addr
  t_uservec :: addr
  t_userret :: addr
  t_usertrap :: addr
  t_calls :: "'z trapst_ext kenv"

definition trapinit :: "('z trapst_scheme, unit) km" where
  "trapinit = initlock Ticks_lock ''time''"

definition trapinithart :: "'z tenv \<Rightarrow> ('z trapst_scheme, unit) km" where
  "trapinithart e = w_stvec (t_kernelvec e)"

definition clockintr :: "('z trapst_scheme, unit) km" where
  "clockintr =
     bnd cpuid (\<lambda>id.
     seq (whenM (id = 0) (
       seq (acquire Ticks_lock) (
       seq (modify (\<lambda>s. s\<lparr>ticks := ticks s + 1\<rparr>)) (
       seq (wakeup Ticks_chan) (
       release Ticks_lock))))) (
     bnd r_time (\<lambda>t. w_stimecmp (t + 1000000))))"

definition say :: "'z tenv \<Rightarrow> byte list \<Rightarrow> varg list \<Rightarrow> ('z trapst_scheme, unit) km" where
  "say e fmt ap = seq (printf (k_putc (t_calls e)) fmt ap) (ret ())"

definition dispatch_irq :: "'z tenv \<Rightarrow> int \<Rightarrow> ('z trapst_scheme, unit) km" where
  "dispatch_irq e irq =
     seq (if irq = UART0_IRQ then uartintr (t_uart e) (k_putc (t_calls e)) (t_fuel e)
          else if irq = VIRTIO0_IRQ then virtio_disk_intr (t_virtio e)
          else whenM (irq \<noteq> 0) (say e (ascii ''unexpected interrupt irq=%d'' @ [10]) [VNum (word_of_int irq)])) (
     whenM (irq \<noteq> 0) (plic_complete irq))"

definition devintr :: "'z tenv \<Rightarrow> ('z trapst_scheme, int) km" where
  "devintr e =
     bnd r_scause (\<lambda>scause.
     if scause = 0x8000000000000009
     then bnd (plic_claim (t_plic e)) (\<lambda>irq. seq (dispatch_irq e irq) (ret 1))
     else if scause = 0x8000000000000005 then seq clockintr (ret 2)
     else ret 0)"

text \<open>The interrupt that \<open>kerneltrap\<close> claims itself, after \<open>devintr\<close> has handled one.\<close>

definition kernel_irq :: "'z tenv \<Rightarrow> int \<Rightarrow> ('z trapst_scheme, unit) km" where
  "kernel_irq e irq =
     seq (if irq = UART0_IRQ
          then seq (say e (ascii ''UART IRQ'' @ [10]) []) (seq (uartintr (t_uart e) (k_putc (t_calls e)) (t_fuel e)) (say e [10, 10] []))
          else if irq = VIRTIO0_IRQ then seq (say e (ascii ''VIRTIO disk IRQ'' @ [10]) []) (virtio_disk_intr (t_virtio e))
          else whenM (irq \<noteq> 0) (say e (ascii ''unexpected interrupt irq=%d'' @ [10]) [VNum (word_of_int irq)])) (
     whenM (irq \<noteq> 0) (plic_complete irq))"

definition kerneltrap :: "'z tenv \<Rightarrow> ('z trapst_scheme, unit) km" where
  "kerneltrap e =
     bnd r_sepc (\<lambda>sepc.
     bnd r_sstatus (\<lambda>sstatus.
     bnd r_scause (\<lambda>scause.
     if sstatus AND SSTATUS_SPP = 0 then panic ''kerneltrap: not from supervisor mode''
     else bnd intr_get (\<lambda>on.
       if on then panic ''kerneltrap: interrupts enabled''
       else
         seq (say e (ascii ''[M] '') []) (
         bnd (devintr e) (\<lambda>which_dev.
         seq (if which_dev = 0
              then
                seq (say e (ascii ''scause 0x%lx'' @ [10]) [VNum scause]) (
                bnd r_sepc (\<lambda>pc.
                bnd r_stval (\<lambda>stval.
                seq (say e (ascii ''sepc=0x%lx stval=0x%lx'' @ [10]) [VNum pc, VNum stval]) (
                panic ''kerneltrap''))))
              else if which_dev = 2 then uartputs (t_uart e) (ascii ''Timer IRQ...'' @ [10])
              else if which_dev = 1
              then bnd (plic_claim (t_plic e)) (\<lambda>irq.
                seq (uartputs (t_uart e) (ascii ''PLIC IRQ'' @ [10])) (kernel_irq e irq))
              else ret ()) (
         seq (w_sepc sepc) (
         w_sstatus sstatus))))))))"

section \<open>To and from user space\<close>

definition usertrapret :: "'z tenv \<Rightarrow> ('z trapst_scheme, uint64) km" where
  "usertrapret e =
     bnd this_proc (\<lambda>i.
     seq intr_off (
     bnd (gets sym_trampoline) (\<lambda>trampoline.
     seq (w_stvec (TRAMPOLINE + (t_uservec e - trampoline))) (
     bnd (get_proc i) (\<lambda>p.
     bnd r_satp (\<lambda>ksatp.
     seq (store64 (trapframe p + TF_kernel_satp) ksatp) (
     seq (store64 (trapframe p + TF_kernel_sp) (kstack p + PGSIZE)) (
     seq (store64 (trapframe p + TF_kernel_trap) (t_usertrap e)) (
     bnd r_tp (\<lambda>hart.
     seq (store64 (trapframe p + TF_kernel_hartid) hart) (
     bnd r_sstatus (\<lambda>x.
     seq (w_sstatus ((x AND NOT SSTATUS_SPP) OR SSTATUS_SPIE)) (
     bnd (load64 (trapframe p + TF_epc)) (\<lambda>epc.
     seq (w_sepc epc) (
     ret (MAKE_SATP (pagetable p)))))))))))))))))"

text \<open>What follows the handling of the trap: a killed process exits, a timer interrupt gives up the processor.\<close>

definition usertrap_end :: "'z tenv \<Rightarrow> nat \<Rightarrow> int \<Rightarrow> ('z trapst_scheme, uint64) km" where
  "usertrap_end e i which_dev =
     bnd (killed i) (\<lambda>k.
     seq (whenM k (exit (k_rw (t_calls e)) (- 1))) (
     seq (whenM (which_dev = 2) (seq (trace_next_pid (k_putc (t_calls e)) (ascii ''Timer'')) yield)) (
     usertrapret e)))"

definition usertrap_body :: "'z tenv \<Rightarrow> ('z trapst_scheme, uint64) km" where
  "usertrap_body e =
       seq (w_stvec (t_kernelvec e)) (
       bnd this_proc (\<lambda>i.
       bnd (devintr e) (\<lambda>which_dev.
       bnd r_sepc (\<lambda>pc.
       bnd (get_proc i) (\<lambda>p.
       seq (store64 (trapframe p + TF_epc) pc) (
       bnd r_scause (\<lambda>scause.
       seq (if scause = 8
            then
              seq (say e (ascii ''System call'' @ [10]) []) (
              bnd (killed i) (\<lambda>k.
              seq (whenM k (exit (k_rw (t_calls e)) (- 1))) (
              bnd (load64 (trapframe p + TF_epc)) (\<lambda>epc.
              seq (store64 (trapframe p + TF_epc) (epc + 4)) (
              seq intr_on (
              syscall (t_calls e)))))))
            else if which_dev \<noteq> 0
            then say e (ascii (if which_dev = 1 then ''PLIC IRq'' else if which_dev = 2 then ''Timer IRQ'' else ''Other IRQ'') @ [10]) []
            else
              seq (say e (ascii ''Unexpected scause'' @ [10]) []) (
              seq (say e (9 # ascii ''scause = 0x%lx, pid = %d'' @ [10]) [VNum scause, VNum (word_of_int (pid p))]) (
              bnd r_sepc (\<lambda>sepc.
              bnd r_stval (\<lambda>stval.
              seq (say e (9 # ascii ''sepc = 0x%lx, stval=0x%lx'' @ [10]) [VNum sepc, VNum stval]) (
              setkilled i)))))) (
       usertrap_end e i which_dev))))))))"

definition usertrap :: "'z tenv \<Rightarrow> ('z trapst_scheme, uint64) km" where
  "usertrap e =
     bnd r_sstatus (\<lambda>x.
     if x AND SSTATUS_SPP \<noteq> 0 then panic ''usertrap: not from user mode''
     else seq (say e (ascii ''[U] '') []) (usertrap_body e))"

definition usertrap_resume :: "'z tenv \<Rightarrow> nat \<Rightarrow> bool \<Rightarrow> ('z trapst_scheme, uint64) km" where
  "usertrap_resume e i intr_enabled = seq (yield_resume i intr_enabled) (usertrapret e)"

text \<open>The first run of a process: \<open>scheduler\<close> has switched to it with its lock held.\<close>

definition forkret :: "'z tenv \<Rightarrow> ('z trapst_scheme, uint64) km" where
  "forkret e =
     bnd this_proc (\<lambda>i.
     seq (release (Proc_lock i)) (
     bnd (gets first_fork) (\<lambda>first.
     seq (whenM first (
       seq (modify (\<lambda>s. s\<lparr>first_fork := False\<rparr>)) (
       fsinit (k_rw (t_calls e)) ROOTDEV))) (
     usertrapret e))))"


section \<open>The trap frame\<close>

text \<open>Field \<open>k\<close> of the trap frame at \<open>p\<close>; a store to one field leaves the others alone.\<close>

definition tf_reg :: "mem \<Rightarrow> addr \<Rightarrow> nat \<Rightarrow> uint64" where
  "tf_reg m p k = read64 m (p + 8 * of_nat k)"

definition tf_set :: "addr \<Rightarrow> nat \<Rightarrow> uint64 \<Rightarrow> mem \<Rightarrow> mem" where
  "tf_set p k v m = write64 m (p + 8 * of_nat k) v"

lemma tf_spans:
  assumes "j < 36" "k < 36" "j \<noteq> k"
  shows "span (p + 8 * of_nat j) 8 \<inter> span (p + 8 * of_nat k :: addr) 8 = {}"
proof -
  have u: "unat (8 * of_nat l :: addr) = 8 * l" if "l < 36" for l
    using that by (simp add: unat_word_ariths unat_of_nat)
  have "False" if "unat (y - 8 * of_nat j) < 8" "unat (y - 8 * of_nat k) < 8" for y :: addr
  proof -
    have "unat y < 2 ^ 64" using unat_lt_2p64 [of y] by simp
    then have "8 * j \<le> unat y \<and> unat y < 8 * j + 8" if "j < 36" "unat (y - 8 * of_nat j) < 8" for j
      using that u [OF that(1)] unat_diff_if [of y "8 * of_nat j"] by (auto split: if_splits)
    from this [OF assms(1) that(1)] this [OF assms(2) that(2)] show False using assms(3) by linarith
  qed
  then show ?thesis by (auto simp: in_span_iff diff_diff_eq [symmetric])
qed

lemma tf_reg_set: "j < 36 \<Longrightarrow> k < 36 \<Longrightarrow> tf_reg (tf_set p j v m) p k = (if j = k then v else tf_reg m p k)"
  using tf_spans [of j k p] by (simp add: tf_reg_def tf_set_def read64_write64_disjoint)

lemma tf_set_outside:
  assumes "k < 36" "x \<notin> span p sizeof_trapframe"
  shows "tf_set p k v m x = m x"
proof -
  have u: "unat (8 * of_nat k :: addr) = 8 * k" using assms(1) by (simp add: unat_word_ariths unat_of_nat)
  have "x \<notin> span (p + 8 * of_nat k) 8"
    using assms u unat_diff_if [of "x - p" "8 * of_nat k"] unat_lt_2p64 [of "x - p"]
    by (auto simp: in_span_iff sizeof_trapframe_def diff_diff_eq [symmetric] split: if_splits)
  then show ?thesis by (simp add: tf_set_def write64_outside)
qed

lemma tf_stores:
  "write64 m (p + TF_kernel_satp) v = tf_set p 0 v m" "write64 m (p + TF_kernel_sp) v = tf_set p 1 v m"
  "write64 m (p + TF_kernel_trap) v = tf_set p 2 v m" "write64 m (p + TF_epc) v = tf_set p 3 v m"
  "write64 m (p + TF_kernel_hartid) v = tf_set p 4 v m" "write64 m (p + TF_a0) v = tf_set p 14 v m"
  "read64 m (p + TF_epc) = tf_reg m p 3" "read64 m (p + TF_a7) = tf_reg m p 21"
  by (simp_all add: tf_set_def tf_reg_def TF_kernel_satp_def TF_kernel_sp_def TF_kernel_trap_def TF_epc_def TF_kernel_hartid_def
      TF_a0_def TF_a7_def)

section \<open>Returning to user space\<close>

lemma wp_this_proc: "sync_ok (sync s) \<Longrightarrow> cur s = Some i \<Longrightarrow> wp this_proc Q s = Q i (s\<lparr>sync := quiet (sync s)\<rparr>)"
  by (simp add: wp_def this_proc_run)

lemma cur_trap [simp]:
  "cur ((s :: 'z trapst_scheme)\<lparr>csr := c\<rparr>) = cur s" "cur (s\<lparr>mem := m\<rparr>) = cur s" "cur (s\<lparr>plic_io := h\<rparr>) = cur s" "cur (s\<lparr>procs := q\<rparr>) = cur s"
  by (simp_all add: cur_def)

lemma quiet_parts [simp]: "sstatus (quiet y) = sstatus y" "nesting (cpus (quiet y) h) = nesting (cpus y h)"
  by (simp_all add: quiet_def)

definition user_sstatus :: "uint64 \<Rightarrow> uint64" where
  "user_sstatus x = ((x AND NOT SSTATUS_SIE) AND NOT SSTATUS_SPP) OR SSTATUS_SPIE"

text \<open>The state in which the processor is handed to the user: \<open>s\<close> is the state before, \<open>i\<close> the process, \<open>v\<close> the value in \<open>satp\<close>.\<close>

definition to_user :: "'z tenv \<Rightarrow> nat \<Rightarrow> 'z trapst_scheme \<Rightarrow> uint64 \<Rightarrow> 'z trapst_scheme \<Rightarrow> bool" where
  "to_user e i s v t \<longleftrightarrow> (let p = procs s i; tf = trapframe p; h = tp (sync s) in
     v = MAKE_SATP (pagetable p) \<and> procs t = procs s \<and> tp (sync t) = h \<and>
     sstatus (sync t) h = user_sstatus (sstatus (sync s) h) \<and> locks (sync t) = locks (sync s) \<and> depth (sync t) = depth (sync s) \<and>
     csr t = (csr s)(h := (csr s h)\<lparr>stvec := TRAMPOLINE + (t_uservec e - sym_trampoline s), sepc := tf_reg (mem s) tf 3\<rparr>) \<and>
     mem t = tf_set tf 4 (of_nat h) (tf_set tf 2 (t_usertrap e) (tf_set tf 1 (kstack p + PGSIZE) (tf_set tf 0 (satp s h) (mem s)))))"

lemma usertrapret_run:
  assumes "sync_ok (sync s)" "cur s = Some i"
  shows "wp (usertrapret e) (to_user e i s) s"
  using assms
  by (simp add: usertrapret_def wp_simps wp_this_proc op_defs csr_defs to_user_def Let_def tf_stores tf_reg_set user_sstatus_def
      quiet_simps depth_def)


section \<open>System calls from user space\<close>

lemma uartsleep_run [simp]: "uartsleep n s = Ok () s"
proof -
  have "uartsleep_loop count interval s = Ok () s" for count interval
    by (induction count interval rule: uartsleep_loop.induct) (subst uartsleep_loop.simps, simp)
  then show ?thesis by (simp add: uartsleep_def)
qed

text \<open>
  The value of the calls that only compute one: numbers outside the table, \<open>getpid\<close>, \<open>uptime\<close> and the test call.
\<close>

definition call_value :: "'z sysst_scheme \<Rightarrow> nat \<Rightarrow> int \<Rightarrow> uint64 option" where
  "call_value s i n =
     (if n \<le> 0 \<or> 22 < n then Some (- 1)
      else if n = 11 then Some (word_of_int (pid (procs s i)))
      else if n = 14 then Some (ucast (ticks s))
      else if n = 22 then Some 22 else None)"

lemmas SYS_defs = SYS_fork_def SYS_exit_def SYS_wait_def SYS_pipe_def SYS_read_def SYS_kill_def SYS_exec_def SYS_fstat_def
  SYS_chdir_def SYS_dup_def SYS_getpid_def SYS_sbrk_def SYS_sleep_def SYS_uptime_def SYS_open_def SYS_write_def SYS_mknod_def
  SYS_unlink_def SYS_link_def SYS_mkdir_def SYS_close_def SYS_test_def NELEM_syscalls_def

lemma syscalls_lookup:
  "map_of (syscalls e) 11 = Some sys_getpid" "map_of (syscalls e) 14 = Some sys_uptime" "map_of (syscalls e) 22 = Some (systest (k_putc e))"
  by (simp_all add: syscalls_def SYS_defs)

text \<open>The routine that a call number selects, and \<open>syscall\<close> as the run of that routine.\<close>

definition routine :: "'z kenv \<Rightarrow> int \<Rightarrow> ('z consst_scheme, uint64) km option" where
  "routine e n = (if 0 < n \<and> n < NELEM_syscalls then map_of (syscalls e) n else None)"

lemma syscall_routine:
  assumes "sync_ok (sync s)" "cur s = Some i" "n = sint (ucast (tf_reg (mem s) (trapframe (procs s i)) 21) :: uint)"
  shows "syscall e s =
    (seq (case routine e n of Some f \<Rightarrow> bnd f (\<lambda>v. bnd (get_proc i) (\<lambda>p. store64 (trapframe p + TF_a0) v))
      | None \<Rightarrow> seq (printf (k_putc e) (ascii ''[%d]%s: unknwon syscall %d'' @ [10])
          [VNum (word_of_int (pid (procs s i))), VStr (Some (pname (procs s i))), VNum (word_of_int n)])
          (store64 (trapframe (procs s i) + TF_a0) (- 1))) (uartsleep 20)) (s\<lparr>sync := quiet (sync s)\<rparr>)"
  unfolding routine_def assms(3) using assms(1,2)
  by (simp add: syscall_def this_proc_run load64_def tf_stores Let_def cong: if_cong option.case_cong)

lemma syscall_value:
  assumes "procs_free (sync s)" "lock_free Ticks_lock (sync s)" "cur s = Some i" "putc_sends (k_putc e)" "pr_locking s \<longrightarrow> lock_free Pr_lock (sync s)"
    "call_value s i (sint (ucast (tf_reg (mem s) (trapframe (procs s i)) 21) :: uint)) = Some v"
  shows "\<exists>io. syscall e s = Ok () (s\<lparr>sync := quiet (sync s), mem := tf_set (trapframe (procs s i)) 14 v (mem s), uart_io := io\<rparr>)"
proof -
  define n where "n = sint (ucast (tf_reg (mem s) (trapframe (procs s i)) 21) :: uint)"
  define u where "u = s\<lparr>sync := quiet (sync s)\<rparr>"
  define c where "c = routine e n"
  let ?p = "procs s i"
  let ?store = "\<lambda>v. store64 (trapframe ?p + TF_a0) v"
  let ?msg = "printf (k_putc e) (ascii ''[%d]%s: unknwon syscall %d'' @ [10]) [VNum (word_of_int (pid ?p)), VStr (Some (pname ?p)), VNum (word_of_int n)]"
  have y: "sync_ok (sync s)" using assms(1) by (rule procs_freeD)
  have pr: "can_print u" "quiet (sync u) = sync u" using y assms(5) by (simp_all add: u_def can_print_def)
  note run = syscall_routine [OF y assms(3) n_def, of e, folded u_def c_def]
  have st: "?store v (u\<lparr>uart_io := io\<rparr>) = Ok () (s\<lparr>sync := quiet (sync s), mem := tf_set (trapframe ?p) 14 v (mem s), uart_io := io\<rparr>)" for io
    by (simp add: store64_def tf_stores u_def)
  have v: "call_value s i n = Some v" using assms(6) by (simp add: n_def)
  have call: "\<exists>io. f u = Ok v (u\<lparr>uart_io := io\<rparr>)" if "c = Some f" for f
  proof -
    have "n = 11 \<and> f = sys_getpid \<or> n = 14 \<and> f = sys_uptime \<or> n = 22 \<and> f = systest (k_putc e)"
      using that v by (auto simp: c_def routine_def call_value_def NELEM_syscalls_def syscalls_lookup split: if_splits)
    then consider "n = 11" "f = sys_getpid" | "n = 14" "f = sys_uptime" | "n = 22" "f = systest (k_putc e)" by blast
    then show ?thesis
    proof cases
      case 3
      have "says u (printf (k_putc e) (ascii ''This is systest'' @ [10]) []) (ascii ''This is systest'' @ [10])"
        by (rule says_printf [OF pr says_plain [OF assms(4)]]) (simp add: ascii_def)
      from saysD [OF this] show ?thesis using 3 v by (auto simp: systest_def call_value_def SYS_test_def)
    qed (use v y assms(2,3) in \<open>auto simp: sys_getpid_def sys_uptime_def this_proc_run acquire_run release_acq call_value_def u_def
        intro!: exI [of _ "uart_io s"]\<close>)
  qed
  show ?thesis
  proof (cases c)
    case None
    have "map_of (syscalls e) n \<noteq> None" if "n = 11 \<or> n = 14 \<or> n = 22" using that by (auto simp: syscalls_lookup)
    then have "v = - 1" using None v by (auto simp: c_def routine_def call_value_def NELEM_syscalls_def split: if_splits)
    moreover have "says u ?msg (0x5b # text_d (word_of_int (pid ?p)) @ 0x5d # takeWhile (\<lambda>c. c \<noteq> 0) (pname ?p) @
        ascii '': unknwon syscall '' @ text_d (word_of_int n) @ [10])"
      by (rule says_printf [OF pr]) (simp add: ascii_def, intro printf_rules assms, simp_all)
    ultimately show ?thesis using run None saysD st by (fastforce simp: u_def)
  next
    case (Some f)
    obtain io where "f u = Ok v (u\<lparr>uart_io := io\<rparr>)" using call [OF Some] by blast
    then show ?thesis using run st [of io] Some by (intro exI [of _ io]) (simp add: u_def)
  qed
qed


text \<open>
  The state right after a trap from user space: process \<open>i\<close> runs on this hart and holds no lock, the hardware has saved the user's
  program counter \<open>pc\<close>, turned interrupts off and recorded user mode as the previous mode.
\<close>

definition from_user :: "'z trapst_scheme \<Rightarrow> nat \<Rightarrow> uint64 \<Rightarrow> bool" where
  "from_user s i pc \<longleftrightarrow> running s i \<and> lock_free Ticks_lock (sync s) \<and> depth (sync s) = 0 \<and> \<not> sie (sync s) \<and>
     sstatus (sync s) (tp (sync s)) AND SSTATUS_SPP = 0 \<and> sepc (csr s (tp (sync s))) = pc \<and> \<not> pkilled (procs s i)"

definition sie_on :: "sync \<Rightarrow> sync" where
  "sie_on y = y\<lparr>sstatus := (sstatus y)(tp y := sstatus y (tp y) OR SSTATUS_SIE)\<rparr>"

lemma sie_on_simps [simp]:
  "tp (sie_on y) = tp y" "cpus (sie_on y) = cpus y" "locks (sie_on y) = locks y" "depth (sie_on y) = depth y"
  "lock_free l (sie_on y) = lock_free l y" "cur (s\<lparr>sync := sie_on y\<rparr>) = cur (s\<lparr>sync := y\<rparr>)"
  by (simp_all add: sie_on_def depth_def lock_free_def cur_def)

lemma intr_on_run: "intr_on s = Ok () (s\<lparr>sync := sie_on (sync s)\<rparr>)"
  by (simp add: op_defs sie_on_def)

lemma sie_on_free: "procs_free y \<Longrightarrow> depth y = 0 \<Longrightarrow> procs_free (sie_on y)"
  by (simp add: procs_free_def sync_ok_def)

lemma trapst_upd_order [simp]:
  "(s :: 'z trapst_scheme)\<lparr>csr := c, sync := y\<rparr> = s\<lparr>sync := y, csr := c\<rparr>"
  "(s :: 'z trapst_scheme)\<lparr>csr := c, mem := m\<rparr> = s\<lparr>mem := m, csr := c\<rparr>"
  "(s :: 'z trapst_scheme)\<lparr>csr := c, procs := q\<rparr> = s\<lparr>procs := q, csr := c\<rparr>"
  "(s :: 'z trapst_scheme)\<lparr>csr := c, uart_io := i\<rparr> = s\<lparr>uart_io := i, csr := c\<rparr>"
  "(s :: 'z trapst_scheme)\<lparr>uart_io := i, mem := m\<rparr> = s\<lparr>mem := m, uart_io := i\<rparr>"
  by simp_all

lemma csr_run [simp]:
  "get_csr f s = Ok (f (csr s (tp (sync s)))) s"
  "set_csr g s = Ok () (s\<lparr>csr := (csr s)(tp (sync s) := g (csr s (tp (sync s))))\<rparr>)"
  by (simp_all add: get_csr_def set_csr_def)

lemma user_sstatus_bits:
  "user_sstatus x AND SSTATUS_SPP = 0" "user_sstatus x AND SSTATUS_SPIE \<noteq> 0" "user_sstatus x AND SSTATUS_SIE = 0"
proof -
  have p: "bit (push_bit k 1 :: uint64) n \<longleftrightarrow> n = k" if "k < 64" for k n
    using that by (auto simp: bit_simps)
  have "SSTATUS_SPP = push_bit 8 1" "SSTATUS_SPIE = push_bit 5 1" "SSTATUS_SIE = push_bit 1 1"
    by (simp_all add: SSTATUS_SPP_def SSTATUS_SPIE_def SSTATUS_SIE_def)
  then have b: "bit SSTATUS_SPP n \<longleftrightarrow> n = 8" "bit SSTATUS_SPIE n \<longleftrightarrow> n = 5" "bit SSTATUS_SIE n \<longleftrightarrow> n = 1" for n
    using p [of 8 n] p [of 5 n] p [of 1 n] by (simp_all only:)
  show "user_sstatus x AND SSTATUS_SPP = 0" "user_sstatus x AND SSTATUS_SIE = 0"
    by (rule bit_word_eqI, auto simp: user_sstatus_def bit_and_iff bit_or_iff bit_not_iff b)+
  have "bit (user_sstatus x AND SSTATUS_SPIE) 5" by (simp add: user_sstatus_def bit_and_iff bit_or_iff b)
  then show "user_sstatus x AND SSTATUS_SPIE \<noteq> 0" by (metis bit_0_eq bot_apply bot_bool_def)
qed

text \<open>
  What the messages rely on: the device's output routine sends its byte, and the lock of the printer can be taken.
\<close>

definition printer :: "'z tenv \<Rightarrow> 'z trapst_scheme \<Rightarrow> bool" where
  "printer e s \<longleftrightarrow> putc_sends (k_putc (t_calls e)) \<and> (pr_locking s \<longrightarrow> lock_free Pr_lock (sync s))"

lemma say_run:
  assumes "printer e s" "sync_ok (sync s)" "\<forall>c \<in> set fmt. c \<noteq> 0 \<and> c \<noteq> 0x25"
  shows "\<exists>io. say e fmt [] s = Ok () (s\<lparr>sync := (if pr_locking s then quiet (sync s) else sync s), uart_io := io\<rparr>)"
proof -
  have "putc_sends (k_putc (t_calls e))" "can_print s" using assms(1,2) by (simp_all add: printer_def can_print_def)
  then show ?thesis using printf_run [OF _ says_plain [OF _ assms(3)], of s "k_putc (t_calls e)" "[]"] by (auto simp: say_def)
qed

lemma say_quiet:
  assumes "printer e s" "sync_ok (sync s)" "quiet (sync s) = sync s" "\<forall>c \<in> set fmt. c \<noteq> 0 \<and> c \<noteq> 0x25"
  obtains io where "say e fmt [] s = Ok () (s\<lparr>uart_io := io\<rparr>)"
  using say_run [OF assms(1,2,4)] assms(3) that by (auto split: if_splits)

text \<open>The first message; then the rest of \<open>usertrap\<close> starts from a state of the same kind.\<close>

lemma usertrap_start:
  assumes "from_user s i pc" "printer e s"
  obtains y io where "usertrap e s = usertrap_body e (s\<lparr>sync := y, uart_io := io\<rparr>)" "quiet y = quiet (sync s)" "y = sync s \<or> y = quiet (sync s)"
    "from_user (s\<lparr>sync := y, uart_io := io\<rparr>) i pc" "printer e (s\<lparr>sync := y, uart_io := io\<rparr>)"
proof -
  let ?y = "if pr_locking s then quiet (sync s) else sync s"
  have a: "sync_ok (sync s)" "sstatus (sync s) (tp (sync s)) AND SSTATUS_SPP = 0" using assms(1) by (auto simp: from_user_def running_def procs_freeD)
  obtain io where "say e (ascii ''[U] '') [] s = Ok () (s\<lparr>sync := ?y, uart_io := io\<rparr>)"
    using say_run [OF assms(2) a(1), of "ascii ''[U] ''"] by (auto simp: ascii_def)
  then have "usertrap e s = usertrap_body e (s\<lparr>sync := ?y, uart_io := io\<rparr>)" using a(2) by (simp add: usertrap_def r_sstatus_def)
  moreover have "from_user (s\<lparr>sync := ?y, uart_io := io\<rparr>) i pc" "printer e (s\<lparr>sync := ?y, uart_io := io\<rparr>)"
    using assms by (auto simp: from_user_def running_def printer_def cur_def)
  ultimately show thesis using that [of io ?y] by (simp split: if_splits)
qed

text \<open>
  The state \<open>u\<close> in which the routine of a system call runs, reached from the trap at \<open>pc\<close> in \<open>s\<close>: the saved program counter is past the
  \<open>ecall\<close>, interrupts are on, traps go to the kernel's vector, and messages have been sent; all else is as in \<open>s\<close>.
\<close>

definition at_call :: "'z tenv \<Rightarrow> nat \<Rightarrow> uint64 \<Rightarrow> 'z trapst_scheme \<Rightarrow> 'z trapst_scheme \<Rightarrow> bool" where
  "at_call e i pc s u \<longleftrightarrow> (let tf = trapframe (procs s i); h = tp (sync s) in
     running u i \<and> sie (sync u) \<and> depth (sync u) = 0 \<and> tp (sync u) = h \<and> locks (sync u) = locks (sync s) \<and> tf_reg (mem u) tf 3 = pc + 4 \<and>
     (\<forall>k<36. k \<noteq> 3 \<longrightarrow> tf_reg (mem u) tf k = tf_reg (mem s) tf k) \<and> (\<forall>x. x \<notin> span tf sizeof_trapframe \<longrightarrow> mem u x = mem s x) \<and>
     u = s\<lparr>sync := sync u, mem := mem u, uart_io := uart_io u, csr := (csr s)(h := (csr s h)\<lparr>stvec := t_kernelvec e\<rparr>)\<rparr>)"

text \<open>
  The kernel hands the processor back to process \<open>i\<close> in the state \<open>t\<close>, after a call that left the state \<open>s\<close>: user mode, with
  interrupts enabled only by the return itself, at \<open>pc\<close>; \<open>a0\<close> is \<open>v\<close>, every other user register is as in \<open>s\<close>, and the next
  trap is set to find the kernel's page table, stack and entry.
\<close>

definition resumed :: "'z tenv \<Rightarrow> nat \<Rightarrow> uint64 \<Rightarrow> uint64 \<Rightarrow> 'z trapst_scheme \<Rightarrow> 'z trapst_scheme \<Rightarrow> bool" where
  "resumed e i pc v s t \<longleftrightarrow> (let p = procs s i; tf = trapframe p; h = tp (sync s) in
     sepc (csr t h) = pc \<and> stvec (csr t h) = TRAMPOLINE + (t_uservec e - sym_trampoline s) \<and>
     sstatus (sync t) h AND SSTATUS_SPP = 0 \<and> sstatus (sync t) h AND SSTATUS_SPIE \<noteq> 0 \<and> sstatus (sync t) h AND SSTATUS_SIE = 0 \<and>
     tf_reg (mem t) tf 0 = satp s h \<and> tf_reg (mem t) tf 1 = kstack p + PGSIZE \<and> tf_reg (mem t) tf 2 = t_usertrap e \<and>
     tf_reg (mem t) tf 4 = of_nat h \<and> tf_reg (mem t) tf 14 = v \<and>
     (\<forall>k<36. 4 < k \<and> k \<noteq> 14 \<longrightarrow> tf_reg (mem t) tf k = tf_reg (mem s) tf k) \<and>
     (\<forall>x. x \<notin> span tf sizeof_trapframe \<longrightarrow> mem t x = mem s x) \<and> procs t = procs s)"

lemma usertrapret_resumed:
  assumes "sync_ok (sync u)" "cur u = Some i" "procs u = procs s" "tp (sync u) = tp (sync s)" "satp u = satp s" "sym_trampoline u = sym_trampoline s"
    "\<And>k. k < 36 \<Longrightarrow> 4 < k \<Longrightarrow> tf_reg (mem u) (trapframe (procs s i)) k = (if k = 14 then v else tf_reg (mem s) (trapframe (procs s i)) k)"
    "\<And>x. x \<notin> span (trapframe (procs s i)) sizeof_trapframe \<Longrightarrow> mem u x = mem s x"
  shows "\<exists>t. usertrapret e u = Ok (MAKE_SATP (pagetable (procs s i))) t \<and> resumed e i (tf_reg (mem u) (trapframe (procs s i)) 3) v s t"
proof -
  obtain w t where t: "usertrapret e u = Ok w t" "to_user e i u w t" using usertrapret_run [OF assms(1,2), of e] by (auto simp: wp_iff)
  have "w = MAKE_SATP (pagetable (procs s i))" "resumed e i (tf_reg (mem u) (trapframe (procs s i)) 3) v s t"
    using t(2) assms(3-8) by (simp_all add: to_user_def resumed_def Let_def tf_reg_set tf_set_outside user_sstatus_bits)
  then show ?thesis using t(1) by blast
qed

text \<open>What precedes the call, and what follows a routine that has returned.\<close>

lemma usertrap_ecall_enter:
  assumes "from_user s i pc" "printer e s" "scause (csr s (tp (sync s))) = 8"
  defines "tf \<equiv> trapframe (procs s i)" and "h \<equiv> tp (sync s)"
  shows "\<exists>io. usertrap e s = seq (syscall (t_calls e)) (usertrap_end e i 0) (s\<lparr>sync := sie_on (quiet (sync s)),
    mem := tf_set tf 3 (pc + 4) (tf_set tf 3 pc (mem s)), uart_io := io, csr := (csr s)(h := (csr s h)\<lparr>stvec := t_kernelvec e\<rparr>)\<rparr>)"
proof -
  obtain z io0 where z: "usertrap e s = usertrap_body e (s\<lparr>sync := z, uart_io := io0\<rparr>)" "quiet z = quiet (sync s)" "z = sync s \<or> z = quiet (sync s)"
    "from_user (s\<lparr>sync := z, uart_io := io0\<rparr>) i pc" "printer e (s\<lparr>sync := z, uart_io := io0\<rparr>)" by (rule usertrap_start [OF assms(1,2)])
  let ?y = "quiet (sync s)" and ?c = "(csr s)(h := (csr s h)\<lparr>stvec := t_kernelvec e\<rparr>)" and ?z = "s\<lparr>sync := z, uart_io := io0\<rparr>"
  have tpz: "tp z = h" using z(3) by (auto simp: h_def)
  have a: "procs_free z" "sync_ok z" "cur ?z = Some i" "\<not> pkilled (procs s i)" "sepc (csr s h) = pc" "scause (csr s h) = 8" "procs_free ?y" "sync_ok ?y"
    using z(4) assms(1,3) tpz by (auto simp: from_user_def running_def procs_freeD h_def)
  define s0 where "s0 = s\<lparr>sync := ?y, mem := tf_set tf 3 pc (mem s), uart_io := io0, csr := ?c\<rparr>"
  obtain io where io: "say e (ascii ''System call'' @ [10]) [] s0 = Ok () (s0\<lparr>uart_io := io\<rparr>)"
    by (rule say_quiet [of e s0 "ascii ''System call'' @ [10]"]) (use a(8) assms(2) in \<open>simp_all add: s0_def printer_def ascii_def\<close>)
  define s1 where "s1 = s0\<lparr>uart_io := io\<rparr>"
  define s2 where "s2 = s1\<lparr>sync := sie_on ?y, mem := tf_set tf 3 (pc + 4) (mem s1)\<rparr>"
  have k1: "killed i s1 = Ok False s1" using killed_run [of s1 i] a by (simp add: s1_def s0_def)
  have f0: "scause (csr s0 (tp (sync s0))) = 8" using a by (simp add: s0_def h_def)
  have f1: "tf_reg (mem s1) tf 3 = pc" by (simp add: s1_def s0_def tf_reg_set)
  have "usertrap_body e ?z = seq (seq (store64 (tf + TF_epc) (pc + 4)) (seq intr_on (syscall (t_calls e)))) (usertrap_end e i 0) s1"
    using a k1 f0 f1 z(2) tpz io [folded s1_def] by (simp add: usertrap_body_def w_stvec_def this_proc_run devintr_def r_scause_def r_sepc_def
        store64_def load64_def tf_stores tf_def [symmetric] h_def [symmetric] s0_def [symmetric] seq_def bnd_assoc)
  also have "\<dots> = seq (syscall (t_calls e)) (usertrap_end e i 0) s2"
  proof -
    have "intr_on (s1\<lparr>mem := tf_set tf 3 (pc + 4) (mem s1)\<rparr>) = Ok () s2" by (simp add: intr_on_run s2_def s1_def s0_def)
    then show ?thesis by (simp add: store64_def tf_stores seq_def bnd_assoc)
  qed
  finally have "usertrap e s = seq (syscall (t_calls e)) (usertrap_end e i 0) s2" using z(1) by simp
  moreover have "s2 = s\<lparr>sync := sie_on ?y, mem := tf_set tf 3 (pc + 4) (tf_set tf 3 pc (mem s)), uart_io := io, csr := ?c\<rparr>"
    by (simp add: s2_def s1_def s0_def)
  ultimately show ?thesis by blast
qed

lemma usertrap_end_run:
  assumes "running w i"
  shows "usertrap_end e i 0 w = (if pkilled (procs w i) then seq (exit (k_rw (t_calls e)) (- 1)) (usertrapret e) (w\<lparr>sync := quiet (sync w)\<rparr>)
    else usertrapret e (w\<lparr>sync := quiet (sync w)\<rparr>))"
proof -
  have k: "killed i w = Ok (pkilled (procs w i)) (w\<lparr>sync := quiet (sync w)\<rparr>)" using assms by (simp add: running_def killed_run)
  show ?thesis unfolding usertrap_end_def by (subst bnd_run(1) [where m = "killed i" and s = w, OF k]) (simp add: seq_def)
qed

lemma exit_never: "exit rw status s \<noteq> Ok x t"
  by (auto simp: exit_def seq_def bnd_Ok_iff split: if_splits option.splits)

text \<open>A routine has returned \<open>v\<close> in \<open>w\<close>: \<open>a0\<close> is stored, then the process exits if it has been killed, else it is resumed.\<close>

lemma after_call:
  assumes "running w i"
  shows "if pkilled (procs w i)
    then \<forall>x t. seq (seq (bnd (get_proc i) (\<lambda>p. store64 (trapframe p + TF_a0) v)) (uartsleep 20)) (usertrap_end e i 0) w \<noteq> Ok x t
    else \<exists>t. seq (seq (bnd (get_proc i) (\<lambda>p. store64 (trapframe p + TF_a0) v)) (uartsleep 20)) (usertrap_end e i 0) w = Ok (MAKE_SATP (pagetable (procs w i))) t \<and>
      resumed e i (tf_reg (mem w) (trapframe (procs w i)) 3) v w t"
proof -
  define tf where "tf = trapframe (procs w i)"
  define u where "u = w\<lparr>mem := tf_set tf 14 v (mem w)\<rparr>"
  have run: "seq (seq (bnd (get_proc i) (\<lambda>p. store64 (trapframe p + TF_a0) v)) (uartsleep 20)) (usertrap_end e i 0) w = usertrap_end e i 0 u"
    by (simp add: store64_def tf_stores u_def tf_def seq_def bnd_assoc)
  have u: "running u i" "procs u = procs w" using assms by (simp_all add: u_def running_def)
  have y: "sync_ok (quiet (sync w))" using assms by (simp add: running_def procs_freeD)
  let ?u = "u\<lparr>sync := quiet (sync u)\<rparr>"
  have "\<exists>t. usertrapret e ?u = Ok (MAKE_SATP (pagetable (procs w i))) t \<and> resumed e i (tf_reg (mem ?u) tf 3) v w t"
    unfolding tf_def
    by (rule usertrapret_resumed) (use y assms in \<open>auto simp: u_def tf_def running_def cur_def tf_reg_set tf_set_outside\<close>)
  moreover have "tf_reg (mem ?u) tf 3 = tf_reg (mem w) tf 3" by (simp add: u_def tf_reg_set)
  ultimately show ?thesis unfolding run usertrap_end_run [OF u(1)] u(2)
    by (auto simp: seq_def bnd_Ok_iff exit_never tf_def)
qed

lemma ecall_state:
  assumes "from_user s i pc"
  defines "tf \<equiv> trapframe (procs s i)" and "h \<equiv> tp (sync s)"
  shows "at_call e i pc s (s\<lparr>sync := quiet (sie_on (quiet (sync s))), mem := tf_set tf 3 (pc + 4) (tf_set tf 3 pc (mem s)), uart_io := io,
    csr := (csr s)(h := (csr s h)\<lparr>stvec := t_kernelvec e\<rparr>)\<rparr>)"
proof -
  have "procs_free (sync s)" "cur s = Some i" "depth (sync s) = 0" using assms(1) by (auto simp: from_user_def running_def)
  moreover have "sie (sie_on y)" for y by (simp add: sie_def sie_on_def)
  ultimately show ?thesis using sie_on_free [of "quiet (sync s)"]
    by (simp add: at_call_def Let_def running_def cur_def tf_reg_set tf_set_outside tf_def [symmetric] h_def [symmetric])
qed

lemma syscalls_total: "0 < n \<and> n < NELEM_syscalls \<Longrightarrow> \<exists>f. map_of (syscalls e) n = Some f"
proof -
  assume "0 < n \<and> n < NELEM_syscalls"
  then have "n \<in> {1..22}" by (simp add: NELEM_syscalls_def)
  also have "{1..22} = fst ` set (syscalls e)" by (simp add: syscalls_def SYS_defs) (simp add: simp_from_to insert_commute)
  finally show ?thesis by (metis map_of_eq_None_iff not_None_eq)
qed

lemma bnd_run_cong: "m s = m' s' \<Longrightarrow> bnd m f s = bnd m' f s'"
  by (simp add: bnd_def)

lemma usertrap_routine:
  assumes "from_user s i pc" "printer e s" "scause (csr s (tp (sync s))) = 8"
    "routine (t_calls e) (sint (ucast (tf_reg (mem s) (trapframe (procs s i)) 21) :: uint)) = Some f"
  shows "\<exists>u. at_call e i pc s u \<and> usertrap e s = bnd f (\<lambda>v. seq (seq (bnd (get_proc i) (\<lambda>p. store64 (trapframe p + TF_a0) v)) (uartsleep 20)) (usertrap_end e i 0)) u"
proof -
  define tf where "tf = trapframe (procs s i)"
  define h where "h = tp (sync s)"
  obtain io where run: "usertrap e s = seq (syscall (t_calls e)) (usertrap_end e i 0) (s\<lparr>sync := sie_on (quiet (sync s)),
    mem := tf_set tf 3 (pc + 4) (tf_set tf 3 pc (mem s)), uart_io := io, csr := (csr s)(h := (csr s h)\<lparr>stvec := t_kernelvec e\<rparr>)\<rparr>)"
    using usertrap_ecall_enter [OF assms(1-3)] by (auto simp: tf_def h_def)
  define s2 where "s2 = s\<lparr>sync := sie_on (quiet (sync s)), mem := tf_set tf 3 (pc + 4) (tf_set tf 3 pc (mem s)), uart_io := io,
    csr := (csr s)(h := (csr s h)\<lparr>stvec := t_kernelvec e\<rparr>)\<rparr>"
  have p: "procs s2 = procs s" "tf_reg (mem s2) tf 21 = tf_reg (mem s) tf 21" by (simp_all add: s2_def tf_reg_set)
  have "sync_ok (sync s2)" "cur s2 = Some i"
    using assms(1) sie_on_free [of "quiet (sync s)"] by (auto simp: s2_def from_user_def running_def cur_def procs_freeD)
  from syscall_routine [OF this refl, of "t_calls e"] assms(4)
  have "syscall (t_calls e) s2 = seq (bnd f (\<lambda>v. bnd (get_proc i) (\<lambda>p. store64 (trapframe p + TF_a0) v))) (uartsleep 20) (s2\<lparr>sync := quiet (sync s2)\<rparr>)"
    unfolding p(1) tf_def [symmetric] p(2) by simp
  then have "usertrap e s = bnd f (\<lambda>v. seq (seq (bnd (get_proc i) (\<lambda>p. store64 (trapframe p + TF_a0) v)) (uartsleep 20)) (usertrap_end e i 0)) (s2\<lparr>sync := quiet (sync s2)\<rparr>)"
    unfolding run s2_def [symmetric] seq_def [of "syscall (t_calls e)"] by (subst bnd_run_cong, assumption) (simp only: seq_def bnd_assoc)
  moreover have "s2\<lparr>sync := quiet (sync s2)\<rparr> = s\<lparr>sync := quiet (sie_on (quiet (sync s))), mem := tf_set tf 3 (pc + 4) (tf_set tf 3 pc (mem s)), uart_io := io,
      csr := (csr s)(h := (csr s h)\<lparr>stvec := t_kernelvec e\<rparr>)\<rparr>" by (simp add: s2_def)
  then have "at_call e i pc s (s2\<lparr>sync := quiet (sync s2)\<rparr>)" using ecall_state [OF assms(1), of e io] by (simp only: tf_def h_def)
  ultimately show ?thesis by blast
qed

lemma usertrap_call:
  assumes "from_user s i pc" "printer e s" "scause (csr s (tp (sync s))) = 8"
    "routine (t_calls e) (sint (ucast (tf_reg (mem s) (trapframe (procs s i)) 21) :: uint)) = Some f"
  shows "\<exists>u. at_call e i pc s u \<and> (case f u of
        Ok v w \<Rightarrow> running w i \<longrightarrow>
          (if pkilled (procs w i) then \<forall>x t. usertrap e s \<noteq> Ok x t
           else \<exists>t. usertrap e s = Ok (MAKE_SATP (pagetable (procs w i))) t \<and> resumed e i (tf_reg (mem w) (trapframe (procs w i)) 3) v w t)
      | Panic m \<Rightarrow> usertrap e s = Panic m
      | Spin \<Rightarrow> usertrap e s = Spin
      | Swtch t \<Rightarrow> usertrap e s = Swtch t)"
proof -
  obtain u where u: "at_call e i pc s u"
    "usertrap e s = bnd f (\<lambda>v. seq (seq (bnd (get_proc i) (\<lambda>p. store64 (trapframe p + TF_a0) v)) (uartsleep 20)) (usertrap_end e i 0)) u"
    using usertrap_routine [OF assms] by auto
  have "(case f u of
        Ok v w \<Rightarrow> running w i \<longrightarrow>
          (if pkilled (procs w i) then \<forall>x t. usertrap e s \<noteq> Ok x t
           else \<exists>t. usertrap e s = Ok (MAKE_SATP (pagetable (procs w i))) t \<and> resumed e i (tf_reg (mem w) (trapframe (procs w i)) 3) v w t)
      | Panic m \<Rightarrow> usertrap e s = Panic m
      | Spin \<Rightarrow> usertrap e s = Spin
      | Swtch t \<Rightarrow> usertrap e s = Swtch t)"
  proof (cases "f u")
    case (Ok v w)
    then have r: "usertrap e s = seq (seq (bnd (get_proc i) (\<lambda>p. store64 (trapframe p + TF_a0) v)) (uartsleep 20)) (usertrap_end e i 0) w"
      by (simp add: u(2))
    show ?thesis using after_call [of w i v e] by (simp only: Ok outcome.case r) blast
  qed (simp_all add: u(2))
  then show ?thesis using u(1) by blast
qed

lemma usertrap_value:
  assumes "from_user s i pc" "printer e s" "scause (csr s (tp (sync s))) = 8"
    "call_value s i (sint (ucast (tf_reg (mem s) (trapframe (procs s i)) 21) :: uint)) = Some v"
  shows "\<exists>t. usertrap e s = Ok (MAKE_SATP (pagetable (procs s i))) t \<and> resumed e i (pc + 4) v s t"
proof -
  define tf where "tf = trapframe (procs s i)"
  define h where "h = tp (sync s)"
  obtain io where run: "usertrap e s = seq (syscall (t_calls e)) (usertrap_end e i 0) (s\<lparr>sync := sie_on (quiet (sync s)),
    mem := tf_set tf 3 (pc + 4) (tf_set tf 3 pc (mem s)), uart_io := io, csr := (csr s)(h := (csr s h)\<lparr>stvec := t_kernelvec e\<rparr>)\<rparr>)"
    using usertrap_ecall_enter [OF assms(1-3)] by (auto simp: tf_def h_def)
  define s2 where "s2 = s\<lparr>sync := sie_on (quiet (sync s)), mem := tf_set tf 3 (pc + 4) (tf_set tf 3 pc (mem s)), uart_io := io,
    csr := (csr s)(h := (csr s h)\<lparr>stvec := t_kernelvec e\<rparr>)\<rparr>"
  have s2: "procs_free (sync s2)" "lock_free Ticks_lock (sync s2)" "cur s2 = Some i" "putc_sends (k_putc (t_calls e))"
    "pr_locking s2 \<longrightarrow> lock_free Pr_lock (sync s2)" "procs s2 = procs s" "tf_reg (mem s2) tf 21 = tf_reg (mem s) tf 21" "call_value s2 i n = call_value s i n" for n
    using assms(1,2) sie_on_free [of "quiet (sync s)"]
    by (auto simp: s2_def from_user_def running_def cur_def printer_def call_value_def tf_reg_set cong: if_cong)
  obtain g where call: "syscall (t_calls e) s2 = Ok () (s2\<lparr>sync := quiet (sync s2), mem := tf_set tf 14 v (mem s2), uart_io := g\<rparr>)"
    using syscall_value [OF s2(1-5), of v] assms(4) s2(6-8) by (auto simp: tf_def)
  define s3 where "s3 = s2\<lparr>sync := quiet (sync s2), mem := tf_set tf 14 v (mem s2), uart_io := g\<rparr>"
  have s3: "running s3 i" "\<not> pkilled (procs s3 i)" "quiet (sync s3) = sync s3" "procs s3 = procs s" "mem s3 = tf_set tf 14 v (tf_set tf 3 (pc + 4) (tf_set tf 3 pc (mem s)))"
    using s2 assms(1) by (simp_all add: s3_def running_def cur_def from_user_def) (simp add: s2_def)
  have "usertrap e s = usertrapret e s3"
    using run call s3 usertrap_end_run [OF s3(1), of e] by (simp add: s2_def [symmetric] s3_def [symmetric])
  moreover have "\<exists>t. usertrapret e s3 = Ok (MAKE_SATP (pagetable (procs s i))) t \<and> resumed e i (tf_reg (mem s3) (trapframe (procs s i)) 3) v s t"
    by (rule usertrapret_resumed)
      (use s3 in \<open>auto simp: running_def procs_freeD tf_reg_set tf_set_outside tf_def [symmetric]\<close>, simp_all add: s3_def s2_def)
  ultimately show ?thesis using s3(5) by (simp add: tf_def [symmetric] tf_reg_set)
qed

text \<open>
  C14: System calls from user space. A process that has not been killed traps with an \<open>ecall\<close> at \<open>pc\<close>. For every number of the table, the routine it
  selects runs in a state \<open>u\<close> in which the saved program counter is \<open>pc + 4\<close>, interrupts are on, and the other registers,
  all other memory and all other state are as at the trap (but for the messages sent, the trap vector and this hart's interrupt flags). If the routine
  returns \<open>v\<close> with the process still running on this hart, no process lock held and the interrupt nesting in order, and the process has not been killed, the kernel goes back to user space with the process's page table at the program counter
  that the trap frame then holds; \<open>a0\<close> is \<open>v\<close>, every other user register, all other memory and all processes are as the routine
  left them. A process that has been killed meanwhile does not go back to user space. A routine that panics, spins or gives up the processor makes the whole trap do
  so in the same state. For a number outside the table (with result -1), \<open>getpid\<close>, \<open>uptime\<close> and the test call the kernel does go back to user space:
  at \<open>pc + 4\<close>, with the result in \<open>a0\<close> and every other register, all other memory and all processes as at the trap.
\<close>

theorem usertrap_ecall_correct:
  assumes "from_user s i pc" "printer e s" "scause (csr s (tp (sync s))) = 8"
  defines "n \<equiv> sint (ucast (tf_reg (mem s) (trapframe (procs s i)) 21) :: uint)"
  shows "(0 < n \<and> n < NELEM_syscalls \<longrightarrow> (\<exists>f u. map_of (syscalls (t_calls e)) n = Some f \<and> at_call e i pc s u \<and>
      (case f u of
        Ok v w \<Rightarrow> running w i \<longrightarrow>
          (if pkilled (procs w i) then \<forall>x t. usertrap e s \<noteq> Ok x t
           else \<exists>t. usertrap e s = Ok (MAKE_SATP (pagetable (procs w i))) t \<and> resumed e i (tf_reg (mem w) (trapframe (procs w i)) 3) v w t)
      | Panic m \<Rightarrow> usertrap e s = Panic m
      | Spin \<Rightarrow> usertrap e s = Spin
      | Swtch t \<Rightarrow> usertrap e s = Swtch t))) \<and>
    (\<forall>v. call_value s i n = Some v \<longrightarrow>
      (\<exists>t. usertrap e s = Ok (MAKE_SATP (pagetable (procs s i))) t \<and> resumed e i (pc + 4) v s t))"
proof (intro conjI impI allI)
  assume n: "0 < n \<and> n < NELEM_syscalls"
  then obtain f where f: "map_of (syscalls (t_calls e)) n = Some f" using syscalls_total by blast
  then have "routine (t_calls e) n = Some f" using n by (simp add: routine_def)
  from usertrap_call [OF assms(1-3) this [unfolded n_def]] f
  show "\<exists>f u. map_of (syscalls (t_calls e)) n = Some f \<and> at_call e i pc s u \<and>
      (case f u of
        Ok v w \<Rightarrow> running w i \<longrightarrow>
          (if pkilled (procs w i) then \<forall>x t. usertrap e s \<noteq> Ok x t
           else \<exists>t. usertrap e s = Ok (MAKE_SATP (pagetable (procs w i))) t \<and> resumed e i (tf_reg (mem w) (trapframe (procs w i)) 3) v w t)
      | Panic m \<Rightarrow> usertrap e s = Panic m
      | Spin \<Rightarrow> usertrap e s = Spin
      | Swtch t \<Rightarrow> usertrap e s = Swtch t)"
    by blast
qed (rule usertrap_value [OF assms(1-3)], simp add: n_def)


section \<open>Timer interrupts\<close>

lemma ticks_lock_free [simp]: "proc_free_lock Ticks_lock"
  by (simp add: proc_free_lock_def)

lemma sysst_upd_order [simp]:
  "(s :: 'z sysst_scheme)\<lparr>ticks := n, sync := y\<rparr> = s\<lparr>sync := y, ticks := n\<rparr>"
  "(s :: 'z sysst_scheme)\<lparr>ticks := n, procs := q\<rparr> = s\<lparr>procs := q, ticks := n\<rparr>"
  "(s :: 'z sysst_scheme)\<lparr>ticks := n, mem := m\<rparr> = s\<lparr>mem := m, ticks := n\<rparr>"
  "(s' :: 'z trapst_scheme)\<lparr>csr := c, ticks := n\<rparr> = s'\<lparr>ticks := n, csr := c\<rparr>"
  "cur (s\<lparr>ticks := n\<rparr>) = cur s"
  by (simp_all add: cur_def)

text \<open>What a tick changes: hart 0 counts it and wakes those who wait for time; every hart sets its next deadline.\<close>

definition ticked :: "'z trapst_scheme \<Rightarrow> 'z trapst_scheme" where
  "ticked s = (let h = tp (sync s) in s\<lparr>sync := (if h = 0 then quiet (sync s) else sync s),
     procs := (if h = 0 then awaken (cur s) Ticks_chan 0 NPROC (procs s) else procs s),
     ticks := (if h = 0 then ticks s + 1 else ticks s),
     csr := (csr s)(h := (csr s h)\<lparr>stimecmp := time_csr (csr s h) + 1000000\<rparr>)\<rparr>)"

lemma clockintr_run:
  assumes "procs_free (sync s)" "lock_free Ticks_lock (sync s)"
  shows "clockintr s = Ok () (ticked s)"
proof (cases "tp (sync s) = 0")
  case True
  let ?u = "s\<lparr>sync := lock_acq Ticks_lock (sync s), ticks := ticks s + 1\<rparr>"
  have y: "sync_ok (sync s)" using assms(1) by (rule procs_freeD)
  have "wakeup Ticks_chan ?u = Ok () (?u\<lparr>procs := awaken (cur s) Ticks_chan 0 NPROC (procs s)\<rparr>)"
    using held_wakeup [OF assms(1), of Ticks_lock ?u] by simp
  then show ?thesis using True y assms(2)
    by (simp add: clockintr_def cpuid_def acquire_run release_acq r_time_def w_stimecmp_def ticked_def Let_def)
next
  case False
  then show ?thesis by (simp add: clockintr_def cpuid_def r_time_def w_stimecmp_def ticked_def Let_def)
qed

lemma yield_run:
  assumes "procs_free (sync s)" "cur s = Some i"
  shows "yield s = Swtch (s\<lparr>sync := lock_acq (Proc_lock i) (sync s), procs := (procs s)(i := (procs s i)\<lparr>pstate := RUNNABLE\<rparr>)\<rparr>)"
proof -
  have y: "sync_ok (sync s)" "lock_free (Proc_lock i) (sync s)" using assms(1) by (simp_all add: procs_freeD)
  let ?u = "s\<lparr>sync := lock_acq (Proc_lock i) (sync s), procs := (procs s)(i := (procs s i)\<lparr>pstate := RUNNABLE\<rparr>)\<rparr>"
  have "sched ?u = Swtch ?u" by (rule sched_run [where y = "sync s"]) (use y assms(2) in \<open>auto simp: cur_def\<close>)
  then show ?thesis using y assms(2) by (simp add: yield_def this_proc_run acquire_run)
qed


lemma usertrap_timer_run:
  assumes "from_user s i pc" "printer e s" "scause (csr s (tp (sync s))) = 0x8000000000000005"
  defines "tf \<equiv> trapframe (procs s i)" and "h \<equiv> tp (sync s)"
  shows "\<exists>t. usertrap_body e s = Swtch t \<and> mem t = tf_set tf 3 pc (mem s) \<and> ticks t = (if h = 0 then ticks s + 1 else ticks s) \<and>
    procs t = (let q = (if h = 0 then awaken (Some i) Ticks_chan 0 NPROC (procs s) else procs s) in q(i := (q i)\<lparr>pstate := RUNNABLE\<rparr>)) \<and>
    stimecmp (csr t h) = time_csr (csr s h) + 1000000 \<and> sync t = lock_acq (Proc_lock i) (sync s)"
proof -
  let ?y = "quiet (sync s)"
  have a: "procs_free (sync s)" "sync_ok (sync s)" "cur s = Some i" "lock_free Ticks_lock (sync s)" "\<not> pkilled (procs s i)"
    "sstatus (sync s) h AND SSTATUS_SPP = 0" "sepc (csr s h) = pc" "scause (csr s h) = 0x8000000000000005"
    using assms(1,3) by (auto simp: from_user_def running_def procs_freeD h_def)
  define s1 where "s1 = s\<lparr>sync := ?y, csr := (csr s)(h := (csr s h)\<lparr>stvec := t_kernelvec e\<rparr>)\<rparr>"
  define q where "q = (if h = 0 then awaken (Some i) Ticks_chan 0 NPROC (procs s) else procs s)"
  have c: "clockintr s1 = Ok () (ticked s1)" by (rule clockintr_run) (use a in \<open>simp_all add: s1_def\<close>)
  have q: "pkilled (q i) = pkilled (procs s i)" "trapframe (q i) = tf" by (simp_all add: q_def awaken_def tf_def)
  define s0 where "s0 = (ticked s1)\<lparr>mem := tf_set tf 3 pc (mem s)\<rparr>"
  have s0: "sync s0 = ?y" "procs s0 = q" "cur s0 = Some i" "mem s0 = tf_set tf 3 pc (mem s)" "pr_locking s0 = pr_locking s"
    "ticks s0 = (if h = 0 then ticks s + 1 else ticks s)" "csr s0 h = (csr s h)\<lparr>stvec := t_kernelvec e, stimecmp := time_csr (csr s h) + 1000000\<rparr>"
    using a(3) by (auto simp: s0_def ticked_def s1_def Let_def h_def q_def cur_def)
  obtain io where io: "say e (ascii ''Timer IRQ'' @ [10]) [] s0 = Ok () (s0\<lparr>uart_io := io\<rparr>)"
    by (rule say_quiet [of e s0 "ascii ''Timer IRQ'' @ [10]"]) (use a(2) s0 assms(2) in \<open>simp_all add: printer_def ascii_def\<close>)
  define s2 where "s2 = s0\<lparr>uart_io := io\<rparr>"
  have s2: "sync s2 = ?y" "procs s2 = q" "cur s2 = Some i" "mem s2 = tf_set tf 3 pc (mem s)" "pr_locking s2 = pr_locking s"
    "ticks s2 = (if h = 0 then ticks s + 1 else ticks s)" "csr s2 h = (csr s h)\<lparr>stvec := t_kernelvec e, stimecmp := time_csr (csr s h) + 1000000\<rparr>"
    using s0 by (simp_all add: s2_def)
  have k: "killed i s2 = Ok False s2" using killed_run [of s2 i] a s2 q by simp
  have t1: "tp (sync (ticked s1)) = h" "csr (ticked s1) h = (csr s h)\<lparr>stvec := t_kernelvec e, stimecmp := time_csr (csr s h) + 1000000\<rparr>"
    "procs (ticked s1) = q" "mem (ticked s1) = mem s" "tp (sync s1) = h" "scause (csr s1 h) = 0x8000000000000005"
    using a(3,8) by (auto simp: ticked_def s1_def Let_def h_def q_def cur_def)
  have dev: "devintr e s1 = Ok 2 (ticked s1)" using c t1 by (simp add: devintr_def r_scause_def)
  have "this_proc (s\<lparr>csr := (csr s)(h := (csr s h)\<lparr>stvec := t_kernelvec e\<rparr>)\<rparr>) = Ok i s1"
    using a by (simp add: this_proc_run s1_def)
  then have "usertrap_body e s = usertrap_end e i 2 s2"
    using a dev t1 q s0(1,7) io [folded s2_def] by (simp add: usertrap_body_def w_stvec_def h_def [symmetric] r_sepc_def store64_def tf_stores
        r_scause_def s0_def [symmetric])
  also have "\<dots> = seq (seq (trace_next_pid (k_putc (t_calls e)) (ascii ''Timer'')) yield) (usertrapret e) s2"
    unfolding usertrap_end_def by (subst bnd_run(1) [where m = "killed i" and s = s2, OF k]) simp
  finally have body: "usertrap_body e s = seq (seq (trace_next_pid (k_putc (t_calls e)) (ascii ''Timer'')) yield) (usertrapret e) s2" .
  have "can_print s2" using a(2) s2 assms(2) by (auto simp: can_print_def printer_def)
  then obtain g where "trace_next_pid (k_putc (t_calls e)) (ascii ''Timer'') s2 = Ok () (s2\<lparr>sync := ?y, uart_io := g\<rparr>)"
    using trace_next_pid_run [of "k_putc (t_calls e)" s2 "ascii ''Timer''"] assms(2) s2(1) by (auto simp: printer_def)
  moreover have "yield (s2\<lparr>sync := ?y, uart_io := g\<rparr>) =
      Swtch (s2\<lparr>sync := lock_acq (Proc_lock i) ?y, procs := q(i := (q i)\<lparr>pstate := RUNNABLE\<rparr>), uart_io := g\<rparr>)"
    using yield_run [of "s2\<lparr>sync := ?y, uart_io := g\<rparr>" i] a s2 by (simp add: cur_def)
  ultimately have "usertrap_body e s = Swtch (s2\<lparr>sync := lock_acq (Proc_lock i) ?y, procs := q(i := (q i)\<lparr>pstate := RUNNABLE\<rparr>), uart_io := g\<rparr>)"
    unfolding body by simp
  then show ?thesis using s2 by (simp add: q_def Let_def)
qed

text \<open>The process is scheduled again, perhaps on another hart: \<open>u\<close> is the state the scheduler switches to.\<close>

lemma usertrap_resume_run:
  assumes "lock_held (Proc_lock i) (sync u)" "depth (sync u) = 1" "\<not> sie (sync u)" "cur u = Some i"
  defines "v \<equiv> u\<lparr>sync := lock_rel (Proc_lock i) ((sync u)\<lparr>cpus := (cpus (sync u))(tp (sync u) := (cpus (sync u) (tp (sync u)))\<lparr>intr_is_enabled := False\<rparr>)\<rparr>)\<rparr>"
  shows "\<exists>w t. usertrap_resume e i False u = Ok w t \<and> to_user e i v w t"
proof -
  let ?y = "(sync u)\<lparr>cpus := (cpus (sync u))(tp (sync u) := (cpus (sync u) (tp (sync u)))\<lparr>intr_is_enabled := False\<rparr>)\<rparr>"
  have "lock_held (Proc_lock i) ?y" "\<not> sie ?y" using assms(1-3) by (simp_all add: lock_held_def sie_def depth_def)
  then have "release (Proc_lock i) (u\<lparr>sync := ?y\<rparr>) = Ok () v" using release_run [of "Proc_lock i" "u\<lparr>sync := ?y\<rparr>"] by (simp add: v_def)
  then have run: "usertrap_resume e i False u = usertrapret e v"
    by (simp add: usertrap_resume_def yield_resume_def sched_resume_def set_mycpu_def)
  have "sync_ok (sync v)" "cur v = Some i"
    using assms(2,3,4) by (simp_all add: v_def lock_rel_def leave_def sync_ok_def depth_def sie_def cur_def Let_def)
  then show ?thesis using run usertrapret_run [of v i e] by (simp add: wp_iff)
qed


text \<open>
  C15: Preemption is transparent. A timer interrupt at \<open>pc\<close> makes the process RUNNABLE and gives up the processor; its registers and \<open>pc\<close>
  are in the trap frame, hart 0 has counted a tick and made every process that waits for time runnable, and the hart's next
  deadline is set. Whenever the scheduler later switches back, on any hart, with the trap frame as it was left, the process
  goes on in user mode at \<open>pc\<close> with all its registers.
\<close>

theorem timer_preemption_transparent:
  assumes "from_user s i pc" "printer e s" "scause (csr s (tp (sync s))) = 0x8000000000000005"
  defines "tf \<equiv> trapframe (procs s i)" and "h \<equiv> tp (sync s)"
  shows "\<exists>t. usertrap e s = Swtch t \<and> pstate (procs t i) = RUNNABLE \<and> lock_held (Proc_lock i) (sync t) \<and>
    ticks t = (if h = 0 then ticks s + 1 else ticks s) \<and> stimecmp (csr t h) = time_csr (csr s h) + 1000000 \<and>
    (\<forall>j<NPROC. h = 0 \<and> pstate (procs s j) = SLEEPING \<and> pchan (procs s j) = Ticks_chan \<longrightarrow> pstate (procs t j) = RUNNABLE) \<and>
    (\<forall>u. lock_held (Proc_lock i) (sync u) \<and> depth (sync u) = 1 \<and> \<not> sie (sync u) \<and> cur u = Some i \<and> trapframe (procs u i) = tf \<and>
        (\<forall>k<36. tf_reg (mem u) tf k = tf_reg (mem t) tf k) \<longrightarrow>
      (\<exists>v. usertrap_resume e i False u = Ok (MAKE_SATP (pagetable (procs u i))) v \<and> sepc (csr v (tp (sync u))) = pc \<and>
        sstatus (sync v) (tp (sync u)) AND SSTATUS_SPP = 0 \<and> sstatus (sync v) (tp (sync u)) AND SSTATUS_SIE = 0 \<and>
        (\<forall>k<36. 4 < k \<longrightarrow> tf_reg (mem v) tf k = tf_reg (mem s) tf k)))"
proof -
  obtain t where t: "usertrap e s = Swtch t" "mem t = tf_set tf 3 pc (mem s)" "ticks t = (if h = 0 then ticks s + 1 else ticks s)"
    "procs t = (let q = (if h = 0 then awaken (Some i) Ticks_chan 0 NPROC (procs s) else procs s) in q(i := (q i)\<lparr>pstate := RUNNABLE\<rparr>))"
    "stimecmp (csr t h) = time_csr (csr s h) + 1000000" "sync t = lock_acq (Proc_lock i) (sync s)"
  proof -
    obtain y io where y: "usertrap e s = usertrap_body e (s\<lparr>sync := y, uart_io := io\<rparr>)" "quiet y = quiet (sync s)" "y = sync s \<or> y = quiet (sync s)"
      "from_user (s\<lparr>sync := y, uart_io := io\<rparr>) i pc" "printer e (s\<lparr>sync := y, uart_io := io\<rparr>)" by (rule usertrap_start [OF assms(1,2)])
    define u where "u = s\<lparr>sync := y, uart_io := io\<rparr>"
    have h: "tp y = h" "lock_acq (Proc_lock i) y = lock_acq (Proc_lock i) (sync s)" using y(3) by (auto simp: h_def)
    have "scause (csr u (tp (sync u))) = 0x8000000000000005" using assms(3) h(1) by (simp add: u_def h_def)
    from usertrap_timer_run [OF y(4,5) [folded u_def] this] obtain t where t: "usertrap_body e u = Swtch t"
      "mem t = tf_set (trapframe (procs u i)) 3 pc (mem u)" "ticks t = (if tp (sync u) = 0 then ticks u + 1 else ticks u)"
      "procs t = (let q = (if tp (sync u) = 0 then awaken (Some i) Ticks_chan 0 NPROC (procs u) else procs u) in q(i := (q i)\<lparr>pstate := RUNNABLE\<rparr>))"
      "stimecmp (csr t (tp (sync u))) = time_csr (csr u (tp (sync u))) + 1000000" "sync t = lock_acq (Proc_lock i) (sync u)" by blast
    have u: "procs u = procs s" "mem u = mem s" "ticks u = ticks s" "tp (sync u) = h" "csr u = csr s" "lock_acq (Proc_lock i) (sync u) = lock_acq (Proc_lock i) (sync s)"
      using h by (simp_all add: u_def)
    show thesis by (rule that [of t]) (use t y(1) in \<open>simp_all only: u u_def [symmetric] tf_def\<close>)
  qed
  have "sync_ok (sync s)" using assms(1) by (simp add: from_user_def running_def procs_freeD)
  then have held: "lock_held (Proc_lock i) (sync t)" using t(6) by (simp add: sync_ok_def)
  have woken: "pstate (procs t j) = RUNNABLE" if "j < NPROC" "h = 0" "pstate (procs s j) = SLEEPING" "pchan (procs s j) = Ticks_chan" for j
    using that t(4) by (cases "j = i") (simp_all add: awaken_def Let_def)
  have resume: "\<exists>v. usertrap_resume e i False u = Ok (MAKE_SATP (pagetable (procs u i))) v \<and> sepc (csr v (tp (sync u))) = pc \<and>
      sstatus (sync v) (tp (sync u)) AND SSTATUS_SPP = 0 \<and> sstatus (sync v) (tp (sync u)) AND SSTATUS_SIE = 0 \<and>
      (\<forall>k<36. 4 < k \<longrightarrow> tf_reg (mem v) tf k = tf_reg (mem s) tf k)"
    if u: "lock_held (Proc_lock i) (sync u)" "depth (sync u) = 1" "\<not> sie (sync u)" "cur u = Some i" "trapframe (procs u i) = tf"
      "\<forall>k<36. tf_reg (mem u) tf k = tf_reg (mem t) tf k" for u :: "'a trapst_scheme"
  proof -
    have "tf_reg (mem u) tf 3 = pc" "\<forall>k<36. 4 < k \<longrightarrow> tf_reg (mem u) tf k = tf_reg (mem s) tf k" using u(6) t(2) by (simp_all add: tf_reg_set)
    then show ?thesis using usertrap_resume_run [OF u(1-4), of e] u(5)
      by (auto simp: to_user_def Let_def tf_reg_set lock_rel_def leave_def user_sstatus_bits)
  qed
  show ?thesis using t(1,3,4,5) held woken resume by (intro exI [of _ t]) (auto simp: Let_def)
qed


section \<open>Witnesses\<close>

text \<open>Process 0 with pid 7, trapped from user mode at \<open>0x100\<close> with cause \<open>c\<close> and call number 11.\<close>

lemma demo_trap:
  obtains s :: trapst where "from_user s 0 0x100" "scause (csr s (tp (sync s))) = c" "tp (sync s) = 0" "cur s = Some 0"
    "tf_reg (mem s) (trapframe (procs s 0)) 21 = 11" "trapframe (procs s 0) = 0x80040000" "pid (procs s 0) = 7" "ticks s = 5"
    "mem s = tf_set 0x80040000 21 11 (\<lambda>_. 0)" "lock_free Pr_lock (sync s)"
proof -
  define y where "y = demo_sync\<lparr>sstatus := (\<lambda>_. 0)\<rparr>"
  define s :: trapst where "s = (undefined :: trapst)\<lparr>sync := y, mem := tf_set 0x80040000 21 11 (\<lambda>_. 0),
    procs := (\<lambda>_. idle_process\<lparr>trapframe := 0x80040000, pid := 7\<rparr>), ticks := 5,
    csr := (\<lambda>_. (undefined :: csrs)\<lparr>scause := c, sepc := 0x100\<rparr>)\<rparr>"
  have "procs_free y" "lock_free Ticks_lock y" "lock_free Pr_lock y" "depth y = 0" "\<not> sie y" "tp y = 0" "cproc (cpus y 0) = Some 0"
    by (simp_all add: y_def demo_sync_def idle_sync_def procs_free_def sync_ok_def depth_def lock_free_def sie_def)
  then show ?thesis using that [of s]
    by (simp add: s_def from_user_def running_def cur_def tf_reg_set) (simp add: y_def idle_process_def)
qed

definition demo_env :: "unit tenv" where
  "demo_env = (undefined :: unit tenv)\<lparr>t_calls := (undefined :: unit trapst_ext kenv)\<lparr>k_putc := WriteReg THR\<rparr>\<rparr>"

lemma demo_printer: "lock_free Pr_lock (sync s) \<Longrightarrow> printer demo_env s"
  by (auto simp: printer_def demo_env_def putc_sends_def WriteReg_def)

text \<open>\<open>getpid\<close> returns 7 in \<open>a0\<close> and the process goes on at \<open>0x104\<close>.\<close>

theorem usertrap_ecall_correct_witness:
  "\<exists>(s :: trapst) w t. sepc (csr s 0) = 0x100 \<and> usertrap demo_env s = Ok w t \<and> sepc (csr t 0) = 0x104 \<and> tf_reg (mem t) 0x80040000 14 = 7"
proof -
  obtain s :: trapst where s: "from_user s 0 0x100" "scause (csr s (tp (sync s))) = 8" "tp (sync s) = 0" "cur s = Some 0"
    "tf_reg (mem s) (trapframe (procs s 0)) 21 = 11" "trapframe (procs s 0) = 0x80040000" "pid (procs s 0) = 7" "lock_free Pr_lock (sync s)" by (rule demo_trap)
  have "call_value s 0 (sint (ucast (tf_reg (mem s) (trapframe (procs s 0)) 21) :: uint)) = Some 7"
    using s by (simp add: call_value_def)
  then obtain w t where "usertrap demo_env s = Ok w t" "sepc (csr t 0) = 0x104" "tf_reg (mem t) 0x80040000 14 = 7"
    using usertrap_ecall_correct [OF s(1) demo_printer [OF s(8)] s(2)] s(3,6) by (auto simp: resumed_def Let_def)
  moreover have "sepc (csr s 0) = 0x100" using s(1,3) by (simp add: from_user_def)
  ultimately show ?thesis by blast
qed

theorem timer_preemption_transparent_witness:
  "\<exists>(s :: trapst) t. ticks s = 5 \<and> usertrap demo_env s = Swtch t \<and> pstate (procs t 0) = RUNNABLE \<and> ticks t = 6"
proof -
  obtain s :: trapst where s: "from_user s 0 0x100" "scause (csr s (tp (sync s))) = 0x8000000000000005" "tp (sync s) = 0" "ticks s = 5"
    "lock_free Pr_lock (sync s)" by (rule demo_trap)
  obtain t where "usertrap demo_env s = Swtch t" "pstate (procs t 0) = RUNNABLE" "ticks t = 6"
    using timer_preemption_transparent [OF s(1) demo_printer [OF s(5)] s(2)] s(3,4) by auto
  then show ?thesis using s(4) by blast
qed

end
