(* ===== verification/Boot.thy ===== *)
theory Boot
  imports Trap Printf
begin

text \<open>
  Start-up, \<^verbatim>\<open>kernel/src/start.c\<close> and \<^verbatim>\<open>kernel/src/main.c\<close>. The addresses of \<open>main\<close>, \<open>timervec\<close> and of the scratch area of the timer are
  parameters. \<open>start\<close> ends with the instruction \<open>mret\<close>, which goes to the address in \<open>mepc\<close> in the mode held in two bits of \<open>mstatus\<close>;
  it returns the two. \<open>main\<close> runs up to the first pass of the scheduler.
\<close>

section \<open>Machine mode\<close>

definition NCPU :: nat where "NCPU = 8"
definition CLINT :: addr where "CLINT = 0x2000000"
definition CLINT_MTIMECMP :: "uint64 \<Rightarrow> addr" where "CLINT_MTIMECMP hartid = CLINT + 0x4000 + 8 * hartid"
definition CLINT_MTIME :: addr where "CLINT_MTIME = CLINT + 0xBFF8"

record bootsyms =
  b_main :: addr
  b_timervec :: addr
  b_scratch :: "nat \<Rightarrow> addr"

definition timerinit :: "bootsyms \<Rightarrow> ('z trapst_scheme, unit) km" where
  "timerinit b =
     bnd r_mhartid (\<lambda>id.
     let cycle_100ms = 1000000; interval = cycle_100ms * 20 in
     seq (modify (\<lambda>s. s\<lparr>clint := (clint s)(CLINT_MTIMECMP id := clint s CLINT_MTIME + interval)\<rparr>)) (
     seq (modify (\<lambda>s. s\<lparr>timer_scratch := (timer_scratch s)(unat id := (timer_scratch s (unat id))(3 := CLINT_MTIMECMP id, 4 := interval))\<rparr>)) (
     seq (w_mscratch (b_scratch b (unat id))) (
     seq (w_mtvec (b_timervec b)) (
     seq (bnd r_mstatus (\<lambda>x. w_mstatus (x OR MSTATUS_MIE))) (
     bnd r_mie (\<lambda>x. w_mie (x OR MIE_MTIE))))))))"

definition mret :: "('z trapst_scheme, uint64 \<times> addr) km" where
  "mret = bnd r_mstatus (\<lambda>x. bnd (get_csr mepc) (\<lambda>pc. ret (drop_bit 11 (x AND MSTATUS_MPP_MASK), pc)))"

definition start :: "bootsyms \<Rightarrow> ('z trapst_scheme, uint64 \<times> addr) km" where
  "start b =
     bnd r_mstatus (\<lambda>mstatus.
     seq (w_mstatus ((mstatus AND NOT MSTATUS_MPP_MASK) OR MSTATUS_MPP_S)) (
     seq (w_satp 0) (
     seq (w_mepc (b_main b)) (
     seq (w_medeleg 0xffff) (
     seq (w_mideleg 0xffff) (
     seq (bnd r_sie (\<lambda>x. w_sie (x OR SIE_SEIE OR SIE_STIE OR SIE_SSIE))) (
     seq (w_pmpaddr0 0x3fffffffffffff) (
     seq (w_pmpcfg0 0xf) (
     seq (timerinit b) (
     bnd r_mhartid (\<lambda>id.
     seq (w_tp id) (
     mret))))))))))))"

section \<open>Supervisor mode\<close>

definition line :: "string \<Rightarrow> byte list" where
  "line m = map of_char m @ [10]"

definition main :: "'z tenv \<Rightarrow> byte list \<Rightarrow> ('z trapst_scheme, nat option) km" where
  "main e name0 =
     (let say = (\<lambda>m. uartputs (t_uart e) (line m)) in
     seq (say ''=== Enter main ==='') (
     seq (say ''=== Init console ==='') (
     seq consoleinit (
     seq printfinit (
     seq (say ''=== Init trap ==='') (
     seq (trapinithart e) (
     seq (say ''Hello xv6'') (
     seq (say ''=== Init physical memory ==='') (
     seq kinit (
     seq kmemtest (
     seq (say ''=== Init virtual memory ==='') (
     seq kvminit (
     seq kvminithart (
     seq (say ''=== Init PLIC ==='') (
     seq plicinit (
     seq plicinithart (
     seq (say ''=== Init Disk IO ==='') (
     seq (virtio_disk_init (t_virtio e)) (
     seq (say ''=== Init Buffer Cache ==='') (
     seq binit (
     seq (say ''=== Init INode Cache ==='') (
     seq iinit (
     seq (say ''=== Init File Table ==='') (
     seq fileinit (
     seq (say ''=== Init Process ==='') (
     seq procinit (
     seq (userinit (k_rw (t_calls e)) name0) (
     scheduler))))))))))))))))))))))))))))"


section \<open>The state in which \<open>main\<close> starts\<close>

lemma bit_one_shifted: "k < 64 \<Longrightarrow> bit (push_bit k 1 :: uint64) n \<longleftrightarrow> n = k"
  by (auto simp: bit_simps)

lemma mstatus_bits:
  "bit MSTATUS_MPP_MASK n \<longleftrightarrow> n = 11 \<or> n = 12" "bit MSTATUS_MPP_S n \<longleftrightarrow> n = 11" "bit MSTATUS_MIE n \<longleftrightarrow> n = 3" "bit MIE_MTIE n \<longleftrightarrow> n = 7"
proof -
  have e: "MSTATUS_MPP_MASK = push_bit 11 1 OR push_bit 12 1" by (simp add: MSTATUS_MPP_MASK_def)
  show "bit MSTATUS_MPP_MASK n \<longleftrightarrow> n = 11 \<or> n = 12"
    unfolding e bit_or_iff using bit_one_shifted [of 11 n] bit_one_shifted [of 12 n] by linarith
  show "bit MSTATUS_MPP_S n \<longleftrightarrow> n = 11" "bit MSTATUS_MIE n \<longleftrightarrow> n = 3" "bit MIE_MTIE n \<longleftrightarrow> n = 7"
    unfolding MSTATUS_MPP_S_def MSTATUS_MIE_def MIE_MTIE_def
    using bit_one_shifted [of 11 n] bit_one_shifted [of 3 n] bit_one_shifted [of 7 n] by (simp_all only:)
qed

lemma mstatus_nonzero: "MSTATUS_MIE \<noteq> 0" "MIE_MTIE \<noteq> 0"
  by (simp_all add: MSTATUS_MIE_def MIE_MTIE_def)

lemma mpp_is_supervisor:
  "drop_bit 11 (((x AND NOT MSTATUS_MPP_MASK OR MSTATUS_MPP_S) OR MSTATUS_MIE) AND MSTATUS_MPP_MASK) = (1 :: uint64)"
  by (rule bit_word_eqI) (auto simp: bit_drop_bit_eq bit_and_iff bit_or_iff bit_not_iff bit_1_iff mstatus_bits)

text \<open>
  \<open>start\<close> leaves machine mode for \<open>main\<close> in supervisor mode, with address translation off, all traps delegated, machine interrupts
  enabled for the timer alone, the hart's number in \<open>tp\<close>, and the hart's timer and its handler set up.
\<close>

lemma start_correct:
  assumes "mhartid (csr s (tp (sync s))) = of_nat (tp (sync s))" "tp (sync s) < NCPU"
  defines "h \<equiv> tp (sync s)"
  shows "\<exists>t. start b s = Ok (1, b_main b) t \<and> tp (sync t) = h \<and> satp t h = 0 \<and> medeleg (csr t h) = 0xffff \<and> mideleg (csr t h) = 0xffff \<and>
    mstatus (csr t h) AND MSTATUS_MIE \<noteq> 0 \<and> mie (csr t h) AND MIE_MTIE \<noteq> 0 \<and> mtvec (csr t h) = b_timervec b \<and>
    clint t (CLINT_MTIMECMP (of_nat h)) = clint s CLINT_MTIME + 20000000 \<and> timer_scratch t h 4 = 20000000 \<and>
    locks (sync t) = locks (sync s) \<and> procs t = procs s \<and> mem t = mem s"
proof -
  have "unat (of_nat h :: uint64) = h" using assms(2) by (simp add: h_def NCPU_def unat_of_nat)
  then have "wp (start b) (\<lambda>r t. r = (1, b_main b) \<and> tp (sync t) = h \<and> satp t h = 0 \<and> medeleg (csr t h) = 0xffff \<and> mideleg (csr t h) = 0xffff \<and>
    mstatus (csr t h) AND MSTATUS_MIE \<noteq> 0 \<and> mie (csr t h) AND MIE_MTIE \<noteq> 0 \<and> mtvec (csr t h) = b_timervec b \<and>
    clint t (CLINT_MTIMECMP (of_nat h)) = clint s CLINT_MTIME + 20000000 \<and> timer_scratch t h 4 = 20000000 \<and>
    locks (sync t) = locks (sync s) \<and> procs t = procs s \<and> mem t = mem s) s"
    using assms(1) by (simp add: start_def timerinit_def mret_def wp_simps csr_defs Let_def h_def [symmetric] mpp_is_supervisor [simplified] mstatus_nonzero)
  then show ?thesis by (auto simp: wp_iff)
qed

end
