(* ===== verification/Mkfs.thy ===== *)
theory Mkfs
  imports Fcontent Dir
begin

text \<open>
  The program that makes the disk image, \<^verbatim>\<open>mkfs/mkfs.c\<close>, which runs on the host.

  The image file is a map from sectors to blocks: a sector that was never written lies beyond the end of the file, and reading it
  is the error \<open>die\<close>. The host's \<open>open\<close>, \<open>lseek\<close> and \<open>write\<close> are taken to succeed. A file to be stored is its path and the list of the pieces
  that \<open>read\<close> returns, each of 1 to 1024 bytes. A failed \<open>assert\<close> or \<open>die\<close> is the outcome \<open>Panic\<close>. Inodes on disk have the layout and the
  routines \<open>get_dinode\<close>, \<open>put_dinode\<close> of the kernel.
\<close>

definition FSSIZE :: nat where "FSSIZE = 2000"
definition NINODES :: nat where "NINODES = 200"
definition nbitmap :: nat where "nbitmap = FSSIZE div (BSIZE * 8) + 1"
definition ninodeblocks :: nat where "ninodeblocks = NINODES div IPB + 1"
definition nlog :: nat where "nlog = LOGBLOCKS"
definition nmeta :: nat where "nmeta = 2 + nlog + ninodeblocks + nbitmap"
definition nblocks :: nat where "nblocks = FSSIZE - nmeta"

record mkfs =
  img :: "uint \<Rightarrow> byte list option"
  msb :: superblock
  freeinode :: uint
  freeblock :: uint

text \<open>The bytes of \<open>xshort(x)\<close> and \<open>xint(x)\<close> in memory, and the value a little-endian host reads there.\<close>

definition xshort :: "uint16 \<Rightarrow> uint16" where
  "xshort x = get16 0 [ucast x, ucast (drop_bit 8 x)]"

definition xint :: "uint \<Rightarrow> uint" where
  "xint x = get32 0 [ucast x, ucast (drop_bit 8 x), ucast (drop_bit 16 x), ucast (drop_bit 24 x)]"

definition die :: "string \<Rightarrow> (mkfs, 'a) km" where
  "die m = panic m"

definition wsect :: "uint \<Rightarrow> byte list \<Rightarrow> (mkfs, unit) km" where
  "wsect sec buf = modify (\<lambda>s. s\<lparr>img := (img s)(sec := Some buf)\<rparr>)"

definition rsect :: "uint \<Rightarrow> (mkfs, byte list) km" where
  "rsect sec = bnd (gets (\<lambda>s. img s sec)) (\<lambda>b. case b of None \<Rightarrow> die ''read'' | Some d \<Rightarrow> ret d)"

definition dinode0 :: inode where
  "dinode0 = \<lparr>idev = 0, inum = 0, iref = 0, is_valid = False, itype = 0, imajor = 0, iminor = 0, inlink = 0, isize = 0, addrs = (\<lambda>_. 0)\<rparr>"

definition winode :: "uint \<Rightarrow> inode \<Rightarrow> (mkfs, unit) km" where
  "winode i ip =
     bnd (gets msb) (\<lambda>S.
     let bn = IBLOCK i S in
     bnd (rsect bn) (\<lambda>buf.
     wsect bn (put_dinode (doff i) ip buf)))"

definition rinode :: "uint \<Rightarrow> (mkfs, inode) km" where
  "rinode i =
     bnd (gets msb) (\<lambda>S.
     let bn = IBLOCK i S in
     bnd (rsect bn) (\<lambda>buf.
     ret (get_dinode (doff i) buf dinode0)))"

definition mkfs_ialloc :: "uint \<Rightarrow> (mkfs, uint) km" where
  "mkfs_ialloc type =
     bnd (gets freeinode) (\<lambda>i.
     seq (modify (\<lambda>s. s\<lparr>freeinode := freeinode s + 1\<rparr>)) (
     seq (winode i (dinode0\<lparr>itype := ucast (xshort (ucast type)), inlink := xshort 1, isize := xint 0\<rparr>)) (
     ret i)))"

fun mark_used :: "nat \<Rightarrow> nat \<Rightarrow> byte list \<Rightarrow> byte list" where
  "mark_used i 0 buf = buf"
| "mark_used i (Suc n) buf = mark_used (Suc i) n (buf[i div 8 := buf ! (i div 8) OR push_bit (i mod 8) 1])"

definition mkfs_balloc :: "int \<Rightarrow> (mkfs, unit) km" where
  "mkfs_balloc n =
     (if \<not> n < int BSIZE * 8 then panic ''assert''
      else bnd (gets msb) (\<lambda>S. wsect (sb_bmapstart S) (mark_used 0 (nat n) (replicate BSIZE 0))))"

definition take_block :: "(mkfs, uint) km" where
  "take_block = bnd (gets freeblock) (\<lambda>b. seq (modify (\<lambda>s. s\<lparr>freeblock := freeblock s + 1\<rparr>)) (ret b))"

text \<open>The block of the file for block number \<open>fbn\<close>, allocated when it is missing, with the inode as changed.\<close>

definition iappend_block :: "nat \<Rightarrow> inode \<Rightarrow> (mkfs, inode \<times> uint) km" where
  "iappend_block fbn din =
     (if fbn < NDIRECT
      then bnd (if xint (addrs din fbn) = 0
                then bnd take_block (\<lambda>b. ret (din\<lparr>addrs := (addrs din)(fbn := xint b)\<rparr>)) else ret din) (\<lambda>din.
        ret (din, xint (addrs din fbn)))
      else
        bnd (if xint (addrs din NDIRECT) = 0
             then bnd take_block (\<lambda>b. ret (din\<lparr>addrs := (addrs din)(NDIRECT := xint b)\<rparr>)) else ret din) (\<lambda>din.
        bnd (rsect (xint (addrs din NDIRECT))) (\<lambda>indirect.
        bnd (if get32 (4 * (fbn - NDIRECT)) indirect = 0
             then bnd take_block (\<lambda>b.
               let indirect = put32 (4 * (fbn - NDIRECT)) (xint b) indirect in
               seq (wsect (xint (addrs din NDIRECT)) indirect) (ret indirect)) else ret indirect) (\<lambda>indirect.
        ret (din, xint (get32 (4 * (fbn - NDIRECT)) indirect))))))"

function iappend_loop :: "inode \<Rightarrow> uint \<Rightarrow> byte list \<Rightarrow> (mkfs, inode \<times> uint) km" where
  "iappend_loop din off p s =
     (if p = [] then Ok (din, off) s
      else if \<not> unat off div BSIZE < MAXFILE then Panic ''assert''
      else let fbn = unat off div BSIZE; n1 = min (length p) (BSIZE - unat off mod BSIZE) in
        bnd (iappend_block fbn din) (\<lambda>(din, x).
        bnd (rsect x) (\<lambda>buf.
        seq (wsect x (patch (unat off mod BSIZE) (take n1 p) buf)) (
        iappend_loop din (off + of_nat n1) (drop n1 p)))) s)"
  by pat_completeness auto
termination
  by (relation "measure (\<lambda>(din, off, p, s). length p)") (auto simp: BSIZE_def)

declare iappend_loop.simps [simp del]

definition iappend :: "uint \<Rightarrow> byte list \<Rightarrow> (mkfs, unit) km" where
  "iappend i p =
     bnd (rinode i) (\<lambda>din.
     bnd (iappend_loop din (xint (isize din)) p) (\<lambda>(din, off).
     winode i (din\<lparr>isize := xint off\<rparr>)))"

section \<open>The image\<close>

definition user_prefix :: "byte list" where
  "user_prefix = [0x75, 0x73, 0x65, 0x72, 0x2f]"

definition shortname :: "byte list \<Rightarrow> byte list" where
  "shortname path = (if take 5 path = user_prefix then drop 5 path else path)"

fun append_all :: "uint \<Rightarrow> byte list list \<Rightarrow> (mkfs, unit) km" where
  "append_all i [] = ret ()"
| "append_all i (c # cs) = seq (iappend i c) (append_all i cs)"

fun add_files :: "uint \<Rightarrow> (byte list \<times> byte list list) list \<Rightarrow> (mkfs, unit) km" where
  "add_files rootino [] = ret ()"
| "add_files rootino ((path, chunks) # fs) =
     (let name = shortname path in
      if 0x2f \<in> set name then panic ''assert''
      else
        let name = (case name of c # cs \<Rightarrow> if c = 0x5f then cs else name | [] \<Rightarrow> []) in
        bnd (mkfs_ialloc I_FILE) (\<lambda>i.
        seq (iappend rootino (put16 0 (xshort (ucast i)) (replicate 2 0) @ strncpy_name name)) (
        seq (append_all i chunks) (
        add_files rootino fs))))"

definition sb_bytes :: "superblock \<Rightarrow> byte list" where
  "sb_bytes S = puts32 0 [sb_magic S, sb_size S, sb_nblocks S, sb_ninodes S, sb_nlog S, sb_logstart S, sb_inodestart S, sb_bmapstart S]
     (replicate BSIZE 0)"

definition mkfs_sb :: superblock where
  "mkfs_sb = \<lparr>sb_magic = FSMAGIC, sb_size = xint (of_nat FSSIZE), sb_nblocks = xint (of_nat nblocks), sb_ninodes = xint (of_nat NINODES),
     sb_nlog = xint (of_nat nlog), sb_logstart = xint 2, sb_inodestart = xint (of_nat (2 + nlog)),
     sb_bmapstart = xint (of_nat (2 + nlog + ninodeblocks))\<rparr>"

text \<open>\<open>main\<close>, from the state of a new and empty image file; \<open>files\<close> are the arguments after the name of the image.\<close>

definition mkfs_init :: mkfs where
  "mkfs_init = \<lparr>img = (\<lambda>_. None), msb = mkfs_sb, freeinode = 1, freeblock = 0\<rparr>"

fun zero_sectors :: "nat \<Rightarrow> nat \<Rightarrow> (mkfs, unit) km" where
  "zero_sectors i 0 = ret ()"
| "zero_sectors i (Suc n) = seq (wsect (of_nat i) (replicate BSIZE 0)) (zero_sectors (Suc i) n)"

definition fix_root_size :: "uint \<Rightarrow> (mkfs, unit) km" where
  "fix_root_size rootino =
     bnd (rinode rootino) (\<lambda>din.
     let off = (xint (isize din) div 1024 + 1) * 1024 in
     winode rootino (din\<lparr>isize := xint off\<rparr>))"

definition mkfs_main :: "(byte list \<times> byte list list) list \<Rightarrow> (mkfs, unit) km" where
  "mkfs_main files =
     seq (modify (\<lambda>s. s\<lparr>msb := mkfs_sb\<rparr>)) (
     seq (modify (\<lambda>s. s\<lparr>freeblock := of_nat nmeta\<rparr>)) (
     seq (zero_sectors 0 FSSIZE) (
     seq (wsect 1 (sb_bytes mkfs_sb)) (
     bnd (mkfs_ialloc I_DIR) (\<lambda>rootino.
     if rootino \<noteq> ROOTINO then panic ''assert''
     else
       seq (iappend rootino (put16 0 (xshort (ucast rootino)) (replicate 2 0) @ strncpy_name [0x2e])) (
       seq (iappend rootino (put16 0 (xshort (ucast rootino)) (replicate 2 0) @ strncpy_name [0x2e, 0x2e])) (
       seq (add_files rootino files) (
       seq (fix_root_size rootino) (
       bnd (gets freeblock) (\<lambda>b. mkfs_balloc (sint b)))))))))))"


section \<open>Well-formed images\<close>

lemma xint_id [simp]: "xint x = x"
  using get32_put32 [of 0 "[0, 0, 0, 0]" x] by (simp add: xint_def put32_def)

lemma xshort_id [simp]: "xshort x = x"
  using get16_put16 [of 0 "[0, 0]" x] by (simp add: xshort_def put16_def)

lemma nmeta_val: "nmeta = 46" "nblocks = 1954"
  by (simp_all add: nmeta_def nblocks_def nlog_def ninodeblocks_def nbitmap_def LOGBLOCKS_def NINODES_def IPB_def FSSIZE_def BSIZE_def)

definition vimg :: "mkfs \<Rightarrow> uint \<Rightarrow> byte list" where
  "vimg s b = the (img s b)"

text \<open>
  \<open>mk_ok\<close>: the image has its 2000 blocks, and those not handed out yet are zero. \<open>fok\<close>: the first \<open>n\<close> blocks of a file are distinct data
  blocks below \<open>fb\<close>, other than its indirect block, and the file has no others.
\<close>

definition mk_ok :: "mkfs \<Rightarrow> bool" where
  "mk_ok s \<longleftrightarrow> msb s = mkfs_sb \<and> (\<forall>b. img s b = None \<longleftrightarrow> 2000 \<le> b) \<and> (\<forall>b d. img s b = Some d \<longrightarrow> length d = BSIZE) \<and>
     46 \<le> freeblock s \<and> freeblock s \<le> 2000 \<and> (\<forall>b. freeblock s \<le> b \<and> b < 2000 \<longrightarrow> img s b = Some (replicate BSIZE 0))"

definition data_blk :: "uint \<Rightarrow> uint \<Rightarrow> bool" where
  "data_blk fb b \<longleftrightarrow> 46 \<le> b \<and> b < fb"

definition blocks_ok :: "(uint \<Rightarrow> byte list) \<Rightarrow> uint \<Rightarrow> inode \<Rightarrow> nat \<Rightarrow> bool" where
  "blocks_ok v fb I n \<longleftrightarrow> n \<le> MAXFILE \<and> (\<forall>k<n. data_blk fb (fblock v I k)) \<and> inj_on (fblock v I) {..<n} \<and>
     (\<forall>k. n \<le> k \<and> k < NDIRECT \<longrightarrow> addrs I k = 0)"

definition indirect_ok :: "(uint \<Rightarrow> byte list) \<Rightarrow> uint \<Rightarrow> inode \<Rightarrow> nat \<Rightarrow> bool" where
  "indirect_ok v fb I n \<longleftrightarrow> data_blk fb (addrs I NDIRECT) \<and> addrs I NDIRECT \<notin> fblock v I ` {..<n} \<and> length (v (addrs I NDIRECT)) = BSIZE \<and>
     (\<forall>k. n \<le> k \<and> k < MAXFILE \<longrightarrow> get32 (4 * (k - NDIRECT)) (v (addrs I NDIRECT)) = 0)"

definition fok :: "(uint \<Rightarrow> byte list) \<Rightarrow> uint \<Rightarrow> inode \<Rightarrow> nat \<Rightarrow> bool" where
  "fok v fb I n \<longleftrightarrow> blocks_ok v fb I n \<and> (if n \<le> NDIRECT then addrs I NDIRECT = 0 else indirect_ok v fb I n)"

lemma data_blkD: "data_blk fb b \<Longrightarrow> b \<noteq> 0" "data_blk fb b \<Longrightarrow> fb \<le> 2000 \<Longrightarrow> b < 2000" "data_blk fb b \<Longrightarrow> fb \<le> fb' \<Longrightarrow> data_blk fb' b"
  by (auto simp: data_blk_def)

lemma mk_okD:
  assumes "mk_ok s" "b < 2000"
  shows "img s b = Some (vimg s b)" "length (vimg s b) = BSIZE"
  using assms by (auto simp: mk_ok_def vimg_def)

lemma rsect_run: "mk_ok s \<Longrightarrow> b < 2000 \<Longrightarrow> rsect b s = Ok (vimg s b) s"
  by (simp add: rsect_def mk_okD(1))

lemma wsect_run [simp]: "wsect b d s = Ok () (s\<lparr>img := (img s)(b := Some d)\<rparr>)"
  by (simp add: wsect_def)

lemma mk_ok_write: "mk_ok s \<Longrightarrow> b < freeblock s \<Longrightarrow> length d = BSIZE \<Longrightarrow> mk_ok (s\<lparr>img := (img s)(b := Some d)\<rparr>)"
  by (auto simp: mk_ok_def)

lemma vimg_write: "vimg (s\<lparr>img := (img s)(b := Some d)\<rparr>) = (vimg s)(b := d)"
  by (auto simp: vimg_def)

lemma take_block_run:
  assumes "mk_ok s" "freeblock s < 2000"
  shows "take_block s = Ok (freeblock s) (s\<lparr>freeblock := freeblock s + 1\<rparr>)" "mk_ok (s\<lparr>freeblock := freeblock s + 1\<rparr>)"
    "vimg (s\<lparr>freeblock := freeblock s + 1\<rparr>) = vimg s" "freeblock s < freeblock s + 1" "vimg s (freeblock s) = replicate BSIZE 0"
proof -
  show "take_block s = Ok (freeblock s) (s\<lparr>freeblock := freeblock s + 1\<rparr>)" by (simp add: take_block_def)
  have u: "unat (freeblock s + 1) = unat (freeblock s) + 1" using assms(2) by (simp add: unat_word_ariths word_less_nat_alt)
  then show "freeblock s < freeblock s + 1" by (simp add: word_less_nat_alt)
  show "mk_ok (s\<lparr>freeblock := freeblock s + 1\<rparr>)"
    using assms u by (auto simp: mk_ok_def word_le_nat_alt word_less_nat_alt)
  show "vimg (s\<lparr>freeblock := freeblock s + 1\<rparr>) = vimg s" by (simp add: vimg_def fun_eq_iff)
  show "vimg s (freeblock s) = replicate BSIZE 0" using assms by (auto simp: mk_ok_def vimg_def)
qed


section \<open>A new block for a file\<close>

lemma fblock_direct: "k < NDIRECT \<Longrightarrow> fblock v I k = addrs I k"
  by (simp add: fblock_def)

lemma add_direct:
  assumes "blocks_ok v fb I n" "n < NDIRECT" "46 \<le> fb" "fb < fb'"
  defines "J \<equiv> I\<lparr>addrs := (addrs I)(n := fb)\<rparr>"
  shows "blocks_ok v fb' J (Suc n)" "fblock v J n = fb" "\<forall>k<n. fblock v J k = fblock v I k"
proof -
  show f: "fblock v J n = fb" "\<forall>k<n. fblock v J k = fblock v I k" using assms(2) by (simp_all add: J_def fblock_def)
  have d: "\<forall>k<n. data_blk fb (fblock v I k)" "inj_on (fblock v I) {..<n}" using assms(1) by (auto simp: blocks_ok_def)
  have "\<forall>k<Suc n. data_blk fb' (fblock v J k)" using d(1) f assms(3,4) by (auto simp: less_Suc_eq data_blk_def)
  moreover have "inj_on (fblock v J) (insert n {..<n})"
    using d f unfolding inj_on_insert by (auto simp: inj_on_def data_blk_def)
  ultimately show "blocks_ok v fb' J (Suc n)"
    using assms(1,2) by (auto simp: blocks_ok_def lessThan_Suc J_def MAXFILE_def)
qed

lemma add_indirect:
  assumes "blocks_ok v fb I n" "indirect_ok v fb I n" "NDIRECT \<le> n" "n < MAXFILE" "46 \<le> fb" "fb < fb'"
  defines "a \<equiv> addrs I NDIRECT"
  defines "w \<equiv> v(a := put32 (4 * (n - NDIRECT)) fb (v a))"
  shows "blocks_ok w fb' I (Suc n)" "indirect_ok w fb' I (Suc n)" "fblock w I n = fb" "\<forall>k<n. fblock w I k = fblock v I k"
proof -
  have a: "data_blk fb a" "a \<notin> fblock v I ` {..<n}" "length (v a) = BSIZE"
    "\<And>k. n \<le> k \<Longrightarrow> k < MAXFILE \<Longrightarrow> get32 (4 * (k - NDIRECT)) (v a) = 0"
    using assms(2) by (auto simp: indirect_ok_def a_def)
  have sz: "4 * (n - NDIRECT) + 4 \<le> length (v a)" using assms(3,4) a(3) by (simp add: MAXFILE_def NINDIRECT_def BSIZE_def)
  have other: "get32 (4 * (k - NDIRECT)) (w a) = get32 (4 * (k - NDIRECT)) (v a)" if "k \<noteq> n" "NDIRECT \<le> k" for k
    unfolding w_def fun_upd_same by (rule get_put_other(4)) (use that assms(3) in arith)
  show n: "fblock w I n = fb" using assms(3) sz by (simp add: fblock_def a_def [symmetric] w_def get32_put32)
  show k: "\<forall>k<n. fblock w I k = fblock v I k" using other by (auto simp: fblock_def a_def [symmetric])
  have d: "\<forall>k<n. data_blk fb (fblock v I k)" "inj_on (fblock v I) {..<n}" using assms(1) by (auto simp: blocks_ok_def)
  have "\<forall>k<Suc n. data_blk fb' (fblock w I k)" using d(1) n k assms(5,6) by (auto simp: less_Suc_eq data_blk_def)
  moreover have "inj_on (fblock w I) (insert n {..<n})"
    using d n k unfolding inj_on_insert by (auto simp: inj_on_def data_blk_def)
  ultimately show "blocks_ok w fb' I (Suc n)" using assms(1,3,4) by (auto simp: blocks_ok_def lessThan_Suc)
  have "fb \<noteq> a" using a(1) by (auto simp: data_blk_def)
  then have "a \<notin> fblock w I ` {..<Suc n}" using a(2) n k by (auto simp: less_Suc_eq)
  moreover have "data_blk fb' a" using a(1) assms(6) by (auto simp: data_blk_def)
  moreover have "get32 (4 * (k - NDIRECT)) (w a) = 0" if "Suc n \<le> k" "k < MAXFILE" for k
    using other [of k] a(4) [of k] that assms(3) by simp
  moreover have "length (w a) = BSIZE" using a(3) by (simp add: w_def)
  ultimately show "indirect_ok w fb' I (Suc n)" by (simp add: indirect_ok_def a_def [symmetric])
qed

text \<open>The first block beyond the direct ones: the indirect block itself is new, and zero.\<close>

lemma get32_zero: "k + 4 \<le> m \<Longrightarrow> get32 k (replicate m 0) = 0"
  by (simp add: get32_def)

lemma add_table:
  assumes "blocks_ok v fb I NDIRECT" "46 \<le> fb" "fb < fb'" "v fb = replicate BSIZE 0"
  defines "J \<equiv> I\<lparr>addrs := (addrs I)(NDIRECT := fb)\<rparr>"
  shows "blocks_ok v fb' J NDIRECT" "indirect_ok v fb' J NDIRECT" "\<forall>k<NDIRECT. fblock v J k = fblock v I k"
proof -
  show k: "\<forall>k<NDIRECT. fblock v J k = fblock v I k" by (simp add: fblock_def J_def)
  have d: "\<forall>k<NDIRECT. data_blk fb (fblock v I k)" "inj_on (fblock v I) {..<NDIRECT}" using assms(1) by (auto simp: blocks_ok_def)
  have "inj_on (fblock v J) {..<NDIRECT}" using d(2) k by (auto simp: inj_on_def)
  then show "blocks_ok v fb' J NDIRECT" using d(1) k assms(3) by (auto simp: blocks_ok_def data_blk_def MAXFILE_def)
  have "fb \<notin> fblock v J ` {..<NDIRECT}" using d(1) k by (auto simp: data_blk_def)
  moreover have "get32 (4 * (k - NDIRECT)) (replicate BSIZE 0) = 0" if "k < MAXFILE" for k
    by (rule get32_zero) (use that in \<open>simp add: MAXFILE_def NINDIRECT_def BSIZE_def NDIRECT_def\<close>)
  ultimately show "indirect_ok v fb' J NDIRECT" using assms(2-4) by (auto simp: indirect_ok_def J_def data_blk_def)
qed


definition need :: "nat \<Rightarrow> nat \<Rightarrow> nat" where
  "need n m = (m - n) + (if n \<le> NDIRECT \<and> NDIRECT < m then 1 else 0)"

text \<open>
  \<open>img_grown s I n t J m\<close>: from a file with \<open>n\<close> blocks to one with \<open>m\<close>. The old blocks are where they were, with their contents, the inode
  differs in its addresses only, and nothing that was handed out before has changed but the indirect block.
\<close>

definition img_grown :: "mkfs \<Rightarrow> inode \<Rightarrow> nat \<Rightarrow> mkfs \<Rightarrow> inode \<Rightarrow> nat \<Rightarrow> bool" where
  "img_grown s I n t J m \<longleftrightarrow> mk_ok t \<and> fok (vimg t) (freeblock t) J m \<and> J = I\<lparr>addrs := addrs J\<rparr> \<and> freeinode t = freeinode s \<and>
     unat (freeblock t) = unat (freeblock s) + need n m \<and>
     (\<forall>k<n. fblock (vimg t) J k = fblock (vimg s) I k \<and> vimg t (fblock (vimg s) I k) = vimg s (fblock (vimg s) I k)) \<and>
     (\<forall>b. b < freeblock s \<and> \<not> (NDIRECT < n \<and> b = addrs I NDIRECT) \<longrightarrow> img t b = img s b) \<and>
     (\<forall>k. n \<le> k \<and> k < m \<longrightarrow> freeblock s \<le> fblock (vimg t) J k) \<and>
     (if NDIRECT < n then addrs J NDIRECT = addrs I NDIRECT else NDIRECT < m \<longrightarrow> freeblock s \<le> addrs J NDIRECT)"

lemma blockD:
  assumes "fok v fb I n" "k < n"
  shows "data_blk fb (fblock v I k)"
  using assms by (simp add: fok_def blocks_ok_def)

lemma block_present:
  assumes "mk_ok s" "fok (vimg s) (freeblock s) I n" "k < n"
  shows "iappend_block k I s = Ok (I, fblock (vimg s) I k) s"
proof -
  have f: "freeblock s \<le> 2000" using assms(1) by (simp add: mk_ok_def)
  have b: "fblock (vimg s) I k \<noteq> 0" using data_blkD(1) [OF blockD [OF assms(2,3)]] .
  show ?thesis
  proof (cases "k < NDIRECT")
    case True
    then show ?thesis using b by (simp add: iappend_block_def fblock_def)
  next
    case False
    then have "data_blk (freeblock s) (addrs I NDIRECT)" using assms(2,3) by (simp add: fok_def indirect_ok_def)
    then have "addrs I NDIRECT \<noteq> 0" "rsect (addrs I NDIRECT) s = Ok (vimg s (addrs I NDIRECT)) s"
      using data_blkD f rsect_run [OF assms(1)] by blast+
    then show ?thesis using b False by (simp add: iappend_block_def fblock_def)
  qed
qed

lemma grown_same: "mk_ok s \<Longrightarrow> fok (vimg s) (freeblock s) I n \<Longrightarrow> img_grown s I n s I n"
  by (auto simp: img_grown_def need_def)

lemma unat_Suc_fb: "fb < 2000 \<Longrightarrow> unat (fb + 1 :: uint) = Suc (unat fb)"
  by (simp add: unat_word_ariths word_less_nat_alt)

lemma grow_direct:
  assumes "mk_ok s" "fok (vimg s) (freeblock s) I n" "n < NDIRECT" "freeblock s < 2000"
  shows "\<exists>J t. iappend_block n I s = Ok (J, fblock (vimg t) J n) t \<and> img_grown s I n t J (Suc n) \<and> vimg t (fblock (vimg t) J n) = replicate BSIZE 0"
proof -
  let ?J = "I\<lparr>addrs := (addrs I)(n := freeblock s)\<rparr>" and ?t = "s\<lparr>freeblock := freeblock s + 1\<rparr>"
  note t = take_block_run [OF assms(1,4)]
  have b: "blocks_ok (vimg s) (freeblock s) I n" "addrs I n = 0" "addrs I NDIRECT = 0" "46 \<le> freeblock s"
    using assms(1-3) by (auto simp: fok_def blocks_ok_def mk_ok_def)
  note a = add_direct [OF b(1) assms(3) b(4) t(4)]
  have "iappend_block n I s = Ok (?J, freeblock s) ?t" using assms(3) b(2) t(1) by (simp add: iappend_block_def)
  moreover have "fok (vimg ?t) (freeblock ?t) ?J (Suc n)" using a(1) b(3) assms(3) t(3) by (simp add: fok_def)
  ultimately show ?thesis using a t unat_Suc_fb [OF assms(4)] assms(3)
    by (intro exI [of _ ?J] exI [of _ ?t]) (auto simp: img_grown_def need_def le_less_Suc_eq)
qed

lemma grow_indirect:
  assumes "mk_ok s" "blocks_ok (vimg s) (freeblock s) I n" "indirect_ok (vimg s) (freeblock s) I n" "NDIRECT \<le> n" "n < MAXFILE" "freeblock s < 2000"
  defines "t \<equiv> s\<lparr>freeblock := freeblock s + 1, img := (img s)(addrs I NDIRECT := Some (put32 (4 * (n - NDIRECT)) (freeblock s) (vimg s (addrs I NDIRECT))))\<rparr>"
  shows "iappend_block n I s = Ok (I, fblock (vimg t) I n) t" "mk_ok t" "fok (vimg t) (freeblock t) I (Suc n)"
    "\<forall>k<n. fblock (vimg t) I k = fblock (vimg s) I k \<and> vimg t (fblock (vimg s) I k) = vimg s (fblock (vimg s) I k)"
    "vimg t (fblock (vimg t) I n) = replicate BSIZE 0" "fblock (vimg t) I n = freeblock s"
proof -
  let ?a = "addrs I NDIRECT" and ?u = "s\<lparr>freeblock := freeblock s + 1\<rparr>"
  let ?d = "put32 (4 * (n - NDIRECT)) (freeblock s) (vimg s ?a)"
  note u = take_block_run [OF assms(1,6)]
  have fb: "46 \<le> freeblock s" "freeblock s \<le> 2000" using assms(1) by (simp_all add: mk_ok_def)
  have a: "data_blk (freeblock s) ?a" "?a \<notin> fblock (vimg s) I ` {..<n}" "length (vimg s ?a) = BSIZE" "get32 (4 * (n - NDIRECT)) (vimg s ?a) = 0"
    using assms(3,5) by (auto simp: indirect_ok_def)
  have vt: "vimg t = (vimg s)(?a := ?d)" using vimg_write [of ?u ?a ?d] u(3) by (simp add: t_def)
  note g = add_indirect [OF assms(2-5) fb(1) u(4), folded vt]
  show "mk_ok t" using mk_ok_write [OF u(2), of ?a ?d] a(1,3) u(4) by (auto simp: t_def data_blk_def)
  have r: "rsect ?a s = Ok (vimg s ?a) s" using rsect_run [OF assms(1)] data_blkD(2) [OF a(1) fb(2)] by blast
  have sz: "4 * (n - NDIRECT) + 4 \<le> length (vimg s ?a)" using assms(4,5) a(3) by (simp add: MAXFILE_def NINDIRECT_def BSIZE_def)
  show "iappend_block n I s = Ok (I, fblock (vimg t) I n) t"
    using assms(4) data_blkD(1) [OF a(1)] r a(4) u(1) g(3) get32_put32 [OF sz]
    by (simp add: iappend_block_def Let_def) (simp add: t_def)
  show "fok (vimg t) (freeblock t) I (Suc n)" using g(1,2) assms(4) by (simp add: fok_def) (simp add: t_def)
  show "\<forall>k<n. fblock (vimg t) I k = fblock (vimg s) I k \<and> vimg t (fblock (vimg s) I k) = vimg s (fblock (vimg s) I k)"
  proof (intro allI impI)
    fix k assume "k < n"
    then have "fblock (vimg s) I k \<noteq> ?a" using a(2) by force
    then show "fblock (vimg t) I k = fblock (vimg s) I k \<and> vimg t (fblock (vimg s) I k) = vimg s (fblock (vimg s) I k)"
      using g(4) \<open>k < n\<close> by (simp add: vt)
  qed
  show "vimg t (fblock (vimg t) I n) = replicate BSIZE 0" using g(3) u(5) a(1) by (auto simp: vt data_blk_def)
  show "fblock (vimg t) I n = freeblock s" by (rule g(3))
qed


lemma grow_one:
  assumes "mk_ok s" "fok (vimg s) (freeblock s) I n" "n < MAXFILE" "unat (freeblock s) + need n (Suc n) \<le> 2000"
  shows "\<exists>J t. iappend_block n I s = Ok (J, fblock (vimg t) J n) t \<and> img_grown s I n t J (Suc n) \<and> vimg t (fblock (vimg t) J n) = replicate BSIZE 0"
proof -
  have fb: "46 \<le> freeblock s" "freeblock s < 2000" using assms(1,4) by (simp_all add: mk_ok_def need_def word_less_nat_alt)
  consider "n < NDIRECT" | "NDIRECT < n" | "n = NDIRECT" by linarith
  then show ?thesis
  proof cases
    case 1
    then show ?thesis using grow_direct [OF assms(1,2) _ fb(2)] by blast
  next
    case 2
    then have o: "blocks_ok (vimg s) (freeblock s) I n" "indirect_ok (vimg s) (freeblock s) I n" "NDIRECT \<le> n"
      using assms(2) by (simp_all add: fok_def)
    let ?t = "s\<lparr>freeblock := freeblock s + 1, img := (img s)(addrs I NDIRECT := Some (put32 (4 * (n - NDIRECT)) (freeblock s) (vimg s (addrs I NDIRECT))))\<rparr>"
    note g = grow_indirect [OF assms(1) o assms(3) fb(2)]
    have "img_grown s I n ?t I (Suc n)" using g(2-4,6) 2 unat_Suc_fb [OF fb(2)] by (auto simp: img_grown_def need_def le_less_Suc_eq)
    then show ?thesis using g(1,5) by blast
  next
    case 3
    let ?u = "s\<lparr>freeblock := freeblock s + 1\<rparr>" and ?J = "I\<lparr>addrs := (addrs I)(NDIRECT := freeblock s)\<rparr>"
    note u = take_block_run [OF assms(1) fb(2)]
    have fb2: "freeblock ?u < 2000" using assms(4) 3 unat_Suc_fb [OF fb(2)] by (simp add: need_def word_less_nat_alt)
    have o: "blocks_ok (vimg s) (freeblock s) I NDIRECT" "addrs I NDIRECT = 0" using assms(2) 3 by (simp_all add: fok_def)
    note a = add_table [OF o(1) fb(1) u(4,5)]
    have a': "blocks_ok (vimg ?u) (freeblock ?u) ?J NDIRECT" "indirect_ok (vimg ?u) (freeblock ?u) ?J NDIRECT" using a(1,2) u(3) by simp_all
    let ?t = "?u\<lparr>freeblock := freeblock ?u + 1, img := (img ?u)(addrs ?J NDIRECT := Some (put32 (4 * (n - NDIRECT)) (freeblock ?u) (vimg ?u (addrs ?J NDIRECT))))\<rparr>"
    note g = grow_indirect [OF u(2) a' order_refl _ fb2]
    have "freeblock s \<noteq> 0" using fb(1) by auto
    then have "iappend_block n I s = iappend_block n ?J ?u"
      using 3 o(2) u(1) by (simp add: iappend_block_def)
    moreover have "img_grown s I n ?t ?J (Suc n)"
      using g(2-4,6) 3 a(3) u(3,4) unat_Suc_fb [OF fb(2)] unat_Suc_fb [OF fb2] assms(3) by (auto simp: img_grown_def need_def le_less_Suc_eq)
    ultimately show ?thesis using g(1,5) 3 assms(3) by auto
  qed
qed


section \<open>Appending to a file\<close>

lemma fok_data:
  assumes "fok v fb I n" "q < n"
  defines "x \<equiv> fblock v I q"
  shows "NDIRECT < n \<Longrightarrow> x \<noteq> addrs I NDIRECT" "k < n \<Longrightarrow> fblock (v(x := d)) I k = fblock v I k"
    "length d = BSIZE \<Longrightarrow> fok (v(x := d)) fb I n"
proof -
  have a: "x \<noteq> addrs I NDIRECT" if "NDIRECT < n"
  proof -
    have "addrs I NDIRECT \<notin> fblock v I ` {..<n}" using assms(1) that by (simp add: fok_def indirect_ok_def)
    then show ?thesis using assms(2) unfolding x_def by force
  qed
  then show "NDIRECT < n \<Longrightarrow> x \<noteq> addrs I NDIRECT" .
  have f: "fblock (v(x := d)) I k = fblock v I k" if "k < n" for k using a that by (auto simp: fblock_def)
  then show "k < n \<Longrightarrow> fblock (v(x := d)) I k = fblock v I k" .
  have i: "fblock (v(x := d)) I ` {..<n} = fblock v I ` {..<n}" "inj_on (fblock (v(x := d)) I) {..<n} = inj_on (fblock v I) {..<n}"
    using f by (auto intro!: image_cong inj_on_cong)
  have "blocks_ok (v(x := d)) fb I n" using assms(1) f i(2) by (simp add: fok_def blocks_ok_def)
  moreover have "indirect_ok (v(x := d)) fb I n" if "NDIRECT < n"
    using assms(1) a [OF that] that by (simp add: fok_def indirect_ok_def i(1))
  ultimately show "fok (v(x := d)) fb I n" if "length d = BSIZE" using assms(1) by (simp add: fok_def)
qed

lemma content_write:
  assumes "fok v fb I n" "q < n" "\<forall>k<n. length (v (fblock v I k)) = BSIZE" "r + length bs \<le> BSIZE"
  defines "x \<equiv> fblock v I q"
  shows "content (v(x := patch r bs (v x))) I n = patch (BSIZE * q + r) bs (content v I n)"
proof -
  let ?w = "v(x := patch r bs (v x))" and ?f = "\<lambda>k. v (fblock v I k)"
  have k: "fblock ?w I k = fblock v I k" if "k < n" for k
    using fok_data(2) [OF assms(1,2) that] by (simp add: x_def)
  have inj: "inj_on (fblock v I) {..<n}" using assms(1) by (simp add: fok_def blocks_ok_def)
  have "?w (fblock ?w I k) = (?f(q := patch r bs (?f q))) k" if "k < n" for k
  proof (cases "k = q")
    case False
    then have "fblock v I k \<noteq> x" using inj_onD [OF inj, of k q] that assms(2) by (auto simp: x_def)
    then show ?thesis using k [OF that] False by simp
  qed (use k [OF that] in \<open>simp add: x_def\<close>)
  then have "content ?w I n = concat (map (?f(q := patch r bs (?f q))) [0..<n])"
    unfolding content_def by (intro arg_cong [of _ _ concat] map_cong) simp_all
  then show ?thesis using patch_blocks [OF assms(3,2,4)] by (simp add: content_def)
qed

lemma content_grown: "img_grown s I n t J m \<Longrightarrow> content (vimg t) J n = content (vimg s) I n"
  unfolding content_def by (intro arg_cong [of _ _ concat] map_cong) (auto simp: img_grown_def)

text \<open>The blocks of a file, its indirect block included.\<close>

definition own :: "(uint \<Rightarrow> byte list) \<Rightarrow> inode \<Rightarrow> nat \<Rightarrow> uint set" where
  "own v I n = fblock v I ` {..<n} \<union> (if NDIRECT < n then {addrs I NDIRECT} else {})"

text \<open>The number of blocks of a file of \<open>b\<close> bytes.\<close>

definition nblk :: "nat \<Rightarrow> nat" where
  "nblk b = (b + 1023) div 1024"

text \<open>A file of the bytes \<open>bs\<close>: its blocks are in order, and hold \<open>bs\<close> followed by zeros.\<close>

definition pad :: "byte list \<Rightarrow> byte list" where
  "pad bs = bs @ replicate (BSIZE * nblk (length bs) - length bs) 0"

definition holds :: "mkfs \<Rightarrow> inode \<Rightarrow> byte list \<Rightarrow> bool" where
  "holds s I bs \<longleftrightarrow> fok (vimg s) (freeblock s) I (nblk (length bs)) \<and> content (vimg s) I (nblk (length bs)) = pad bs"

definition appended :: "mkfs \<Rightarrow> inode \<Rightarrow> byte list \<Rightarrow> byte list \<Rightarrow> mkfs \<Rightarrow> inode \<Rightarrow> bool" where
  "appended s I bs p t J \<longleftrightarrow> mk_ok t \<and> holds t J (bs @ p) \<and> J = I\<lparr>addrs := addrs J\<rparr> \<and> freeinode t = freeinode s \<and>
     unat (freeblock t) = unat (freeblock s) + need (nblk (length bs)) (nblk (length bs + length p)) \<and>
     (\<forall>c. c < freeblock s \<and> c \<notin> own (vimg s) I (nblk (length bs)) \<longrightarrow>
        img t c = img s c \<and> c \<notin> own (vimg t) J (nblk (length bs + length p)))"

lemma need_trans: "n \<le> m \<Longrightarrow> m \<le> l \<Longrightarrow> need n l = need n m + need m l"
  by (auto simp: need_def)

lemma nblk_mono: "a \<le> b \<Longrightarrow> nblk a \<le> nblk b"
  by (simp add: nblk_def div_le_mono)

lemma appended_trans:
  assumes "appended s I bs p t J" "appended t J (bs @ p) q u K"
  shows "appended s I bs (p @ q) u K"
proof -
  have fb: "freeblock s \<le> freeblock t" using assms(1) by (simp add: appended_def word_le_nat_alt)
  have "K = I\<lparr>addrs := addrs K\<rparr>" using assms by (metis appended_def inode.surjective inode.update_convs(10))
  moreover have "unat (freeblock u) = unat (freeblock s) + need (nblk (length bs)) (nblk (length bs + length (p @ q)))"
    using assms need_trans [of "nblk (length bs)" "nblk (length bs + length p)" "nblk (length bs + length p + length q)"]
    by (simp add: appended_def add.assoc nblk_mono)
  moreover have "\<forall>c. c < freeblock s \<and> c \<notin> own (vimg s) I (nblk (length bs)) \<longrightarrow>
      img u c = img s c \<and> c \<notin> own (vimg u) K (nblk (length bs + length (p @ q)))"
    using assms fb unfolding appended_def by (auto simp: add.assoc)
  ultimately show ?thesis using assms(2) unfolding appended_def using assms(1) by (auto simp: appended_def)
qed

lemma nblk_next:
  assumes "0 < l" "b mod 1024 + l \<le> 1024"
  shows "nblk (b + l) = Suc (b div 1024)"
proof -
  have "b + l + 1023 = (b mod 1024 + l - 1) + 1024 * Suc (b div 1024)" using assms(1) mod_mult_div_eq [of b 1024] by simp
  then have "nblk (b + l) = (b mod 1024 + l - 1) div 1024 + Suc (b div 1024)" unfolding nblk_def by (simp only: div_mult_self2)
  then show ?thesis using assms by simp
qed

lemma nblk_cases: "nblk b = (if b mod 1024 = 0 then b div 1024 else Suc (b div 1024))"
  using nblk_next [of "b mod 1024" "b - b mod 1024"] by (auto simp: nblk_def minus_mod_eq_mult_div)

lemma iappend_place:
  assumes "mk_ok s" "fok (vimg s) (freeblock s) I (nblk b)" "b div 1024 < MAXFILE" "unat (freeblock s) + need (nblk b) (Suc (b div 1024)) \<le> 2000"
  defines "q \<equiv> b div 1024"
  shows "\<exists>J t. iappend_block q I s = Ok (J, fblock (vimg t) J q) t \<and> img_grown s I (nblk b) t J (Suc q) \<and>
    content (vimg t) J (Suc q) = content (vimg s) I (nblk b) @ replicate (BSIZE * (Suc q - nblk b)) 0"
proof (cases "b mod 1024 = 0")
  case True
  then have n: "nblk b = q" by (simp add: nblk_cases q_def)
  obtain J t where t: "iappend_block q I s = Ok (J, fblock (vimg t) J q) t" "img_grown s I q t J (Suc q)" "vimg t (fblock (vimg t) J q) = replicate BSIZE 0"
    using grow_one [OF assms(1) assms(2)] assms(3,4) unfolding n q_def by blast
  have "content (vimg t) J (Suc q) = content (vimg t) J q @ vimg t (fblock (vimg t) J q)" by (simp add: content_def)
  then show ?thesis using t content_grown [OF t(2)] by (intro exI [of _ J] exI [of _ t]) (simp add: n)
next
  case False
  then have n: "nblk b = Suc q" by (simp add: nblk_cases q_def)
  then show ?thesis using block_present [OF assms(1,2), of q] grown_same [OF assms(1,2)] by auto
qed

lemma own_grown:
  assumes "img_grown s I n t J m" "c < freeblock s" "c \<notin> own (vimg s) I n" "n \<le> m"
  shows "c \<notin> own (vimg t) J m" "img t c = img s c"
proof -
  have k: "fblock (vimg t) J k \<noteq> c" if "k < m" for k
  proof (cases "k < n")
    case True
    then show ?thesis using assms(1,3) by (auto simp: img_grown_def own_def)
  next
    case False
    then have "freeblock s \<le> fblock (vimg t) J k" using assms(1) that by (simp add: img_grown_def)
    then show ?thesis using assms(2) by auto
  qed
  moreover have "addrs J NDIRECT \<noteq> c" if "NDIRECT < m"
  proof (cases "NDIRECT < n")
    case True
    then show ?thesis using assms(1,3) by (auto simp: img_grown_def own_def)
  next
    case False
    then have "freeblock s \<le> addrs J NDIRECT" using assms(1) that by (simp add: img_grown_def)
    then show ?thesis using assms(2) by auto
  qed
  ultimately show "c \<notin> own (vimg t) J m" by (auto simp: own_def)
  show "img t c = img s c" using assms(1,2,3) by (auto simp: img_grown_def own_def)
qed

lemma patch_pad:
  assumes "0 < length p" "length bs mod 1024 + length p \<le> 1024" "q = length bs div 1024" "n = nblk (length bs)"
  shows "patch (length bs) p (pad bs @ replicate (BSIZE * (Suc q - n)) 0) = pad (bs @ p)"
proof -
  let ?z = "BSIZE * n - length bs + BSIZE * (Suc q - n)"
  have "n \<le> Suc q" using assms(3,4) by (simp add: nblk_cases)
  moreover have "length bs \<le> BSIZE * n" using assms(4) by (simp add: nblk_def BSIZE_def)
  ultimately have n: "n \<le> Suc q" "length bs \<le> BSIZE * n" .
  have "nblk (length (bs @ p)) = Suc q" using nblk_next [OF assms(1,2)] assms(3) by simp
  moreover have "?z = BSIZE * Suc q - length bs" using n by (simp add: diff_mult_distrib2) (simp add: algebra_simps BSIZE_def)
  moreover have "pad bs @ replicate (BSIZE * (Suc q - n)) 0 = bs @ replicate ?z 0"
    using assms(4) by (simp add: pad_def replicate_add)
  ultimately show ?thesis by (simp add: patch_def pad_def)
qed

lemma iappend_round:
  assumes "mk_ok s" "holds s I bs" "length bs div 1024 < MAXFILE"
    "unat (freeblock s) + need (nblk (length bs)) (Suc (length bs div 1024)) \<le> 2000" "p \<noteq> []" "length bs mod 1024 + length p \<le> 1024"
  defines "q \<equiv> length bs div 1024" and "r \<equiv> length bs mod 1024"
  shows "\<exists>J t x buf. iappend_block q I s = Ok (J, x) t \<and> rsect x t = Ok buf t \<and>
    appended s I bs p (t\<lparr>img := (img t)(x := Some (patch r p buf))\<rparr>) J"
proof -
  let ?n = "nblk (length bs)"
  have hs: "fok (vimg s) (freeblock s) I ?n" "content (vimg s) I ?n = pad bs" using assms(2) by (simp_all add: holds_def)
  obtain J t where t: "iappend_block q I s = Ok (J, fblock (vimg t) J q) t" "img_grown s I ?n t J (Suc q)"
    and c: "content (vimg t) J (Suc q) = pad bs @ replicate (BSIZE * (Suc q - ?n)) 0"
    using iappend_place [OF assms(1) hs(1) assms(3,4)] hs(2) by (auto simp: q_def)
  let ?x = "fblock (vimg t) J q"
  have g: "mk_ok t" "fok (vimg t) (freeblock t) J (Suc q)" "freeblock t \<le> 2000" using t(2) by (auto simp: img_grown_def mk_ok_def)
  have x: "data_blk (freeblock t) ?x" "?x < 2000" using blockD [OF g(2), of q] data_blkD(2) g(3) by auto
  have len: "\<forall>k<Suc q. length (vimg t (fblock (vimg t) J k)) = BSIZE"
    using mk_okD(2) [OF g(1)] data_blkD(2) [OF blockD [OF g(2)] g(3)] by blast
  define u where "u = t\<lparr>img := (img t)(?x := Some (patch r p (vimg t ?x)))\<rparr>"
  have l: "length (patch r p (vimg t ?x)) = BSIZE" using patch_length [of r p "vimg t ?x"] len assms(6) by (simp add: r_def BSIZE_def)
  have vu: "vimg u = (vimg t)(?x := patch r p (vimg t ?x))" by (simp add: u_def vimg_write)
  have mu: "mk_ok u" using mk_ok_write [OF g(1) _ l, of ?x] x(1) by (simp add: u_def data_blk_def)
  have n': "nblk (length bs + length p) = Suc q" using nblk_next [of "length p" "length bs"] assms(5,6) by (simp add: q_def)
  have bq: "BSIZE * q + r = length bs" by (simp add: q_def r_def BSIZE_def mult.commute)
  have "content (vimg u) J (Suc q) = patch (length bs) p (content (vimg t) J (Suc q))"
    unfolding vu using content_write [OF g(2) lessI len, of r p] assms(6) bq by (simp add: r_def BSIZE_def)
  also have "\<dots> = pad (bs @ p)" unfolding c by (rule patch_pad) (use assms(5,6) in \<open>simp_all add: q_def\<close>)
  finally have hu: "holds u J (bs @ p)" using fok_data(3) [OF g(2) lessI l] vu n' by (simp add: holds_def) (simp add: u_def)
  have "own (vimg u) J (Suc q) = own (vimg t) J (Suc q)"
    using fok_data(2) [OF g(2) lessI] by (auto simp: own_def vu intro!: image_cong)
  moreover have "img u c = img t c" if "c \<notin> own (vimg t) J (Suc q)" for c using that by (auto simp: u_def own_def)
  moreover have "?n \<le> Suc q" by (simp add: nblk_cases q_def)
  ultimately have "appended s I bs p u J"
    unfolding appended_def n' using mu hu t(2) own_grown [OF t(2)] by (auto simp: img_grown_def u_def)
  then show ?thesis using t(1) rsect_run [OF g(1) x(2)] unfolding u_def by blast
qed


lemma appended_Nil: "mk_ok s \<Longrightarrow> holds s I bs \<Longrightarrow> appended s I bs [] s I"
  by (simp add: appended_def need_def)

lemma iappend_loop_ok:
  assumes "mk_ok s" "holds s I bs" "length bs + length p \<le> BSIZE * MAXFILE"
    "unat (freeblock s) + need (nblk (length bs)) (nblk (length bs + length p)) \<le> 2000"
  shows "\<exists>J t. iappend_loop I (of_nat (length bs)) p s = Ok (J, of_nat (length bs + length p)) t \<and> appended s I bs p t J"
  using assms
proof (induction "length p" arbitrary: p s I bs rule: less_induct)
  case less
  let ?b = "length bs"
  have ub: "unat (of_nat ?b :: uint) = ?b" using less.prems(3) by (simp add: unat_of_nat BSIZE_def MAXFILE_def NDIRECT_def NINDIRECT_def)
  show ?case
  proof (cases "p = []")
    case True
    then show ?thesis using appended_Nil [OF less.prems(1,2)] by (subst iappend_loop.simps) simp
  next
    case False
    define n1 where "n1 = min (length p) (BSIZE - ?b mod BSIZE)"
    let ?p1 = "take n1 p" and ?p2 = "drop n1 p"
    have n1: "0 < n1" "n1 \<le> length p" "?b mod 1024 + n1 \<le> 1024" "length ?p1 = n1" "?p1 \<noteq> []"
      using False by (auto simp: n1_def BSIZE_def)
    have q: "?b div 1024 < MAXFILE" "nblk (?b + n1) = Suc (?b div 1024)"
      using less.prems(3) False n1 nblk_next [of n1 ?b] by (auto simp: BSIZE_def div_less_iff_less_mult mult.commute)
    have m: "nblk ?b \<le> nblk (?b + n1)" "nblk (?b + n1) \<le> nblk (?b + length p)" using n1(2) by (simp_all add: nblk_mono)
    note nt = need_trans [OF m]
    have room: "unat (freeblock s) + need (nblk ?b) (Suc (?b div 1024)) \<le> 2000" using less.prems(4) nt q(2) by simp
    obtain J t x buf where r: "iappend_block (?b div 1024) I s = Ok (J, x) t" "rsect x t = Ok buf t"
      "appended s I bs ?p1 (t\<lparr>img := (img t)(x := Some (patch (?b mod 1024) ?p1 buf))\<rparr>) J" (is "appended _ _ _ _ ?u _")
      using iappend_round [OF less.prems(1,2) q(1) room n1(5)] n1(3,4) by auto
    have u: "mk_ok ?u" "holds ?u J (bs @ ?p1)" "unat (freeblock ?u) = unat (freeblock s) + need (nblk ?b) (nblk (?b + n1))"
      using r(3) n1(4) by (auto simp: appended_def)
    have step: "iappend_loop I (of_nat ?b) p s = iappend_loop J (of_nat (length (bs @ ?p1))) ?p2 ?u"
      using False q(1) r(1,2) n1(2)
      by (subst iappend_loop.simps) (simp add: ub BSIZE_def n1_def [unfolded BSIZE_def, symmetric] Let_def min_absorb2)
    have "\<exists>K w. iappend_loop J (of_nat (length (bs @ ?p1))) ?p2 ?u = Ok (K, of_nat (length (bs @ ?p1) + length ?p2)) w \<and> appended ?u J (bs @ ?p1) ?p2 w K"
      by (rule less.hyps [OF _ u(1,2)]) (use n1 less.prems(3,4) u(3) nt in simp_all)
    then obtain K w where "iappend_loop I (of_nat ?b) p s = Ok (K, of_nat (?b + length p)) w" "appended ?u J (bs @ ?p1) ?p2 w K"
      unfolding step using n1 by auto
    then show ?thesis using appended_trans [OF r(3)] by (metis append_take_drop_id)
  qed
qed

section \<open>The files of an image\<close>

lemma fblock_cong: "\<forall>k\<le>NDIRECT. addrs J k = addrs I k \<Longrightarrow> fblock v J = fblock v I"
  by (auto simp: fblock_def fun_eq_iff)

lemma holds_addrs:
  assumes "\<forall>k\<le>NDIRECT. addrs J k = addrs I k"
  shows "holds s J bs = holds s I bs" "own v J n = own v I n"
proof -
  have f: "fblock v J = fblock v I" for v by (rule fblock_cong [OF assms])
  show "holds s J bs = holds s I bs"
    unfolding holds_def fok_def blocks_ok_def indirect_ok_def content_def f using assms by auto
  show "own v J n = own v I n" unfolding own_def f using assms by simp
qed

lemma holds_same:
  assumes "holds s I bs" "\<forall>c \<in> own (vimg s) I (nblk (length bs)). img t c = img s c" "freeblock s \<le> freeblock t"
  shows "holds t I bs" "own (vimg t) I (nblk (length bs)) = own (vimg s) I (nblk (length bs))"
proof -
  let ?n = "nblk (length bs)"
  have v: "vimg t c = vimg s c" if "c \<in> own (vimg s) I ?n" for c using assms(2) that by (simp add: vimg_def)
  have a: "vimg t (addrs I NDIRECT) = vimg s (addrs I NDIRECT)" if "NDIRECT < ?n" using v that by (simp add: own_def)
  have f: "fblock (vimg t) I k = fblock (vimg s) I k" if "k < ?n" for k
    using a that by (cases "k < NDIRECT") (auto simp: fblock_def)
  have i: "fblock (vimg t) I ` {..<?n} = fblock (vimg s) I ` {..<?n}" "inj_on (fblock (vimg t) I) {..<?n} = inj_on (fblock (vimg s) I) {..<?n}"
    using f by (auto intro!: image_cong inj_on_cong)
  show "own (vimg t) I ?n = own (vimg s) I ?n" by (simp add: own_def i(1))
  have d: "data_blk (freeblock t) c" if "data_blk (freeblock s) c" for c using data_blkD(3) [OF that assms(3)] .
  have "blocks_ok (vimg t) (freeblock t) I ?n" using assms(1) f d i(2) by (simp add: holds_def fok_def blocks_ok_def)
  moreover have "indirect_ok (vimg t) (freeblock t) I ?n" if "NDIRECT < ?n"
    using assms(1) a [OF that] that d i(1) by (simp add: holds_def fok_def indirect_ok_def)
  moreover have "content (vimg t) I ?n = content (vimg s) I ?n"
    unfolding content_def using f v by (intro arg_cong [of _ _ concat] map_cong) (auto simp: own_def)
  ultimately show "holds t I bs" using assms(1) by (simp add: holds_def fok_def)
qed


definition minode :: "mkfs \<Rightarrow> uint \<Rightarrow> inode" where
  "minode s i = get_dinode (doff i) (vimg s (IBLOCK i mkfs_sb)) dinode0"

lemma mkfs_sb_fields:
  "sb_inodestart mkfs_sb = 32" "sb_bmapstart mkfs_sb = 45" "sb_size mkfs_sb = 2000" "sb_magic mkfs_sb = FSMAGIC" "sb_logstart mkfs_sb = 2"
  by (simp_all add: mkfs_sb_def nlog_def ninodeblocks_def LOGBLOCKS_def NINODES_def IPB_def FSSIZE_def)

lemma iblock_nat: "i < 200 \<Longrightarrow> unat (IBLOCK i mkfs_sb) = unat i div 16 + 32"
  by (simp add: IBLOCK_def mkfs_sb_fields unat_word_ariths unat_div word_less_nat_alt)

lemma iblock_meta: "i < 200 \<Longrightarrow> IBLOCK i mkfs_sb < 46"
  using iblock_nat [of i] by (simp add: word_less_nat_alt)

lemma own_data: "holds s I bs \<Longrightarrow> c \<in> own (vimg s) I (nblk (length bs)) \<Longrightarrow> data_blk (freeblock s) c"
  by (auto simp: holds_def own_def fok_def blocks_ok_def indirect_ok_def split: if_splits)

lemma holds_meta:
  assumes "holds s I bs" "b < 46"
  shows "holds (s\<lparr>img := (img s)(b := Some d)\<rparr>) I bs" "own (vimg (s\<lparr>img := (img s)(b := Some d)\<rparr>)) I (nblk (length bs)) = own (vimg s) I (nblk (length bs))"
proof -
  have "\<forall>c \<in> own (vimg s) I (nblk (length bs)). img (s\<lparr>img := (img s)(b := Some d)\<rparr>) c = img s c"
    using own_data [OF assms(1)] assms(2) by (fastforce simp: data_blk_def)
  from holds_same [OF assms(1) this] show "holds (s\<lparr>img := (img s)(b := Some d)\<rparr>) I bs"
    "own (vimg (s\<lparr>img := (img s)(b := Some d)\<rparr>)) I (nblk (length bs)) = own (vimg s) I (nblk (length bs))" by simp_all
qed

lemma winode_run:
  fixes J :: inode
  assumes "mk_ok s" "i < 200"
  defines "t \<equiv> s\<lparr>img := (img s)(IBLOCK i mkfs_sb := Some (put_dinode (doff i) J (vimg s (IBLOCK i mkfs_sb))))\<rparr>"
  shows "winode i J s = Ok () t" "mk_ok t" "minode t i = on_disk J dinode0" "j < 200 \<Longrightarrow> j \<noteq> i \<Longrightarrow> minode t j = minode s j"
proof -
  let ?b = "IBLOCK i mkfs_sb"
  have b: "?b < 46" by (rule iblock_meta [OF assms(2)])
  have f: "46 \<le> freeblock s" "msb s = mkfs_sb" using assms(1) by (simp_all add: mk_ok_def)
  have b2: "?b < 2000" using b by (simp add: word_less_nat_alt)
  note r = rsect_run [OF assms(1) b2] and l = mk_okD(2) [OF assms(1) b2]
  show "winode i J s = Ok () t" using r f(2) by (simp add: winode_def t_def Let_def)
  show "mk_ok t" unfolding t_def by (rule mk_ok_write [OF assms(1)]) (use b f l in auto)
  have v: "vimg t = (vimg s)(?b := put_dinode (doff i) J (vimg s ?b))" by (simp add: t_def vimg_write)
  have "doff i + 64 \<le> length (vimg s ?b)" using l doff_bound by simp
  then show "minode t i = on_disk J dinode0" by (simp add: minode_def v get_put_dinode)
  show "minode t j = minode s j" if "j < 200" "j \<noteq> i"
  proof (cases "IBLOCK j mkfs_sb = ?b")
    case True
    then have "doff j + 64 \<le> doff i \<or> doff i + 64 \<le> doff j" using doff_apart that(2) by blast
    then show ?thesis by (simp add: minode_def v True get_put_dinode_other)
  qed (simp add: minode_def v)
qed

lemma rinode_run: "mk_ok s \<Longrightarrow> i < 200 \<Longrightarrow> rinode i s = Ok (minode s i) s"
  using iblock_meta [of i] rsect_run [of s "IBLOCK i mkfs_sb"]
  by (auto simp: rinode_def minode_def mk_ok_def Let_def word_less_nat_alt)

text \<open>
  File \<open>i\<close> of the image holds \<open>bs\<close>; \<open>fown\<close> are its blocks.
\<close>

definition file_is :: "mkfs \<Rightarrow> uint \<Rightarrow> byte list \<Rightarrow> bool" where
  "file_is s i bs \<longleftrightarrow> holds s (minode s i) bs \<and> isize (minode s i) = of_nat (length bs) \<and> length bs \<le> BSIZE * MAXFILE"

definition fown :: "mkfs \<Rightarrow> uint \<Rightarrow> uint set" where
  "fown s i = own (vimg s) (minode s i) (nblk (unat (isize (minode s i))))"

lemma file_size: "file_is s i bs \<Longrightarrow> unat (isize (minode s i)) = length bs"
  by (simp add: file_is_def unat_of_nat BSIZE_def MAXFILE_def NDIRECT_def NINDIRECT_def)

lemma fown_eq: "file_is s i bs \<Longrightarrow> fown s i = own (vimg s) (minode s i) (nblk (length bs))"
  using file_size [of s i bs] by (simp add: fown_def)


lemma appended_meta:
  assumes "appended s I bs p t J" "mk_ok s" "holds s I bs" "c < 46"
  shows "img t c = img s c"
proof -
  have "c < freeblock s" using assms(2,4) by (auto simp: mk_ok_def)
  moreover have "c \<notin> own (vimg s) I (nblk (length bs))" using own_data [OF assms(3)] assms(4) by (fastforce simp: data_blk_def)
  ultimately show ?thesis using assms(1) by (auto simp: appended_def)
qed

lemma appended_minode:
  assumes "appended s I bs p t J" "mk_ok s" "holds s I bs" "j < 200"
  shows "minode t j = minode s j"
  using appended_meta [OF assms(1-3) iblock_meta [OF assms(4)]] by (simp add: minode_def vimg_def)

lemma appended_other:
  assumes "appended s I bs p t J" "holds s K cs" "own (vimg s) K (nblk (length cs)) \<inter> own (vimg s) I (nblk (length bs)) = {}"
  shows "holds t K cs" "own (vimg t) K (nblk (length cs)) = own (vimg s) K (nblk (length cs))"
    "own (vimg s) K (nblk (length cs)) \<inter> own (vimg t) J (nblk (length bs + length p)) = {}"
proof -
  let ?o = "own (vimg s) K (nblk (length cs))"
  have c: "c < freeblock s \<and> c \<notin> own (vimg s) I (nblk (length bs))" if "c \<in> ?o" for c
    using own_data [OF assms(2) that] assms(3) that by (auto simp: data_blk_def)
  have "\<forall>c\<in>?o. img t c = img s c" "freeblock s \<le> freeblock t" using assms(1) c by (auto simp: appended_def word_le_nat_alt)
  from holds_same [OF assms(2) this] show "holds t K cs" "own (vimg t) K (nblk (length cs)) = ?o" .
  show "?o \<inter> own (vimg t) J (nblk (length bs + length p)) = {}" using assms(1) c by (auto simp: appended_def)
qed

text \<open>The type and link count of an inode as the disk holds them.\<close>

lemma minode_type: "\<exists>x :: uint16. itype (minode s i) = scast x"
  by (auto simp: minode_def get_dinode_def)

lemma short_of_int: "ucast (scast (x :: uint16) :: uint) = x" "ucast (ucast x :: uint) = x"
  by (rule bit_word_eqI, auto simp: bit_simps)+

lemma on_disk_minode:
  "itype (on_disk (minode s i\<lparr>isize := n, addrs := a\<rparr>) K) = itype (minode s i)"
  using minode_type [of s i] by (auto simp: on_disk_def short_of_int)

text \<open>
  \<open>extended s i bs p t\<close>: from \<open>s\<close> to \<open>t\<close> the bytes \<open>p\<close> came to the end of file \<open>i\<close>, which held \<open>bs\<close>. Its type is kept, the free block has moved
  by the blocks the growth needs, and every file that shares no block with it keeps its contents, its inode and its blocks, and still shares none.
\<close>

definition extended :: "mkfs \<Rightarrow> uint \<Rightarrow> byte list \<Rightarrow> byte list \<Rightarrow> mkfs \<Rightarrow> bool" where
  "extended s i bs p t \<longleftrightarrow> mk_ok t \<and> file_is t i (bs @ p) \<and> itype (minode t i) = itype (minode s i) \<and> inlink (minode t i) = inlink (minode s i) \<and>
     freeinode t = freeinode s \<and> unat (freeblock t) = unat (freeblock s) + need (nblk (length bs)) (nblk (length bs + length p)) \<and>
     img t 1 = img s 1 \<and>
     (\<forall>j cs. j < 200 \<and> j \<noteq> i \<and> file_is s j cs \<and> fown s j \<inter> fown s i = {} \<longrightarrow>
        file_is t j cs \<and> minode t j = minode s j \<and> fown t j = fown s j \<and> fown t j \<inter> fown t i = {})"

lemma extendedD:
  assumes "extended s i bs p t" "j < 200" "j \<noteq> i" "file_is s j cs" "fown s j \<inter> fown s i = {}"
  shows "file_is t j cs" "minode t j = minode s j" "fown t j = fown s j" "fown t j \<inter> fown t i = {}"
  using assms unfolding extended_def by blast+

lemma iappend_extends:
  assumes "mk_ok s" "i < 200" "file_is s i bs" "length bs + length p \<le> BSIZE * MAXFILE"
    "unat (freeblock s) + need (nblk (length bs)) (nblk (length bs + length p)) \<le> 2000"
  shows "\<exists>t. iappend i p s = Ok () t \<and> extended s i bs p t"
proof -
  let ?I = "minode s i" and ?l = "length bs + length p"
  have f: "holds s ?I bs" "isize ?I = of_nat (length bs)" using assms(3) by (auto simp: file_is_def)
  obtain J t where t: "iappend_loop ?I (of_nat (length bs)) p s = Ok (J, of_nat ?l) t" and a: "appended s ?I bs p t J"
    using iappend_loop_ok [OF assms(1) f(1) assms(4,5)] by blast
  define K where "K = J\<lparr>isize := of_nat ?l\<rparr>"
  have mt: "mk_ok t" "holds t J (bs @ p)" "J = ?I\<lparr>addrs := addrs J\<rparr>" using a by (auto simp: appended_def)
  obtain u where u: "u = t\<lparr>img := (img t)(IBLOCK i mkfs_sb := Some (put_dinode (doff i) K (vimg t (IBLOCK i mkfs_sb))))\<rparr>" by blast
  note w = winode_run [OF mt(1) assms(2), where J = K, folded u] and b = iblock_meta [OF assms(2)]
  have run: "iappend i p s = Ok () u"
    using rinode_run [OF assms(1,2)] f(2) t w(1) by (simp add: iappend_def K_def)
  have ad: "\<forall>k\<le>NDIRECT. addrs (minode u i) k = addrs J k" by (simp add: w(3) on_disk_def K_def)
  have hu: "holds u (minode u i) (bs @ p)"
    unfolding holds_addrs(1) [OF ad] using holds_meta(1) [OF mt(2) b] by (simp add: u)
  have fu: "file_is u i (bs @ p)" using hu assms(4) by (simp add: file_is_def w(3) on_disk_def K_def)
  have ou: "fown u i = own (vimg t) J (nblk ?l)"
    unfolding fown_eq [OF fu] holds_addrs(2) [OF ad] using holds_meta(2) [OF mt(2) b] by (simp add: u)
  have K: "K = ?I\<lparr>isize := of_nat ?l, addrs := addrs J\<rparr>" using mt(3) unfolding K_def by (metis inode.update_convs(9,10) inode.surjective)
  have keep: "itype (minode u i) = itype ?I" "inlink (minode u i) = inlink ?I" unfolding w(3) K on_disk_minode by (simp_all add: on_disk_def)
  have other: "file_is u j cs \<and> minode u j = minode s j \<and> fown u j = fown s j \<and> fown u j \<inter> fown u i = {}"
    if j: "j < 200" "j \<noteq> i" "file_is s j cs" "fown s j \<inter> fown s i = {}" for j cs
  proof -
    have mj: "minode u j = minode s j" using w(4) [OF j(1,2)] appended_minode [OF a assms(1) f(1) j(1)] by simp
    have hj: "holds s (minode s j) cs" using j(3) by (simp add: file_is_def)
    note o = appended_other [OF a hj j(4) [unfolded fown_eq [OF j(3)] fown_eq [OF assms(3)]]]
    have fj: "file_is u j cs" using holds_meta(1) [OF o(1) b] j(3) mj by (simp add: file_is_def u)
    have "fown u j = fown s j" unfolding fown_eq [OF fj] fown_eq [OF j(3)] mj using holds_meta(2) [OF o(1) b] o(2) by (simp add: u)
    then show ?thesis using fj mj o(3) fown_eq [OF j(3)] ou by simp
  qed
  have "img u 1 = img s 1"
    using appended_meta [OF a assms(1) f(1), of 1] iblock_nat [OF assms(2)] by (auto simp: u)
  then have "extended s i bs p u" using w(2) fu keep a other by (auto simp: extended_def appended_def u)
  then show ?thesis using run by blast
qed


section \<open>The image as a list of files\<close>

text \<open>
  \<open>image s Cs\<close>: the inodes 1, 2, \<open>\<dots>\<close> are in use for the files \<open>Cs\<close>, each a type and its bytes, no two of which share a block, the
  superblock is in place, and the blocks handed out are those the sizes of the files call for.
\<close>

definition ino :: "nat \<Rightarrow> uint" where
  "ino k = of_nat (Suc k)"

definition blocks :: "(uint \<times> byte list) list \<Rightarrow> nat" where
  "blocks Cs = sum_list (map (\<lambda>c. need 0 (nblk (length (snd c)))) Cs)"

definition inode_is :: "mkfs \<Rightarrow> uint \<Rightarrow> uint \<times> byte list \<Rightarrow> bool" where
  "inode_is s i c \<longleftrightarrow> file_is s i (snd c) \<and> itype (minode s i) = fst c \<and> inlink (minode s i) = 1"

definition image :: "mkfs \<Rightarrow> (uint \<times> byte list) list \<Rightarrow> bool" where
  "image s Cs \<longleftrightarrow> mk_ok s \<and> img s 1 = Some (sb_bytes mkfs_sb) \<and> length Cs < 200 \<and> freeinode s = ino (length Cs) \<and>
     (\<forall>k<length Cs. inode_is s (ino k) (Cs ! k)) \<and>
     (\<forall>j<length Cs. \<forall>k<length Cs. j \<noteq> k \<longrightarrow> fown s (ino j) \<inter> fown s (ino k) = {}) \<and>
     unat (freeblock s) = nmeta + blocks Cs"

lemma ino_inj: "j < 200 \<Longrightarrow> k < 200 \<Longrightarrow> ino j = ino k \<longleftrightarrow> j = k"
  by (auto simp: ino_def unat_of_nat word_unat_eq_iff unat_word_ariths)

lemma ino_less: "k < 199 \<Longrightarrow> ino k < 200"
  by (simp add: ino_def word_less_nat_alt unat_word_ariths unat_of_nat)

lemma need_mono: "n \<le> m \<Longrightarrow> need 0 n \<le> need 0 m"
  by (auto simp: need_def)

lemma need_nblk: "need 0 (nblk (a + b)) = need 0 (nblk a) + need (nblk a) (nblk (a + b))"
  by (rule need_trans) (simp_all add: nblk_mono)

lemma blocks_Nil [simp]: "blocks [] = 0"
  by (simp add: blocks_def)

lemma blocks_Cons [simp]: "blocks (c # Cs) = need 0 (nblk (length (snd c))) + blocks Cs"
  by (simp add: blocks_def)

lemma blocks_append [simp]: "blocks (Cs @ Ds) = blocks Cs + blocks Ds"
  by (simp add: blocks_def)

lemma blocks_update:
  assumes "k < length Cs"
  shows "blocks (Cs[k := (ty, snd (Cs ! k) @ p)]) = blocks Cs + need (nblk (length (snd (Cs ! k)))) (nblk (length (snd (Cs ! k)) + length p))"
proof -
  have s: "Cs = take k Cs @ Cs ! k # drop (Suc k) Cs" using id_take_nth_drop [OF assms] .
  have u: "Cs[k := (ty, snd (Cs ! k) @ p)] = take k Cs @ (ty, snd (Cs ! k) @ p) # drop (Suc k) Cs" using upd_conv_take_nth_drop [OF assms] .
  have "blocks Cs = blocks (take k Cs) + (need 0 (nblk (length (snd (Cs ! k)))) + blocks (drop (Suc k) Cs))"
    by (subst (1) s) simp
  then show ?thesis unfolding u by (simp add: need_nblk)
qed

lemma image_append:
  assumes "image s Cs" "k < length Cs" "Cs ! k = (ty, bs)" "length bs + length p \<le> BSIZE * MAXFILE" "blocks (Cs[k := (ty, bs @ p)]) \<le> nblocks"
  shows "\<exists>t. iappend (ino k) p s = Ok () t \<and> image t (Cs[k := (ty, bs @ p)])"
proof -
  have i: "mk_ok s" "length Cs < 200" "unat (freeblock s) = nmeta + blocks Cs" "file_is s (ino k) bs" "itype (minode s (ino k)) = ty" "inlink (minode s (ino k)) = 1"
    using assms(1,2,3) by (auto simp: image_def inode_is_def)
  have k: "ino k < 200" using assms(2) i(2) by (intro ino_less) simp
  have bl: "blocks (Cs[k := (ty, bs @ p)]) = blocks Cs + need (nblk (length bs)) (nblk (length bs + length p))"
    using blocks_update [OF assms(2), of ty p] assms(3) by simp
  have room: "unat (freeblock s) + need (nblk (length bs)) (nblk (length bs + length p)) \<le> 2000"
    using i(3) assms(5) bl by (simp add: nmeta_val)
  obtain t where t: "iappend (ino k) p s = Ok () t" "extended s (ino k) bs p t"
    using iappend_extends [OF i(1) k i(4) assms(4) room] by blast
  have other: "inode_is t (ino j) (Cs ! j) \<and> fown t (ino j) = fown s (ino j) \<and> fown t (ino j) \<inter> fown t (ino k) = {}"
    if "j < length Cs" "j \<noteq> k" for j
  proof -
    have n: "ino j < 200" "ino j \<noteq> ino k" using that i(2) assms(2) ino_inj [of j k] ino_less [of j] by simp_all
    have f: "file_is s (ino j) (snd (Cs ! j))" "fown s (ino j) \<inter> fown s (ino k) = {}"
      using assms(1,2) that by (simp_all add: image_def inode_is_def)
    show ?thesis using extendedD [OF t(2) n f] assms(1) that(1) by (simp add: image_def inode_is_def)
  qed
  have d: "fown t (ino j) \<inter> fown t (ino l) = {}" if "j < length Cs" "l < length Cs" "j \<noteq> l" for j l
  proof -
    have "fown s (ino j) \<inter> fown s (ino l) = {}" using assms(1) that by (simp add: image_def)
    then show ?thesis using other [of j] other [of l] that by (cases "j = k"; cases "l = k") (simp_all add: Int_commute)
  qed
  have "image t (Cs[k := (ty, bs @ p)])"
    unfolding image_def using t(2) assms(1,2) other i(5,6) bl i(3) d
    by (auto simp: extended_def inode_is_def nth_list_update image_def simp del: disjoint_iff)
  then show ?thesis using t(1) by blast
qed


lemma inode_meta:
  assumes "inode_is s j c" "b < 46" "t = s\<lparr>img := (img s)(b := Some d)\<rparr>" "minode t j = minode s j"
  shows "inode_is t j c" "fown t j = fown s j"
proof -
  have f: "file_is s j (snd c)" "holds s (minode s j) (snd c)" using assms(1) by (simp_all add: inode_is_def file_is_def)
  then have "file_is t j (snd c)" using holds_meta(1) [OF f(2) assms(2)] assms(3,4) by (simp add: file_is_def)
  then show "inode_is t j c" using assms(1,4) by (simp add: inode_is_def)
  show "fown t j = fown s j"
    unfolding fown_eq [OF f(1)] fown_eq [OF \<open>file_is t j (snd c)\<close>] assms(4) using holds_meta(2) [OF f(2) assms(2)] assms(3) by simp
qed

lemma image_meta:
  assumes "image s Cs" "b < 46" "b \<noteq> 1" "\<not> (32 \<le> b \<and> b < 45)" "length d = BSIZE"
  shows "image (s\<lparr>img := (img s)(b := Some d)\<rparr>) Cs"
proof -
  let ?t = "s\<lparr>img := (img s)(b := Some d)\<rparr>"
  have m: "minode ?t (ino k) = minode s (ino k)" if "k < length Cs" for k
  proof -
    have k: "ino k < 200" using assms(1) that by (intro ino_less) (simp add: image_def)
    have "IBLOCK (ino k) mkfs_sb \<noteq> b" using iblock_nat [OF k] assms(4) k by (auto simp: word_less_nat_alt word_le_nat_alt)
    then show ?thesis by (simp add: minode_def vimg_write)
  qed
  have i: "inode_is ?t (ino k) (Cs ! k)" "fown ?t (ino k) = fown s (ino k)" if "k < length Cs" for k
    using inode_meta [OF _ assms(2) refl m [OF that], where c = "Cs ! k"] assms(1) that by (simp_all add: image_def)
  have "b < freeblock s" "mk_ok s" using assms(1,2) by (auto simp: image_def mk_ok_def)
  then have "mk_ok ?t" using mk_ok_write assms(5) by blast
  then show ?thesis using assms(1,3) i by (simp add: image_def)
qed

text \<open>A change of the inode alone, and a new inode.\<close>

lemma winode_image:
  assumes "mk_ok s" "i < 200" "\<forall>k<n. inode_is s (ino k) (Cs ! k)" "n < 200" "winode i J s = Ok () t"
  shows "mk_ok t" "minode t i = on_disk J dinode0" "\<And>k. k < n \<Longrightarrow> ino k \<noteq> i \<Longrightarrow> inode_is t (ino k) (Cs ! k) \<and> fown t (ino k) = fown s (ino k)"
    "img t 1 = img s 1" "freeinode t = freeinode s" "freeblock t = freeblock s"
    "\<And>I bs. holds s I bs \<Longrightarrow> holds t I bs \<and> own (vimg t) I (nblk (length bs)) = own (vimg s) I (nblk (length bs))"
proof -
  let ?b = "IBLOCK i mkfs_sb"
  note w = winode_run [OF assms(1,2), where J = J] and b = iblock_meta [OF assms(2)]
  have t: "t = s\<lparr>img := (img s)(?b := Some (put_dinode (doff i) J (vimg s ?b)))\<rparr>" using w(1) assms(5) by simp
  note w = w [folded t]
  show "mk_ok t" "minode t i = on_disk J dinode0" by (rule w)+
  show "inode_is t (ino k) (Cs ! k) \<and> fown t (ino k) = fown s (ino k)" if "k < n" "ino k \<noteq> i" for k
  proof -
    have "ino k < 200" using that(1) assms(4) by (intro ino_less) simp
    then have "minode t (ino k) = minode s (ino k)" using w(4) that(2) by simp
    then show ?thesis using inode_meta [OF _ b t] assms(3) that(1) by blast
  qed
  show "img t 1 = img s 1" using iblock_nat [OF assms(2)] by (auto simp: t)
  show "freeinode t = freeinode s" "freeblock t = freeblock s" by (simp_all add: t)
  show "holds t I bs \<and> own (vimg t) I (nblk (length bs)) = own (vimg s) I (nblk (length bs))" if "holds s I bs" for I bs
    using holds_meta [OF that b] by (simp add: t)
qed

lemma holds_Nil: "\<forall>k\<le>NDIRECT. addrs I k = 0 \<Longrightarrow> holds s I []"
  by (simp add: holds_def fok_def blocks_ok_def nblk_def content_def pad_def)

lemma image_new:
  assumes "image s Cs" "length Cs < 199" "scast (ucast ty :: uint16) = ty"
  shows "\<exists>t. mkfs_ialloc ty s = Ok (ino (length Cs)) t \<and> image t (Cs @ [(ty, [])])"
proof -
  let ?n = "length Cs"
  let ?i = "ino ?n"
  define r where "r = s\<lparr>freeinode := freeinode s + 1\<rparr>"
  define J where "J = dinode0\<lparr>itype := ucast (ucast ty :: uint16), inlink := 1, isize := 0\<rparr>"
  have v: "vimg r = vimg s" "minode r j = minode s j" for j by (simp_all add: r_def vimg_def minode_def fun_eq_iff)
  have same: "holds r I bs = holds s I bs" for I bs by (simp add: holds_def v) (simp add: r_def)
  have ri: "mk_ok r" using assms(1) by (auto simp: image_def mk_ok_def r_def)
  have rk: "inode_is r (ino k) c = inode_is s (ino k) c" "fown r (ino k) = fown s (ino k)" for k c
    by (simp_all add: inode_is_def file_is_def same v fown_def)
  have i: "?i < 200" by (rule ino_less [OF assms(2)])
  obtain t where t: "winode ?i J r = Ok () t" using winode_run(1) [OF ri i] by blast
  have "\<forall>k<?n. inode_is r (ino k) (Cs ! k)" using assms(1) rk by (simp add: image_def)
  note w = winode_image [OF ri i this _ t]
  have n: "?n < 200" using assms(2) by simp
  have run: "mkfs_ialloc ty s = Ok ?i t" using assms(1) t by (simp add: mkfs_ialloc_def J_def r_def image_def)
  have mi: "minode t ?i = on_disk J dinode0" using w(2) [OF n] .
  have ad: "\<forall>k\<le>NDIRECT. addrs (minode t ?i) k = 0" by (simp add: mi on_disk_def J_def dinode0_def)
  have new: "inode_is t ?i (ty, [])" using holds_Nil [OF ad] assms(3) by (simp add: inode_is_def file_is_def mi on_disk_def J_def short_of_int)
  have fnew: "fown t ?i = {}" by (simp add: fown_def own_def mi on_disk_def J_def nblk_def)
  have old: "inode_is t (ino k) (Cs ! k)" "fown t (ino k) = fown s (ino k)" if "k < ?n" for k
    using w(3) [OF n that] rk that n ino_inj [of k ?n] by simp_all
  have "freeinode t = ino (Suc ?n)" using w(5) [OF n] assms(1) by (simp add: r_def image_def ino_def)
  moreover have "need 0 (nblk 0) = 0" by (simp add: need_def nblk_def)
  moreover have "freeblock t = freeblock s" "img t 1 = img s 1" using w(4,6) [OF n] by (simp_all add: r_def)
  moreover have "mk_ok t" using w(1) [OF n] .
  ultimately have "image t (Cs @ [(ty, [])])"
    using assms(1,2) new fnew old by (auto simp: image_def nth_append less_Suc_eq)
  then show ?thesis using run by blast
qed


section \<open>The whole image\<close>

text \<open>The name a path is stored under, and the files \<open>mkfs\<close> is to store.\<close>

definition stored_name :: "byte list \<Rightarrow> byte list" where
  "stored_name path = (case shortname path of c # cs \<Rightarrow> if c = 0x5f then cs else shortname path | [] \<Rightarrow> [])"

fun entries :: "nat \<Rightarrow> (byte list \<times> byte list list) list \<Rightarrow> byte list" where
  "entries k [] = []"
| "entries k (f # fs) = mk_dirent (stored_name (fst f)) (ino k) @ entries (Suc k) fs"

definition stored :: "byte list \<times> byte list list \<Rightarrow> uint \<times> byte list" where
  "stored f = (I_FILE, concat (snd f))"

definition storable :: "byte list \<times> byte list list \<Rightarrow> bool" where
  "storable f \<longleftrightarrow> 0x2f \<notin> set (shortname (fst f)) \<and> length (concat (snd f)) \<le> BSIZE * MAXFILE"

lemma mk_dirent_16 [simp]: "length (mk_dirent name i) = 16"
  by (simp add: mk_dirent_def DIRSIZ_def)

lemma entries_length [simp]: "length (entries k fs) = 16 * length fs"
  by (induction fs arbitrary: k) auto

lemma blocks_shorter: "length bs \<le> length cs \<Longrightarrow> blocks (Cs[k := (ty, bs)]) \<le> blocks (Cs[k := (tz, cs)])"
proof (cases "k < length Cs")
  case True
  assume "length bs \<le> length cs"
  then show ?thesis using True by (simp add: upd_conv_take_nth_drop need_mono nblk_mono)
qed (simp add: list_update_beyond)

lemma append_all_image:
  assumes "image s Cs" "k < length Cs" "Cs ! k = (ty, bs)" "length bs + length (concat ps) \<le> BSIZE * MAXFILE"
    "blocks (Cs[k := (ty, bs @ concat ps)]) \<le> nblocks"
  shows "\<exists>t. append_all (ino k) ps s = Ok () t \<and> image t (Cs[k := (ty, bs @ concat ps)])"
  using assms
proof (induction ps arbitrary: s Cs bs)
  case Nil
  then show ?case using list_update_id [of Cs k] by simp
next
  case (Cons p ps)
  have "blocks (Cs[k := (ty, bs @ p)]) \<le> nblocks"
    by (rule order_trans [OF blocks_shorter Cons.prems(5)]) simp
  then obtain t where t: "iappend (ino k) p s = Ok () t" "image t (Cs[k := (ty, bs @ p)])"
    using image_append [OF Cons.prems(1-3), of p] Cons.prems(4) by auto
  have "\<exists>u. append_all (ino k) ps t = Ok () u \<and> image u (Cs[k := (ty, bs @ p), k := (ty, (bs @ p) @ concat ps)])"
    by (rule Cons.IH [OF t(2)]) (use Cons.prems in simp_all)
  then show ?case using t(1) by auto
qed

lemma I_types: "scast (ucast I_FILE :: uint16) = I_FILE" "scast (ucast I_DIR :: uint16) = I_DIR"
  by (simp_all add: I_FILE_def I_DIR_def)

lemma add_files_image:
  assumes "image s ((I_DIR, ds) # Fs)" "\<forall>f \<in> set fs. storable f" "length Fs + length fs < 199"
    "length ds + 16 * length fs \<le> BSIZE * MAXFILE"
    "blocks ((I_DIR, ds @ entries (Suc (length Fs)) fs) # Fs @ map stored fs) \<le> nblocks"
  shows "\<exists>t. add_files (ino 0) fs s = Ok () t \<and> image t ((I_DIR, ds @ entries (Suc (length Fs)) fs) # Fs @ map stored fs)"
  using assms
proof (induction fs arbitrary: s ds Fs)
  case Nil
  then show ?case by simp
next
  case (Cons f fs)
  obtain path chunks where f: "f = (path, chunks)" by (cases f)
  let ?k = "Suc (length Fs)"
  let ?e = "mk_dirent (stored_name path) (ino ?k)"
  have ok: "0x2f \<notin> set (shortname path)" "length (concat chunks) \<le> BSIZE * MAXFILE" using Cons.prems(2) by (auto simp: f storable_def)
  obtain s1 where s1: "mkfs_ialloc I_FILE s = Ok (ino ?k) s1" "image s1 (((I_DIR, ds) # Fs) @ [(I_FILE, [])])"
    using image_new [OF Cons.prems(1) _ I_types(1)] Cons.prems(3) by auto
  have b: "blocks ((I_DIR, ds @ ?e) # Fs @ [stored f]) \<le> nblocks"
    using Cons.prems(5) need_mono [OF nblk_mono [of "length ds + 16" "length ds + (16 + 16 * length fs)"]] by (simp add: f)
  have "\<exists>s2. iappend (ino 0) ?e s1 = Ok () s2 \<and> image s2 ((((I_DIR, ds) # Fs) @ [(I_FILE, [])])[0 := (I_DIR, ds @ ?e)])"
    by (rule image_append [OF s1(2)]) (use Cons.prems(4) b in \<open>simp_all add: stored_def need_def nblk_def\<close>)
  then obtain s2 where s2: "iappend (ino 0) ?e s1 = Ok () s2" "image s2 ((I_DIR, ds @ ?e) # Fs @ [(I_FILE, [])])" by auto
  let ?Cs = "(I_DIR, ds @ ?e) # Fs @ [(I_FILE, [])]"
  have "\<exists>s3. append_all (ino ?k) chunks s2 = Ok () s3 \<and> image s3 (?Cs[?k := (I_FILE, [] @ concat chunks)])"
    by (rule append_all_image [OF s2(2)]) (use ok(2) b in \<open>simp_all add: stored_def nth_append f\<close>)
  then obtain s3 where s3: "append_all (ino ?k) chunks s2 = Ok () s3" "image s3 ((I_DIR, ds @ ?e) # Fs @ [stored f])"
    by (auto simp: stored_def f)
  have "\<exists>t. add_files (ino 0) fs s3 = Ok () t \<and> image t ((I_DIR, (ds @ ?e) @ entries (Suc (length (Fs @ [stored f]))) fs) # (Fs @ [stored f]) @ map stored fs)"
    by (rule Cons.IH [OF s3(2)]) (use Cons.prems in \<open>simp_all add: f\<close>)
  then obtain t where t: "add_files (ino 0) fs s3 = Ok () t" "image t ((I_DIR, ds @ entries ?k (f # fs)) # Fs @ map stored (f # fs))"
    by (auto simp: f)
  have "add_files (ino 0) (f # fs) s = Ok () t"
    using ok(1) s1(1) s2(1) s3(1) t(1) by (simp add: f Let_def mk_dirent_def stored_name_def)
  then show ?case using t(2) by blast
qed


lemma pad_length:
  assumes "length ds mod 1024 \<noteq> 0"
  shows "length (pad ds) = (length ds div 1024 + 1) * 1024" "nblk (length (pad ds)) = nblk (length ds)" "pad (pad ds) = pad ds"
proof -
  have n: "nblk (length ds) = length ds div 1024 + 1" using assms by (simp add: nblk_cases)
  have "length ds \<le> (length ds div 1024 + 1) * 1024" by simp
  then show l: "length (pad ds) = (length ds div 1024 + 1) * 1024" by (simp add: pad_def n BSIZE_def)
  show m: "nblk (length (pad ds)) = nblk (length ds)" unfolding l n by (simp add: nblk_def)
  show "pad (pad ds) = pad ds" unfolding pad_def [of "pad ds"] m n by (simp add: l BSIZE_def)
qed

lemma holds_pad: "length ds mod 1024 \<noteq> 0 \<Longrightarrow> holds s I (pad ds) = holds s I ds"
  by (simp add: holds_def pad_length(2,3))

lemma round_up: "l \<le> 274432 \<Longrightarrow> (of_nat l div 1024 + 1) * 1024 = (of_nat ((l div 1024 + 1) * 1024) :: uint)"
  by (rule word_unat_eq_iff [THEN iffD2]) (simp add: unat_word_ariths unat_div unat_of_nat)

lemma fix_root_image:
  assumes "image s ((ty, ds) # Fs)" "length ds mod 1024 \<noteq> 0"
  shows "\<exists>t. fix_root_size (ino 0) s = Ok () t \<and> image t ((ty, pad ds) # Fs)"
proof -
  let ?Cs = "(ty, ds) # Fs"
  let ?I = "minode s (ino 0)"
  define J where "J = ?I\<lparr>isize := of_nat (length (pad ds))\<rparr>"
  have im: "mk_ok s" "\<forall>k<length ?Cs. inode_is s (ino k) (?Cs ! k)" "length ?Cs < 200" using assms(1) by (simp_all add: image_def)
  have i: "ino 0 < 200" by (simp add: ino_def)
  have "inode_is s (ino 0) (ty, ds)" using im(2) by force
  then have f: "file_is s (ino 0) ds" "itype ?I = ty" "inlink ?I = 1" "holds s ?I ds" "isize ?I = of_nat (length ds)" "length ds \<le> BSIZE * MAXFILE"
    by (simp_all add: inode_is_def file_is_def)
  obtain t where t: "winode (ino 0) J s = Ok () t" using winode_run(1) [OF im(1) i] by blast
  note w = winode_image [OF im(1) i im(2,3) t]
  have "length ds \<le> 274432" using f(6) by (simp add: BSIZE_def MAXFILE_def NDIRECT_def NINDIRECT_def)
  from round_up [OF this] have "fix_root_size (ino 0) s = Ok () t"
    using rinode_run [OF im(1) i] t f(5) by (simp add: fix_root_size_def J_def pad_length(1) [OF assms(2)] Let_def add.commute)
  moreover have "image t ((ty, pad ds) # Fs)"
  proof -
    have ad: "\<forall>k\<le>NDIRECT. addrs (minode t (ino 0)) k = addrs ?I k" by (simp add: w(2) on_disk_def J_def)
    have h: "holds t (minode t (ino 0)) (pad ds)" unfolding holds_addrs(1) [OF ad] using w(7) [OF f(4)] holds_pad [OF assms(2)] by blast
    have "nblk (length ds) \<le> MAXFILE" using f(4) by (simp add: holds_def fok_def blocks_ok_def)
    then have "length (pad ds) \<le> BSIZE * MAXFILE" using pad_length(1,2) [OF assms(2)] by (simp add: nblk_def BSIZE_def)
    moreover have "itype (minode t (ino 0)) = ty" using on_disk_minode [where s = s and i = "ino 0" and a = "addrs ?I"] f(2)
      by (simp add: w(2) J_def)
    ultimately have root: "inode_is t (ino 0) (ty, pad ds)" using h f(3) by (simp add: inode_is_def file_is_def w(2) on_disk_def J_def)
    have o: "fown t (ino 0) = fown s (ino 0)"
      unfolding fown_eq [OF f(1)] using fown_eq [of t "ino 0" "pad ds"] root w(7) [OF f(4)] holds_addrs(2) [OF ad] pad_length(2) [OF assms(2)]
      by (simp add: inode_is_def)
    have k: "inode_is t (ino k) (((ty, pad ds) # Fs) ! k) \<and> fown t (ino k) = fown s (ino k)" if "k < length ?Cs" for k
    proof (cases k)
      case (Suc l)
      then show ?thesis using w(3) [OF that] ino_inj [of k 0] that im(3) by simp
    qed (use root o in simp)
    show ?thesis using assms(1) w(1,4,5,6) k pad_length(2) [OF assms(2)] by (simp add: image_def)
  qed
  ultimately show ?thesis by blast
qed

lemma zero_sectors_run:
  "i + n \<le> 2 ^ 32 \<Longrightarrow> zero_sectors i n s = Ok () (s\<lparr>img := \<lambda>b. if i \<le> unat b \<and> unat b < i + n then Some (replicate BSIZE 0) else img s b\<rparr>)"
proof (induction n arbitrary: i s)
  case 0
  have "(\<lambda>b. if i \<le> unat b \<and> unat b < i + 0 then Some (replicate BSIZE 0) else img s b) = img s" by (auto simp: fun_eq_iff)
  then show ?case by simp
next
  case (Suc n)
  have "unat (of_nat i :: uint) = i" using Suc.prems by (simp add: unat_of_nat)
  then have "b = of_nat i \<longleftrightarrow> unat b = i" for b :: uint by auto
  then show ?case using Suc.IH [of "Suc i"] Suc.prems by (auto simp: fun_eq_iff intro!: arg_cong [of _ _ "\<lambda>f. s\<lparr>img := f\<rparr>"])
qed

lemma mark_used_length [simp]: "length (mark_used i n buf) = length buf"
  by (induction n arbitrary: i buf) auto

lemma mark_used_bit:
  "j < length buf \<Longrightarrow> b < 8 \<Longrightarrow> bit (mark_used i n buf ! j) b \<longleftrightarrow> bit (buf ! j) b \<or> i \<le> 8 * j + b \<and> 8 * j + b < i + n"
proof (induction n arbitrary: i buf)
  case 0
  then show ?case by auto
next
  case (Suc n)
  have "i = 8 * j + b \<longleftrightarrow> j = i div 8 \<and> b = i mod 8" using Suc.prems(2) by auto
  moreover have "bit (buf[i div 8 := buf ! (i div 8) OR push_bit (i mod 8) 1] ! j) b \<longleftrightarrow> bit (buf ! j) b \<or> j = i div 8 \<and> b = i mod 8"
    using Suc.prems by (cases "j = i div 8") (auto simp: bit_or_iff bit_exp_iff)
  ultimately show ?case using Suc.IH [of "buf[i div 8 := buf ! (i div 8) OR push_bit (i mod 8) 1]" "Suc i"] Suc.prems by auto
qed


definition root_bytes :: "(byte list \<times> byte list list) list \<Rightarrow> byte list" where
  "root_bytes files = mk_dirent [0x2e] ROOTINO @ mk_dirent [0x2e, 0x2e] ROOTINO @ entries 1 files"

lemma sb_round: "get_sb (sb_bytes S) = S"
  by (simp add: sb_bytes_def get_sb_def byte_simps BSIZE_def)

definition mkfs_empty :: mkfs where
  "mkfs_empty = \<lparr>img = (\<lambda>b. if b = 1 then Some (sb_bytes mkfs_sb) else if b < 2000 then Some (replicate BSIZE 0) else None),
     msb = mkfs_sb, freeinode = 1, freeblock = 46\<rparr>"

lemma mkfs_empty_image: "image mkfs_empty []"
proof -
  have "length (sb_bytes mkfs_sb) = BSIZE" by (simp add: sb_bytes_def)
  moreover have "(46 :: uint) \<le> b \<Longrightarrow> b \<noteq> 1" for b by (auto simp: word_le_nat_alt)
  moreover have "\<not> (2000 :: uint) \<le> b \<longleftrightarrow> b < 2000" for b by auto
  ultimately have "mk_ok mkfs_empty" by (auto simp: mk_ok_def mkfs_empty_def split: if_splits)
  then show ?thesis by (simp add: image_def ino_def nmeta_val) (simp add: mkfs_empty_def)
qed

lemma mkfs_start:
  "mkfs_main files mkfs_init =
     bnd (mkfs_ialloc I_DIR) (\<lambda>rootino.
     if rootino \<noteq> ROOTINO then panic ''assert''
     else
       seq (iappend rootino (mk_dirent [0x2e] rootino)) (
       seq (iappend rootino (mk_dirent [0x2e, 0x2e] rootino)) (
       seq (add_files rootino files) (
       seq (fix_root_size rootino) (
       bnd (gets freeblock) (\<lambda>b. mkfs_balloc (sint b))))))) mkfs_empty"
proof -
  have "mkfs_init\<lparr>msb := mkfs_sb, freeblock := 46, img := (\<lambda>b. if unat b < 2000 then Some (replicate BSIZE 0) else None)(1 := Some (sb_bytes mkfs_sb))\<rparr> = mkfs_empty"
    by (auto simp: mkfs_empty_def mkfs_init_def fun_eq_iff word_less_nat_alt)
  then have "seq (modify (\<lambda>s. s\<lparr>msb := mkfs_sb\<rparr>)) (seq (modify (\<lambda>s. s\<lparr>freeblock := of_nat nmeta\<rparr>)) (
      seq (zero_sectors 0 FSSIZE) (seq (wsect 1 (sb_bytes mkfs_sb)) k))) mkfs_init = k mkfs_empty" for k :: "(mkfs, unit) km"
    by (simp add: zero_sectors_run FSSIZE_def nmeta_val cong: if_cong) (simp add: mkfs_init_def cong: if_cong)
  then show ?thesis by (simp only: mkfs_main_def mk_dirent_def xshort_id)
qed

lemma balloc_image:
  assumes "image s Cs"
  shows "\<exists>t. mkfs_balloc (sint (freeblock s)) s = Ok () t \<and> image t Cs \<and> (\<forall>b<FSSIZE. used (vimg t) mkfs_sb b \<longleftrightarrow> b < nmeta + blocks Cs)"
proof -
  let ?d = "mark_used 0 (nmeta + blocks Cs) (replicate BSIZE 0)"
  let ?t = "s\<lparr>img := (img s)(45 := Some ?d)\<rparr>"
  have fb: "unat (freeblock s) = nmeta + blocks Cs" "freeblock s \<le> 2000" "msb s = mkfs_sb" using assms by (auto simp: image_def mk_ok_def)
  then have "sint (freeblock s) = int (nmeta + blocks Cs)"
    using sint_small [of "freeblock s"] by (simp add: word_le_nat_alt)
  moreover have "nmeta + blocks Cs \<le> 2000" using fb by (simp add: word_le_nat_alt)
  ultimately have "mkfs_balloc (sint (freeblock s)) s = Ok () ?t"
    using fb(3) by (simp add: mkfs_balloc_def BSIZE_def mkfs_sb_fields nat_int_add)
  moreover have "image ?t Cs" by (rule image_meta [OF assms]) simp_all
  moreover have "used (vimg ?t) mkfs_sb b \<longleftrightarrow> b < nmeta + blocks Cs" if "b < FSSIZE" for b
  proof -
    have "b < 2000" using that by (simp add: FSSIZE_def)
    then have "of_nat b div 8192 = (0 :: uint)" by (simp add: word_unat_eq_iff unat_div unat_of_nat)
    then have "BBLOCK (of_nat b) mkfs_sb = 45" by (simp add: BBLOCK_def mkfs_sb_fields)
    then show ?thesis using mark_used_bit [of "b div 8" "replicate BSIZE 0" "b mod 8" 0 "nmeta + blocks Cs"] \<open>b < 2000\<close>
      by (simp add: used_def vimg_def BPB_def BSIZE_def)
  qed
  ultimately show ?thesis by blast
qed


lemma root_image:
  "\<exists>t. mkfs_ialloc I_DIR mkfs_empty = Ok ROOTINO t \<and> image t [(I_DIR, [])]"
  using image_new [OF mkfs_empty_image _ I_types(2)] by (simp add: ino_def ROOTINO_def)

lemma mkfs_image:
  assumes "length files < 199" "list_all storable files" "blocks ((I_DIR, root_bytes files) # map stored files) \<le> nblocks"
    "(length files + 2) mod 64 \<noteq> 0"
  shows "\<exists>t. mkfs_main files mkfs_init = Ok () t \<and> get_sb (vimg t 1) = mkfs_sb \<and>
    image t ((I_DIR, pad (root_bytes files)) # map stored files) \<and>
    (\<forall>b<FSSIZE. used (vimg t) mkfs_sb b \<longleftrightarrow> b < nmeta + blocks ((I_DIR, root_bytes files) # map stored files))"
proof -
  let ?d1 = "mk_dirent [0x2e] ROOTINO" and ?d2 = "mk_dirent [0x2e, 0x2e] ROOTINO"
  have big: "32 + 16 * length files \<le> BSIZE * MAXFILE" using assms(1) by (simp add: BSIZE_def MAXFILE_def NDIRECT_def NINDIRECT_def)
  have r: "length (root_bytes files) = 32 + 16 * length files" by (simp add: root_bytes_def)
  have md: "length (root_bytes files) mod 1024 \<noteq> 0" using assms(4) mod_mult_mult1 [of 16 "length files + 2" 64] by (simp add: r algebra_simps)
  have i0: "ino 0 = ROOTINO" by (simp add: ino_def ROOTINO_def)
  obtain s1 where s1: "mkfs_ialloc I_DIR mkfs_empty = Ok ROOTINO s1" "image s1 [(I_DIR, [])]" using root_image by blast
  have small: "need 0 (nblk m) \<le> nblocks" if "m \<le> 32" for m
    using need_mono [OF nblk_mono [OF that]] by (simp add: need_def nblk_def nmeta_val NDIRECT_def)
  have "\<exists>s2. iappend (ino 0) ?d1 s1 = Ok () s2 \<and> image s2 ([(I_DIR, [])][0 := (I_DIR, [] @ ?d1)])"
    by (rule image_append [OF s1(2)]) (use big small in simp_all)
  then obtain s2 where s2: "iappend ROOTINO ?d1 s1 = Ok () s2" "image s2 [(I_DIR, ?d1)]" by (auto simp: i0)
  have "\<exists>s3. iappend (ino 0) ?d2 s2 = Ok () s3 \<and> image s3 ([(I_DIR, ?d1)][0 := (I_DIR, ?d1 @ ?d2)])"
    by (rule image_append [OF s2(2)]) (use big small in simp_all)
  then obtain s3 where s3: "iappend ROOTINO ?d2 s2 = Ok () s3" "image s3 [(I_DIR, ?d1 @ ?d2)]" by (auto simp: i0)
  have "\<exists>s4. add_files (ino 0) files s3 = Ok () s4 \<and> image s4 ((I_DIR, root_bytes files) # map stored files)"
    using add_files_image [OF s3(2), of files] assms(1-3) big by (simp add: root_bytes_def list_all_iff)
  then obtain s4 where s4: "add_files ROOTINO files s3 = Ok () s4" "image s4 ((I_DIR, root_bytes files) # map stored files)"
    by (auto simp: i0)
  obtain s5 where s5: "fix_root_size ROOTINO s4 = Ok () s5" "image s5 ((I_DIR, pad (root_bytes files)) # map stored files)"
    using fix_root_image [OF s4(2) md] by (auto simp: i0)
  obtain t where t: "mkfs_balloc (sint (freeblock s5)) s5 = Ok () t" "image t ((I_DIR, pad (root_bytes files)) # map stored files)"
    "\<forall>b<FSSIZE. used (vimg t) mkfs_sb b \<longleftrightarrow> b < nmeta + blocks ((I_DIR, pad (root_bytes files)) # map stored files)"
    using balloc_image [OF s5(2)] by blast
  have "mkfs_main files mkfs_init = Ok () t" unfolding mkfs_start using s1(1) s2(1) s3(1) s4(1) s5(1) t(1) by simp
  moreover have "get_sb (vimg t 1) = mkfs_sb" using t(2) sb_round by (simp add: image_def vimg_def)
  ultimately show ?thesis using t(2,3) pad_length(2) [OF md] by simp
qed

text \<open>
  C12: \<open>mkfs\<close> makes the image it is meant to make. For fewer than 199 files, none with a slash in its short name or larger than a file can be,
  that need no more blocks than the image has, and a number of directory entries that does not fill whole blocks, it ends without a failed
  assertion. In the image it leaves, the superblock reads back as the one the kernel expects; inode 1 is a directory whose bytes are the entries for
  \<open>.\<close>, \<open>..\<close> and each file under its stored name, padded with zeros to whole blocks; the following inodes are the files with exactly the
  bytes that were read, each with one link; no two of them share a block; and the bitmap marks the blocks below the first free one and no others.
\<close>

theorem mkfs_main_correct:
  assumes "length files < 199" "list_all storable files" "blocks ((I_DIR, root_bytes files) # map stored files) \<le> nblocks"
    "(length files + 2) mod 64 \<noteq> 0"
  shows "\<exists>t. mkfs_main files mkfs_init = Ok () t \<and> get_sb (vimg t 1) = mkfs_sb \<and>
    image t ((I_DIR, pad (root_bytes files)) # map stored files) \<and>
    (\<forall>b<FSSIZE. used (vimg t) mkfs_sb b \<longleftrightarrow> b < nmeta + blocks ((I_DIR, root_bytes files) # map stored files))"
  using mkfs_image [OF assms] .

text \<open>One file, \<open>user/_a\<close>, of two pieces.\<close>

theorem mkfs_main_correct_witness:
  "\<exists>t. mkfs_main [([0x75, 0x73, 0x65, 0x72, 0x2f, 0x5f, 0x61], [[1, 2], [3]])] mkfs_init = Ok () t \<and> inode_is t 2 (I_FILE, [1, 2, 3])"
proof -
  let ?fs = "[([0x75, 0x73, 0x65, 0x72, 0x2f, 0x5f, 0x61], [[1, 2], [3]])] :: (byte list \<times> byte list list) list"
  have b: "blocks ((I_DIR, root_bytes ?fs) # map stored ?fs) \<le> nblocks"
    by (simp add: stored_def root_bytes_def need_def nblk_def nmeta_val NDIRECT_def)
  have s: "list_all storable ?fs" by (simp add: storable_def shortname_def user_prefix_def BSIZE_def MAXFILE_def NDIRECT_def NINDIRECT_def)
  obtain t where "mkfs_main ?fs mkfs_init = Ok () t" "image t ((I_DIR, pad (root_bytes ?fs)) # map stored ?fs)"
    using mkfs_main_correct [OF _ s b] by auto
  moreover from this(2) have "inode_is t (ino 1) (stored (?fs ! 0))" by (auto simp: image_def)
  ultimately show ?thesis by (auto simp: stored_def ino_def)
qed


section \<open>Two gaps of the image\<close>

text \<open>The area left for the log is one block short: the last block of a full log is the first block of inodes.\<close>

lemma log_one_short:
  "sb_nlog mkfs_sb = of_nat LOGBLOCKS" "lblock (sb_logstart mkfs_sb) LOGBLOCKS = IBLOCK ROOTINO mkfs_sb"
  by (simp_all add: mkfs_sb_def nlog_def LOGBLOCKS_def lblock_def IBLOCK_def ROOTINO_def)

text \<open>When the directory entries fill whole blocks, the size of the root directory takes in one more block, which it does not have.\<close>

lemma root_size_hole:
  assumes "image s ((ty, ds) # Fs)" "length ds mod 1024 = 0" "length ds div 1024 < NDIRECT"
  shows "\<exists>t. fix_root_size (ino 0) s = Ok () t \<and> isize (minode t (ino 0)) = of_nat (length ds + 1024) \<and> addrs (minode t (ino 0)) (length ds div 1024) = 0"
proof -
  let ?I = "minode s (ino 0)"
  have im: "mk_ok s" "inode_is s (ino 0) (ty, ds)" using assms(1) by (force simp: image_def)+
  have i: "ino 0 < 200" by (simp add: ino_def)
  have f: "holds s ?I ds" "isize ?I = of_nat (length ds)" using im(2) by (simp_all add: inode_is_def file_is_def)
  have n: "nblk (length ds) = length ds div 1024" using assms(2) by (simp add: nblk_cases)
  have a: "addrs ?I (length ds div 1024) = 0" using f(1) assms(3) by (simp add: holds_def fok_def blocks_ok_def n)
  have "length ds \<le> 274432" using assms(3) by (simp add: NDIRECT_def div_less_iff_less_mult)
  moreover have "(length ds div 1024 + 1) * 1024 = length ds + 1024" using div_mult_mod_eq [of "length ds" 1024] assms(2) by simp
  ultimately have r: "(of_nat (length ds) div 1024 + 1) * 1024 = (of_nat (length ds + 1024) :: uint)" using round_up by metis
  let ?J = "?I\<lparr>isize := of_nat (length ds + 1024)\<rparr>"
  obtain t where t: "winode (ino 0) ?J s = Ok () t" "minode t (ino 0) = on_disk ?J dinode0"
    using winode_run(1,3) [OF im(1) i, where J = ?J] by blast
  then have "fix_root_size (ino 0) s = Ok () t" using rinode_run [OF im(1) i] f(2) r by (simp only: fix_root_size_def Let_def bnd_def xint_id outcome.case)
  then show ?thesis using t(2) a assms(3) by (intro exI [of _ t]) (simp add: on_disk_def)
qed

end
