(* ===== verification/Lookup.thy ===== *)
theory Lookup
  imports Dir
begin

text \<open>
  What \<open>namei\<close> of \<^verbatim>\<open>kernel/src/fs.c\<close> computes on a whole tree of directories. The specification \<open>resolve\<close> walks the elements of a path over
  the inodes and directory entries on disk; the code walks them through the inode table, with a lock and a reference on each
  directory on the way. The theory also gives the rules by which the routines of the inode layer keep the state that
  file system calls start from.
\<close>

section \<open>The inode table and the disk\<close>

definition from_disk :: "(uint \<Rightarrow> byte list) \<Rightarrow> superblock \<Rightarrow> inode \<Rightarrow> inode" where
  "from_disk v S I = get_dinode (doff (inum I)) (v (IBLOCK (inum I) S)) I"

lemma from_disk_simps [simp]:
  "idev (from_disk v S I) = idev I" "inum (from_disk v S I) = inum I" "iref (from_disk v S I) = iref I" "is_valid (from_disk v S I) = is_valid I"
  "from_disk v S (I\<lparr>iref := r\<rparr>) = (from_disk v S I)\<lparr>iref := r\<rparr>" "from_disk v S (I\<lparr>is_valid := b\<rparr>) = (from_disk v S I)\<lparr>is_valid := b\<rparr>"
  "from_disk v S (from_disk v S I) = from_disk v S I"
  by (simp_all add: from_disk_def get_dinode_def cong: if_cong)

text \<open>A valid entry of the table agrees with the inode on disk.\<close>

definition tab_ok :: "uint \<Rightarrow> (uint \<Rightarrow> byte list) \<Rightarrow> superblock \<Rightarrow> (nat \<Rightarrow> inode) \<Rightarrow> bool" where
  "tab_ok D v S T \<longleftrightarrow> it_ok T \<and> (\<forall>j<NINODE. iref (T j) > 0 \<and> idev (T j) = D \<and> is_valid (T j) \<longrightarrow> from_disk v S (T j) = T j)"

text \<open>
  The state inside a file system call: process \<open>i\<close> is inside a transaction that has recorded the blocks \<open>W\<close>, holds no buffer, and
  has locked the inodes in the entries \<open>L\<close> and no others.
\<close>

definition calm :: "uint \<Rightarrow> uint \<Rightarrow> 'z fsst_scheme \<Rightarrow> nat \<Rightarrow> uint set \<Rightarrow> nat set \<Rightarrow> bool" where
  "calm D st s i W L \<longleftrightarrow> itx D st s i W \<and> card W < NBUF \<and> tab_ok D (blk D s) (sb s) (inodes s) \<and>
     (\<forall>j. j \<notin> L \<longrightarrow> sl_locked (sleeplocks s (Inode_lk j)) = 0) \<and> (\<forall>j\<in>L. imine s i j)"

text \<open>The same disk, as a call that only reads leaves it.\<close>

definition same_disk :: "uint \<Rightarrow> 'z fsst_scheme \<Rightarrow> 'z fsst_scheme \<Rightarrow> bool" where
  "same_disk D s t \<longleftrightarrow> blk D t = blk D s \<and> sb t = sb s \<and> dwrites t = dwrites s"

lemma same_disk_trans: "same_disk D s t \<Longrightarrow> same_disk D t u \<Longrightarrow> same_disk D s u"
  by (simp add: same_disk_def)

lemma calm_locks:
  assumes "calm D st s i W L"
  shows "lock_free Itable_lock (sync s)" "sync_ok (sync s)"
  using assms txs_running [of D st s i "{}" W] by (auto simp: calm_def itx_def running_def procs_free_def)

lemma tab_ok_count:
  assumes "tab_ok D v S T" "k < NINODE" "names (T k) D n" "0 \<le> iref (T k) + m"
  shows "tab_ok D v S (T(k := (T k)\<lparr>iref := iref (T k) + m\<rparr>))" "irefs (T(k := (T k)\<lparr>iref := iref (T k) + m\<rparr>)) = add_refs D n m (irefs T)"
  using assms it_ok_count [of T k D n m] by (auto simp: tab_ok_def names_def)

lemma tab_ok_claim:
  assumes "tab_ok D v S T" "k < NINODE" "iref (T k) = 0" "\<forall>j<NINODE. \<not> names (T j) D n"
  defines "J \<equiv> (T k)\<lparr>idev := D, inum := n, iref := 1, is_valid := False\<rparr>"
  shows "tab_ok D v S (T(k := J))" "irefs (T(k := J)) = add_refs D n 1 (irefs T)"
  using assms it_ok_claim [of T k D n J] by (auto simp: tab_ok_def)

lemma calm_table:
  assumes "calm D st s i W L" "tab_ok D (blk D s) (sb s) T"
  shows "calm D st (s\<lparr>sync := quiet (sync s), inodes := T\<rparr>) i W L"
  using assms itx_quiet [of D st s i W] by (simp add: calm_def imine_def)

lemma calm_frame:
  assumes "calm D st s i W L" "tst_frame s t" "itx D st t i W" "blk D t = blk D s"
  shows "calm D st t i W L" "same_disk D s t" "inodes t = inodes s"
  using assms tst_frame_fs [OF assms(2)] by (simp_all add: calm_def imine_def same_disk_def)

section \<open>The routines\<close>

lemma iget_calm:
  assumes "calm D st s i W L" "\<exists>j<NINODE. names (inodes s j) D n \<or> iref (inodes s j) = 0"
  shows "\<exists>j T. iget D n s = Ok j (s\<lparr>sync := quiet (sync s), inodes := T\<rparr>) \<and> j < NINODE \<and> tab_ok D (blk D s) (sb s) T \<and> names (T j) D n \<and>
    irefs T = add_refs D n 1 (irefs (inodes s)) \<and>
    (if names (inodes s j) D n then T = (inodes s)(j := (inodes s j)\<lparr>iref := iref (inodes s j) + 1\<rparr>)
     else iref (inodes s j) = 0 \<and> T = (inodes s)(j := (inodes s j)\<lparr>idev := D, inum := n, iref := 1, is_valid := False\<rparr>))"
proof -
  let ?T = "inodes s"
  have tab: "tab_ok D (blk D s) (sb s) ?T" using assms(1) by (simp add: calm_def)
  note run = iget_run [OF calm_locks [OF assms(1)], of D n, unfolded iget_scan_run, folded names_def, simplified]
  show ?thesis
  proof (cases "find (\<lambda>j. names (?T j) D n) [0..<NINODE]")
    case (Some j)
    then have j: "j < NINODE" "names (?T j) D n" using find_SomeD [OF Some] by simp_all
    then have "0 \<le> iref (?T j) + 1" by (simp add: names_def)
    note c = tab_ok_count [OF tab j this]
    have "names ((?T j)\<lparr>iref := iref (?T j) + 1\<rparr>) D n" using j(2) by (simp add: names_def)
    then show ?thesis using run Some j c by (intro exI [of _ j] exI [of _ "?T(j := (?T j)\<lparr>iref := iref (?T j) + 1\<rparr>)"]) simp
  next
    case None
    then have no: "\<forall>j<NINODE. \<not> names (?T j) D n" by (auto simp: find_None_iff)
    then have "find (\<lambda>j. iref (?T j) = 0) [0..<NINODE] \<noteq> None" using assms(2) by (auto simp: find_None_iff)
    then obtain j where f: "find (\<lambda>j. iref (?T j) = 0) [0..<NINODE] = Some j" by blast
    then have j: "j < NINODE" "iref (?T j) = 0" using find_SomeD [OF f] by simp_all
    note c = tab_ok_claim [OF tab j no]
    have "names ((?T j)\<lparr>idev := D, inum := n, iref := 1, is_valid := False\<rparr>) D n" by (simp add: names_def)
    then show ?thesis using run None f j no c
      by (intro exI [of _ j] exI [of _ "?T(j := (?T j)\<lparr>idev := D, inum := n, iref := 1, is_valid := False\<rparr>)"]) simp
  qed
qed

lemma ilock_calm:
  fixes s :: "'z fsst_scheme"
  assumes "block_driver rw" "calm D st s i W {}" "k < NINODE" "names (inodes s k) D n" "IBLOCK n (sb s) < 2 ^ 31"
    "get16 (doff n) (blk D s (IBLOCK n (sb s))) \<noteq> 0"
  shows "\<exists>t. ilock rw (Some k) s = Ok () t \<and> calm D st t i W {k} \<and> same_disk D s t \<and>
    inodes t = (inodes s)(k := (from_disk (blk D s) (sb s) (inodes s k))\<lparr>is_valid := True\<rparr>)"
proof -
  have ld: "inode_disk rw" using assms(1) by (simp add: inode_disk_def fs_disk_def log_disk_def)
  let ?I = "inodes s k"
  have c: "itx D st s i W" "card W < NBUF" "tab_ok D (blk D s) (sb s) (inodes s)" "\<forall>j. sl_locked (sleeplocks s (Inode_lk j)) = 0"
    using assms(2) by (simp_all add: calm_def)
  have I: "1 \<le> iref ?I" "idev ?I = D" "inum ?I = n" using assms(4) by (simp_all add: names_def)
  show ?thesis
  proof (cases "is_valid ?I")
    case True
    have r: "running s i" "lock_free (Inode_lk k) (sync s)" using c(1) txs_running by (auto simp: itx_def)
    define t where "t = s\<lparr>sync := quiet (sync s), sleeplocks := (sleeplocks s)(Inode_lk k := (sleeplocks s (Inode_lk k))\<lparr>sl_locked := 1, sl_pid := pid (procs s i)\<rparr>)\<rparr>"
    have a: "acquiresleep (Inode_lk k) s = Ok () t" using acquiresleep_free_run [OF r] c(4) by (simp add: t_def proc_free_lock_def)
    have "from_disk (blk D s) (sb s) ?I = ?I" using c(3) True assms(3,4) by (simp add: tab_ok_def names_def)
    moreover have "?I\<lparr>is_valid := True\<rparr> = ?I" using True by (cases ?I) simp
    ultimately have e: "(inodes s)(k := (from_disk (blk D s) (sb s) ?I)\<lparr>is_valid := True\<rparr>) = inodes s" by simp
    have run: "ilock rw (Some k) s = Ok () t" using a I(1) True by (simp add: ilock_def t_def)
    have "itx D st t i W" using itx_sleep [OF itx_quiet [OF c(1)]] by (simp add: t_def)
    then have "calm D st t i W {k}" using c by (simp add: calm_def imine_def t_def)
    then show ?thesis using run e by (intro exI [of _ t]) (simp add: t_def same_disk_def)
  next
    case False
    then obtain t where t: "ilock rw (Some k) s = Ok () t" "itx D st t i W" "same_disk D s t" "imine t i k"
      "inodes t = (inodes s)(k := (from_disk (blk D s) (sb s) ?I)\<lparr>is_valid := True\<rparr>)" "\<forall>j. j \<noteq> k \<longrightarrow> sleeplocks t (Inode_lk j) = sleeplocks s (Inode_lk j)"
      using inode_disk.ilock_ok [OF ld c(1) I(1) _ False I(2) c(2)] c(4) assms(5,6) I(3) by (auto simp: wp_iff from_disk_def same_disk_def)
    have "tab_ok D (blk D s) (sb s) (inodes t)" using c(3) assms(3) by (auto simp: t(5) tab_ok_def it_ok_def names_def)
    then have "calm D st t i W {k}" using t c(2,4) by (simp add: calm_def same_disk_def)
    then show ?thesis using t by blast
  qed
qed

lemma iunlock_calm:
  assumes "calm D st s i W {k}" "1 \<le> iref (inodes s k)"
  shows "\<exists>t. iunlock (Some k) s = Ok () t \<and> calm D st t i W {} \<and> same_disk D s t \<and> inodes t = inodes s"
proof -
  have c: "itx D st s i W" "imine s i k" using assms(1) by (simp_all add: calm_def)
  have "calm D st (iunlocked i k s) i W {}" using assms(1) itx_unlocked [OF c(1)] by (simp add: calm_def)
  then show ?thesis using iunlock_run [OF c assms(2)] by (intro exI [of _ "iunlocked i k s"]) (simp add: same_disk_def)
qed

lemma iunlockput_calm:
  assumes "calm D st s i W {k}" "k < NINODE" "names (inodes s k) D n" "inlink (inodes s k) \<noteq> 0"
  shows "\<exists>t. iunlockput rw k s = Ok () t \<and> calm D st t i W {} \<and> same_disk D s t \<and>
    inodes t = (inodes s)(k := (inodes s k)\<lparr>iref := iref (inodes s k) - 1\<rparr>) \<and> irefs (inodes t) = add_refs D n (- 1) (irefs (inodes s))"
proof -
  have r: "0 < iref (inodes s k)" "0 \<le> iref (inodes s k) + - 1" using assms(3) by (simp_all add: names_def)
  obtain t where t: "iunlock (Some k) s = Ok () t" "calm D st t i W {}" "same_disk D s t" "inodes t = inodes s"
    using iunlock_calm [OF assms(1)] r(1) by auto
  let ?T = "(inodes s)(k := (inodes s k)\<lparr>iref := iref (inodes s k) + - 1\<rparr>)"
  have "tab_ok D (blk D t) (sb t) (inodes t)" using t(2) by (simp add: calm_def)
  then have c: "tab_ok D (blk D t) (sb t) ?T" "irefs ?T = add_refs D n (- 1) (irefs (inodes s))"
    using tab_ok_count [of D "blk D t" "sb t" "inodes t" k n "- 1"] assms(2,3) r(2) t(4) by simp_all
  have "iput rw k t = Ok () (t\<lparr>sync := quiet (sync t), inodes := ?T\<rparr>)" using iput_run [OF calm_locks [OF t(2)], of k rw] assms(4) t(4) by simp
  then have "iunlockput rw k s = Ok () (t\<lparr>sync := quiet (sync t), inodes := ?T\<rparr>)" using t(1) by (simp add: iunlockput_def)
  then show ?thesis using calm_table [OF t(2) c(1)] c(2) t(3)
    by (intro exI [of _ "t\<lparr>sync := quiet (sync t), inodes := ?T\<rparr>"]) (simp add: same_disk_def)
qed


section \<open>Directories on disk\<close>

text \<open>The inode with number \<open>n\<close> as the disk has it, the number of blocks its size calls for, and its bytes.\<close>

definition dnode :: "(uint \<Rightarrow> byte list) \<Rightarrow> superblock \<Rightarrow> uint \<Rightarrow> inode" where
  "dnode v S n = from_disk v S \<lparr>idev = 0, inum = n, iref = 0, is_valid = False, itype = 0, imajor = 0, iminor = 0, inlink = 0, isize = 0, addrs = (\<lambda>_. 0)\<rparr>"

definition fblocks :: "inode \<Rightarrow> nat" where
  "fblocks I = (unat (isize I) + 1023) div 1024"

definition file_data :: "(uint \<Rightarrow> byte list) \<Rightarrow> superblock \<Rightarrow> uint \<Rightarrow> byte list" where
  "file_data v S n = fdata v (dnode v S n) (fblocks (dnode v S n))"

lemma fblocks_enough: "unat (isize I) \<le> BSIZE * fblocks I"
  by (simp add: fblocks_def BSIZE_def)

lemma dnode_entry:
  assumes "inum I = n"
  shows "itype (from_disk v S I) = itype (dnode v S n)" "isize (from_disk v S I) = isize (dnode v S n)" "inlink (from_disk v S I) = inlink (dnode v S n)"
    "fdata v (from_disk v S I) m = fdata v (dnode v S n) m" "mapped st v (from_disk v S I) m = mapped st v (dnode v S n) m"
proof -
  have a: "addrs (from_disk v S I) k = addrs (dnode v S n) k" if "k \<le> NDIRECT" for k using that assms by (simp add: dnode_def from_disk_def get_dinode_def)
  then have f: "fblock v (from_disk v S I) = fblock v (dnode v S n)" by (auto simp: fblock_def fun_eq_iff)
  show "itype (from_disk v S I) = itype (dnode v S n)" "inlink (from_disk v S I) = inlink (dnode v S n)"
    and z: "isize (from_disk v S I) = isize (dnode v S n)" using assms by (simp_all add: dnode_def from_disk_def get_dinode_def)
  show "fdata v (from_disk v S I) m = fdata v (dnode v S n) m" by (simp add: fdata_def content_def f z)
  show "mapped st v (from_disk v S I) m = mapped st v (dnode v S n) m" using a by (simp add: mapped_def f)
qed

text \<open>
  A tree: every inode in \<open>N\<close> has a type, a block that can be addressed and a link, the directories among them consist of allocated blocks
  and whole entries, and the entries in use name inodes in \<open>N\<close>.
\<close>

definition visit_ok :: "uint \<Rightarrow> (uint \<Rightarrow> byte list) \<Rightarrow> superblock \<Rightarrow> uint \<Rightarrow> bool" where
  "visit_ok st v S n \<longleftrightarrow> IBLOCK n S < 2 ^ 31 \<and> itype (dnode v S n) \<noteq> 0 \<and> inlink (dnode v S n) \<noteq> 0 \<and>
     (itype (dnode v S n) = I_DIR \<longrightarrow> mapped st v (dnode v S n) (fblocks (dnode v S n)) \<and> 16 dvd unat (isize (dnode v S n)))"

definition entry_inum :: "byte list \<Rightarrow> nat \<Rightarrow> uint" where
  "entry_inum d l = ucast (get16 0 (entry d l))"

definition tree :: "uint \<Rightarrow> (uint \<Rightarrow> byte list) \<Rightarrow> superblock \<Rightarrow> uint set \<Rightarrow> bool" where
  "tree st v S N \<longleftrightarrow> (\<forall>n\<in>N. visit_ok st v S n \<and> (itype (dnode v S n) = I_DIR \<longrightarrow>
     (\<forall>l < length (file_data v S n) div 16. get16 0 (entry (file_data v S n) l) \<noteq> 0 \<longrightarrow> entry_inum (file_data v S n) l \<in> N)))"

text \<open>The walk along a path: it ends at an inode, at something that is not a directory, or in a directory that lacks the name.\<close>

datatype walk = Found uint | Not_dir | Missing uint

fun resolve :: "(uint \<Rightarrow> byte list) \<Rightarrow> superblock \<Rightarrow> uint \<Rightarrow> byte list list \<Rightarrow> walk" where
  "resolve v S n [] = Found n"
| "resolve v S n (e # es) =
     (if itype (dnode v S n) \<noteq> I_DIR then Not_dir
      else case dir_find (file_data v S n) e of
        None \<Rightarrow> Missing n
      | Some l \<Rightarrow> resolve v S (entry_inum (file_data v S n) l) es)"

lemma itype_get16: "itype (dnode v S n) \<noteq> 0 \<longleftrightarrow> get16 (doff n) (v (IBLOCK n S)) \<noteq> 0"
  by (simp add: dnode_def from_disk_def get_dinode_def scast_0_iff)

lemma dir_find_cong: "cname a = cname b \<Longrightarrow> dir_find d a = dir_find d b"
  by (simp add: dir_find_def matches_def [abs_def])

lemma dir_find_tree:
  assumes "tree st v S N" "n \<in> N" "itype (dnode v S n) = I_DIR" "dir_find (file_data v S n) e = Some l"
  shows "entry_inum (file_data v S n) l \<in> N"
  using assms find_SomeD [OF assms(4) [unfolded dir_find_def]] by (auto simp: tree_def matches_def)

lemma dirlookup_calm:
  fixes s :: "'z fsst_scheme"
  assumes "block_driver rw" "calm D st s i W {k}" "names (inodes s k) D n" "from_disk (blk D s) (sb s) (inodes s k) = inodes s k"
    "visit_ok st (blk D s) (sb s) n" "itype (dnode (blk D s) (sb s) n) = I_DIR"
  defines "d \<equiv> file_data (blk D s) (sb s) n"
  shows "\<exists>t. calm D st t i W {k} \<and> same_disk D s t \<and> inodes t = inodes s \<and>
    dirlookup rw k name s = (case dir_find d name of
      None \<Rightarrow> Ok None t | Some l \<Rightarrow> bnd (iget D (entry_inum d l)) (\<lambda>ip. ret (Some (ip, of_nat (16 * l)))) t)"
proof -
  let ?I = "inodes s k" and ?v = "blk D s" and ?N = "dnode (blk D s) (sb s) n"
  let ?m = "fblocks ?N" let ?z = "unat (isize ?I)"
  have n: "idev ?I = D" "inum ?I = n" using assms(3) by (simp_all add: names_def)
  note e = dnode_entry [OF n(2), where v = ?v and S = "sb s", unfolded assms(4)]
  have r: "readable D st s i W k ?m"
    using assms(2,5,6) n(1) e(2) fblocks_enough [of ?N] by (simp add: readable_def calm_def visit_ok_def e(5))
  have d: "fdata ?v ?I ?m = d" by (simp add: d_def file_data_def e(4))
  have "16 dvd ?z" using assms(5,6) e(2) by (simp add: visit_ok_def)
  then obtain q where q: "?z = 16 * q" by (elim dvdE)
  have "length d = ?z" using length_content [of st ?v ?I ?m] r by (simp add: d [symmetric] fdata_def readable_def)
  then have l: "(?z + 15) div dirent_size = q" "length d div 16 = q" using q by (simp_all add: dirent_size_def)
  obtain t where t: "readable D st t i W k ?m" "inodes t = inodes s" "blk D t = ?v" "tst_frame s t"
    "dirlookup_loop rw k name (of_nat (16 * 0)) q s = (case find (matches d name) [0..<0 + q] of
       None \<Rightarrow> Ok None t | Some l \<Rightarrow> bnd (iget D (ucast (get16 0 (entry d l)))) (\<lambda>ip. ret (Some (ip, of_nat (16 * l)))) t)"
    using dirlookup_loop_run [OF assms(1) r, of 0 q name] q unfolding d by auto
  have "itx D st t i W" using t(1) by (simp add: readable_def)
  from calm_frame [OF assms(2) t(4) this t(3)] have "calm D st t i W {k}" "same_disk D s t" by simp_all
  moreover have "dirlookup rw k name s = (case dir_find d name of
      None \<Rightarrow> Ok None t | Some l \<Rightarrow> bnd (iget D (entry_inum d l)) (\<lambda>ip. ret (Some (ip, of_nat (16 * l)))) t)"
    using t(5) assms(6) e(1) by (simp add: dirlookup_def l dir_find_def entry_inum_def split: option.split)
  ultimately show ?thesis using t(2) by blast
qed


section \<open>Walking a path\<close>

text \<open>
  Free entries of the table. A walk holds one reference: when it is the only one to its inode, the entry becomes free
  as the walk moves on, so it counts as room.
\<close>

definition room :: "(nat \<Rightarrow> int) \<Rightarrow> nat \<Rightarrow> nat" where
  "room c k = card {j. j < NINODE \<and> c j = 0} + (if c k = 1 then 1 else 0)"

lemma room_free: "2 \<le> room c k \<Longrightarrow> \<exists>j<NINODE. c j = 0"
  using card_gt_0_iff [of "{j. j < NINODE \<and> c j = 0}"] by (auto simp: room_def split: if_splits)

lemma room_step:
  assumes "k < NINODE" "j < NINODE" "1 \<le> c k" "0 \<le> c j"
  defines "d \<equiv> c(j := c j + 1)"
  shows "room (d(k := d k - 1)) j = room c k"
proof (cases "j = k")
  case True
  then show ?thesis by (simp add: d_def)
next
  case False
  let ?Z = "{l. l < NINODE \<and> c l = 0}" let ?e = "d(k := d k - 1)"
  have e: "{l. l < NINODE \<and> ?e l = 0} = ?Z - {j} \<union> (if c k = 1 then {k} else {})" using False assms by (auto split: if_splits)
  have "k \<notin> ?Z" using assms(3) by simp
  moreover have "card (?Z - {j}) + (if c j = 0 then 1 else 0) = card ?Z"
    using assms(2) card_Suc_Diff1 [of ?Z j] by auto
  ultimately have "card (?Z - {j} \<union> (if c k = 1 then {k} else {})) + (if c j = 0 then 1 else 0) = card ?Z + (if c k = 1 then 1 else 0)" by simp
  moreover have "?e j = 1 \<longleftrightarrow> c j = 0" using False by (simp add: d_def)
  ultimately show ?thesis unfolding room_def e by simp
qed

lemma add_refs_simps: "add_refs D n m (add_refs D n' m' R) = add_refs D n' m' (add_refs D n m R)" "add_refs D n (- 1) (add_refs D n 1 R) = R"
  "add_refs D n 1 (add_refs D n (- 1) R) = R"
  by (auto simp: add_refs_def fun_eq_iff)

text \<open>The references after a walk that started with one on inode \<open>n\<close>: that one is given up, and one on the last inode is kept.\<close>

definition moved :: "uint \<Rightarrow> uint \<Rightarrow> walk \<Rightarrow> (uint \<Rightarrow> uint \<Rightarrow> int) \<Rightarrow> uint \<Rightarrow> uint \<Rightarrow> int" where
  "moved D n w R = (let R' = add_refs D n (- 1) R in
     case w of Found n' \<Rightarrow> add_refs D n' 1 R' | Not_dir \<Rightarrow> R' | Missing n' \<Rightarrow> add_refs D n' 1 R')"

definition walked :: "uint \<Rightarrow> (nat option \<times> byte list) \<Rightarrow> walk \<Rightarrow> (nat \<Rightarrow> inode) \<Rightarrow> bool" where
  "walked D r w T \<longleftrightarrow> (case w of Found n \<Rightarrow> \<exists>j<NINODE. fst r = Some j \<and> names (T j) D n | _ \<Rightarrow> fst r = None)"

lemma moved_step: "moved D n' w (add_refs D n (- 1) (add_refs D n' 1 R)) = moved D n w R"
  by (simp add: moved_def Let_def add_refs_simps split: walk.split)

lemma moved_Found: "moved D n (Found n) R = R" "moved D n (Missing n) R = R" "moved D n Not_dir R = add_refs D n (- 1) R"
  by (simp_all add: moved_def add_refs_simps)

text \<open>One element: the directory is locked and searched, the inode of the entry is taken and the directory given up.\<close>

lemma namex_step:
  fixes s :: "'z fsst_scheme"
  assumes "block_driver rw" "calm D st s i W {}" "visit_ok st (blk D s) (sb s) n" "k < NINODE" "names (inodes s k) D n"
    "skipelem path name = Some (path', name')"
  defines "N \<equiv> dnode (blk D s) (sb s) n" and "d \<equiv> file_data (blk D s) (sb s) n"
  shows "\<exists>t. calm D st t i W {k} \<and> same_disk D s t \<and>
    inodes t = (inodes s)(k := (from_disk (blk D s) (sb s) (inodes s k))\<lparr>is_valid := True\<rparr>) \<and>
    namex_loop rw k path False name s =
      (if itype N \<noteq> I_DIR then seq (iunlockput rw k) (ret (None, name')) t
       else case dir_find d name' of
         None \<Rightarrow> seq (iunlock (Some k)) (ret (None, name')) t
       | Some l \<Rightarrow> bnd (iget D (entry_inum d l)) (\<lambda>jp. seq (iunlockput rw k) (namex_loop rw jp path' False name')) t)"
proof -
  let ?J = "(from_disk (blk D s) (sb s) (inodes s k))\<lparr>is_valid := True\<rparr>"
  have n: "inum (inodes s k) = n" using assms(5) by (simp add: names_def)
  have v: "IBLOCK n (sb s) < 2 ^ 31" "get16 (doff n) (blk D s (IBLOCK n (sb s))) \<noteq> 0" using assms(3) by (simp_all add: visit_ok_def itype_get16)
  obtain u where u: "ilock rw (Some k) s = Ok () u" "calm D st u i W {k}" "same_disk D s u" "inodes u = (inodes s)(k := ?J)"
    using ilock_calm [OF assms(1,2,4,5) v] by blast
  have ty: "itype (inodes u k) = itype N" using dnode_entry(1) [OF n] by (simp add: u(4) N_def)
  note run = namex_loop.simps [of rw k path False name s, unfolded assms(6)]
  show ?thesis
  proof (cases "itype N = I_DIR")
    case False
    then have "namex_loop rw k path False name s = seq (iunlockput rw k) (ret (None, name')) u"
      unfolding run using u(1) ty by simp
    then show ?thesis using u(2-4) False by (intro exI [of _ u]) simp
  next
    case True
    have same: "blk D u = blk D s" "sb u = sb s" using u(3) by (simp_all add: same_disk_def)
    have k: "names (inodes u k) D n" "from_disk (blk D u) (sb u) (inodes u k) = inodes u k"
      using assms(5) by (simp_all add: u(4) names_def same)
    obtain t where t: "calm D st t i W {k}" "same_disk D u t" "inodes t = inodes u" "dirlookup rw k name' u = (case dir_find d name' of
        None \<Rightarrow> Ok None t | Some l \<Rightarrow> bnd (iget D (entry_inum d l)) (\<lambda>ip. ret (Some (ip, of_nat (16 * l)))) t)"
      using dirlookup_calm [OF assms(1) u(2) k, of name', unfolded same, OF assms(3) True [unfolded N_def]] unfolding d_def by blast
    have "namex_loop rw k path False name s = (case dir_find d name' of
         None \<Rightarrow> seq (iunlock (Some k)) (ret (None, name')) t
       | Some l \<Rightarrow> bnd (iget D (entry_inum d l)) (\<lambda>jp. seq (iunlockput rw k) (namex_loop rw jp path' False name')) t)"
      unfolding run using u(1) ty True t(4)
      by (simp add: seq_def split: option.split) (simp add: bnd_def split: outcome.split)
    then show ?thesis using t(1,3) u(4) same_disk_trans [OF u(3) t(2)] True by (intro exI [of _ t]) simp
  qed
qed


lemma irefs_cong: "\<forall>j. iref (T j) = iref (U j) \<and> idev (T j) = idev (U j) \<and> inum (T j) = inum (U j) \<Longrightarrow> irefs T = irefs U"
  by (simp add: irefs_def names_def fun_eq_iff cong: if_cong)

text \<open>From a locked directory to the inode of one of its entries.\<close>

lemma namex_advance:
  fixes t :: "'z fsst_scheme"
  assumes "calm D st t i W {k}" "k < NINODE" "names (inodes t k) D n" "inlink (inodes t k) \<noteq> 0" "2 \<le> room (\<lambda>j. iref (inodes t j)) k"
  shows "\<exists>j u. bnd (iget D n') (\<lambda>jp. seq (iunlockput rw k) (g jp)) t = g j u \<and> calm D st u i W {} \<and> same_disk D t u \<and> j < NINODE \<and>
    names (inodes u j) D n' \<and> irefs (inodes u) = add_refs D n (- 1) (add_refs D n' 1 (irefs (inodes t))) \<and> 2 \<le> room (\<lambda>j. iref (inodes u j)) j"
proof -
  let ?c = "\<lambda>j. iref (inodes t j)"
  have f: "\<exists>j<NINODE. names (inodes t j) D n' \<or> iref (inodes t j) = 0" using room_free [OF assms(5)] by blast
  obtain j T where j: "iget D n' t = Ok j (t\<lparr>sync := quiet (sync t), inodes := T\<rparr>)" "j < NINODE" "tab_ok D (blk D t) (sb t) T" "names (T j) D n'"
    "irefs T = add_refs D n' 1 (irefs (inodes t))"
    "if names (inodes t j) D n' then T = (inodes t)(j := (inodes t j)\<lparr>iref := iref (inodes t j) + 1\<rparr>)
     else iref (inodes t j) = 0 \<and> T = (inodes t)(j := (inodes t j)\<lparr>idev := D, inum := n', iref := 1, is_valid := False\<rparr>)"
    using iget_calm [OF assms(1) f] by blast
  have k0: "0 < iref (inodes t k)" using assms(3) by (simp add: names_def)
  have "(\<lambda>l. iref (T l)) = ?c(j := ?c j + 1) \<and> names (T k) D n \<and> inlink (T k) \<noteq> 0 \<and> 0 \<le> ?c j \<and> (j = k \<longrightarrow> n = n')"
  proof (cases "names (inodes t j) D n'")
    case True
    then have T: "T = (inodes t)(j := (inodes t j)\<lparr>iref := iref (inodes t j) + 1\<rparr>)" using j(6) by simp
    show ?thesis using assms(3,4) True by (auto simp: T names_def)
  next
    case False
    then have z: "iref (inodes t j) = 0" and T: "T = (inodes t)(j := (inodes t j)\<lparr>idev := D, inum := n', iref := 1, is_valid := False\<rparr>)" using j(6) by simp_all
    have "j \<noteq> k" using z k0 by auto
    then show ?thesis using assms(3,4) z by (auto simp: T names_def)
  qed
  then have cT: "(\<lambda>l. iref (T l)) = ?c(j := ?c j + 1)" and kT: "names (T k) D n" "inlink (T k) \<noteq> 0" and c0: "0 \<le> ?c j" and jk: "j = k \<longrightarrow> n = n'"
    by blast+
  let ?t1 = "t\<lparr>sync := quiet (sync t), inodes := T\<rparr>"
  have "calm D st ?t1 i W {k}" by (rule calm_table [OF assms(1) j(3)])
  then obtain u where u: "iunlockput rw k ?t1 = Ok () u" "calm D st u i W {}" "same_disk D ?t1 u" "inodes u = T(k := (T k)\<lparr>iref := iref (T k) - 1\<rparr>)"
    "irefs (inodes u) = add_refs D n (- 1) (irefs T)"
    using iunlockput_calm [of D st ?t1 i W k n rw] assms(2) kT by auto
  have "iref (inodes u l) = ((?c(j := ?c j + 1))(k := (?c(j := ?c j + 1)) k - 1)) l" for l
    using fun_cong [OF cT, of l] fun_cong [OF cT, of k] by (simp add: u(4))
  then have "(\<lambda>l. iref (inodes u l)) = (?c(j := ?c j + 1))(k := (?c(j := ?c j + 1)) k - 1)" by (rule ext)
  moreover have "room ((?c(j := ?c j + 1))(k := (?c(j := ?c j + 1)) k - 1)) j = room ?c k" by (rule room_step) (use assms(2) j(2) k0 c0 in simp_all)
  ultimately have "room (\<lambda>l. iref (inodes u l)) j = room ?c k" by (rule ssubst [where P = "\<lambda>f. room f j = room ?c k"])
  moreover have "names (inodes u j) D n'" using j(4) jk k0 u(4) fun_cong [OF cT, of j] by (cases "j = k") (simp_all add: names_def)
  moreover have "same_disk D t u" using u(3) by (simp add: same_disk_def)
  ultimately show ?thesis using j(1,2,5) u assms(5) by (intro exI [of _ j] exI [of _ u]) simp
qed

lemma namex_loop_ok:
  fixes s :: "'z fsst_scheme"
  assumes "block_driver rw" "calm D st s i W {}" "tree st (blk D s) (sb s) N" "n \<in> N" "k < NINODE" "names (inodes s k) D n"
    "2 \<le> room (\<lambda>j. iref (inodes s j)) k" "0 \<notin> set path" "length name = DIRSIZ"
  shows "\<exists>r t. namex_loop rw k path False name s = Ok r t \<and> calm D st t i W {} \<and> same_disk D s t \<and>
    walked D r (resolve (blk D s) (sb s) n (elements path)) (inodes t) \<and>
    irefs (inodes t) = moved D n (resolve (blk D s) (sb s) n (elements path)) (irefs (inodes s))"
  using assms
proof (induction "length path" arbitrary: path name n k s rule: less_induct)
  case less
  let ?v = "blk D s" and ?S = "sb s"
  note dr = less.prems(1) and ca = less.prems(2) and nm = less.prems(6)
  show ?case
  proof (cases "skipelem path name")
    case None
    then have "elements path = []" by (simp add: skipelem_None_iff)
    moreover have "namex_loop rw k path False name s = Ok (Some k, name) s" using None by (subst namex_loop.simps) simp
    ultimately show ?thesis using ca nm less.prems(5) by (intro exI [of _ "(Some k, name)"] exI [of _ s]) (auto simp: walked_def moved_Found same_disk_def)
  next
    case (Some p)
    obtain path' name' where p: "skipelem path name = Some (path', name')" using Some by (cases p) auto
    note e = skipelem_Some [OF p less.prems(9)]
    obtain x where el: "elements path = x # elements path'" using e(1) by blast
    have "cname name' = take DIRSIZ x" using e(4) [OF less.prems(8)] el by simp
    moreover have "takeWhile (\<lambda>c. c \<noteq> 0) (cname name') = cname name'" by (auto simp: cname_def takeWhile_eq_all_conv dest: set_takeWhileD)
    ultimately have cn: "cname name' = cname x" unfolding cname_def [of x] by argo
    have vo: "visit_ok st ?v ?S n" using less.prems(3,4) by (auto simp: tree_def)
    let ?d = "file_data ?v ?S n"
    obtain t where t: "calm D st t i W {k}" "same_disk D s t" "inodes t = (inodes s)(k := (from_disk ?v ?S (inodes s k))\<lparr>is_valid := True\<rparr>)"
      and run: "namex_loop rw k path False name s = (if itype (dnode ?v ?S n) \<noteq> I_DIR then seq (iunlockput rw k) (ret (None, name')) t
        else case dir_find ?d name' of None \<Rightarrow> seq (iunlock (Some k)) (ret (None, name')) t
        | Some l \<Rightarrow> bnd (iget D (entry_inum ?d l)) (\<lambda>jp. seq (iunlockput rw k) (namex_loop rw jp path' False name')) t)"
      using namex_step [OF dr ca vo less.prems(5) nm p] by blast
    have ik: "inum (inodes s k) = n" "0 < iref (inodes s k)" using nm by (simp_all add: names_def)
    have c: "(\<lambda>j. iref (inodes t j)) = (\<lambda>j. iref (inodes s j))" "irefs (inodes t) = irefs (inodes s)"
      by (auto simp: t(3) intro!: irefs_cong)
    have kt: "names (inodes t k) D n" "inlink (inodes t k) \<noteq> 0"
      using nm vo dnode_entry(3) [OF ik(1), of ?v ?S] by (simp_all add: t(3) names_def visit_ok_def)
    consider (nodir) "itype (dnode ?v ?S n) \<noteq> I_DIR" | (none) "itype (dnode ?v ?S n) = I_DIR" "dir_find ?d x = None"
      | (found) l where "itype (dnode ?v ?S n) = I_DIR" "dir_find ?d x = Some l" by fastforce
    then show ?thesis
    proof cases
      case nodir
      obtain u where "iunlockput rw k t = Ok () u" "calm D st u i W {}" "same_disk D t u" "irefs (inodes u) = add_refs D n (- 1) (irefs (inodes t))"
        using iunlockput_calm [OF t(1) less.prems(5) kt] by blast
      then show ?thesis using run nodir el c(2) same_disk_trans [OF t(2)]
        by (intro exI [of _ "(None, name')"] exI [of _ u]) (simp add: walked_def moved_Found)
    next
      case none
      obtain u where "iunlock (Some k) t = Ok () u" "calm D st u i W {}" "same_disk D t u" "inodes u = inodes t"
        using iunlock_calm [OF t(1)] kt(1) by (auto simp: names_def)
      then show ?thesis using run none el c(2) same_disk_trans [OF t(2)] dir_find_cong [OF cn]
        by (intro exI [of _ "(None, name')"] exI [of _ u]) (simp add: walked_def moved_Found)
    next
      case (found l)
      let ?n' = "entry_inum ?d l"
      have m: "?n' \<in> N" by (rule dir_find_tree [OF less.prems(3,4) found])
      obtain j u where u: "bnd (iget D ?n') (\<lambda>jp. seq (iunlockput rw k) (namex_loop rw jp path' False name')) t = namex_loop rw j path' False name' u"
        "calm D st u i W {}" "same_disk D t u" "j < NINODE" "names (inodes u j) D ?n'"
        "irefs (inodes u) = add_refs D n (- 1) (add_refs D ?n' 1 (irefs (inodes t)))" "2 \<le> room (\<lambda>j. iref (inodes u j)) j"
        using namex_advance [OF t(1) less.prems(5) kt, of ?n' rw "\<lambda>jp. namex_loop rw jp path' False name'"] less.prems(7) c(1) by auto
      note su = same_disk_trans [OF t(2) u(3)]
      then have b: "blk D u = ?v" "sb u = ?S" by (simp_all add: same_disk_def)
      have "0 \<notin> set path'" using e(5) less.prems(8) by blast
      then obtain r w where w: "namex_loop rw j path' False name' u = Ok r w" "calm D st w i W {}" "same_disk D u w"
        "walked D r (resolve ?v ?S ?n' (elements path')) (inodes w)" "irefs (inodes w) = moved D ?n' (resolve ?v ?S ?n' (elements path')) (irefs (inodes u))"
        using less.hyps [OF e(2) dr u(2) _ m u(4,5,7) _ e(3)] less.prems(3) unfolding b by blast
      have rs: "resolve ?v ?S n (elements path) = resolve ?v ?S ?n' (elements path')" using found el by simp
      show ?thesis using run found dir_find_cong [OF cn] u(1,6) w same_disk_trans [OF su w(3)] c(2)
        unfolding rs by (intro exI [of _ r] exI [of _ w]) (simp add: moved_step)
    qed
  qed
qed


lemma room_start:
  assumes "2 \<le> card {j. j < NINODE \<and> c j = 0}" "j < NINODE" "(0 :: int) \<le> c j"
  shows "2 \<le> room (c(j := c j + 1)) j"
proof -
  let ?Z = "{j. j < NINODE \<and> c j = 0}"
  have e: "{l. l < NINODE \<and> (c(j := c j + 1)) l = 0} = ?Z - {j}" using assms(3) by auto
  have "card (?Z - {j}) + (if c j = 0 then 1 else 0) = card ?Z" using assms(2) card_Suc_Diff1 [of ?Z j] by auto
  then show ?thesis unfolding room_def e using assms(1,3) by auto
qed

lemma elements_slash: "elements (slash # p) = elements p"
  by (simp add: elements_def)

lemma namei_ok:
  fixes s :: "'z fsst_scheme"
  assumes "block_driver rw" "calm ROOTDEV st s i W {}" "tree st (blk ROOTDEV s) (sb s) N" "ROOTINO \<in> N"
    "2 \<le> card {j. j < NINODE \<and> iref (inodes s j) = 0}" "0 \<notin> set path" "length junk = DIRSIZ"
  shows "\<exists>r t. namei rw junk (slash # path) s = Ok r t \<and> calm ROOTDEV st t i W {} \<and> same_disk ROOTDEV s t \<and>
    (case resolve (blk ROOTDEV s) (sb s) ROOTINO (elements path) of
       Found n \<Rightarrow> (\<exists>j<NINODE. r = Some j \<and> names (inodes t j) ROOTDEV n) \<and> irefs (inodes t) = add_refs ROOTDEV n 1 (irefs (inodes s))
     | Not_dir \<Rightarrow> r = None \<and> irefs (inodes t) = irefs (inodes s)
     | Missing n \<Rightarrow> r = None \<and> irefs (inodes t) = add_refs ROOTDEV n 1 (irefs (inodes s)))"
proof -
  let ?c = "\<lambda>j. iref (inodes s j)"
  have "{j. j < NINODE \<and> ?c j = 0} \<noteq> {}" using assms(5) by (intro notI) simp
  then have f: "\<exists>j<NINODE. names (inodes s j) ROOTDEV ROOTINO \<or> iref (inodes s j) = 0" by blast
  obtain j T where j: "iget ROOTDEV ROOTINO s = Ok j (s\<lparr>sync := quiet (sync s), inodes := T\<rparr>)" "j < NINODE"
    "tab_ok ROOTDEV (blk ROOTDEV s) (sb s) T" "names (T j) ROOTDEV ROOTINO" "irefs T = add_refs ROOTDEV ROOTINO 1 (irefs (inodes s))"
    "if names (inodes s j) ROOTDEV ROOTINO then T = (inodes s)(j := (inodes s j)\<lparr>iref := iref (inodes s j) + 1\<rparr>)
     else iref (inodes s j) = 0 \<and> T = (inodes s)(j := (inodes s j)\<lparr>idev := ROOTDEV, inum := ROOTINO, iref := 1, is_valid := False\<rparr>)"
    using iget_calm [OF assms(2) f] by blast
  have "(\<lambda>l. iref (T l)) = ?c(j := ?c j + 1) \<and> 0 \<le> ?c j"
    using j(6) by (cases "names (inodes s j) ROOTDEV ROOTINO") (auto simp: names_def)
  then have "2 \<le> room (\<lambda>l. iref (T l)) j" using room_start [OF assms(5) j(2)] by simp
  moreover have "calm ROOTDEV st (s\<lparr>sync := quiet (sync s), inodes := T\<rparr>) i W {}" by (rule calm_table [OF assms(2) j(3)])
  moreover have "0 \<notin> set (slash # path)" using assms(6) by (simp add: slash_def)
  ultimately obtain r t where t: "namex_loop rw j (slash # path) False junk (s\<lparr>sync := quiet (sync s), inodes := T\<rparr>) = Ok r t" "calm ROOTDEV st t i W {}"
    "same_disk ROOTDEV s t" "walked ROOTDEV r (resolve (blk ROOTDEV s) (sb s) ROOTINO (elements path)) (inodes t)"
    "irefs (inodes t) = moved ROOTDEV ROOTINO (resolve (blk ROOTDEV s) (sb s) ROOTINO (elements path)) (irefs T)"
    using namex_loop_ok [OF assms(1), of ROOTDEV st "s\<lparr>sync := quiet (sync s), inodes := T\<rparr>" i W N ROOTINO j "slash # path" junk] assms(3,4,7) j(2,4)
    by (auto simp: elements_slash same_disk_def)
  have "namei rw junk (slash # path) s = Ok (fst r) t" using j(1) t(1) by (simp add: namei_def namex_def)
  then show ?thesis using t(2-5) j(5)
    by (intro exI [of _ "fst r"] exI [of _ t]) (auto simp: walked_def moved_def Let_def add_refs_simps split: walk.split)
qed

lemma namei_found:
  fixes s :: "'z fsst_scheme"
  assumes "block_driver rw" "calm ROOTDEV st s i W {}" "tree st (blk ROOTDEV s) (sb s) N" "ROOTINO \<in> N"
    "2 \<le> card {j. j < NINODE \<and> iref (inodes s j) = 0}" "0 \<notin> set path" "length junk = DIRSIZ" "resolve (blk ROOTDEV s) (sb s) ROOTINO (elements path) = Found n"
  shows "\<exists>j t. namei rw junk (slash # path) s = Ok (Some j) t \<and> calm ROOTDEV st t i W {} \<and> same_disk ROOTDEV s t \<and> j < NINODE \<and> names (inodes t j) ROOTDEV n"
  using namei_ok [OF assms(1-7)] assms(8) by auto

text \<open>
  C11: \<open>namei\<close> resolves a path. On a tree of directories rooted at inode 1 of the root device, an absolute path leads the
  code exactly where the elements of the path lead on disk. If every element is found it returns an entry of the inode table for the last inode,
  with one new reference. If an element before the end is not a directory it returns null and all references are as before. If a
  directory lacks the name it returns null, but the reference to that directory is not given up: its count stays one too high. In each case
  no lock is held, no block has changed and nothing was written to the disk.
\<close>

theorem namei_correct:
  fixes s :: "'z fsst_scheme"
  assumes "block_driver rw" "calm ROOTDEV st s i W {}" "tree st (blk ROOTDEV s) (sb s) N" "ROOTINO \<in> N"
    "2 \<le> card {j. j < NINODE \<and> iref (inodes s j) = 0}" "0 \<notin> set path" "length junk = DIRSIZ"
  shows "\<exists>r t. namei rw junk (slash # path) s = Ok r t \<and> calm ROOTDEV st t i W {} \<and> same_disk ROOTDEV s t \<and>
    (case resolve (blk ROOTDEV s) (sb s) ROOTINO (elements path) of
       Found n \<Rightarrow> (\<exists>j<NINODE. r = Some j \<and> names (inodes t j) ROOTDEV n) \<and> irefs (inodes t) = add_refs ROOTDEV n 1 (irefs (inodes s))
     | Not_dir \<Rightarrow> r = None \<and> irefs (inodes t) = irefs (inodes s)
     | Missing n \<Rightarrow> r = None \<and> irefs (inodes t) = add_refs ROOTDEV n 1 (irefs (inodes s)))"
  using namei_ok [OF assms] .

text \<open>A root directory with the entry \<open>.\<close>, and the path \<^verbatim>\<open>/./a\<close>.\<close>

definition dot_root :: inode where
  "dot_root = \<lparr>idev = 0, inum = 0, iref = 0, is_valid = False, itype = I_DIR, imajor = 0, iminor = 0, inlink = 1, isize = 16, addrs = (\<lambda>_. 0)(0 := 50)\<rparr>"

definition dot_disk :: "uint \<Rightarrow> byte list" where
  "dot_disk n = (if n = 33 then put_dinode 64 dot_root (replicate 1024 0) else if n = 50 then mk_dirent [46] 1 @ replicate 1008 0 else replicate 1024 0)"

lemma dot_facts:
  "itype (dnode dot_disk demo_sb 1) = I_DIR" "file_data dot_disk demo_sb 1 = mk_dirent [46] 1" "visit_ok 2 dot_disk demo_sb 1"
  "get16 0 (entry (mk_dirent [46] 1) 0) = 1" "dir_find (mk_dirent [46] 1) [46] = Some 0" "dir_find (mk_dirent [46] 1) [97] = None"
proof -
  have b: "IBLOCK 1 demo_sb = 33" "doff 1 = 64" by code_simp+
  have l: "length (mk_dirent [46] 1) = 16" by code_simp
  have n: "dnode dot_disk demo_sb 1 = on_disk dot_root \<lparr>idev = 0, inum = 1, iref = 0, is_valid = False, itype = 0, imajor = 0, iminor = 0, inlink = 0, isize = 0, addrs = (\<lambda>_. 0)\<rparr>"
    by (simp add: dnode_def from_disk_def b dot_disk_def get_put_dinode)
  have f: "itype (dnode dot_disk demo_sb 1) = I_DIR" "isize (dnode dot_disk demo_sb 1) = 16" "inlink (dnode dot_disk demo_sb 1) = 1"
    "addrs (dnode dot_disk demo_sb 1) 0 = 50"
    by (simp_all add: n on_disk_def dot_root_def I_DIR_def)
  have fb: "fblock v (dnode dot_disk demo_sb 1) 0 = 50" for v using f(4) by (simp add: fblock_def NDIRECT_def)
  show "itype (dnode dot_disk demo_sb 1) = I_DIR" by (rule f(1))
  show "file_data dot_disk demo_sb 1 = mk_dirent [46] 1" using l by (simp add: file_data_def fblocks_def f fdata_def content_def fb dot_disk_def)
  show "visit_ok 2 dot_disk demo_sb 1"
    using demo_home [of 50] l by (simp add: visit_ok_def b f I_DIR_def fblocks_def mapped_def fb MAXFILE_def NDIRECT_def dot_disk_def BSIZE_def)
  show "get16 0 (entry (mk_dirent [46] 1) 0) = 1" "dir_find (mk_dirent [46] 1) [46] = Some 0" "dir_find (mk_dirent [46] 1) [97] = None" by code_simp+
qed

theorem namei_correct_witness:
  "\<exists>(s :: fsst) t. namei (disk_rw (\<lambda>_ _. 0) blk_device) (replicate 14 0) [47, 46, 47, 97] s = Ok None t \<and>
     irefs (inodes s) 1 1 = 0 \<and> irefs (inodes t) 1 1 = 1"
proof -
  let ?T = "\<lambda>_. dot_root"
  obtain s :: fsst where s: "itx 1 2 s 0 {}" "blk 1 s = dot_disk" "sb s = demo_sb" "inodes s = ?T" "\<forall>k. sl_locked (sleeplocks s (Inode_lk k)) = 0"
    by (rule demo_fsst)
  have drv: "block_driver (disk_rw (\<lambda>_ _. 0) (blk_device :: fsst \<Rightarrow> fsst))" by (rule vdisk.vrw.block_driver_axioms)
  have "tab_ok 1 dot_disk demo_sb ?T" by (simp add: tab_ok_def it_ok_def dot_root_def)
  then have ca: "calm 1 2 s 0 {} {}" using s by (simp add: calm_def NBUF_def)
  have tr: "tree 2 (blk 1 s) (sb s) {1}" using dot_facts mk_dirent_def by (simp add: tree_def s(2,3)) (simp add: entry_inum_def DIRSIZ_def)
  have fr: "2 \<le> card {j. j < NINODE \<and> iref (inodes s j) = 0}" by (simp add: s(4) dot_root_def NINODE_def)
  have el: "elements [46, 47, 97] = [[46], [97]]" by code_simp
  have z: "(0 :: byte) \<notin> set [46, 47, 97]" "length (replicate 14 (0 :: byte)) = DIRSIZ" by (simp_all add: DIRSIZ_def)
  have rs: "resolve (blk 1 s) (sb s) 1 (elements [46, 47, 97]) = Missing 1" using dot_facts by (simp add: el s(2,3) entry_inum_def)
  obtain t where "namei (disk_rw (\<lambda>_ _. 0) blk_device) (replicate 14 0) (slash # [46, 47, 97]) s = Ok None t"
    "irefs (inodes t) = add_refs 1 1 1 (irefs (inodes s))"
    using namei_correct [OF drv, unfolded ROOTDEV_def ROOTINO_def, OF ca tr _ fr z] rs by auto
  moreover have "irefs (inodes s) 1 1 = 0" by (simp add: irefs_def names_def s(4) dot_root_def)
  ultimately show ?thesis by (intro exI [of _ s] exI [of _ t]) (simp add: slash_def add_refs_def)
qed

end
