(* ===== verification/Mount.thy ===== *)
theory Mount
  imports Mkfs Lookup
begin

text \<open>
  The image that \<^verbatim>\<open>mkfs/mkfs.c\<close> writes, seen by the file system of \<^verbatim>\<open>kernel/src/fs.c\<close>: it is a tree of directories in the sense of
  theory Lookup, and each stored file is found by its name and read back byte for byte.
\<close>

section \<open>Inodes of the image\<close>

text \<open>The kernel sees the blocks of the image and has read its superblock.\<close>

definition mounted :: "uint \<Rightarrow> 'z fsst_scheme \<Rightarrow> mkfs \<Rightarrow> bool" where
  "mounted D s t \<longleftrightarrow> sb s = get_sb (vimg t 1) \<and> (\<forall>b<2000. blk D s b = vimg t b)"

lemma data_home: "46 \<le> b \<Longrightarrow> b < 2000 \<Longrightarrow> home_block 2 b"
  using demo_home [of "unat b"] by (simp add: word_le_nat_alt word_less_nat_alt)

lemma mount_node:
  assumes "image t Cs" "\<forall>b<2000. v b = vimg t b" "k < length Cs"
  defines "n \<equiv> ino k" and "bs \<equiv> snd (Cs ! k)"
  shows "IBLOCK n mkfs_sb < 2 ^ 31" "itype (dnode v mkfs_sb n) = fst (Cs ! k)" "inlink (dnode v mkfs_sb n) = 1"
    "isize (dnode v mkfs_sb n) = of_nat (length bs)" "unat (isize (dnode v mkfs_sb n)) = length bs"
    "mapped 2 v (dnode v mkfs_sb n) (fblocks (dnode v mkfs_sb n))" "file_data v mkfs_sb n = bs"
proof -
  let ?I = "dnode v mkfs_sb n" and ?M = "minode t n" and ?b = "IBLOCK n mkfs_sb" and ?n = "nblk (length bs)" and ?w = "vimg t"
  have im: "mk_ok t" "length Cs < 200" "file_is t n bs" "itype ?M = fst (Cs ! k)" "inlink ?M = 1"
    using assms(1,3) by (auto simp: image_def inode_is_def n_def bs_def)
  have n: "n < 200" using im(2) assms(3) unfolding n_def by (intro ino_less) simp
  have b: "?b < 46" by (rule iblock_meta [OF n])
  have b2: "?b < 2000" using b by (simp add: word_less_nat_alt)
  then show "?b < 2 ^ 31" by (simp add: word_less_nat_alt)
  have vb: "v ?b = ?w ?b" using assms(2) b2 by simp
  have f: "itype ?I = itype ?M" "inlink ?I = inlink ?M" "isize ?I = isize ?M" "\<forall>k\<le>NDIRECT. addrs ?I k = addrs ?M k"
    by (simp_all add: dnode_def from_disk_def minode_def get_dinode_def vb)
  show "itype ?I = fst (Cs ! k)" "inlink ?I = 1" using f im by simp_all
  show z: "isize ?I = of_nat (length bs)" using f(3) im(3) by (simp add: file_is_def)
  show u: "unat (isize ?I) = length bs" using file_size [OF im(3)] f(3) by simp
  then have fb: "fblocks ?I = ?n" by (simp add: fblocks_def nblk_def)
  have "holds t ?I bs" unfolding holds_addrs(1) [OF f(4)] using im(3) by (simp add: file_is_def)
  then have h: "fok ?w (freeblock t) ?I ?n" "content ?w ?I ?n = pad bs" by (simp_all add: holds_def)
  have fr: "freeblock t \<le> 2000" using im(1) by (simp add: mk_ok_def)
  have dat: "v c = ?w c" "home_block 2 c" "c \<noteq> 0" "length (v c) = BSIZE" if "data_blk (freeblock t) c" for c
  proof -
    have c: "46 \<le> c" "c < 2000" using that data_blkD(2) [OF that fr] by (simp_all add: data_blk_def)
    show "v c = ?w c" "home_block 2 c" "c \<noteq> 0" using assms(2) c data_home data_blkD(1) [OF that] by simp_all
    then show "length (v c) = BSIZE" using mk_okD(2) [OF im(1) c(2)] by simp
  qed
  have ind: "data_blk (freeblock t) (addrs ?I NDIRECT)" if "NDIRECT < ?n" using h(1) that by (simp add: fok_def indirect_ok_def)
  have fk: "fblock v ?I j = fblock ?w ?I j" if "j < ?n" for j
    using that dat(1) [OF ind] by (cases "j < NDIRECT") (simp_all add: fblock_def)
  have dk: "data_blk (freeblock t) (fblock ?w ?I j)" if "j < ?n" for j by (rule blockD [OF h(1) that])
  have "?n \<le> MAXFILE" using h(1) by (simp add: fok_def blocks_ok_def)
  then show mp: "mapped 2 v ?I (fblocks ?I)" unfolding fb using dk dat ind by (simp add: mapped_def fk)
  have "content v ?I ?n = content ?w ?I ?n"
    unfolding content_def using fk dat(1) [OF dk] by (intro arg_cong [of _ _ concat] map_cong) simp_all
  then have "content v ?I ?n = pad bs" using h(2) by simp
  then show "file_data v mkfs_sb n = bs" by (simp add: file_data_def fb fdata_def u pad_def)
qed

section \<open>The root directory\<close>

lemma entry_concat:
  assumes "\<forall>d \<in> set ds. length d = 16" "l < length ds"
  shows "entry (concat ds @ zs) l = ds ! l"
  using assms
proof (induction ds arbitrary: l)
  case (Cons d ds)
  show ?case
  proof (cases l)
    case 0
    then show ?thesis using Cons.prems by (simp add: entry_def)
  next
    case (Suc m)
    have "entry (d @ concat ds @ zs) (Suc m) = entry (concat ds @ zs) m" using Cons.prems(1) by (simp add: entry_def)
    then show ?thesis using Cons.IH [of m] Cons.prems Suc by simp
  qed
qed simp

lemma entry_beyond:
  assumes "\<forall>d \<in> set ds. length d = 16" "length ds \<le> l" "l < (16 * length ds + m) div 16"
  shows "get16 0 (entry (concat ds @ replicate m 0) l) = 0"
proof -
  have c: "length (concat ds) = 16 * length ds" using assms(1) by (induction ds) auto
  have "Suc l * 16 \<le> 16 * length ds + m" using assms(3) unfolding Suc_le_eq [symmetric] by (simp only: less_eq_div_iff_mult_less_eq)
  then have "16 * l + 16 \<le> 16 * length ds + m" by simp
  then have "entry (concat ds @ replicate m 0) l = replicate 16 0" using assms(2) c by (simp add: entry_def min_def)
  then show ?thesis by (simp add: get16_def)
qed

text \<open>The names and inode numbers in the order of the entries.\<close>

definition root_list :: "(byte list \<times> byte list list) list \<Rightarrow> (byte list \<times> uint) list" where
  "root_list files = ([0x2e], ROOTINO) # ([0x2e, 0x2e], ROOTINO) # map (\<lambda>k. (stored_name (fst (files ! k)), ino (Suc k))) [0..<length files]"

lemma entries_concat: "entries k fs = concat (map (\<lambda>j. mk_dirent (stored_name (fst (fs ! j))) (ino (k + j))) [0..<length fs])"
proof (induction fs arbitrary: k)
  case (Cons f fs)
  have "[0..<length (f # fs)] = 0 # map Suc [0..<length fs]" by (simp add: upt_conv_Cons map_Suc_upt del: upt_Suc)
  then show ?case using Cons.IH [of "Suc k"] by (simp add: o_def)
qed simp

lemma root_concat: "root_bytes files = concat (map (\<lambda>(nm, i). mk_dirent nm i) (root_list files))"
  using entries_concat [of 1 files] by (simp add: root_bytes_def root_list_def o_def)


lemma dirent_fields:
  "get16 0 (mk_dirent nm i) = ucast i" "cname (drop 2 (mk_dirent nm i)) = cname nm"
proof -
  have "get16 0 (put16 0 (ucast i) (replicate 2 0) @ strncpy_name nm) = get16 0 (put16 0 (ucast i) (replicate 2 0))" by (simp add: get16_def nth_append)
  then show "get16 0 (mk_dirent nm i) = ucast i" by (simp add: mk_dirent_def get16_put16)
  show "cname (drop 2 (mk_dirent nm i)) = cname nm" by (simp add: mk_dirent_def)
qed

lemma small_inum:
  assumes "0 < unat (i :: uint)" "unat i < 200"
  shows "(ucast i :: uint16) \<noteq> 0" "ucast (ucast i :: uint16) = i"
proof -
  have "unat (ucast i :: uint16) = unat i" using assms(2) by (simp add: unsigned_ucast_eq take_bit_nat_eq_self)
  moreover have "unat (ucast x :: uint) = unat x" for x :: uint16
    using unsigned_less [of x, where 'a = nat] by (simp add: unsigned_ucast_eq take_bit_nat_eq_self)
  ultimately have "unat (ucast (ucast i :: uint16) :: uint) = unat i" "unat (ucast i :: uint16) \<noteq> 0" using assms(1) by (metis, metis less_irrefl)
  then show "(ucast i :: uint16) \<noteq> 0" "ucast (ucast i :: uint16) = i" by (auto simp only: word_unat_eq_iff unat_0)
qed

lemma length_root_list [simp]: "length (root_list files) = length files + 2"
  by (simp add: root_list_def)

lemma root_list_inum:
  assumes "l < length files + 2" "length files < 199"
  shows "snd (root_list files ! l) \<in> ino ` {..<Suc (length files)}" "0 < unat (snd (root_list files ! l))" "unat (snd (root_list files ! l)) < 200"
proof -
  have i: "unat (ino k) = Suc k" if "k < 199" for k using that by (simp add: ino_def unat_word_ariths unat_of_nat)
  have r: "ROOTINO = ino 0" by (simp add: ROOTINO_def ino_def)
  consider "l = 0" | "l = 1" | k where "l = Suc (Suc k)" "k < length files" using assms(1) by (cases l; cases "l - 1") auto
  then have "\<exists>k<Suc (length files). snd (root_list files ! l) = ino k" by cases (auto simp: root_list_def r)
  then show "snd (root_list files ! l) \<in> ino ` {..<Suc (length files)}" "0 < unat (snd (root_list files ! l))" "unat (snd (root_list files ! l)) < 200"
    using i assms(2) by auto
qed

lemma root_split: "\<exists>m. pad (root_bytes files) = concat (map (\<lambda>(nm, i). mk_dirent nm i) (root_list files)) @ replicate m 0"
  by (auto simp: pad_def root_concat)

lemma root_entry:
  assumes "l < length files + 2"
  shows "entry (pad (root_bytes files)) l = mk_dirent (fst (root_list files ! l)) (snd (root_list files ! l))"
proof -
  obtain m where m: "pad (root_bytes files) = concat (map (\<lambda>(nm, i). mk_dirent nm i) (root_list files)) @ replicate m 0" using root_split by blast
  show ?thesis unfolding m using assms by (subst entry_concat) (auto split: prod.splits)
qed

lemma root_entry_used:
  assumes "l < length (pad (root_bytes files)) div 16" "get16 0 (entry (pad (root_bytes files)) l) \<noteq> 0"
  shows "l < length files + 2"
proof (rule ccontr)
  assume "\<not> l < length files + 2"
  obtain m where m: "pad (root_bytes files) = concat (map (\<lambda>(nm, i). mk_dirent nm i) (root_list files)) @ replicate m 0" using root_split by blast
  have d: "\<forall>d \<in> set (map (\<lambda>(nm, i). mk_dirent nm i) (root_list files)). length d = 16" by (auto split: prod.splits)
  have "length (pad (root_bytes files)) = 16 * length (map (\<lambda>(nm, i). mk_dirent nm i) (root_list files)) + m"
    unfolding m by (simp flip: root_concat) (simp add: root_bytes_def)
  then show False using entry_beyond [OF d, of l m] assms \<open>\<not> l < length files + 2\<close> by (simp add: m)
qed

text \<open>No two names are the same in their first 14 bytes, none is empty, and names are strings.\<close>

definition proper :: "(byte list \<times> byte list list) list \<Rightarrow> bool" where
  "proper files \<longleftrightarrow> distinct (map (\<lambda>e. cname (fst e)) (root_list files)) \<and> list_all (\<lambda>f. stored_name (fst f) \<noteq> [] \<and> 0 \<notin> set (fst f)) files"

lemma root_find:
  assumes "proper files" "k < length files" "length files < 199"
  shows "dir_find (pad (root_bytes files)) (stored_name (fst (files ! k))) = Some (Suc (Suc k))"
    "entry_inum (pad (root_bytes files)) (Suc (Suc k)) = ino (Suc k)"
proof -
  let ?d = "pad (root_bytes files)" and ?E = "root_list files" and ?l = "Suc (Suc k)" and ?nm = "stored_name (fst (files ! k))"
  have l: "?l < length files + 2" "?E ! ?l = (?nm, ino (Suc k))" using assms(2) by (simp_all add: root_list_def)
  have mt: "matches ?d ?nm j \<longleftrightarrow> cname (fst (?E ! j)) = cname ?nm" if "j < length files + 2" for j
    using root_list_inum [OF that assms(3)] small_inum by (auto simp: matches_def root_entry [OF that] dirent_fields)
  have "distinct (map (\<lambda>e. cname (fst e)) ?E)" using assms(1) by (simp add: proper_def)
  then have "\<not> matches ?d ?nm j" if "j < ?l" for j
    using that l mt [of j] nth_eq_iff_index_eq [of "map (\<lambda>e. cname (fst e)) ?E" j ?l] by auto
  moreover have "matches ?d ?nm ?l" using mt [OF l(1)] l(2) by simp
  moreover have "?l < length ?d div 16"
  proof -
    have "length (root_bytes files) = 16 * (length files + 2)" by (simp add: root_bytes_def)
    then have "16 * (length files + 2) \<le> length ?d" by (simp add: pad_def)
    from div_le_mono [OF this, of 16] show ?thesis using l(1) by simp
  qed
  ultimately show "dir_find ?d ?nm = Some ?l" unfolding dir_find_def find_Some_iff by (intro exI [of _ ?l]) auto
  have "0 < unat (ino (Suc k))" "unat (ino (Suc k)) < 200" using root_list_inum(2,3) [OF l(1) assms(3)] l(2) by simp_all
  then show "entry_inum ?d ?l = ino (Suc k)" using small_inum(2) by (simp add: entry_inum_def root_entry [OF l(1)] l(2) dirent_fields)
qed


definition all_files :: "(byte list \<times> byte list list) list \<Rightarrow> (uint \<times> byte list) list" where
  "all_files files = (I_DIR, pad (root_bytes files)) # map stored files"

lemma all_files_type: "k < Suc (length files) \<Longrightarrow> fst (all_files files ! k) = (if k = 0 then I_DIR else I_FILE)"
  by (cases k) (simp_all add: all_files_def stored_def)

lemma mount_tree:
  assumes "image t (all_files files)" "\<forall>b<2000. v b = vimg t b" "length files < 199" "(length files + 2) mod 64 \<noteq> 0"
  shows "tree 2 v mkfs_sb (ino ` {..<Suc (length files)})"
  unfolding tree_def
proof (intro ballI)
  fix n
  assume "n \<in> ino ` {..<Suc (length files)}"
  then obtain k where k: "n = ino k" "k < Suc (length files)" by blast
  then have "k < length (all_files files)" by (simp add: all_files_def)
  note f = mount_node [OF assms(1,2) this, folded k(1)]
  let ?d = "pad (root_bytes files)"
  have md: "length (root_bytes files) mod 1024 \<noteq> 0" using assms(4) mod_mult_mult1 [of 16 "length files + 2" 64] by (simp add: root_bytes_def algebra_simps)
  have root: "k = 0 \<and> file_data v mkfs_sb n = ?d" if "itype (dnode v mkfs_sb n) = I_DIR"
    using that f(2,7) all_files_type [OF k(2)] by (auto simp: all_files_def I_DIR_def I_FILE_def split: if_splits)
  have "itype (dnode v mkfs_sb n) \<noteq> 0" using f(2) all_files_type [OF k(2)] by (simp add: I_DIR_def I_FILE_def)
  moreover have "16 dvd unat (isize (dnode v mkfs_sb n))" if "itype (dnode v mkfs_sb n) = I_DIR"
    using root [OF that] f(5) pad_length(1) [OF md] by (simp add: all_files_def)
  ultimately have "visit_ok 2 v mkfs_sb n" using f(1,3,6) by (simp add: visit_ok_def)
  moreover have "entry_inum ?d l \<in> ino ` {..<Suc (length files)}" if "l < length ?d div 16" "get16 0 (entry ?d l) \<noteq> 0" for l
  proof -
    have l: "l < length files + 2" by (rule root_entry_used [OF that])
    note i = root_list_inum [OF l assms(3)]
    have "entry_inum ?d l = snd (root_list files ! l)"
      using small_inum(2) [OF i(2,3)] by (simp add: entry_inum_def root_entry [OF l] dirent_fields)
    then show ?thesis using i(1) by simp
  qed
  ultimately show "visit_ok 2 v mkfs_sb n \<and> (itype (dnode v mkfs_sb n) = I_DIR \<longrightarrow> (\<forall>l<length (file_data v mkfs_sb n) div 16.
      get16 0 (entry (file_data v mkfs_sb n) l) \<noteq> 0 \<longrightarrow> entry_inum (file_data v mkfs_sb n) l \<in> ino ` {..<Suc (length files)}))"
    using root by auto
qed

lemma elements_single: "slash \<notin> set p \<Longrightarrow> p \<noteq> [] \<Longrightarrow> elements p = [p]"
proof -
  have a: "slash \<notin> set p \<Longrightarrow> e @ p \<noteq> [] \<Longrightarrow> elements_acc e p = [e @ p]" for e
    by (induction p arbitrary: e) auto
  show "slash \<notin> set p \<Longrightarrow> p \<noteq> [] \<Longrightarrow> elements p = [p]" using a [of "[]"] by (simp add: elements_def)
qed

lemma stored_name_sub: "set (stored_name path) \<subseteq> set (shortname path)" "set (shortname path) \<subseteq> set path"
  by (cases "shortname path"; auto simp: stored_name_def) (auto simp: shortname_def dest: in_set_dropD)

lemma stored_resolve:
  assumes "image t (all_files files)" "\<forall>b<2000. v b = vimg t b" "length files < 199" "list_all storable files" "proper files" "k < length files"
  defines "nm \<equiv> stored_name (fst (files ! k))"
  shows "resolve v mkfs_sb ROOTINO (elements nm) = Found (ino (Suc k))" "0 \<notin> set nm"
proof -
  have f: "files ! k \<in> set files" using assms(6) by simp
  have p: "nm \<noteq> []" "0 \<notin> set (fst (files ! k))" "slash \<notin> set (shortname (fst (files ! k)))"
    using assms(4,5) f by (auto simp: list_all_iff storable_def proper_def nm_def slash_def)
  then have "slash \<notin> set nm" unfolding nm_def using stored_name_sub by blast
  show "0 \<notin> set nm" unfolding nm_def using p(2) stored_name_sub by blast
  have r: "ROOTINO = ino 0" by (simp add: ROOTINO_def ino_def)
  note g = mount_node(2,7) [OF assms(1,2), of 0, folded r]
  have d: "itype (dnode v mkfs_sb ROOTINO) = I_DIR" "file_data v mkfs_sb ROOTINO = pad (root_bytes files)"
    using g by (simp_all add: all_files_def)
  show "resolve v mkfs_sb ROOTINO (elements nm) = Found (ino (Suc k))"
    unfolding elements_single [OF \<open>slash \<notin> set nm\<close> p(1)] using d root_find [OF assms(5,6,3)] by (simp add: nm_def)
qed

text \<open>
  C13: What \<open>mkfs\<close> stores, the kernel reads. Let \<open>mkfs\<close> make an image of files with different proper names, and let the kernel see the blocks of
  that image and have its superblock. Then \<open>namei\<close> finds every file under its stored name in the root directory, and after locking the
  inode it got, \<open>readi\<close> of the whole file returns exactly the bytes that \<open>mkfs\<close> was given.
\<close>

theorem mkfs_kernel_roundtrip:
  fixes s :: "'z fsst_scheme"
  assumes "length files < 199" "list_all storable files" "blocks ((I_DIR, root_bytes files) # map stored files) \<le> nblocks"
    "(length files + 2) mod 64 \<noteq> 0" "proper files" "mkfs_main files mkfs_init = Ok () t"
    "block_driver rw" "calm ROOTDEV 2 s i W {}" "mounted ROOTDEV s t" "2 \<le> card {j. j < NINODE \<and> iref (inodes s j) = 0}" "length junk = DIRSIZ"
    "k < length files"
  defines "dat \<equiv> concat (snd (files ! k))"
  shows "\<exists>j u w. namei rw junk (slash # stored_name (fst (files ! k))) s = Ok (Some j) u \<and>
    seq (ilock rw (Some j)) (readi rw j To_local 0 (of_nat (length dat))) u = Ok (int (length dat), dat) w"
proof -
  let ?D = ROOTDEV let ?v = "blk ?D s" let ?n = "ino (Suc k)" let ?nm = "stored_name (fst (files ! k))"
  have im: "image t (all_files files)" "sb s = mkfs_sb" "\<forall>b<2000. ?v b = vimg t b"
    using mkfs_image [OF assms(1-4)] assms(6,9) by (auto simp: all_files_def mounted_def)
  have tr: "tree 2 ?v (sb s) (ino ` {..<Suc (length files)})" unfolding im(2) by (rule mount_tree [OF im(1,3) assms(1,4)])
  have ri: "ROOTINO \<in> ino ` {..<Suc (length files)}" by (auto simp: ROOTINO_def ino_def intro!: image_eqI [of _ _ 0])
  note rs = stored_resolve [OF im(1,3) assms(1,2,5,12)]
  obtain j u where u: "namei rw junk (slash # ?nm) s = Ok (Some j) u" "calm ?D 2 u i W {}" "same_disk ?D s u" "j < NINODE" "names (inodes u j) ?D ?n"
    using namei_found [OF assms(7,8) tr ri assms(10) rs(2) assms(11), unfolded im(2), OF rs(1)] by blast
  have sd: "blk ?D u = ?v" "sb u = mkfs_sb" using u(3) im(2) by (simp_all add: same_disk_def)
  have k: "Suc k < length (all_files files)" "snd (all_files files ! Suc k) = dat" using assms(12) by (simp_all add: all_files_def stored_def dat_def)
  note f = mount_node [OF im(1,3) k(1), unfolded k(2)]
  have ty: "get16 (doff ?n) (blk ?D u (IBLOCK ?n (sb u))) \<noteq> 0"
    using f(2) all_files_type [of "Suc k" files] assms(12) unfolding sd itype_get16 [symmetric] by (simp add: I_FILE_def)
  obtain w where w: "ilock rw (Some j) u = Ok () w" "calm ?D 2 w i W {j}" "same_disk ?D u w"
    "inodes w = (inodes u)(j := (from_disk ?v mkfs_sb (inodes u j))\<lparr>is_valid := True\<rparr>)"
    using ilock_calm [OF assms(7) u(2,4,5) _ ty] f(1) unfolding sd by blast
  let ?I = "(inodes u j)\<lparr>is_valid := True\<rparr>" and ?N = "dnode ?v mkfs_sb ?n"
  have I: "inum ?I = ?n" "idev (inodes u j) = ?D" using u(5) by (simp_all add: names_def)
  have vw: "blk ?D w = ?v" "inodes w j = from_disk ?v mkfs_sb ?I" using w(3,4) sd by (simp_all add: same_disk_def)
  note e = dnode_entry [OF I(1), where v = ?v and S = mkfs_sb, folded vw(2)]
  have mp: "mapped 2 (blk ?D w) (inodes w j) (fblocks ?N)" unfolding vw(1) e(5) by (rule f(6))
  have sz: "isize (inodes w j) = isize ?N" "fdata (blk ?D w) (inodes w j) (fblocks ?N) = dat"
    using e(2,4) f(7) unfolding vw(1) file_data_def by simp_all
  have tx: "txs ?D 2 w i {} W" "card W < NBUF" "idev (inodes w j) = ?D" using w(2) I(2) by (simp_all add: calm_def itx_def vw)
  have n: "unat (of_nat (length dat) :: uint) = length dat" using f(4,5) by simp
  obtain x where "readi rw j To_local 0 (of_nat (length dat)) w = Ok (int (length dat), dat) x"
    using readi_ok [OF assms(7) tx(1,3) mp _ tx(2), of 0 "of_nat (length dat)"] fblocks_enough [of ?N] sz n by auto
  then show ?thesis using u(1) w(1) by auto
qed


lemma itx_sb: "itx D st (s\<lparr>sb := x\<rparr>) i W = itx D st s i W"
  by (simp add: itx_def txs_def tst_def bst_def binv_def bheld_def running_def cur_def)

text \<open>An image with one file, \<open>user/_a\<close>, whose name in the image is \<open>a\<close>.\<close>

theorem mkfs_kernel_roundtrip_witness:
  "\<exists>t (s :: fsst) j u w. mkfs_main [([0x75, 0x73, 0x65, 0x72, 0x2f, 0x5f, 0x61], [[1, 2], [3]])] mkfs_init = Ok () t \<and> mounted 1 s t \<and>
     namei (disk_rw (\<lambda>_ _. 0) blk_device) (replicate 14 0) [47, 97] s = Ok (Some j) u \<and>
     seq (ilock (disk_rw (\<lambda>_ _. 0) blk_device) (Some j)) (readi (disk_rw (\<lambda>_ _. 0) blk_device) j To_local 0 3) u = Ok (3, [1, 2, 3]) w"
proof -
  let ?fs = "[([0x75, 0x73, 0x65, 0x72, 0x2f, 0x5f, 0x61], [[1, 2], [3]])] :: (byte list \<times> byte list list) list"
  have b: "blocks ((I_DIR, root_bytes ?fs) # map stored ?fs) \<le> nblocks"
    by (simp add: stored_def root_bytes_def need_def nblk_def nmeta_val NDIRECT_def)
  have st: "list_all storable ?fs" by (simp add: storable_def shortname_def user_prefix_def BSIZE_def MAXFILE_def NDIRECT_def NINDIRECT_def)
  have nm: "stored_name (fst (?fs ! 0)) = [97]" by code_simp
  have pr: "proper ?fs" by code_simp
  have l: "length ?fs < 199" "(length ?fs + 2) mod 64 \<noteq> 0" "0 < length ?fs" by simp_all
  obtain t where t: "mkfs_main ?fs mkfs_init = Ok () t" "get_sb (vimg t 1) = mkfs_sb" using mkfs_image [OF l(1) st b l(2)] by blast
  obtain s0 :: fsst where s0: "itx 1 2 s0 0 {}" "blk 1 s0 = vimg t" "inodes s0 = (\<lambda>_. dot_root)" "\<forall>k. sl_locked (sleeplocks s0 (Inode_lk k)) = 0"
    by (rule demo_fsst)
  define s where "s = s0\<lparr>sb := mkfs_sb\<rparr>"
  have "blk 1 s = blk 1 s0" unfolding s_def by (rule blk_same) simp_all
  then have x: "blk 1 s = vimg t" "itx 1 2 s 0 {}"
    using s0(1,2) by (simp_all add: s_def itx_sb)
  have "tab_ok 1 (vimg t) mkfs_sb (\<lambda>_. dot_root)" by (simp add: tab_ok_def it_ok_def dot_root_def)
  then have ca: "calm 1 2 s 0 {} {}" using x s0(3,4) by (simp add: calm_def NBUF_def) (simp add: s_def)
  have mo: "mounted 1 s t" using x(1) t(2) by (simp add: mounted_def) (simp add: s_def)
  have fr: "2 \<le> card {j. j < NINODE \<and> iref (inodes s j) = 0}" by (simp add: s_def s0(3) dot_root_def NINODE_def)
  have drv: "block_driver (disk_rw (\<lambda>_ _. 0) (blk_device :: fsst \<Rightarrow> fsst))" by (rule vdisk.vrw.block_driver_axioms)
  have z: "length (replicate 14 (0 :: byte)) = DIRSIZ" by (simp add: DIRSIZ_def)
  from mkfs_kernel_roundtrip [OF l(1) st b l(2) pr t(1) drv, unfolded ROOTDEV_def, OF ca mo fr z l(3)] show ?thesis
    using t(1) mo unfolding nm by (auto simp: slash_def)
qed

end
