(* ===== verification/Spec2Isabelle.thy ===== *)
theory Spec2Isabelle
  imports Balance Fd Args Conread Boot Mount
begin

text \<open>
  \<^bold>\<open>A verification library for the xv6-stepbystep kernel.\<close>

  The program is a teaching kernel for RISC-V in C (\<^verbatim>\<open>kernel/src\<close>, headers in \<^verbatim>\<open>kernel/inc\<close>) and the host tool that makes its
  disk image (\<^verbatim>\<open>mkfs/mkfs.c\<close>). From the bottom up: spin locks and interrupt nesting; a page allocator; Sv39 page tables for the kernel
  and for user processes; processes, the scheduler and sleep/wakeup; sleep locks; a virtio disk driver; a cache of block buffers; a
  write-ahead log; the file system (blocks, inodes, directories, paths); pipes and open files; fork, exit and exec; the system calls;
  the serial port, the console and formatted output; the interrupt controller and traps; boot. Each layer calls only the ones below,
  and the development has the same order.

  \<^bold>\<open>How the code is represented.\<close> A routine is a function from a state to an \<open>outcome\<close> (theory Prelude): it returns a value in
  a new state, panics with the source's message, spins forever on a lock nobody will release, or gives up the processor
  (\<open>Swtch\<close>); where the code after a switch matters there is a second definition that continues it (\<open>sleep_resume\<close>, \<open>yield_resume\<close>,
  \<open>usertrap_resume\<close>). The state is one record that grows by extension from layer to layer (\<open>machine\<close>, \<open>kmem\<close>, \<open>vm\<close>, \<open>ptable\<close>, \<open>slocks\<close>,
  \<open>kdisk\<close>, \<open>logst\<close>, \<open>fsblk\<close>, \<open>fsst\<close>, \<open>pipest\<close>, \<open>ftab\<close>, \<open>sysst\<close>, \<open>consst\<close>, \<open>trapst\<close>; \<open>mkfs\<close> has a state of its own), so that a lower routine runs unchanged in an upper state. C integers are words of
  their width wherever they can wrap; counters that the code keeps small are \<open>int\<close> or \<open>nat\<close>. Physical memory is a function
  from 64-bit addresses to bytes. Structures laid over disk blocks are read and written byte by byte (theory Bytes). A
  C string or kernel buffer that lies in a kernel object of its own is a byte list.

  \<^bold>\<open>Loops.\<close> Counted loops recurse on the number of rounds left. Loops whose end is not syntactic are \<open>function\<close>s with a
  termination proof (page ranges, \<open>copyin\<close>, \<open>copyout\<close>, \<open>readi\<close>, \<open>writei\<close>, \<open>namex\<close>). The two searches of the buffer list carry a
  bound of \<open>NBUF + 1\<close> nodes: the list has that many, so a longer walk is in a cycle without the sentinel (\<open>Spin\<close>); the cache
  invariant excludes it. \<open>freewalk\<close> carries the three levels of Sv39, and \<open>vmprint\<close> a bound for its depth that \<open>vmprint_correct\<close> shows three to meet. The loop of \<open>filewrite\<close> on a file never advances its index; it
  carries a bound of 4 rounds, whose exhaustion is a result of its own, and \<open>filewrite_ends\<close> shows that this result does not occur,
  because a fourth \<open>begin_op\<close> does not return. \<open>uartintr\<close> carries a bound for the
  bytes the serial port offers in one interrupt, which only the device knows. The loops over the rings of the console and the serial
  port are bounded by what the rings hold, and \<open>uartsleep\<close>, \<open>printf\<close> and \<open>iappend\<close> end by a measure.

  \<^bold>\<open>The theories.\<close>
  \<^item> Prelude, Memory, Bytes: machine integers, the outcome monad, weakest preconditions (\<open>wp\<close>: total correctness),
    64-bit memory accesses, little-endian fields.
  \<^item> Riscv: constants and address arithmetic of \<^verbatim>\<open>riscv.h\<close>, \<^verbatim>\<open>memlayout.h\<close>; packing of page-table entries.
  \<^item> Cstring: \<^verbatim>\<open>string.c\<close> over memory.
  \<^item> Spinlock: \<^verbatim>\<open>spinlock.c\<close> and the interrupt nesting of \<^verbatim>\<open>proc.c\<close>: routines on one hart, and the interleaving of several
    harts as a step relation with mutual exclusion by rule induction.
  \<^item> Kalloc: \<^verbatim>\<open>kalloc.c\<close>; the free list threaded through memory refines a stack of pages (locale \<open>page_allocator\<close>).
  \<^item> Vm, Uvm: \<^verbatim>\<open>vm.c\<close>; page tables as trees in memory, what mapping, unmapping and the copies between kernel and user do to
    the translation and to the bytes the user sees.
  \<^item> Proc: \<^verbatim>\<open>proc.c\<close>; process table, scheduler, \<open>sleep\<close> statement by statement with the locks it holds between the
    statements, and \<open>wakeup\<close>, with the absence of lost wake-ups over all interleavings of one process that waits and one that wakes it.
  \<^item> Sleeplock: \<^verbatim>\<open>sleeplock.c\<close> (locale \<open>sleep_mutex\<close>).
  \<^item> Virtio: \<^verbatim>\<open>virtio_disk.c\<close>; descriptors, requests and the interrupt handler. The device is a parameter: its
    registers and a function that serves the queue (hypothesis \<open>serves\<close>, met by the executable \<open>blk_device\<close>).
  \<^item> Bio: \<^verbatim>\<open>bio.c\<close>; the doubly linked list refines a list in order of use; reading through the cache
    (locales \<open>block_driver\<close>, \<open>block_cache\<close>).
  \<^item> Log: \<^verbatim>\<open>log.c\<close>; the writes of a commit in order, recovery, crash safety, durability of an operation.
  \<^item> Fsblock, Inode, Fcontent, Path, Dir: \<^verbatim>\<open>fs.c\<close>; block allocation inside a transaction (locale \<open>transaction\<close>), the inode table
    as reference counts, inodes on disk, files as byte lists, names and paths, directories as lists of entries.
  \<^item> Ring: rings of bytes indexed by wrapping counters, as byte queues, for the console and the serial port.
  \<^item> Pipe, File: \<^verbatim>\<open>pipe.c\<close>, \<^verbatim>\<open>file.c\<close>; a pipe refines a bounded queue; the open file table with reference counts and well-typed entries.
  \<^item> Lookup: path lookup on a quiet file system refines a walk through a tree of names.
  \<^item> Fork, Exec, Args: \<open>fork\<close>, \<open>exit\<close> and the first process of \<^verbatim>\<open>proc.c\<close>, and \<^verbatim>\<open>exec.c\<close>; what the stack holds for the new program.
  \<^item> Sysproc, Sysfile, Syscall: \<^verbatim>\<open>sysproc.c\<close>, \<^verbatim>\<open>sysfile.c\<close> and \<^verbatim>\<open>syscall.c\<close>: the arguments of a call, each call, the table of calls.
  \<^item> Frame, Balance, Fd: what the file system calls leave alone, that each brackets its work by \<open>begin_op\<close> and \<open>end_op\<close>, and that
    descriptors and the reference counts of open files agree.
  \<^item> Uart, Printf: \<^verbatim>\<open>uart.c\<close>, \<^verbatim>\<open>printf.c\<close>; transmission as a queue, numbers and their text, and rules that give the text a \<open>printf\<close> sends.
  \<^item> Debug: the routines of \<^verbatim>\<open>proc.c\<close> and \<^verbatim>\<open>vm.c\<close> that print processes and page tables.
  \<^item> Console, Conread: \<^verbatim>\<open>console.c\<close>; line editing, and reading the lines.
  \<^item> Csr, Trap: the control and status registers of \<^verbatim>\<open>riscv.h\<close>, \<^verbatim>\<open>plic.c\<close> and \<^verbatim>\<open>trap.c\<close>; the path of every system call from user
    space into its routine and back, and preemption by the timer.
  \<^item> Boot: \<^verbatim>\<open>start.c\<close> and \<^verbatim>\<open>main.c\<close>.
  \<^item> Mkfs: \<^verbatim>\<open>mkfs.c\<close>; the image it writes holds exactly the files it was given, in the format the kernel's routines read.
  \<^item> Mount: the two together: on an image made by \<open>mkfs\<close> the kernel finds each file by its name and reads its bytes.

  \<^bold>\<open>Interfaces.\<close> Each locale names the operations a client calls and the laws it relies on; its interpretation on the
  model's definitions is in the theory that provides them, and the properties rest on its lemmas.

  \<^bold>\<open>Parameters.\<close> The disk device, the serial port, the interrupt controller, the addresses of assembly symbols, and the two
  routines that the sources call and no file defines (\<open>uartputc_sync\<close>, \<open>sys_sleep\<close>) are arguments of the definitions that use
  them. What a property needs of them is a hypothesis in its statement, and its witness has a concrete instance.

  \<^bold>\<open>Not modelled.\<close> Assembly (\<^verbatim>\<open>swtch.S\<close>, trampoline, \<open>kernelvec\<close>, entry), whose effect appears as the outcome \<open>Swtch\<close>, the resume
  functions and the result of \<open>usertrapret\<close>; user programs; the test routines that nothing calls (\<open>virtio_disk_test\<close>). The messages that \<open>scheduler\<close>, \<open>kmemtest\<close>, \<open>ialloc\<close>, \<open>sys_write\<close>
  and \<open>sys_close\<close> print are left out, because their state lies below that of the console; traps and the dispatch of system calls print as in the code. When a routine sleeps deep inside
  a call, the model gives the state at the switch and the rest of the sleeping routine, but not the rest of the callers above it.
\<close>

end
